(* ===== verification/Prelude.thy ===== *)
theory Prelude
  imports Main "HOL-Library.Word" "HOL-Library.Monad_Syntax" "HOL-Library.Multiset"
begin

text \<open>
  What every component of the kernel model shares.

  \<^item> A C function that may stop the kernel (a failed \<^verbatim>\<open>assert\<close>, \<^verbatim>\<open>panic\<close>) or loop for ever
    returns an \<open>option\<close>: \<open>None\<close> is ``does not return''.  \<open>kassert\<close> is the
    \<^verbatim>\<open>assert\<close> macro of \<^verbatim>\<open>kern/debug/assert.h\<close>.
  \<^item> Unsigned 32-bit and 64-bit values that are only counted with are naturals with
    the wrap-around written out by \<open>u32\<close>, \<open>u32_sub\<close>, \<open>u64\<close>; values that are worked on bitwise
    are words.
  \<^item> The error numbers of \<^verbatim>\<open>libs/error.h\<close> and the generic list lemmas.
\<close>

unbundle bit_operations_syntax

named_theorems kernel_defs \<open>definitions unfolded by the component proofs\<close>

section \<open>Assertions\<close>

definition kassert :: "bool \<Rightarrow> unit option" where
  "kassert b = (if b then Some () else None)"

lemma kassert_True [simp]: "kassert True = Some ()"
  and kassert_False [simp]: "kassert False = None"
  by (simp_all add: kassert_def)

lemma kassert_bind [simp]:
  "Option.bind (kassert b) f = (if b then f () else None)"
  by (simp add: kassert_def)

lemma kassert_bind_Some:
  "Option.bind (kassert b) f = Some x \<longleftrightarrow> b \<and> f () = Some x"
  by simp

section \<open>Unsigned arithmetic with its width written out\<close>

definition u32 :: "nat \<Rightarrow> nat" where
  "u32 x = x mod 2 ^ 32"

definition u32_sub :: "nat \<Rightarrow> nat \<Rightarrow> nat" where
  "u32_sub a b = (a + (2 ^ 32 - b mod 2 ^ 32)) mod 2 ^ 32"

definition u64 :: "nat \<Rightarrow> nat" where
  "u64 x = x mod 2 ^ 64"

definition u64_sub :: "nat \<Rightarrow> nat \<Rightarrow> nat" where
  "u64_sub a b = (a + (2 ^ 64 - b mod 2 ^ 64)) mod 2 ^ 64"

lemma u32_id: "x < 2 ^ 32 \<Longrightarrow> u32 x = x"
  by (simp add: u32_def)

lemma u32_lt: "u32 x < 2 ^ 32"
  by (simp add: u32_def)

lemma u64_id: "x < 2 ^ 64 \<Longrightarrow> u64 x = x"
  by (simp add: u64_def)

lemma u32_sub_id:
  assumes "b \<le> a" and "a < 2 ^ 32"
  shows "u32_sub a b = a - b"
proof -
  have "b mod 2 ^ 32 = b" using assms by simp
  moreover have "a + (2 ^ 32 - b) = (a - b) + 2 ^ 32" using assms by simp
  moreover have "(a - b + 2 ^ 32) mod 2 ^ 32 = a - b" using assms by (simp only: mod_add_self2) simp
  ultimately show ?thesis by (simp only: u32_sub_def)
qed

lemma u32_sub_lt: "u32_sub a b < 2 ^ 32"
  by (simp add: u32_sub_def)

section \<open>Bits of words\<close>

lemma bit_lt: "n < 2 ^ k \<Longrightarrow> k \<le> i \<Longrightarrow> \<not> bit n i" for n :: nat
proof
  assume "n < 2 ^ k" "k \<le> i" "bit n i"
  then show False using bit_take_bit_iff [of k n i] by (simp add: take_bit_nat_eq_self)
qed

lemma bit_word_nat: "bit (word_of_nat n :: 'a::len word) i \<longleftrightarrow> i < LENGTH('a) \<and> bit n i"
  by transfer (simp add: bit_take_bit_iff bit_of_nat_iff_bit)

lemma bit_unat_lt: "unat w < 2 ^ k \<Longrightarrow> k \<le> i \<Longrightarrow> \<not> bit w i" for w :: "'a::len word"
  using bit_lt [of "unat w" k i] by (simp add: bit_unsigned_iff)

section \<open>Error numbers of libs/error.h\<close>

abbreviation (input) E_UNSPECIFIED :: int where "E_UNSPECIFIED \<equiv> 1"
abbreviation (input) E_BAD_PROC :: int where "E_BAD_PROC \<equiv> 2"
abbreviation (input) E_INVAL :: int where "E_INVAL \<equiv> 3"
abbreviation (input) E_NO_MEM :: int where "E_NO_MEM \<equiv> 4"
abbreviation (input) E_NO_FREE_PROC :: int where "E_NO_FREE_PROC \<equiv> 5"
abbreviation (input) E_FAULT :: int where "E_FAULT \<equiv> 6"
abbreviation (input) E_INVAL_ELF :: int where "E_INVAL_ELF \<equiv> 8"
abbreviation (input) E_KILLED :: int where "E_KILLED \<equiv> 9"
abbreviation (input) E_TOO_BIG :: int where "E_TOO_BIG \<equiv> 12"
abbreviation (input) E_NO_DEV :: int where "E_NO_DEV \<equiv> 13"
abbreviation (input) E_NA_DEV :: int where "E_NA_DEV \<equiv> 14"
abbreviation (input) E_BUSY :: int where "E_BUSY \<equiv> 15"
abbreviation (input) E_NOENT :: int where "E_NOENT \<equiv> 16"
abbreviation (input) E_ISDIR :: int where "E_ISDIR \<equiv> 17"
abbreviation (input) E_NOTDIR :: int where "E_NOTDIR \<equiv> 18"
abbreviation (input) E_XDEV :: int where "E_XDEV \<equiv> 19"
abbreviation (input) E_UNIMP :: int where "E_UNIMP \<equiv> 20"
abbreviation (input) E_SEEK :: int where "E_SEEK \<equiv> 21"
abbreviation (input) E_MAX_OPEN :: int where "E_MAX_OPEN \<equiv> 22"
abbreviation (input) E_EXISTS :: int where "E_EXISTS \<equiv> 23"
abbreviation (input) E_NOTEMPTY :: int where "E_NOTEMPTY \<equiv> 24"

section \<open>Lists\<close>

lemma distinct_append_mid:
  "distinct (xs @ y # ys) \<longleftrightarrow>
     distinct (xs @ ys) \<and> y \<notin> set xs \<and> y \<notin> set ys"
  by auto

lemma remove1_mid [simp]: "y \<notin> set xs \<Longrightarrow> remove1 y (xs @ y # ys) = xs @ ys"
  by (induction xs) auto

lemma sorted_wrt_mid:
  "sorted_wrt P (xs @ y # ys) \<longleftrightarrow>
     sorted_wrt P (xs @ ys) \<and> (\<forall>x\<in>set xs. P x y) \<and> (\<forall>z\<in>set ys. P y z)"
  by (auto simp: sorted_wrt_append)

lemma mset_rotate [simp]: "mset (rotate n xs) = mset xs"
proof (induction n)
  case (Suc n)
  have "mset (rotate1 ys) = mset ys" for ys :: "'a list" by (cases ys) simp_all
  then show ?case using Suc by simp
qed simp

end
