(* ===== verification/KList.thy ===== *)
theory KList
  imports Prelude
begin

text \<open>
  The intrusive circular doubly linked list of \<^verbatim>\<open>libs/list.h\<close>, on an explicit store of
  links: every node of the program (a list head, the \<^verbatim>\<open>page_link\<close> of a page, the
  \<^verbatim>\<open>run_link\<close> of a process) is an address of type \<open>'n\<close>, and \<open>nxt\<close>, \<open>prv\<close> are the two
  fields of \<^verbatim>\<open>struct list_entry\<close>.  Every operation is the sequence of field assignments of
  the C text.  \<open>dlist l h xs\<close> says that \<open>h\<close> heads a well-formed ring holding \<open>xs\<close>;
  the laws give what each operation does to the represented sequence.
\<close>

section \<open>The store and the operations\<close>

record 'n list_entry =
  nxt :: "'n \<Rightarrow> 'n"
  prv :: "'n \<Rightarrow> 'n"

definition set_next :: "'n \<Rightarrow> 'n \<Rightarrow> 'n list_entry \<Rightarrow> 'n list_entry" where
  "set_next a b l = l\<lparr>nxt := (nxt l)(a := b)\<rparr>"

definition set_prev :: "'n \<Rightarrow> 'n \<Rightarrow> 'n list_entry \<Rightarrow> 'n list_entry" where
  "set_prev a b l = l\<lparr>prv := (prv l)(a := b)\<rparr>"

lemma set_next_sel [simp]:
  "nxt (set_next a b l) = (nxt l)(a := b)" "prv (set_next a b l) = prv l"
  by (simp_all add: set_next_def)

lemma set_prev_sel [simp]:
  "prv (set_prev a b l) = (prv l)(a := b)" "nxt (set_prev a b l) = nxt l"
  by (simp_all add: set_prev_def)

text \<open>\<^verbatim>\<open>elm->prev = elm->next = elm\<close>\<close>

definition list_init :: "'n \<Rightarrow> 'n list_entry \<Rightarrow> 'n list_entry" where
  "list_init elm l = set_prev elm elm (set_next elm elm l)"

text \<open>\<^verbatim>\<open>__list_add\<close>: the four assignments, in the order the C text makes them.\<close>

definition list_add_between :: "'n \<Rightarrow> 'n \<Rightarrow> 'n \<Rightarrow> 'n list_entry \<Rightarrow> 'n list_entry" where
  "list_add_between elm prev next l =
     (let l = set_prev next elm l;
          l = set_next prev elm l;
          l = set_next elm next l
      in set_prev elm prev l)"

definition list_add_after :: "'n \<Rightarrow> 'n \<Rightarrow> 'n list_entry \<Rightarrow> 'n list_entry" where
  "list_add_after listelm elm l = list_add_between elm listelm (nxt l listelm) l"

definition list_add :: "'n \<Rightarrow> 'n \<Rightarrow> 'n list_entry \<Rightarrow> 'n list_entry" where
  "list_add listelm elm l = list_add_after listelm elm l"

definition list_add_before :: "'n \<Rightarrow> 'n \<Rightarrow> 'n list_entry \<Rightarrow> 'n list_entry" where
  "list_add_before listelm elm l = list_add_between elm (prv l listelm) listelm l"

text \<open>\<^verbatim>\<open>__list_del\<close>\<close>

definition list_del_between :: "'n \<Rightarrow> 'n \<Rightarrow> 'n list_entry \<Rightarrow> 'n list_entry" where
  "list_del_between prev next l = set_prev next prev (set_next prev next l)"

definition list_del :: "'n \<Rightarrow> 'n list_entry \<Rightarrow> 'n list_entry" where
  "list_del listelm l = list_del_between (prv l listelm) (nxt l listelm) l"

definition list_del_init :: "'n \<Rightarrow> 'n list_entry \<Rightarrow> 'n list_entry" where
  "list_del_init listelm l = list_init listelm (list_del listelm l)"

definition list_empty :: "'n \<Rightarrow> 'n list_entry \<Rightarrow> bool" where
  "list_empty list l \<longleftrightarrow> nxt l list = list"

definition list_next :: "'n \<Rightarrow> 'n list_entry \<Rightarrow> 'n" where
  "list_next listelm l = nxt l listelm"

definition list_prev :: "'n \<Rightarrow> 'n list_entry \<Rightarrow> 'n" where
  "list_prev listelm l = prv l listelm"

lemmas klist_ops = list_init_def list_add_between_def list_add_after_def list_add_def
  list_add_before_def list_del_between_def list_del_def list_del_init_def
  list_empty_def list_next_def list_prev_def

section \<open>The represented sequence\<close>

text \<open>
  \<open>lpath l a xs b\<close>: following \<open>nxt\<close> from \<open>a\<close> visits \<open>xs\<close> and arrives at \<open>b\<close>, and
  every back link agrees.
\<close>

fun lpath :: "'n list_entry \<Rightarrow> 'n \<Rightarrow> 'n list \<Rightarrow> 'n \<Rightarrow> bool" where
  "lpath l a [] b \<longleftrightarrow> nxt l a = b \<and> prv l b = a"
| "lpath l a (x # xs) b \<longleftrightarrow> nxt l a = x \<and> prv l x = a \<and> lpath l x xs b"

definition dlist :: "'n list_entry \<Rightarrow> 'n \<Rightarrow> 'n list \<Rightarrow> bool" where
  "dlist l h xs \<longleftrightarrow> distinct (h # xs) \<and> lpath l h xs h"

lemma lpath_append:
  "lpath l a (xs @ y # ys) b \<longleftrightarrow> lpath l a xs y \<and> lpath l y ys b"
  by (induction xs arbitrary: a) auto

lemma lpath_cong:
  assumes "\<And>n. n = a \<or> n \<in> set xs \<Longrightarrow> nxt l' n = nxt l n"
    and "\<And>n. n = b \<or> n \<in> set xs \<Longrightarrow> prv l' n = prv l n"
  shows "lpath l' a xs b \<longleftrightarrow> lpath l a xs b"
  using assms by (induction xs arbitrary: a) auto

lemma lpath_set_next [simp]:
  "a \<noteq> c \<Longrightarrow> c \<notin> set xs \<Longrightarrow> lpath (set_next c d l) a xs b = lpath l a xs b"
  by (rule lpath_cong) auto

lemma lpath_set_prev [simp]:
  "b \<noteq> c \<Longrightarrow> c \<notin> set xs \<Longrightarrow> lpath (set_prev c d l) a xs b = lpath l a xs b"
  by (rule lpath_cong) auto

text \<open>The two neighbours of a path's ends are all that its end links determine.\<close>

lemma lpath_first: "lpath l a xs b \<Longrightarrow> nxt l a = (case xs of [] \<Rightarrow> b | x # _ \<Rightarrow> x)"
  by (cases xs) auto

lemma lpath_last: "lpath l a xs b \<Longrightarrow> prv l b = (if xs = [] then a else last xs)"
  by (induction xs arbitrary: a) auto

lemma dlist_split:
  "dlist l h (xs @ y # ys) \<longleftrightarrow>
     distinct (h # xs @ y # ys) \<and> lpath l h xs y \<and> lpath l y ys h"
  by (auto simp: dlist_def lpath_append)

lemma dlist_distinct: "dlist l h xs \<Longrightarrow> distinct xs \<and> h \<notin> set xs"
  by (simp add: dlist_def)

lemma dlist_cong:
  assumes "\<And>n. n \<in> set (h # xs) \<Longrightarrow> nxt l' n = nxt l n \<and> prv l' n = prv l n"
  shows "dlist l' h xs \<longleftrightarrow> dlist l h xs"
proof -
  have "lpath l' h xs h = lpath l h xs h" using assms by (intro lpath_cong) auto
  then show ?thesis by (simp add: dlist_def)
qed

section \<open>What each operation does to the sequence\<close>

definition before :: "'n \<Rightarrow> 'n list \<Rightarrow> 'n" where
  "before h us = (if us = [] then h else last us)"

definition behind :: "'n \<Rightarrow> 'n list \<Rightarrow> 'n" where
  "behind h vs = (if vs = [] then h else hd vs)"

lemma before_simps [simp]:
  "before h [] = h" "before h (us @ [u]) = u" "us \<noteq> [] \<Longrightarrow> before h us = last us"
  by (simp_all add: before_def)

lemma behind_simps [simp]: "behind h [] = h" "behind h (v # vs) = v"
  by (simp_all add: behind_def)

lemma before_in: "before h us \<in> set (h # us)"
  by (simp add: before_def)

lemma behind_in: "behind h vs \<in> set (h # vs)"
  by (simp add: behind_def)

lemma dlist_neighbours:
  assumes "dlist l h (us @ y # vs)"
  shows "prv l y = before h us" "nxt l y = behind h vs"
  using assms lpath_last [of l h us y] lpath_first [of l y vs h]
  by (auto simp: dlist_split before_def behind_def split: list.splits)

lemma dlist_head_neighbours:
  assumes "dlist l h xs"
  shows "nxt l h = behind h xs" "prv l h = before h xs"
  using assms lpath_last [of l h xs h] lpath_first [of l h xs h]
  by (auto simp: dlist_def before_def behind_def split: list.splits)

lemma dlist_add_between:
  assumes "dlist l h (us @ vs)" and "n \<notin> set (h # us @ vs)"
  shows "dlist (list_add_between n (before h us) (behind h vs) l) h (us @ n # vs)"
  using assms
  by (cases us rule: rev_cases; cases vs)
     (auto simp: dlist_def lpath_append list_add_between_def Let_def)

lemma dlist_del_between:
  assumes "dlist l h (us @ y # vs)"
  shows "dlist (list_del_between (before h us) (behind h vs) l) h (us @ vs)"
  using assms
  by (cases us rule: rev_cases; cases vs)
     (auto simp: dlist_def lpath_append list_del_between_def)

lemma dlist_init: "dlist (list_init h l) h []"
  by (simp add: dlist_def list_init_def)

lemma dlist_add_after:
  assumes "dlist l h (us @ y # vs)" and "n \<notin> set (h # us @ y # vs)"
  shows "dlist (list_add_after y n l) h (us @ y # n # vs)"
  using dlist_add_between [of l h "us @ [y]" vs n] assms dlist_neighbours (2) [OF assms(1)]
  by (simp add: list_add_after_def)

lemma dlist_add_after_head:
  assumes "dlist l h xs" and "n \<notin> set (h # xs)"
  shows "dlist (list_add_after h n l) h (n # xs)"
  using dlist_add_between [of l h "[]" xs n] assms dlist_head_neighbours (1) [OF assms(1)]
  by (simp add: list_add_after_def)

lemma dlist_add_before:
  assumes "dlist l h (us @ y # vs)" and "n \<notin> set (h # us @ y # vs)"
  shows "dlist (list_add_before y n l) h (us @ n # y # vs)"
  using dlist_add_between [of l h us "y # vs" n] assms dlist_neighbours (1) [OF assms(1)]
  by (simp add: list_add_before_def)

lemma dlist_add_before_head:
  assumes "dlist l h xs" and "n \<notin> set (h # xs)"
  shows "dlist (list_add_before h n l) h (xs @ [n])"
  using dlist_add_between [of l h xs "[]" n] assms dlist_head_neighbours (2) [OF assms(1)]
  by (simp add: list_add_before_def)

lemma dlist_del:
  assumes "dlist l h (us @ y # vs)"
  shows "dlist (list_del y l) h (us @ vs)"
  using dlist_del_between [OF assms] dlist_neighbours [OF assms] by (simp add: list_del_def)

lemma dlist_list_init_other:
  "dlist l h xs \<Longrightarrow> n \<notin> set (h # xs) \<Longrightarrow> dlist (list_init n l) h xs"
  by (subst dlist_cong [where l = l]) (auto simp: list_init_def)

lemma dlist_del_init:
  assumes "dlist l h (us @ y # vs)"
  shows "dlist (list_del_init y l) h (us @ vs)"
  unfolding list_del_init_def
  using dlist_del [OF assms] assms
  by (intro dlist_list_init_other) (auto simp: dlist_def)

lemma list_del_init_empty: "list_empty y (list_del_init y l)"
  by (simp add: list_del_init_def list_init_def list_empty_def)

lemma dlist_empty: "dlist l h xs \<Longrightarrow> list_empty h l \<longleftrightarrow> xs = []"
  by (cases xs) (auto simp: dlist_def list_empty_def)

text \<open>A node of a ring is never an initialised lone node: the test the code makes with
  \<^verbatim>\<open>list_empty(&proc->run_link)\<close>.\<close>

lemma dlist_member_not_empty:
  assumes "dlist l h xs" and "y \<in> set xs"
  shows "\<not> list_empty y l"
proof -
  from assms(2) obtain us vs where xs: "xs = us @ y # vs" by (auto simp: in_set_conv_decomp)
  with assms(1) have "nxt l y = behind h vs" "y \<notin> set (h # vs)"
    using dlist_neighbours(2) [of l h us y vs] by (auto simp: dlist_def)
  with behind_in [of h vs] show ?thesis by (auto simp: list_empty_def)
qed

lemma dlist_member_split:
  assumes "dlist l h xs" and "y \<in> set xs"
  obtains us vs where "xs = us @ y # vs" "y \<notin> set us" "y \<notin> set vs"
    "dlist l h (us @ y # vs)"
proof -
  from assms(2) obtain us vs where xs: "xs = us @ y # vs" by (auto simp: in_set_conv_decomp)
  with assms(1) show ?thesis by (intro that [of us vs]) (auto simp: dlist_def)
qed

lemma dlist_del_init_remove1:
  assumes "dlist l h xs" and "y \<in> set xs"
  shows "dlist (list_del_init y l) h (remove1 y xs)"
proof -
  from assms obtain us vs where xs: "xs = us @ y # vs" "y \<notin> set us" "dlist l h (us @ y # vs)"
    by (rule dlist_member_split)
  then show ?thesis using dlist_del_init [of l h us y vs] by simp
qed

subsection \<open>Frames: rings and lone nodes elsewhere in the store\<close>

lemma lone_add_between [simp]:
  assumes "m \<notin> {n, a, b}"
  shows "nxt (list_add_between n a b l) m = nxt l m" "prv (list_add_between n a b l) m = prv l m"
  using assms by (simp_all add: list_add_between_def)

lemma lone_del_between [simp]:
  assumes "m \<notin> {a, b}"
  shows "nxt (list_del_between a b l) m = nxt l m" "prv (list_del_between a b l) m = prv l m"
  using assms by (simp_all add: list_del_between_def)

lemma frame_add_before_head:
  assumes "dlist l h xs" and "m \<notin> set (n # h # xs)"
  shows "nxt (list_add_before h n l) m = nxt l m \<and> prv (list_add_before h n l) m = prv l m"
proof -
  have "m \<notin> {n, before h xs, h}" using assms before_in [of h xs] by auto
  then show ?thesis
    by (simp only: list_add_before_def dlist_head_neighbours (2) [OF assms(1)]
        lone_add_between simp_thms)
qed

lemma frame_add_after_head:
  assumes "dlist l h xs" and "m \<notin> set (n # h # xs)"
  shows "nxt (list_add_after h n l) m = nxt l m \<and> prv (list_add_after h n l) m = prv l m"
proof -
  have "m \<notin> {n, h, behind h xs}" using assms behind_in [of h xs] by auto
  then show ?thesis
    by (simp only: list_add_after_def dlist_head_neighbours (1) [OF assms(1)]
        lone_add_between simp_thms)
qed

lemma frame_del:
  assumes "dlist l h xs" and "y \<in> set xs" and "m \<notin> set (h # xs)"
  shows "nxt (list_del y l) m = nxt l m \<and> prv (list_del y l) m = prv l m"
proof -
  from assms(1,2) obtain us vs where xs: "xs = us @ y # vs" and d: "dlist l h (us @ y # vs)"
    by (rule dlist_member_split)
  have "m \<notin> {before h us, behind h vs}"
    using assms(3) xs before_in [of h us] behind_in [of h vs] by auto
  then show ?thesis using dlist_neighbours [OF d] by (simp add: list_del_def)
qed

lemma frame_del_init:
  assumes "dlist l h xs" and "y \<in> set xs" and "m \<notin> set (h # xs)"
  shows "nxt (list_del_init y l) m = nxt l m \<and> prv (list_del_init y l) m = prv l m"
proof -
  from assms(1,2) obtain us vs where xs: "xs = us @ y # vs" and d: "dlist l h (us @ y # vs)"
    by (rule dlist_member_split)
  have "m \<notin> {before h us, behind h vs}" "m \<noteq> y"
    using assms(3) xs before_in [of h us] behind_in [of h vs] by auto
  then show ?thesis
    by (simp add: list_del_init_def list_init_def list_del_def dlist_neighbours [OF d])
qed

section \<open>The queue interface\<close>

text \<open>
  What the run queue, the wait queues and the other first-in first-out users of the list
  rely on: appending before the head, unlinking an element, looking at the first one.
\<close>

locale fifo_ring =
  fixes rep :: "'s \<Rightarrow> 'n \<Rightarrow> 'n list \<Rightarrow> bool"
    and enq :: "'n \<Rightarrow> 'n \<Rightarrow> 's \<Rightarrow> 's"
    and del :: "'n \<Rightarrow> 's \<Rightarrow> 's"
    and first :: "'n \<Rightarrow> 's \<Rightarrow> 'n"
  assumes rep_distinct: "rep s h xs \<Longrightarrow> distinct (h # xs)"
    and rep_enq: "rep s h xs \<Longrightarrow> n \<notin> set (h # xs) \<Longrightarrow> rep (enq h n s) h (xs @ [n])"
    and rep_del: "rep s h xs \<Longrightarrow> y \<in> set xs \<Longrightarrow> rep (del y s) h (remove1 y xs)"
    and rep_first: "rep s h xs \<Longrightarrow> first h s = (case xs of [] \<Rightarrow> h | x # _ \<Rightarrow> x)"
begin

text \<open>Serving the queue \<open>k\<close> times: take the first element, unlink it.\<close>

primrec serve :: "nat \<Rightarrow> 'n \<Rightarrow> 's \<Rightarrow> 'n list" where
  "serve 0 h s = []"
| "serve (Suc k) h s =
     (let y = first h s in if y = h then [] else y # serve k h (del y s))"

lemma serve_rep: "rep s h xs \<Longrightarrow> serve k h s = take k xs"
proof (induction k arbitrary: s xs)
  case (Suc k)
  show ?case
  proof (cases xs)
    case (Cons x ys)
    with Suc.prems have "x \<noteq> h" "first h s = x" "rep (del x s) h ys"
      using rep_distinct [OF Suc.prems] rep_first [OF Suc.prems] rep_del [OF Suc.prems, of x]
      by auto
    with Suc.IH [of "del x s" ys] Cons show ?thesis by (simp add: Let_def)
  qed (use rep_first [OF Suc.prems] in simp)
qed simp

lemma rep_enq_all:
  assumes "rep s h xs" and "distinct (h # xs @ ns)"
  shows "rep (fold (enq h) ns s) h (xs @ ns)"
  using assms
proof (induction ns arbitrary: s xs)
  case (Cons n ns)
  then have "rep (enq h n s) h (xs @ [n])" by (intro rep_enq) auto
  with Cons show ?case using Cons.IH [of "enq h n s" "xs @ [n]"] by simp
qed simp

theorem served_in_arrival_order:
  assumes "rep s h []" and "distinct (h # ns)"
  shows "serve (length ns) h (fold (enq h) ns s) = ns"
  using serve_rep [OF rep_enq_all [OF assms(1)]] assms(2) by simp

end

lemma dlist_first: "dlist l h xs \<Longrightarrow> list_next h l = (case xs of [] \<Rightarrow> h | x # _ \<Rightarrow> x)"
  by (cases xs) (auto simp: dlist_def list_next_def)

interpretation kfifo: fifo_ring dlist list_add_before list_del_init list_next
  by unfold_locales
    (auto simp: dlist_distinct dlist_add_before_head dlist_del_init_remove1 dlist_first)

end
