(* ===== verification/PhysPages.thy ===== *)
theory PhysPages
  imports KList
begin

text \<open>
  The data the physical memory managers share: \<^verbatim>\<open>struct Page\<close>, its flag bits and
  \<^verbatim>\<open>free_area_t\<close> of \<^verbatim>\<open>kern/mm/memlayout.h\<close>.  A \<^verbatim>\<open>struct Page *\<close> is the index of the page in the
  \<^verbatim>\<open>pages\<close> array, so pointer arithmetic and pointer comparison are those of the index; the
  list nodes are the head of the free list and the \<^verbatim>\<open>page_link\<close> of each page.
\<close>

section \<open>struct Page and its flags\<close>

record page =
  ref :: int
  flags :: "64 word"
  property :: nat

abbreviation (input) PG_reserved :: nat where "PG_reserved \<equiv> 0"
abbreviation (input) PG_property :: nat where "PG_property \<equiv> 1"

definition SetPageReserved :: "page \<Rightarrow> page" where
  "SetPageReserved p = p\<lparr>flags := set_bit PG_reserved (flags p)\<rparr>"

definition ClearPageReserved :: "page \<Rightarrow> page" where
  "ClearPageReserved p = p\<lparr>flags := unset_bit PG_reserved (flags p)\<rparr>"

definition PageReserved :: "page \<Rightarrow> bool" where
  "PageReserved p \<longleftrightarrow> bit (flags p) PG_reserved"

definition SetPageProperty :: "page \<Rightarrow> page" where
  "SetPageProperty p = p\<lparr>flags := set_bit PG_property (flags p)\<rparr>"

definition ClearPageProperty :: "page \<Rightarrow> page" where
  "ClearPageProperty p = p\<lparr>flags := unset_bit PG_property (flags p)\<rparr>"

definition PageProperty :: "page \<Rightarrow> bool" where
  "PageProperty p \<longleftrightarrow> bit (flags p) PG_property"

definition set_page_ref :: "int \<Rightarrow> page \<Rightarrow> page" where
  "set_page_ref v p = p\<lparr>ref := v\<rparr>"

lemma page_flag_simps [simp]:
  "PageProperty (SetPageProperty p)" "\<not> PageProperty (ClearPageProperty p)"
  "PageReserved (SetPageProperty p) = PageReserved p"
  "PageReserved (ClearPageProperty p) = PageReserved p"
  "PageReserved (SetPageReserved p)" "\<not> PageReserved (ClearPageReserved p)"
  "PageProperty (p\<lparr>property := n\<rparr>) = PageProperty p"
  "PageReserved (p\<lparr>property := n\<rparr>) = PageReserved p"
  "property (SetPageProperty p) = property p" "property (ClearPageProperty p) = property p"
  "property (set_page_ref v p) = property p"
  "PageProperty (set_page_ref v p) = PageProperty p"
  "PageReserved (set_page_ref v p) = PageReserved p"
  "ref (SetPageProperty p) = ref p" "ref (ClearPageProperty p) = ref p"
  "ref (set_page_ref v p) = v"
  by (auto simp: PageProperty_def SetPageProperty_def ClearPageProperty_def PageReserved_def
      SetPageReserved_def ClearPageReserved_def set_page_ref_def bit_simps)

lemma page_flags_zero [simp]:
  "\<not> PageProperty (p\<lparr>flags := 0\<rparr>)" "\<not> PageReserved (p\<lparr>flags := 0\<rparr>)"
  "\<not> PageProperty (p\<lparr>flags := 0, property := n\<rparr>)" "\<not> PageReserved (p\<lparr>flags := 0, property := n\<rparr>)"
  by (simp_all add: PageProperty_def PageReserved_def)

section \<open>The state of a free-list manager\<close>

datatype pnode = FreeHead | PageLink nat

record pmm =
  pages :: "nat \<Rightarrow> page"
  links :: "pnode list_entry"
  nr_free :: nat

definition upd_page :: "nat \<Rightarrow> (page \<Rightarrow> page) \<Rightarrow> pmm \<Rightarrow> pmm" where
  "upd_page p f s = s\<lparr>pages := (pages s)(p := f (pages s p))\<rparr>"

definition upd_links :: "(pnode list_entry \<Rightarrow> pnode list_entry) \<Rightarrow> pmm \<Rightarrow> pmm" where
  "upd_links f s = s\<lparr>links := f (links s)\<rparr>"

lemma upd_page_sel [simp]:
  "pages (upd_page p f s) = (pages s)(p := f (pages s p))"
  "links (upd_page p f s) = links s" "nr_free (upd_page p f s) = nr_free s"
  by (simp_all add: upd_page_def)

lemma upd_links_sel [simp]:
  "pages (upd_links f s) = pages s"
  "links (upd_links f s) = f (links s)" "nr_free (upd_links f s) = nr_free s"
  by (simp_all add: upd_links_def)

section \<open>Free blocks, abstractly\<close>

text \<open>
  \<open>blocks_ok pg ps\<close>: \<open>ps\<close> are the heads of the free blocks in increasing address order,
  each a marked head with a positive size, the blocks neither overlapping nor touching.
\<close>

definition block :: "(nat \<Rightarrow> page) \<Rightarrow> nat \<Rightarrow> nat set" where
  "block pg p = {p ..< p + property (pg p)}"

definition blocks :: "(nat \<Rightarrow> page) \<Rightarrow> nat list \<Rightarrow> nat set" where
  "blocks pg ps = (\<Union>p\<in>set ps. block pg p)"

definition apart :: "(nat \<Rightarrow> page) \<Rightarrow> nat \<Rightarrow> nat \<Rightarrow> bool" where
  "apart pg p q \<longleftrightarrow> p + property (pg p) < q"

definition heads_ok :: "(nat \<Rightarrow> page) \<Rightarrow> nat list \<Rightarrow> bool" where
  "heads_ok pg ps \<longleftrightarrow> (\<forall>p\<in>set ps. PageProperty (pg p) \<and> 0 < property (pg p))"

definition total :: "(nat \<Rightarrow> page) \<Rightarrow> nat list \<Rightarrow> nat" where
  "total pg ps = sum_list (map (\<lambda>p. property (pg p)) ps)"

lemma total_simps [simp]:
  "total pg [] = 0" "total pg (p # ps) = property (pg p) + total pg ps"
  "total pg (ps @ qs) = total pg ps + total pg qs"
  by (simp_all add: total_def)

lemma blocks_simps [simp]:
  "blocks pg [] = {}" "blocks pg (p # ps) = block pg p \<union> blocks pg ps"
  "blocks pg (ps @ qs) = blocks pg ps \<union> blocks pg qs"
  by (auto simp: blocks_def)

lemma heads_ok_simps [simp]:
  "heads_ok pg []"
  "heads_ok pg (p # ps) \<longleftrightarrow> PageProperty (pg p) \<and> 0 < property (pg p) \<and> heads_ok pg ps"
  "heads_ok pg (ps @ qs) \<longleftrightarrow> heads_ok pg ps \<and> heads_ok pg qs"
  by (auto simp: heads_ok_def)

lemma blocks_cong:
  "(\<And>p. p \<in> set ps \<Longrightarrow> pg' p = pg p) \<Longrightarrow> blocks pg' ps = blocks pg ps"
  by (auto simp: blocks_def block_def)

lemma total_cong: "(\<And>p. p \<in> set ps \<Longrightarrow> pg' p = pg p) \<Longrightarrow> total pg' ps = total pg ps"
  by (induction ps) auto

lemma heads_ok_cong:
  "(\<And>p. p \<in> set ps \<Longrightarrow> pg' p = pg p) \<Longrightarrow> heads_ok pg' ps = heads_ok pg ps"
  by (auto simp: heads_ok_def)

lemma sorted_apart_cong:
  "(\<And>p. p \<in> set ps \<Longrightarrow> pg' p = pg p) \<Longrightarrow> sorted_wrt (apart pg') ps = sorted_wrt (apart pg) ps"
  by (induction ps) (auto simp: apart_def)

text \<open>Writing the descriptor of a page that heads none of the blocks changes nothing.\<close>

lemma blocks_upd [simp]: "p \<notin> set ps \<Longrightarrow> blocks (pg(p := x)) ps = blocks pg ps"
  by (rule blocks_cong) auto

lemma total_upd [simp]: "p \<notin> set ps \<Longrightarrow> total (pg(p := x)) ps = total pg ps"
  by (rule total_cong) auto

lemma heads_ok_upd [simp]: "p \<notin> set ps \<Longrightarrow> heads_ok (pg(p := x)) ps = heads_ok pg ps"
  by (rule heads_ok_cong) auto

lemma sorted_apart_upd [simp]:
  "p \<notin> set ps \<Longrightarrow> sorted_wrt (apart (pg(p := x))) ps = sorted_wrt (apart pg) ps"
  by (rule sorted_apart_cong) auto

lemma blocks_finite [simp]: "finite (blocks pg ps)"
  by (simp add: blocks_def block_def)

lemma blocks_head: "heads_ok pg ps \<Longrightarrow> p \<in> set ps \<Longrightarrow> p \<in> blocks pg ps"
  by (auto simp: heads_ok_def blocks_def block_def)

lemma card_blocks:
  "sorted_wrt (apart pg) ps \<Longrightarrow> card (blocks pg ps) = total pg ps"
proof (induction ps)
  case (Cons p ps)
  have "block pg p \<inter> blocks pg ps = {}"
    using Cons.prems by (fastforce simp: blocks_def block_def apart_def)
  moreover have "card (block pg p) = property (pg p)" "finite (block pg p)"
    by (simp_all add: block_def)
  ultimately show ?case using Cons by (simp add: card_Un_disjoint)
qed simp

section \<open>Runs of allocations\<close>

text \<open>A run of allocation requests; the answers of the successful ones with their sizes.\<close>

fun alloc_run :: "(nat \<Rightarrow> 's \<Rightarrow> (nat option \<times> 's) option) \<Rightarrow> nat list \<Rightarrow> 's \<Rightarrow>
    ((nat \<times> nat) list \<times> 's) option" where
  "alloc_run f [] s = Some ([], s)"
| "alloc_run f (n # ns) s =
     (case f n s of
        None \<Rightarrow> None
      | Some (r, s') \<Rightarrow>
          (case alloc_run f ns s' of
             None \<Rightarrow> None
           | Some (rs, s'') \<Rightarrow> Some ((case r of None \<Rightarrow> rs | Some p \<Rightarrow> (p, n) # rs), s'')))"

definition span :: "nat \<times> nat \<Rightarrow> nat set" where
  "span b = {fst b ..< fst b + snd b}"

lemma span_Pair [simp]: "span (p, n) = {p ..< p + n}"
  by (simp add: span_def)

end
