(* ===== verification/FirstFit.thy ===== *)
theory FirstFit
  imports PhysPages
begin

text \<open>
  The first-fit manager \<^verbatim>\<open>lab8/kern/mm/default_pmm.c\<close> (the same text, up to layout, in labs 2
  to 6): \<^verbatim>\<open>default_init\<close>, \<^verbatim>\<open>default_init_memmap\<close>, \<^verbatim>\<open>default_alloc_pages\<close>, \<^verbatim>\<open>default_free_pages\<close> and
  \<^verbatim>\<open>default_nr_free_pages\<close> on the pointer structure itself.  The lemmas show that allocation
  takes the first block that is large enough and that freeing keeps the free list sorted,
  disjoint and fully merged, as long as the freed block does not lie above every free block;
  the last section shows what the code does when it does.
\<close>

section \<open>The operations\<close>

definition default_init :: "pmm \<Rightarrow> pmm" where
  "default_init s = (upd_links (list_init FreeHead) s)\<lparr>nr_free := 0\<rparr>"

text \<open>The loops over \<^verbatim>\<open>[base, base + n)\<close> of \<^verbatim>\<open>default_init_memmap\<close> and \<^verbatim>\<open>default_free_pages\<close>.\<close>

fun init_pages :: "nat \<Rightarrow> nat \<Rightarrow> pmm \<Rightarrow> pmm option" where
  "init_pages p 0 s = Some s"
| "init_pages p (Suc k) s = do {
     kassert (PageReserved (pages s p));
     init_pages (Suc p) k
       (upd_page p (\<lambda>g. set_page_ref 0 (g\<lparr>flags := 0, property := 0\<rparr>)) s)
   }"

fun clear_pages :: "nat \<Rightarrow> nat \<Rightarrow> pmm \<Rightarrow> pmm option" where
  "clear_pages p 0 s = Some s"
| "clear_pages p (Suc k) s = do {
     kassert (\<not> PageReserved (pages s p) \<and> \<not> PageProperty (pages s p));
     clear_pages (Suc p) k (upd_page p (\<lambda>g. set_page_ref 0 (g\<lparr>flags := 0\<rparr>)) s)
   }"

text \<open>
  The insertion loop both functions share.  The branch that appends at the tail has no
  \<^verbatim>\<open>break\<close>: the loop goes on from the node it just inserted.
\<close>

partial_function (option) insert_loop ::
  "nat \<Rightarrow> pnode \<Rightarrow> pnode list_entry \<Rightarrow> pnode list_entry option" where
  "insert_loop base le l =
     (case list_next le l of
        FreeHead \<Rightarrow> Some l
      | PageLink page \<Rightarrow>
          (if base < page then Some (list_add_before (PageLink page) (PageLink base) l)
           else if list_next (PageLink page) l = FreeHead
           then insert_loop base (PageLink page) (list_add (PageLink page) (PageLink base) l)
           else insert_loop base (PageLink page) l))"

definition insert_block :: "nat \<Rightarrow> pmm \<Rightarrow> pmm option" where
  "insert_block base s =
     (if list_empty FreeHead (links s)
      then Some (upd_links (list_add FreeHead (PageLink base)) s)
      else do { l \<leftarrow> insert_loop base FreeHead (links s); Some (s\<lparr>links := l\<rparr>) })"

definition default_init_memmap :: "nat \<Rightarrow> nat \<Rightarrow> pmm \<Rightarrow> pmm option" where
  "default_init_memmap base n s = do {
     kassert (n > 0);
     s \<leftarrow> init_pages base n s;
     let s = upd_page base (\<lambda>g. g\<lparr>property := u32 n\<rparr>) s;
     let s = upd_page base SetPageProperty s;
     let s = s\<lparr>nr_free := u32 (nr_free s + n)\<rparr>;
     insert_block base s
   }"

partial_function (option) alloc_search :: "nat \<Rightarrow> pnode \<Rightarrow> pmm \<Rightarrow> nat option option" where
  "alloc_search n le s =
     (case list_next le (links s) of
        FreeHead \<Rightarrow> Some None
      | PageLink p \<Rightarrow>
          (if property (pages s p) \<ge> n then Some (Some p) else alloc_search n (PageLink p) s))"

definition take_block :: "nat \<Rightarrow> nat \<Rightarrow> pmm \<Rightarrow> pmm" where
  "take_block page n s =
     (let prev = list_prev (PageLink page) (links s);
          s = upd_links (list_del (PageLink page)) s;
          s = (if property (pages s page) > n
               then let p = page + n;
                        s = upd_page p (\<lambda>g. g\<lparr>property := u32 (property (pages s page) - n)\<rparr>) s;
                        s = upd_page p SetPageProperty s
                    in upd_links (list_add prev (PageLink p)) s
               else s);
          s = s\<lparr>nr_free := u32_sub (nr_free s) n\<rparr>
      in upd_page page ClearPageProperty s)"

definition default_alloc_pages :: "nat \<Rightarrow> pmm \<Rightarrow> (nat option \<times> pmm) option" where
  "default_alloc_pages n s = do {
     kassert (n > 0);
     if n > nr_free s then Some (None, s)
     else do {
       r \<leftarrow> alloc_search n FreeHead s;
       (case r of
          None \<Rightarrow> Some (None, s)
        | Some page \<Rightarrow> Some (Some page, take_block page n s))
     }
   }"

text \<open>The two merging steps at the end of \<^verbatim>\<open>default_free_pages\<close>.\<close>

definition merge_prev :: "nat \<Rightarrow> pmm \<Rightarrow> nat \<times> pmm" where
  "merge_prev base s =
     (case list_prev (PageLink base) (links s) of
        FreeHead \<Rightarrow> (base, s)
      | PageLink p \<Rightarrow>
          (if p + property (pages s p) = base
           then (p, let s = upd_page p (\<lambda>g. g\<lparr>property := u32 (property g + property (pages s base))\<rparr>) s;
                        s = upd_page base ClearPageProperty s
                    in upd_links (list_del (PageLink base)) s)
           else (base, s)))"

definition merge_next :: "nat \<Rightarrow> pmm \<Rightarrow> pmm" where
  "merge_next base s =
     (case list_next (PageLink base) (links s) of
        FreeHead \<Rightarrow> s
      | PageLink p \<Rightarrow>
          (if base + property (pages s base) = p
           then let s = upd_page base (\<lambda>g. g\<lparr>property := u32 (property g + property (pages s p))\<rparr>) s;
                    s = upd_page p ClearPageProperty s
                in upd_links (list_del (PageLink p)) s
           else s))"

definition default_free_pages :: "nat \<Rightarrow> nat \<Rightarrow> pmm \<Rightarrow> pmm option" where
  "default_free_pages base n s = do {
     kassert (n > 0);
     s \<leftarrow> clear_pages base n s;
     let s = upd_page base (\<lambda>g. g\<lparr>property := u32 n\<rparr>) s;
     let s = upd_page base SetPageProperty s;
     let s = s\<lparr>nr_free := u32 (nr_free s + n)\<rparr>;
     s \<leftarrow> insert_block base s;
     let (base, s) = merge_prev base s;
     Some (merge_next base s)
   }"

definition default_nr_free_pages :: "pmm \<Rightarrow> nat" where
  "default_nr_free_pages s = nr_free s"

section \<open>The invariant\<close>

text \<open>
  \<open>ff_inv s ps\<close>: the ring holds exactly the heads \<open>ps\<close>, in address order, the blocks apart,
  the marked pages are exactly the heads, no free page is reserved, and \<^verbatim>\<open>nr_free\<close> counts
  the free pages.
\<close>

definition ff_inv :: "pmm \<Rightarrow> nat list \<Rightarrow> bool" where
  "ff_inv s ps \<longleftrightarrow>
     dlist (links s) FreeHead (map PageLink ps) \<and>
     heads_ok (pages s) ps \<and> sorted_wrt (apart (pages s)) ps \<and>
     (\<forall>p. PageProperty (pages s p) \<longrightarrow> p \<in> set ps) \<and>
     (\<forall>q\<in>blocks (pages s) ps. \<not> PageReserved (pages s q)) \<and>
     nr_free s = total (pages s) ps \<and> total (pages s) ps < 2 ^ 32"

definition free_set :: "pmm \<Rightarrow> nat list \<Rightarrow> nat set" where
  "free_set s ps = blocks (pages s) ps"

lemma sorted_apart_less:
  "heads_ok pg ps \<Longrightarrow> sorted_wrt (apart pg) ps \<Longrightarrow> sorted_wrt (<) ps"
  by (induction ps) (auto simp: apart_def)

lemma ff_inv_card: "ff_inv s ps \<Longrightarrow> card (free_set s ps) = nr_free s"
  by (simp add: ff_inv_def free_set_def card_blocks)

section \<open>The list loops\<close>

lemma before_map: "before FreeHead (map PageLink us) =
    (if us = [] then FreeHead else PageLink (last us))"
  by (simp add: before_def last_map)

lemma behind_map: "behind FreeHead (map PageLink vs) =
    (if vs = [] then FreeHead else PageLink (hd vs))"
  by (simp add: behind_def hd_map)

lemma ring_next:
  assumes "dlist l FreeHead (map PageLink (us @ vs))"
  shows "list_next (before FreeHead (map PageLink us)) l = behind FreeHead (map PageLink vs)"
proof (cases us rule: rev_cases)
  case Nil
  then show ?thesis
    using assms dlist_head_neighbours(1) [of l FreeHead "map PageLink vs"] by (simp add: list_next_def)
next
  case (snoc us' u)
  then show ?thesis
    using assms dlist_neighbours(2) [of l FreeHead "map PageLink us'" "PageLink u" "map PageLink vs"]
    by (simp add: list_next_def)
qed

lemma alloc_search_find:
  assumes "dlist (links s) FreeHead (map PageLink (us @ vs))"
  shows "alloc_search n (before FreeHead (map PageLink us)) s =
           Some (find (\<lambda>p. property (pages s p) \<ge> n) vs)"
  using assms
proof (induction vs arbitrary: us)
  case Nil
  then show ?case using ring_next [of "links s" us "[]"] by (simp add: alloc_search.simps)
next
  case (Cons v vs)
  then show ?case
    using ring_next [of "links s" us "v # vs"] Cons.IH [of "us @ [v]"]
    by (subst alloc_search.simps) simp
qed

text \<open>Insertion below some free block: the block goes in front of the first higher head.\<close>

lemma insert_loop_sorted:
  assumes "dlist l FreeHead (map PageLink (us @ vs))"
    and "base \<notin> set (us @ vs)" and "\<exists>v\<in>set vs. base < v"
  shows "\<exists>l'. insert_loop base (before FreeHead (map PageLink us)) l = Some l' \<and>
      dlist l' FreeHead (map PageLink
        (us @ takeWhile (\<lambda>v. v < base) vs @ base # dropWhile (\<lambda>v. v < base) vs))"
  using assms
proof (induction vs arbitrary: us)
  case Nil
  then show ?case by simp
next
  case (Cons v vs)
  have nx: "list_next (before FreeHead (map PageLink us)) l = PageLink v"
    using ring_next [OF Cons.prems(1)] by simp
  show ?case
  proof (cases "base < v")
    case True
    then show ?thesis
      using Cons.prems nx dlist_add_before [of l FreeHead "map PageLink us" "PageLink v"
          "map PageLink vs" "PageLink base"]
      by (subst insert_loop.simps) auto
  next
    case False
    then have vb: "v < base" and ex: "\<exists>w\<in>set vs. base < w" using Cons.prems by auto
    have "list_next (PageLink v) l \<noteq> FreeHead"
      using ring_next [of l "us @ [v]" vs] Cons.prems(1) ex by (cases vs) auto
    then have "insert_loop base (before FreeHead (map PageLink us)) l =
        insert_loop base (before FreeHead (map PageLink (us @ [v]))) l"
      using nx vb by (subst insert_loop.simps) auto
    then show ?thesis using Cons.IH [of "us @ [v]"] Cons.prems ex vb by simp
  qed
qed

section \<open>Allocation\<close>

definition rest_heads :: "pmm \<Rightarrow> nat \<Rightarrow> nat \<Rightarrow> nat list" where
  "rest_heads s p n = (if property (pages s p) > n then [p + n] else [])"

lemma take_block_links:
  assumes "dlist (links s) FreeHead (map PageLink (us @ p # vs))"
    and "p + n \<notin> set (us @ p # vs)"
  shows "dlist (links (take_block p n s)) FreeHead (map PageLink (us @ rest_heads s p n @ vs))"
proof -
  let ?us = "map PageLink us" and ?vs = "map PageLink vs"
  have d: "dlist (links s) FreeHead (?us @ PageLink p # ?vs)" using assms(1) by simp
  have del: "dlist (list_del (PageLink p) (links s)) FreeHead (?us @ ?vs)" by (rule dlist_del [OF d])
  have prv: "list_prev (PageLink p) (links s) = before FreeHead ?us"
    using dlist_neighbours(1) [OF d] by (simp add: list_prev_def)
  have "dlist (list_add (before FreeHead ?us) (PageLink (p + n)) (list_del (PageLink p) (links s)))
      FreeHead (?us @ PageLink (p + n) # ?vs)"
  proof (cases us rule: rev_cases)
    case Nil
    then show ?thesis using dlist_add_after_head [of _ FreeHead ?vs] del assms(2)
      by (auto simp: list_add_def)
  next
    case (snoc us' u)
    then show ?thesis
      using dlist_add_after [of _ FreeHead "map PageLink us'" "PageLink u" ?vs] del assms(2)
      by (auto simp: list_add_def)
  qed
  then show ?thesis using del by (simp add: take_block_def Let_def prv rest_heads_def)
qed

lemma take_block_pages:
  assumes "0 < n"
  shows "pages (take_block p n s) =
    (if property (pages s p) > n
     then (pages s)(p + n := SetPageProperty ((pages s (p + n))\<lparr>property := u32 (property (pages s p) - n)\<rparr>))
     else pages s)(p := ClearPageProperty (pages s p))"
  using assms by (auto simp: take_block_def Let_def)

lemma take_block_nr_free: "nr_free (take_block p n s) = u32_sub (nr_free s) n"
  by (simp add: take_block_def Let_def)

lemma ff_inv_around:
  assumes "ff_inv s (us @ p # vs)"
  shows "\<And>u. u \<in> set us \<Longrightarrow> u + property (pages s u) < p"
    and "\<And>v. v \<in> set vs \<Longrightarrow> p + property (pages s p) < v"
    and "0 < property (pages s p)" and "property (pages s p) < 2 ^ 32"
    and "p \<notin> set us" and "p \<notin> set vs"
  using assms by (auto simp: ff_inv_def sorted_wrt_append apart_def)

text \<open>The pages of a block and the rest of the free pages.\<close>

lemma blocks_take:
  assumes "sorted_wrt (apart pg) (us @ p # vs)" and "n \<le> property (pg p)"
  shows "blocks pg (us @ p # vs) - {p ..< p + n} =
           blocks pg us \<union> {p + n ..< p + property (pg p)} \<union> blocks pg vs"
proof -
  have "blocks pg us \<inter> {p ..< p + n} = {}" "blocks pg vs \<inter> {p ..< p + n} = {}"
    using assms by (fastforce simp: blocks_def block_def sorted_wrt_append apart_def)+
  moreover have "block pg p - {p ..< p + n} = {p + n ..< p + property (pg p)}"
    by (auto simp: block_def)
  ultimately show ?thesis by auto
qed

lemma take_block_ok:
  assumes inv: "ff_inv s (us @ p # vs)" and n: "0 < n" "n \<le> property (pages s p)"
  defines "ps' \<equiv> us @ rest_heads s p n @ vs" and "s' \<equiv> take_block p n s"
  shows "ff_inv s' ps'" and "free_set s' ps' = free_set s (us @ p # vs) - {p ..< p + n}"
proof -
  note ar = ff_inv_around [OF inv]
  let ?pg = "pages s" and ?pg' = "pages s'"
  have notin: "n < property (?pg p) \<Longrightarrow> p + n \<notin> set (us @ p # vs)"
    using ar(1,2) n by fastforce
  have I: "dlist (links s) FreeHead (map PageLink (us @ p # vs))" "heads_ok ?pg (us @ p # vs)"
    "sorted_wrt (apart ?pg) (us @ p # vs)" "\<And>p'. PageProperty (?pg p') \<Longrightarrow> p' \<in> set (us @ p # vs)"
    "\<And>q. q \<in> blocks ?pg (us @ p # vs) \<Longrightarrow> \<not> PageReserved (?pg q)"
    "nr_free s = total ?pg (us @ p # vs)" "total ?pg (us @ p # vs) < 2 ^ 32"
    using inv by (auto simp: ff_inv_def)
  have links: "dlist (links s') FreeHead (map PageLink ps')"
  proof (cases "n < property (?pg p)")
    case True
    then show ?thesis unfolding s'_def ps'_def using take_block_links [OF I(1) notin] by simp
  next
    case False
    then show ?thesis using dlist_del [of "links s" FreeHead "map PageLink us" "PageLink p"] I(1)
      by (simp add: s'_def ps'_def take_block_def Let_def rest_heads_def)
  qed
  have same: "?pg' x = ?pg x" if "x \<in> set us \<or> x \<in> set vs" for x
    using that ar notin n by (auto simp: s'_def take_block_pages)
  have us': "blocks ?pg' us = blocks ?pg us" "heads_ok ?pg' us = heads_ok ?pg us" "total ?pg' us = total ?pg us"
    and vs': "blocks ?pg' vs = blocks ?pg vs" "heads_ok ?pg' vs = heads_ok ?pg vs" "total ?pg' vs = total ?pg vs"
    by (auto intro!: blocks_cong heads_ok_cong total_cong same)
  have r: "property (?pg' (p + n)) = property (?pg p) - n" "PageProperty (?pg' (p + n))"
    if "n < property (?pg p)"
    using that n ar(4) by (auto simp: s'_def take_block_pages u32_id)
  have srt: "sorted_wrt (apart ?pg') (us @ vs)"
    using sorted_apart_cong [of "us @ vs" ?pg' ?pg] same I(3) by (auto simp: sorted_wrt_append)
  have srt': "sorted_wrt (apart ?pg') ps'"
    using srt ar(1,2) r same n by (fastforce simp: ps'_def rest_heads_def sorted_wrt_append apart_def)
  have tot: "total ?pg' ps' = total ?pg (us @ p # vs) - n"
    using r n by (auto simp: ps'_def rest_heads_def us' vs')
  have bl: "blocks ?pg' ps' = blocks ?pg us \<union> {p + n ..< p + property (?pg p)} \<union> blocks ?pg vs"
    using r n by (auto simp: ps'_def rest_heads_def us' vs' block_def)
  then show fs: "free_set s' ps' = free_set s (us @ p # vs) - {p ..< p + n}"
    using blocks_take [OF I(3) n(2)] by (simp add: free_set_def)
  have "heads_ok ?pg' ps'" using I(2) r us' vs' n by (auto simp: ps'_def rest_heads_def)
  moreover have "p' \<in> set ps'" if "PageProperty (?pg' p')" for p'
    using that I(4) [of p'] n by (auto simp: s'_def take_block_pages ps'_def rest_heads_def split: if_splits)
  moreover have "\<not> PageReserved (?pg' q)" if "q \<in> blocks ?pg' ps'" for q
  proof -
    have "q \<in> blocks ?pg (us @ p # vs)" using that fs by (auto simp: free_set_def)
    then have "\<not> PageReserved (?pg q)" by (rule I(5))
    then show ?thesis using n by (auto simp: s'_def take_block_pages)
  qed
  moreover have "nr_free s' = total ?pg' ps'"
    using tot I(6,7) n by (simp add: s'_def take_block_nr_free u32_sub_id)
  ultimately show "ff_inv s' ps'"
    using links srt' tot I(7) by (auto simp: ff_inv_def)
qed

lemma find_exceeds_total: "total pg ps < n \<Longrightarrow> find (\<lambda>p. n \<le> property (pg p)) ps = None"
  by (induction ps) auto

lemma default_alloc_pages_eq:
  assumes "ff_inv s ps" and "0 < n"
  shows "default_alloc_pages n s =
    (case find (\<lambda>p. n \<le> property (pages s p)) ps of
       None \<Rightarrow> Some (None, s) | Some p \<Rightarrow> Some (Some p, take_block p n s))"
proof -
  have "nr_free s < n \<Longrightarrow> find (\<lambda>p. n \<le> property (pages s p)) ps = None"
    using assms(1) by (auto simp: ff_inv_def intro: find_exceeds_total)
  moreover have "alloc_search n FreeHead s = Some (find (\<lambda>p. n \<le> property (pages s p)) ps)"
    using alloc_search_find [of s "[]" ps n] assms(1) by (simp add: ff_inv_def)
  ultimately show ?thesis using assms(2) by (auto simp: default_alloc_pages_def split: option.splits)
qed

section \<open>Freeing\<close>

lemma clear_pages_ok:
  assumes "\<forall>q\<in>{p ..< p + k}. \<not> PageReserved (pages s q) \<and> \<not> PageProperty (pages s q)"
  shows "clear_pages p k s = Some (s\<lparr>pages := (\<lambda>q. if q \<in> {p ..< p + k}
      then set_page_ref 0 ((pages s q)\<lparr>flags := 0\<rparr>) else pages s q)\<rparr>)"
  using assms
proof (induction k arbitrary: p s)
  case 0
  then show ?case by simp
next
  case (Suc k)
  let ?s1 = "upd_page p (\<lambda>g. set_page_ref 0 (g\<lparr>flags := 0\<rparr>)) s"
  have "\<forall>q\<in>{Suc p ..< Suc p + k}. \<not> PageReserved (pages ?s1 q) \<and> \<not> PageProperty (pages ?s1 q)"
    using Suc.prems by auto
  from Suc.IH [OF this] show ?case
    using Suc.prems by (auto simp: upd_page_def fun_eq_iff intro!: pmm.equality)
qed

text \<open>
  \<open>ff_pre s us b vs\<close>: the state while a block \<open>b\<close> has been linked in between \<open>us\<close> and \<open>vs\<close>
  but may still touch its neighbours.
\<close>

definition ff_pre :: "pmm \<Rightarrow> nat list \<Rightarrow> nat \<Rightarrow> nat list \<Rightarrow> bool" where
  "ff_pre s us b vs \<longleftrightarrow>
     dlist (links s) FreeHead (map PageLink (us @ b # vs)) \<and>
     heads_ok (pages s) (us @ b # vs) \<and>
     sorted_wrt (apart (pages s)) us \<and> sorted_wrt (apart (pages s)) vs \<and>
     (\<forall>u\<in>set us. u + property (pages s u) \<le> b) \<and> (\<forall>v\<in>set vs. b + property (pages s b) \<le> v) \<and>
     (\<forall>p. PageProperty (pages s p) \<longrightarrow> p \<in> set (us @ b # vs)) \<and>
     (\<forall>q\<in>blocks (pages s) (us @ b # vs). \<not> PageReserved (pages s q)) \<and>
     nr_free s = total (pages s) (us @ b # vs) \<and> total (pages s) (us @ b # vs) < 2 ^ 32"

lemma ff_pre_inv:
  assumes "ff_pre s us b vs" and "\<forall>u\<in>set us. apart (pages s) u b" and "\<forall>v\<in>set vs. apart (pages s) b v"
  shows "ff_inv s (us @ b # vs)"
proof -
  have "sorted_wrt (apart (pages s)) (us @ b # vs)"
    using assms by (fastforce simp: ff_pre_def sorted_wrt_append apart_def)
  then show ?thesis using assms(1) by (simp add: ff_pre_def ff_inv_def)
qed

lemma ff_pre_gap:
  assumes "ff_pre s (us @ [u]) b vs"
  shows "\<forall>w\<in>set us. apart (pages s) w u \<and> apart (pages s) w b"
  using assms by (fastforce simp: ff_pre_def sorted_wrt_append apart_def)

lemma dlist_pages_distinct: "dlist l FreeHead (map PageLink ps) \<Longrightarrow> distinct ps"
  by (drule dlist_distinct) (simp add: distinct_map)

text \<open>Two touching neighbours become one block.\<close>

lemma join_ok:
  fixes s p b
  defines "s' \<equiv> upd_links (list_del (PageLink b)) (upd_page b ClearPageProperty
       (upd_page p (\<lambda>g. g\<lparr>property := u32 (property g + property (pages s b))\<rparr>) s))"
  assumes d: "dlist (links s) FreeHead (map PageLink (us @ p # b # vs))"
    and h: "heads_ok (pages s) (us @ p # b # vs)"
    and touch: "p + property (pages s p) = b"
    and t: "total (pages s) (us @ p # b # vs) < 2 ^ 32"
  shows "dlist (links s') FreeHead (map PageLink (us @ p # vs))"
    and "heads_ok (pages s') (us @ p # vs)"
    and "total (pages s') (us @ p # vs) = total (pages s) (us @ p # b # vs)"
    and "blocks (pages s') (us @ p # vs) = blocks (pages s) (us @ p # b # vs)"
    and "property (pages s' p) = property (pages s p) + property (pages s b)"
    and "\<And>q. q \<in> set us \<or> q \<in> set vs \<Longrightarrow> pages s' q = pages s q"
    and "\<And>q. PageProperty (pages s' q) \<longleftrightarrow> PageProperty (pages s q) \<and> q \<noteq> b"
    and "\<And>q. PageReserved (pages s' q) = PageReserved (pages s q)"
    and "nr_free s' = nr_free s"
proof -
  have dis: "distinct (us @ p # b # vs)" using d by (rule dlist_pages_distinct)
  have u: "u32 (property (pages s p) + property (pages s b)) = property (pages s p) + property (pages s b)"
    using t by (simp add: u32_id)
  show "dlist (links s') FreeHead (map PageLink (us @ p # vs))"
    using dlist_del [of "links s" FreeHead "map PageLink (us @ [p])" "PageLink b" "map PageLink vs"] d
    by (simp add: s'_def)
  show prp: "property (pages s' p) = property (pages s p) + property (pages s b)"
    using dis u by (auto simp: s'_def)
  show same: "pages s' q = pages s q" if "q \<in> set us \<or> q \<in> set vs" for q
    using that dis by (auto simp: s'_def)
  show pp: "PageProperty (pages s' q) \<longleftrightarrow> PageProperty (pages s q) \<and> q \<noteq> b" for q
    using dis by (auto simp: s'_def)
  show "PageReserved (pages s' q) = PageReserved (pages s q)" for q by (simp add: s'_def)
  have "heads_ok (pages s') us" "heads_ok (pages s') vs" "total (pages s') us = total (pages s) us"
    "total (pages s') vs = total (pages s) vs" "blocks (pages s') us = blocks (pages s) us"
    "blocks (pages s') vs = blocks (pages s) vs"
    using h same heads_ok_cong [of us "pages s'" "pages s"] heads_ok_cong [of vs "pages s'" "pages s"]
    by (auto intro!: total_cong blocks_cong)
  moreover have "block (pages s') p = block (pages s) p \<union> block (pages s) b"
    using prp touch by (auto simp: block_def)
  ultimately show "heads_ok (pages s') (us @ p # vs)"
    "total (pages s') (us @ p # vs) = total (pages s) (us @ p # b # vs)"
    "blocks (pages s') (us @ p # vs) = blocks (pages s) (us @ p # b # vs)"
    using h prp pp dis by auto
  show "nr_free s' = nr_free s" by (simp add: s'_def)
qed

lemma merge_prev_ok:
  assumes pre: "ff_pre s us b vs"
  shows "\<exists>us' b' s'. merge_prev b s = (b', s') \<and> ff_pre s' us' b' vs \<and>
      (\<forall>u\<in>set us'. apart (pages s') u b') \<and>
      blocks (pages s') (us' @ b' # vs) = blocks (pages s) (us @ b # vs)"
proof (cases us rule: rev_cases)
  case Nil
  then have "prv (links s) (PageLink b) = FreeHead"
    using pre dlist_neighbours(1) [of "links s" FreeHead "[]" "PageLink b" "map PageLink vs"]
    by (simp add: ff_pre_def)
  then have "merge_prev b s = (b, s)" by (simp add: merge_prev_def list_prev_def)
  then show ?thesis using pre Nil by auto
next
  case (snoc us0 u)
  have "prv (links s) (PageLink b) = PageLink u"
    using pre snoc dlist_neighbours(1) [of "links s" FreeHead "map PageLink (us0 @ [u])" "PageLink b"
        "map PageLink vs"]
    by (simp add: ff_pre_def)
  then have mp: "merge_prev b s = (if u + property (pages s u) = b then
      (u, upd_links (list_del (PageLink b)) (upd_page b ClearPageProperty
       (upd_page u (\<lambda>g. g\<lparr>property := u32 (property g + property (pages s b))\<rparr>) s))) else (b, s))"
    by (simp add: merge_prev_def list_prev_def Let_def)
  note gap = ff_pre_gap [OF pre [unfolded snoc]]
  show ?thesis
  proof (cases "u + property (pages s u) = b")
    case False
    then have "\<forall>u\<in>set us. apart (pages s) u b"
      using pre gap snoc by (fastforce simp: ff_pre_def apart_def)
    then show ?thesis using mp False pre by auto
  next
    case True
    have J: "dlist (links s) FreeHead (map PageLink (us0 @ u # b # vs))"
      "heads_ok (pages s) (us0 @ u # b # vs)" "total (pages s) (us0 @ u # b # vs) < 2 ^ 32"
      using pre snoc by (simp_all add: ff_pre_def)
    define s' where "s' = upd_links (list_del (PageLink b)) (upd_page b ClearPageProperty
       (upd_page u (\<lambda>g. g\<lparr>property := u32 (property g + property (pages s b))\<rparr>) s))"
    note j = join_ok [OF J(1,2) True J(3), folded s'_def]
    have srt: "sorted_wrt (apart (pages s')) us0" "sorted_wrt (apart (pages s')) vs"
      using pre snoc sorted_apart_cong [OF j(6)]
      by (simp_all add: ff_pre_def sorted_wrt_append)
    have lo: "\<forall>w\<in>set us0. w + property (pages s' w) \<le> u"
      using gap j(6) by (auto simp: apart_def)
    have hi: "\<forall>v\<in>set vs. u + property (pages s' u) \<le> v"
      using pre True j(5) by (auto simp: ff_pre_def)
    have pp: "\<forall>p. PageProperty (pages s' p) \<longrightarrow> p \<in> set (us0 @ u # vs)"
      using pre snoc j(7) by (auto simp: ff_pre_def)
    have "\<forall>q\<in>blocks (pages s') (us0 @ u # vs). \<not> PageReserved (pages s' q)"
      using pre snoc unfolding j(4) j(8) by (simp add: ff_pre_def)
    then have "ff_pre s' us0 u vs"
      unfolding ff_pre_def j(9) j(3) using srt lo hi pp j(1,2) pre snoc J(3)
      by (simp add: ff_pre_def)
    moreover have "\<forall>w\<in>set us0. apart (pages s') w u" using gap j(6) by (auto simp: apart_def)
    ultimately show ?thesis using mp True j(4) snoc by (auto simp: s'_def [symmetric])
  qed
qed

lemma merge_next_ok:
  assumes pre: "ff_pre s us b vs" and ap: "\<forall>u\<in>set us. apart (pages s) u b"
  shows "\<exists>ps'. ff_inv (merge_next b s) ps' \<and>
      blocks (pages (merge_next b s)) ps' = blocks (pages s) (us @ b # vs)"
proof (cases vs)
  case Nil
  then have "nxt (links s) (PageLink b) = FreeHead"
    using pre dlist_neighbours(2) [of "links s" FreeHead "map PageLink us" "PageLink b" "[]"]
    by (simp add: ff_pre_def)
  then have "merge_next b s = s" by (simp add: merge_next_def list_next_def)
  then show ?thesis using ff_pre_inv [OF pre ap] Nil by auto
next
  case (Cons v vs0)
  have "nxt (links s) (PageLink b) = PageLink v"
    using pre Cons dlist_neighbours(2) [of "links s" FreeHead "map PageLink us" "PageLink b"
        "map PageLink (v # vs0)"]
    by (simp add: ff_pre_def)
  then have mn: "merge_next b s = (if b + property (pages s b) = v then
      upd_links (list_del (PageLink v)) (upd_page v ClearPageProperty
       (upd_page b (\<lambda>g. g\<lparr>property := u32 (property g + property (pages s v))\<rparr>) s)) else s)"
    by (simp add: merge_next_def list_next_def Let_def)
  have gap: "\<forall>w\<in>set vs0. apart (pages s) v w"
    using pre Cons by (simp add: ff_pre_def)
  show ?thesis
  proof (cases "b + property (pages s b) = v")
    case False
    then have "\<forall>w\<in>set vs. apart (pages s) b w"
      using pre gap Cons by (fastforce simp: ff_pre_def apart_def)
    then show ?thesis using mn False ff_pre_inv [OF pre ap] by auto
  next
    case True
    have J: "dlist (links s) FreeHead (map PageLink (us @ b # v # vs0))"
      "heads_ok (pages s) (us @ b # v # vs0)" "total (pages s) (us @ b # v # vs0) < 2 ^ 32"
      using pre Cons by (simp_all add: ff_pre_def)
    define s' where "s' = upd_links (list_del (PageLink v)) (upd_page v ClearPageProperty
       (upd_page b (\<lambda>g. g\<lparr>property := u32 (property g + property (pages s v))\<rparr>) s))"
    note j = join_ok [OF J(1,2) True J(3), folded s'_def]
    have ab: "\<forall>w\<in>set vs0. apart (pages s') b w" "\<forall>u\<in>set us. apart (pages s') u b"
      using gap j(5,6) True ap by (auto simp: apart_def)
    have srt: "sorted_wrt (apart (pages s')) us" "sorted_wrt (apart (pages s')) vs0"
      using pre Cons sorted_apart_cong [OF j(6)] by (simp_all add: ff_pre_def)
    have lo: "\<forall>w\<in>set us. w + property (pages s' w) \<le> b"
      and hi: "\<forall>w\<in>set vs0. b + property (pages s' b) \<le> w"
      using ab by (auto simp: apart_def less_imp_le)
    have pp: "\<forall>p. PageProperty (pages s' p) \<longrightarrow> p \<in> set (us @ b # vs0)"
      using pre Cons j(7) by (auto simp: ff_pre_def)
    have "\<forall>q\<in>blocks (pages s') (us @ b # vs0). \<not> PageReserved (pages s' q)"
      using pre Cons unfolding j(4) j(8) by (simp add: ff_pre_def)
    then have "ff_pre s' us b vs0"
      unfolding ff_pre_def j(9) j(3) using srt lo hi pp j(1,2) pre Cons J(3)
      by (simp add: ff_pre_def)
    then have "ff_inv s' (us @ b # vs0)" using ab by (intro ff_pre_inv) auto
    then show ?thesis using mn True j(4) Cons by (auto simp: s'_def [symmetric])
  qed
qed

text \<open>Linking the freed block in, below some free block or into an empty list.\<close>

lemma insert_block_ok:
  assumes d: "dlist (links s) FreeHead (map PageLink ps)" and b: "base \<notin> set ps"
    and pos: "ps = [] \<or> (\<exists>v\<in>set ps. base < v)"
  shows "\<exists>l'. insert_block base s = Some (s\<lparr>links := l'\<rparr>) \<and>
      dlist l' FreeHead (map PageLink
        (takeWhile (\<lambda>v. v < base) ps @ base # dropWhile (\<lambda>v. v < base) ps))"
proof (cases "ps = []")
  case True
  then show ?thesis
    using d dlist_add_after_head [of "links s" FreeHead "[]" "PageLink base"]
    by (auto simp: insert_block_def dlist_empty list_add_def upd_links_def)
next
  case False
  then have "\<not> list_empty FreeHead (links s)" using d by (auto simp: dlist_empty)
  moreover obtain l' where "insert_loop base FreeHead (links s) = Some l'"
    "dlist l' FreeHead (map PageLink
        (takeWhile (\<lambda>v. v < base) ps @ base # dropWhile (\<lambda>v. v < base) ps))"
    using insert_loop_sorted [of "links s" "[]" ps base] d b pos False by auto
  ultimately show ?thesis by (auto simp: insert_block_def)
qed

lemma sorted_split_at:
  assumes "sorted_wrt (<) ps" and "base \<notin> set (ps :: nat list)"
  shows "\<forall>u\<in>set (takeWhile (\<lambda>v. v < base) ps). u < base"
    and "\<forall>v\<in>set (dropWhile (\<lambda>v. v < base) ps). base < v"
  using assms by (induction ps) (auto split: if_splits)

text \<open>
  The page descriptors after the freed block \<open>base\<close> got its size and its mark, between the
  lower heads \<open>us\<close> and the higher heads \<open>vs\<close>.
\<close>

lemma linked_pages_ok:
  assumes h: "heads_ok pg (us @ vs)" and srt: "sorted_wrt (apart pg) (us @ vs)" and n: "0 < n"
    and dis: "{base ..< base + n} \<inter> blocks pg (us @ vs) = {}"
    and lo: "\<forall>u\<in>set us. u < base" and hi: "\<forall>v\<in>set vs. base < v"
    and same: "\<forall>p\<in>set (us @ vs). pg1 p = pg p"
    and pb: "property (pg1 base) = n" "PageProperty (pg1 base)"
  shows "heads_ok pg1 (us @ base # vs)"
    and "sorted_wrt (apart pg1) us" and "sorted_wrt (apart pg1) vs"
    and "\<forall>u\<in>set us. u + property (pg1 u) \<le> base" and "\<forall>v\<in>set vs. base + property (pg1 base) \<le> v"
    and "total pg1 (us @ base # vs) = total pg (us @ vs) + n"
    and "blocks pg1 (us @ base # vs) = blocks pg (us @ vs) \<union> {base ..< base + n}"
proof -
  have c: "heads_ok pg1 us = heads_ok pg us" "heads_ok pg1 vs = heads_ok pg vs"
    "sorted_wrt (apart pg1) us = sorted_wrt (apart pg) us"
    "sorted_wrt (apart pg1) vs = sorted_wrt (apart pg) vs"
    "total pg1 us = total pg us" "total pg1 vs = total pg vs"
    "blocks pg1 us = blocks pg us" "blocks pg1 vs = blocks pg vs"
    by (auto intro!: heads_ok_cong sorted_apart_cong total_cong blocks_cong simp: same)
  show "heads_ok pg1 (us @ base # vs)" using h pb n c by simp
  show "sorted_wrt (apart pg1) us" "sorted_wrt (apart pg1) vs"
    using srt c by (simp_all add: sorted_wrt_append)
  show "total pg1 (us @ base # vs) = total pg (us @ vs) + n" using c pb by simp
  show "blocks pg1 (us @ base # vs) = blocks pg (us @ vs) \<union> {base ..< base + n}"
    using c pb by (auto simp: block_def)
  show "\<forall>u\<in>set us. u + property (pg1 u) \<le> base"
  proof (rule ballI, rule ccontr)
    fix u assume u: "u \<in> set us" "\<not> u + property (pg1 u) \<le> base"
    then have "base \<in> block pg u" using lo same by (auto simp: block_def less_imp_le)
    then have "base \<in> blocks pg (us @ vs)" using u by (auto simp: blocks_def)
    moreover have "base \<in> {base ..< base + n}" using n by simp
    ultimately show False using dis by blast
  qed
  show "\<forall>v\<in>set vs. base + property (pg1 base) \<le> v"
  proof
    fix v assume v: "v \<in> set vs"
    then have "v \<in> blocks pg (us @ vs)" using blocks_head [OF h, of v] by simp
    then have "v \<notin> {base ..< base + n}" using dis by blast
    then show "base + property (pg1 base) \<le> v" using v hi pb(1) by (auto simp: not_less)
  qed
qed

text \<open>The state \<^verbatim>\<open>default_free_pages\<close> has reached when the merging steps begin.\<close>

definition freed_pages :: "nat \<Rightarrow> nat \<Rightarrow> (nat \<Rightarrow> page) \<Rightarrow> nat \<Rightarrow> page" where
  "freed_pages base n pg =
     (let pg0 = (\<lambda>q. if q \<in> {base ..< base + n} then set_page_ref 0 ((pg q)\<lparr>flags := 0\<rparr>) else pg q)
      in pg0(base := SetPageProperty ((pg0 base)\<lparr>property := n\<rparr>)))"

lemma freed_pages_simps:
  assumes "0 < n"
  shows "property (freed_pages base n pg base) = n" "PageProperty (freed_pages base n pg base)"
    and "q \<notin> {base ..< base + n} \<Longrightarrow> freed_pages base n pg q = pg q"
    and "PageProperty (freed_pages base n pg q) \<Longrightarrow> q = base \<or> PageProperty (pg q)"
    and "q \<in> {base ..< base + n} \<Longrightarrow> \<not> PageReserved (freed_pages base n pg q)"
  using assms by (auto simp: freed_pages_def Let_def split: if_splits)

lemma free_set_outside:
  assumes "ff_inv s ps" and "{base ..< base + n} \<inter> free_set s ps = {}" and "q \<in> {base ..< base + n}"
  shows "q \<notin> set ps" and "\<not> PageProperty (pages s q)"
proof -
  show "q \<notin> set ps"
    using assms blocks_head [of "pages s" ps q] by (auto simp: free_set_def ff_inv_def)
  then show "\<not> PageProperty (pages s q)" using assms(1) by (auto simp: ff_inv_def)
qed

lemma clear_freed:
  assumes inv: "ff_inv s ps" and n: "0 < n"
    and dis: "{base ..< base + n} \<inter> free_set s ps = {}"
    and res: "\<forall>q\<in>{base ..< base + n}. \<not> PageReserved (pages s q)"
    and sz: "nr_free s + n < 2 ^ 32"
  obtains s0 where "clear_pages base n s = Some s0"
    and "(upd_page base SetPageProperty (upd_page base (\<lambda>g. g\<lparr>property := u32 n\<rparr>) s0))
           \<lparr>nr_free := u32 (nr_free s0 + n)\<rparr> =
         s\<lparr>pages := freed_pages base n (pages s), nr_free := nr_free s + n\<rparr>"
    and "nr_free s0 = nr_free s"
proof (rule that)
  show "clear_pages base n s = Some (s\<lparr>pages := (\<lambda>q. if q \<in> {base ..< base + n}
      then set_page_ref 0 ((pages s q)\<lparr>flags := 0\<rparr>) else pages s q)\<rparr>)" (is "_ = Some ?s0")
    using clear_pages_ok [of base n s] free_set_outside [OF inv dis] res by blast
  show "(upd_page base SetPageProperty (upd_page base (\<lambda>g. g\<lparr>property := u32 n\<rparr>) ?s0))
           \<lparr>nr_free := u32 (nr_free ?s0 + n)\<rparr> =
         s\<lparr>pages := freed_pages base n (pages s), nr_free := nr_free s + n\<rparr>"
    using n sz by (simp add: upd_page_def u32_id freed_pages_def Let_def)
qed simp

lemma freed_linked_ok:
  fixes base ps
  assumes inv: "ff_inv s ps" and n: "0 < n"
    and dis: "{base ..< base + n} \<inter> free_set s ps = {}"
    and sz: "nr_free s + n < 2 ^ 32"
  defines "us \<equiv> takeWhile (\<lambda>v. v < base) ps" and "vs \<equiv> dropWhile (\<lambda>v. v < base) ps"
  assumes l1: "dlist l1 FreeHead (map PageLink (us @ base # vs))"
  defines "s1 \<equiv> s\<lparr>pages := freed_pages base n (pages s), nr_free := nr_free s + n, links := l1\<rparr>"
  shows "ff_pre s1 us base vs"
    and "blocks (pages s1) (us @ base # vs) = free_set s ps \<union> {base ..< base + n}"
proof -
  have I: "heads_ok (pages s) ps"
    "sorted_wrt (apart (pages s)) ps" "\<And>p'. PageProperty (pages s p') \<Longrightarrow> p' \<in> set ps"
    "\<And>q. q \<in> blocks (pages s) ps \<Longrightarrow> \<not> PageReserved (pages s q)"
    "nr_free s = total (pages s) ps" using inv by (auto simp: ff_inv_def)
  note out = free_set_outside [OF inv dis]
  have b: "base \<notin> set ps" using out(1) [of base] n by simp
  have ps: "ps = us @ vs" by (simp add: us_def vs_def)
  have sp: "\<forall>u\<in>set us. u < base" "\<forall>v\<in>set vs. base < v"
    using sorted_split_at [OF sorted_apart_less [OF I(1,2)] b] by (simp_all add: us_def vs_def)
  have same: "\<forall>p\<in>set (us @ vs). pages s1 p = pages s p"
  proof
    fix p assume "p \<in> set (us @ vs)"
    then have "p \<notin> {base ..< base + n}" using out(1) [of p] unfolding ps by blast
    then show "pages s1 p = pages s p" unfolding s1_def by (simp add: freed_pages_simps n)
  qed
  note L = linked_pages_ok [OF I(1,2) [unfolded ps] n dis [unfolded free_set_def ps] sp same]
  have L': "property (pages s1 base) = n" "PageProperty (pages s1 base)"
    by (simp_all add: s1_def freed_pages_simps n)
  have pp: "\<forall>p. PageProperty (pages s1 p) \<longrightarrow> p \<in> set (us @ base # vs)"
    using freed_pages_simps(4) [OF n, of base "pages s"] I(3) by (auto simp: s1_def ps)
  have rs: "\<not> PageReserved (pages s1 q)" if "q \<in> blocks (pages s1) (us @ base # vs)" for q
    using that [unfolded L(7) [OF L']] I(4) [of q] n
    by (cases "q \<in> {base ..< base + n}") (auto simp: s1_def ps freed_pages_simps)
  show "ff_pre s1 us base vs"
    unfolding ff_pre_def using L(1-6) [OF L'] pp rs l1 sz I(5) by (simp add: s1_def ps)
  show "blocks (pages s1) (us @ base # vs) = free_set s ps \<union> {base ..< base + n}"
    using L(7) [OF L'] by (simp add: free_set_def ps)
qed

text \<open>The two merging steps, one after the other.\<close>

lemma merge_both_ok:
  assumes pre: "ff_pre s us b vs"
  shows "\<exists>s' ps'. (let (b, s) = merge_prev b s in Some (merge_next b s)) = Some s' \<and>
      ff_inv s' ps' \<and> free_set s' ps' = blocks (pages s) (us @ b # vs)"
proof -
  from merge_prev_ok [OF pre] obtain us' b' s' where m: "merge_prev b s = (b', s')"
    "ff_pre s' us' b' vs" "\<forall>u\<in>set us'. apart (pages s') u b'"
    "blocks (pages s') (us' @ b' # vs) = blocks (pages s) (us @ b # vs)" by blast
  from merge_next_ok [OF m(2,3)] obtain ps' where "ff_inv (merge_next b' s') ps'"
    "blocks (pages (merge_next b' s')) ps' = blocks (pages s') (us' @ b' # vs)" by blast
  then show ?thesis using m by (auto simp: free_set_def)
qed

lemma free_keeps_inv:
  assumes inv: "ff_inv s ps" and n: "0 < n"
    and dis: "{base ..< base + n} \<inter> free_set s ps = {}"
    and res: "\<forall>q\<in>{base ..< base + n}. \<not> PageReserved (pages s q)"
    and sz: "nr_free s + n < 2 ^ 32"
    and pos: "ps = [] \<or> (\<exists>v\<in>set ps. base < v)"
  shows "\<exists>s' ps'. default_free_pages base n s = Some s' \<and> ff_inv s' ps' \<and>
           free_set s' ps' = free_set s ps \<union> {base ..< base + n}"
proof -
  let ?us = "takeWhile (\<lambda>v. v < base) ps" and ?vs = "dropWhile (\<lambda>v. v < base) ps"
  let ?s0 = "s\<lparr>pages := freed_pages base n (pages s), nr_free := nr_free s + n\<rparr>"
  have b: "base \<notin> set ps" using free_set_outside(1) [OF inv dis, of base] n by simp
  have d: "dlist (links ?s0) FreeHead (map PageLink ps)" using inv by (simp add: ff_inv_def)
  from insert_block_ok [OF d b pos] obtain l1 where l1: "insert_block base ?s0 = Some (?s0\<lparr>links := l1\<rparr>)"
    "dlist l1 FreeHead (map PageLink (?us @ base # ?vs))" by blast
  from clear_freed [OF inv n dis res sz] obtain s0 where s0: "clear_pages base n s = Some s0"
    "(upd_page base SetPageProperty (upd_page base (\<lambda>g. g\<lparr>property := u32 n\<rparr>) s0))
           \<lparr>nr_free := u32 (nr_free s0 + n)\<rparr> = ?s0" "nr_free s0 = nr_free s" by blast
  have "default_free_pages base n s =
      (let (b, s) = merge_prev base (?s0\<lparr>links := l1\<rparr>) in Some (merge_next b s))"
    using n l1(1) s0 by (simp add: default_free_pages_def)
  with merge_both_ok [OF freed_linked_ok(1) [OF inv n dis sz l1(2)]]
    freed_linked_ok(2) [OF inv n dis sz l1(2)]
  show ?thesis by auto
qed

section \<open>Freeing above every free block\<close>

text \<open>
  When the freed block lies above every free block, the loop appends it and then meets it
  again: \<^verbatim>\<open>list_add(le, &base->page_link)\<close> runs a second time with \<^verbatim>\<open>le\<close> the node itself and leaves
  its back link pointing at itself.
\<close>

lemma insert_loop_tail:
  assumes "dlist l FreeHead (map PageLink (us @ vs))" and "vs \<noteq> []"
    and "\<forall>v\<in>set vs. v < base" and "base \<notin> set us"
  shows "insert_loop base (before FreeHead (map PageLink us)) l =
      Some (list_add (PageLink base) (PageLink base) (list_add (PageLink (last vs)) (PageLink base) l))"
  using assms
proof (induction vs arbitrary: us)
  case Nil
  then show ?case by simp
next
  case (Cons v vs)
  have nx: "list_next (before FreeHead (map PageLink us)) l = PageLink v"
    using ring_next [OF Cons.prems(1)] by simp
  have nv: "list_next (PageLink v) l = behind FreeHead (map PageLink vs)"
    using ring_next [of l "us @ [v]" vs] Cons.prems(1) by simp
  show ?case
  proof (cases "vs = []")
    case True
    let ?l1 = "list_add (PageLink v) (PageLink base) l"
    let ?l2 = "list_add (PageLink base) (PageLink base) ?l1"
    have bv: "\<not> base < v" "base \<noteq> v" using Cons.prems(3) by auto
    have "insert_loop base (before FreeHead (map PageLink us)) l = insert_loop base (PageLink v) ?l1"
      using nx nv True bv by (subst insert_loop.simps) simp
    also have "\<dots> = insert_loop base (PageLink base) ?l2"
      using nv True bv by (subst insert_loop.simps) (simp add: klist_ops Let_def)
    also have "\<dots> = Some ?l2"
      using nv True bv by (subst insert_loop.simps) (simp add: klist_ops Let_def)
    finally show ?thesis using True by simp
  next
    case False
    then have "list_next (PageLink v) l \<noteq> FreeHead" using nv by (cases vs) auto
    then have "insert_loop base (before FreeHead (map PageLink us)) l =
        insert_loop base (before FreeHead (map PageLink (us @ [v]))) l"
      using nx Cons.prems(3) by (subst insert_loop.simps) auto
    then show ?thesis using Cons.IH [of "us @ [v]"] Cons.prems False by auto
  qed
qed

section \<open>The manager contract\<close>

text \<open>
  What \<^verbatim>\<open>struct pmm_manager\<close> promises its callers in \<^verbatim>\<open>kern/mm/pmm.c\<close>: \<open>ok s h\<close> is the manager's
  invariant with a ghost description \<open>h\<close> of its free list, \<open>avail s h\<close> the free pages.
\<close>

locale pmm_manager =
  fixes ok :: "'s \<Rightarrow> 'h \<Rightarrow> bool"
    and avail :: "'s \<Rightarrow> 'h \<Rightarrow> nat set"
    and alloc_pages :: "nat \<Rightarrow> 's \<Rightarrow> (nat option \<times> 's) option"
    and nr_free_pages :: "'s \<Rightarrow> nat"
  assumes avail_finite: "ok s h \<Longrightarrow> finite (avail s h)"
    and nr_free_avail: "ok s h \<Longrightarrow> nr_free_pages s = card (avail s h)"
    and alloc_total: "ok s h \<Longrightarrow> 0 < n \<Longrightarrow> \<exists>r s'. alloc_pages n s = Some (r, s')"
    and alloc_none: "ok s h \<Longrightarrow> 0 < n \<Longrightarrow> alloc_pages n s = Some (None, s') \<Longrightarrow> s' = s"
    and alloc_some: "ok s h \<Longrightarrow> 0 < n \<Longrightarrow> alloc_pages n s = Some (Some p, s') \<Longrightarrow>
        {p ..< p + n} \<subseteq> avail s h \<and> (\<exists>h'. ok s' h' \<and> avail s' h' = avail s h - {p ..< p + n})"
begin

lemma alloc_run_ok:
  assumes "ok s h" and "\<forall>n\<in>set ns. 0 < n"
  shows "\<exists>rs s' h'. alloc_run alloc_pages ns s = Some (rs, s') \<and> ok s' h' \<and>
      avail s' h' = avail s h - (\<Union>b\<in>set rs. span b) \<and>
      (\<forall>b\<in>set rs. span b \<subseteq> avail s h) \<and>
      sorted_wrt (\<lambda>a b. span a \<inter> span b = {}) rs"
  using assms
proof (induction ns arbitrary: s h)
  case Nil
  then show ?case by auto
next
  case (Cons n ns)
  from Cons.prems alloc_total obtain r s1 where a: "alloc_pages n s = Some (r, s1)" by fastforce
  show ?case
  proof (cases r)
    case None
    then have "s1 = s" using alloc_none [of s h n s1] Cons.prems a by simp
    then show ?thesis using Cons.IH [of s h] Cons.prems a None by (fastforce split: option.splits)
  next
    case (Some p)
    with a Cons.prems alloc_some [of s h n p s1] obtain h1 where
      sub: "{p ..< p + n} \<subseteq> avail s h" and h1: "ok s1 h1" "avail s1 h1 = avail s h - {p ..< p + n}"
      by auto
    from Cons.IH [OF h1(1)] Cons.prems obtain rs s' h' where
      "alloc_run alloc_pages ns s1 = Some (rs, s')" "ok s' h'" "avail s' h' = avail s1 h1 - (\<Union>b\<in>set rs. span b)"
      "\<forall>b\<in>set rs. span b \<subseteq> avail s1 h1" "sorted_wrt (\<lambda>a b. span a \<inter> span b = {}) rs" by auto
    then show ?thesis using a Some sub h1
      by (intro exI [of _ "(p, n) # rs"] exI [of _ s'] exI [of _ h'])
         (auto simp del: ivl_disj_un ivl_disj_int)
  qed
qed

end

lemma default_alloc_pages_some:
  assumes "ff_inv s ps" and "0 < n" and "default_alloc_pages n s = Some (Some p, s')"
  shows "\<exists>us vs. ps = us @ p # vs \<and> (\<forall>u\<in>set us. property (pages s u) < n) \<and>
      n \<le> property (pages s p) \<and> s' = take_block p n s"
proof -
  from assms default_alloc_pages_eq [OF assms(1,2)]
  have f: "find (\<lambda>p. n \<le> property (pages s p)) ps = Some p" and s': "s' = take_block p n s"
    by (auto split: option.splits)
  from f obtain i where i: "i < length ps" "n \<le> property (pages s (ps ! i))" "p = ps ! i"
    "\<forall>j<i. \<not> n \<le> property (pages s (ps ! j))"
    by (auto simp: find_Some_iff)
  then have "ps = take i ps @ p # drop (Suc i) ps" by (simp add: id_take_nth_drop)
  moreover have "\<forall>u\<in>set (take i ps). property (pages s u) < n"
    using i(1,4) by (auto simp: in_set_conv_nth not_le)
  ultimately show ?thesis using s' i(2,3) by blast
qed

lemma block_subset_free:
  "ps = us @ p # vs \<Longrightarrow> n \<le> property (pages s p) \<Longrightarrow> {p ..< p + n} \<subseteq> free_set s ps"
  by (auto simp: free_set_def block_def)

interpretation ff: pmm_manager ff_inv free_set default_alloc_pages default_nr_free_pages
proof
  fix s ps and n :: nat
  assume inv: "ff_inv s ps"
  show "finite (free_set s ps)" by (simp add: free_set_def)
  show "default_nr_free_pages s = card (free_set s ps)"
    by (simp add: default_nr_free_pages_def ff_inv_card [OF inv])
  assume n: "0 < n"
  show "\<exists>r s'. default_alloc_pages n s = Some (r, s')"
    using default_alloc_pages_eq [OF inv n] by (auto split: option.splits)
  show "s' = s" if "default_alloc_pages n s = Some (None, s')" for s'
    using that default_alloc_pages_eq [OF inv n] by (auto split: option.splits)
  show "{p ..< p + n} \<subseteq> free_set s ps \<and>
      (\<exists>ps'. ff_inv s' ps' \<and> free_set s' ps' = free_set s ps - {p ..< p + n})"
    if "default_alloc_pages n s = Some (Some p, s')" for p s'
  proof -
    from default_alloc_pages_some [OF inv n that] obtain us vs where
      ps: "ps = us @ p # vs" and le: "n \<le> property (pages s p)" and s': "s' = take_block p n s" by blast
    show ?thesis using take_block_ok [OF inv [unfolded ps] n le] block_subset_free [OF ps le]
      unfolding s' ps by blast
  qed
qed

section \<open>Setting up\<close>

lemma init_pages_ok:
  assumes "\<forall>q\<in>{p ..< p + k}. PageReserved (pages s q)"
  shows "init_pages p k s = Some (s\<lparr>pages := (\<lambda>q. if q \<in> {p ..< p + k}
      then set_page_ref 0 ((pages s q)\<lparr>flags := 0, property := 0\<rparr>) else pages s q)\<rparr>)"
  using assms
proof (induction k arbitrary: p s)
  case 0
  then show ?case by simp
next
  case (Suc k)
  let ?s1 = "upd_page p (\<lambda>g. set_page_ref 0 (g\<lparr>flags := 0, property := 0\<rparr>)) s"
  have "\<forall>q\<in>{Suc p ..< Suc p + k}. PageReserved (pages ?s1 q)" using Suc.prems by auto
  from Suc.IH [OF this] show ?case
    using Suc.prems by (auto simp: upd_page_def fun_eq_iff intro!: pmm.equality)
qed

text \<open>
  The first call of \<^verbatim>\<open>init_memmap\<close>, the only one \<^verbatim>\<open>page_init\<close> makes: the region becomes the only
  block of an empty free list.
\<close>

lemma init_memmap_inv:
  assumes "0 < n" and "n < 2 ^ 32" and "nr_free s = 0"
    and "\<forall>q. \<not> PageProperty (pages s q)"
    and "dlist l' FreeHead [PageLink base]"
  defines "s' \<equiv> s\<lparr>pages := (\<lambda>q. if q \<in> {base ..< base + n}
      then set_page_ref 0 ((pages s q)\<lparr>flags := 0, property := 0\<rparr>) else pages s q)
      (base := SetPageProperty ((set_page_ref 0 ((pages s base)\<lparr>flags := 0, property := 0\<rparr>))\<lparr>property := n\<rparr>)),
      nr_free := n, links := l'\<rparr>"
  shows "ff_inv s' [base]" and "free_set s' [base] = {base ..< base + n}"
proof -
  show "free_set s' [base] = {base ..< base + n}" by (simp add: s'_def free_set_def block_def)
  show "ff_inv s' [base]"
    using assms by (auto simp: ff_inv_def s'_def block_def split: if_splits)
qed

lemma default_boot:
  assumes n: "0 < n" "n < 2 ^ 32" and res: "\<forall>q\<in>{base ..< base + n}. PageReserved (pages s q)"
    and np: "\<forall>q. \<not> PageProperty (pages s q)"
  shows "\<exists>s'. default_init_memmap base n (default_init s) = Some s' \<and> ff_inv s' [base] \<and>
      free_set s' [base] = {base ..< base + n} \<and> nr_free s' = n"
proof -
  let ?s0 = "default_init s"
  have s0: "pages ?s0 = pages s" "nr_free ?s0 = 0" "dlist (links ?s0) FreeHead []"
    by (simp_all add: default_init_def dlist_init)
  let ?l = "list_add FreeHead (PageLink base) (links ?s0)"
  have d: "dlist ?l FreeHead [PageLink base]"
    using dlist_add_after_head [OF s0(3), of "PageLink base"] by (simp add: list_add_def)
  have e: "list_empty FreeHead (links ?s0)" using dlist_empty [OF s0(3)] by simp
  have ip: "init_pages base n ?s0 = Some (?s0\<lparr>pages := (\<lambda>q. if q \<in> {base ..< base + n}
      then set_page_ref 0 ((pages s q)\<lparr>flags := 0, property := 0\<rparr>) else pages s q)\<rparr>)"
    using init_pages_ok [of base n ?s0] res unfolding s0(1) by blast
  have "default_init_memmap base n ?s0 = Some (?s0\<lparr>pages := (\<lambda>q. if q \<in> {base ..< base + n}
      then set_page_ref 0 ((pages s q)\<lparr>flags := 0, property := 0\<rparr>) else pages s q)
      (base := SetPageProperty ((set_page_ref 0 ((pages s base)\<lparr>flags := 0, property := 0\<rparr>))\<lparr>property := n\<rparr>)),
      nr_free := n, links := ?l\<rparr>)"
    using n e s0(2) by (simp add: default_init_memmap_def ip insert_block_def upd_page_def upd_links_def
        u32_id)
  moreover have np': "\<forall>q. \<not> PageProperty (pages ?s0 q)" using np unfolding s0(1) .
  note init_memmap_inv [where base = base and l' = ?l, OF n s0(2) np' d, unfolded s0(1)]
  ultimately show ?thesis by simp
qed

section \<open>Properties of the first-fit manager\<close>

text \<open>
  A small state: pages 0 and 1 form one free block, pages 6, 7 and 8 another; every other
  page is in use.
\<close>

definition sample_page :: page where
  "sample_page = \<lparr>ref = 1, flags = 0, property = 0\<rparr>"

definition sample_head :: "nat \<Rightarrow> page" where
  "sample_head n = SetPageProperty \<lparr>ref = 0, flags = 0, property = n\<rparr>"

definition sample_pmm :: pmm where
  "sample_pmm = \<lparr>pages = (\<lambda>_. sample_page)(0 := sample_head 2, 6 := sample_head 3),
     links = \<lparr>nxt = (\<lambda>x. x)(FreeHead := PageLink 0, PageLink 0 := PageLink 6, PageLink 6 := FreeHead),
              prv = (\<lambda>x. x)(FreeHead := PageLink 6, PageLink 0 := FreeHead, PageLink 6 := PageLink 0)\<rparr>,
     nr_free = 5\<rparr>"

lemma sample_flags [simp]:
  "PageProperty (sample_head n)" "\<not> PageProperty sample_page"
  "\<not> PageReserved (sample_head n)" "\<not> PageReserved sample_page" "property (sample_head n) = n"
  "property sample_page = 0"
  by (simp_all add: sample_head_def) (simp_all add: sample_page_def PageProperty_def PageReserved_def)

lemma sample_pmm_inv: "ff_inv sample_pmm [0, 6]"
  by (auto simp: ff_inv_def sample_pmm_def dlist_def apart_def blocks_def block_def)

lemma sample_free_set: "free_set sample_pmm [0, 6] = {0, 1, 6, 7, 8}"
  by (auto simp: free_set_def blocks_def block_def sample_pmm_def)

text \<open>
  C1: Allocation is first fit: \<^verbatim>\<open>default_alloc_pages\<close> returns the head of the first block of the
  address-ordered free list that has at least \<open>n\<close> pages, the remainder of that block takes its
  place in the list, exactly the \<open>n\<close> pages handed out leave the free set and the invariant
  holds again; it returns \<^verbatim>\<open>NULL\<close>, changing nothing, exactly when no block is large enough.
\<close>

theorem default_alloc_first_fit:
  assumes "ff_inv s ps" and "0 < n"
  shows "(\<exists>us p vs. ps = us @ p # vs \<and> n \<le> property (pages s p) \<and>
            (\<forall>u\<in>set us. property (pages s u) < n) \<and>
            default_alloc_pages n s = Some (Some p, take_block p n s) \<and>
            ff_inv (take_block p n s) (us @ rest_heads s p n @ vs) \<and>
            free_set (take_block p n s) (us @ rest_heads s p n @ vs) = free_set s ps - {p ..< p + n})
       \<or> ((\<forall>p\<in>set ps. property (pages s p) < n) \<and> default_alloc_pages n s = Some (None, s))"
proof (cases "find (\<lambda>p. n \<le> property (pages s p)) ps")
  case None
  then have "\<forall>p\<in>set ps. property (pages s p) < n" by (auto simp: find_None_iff not_le)
  with None default_alloc_pages_eq [OF assms] show ?thesis by simp
next
  case (Some p)
  then have r: "default_alloc_pages n s = Some (Some p, take_block p n s)"
    using default_alloc_pages_eq [OF assms] by simp
  from default_alloc_pages_some [OF assms r] obtain us vs where
    ps: "ps = us @ p # vs" "\<forall>u\<in>set us. property (pages s u) < n" "n \<le> property (pages s p)" by blast
  show ?thesis using take_block_ok [OF assms(1) [unfolded ps(1)] assms(2) ps(3)] r ps by blast
qed

theorem default_alloc_first_fit_witness:
  "default_alloc_pages 3 sample_pmm = Some (Some 6, take_block 6 3 sample_pmm)"
  using default_alloc_first_fit [OF sample_pmm_inv, of 3]
  by (auto simp: Cons_eq_append_conv) (auto simp: sample_pmm_def)

text \<open>
  C2: Freeing a block that is in use and does not lie above every free block succeeds, puts
  exactly its pages back and leaves a free list that is again in address order with every
  two neighbours apart, that is, fully merged.
\<close>

theorem default_free_pages_merges:
  assumes "ff_inv s ps" and "0 < n"
    and "{base ..< base + n} \<inter> free_set s ps = {}"
    and "\<forall>q\<in>{base ..< base + n}. \<not> PageReserved (pages s q)"
    and "nr_free s + n < 2 ^ 32"
    and "ps = [] \<or> (\<exists>v\<in>set ps. base < v)"
  shows "\<exists>s' ps'. default_free_pages base n s = Some s' \<and> ff_inv s' ps' \<and>
           free_set s' ps' = free_set s ps \<union> {base ..< base + n} \<and>
           nr_free s' = nr_free s + n"
proof -
  from free_keeps_inv [OF assms] obtain s' ps' where r: "default_free_pages base n s = Some s'"
    "ff_inv s' ps'" "free_set s' ps' = free_set s ps \<union> {base ..< base + n}" by blast
  have "card (free_set s ps \<union> {base ..< base + n}) = card (free_set s ps) + n"
    using assms(3) by (subst card_Un_disjoint) (auto simp: free_set_def)
  then show ?thesis using r ff_inv_card [OF r(2)] ff_inv_card [OF assms(1)] by auto
qed

theorem default_free_pages_merges_witness:
  "\<exists>s' ps'. default_free_pages 2 4 sample_pmm = Some s' \<and> ff_inv s' ps' \<and>
     free_set s' ps' = {0 .. 8} \<and> nr_free s' = 9"
proof -
  have "free_set sample_pmm [0, 6] \<union> {2 ..< 2 + 4} = {0 .. 8}"
    unfolding sample_free_set by auto
  moreover have "{2 ..< 2 + 4} \<inter> free_set sample_pmm [0, 6] = {}"
    unfolding sample_free_set by auto
  moreover have "\<forall>q\<in>{2 ..< 2 + 4}. \<not> PageReserved (pages sample_pmm q)" "nr_free sample_pmm = 5"
    by (auto simp: sample_pmm_def)
  ultimately show ?thesis
    using default_free_pages_merges [OF sample_pmm_inv, of 4 2] by simp
qed

text \<open>Any run of allocations, successful or not, hands out pairwise disjoint ranges of pages
  that were free at the start, and the pages left over are exactly the others.
\<close>

theorem default_alloc_runs_disjoint:
  assumes "ff_inv s ps" and "\<forall>n\<in>set ns. 0 < n"
  shows "\<exists>rs s' ps'. alloc_run default_alloc_pages ns s = Some (rs, s') \<and> ff_inv s' ps' \<and>
      free_set s' ps' = free_set s ps - (\<Union>b\<in>set rs. span b) \<and>
      (\<forall>b\<in>set rs. span b \<subseteq> free_set s ps) \<and>
      sorted_wrt (\<lambda>a b. span a \<inter> span b = {}) rs"
  by (rule ff.alloc_run_ok [OF assms])

theorem default_alloc_runs_disjoint_witness:
  "\<exists>rs s' ps'. alloc_run default_alloc_pages [1, 2, 1] sample_pmm = Some (rs, s') \<and> ff_inv s' ps' \<and>
     sorted_wrt (\<lambda>a b. span a \<inter> span b = {}) rs"
  using default_alloc_runs_disjoint [OF sample_pmm_inv, of "[1, 2, 1]"] by auto

text \<open>Returning an allocation restores the free set and the count, when a free page lies
  above the returned block or nothing else is free.
\<close>

theorem default_alloc_free_roundtrip:
  assumes "ff_inv s ps" and "0 < n" and "default_alloc_pages n s = Some (Some p, s1)"
    and "free_set s ps = {p ..< p + n} \<or> (\<exists>v\<in>set ps. p < v)"
  shows "\<exists>s2 ps2. default_free_pages p n s1 = Some s2 \<and> ff_inv s2 ps2 \<and>
           free_set s2 ps2 = free_set s ps \<and> nr_free s2 = nr_free s"
proof -
  from default_alloc_pages_some [OF assms(1-3)] obtain us vs where
    ps: "ps = us @ p # vs" and le: "n \<le> property (pages s p)" and s1: "s1 = take_block p n s" by blast
  let ?ps1 = "us @ rest_heads s p n @ vs"
  note t = take_block_ok [OF assms(1) [unfolded ps] assms(2) le, folded s1]
  have sub: "{p ..< p + n} \<subseteq> free_set s ps" using block_subset_free [OF ps le] .
  have un: "free_set s1 ?ps1 \<union> {p ..< p + n} = free_set s ps" using t(2) sub ps by blast
  have dis: "{p ..< p + n} \<inter> free_set s1 ?ps1 = {}" using t(2) by blast
  have res: "\<forall>q\<in>{p ..< p + n}. \<not> PageReserved (pages s1 q)"
  proof
    fix q assume "q \<in> {p ..< p + n}"
    then have "\<not> PageReserved (pages s q)" using sub assms(1) by (auto simp: ff_inv_def free_set_def)
    then show "\<not> PageReserved (pages s1 q)" using assms(2) by (auto simp: s1 take_block_pages)
  qed
  have cards: "nr_free s = nr_free s1 + n"
    using ff_inv_card [OF t(1)] ff_inv_card [OF assms(1)] un dis
      card_Un_disjoint [of "free_set s1 ?ps1" "{p ..< p + n}"] by (auto simp: free_set_def)
  have pos: "?ps1 = [] \<or> (\<exists>v\<in>set ?ps1. p < v)"
  proof (cases "\<exists>v\<in>set ps. p < v")
    case True
    then have "\<exists>v\<in>set (us @ vs). p < v" using ps by auto
    then show ?thesis by auto
  next
    case False
    then have "free_set s1 ?ps1 = {}" using assms(4) un dis by auto
    then show ?thesis using blocks_head [of "pages s1" ?ps1] t(1)
      by (cases ?ps1) (auto simp: free_set_def ff_inv_def)
  qed
  have "nr_free s1 + n < 2 ^ 32" using cards assms(1) by (simp add: ff_inv_def)
  from free_keeps_inv [OF t(1) assms(2) dis res this pos] obtain s2 ps2 where
    r: "default_free_pages p n s1 = Some s2" "ff_inv s2 ps2"
    "free_set s2 ps2 = free_set s1 ?ps1 \<union> {p ..< p + n}" by blast
  then show ?thesis using un ff_inv_card [OF r(2)] ff_inv_card [OF assms(1)] by auto
qed

theorem default_alloc_free_roundtrip_witness:
  "\<exists>s2 ps2. default_free_pages 0 2 (take_block 0 2 sample_pmm) = Some s2 \<and>
     ff_inv s2 ps2 \<and> free_set s2 ps2 = {0, 1, 6, 7, 8} \<and> nr_free s2 = 5"
proof -
  have "default_alloc_pages 2 sample_pmm = Some (Some 0, take_block 0 2 sample_pmm)"
    using default_alloc_pages_eq [OF sample_pmm_inv, of 2] by (simp add: sample_pmm_def)
  from default_alloc_free_roundtrip [OF sample_pmm_inv _ this]
  show ?thesis by (simp add: sample_free_set) (simp add: sample_pmm_def)
qed

text \<open>
  C3: The tail branch of the insertion loop breaks the list: with page 0 free and pages 2 to
  4 freed next, the block at 2 is linked with its back pointer at itself, \<^verbatim>\<open>list_del\<close> no longer
  unlinks it, and two requests for two pages are both given page 2.
\<close>

theorem default_tail_free_double_allocation:
  "\<exists>s0 s1 s2 s3. ff_inv s0 [0] \<and>
     default_free_pages 2 3 s0 = Some s1 \<and> prv (links s1) (PageLink 2) = PageLink 2 \<and>
     default_alloc_pages 2 s1 = Some (Some 2, s2) \<and>
     default_alloc_pages 2 s2 = Some (Some 2, s3)"
proof -
  define s0 where "s0 = \<lparr>pages = (\<lambda>_. sample_page)(0 := sample_head 1),
     links = \<lparr>nxt = (\<lambda>x. x)(FreeHead := PageLink 0, PageLink 0 := FreeHead),
              prv = (\<lambda>x. x)(FreeHead := PageLink 0, PageLink 0 := FreeHead)\<rparr>,
     nr_free = 1\<rparr>"
  have i: "ff_inv s0 [0]" by (auto simp: ff_inv_def s0_def dlist_def apart_def blocks_def block_def)
  define l1 where "l1 = list_add (PageLink 2) (PageLink 2) (list_add (PageLink 0) (PageLink 2) (links s0))"
  have ins: "insert_loop 2 FreeHead (links s0) = Some l1"
    using insert_loop_tail [of "links s0" "[]" "[0]" 2] i by (simp add: ff_inv_def l1_def)
  have l1: "nxt l1 FreeHead = PageLink 0" "nxt l1 (PageLink 0) = PageLink 2"
    "nxt l1 (PageLink 2) = FreeHead" "prv l1 (PageLink 2) = PageLink 2"
    by (simp_all add: l1_def s0_def klist_ops Let_def)
  define s1 where "s1 = s0\<lparr>pages := freed_pages 2 3 (pages s0), nr_free := 4, links := l1\<rparr>"
  have z: "nr_free s0 = 1" "nxt (links s0) FreeHead \<noteq> FreeHead"
    "\<forall>q\<in>{2 ..< 2 + 3}. \<not> PageReserved (pages s0 q) \<and> \<not> PageProperty (pages s0 q)"
    by (auto simp: s0_def)
  have f: "default_free_pages 2 3 s0 = Some s1"
    using clear_pages_ok [OF z(3)] z(1,2) ins l1
    by (simp add: default_free_pages_def insert_block_def merge_prev_def merge_next_def list_next_def
        list_prev_def list_empty_def upd_page_def u32_id s1_def freed_pages_def Let_def)
  have pr: "property (pages s1 0) = 1" "property (pages s1 2) = 3"
    by (simp_all add: s1_def freed_pages_simps) (simp add: s0_def)
  have "alloc_search 2 FreeHead s1 = Some (Some 2)"
    using l1 pr by (simp add: alloc_search.simps [of 2 FreeHead] alloc_search.simps [of 2 "PageLink 0"]
        list_next_def s1_def)
  then have a1: "default_alloc_pages 2 s1 = Some (Some 2, take_block 2 2 s1)"
    by (simp add: default_alloc_pages_def s1_def)
  define s2 where "s2 = take_block 2 2 s1"
  have s2: "nxt (links s2) FreeHead = PageLink 0" "nxt (links s2) (PageLink 0) = PageLink 2"
    "nr_free s2 = 2" "property (pages s2 0) = 1" "property (pages s2 2) = 3"
    using l1 pr by (simp_all add: s2_def take_block_def Let_def klist_ops s1_def u32_sub_id)
  have "alloc_search 2 FreeHead s2 = Some (Some 2)"
    using s2 by (simp add: alloc_search.simps [of 2 FreeHead] alloc_search.simps [of 2 "PageLink 0"]
        list_next_def)
  then have "default_alloc_pages 2 s2 = Some (Some 2, take_block 2 2 s2)"
    using s2 by (simp add: default_alloc_pages_def)
  moreover have "prv (links s1) (PageLink 2) = PageLink 2" using l1 by (simp add: s1_def)
  ultimately show ?thesis using i f a1 by (auto simp: s2_def)
qed

end
