(* ===== verification/BestFit.thy ===== *)
theory BestFit
  imports FirstFit
begin

text \<open>
  The best-fit manager \<^verbatim>\<open>lab2/Best-Fit/kern/mm/best_fit_pmm.c\<close>.  The loops over the pages of a
  block, the removal of the chosen block with its remainder and the two merging steps are,
  statement for statement, those of the first-fit manager and are taken from \<open>FirstFit\<close>; the
  insertion by size at start-up, the search for the best block and the insertion by address
  are this manager's own.  The lemmas show that allocation takes a smallest sufficient block
  and that freeing is correct for every block, also above the last free one, where the
  first-fit manager goes wrong.
\<close>

section \<open>The operations\<close>

definition best_fit_init :: "pmm \<Rightarrow> pmm" where
  "best_fit_init s = (upd_links (list_init FreeHead) s)\<lparr>nr_free := 0\<rparr>"

text \<open>
  The insertion loop of \<^verbatim>\<open>best_fit_init_memmap\<close> compares sizes, not addresses.  As in the
  first-fit manager the branch that appends at the tail has no \<^verbatim>\<open>break\<close>.
\<close>

partial_function (option) insert_by_size ::
  "(nat \<Rightarrow> page) \<Rightarrow> nat \<Rightarrow> pnode \<Rightarrow> pnode list_entry \<Rightarrow> pnode list_entry option" where
  "insert_by_size pg base le l =
     (case list_next le l of
        FreeHead \<Rightarrow> Some l
      | PageLink page \<Rightarrow>
          (if property (pg base) < property (pg page)
           then Some (list_add_before (PageLink page) (PageLink base) l)
           else if list_next (PageLink page) l = FreeHead
           then insert_by_size pg base (PageLink page) (list_add (PageLink page) (PageLink base) l)
           else insert_by_size pg base (PageLink page) l))"

definition best_fit_init_memmap :: "nat \<Rightarrow> nat \<Rightarrow> pmm \<Rightarrow> pmm option" where
  "best_fit_init_memmap base n s = do {
     kassert (n > 0);
     s \<leftarrow> init_pages base n s;
     let s = upd_page base (\<lambda>g. g\<lparr>property := u32 n\<rparr>) s;
     let s = upd_page base SetPageProperty s;
     let s = s\<lparr>nr_free := u32 (nr_free s + n)\<rparr>;
     (if list_empty FreeHead (links s)
      then Some (upd_links (list_add FreeHead (PageLink base)) s)
      else do { l \<leftarrow> insert_by_size (pages s) base FreeHead (links s); Some (s\<lparr>links := l\<rparr>) })
   }"

text \<open>
  The search: a block of exactly \<open>n\<close> pages ends it, otherwise the smallest sufficient block
  so far is kept with its size.
\<close>

partial_function (option) best_search ::
  "nat \<Rightarrow> pnode \<Rightarrow> nat option \<Rightarrow> nat \<Rightarrow> pmm \<Rightarrow> nat option option" where
  "best_search n le page min_size s =
     (case list_next le (links s) of
        FreeHead \<Rightarrow> Some page
      | PageLink p \<Rightarrow>
          (if property (pages s p) \<ge> n
           then (if property (pages s p) = n then Some (Some p)
                 else if property (pages s p) < min_size
                 then best_search n (PageLink p) (Some p) (property (pages s p)) s
                 else best_search n (PageLink p) page min_size s)
           else best_search n (PageLink p) page min_size s))"

definition best_fit_alloc_pages :: "nat \<Rightarrow> pmm \<Rightarrow> (nat option \<times> pmm) option" where
  "best_fit_alloc_pages n s = do {
     kassert (n > 0);
     if n > nr_free s then Some (None, s)
     else do {
       r \<leftarrow> best_search n FreeHead None (u32 (nr_free s + 1)) s;
       (case r of
          None \<Rightarrow> Some (None, s)
        | Some page \<Rightarrow> Some (Some page, take_block page n s))
     }
   }"

text \<open>The insertion loop of \<^verbatim>\<open>best_fit_free_pages\<close> returns the node to insert behind.\<close>

partial_function (option) insert_place :: "nat \<Rightarrow> pnode \<Rightarrow> pnode list_entry \<Rightarrow> pnode option" where
  "insert_place base le l =
     (case list_next le l of
        FreeHead \<Rightarrow> Some le
      | PageLink page \<Rightarrow> (if base < page then Some le else insert_place base (PageLink page) l))"

definition insert_by_address :: "nat \<Rightarrow> pmm \<Rightarrow> pmm option" where
  "insert_by_address base s =
     (if list_empty FreeHead (links s)
      then Some (upd_links (list_add FreeHead (PageLink base)) s)
      else do {
        le \<leftarrow> insert_place base FreeHead (links s);
        Some (upd_links (list_add_after le (PageLink base)) s)
      })"

definition best_fit_free_pages :: "nat \<Rightarrow> nat \<Rightarrow> pmm \<Rightarrow> pmm option" where
  "best_fit_free_pages base n s = do {
     kassert (n > 0);
     s \<leftarrow> clear_pages base n s;
     let s = upd_page base (\<lambda>g. g\<lparr>property := u32 n\<rparr>) s;
     let s = upd_page base SetPageProperty s;
     let s = s\<lparr>nr_free := u32 (nr_free s + n)\<rparr>;
     s \<leftarrow> insert_by_address base s;
     let (base, s) = merge_prev base s;
     Some (merge_next base s)
   }"

definition best_fit_nr_free_pages :: "pmm \<Rightarrow> nat" where
  "best_fit_nr_free_pages s = nr_free s"

section \<open>The search\<close>

text \<open>
  The same search on the sequence of heads, and what it finds: \<open>best_of n pg ps p\<close> says that
  \<open>p\<close> is the first of the smallest sufficient blocks of \<open>ps\<close>.
\<close>

definition best_of :: "nat \<Rightarrow> (nat \<Rightarrow> page) \<Rightarrow> nat list \<Rightarrow> nat \<Rightarrow> bool" where
  "best_of n pg ps p \<longleftrightarrow> (\<exists>us vs. ps = us @ p # vs \<and> n \<le> property (pg p) \<and>
     (\<forall>u\<in>set us. n \<le> property (pg u) \<longrightarrow> property (pg p) < property (pg u)) \<and>
     (\<forall>v\<in>set vs. n \<le> property (pg v) \<longrightarrow> property (pg p) \<le> property (pg v)))"

definition best_so_far :: "nat \<Rightarrow> (nat \<Rightarrow> page) \<Rightarrow> nat list \<Rightarrow> nat \<Rightarrow> nat option \<Rightarrow> nat \<Rightarrow> bool" where
  "best_so_far n pg us m page k \<longleftrightarrow>
     (case page of
        None \<Rightarrow> k = m \<and> (\<forall>u\<in>set us. property (pg u) < n)
      | Some p \<Rightarrow> best_of n pg us p \<and> k = property (pg p) \<and> n < k)"

lemma best_of_snoc_keep:
  "best_of n pg us p \<Longrightarrow> (n \<le> property (pg v) \<Longrightarrow> property (pg p) \<le> property (pg v)) \<Longrightarrow>
   best_of n pg (us @ [v]) p"
  unfolding best_of_def by (elim exE) (rule_tac x = usa in exI, rule_tac x = "vs @ [v]" in exI, auto)

lemma best_of_snoc_new:
  "n \<le> property (pg v) \<Longrightarrow> \<forall>u\<in>set us. n \<le> property (pg u) \<longrightarrow> property (pg v) < property (pg u) \<Longrightarrow>
   best_of n pg (us @ [v]) v"
  unfolding best_of_def by (rule exI [of _ us], rule exI [of _ "[]"]) auto

lemma best_of_least:
  "best_of n pg us p \<Longrightarrow> u \<in> set us \<Longrightarrow> n \<le> property (pg u) \<Longrightarrow> property (pg p) \<le> property (pg u)"
  by (auto simp: best_of_def less_imp_le)

lemma best_of_exact_append: "best_of n pg us p \<Longrightarrow> property (pg p) = n \<Longrightarrow> best_of n pg (us @ vs) p"
  unfolding best_of_def by (elim exE) (rule_tac x = usa in exI, rule_tac x = "vsa @ vs" in exI, auto)

lemma best_search_ok:
  assumes "dlist (links s) FreeHead (map PageLink (us @ vs))"
    and "best_so_far n (pages s) us m page k" and "\<forall>v\<in>set vs. property (pages s v) < m"
  shows "\<exists>r. best_search n (before FreeHead (map PageLink us)) page k s = Some r \<and>
      (case r of None \<Rightarrow> \<forall>v\<in>set (us @ vs). property (pages s v) < n
       | Some p \<Rightarrow> best_of n (pages s) (us @ vs) p)"
  using assms
proof (induction vs arbitrary: us page k)
  case Nil
  then have "best_search n (before FreeHead (map PageLink us)) page k s = Some page"
    using ring_next [of "links s" us "[]"] by (simp add: best_search.simps)
  with Nil show ?case by (auto simp: best_so_far_def split: option.splits)
next
  case (Cons v vs)
  let ?pg = "pages s"
  have nx: "list_next (before FreeHead (map PageLink us)) (links s) = PageLink v"
    using ring_next [OF Cons.prems(1)] by simp
  have d: "dlist (links s) FreeHead (map PageLink ((us @ [v]) @ vs))" using Cons.prems(1) by simp
  have m: "\<forall>w\<in>set vs. property (?pg w) < m" using Cons.prems(3) by simp
  have vm: "property (?pg v) < m" using Cons.prems(3) by simp
  note eq = best_search.simps [of n "before FreeHead (map PageLink us)" page k s, unfolded nx, simplified]
  have app: "(us @ [v]) @ vs = us @ v # vs" "before FreeHead (map PageLink (us @ [v])) = PageLink v"
    by simp_all
  note step = Cons.IH [OF d _ m, unfolded app]
  consider (small) "property (?pg v) < n" | (exact) "property (?pg v) = n"
    | (new) "n < property (?pg v)" "property (?pg v) < k"
    | (keep) "n < property (?pg v)" "\<not> property (?pg v) < k" by linarith
  then show ?case
  proof cases
    case small
    have "best_so_far n ?pg (us @ [v]) m page k"
      using Cons.prems(2) small by (auto simp: best_so_far_def split: option.splits intro: best_of_snoc_keep)
    from step [OF this] show ?thesis using small by (simp add: eq)
  next
    case exact
    have "\<forall>u\<in>set us. n \<le> property (?pg u) \<longrightarrow> property (?pg v) < property (?pg u)"
      using Cons.prems(2) exact
      by (auto simp: best_so_far_def split: option.splits dest: best_of_least)
    then have "best_of n ?pg (us @ [v]) v" using exact by (intro best_of_snoc_new) auto
    from best_of_exact_append [OF this exact, of vs] show ?thesis using exact by (simp add: eq)
  next
    case new
    have "\<forall>u\<in>set us. n \<le> property (?pg u) \<longrightarrow> property (?pg v) < property (?pg u)"
      using Cons.prems(2) new
      by (auto simp: best_so_far_def split: option.splits dest: best_of_least)
    then have "best_so_far n ?pg (us @ [v]) m (Some v) (property (?pg v))"
      using new by (auto simp: best_so_far_def intro: best_of_snoc_new)
    from step [OF this] show ?thesis using new by (simp add: eq)
  next
    case keep
    have "best_so_far n ?pg (us @ [v]) m page k"
      using Cons.prems(2) keep vm by (auto simp: best_so_far_def split: option.splits intro: best_of_snoc_keep)
    from step [OF this] show ?thesis using keep by (simp add: eq)
  qed
qed

lemma property_le_total: "p \<in> set ps \<Longrightarrow> property (pg p) \<le> total pg ps"
  by (induction ps) auto

lemma best_fit_alloc_pages_eq:
  assumes inv: "ff_inv s ps" and n: "0 < n" and sz: "nr_free s + 1 < 2 ^ 32"
  shows "(\<exists>p. best_of n (pages s) ps p \<and> best_fit_alloc_pages n s = Some (Some p, take_block p n s))
       \<or> ((\<forall>p\<in>set ps. property (pages s p) < n) \<and> best_fit_alloc_pages n s = Some (None, s))"
proof (cases "nr_free s < n")
  case True
  then have "\<forall>p\<in>set ps. property (pages s p) < n"
    using inv property_le_total [of _ ps "pages s"] by (fastforce simp: ff_inv_def)
  then show ?thesis using True n by (simp add: best_fit_alloc_pages_def)
next
  case False
  have "\<forall>v\<in>set ps. property (pages s v) < u32 (nr_free s + 1)"
    using inv property_le_total [of _ ps "pages s"] sz by (fastforce simp: ff_inv_def u32_id)
  moreover have "best_so_far n (pages s) [] (u32 (nr_free s + 1)) None (u32 (nr_free s + 1))"
    by (simp add: best_so_far_def)
  moreover have "dlist (links s) FreeHead (map PageLink ps)" using inv by (simp add: ff_inv_def)
  ultimately obtain r where r: "best_search n FreeHead None (u32 (nr_free s + 1)) s = Some r"
    "case r of None \<Rightarrow> \<forall>v\<in>set ps. property (pages s v) < n | Some p \<Rightarrow> best_of n (pages s) ps p"
    using best_search_ok [of s "[]" ps n "u32 (nr_free s + 1)" None "u32 (nr_free s + 1)",
        unfolded append_Nil list.map before_simps(1)] by blast
  then show ?thesis using False n
    by (cases r) (auto simp: best_fit_alloc_pages_def)
qed

section \<open>Freeing\<close>

text \<open>The loop stops at the last node below \<open>base\<close>, also when that is the last of the ring.\<close>

lemma insert_place_ok:
  assumes "dlist l FreeHead (map PageLink (us @ vs))" and "base \<notin> set vs"
  shows "insert_place base (before FreeHead (map PageLink us)) l =
    Some (before FreeHead (map PageLink (us @ takeWhile (\<lambda>v. v < base) vs)))"
  using assms
proof (induction vs arbitrary: us)
  case Nil
  then show ?case using ring_next [of l us "[]"] by (subst insert_place.simps) simp
next
  case (Cons v vs)
  have nx: "list_next (before FreeHead (map PageLink us)) l = PageLink v"
    using ring_next [OF Cons.prems(1)] by simp
  show ?case
  proof (cases "base < v")
    case True
    then show ?thesis using nx by (subst insert_place.simps) simp
  next
    case False
    then have "v < base" using Cons.prems(2) by auto
    then show ?thesis using nx Cons.IH [of "us @ [v]"] Cons.prems
      by (subst insert_place.simps) simp
  qed
qed

lemma add_behind_before:
  assumes "dlist l FreeHead (map PageLink (us @ vs))" and "base \<notin> set (us @ vs)"
  shows "dlist (list_add_after (before FreeHead (map PageLink us)) (PageLink base) l) FreeHead
    (map PageLink (us @ base # vs))"
proof (cases us rule: rev_cases)
  case Nil
  then show ?thesis using dlist_add_after_head [of l FreeHead "map PageLink vs" "PageLink base"] assms
    by auto
next
  case (snoc us' u)
  then show ?thesis
    using dlist_add_after [of l FreeHead "map PageLink us'" "PageLink u" "map PageLink vs" "PageLink base"]
      assms by auto
qed

lemma best_fit_insert_ok:
  assumes d: "dlist (links s) FreeHead (map PageLink ps)" and b: "base \<notin> set ps"
  shows "\<exists>l'. insert_by_address base s = Some (s\<lparr>links := l'\<rparr>) \<and>
      dlist l' FreeHead (map PageLink
        (takeWhile (\<lambda>v. v < base) ps @ base # dropWhile (\<lambda>v. v < base) ps))"
proof -
  let ?us = "takeWhile (\<lambda>v. v < base) ps" and ?vs = "dropWhile (\<lambda>v. v < base) ps"
  let ?l = "list_add_after (before FreeHead (map PageLink ?us)) (PageLink base) (links s)"
  have d': "dlist ?l FreeHead (map PageLink (?us @ base # ?vs))"
    using add_behind_before [of "links s" ?us ?vs base] d b by simp
  have p: "insert_place base FreeHead (links s) = Some (before FreeHead (map PageLink ?us))"
    using insert_place_ok [of "links s" "[]" ps base] d b by simp
  have e: "list_empty FreeHead (links s) \<Longrightarrow> ?us = []"
    using dlist_empty [OF d] by simp
  have "insert_by_address base s = Some (s\<lparr>links := ?l\<rparr>)"
    using p e by (auto simp: insert_by_address_def upd_links_def list_add_def)
  with d' show ?thesis by blast
qed

section \<open>Properties\<close>

text \<open>A small state: pages 0, 1 and 2 form one free block, pages 6 and 7 another.\<close>

definition bf_sample :: pmm where
  "bf_sample = \<lparr>pages = (\<lambda>_. sample_page)(0 := sample_head 3, 6 := sample_head 2),
     links = links sample_pmm, nr_free = 5\<rparr>"

lemma bf_sample_inv: "ff_inv bf_sample [0, 6]"
  by (auto simp: ff_inv_def bf_sample_def sample_pmm_def dlist_def apart_def blocks_def block_def)

lemma bf_sample_free_set: "free_set bf_sample [0, 6] = {0, 1, 2, 6, 7}"
  by (auto simp: free_set_def blocks_def block_def bf_sample_def)

definition reserved_page :: page where
  "reserved_page = SetPageReserved \<lparr>ref = 0, flags = 0, property = 0\<rparr>"

definition boot_sample :: pmm where
  "boot_sample = \<lparr>pages = (\<lambda>_. reserved_page), links = links sample_pmm, nr_free = 0\<rparr>"

lemma boot_sample_flags:
  "PageReserved (pages boot_sample q)" "\<not> PageProperty (pages boot_sample q)"
  by (simp_all add: boot_sample_def reserved_page_def)
     (simp add: SetPageReserved_def PageProperty_def bit_simps)

text \<open>Start-up: on a freshly initialised manager \<^verbatim>\<open>best_fit_init_memmap\<close> turns a region of
  reserved pages into the only free block; the free pages are exactly the region's.
\<close>

theorem best_fit_boot:
  assumes "0 < n" and "n < 2 ^ 32" and "\<forall>q\<in>{base ..< base + n}. PageReserved (pages s q)"
    and "\<forall>q. \<not> PageProperty (pages s q)"
  shows "\<exists>s'. best_fit_init_memmap base n (best_fit_init s) = Some s' \<and> ff_inv s' [base] \<and>
      free_set s' [base] = {base ..< base + n} \<and> best_fit_nr_free_pages s' = n"
proof -
  have "list_empty FreeHead (links (best_fit_init s))"
    by (simp add: best_fit_init_def dlist_empty [OF dlist_init])
  moreover have "init_pages p k s1 = Some s2 \<Longrightarrow> links s2 = links s1" for p k s1 s2
    by (induction p k s1 rule: init_pages.induct) (auto simp: kassert_bind_Some split: if_splits)
  ultimately have "best_fit_init_memmap base n (best_fit_init s) =
      default_init_memmap base n (default_init s)"
    unfolding best_fit_init_memmap_def default_init_memmap_def insert_block_def
    by (simp add: best_fit_init_def default_init_def Let_def cong: Option.bind_cong)
  with default_boot [OF assms] show ?thesis by (simp add: best_fit_nr_free_pages_def)
qed

theorem best_fit_boot_witness:
  "\<exists>s'. best_fit_init_memmap 5 8 (best_fit_init boot_sample) = Some s' \<and> ff_inv s' [5] \<and>
     free_set s' [5] = {5 ..< 13} \<and> best_fit_nr_free_pages s' = 8"
  using best_fit_boot [of 8 5 boot_sample] boot_sample_flags by simp

text \<open>
  C29: Allocation is best fit: the block taken is the first of the smallest blocks that have
  at least \<open>n\<close> pages, its remainder takes its place in the list, exactly the \<open>n\<close> pages handed
  out leave the free set and the invariant holds again; \<^verbatim>\<open>NULL\<close> is returned, with nothing
  changed, exactly when no block is large enough.
\<close>

theorem best_fit_alloc_smallest:
  assumes "ff_inv s ps" and "0 < n" and "nr_free s + 1 < 2 ^ 32"
  shows "(\<exists>us p vs. ps = us @ p # vs \<and> n \<le> property (pages s p) \<and>
            (\<forall>u\<in>set us. n \<le> property (pages s u) \<longrightarrow> property (pages s p) < property (pages s u)) \<and>
            (\<forall>v\<in>set vs. n \<le> property (pages s v) \<longrightarrow> property (pages s p) \<le> property (pages s v)) \<and>
            best_fit_alloc_pages n s = Some (Some p, take_block p n s) \<and>
            ff_inv (take_block p n s) (us @ rest_heads s p n @ vs) \<and>
            free_set (take_block p n s) (us @ rest_heads s p n @ vs) = free_set s ps - {p ..< p + n})
       \<or> ((\<forall>p\<in>set ps. property (pages s p) < n) \<and> best_fit_alloc_pages n s = Some (None, s))"
  using best_fit_alloc_pages_eq [OF assms]
proof
  assume "\<exists>p. best_of n (pages s) ps p \<and> best_fit_alloc_pages n s = Some (Some p, take_block p n s)"
  then obtain p us vs where p: "ps = us @ p # vs" "n \<le> property (pages s p)"
    "\<forall>u\<in>set us. n \<le> property (pages s u) \<longrightarrow> property (pages s p) < property (pages s u)"
    "\<forall>v\<in>set vs. n \<le> property (pages s v) \<longrightarrow> property (pages s p) \<le> property (pages s v)"
    "best_fit_alloc_pages n s = Some (Some p, take_block p n s)"
    unfolding best_of_def by blast
  show ?thesis using p take_block_ok [OF assms(1) [unfolded p(1)] assms(2) p(2)] by blast
qed blast

theorem best_fit_alloc_smallest_witness:
  "best_fit_alloc_pages 2 bf_sample = Some (Some 6, take_block 6 2 bf_sample)"
  using best_fit_alloc_smallest [OF bf_sample_inv, of 2]
  by (auto simp: Cons_eq_append_conv) (auto simp: bf_sample_def)

text \<open>Freeing is right wherever the block lies: a block in use goes back with exactly its
  pages, and the free list is again in address order and fully merged.
\<close>

theorem best_fit_free_merges:
  assumes "ff_inv s ps" and "0 < n"
    and "{base ..< base + n} \<inter> free_set s ps = {}"
    and "\<forall>q\<in>{base ..< base + n}. \<not> PageReserved (pages s q)"
    and "nr_free s + n < 2 ^ 32"
  shows "\<exists>s' ps'. best_fit_free_pages base n s = Some s' \<and> ff_inv s' ps' \<and>
           free_set s' ps' = free_set s ps \<union> {base ..< base + n} \<and>
           best_fit_nr_free_pages s' = best_fit_nr_free_pages s + n"
proof -
  let ?us = "takeWhile (\<lambda>v. v < base) ps" and ?vs = "dropWhile (\<lambda>v. v < base) ps"
  let ?s0 = "s\<lparr>pages := freed_pages base n (pages s), nr_free := nr_free s + n\<rparr>"
  note inv = assms(1) and n = assms(2) and dis = assms(3) and sz = assms(5)
  have b: "base \<notin> set ps" using free_set_outside(1) [OF inv dis, of base] n by simp
  have d: "dlist (links ?s0) FreeHead (map PageLink ps)" using inv by (simp add: ff_inv_def)
  from best_fit_insert_ok [OF d b] obtain l1 where l1: "insert_by_address base ?s0 = Some (?s0\<lparr>links := l1\<rparr>)"
    "dlist l1 FreeHead (map PageLink (?us @ base # ?vs))" by blast
  from clear_freed [OF assms] obtain s0 where s0: "clear_pages base n s = Some s0"
    "(upd_page base SetPageProperty (upd_page base (\<lambda>g. g\<lparr>property := u32 n\<rparr>) s0))
           \<lparr>nr_free := u32 (nr_free s0 + n)\<rparr> = ?s0" "nr_free s0 = nr_free s" by blast
  have "best_fit_free_pages base n s =
      (let (b, s) = merge_prev base (?s0\<lparr>links := l1\<rparr>) in Some (merge_next b s))"
    using n l1(1) s0 by (simp add: best_fit_free_pages_def)
  with merge_both_ok [OF freed_linked_ok(1) [OF inv n dis sz l1(2)]]
    freed_linked_ok(2) [OF inv n dis sz l1(2)]
  obtain s' ps' where r: "best_fit_free_pages base n s = Some s'" "ff_inv s' ps'"
    "free_set s' ps' = free_set s ps \<union> {base ..< base + n}" by auto
  have "card (free_set s ps \<union> {base ..< base + n}) = card (free_set s ps) + n"
    using dis by (subst card_Un_disjoint) (auto simp: free_set_def)
  then show ?thesis using r ff_inv_card [OF r(2)] ff_inv_card [OF inv]
    by (auto simp: best_fit_nr_free_pages_def)
qed

theorem best_fit_free_merges_witness:
  "\<exists>s' ps'. best_fit_free_pages 8 4 bf_sample = Some s' \<and> ff_inv s' ps' \<and>
     free_set s' ps' = {0, 1, 2} \<union> {6 ..< 12} \<and> best_fit_nr_free_pages s' = 9"
proof -
  have eq: "free_set bf_sample [0, 6] \<union> {8 ..< 8 + 4} = {0, 1, 2} \<union> {6 ..< 12}"
    unfolding bf_sample_free_set by auto
  have dis: "{8 ..< 8 + 4} \<inter> free_set bf_sample [0, 6] = {}"
    unfolding bf_sample_free_set by auto
  have res: "\<forall>q\<in>{8 ..< 8 + 4}. \<not> PageReserved (pages bf_sample q)" by (simp add: bf_sample_def)
  have sz: "nr_free bf_sample + 4 < 2 ^ 32" "best_fit_nr_free_pages bf_sample + 4 = 9"
    by (simp_all add: bf_sample_def best_fit_nr_free_pages_def)
  show ?thesis
    using best_fit_free_merges [OF bf_sample_inv _ dis res sz(1)] unfolding eq sz(2) by simp
qed

section \<open>The contract and concrete runs\<close>

lemma best_fit_some:
  assumes "ff_inv s ps" and "0 < n" and "nr_free s + 1 < 2 ^ 32"
    and "best_fit_alloc_pages n s = Some (Some p, s')"
  shows "\<exists>us vs. ps = us @ p # vs \<and> n \<le> property (pages s p) \<and> s' = take_block p n s"
  using best_fit_alloc_pages_eq [OF assms(1-3)] assms(4) unfolding best_of_def by auto

definition bf_inv :: "pmm \<Rightarrow> nat list \<Rightarrow> bool" where
  "bf_inv s ps \<longleftrightarrow> ff_inv s ps \<and> nr_free s + 1 < 2 ^ 32"

interpretation bf: pmm_manager bf_inv free_set best_fit_alloc_pages best_fit_nr_free_pages
proof
  fix s ps and n :: nat
  assume inv: "bf_inv s ps"
  then have i: "ff_inv s ps" "nr_free s + 1 < 2 ^ 32" by (simp_all add: bf_inv_def)
  show "finite (free_set s ps)" by (simp add: free_set_def)
  show "best_fit_nr_free_pages s = card (free_set s ps)"
    by (simp add: best_fit_nr_free_pages_def ff_inv_card [OF i(1)])
  assume n: "0 < n"
  show "\<exists>r s'. best_fit_alloc_pages n s = Some (r, s')"
    using best_fit_alloc_pages_eq [OF i(1) n i(2)] by auto
  show "s' = s" if "best_fit_alloc_pages n s = Some (None, s')" for s'
    using that best_fit_alloc_pages_eq [OF i(1) n i(2)] by auto
  show "{p ..< p + n} \<subseteq> free_set s ps \<and>
      (\<exists>ps'. bf_inv s' ps' \<and> free_set s' ps' = free_set s ps - {p ..< p + n})"
    if "best_fit_alloc_pages n s = Some (Some p, s')" for p s'
  proof -
    from best_fit_some [OF i(1) n i(2) that] obtain us vs where
      ps: "ps = us @ p # vs" and le: "n \<le> property (pages s p)" and s': "s' = take_block p n s" by blast
    note t = take_block_ok [OF i(1) [unfolded ps] n le] and sub = block_subset_free [OF ps le]
    have "nr_free s' \<le> nr_free s"
      using ff_inv_card [OF t(1)] ff_inv_card [OF i(1)] t(2) ps
      by (metis Diff_subset blocks_finite card_mono free_set_def s')
    then show ?thesis using t sub i(2) unfolding s' ps bf_inv_def by (auto intro: exI)
  qed
qed

text \<open>Several requests in a row get disjoint runs of pages.\<close>

lemma best_fit_runs_disjoint:
  assumes "bf_inv s ps" and "\<forall>n\<in>set ns. 0 < n"
  shows "\<exists>rs s' ps'. alloc_run best_fit_alloc_pages ns s = Some (rs, s') \<and> bf_inv s' ps' \<and>
      free_set s' ps' = free_set s ps - (\<Union>b\<in>set rs. span b) \<and>
      sorted_wrt (\<lambda>a b. span a \<inter> span b = {}) rs"
  using bf.alloc_run_ok [OF assms] by blast

end
