(* ===== verification/Buddy.thy ===== *)
theory Buddy
  imports PhysPages "HOL-Library.Disjoint_Sets"
begin

unbundle bit_operations_syntax

text \<open>
  The buddy system \<^verbatim>\<open>lab2/Buddy System/kern/mm/default_pmm.c\<close>: one ring of free blocks of
  \<open>2 ^ k\<close> pages per order \<open>k < MAX_ORDER\<close>.  The lemmas show that setting up cuts a region
  into aligned blocks and that allocation, with all its splitting, hands out an aligned
  block of the rounded size from the smallest order that has one; the last section runs the
  code of \<^verbatim>\<open>buddy_system_free_pages\<close> into giving one page to two owners.
\<close>

section \<open>The state\<close>

abbreviation (input) MAX_ORDER :: nat where "MAX_ORDER \<equiv> 14"

text \<open>The nodes are the \<^verbatim>\<open>free_list\<close> of each \<^verbatim>\<open>buddy_array[i]\<close> and the \<^verbatim>\<open>page_link\<close> of each page.\<close>

datatype bnode = OrderHead nat | BLink nat

text \<open>\<open>area_free i\<close> is \<^verbatim>\<open>buddy_array[i].nr_free\<close>, \<open>free_count\<close> the global \<^verbatim>\<open>nr_free\<close>.\<close>

record buddy_sys =
  bpages :: "nat \<Rightarrow> page"
  blinks :: "bnode list_entry"
  area_free :: "nat \<Rightarrow> nat"
  free_count :: nat

definition upd_bpage :: "nat \<Rightarrow> (page \<Rightarrow> page) \<Rightarrow> buddy_sys \<Rightarrow> buddy_sys" where
  "upd_bpage p f s = s\<lparr>bpages := (bpages s)(p := f (bpages s p))\<rparr>"

definition upd_blinks :: "(bnode list_entry \<Rightarrow> bnode list_entry) \<Rightarrow> buddy_sys \<Rightarrow> buddy_sys" where
  "upd_blinks f s = s\<lparr>blinks := f (blinks s)\<rparr>"

definition upd_area :: "nat \<Rightarrow> (nat \<Rightarrow> nat) \<Rightarrow> buddy_sys \<Rightarrow> buddy_sys" where
  "upd_area k f s = s\<lparr>area_free := (area_free s)(k := f (area_free s k))\<rparr>"

lemma upd_buddy_sel [simp]:
  "bpages (upd_bpage p f s) = (bpages s)(p := f (bpages s p))" "blinks (upd_bpage p f s) = blinks s"
  "area_free (upd_bpage p f s) = area_free s" "free_count (upd_bpage p f s) = free_count s"
  "bpages (upd_blinks g s) = bpages s" "blinks (upd_blinks g s) = g (blinks s)"
  "area_free (upd_blinks g s) = area_free s" "free_count (upd_blinks g s) = free_count s"
  "bpages (upd_area k h s) = bpages s" "blinks (upd_area k h s) = blinks s"
  "area_free (upd_area k h s) = (area_free s)(k := h (area_free s k))"
  "free_count (upd_area k h s) = free_count s"
  by (simp_all add: upd_bpage_def upd_blinks_def upd_area_def)

section \<open>The operations\<close>

fun init_areas :: "nat \<Rightarrow> nat \<Rightarrow> buddy_sys \<Rightarrow> buddy_sys" where
  "init_areas i 0 s = s"
| "init_areas i (Suc m) s =
     init_areas (Suc i) m (upd_area i (\<lambda>_. 0) (upd_blinks (list_init (OrderHead i)) s))"

definition buddy_system_init :: "buddy_sys \<Rightarrow> buddy_sys" where
  "buddy_system_init s = (init_areas 0 MAX_ORDER s)\<lparr>free_count := 0\<rparr>"

text \<open>The buddy of a block: the page index with bit \<open>order\<close> turned over.\<close>

definition get_buddy :: "nat \<Rightarrow> nat \<Rightarrow> nat" where
  "get_buddy base order = base XOR 2 ^ order"

text \<open>
  \<^verbatim>\<open>list_add(&(page->page_link), &buddy_array[order].free_list)\<close>: the head is linked in behind
  the page, not the page behind the head.  The function is not called.
\<close>

definition buddy_system_add_free_page :: "nat \<Rightarrow> nat \<Rightarrow> buddy_sys \<Rightarrow> buddy_sys" where
  "buddy_system_add_free_page page order s =
     upd_area order (\<lambda>c. u32 (c + 1)) (upd_blinks (list_add (BLink page) (OrderHead order)) s)"

text \<open>The loop both functions begin with: the pages doubled until they suffice.\<close>

function round_order :: "nat \<Rightarrow> nat \<Rightarrow> nat \<Rightarrow> nat" where
  "round_order req adjusted order =
     (if adjusted < req \<and> order < MAX_ORDER then round_order req (u64 (adjusted * 2)) (order + 1)
      else order)"
  by pat_completeness auto
termination by (relation "measure (\<lambda>(_, _, order). MAX_ORDER - order)") auto

declare round_order.simps [simp del]

function search_order :: "nat \<Rightarrow> buddy_sys \<Rightarrow> nat" where
  "search_order k s =
     (if k < MAX_ORDER \<and> list_empty (OrderHead k) (blinks s) then search_order (k + 1) s else k)"
  by pat_completeness auto
termination by (relation "measure (\<lambda>(k, _). MAX_ORDER - k)") auto

declare search_order.simps [simp del]

text \<open>A block at the head of the ring of its order, marked and counted.\<close>

definition put_block :: "nat \<Rightarrow> nat \<Rightarrow> buddy_sys \<Rightarrow> buddy_sys" where
  "put_block p k s =
     (let s = upd_bpage p (\<lambda>g. g\<lparr>property := 2 ^ k\<rparr>) s;
          s = upd_bpage p SetPageProperty s;
          s = upd_blinks (list_add (OrderHead k) (BLink p)) s
      in upd_area k (\<lambda>c. u32 (c + 1)) s)"

fun split_down :: "nat \<Rightarrow> nat \<Rightarrow> nat \<Rightarrow> buddy_sys \<Rightarrow> buddy_sys" where
  "split_down page target 0 s = s"
| "split_down page target (Suc k) s =
     (if Suc k > target then split_down page target k (put_block (page + 2 ^ k) k s) else s)"

text \<open>
  \<^verbatim>\<open>le2page\<close> of a list head is no page; a ring whose first node is another ring's head has no
  defined result here.
\<close>

definition buddy_system_alloc_pages :: "nat \<Rightarrow> buddy_sys \<Rightarrow> (nat option \<times> buddy_sys) option" where
  "buddy_system_alloc_pages requested s =
     (let target = round_order requested 1 0;
          found = search_order target s
      in if found \<ge> MAX_ORDER then Some (None, s)
         else (case list_next (OrderHead found) (blinks s) of
                 OrderHead _ \<Rightarrow> None
               | BLink page \<Rightarrow>
                   (let s = upd_blinks (list_del (BLink page)) s;
                        s = upd_area found (\<lambda>c. u32_sub c 1) s;
                        s = split_down page target found s;
                        s = upd_bpage page ClearPageProperty s;
                        s = upd_bpage page (\<lambda>g. g\<lparr>property := 0\<rparr>) s;
                        s = s\<lparr>free_count := u32_sub (free_count s) (2 ^ target)\<rparr>
                    in Some (Some page, s))))"

text \<open>
  The merging loop of \<^verbatim>\<open>buddy_system_free_pages\<close>; \<open>npage\<close> bounds the \<^verbatim>\<open>pages\<close> array.  When the
  buddy lies below, the two are swapped, and it is the freed block, in no ring, that
  \<^verbatim>\<open>list_del\<close> unlinks.  A block that reaches \<^verbatim>\<open>MAX_ORDER\<close> is put nowhere.
\<close>

function merge_up :: "nat \<Rightarrow> nat \<Rightarrow> nat \<Rightarrow> buddy_sys \<Rightarrow> nat \<times> buddy_sys" where
  "merge_up npage base order s =
     (if order < MAX_ORDER
      then (let buddy = get_buddy base order
            in if buddy < npage \<and> PageProperty (bpages s buddy) \<and> property (bpages s buddy) = 2 ^ order
               then (let (base, buddy) = (if base > buddy then (buddy, base) else (base, buddy));
                         s = upd_blinks (list_del (BLink buddy)) s;
                         s = upd_area order (\<lambda>c. u32_sub c 1) s
                     in merge_up npage base (order + 1) s)
               else (order, put_block base order s))
      else (order, s))"
  by pat_completeness auto
termination by (relation "measure (\<lambda>(_, _, order, _). MAX_ORDER - order)") auto

declare merge_up.simps [simp del]

definition buddy_system_free_pages :: "nat \<Rightarrow> nat \<Rightarrow> nat \<Rightarrow> buddy_sys \<Rightarrow> buddy_sys" where
  "buddy_system_free_pages npage base n s =
     (let (order, s) = merge_up npage base (round_order n 1 0) s
      in s\<lparr>free_count := u32 (free_count s + 2 ^ order)\<rparr>)"

text \<open>\<^verbatim>\<open>default_init_memmap\<close>: the loop over the pages, the two order loops and the carving loop.\<close>

fun reset_pages :: "nat \<Rightarrow> nat \<Rightarrow> buddy_sys \<Rightarrow> buddy_sys option" where
  "reset_pages p 0 s = Some s"
| "reset_pages p (Suc k) s = do {
     kassert (PageReserved (bpages s p));
     reset_pages (Suc p) k
       (upd_bpage p (\<lambda>g. set_page_ref 0 (g\<lparr>flags := 0, property := 0\<rparr>)) s)
   }"

function align_order :: "nat \<Rightarrow> nat \<Rightarrow> nat" where
  "align_order idx k = (if \<not> bit idx k \<and> k < MAX_ORDER - 1 then align_order idx (k + 1) else k)"
  by pat_completeness auto
termination by (relation "measure (\<lambda>(_, k). MAX_ORDER - k)") auto

declare align_order.simps [simp del]

function size_order :: "nat \<Rightarrow> nat \<Rightarrow> nat" where
  "size_order remain k =
     (if 2 ^ k * 2 \<le> remain \<and> k < MAX_ORDER - 1 then size_order remain (k + 1) else k)"
  by pat_completeness auto
termination by (relation "measure (\<lambda>(_, k). MAX_ORDER - k)") auto

declare size_order.simps [simp del]

definition use_order :: "nat \<Rightarrow> nat \<Rightarrow> nat" where
  "use_order pos remain =
     (let max_align = align_order pos 0;
          max_align = (if max_align > 0 then max_align - 1 else max_align);
          limit = size_order remain 0
      in if max_align < limit then max_align else limit)"

lemma size_order_le: "0 < remain \<Longrightarrow> 2 ^ k \<le> remain \<Longrightarrow> 2 ^ size_order remain k \<le> remain"
  by (induction remain k rule: size_order.induct) (subst size_order.simps, auto)

lemma use_order_le: "0 < remain \<Longrightarrow> 2 ^ use_order pos remain \<le> remain"
proof -
  assume r: "0 < remain"
  have "use_order pos remain \<le> size_order remain 0" by (simp add: use_order_def Let_def)
  then have "(2::nat) ^ use_order pos remain \<le> 2 ^ size_order remain 0" by (rule power_increasing) simp
  also have "\<dots> \<le> remain" using size_order_le [OF r, of 0] r by simp
  finally show ?thesis .
qed

function carve :: "nat \<Rightarrow> nat \<Rightarrow> buddy_sys \<Rightarrow> buddy_sys" where
  "carve pos remain s =
     (if remain > 0
      then (let k = use_order pos remain;
                s = put_block pos k s
            in carve (pos + 2 ^ k) (remain - 2 ^ k)
                 (s\<lparr>free_count := u32 (free_count s + 2 ^ k)\<rparr>))
      else s)"
  by pat_completeness auto
termination
  by (relation "measure (\<lambda>(_, remain, _). remain)") (auto intro: diff_less)

declare carve.simps [simp del]

definition buddy_init_memmap :: "nat \<Rightarrow> nat \<Rightarrow> buddy_sys \<Rightarrow> buddy_sys option" where
  "buddy_init_memmap base n s = do {
     kassert (n > 0);
     s \<leftarrow> reset_pages base n s;
     Some (carve base n s)
   }"

definition buddy_system_nr_free_pages :: "buddy_sys \<Rightarrow> nat" where
  "buddy_system_nr_free_pages s = free_count s"

section \<open>The invariant\<close>

text \<open>
  \<open>fl k\<close> lists the heads of the free blocks of order \<open>k\<close>.  \<open>buddy_core\<close>: the rings hold
  exactly these heads, every head is marked with its size and aligned to it, no two blocks
  overlap and every area counts its blocks.  \<open>buddy_inv\<close> adds that the global count is right.
\<close>

definition buddy_blocks :: "(nat \<Rightarrow> nat list) \<Rightarrow> (nat \<times> nat) set" where
  "buddy_blocks fl = {(k, p). k < MAX_ORDER \<and> p \<in> set (fl k)}"

definition span2 :: "nat \<times> nat \<Rightarrow> nat set" where
  "span2 b = {snd b ..< snd b + 2 ^ fst b}"

definition buddy_set :: "(nat \<Rightarrow> nat list) \<Rightarrow> nat set" where
  "buddy_set fl = (\<Union>b\<in>buddy_blocks fl. span2 b)"

definition buddy_total :: "(nat \<Rightarrow> nat list) \<Rightarrow> nat" where
  "buddy_total fl = (\<Sum>k<MAX_ORDER. 2 ^ k * length (fl k))"

definition buddy_core :: "buddy_sys \<Rightarrow> (nat \<Rightarrow> nat list) \<Rightarrow> bool" where
  "buddy_core s fl \<longleftrightarrow>
     (\<forall>k<MAX_ORDER. dlist (blinks s) (OrderHead k) (map BLink (fl k)) \<and> area_free s k = length (fl k)) \<and>
     (\<forall>(k, p)\<in>buddy_blocks fl. PageProperty (bpages s p) \<and> property (bpages s p) = 2 ^ k \<and> 2 ^ k dvd p) \<and>
     disjoint_family_on span2 (buddy_blocks fl)"

definition buddy_inv :: "buddy_sys \<Rightarrow> (nat \<Rightarrow> nat list) \<Rightarrow> bool" where
  "buddy_inv s fl \<longleftrightarrow> buddy_core s fl \<and> free_count s = buddy_total fl \<and> buddy_total fl < 2 ^ 32"

lemma span2_Pair [simp]: "span2 (k, p) = {p ..< p + 2 ^ k}"
  by (simp add: span2_def)

lemma span2_head: "p \<in> span2 (k, p)"
  by simp

lemma buddy_blocks_cons:
  "k < MAX_ORDER \<Longrightarrow> buddy_blocks (fl(k := p # fl k)) = insert (k, p) (buddy_blocks fl)"
  by (auto simp: buddy_blocks_def split: if_splits)

lemma buddy_set_cons:
  "k < MAX_ORDER \<Longrightarrow> buddy_set (fl(k := p # fl k)) = {p ..< p + 2 ^ k} \<union> buddy_set fl"
  by (simp add: buddy_set_def buddy_blocks_cons)

lemma buddy_total_cons:
  assumes "k < MAX_ORDER"
  shows "buddy_total (fl(k := p # fl k)) = buddy_total fl + 2 ^ k"
proof -
  have "(\<Sum>j<MAX_ORDER. 2 ^ j * length ((fl(k := p # fl k)) j)) =
      (\<Sum>j<MAX_ORDER. 2 ^ j * length (fl j) + (if j = k then 2 ^ k else 0))"
    by (rule sum.cong) auto
  also have "\<dots> = buddy_total fl + 2 ^ k"
    using assms by (simp add: sum.distrib buddy_total_def)
  finally show ?thesis by (simp add: buddy_total_def)
qed

lemma length_le_buddy_total: "k < MAX_ORDER \<Longrightarrow> length (fl k) \<le> buddy_total fl"
  unfolding buddy_total_def
  by (rule order_trans [OF _ member_le_sum [of k "{..<MAX_ORDER}"]]) simp_all

lemma buddy_core_distinct:
  assumes "buddy_core s fl" and "(k, p) \<in> buddy_blocks fl" and "(j, p) \<in> buddy_blocks fl"
  shows "j = k"
proof (rule ccontr)
  assume "j \<noteq> k"
  moreover have "disjoint_family_on span2 (buddy_blocks fl)" using assms(1) by (simp add: buddy_core_def)
  ultimately have "span2 (k, p) \<inter> span2 (j, p) = {}"
    using assms(2,3) by (intro disjoint_family_onD) auto
  moreover have "p \<in> span2 (k, p) \<inter> span2 (j, p)" by simp
  ultimately show False by blast
qed

lemma fresh_block:
  assumes "{p ..< p + 2 ^ k} \<inter> buddy_set fl = {}"
  shows "(j, p) \<notin> buddy_blocks fl" and "j < MAX_ORDER \<Longrightarrow> p \<notin> set (fl j)"
proof -
  have "p \<notin> buddy_set fl" using assms by (auto simp: disjoint_iff)
  then show "(j, p) \<notin> buddy_blocks fl" using span2_head [of p j] unfolding buddy_set_def by blast
  then show "j < MAX_ORDER \<Longrightarrow> p \<notin> set (fl j)" by (simp add: buddy_blocks_def)
qed

text \<open>The heads of the other rings are not in a ring, so each ring is a frame for the others.\<close>

lemma ring_add_frame:
  assumes "dlist l (OrderHead k) (map BLink xs)" and "dlist l (OrderHead j) (map BLink ys)"
    and "j \<noteq> k" and "set xs \<inter> set ys = {}" and "p \<notin> set ys"
  shows "dlist (list_add (OrderHead k) (BLink p) l) (OrderHead j) (map BLink ys)"
proof -
  have "nxt (list_add_after (OrderHead k) (BLink p) l) m = nxt l m \<and>
      prv (list_add_after (OrderHead k) (BLink p) l) m = prv l m"
    if "m \<in> set (OrderHead j # map BLink ys)" for m
    using that assms(3-5) by (intro frame_add_after_head [OF assms(1)]) auto
  from dlist_cong [where h = "OrderHead j" and xs = "map BLink ys", OF this]
  show ?thesis using assms(2) by (simp add: list_add_def)
qed

lemma ring_del_frame:
  assumes "dlist l (OrderHead k) (map BLink xs)" and "dlist l (OrderHead j) (map BLink ys)"
    and "j \<noteq> k" and "set xs \<inter> set ys = {}" and "p \<in> set xs"
  shows "dlist (list_del (BLink p) l) (OrderHead j) (map BLink ys)"
proof -
  have "nxt (list_del (BLink p) l) m = nxt l m \<and> prv (list_del (BLink p) l) m = prv l m"
    if "m \<in> set (OrderHead j # map BLink ys)" for m
    using that assms(3-5) by (intro frame_del [OF assms(1)]) auto
  from dlist_cong [where h = "OrderHead j" and xs = "map BLink ys", OF this]
  show ?thesis using assms(2) by simp
qed

lemma buddy_core_rings:
  assumes "buddy_core s fl" and "k < MAX_ORDER" and "j < MAX_ORDER" and "j \<noteq> k"
  shows "set (fl k) \<inter> set (fl j) = {}"
  using buddy_core_distinct [OF assms(1)] assms(2-4) by (fastforce simp: buddy_blocks_def)

lemma buddy_core_cong:
  assumes "buddy_core s fl" and "blinks s' = blinks s" and "area_free s' = area_free s"
    and "\<And>k p. (k, p) \<in> buddy_blocks fl \<Longrightarrow> bpages s' p = bpages s p"
  shows "buddy_core s' fl"
  using assms by (fastforce simp: buddy_core_def)

section \<open>Putting a block in, taking one out\<close>

lemma put_block_core:
  assumes c: "buddy_core s fl" and k: "k < MAX_ORDER" and al: "2 ^ k dvd p"
    and dis: "{p ..< p + 2 ^ k} \<inter> buddy_set fl = {}" and t: "buddy_total fl + 2 ^ k < 2 ^ 32"
  shows "buddy_core (put_block p k s) (fl(k := p # fl k))"
    and "free_count (put_block p k s) = free_count s"
proof -
  let ?s = "put_block p k s" and ?fl = "fl(k := p # fl k)"
  have links: "blinks ?s = list_add (OrderHead k) (BLink p) (blinks s)"
    and area: "area_free ?s = (area_free s)(k := u32 (area_free s k + 1))"
    and pg: "bpages ?s = (bpages s)(p := SetPageProperty ((bpages s p)\<lparr>property := 2 ^ k\<rparr>))"
    by (simp_all add: put_block_def Let_def)
  show "free_count ?s = free_count s" by (simp add: put_block_def Let_def)
  note fr = fresh_block [OF dis]
  have ringk: "dlist (blinks s) (OrderHead k) (map BLink (fl k))" using c k by (simp add: buddy_core_def)
  have "length (fl k) + 1 < 2 ^ 32"
    using length_le_buddy_total [OF k, of fl] t one_le_power [of "2::nat" k] by linarith
  then have cnt: "u32 (length (fl k) + 1) = length (fl k) + 1" by (rule u32_id)
  have ring: "dlist (blinks ?s) (OrderHead j) (map BLink (?fl j)) \<and> area_free ?s j = length (?fl j)"
    if j: "j < MAX_ORDER" for j
  proof (cases "j = k")
    case True
    have "dlist (list_add (OrderHead k) (BLink p) (blinks s)) (OrderHead k) (BLink p # map BLink (fl k))"
      unfolding list_add_def by (rule dlist_add_after_head [OF ringk]) (use fr(2) [OF k] in auto)
    then show ?thesis using True c k cnt by (simp add: links area buddy_core_def)
  next
    case False
    have "dlist (blinks s) (OrderHead j) (map BLink (fl j))" using c j by (simp add: buddy_core_def)
    from ring_add_frame [OF ringk this False buddy_core_rings [OF c k j False] fr(2) [OF j]]
    show ?thesis using False c j by (simp add: links area buddy_core_def)
  qed
  have marks: "PageProperty (bpages ?s q) \<and> property (bpages ?s q) = 2 ^ j \<and> 2 ^ j dvd q"
    if "(j, q) \<in> buddy_blocks ?fl" for j q
  proof (cases "q = p")
    case True
    then have "j = k" using that fr(1) [of j] by (simp add: buddy_blocks_cons k)
    then show ?thesis using True al by (simp add: pg)
  next
    case False
    then have "(j, q) \<in> buddy_blocks fl" using that by (simp add: buddy_blocks_cons k)
    then show ?thesis using False c by (fastforce simp: pg buddy_core_def)
  qed
  have "disjoint_family_on span2 (buddy_blocks ?fl)"
    unfolding buddy_blocks_cons [OF k]
    using c dis fr(1) by (subst disjoint_family_on_insert) (auto simp: buddy_core_def buddy_set_def)
  then show "buddy_core ?s ?fl"
    unfolding buddy_core_def using ring marks by blast
qed

lemma take_out_core:
  assumes c: "buddy_core s fl" and k: "k < MAX_ORDER" and f: "fl k = p # r"
  defines "s' \<equiv> upd_area k (\<lambda>c. u32_sub c 1) (upd_blinks (list_del (BLink p)) s)"
  assumes t: "buddy_total fl < 2 ^ 32"
  shows "buddy_core s' (fl(k := r))" and "{p ..< p + 2 ^ k} \<inter> buddy_set (fl(k := r)) = {}"
    and "2 ^ k dvd p"
proof -
  let ?fl = "fl(k := r)"
  have fl: "fl = ?fl(k := p # ?fl k)" using f by auto
  have ringk: "dlist (blinks s) (OrderHead k) (map BLink (fl k))" using c k by (simp add: buddy_core_def)
  have pr: "p \<notin> set r" using dlist_distinct [OF ringk] f by auto
  have ins: "buddy_blocks fl = insert (k, p) (buddy_blocks ?fl)" and fresh: "(k, p) \<notin> buddy_blocks ?fl"
    using buddy_blocks_cons [OF k, of ?fl p, folded fl] pr by (simp_all add: buddy_blocks_def)
  have dis: "disjoint_family_on span2 (insert (k, p) (buddy_blocks ?fl))" using c ins by (simp add: buddy_core_def)
  then show "{p ..< p + 2 ^ k} \<inter> buddy_set ?fl = {}"
    using fresh by (simp add: disjoint_family_on_insert buddy_set_def)
  show "2 ^ k dvd p" using c ins by (auto simp: buddy_core_def)
  have "length (fl k) < 2 ^ 32" using length_le_buddy_total [OF k, of fl] t by simp
  then have cnt: "u32_sub (length (fl k)) 1 = length r" using f by (simp add: u32_sub_id)
  have ring: "dlist (blinks s') (OrderHead j) (map BLink (?fl j)) \<and> area_free s' j = length (?fl j)"
    if j: "j < MAX_ORDER" for j
  proof (cases "j = k")
    case True
    have "dlist (list_del (BLink p) (blinks s)) (OrderHead k) ([] @ map BLink r)"
      by (rule dlist_del) (use ringk f in simp)
    then show ?thesis using True c k cnt by (simp add: s'_def buddy_core_def)
  next
    case False
    have "dlist (blinks s) (OrderHead j) (map BLink (fl j))" using c j by (simp add: buddy_core_def)
    from ring_del_frame [OF ringk this False buddy_core_rings [OF c k j False], of p]
    show ?thesis using False c j f by (simp add: s'_def buddy_core_def)
  qed
  moreover have "\<forall>(j, q)\<in>buddy_blocks ?fl. PageProperty (bpages s' q) \<and> property (bpages s' q) = 2 ^ j \<and> 2 ^ j dvd q"
    using c unfolding buddy_core_def ins by (simp add: s'_def)
  moreover have "disjoint_family_on span2 (buddy_blocks ?fl)"
    using dis by (rule disjoint_family_on_mono [rotated]) auto
  ultimately show "buddy_core s' ?fl" unfolding buddy_core_def by blast
qed

section \<open>The order loops\<close>

lemma round_order_ok:
  assumes "order \<le> MAX_ORDER"
  shows "order \<le> round_order req (2 ^ order) order"
    and "round_order req (2 ^ order) order \<le> MAX_ORDER"
    and "round_order req (2 ^ order) order < MAX_ORDER \<Longrightarrow> req \<le> 2 ^ round_order req (2 ^ order) order"
    and "order \<le> j \<Longrightarrow> j < round_order req (2 ^ order) order \<Longrightarrow> 2 ^ j < req"
proof -
  have dbl: "u64 (2 ^ k * 2) = 2 ^ (k + 1)" if "k < MAX_ORDER" for k :: nat
  proof -
    have "(2::nat) ^ (k + 1) \<le> 2 ^ 14" using that by (intro power_increasing) auto
    then show ?thesis by (simp add: u64_id)
  qed
  have all: "order \<le> round_order req (2 ^ order) order \<and> round_order req (2 ^ order) order \<le> MAX_ORDER \<and>
    (round_order req (2 ^ order) order < MAX_ORDER \<longrightarrow> req \<le> 2 ^ round_order req (2 ^ order) order) \<and>
    (\<forall>j. order \<le> j \<and> j < round_order req (2 ^ order) order \<longrightarrow> 2 ^ j < req)"
    using assms
  proof (induction "MAX_ORDER - order" arbitrary: order)
    case 0
    then have o: "order = MAX_ORDER" by simp
    then have "round_order req (2 ^ order) order = order" by (subst round_order.simps) simp
    then show ?case using o by simp
  next
    case (Suc m)
    then have lt: "order < MAX_ORDER" by simp
    show ?case
    proof (cases "2 ^ order < req")
      case False
      then have "round_order req (2 ^ order) order = order" by (subst round_order.simps) simp
      then show ?thesis using False lt by simp
    next
      case True
      then have st: "round_order req (2 ^ order) order = round_order req (2 ^ (order + 1)) (order + 1)"
        using lt dbl [OF lt] by (subst round_order.simps) (simp only: simp_thms if_True)
      have IH: "order + 1 \<le> round_order req (2 ^ (order + 1)) (order + 1) \<and>
          round_order req (2 ^ (order + 1)) (order + 1) \<le> MAX_ORDER \<and>
          (round_order req (2 ^ (order + 1)) (order + 1) < MAX_ORDER \<longrightarrow>
             req \<le> 2 ^ round_order req (2 ^ (order + 1)) (order + 1)) \<and>
          (\<forall>j. order + 1 \<le> j \<and> j < round_order req (2 ^ (order + 1)) (order + 1) \<longrightarrow> 2 ^ j < req)"
        using Suc.hyps(2) lt by (intro Suc.hyps(1)) auto
      have "2 ^ j < req" if "order \<le> j" "j < round_order req (2 ^ (order + 1)) (order + 1)" for j
        using that True IH by (cases "j = order") auto
      then show ?thesis unfolding st using IH by auto
    qed
  qed
  then show "order \<le> round_order req (2 ^ order) order"
    "round_order req (2 ^ order) order \<le> MAX_ORDER"
    "round_order req (2 ^ order) order < MAX_ORDER \<Longrightarrow> req \<le> 2 ^ round_order req (2 ^ order) order"
    "order \<le> j \<Longrightarrow> j < round_order req (2 ^ order) order \<Longrightarrow> 2 ^ j < req" by auto
qed

lemma search_order_ok:
  assumes "buddy_core s fl" and "k \<le> MAX_ORDER"
  shows "k \<le> search_order k s \<and> search_order k s \<le> MAX_ORDER \<and>
    (\<forall>j. k \<le> j \<and> j < search_order k s \<longrightarrow> fl j = []) \<and>
    (search_order k s < MAX_ORDER \<longrightarrow> fl (search_order k s) \<noteq> [])"
  using assms(2)
proof (induction "MAX_ORDER - k" arbitrary: k)
  case 0
  then have "k = MAX_ORDER" by simp
  moreover from this have "search_order k s = k" by (subst search_order.simps) simp
  ultimately show ?case by (metis le_refl leD)
next
  case (Suc m)
  then have lt: "k < MAX_ORDER" by simp
  have e: "list_empty (OrderHead k) (blinks s) \<longleftrightarrow> fl k = []"
    using assms(1) lt dlist_empty by (fastforce simp: buddy_core_def)
  show ?case
  proof (cases "fl k = []")
    case False
    then have "search_order k s = k" using e by (subst search_order.simps) simp
    then show ?thesis using False lt by auto
  next
    case True
    then have st: "search_order k s = search_order (k + 1) s" using e lt by (subst search_order.simps) simp
    have IH: "k + 1 \<le> search_order (k + 1) s \<and> search_order (k + 1) s \<le> MAX_ORDER \<and>
      (\<forall>j. k + 1 \<le> j \<and> j < search_order (k + 1) s \<longrightarrow> fl j = []) \<and>
      (search_order (k + 1) s < MAX_ORDER \<longrightarrow> fl (search_order (k + 1) s) \<noteq> [])"
      using Suc.hyps(2) lt by (intro Suc.hyps(1)) auto
    have "fl j = []" if "k \<le> j" "j < search_order (k + 1) s" for j
      using that True IH by (cases "j = k") auto
    then show ?thesis unfolding st using IH by auto
  qed
qed

section \<open>Splitting\<close>

text \<open>The heads after a block \<open>p\<close> of order \<open>k\<close> was split down to order \<open>t\<close>.\<close>

definition split_heads :: "nat \<Rightarrow> nat \<Rightarrow> nat \<Rightarrow> (nat \<Rightarrow> nat list) \<Rightarrow> nat \<Rightarrow> nat list" where
  "split_heads p t k fl = (\<lambda>j. if t \<le> j \<and> j < k then (p + 2 ^ j) # fl j else fl j)"

lemma split_down_ok:
  assumes "buddy_core s fl" and "t \<le> k" and "k \<le> MAX_ORDER" and "2 ^ k dvd p"
    and "{p ..< p + 2 ^ k} \<inter> buddy_set fl = {}" and "buddy_total fl + 2 ^ k < 2 ^ 32"
  shows "buddy_core (split_down p t k s) (split_heads p t k fl) \<and>
    free_count (split_down p t k s) = free_count s \<and>
    buddy_set (split_heads p t k fl) = buddy_set fl \<union> {p + 2 ^ t ..< p + 2 ^ k} \<and>
    buddy_total (split_heads p t k fl) + 2 ^ t = buddy_total fl + 2 ^ k \<and> 2 ^ t dvd p"
  using assms
proof (induction k arbitrary: s fl)
  case 0
  then show ?case by (simp add: split_heads_def)
next
  case (Suc k)
  show ?case
  proof (cases "t = Suc k")
    case True
    then have "split_heads p t (Suc k) fl = fl" by (simp add: split_heads_def fun_eq_iff)
    then show ?thesis using Suc.prems True by simp
  next
    case False
    then have tk: "t \<le> k" "t < Suc k" and k: "k < MAX_ORDER" using Suc.prems(2,3) by auto
    let ?q = "p + 2 ^ k" and ?fl = "fl(k := (p + 2 ^ k) # fl k)"
    have al: "2 ^ k dvd p" using Suc.prems(4) by (rule dvd_trans [rotated]) simp
    then have alq: "2 ^ k dvd ?q" by simp
    have up: "{?q ..< ?q + 2 ^ k} \<subseteq> {p ..< p + 2 ^ Suc k}" and lo: "{p ..< p + 2 ^ k} \<subseteq> {p ..< p + 2 ^ Suc k}"
      and ul: "{p ..< p + 2 ^ k} \<inter> {?q ..< ?q + 2 ^ k} = {}" by auto
    have dq: "{?q ..< ?q + 2 ^ k} \<inter> buddy_set fl = {}" and dp: "{p ..< p + 2 ^ k} \<inter> buddy_set fl = {}"
      using Suc.prems(5) up lo by blast+
    have tq: "buddy_total fl + 2 ^ k < 2 ^ 32" using Suc.prems(6) by simp
    note pb = put_block_core [OF Suc.prems(1) k alq dq tq]
    have dp': "{p ..< p + 2 ^ k} \<inter> buddy_set ?fl = {}"
      using dp ul unfolding buddy_set_cons [OF k] by blast
    have tp': "buddy_total ?fl + 2 ^ k < 2 ^ 32"
      using Suc.prems(6) unfolding buddy_total_cons [OF k] by simp
    have sh: "split_heads p t (Suc k) fl = split_heads p t k ?fl"
      using tk by (auto simp: split_heads_def fun_eq_iff)
    have tt: "(2::nat) ^ t \<le> 2 ^ k" using tk(1) by (rule power_increasing) simp
    have un: "{p + 2 ^ t ..< p + 2 ^ k} \<union> ({?q ..< ?q + 2 ^ k} \<union> X) = X \<union> {p + 2 ^ t ..< p + 2 ^ Suc k}" for X
      using tt by (auto simp del: power_increasing_iff)
    have run: "split_down p t (Suc k) s = split_down p t k (put_block ?q k s)" using tk by simp
    have ih: "buddy_core (split_down p t k (put_block ?q k s)) (split_heads p t k ?fl) \<and>
        free_count (split_down p t k (put_block ?q k s)) = free_count (put_block ?q k s) \<and>
        buddy_set (split_heads p t k ?fl) = buddy_set ?fl \<union> {p + 2 ^ t ..< p + 2 ^ k} \<and>
        buddy_total (split_heads p t k ?fl) + 2 ^ t = buddy_total ?fl + 2 ^ k \<and> 2 ^ t dvd p"
      by (rule Suc.IH [OF pb(1) tk(1) less_imp_le [OF k] al dp' tp'])
    have "buddy_set (split_heads p t k ?fl) = buddy_set fl \<union> {p + 2 ^ t ..< p + 2 ^ Suc k}"
      using ih un [of "buddy_set fl"] unfolding buddy_set_cons [OF k] by blast
    moreover have "buddy_total (split_heads p t k ?fl) + 2 ^ t = buddy_total fl + 2 ^ Suc k"
      using ih unfolding buddy_total_cons [OF k] by simp
    ultimately show ?thesis unfolding run sh using ih pb(2) by (simp only: simp_thms)
  qed
qed

section \<open>Allocation\<close>

lemma buddy_total_head:
  "k < MAX_ORDER \<Longrightarrow> fl k = p # r \<Longrightarrow> buddy_total fl = buddy_total (fl(k := r)) + 2 ^ k"
  using buddy_total_cons [of k "fl(k := r)" p] by (simp add: fun_upd_idem)

lemma buddy_set_head:
  "k < MAX_ORDER \<Longrightarrow> fl k = p # r \<Longrightarrow> buddy_set fl = {p ..< p + 2 ^ k} \<union> buddy_set (fl(k := r))"
  using buddy_set_cons [of k "fl(k := r)" p] by (simp add: fun_upd_idem)

lemma buddy_alloc_some:
  assumes inv: "buddy_inv s fl" and k: "k < MAX_ORDER" and t: "t \<le> k" and f: "fl k = p # r"
    and run: "round_order n 1 0 = t" "search_order t s = k"
  defines "fl' \<equiv> split_heads p t k (fl(k := r))"
  shows "\<exists>s'. buddy_system_alloc_pages n s = Some (Some p, s') \<and> buddy_inv s' fl' \<and>
      {p ..< p + 2 ^ t} \<subseteq> buddy_set fl \<and> buddy_set fl' = buddy_set fl - {p ..< p + 2 ^ t} \<and>
      2 ^ t dvd p \<and> free_count s' + 2 ^ t = free_count s"
proof -
  have c: "buddy_core s fl" and cnt: "free_count s = buddy_total fl" and lt: "buddy_total fl < 2 ^ 32"
    using inv by (simp_all add: buddy_inv_def)
  let ?s1 = "upd_area k (\<lambda>c. u32_sub c 1) (upd_blinks (list_del (BLink p)) s)"
  let ?s2 = "split_down p t k ?s1"
  let ?s3 = "upd_bpage p (\<lambda>g. g\<lparr>property := 0\<rparr>) (upd_bpage p ClearPageProperty ?s2)"
  let ?s4 = "?s3\<lparr>free_count := u32_sub (free_count ?s3) (2 ^ t)\<rparr>"
  note out = take_out_core [OF c k f lt]
  have tot: "buddy_total (fl(k := r)) + 2 ^ k < 2 ^ 32" using buddy_total_head [of k fl, OF k f] lt by simp
  note sp = split_down_ok [OF out(1) t less_imp_le [OF k] out(3,2) tot, folded fl'_def]
  have tt: "(2::nat) ^ t \<le> 2 ^ k" using t by (rule power_increasing) simp
  have cut: "{p ..< p + 2 ^ k} = {p ..< p + 2 ^ t} \<union> {p + 2 ^ t ..< p + 2 ^ k}"
    "{p ..< p + 2 ^ t} \<inter> {p + 2 ^ t ..< p + 2 ^ k} = {}"
    using tt by (auto simp del: power_increasing_iff)
  have set': "buddy_set fl' = buddy_set fl - {p ..< p + 2 ^ t}"
    using sp out(2) cut unfolding buddy_set_head [of k fl, OF k f] by blast
  have sub: "{p ..< p + 2 ^ t} \<subseteq> buddy_set fl"
    unfolding buddy_set_head [of k fl, OF k f] using cut by blast
  have "p \<notin> buddy_set fl'" unfolding set' by simp
  then have ne: "q \<noteq> p" if "(j, q) \<in> buddy_blocks fl'" for j q
    using span2_head [of p j] that unfolding buddy_set_def by blast
  have core: "buddy_core ?s4 fl'"
    by (rule buddy_core_cong [OF conjunct1 [OF sp]]) (simp_all add: ne)
  have fc: "free_count ?s2 = buddy_total fl" using sp cnt by simp
  have ge: "buddy_total fl' + 2 ^ t = buddy_total fl"
    using sp buddy_total_head [of k fl, OF k f] by simp
  then have fs: "u32_sub (buddy_total fl) (2 ^ t) = buddy_total fl'"
    using lt by (subst u32_sub_id) auto
  have "dlist (blinks s) (OrderHead k) (map BLink (fl k))" using c k by (simp add: buddy_core_def)
  then have "list_next (OrderHead k) (blinks s) = BLink p"
    using dlist_first f by fastforce
  then have "buddy_system_alloc_pages n s = Some (Some p, ?s4)"
    unfolding buddy_system_alloc_pages_def Let_def run using k by simp
  moreover have "buddy_inv ?s4 fl'" using core fc fs ge lt by (simp add: buddy_inv_def)
  moreover have "free_count ?s4 + 2 ^ t = free_count s" using fc fs ge cnt by simp
  ultimately show ?thesis using sub set' sp by blast
qed

section \<open>Setting up\<close>

lemma init_areas_ok:
  "(i \<le> k \<and> k < i + m \<or> dlist (blinks s) (OrderHead k) [] \<and> area_free s k = 0 \<longrightarrow>
     dlist (blinks (init_areas i m s)) (OrderHead k) [] \<and> area_free (init_areas i m s) k = 0) \<and>
   bpages (init_areas i m s) = bpages s"
proof (induction m arbitrary: i s)
  case 0
  then show ?case by auto
next
  case (Suc m)
  let ?s = "upd_area i (\<lambda>_. 0) (upd_blinks (list_init (OrderHead i)) s)"
  have "dlist (blinks ?s) (OrderHead i) [] \<and> area_free ?s i = 0" by (simp add: dlist_init)
  moreover have "dlist (blinks ?s) (OrderHead k) [] \<and> area_free ?s k = 0"
    if "k \<noteq> i" "dlist (blinks s) (OrderHead k) [] \<and> area_free s k = 0"
    using that dlist_list_init_other [of "blinks s" "OrderHead k" "[]" "OrderHead i"] by simp
  ultimately show ?case
    using Suc.IH [of "Suc i" ?s] by (cases "k = i") auto
qed

lemma buddy_system_init_inv:
  "buddy_core (buddy_system_init s) (\<lambda>_. [])" "free_count (buddy_system_init s) = 0"
  "bpages (buddy_system_init s) = bpages s"
  using init_areas_ok [of 0 _ MAX_ORDER s] zero_le
  by (simp_all add: buddy_core_def buddy_system_init_def buddy_blocks_def disjoint_family_on_def)

lemma reset_pages_ok:
  assumes "\<forall>q\<in>{p ..< p + k}. PageReserved (bpages s q)"
  shows "reset_pages p k s = Some (s\<lparr>bpages := (\<lambda>q. if q \<in> {p ..< p + k}
      then set_page_ref 0 ((bpages s q)\<lparr>flags := 0, property := 0\<rparr>) else bpages s q)\<rparr>)"
  using assms
proof (induction k arbitrary: p s)
  case 0
  then show ?case by simp
next
  case (Suc k)
  let ?s1 = "upd_bpage p (\<lambda>g. set_page_ref 0 (g\<lparr>flags := 0, property := 0\<rparr>)) s"
  have "\<forall>q\<in>{Suc p ..< Suc p + k}. PageReserved (bpages ?s1 q)" using Suc.prems by auto
  from Suc.IH [OF this] show ?case
    using Suc.prems by (auto simp: upd_bpage_def fun_eq_iff intro!: buddy_sys.equality)
qed

lemma align_order_ok:
  assumes "k < MAX_ORDER"
  shows "k \<le> align_order idx k \<and> align_order idx k < MAX_ORDER \<and>
    (\<forall>j. k \<le> j \<and> j < align_order idx k \<longrightarrow> \<not> bit idx j)"
  using assms
proof (induction "MAX_ORDER - k" arbitrary: k)
  case (Suc m)
  show ?case
  proof (cases "\<not> bit idx k \<and> k < MAX_ORDER - 1")
    case False
    then have "align_order idx k = k" by (subst align_order.simps) (simp only: if_False)
    then show ?thesis using Suc.prems by auto
  next
    case True
    then have st: "align_order idx k = align_order idx (k + 1)" by (subst align_order.simps) simp
    have "k + 1 \<le> align_order idx (k + 1) \<and> align_order idx (k + 1) < MAX_ORDER \<and>
        (\<forall>j. k + 1 \<le> j \<and> j < align_order idx (k + 1) \<longrightarrow> \<not> bit idx j)"
      using Suc.hyps(2) True by (intro Suc.hyps(1)) auto
    then show ?thesis unfolding st using True by (metis Suc_eq_plus1 Suc_leD le_antisym not_less_eq_eq)
  qed
qed simp

lemma use_order_ok: "2 ^ use_order pos remain dvd pos" "use_order pos remain < MAX_ORDER - 1"
proof -
  have a: "align_order pos 0 < MAX_ORDER" "\<And>j. j < align_order pos 0 \<Longrightarrow> \<not> bit pos j"
    using align_order_ok [of 0 pos] by auto
  have u: "use_order pos remain \<le> align_order pos 0 - 1" by (simp add: use_order_def Let_def)
  then have "take_bit (use_order pos remain) pos = 0"
    using a(2) by (intro bit_eqI) (auto simp: bit_take_bit_iff)
  then show "2 ^ use_order pos remain dvd pos" by (simp add: take_bit_eq_0_iff)
  show "use_order pos remain < MAX_ORDER - 1" using u a(1) by linarith
qed

lemma carve_ok:
  assumes "buddy_inv s fl" and "{pos ..< pos + remain} \<inter> buddy_set fl = {}"
    and "buddy_total fl + remain < 2 ^ 32"
  shows "\<exists>fl'. buddy_inv (carve pos remain s) fl' \<and>
    buddy_set fl' = buddy_set fl \<union> {pos ..< pos + remain} \<and>
    buddy_total fl' = buddy_total fl + remain \<and> fl' (MAX_ORDER - 1) = fl (MAX_ORDER - 1)"
  using assms
proof (induction remain arbitrary: pos s fl rule: less_induct)
  case (less remain)
  show ?case
  proof (cases "remain = 0")
    case True
    then have "carve pos remain s = s" by (subst carve.simps) simp
    then show ?thesis using less.prems True by auto
  next
    case False
    define k where "k = use_order pos remain"
    have le: "2 ^ k \<le> remain" using use_order_le [of remain pos] False by (simp add: k_def)
    have k: "k < MAX_ORDER - 1" "2 ^ k dvd pos" unfolding k_def by (rule use_order_ok)+
    then have k': "k < MAX_ORDER" by simp
    let ?fl = "fl(k := pos # fl k)" and ?s1 = "put_block pos k s"
    let ?s2 = "?s1\<lparr>free_count := u32 (free_count ?s1 + 2 ^ k)\<rparr>"
    have inv: "buddy_core s fl" "free_count s = buddy_total fl" using less.prems(1) by (simp_all add: buddy_inv_def)
    have split: "{pos ..< pos + remain} = {pos ..< pos + 2 ^ k} \<union> {pos + 2 ^ k ..< pos + 2 ^ k + (remain - 2 ^ k)}"
      "{pos ..< pos + 2 ^ k} \<inter> {pos + 2 ^ k ..< pos + 2 ^ k + (remain - 2 ^ k)} = {}" using le by auto
    have dis: "{pos ..< pos + 2 ^ k} \<inter> buddy_set fl = {}" using less.prems(2) split(1) by blast
    have t: "buddy_total fl + 2 ^ k < 2 ^ 32" using less.prems(3) le by simp
    note pb = put_block_core [OF inv(1) k' k(2) dis t]
    have inv2: "buddy_inv ?s2 ?fl"
      using buddy_core_cong [OF pb(1), of ?s2] pb(2) inv(2) t
      by (simp add: buddy_inv_def buddy_total_cons [OF k'] u32_id)
    have dis2: "{pos + 2 ^ k ..< pos + 2 ^ k + (remain - 2 ^ k)} \<inter> buddy_set ?fl = {}"
      unfolding buddy_set_cons [OF k'] using split less.prems(2) by blast
    have t2: "buddy_total ?fl + (remain - 2 ^ k) < 2 ^ 32"
      unfolding buddy_total_cons [OF k'] using less.prems(3) le by simp
    have dec: "remain - 2 ^ k < remain" using False by (intro diff_less) auto
    from less.IH [OF dec inv2 dis2 t2] obtain fl' where
      f: "buddy_inv (carve (pos + 2 ^ k) (remain - 2 ^ k) ?s2) fl'"
      "buddy_set fl' = buddy_set ?fl \<union> {pos + 2 ^ k ..< pos + 2 ^ k + (remain - 2 ^ k)}"
      "buddy_total fl' = buddy_total ?fl + (remain - 2 ^ k)" "fl' (MAX_ORDER - 1) = ?fl (MAX_ORDER - 1)"
      by blast
    have run: "carve pos remain s = carve (pos + 2 ^ k) (remain - 2 ^ k) ?s2"
      using False by (subst carve.simps) (simp add: k_def Let_def)
    have "buddy_set fl' = buddy_set fl \<union> {pos ..< pos + remain}"
      unfolding f(2) split(1) buddy_set_cons [OF k'] by blast
    moreover have "buddy_total fl' = buddy_total fl + remain"
      unfolding f(3) buddy_total_cons [OF k'] using le by simp
    ultimately show ?thesis unfolding run using f(1,4) k(1) by auto
  qed
qed

lemma buddy_alloc_none:
  assumes "buddy_inv s fl" and "\<forall>k. round_order n 1 0 \<le> k \<and> k < MAX_ORDER \<longrightarrow> fl k = []"
  shows "buddy_system_alloc_pages n s = Some (None, s)"
proof -
  have "buddy_core s fl" using assms(1) by (simp add: buddy_inv_def)
  from search_order_ok [OF this, of "round_order n 1 0"] have "search_order (round_order n 1 0) s = MAX_ORDER"
    using round_order_ok(2) [of 0 n] assms(2) by (metis le_neq_implies_less power_0 zero_le)
  then show ?thesis unfolding buddy_system_alloc_pages_def Let_def by simp
qed

section \<open>Properties\<close>

text \<open>Start-up: on a freshly initialised system \<^verbatim>\<open>default_init_memmap\<close> cuts a region of reserved
  pages into aligned, disjoint blocks that are exactly its pages, every ring, mark and count
  agreeing; but no block ever gets the largest order, since the alignment found is lowered
  by one once more, so a request for more than \<open>2 ^ 12\<close> pages fails however large the region.
\<close>

theorem buddy_boot:
  assumes "0 < n" and "n < 2 ^ 32" and "\<forall>q\<in>{base ..< base + n}. PageReserved (bpages s q)"
  shows "\<exists>s' fl. buddy_init_memmap base n (buddy_system_init s) = Some s' \<and> buddy_inv s' fl \<and>
    buddy_set fl = {base ..< base + n} \<and> buddy_system_nr_free_pages s' = n \<and>
    (\<forall>m > 2 ^ 12. buddy_system_alloc_pages m s' = Some (None, s'))"
proof -
  let ?s0 = "buddy_system_init s" and ?fl0 = "\<lambda>_. [] :: nat list"
  note i = buddy_system_init_inv [of s]
  define s1 where "s1 = ?s0\<lparr>bpages := (\<lambda>q. if q \<in> {base ..< base + n}
      then set_page_ref 0 ((bpages ?s0 q)\<lparr>flags := 0, property := 0\<rparr>) else bpages ?s0 q)\<rparr>"
  have r: "reset_pages base n ?s0 = Some s1"
    unfolding s1_def using reset_pages_ok [of base n ?s0] assms(3) i(3) by simp
  have z: "buddy_blocks ?fl0 = {}" "buddy_set ?fl0 = {}" "buddy_total ?fl0 = 0"
    by (simp_all add: buddy_blocks_def buddy_set_def buddy_total_def)
  have "buddy_inv s1 ?fl0"
    using buddy_core_cong [OF i(1), of s1] i(2) by (simp add: buddy_inv_def z s1_def)
  from carve_ok [OF this, of base n] obtain fl where f: "buddy_inv (carve base n s1) fl"
    "buddy_set fl = {base ..< base + n}" "buddy_total fl = n" "fl (MAX_ORDER - 1) = []"
    using assms(2) by (auto simp: z)
  have "buddy_system_alloc_pages m (carve base n s1) = Some (None, carve base n s1)" if m: "m > 2 ^ 12" for m
  proof (rule buddy_alloc_none [OF f(1)], intro allI impI)
    fix k assume k: "round_order m 1 0 \<le> k \<and> k < MAX_ORDER"
    have "\<not> round_order m 1 0 \<le> 12"
    proof
      assume a: "round_order m 1 0 \<le> 12"
      then have "m \<le> 2 ^ round_order m 1 0" using round_order_ok(3) [of 0 m] by simp
      also have "\<dots> \<le> (2::nat) ^ 12" using a by (rule power_increasing) simp
      finally show False using m by simp
    qed
    then have "k = MAX_ORDER - 1" using k by linarith
    then show "fl k = []" using f(4) by simp
  qed
  then show ?thesis
    using assms(1) f by (auto simp: buddy_init_memmap_def r buddy_system_nr_free_pages_def buddy_inv_def)
qed

text \<open>
  C30: Allocation rounds the request up to the least power of two \<open>2 ^ t\<close> that holds it, takes
  the block at the head of the smallest order \<open>k\<close> from \<open>t\<close> on that has one and splits it: the
  run handed out is aligned to its size, exactly its \<open>2 ^ t\<close> pages leave the free set, the upper
  halves go to the orders between and the invariant holds again.  \<^verbatim>\<open>NULL\<close> is returned,
  changing nothing, exactly when every order from \<open>t\<close> on is empty.
\<close>

theorem buddy_alloc_exact:
  assumes "buddy_inv s fl"
  shows "\<exists>t. (t < MAX_ORDER \<longrightarrow> n \<le> 2 ^ t) \<and> (\<forall>j<t. 2 ^ j < n) \<and>
    ((\<exists>k p r s'. t \<le> k \<and> k < MAX_ORDER \<and> (\<forall>j. t \<le> j \<and> j < k \<longrightarrow> fl j = []) \<and> fl k = p # r \<and>
        buddy_system_alloc_pages n s = Some (Some p, s') \<and>
        buddy_inv s' (\<lambda>j. if j = k then r else if t \<le> j \<and> j < k then [p + 2 ^ j] else fl j) \<and>
        2 ^ t dvd p \<and> {p ..< p + 2 ^ t} \<subseteq> buddy_set fl \<and>
        buddy_set (\<lambda>j. if j = k then r else if t \<le> j \<and> j < k then [p + 2 ^ j] else fl j) =
          buddy_set fl - {p ..< p + 2 ^ t} \<and>
        buddy_system_nr_free_pages s' + 2 ^ t = buddy_system_nr_free_pages s)
     \<or> ((\<forall>k. t \<le> k \<and> k < MAX_ORDER \<longrightarrow> fl k = []) \<and> buddy_system_alloc_pages n s = Some (None, s)))"
proof -
  define t where "t = round_order n 1 0"
  define k where "k = search_order t s"
  have tn: "t < MAX_ORDER \<longrightarrow> n \<le> 2 ^ t" "\<forall>j<t. 2 ^ j < n" "t \<le> MAX_ORDER"
    using round_order_ok(2,3) [of 0 n] round_order_ok(4) [of 0 _ n] by (auto simp: t_def)
  have c: "buddy_core s fl" using assms by (simp add: buddy_inv_def)
  note fo = search_order_ok [OF c tn(3), folded k_def]
  show ?thesis
  proof (cases "k < MAX_ORDER")
    case False
    then have "k = MAX_ORDER" using fo by simp
    then have e: "\<forall>j. t \<le> j \<and> j < MAX_ORDER \<longrightarrow> fl j = []" using fo by simp
    from buddy_alloc_none [OF assms e [unfolded t_def]] e tn show ?thesis by blast
  next
    case True
    then obtain p r where pr: "fl k = p # r" using fo by (cases "fl k") auto
    have e: "split_heads p t k (fl(k := r)) =
        (\<lambda>j. if j = k then r else if t \<le> j \<and> j < k then [p + 2 ^ j] else fl j)"
      using fo by (auto simp: split_heads_def fun_eq_iff)
    have "t \<le> k" using fo by simp
    from buddy_alloc_some [OF assms True this pr t_def [symmetric] k_def [symmetric]] obtain s' where
      "buddy_system_alloc_pages n s = Some (Some p, s')" "buddy_inv s' (split_heads p t k (fl(k := r)))"
      "{p ..< p + 2 ^ t} \<subseteq> buddy_set fl"
      "buddy_set (split_heads p t k (fl(k := r))) = buddy_set fl - {p ..< p + 2 ^ t}"
      "2 ^ t dvd p" "free_count s' + 2 ^ t = free_count s" by blast
    then show ?thesis using True pr fo tn unfolding e buddy_system_nr_free_pages_def by blast
  qed
qed

text \<open>Freeing a block whose buddy is not free puts exactly its rounded pages back, at the head
  of the ring of its order, and keeps the invariant and the count.
\<close>

theorem buddy_free_unmerged:
  assumes "buddy_inv s fl" and "n \<le> 2 ^ t" and "\<forall>j<t. 2 ^ j < n" and "t < MAX_ORDER"
    and "2 ^ t dvd base" and "{base ..< base + 2 ^ t} \<inter> buddy_set fl = {}"
    and "buddy_total fl + 2 ^ t < 2 ^ 32"
    and "\<not> (get_buddy base t < npage \<and> PageProperty (bpages s (get_buddy base t)) \<and>
           property (bpages s (get_buddy base t)) = 2 ^ t)"
  shows "buddy_inv (buddy_system_free_pages npage base n s) (fl(t := base # fl t))"
    and "buddy_set (fl(t := base # fl t)) = buddy_set fl \<union> {base ..< base + 2 ^ t}"
proof -
  have "round_order n 1 0 = t"
  proof (rule ccontr)
    assume "round_order n 1 0 \<noteq> t"
    then consider "round_order n 1 0 < t" | "t < round_order n 1 0" by linarith
    then show False
    proof cases
      case 1
      then show False using assms(3,4) round_order_ok(3) [of 0 n] by fastforce
    next
      case 2
      then show False using assms(2) round_order_ok(4) [of 0 t n] by simp
    qed
  qed
  moreover have "merge_up npage base t s = (t, put_block base t s)"
    using assms(4,8) by (subst merge_up.simps) (auto simp: Let_def)
  moreover note pb = put_block_core [OF _ assms(4,5,6,7), of s]
  moreover have "buddy_core s fl" "free_count s = buddy_total fl" using assms(1) by (simp_all add: buddy_inv_def)
  ultimately show "buddy_inv (buddy_system_free_pages npage base n s) (fl(t := base # fl t))"
    using assms(7) buddy_core_cong [OF pb(1), of "buddy_system_free_pages npage base n s"]
    by (simp add: buddy_inv_def buddy_system_free_pages_def buddy_total_cons [OF assms(4)] u32_id)
  show "buddy_set (fl(t := base # fl t)) = buddy_set fl \<union> {base ..< base + 2 ^ t}"
    using buddy_set_cons [OF assms(4)] by (simp add: Un_commute)
qed

section \<open>Freeing above the buddy\<close>

text \<open>A run of requests; the results are those of the allocations, in order.\<close>

datatype buddy_req = Take nat | Give nat nat

fun buddy_run :: "nat \<Rightarrow> buddy_req list \<Rightarrow> buddy_sys \<Rightarrow> (nat option list \<times> buddy_sys) option" where
  "buddy_run npage [] s = Some ([], s)"
| "buddy_run npage (Take n # rs) s = do {
     (p, s) \<leftarrow> buddy_system_alloc_pages n s;
     (ps, s) \<leftarrow> buddy_run npage rs s;
     Some (p # ps, s)
   }"
| "buddy_run npage (Give p n # rs) s = buddy_run npage rs (buddy_system_free_pages npage p n s)"

text \<open>Four reserved pages; the state once they are one block of order 2.\<close>

definition page_of :: "bool \<Rightarrow> nat \<Rightarrow> page" where
  "page_of b k = \<lparr>ref = 0, flags = (if b then 2 else 0), property = k\<rparr>"

lemma page_of_simps:
  "PageProperty (page_of b k) = b" "SetPageProperty (page_of b k) = page_of True k"
  "ClearPageProperty (page_of b k) = page_of False k" "(page_of b k)\<lparr>property := j\<rparr> = page_of b j"
  "property (page_of b k) = k"
  by (auto simp: page_of_def PageProperty_def SetPageProperty_def ClearPageProperty_def)
     (auto simp: bit_simps set_bit_eq unset_bit_eq_and_not)

definition buddy_reserved :: buddy_sys where
  "buddy_reserved = \<lparr>bpages = (\<lambda>_. SetPageReserved \<lparr>ref = 0, flags = 0, property = 0\<rparr>),
     blinks = \<lparr>nxt = (\<lambda>x. x), prv = (\<lambda>x. x)\<rparr>, area_free = (\<lambda>_. 0), free_count = 0\<rparr>"

definition four_pages :: buddy_sys where
  "four_pages = \<lparr>bpages = (\<lambda>_. SetPageReserved (page_of False 0))
       (0 := page_of True 4, 1 := page_of False 0, 2 := page_of False 0, 3 := page_of False 0),
     blinks = \<lparr>nxt = (\<lambda>x. x)(OrderHead 2 := BLink 0, BLink 0 := OrderHead 2),
               prv = (\<lambda>x. x)(OrderHead 2 := BLink 0, BLink 0 := OrderHead 2)\<rparr>,
     area_free = (\<lambda>_. 0)(2 := 1), free_count = 4\<rparr>"

lemma init_lone:
  assumes "blinks s = \<lparr>nxt = (\<lambda>x. x), prv = (\<lambda>x. x)\<rparr>" and "area_free s = (\<lambda>_. 0)"
  shows "init_areas i m s = s"
proof (induction m arbitrary: i)
  case (Suc m)
  have "upd_area i (\<lambda>_. 0) (upd_blinks (list_init (OrderHead i)) s) = s"
    by (rule buddy_sys.equality)
       (simp_all add: assms upd_area_def upd_blinks_def list_init_def set_next_def set_prev_def fun_upd_idem)
  then show ?case using Suc by simp
qed simp

lemma orders_of_four: "use_order 0 4 = 2" "round_order (Suc 0) (Suc 0) 0 = 0"
  by (simp_all add: use_order_def round_order.simps size_order.simps align_order.simps Let_def)

lemma carve_four:
  "carve 0 4 s = (put_block 0 2 s)\<lparr>free_count := u32 (free_count (put_block 0 2 s) + 4)\<rparr>"
  by (simp add: carve.simps [of 0 4] carve.simps [of _ 0] orders_of_four Let_def)

lemma four_pages_boot: "buddy_init_memmap 0 4 (buddy_system_init buddy_reserved) = Some four_pages"
proof -
  have i: "buddy_system_init buddy_reserved = buddy_reserved"
    unfolding buddy_system_init_def by (subst init_lone) (simp_all add: buddy_reserved_def)
  let ?s = "buddy_reserved\<lparr>bpages := (\<lambda>q. if q \<in> {0 ..< 0 + 4}
      then set_page_ref 0 ((bpages buddy_reserved q)\<lparr>flags := 0, property := 0\<rparr>)
      else bpages buddy_reserved q)\<rparr>"
  have r: "reset_pages 0 4 buddy_reserved = Some ?s"
    by (rule reset_pages_ok) (simp add: buddy_reserved_def)
  have "put_block 0 2 ?s = four_pages\<lparr>free_count := 0\<rparr>"
    by (auto simp: put_block_def four_pages_def Let_def buddy_reserved_def klist_ops set_next_def
        set_prev_def upd_bpage_def upd_blinks_def upd_area_def u32_def page_of_def fun_eq_iff
        set_page_ref_def SetPageProperty_def set_bit_eq)
  then show ?thesis
    by (simp add: buddy_init_memmap_def i r carve_four four_pages_def u32_def)
qed

text \<open>
  Rules to run the operations on states given by their fields: one step of each loop, applied
  only once its condition is decided.
\<close>

lemma get_buddy_four:
  "get_buddy 0 0 = 1" "get_buddy (Suc 0) 0 = 0" "get_buddy 2 0 = 3" "get_buddy 3 0 = 2"
  "get_buddy 0 (Suc 0) = 2" "get_buddy 2 (Suc 0) = 0" "get_buddy 0 2 = 4"
  by (simp_all add: get_buddy_def)

lemma merge_up_step:
  "order < MAX_ORDER \<Longrightarrow> merge_up npage base order s =
     (if get_buddy base order < npage \<and> PageProperty (bpages s (get_buddy base order)) \<and>
         property (bpages s (get_buddy base order)) = 2 ^ order
      then merge_up npage (min base (get_buddy base order)) (order + 1)
             (upd_area order (\<lambda>c. u32_sub c 1)
               (upd_blinks (list_del (BLink (max base (get_buddy base order)))) s))
      else (order, put_block base order s))"
  by (subst merge_up.simps) (auto simp: Let_def min_def max_def)

lemma split_down_step:
  "k \<le> t \<Longrightarrow> split_down p t k s = s"
  "t < k \<Longrightarrow> split_down p t k s = split_down p t (k - 1) (put_block (p + 2 ^ (k - 1)) (k - 1) s)"
  by (cases k; simp)+

lemma search_order_step:
  "k < MAX_ORDER \<Longrightarrow> \<not> list_empty (OrderHead k) (blinks s) \<Longrightarrow> search_order k s = k"
  "k < MAX_ORDER \<Longrightarrow> list_empty (OrderHead k) (blinks s) \<Longrightarrow> search_order k s = search_order (k + 1) s"
  by (subst search_order.simps, simp)+

lemma u32_sub_small:
  "b \<le> a \<Longrightarrow> a \<le> 8 \<Longrightarrow> u32_sub a b = a - b" "u32_sub 0 (Suc 0) = 4294967295"
  "u32_sub 4294967295 (Suc 0) = 4294967294"
  by (simp_all add: u32_sub_id) (simp_all add: u32_sub_def)

lemma bind_arg_cong: "m = m' \<Longrightarrow> Option.bind m f = Option.bind m' f"
  by simp

lemmas buddy_eval = split_down_step search_order_step merge_up_step get_buddy_four u32_sub_small
  page_of_simps orders_of_four put_block_def buddy_system_alloc_pages_def buddy_system_free_pages_def
  klist_ops set_next_def set_prev_def u32_def Let_def upd_bpage_def upd_blinks_def upd_area_def
  numeral_2_eq_2 [symmetric]

lemmas buddy_weak = let_weak_cong bind_arg_cong prod.case_cong_weak option.case_cong_weak
  bnode.case_cong_weak

text \<open>
  Pages 0 to 3 taken one by one and freed in the order 0, 2, 1, 3: page 0 ends up as the free
  block of order 2, but it is also what the heads of orders 0 and 1 point at.
\<close>

definition crossed_rings :: buddy_sys where
  "crossed_rings = \<lparr>bpages = (\<lambda>_. SetPageReserved (page_of False 0))
       (Suc 0 := page_of False 0, 3 := page_of False 0, 2 := page_of True (Suc 0), 0 := page_of True 4),
     blinks = \<lparr>nxt = (\<lambda>x. x)(BLink (Suc 0) := OrderHead 0, BLink 3 := OrderHead 0,
                 BLink 2 := BLink 0, OrderHead (Suc 0) := BLink 0, OrderHead 0 := BLink 0,
                 OrderHead 2 := BLink 0, BLink 0 := OrderHead 2),
               prv = (\<lambda>x. x)(BLink (Suc 0) := OrderHead 0, BLink 3 := OrderHead 0,
                 BLink 2 := OrderHead 0, OrderHead (Suc 0) := BLink 0, OrderHead 0 := OrderHead 0,
                 OrderHead 2 := BLink 0, BLink 0 := OrderHead 2)\<rparr>,
     area_free = (\<lambda>_. 0)(0 := 0, Suc 0 := 0, 2 := Suc 0), free_count = 8\<rparr>"

lemma run_to_crossed_rings:
  "buddy_run 4 [Take 1, Take 1, Take 1, Take 1, Give 0 1, Give 2 1, Give 1 1, Give 3 1] four_pages =
     Some ([Some 0, Some 1, Some 2, Some 3], crossed_rings)"
  by (simp add: four_pages_def crossed_rings_def buddy_eval del: split_down.simps cong: buddy_weak)

lemma run_from_crossed_rings: "\<exists>s'. buddy_run 4 [Take 1, Take 1] crossed_rings = Some ([Some 0, Some 0], s')"
  by (simp add: crossed_rings_def buddy_eval del: split_down.simps cong: buddy_weak)

text \<open>
  C31: Freeing a block above its free buddy unlinks the freed block, which is in no ring, instead
  of the buddy: on four pages, taken one by one and given back in the order 0, 2, 1, 3, the
  count of free pages is 8 afterwards and the next two requests for one page both get page 0.
\<close>

theorem buddy_free_double_allocation:
  "\<exists>s s1 s'. buddy_init_memmap 0 4 (buddy_system_init buddy_reserved) = Some s \<and>
     buddy_run 4 [Take 1, Take 1, Take 1, Take 1, Give 0 1, Give 2 1, Give 1 1, Give 3 1] s =
       Some ([Some 0, Some 1, Some 2, Some 3], s1) \<and>
     buddy_system_nr_free_pages s1 = 8 \<and>
     buddy_run 4 [Take 1, Take 1] s1 = Some ([Some 0, Some 0], s')"
  using four_pages_boot run_to_crossed_rings run_from_crossed_rings
  by (simp add: buddy_system_nr_free_pages_def crossed_rings_def)

section \<open>Witnesses\<close>

lemma buddy_reserved_pages: "PageReserved (bpages buddy_reserved q)"
  by (simp add: buddy_reserved_def)

lemma four_pages_inv: "buddy_inv four_pages ((\<lambda>_. [])(2 := [0]))"
proof -
  have "buddy_blocks ((\<lambda>_. [])(2 := [0])) = {(2, 0)}"
    by (auto simp: buddy_blocks_def split: if_splits)
  moreover have "buddy_total ((\<lambda>_. [])(2 := [0])) = 4"
    using buddy_total_cons [of 2 "\<lambda>_. []" 0] by (simp add: buddy_total_def)
  moreover have "dlist (blinks four_pages) (OrderHead 2) [BLink 0]" "area_free four_pages 2 = 1"
    "\<forall>k. k \<noteq> 2 \<longrightarrow> dlist (blinks four_pages) (OrderHead k) [] \<and> area_free four_pages k = 0"
    by (simp_all add: four_pages_def dlist_def)
  moreover have "PageProperty (bpages four_pages 0)" "property (bpages four_pages 0) = 4"
    "free_count four_pages = 4"
    by (simp_all add: four_pages_def page_of_simps)
  ultimately show ?thesis by (simp add: buddy_inv_def buddy_core_def disjoint_family_on_def)
qed

theorem buddy_boot_witness:
  "\<exists>s' fl. buddy_init_memmap 3 9 (buddy_system_init buddy_reserved) = Some s' \<and> buddy_inv s' fl \<and>
    buddy_set fl = {3 ..< 12} \<and> buddy_system_nr_free_pages s' = 9 \<and>
    buddy_system_alloc_pages 5000 s' = Some (None, s')"
  using buddy_boot [of 9 3 buddy_reserved] buddy_reserved_pages by auto

theorem buddy_alloc_exact_witness:
  "\<exists>p s'. buddy_system_alloc_pages 3 four_pages = Some (Some p, s') \<and> buddy_system_nr_free_pages s' = 0"
  using buddy_alloc_exact [OF four_pages_inv, of 3]
proof (elim exE conjE disjE)
  fix t k p r s'
  assume t: "t < MAX_ORDER \<longrightarrow> 3 \<le> (2::nat) ^ t" "\<forall>j<t. 2 ^ j < (3::nat)"
    and run: "buddy_system_alloc_pages 3 four_pages = Some (Some p, s')"
      "buddy_system_nr_free_pages s' + 2 ^ t = buddy_system_nr_free_pages four_pages"
  have "\<not> 2 < t" using t(2) by auto
  moreover have "t \<noteq> 0" by (rule notI) (use t(1) in simp)
  moreover have "t \<noteq> 1" by (rule notI) (use t(1) in simp)
  ultimately have "t = 2" by linarith
  moreover have "buddy_system_nr_free_pages four_pages = 2 ^ 2"
    by (simp add: buddy_system_nr_free_pages_def four_pages_def)
  ultimately show ?thesis using run by simp
next
  fix t
  assume t: "\<forall>j<t. 2 ^ j < (3::nat)"
    and empty: "\<forall>k. t \<le> k \<and> k < MAX_ORDER \<longrightarrow> ((\<lambda>_. [])(2 := [0])) k = ([] :: nat list)"
  have "\<not> 2 < t" using t by auto
  then show ?thesis using empty [rule_format, of 2] by simp
qed

end
