(* ===== verification/Sched.thy ===== *)
theory Sched
  imports KList
begin

text \<open>
  The process control block of \<^verbatim>\<open>kern/process/proc.h\<close>, the round-robin class of
  \<^verbatim>\<open>kern/schedule/default_sched.c\<close> and the scheduler core and timers of
  \<^verbatim>\<open>kern/schedule/sched.c\<close> (lab 8).  A \<^verbatim>\<open>struct proc_struct *\<close> is an address (a natural number), the
  embedded list nodes of all kernel objects are addresses of one link store.  The single run
  queue \<^verbatim>\<open>__rq\<close> is part of the state; \<^verbatim>\<open>proc->rq\<close> therefore only says whether the process has been
  put on it.  Every function runs between \<^verbatim>\<open>local_intr_save\<close> and \<^verbatim>\<open>local_intr_restore\<close>, so it is one
  atomic step; the effect of \<^verbatim>\<open>proc_run\<close> on the C state is the change of \<^verbatim>\<open>current\<close>.
\<close>

section \<open>State\<close>

datatype proc_state = PROC_UNINIT | PROC_SLEEPING | PROC_RUNNABLE | PROC_ZOMBIE

record proc_struct =
  state :: proc_state
  pid :: int
  runs :: int
  need_resched :: bool
  parent :: "nat option"
  mm :: "nat option"
  pflags :: "32 word"
  exit_code :: int
  wait_state :: "32 word"
  cptr :: "nat option"
  yptr :: "nat option"
  optr :: "nat option"
  on_rq :: bool
  time_slice :: int
  kstack :: nat
  filesp :: "nat option"

datatype knode =
    RunHead | RunLink nat
  | TimerHead | TimerLink nat
  | WaitHead nat | WaitLink nat
  | ProcHead | ListLink nat
  | HashHead nat | HashLink nat

record timer =
  expires :: nat
  tproc :: "nat option"

record wait =
  wproc :: "nat option"
  wakeup_flags :: "32 word"
  wqueue :: "nat option"

record kernel =
  procs :: "nat \<Rightarrow> proc_struct"
  klinks :: "knode list_entry"
  current :: nat
  idleproc :: nat
  proc_num :: nat
  max_time_slice :: int
  timers :: "nat \<Rightarrow> timer"
  waits :: "nat \<Rightarrow> wait"
  sems :: "nat \<Rightarrow> int"

abbreviation (input) WT_INTERRUPTED :: "32 word" where "WT_INTERRUPTED \<equiv> 0x80000000"
abbreviation (input) WT_CHILD :: "32 word" where "WT_CHILD \<equiv> 0x80000001"
abbreviation (input) WT_KSEM :: "32 word" where "WT_KSEM \<equiv> 0x100"
abbreviation (input) WT_TIMER :: "32 word" where "WT_TIMER \<equiv> 0x80000002"
abbreviation (input) WT_KBD :: "32 word" where "WT_KBD \<equiv> 0x80000004"
abbreviation (input) MAX_TIME_SLICE :: int where "MAX_TIME_SLICE \<equiv> 5"

definition upd_proc :: "nat \<Rightarrow> (proc_struct \<Rightarrow> proc_struct) \<Rightarrow> kernel \<Rightarrow> kernel" where
  "upd_proc p f k = k\<lparr>procs := (procs k)(p := f (procs k p))\<rparr>"

definition upd_klinks :: "(knode list_entry \<Rightarrow> knode list_entry) \<Rightarrow> kernel \<Rightarrow> kernel" where
  "upd_klinks f k = k\<lparr>klinks := f (klinks k)\<rparr>"

definition upd_timer :: "nat \<Rightarrow> (timer \<Rightarrow> timer) \<Rightarrow> kernel \<Rightarrow> kernel" where
  "upd_timer t f k = k\<lparr>timers := (timers k)(t := f (timers k t))\<rparr>"

lemma upd_proc_sel [simp]:
  "procs (upd_proc p f k) = (procs k)(p := f (procs k p))" "klinks (upd_proc p f k) = klinks k"
  "current (upd_proc p f k) = current k" "idleproc (upd_proc p f k) = idleproc k"
  "proc_num (upd_proc p f k) = proc_num k" "max_time_slice (upd_proc p f k) = max_time_slice k"
  "timers (upd_proc p f k) = timers k" "waits (upd_proc p f k) = waits k" "sems (upd_proc p f k) = sems k"
  by (simp_all add: upd_proc_def)

lemma upd_klinks_sel [simp]:
  "procs (upd_klinks f k) = procs k" "klinks (upd_klinks f k) = f (klinks k)"
  "current (upd_klinks f k) = current k" "idleproc (upd_klinks f k) = idleproc k"
  "proc_num (upd_klinks f k) = proc_num k" "max_time_slice (upd_klinks f k) = max_time_slice k"
  "timers (upd_klinks f k) = timers k" "waits (upd_klinks f k) = waits k" "sems (upd_klinks f k) = sems k"
  by (simp_all add: upd_klinks_def)

lemma upd_timer_sel [simp]:
  "procs (upd_timer t f k) = procs k" "klinks (upd_timer t f k) = klinks k"
  "current (upd_timer t f k) = current k" "idleproc (upd_timer t f k) = idleproc k"
  "proc_num (upd_timer t f k) = proc_num k" "max_time_slice (upd_timer t f k) = max_time_slice k"
  "timers (upd_timer t f k) = (timers k)(t := f (timers k t))" "waits (upd_timer t f k) = waits k" "sems (upd_timer t f k) = sems k"
  by (simp_all add: upd_timer_def)

section \<open>The round-robin class\<close>

definition RR_init :: "kernel \<Rightarrow> kernel" where
  "RR_init k = (upd_klinks (list_init RunHead) k)\<lparr>proc_num := 0\<rparr>"

definition refill :: "int \<Rightarrow> proc_struct \<Rightarrow> proc_struct" where
  "refill mx g = (if time_slice g = 0 \<or> time_slice g > mx then g\<lparr>time_slice := mx\<rparr> else g)"

definition RR_enqueue :: "nat \<Rightarrow> kernel \<Rightarrow> kernel option" where
  "RR_enqueue p k = do {
     kassert (list_empty (RunLink p) (klinks k));
     let k = upd_klinks (list_add_before RunHead (RunLink p)) k;
     let k = upd_proc p (refill (max_time_slice k)) k;
     let k = upd_proc p (\<lambda>g. g\<lparr>on_rq := True\<rparr>) k;
     Some (k\<lparr>proc_num := u32 (proc_num k + 1)\<rparr>)
   }"

definition RR_dequeue :: "nat \<Rightarrow> kernel \<Rightarrow> kernel option" where
  "RR_dequeue p k = do {
     kassert (\<not> list_empty (RunLink p) (klinks k) \<and> on_rq (procs k p));
     let k = upd_klinks (list_del_init (RunLink p)) k;
     Some (k\<lparr>proc_num := u32_sub (proc_num k) 1\<rparr>)
   }"

definition RR_pick_next :: "kernel \<Rightarrow> nat option" where
  "RR_pick_next k =
     (case list_next RunHead (klinks k) of RunLink p \<Rightarrow> Some p | _ \<Rightarrow> None)"

definition tick_slice :: "proc_struct \<Rightarrow> proc_struct" where
  "tick_slice g =
     (let g = (if time_slice g > 0 then g\<lparr>time_slice := time_slice g - 1\<rparr> else g)
      in if time_slice g = 0 then g\<lparr>need_resched := True\<rparr> else g)"

definition RR_proc_tick :: "nat \<Rightarrow> kernel \<Rightarrow> kernel" where
  "RR_proc_tick p k = upd_proc p tick_slice k"

section \<open>The scheduler core\<close>

definition sched_class_enqueue :: "nat \<Rightarrow> kernel \<Rightarrow> kernel option" where
  "sched_class_enqueue p k = (if p \<noteq> idleproc k then RR_enqueue p k else Some k)"

definition sched_class_dequeue :: "nat \<Rightarrow> kernel \<Rightarrow> kernel option" where
  "sched_class_dequeue p k = RR_dequeue p k"

definition sched_class_pick_next :: "kernel \<Rightarrow> nat option" where
  "sched_class_pick_next k = RR_pick_next k"

definition sched_class_proc_tick :: "nat \<Rightarrow> kernel \<Rightarrow> kernel" where
  "sched_class_proc_tick p k =
     (if p \<noteq> idleproc k then RR_proc_tick p k else upd_proc p (\<lambda>g. g\<lparr>need_resched := True\<rparr>) k)"

definition sched_init :: "kernel \<Rightarrow> kernel" where
  "sched_init k = RR_init ((upd_klinks (list_init TimerHead) k)\<lparr>max_time_slice := MAX_TIME_SLICE\<rparr>)"

definition wakeup_proc :: "nat \<Rightarrow> kernel \<Rightarrow> kernel option" where
  "wakeup_proc p k = do {
     kassert (state (procs k p) \<noteq> PROC_ZOMBIE);
     (if state (procs k p) \<noteq> PROC_RUNNABLE
      then let k = upd_proc p (\<lambda>g. g\<lparr>state := PROC_RUNNABLE\<rparr>) k;
               k = upd_proc p (\<lambda>g. g\<lparr>wait_state := 0\<rparr>) k
           in (if p \<noteq> current k then sched_class_enqueue p k else Some k)
      else Some k)
   }"

text \<open>\<^verbatim>\<open>proc_run\<close> (\<^verbatim>\<open>kern/process/proc.c\<close>); the page-table register and the register context are not state
  of the model.\<close>

definition proc_run :: "nat \<Rightarrow> kernel \<Rightarrow> kernel" where
  "proc_run p k = (if p \<noteq> current k then k\<lparr>current := p\<rparr> else k)"

definition schedule :: "kernel \<Rightarrow> kernel option" where
  "schedule k = do {
     let k = upd_proc (current k) (\<lambda>g. g\<lparr>need_resched := False\<rparr>) k;
     k \<leftarrow> (if state (procs k (current k)) = PROC_RUNNABLE
          then sched_class_enqueue (current k) k else Some k);
     let next = sched_class_pick_next k;
     k \<leftarrow> (case next of Some p \<Rightarrow> sched_class_dequeue p k | None \<Rightarrow> Some k);
     let p = (case next of None \<Rightarrow> idleproc k | Some p \<Rightarrow> p);
     let k = upd_proc p (\<lambda>g. g\<lparr>runs := runs g + 1\<rparr>) k;
     Some (if p \<noteq> current k then proc_run p k else k)
   }"

section \<open>Timers\<close>

definition timer_init :: "nat \<Rightarrow> nat option \<Rightarrow> nat \<Rightarrow> kernel \<Rightarrow> kernel" where
  "timer_init t p e k =
     upd_klinks (list_init (TimerLink t)) (upd_timer t (\<lambda>_. \<lparr>expires = u32 e, tproc = p\<rparr>) k)"

text \<open>The walk of \<^verbatim>\<open>add_timer\<close>: the node to insert before, with the two adjusted \<^verbatim>\<open>expires\<close> fields.\<close>

partial_function (option) add_timer_loop :: "nat \<Rightarrow> knode \<Rightarrow> kernel \<Rightarrow> (knode \<times> kernel) option" where
  "add_timer_loop t le k =
     (case le of
        TimerLink n \<Rightarrow>
          (if expires (timers k t) < expires (timers k n)
           then Some (le, upd_timer n (\<lambda>g. g\<lparr>expires := u32_sub (expires g) (expires (timers k t))\<rparr>) k)
           else add_timer_loop t (list_next le (klinks k))
                  (upd_timer t (\<lambda>g. g\<lparr>expires := u32_sub (expires g) (expires (timers k n))\<rparr>) k))
      | _ \<Rightarrow> Some (le, k))"

definition add_timer :: "nat \<Rightarrow> kernel \<Rightarrow> kernel option" where
  "add_timer t k = do {
     kassert (expires (timers k t) > 0 \<and> tproc (timers k t) \<noteq> None);
     kassert (list_empty (TimerLink t) (klinks k));
     (le, k) \<leftarrow> add_timer_loop t (list_next TimerHead (klinks k)) k;
     Some (upd_klinks (list_add_before le (TimerLink t)) k)
   }"

definition del_timer :: "nat \<Rightarrow> kernel \<Rightarrow> kernel" where
  "del_timer t k =
     (if \<not> list_empty (TimerLink t) (klinks k)
      then let k = (if expires (timers k t) \<noteq> 0
                    then (case list_next (TimerLink t) (klinks k) of
                            TimerLink n \<Rightarrow>
                              upd_timer n (\<lambda>g. g\<lparr>expires := u32 (expires g + expires (timers k t))\<rparr>) k
                          | _ \<Rightarrow> k)
                    else k)
           in upd_klinks (list_del_init (TimerLink t)) k
      else k)"

partial_function (option) run_timer_loop :: "nat \<Rightarrow> kernel \<Rightarrow> kernel option" where
  "run_timer_loop t k =
     (if expires (timers k t) = 0
      then Option.bind (case tproc (timers k t) of
             None \<Rightarrow> None
           | Some p \<Rightarrow>
               (if wait_state (procs k p) \<noteq> 0 \<and> wait_state (procs k p) AND WT_INTERRUPTED = 0
                then None else wakeup_proc p k))
           (\<lambda>k'. let le = list_next (TimerLink t) (klinks k); k' = del_timer t k' in
                (case le of TimerLink n \<Rightarrow> run_timer_loop n k' | _ \<Rightarrow> Some k'))
      else Some k)"

definition run_timer_list :: "kernel \<Rightarrow> kernel option" where
  "run_timer_list k = do {
     k \<leftarrow> (case list_next TimerHead (klinks k) of
            TimerLink t \<Rightarrow> do {
              kassert (expires (timers k t) \<noteq> 0);
              run_timer_loop t (upd_timer t (\<lambda>g. g\<lparr>expires := u32_sub (expires g) 1\<rparr>) k)
            }
          | _ \<Rightarrow> Some k);
     Some (sched_class_proc_tick (current k) k)
   }"

section \<open>The run queue\<close>

text \<open>
  \<open>rq_inv k ps\<close>: the ring of the run queue holds exactly the processes \<open>ps\<close>, which are
  runnable and never the idle process; every other \<^verbatim>\<open>run_link\<close> is a lone initialised node.
\<close>

definition rq_inv :: "kernel \<Rightarrow> nat list \<Rightarrow> bool" where
  "rq_inv k ps \<longleftrightarrow>
     dlist (klinks k) RunHead (map RunLink ps) \<and>
     (\<forall>p. p \<notin> set ps \<longrightarrow> list_empty (RunLink p) (klinks k)) \<and>
     proc_num k = length ps \<and>
     (\<forall>p\<in>set ps. on_rq (procs k p) \<and> state (procs k p) = PROC_RUNNABLE) \<and>
     idleproc k \<notin> set ps"

lemma rq_inv_distinct: "rq_inv k ps \<Longrightarrow> distinct ps"
  unfolding rq_inv_def by (auto dest!: dlist_distinct simp: distinct_map)

lemma rq_inv_upd_proc:
  assumes "rq_inv k ps" and "\<And>g. on_rq (f g) = on_rq g" and "p \<in> set ps \<Longrightarrow> state (f (procs k p)) = PROC_RUNNABLE"
  shows "rq_inv (upd_proc p f k) ps"
  using assms by (auto simp: rq_inv_def)

definition enqueued :: "nat \<Rightarrow> kernel \<Rightarrow> kernel" where
  "enqueued p k =
     (let k = upd_klinks (list_add_before RunHead (RunLink p)) k;
          k = upd_proc p (\<lambda>g. (refill (max_time_slice k) g)\<lparr>on_rq := True\<rparr>) k
      in k\<lparr>proc_num := proc_num k + 1\<rparr>)"

lemma refill_sel [simp]:
  "state (refill m g) = state g" "on_rq (refill m g) = on_rq g" "need_resched (refill m g) = need_resched g"
  "pid (refill m g) = pid g" "runs (refill m g) = runs g" "wait_state (refill m g) = wait_state g"
  by (simp_all add: refill_def)

lemma enqueued_sel [simp]:
  "klinks (enqueued p k) = list_add_before RunHead (RunLink p) (klinks k)"
  "procs (enqueued p k) = (procs k)(p := (refill (max_time_slice k) (procs k p))\<lparr>on_rq := True\<rparr>)"
  "current (enqueued p k) = current k" "idleproc (enqueued p k) = idleproc k"
  "proc_num (enqueued p k) = proc_num k + 1" "max_time_slice (enqueued p k) = max_time_slice k"
  "timers (enqueued p k) = timers k" "waits (enqueued p k) = waits k" "sems (enqueued p k) = sems k"
  by (simp_all add: enqueued_def Let_def)

lemma RR_enqueue_ok:
  assumes inv: "rq_inv k ps" and p: "p \<notin> set ps" "p \<noteq> idleproc k" "state (procs k p) = PROC_RUNNABLE"
    and sz: "length ps + 1 < 2 ^ 32"
  shows "RR_enqueue p k = Some (enqueued p k)" and "rq_inv (enqueued p k) (ps @ [p])"
proof -
  have d: "dlist (klinks k) RunHead (map RunLink ps)" and lone: "\<And>q. q \<notin> set ps \<Longrightarrow> list_empty (RunLink q) (klinks k)"
    and n: "proc_num k = length ps" using inv by (auto simp: rq_inv_def)
  show "RR_enqueue p k = Some (enqueued p k)"
    using lone [OF p(1)] n sz
    by (simp add: RR_enqueue_def enqueued_def Let_def upd_proc_def upd_klinks_def u32_id)
  have "dlist (list_add_before RunHead (RunLink p) (klinks k)) RunHead (map RunLink (ps @ [p]))"
    using dlist_add_before_head [OF d, of "RunLink p"] p(1) by auto
  moreover have "list_empty (RunLink q) (list_add_before RunHead (RunLink p) (klinks k))"
    if "q \<notin> set (ps @ [p])" for q
    using that lone [of q] frame_add_before_head [OF d, of "RunLink q" "RunLink p"]
    by (auto simp: list_empty_def)
  ultimately show "rq_inv (enqueued p k) (ps @ [p])"
    using inv p by (auto simp: rq_inv_def)
qed

lemma RR_dequeue_ok:
  assumes inv: "rq_inv k ps" and p: "p \<in> set ps" and sz: "length ps < 2 ^ 32"
  defines "k' \<equiv> k\<lparr>klinks := list_del_init (RunLink p) (klinks k), proc_num := length ps - 1\<rparr>"
  shows "RR_dequeue p k = Some k'" and "rq_inv k' (remove1 p ps)"
proof -
  have d: "dlist (klinks k) RunHead (map RunLink ps)" and lone: "\<And>q. q \<notin> set ps \<Longrightarrow> list_empty (RunLink q) (klinks k)"
    and n: "proc_num k = length ps" using inv by (auto simp: rq_inv_def)
  have m: "RunLink p \<in> set (map RunLink ps)" using p by simp
  have pos: "0 < length ps" using p by (auto simp: length_pos_if_in_set)
  have "u32_sub (length ps) 1 = length ps - 1" using pos sz by (intro u32_sub_id; linarith)
  then show "RR_dequeue p k = Some k'"
    using dlist_member_not_empty [OF d m] n inv p
    by (simp add: RR_dequeue_def k'_def upd_klinks_def rq_inv_def)
  have map_rem: "remove1 (RunLink p) (map RunLink ps) = map RunLink (remove1 p ps)"
    by (induction ps) auto
  have "dlist (klinks k') RunHead (map RunLink (remove1 p ps))"
    using dlist_del_init_remove1 [OF d m] unfolding map_rem by (simp add: k'_def)
  moreover have "list_empty (RunLink q) (klinks k')" if "q \<notin> set (remove1 p ps)" for q
  proof (cases "q = p")
    case True
    then show ?thesis by (simp add: k'_def list_del_init_empty)
  next
    case False
    then have "q \<notin> set ps" using that by (simp add: in_set_remove1)
    then show ?thesis using lone [of q] frame_del_init [OF d m, of "RunLink q"]
      by (auto simp: k'_def list_empty_def)
  qed
  moreover have "length (remove1 p ps) = length ps - 1" using p by (simp add: length_remove1)
  ultimately show "rq_inv k' (remove1 p ps)"
    using inv by (auto simp: rq_inv_def k'_def dest: notin_set_remove1 set_remove1_subset [THEN subsetD])
qed

lemma RR_pick_next_ok:
  assumes "rq_inv k ps"
  shows "RR_pick_next k = (case ps of [] \<Rightarrow> None | p # _ \<Rightarrow> Some p)"
  using dlist_first [of "klinks k" RunHead "map RunLink ps"] assms
  by (cases ps) (auto simp: RR_pick_next_def rq_inv_def)

section \<open>schedule\<close>

definition sched_inv :: "kernel \<Rightarrow> nat list \<Rightarrow> bool" where
  "sched_inv k ps \<longleftrightarrow> rq_inv k ps \<and> current k \<notin> set ps \<and> length ps + 1 < 2 ^ 32"

text \<open>The run queue after the outgoing process has been put back.\<close>

definition requeued :: "kernel \<Rightarrow> nat list \<Rightarrow> nat list" where
  "requeued k ps =
     (if state (procs k (current k)) = PROC_RUNNABLE \<and> current k \<noteq> idleproc k
      then ps @ [current k] else ps)"

lemma schedule_requeue:
  assumes "sched_inv k ps"
  defines "k1 \<equiv> upd_proc (current k) (\<lambda>g. g\<lparr>need_resched := False\<rparr>) k"
  shows "\<exists>k2. (if state (procs k1 (current k1)) = PROC_RUNNABLE
          then sched_class_enqueue (current k1) k1 else Some k1) = Some k2 \<and>
      rq_inv k2 (requeued k ps) \<and> current k2 = current k \<and> idleproc k2 = idleproc k \<and>
      (\<forall>p. state (procs k2 p) = state (procs k p)) \<and> (\<forall>p. runs (procs k2 p) = runs (procs k p)) \<and>
      (\<forall>p. pid (procs k2 p) = pid (procs k p)) \<and>
      \<not> need_resched (procs k2 (current k))"
proof -
  have i: "rq_inv k1 ps" unfolding k1_def
    using assms(1) by (intro rq_inv_upd_proc) (auto simp: sched_inv_def rq_inv_def)
  show ?thesis
  proof (cases "state (procs k (current k)) = PROC_RUNNABLE \<and> current k \<noteq> idleproc k")
    case True
    have e: "RR_enqueue (current k) k1 = Some (enqueued (current k) k1)"
      "rq_inv (enqueued (current k) k1) (ps @ [current k])"
      using RR_enqueue_ok [OF i, of "current k"] assms(1) True by (auto simp: k1_def sched_inv_def)
    then show ?thesis using True
      by (intro exI [of _ "enqueued (current k) k1"])
         (simp add: sched_class_enqueue_def requeued_def k1_def)
  next
    case False
    then show ?thesis using i
      by (intro exI [of _ k1]) (auto simp: sched_class_enqueue_def requeued_def k1_def)
  qed
qed

lemma schedule_ok:
  assumes inv: "sched_inv k ps"
  shows "\<exists>k'. schedule k = Some k' \<and>
      current k' = (case requeued k ps of [] \<Rightarrow> idleproc k | p # _ \<Rightarrow> p) \<and>
      sched_inv k' (tl (requeued k ps)) \<and> idleproc k' = idleproc k \<and>
      (\<forall>p. state (procs k' p) = state (procs k p)) \<and> (\<forall>p. pid (procs k' p) = pid (procs k p)) \<and>
      (\<forall>p. runs (procs k' p) = runs (procs k p) + (if p = current k' then 1 else 0))"
proof -
  let ?qs = "requeued k ps"
  from schedule_requeue [OF inv] obtain k2 where k2: "(let k = upd_proc (current k) (\<lambda>g. g\<lparr>need_resched := False\<rparr>) k in
        if state (procs k (current k)) = PROC_RUNNABLE then sched_class_enqueue (current k) k else Some k) = Some k2"
    and i2: "rq_inv k2 ?qs" and c: "current k2 = current k" "idleproc k2 = idleproc k"
    and st: "\<And>p. state (procs k2 p) = state (procs k p)" "\<And>p. runs (procs k2 p) = runs (procs k p)"
      "\<And>p. pid (procs k2 p) = pid (procs k p)"
    unfolding Let_def by blast
  have len: "length ?qs < 2 ^ 32" using inv by (auto simp: requeued_def sched_inv_def)
  define p where "p = (case ?qs of [] \<Rightarrow> idleproc k | p # _ \<Rightarrow> p)"
  obtain k3 where k3: "(case sched_class_pick_next k2 of Some p \<Rightarrow> sched_class_dequeue p k2 | None \<Rightarrow> Some k2) = Some k3"
    and i3: "rq_inv k3 (tl ?qs)" and c3: "current k3 = current k" "idleproc k3 = idleproc k" "procs k3 = procs k2"
  proof (cases ?qs)
    case Nil
    then show ?thesis using that [of k2] i2 c RR_pick_next_ok [OF i2] by (simp add: sched_class_pick_next_def)
  next
    case (Cons q qs)
    then show ?thesis
      using that RR_dequeue_ok [OF i2, of q] len c RR_pick_next_ok [OF i2]
      by (simp add: sched_class_pick_next_def sched_class_dequeue_def)
  qed
  have pk: "(case sched_class_pick_next k2 of None \<Rightarrow> idleproc k3 | Some p \<Rightarrow> p) = p"
    using RR_pick_next_ok [OF i2] c3 by (auto simp: sched_class_pick_next_def p_def split: list.splits)
  define k4 where "k4 = (upd_proc p (\<lambda>g. g\<lparr>runs := runs g + 1\<rparr>) k3)\<lparr>current := p\<rparr>"
  have run: "schedule k = Some k4"
    using k2 k3 pk c3 unfolding schedule_def
    by (auto simp: Let_def k4_def proc_run_def upd_proc_def)
  have "p \<notin> set (tl ?qs)"
    using rq_inv_distinct [OF i2] i2 c by (auto simp: p_def rq_inv_def split: list.splits)
  moreover have "rq_inv k4 (tl ?qs)"
    using i3 by (auto simp: k4_def rq_inv_def)
  ultimately have "sched_inv k4 (tl ?qs)" using len by (auto simp: sched_inv_def k4_def)
  moreover have "current k4 = p" "idleproc k4 = idleproc k" by (simp_all add: k4_def c3)
  ultimately show ?thesis using run st by (auto simp: p_def [symmetric] k4_def c3)
qed

subsection \<open>Repeated scheduling\<close>

primrec schedules :: "nat \<Rightarrow> kernel \<Rightarrow> kernel option" where
  "schedules 0 k = Some k"
| "schedules (Suc n) k = Option.bind (schedule k) (schedules n)"

lemma schedule_rotates:
  assumes "sched_inv k ps" and "state (procs k (current k)) = PROC_RUNNABLE" and "current k \<noteq> idleproc k"
  shows "\<exists>k' qs. schedule k = Some k' \<and> sched_inv k' qs \<and> current k' # qs = rotate1 (current k # ps) \<and>
      state (procs k' (current k')) = PROC_RUNNABLE \<and> current k' \<noteq> idleproc k' \<and>
      (\<forall>p. state (procs k' p) = state (procs k p)) \<and> idleproc k' = idleproc k"
proof -
  have rq: "requeued k ps = ps @ [current k]" using assms by (simp add: requeued_def)
  have run: "\<forall>p\<in>set (ps @ [current k]). state (procs k p) = PROC_RUNNABLE \<and> p \<noteq> idleproc k"
    using assms by (auto simp: sched_inv_def rq_inv_def)
  obtain q qs where q: "ps @ [current k] = q # qs" by (cases ps) auto
  from schedule_ok [OF assms(1)] obtain k' where "schedule k = Some k'" "current k' = q"
    "sched_inv k' qs" "idleproc k' = idleproc k" "\<forall>p. state (procs k' p) = state (procs k p)"
    unfolding rq q by auto
  then show ?thesis using run q by (intro exI [of _ k'] exI [of _ qs]) auto
qed

lemma schedules_rotate:
  assumes "sched_inv k ps" and "state (procs k (current k)) = PROC_RUNNABLE" and "current k \<noteq> idleproc k"
  shows "\<exists>k' qs. schedules n k = Some k' \<and> sched_inv k' qs \<and> current k' # qs = rotate n (current k # ps)"
  using assms
proof (induction n arbitrary: k ps)
  case 0
  then show ?case by auto
next
  case (Suc n)
  from schedule_rotates [OF Suc.prems] obtain k1 qs1 where s1: "schedule k = Some k1" "sched_inv k1 qs1"
    "current k1 # qs1 = rotate1 (current k # ps)" "state (procs k1 (current k1)) = PROC_RUNNABLE"
    "current k1 \<noteq> idleproc k1" by blast
  have "rotate (Suc n) (current k # ps) = rotate n (rotate1 (current k # ps))"
    by (simp only: rotate_Suc rotate1_rotate_swap)
  then show ?case using Suc.IH [OF s1(2,4,5)] s1 by auto
qed

subsection \<open>wakeup\<close>

definition woken :: "nat \<Rightarrow> kernel \<Rightarrow> kernel" where
  "woken p k = upd_proc p (\<lambda>g. g\<lparr>state := PROC_RUNNABLE, wait_state := 0\<rparr>) k"

lemma wakeup_proc_cases:
  "wakeup_proc p k =
     (if state (procs k p) = PROC_ZOMBIE then None
      else if state (procs k p) = PROC_RUNNABLE then Some k
      else if p = current k \<or> p = idleproc k then Some (woken p k)
      else RR_enqueue p (woken p k))"
  by (auto simp: wakeup_proc_def woken_def sched_class_enqueue_def upd_proc_def Let_def)

lemma wakeup_proc_ok:
  assumes inv: "sched_inv k ps" and z: "state (procs k p) \<noteq> PROC_ZOMBIE" and sz: "length ps + 2 < 2 ^ 32"
  shows "\<exists>k'. wakeup_proc p k = Some k' \<and> current k' = current k \<and> idleproc k' = idleproc k \<and>
      state (procs k' p) = PROC_RUNNABLE \<and> (\<forall>q. q \<noteq> p \<longrightarrow> procs k' q = procs k q) \<and>
      timers k' = timers k \<and> waits k' = waits k \<and>
      sched_inv k' (if state (procs k p) = PROC_RUNNABLE \<or> p = current k \<or> p = idleproc k
                    then ps else ps @ [p])"
proof (cases "state (procs k p) = PROC_RUNNABLE")
  case True
  then show ?thesis using inv by (auto simp: wakeup_proc_cases)
next
  case False
  then have np: "p \<notin> set ps" using inv by (auto simp: sched_inv_def rq_inv_def)
  have w: "rq_inv (woken p k) ps" unfolding woken_def
    using inv np by (intro rq_inv_upd_proc) (auto simp: sched_inv_def)
  show ?thesis
  proof (cases "p = current k \<or> p = idleproc k")
    case True
    then show ?thesis using False z w inv by (auto simp: wakeup_proc_cases sched_inv_def woken_def)
  next
    case out: False
    have e: "RR_enqueue p (woken p k) = Some (enqueued p (woken p k))"
      "rq_inv (enqueued p (woken p k)) (ps @ [p])"
      using RR_enqueue_ok [OF w, of p] np out sz by (auto simp: woken_def)
    then show ?thesis using False z out inv sz np
      by (auto simp: wakeup_proc_cases sched_inv_def woken_def)
  qed
qed

subsection \<open>Ticks\<close>

lemma tick_slice_iter:
  assumes "0 \<le> time_slice g" and "\<not> need_resched g" and "int n \<le> time_slice g" and "0 < time_slice g"
  shows "time_slice ((tick_slice ^^ n) g) = time_slice g - int n \<and>
         need_resched ((tick_slice ^^ n) g) = (int n = time_slice g)"
  using assms(3)
proof (induction n)
  case 0
  then show ?case using assms by simp
next
  case (Suc n)
  then show ?case by (auto simp: tick_slice_def Let_def)
qed

section \<open>The timer list\<close>

text \<open>
  Each node stores the ticks after its predecessor; \<open>due\<close> gives the ticks from now.
\<close>

fun sums :: "nat \<Rightarrow> nat list \<Rightarrow> nat list" where
  "sums a [] = []"
| "sums a (e # es) = (a + e) # sums (a + e) es"

definition due :: "kernel \<Rightarrow> nat list \<Rightarrow> nat list" where
  "due k ts = sums 0 (map (\<lambda>t. expires (timers k t)) ts)"

definition timers_inv :: "kernel \<Rightarrow> nat list \<Rightarrow> bool" where
  "timers_inv k ts \<longleftrightarrow>
     dlist (klinks k) TimerHead (map TimerLink ts) \<and>
     (\<forall>t. t \<notin> set ts \<longrightarrow> list_empty (TimerLink t) (klinks k)) \<and>
     (\<forall>t\<in>set ts. tproc (timers k t) \<noteq> None \<and> expires (timers k t) < 2 ^ 32)"

lemma sums_append: "sums a (xs @ ys) = sums a xs @ sums (a + sum_list xs) ys"
  by (induction xs arbitrary: a) (auto simp: add.assoc)

lemma length_sums [simp]: "length (sums a es) = length es"
  by (induction es arbitrary: a) auto

lemma sums_ge: "x \<in> set (sums a es) \<Longrightarrow> a \<le> x"
  by (induction es arbitrary: a) fastforce+

lemma sums_le: "x \<in> set (sums a es) \<Longrightarrow> x \<le> a + sum_list es"
  by (induction es arbitrary: a) fastforce+

lemma sorted_sums: "sorted (sums a es)"
  by (induction es arbitrary: a) (auto dest: sums_ge)

lemma add_timer_loop_ok:
  assumes "dlist (klinks k) TimerHead (map TimerLink (us @ vs))" and "t \<notin> set vs"
    and "\<forall>v\<in>set (t # vs). expires (timers k v) < 2 ^ 32"
  shows "\<exists>vs1 vs2 k'. vs = vs1 @ vs2 \<and>
      add_timer_loop t (behind TimerHead (map TimerLink vs)) k =
        Some (behind TimerHead (map TimerLink vs2), k') \<and>
      klinks k' = klinks k \<and> procs k' = procs k \<and> current k' = current k \<and>
      (\<forall>n. tproc (timers k' n) = tproc (timers k n)) \<and>
      sum_list (map (\<lambda>v. expires (timers k v)) vs1) \<le> expires (timers k t) \<and>
      expires (timers k' t) = expires (timers k t) - sum_list (map (\<lambda>v. expires (timers k v)) vs1) \<and>
      (\<forall>n. n \<noteq> t \<longrightarrow> n \<notin> set (take 1 vs2) \<longrightarrow> expires (timers k' n) = expires (timers k n)) \<and>
      (\<forall>n\<in>set (take 1 vs2). expires (timers k' t) < expires (timers k n) \<and>
           expires (timers k' n) = expires (timers k n) - expires (timers k' t))"
  using assms
proof (induction vs arbitrary: us k)
  case Nil
  then show ?case
    by (intro exI [of _ "[]"] exI [of _ k]) (simp add: add_timer_loop.simps)
next
  case (Cons v vs)
  show ?case
  proof (cases "expires (timers k t) < expires (timers k v)")
    case True
    then show ?thesis using Cons.prems
      by (intro exI [of _ "[]"] exI [of _ "v # vs"]
          exI [of _ "upd_timer v (\<lambda>g. g\<lparr>expires := u32_sub (expires g) (expires (timers k t))\<rparr>) k"])
         (simp add: add_timer_loop.simps [of t "TimerLink v"] u32_sub_id)
  next
    case False
    let ?k = "upd_timer t (\<lambda>g. g\<lparr>expires := u32_sub (expires g) (expires (timers k v))\<rparr>) k"
    have e: "expires (timers ?k t) = expires (timers k t) - expires (timers k v)"
      using False Cons.prems by (simp add: u32_sub_id)
    have nx: "list_next (TimerLink v) (klinks k) = behind TimerHead (map TimerLink vs)"
      using dlist_neighbours(2) [of "klinks k" TimerHead "map TimerLink us" "TimerLink v" "map TimerLink vs"]
        Cons.prems(1) by (simp add: list_next_def)
    have lp: "add_timer_loop t (TimerLink v) k = add_timer_loop t (behind TimerHead (map TimerLink vs)) ?k"
      using False nx by (subst add_timer_loop.simps) simp
    have "expires (timers ?k t) < 2 ^ 32"
      using u32_sub_lt [of "expires (timers k t)" "expires (timers k v)"] by simp
    then have pre: "\<forall>w\<in>set (t # vs). expires (timers ?k w) < 2 ^ 32" using Cons.prems by simp
    have tv: "\<And>w. w \<in> set vs \<Longrightarrow> expires (timers ?k w) = expires (timers k w)" using Cons.prems by auto
    from Cons.IH [of ?k "us @ [v]"] Cons.prems pre obtain vs1 vs2 k' where ih: "vs = vs1 @ vs2"
      "add_timer_loop t (behind TimerHead (map TimerLink vs)) ?k = Some (behind TimerHead (map TimerLink vs2), k')"
      "klinks k' = klinks k" "procs k' = procs k" "current k' = current k"
      "\<forall>n. tproc (timers k' n) = tproc (timers ?k n)"
      "sum_list (map (\<lambda>v. expires (timers ?k v)) vs1) \<le> expires (timers ?k t)"
      "expires (timers k' t) = expires (timers ?k t) - sum_list (map (\<lambda>v. expires (timers ?k v)) vs1)"
      "\<forall>n. n \<noteq> t \<longrightarrow> n \<notin> set (take 1 vs2) \<longrightarrow> expires (timers k' n) = expires (timers ?k n)"
      "\<forall>n\<in>set (take 1 vs2). expires (timers k' t) < expires (timers ?k n) \<and>
           expires (timers k' n) = expires (timers ?k n) - expires (timers k' t)" by auto
    have sm: "map (\<lambda>v. expires (timers ?k v)) vs1 = map (\<lambda>v. expires (timers k v)) vs1"
      using tv ih(1) by auto
    have tk: "n \<in> set (take 1 vs2) \<Longrightarrow> n \<in> set vs" for n using ih(1) by (auto dest: in_set_takeD)
    show ?thesis
      using ih(3-6,9,10) ih(7,8) [unfolded sm e] lp ih(1,2) False tv tk Cons.prems(2)
      by (intro exI [of _ "v # vs1"] exI [of _ vs2] exI [of _ k']) auto
  qed
qed

lemma add_timer_ok:
  assumes inv: "timers_inv k ts" and t: "t \<notin> set ts" "tproc (timers k t) \<noteq> None"
    and e: "0 < expires (timers k t)" "expires (timers k t) < 2 ^ 32"
  shows "\<exists>us vs k'. ts = us @ vs \<and> add_timer t k = Some k' \<and> timers_inv k' (us @ t # vs) \<and>
      due k' (us @ t # vs) = take (length us) (due k ts) @ expires (timers k t) # drop (length us) (due k ts) \<and>
      procs k' = procs k \<and> current k' = current k"
proof -
  have d: "dlist (klinks k) TimerHead (map TimerLink ts)" and lone: "\<And>q. q \<notin> set ts \<Longrightarrow> list_empty (TimerLink q) (klinks k)"
    and b: "\<forall>q\<in>set ts. tproc (timers k q) \<noteq> None \<and> expires (timers k q) < 2 ^ 32"
    using inv by (auto simp: timers_inv_def)
  let ?ex = "\<lambda>k v. expires (timers k v)"
  from add_timer_loop_ok [of k "[]" ts t] d t(1) b e(2) obtain us vs k1 where ts: "ts = us @ vs"
    and lp: "add_timer_loop t (behind TimerHead (map TimerLink ts)) k = Some (behind TimerHead (map TimerLink vs), k1)"
    and k1: "klinks k1 = klinks k" "procs k1 = procs k" "current k1 = current k"
      "\<forall>n. tproc (timers k1 n) = tproc (timers k n)"
    and le: "sum_list (map (?ex k) us) \<le> ?ex k t" and et: "?ex k1 t = ?ex k t - sum_list (map (?ex k) us)"
    and other: "\<forall>n. n \<noteq> t \<longrightarrow> n \<notin> set (take 1 vs) \<longrightarrow> ?ex k1 n = ?ex k n"
    and first: "\<forall>n\<in>set (take 1 vs). ?ex k1 t < ?ex k n \<and> ?ex k1 n = ?ex k n - ?ex k1 t" by auto
  let ?at = "behind TimerHead (map TimerLink vs)"
  define k' where "k' = upd_klinks (list_add_before ?at (TimerLink t)) k1"
  have nx: "list_next TimerHead (klinks k) = behind TimerHead (map TimerLink ts)"
    using dlist_head_neighbours(1) [OF d] by (simp add: list_next_def)
  have run: "add_timer t k = Some k'"
    using e t lone [OF t(1)] lp nx by (simp add: add_timer_def k'_def)
  have dis: "distinct ts" using d by (auto dest!: dlist_distinct simp: distinct_map)
  have d2: "dlist (klinks k) TimerHead (map TimerLink us @ map TimerLink vs)" using d ts by simp
  have ring: "list_add_before ?at (TimerLink t) (klinks k) =
      list_add_between (TimerLink t) (before TimerHead (map TimerLink us)) ?at (klinks k)"
    using d2 dlist_head_neighbours(2) [OF d] dlist_neighbours(1) [of "klinks k" TimerHead "map TimerLink us"]
    by (cases vs) (auto simp: list_add_before_def ts)
  have nt: "TimerLink t \<notin> set (TimerHead # map TimerLink us @ map TimerLink vs)" using t(1) ts by auto
  have dk: "dlist (klinks k') TimerHead (map TimerLink (us @ t # vs))"
    using dlist_add_between [OF d2 nt] ring by (simp add: k'_def k1)
  have lone': "list_empty (TimerLink q) (klinks k')" if "q \<notin> set (us @ t # vs)" for q
  proof -
    have "TimerLink q \<notin> {TimerLink t, before TimerHead (map TimerLink us), ?at}"
      using that before_in [of TimerHead "map TimerLink us"] behind_in [of TimerHead "map TimerLink vs"] by auto
    then show ?thesis using lone [of q] that ts by (simp add: k'_def k1 ring list_empty_def)
  qed
  have us_eq: "map (?ex k') us = map (?ex k) us"
  proof -
    have "x \<notin> set (take 1 vs)" if "x \<in> set us" for x using that dis ts in_set_takeD [of x 1 vs] by auto
    then have "?ex k1 x = ?ex k x" if "x \<in> set us" for x using other t(1) ts that by (metis Un_iff set_append)
    then show ?thesis by (simp add: k'_def)
  qed
  have bound: "\<forall>q\<in>set (us @ t # vs). tproc (timers k' q) \<noteq> None \<and> ?ex k' q < 2 ^ 32"
  proof
    fix q assume q: "q \<in> set (us @ t # vs)"
    have "?ex k1 q \<le> ?ex k q" using other first et by (cases "q = t"; cases "q \<in> set (take 1 vs)") auto
    moreover have "?ex k q < 2 ^ 32" "tproc (timers k q) \<noteq> None" using q b e(2) t ts by auto
    ultimately show "tproc (timers k' q) \<noteq> None \<and> ?ex k' q < 2 ^ 32" using k1(4) by (simp add: k'_def)
  qed
  have "sums (?ex k t) (map (?ex k') vs) = sums (sum_list (map (?ex k) us)) (map (?ex k) vs)"
  proof (cases vs)
    case (Cons v vs')
    have "map (?ex k') vs' = map (?ex k) vs'"
      using other t(1) ts dis Cons by (auto simp: k'_def)
    moreover have "?ex k1 t < ?ex k v" "?ex k1 v = ?ex k v - ?ex k1 t" using first Cons by simp_all
    then have "?ex k t + ?ex k1 v = sum_list (map (?ex k) us) + ?ex k v" using et le by linarith
    ultimately show ?thesis by (simp add: k'_def Cons cong: map_cong)
  qed simp
  then have due': "due k' (us @ t # vs) = sums 0 (map (?ex k) us) @ ?ex k t # sums (sum_list (map (?ex k) us)) (map (?ex k) vs)"
    using et le by (simp add: due_def sums_append us_eq) (simp add: k'_def)
  have "due k ts = sums 0 (map (?ex k) us) @ sums (sum_list (map (?ex k) us)) (map (?ex k) vs)"
    by (simp add: due_def sums_append ts)
  then show ?thesis
    using ts run dk lone' bound due' k1 by (intro exI [of _ us] exI [of _ vs] exI [of _ k'])
      (simp add: timers_inv_def k'_def)
qed

text \<open>The timer ring does not see the run queue grow.\<close>

lemma timers_inv_cong:
  assumes "timers_inv k ts" and "\<And>n. (\<exists>t. n = TimerLink t) \<or> n = TimerHead \<Longrightarrow>
      nxt (klinks k') n = nxt (klinks k) n \<and> prv (klinks k') n = prv (klinks k) n"
    and "timers k' = timers k"
  shows "timers_inv k' ts"
proof -
  have "dlist (klinks k') TimerHead (map TimerLink ts) = dlist (klinks k) TimerHead (map TimerLink ts)"
    using assms(2) by (intro dlist_cong) auto
  then show ?thesis using assms by (auto simp: timers_inv_def list_empty_def)
qed

lemma rq_inv_cong:
  assumes "rq_inv k ps" and "\<And>n. (\<exists>t. n = RunLink t) \<or> n = RunHead \<Longrightarrow>
      nxt (klinks k') n = nxt (klinks k) n \<and> prv (klinks k') n = prv (klinks k) n"
    and "procs k' = procs k" "proc_num k' = proc_num k" "idleproc k' = idleproc k"
  shows "rq_inv k' ps"
proof -
  have "dlist (klinks k') RunHead (map RunLink ps) = dlist (klinks k) RunHead (map RunLink ps)"
    using assms(2) by (intro dlist_cong) auto
  then show ?thesis using assms by (auto simp: rq_inv_def list_empty_def)
qed

lemma enqueued_keeps_timers:
  assumes "rq_inv k ps" and "timers_inv k ts"
  shows "timers_inv (enqueued p k) ts"
proof -
  have "dlist (klinks k) RunHead (map RunLink ps)" using assms(1) by (simp add: rq_inv_def)
  from frame_add_before_head [OF this] show ?thesis by (intro timers_inv_cong [OF assms(2)]) auto
qed

lemma wakeup_keeps_timers:
  assumes "sched_inv k ps" and "timers_inv k ts" and "wakeup_proc p k = Some k'" and "length ps + 2 < 2 ^ 32"
  shows "timers_inv k' ts"
proof (cases "RR_enqueue p (woken p k) = Some k' \<and> state (procs k p) \<noteq> PROC_RUNNABLE \<and> p \<noteq> idleproc k")
  case True
  have w: "rq_inv (woken p k) ps" unfolding woken_def
    using assms(1) by (intro rq_inv_upd_proc) (auto simp: sched_inv_def)
  have "p \<notin> set ps" using True assms(1) by (auto simp: sched_inv_def rq_inv_def)
  then have "k' = enqueued p (woken p k)"
    using RR_enqueue_ok(1) [OF w, of p] True assms(4) by (simp add: woken_def)
  moreover have "timers_inv (woken p k) ts" using assms(2) by (simp add: timers_inv_def woken_def)
  ultimately show ?thesis using enqueued_keeps_timers [OF w] by simp
next
  case False
  then have "k' = k \<or> k' = woken p k" using assms(3) by (auto simp: wakeup_proc_cases split: if_splits)
  then show ?thesis by (elim disjE) (auto intro!: timers_inv_cong [OF assms(2)] simp: woken_def)
qed


text \<open>Firing a timer of the head of the list.\<close>

definition wakeable :: "kernel \<Rightarrow> nat \<Rightarrow> bool" where
  "wakeable k p \<longleftrightarrow> state (procs k p) \<noteq> PROC_ZOMBIE \<and>
     (wait_state (procs k p) = 0 \<or> wait_state (procs k p) AND WT_INTERRUPTED \<noteq> 0)"

lemma wakeup_wait_state:
  assumes "wakeup_proc p k = Some k'" and "wakeable k q"
  shows "wakeable k' q"
proof (cases "state (procs k p) = PROC_RUNNABLE")
  case True
  then show ?thesis using assms by (simp add: wakeup_proc_cases)
next
  case False
  then have "procs k' q = procs k q \<or> wait_state (procs k' q) = 0 \<and> state (procs k' q) = PROC_RUNNABLE"
    using assms(1) by (auto simp: wakeup_proc_cases RR_enqueue_def woken_def Let_def split: if_splits bind_splits)
  then show ?thesis using assms(2) by (auto simp: wakeable_def)
qed

lemma del_timer_head_ok:
  assumes s: "sched_inv k ps" and t: "timers_inv k (t # ts)" and z: "expires (timers k t) = 0"
  shows "sched_inv (del_timer t k) ps" "timers_inv (del_timer t k) ts"
    "timers (del_timer t k) = timers k" "procs (del_timer t k) = procs k"
    "current (del_timer t k) = current k" "idleproc (del_timer t k) = idleproc k"
proof -
  have d: "dlist (klinks k) TimerHead (map TimerLink (t # ts))"
    and lone: "\<And>q. q \<notin> set (t # ts) \<Longrightarrow> list_empty (TimerLink q) (klinks k)"
    and b: "\<forall>q\<in>set (t # ts). tproc (timers k q) \<noteq> None \<and> expires (timers k q) < 2 ^ 32"
    using t by (auto simp: timers_inv_def)
  have m: "TimerLink t \<in> set (map TimerLink (t # ts))" by simp
  have del: "del_timer t k = upd_klinks (list_del_init (TimerLink t)) k"
    using dlist_member_not_empty [OF d m] z by (simp add: del_timer_def)
  have fr: "nxt (klinks (del_timer t k)) n = nxt (klinks k) n \<and> prv (klinks (del_timer t k)) n = prv (klinks k) n"
    if "n \<notin> set (TimerHead # map TimerLink (t # ts))" for n
    using frame_del_init [OF d m that] by (simp add: del)
  have r: "rq_inv k ps" using s by (simp add: sched_inv_def)
  have "rq_inv (del_timer t k) ps"
  proof (rule rq_inv_cong [OF r])
    fix n assume "(\<exists>t. n = RunLink t) \<or> n = RunHead"
    then show "nxt (klinks (del_timer t k)) n = nxt (klinks k) n \<and> prv (klinks (del_timer t k)) n = prv (klinks k) n"
      by (intro fr) auto
  qed (simp_all add: del)
  then show "sched_inv (del_timer t k) ps" using s by (simp add: sched_inv_def del)
  have "list_empty (TimerLink q) (klinks (del_timer t k))" if "q \<notin> set ts" for q
  proof (cases "q = t")
    case True
    then show ?thesis by (simp add: del list_del_init_empty)
  next
    case False
    then show ?thesis using fr [of "TimerLink q"] lone [of q] that by (auto simp: list_empty_def)
  qed
  moreover have "dlist (klinks (del_timer t k)) TimerHead (map TimerLink ts)"
    using dlist_del_init [of "klinks k" TimerHead "[]" "TimerLink t" "map TimerLink ts"] d by (simp add: del)
  ultimately show "timers_inv (del_timer t k) ts" using b by (simp add: timers_inv_def del)
qed (use z in \<open>simp_all add: del_timer_def\<close>)

text \<open>The processes whose timers fire, in list order.\<close>

definition fired :: "kernel \<Rightarrow> nat list \<Rightarrow> nat list" where
  "fired k ts = map (\<lambda>t. the (tproc (timers k t))) (takeWhile (\<lambda>t. expires (timers k t) = 0) ts)"

text \<open>A process that joins the run queue when it is woken; of several timers of a process the first one counts.\<close>

definition asleep :: "kernel \<Rightarrow> nat \<Rightarrow> bool" where
  "asleep k p \<longleftrightarrow> state (procs k p) \<noteq> PROC_RUNNABLE \<and> p \<noteq> current k \<and> p \<noteq> idleproc k"

fun firsts :: "nat list \<Rightarrow> nat list" where
  "firsts [] = []"
| "firsts (x # xs) = x # filter (\<lambda>y. y \<noteq> x) (firsts xs)"

lemma set_firsts [simp]: "set (firsts xs) = set xs"
  by (induction xs) auto

lemma joining_step:
  assumes "\<And>q. q \<noteq> p \<Longrightarrow> asleep k1 q = asleep k q" "\<not> asleep k1 p"
  shows "filter (asleep k) (firsts (p # xs)) = (if asleep k p then [p] else []) @ filter (asleep k1) (firsts xs)"
proof -
  have "asleep k x \<and> x \<noteq> p \<longleftrightarrow> asleep k1 x" for x using assms by (cases "x = p") auto
  then have "filter (asleep k) (filter (\<lambda>y. y \<noteq> p) ys) = filter (asleep k1) ys" for ys
    unfolding filter_filter by (intro filter_cong [OF refl]) blast
  then show ?thesis by simp
qed

lemma fire_head:
  assumes s: "sched_inv k ps" and t: "timers_inv k (t # ts)" and z: "expires (timers k t) = 0"
    and w: "wakeable k (the (tproc (timers k t)))" and sz: "length ps + 2 < 2 ^ 32"
  defines "p \<equiv> the (tproc (timers k t))"
  shows "\<exists>k' qs. run_timer_loop t k = (case ts of [] \<Rightarrow> Some k' | u # _ \<Rightarrow> run_timer_loop u k') \<and>
      sched_inv k' (ps @ qs) \<and> qs = (if asleep k p then [p] else []) \<and> timers_inv k' ts \<and> timers k' = timers k \<and>
      current k' = current k \<and> idleproc k' = idleproc k \<and> state (procs k' p) = PROC_RUNNABLE \<and>
      (\<forall>q. q \<noteq> p \<longrightarrow> procs k' q = procs k q) \<and> (\<forall>q. wakeable k q \<longrightarrow> wakeable k' q)"
proof -
  have tp: "tproc (timers k t) = Some p" using t by (auto simp: timers_inv_def p_def)
  define qs where "qs = (if state (procs k p) = PROC_RUNNABLE \<or> p = current k \<or> p = idleproc k then [] else [p])"
  obtain k1 where k1: "wakeup_proc p k = Some k1" "current k1 = current k" "idleproc k1 = idleproc k"
    "state (procs k1 p) = PROC_RUNNABLE" "\<forall>q. q \<noteq> p \<longrightarrow> procs k1 q = procs k q" "timers k1 = timers k"
    "sched_inv k1 (ps @ qs)"
    using wakeup_proc_ok [OF s, of p] w sz by (auto simp: wakeable_def p_def qs_def split: if_splits)
  have t1: "timers_inv k1 (t # ts)" using wakeup_keeps_timers [OF s t k1(1) sz] .
  have nx: "list_next (TimerLink t) (klinks k) = behind TimerHead (map TimerLink ts)"
    using dlist_neighbours(2) [of "klinks k" TimerHead "[]" "TimerLink t" "map TimerLink ts"] t
    by (simp add: list_next_def timers_inv_def)
  have run: "run_timer_loop t k = (case ts of [] \<Rightarrow> Some (del_timer t k1) | u # _ \<Rightarrow> run_timer_loop u (del_timer t k1))"
    using z tp k1(1) nx w [folded p_def] by (subst run_timer_loop.simps) (auto simp: wakeable_def Let_def split: list.splits)
  have z1: "expires (timers k1 t) = 0" using z k1(6) by simp
  note del = del_timer_head_ok [OF k1(7) t1 z1]
  have "wakeable (del_timer t k1) q" if "wakeable k q" for q
    using wakeup_wait_state [OF k1(1) that] del(4) by (simp add: wakeable_def)
  then show ?thesis
    using run del k1 by (intro exI [of _ "del_timer t k1"] exI [of _ qs]) (simp add: qs_def asleep_def)
qed

lemma run_timer_loop_ok:
  assumes "sched_inv k ps" and "timers_inv k (t # ts)"
    and "\<forall>u\<in>set (t # ts). wakeable k (the (tproc (timers k u)))"
    and "length ps + length ts + 2 < 2 ^ 32"
  shows "\<exists>k' qs. run_timer_loop t k = Some k' \<and> sched_inv k' (ps @ qs) \<and> qs = filter (asleep k) (firsts (fired k (t # ts))) \<and>
      timers_inv k' (dropWhile (\<lambda>t. expires (timers k t) = 0) (t # ts)) \<and>
      timers k' = timers k \<and> current k' = current k \<and> idleproc k' = idleproc k \<and>
      (\<forall>p. if p \<in> set (fired k (t # ts)) then state (procs k' p) = PROC_RUNNABLE else procs k' p = procs k p)"
  using assms
proof (induction ts arbitrary: t k ps)
  case Nil
  show ?case
  proof (cases "expires (timers k t) = 0")
    case False
    then show ?thesis using Nil.prems
      by (intro exI [of _ k] exI [of _ "[]"]) (simp add: run_timer_loop.simps fired_def)
  next
    case True
    from fire_head [OF Nil.prems(1,2) True] Nil.prems(3,4) obtain k1 qs where
      "run_timer_loop t k = Some k1" "sched_inv k1 (ps @ qs)"
      "qs = (if asleep k (the (tproc (timers k t))) then [the (tproc (timers k t))] else [])"
      "timers_inv k1 []" "timers k1 = timers k" "current k1 = current k" "idleproc k1 = idleproc k"
      "state (procs k1 (the (tproc (timers k t)))) = PROC_RUNNABLE"
      "\<forall>q. q \<noteq> the (tproc (timers k t)) \<longrightarrow> procs k1 q = procs k q" by auto
    then show ?thesis using True by (intro exI [of _ k1] exI [of _ qs]) (simp add: fired_def)
  qed
next
  case (Cons u us)
  show ?case
  proof (cases "expires (timers k t) = 0")
    case False
    then show ?thesis using Cons.prems
      by (intro exI [of _ k] exI [of _ "[]"]) (simp add: run_timer_loop.simps fired_def)
  next
    case True
    let ?p = "the (tproc (timers k t))"
    have "wakeable k ?p" "length ps + 2 < 2 ^ 32" using Cons.prems(3,4) by simp_all
    from fire_head [OF Cons.prems(1,2) True this] obtain k1 qs where k1:
      "run_timer_loop t k = run_timer_loop u k1" "sched_inv k1 (ps @ qs)" "qs = (if asleep k ?p then [?p] else [])"
      "timers_inv k1 (u # us)" "timers k1 = timers k" "current k1 = current k" "idleproc k1 = idleproc k"
      "state (procs k1 ?p) = PROC_RUNNABLE" "\<forall>q. q \<noteq> ?p \<longrightarrow> procs k1 q = procs k q"
      "\<forall>q. wakeable k q \<longrightarrow> wakeable k1 q" by auto
    have a: "asleep k1 q = asleep k q" if "q \<noteq> ?p" for q using k1(6,7,9) that by (simp add: asleep_def)
    have na: "\<not> asleep k1 ?p" using k1(8) by (simp add: asleep_def)
    have w: "\<forall>x\<in>set (u # us). wakeable k1 (the (tproc (timers k1 x)))" using Cons.prems(3) k1(5,10) by simp
    have "length (ps @ qs) + length us + 2 < 2 ^ 32" using Cons.prems(4) k1(3) by simp
    from Cons.IH [OF k1(2,4) w this] obtain k2 rs where k2: "run_timer_loop u k1 = Some k2"
      "sched_inv k2 ((ps @ qs) @ rs)" "rs = filter (asleep k1) (firsts (fired k1 (u # us)))"
      "timers_inv k2 (dropWhile (\<lambda>t. expires (timers k1 t) = 0) (u # us))" "timers k2 = timers k1"
      "current k2 = current k1" "idleproc k2 = idleproc k1"
      "\<forall>p. if p \<in> set (fired k1 (u # us)) then state (procs k2 p) = PROC_RUNNABLE else procs k2 p = procs k1 p"
      by blast
    have f: "fired k (t # u # us) = ?p # fired k1 (u # us)" using True k1(5) by (simp add: fired_def)
    have j: "qs @ rs = filter (asleep k) (firsts (fired k (t # u # us)))"
      unfolding f k1(3) k2(3) by (rule joining_step [symmetric]) (use a na in auto)
    have "if p \<in> set (fired k (t # u # us)) then state (procs k2 p) = PROC_RUNNABLE else procs k2 p = procs k p" for p
      using k2(8) k1(8,9) unfolding f by (cases "p = ?p") (auto split: if_splits)
    then show ?thesis using k1 k2(1,2,4-8) True j unfolding f
      by (intro exI [of _ k2] exI [of _ "qs @ rs"]) auto
  qed
qed

lemma due_shift:
  assumes "\<forall>u\<in>set ts. expires (timers k' u) = expires (timers k u)"
    and "Suc (expires (timers k' t)) = expires (timers k t)" and "t \<notin> set ts"
  shows "due k (t # ts) = map Suc (due k' (t # ts))"
proof -
  have "sums (Suc a) es = map Suc (sums a es)" for a es by (induction es arbitrary: a) auto
  moreover have "map (\<lambda>t. expires (timers k' t)) ts = map (\<lambda>t. expires (timers k t)) ts" using assms(1) by simp
  ultimately show ?thesis using assms(2) [symmetric] by (simp add: due_def cong: map_cong)
qed

lemma due_dropWhile:
  "due k (dropWhile (\<lambda>t. expires (timers k t) = 0) ts) = dropWhile (\<lambda>d. d = 0) (due k ts)"
  "length (takeWhile (\<lambda>t. expires (timers k t) = 0) ts) = length (takeWhile (\<lambda>d. d = 0) (due k ts))"
  by (induction ts) (auto simp: due_def)

lemma tick_keeps_inv:
  assumes "sched_inv k ps" and "timers_inv k ts"
  shows "sched_inv (sched_class_proc_tick (current k) k) ps" "timers_inv (sched_class_proc_tick (current k) k) ts"
    "timers (sched_class_proc_tick (current k) k) = timers k"
    "state (procs (sched_class_proc_tick (current k) k) p) = state (procs k p)"
    "p \<noteq> current k \<Longrightarrow> procs (sched_class_proc_tick (current k) k) p = procs k p"
proof -
  define f where "f = (if current k \<noteq> idleproc k then tick_slice else (\<lambda>g. g\<lparr>need_resched := True\<rparr>))"
  have k': "sched_class_proc_tick (current k) k = upd_proc (current k) f k"
    by (simp add: sched_class_proc_tick_def RR_proc_tick_def f_def)
  have f: "on_rq (f g) = on_rq g" "state (f g) = state g" for g by (simp_all add: f_def tick_slice_def Let_def)
  have "rq_inv (upd_proc (current k) f k) ps"
    using assms(1) f by (intro rq_inv_upd_proc) (auto simp: sched_inv_def)
  then show "sched_inv (sched_class_proc_tick (current k) k) ps" using assms(1) by (simp add: sched_inv_def k')
  show "timers_inv (sched_class_proc_tick (current k) k) ts" using assms(2) by (simp add: k' timers_inv_def)
qed (simp_all add: sched_class_proc_tick_def RR_proc_tick_def tick_slice_def Let_def)

lemma run_timer_list_ok:
  assumes s: "sched_inv k ps" and t: "timers_inv k ts" and pos: "\<forall>d\<in>set (due k ts). 0 < d"
    and w: "\<forall>u\<in>set ts. wakeable k (the (tproc (timers k u)))" and sz: "length ps + length ts + 2 < 2 ^ 32"
  defines "n \<equiv> length (takeWhile (\<lambda>d. d = 1) (due k ts))"
    and "now \<equiv> \<lambda>i. map (\<lambda>t. the (tproc (timers k t))) (take i ts)"
  shows "\<exists>k' qs. run_timer_list k = Some k' \<and> sched_inv k' (ps @ qs) \<and> qs = filter (asleep k) (firsts (now n)) \<and>
      timers_inv k' (drop n ts) \<and> due k' (drop n ts) = map (\<lambda>d. d - 1) (drop n (due k ts)) \<and>
      (\<forall>p\<in>set (now n). state (procs k' p) = PROC_RUNNABLE) \<and>
      (\<forall>p. p \<notin> set (now n) \<longrightarrow> p \<noteq> current k \<longrightarrow> procs k' p = procs k p) \<and>
      current k' = current k \<and> idleproc k' = idleproc k \<and>
      (current k \<notin> set (now n) \<longrightarrow> procs k' (current k) = procs (sched_class_proc_tick (current k) k) (current k))"
proof (cases ts)
  case Nil
  have "list_next TimerHead (klinks k) = TimerHead"
    using dlist_head_neighbours(1) [of "klinks k" TimerHead "[]"] t Nil by (simp add: list_next_def timers_inv_def)
  then have "run_timer_list k = Some (sched_class_proc_tick (current k) k)" by (simp add: run_timer_list_def)
  then show ?thesis using tick_keeps_inv [OF s t] Nil
    by (intro exI [of _ "sched_class_proc_tick (current k) k"] exI [of _ "[]"])
       (simp add: n_def now_def due_def sched_class_proc_tick_def RR_proc_tick_def)
next
  case (Cons u us)
  define k1 where "k1 = upd_timer u (\<lambda>g. g\<lparr>expires := expires g - 1\<rparr>) k"
  have dis: "u \<notin> set us" using t Cons by (auto simp: timers_inv_def dest!: dlist_distinct)
  have e: "0 < expires (timers k u)" "expires (timers k u) < 2 ^ 32" "tproc (timers k u) \<noteq> None"
    using pos t Cons by (simp_all add: due_def timers_inv_def)
  have t1: "timers_inv k1 (u # us)" using t e Cons by (auto simp: timers_inv_def k1_def)
  have s1: "sched_inv k1 ps" using s by (simp add: sched_inv_def rq_inv_def k1_def)
  have tp: "tproc (timers k1 x) = tproc (timers k x)" for x by (simp add: k1_def)
  have w1: "\<forall>x\<in>set (u # us). wakeable k1 (the (tproc (timers k1 x)))"
    using w Cons by (simp add: tp) (simp add: wakeable_def k1_def)
  have due1: "due k ts = map Suc (due k1 ts)"
    unfolding Cons using dis e by (intro due_shift) (auto simp: k1_def)
  have n: "n = length (takeWhile (\<lambda>d. d = 0) (due k1 ts))"
    by (simp add: n_def due1 takeWhile_map o_def)
  then have n2: "n = length (takeWhile (\<lambda>t. expires (timers k1 t) = 0) ts)" by (simp add: due_dropWhile(2))
  have tk: "takeWhile (\<lambda>t. expires (timers k1 t) = 0) ts = take n ts" unfolding n2 by (rule takeWhile_eq_take)
  have dr: "dropWhile (\<lambda>t. expires (timers k1 t) = 0) ts = drop n ts" unfolding n2 by (rule dropWhile_eq_drop)
  have now: "fired k1 ts = now n" by (simp add: fired_def now_def tk tp)
  have a1: "asleep k1 = asleep k" by (simp add: asleep_def k1_def fun_eq_iff)
  have "length ps + length us + 2 < 2 ^ 32" using sz Cons by simp
  from run_timer_loop_ok [OF s1 t1 w1 this] obtain k2 qs where k2: "run_timer_loop u k1 = Some k2"
    "sched_inv k2 (ps @ qs)" "qs = filter (asleep k) (firsts (now n))" "timers_inv k2 (drop n ts)" "timers k2 = timers k1"
    "current k2 = current k" "idleproc k2 = idleproc k" "\<forall>p. if p \<in> set (now n) then state (procs k2 p) = PROC_RUNNABLE else procs k2 p = procs k p"
    unfolding Cons [symmetric] now dr a1 by (auto simp: k1_def)
  have "u32_sub (expires (timers k u)) 1 = expires (timers k u) - 1" using e by (intro u32_sub_id; linarith)
  then have "upd_timer u (\<lambda>g. g\<lparr>expires := u32_sub (expires g) 1\<rparr>) k = k1"
    by (simp add: k1_def upd_timer_def)
  moreover have "list_next TimerHead (klinks k) = TimerLink u"
    using dlist_head_neighbours(1) [of "klinks k" TimerHead "map TimerLink ts"] t Cons
    by (simp add: list_next_def timers_inv_def)
  ultimately have run: "run_timer_list k = Some (sched_class_proc_tick (current k2) k2)"
    using e k2(1) by (simp add: run_timer_list_def)
  note tick = tick_keeps_inv [OF k2(2,4)]
  have "due (sched_class_proc_tick (current k2) k2) (drop n ts) = due k1 (drop n ts)"
    by (simp add: due_def tick(3) k2(5))
  also have "\<dots> = drop n (due k1 ts)"
    using due_dropWhile(1) [of k1 ts] unfolding dr dropWhile_eq_drop [of "\<lambda>d. d = 0"] n [symmetric] .
  finally have "due (sched_class_proc_tick (current k2) k2) (drop n ts) = map (\<lambda>d. d - 1) (drop n (due k ts))"
    by (simp add: due1 drop_map o_def)
  moreover have "current (sched_class_proc_tick (current k2) k2) = current k"
    "idleproc (sched_class_proc_tick (current k2) k2) = idleproc k"
    using k2(6,7) by (simp_all add: sched_class_proc_tick_def RR_proc_tick_def)
  moreover have "procs (sched_class_proc_tick (current k2) k2) (current k) =
      procs (sched_class_proc_tick (current k) k) (current k)" if "current k \<notin> set (now n)"
    using that k2(6,7) k2(8) [rule_format, of "current k"] by (auto simp: sched_class_proc_tick_def RR_proc_tick_def)
  ultimately show ?thesis using run tick k2
    by (intro exI [of _ "sched_class_proc_tick (current k2) k2"] exI [of _ qs]) auto
qed

section \<open>The interface of a scheduling class\<close>

text \<open>
  \<^verbatim>\<open>struct sched_class\<close>: \<open>holds s S\<close> says that the run queue of \<open>s\<close> holds exactly the processes \<open>S\<close>,
  \<open>may s p\<close> that \<open>p\<close> can be put on it.
\<close>

locale sched_class_contract =
  fixes enqueue :: "nat \<Rightarrow> 's \<Rightarrow> 's option" and dequeue :: "nat \<Rightarrow> 's \<Rightarrow> 's option"
    and pick_next :: "'s \<Rightarrow> nat option"
    and holds :: "'s \<Rightarrow> nat set \<Rightarrow> bool" and may :: "'s \<Rightarrow> nat \<Rightarrow> bool"
  assumes enqueue_law: "holds s S \<Longrightarrow> p \<notin> S \<Longrightarrow> may s p \<Longrightarrow>
      \<exists>s'. enqueue p s = Some s' \<and> holds s' (insert p S)"
    and dequeue_law: "holds s S \<Longrightarrow> p \<in> S \<Longrightarrow> \<exists>s'. dequeue p s = Some s' \<and> holds s' (S - {p})"
    and pick_empty: "holds s {} \<Longrightarrow> pick_next s = None"
    and pick_member: "holds s S \<Longrightarrow> S \<noteq> {} \<Longrightarrow> \<exists>p. pick_next s = Some p \<and> p \<in> S"
begin

definition switch :: "nat \<Rightarrow> 's \<Rightarrow> (nat \<times> 's) option" where
  "switch c s = do { s \<leftarrow> enqueue c s; p \<leftarrow> pick_next s; s \<leftarrow> dequeue p s; Some (p, s) }"

lemma switch_conserves:
  assumes "holds s S" and "c \<notin> S" and "may s c"
  shows "\<exists>p s'. switch c s = Some (p, s') \<and> p \<in> insert c S \<and> holds s' (insert c S - {p})"
proof -
  from enqueue_law [OF assms] obtain s1 where s1: "enqueue c s = Some s1" "holds s1 (insert c S)" by blast
  from pick_member [OF s1(2)] obtain p where p: "pick_next s1 = Some p" "p \<in> insert c S" by blast
  from dequeue_law [OF s1(2) p(2)] obtain s2 where "dequeue p s1 = Some s2" "holds s2 (insert c S - {p})" by blast
  then show ?thesis using s1 p by (auto simp: switch_def)
qed

end

definition RR_holds :: "kernel \<Rightarrow> nat set \<Rightarrow> bool" where
  "RR_holds k S \<longleftrightarrow> (\<exists>ps. rq_inv k ps \<and> set ps = S \<and> length ps + 1 < 2 ^ 32)"

definition RR_may :: "kernel \<Rightarrow> nat \<Rightarrow> bool" where
  "RR_may k p \<longleftrightarrow> state (procs k p) = PROC_RUNNABLE \<and> p \<noteq> idleproc k \<and> proc_num k + 2 < 2 ^ 32"

lemma RR_holdsI: "rq_inv k ps \<Longrightarrow> length ps + 1 < 2 ^ 32 \<Longrightarrow> RR_holds k (set ps)"
  by (auto simp: RR_holds_def)

interpretation rr: sched_class_contract RR_enqueue RR_dequeue RR_pick_next RR_holds RR_may
proof
  fix k S p assume h: "RR_holds k S" "p \<notin> S" "RR_may k p"
  then obtain ps where ps: "rq_inv k ps" "set ps = S" "length ps + 1 < 2 ^ 32" by (auto simp: RR_holds_def)
  have "length (ps @ [p]) + 1 < 2 ^ 32" using h(3) ps by (simp add: RR_may_def rq_inv_def)
  note RR_holdsI [OF RR_enqueue_ok(2) [OF ps(1)] this]
  then have "RR_holds (enqueued p k) (insert p S)" using ps h by (simp add: RR_may_def)
  moreover have "RR_enqueue p k = Some (enqueued p k)"
    using ps h by (intro RR_enqueue_ok(1) [OF ps(1)]) (auto simp: RR_may_def)
  ultimately show "\<exists>s'. RR_enqueue p k = Some s' \<and> RR_holds s' (insert p S)" by simp
next
  fix k S p assume h: "RR_holds k S" "p \<in> S"
  then obtain ps where ps: "rq_inv k ps" "set ps = S" "length ps + 1 < 2 ^ 32" by (auto simp: RR_holds_def)
  have q: "p \<in> set ps" "length ps < 2 ^ 32" using ps h by auto
  have "length (remove1 p ps) + 1 < 2 ^ 32" using ps(3) by (auto simp: length_remove1)
  note RR_holdsI [OF RR_dequeue_ok(2) [OF ps(1) q] this]
  moreover have "set (remove1 p ps) = S - {p}" using rq_inv_distinct [OF ps(1)] ps(2) by simp
  ultimately show "\<exists>s'. RR_dequeue p k = Some s' \<and> RR_holds s' (S - {p})"
    using RR_dequeue_ok(1) [OF ps(1) q] by simp
qed (auto simp: RR_holds_def RR_pick_next_ok split: list.splits)

section \<open>The properties\<close>

definition boot_kernel :: "(nat \<Rightarrow> proc_struct) \<Rightarrow> (nat \<Rightarrow> timer) \<Rightarrow> kernel" where
  "boot_kernel ps ts = \<lparr>procs = ps, klinks = \<lparr>nxt = (\<lambda>n. n), prv = (\<lambda>n. n)\<rparr>, current = 1, idleproc = 0,
     proc_num = 0, max_time_slice = 0, timers = ts, waits = (\<lambda>_. \<lparr>wproc = None, wakeup_flags = 0, wqueue = None\<rparr>), sems = (\<lambda>_. 0)\<rparr>"

definition sample_proc :: "nat \<Rightarrow> proc_struct" where
  "sample_proc p = \<lparr>state = (if p \<le> 3 then PROC_RUNNABLE else PROC_SLEEPING), pid = int p, runs = 0,
     need_resched = False, parent = None, mm = None, pflags = 0, exit_code = 0,
     wait_state = (if p \<le> 3 then 0 else 0x80000002), cptr = None, yptr = None, optr = None,
     on_rq = False, time_slice = 0, kstack = 0, filesp = None\<rparr>"

definition sample_timer :: "nat \<Rightarrow> timer" where
  "sample_timer t = \<lparr>expires = (if t = 7 then 1 else 3), tproc = Some (t - 3)\<rparr>"

definition sample_kernel :: kernel where
  "sample_kernel = enqueued 3 (enqueued 2 (sched_init (boot_kernel sample_proc sample_timer)))"

lemma sched_init_inv:
  assumes "\<forall>p. list_empty (RunLink p) (klinks k)" and "\<forall>t. list_empty (TimerLink t) (klinks k)"
  shows "rq_inv (sched_init k) []" "timers_inv (sched_init k) []"
proof -
  have l: "klinks (sched_init k) = list_init RunHead (list_init TimerHead (klinks k))"
    by (simp add: sched_init_def RR_init_def upd_klinks_def)
  have "proc_num (sched_init k) = 0" by (simp add: sched_init_def RR_init_def)
  then show "rq_inv (sched_init k) []"
    using assms(1) dlist_init [of RunHead "list_init TimerHead (klinks k)"]
    by (simp add: rq_inv_def l) (simp add: list_empty_def list_init_def)
  have "dlist (list_init RunHead (list_init TimerHead (klinks k))) TimerHead []"
    by (intro dlist_list_init_other dlist_init) auto
  then show "timers_inv (sched_init k) []"
    using assms(2) by (auto simp: timers_inv_def l list_empty_def list_init_def)
qed

lemma boot_links: "klinks (boot_kernel ps ts) = \<lparr>nxt = (\<lambda>n. n), prv = (\<lambda>n. n)\<rparr>"
  by (simp add: boot_kernel_def)

lemma sample_kernel_inv: "sched_inv sample_kernel [2, 3]" "timers_inv sample_kernel []"
proof -
  let ?k = "sched_init (boot_kernel sample_proc sample_timer)"
  have i: "rq_inv ?k []" "timers_inv ?k []"
    using sched_init_inv [of "boot_kernel sample_proc sample_timer"] by (simp_all add: boot_links list_empty_def)
  have p: "procs ?k = sample_proc" "idleproc ?k = 0" "current ?k = 1"
    by (simp_all add: sched_init_def RR_init_def boot_kernel_def)
  have r2: "rq_inv (enqueued 2 ?k) [2]" using RR_enqueue_ok(2) [OF i(1), of 2] p by (simp add: sample_proc_def)
  have "rq_inv sample_kernel [2, 3]"
    using RR_enqueue_ok(2) [OF r2, of 3] p by (simp add: sample_proc_def sample_kernel_def)
  then show "sched_inv sample_kernel [2, 3]" by (simp add: sched_inv_def sample_kernel_def p)
  show "timers_inv sample_kernel []" unfolding sample_kernel_def
    by (intro enqueued_keeps_timers [OF r2] enqueued_keeps_timers [OF i(1)] i(2))
qed

lemma sample_kernel_sel [simp]:
  "current sample_kernel = 1" "idleproc sample_kernel = 0" "timers sample_kernel = sample_timer"
  "state (procs sample_kernel p) = (if p \<le> 3 then PROC_RUNNABLE else PROC_SLEEPING)"
  "wait_state (procs sample_kernel p) = (if p \<le> 3 then 0 else 0x80000002)"
  "time_slice (procs sample_kernel 2) = 5" "need_resched (procs sample_kernel p) = False"
  by (simp_all add: sample_kernel_def sched_init_def RR_init_def boot_kernel_def sample_proc_def refill_def)

text \<open>C4: \<^verbatim>\<open>schedule\<close> is round robin: a runnable outgoing process goes to the tail of the run queue, the
  head of the queue becomes \<^verbatim>\<open>current\<close> (the idle process when the queue is empty), no process changes its
  state, only the chosen one counts a run, and the run-queue invariant is kept.\<close>

theorem schedule_round_robin:
  assumes "sched_inv k ps"
  shows "\<exists>k'. schedule k = Some k' \<and>
      current k' = (case requeued k ps of [] \<Rightarrow> idleproc k | p # _ \<Rightarrow> p) \<and>
      sched_inv k' (tl (requeued k ps)) \<and> idleproc k' = idleproc k \<and>
      (\<forall>p. state (procs k' p) = state (procs k p)) \<and> (\<forall>p. pid (procs k' p) = pid (procs k p)) \<and>
      (\<forall>p. runs (procs k' p) = runs (procs k p) + (if p = current k' then 1 else 0))"
  using assms by (rule schedule_ok)

theorem schedule_round_robin_witness:
  "\<exists>k'. schedule sample_kernel = Some k' \<and> current k' = 2 \<and> sched_inv k' [3, 1]"
  using schedule_round_robin [OF sample_kernel_inv(1)] by (auto simp: requeued_def)

text \<open>C5: Bounded waiting: while every scheduled process stays runnable, the process at position \<open>i\<close> of the
  run queue is running after exactly \<open>i + 1\<close> calls of \<^verbatim>\<open>schedule\<close>, and \<^verbatim>\<open>schedule\<close> never panics.\<close>

theorem schedule_bounded_wait:
  assumes "sched_inv k ps" and "state (procs k (current k)) = PROC_RUNNABLE" and "current k \<noteq> idleproc k"
    and "i < length ps"
  shows "\<exists>k' qs. schedules (Suc i) k = Some k' \<and> current k' = ps ! i \<and> sched_inv k' qs \<and>
      mset (current k' # qs) = mset (current k # ps)"
proof -
  from schedules_rotate [OF assms(1-3), of "Suc i"] obtain k' qs where k': "schedules (Suc i) k = Some k'"
    "sched_inv k' qs" "current k' # qs = rotate (Suc i) (current k # ps)" by blast
  have "rotate (Suc i) (current k # ps) ! 0 = ps ! i" using assms(4) by (subst nth_rotate) auto
  then have "current k' = ps ! i" unfolding k'(3) [symmetric] by simp
  moreover have "mset (current k' # qs) = mset (current k # ps)" unfolding k'(3) by (rule mset_rotate)
  ultimately show ?thesis using k' by blast
qed

theorem schedule_bounded_wait_witness:
  "\<exists>k' qs. schedules 2 sample_kernel = Some k' \<and> current k' = 3 \<and> sched_inv k' qs"
  using schedule_bounded_wait [OF sample_kernel_inv(1), of 1] by (auto simp: numeral_2_eq_2)

text \<open>\<^verbatim>\<open>wakeup_proc\<close> panics on a zombie; otherwise the process becomes runnable, is put at the tail
  of the run queue exactly when it was neither runnable, nor current, nor the idle process, and nothing
  else changes.\<close>

theorem wakeup_proc_enqueues_once:
  assumes "sched_inv k ps" and "length ps + 2 < 2 ^ 32"
  shows "(state (procs k p) = PROC_ZOMBIE \<longleftrightarrow> wakeup_proc p k = None) \<and>
     (\<forall>k'. wakeup_proc p k = Some k' \<longrightarrow>
        current k' = current k \<and> state (procs k' p) = PROC_RUNNABLE \<and> (\<forall>q. q \<noteq> p \<longrightarrow> procs k' q = procs k q) \<and>
        sched_inv k' (if state (procs k p) = PROC_RUNNABLE \<or> p = current k \<or> p = idleproc k then ps else ps @ [p]))"
proof (cases "state (procs k p) = PROC_ZOMBIE")
  case True
  then show ?thesis by (simp add: wakeup_proc_cases)
next
  case False
  then show ?thesis using wakeup_proc_ok [OF assms(1) _ assms(2), of p] by fastforce
qed

theorem wakeup_proc_enqueues_once_witness:
  "\<exists>k'. wakeup_proc 4 sample_kernel = Some k' \<and> sched_inv k' [2, 3, 4]"
  using wakeup_proc_enqueues_once [OF sample_kernel_inv(1), of 4] by (cases "wakeup_proc 4 sample_kernel") auto

text \<open>A running process keeps the processor for exactly its time slice: after \<open>n\<close> ticks \<open>n\<close> units are
  used up, and \<^verbatim>\<open>need_resched\<close> is set at the last one and not before.\<close>

theorem RR_proc_tick_exact:
  assumes "\<not> need_resched (procs k p)" and "0 < time_slice (procs k p)" and "int n \<le> time_slice (procs k p)"
  shows "time_slice (procs ((RR_proc_tick p ^^ n) k) p) = time_slice (procs k p) - int n \<and>
     need_resched (procs ((RR_proc_tick p ^^ n) k) p) = (int n = time_slice (procs k p))"
proof -
  have "procs ((RR_proc_tick p ^^ n) k) p = (tick_slice ^^ n) (procs k p)"
    by (induction n) (simp_all add: RR_proc_tick_def)
  then show ?thesis using tick_slice_iter [of "procs k p" n] assms by simp
qed

theorem RR_proc_tick_exact_witness:
  "need_resched (procs ((RR_proc_tick 2 ^^ 5) sample_kernel) 2) \<and>
   \<not> need_resched (procs ((RR_proc_tick 2 ^^ 4) sample_kernel) 2)"
  using RR_proc_tick_exact [of sample_kernel 2 5] RR_proc_tick_exact [of sample_kernel 2 4] by simp

text \<open>C6: \<^verbatim>\<open>add_timer\<close> puts the new timer into the delta list without changing when any other timer is
  due, and the new one is due exactly its \<^verbatim>\<open>expires\<close> ticks from now.\<close>

theorem add_timer_keeps_due_times:
  assumes "timers_inv k ts" and "t \<notin> set ts" and "tproc (timers k t) \<noteq> None"
    and "0 < expires (timers k t)" and "expires (timers k t) < 2 ^ 32"
  shows "\<exists>us vs k'. ts = us @ vs \<and> add_timer t k = Some k' \<and> timers_inv k' (us @ t # vs) \<and>
      due k' (us @ t # vs) = take (length us) (due k ts) @ expires (timers k t) # drop (length us) (due k ts) \<and>
      procs k' = procs k \<and> current k' = current k"
  using assms by (rule add_timer_ok)

theorem add_timer_keeps_due_times_witness:
  "\<exists>k'. add_timer 7 sample_kernel = Some k' \<and> timers_inv k' [7] \<and> due k' [7] = [1]"
  using add_timer_keeps_due_times [OF sample_kernel_inv(2), of 7] by (auto simp: sample_timer_def due_def)

text \<open>One clock tick (\<^verbatim>\<open>run_timer_list\<close>): exactly the timers due in one tick fire, their processes are
  runnable afterwards, those that were asleep have joined the run queue in the order of the timers, every remaining timer is due one tick earlier, no other process than the woken ones
  and the ticking current one changes, and the function does not panic.\<close>

theorem run_timer_list_fires_due:
  assumes "sched_inv k ps" and "timers_inv k ts" and "\<forall>d\<in>set (due k ts). 0 < d"
    and "\<forall>u\<in>set ts. wakeable k (the (tproc (timers k u)))" and "length ps + length ts + 2 < 2 ^ 32"
    and "n = length (takeWhile (\<lambda>d. d = 1) (due k ts))"
    and "woke = map (\<lambda>t. the (tproc (timers k t))) (take n ts)"
  shows "\<exists>k' qs. run_timer_list k = Some k' \<and> sched_inv k' (ps @ qs) \<and> qs = filter (asleep k) (firsts woke) \<and>
      timers_inv k' (drop n ts) \<and> due k' (drop n ts) = map (\<lambda>d. d - 1) (drop n (due k ts)) \<and>
      (\<forall>p\<in>set woke. state (procs k' p) = PROC_RUNNABLE) \<and>
      (\<forall>p. p \<notin> set woke \<longrightarrow> p \<noteq> current k \<longrightarrow> procs k' p = procs k p)"
  unfolding assms(6,7) using run_timer_list_ok [OF assms(1-5)] by blast

definition timed_kernel :: kernel where
  "timed_kernel = upd_klinks (list_add_before TimerHead (TimerLink 7)) sample_kernel"

lemma timed_kernel_inv: "sched_inv timed_kernel [2, 3]" "timers_inv timed_kernel [7]"
proof -
  have d: "dlist (klinks sample_kernel) TimerHead []" and lone: "\<And>t. list_empty (TimerLink t) (klinks sample_kernel)"
    using sample_kernel_inv(2) by (simp_all add: timers_inv_def)
  have fr: "nxt (klinks timed_kernel) m = nxt (klinks sample_kernel) m \<and> prv (klinks timed_kernel) m = prv (klinks sample_kernel) m"
    if "m \<noteq> TimerHead" "m \<noteq> TimerLink 7" for m
    using frame_add_before_head [OF d, of m "TimerLink 7"] that by (simp add: timed_kernel_def)
  have "rq_inv sample_kernel [2, 3]" using sample_kernel_inv(1) by (simp add: sched_inv_def)
  from rq_inv_cong [OF this, of timed_kernel] fr have "rq_inv timed_kernel [2, 3]"
    by (auto simp: timed_kernel_def)
  then show "sched_inv timed_kernel [2, 3]" using sample_kernel_inv(1) by (simp add: sched_inv_def timed_kernel_def)
  have "dlist (klinks timed_kernel) TimerHead [TimerLink 7]"
    using dlist_add_before_head [OF d, of "TimerLink 7"] by (simp add: timed_kernel_def)
  moreover have "list_empty (TimerLink t) (klinks timed_kernel)" if "t \<noteq> 7" for t
    using lone [of t] fr [of "TimerLink t"] that by (simp add: list_empty_def)
  ultimately show "timers_inv timed_kernel [7]" by (auto simp: timers_inv_def timed_kernel_def sample_timer_def)
qed

theorem run_timer_list_fires_due_witness:
  "\<exists>k'. run_timer_list timed_kernel = Some k' \<and> timers_inv k' [] \<and> state (procs k' 4) = PROC_RUNNABLE \<and>
     sched_inv k' [2, 3, 4]"
proof -
  have "due timed_kernel [7] = [1]" "the (tproc (timers timed_kernel 7)) = 4" "wakeable timed_kernel 4" "asleep timed_kernel 4"
    by (simp_all add: due_def timed_kernel_def sample_timer_def wakeable_def asleep_def)
  then show ?thesis using run_timer_list_fires_due [OF timed_kernel_inv, OF _ _ _ refl refl] by auto
qed

end
