(* ===== verification/WaitQueue.thy ===== *)
theory WaitQueue
  imports Sched
begin

text \<open>
  The wait queues of \<^verbatim>\<open>kern/sync/wait.c\<close>.  A \<^verbatim>\<open>wait_queue_t *\<close> and a \<^verbatim>\<open>wait_t *\<close> are addresses; the nodes
  \<open>WaitHead\<close> and \<open>WaitLink\<close> of the kernel's link store are their embedded list entries.  Waking a process
  goes through \<^verbatim>\<open>wakeup_proc\<close> of the scheduler.
\<close>

section \<open>The operations\<close>

definition upd_wait :: "nat \<Rightarrow> (wait \<Rightarrow> wait) \<Rightarrow> kernel \<Rightarrow> kernel" where
  "upd_wait w f k = k\<lparr>waits := (waits k)(w := f (waits k w))\<rparr>"

lemma upd_wait_sel [simp]:
  "procs (upd_wait w f k) = procs k" "klinks (upd_wait w f k) = klinks k"
  "current (upd_wait w f k) = current k" "idleproc (upd_wait w f k) = idleproc k"
  "proc_num (upd_wait w f k) = proc_num k" "max_time_slice (upd_wait w f k) = max_time_slice k"
  "timers (upd_wait w f k) = timers k" "waits (upd_wait w f k) = (waits k)(w := f (waits k w))"
  "sems (upd_wait w f k) = sems k"
  by (simp_all add: upd_wait_def)

definition wait_init :: "nat \<Rightarrow> nat \<Rightarrow> kernel \<Rightarrow> kernel" where
  "wait_init w p k =
     upd_klinks (list_init (WaitLink w))
       (upd_wait w (\<lambda>v. v\<lparr>wproc := Some p, wakeup_flags := WT_INTERRUPTED\<rparr>) k)"

definition wait_queue_init :: "nat \<Rightarrow> kernel \<Rightarrow> kernel" where
  "wait_queue_init q k = upd_klinks (list_init (WaitHead q)) k"

definition wait_queue_add :: "nat \<Rightarrow> nat \<Rightarrow> kernel \<Rightarrow> kernel option" where
  "wait_queue_add q w k = do {
     kassert (list_empty (WaitLink w) (klinks k) \<and> wproc (waits k w) \<noteq> None);
     let k = upd_wait w (\<lambda>v. v\<lparr>wqueue := Some q\<rparr>) k;
     Some (upd_klinks (list_add_before (WaitHead q) (WaitLink w)) k)
   }"

definition wait_queue_del :: "nat \<Rightarrow> nat \<Rightarrow> kernel \<Rightarrow> kernel option" where
  "wait_queue_del q w k = do {
     kassert (\<not> list_empty (WaitLink w) (klinks k) \<and> wqueue (waits k w) = Some q);
     Some (upd_klinks (list_del_init (WaitLink w)) k)
   }"

definition le2wait :: "nat \<Rightarrow> knode \<Rightarrow> nat option" where
  "le2wait q le = (if le \<noteq> WaitHead q then (case le of WaitLink w \<Rightarrow> Some w | _ \<Rightarrow> None) else None)"

definition wait_queue_next :: "nat \<Rightarrow> nat \<Rightarrow> kernel \<Rightarrow> nat option option" where
  "wait_queue_next q w k = do {
     kassert (\<not> list_empty (WaitLink w) (klinks k) \<and> wqueue (waits k w) = Some q);
     Some (le2wait q (list_next (WaitLink w) (klinks k)))
   }"

definition wait_queue_prev :: "nat \<Rightarrow> nat \<Rightarrow> kernel \<Rightarrow> nat option option" where
  "wait_queue_prev q w k = do {
     kassert (\<not> list_empty (WaitLink w) (klinks k) \<and> wqueue (waits k w) = Some q);
     Some (le2wait q (list_prev (WaitLink w) (klinks k)))
   }"

definition wait_queue_first :: "nat \<Rightarrow> kernel \<Rightarrow> nat option" where
  "wait_queue_first q k = le2wait q (list_next (WaitHead q) (klinks k))"

definition wait_queue_last :: "nat \<Rightarrow> kernel \<Rightarrow> nat option" where
  "wait_queue_last q k = le2wait q (list_prev (WaitHead q) (klinks k))"

definition wait_queue_empty :: "nat \<Rightarrow> kernel \<Rightarrow> bool" where
  "wait_queue_empty q k = list_empty (WaitHead q) (klinks k)"

definition wait_in_queue :: "nat \<Rightarrow> kernel \<Rightarrow> bool" where
  "wait_in_queue w k = (\<not> list_empty (WaitLink w) (klinks k))"

definition wakeup_wait :: "nat \<Rightarrow> nat \<Rightarrow> 32 word \<Rightarrow> bool \<Rightarrow> kernel \<Rightarrow> kernel option" where
  "wakeup_wait q w flags del k = do {
     k \<leftarrow> (if del then wait_queue_del q w k else Some k);
     let k = upd_wait w (\<lambda>v. v\<lparr>wakeup_flags := flags\<rparr>) k;
     p \<leftarrow> wproc (waits k w);
     wakeup_proc p k
   }"

definition wakeup_first :: "nat \<Rightarrow> 32 word \<Rightarrow> bool \<Rightarrow> kernel \<Rightarrow> kernel option" where
  "wakeup_first q flags del k =
     (case wait_queue_first q k of None \<Rightarrow> Some k | Some w \<Rightarrow> wakeup_wait q w flags del k)"

text \<open>The two \<^verbatim>\<open>do .. while\<close> loops of \<^verbatim>\<open>wakeup_queue\<close>.\<close>

partial_function (option) wakeup_all_del :: "nat \<Rightarrow> nat \<Rightarrow> 32 word \<Rightarrow> kernel \<Rightarrow> kernel option" where
  "wakeup_all_del q w flags k =
     Option.bind (wakeup_wait q w flags True k)
       (\<lambda>k. case wait_queue_first q k of None \<Rightarrow> Some k | Some w \<Rightarrow> wakeup_all_del q w flags k)"

partial_function (option) wakeup_all_keep :: "nat \<Rightarrow> nat \<Rightarrow> 32 word \<Rightarrow> kernel \<Rightarrow> kernel option" where
  "wakeup_all_keep q w flags k =
     Option.bind (wakeup_wait q w flags False k)
       (\<lambda>k. Option.bind (wait_queue_next q w k)
          (\<lambda>r. case r of None \<Rightarrow> Some k | Some w \<Rightarrow> wakeup_all_keep q w flags k))"

definition wakeup_queue :: "nat \<Rightarrow> 32 word \<Rightarrow> bool \<Rightarrow> kernel \<Rightarrow> kernel option" where
  "wakeup_queue q flags del k =
     (case wait_queue_first q k of
        None \<Rightarrow> Some k
      | Some w \<Rightarrow> (if del then wakeup_all_del q w flags k else wakeup_all_keep q w flags k))"

definition wait_current_set :: "nat \<Rightarrow> nat \<Rightarrow> 32 word \<Rightarrow> kernel \<Rightarrow> kernel option" where
  "wait_current_set q w ws k =
     (let k = wait_init w (current k) k;
          k = upd_proc (current k) (\<lambda>g. g\<lparr>state := PROC_SLEEPING\<rparr>) k;
          k = upd_proc (current k) (\<lambda>g. g\<lparr>wait_state := ws\<rparr>) k
      in wait_queue_add q w k)"

definition wait_current_del :: "nat \<Rightarrow> nat \<Rightarrow> kernel \<Rightarrow> kernel option" where
  "wait_current_del q w k = (if wait_in_queue w k then wait_queue_del q w k else Some k)"

section \<open>The queue\<close>

text \<open>\<open>wq_inv k q ws\<close>: the ring of queue \<open>q\<close> holds the waits \<open>ws\<close>, oldest first.\<close>

definition wq_inv :: "kernel \<Rightarrow> nat \<Rightarrow> nat list \<Rightarrow> bool" where
  "wq_inv k q ws \<longleftrightarrow>
     dlist (klinks k) (WaitHead q) (map WaitLink ws) \<and>
     (\<forall>w\<in>set ws. wqueue (waits k w) = Some q \<and> wproc (waits k w) \<noteq> None)"

text \<open>No operation on one kind of node touches the nodes of the other kinds.\<close>

fun run_node :: "knode \<Rightarrow> bool" where
  "run_node RunHead = True"
| "run_node (RunLink _) = True"
| "run_node _ = False"

definition same_links :: "(knode \<Rightarrow> bool) \<Rightarrow> kernel \<Rightarrow> kernel \<Rightarrow> bool" where
  "same_links P k k' \<longleftrightarrow>
     (\<forall>n. P n \<longrightarrow> nxt (klinks k') n = nxt (klinks k) n \<and> prv (klinks k') n = prv (klinks k) n)"

lemma same_linksD: "same_links P k k' \<Longrightarrow> P n \<Longrightarrow> nxt (klinks k') n = nxt (klinks k) n \<and> prv (klinks k') n = prv (klinks k) n"
  by (simp add: same_links_def)

lemma same_links_trans: "same_links P k k' \<Longrightarrow> same_links P k' k'' \<Longrightarrow> same_links P k k''"
  by (simp add: same_links_def)

lemma same_links_refl [simp]: "same_links P k k" by (simp add: same_links_def)

lemma dlist_same_links:
  assumes "dlist (klinks k) h xs" and "same_links P k k'" and "\<forall>x\<in>set (h # xs). P x"
  shows "dlist (klinks k') h xs"
proof -
  have "dlist (klinks k') h xs = dlist (klinks k) h xs"
    by (rule dlist_cong) (use assms(2,3) in \<open>auto simp: same_links_def\<close>)
  then show ?thesis using assms(1) by simp
qed

lemma wq_inv_same:
  assumes "wq_inv k q ws" and "same_links (\<lambda>n. \<not> run_node n) k k'" and "waits k' = waits k"
  shows "wq_inv k' q ws"
proof -
  have "dlist (klinks k') (WaitHead q) (map WaitLink ws)"
    by (rule dlist_same_links [OF _ assms(2)]) (use assms(1) in \<open>auto simp: wq_inv_def\<close>)
  then show ?thesis using assms(1,3) by (simp add: wq_inv_def)
qed

lemma rq_inv_same:
  assumes "rq_inv k ps" and "same_links run_node k k'"
    and "procs k' = procs k" "proc_num k' = proc_num k" "idleproc k' = idleproc k"
  shows "rq_inv k' ps"
proof (rule rq_inv_cong [OF assms(1)])
  fix n assume "(\<exists>t. n = RunLink t) \<or> n = RunHead"
  then show "nxt (klinks k') n = nxt (klinks k) n \<and> prv (klinks k') n = prv (klinks k) n"
    by (intro same_linksD [OF assms(2)]) auto
qed (use assms in auto)

lemma enqueued_same_links:
  assumes "rq_inv k ps"
  shows "same_links (\<lambda>n. \<not> run_node n) k (enqueued p k)"
proof -
  have "dlist (klinks k) RunHead (map RunLink ps)" using assms by (simp add: rq_inv_def)
  note fr = frame_add_before_head [OF this, of _ "RunLink p"]
  have "n \<notin> set (RunHead # map RunLink ps) \<and> n \<noteq> RunLink p" if "\<not> run_node n" for n using that by auto
  then show ?thesis using fr by (auto simp: same_links_def)
qed

lemma wakeup_same_links:
  assumes "sched_inv k ps" and "wakeup_proc p k = Some k'" and "length ps + 2 < 2 ^ 32"
  shows "same_links (\<lambda>n. \<not> run_node n) k k' \<and> waits k' = waits k \<and> sems k' = sems k"
proof (cases "RR_enqueue p (woken p k) = Some k' \<and> state (procs k p) \<noteq> PROC_RUNNABLE \<and> p \<noteq> idleproc k")
  case True
  have w: "rq_inv (woken p k) ps" unfolding woken_def
    using assms(1) by (intro rq_inv_upd_proc) (auto simp: sched_inv_def)
  have "p \<notin> set ps" using True assms(1) by (auto simp: sched_inv_def rq_inv_def)
  then have "k' = enqueued p (woken p k)"
    using RR_enqueue_ok(1) [OF w, of p] True assms(3) by (simp add: woken_def)
  moreover have "same_links (\<lambda>n. \<not> run_node n) k (woken p k)" by (simp add: same_links_def woken_def)
  ultimately show ?thesis using same_links_trans [OF _ enqueued_same_links [OF w]] by (simp add: woken_def)
next
  case False
  then have "k' = k \<or> k' = woken p k" using assms(2) by (auto simp: wakeup_proc_cases split: if_splits)
  then show ?thesis by (elim disjE) (simp_all add: same_links_def woken_def)
qed

lemma dequeue_same_links:
  assumes "rq_inv k ps" and "p \<in> set ps" and "RR_dequeue p k = Some k'"
  shows "same_links (\<lambda>n. \<not> run_node n) k k'"
proof -
  have d: "dlist (klinks k) RunHead (map RunLink ps)" using assms(1) by (simp add: rq_inv_def)
  have m: "RunLink p \<in> set (map RunLink ps)" using assms(2) by simp
  have "klinks k' = list_del_init (RunLink p) (klinks k)"
    using assms(3) by (auto simp: RR_dequeue_def split: bind_splits if_splits)
  moreover have "n \<notin> set (RunHead # map RunLink ps)" if "\<not> run_node n" for n using that by auto
  ultimately show ?thesis using frame_del_init [OF d m] by (simp add: same_links_def)
qed

text \<open>\<^verbatim>\<open>schedule\<close> changes no node, wait or semaphore, and no \<^verbatim>\<open>wait_state\<close>.\<close>

lemma schedule_frame:
  assumes inv: "sched_inv k ps" and run: "schedule k = Some k'"
  shows "same_links (\<lambda>n. \<not> run_node n) k k' \<and> waits k' = waits k \<and> sems k' = sems k \<and>
     (\<forall>p. wait_state (procs k' p) = wait_state (procs k p))"
proof -
  define k1 where "k1 = upd_proc (current k) (\<lambda>g. g\<lparr>need_resched := False\<rparr>) k"
  from schedule_requeue [OF inv, folded k1_def] obtain k2 where
    k2: "(if state (procs k1 (current k1)) = PROC_RUNNABLE then sched_class_enqueue (current k1) k1 else Some k1) = Some k2"
    and i2: "rq_inv k2 (requeued k ps)" by blast
  have i1: "rq_inv k1 ps" unfolding k1_def
    using inv by (intro rq_inv_upd_proc) (auto simp: sched_inv_def rq_inv_def)
  have "k2 = k1 \<or> k2 = enqueued (current k) k1"
  proof (cases "state (procs k1 (current k1)) = PROC_RUNNABLE \<and> current k1 \<noteq> idleproc k1")
    case True
    then show ?thesis using k2 RR_enqueue_ok(1) [OF i1, of "current k"] inv
      by (simp add: sched_class_enqueue_def k1_def sched_inv_def)
  next
    case False
    then show ?thesis using k2 by (auto simp: sched_class_enqueue_def split: if_splits)
  qed
  then have f2: "same_links (\<lambda>n. \<not> run_node n) k k2" "waits k2 = waits k" "sems k2 = sems k"
      "\<And>p. wait_state (procs k2 p) = wait_state (procs k p)"
    using enqueued_same_links [OF i1] by (auto simp: k1_def same_links_def)
  from run k2 obtain k3 where k3: "(case sched_class_pick_next k2 of Some p \<Rightarrow> sched_class_dequeue p k2 | None \<Rightarrow> Some k2) = Some k3"
    and k': "klinks k' = klinks k3" "waits k' = waits k3" "sems k' = sems k3"
      "\<And>p. wait_state (procs k' p) = wait_state (procs k3 p)"
    by (auto simp: schedule_def Let_def k1_def [symmetric] proc_run_def split: bind_splits if_splits)
  have "same_links (\<lambda>n. \<not> run_node n) k2 k3 \<and> waits k3 = waits k2 \<and> sems k3 = sems k2 \<and> procs k3 = procs k2"
  proof (cases "requeued k ps")
    case Nil
    then show ?thesis using k3 RR_pick_next_ok [OF i2] by (simp add: sched_class_pick_next_def)
  next
    case (Cons q qs)
    then have dq: "RR_dequeue q k2 = Some k3"
      using k3 RR_pick_next_ok [OF i2] by (simp add: sched_class_pick_next_def sched_class_dequeue_def)
    have "waits k3 = waits k2 \<and> sems k3 = sems k2 \<and> procs k3 = procs k2"
      using dq by (auto simp: RR_dequeue_def split: bind_splits if_splits)
    then show ?thesis using dequeue_same_links [OF i2 _ dq] Cons by simp
  qed
  then show ?thesis using f2 k' by (simp add: same_links_def)
qed

lemma wait_queue_first_ok:
  assumes "wq_inv k q ws"
  shows "wait_queue_first q k = (case ws of [] \<Rightarrow> None | w # _ \<Rightarrow> Some w)"
  using dlist_first [of "klinks k" "WaitHead q" "map WaitLink ws"] assms
  by (cases ws) (auto simp: wait_queue_first_def le2wait_def wq_inv_def)

lemma wait_queue_next_ok:
  assumes "wq_inv k q (us @ w # ws)"
  shows "wait_queue_next q w k = Some (case ws of [] \<Rightarrow> None | v # _ \<Rightarrow> Some v)"
proof -
  have d: "dlist (klinks k) (WaitHead q) (map WaitLink us @ WaitLink w # map WaitLink ws)"
    and w: "wqueue (waits k w) = Some q" using assms by (simp_all add: wq_inv_def)
  show ?thesis
    using dlist_neighbours(2) [OF d] dlist_member_not_empty [OF d, of "WaitLink w"] w
    by (cases ws) (auto simp: wait_queue_next_def le2wait_def list_next_def)
qed

lemma wait_queue_empty_ok: "wq_inv k q ws \<Longrightarrow> wait_queue_empty q k \<longleftrightarrow> ws = []"
  using dlist_empty [of "klinks k" "WaitHead q" "map WaitLink ws"]
  by (simp add: wait_queue_empty_def wq_inv_def)

lemma wait_queue_add_ok:
  assumes "wq_inv k q ws" and "w \<notin> set ws" and "list_empty (WaitLink w) (klinks k)" and "wproc (waits k w) \<noteq> None"
  shows "\<exists>k'. wait_queue_add q w k = Some k' \<and> wq_inv k' q (ws @ [w]) \<and> same_links run_node k k' \<and>
     procs k' = procs k \<and> current k' = current k \<and> idleproc k' = idleproc k \<and> proc_num k' = proc_num k \<and>
     sems k' = sems k \<and> (\<forall>v. wproc (waits k' v) = wproc (waits k v))"
proof -
  have d: "dlist (klinks k) (WaitHead q) (map WaitLink ws)" using assms(1) by (simp add: wq_inv_def)
  have "dlist (list_add_before (WaitHead q) (WaitLink w) (klinks k)) (WaitHead q) (map WaitLink (ws @ [w]))"
    using dlist_add_before_head [OF d, of "WaitLink w"] assms(2) by auto
  moreover have "same_links run_node k (upd_klinks (list_add_before (WaitHead q) (WaitLink w)) k)"
  proof -
    have "n \<notin> set (WaitHead q # WaitLink w # map WaitLink ws)" if "run_node n" for n using that by auto
    then show ?thesis using frame_add_before_head [OF d] by (simp add: same_links_def)
  qed
  ultimately show ?thesis using assms
    by (intro exI) (auto simp: wait_queue_add_def wq_inv_def same_links_def)
qed

lemma wait_queue_del_ok:
  assumes "wq_inv k q ws" and "w \<in> set ws"
  shows "\<exists>k'. wait_queue_del q w k = Some k' \<and> wq_inv k' q (remove1 w ws) \<and> same_links run_node k k' \<and>
     procs k' = procs k \<and> current k' = current k \<and> idleproc k' = idleproc k \<and> proc_num k' = proc_num k \<and>
     sems k' = sems k \<and> waits k' = waits k \<and> list_empty (WaitLink w) (klinks k')"
proof -
  have d: "dlist (klinks k) (WaitHead q) (map WaitLink ws)" using assms(1) by (simp add: wq_inv_def)
  have m: "WaitLink w \<in> set (map WaitLink ws)" using assms(2) by simp
  have map_rem: "remove1 (WaitLink w) (map WaitLink ws) = map WaitLink (remove1 w ws)" by (induction ws) auto
  have "dlist (list_del_init (WaitLink w) (klinks k)) (WaitHead q) (map WaitLink (remove1 w ws))"
    using dlist_del_init_remove1 [OF d m] unfolding map_rem .
  moreover have "same_links run_node k (upd_klinks (list_del_init (WaitLink w)) k)"
  proof -
    have "n \<notin> set (WaitHead q # map WaitLink ws)" if "run_node n" for n using that by auto
    then show ?thesis using frame_del_init [OF d m] by (simp add: same_links_def)
  qed
  moreover have "\<forall>v\<in>set (remove1 w ws). v \<in> set ws" using set_remove1_subset [of w ws] by blast
  ultimately show ?thesis using assms dlist_member_not_empty [OF d m]
    by (intro exI) (auto simp: wait_queue_del_def wq_inv_def list_del_init_empty)
qed

definition waiter :: "kernel \<Rightarrow> nat \<Rightarrow> nat" where
  "waiter k w = the (wproc (waits k w))"

text \<open>What waking \<open>p\<close> appends to the run queue.\<close>

definition joins :: "kernel \<Rightarrow> nat \<Rightarrow> nat list" where
  "joins k p = (if state (procs k p) = PROC_RUNNABLE \<or> p = current k \<or> p = idleproc k then [] else [p])"

lemma joins_bound: "set (joins k p) \<subseteq> {p}" "length (joins k p) \<le> 1"
  by (simp_all add: joins_def)

lemma wakeup_wait_ok:
  assumes s: "sched_inv k ps" and q: "wq_inv k q ws" and w: "w \<in> set ws"
    and z: "state (procs k (waiter k w)) \<noteq> PROC_ZOMBIE" and sz: "length ps + 2 < 2 ^ 32"
  shows "\<exists>k'. wakeup_wait q w f del k = Some k' \<and> wq_inv k' q (if del then remove1 w ws else ws) \<and>
     sched_inv k' (ps @ joins k (waiter k w)) \<and>
     state (procs k' (waiter k w)) = PROC_RUNNABLE \<and> (\<forall>p. p \<noteq> waiter k w \<longrightarrow> procs k' p = procs k p) \<and>
     (\<forall>v. waiter k' v = waiter k v) \<and> wakeup_flags (waits k' w) = f \<and> sems k' = sems k \<and>
     current k' = current k \<and> idleproc k' = idleproc k \<and> (del \<longrightarrow> \<not> wait_in_queue w k')"
proof -
  let ?ws = "if del then remove1 w ws else ws"
  obtain k1 where k1: "(if del then wait_queue_del q w k else Some k) = Some k1" "wq_inv k1 q ?ws"
    "same_links run_node k k1" "procs k1 = procs k" "current k1 = current k" "idleproc k1 = idleproc k"
    "proc_num k1 = proc_num k" "sems k1 = sems k" "waits k1 = waits k" "del \<longrightarrow> list_empty (WaitLink w) (klinks k1)"
    using wait_queue_del_ok [OF q w] q by (cases del) auto
  define k2 where "k2 = upd_wait w (\<lambda>v. v\<lparr>wakeup_flags := f\<rparr>) k1"
  have p: "wproc (waits k2 w) = Some (waiter k w)" using q w k1(9) by (auto simp: wq_inv_def waiter_def k2_def)
  have r: "rq_inv k ps" using s by (simp add: sched_inv_def)
  have "same_links run_node k k2" using k1(3) by (simp add: same_links_def k2_def)
  from rq_inv_same [OF r this] have "rq_inv k2 ps" using k1(4-7) by (simp add: k2_def)
  then have s2: "sched_inv k2 ps" using s k1 by (simp add: sched_inv_def k2_def)
  have z2: "state (procs k2 (waiter k w)) \<noteq> PROC_ZOMBIE" using z k1 by (simp add: k2_def)
  from wakeup_proc_ok [OF s2 z2 sz] obtain k3 where k3: "wakeup_proc (waiter k w) k2 = Some k3"
    "current k3 = current k2" "idleproc k3 = idleproc k2" "state (procs k3 (waiter k w)) = PROC_RUNNABLE"
    "\<forall>q. q \<noteq> waiter k w \<longrightarrow> procs k3 q = procs k2 q"
    "sched_inv k3 (if state (procs k2 (waiter k w)) = PROC_RUNNABLE \<or> waiter k w = current k2 \<or> waiter k w = idleproc k2
                    then ps else ps @ [waiter k w])" by blast
  have sj: "sched_inv k3 (ps @ joins k (waiter k w))"
    using k3(6) k1(4-6) by (auto simp: joins_def k2_def split: if_splits)
  note fr = wakeup_same_links [OF s2 k3(1) sz]
  have q2: "wq_inv k2 q ?ws" using k1(2) by (auto simp: wq_inv_def k2_def)
  moreover have "wq_inv k3 q ?ws" using wq_inv_same [OF q2] fr by blast
  moreover have "wakeup_wait q w f del k = Some k3"
    using k1(1) k3(1) p by (simp add: wakeup_wait_def k2_def)
  moreover have "del \<longrightarrow> \<not> wait_in_queue w k3"
    using k1(10) fr by (simp add: wait_in_queue_def list_empty_def same_links_def k2_def)
  moreover have "\<forall>v. waiter k3 v = waiter k v" "wakeup_flags (waits k3 w) = f"
    using fr k1(9) by (simp_all add: waiter_def k2_def)
  ultimately show ?thesis using k1(4-8) k3(2-5) fr sj
    by (intro exI [of _ k3] conjI) (simp_all add: k2_def)
qed

lemma wakeup_all_del_ok:
  assumes "sched_inv k ps" and "wq_inv k q (w # ws)"
    and "\<forall>v\<in>set (w # ws). state (procs k (waiter k v)) \<noteq> PROC_ZOMBIE"
    and "length ps + length ws + 2 < 2 ^ 32"
  shows "\<exists>k' rs. wakeup_all_del q w f k = Some k' \<and> wq_inv k' q [] \<and> sched_inv k' (ps @ rs) \<and>
     set rs \<subseteq> waiter k ` set (w # ws) \<and> (\<forall>p\<in>waiter k ` set (w # ws). state (procs k' p) = PROC_RUNNABLE) \<and>
     (\<forall>p. p \<notin> waiter k ` set (w # ws) \<longrightarrow> procs k' p = procs k p) \<and> current k' = current k"
  using assms
proof (induction ws arbitrary: k ps w)
  case Nil
  from wakeup_wait_ok [OF Nil.prems(1,2), of w f True] Nil.prems(3,4) obtain k' where k':
    "wakeup_wait q w f True k = Some k'" "wq_inv k' q []" "sched_inv k' (ps @ joins k (waiter k w))"
    "state (procs k' (waiter k w)) = PROC_RUNNABLE" "\<forall>p. p \<noteq> waiter k w \<longrightarrow> procs k' p = procs k p" "current k' = current k"
    by auto
  have "wakeup_all_del q w f k = Some k'"
    using k'(1) wait_queue_first_ok [OF k'(2)] by (subst wakeup_all_del.simps) simp
  then show ?case using k' joins_bound(1) [of k "waiter k w"]
    by (intro exI [of _ k'] exI [of _ "joins k (waiter k w)"]) auto
next
  case (Cons v ws)
  from wakeup_wait_ok [OF Cons.prems(1,2), of w f True] Cons.prems(3,4) obtain k1 where k1:
    "wakeup_wait q w f True k = Some k1" "wq_inv k1 q (v # ws)" "sched_inv k1 (ps @ joins k (waiter k w))" "state (procs k1 (waiter k w)) = PROC_RUNNABLE"
    "\<forall>p. p \<noteq> waiter k w \<longrightarrow> procs k1 p = procs k p" "current k1 = current k" "\<forall>v. waiter k1 v = waiter k v"
    by auto
  have "\<forall>u\<in>set (v # ws). state (procs k1 (waiter k1 u)) \<noteq> PROC_ZOMBIE"
  proof
    fix u assume "u \<in> set (v # ws)"
    then show "state (procs k1 (waiter k1 u)) \<noteq> PROC_ZOMBIE"
      using Cons.prems(3) k1(4,5,7) by (cases "waiter k u = waiter k w") auto
  qed
  moreover have "length (ps @ joins k (waiter k w)) + length ws + 2 < 2 ^ 32"
    using Cons.prems(4) joins_bound(2) [of k "waiter k w"] by simp
  ultimately obtain k2 rs2 where k2: "wakeup_all_del q v f k1 = Some k2" "wq_inv k2 q []"
    "sched_inv k2 ((ps @ joins k (waiter k w)) @ rs2)" "set rs2 \<subseteq> waiter k1 ` set (v # ws)"
    "\<forall>p\<in>waiter k1 ` set (v # ws). state (procs k2 p) = PROC_RUNNABLE"
    "\<forall>p. p \<notin> waiter k1 ` set (v # ws) \<longrightarrow> procs k2 p = procs k1 p" "current k2 = current k1"
    using Cons.IH [OF k1(3,2)] by blast
  have run: "wakeup_all_del q w f k = Some k2"
    using k1(1) k2(1) wait_queue_first_ok [OF k1(2)] by (subst wakeup_all_del.simps) simp
  have im: "waiter k1 ` set (v # ws) = waiter k ` set (v # ws)" using k1(7) by auto
  have "state (procs k2 p) = PROC_RUNNABLE" if "p \<in> waiter k ` set (w # v # ws)" for p
    using that k2(5,6) k1(4) unfolding im by (cases "p \<in> waiter k ` set (v # ws)") auto
  then show ?case using run k2 k1 joins_bound(1) [of k "waiter k w"] unfolding im
    by (intro exI [of _ k2] exI [of _ "joins k (waiter k w) @ rs2"]) auto
qed

lemma wakeup_all_keep_ok:
  assumes "sched_inv k ps" and "wq_inv k q (us @ w # ws)"
    and "\<forall>v\<in>set (w # ws). state (procs k (waiter k v)) \<noteq> PROC_ZOMBIE"
    and "length ps + length ws + 2 < 2 ^ 32"
  shows "\<exists>k' rs. wakeup_all_keep q w f k = Some k' \<and> wq_inv k' q (us @ w # ws) \<and> sched_inv k' (ps @ rs) \<and>
     set rs \<subseteq> waiter k ` set (w # ws) \<and> (\<forall>p\<in>waiter k ` set (w # ws). state (procs k' p) = PROC_RUNNABLE) \<and>
     (\<forall>p. p \<notin> waiter k ` set (w # ws) \<longrightarrow> procs k' p = procs k p) \<and> current k' = current k"
  using assms
proof (induction ws arbitrary: k ps w us)
  case Nil
  from wakeup_wait_ok [OF Nil.prems(1,2), of w f False] Nil.prems(3,4) obtain k' where k':
    "wakeup_wait q w f False k = Some k'" "wq_inv k' q (us @ [w])" "sched_inv k' (ps @ joins k (waiter k w))"
    "state (procs k' (waiter k w)) = PROC_RUNNABLE" "\<forall>p. p \<noteq> waiter k w \<longrightarrow> procs k' p = procs k p" "current k' = current k"
    by auto
  have "wakeup_all_keep q w f k = Some k'"
    using k'(1) wait_queue_next_ok [of k' q us w "[]"] k'(2) by (subst wakeup_all_keep.simps) simp
  then show ?case using k' joins_bound(1) [of k "waiter k w"]
    by (intro exI [of _ k'] exI [of _ "joins k (waiter k w)"]) auto
next
  case (Cons v ws)
  from wakeup_wait_ok [OF Cons.prems(1,2), of w f False] Cons.prems(3,4) obtain k1 where k1:
    "wakeup_wait q w f False k = Some k1" "wq_inv k1 q (us @ w # v # ws)" "sched_inv k1 (ps @ joins k (waiter k w))" "state (procs k1 (waiter k w)) = PROC_RUNNABLE"
    "\<forall>p. p \<noteq> waiter k w \<longrightarrow> procs k1 p = procs k p" "current k1 = current k" "\<forall>v. waiter k1 v = waiter k v"
    by auto
  have z: "\<forall>u\<in>set (v # ws). state (procs k1 (waiter k1 u)) \<noteq> PROC_ZOMBIE"
  proof
    fix u assume "u \<in> set (v # ws)"
    then show "state (procs k1 (waiter k1 u)) \<noteq> PROC_ZOMBIE"
      using Cons.prems(3) k1(4,5,7) by (cases "waiter k u = waiter k w") auto
  qed
  have sz: "length (ps @ joins k (waiter k w)) + length ws + 2 < 2 ^ 32"
    using Cons.prems(4) joins_bound(2) [of k "waiter k w"] by simp
  have q1: "wq_inv k1 q ((us @ [w]) @ v # ws)" using k1(2) by simp
  from Cons.IH [OF k1(3) q1 z sz] obtain k2 rs2 where k2: "wakeup_all_keep q v f k1 = Some k2" "wq_inv k2 q (us @ w # v # ws)"
    "sched_inv k2 ((ps @ joins k (waiter k w)) @ rs2)" "set rs2 \<subseteq> waiter k1 ` set (v # ws)"
    "\<forall>p\<in>waiter k1 ` set (v # ws). state (procs k2 p) = PROC_RUNNABLE"
    "\<forall>p. p \<notin> waiter k1 ` set (v # ws) \<longrightarrow> procs k2 p = procs k1 p" "current k2 = current k1"
    by auto
  have run: "wakeup_all_keep q w f k = Some k2"
    using k1(1) k2(1) wait_queue_next_ok [OF k1(2)] by (subst wakeup_all_keep.simps) simp
  have im: "waiter k1 ` set (v # ws) = waiter k ` set (v # ws)" using k1(7) by auto
  have "state (procs k2 p) = PROC_RUNNABLE" if "p \<in> waiter k ` set (w # v # ws)" for p
    using that k2(5,6) k1(4) unfolding im by (cases "p \<in> waiter k ` set (v # ws)") auto
  then show ?case using run k2 k1 joins_bound(1) [of k "waiter k w"] unfolding im
    by (intro exI [of _ k2] exI [of _ "joins k (waiter k w) @ rs2"]) auto
qed

text \<open>Going to sleep: a fresh wait of the current process joins the queue and the processor goes to the next runnable
  process.\<close>

lemma wait_init_ok:
  assumes "wq_inv k q ws" and "w \<notin> set ws"
  shows "wq_inv (wait_init w p k) q ws" "same_links run_node k (wait_init w p k)"
    "list_empty (WaitLink w) (klinks (wait_init w p k))" "waiter (wait_init w p k) w = p"
    "\<forall>v. v \<noteq> w \<longrightarrow> waiter (wait_init w p k) v = waiter k v"
proof -
  have "dlist (list_init (WaitLink w) (klinks k)) (WaitHead q) (map WaitLink ws)"
    using assms by (intro dlist_list_init_other) (auto simp: wq_inv_def)
  then show "wq_inv (wait_init w p k) q ws" using assms by (auto simp: wq_inv_def wait_init_def)
qed (auto simp: wait_init_def same_links_def list_init_def list_empty_def waiter_def)

lemma wait_current_set_ok:
  assumes s: "sched_inv k ps" and q: "wq_inv k q ws" and w: "w \<notin> set ws"
  obtains k1 where "wait_current_set q w f k = Some k1" "sched_inv k1 ps" "wq_inv k1 q (ws @ [w])"
    "procs k1 = (procs k)(current k := (procs k (current k))\<lparr>state := PROC_SLEEPING, wait_state := f\<rparr>)"
    "current k1 = current k" "idleproc k1 = idleproc k" "sems k1 = sems k"
    "\<And>v. waiter k1 v = (if v = w then current k else waiter k v)"
proof -
  note wi = wait_init_ok [OF q w, of "current k"]
  let ?set = "upd_proc (current k) (\<lambda>g. g\<lparr>state := PROC_SLEEPING, wait_state := f\<rparr>)"
  define k1 where "k1 = ?set (wait_init w (current k) k)"
  have set: "wait_current_set q w f k = wait_queue_add q w k1"
    by (simp add: wait_current_set_def k1_def Let_def wait_init_def upd_proc_def)
  have q1: "wq_inv k1 q ws" and e1: "list_empty (WaitLink w) (klinks k1)" using wi by (simp_all add: k1_def wq_inv_def)
  have f1: "procs k1 = procs (?set k)" "current k1 = current k" "idleproc k1 = idleproc k" "proc_num k1 = proc_num k"
    "sems k1 = sems k" "wproc (waits k1 w) = Some (current k)" "waiter k1 v = (if v = w then current k else waiter k v)" for v
    using wi(5) by (auto simp: k1_def wait_init_def waiter_def)
  have l1: "same_links run_node k k1" using wi(2) by (simp add: k1_def same_links_def)
  from wait_queue_add_ok [OF q1 w e1] f1(6) obtain k2 where k2: "wait_queue_add q w k1 = Some k2"
    "wq_inv k2 q (ws @ [w])" "same_links run_node k1 k2" "procs k2 = procs k1" "current k2 = current k1"
    "idleproc k2 = idleproc k1" "proc_num k2 = proc_num k1" "sems k2 = sems k1"
    "\<forall>v. wproc (waits k2 v) = wproc (waits k1 v)" by auto
  have r0: "rq_inv (?set k) ps" using s by (intro rq_inv_upd_proc) (auto simp: sched_inv_def)
  have "same_links run_node (?set k) k2" using same_links_trans [OF l1 k2(3)] by (simp add: same_links_def)
  from rq_inv_same [OF r0 this] f1 k2 have "rq_inv k2 ps" by simp
  then have "sched_inv k2 ps" using s f1 k2 by (simp add: sched_inv_def)
  moreover have "waiter k2 v = (if v = w then current k else waiter k v)" for v using k2(9) f1(7) [of v] by (simp add: waiter_def)
  ultimately show thesis using set k2 f1 by (intro that [of k2]) simp_all
qed

lemma sleep_ok:
  assumes s: "sched_inv k ps" and q: "wq_inv k q ws" and w: "w \<notin> set ws"
  obtains k1 k' where "wait_current_set q w f k = Some k1" "schedule k1 = Some k'"
    "sched_inv k' (tl ps)" "wq_inv k' q (ws @ [w])" "sems k' = sems k" "idleproc k' = idleproc k"
    "current k' = (case ps of [] \<Rightarrow> idleproc k | p # _ \<Rightarrow> p)"
    "\<And>v. waiter k' v = (if v = w then current k else waiter k v)"
    "\<And>p. state (procs k' p) = (if p = current k then PROC_SLEEPING else state (procs k p))"
    "\<And>p. wait_state (procs k' p) = (if p = current k then f else wait_state (procs k p))"
proof -
  obtain k1 where k1: "wait_current_set q w f k = Some k1" "sched_inv k1 ps" "wq_inv k1 q (ws @ [w])"
    "procs k1 = (procs k)(current k := (procs k (current k))\<lparr>state := PROC_SLEEPING, wait_state := f\<rparr>)"
    "current k1 = current k" "idleproc k1 = idleproc k" "sems k1 = sems k"
    "\<And>v. waiter k1 v = (if v = w then current k else waiter k v)" by (rule wait_current_set_ok [OF s q w, where f = f]) (rule that; assumption)
  have rq: "requeued k1 ps = ps" using k1 by (simp add: requeued_def)
  from schedule_ok [OF k1(2), unfolded rq k1(6)] obtain k' where k': "schedule k1 = Some k'"
    "current k' = (case ps of [] \<Rightarrow> idleproc k | p # _ \<Rightarrow> p)" "sched_inv k' (tl ps)" "idleproc k' = idleproc k"
    "\<forall>p. state (procs k' p) = state (procs k1 p)" by blast
  note fr = schedule_frame [OF k1(2) k'(1)]
  have "wq_inv k' q (ws @ [w])" using wq_inv_same [OF k1(3)] fr by blast
  moreover have "waiter k' v = (if v = w then current k else waiter k v)" for v using fr k1(8) [of v] by (simp add: waiter_def)
  moreover have "state (procs k' p) = (if p = current k then PROC_SLEEPING else state (procs k p))"
    "wait_state (procs k' p) = (if p = current k then f else wait_state (procs k p))" for p
    using k'(5) fr k1(4) by simp_all
  ultimately show thesis using k1(1,7) k' fr by (intro that [of k1 k']) simp_all
qed

section \<open>The properties\<close>

text \<open>\<^verbatim>\<open>wakeup_queue\<close> terminates without a panic and wakes every waiting process and no other, with both
  values of \<^verbatim>\<open>del\<close>; it empties the queue when \<^verbatim>\<open>del\<close> is set and leaves it as it is otherwise.\<close>

theorem wakeup_queue_wakes_all:
  assumes s: "sched_inv k ps" and q: "wq_inv k q ws"
    and z: "\<forall>v\<in>set ws. state (procs k (waiter k v)) \<noteq> PROC_ZOMBIE"
    and sz: "length ps + length ws + 2 < 2 ^ 32"
  shows "\<exists>k' rs. wakeup_queue q f del k = Some k' \<and> wq_inv k' q (if del then [] else ws) \<and>
     sched_inv k' (ps @ rs) \<and> set rs \<subseteq> waiter k ` set ws \<and>
     (\<forall>p\<in>waiter k ` set ws. state (procs k' p) = PROC_RUNNABLE) \<and>
     (\<forall>p. p \<notin> waiter k ` set ws \<longrightarrow> procs k' p = procs k p) \<and> current k' = current k"
proof (cases ws)
  case Nil
  then have "wakeup_queue q f del k = Some k" using wait_queue_first_ok [OF q] by (simp add: wakeup_queue_def)
  then show ?thesis using Nil s q by (intro exI [of _ k] exI [of _ "[]"]) simp
next
  case (Cons w vs)
  have first: "wait_queue_first q k = Some w" using wait_queue_first_ok [OF q] Cons by simp
  show ?thesis
  proof (cases del)
    case True
    then show ?thesis using wakeup_all_del_ok [OF s, of q w vs f] q z sz Cons first
      by (auto simp: wakeup_queue_def)
  next
    case False
    then show ?thesis using wakeup_all_keep_ok [OF s, of q "[]" w vs f] q z sz Cons first
      by (auto simp: wakeup_queue_def)
  qed
qed

text \<open>Two waiters, process 4 in wait 0 and process 5 in wait 1, on queue 9 of the sample kernel.\<close>

definition waiting_kernel :: kernel where
  "waiting_kernel = the (wait_queue_add 9 1 (the (wait_queue_add 9 0 (wait_queue_init 9
     (wait_init 1 5 (wait_init 0 4 sample_kernel))))))"

lemma list_init_same:
  assumes "\<not> run_node n"
  shows "same_links run_node k (upd_klinks (list_init n) k)"
  using assms by (auto simp: same_links_def list_init_def)

lemma waiting_kernel_inv:
  "sched_inv waiting_kernel [2, 3]" "wq_inv waiting_kernel 9 [0, 1]"
  "waiter waiting_kernel 0 = 4" "waiter waiting_kernel 1 = 5" "procs waiting_kernel = procs sample_kernel"
  "sems waiting_kernel = sems sample_kernel" "current waiting_kernel = 1" "idleproc waiting_kernel = 0"
proof -
  define k0 where "k0 = wait_queue_init 9 (wait_init 1 5 (wait_init 0 4 sample_kernel))"
  have l0: "same_links run_node sample_kernel k0"
    unfolding k0_def wait_queue_init_def wait_init_def
    by (auto simp: same_links_def list_init_def)
  have f0: "procs k0 = procs sample_kernel" "current k0 = 1" "idleproc k0 = 0" "proc_num k0 = proc_num sample_kernel"
    "wproc (waits k0 0) = Some 4" "wproc (waits k0 1) = Some 5" "sems k0 = sems sample_kernel"
    by (simp_all add: k0_def wait_queue_init_def wait_init_def)
  have q0: "wq_inv k0 9 []" by (simp add: k0_def wait_queue_init_def wq_inv_def dlist_init)
  have e: "list_empty (WaitLink 0) (klinks k0)" "list_empty (WaitLink 1) (klinks k0)"
    by (simp_all add: k0_def wait_queue_init_def wait_init_def list_empty_def list_init_def)
  from wait_queue_add_ok [OF q0 _ e(1)] f0 obtain k1 where k1: "wait_queue_add 9 0 k0 = Some k1" "wq_inv k1 9 [0]"
    "same_links run_node k0 k1" "procs k1 = procs k0" "current k1 = current k0" "idleproc k1 = idleproc k0"
    "proc_num k1 = proc_num k0" "sems k1 = sems k0" "\<forall>v. wproc (waits k1 v) = wproc (waits k0 v)" by auto
  have "klinks k1 = list_add_before (WaitHead 9) (WaitLink 0) (klinks k0)"
    using k1(1) by (auto simp: wait_queue_add_def split: bind_splits if_splits)
  then have e1: "list_empty (WaitLink 1) (klinks k1)"
    using e(2) frame_add_before_head [of "klinks k0" "WaitHead 9" "[]" "WaitLink 1" "WaitLink 0"] q0
    by (simp add: list_empty_def wq_inv_def)
  have "wproc (waits k1 1) \<noteq> None" using k1(9) f0 by simp
  from wait_queue_add_ok [OF k1(2) _ e1 this] obtain k2 where k2: "wait_queue_add 9 1 k1 = Some k2" "wq_inv k2 9 [0, 1]"
    "same_links run_node k1 k2" "procs k2 = procs k1" "current k2 = current k1" "idleproc k2 = idleproc k1"
    "proc_num k2 = proc_num k1" "sems k2 = sems k1" "\<forall>v. wproc (waits k2 v) = wproc (waits k1 v)" by auto
  have wk: "waiting_kernel = k2" unfolding waiting_kernel_def k0_def [symmetric] k1(1) by (simp only: option.sel k2(1))
  have "rq_inv sample_kernel [2, 3]" using sample_kernel_inv by (simp add: sched_inv_def)
  from rq_inv_same [OF this, of k2] same_links_trans [OF l0 same_links_trans [OF k1(3) k2(3)]]
  have "rq_inv k2 [2, 3]" using f0 k1 k2 by simp
  then show "sched_inv waiting_kernel [2, 3]" by (simp add: sched_inv_def wk k2 k1 f0)
  show "wq_inv waiting_kernel 9 [0, 1]" "waiter waiting_kernel 0 = 4" "waiter waiting_kernel 1 = 5"
    "procs waiting_kernel = procs sample_kernel" "sems waiting_kernel = sems sample_kernel"
    "current waiting_kernel = 1" "idleproc waiting_kernel = 0"
    using k1 k2 f0 by (simp_all add: wk waiter_def)
qed

theorem wakeup_queue_wakes_all_witness:
  "\<exists>k'. wakeup_queue 9 WT_KSEM True waiting_kernel = Some k' \<and> wq_inv k' 9 [] \<and>
     state (procs k' 4) = PROC_RUNNABLE \<and> state (procs k' 5) = PROC_RUNNABLE"
  using wakeup_queue_wakes_all [OF waiting_kernel_inv(1,2), of WT_KSEM True] waiting_kernel_inv(3-5)
  by auto

end
