(* ===== verification/Semaphore.thy ===== *)
theory Semaphore
  imports WaitQueue
begin

text \<open>
  The counting semaphores of \<^verbatim>\<open>kern/sync/sem.c\<close>.  The wait queue of the semaphore at address \<open>s\<close> is the queue
  with that address.  \<^verbatim>\<open>__down\<close> gives the processor away in its middle, so it is two atomic steps:
  \<open>down_begin\<close> up to and including the call of \<^verbatim>\<open>schedule\<close>, and \<open>down_end\<close> from its return in the same
  process; \<open>w\<close> is the address of the \<^verbatim>\<open>wait_t\<close> on the caller's stack.  The counter is a mathematical
  integer: its overflow is undefined in C.
\<close>

section \<open>The operations\<close>

definition upd_sem :: "nat \<Rightarrow> (int \<Rightarrow> int) \<Rightarrow> kernel \<Rightarrow> kernel" where
  "upd_sem s f k = k\<lparr>sems := (sems k)(s := f (sems k s))\<rparr>"

lemma upd_sem_sel [simp]:
  "procs (upd_sem s f k) = procs k" "klinks (upd_sem s f k) = klinks k"
  "current (upd_sem s f k) = current k" "idleproc (upd_sem s f k) = idleproc k"
  "proc_num (upd_sem s f k) = proc_num k" "max_time_slice (upd_sem s f k) = max_time_slice k"
  "timers (upd_sem s f k) = timers k" "waits (upd_sem s f k) = waits k"
  "sems (upd_sem s f k) = (sems k)(s := f (sems k s))"
  by (simp_all add: upd_sem_def)

definition sem_init :: "nat \<Rightarrow> int \<Rightarrow> kernel \<Rightarrow> kernel" where
  "sem_init s n k = wait_queue_init s (upd_sem s (\<lambda>_. n) k)"

definition up_with :: "nat \<Rightarrow> 32 word \<Rightarrow> kernel \<Rightarrow> kernel option" where
  "up_with s ws k =
     (case wait_queue_first s k of
        None \<Rightarrow> Some (upd_sem s (\<lambda>n. n + 1) k)
      | Some w \<Rightarrow> do {
          p \<leftarrow> wproc (waits k w);
          kassert (wait_state (procs k p) = ws);
          wakeup_wait s w ws True k
        })"

definition down_begin :: "nat \<Rightarrow> nat \<Rightarrow> 32 word \<Rightarrow> kernel \<Rightarrow> (bool \<times> kernel) option" where
  "down_begin s w ws k =
     (if sems k s > 0 then Some (False, upd_sem s (\<lambda>n. n - 1) k)
      else do {
        k \<leftarrow> wait_current_set s w ws k;
        k \<leftarrow> schedule k;
        Some (True, k)
      })"

definition down_end :: "nat \<Rightarrow> nat \<Rightarrow> 32 word \<Rightarrow> kernel \<Rightarrow> (32 word \<times> kernel) option" where
  "down_end s w ws k = do {
     k \<leftarrow> wait_current_del s w k;
     Some (if wakeup_flags (waits k w) \<noteq> ws then wakeup_flags (waits k w) else 0, k)
   }"

definition up :: "nat \<Rightarrow> kernel \<Rightarrow> kernel option" where
  "up s k = up_with s WT_KSEM k"

text \<open>The end of \<^verbatim>\<open>down\<close>: the return value of \<^verbatim>\<open>__down\<close> must be zero.\<close>

definition down_return :: "nat \<Rightarrow> nat \<Rightarrow> kernel \<Rightarrow> kernel option" where
  "down_return s w k = do {
     (flags, k) \<leftarrow> down_end s w WT_KSEM k;
     kassert (flags = 0);
     Some k
   }"

definition try_down :: "nat \<Rightarrow> kernel \<Rightarrow> bool \<times> kernel" where
  "try_down s k = (if sems k s > 0 then (True, upd_sem s (\<lambda>n. n - 1) k) else (False, k))"

section \<open>The abstract semaphore\<close>

text \<open>
  A counter and the queue of the processes that wait, oldest first.
\<close>

type_synonym asem = "int \<times> nat list"

fun a_up :: "asem \<Rightarrow> asem" where
  "a_up (n, []) = (n + 1, [])"
| "a_up (n, p # qs) = (n, qs)"

fun a_down :: "nat \<Rightarrow> asem \<Rightarrow> asem" where
  "a_down p (n, qs) = (if n > 0 then (n - 1, qs) else (n, qs @ [p]))"

fun asem_ok :: "asem \<Rightarrow> bool" where
  "asem_ok (n, qs) \<longleftrightarrow> 0 \<le> n \<and> (0 < n \<longrightarrow> qs = []) \<and> distinct qs"

lemma asem_ok_steps: "asem_ok a \<Longrightarrow> asem_ok (a_up a)" "asem_ok a \<Longrightarrow> p \<notin> set (snd a) \<Longrightarrow> asem_ok (a_down p a)"
  by (cases a rule: a_up.cases; simp)+

text \<open>
  \<open>sem_inv k ps s ws\<close>: the waits \<open>ws\<close> are the ring of semaphore \<open>s\<close>, their processes sleep for a
  semaphore, and the counter is positive only when nobody waits.
\<close>

definition sem_inv :: "kernel \<Rightarrow> nat list \<Rightarrow> nat \<Rightarrow> nat list \<Rightarrow> bool" where
  "sem_inv k ps s ws \<longleftrightarrow> sched_inv k ps \<and> wq_inv k s ws \<and> asem_ok (sems k s, map (waiter k) ws) \<and>
     (\<forall>w\<in>set ws. state (procs k (waiter k w)) = PROC_SLEEPING \<and> wait_state (procs k (waiter k w)) = WT_KSEM \<and>
        waiter k w \<noteq> idleproc k)"

definition sem_abs :: "kernel \<Rightarrow> nat \<Rightarrow> nat list \<Rightarrow> asem" where
  "sem_abs k s ws = (sems k s, map (waiter k) ws)"

lemma up_empty:
  assumes "sem_inv k ps s []"
  shows "up s k = Some (upd_sem s (\<lambda>n. n + 1) k)" "sem_inv (upd_sem s (\<lambda>n. n + 1) k) ps s []"
proof -
  have q: "wq_inv k s []" using assms by (simp add: sem_inv_def)
  show "up s k = Some (upd_sem s (\<lambda>n. n + 1) k)"
    using wait_queue_first_ok [OF q] by (simp add: up_def up_with_def)
  show "sem_inv (upd_sem s (\<lambda>n. n + 1) k) ps s []"
    using assms by (simp add: sem_inv_def sched_inv_def rq_inv_def wq_inv_def)
qed

lemma up_handoff:
  assumes inv: "sem_inv k ps s (w # ws)" and cur: "waiter k w \<noteq> current k" and sz: "length ps + 2 < 2 ^ 32"
  shows "\<exists>k'. up s k = Some k' \<and> sem_inv k' (ps @ [waiter k w]) s ws \<and> sems k' = sems k \<and>
     (\<forall>v. waiter k' v = waiter k v) \<and> state (procs k' (waiter k w)) = PROC_RUNNABLE \<and>
     (\<forall>p. p \<noteq> waiter k w \<longrightarrow> procs k' p = procs k p) \<and> current k' = current k \<and>
     wakeup_flags (waits k' w) = WT_KSEM \<and> \<not> wait_in_queue w k'"
proof -
  have s: "sched_inv k ps" and q: "wq_inv k s (w # ws)" and a: "asem_ok (sems k s, map (waiter k) (w # ws))"
    and sl: "\<forall>v\<in>set (w # ws). state (procs k (waiter k v)) = PROC_SLEEPING \<and>
        wait_state (procs k (waiter k v)) = WT_KSEM \<and> waiter k v \<noteq> idleproc k"
    using inv by (auto simp: sem_inv_def)
  have z: "state (procs k (waiter k w)) \<noteq> PROC_ZOMBIE" using sl by simp
  from wakeup_wait_ok [OF s q _ z sz, of WT_KSEM True] obtain k' where k':
    "wakeup_wait s w WT_KSEM True k = Some k'" "wq_inv k' s ws" "sched_inv k' (ps @ joins k (waiter k w))"
    "state (procs k' (waiter k w)) = PROC_RUNNABLE" "\<forall>p. p \<noteq> waiter k w \<longrightarrow> procs k' p = procs k p"
    "\<forall>v. waiter k' v = waiter k v" "wakeup_flags (waits k' w) = WT_KSEM" "sems k' = sems k"
    "current k' = current k" "idleproc k' = idleproc k" "\<not> wait_in_queue w k'"
    by auto
  have j: "joins k (waiter k w) = [waiter k w]" using sl cur by (simp add: joins_def)
  have "wproc (waits k w) = Some (waiter k w)" using q by (auto simp: wq_inv_def waiter_def)
  then have run: "up s k = Some k'"
    using wait_queue_first_ok [OF q] k'(1) sl by (simp add: up_def up_with_def)
  have wt: "map (waiter k') ws = map (waiter k) ws" using k'(6) by simp
  have "asem_ok (sems k' s, map (waiter k') ws)" using a unfolding wt k'(8) by simp
  moreover have "waiter k v \<noteq> waiter k w" if "v \<in> set ws" for v using a that by (auto simp: image_iff)
  then have "\<forall>v\<in>set ws. state (procs k' (waiter k' v)) = PROC_SLEEPING \<and>
        wait_state (procs k' (waiter k' v)) = WT_KSEM \<and> waiter k' v \<noteq> idleproc k'"
    using sl k'(5,6,10) by simp
  ultimately have "sem_inv k' (ps @ [waiter k w]) s ws" using k'(2,3) j by (simp add: sem_inv_def)
  then show ?thesis using run k' by blast
qed

lemma down_blocks:
  assumes inv: "sem_inv k ps s ws" and z: "sems k s = 0" and w: "w \<notin> set ws"
    and c: "current k \<noteq> idleproc k" "current k \<notin> waiter k ` set ws"
  shows "\<exists>k'. down_begin s w WT_KSEM k = Some (True, k') \<and> sem_inv k' (tl ps) s (ws @ [w]) \<and>
     sems k' = sems k \<and> map (waiter k') (ws @ [w]) = map (waiter k) ws @ [current k] \<and>
     current k' = (case ps of [] \<Rightarrow> idleproc k | p # _ \<Rightarrow> p) \<and>
     (\<forall>p. p \<noteq> current k \<longrightarrow> state (procs k' p) = state (procs k p))"
proof -
  have s': "sched_inv k ps" and q: "wq_inv k s ws" and a: "asem_ok (sems k s, map (waiter k) ws)"
    and sl: "\<forall>v\<in>set ws. state (procs k (waiter k v)) = PROC_SLEEPING \<and>
        wait_state (procs k (waiter k v)) = WT_KSEM \<and> waiter k v \<noteq> idleproc k"
    using inv by (auto simp: sem_inv_def)
  obtain k1 k' where k': "wait_current_set s w WT_KSEM k = Some k1" "schedule k1 = Some k'"
    "sched_inv k' (tl ps)" "wq_inv k' s (ws @ [w])" "sems k' = sems k" "idleproc k' = idleproc k"
    "current k' = (case ps of [] \<Rightarrow> idleproc k | p # _ \<Rightarrow> p)"
    and wt: "\<And>v. waiter k' v = (if v = w then current k else waiter k v)"
    and st: "\<And>p. state (procs k' p) = (if p = current k then PROC_SLEEPING else state (procs k p))"
      "\<And>p. wait_state (procs k' p) = (if p = current k then WT_KSEM else wait_state (procs k p))"
    by (rule sleep_ok [OF s' q w, where f = WT_KSEM]) (rule that; assumption)
  have mp: "map (waiter k') (ws @ [w]) = map (waiter k) ws @ [current k]"
    using w by (auto simp: wt)
  have "asem_ok (sems k' s, map (waiter k') (ws @ [w]))" using a z c k'(5) unfolding mp by simp
  moreover have "\<forall>v\<in>set (ws @ [w]). state (procs k' (waiter k' v)) = PROC_SLEEPING \<and>
        wait_state (procs k' (waiter k' v)) = WT_KSEM \<and> waiter k' v \<noteq> idleproc k'"
    using sl c(1) by (simp add: wt st k'(6))
  ultimately have "sem_inv k' (tl ps) s (ws @ [w])" using k'(3,4) by (simp add: sem_inv_def)
  moreover have "down_begin s w WT_KSEM k = Some (True, k')" using z k'(1,2) by (simp add: down_begin_def)
  ultimately show ?thesis using mp k'(5,7) st by (intro exI [of _ k'] conjI) simp_all
qed

lemma down_passes:
  assumes "sem_inv k ps s ws" and "0 < sems k s"
  shows "down_begin s w WT_KSEM k = Some (False, upd_sem s (\<lambda>n. n - 1) k)"
    "sem_inv (upd_sem s (\<lambda>n. n - 1) k) ps s ws" "ws = []"
  using assms by (auto simp: down_begin_def sem_inv_def sched_inv_def rq_inv_def wq_inv_def)

section \<open>The properties\<close>

text \<open>\<^verbatim>\<open>up\<close> refines the abstract semaphore: it hands the permit to the process that has waited longest,
  which becomes runnable, or counts it when nobody waits; it does not panic and keeps the invariant.\<close>

theorem up_refines:
  assumes "sem_inv k ps s ws" and "current k \<notin> waiter k ` set ws" and "length ps + 2 < 2 ^ 32"
  shows "\<exists>k' ps' ws'. up s k = Some k' \<and> sem_inv k' ps' s ws' \<and> sem_abs k' s ws' = a_up (sem_abs k s ws) \<and>
     current k' = current k \<and>
     (\<forall>w. ws = w # ws' \<longrightarrow> state (procs k' (waiter k w)) = PROC_RUNNABLE \<and> waiter k w \<in> set ps')"
proof (cases ws)
  case Nil
  then show ?thesis using up_empty [of k ps s] assms(1)
    by (intro exI [of _ "upd_sem s (\<lambda>n. n + 1) k"] exI [of _ ps] exI [of _ "[]"]) (simp add: sem_abs_def)
next
  case (Cons w vs)
  from up_handoff [of k ps s w vs] assms Cons obtain k' where k': "up s k = Some k'"
    "sem_inv k' (ps @ [waiter k w]) s vs" "sems k' = sems k" "\<forall>v. waiter k' v = waiter k v"
    "state (procs k' (waiter k w)) = PROC_RUNNABLE" "current k' = current k" by auto
  then show ?thesis using Cons
    by (intro exI [of _ k'] exI [of _ "ps @ [waiter k w]"] exI [of _ vs]) (simp add: sem_abs_def)
qed

definition sem_kernel :: kernel where
  "sem_kernel = upd_proc 4 (\<lambda>g. g\<lparr>wait_state := WT_KSEM\<rparr>) (upd_proc 5 (\<lambda>g. g\<lparr>wait_state := WT_KSEM\<rparr>)
     (upd_sem 9 (\<lambda>_. 0) waiting_kernel))"

lemma sem_kernel_inv: "sem_inv sem_kernel [2, 3] 9 [0, 1]" "current sem_kernel = 1" "idleproc sem_kernel = 0"
  "waiter sem_kernel 0 = 4" "waiter sem_kernel (Suc 0) = 5"
proof -
  note w = waiting_kernel_inv
  have wt: "waiter sem_kernel v = waiter waiting_kernel v" for v by (simp add: sem_kernel_def waiter_def)
  show "waiter sem_kernel 0 = 4" "waiter sem_kernel (Suc 0) = 5" using w(3,4) by (simp_all add: wt)
  have "rq_inv sem_kernel [2, 3]" using w(1) by (simp add: sem_kernel_def sched_inv_def rq_inv_def)
  then have "sched_inv sem_kernel [2, 3]" using w(1) by (simp add: sched_inv_def sem_kernel_def)
  moreover have "wq_inv sem_kernel 9 [0, 1]" using w(2) by (simp add: sem_kernel_def wq_inv_def)
  ultimately show "sem_inv sem_kernel [2, 3] 9 [0, 1]" using w(3,4)
    by (simp add: sem_inv_def wt) (simp add: sem_kernel_def w(5,8))
qed (simp_all add: sem_kernel_def waiting_kernel_inv)

theorem up_refines_witness:
  "\<exists>k' ps' ws'. up 9 sem_kernel = Some k' \<and> sem_inv k' ps' 9 ws' \<and> sem_abs k' 9 ws' = (0, [5])"
proof -
  have "sem_abs sem_kernel 9 [0, 1] = (0, [4, 5])"
    using sem_kernel_inv(4,5) by (simp add: sem_abs_def) (simp add: sem_kernel_def)
  then show ?thesis using up_refines [OF sem_kernel_inv(1)] sem_kernel_inv(2-) by auto
qed

text \<open>C7: \<^verbatim>\<open>down\<close> refines the abstract semaphore: it takes a permit when there is one; otherwise the caller
  sleeps at the tail of the queue and the processor goes to the next runnable process.\<close>

theorem down_refines:
  assumes "sem_inv k ps s ws" and "w \<notin> set ws" and "current k \<noteq> idleproc k" and "current k \<notin> waiter k ` set ws"
  shows "\<exists>k' ps' ws'. down_begin s w WT_KSEM k = Some (sems k s = 0, k') \<and> sem_inv k' ps' s ws' \<and>
     sem_abs k' s ws' = a_down (current k) (sem_abs k s ws) \<and>
     (if sems k s = 0 then current k' = (case ps of [] \<Rightarrow> idleproc k | p # _ \<Rightarrow> p) \<and>
        state (procs k' (current k)) = PROC_SLEEPING else current k' = current k)"
proof (cases "sems k s = 0")
  case True
  from down_blocks [OF assms(1) True assms(2-4)] obtain k' where k': "down_begin s w WT_KSEM k = Some (True, k')"
    "sem_inv k' (tl ps) s (ws @ [w])" "sems k' = sems k" "map (waiter k') (ws @ [w]) = map (waiter k) ws @ [current k]"
    "current k' = (case ps of [] \<Rightarrow> idleproc k | p # _ \<Rightarrow> p)" by blast
  have "waiter k' w = current k" using k'(4) by simp
  then have "state (procs k' (current k)) = PROC_SLEEPING" using k'(2) by (auto simp: sem_inv_def)
  then show ?thesis using True k'
    by (intro exI [of _ k'] exI [of _ "tl ps"] exI [of _ "ws @ [w]"]) (simp add: sem_abs_def)
next
  case False
  then have pos: "0 < sems k s" using assms(1) by (auto simp: sem_inv_def)
  note d = down_passes [OF assms(1) pos]
  then show ?thesis using False pos
    by (intro exI [of _ "upd_sem s (\<lambda>n. n - 1) k"] exI [of _ ps] exI [of _ ws]) (simp add: sem_abs_def)
qed

theorem down_refines_witness:
  "\<exists>k' ps' ws'. down_begin 9 7 WT_KSEM sem_kernel = Some (True, k') \<and> sem_inv k' ps' 9 ws' \<and>
     sem_abs k' 9 ws' = (0, [4, 5, 1]) \<and> current k' = 2"
proof -
  have "sems sem_kernel 9 = 0" by (simp add: sem_kernel_def)
  moreover have "sem_abs sem_kernel 9 [0, 1] = (0, [4, 5])"
    using sem_kernel_inv(4,5) by (simp add: sem_abs_def) (simp add: sem_kernel_def)
  ultimately show ?thesis using down_refines [OF sem_kernel_inv(1), of 7] sem_kernel_inv(2-) by auto
qed

text \<open>A process that was handed the permit returns from \<^verbatim>\<open>down\<close> normally: its wait is no longer in the
  queue and carries the semaphore's wake-up flag, so the assertion of \<^verbatim>\<open>down\<close> holds and nothing changes.\<close>

theorem down_returns_after_up:
  assumes "sem_inv k ps s (w # ws)" and "current k \<noteq> waiter k w" and "length ps + 2 < 2 ^ 32"
  shows "\<exists>k'. up s k = Some k' \<and> down_return s w k' = Some k'"
proof -
  from up_handoff [OF assms(1) _ assms(3)] assms(2) obtain k' where "up s k = Some k'"
    "wakeup_flags (waits k' w) = WT_KSEM" "\<not> wait_in_queue w k'" by auto
  then show ?thesis by (auto simp: down_return_def down_end_def wait_current_del_def)
qed

theorem down_returns_after_up_witness:
  "\<exists>k'. up 9 sem_kernel = Some k' \<and> down_return 9 0 k' = Some k'"
  using down_returns_after_up [OF sem_kernel_inv(1)] sem_kernel_inv(2-) by simp

end
