(* ===== verification/Monitor.thy ===== *)
theory Monitor
  imports Semaphore
begin

text \<open>
  The monitors of \<^verbatim>\<open>kern/sync/monitor.c\<close> as a system of interleaved threads.  The three kinds of
  semaphores of a \<^verbatim>\<open>monitor_t\<close> are the abstract semaphores that \<^verbatim>\<open>sem.c\<close> refines; a thread
  has a program point, and every statement of \<^verbatim>\<open>cond_wait\<close>, \<^verbatim>\<open>cond_signal\<close> and of the entry and exit
  protocol of a monitor procedure (\<^verbatim>\<open>check_sync.c\<close>) is one atomic step, so a thread can be preempted
  between any two of them.
\<close>

section \<open>State\<close>

text \<open>
  Program points: \<open>AtMutex\<close>, \<open>WaitCv\<close> and \<open>WaitNext\<close> are the sleeping points inside \<^verbatim>\<open>down\<close>; the others are
  named after the statement that comes next.
\<close>

datatype pc =
    Outside | AtMutex | Inside
  | LeaveNext | LeaveMutex
  | WTest nat | WUpNext nat | WUpMutex nat | WDown nat | WaitCv nat | WDec nat
  | SInc nat | SUp nat | SDown | WaitNext | SDec

record monitor =
  mutex :: asem
  next_sem :: asem
  next_count :: int
  cv_sem :: "nat \<Rightarrow> asem"
  cv_count :: "nat \<Rightarrow> int"
  pcs :: "nat \<Rightarrow> pc"

section \<open>The operations\<close>

definition monitor_init :: "nat \<Rightarrow> bool \<Rightarrow> (nat \<Rightarrow> pc) \<Rightarrow> monitor option" where
  "monitor_init num_cv kmalloc_ok ps = do {
     kassert (num_cv > 0);
     kassert kmalloc_ok;
     Some \<lparr>mutex = (1, []), next_sem = (0, []), next_count = 0,
           cv_sem = (\<lambda>_. (0, [])), cv_count = (\<lambda>_. 0), pcs = ps\<rparr>
   }"

text \<open>Where a thread continues when the \<^verbatim>\<open>down\<close> it sleeps in returns.\<close>

fun resume :: "pc \<Rightarrow> pc" where
  "resume AtMutex = Inside"
| "resume (WaitCv c) = WDec c"
| "resume WaitNext = SDec"
| "resume x = x"

definition wake_first :: "asem \<Rightarrow> (nat \<Rightarrow> pc) \<Rightarrow> nat \<Rightarrow> pc" where
  "wake_first a ps = (case snd a of [] \<Rightarrow> ps | q # _ \<Rightarrow> ps(q := resume (ps q)))"

definition up_mutex :: "monitor \<Rightarrow> monitor" where
  "up_mutex s = s\<lparr>mutex := a_up (mutex s), pcs := wake_first (mutex s) (pcs s)\<rparr>"

definition up_next :: "monitor \<Rightarrow> monitor" where
  "up_next s = s\<lparr>next_sem := a_up (next_sem s), pcs := wake_first (next_sem s) (pcs s)\<rparr>"

definition up_cv :: "nat \<Rightarrow> monitor \<Rightarrow> monitor" where
  "up_cv c s = s\<lparr>cv_sem := (cv_sem s)(c := a_up (cv_sem s c)), pcs := wake_first (cv_sem s c) (pcs s)\<rparr>"

definition goto :: "nat \<Rightarrow> pc \<Rightarrow> monitor \<Rightarrow> monitor" where
  "goto p x s = s\<lparr>pcs := (pcs s)(p := x)\<rparr>"

text \<open>One step of thread \<open>p\<close> inside \<^verbatim>\<open>cond_wait\<close>, from the program point it has reached.\<close>

fun cond_wait :: "nat \<Rightarrow> pc \<Rightarrow> monitor \<Rightarrow> monitor option" where
  "cond_wait p (WTest c) s =
     Some (goto p (if next_count s > 0 then WUpNext c else WUpMutex c) s)"
| "cond_wait p (WUpNext c) s = Some (up_next (goto p (WDown c) s))"
| "cond_wait p (WUpMutex c) s = Some (up_mutex (goto p (WDown c) s))"
| "cond_wait p (WDown c) s =
     Some (goto p (if fst (cv_sem s c) > 0 then WDec c else WaitCv c)
       (s\<lparr>cv_sem := (cv_sem s)(c := a_down p (cv_sem s c))\<rparr>))"
| "cond_wait p (WDec c) s =
     Some (goto p Inside (s\<lparr>cv_count := (cv_count s)(c := cv_count s c - 1)\<rparr>))"
| "cond_wait p _ s = None"

definition cond_wait_enter :: "nat \<Rightarrow> nat \<Rightarrow> monitor \<Rightarrow> monitor" where
  "cond_wait_enter p c s = goto p (WTest c) (s\<lparr>cv_count := (cv_count s)(c := cv_count s c + 1)\<rparr>)"

text \<open>One step of thread \<open>p\<close> inside \<^verbatim>\<open>cond_signal\<close>.\<close>

fun cond_signal :: "nat \<Rightarrow> pc \<Rightarrow> monitor \<Rightarrow> monitor option" where
  "cond_signal p (SInc c) s = Some (goto p (SUp c) (s\<lparr>next_count := next_count s + 1\<rparr>))"
| "cond_signal p (SUp c) s = Some (up_cv c (goto p SDown s))"
| "cond_signal p SDown s =
     Some (goto p (if fst (next_sem s) > 0 then SDec else WaitNext)
       (s\<lparr>next_sem := a_down p (next_sem s)\<rparr>))"
| "cond_signal p SDec s = Some (goto p Inside (s\<lparr>next_count := next_count s - 1\<rparr>))"
| "cond_signal p _ s = None"

definition cond_signal_enter :: "nat \<Rightarrow> nat \<Rightarrow> monitor \<Rightarrow> monitor" where
  "cond_signal_enter p c s = (if cv_count s c > 0 then goto p (SInc c) s else s)"

text \<open>Entering and leaving a monitor procedure.\<close>

definition mon_enter :: "nat \<Rightarrow> monitor \<Rightarrow> monitor" where
  "mon_enter p s =
     goto p (if fst (mutex s) > 0 then Inside else AtMutex) (s\<lparr>mutex := a_down p (mutex s)\<rparr>)"

definition mon_leave_test :: "nat \<Rightarrow> monitor \<Rightarrow> monitor" where
  "mon_leave_test p s = goto p (if next_count s > 0 then LeaveNext else LeaveMutex) s"

fun mon_leave :: "nat \<Rightarrow> pc \<Rightarrow> monitor \<Rightarrow> monitor option" where
  "mon_leave p LeaveNext s = Some (up_next (goto p Outside s))"
| "mon_leave p LeaveMutex s = Some (up_mutex (goto p Outside s))"
| "mon_leave p _ s = None"

section \<open>Runs\<close>

inductive mon_step :: "monitor \<Rightarrow> monitor \<Rightarrow> bool" where
  enter: "pcs s p = Outside \<Longrightarrow> mon_step s (mon_enter p s)"
| leave_test: "pcs s p = Inside \<Longrightarrow> mon_step s (mon_leave_test p s)"
| leave: "mon_leave p (pcs s p) s = Some s' \<Longrightarrow> mon_step s s'"
| wait_enter: "pcs s p = Inside \<Longrightarrow> mon_step s (cond_wait_enter p c s)"
| wait_step: "cond_wait p (pcs s p) s = Some s' \<Longrightarrow> mon_step s s'"
| signal_enter: "pcs s p = Inside \<Longrightarrow> mon_step s (cond_signal_enter p c s)"
| signal_step: "cond_signal p (pcs s p) s = Some s' \<Longrightarrow> mon_step s s'"

inductive mon_reach :: "nat \<Rightarrow> monitor \<Rightarrow> bool" for n where
  start: "monitor_init n True (\<lambda>_. Outside) = Some s \<Longrightarrow> mon_reach n s"
| more: "mon_reach n s \<Longrightarrow> mon_step s s' \<Longrightarrow> mon_reach n s'"

section \<open>The invariant\<close>

text \<open>
  The right to be active in the monitor is a single token.  It is in one of the semaphores or with the one
  thread that is active.
\<close>

datatype place = InMutex | InNext | InCv nat | With nat

fun active :: "pc \<Rightarrow> bool" where
  "active Outside = False"
| "active AtMutex = False"
| "active (WDown c) = False"
| "active (WaitCv c) = False"
| "active SDown = False"
| "active WaitNext = False"
| "active x = True"

definition token :: "monitor \<Rightarrow> place \<Rightarrow> bool" where
  "token s pl \<longleftrightarrow> fst (mutex s) = (if pl = InMutex then 1 else 0) \<and> fst (next_sem s) = (if pl = InNext then 1 else 0) \<and>
     (\<forall>c. fst (cv_sem s c) = (if pl = InCv c then 1 else 0)) \<and> (\<forall>p. active (pcs s p) \<longleftrightarrow> pl = With p)"

definition queues :: "monitor \<Rightarrow> bool" where
  "queues s \<longleftrightarrow>
     distinct (snd (mutex s)) \<and> set (snd (mutex s)) = {p. pcs s p = AtMutex} \<and>
     distinct (snd (next_sem s)) \<and> set (snd (next_sem s)) = {p. pcs s p = WaitNext} \<and>
     (\<forall>c. distinct (snd (cv_sem s c)) \<and> set (snd (cv_sem s c)) = {p. pcs s p = WaitCv c})"

fun signalling :: "pc \<Rightarrow> bool" where
  "signalling (SUp c) = True"
| "signalling SDown = True"
| "signalling WaitNext = True"
| "signalling SDec = True"
| "signalling x = False"

fun waiting :: "nat \<Rightarrow> pc \<Rightarrow> bool" where
  "waiting c (WTest d) = (c = d)"
| "waiting c (WUpNext d) = (c = d)"
| "waiting c (WUpMutex d) = (c = d)"
| "waiting c (WDown d) = (c = d)"
| "waiting c (WaitCv d) = (c = d)"
| "waiting c (WDec d) = (c = d)"
| "waiting c x = False"

definition counts :: "monitor \<Rightarrow> bool" where
  "counts s \<longleftrightarrow> finite {p. pcs s p \<noteq> Outside} \<and>
     next_count s = int (card {p. signalling (pcs s p)}) \<and>
     (\<forall>c. cv_count s c = int (card {p. waiting c (pcs s p)}))"

text \<open>A semaphore holds the token only while a thread is about to take it; a thread about to pass the
  token to the signallers or to the waiters of a condition has seen that there is one.\<close>

definition live :: "monitor \<Rightarrow> place \<Rightarrow> bool" where
  "live s pl \<longleftrightarrow> (pl = InNext \<longrightarrow> (\<exists>p. pcs s p = SDown)) \<and> (\<forall>c. pl = InCv c \<longrightarrow> (\<exists>p. pcs s p = WDown c)) \<and>
     (\<forall>p. pl = With p \<longrightarrow>
        (\<forall>c. pcs s p = WUpNext c \<longrightarrow> 0 < next_count s) \<and> (pcs s p = LeaveNext \<longrightarrow> 0 < next_count s) \<and>
        (\<forall>c. pcs s p = SInc c \<or> pcs s p = SUp c \<longrightarrow> 0 < cv_count s c))"

definition mon_inv :: "monitor \<Rightarrow> place \<Rightarrow> bool" where
  "mon_inv s pl \<longleftrightarrow> token s pl \<and> queues s \<and> counts s \<and> live s pl"

lemma card_upd:
  assumes "finite {p. f p \<noteq> Outside}" and "\<not> P Outside"
  shows "int (card {q. P ((f(p := x)) q)}) =
     int (card {q. P (f q)}) + (if P x then 1 else 0) - (if P (f p) then 1 else 0)"
proof -
  define A where "A = {q. P (f q)} - {p}"
  have "{q. P (f q)} \<subseteq> {p. f p \<noteq> Outside}" using assms(2) by auto
  then have fin: "finite A" "p \<notin> A" using assms(1) finite_subset by (auto simp: A_def)
  have a: "{q. P ((f(p := x)) q)} = (if P x then insert p A else A)" by (auto simp: A_def)
  have b: "{q. P (f q)} = (if P (f p) then insert p A else A)" by (auto simp: A_def)
  show ?thesis unfolding a b using fin by simp
qed

lemma finite_upd: "finite {p. f p \<noteq> Outside} \<Longrightarrow> finite {q. (f(p := x)) q \<noteq> Outside}"
  by (rule finite_subset [of _ "insert p {p. f p \<noteq> Outside}"]) auto

lemma counts_goto:
  assumes "counts s"
  shows "counts (goto p x (s\<lparr>next_count := next_count s + (if signalling x then 1 else 0) - (if signalling (pcs s p) then 1 else 0),
     cv_count := (\<lambda>c. cv_count s c + (if waiting c x then 1 else 0) - (if waiting c (pcs s p) then 1 else 0))\<rparr>))"
  using assms card_upd [of "pcs s" signalling p x] card_upd [of "pcs s" "waiting c" p x for c]
  by (simp add: counts_def goto_def finite_upd [of "pcs s", simplified])

lemma signalling_ex:
  assumes "counts s" and "0 < next_count s"
  shows "\<exists>p. signalling (pcs s p)"
proof (rule ccontr)
  assume "\<nexists>p. signalling (pcs s p)"
  then have "{p. signalling (pcs s p)} = {}" by blast
  then show False using assms by (simp add: counts_def)
qed

lemma waiting_ex:
  assumes "counts s" and "0 < cv_count s c"
  shows "\<exists>p. waiting c (pcs s p)"
proof (rule ccontr)
  assume "\<nexists>p. waiting c (pcs s p)"
  then have "{p. waiting c (pcs s p)} = {}" by blast
  then show False using assms by (simp add: counts_def)
qed

section \<open>Preservation\<close>

fun sleeping :: "pc \<Rightarrow> bool" where
  "sleeping AtMutex = True"
| "sleeping (WaitCv c) = True"
| "sleeping WaitNext = True"
| "sleeping x = False"

lemma active_not_sleeping: "active x \<Longrightarrow> \<not> sleeping x"
  by (cases x) auto

lemma queues_goto:
  assumes "queues s" and "\<not> sleeping (pcs s p)" and "\<not> sleeping x"
  shows "queues (goto p x s)"
proof -
  have "{q. ((pcs s)(p := x)) q = y} = {q. pcs s q = y}" if "sleeping y" for y using assms(2,3) that by auto
  then show ?thesis using assms(1) by (simp add: queues_def goto_def)
qed

lemma resume_sleeping: "sleeping x \<Longrightarrow> active (resume x) \<and> \<not> sleeping (resume x)"
  by (cases x) auto

lemma queue_head:
  assumes "queues s"
  shows "snd (mutex s) = q # qs \<Longrightarrow> pcs s q = AtMutex" "snd (next_sem s) = q # qs \<Longrightarrow> pcs s q = WaitNext"
    "snd (cv_sem s c) = q # qs \<Longrightarrow> pcs s q = WaitCv c"
  using assms unfolding queues_def by (metis list.set_intros(1) mem_Collect_eq)+

lemma coll_upd: "{r. r \<noteq> q \<and> (r \<noteq> q \<longrightarrow> P r)} = {r. P r} - {q}"
  by auto

lemma coll_ins: "{r. r \<noteq> q \<longrightarrow> P r} = insert q {r. P r}"
  by auto

lemma queues_wake:
  assumes "queues s"
  shows "snd (mutex s) = q # qs \<Longrightarrow> queues ((goto q Inside s)\<lparr>mutex := (n, qs)\<rparr>)"
    "snd (next_sem s) = q # qs \<Longrightarrow> queues ((goto q SDec s)\<lparr>next_sem := (n, qs)\<rparr>)"
    "snd (cv_sem s c) = q # qs \<Longrightarrow> queues ((goto q (WDec c) s)\<lparr>cv_sem := (cv_sem s)(c := (n, qs))\<rparr>)"
proof -
  have other: "{r. pcs s r = y} - {q} = {r. pcs s r = y}" if "pcs s q \<noteq> y" for y using that by auto
  note h = queue_head [OF assms]
  { assume m: "snd (mutex s) = q # qs"
    then have "{r. pcs s r = AtMutex} = insert q (set qs)" "q \<notin> set qs" "distinct qs"
      using assms by (auto simp: queues_def)
    then show "queues ((goto q Inside s)\<lparr>mutex := (n, qs)\<rparr>)"
      using assms h(1) [OF m] by (simp add: queues_def goto_def coll_upd other) }
  { assume m: "snd (next_sem s) = q # qs"
    then have "{r. pcs s r = WaitNext} = insert q (set qs)" "q \<notin> set qs" "distinct qs"
      using assms by (auto simp: queues_def)
    then show "queues ((goto q SDec s)\<lparr>next_sem := (n, qs)\<rparr>)"
      using assms h(2) [OF m] by (simp add: queues_def goto_def coll_upd other) }
  { assume m: "snd (cv_sem s c) = q # qs"
    then have "set (q # qs) = {r. pcs s r = WaitCv c}" "distinct (q # qs)"
      using assms unfolding queues_def by metis+
    then have "{r. pcs s r = WaitCv c} = insert q (set qs)" "q \<notin> set qs" "distinct qs" by auto
    then show "queues ((goto q (WDec c) s)\<lparr>cv_sem := (cv_sem s)(c := (n, qs))\<rparr>)"
      using assms h(3) [OF m] by (simp add: queues_def goto_def coll_upd other) }
qed

text \<open>The token goes back to the semaphore when nobody waits, and to the first waiter otherwise.\<close>

lemma up_mutex_parts:
  assumes q: "queues s" and c: "counts s" and t: "token s (With p)" and n: "\<not> active x" "\<not> sleeping x"
    and cx: "counts (goto p x s)"
  defines "s' \<equiv> up_mutex (goto p x s)" and "pl \<equiv> (case snd (mutex s) of [] \<Rightarrow> InMutex | q # _ \<Rightarrow> With q)"
  shows "token s' pl \<and> queues s' \<and> counts s' \<and> (\<forall>q. pl = With q \<longrightarrow> pcs s' q = Inside)"
proof -
  have p: "active (pcs s p)" using t by (simp add: token_def)
  have q1: "queues (goto p x s)" using queues_goto [OF q _ n(2)] active_not_sleeping [OF p] by blast
  show ?thesis
  proof (cases "snd (mutex s)")
    case Nil
    then have a: "a_up (mutex s) = (fst (mutex s) + 1, [])" by (cases "mutex s") simp
    have "s' = goto p x (s\<lparr>mutex := (fst (mutex s) + 1, [])\<rparr>)"
      using Nil a by (simp add: s'_def up_mutex_def goto_def wake_first_def)
    then show ?thesis using q1 cx t n Nil
      by (auto simp: pl_def token_def queues_def counts_def goto_def)
  next
    case (Cons q qs)
    have sl: "pcs s q = AtMutex" using queue_head(1) [OF assms(1) Cons] .
    have qp: "q \<noteq> p" using sl p by auto
    have a: "a_up (mutex s) = (fst (mutex s), qs)" using Cons by (cases "mutex s") simp
    have s': "s' = (goto q Inside (goto p x s))\<lparr>mutex := (fst (mutex s), qs)\<rparr>"
      using Cons a qp sl by (simp add: s'_def up_mutex_def goto_def wake_first_def)
    have "token s' pl" using t n qp sl Cons by (auto simp: s' pl_def token_def goto_def)
    moreover have "counts s'" using counts_goto [OF cx, of q Inside] qp sl
      by (simp add: s' goto_def counts_def)
    moreover have "queues s'" unfolding s' using queues_wake(1) [OF q1] Cons by (simp add: goto_def)
    ultimately show ?thesis using Cons by (simp add: pl_def s' goto_def)
  qed
qed

lemma up_next_parts:
  assumes q: "queues s" and c: "counts s" and t: "token s (With p)" and n: "\<not> active x" "\<not> sleeping x"
    and cx: "counts (goto p x s)"
  defines "s' \<equiv> up_next (goto p x s)" and "pl \<equiv> (case snd (next_sem s) of [] \<Rightarrow> InNext | q # _ \<Rightarrow> With q)"
  shows "token s' pl \<and> queues s' \<and> counts s' \<and> (\<forall>q. pl = With q \<longrightarrow> pcs s' q = SDec)"
proof -
  have p: "active (pcs s p)" using t by (simp add: token_def)
  have q1: "queues (goto p x s)" using queues_goto [OF q _ n(2)] active_not_sleeping [OF p] by blast
  show ?thesis
  proof (cases "snd (next_sem s)")
    case Nil
    then have a: "a_up (next_sem s) = (fst (next_sem s) + 1, [])" by (cases "next_sem s") simp
    have "s' = goto p x (s\<lparr>next_sem := (fst (next_sem s) + 1, [])\<rparr>)"
      using Nil a by (simp add: s'_def up_next_def goto_def wake_first_def)
    then show ?thesis using q1 cx t n Nil
      by (auto simp: pl_def token_def queues_def counts_def goto_def)
  next
    case (Cons q qs)
    have sl: "pcs s q = WaitNext" using queue_head(2) [OF assms(1) Cons] .
    have qp: "q \<noteq> p" using sl p by auto
    have a: "a_up (next_sem s) = (fst (next_sem s), qs)" using Cons by (cases "next_sem s") simp
    have s': "s' = (goto q SDec (goto p x s))\<lparr>next_sem := (fst (next_sem s), qs)\<rparr>"
      using Cons a qp sl by (simp add: s'_def up_next_def goto_def wake_first_def)
    have "token s' pl" using t n qp sl Cons by (auto simp: s' pl_def token_def goto_def)
    moreover have "counts s'" using counts_goto [OF cx, of q SDec] qp sl
      by (simp add: s' goto_def counts_def)
    moreover have "queues s'" unfolding s' using queues_wake(2) [OF q1] Cons by (simp add: goto_def)
    ultimately show ?thesis using Cons by (simp add: pl_def s' goto_def)
  qed
qed

lemma up_cv_parts:
  fixes d :: nat
  assumes q: "queues s" and c: "counts s" and t: "token s (With p)" and n: "\<not> active x" "\<not> sleeping x"
    and cx: "counts (goto p x s)"
  defines "s' \<equiv> up_cv d (goto p x s)" and "pl \<equiv> (case snd (cv_sem s d) of [] \<Rightarrow> InCv d | q # _ \<Rightarrow> With q)"
  shows "token s' pl \<and> queues s' \<and> counts s' \<and> (\<forall>q. pl = With q \<longrightarrow> pcs s' q = WDec d)"
proof -
  have p: "active (pcs s p)" using t by (simp add: token_def)
  have q1: "queues (goto p x s)" using queues_goto [OF q _ n(2)] active_not_sleeping [OF p] by blast
  show ?thesis
  proof (cases "snd (cv_sem s d)")
    case Nil
    then have a: "a_up (cv_sem s d) = (fst (cv_sem s d) + 1, [])" by (cases "cv_sem s d") simp
    have s': "s' = goto p x (s\<lparr>cv_sem := (cv_sem s)(d := (fst (cv_sem s d) + 1, []))\<rparr>)"
      using Nil a by (simp add: s'_def up_cv_def goto_def wake_first_def)
    have sn: "snd (cv_sem s' c) = snd (cv_sem s c)" for c using Nil by (simp add: s' goto_def)
    have "queues s' = queues (goto p x s)" unfolding queues_def sn by (simp add: s' goto_def)
    then have "queues s'" using q1 by simp
    moreover have "counts s'" using cx by (simp add: s' counts_def goto_def)
    moreover have "token s' pl" using t n Nil by (auto simp: s' pl_def token_def goto_def)
    ultimately show ?thesis using Nil by (simp add: pl_def)
  next
    case (Cons q qs)
    have sl: "pcs s q = WaitCv d" using queue_head(3) [OF assms(1) Cons] .
    have qp: "q \<noteq> p" using sl p by auto
    have a: "a_up (cv_sem s d) = (fst (cv_sem s d), qs)" using Cons by (cases "cv_sem s d") simp
    have s': "s' = (goto q (WDec d) (goto p x s))\<lparr>cv_sem := (cv_sem s)(d := (fst (cv_sem s d), qs))\<rparr>"
      using Cons a qp sl by (simp add: s'_def up_cv_def goto_def wake_first_def)
    have "token s' pl" using t n qp sl Cons by (auto simp: s' pl_def token_def goto_def)
    moreover have "counts s'" using counts_goto [OF cx, of q "WDec d"] qp sl
      by (simp add: s' goto_def counts_def)
    moreover have "queues s'" unfolding s' using queues_wake(3) [OF q1] Cons by (simp add: goto_def)
    ultimately show ?thesis using Cons by (simp add: pl_def s' goto_def)
  qed
qed

text \<open>Passing the token on keeps it alive.\<close>

lemma up_mutex_inv:
  assumes "mon_inv s (With p)" and "\<not> active x" "\<not> sleeping x" and "counts (goto p x s)"
  shows "\<exists>pl. mon_inv (up_mutex (goto p x s)) pl"
  using up_mutex_parts [OF _ _ _ assms(2-4)] assms(1) unfolding mon_inv_def live_def
  by (intro exI [of _ "case snd (mutex s) of [] \<Rightarrow> InMutex | q # _ \<Rightarrow> With q"]) (simp split: list.splits)

lemma up_next_inv:
  assumes inv: "mon_inv s (With p)" and n: "\<not> active x" "\<not> sleeping x" and cx: "counts (goto p x s)"
    and nc: "0 < next_count s" "\<not> signalling (pcs s p)"
  shows "\<exists>pl. mon_inv (up_next (goto p x s)) pl"
proof -
  have i: "queues s" "counts s" "token s (With p)" using inv by (auto simp: mon_inv_def)
  let ?s = "up_next (goto p x s)" and ?pl = "case snd (next_sem s) of [] \<Rightarrow> InNext | q # _ \<Rightarrow> With q"
  note parts = up_next_parts [OF i n cx]
  have "live ?s ?pl"
  proof (cases "snd (next_sem s)")
    case Nil
    from signalling_ex [OF i(2) nc(1)] obtain q where q: "signalling (pcs s q)" by blast
    then have qp: "q \<noteq> p" using nc(2) by auto
    then have "\<not> active (pcs s q)" using i(3) by (simp add: token_def)
    then have "pcs s q = SDown \<or> pcs s q = WaitNext" using q by (cases "pcs s q") auto
    moreover have "pcs s q \<noteq> WaitNext" using i(1) Nil by (auto simp: queues_def)
    ultimately have "pcs ?s q = SDown" using Nil qp by (simp add: up_next_def goto_def wake_first_def)
    then show ?thesis using Nil by (auto simp: live_def)
  next
    case (Cons q qs)
    then show ?thesis using parts by (simp add: live_def)
  qed
  then show ?thesis using parts unfolding mon_inv_def by blast
qed

lemma up_cv_inv:
  assumes inv: "mon_inv s (With p)" and n: "\<not> active x" "\<not> sleeping x" and cx: "counts (goto p x s)"
    and nc: "0 < cv_count s d" "\<not> waiting d (pcs s p)"
  shows "\<exists>pl. mon_inv (up_cv d (goto p x s)) pl"
proof -
  have i: "queues s" "counts s" "token s (With p)" using inv by (auto simp: mon_inv_def)
  let ?s = "up_cv d (goto p x s)" and ?pl = "case snd (cv_sem s d) of [] \<Rightarrow> InCv d | q # _ \<Rightarrow> With q"
  note parts = up_cv_parts [OF i n cx, of d]
  have "live ?s ?pl"
  proof (cases "snd (cv_sem s d)")
    case Nil
    from waiting_ex [OF i(2) nc(1)] obtain q where q: "waiting d (pcs s q)" by blast
    then have qp: "q \<noteq> p" using nc(2) by auto
    then have "\<not> active (pcs s q)" using i(3) by (simp add: token_def)
    then have "pcs s q = WDown d \<or> pcs s q = WaitCv d" using q by (cases "pcs s q") auto
    moreover have "pcs s q \<noteq> WaitCv d"
    proof
      assume "pcs s q = WaitCv d"
      then have "q \<in> set (snd (cv_sem s d))" using i(1) by (simp add: queues_def)
      then show False using Nil by simp
    qed
    ultimately have "pcs ?s q = WDown d" using Nil qp by (simp add: up_cv_def goto_def wake_first_def)
    then show ?thesis using Nil by (auto simp: live_def)
  next
    case (Cons q qs)
    then show ?thesis using parts by (simp add: live_def)
  qed
  then show ?thesis using parts unfolding mon_inv_def by blast
qed

lemma silent_inv:
  assumes "mon_inv s (With p)" and "active x" and "counts s'"
    and "s' = goto p x (s\<lparr>next_count := nc, cv_count := cc\<rparr>)"
    and "live s' (With p)"
  shows "mon_inv s' (With p)"
proof -
  have a: "active (pcs s p)" using assms(1) by (simp add: mon_inv_def token_def)
  have "token s' (With p)" using assms(1,2) a by (auto simp: assms(4) mon_inv_def token_def goto_def)
  moreover have "queues (goto p x s)"
    using assms(1) a by (intro queues_goto) (auto simp: mon_inv_def active_not_sleeping assms(2))
  then have "queues s'" by (simp add: assms(4) queues_def goto_def)
  ultimately show ?thesis using assms(3,5) by (simp add: mon_inv_def)
qed

lemma queues_block:
  assumes "queues s" and "\<not> sleeping (pcs s p)"
  shows "queues ((goto p AtMutex s)\<lparr>mutex := (n, snd (mutex s) @ [p])\<rparr>)"
    "queues ((goto p WaitNext s)\<lparr>next_sem := (n, snd (next_sem s) @ [p])\<rparr>)"
    "queues ((goto p (WaitCv c) s)\<lparr>cv_sem := (cv_sem s)(c := (n, snd (cv_sem s c) @ [p]))\<rparr>)"
proof -
  have other: "{r. pcs s r = y} - {p} = {r. pcs s r = y}" "p \<notin> {r. pcs s r = y}" if "sleeping y" for y
    using assms(2) that by auto
  note o1 = other [of AtMutex] and o2 = other [of WaitNext] and o3 = other [of "WaitCv d" for d]
  show "queues ((goto p AtMutex s)\<lparr>mutex := (n, snd (mutex s) @ [p])\<rparr>)"
    using assms(1) o1 o2 o3 by (simp add: queues_def goto_def coll_upd coll_ins)
  show "queues ((goto p WaitNext s)\<lparr>next_sem := (n, snd (next_sem s) @ [p])\<rparr>)"
    using assms(1) o1 o2 o3 by (simp add: queues_def goto_def coll_upd coll_ins)
  have "queues (goto p (WaitCv c) s\<lparr>cv_sem := (cv_sem s)(c := (n, snd (cv_sem s c) @ [p]))\<rparr>)
      \<longleftrightarrow> (\<forall>d. d \<noteq> c \<longrightarrow> distinct (snd (cv_sem s d)) \<and> set (snd (cv_sem s d)) = {r. pcs s r = WaitCv d} - {p})"
    using assms(1) o1 o2 o3 by (auto simp: queues_def goto_def)
  then show "queues ((goto p (WaitCv c) s)\<lparr>cv_sem := (cv_sem s)(c := (n, snd (cv_sem s c) @ [p]))\<rparr>)"
    using assms(1) o3 by (simp add: queues_def)
qed

lemma counts_same:
  assumes "counts s" and "signalling x = signalling (pcs s p)" and "\<forall>c. waiting c x = waiting c (pcs s p)"
  shows "counts (goto p x s)"
  using counts_goto [OF assms(1), of p x] assms(2,3) by (simp add: goto_def counts_def)

text \<open>Taking the token, or going to sleep, at one of the three \<^verbatim>\<open>down\<close>s.\<close>

lemma take_inv:
  assumes inv: "mon_inv s pl" and p: "\<not> active (pcs s p)" "\<not> sleeping (pcs s p)" and x: "active x" "\<not> sleeping x"
    and cx: "counts (goto p x s)" and nolive: "x \<in> {Inside, SDec} \<or> (\<exists>c. x = WDec c)"
    and s': "s' = goto p x s\<lparr>mutex := m, next_sem := n, cv_sem := v\<rparr>"
    and m: "fst m = 0" "snd m = snd (mutex s)" and n: "fst n = 0" "snd n = snd (next_sem s)"
    and v: "\<forall>c. fst (v c) = 0 \<and> snd (v c) = snd (cv_sem s c)" and pl: "\<forall>q. pl \<noteq> With q"
  shows "mon_inv s' (With p)"
proof -
  have t: "token s pl" and q: "queues s" using inv by (auto simp: mon_inv_def)
  have "token s' (With p)" using t pl x m n v by (auto simp: s' token_def goto_def)
  moreover have "queues s' = queues (goto p x s)" using m n v by (simp add: s' queues_def goto_def)
  then have "queues s'" using queues_goto [OF q p(2) x(2)] by simp
  moreover have "counts s'" using cx by (simp add: s' counts_def goto_def)
  moreover have "live s' (With p)" using nolive by (auto simp: s' live_def goto_def)
  ultimately show ?thesis by (simp add: mon_inv_def)
qed

lemma block_inv:
  assumes inv: "mon_inv s pl" and p: "\<not> active (pcs s p)" and x: "\<not> active x"
    and cx: "counts (goto p x s)"
    and s': "s' = goto p x s\<lparr>mutex := m, next_sem := n, cv_sem := v\<rparr>"
    and q: "queues s'"
    and m: "fst m = fst (mutex s)" and n: "fst n = fst (next_sem s)" and v: "\<forall>c. fst (v c) = fst (cv_sem s c)"
    and lv: "pl = InNext \<longrightarrow> pcs s p \<noteq> SDown" "\<forall>c. pl = InCv c \<longrightarrow> pcs s p \<noteq> WDown c"
  shows "mon_inv s' pl"
proof -
  have t: "token s pl" and l: "live s pl" using inv by (auto simp: mon_inv_def)
  have "token s' pl" using t p x m n v by (auto simp: s' token_def goto_def)
  moreover have "counts s'" using cx by (simp add: s' counts_def goto_def)
  moreover have pw: "pl \<noteq> With p" using t p by (auto simp: token_def)
  have "live s' pl"
  proof -
    have "pl = InNext \<longrightarrow> (\<exists>r. pcs s' r = SDown)" using l lv(1) by (auto simp: live_def s' goto_def)
    moreover have "\<forall>c. pl = InCv c \<longrightarrow> (\<exists>r. pcs s' r = WDown c)" using l lv(2) by (auto simp: live_def s' goto_def)
    moreover have "pcs s' r = pcs s r" if "pl = With r" for r using that pw by (auto simp: s' goto_def)
    moreover have "next_count s' = next_count s" "cv_count s' = cv_count s" by (simp_all add: s' goto_def)
    ultimately show ?thesis using l by (simp add: live_def)
  qed
  ultimately show ?thesis using q by (simp add: mon_inv_def)
qed

lemma a_down_sel:
  "0 < fst a \<Longrightarrow> a_down p a = (fst a - 1, snd a)" "\<not> 0 < fst a \<Longrightarrow> a_down p a = (fst a, snd a @ [p])"
  by (cases a; simp)+

lemma enter_inv:
  assumes inv: "mon_inv s pl" and p: "pcs s p = Outside"
  shows "\<exists>pl. mon_inv (mon_enter p s) pl"
proof -
  have t: "token s pl" and q: "queues s" and c: "counts s" using inv by (auto simp: mon_inv_def)
  show ?thesis
  proof (cases "0 < fst (mutex s)")
    case True
    then have pl: "pl = InMutex" using t by (auto simp: token_def split: if_splits)
    have e: "mon_enter p s = goto p Inside s\<lparr>mutex := (0, snd (mutex s)), next_sem := next_sem s, cv_sem := cv_sem s\<rparr>"
      using True t pl by (simp add: mon_enter_def goto_def a_down_sel(1) token_def)
    have "mon_inv (mon_enter p s) (With p)"
      using t pl p c by (intro take_inv [OF inv _ _ _ _ counts_same _ e]) (auto simp: token_def)
    then show ?thesis ..
  next
    case False
    then have e: "mon_enter p s = goto p AtMutex s\<lparr>mutex := (fst (mutex s), snd (mutex s) @ [p]), next_sem := next_sem s, cv_sem := cv_sem s\<rparr>"
      by (simp add: mon_enter_def goto_def a_down_sel(2))
    have "queues (mon_enter p s)"
      using queues_block(1) [OF q, of p "fst (mutex s)"] p by (simp add: e goto_def)
    then have "mon_inv (mon_enter p s) pl"
      using p c by (intro block_inv [OF inv _ _ counts_same e]) auto
    then show ?thesis ..
  qed
qed

lemma wait_down_inv:
  assumes inv: "mon_inv s pl" and p: "pcs s p = WDown c" and run: "cond_wait p (WDown c) s = Some s'"
  shows "\<exists>pl. mon_inv s' pl"
proof -
  have t: "token s pl" and q: "queues s" and cn: "counts s" using inv by (auto simp: mon_inv_def)
  show ?thesis
  proof (cases "0 < fst (cv_sem s c)")
    case True
    then have pl: "pl = InCv c" using t by (auto simp: token_def split: if_splits)
    have e: "s' = goto p (WDec c) s\<lparr>mutex := mutex s, next_sem := next_sem s, cv_sem := (cv_sem s)(c := (0, snd (cv_sem s c)))\<rparr>"
      using run True t pl by (auto simp: goto_def a_down_sel(1) token_def)
    have "mon_inv s' (With p)"
      using t pl p cn by (intro take_inv [OF inv _ _ _ _ counts_same _ e]) (auto simp: token_def)
    then show ?thesis ..
  next
    case False
    then have e: "s' = goto p (WaitCv c) s\<lparr>mutex := mutex s, next_sem := next_sem s,
        cv_sem := (cv_sem s)(c := (fst (cv_sem s c), snd (cv_sem s c) @ [p]))\<rparr>"
      using run by (auto simp: goto_def a_down_sel(2))
    have "queues s'" using queues_block(3) [OF q, of p c "fst (cv_sem s c)"] p by (simp add: e goto_def)
    moreover have "pl \<noteq> InCv c" using t False by (auto simp: token_def)
    ultimately have "mon_inv s' pl" using p cn by (intro block_inv [OF inv _ _ counts_same e]) auto
    then show ?thesis ..
  qed
qed

lemma signal_down_inv:
  assumes inv: "mon_inv s pl" and p: "pcs s p = SDown" and run: "cond_signal p SDown s = Some s'"
  shows "\<exists>pl. mon_inv s' pl"
proof -
  have t: "token s pl" and q: "queues s" and cn: "counts s" using inv by (auto simp: mon_inv_def)
  show ?thesis
  proof (cases "0 < fst (next_sem s)")
    case True
    then have pl: "pl = InNext" using t by (auto simp: token_def split: if_splits)
    have e: "s' = goto p SDec s\<lparr>mutex := mutex s, next_sem := (0, snd (next_sem s)), cv_sem := cv_sem s\<rparr>"
      using run True t pl by (auto simp: goto_def a_down_sel(1) token_def)
    have "mon_inv s' (With p)"
      using t pl p cn by (intro take_inv [OF inv _ _ _ _ counts_same _ e]) (auto simp: token_def)
    then show ?thesis ..
  next
    case False
    then have e: "s' = goto p WaitNext s\<lparr>mutex := mutex s, next_sem := (fst (next_sem s), snd (next_sem s) @ [p]), cv_sem := cv_sem s\<rparr>"
      using run by (auto simp: goto_def a_down_sel(2))
    have "queues s'" using queues_block(2) [OF q, of p "fst (next_sem s)"] p by (simp add: e goto_def)
    moreover have "pl \<noteq> InNext" using t False by (auto simp: token_def)
    ultimately have "mon_inv s' pl" using p cn by (intro block_inv [OF inv _ _ counts_same e]) auto
    then show ?thesis ..
  qed
qed

lemma active_with:
  assumes "mon_inv s pl" and "active (pcs s p)"
  shows "mon_inv s (With p)"
  using assms by (auto simp: mon_inv_def token_def)

text \<open>Steps of the active thread that only change its program point and the counters.\<close>

lemma move_inv:
  assumes inv: "mon_inv s pl" and a: "active (pcs s p)" "active x" and cx: "counts s'"
    and s': "s' = goto p x (s\<lparr>next_count := nc, cv_count := cc\<rparr>)"
    and l: "\<forall>c. x = WUpNext c \<longrightarrow> 0 < nc" "x = LeaveNext \<longrightarrow> 0 < nc" "\<forall>c. x = SInc c \<or> x = SUp c \<longrightarrow> 0 < cc c"
  shows "\<exists>pl. mon_inv s' pl"
proof -
  have "live s' (With p)" using l by (auto simp: s' live_def goto_def)
  from silent_inv [OF active_with [OF inv a(1)] a(2) cx s' this] show ?thesis by blast
qed

lemma wait_step_inv:
  assumes inv: "mon_inv s pl" and run: "cond_wait p (pcs s p) s = Some s'"
  shows "\<exists>pl. mon_inv s' pl"
proof (cases "pcs s p")
  case (WTest c)
  have cn: "counts s" using inv by (simp add: mon_inv_def)
  let ?x = "if next_count s > 0 then WUpNext c else WUpMutex c"
  have s': "s' = goto p ?x (s\<lparr>next_count := next_count s, cv_count := cv_count s\<rparr>)"
    using run WTest by (simp add: goto_def)
  have "counts s'" using counts_same [OF cn, of ?x p] WTest by (auto simp: s' goto_def)
  then show ?thesis using WTest by (intro move_inv [OF inv _ _ _ s']) (auto split: if_splits)
next
  case (WUpNext c)
  have w: "mon_inv s (With p)" using active_with [OF inv] WUpNext by simp
  then have "0 < next_count s" "counts s" using WUpNext by (auto simp: mon_inv_def live_def)
  then show ?thesis using run WUpNext up_next_inv [OF w, of "WDown c"] counts_same [of s "WDown c" p] by simp
next
  case (WUpMutex c)
  have w: "mon_inv s (With p)" using active_with [OF inv] WUpMutex by simp
  then have "counts s" by (simp add: mon_inv_def)
  then show ?thesis using run WUpMutex up_mutex_inv [OF w, of "WDown c"] counts_same [of s "WDown c" p] by simp
next
  case (WDown c)
  then show ?thesis using wait_down_inv [OF inv] run by simp
next
  case (WDec c)
  have cn: "counts s" using inv by (simp add: mon_inv_def)
  have s': "s' = goto p Inside (s\<lparr>next_count := next_count s, cv_count := (cv_count s)(c := cv_count s c - 1)\<rparr>)"
    using run WDec by (simp add: goto_def)
  have "(\<lambda>d. cv_count s d + (if waiting d Inside then 1 else 0) - (if waiting d (pcs s p) then 1 else 0)) =
      (cv_count s)(c := cv_count s c - 1)" using WDec by auto
  then have "counts s'" using counts_goto [OF cn, of p Inside] WDec by (simp add: s' goto_def)
  then show ?thesis using WDec by (intro move_inv [OF inv _ _ _ s']) auto
qed (use run in auto)

lemma signal_step_inv:
  assumes inv: "mon_inv s pl" and run: "cond_signal p (pcs s p) s = Some s'"
  shows "\<exists>pl. mon_inv s' pl"
proof (cases "pcs s p")
  case (SInc c)
  have w: "mon_inv s (With p)" using active_with [OF inv] SInc by simp
  then have cn: "counts s" and pos: "0 < cv_count s c" using SInc by (auto simp: mon_inv_def live_def)
  have s': "s' = goto p (SUp c) (s\<lparr>next_count := next_count s + 1, cv_count := cv_count s\<rparr>)"
    using run SInc by (simp add: goto_def)
  have "counts s'" using counts_goto [OF cn, of p "SUp c"] SInc by (simp add: s' goto_def)
  then show ?thesis using SInc pos by (intro move_inv [OF inv _ _ _ s']) auto
next
  case (SUp c)
  have w: "mon_inv s (With p)" using active_with [OF inv] SUp by simp
  then have "0 < cv_count s c" "counts s" using SUp by (auto simp: mon_inv_def live_def)
  then show ?thesis using run SUp up_cv_inv [OF w, of SDown c] counts_same [of s SDown p] by simp
next
  case SDown
  then show ?thesis using signal_down_inv [OF inv] run by simp
next
  case SDec
  have cn: "counts s" using inv by (simp add: mon_inv_def)
  have s': "s' = goto p Inside (s\<lparr>next_count := next_count s - 1, cv_count := cv_count s\<rparr>)"
    using run SDec by (simp add: goto_def)
  have "counts s'" using counts_goto [OF cn, of p Inside] SDec by (simp add: s' goto_def)
  then show ?thesis using SDec by (intro move_inv [OF inv _ _ _ s']) auto
qed (use run in auto)

lemma leave_inv:
  assumes inv: "mon_inv s pl" and run: "mon_leave p (pcs s p) s = Some s'"
  shows "\<exists>pl. mon_inv s' pl"
proof (cases "pcs s p")
  case LeaveNext
  have w: "mon_inv s (With p)" using active_with [OF inv] LeaveNext by simp
  then have "0 < next_count s" "counts s" using LeaveNext by (auto simp: mon_inv_def live_def)
  then show ?thesis using run LeaveNext up_next_inv [OF w, of Outside] counts_same [of s Outside p] by simp
next
  case LeaveMutex
  have w: "mon_inv s (With p)" using active_with [OF inv] LeaveMutex by simp
  then have "counts s" by (simp add: mon_inv_def)
  then show ?thesis using run LeaveMutex up_mutex_inv [OF w, of Outside] counts_same [of s Outside p] by simp
qed (use run in auto)

lemma inside_inv:
  assumes inv: "mon_inv s pl" and p: "pcs s p = Inside"
  shows "\<exists>pl. mon_inv (mon_leave_test p s) pl" "\<exists>pl. mon_inv (cond_wait_enter p c s) pl"
    "\<exists>pl. mon_inv (cond_signal_enter p c s) pl"
proof -
  have cn: "counts s" using inv by (simp add: mon_inv_def)
  let ?x = "if next_count s > 0 then LeaveNext else LeaveMutex"
  have s1: "mon_leave_test p s = goto p ?x (s\<lparr>next_count := next_count s, cv_count := cv_count s\<rparr>)"
    by (simp add: mon_leave_test_def goto_def)
  have "counts (mon_leave_test p s)" using counts_same [OF cn, of ?x p] p by (auto simp: s1 goto_def)
  then show "\<exists>pl. mon_inv (mon_leave_test p s) pl"
    using p by (intro move_inv [OF inv _ _ _ s1]) (auto split: if_splits)
  have s2: "cond_wait_enter p c s = goto p (WTest c) (s\<lparr>next_count := next_count s, cv_count := (cv_count s)(c := cv_count s c + 1)\<rparr>)"
    by (simp add: cond_wait_enter_def goto_def)
  have "(\<lambda>d. cv_count s d + (if waiting d (WTest c) then 1 else 0) - (if waiting d (pcs s p) then 1 else 0)) =
      (cv_count s)(c := cv_count s c + 1)" using p by auto
  then have "counts (cond_wait_enter p c s)" using counts_goto [OF cn, of p "WTest c"] p by (simp add: s2 goto_def)
  then show "\<exists>pl. mon_inv (cond_wait_enter p c s) pl" using p by (intro move_inv [OF inv _ _ _ s2]) auto
  show "\<exists>pl. mon_inv (cond_signal_enter p c s) pl"
  proof (cases "cv_count s c > 0")
    case True
    then have s3: "cond_signal_enter p c s = goto p (SInc c) (s\<lparr>next_count := next_count s, cv_count := cv_count s\<rparr>)"
      by (simp add: cond_signal_enter_def goto_def)
    have "counts (cond_signal_enter p c s)" using counts_same [OF cn, of "SInc c" p] p by (simp add: s3 goto_def)
    then show ?thesis using p True by (intro move_inv [OF inv _ _ _ s3]) auto
  next
    case False
    then show ?thesis using inv by (auto simp: cond_signal_enter_def)
  qed
qed

lemma mon_step_inv: "mon_step s s' \<Longrightarrow> mon_inv s pl \<Longrightarrow> \<exists>pl'. mon_inv s' pl'"
  by (induction rule: mon_step.induct)
     (blast intro: enter_inv leave_inv wait_step_inv signal_step_inv inside_inv)+

lemma mon_reach_inv: "mon_reach n s \<Longrightarrow> \<exists>pl. mon_inv s pl"
proof (induction rule: mon_reach.induct)
  case (start s)
  then have s: "s = \<lparr>mutex = (1, []), next_sem = (0, []), next_count = 0,
      cv_sem = (\<lambda>_. (0, [])), cv_count = (\<lambda>_. 0), pcs = (\<lambda>_. Outside)\<rparr>"
    by (cases "n > 0") (simp_all add: monitor_init_def)
  show ?case by (intro exI [of _ InMutex]) (simp add: s mon_inv_def token_def queues_def counts_def live_def)
next
  case (more s s')
  then show ?case using mon_step_inv by blast
qed

section \<open>The properties\<close>

text \<open>C8: Mutual exclusion: in every reachable state of the monitor, at any point of any interleaving of
  \<^verbatim>\<open>cond_wait\<close>, \<^verbatim>\<open>cond_signal\<close>, entries and exits, at most one thread is active inside it.\<close>

theorem monitor_mutual_exclusion:
  assumes "mon_reach n s" and "active (pcs s p)" and "active (pcs s q)"
  shows "p = q"
  using mon_reach_inv [OF assms(1)] assms(2,3) by (auto simp: mon_inv_def token_def)

definition mon_start :: monitor where
  "mon_start = the (monitor_init 1 True (\<lambda>_. Outside))"

lemma mon_start_reach: "mon_reach 1 mon_start"
  by (rule mon_reach.start) (simp add: mon_start_def monitor_init_def)

theorem monitor_mutual_exclusion_witness:
  "active (pcs (mon_enter 4 (mon_enter 3 mon_start)) 3) \<and> \<not> active (pcs (mon_enter 4 (mon_enter 3 mon_start)) 4)"
proof -
  have a: "pcs mon_start 3 = Outside" "pcs (mon_enter 3 mon_start) 4 = Outside"
    by (simp_all add: mon_start_def monitor_init_def mon_enter_def goto_def)
  have "mon_reach 1 (mon_enter 4 (mon_enter 3 mon_start))"
    using mon_reach.more [OF mon_reach.more [OF mon_start_reach mon_step.enter [OF a(1)]] mon_step.enter [OF a(2)]] .
  moreover have act: "active (pcs (mon_enter 4 (mon_enter 3 mon_start)) 3)"
    by (simp add: mon_start_def monitor_init_def mon_enter_def goto_def)
  ultimately show ?thesis using monitor_mutual_exclusion [of 1 _ 3 4] by auto
qed

text \<open>C9: The right to enter is never lost: whenever a thread would have to wait for the mutex, some thread is
  active in the monitor, or a semaphore holds the permit and a thread that is not asleep is about to take it.\<close>

theorem monitor_never_stuck:
  assumes "mon_reach n s" and "fst (mutex s) = 0"
  shows "\<exists>p. active (pcs s p) \<or> (pcs s p = SDown \<and> 0 < fst (next_sem s)) \<or>
     (\<exists>c. pcs s p = WDown c \<and> 0 < fst (cv_sem s c))"
proof -
  from mon_reach_inv [OF assms(1)] obtain pl where "token s pl" "live s pl" by (auto simp: mon_inv_def)
  then show ?thesis using assms(2) by (cases pl) (auto simp: token_def live_def)
qed

theorem monitor_never_stuck_witness:
  "fst (mutex (mon_enter 3 mon_start)) = 0 \<and>
   (\<exists>p. active (pcs (mon_enter 3 mon_start) p) \<or> (pcs (mon_enter 3 mon_start) p = SDown \<and> 0 < fst (next_sem (mon_enter 3 mon_start))) \<or>
     (\<exists>c. pcs (mon_enter 3 mon_start) p = WDown c \<and> 0 < fst (cv_sem (mon_enter 3 mon_start) c)))"
proof -
  have a: "pcs mon_start 3 = Outside" by (simp add: mon_start_def monitor_init_def)
  have r: "mon_reach 1 (mon_enter 3 mon_start)"
    using mon_reach.more [OF mon_start_reach mon_step.enter [OF a]] .
  have z: "fst (mutex (mon_enter 3 mon_start)) = 0" by (simp add: mon_start_def monitor_init_def mon_enter_def goto_def)
  show ?thesis using z monitor_never_stuck [OF r z] by blast
qed

end
