(* ===== verification/PhilSema.thy ===== *)
theory PhilSema
  imports Semaphore
begin

text \<open>
  The dining philosophers with semaphores, the first half of \<^verbatim>\<open>kern/sync/check_sync.c\<close>, as a system of
  interleaved threads: five philosophers and the thread that runs \<^verbatim>\<open>check_sync\<close>.  The semaphores are the
  abstract semaphores that \<^verbatim>\<open>sem.c\<close> refines.  Every access to the shared state is one atomic step, so a thread
  can be preempted between any two of them, which allows more runs than the kernel has; the sleeping of a
  thinking or an eating philosopher is a delay and no step of its own.
\<close>

section \<open>State\<close>

abbreviation (input) N :: nat where "N \<equiv> 5"
abbreviation (input) TIMES :: nat where "TIMES \<equiv> 4"

definition LEFT :: "nat \<Rightarrow> nat" where "LEFT i = (i + N - 1) mod N"
definition RIGHT :: "nat \<Rightarrow> nat" where "RIGHT i = (i + 1) mod N"

datatype phil = THINKING | HUNGRY | EATING

text \<open>The three calls of \<^verbatim>\<open>phi_test_sema\<close>, the philosopher that each tests, and the program points, named after the
  statement that comes next; \<open>TakeWait\<close>, \<open>PutWait\<close> and \<open>ForkWait\<close> are the sleeping points inside \<^verbatim>\<open>down\<close>.\<close>

datatype call = FromTake | FromLeft | FromRight

fun target :: "call \<Rightarrow> nat \<Rightarrow> nat" where
  "target FromTake i = i"
| "target FromLeft i = LEFT i"
| "target FromRight i = RIGHT i"

datatype phil_pc =
    NotCreated | Loop | TakeDown | TakeWait | SetHungry | Test call | SetEating call | UpFork call
  | TakeUp | ForkDown | ForkWait | Dining | PutWait | SetThinking | PutUp | Quit

datatype main_pc = Create nat | Join nat | Finished

record table =
  state_sema :: "nat \<Rightarrow> phil"
  mutex_sema :: asem
  fork_sema :: "nat \<Rightarrow> asem"
  iter :: "nat \<Rightarrow> nat"
  phil_pcs :: "nat \<Rightarrow> phil_pc"
  main_pc :: main_pc

section \<open>The operations\<close>

definition at :: "nat \<Rightarrow> phil_pc \<Rightarrow> table \<Rightarrow> table" where
  "at i x s = s\<lparr>phil_pcs := (phil_pcs s)(i := x)\<rparr>"

text \<open>Where a thread continues when the \<^verbatim>\<open>down\<close> it sleeps in returns.\<close>

fun woken :: "phil_pc \<Rightarrow> phil_pc" where
  "woken TakeWait = SetHungry"
| "woken PutWait = SetThinking"
| "woken ForkWait = Dining"
| "woken x = x"

definition wake :: "asem \<Rightarrow> (nat \<Rightarrow> phil_pc) \<Rightarrow> nat \<Rightarrow> phil_pc" where
  "wake a ps = (case snd a of [] \<Rightarrow> ps | q # _ \<Rightarrow> ps(q := woken (ps q)))"

definition up_table :: "table \<Rightarrow> table" where
  "up_table s = s\<lparr>mutex_sema := a_up (mutex_sema s), phil_pcs := wake (mutex_sema s) (phil_pcs s)\<rparr>"

definition up_fork :: "nat \<Rightarrow> table \<Rightarrow> table" where
  "up_fork j s = s\<lparr>fork_sema := (fork_sema s)(j := a_up (fork_sema s j)), phil_pcs := wake (fork_sema s j) (phil_pcs s)\<rparr>"

definition down_table :: "nat \<Rightarrow> phil_pc \<Rightarrow> phil_pc \<Rightarrow> table \<Rightarrow> table" where
  "down_table i go sleep s =
     at i (if fst (mutex_sema s) > 0 then go else sleep) (s\<lparr>mutex_sema := a_down i (mutex_sema s)\<rparr>)"

definition down_fork :: "nat \<Rightarrow> table \<Rightarrow> table" where
  "down_fork i s =
     at i (if fst (fork_sema s i) > 0 then Dining else ForkWait) (s\<lparr>fork_sema := (fork_sema s)(i := a_down i (fork_sema s i))\<rparr>)"

fun after :: "call \<Rightarrow> phil_pc" where
  "after FromTake = TakeUp"
| "after FromLeft = Test FromRight"
| "after FromRight = PutUp"

definition can_eat :: "nat \<Rightarrow> table \<Rightarrow> bool" where
  "can_eat j s \<longleftrightarrow> state_sema s j = HUNGRY \<and> state_sema s (LEFT j) \<noteq> EATING \<and> state_sema s (RIGHT j) \<noteq> EATING"

text \<open>One step of thread \<open>i\<close> inside \<^verbatim>\<open>phi_test_sema\<close>, \<^verbatim>\<open>phi_take_forks_sema\<close> and \<^verbatim>\<open>phi_put_forks_sema\<close>.\<close>

fun phi_test_sema :: "nat \<Rightarrow> phil_pc \<Rightarrow> table \<Rightarrow> table option" where
  "phi_test_sema i (Test r) s = Some (at i (if can_eat (target r i) s then SetEating r else after r) s)"
| "phi_test_sema i (SetEating r) s =
     Some (at i (UpFork r) (s\<lparr>state_sema := (state_sema s)(target r i := EATING)\<rparr>))"
| "phi_test_sema i (UpFork r) s = Some (up_fork (target r i) (at i (after r) s))"
| "phi_test_sema i _ s = None"

fun phi_take_forks_sema :: "nat \<Rightarrow> phil_pc \<Rightarrow> table \<Rightarrow> table option" where
  "phi_take_forks_sema i TakeDown s = Some (down_table i SetHungry TakeWait s)"
| "phi_take_forks_sema i SetHungry s =
     Some (at i (Test FromTake) (s\<lparr>state_sema := (state_sema s)(i := HUNGRY)\<rparr>))"
| "phi_take_forks_sema i TakeUp s = Some (up_table (at i ForkDown s))"
| "phi_take_forks_sema i ForkDown s = Some (down_fork i s)"
| "phi_take_forks_sema i _ s = None"

fun phi_put_forks_sema :: "nat \<Rightarrow> phil_pc \<Rightarrow> table \<Rightarrow> table option" where
  "phi_put_forks_sema i Dining s = Some (down_table i SetThinking PutWait s)"
| "phi_put_forks_sema i SetThinking s =
     Some (at i (Test FromLeft) (s\<lparr>state_sema := (state_sema s)(i := THINKING)\<rparr>))"
| "phi_put_forks_sema i PutUp s = Some (up_table (at i Loop s))"
| "phi_put_forks_sema i _ s = None"

text \<open>The thread: the loop test \<^verbatim>\<open>iter++ < TIMES\<close>, or a step of the function it is in.\<close>

fun philosopher_using_semaphore :: "nat \<Rightarrow> phil_pc \<Rightarrow> table \<Rightarrow> table option" where
  "philosopher_using_semaphore i Loop s =
     Some (at i (if iter s i < TIMES then TakeDown else Quit) (s\<lparr>iter := (iter s)(i := iter s i + 1)\<rparr>))"
| "philosopher_using_semaphore i (Test r) s = phi_test_sema i (Test r) s"
| "philosopher_using_semaphore i (SetEating r) s = phi_test_sema i (SetEating r) s"
| "philosopher_using_semaphore i (UpFork r) s = phi_test_sema i (UpFork r) s"
| "philosopher_using_semaphore i TakeDown s = phi_take_forks_sema i TakeDown s"
| "philosopher_using_semaphore i SetHungry s = phi_take_forks_sema i SetHungry s"
| "philosopher_using_semaphore i TakeUp s = phi_take_forks_sema i TakeUp s"
| "philosopher_using_semaphore i ForkDown s = phi_take_forks_sema i ForkDown s"
| "philosopher_using_semaphore i Dining s = phi_put_forks_sema i Dining s"
| "philosopher_using_semaphore i SetThinking s = phi_put_forks_sema i SetThinking s"
| "philosopher_using_semaphore i PutUp s = phi_put_forks_sema i PutUp s"
| "philosopher_using_semaphore i _ s = None"

text \<open>\<^verbatim>\<open>check_sync\<close> up to the end of the semaphore test: one turn of a loop is a step; \<^verbatim>\<open>do_wait\<close> returns when the
  philosopher has quit.  The state at the start has the first \<^verbatim>\<open>sem_init\<close> behind it.\<close>

definition check_sync_start :: "(nat \<Rightarrow> asem) \<Rightarrow> table" where
  "check_sync_start f = \<lparr>state_sema = (\<lambda>_. THINKING), mutex_sema = (1, []), fork_sema = f, iter = (\<lambda>_. 0),
     phil_pcs = (\<lambda>_. NotCreated), main_pc = Create 0\<rparr>"

fun check_sync_sema :: "main_pc \<Rightarrow> table \<Rightarrow> table option" where
  "check_sync_sema (Create i) s =
     (if i < N then Some (at i Loop (s\<lparr>fork_sema := (fork_sema s)(i := (0, [])), iter := (iter s)(i := 0), main_pc := Create (i + 1)\<rparr>))
      else Some (s\<lparr>main_pc := Join 0\<rparr>))"
| "check_sync_sema (Join i) s =
     (if i < N then (if phil_pcs s i = Quit then Some (s\<lparr>main_pc := Join (i + 1)\<rparr>) else None)
      else Some (s\<lparr>main_pc := Finished\<rparr>))"
| "check_sync_sema Finished s = None"

inductive table_step :: "table \<Rightarrow> table \<Rightarrow> bool" where
  phil: "philosopher_using_semaphore i (phil_pcs s i) s = Some s' \<Longrightarrow> table_step s s'"
| main: "check_sync_sema (main_pc s) s = Some s' \<Longrightarrow> table_step s s'"

inductive table_reach :: "table \<Rightarrow> bool" where
  start: "table_reach (check_sync_start f)"
| more: "table_reach s \<Longrightarrow> table_step s s' \<Longrightarrow> table_reach s'"

section \<open>The invariant\<close>

lemma neighbours:
  assumes "i < N"
  shows "LEFT i < N" "RIGHT i < N" "LEFT i \<noteq> i" "RIGHT i \<noteq> i" "LEFT i \<noteq> RIGHT i"
    "LEFT (RIGHT i) = i" "RIGHT (LEFT i) = i"
proof -
  have "i = 0 \<or> i = 1 \<or> i = 2 \<or> i = 3 \<or> i = 4" using assms by auto
  then show "LEFT i < N" "RIGHT i < N" "LEFT i \<noteq> i" "RIGHT i \<noteq> i" "LEFT i \<noteq> RIGHT i"
    "LEFT (RIGHT i) = i" "RIGHT (LEFT i) = i" by (auto simp: LEFT_def RIGHT_def)
qed

lemma target_less: "i < N \<Longrightarrow> target r i < N"
  by (cases r) (simp_all add: neighbours)

text \<open>The thread that holds the mutex.\<close>

fun inside :: "phil_pc \<Rightarrow> bool" where
  "inside SetHungry = True"
| "inside (Test r) = True"
| "inside (SetEating r) = True"
| "inside (UpFork r) = True"
| "inside TakeUp = True"
| "inside SetThinking = True"
| "inside PutUp = True"
| "inside x = False"

definition mutex_inv :: "table \<Rightarrow> nat option \<Rightarrow> bool" where
  "mutex_inv s h \<longleftrightarrow> (\<forall>i. inside (phil_pcs s i) \<longleftrightarrow> h = Some i) \<and> fst (mutex_sema s) = (if h = None then 1 else 0) \<and>
     (h = None \<longrightarrow> snd (mutex_sema s) = []) \<and> distinct (snd (mutex_sema s)) \<and>
     set (snd (mutex_sema s)) = {i. phil_pcs s i = TakeWait \<or> phil_pcs s i = PutWait}"

text \<open>Somebody is about to hand philosopher \<open>j\<close> the permit to eat.\<close>

definition owed :: "table \<Rightarrow> nat \<Rightarrow> bool" where
  "owed s j \<longleftrightarrow> (\<exists>p r. phil_pcs s p = UpFork r \<and> target r p = j)"

text \<open>What the state and the semaphore of a philosopher are at each of its program points.\<close>

fun local_ok :: "nat \<Rightarrow> phil_pc \<Rightarrow> phil \<Rightarrow> asem \<Rightarrow> bool \<Rightarrow> bool" where
  "local_ok i NotCreated st f ow \<longleftrightarrow> st = THINKING \<and> \<not> ow"
| "local_ok i (Test r) st f ow \<longleftrightarrow> st = (if r = FromTake then HUNGRY else THINKING) \<and> f = (0, []) \<and> \<not> ow"
| "local_ok i (SetEating r) st f ow \<longleftrightarrow> st = (if r = FromTake then HUNGRY else THINKING) \<and> f = (0, []) \<and> \<not> ow"
| "local_ok i (UpFork r) st f ow \<longleftrightarrow> st = (if r = FromTake then EATING else THINKING) \<and> f = (0, []) \<and> (ow \<longleftrightarrow> r = FromTake)"
| "local_ok i TakeUp st f ow \<longleftrightarrow> (st = HUNGRY \<and> f = (0, []) \<or> st = EATING \<and> f = (1, [])) \<and> \<not> ow"
| "local_ok i ForkDown st f ow \<longleftrightarrow>
     st = HUNGRY \<and> f = (0, []) \<and> \<not> ow \<or> st = EATING \<and> f = (0, []) \<and> ow \<or> st = EATING \<and> f = (1, []) \<and> \<not> ow"
| "local_ok i ForkWait st f ow \<longleftrightarrow> (st = HUNGRY \<and> \<not> ow \<or> st = EATING \<and> ow) \<and> f = (0, [i])"
| "local_ok i Dining st f ow \<longleftrightarrow> st = EATING \<and> f = (0, []) \<and> \<not> ow"
| "local_ok i PutWait st f ow \<longleftrightarrow> st = EATING \<and> f = (0, []) \<and> \<not> ow"
| "local_ok i SetThinking st f ow \<longleftrightarrow> st = EATING \<and> f = (0, []) \<and> \<not> ow"
| "local_ok i x st f ow \<longleftrightarrow> st = THINKING \<and> f = (0, []) \<and> \<not> ow"

abbreviation local_at :: "table \<Rightarrow> nat \<Rightarrow> bool" where
  "local_at s i \<equiv> local_ok i (phil_pcs s i) (state_sema s i) (fork_sema s i) (owed s i)"

definition nobody_beside :: "table \<Rightarrow> nat \<Rightarrow> bool" where
  "nobody_beside s j \<longleftrightarrow> state_sema s (LEFT j) \<noteq> EATING \<and> state_sema s (RIGHT j) \<noteq> EATING"

text \<open>The test of philosopher \<open>j\<close> is still ahead of a thread at the given point.\<close>

fun pending :: "nat \<Rightarrow> phil_pc \<Rightarrow> nat \<Rightarrow> bool" where
  "pending p (Test r) j \<longleftrightarrow> target r p = j \<or> r = FromLeft \<and> RIGHT p = j"
| "pending p (SetEating r) j \<longleftrightarrow> target r p = j \<or> r = FromLeft \<and> RIGHT p = j"
| "pending p (UpFork r) j \<longleftrightarrow> r = FromLeft \<and> RIGHT p = j"
| "pending p _ j \<longleftrightarrow> False"

definition table_inv :: "table \<Rightarrow> nat option \<Rightarrow> bool" where
  "table_inv s h \<longleftrightarrow> mutex_inv s h \<and> (\<forall>i. local_at s i) \<and> (\<forall>i. phil_pcs s i \<noteq> NotCreated \<longrightarrow> i < N) \<and>
     (\<forall>i r. phil_pcs s i = SetEating r \<longrightarrow> can_eat (target r i) s) \<and>
     (\<forall>i<N. state_sema s i = EATING \<longrightarrow> nobody_beside s i) \<and>
     (\<forall>j<N. state_sema s j = HUNGRY \<longrightarrow> nobody_beside s j \<longrightarrow> (\<exists>p. pending p (phil_pcs s p) j))"


lemma owed_holder:
  assumes "mutex_inv s h"
  shows "owed s j \<longleftrightarrow> (case h of None \<Rightarrow> False | Some p \<Rightarrow> \<exists>r. phil_pcs s p = UpFork r \<and> target r p = j)"
proof -
  have "h = Some p" if "phil_pcs s p = UpFork r" for p r
    using assms that unfolding mutex_inv_def by (metis inside.simps(4))
  then show ?thesis by (cases h) (auto simp: owed_def)
qed

lemma pending_inside: "pending p x j \<Longrightarrow> inside x"
  by (cases x) auto

lemma pending_holder:
  assumes "mutex_inv s h"
  shows "(\<exists>p. pending p (phil_pcs s p) j) \<longleftrightarrow> (case h of None \<Rightarrow> False | Some p \<Rightarrow> pending p (phil_pcs s p) j)"
proof -
  have "h = Some p" if "pending p (phil_pcs s p) j" for p
    using assms pending_inside [OF that] by (simp add: mutex_inv_def)
  then show ?thesis by (cases h) auto
qed

text \<open>The invariant with the holder of the mutex written out, as the steps use it.\<close>

definition owes :: "table \<Rightarrow> nat option \<Rightarrow> nat \<Rightarrow> bool" where
  "owes s h j \<longleftrightarrow> (case h of None \<Rightarrow> False | Some p \<Rightarrow> \<exists>r. phil_pcs s p = UpFork r \<and> target r p = j)"

definition rest_inv :: "table \<Rightarrow> nat option \<Rightarrow> bool" where
  "rest_inv s h \<longleftrightarrow> (\<forall>i. local_ok i (phil_pcs s i) (state_sema s i) (fork_sema s i) (owes s h i)) \<and>
     (\<forall>i. phil_pcs s i \<noteq> NotCreated \<longrightarrow> i < N) \<and>
     (\<forall>p r. h = Some p \<longrightarrow> phil_pcs s p = SetEating r \<longrightarrow> can_eat (target r p) s) \<and>
     (\<forall>i<N. state_sema s i = EATING \<longrightarrow> nobody_beside s i) \<and>
     (\<forall>j<N. state_sema s j = HUNGRY \<longrightarrow> nobody_beside s j \<longrightarrow>
        (case h of None \<Rightarrow> False | Some p \<Rightarrow> pending p (phil_pcs s p) j))"

lemma table_inv_rest: "table_inv s h \<longleftrightarrow> mutex_inv s h \<and> rest_inv s h"
proof (cases "mutex_inv s h")
  case True
  have "h = Some i" if "phil_pcs s i = SetEating r" for i r
    using True that unfolding mutex_inv_def by (metis inside.simps(3))
  then have "(\<forall>i r. phil_pcs s i = SetEating r \<longrightarrow> can_eat (target r i) s) \<longleftrightarrow>
      (\<forall>p r. h = Some p \<longrightarrow> phil_pcs s p = SetEating r \<longrightarrow> can_eat (target r p) s)" by blast
  moreover have "owed s i = owes s h i" for i using owed_holder [OF True] by (simp add: owes_def)
  ultimately show ?thesis using True by (simp add: table_inv_def rest_inv_def pending_holder [OF True])
qed (simp add: table_inv_def)

section \<open>Preservation\<close>

lemma mutex_inv_at:
  assumes "mutex_inv s h" and "inside x \<longleftrightarrow> inside (phil_pcs s i)"
    and "phil_pcs s i \<noteq> TakeWait" "phil_pcs s i \<noteq> PutWait" "x \<noteq> TakeWait" "x \<noteq> PutWait"
    and "phil_pcs s' = (phil_pcs s)(i := x)" "mutex_sema s' = mutex_sema s"
  shows "mutex_inv s' h"
proof -
  have "{j. phil_pcs s' j = TakeWait \<or> phil_pcs s' j = PutWait} = {j. phil_pcs s j = TakeWait \<or> phil_pcs s j = PutWait}"
    using assms(3-7) by auto
  then show ?thesis using assms(1,2) by (simp add: mutex_inv_def assms(7,8))
qed

lemma holder: "mutex_inv s h \<Longrightarrow> inside (phil_pcs s i) \<Longrightarrow> h = Some i"
  by (simp add: mutex_inv_def)

lemma not_holder: "mutex_inv s h \<Longrightarrow> \<not> inside (phil_pcs s i) \<Longrightarrow> h \<noteq> Some i"
  by (auto simp: mutex_inv_def)

lemma local_of: "rest_inv s h \<Longrightarrow> phil_pcs s i = x \<Longrightarrow> local_ok i x (state_sema s i) (fork_sema s i) (owes s h i)"
  by (auto simp: rest_inv_def)

lemma created: "rest_inv s h \<Longrightarrow> phil_pcs s i \<noteq> NotCreated \<Longrightarrow> i < N"
  by (simp add: rest_inv_def)

lemma inside_created: "rest_inv s h \<Longrightarrow> inside (phil_pcs s i) \<Longrightarrow> i < N"
  by (cases "phil_pcs s i = NotCreated") (simp_all add: rest_inv_def)

text \<open>Steps outside the critical section.\<close>

lemma outside_inv:
  assumes "table_inv s h" "\<not> inside (phil_pcs s i)" "\<not> inside x" "i < N"
    and "phil_pcs s i \<noteq> TakeWait" "phil_pcs s i \<noteq> PutWait" "x \<noteq> TakeWait" "x \<noteq> PutWait" "x \<noteq> NotCreated"
    and s': "phil_pcs s' = (phil_pcs s)(i := x)" "mutex_sema s' = mutex_sema s" "state_sema s' = state_sema s"
      "fork_sema s' = (fork_sema s)(i := f)"
    and l: "local_ok i x (state_sema s i) f (owes s h i)"
  shows "table_inv s' h"
  unfolding table_inv_rest
proof
  have m: "mutex_inv s h" and r: "rest_inv s h" using assms(1) by (simp_all add: table_inv_rest)
  show "mutex_inv s' h" by (rule mutex_inv_at [OF m, of x i]) (use assms in auto)
  have h: "h \<noteq> Some i" using not_holder [OF m assms(2)] .
  then have "owes s' h = owes s h" by (auto simp: owes_def s' fun_eq_iff split: option.splits)
  then show "rest_inv s' h" using r h l assms(4)
    by (auto simp: rest_inv_def s' can_eat_def nobody_beside_def split: option.splits)
qed

lemma loop_inv:
  assumes "table_inv s h" and "phil_pcs s i = Loop" and "x = TakeDown \<or> x = Quit"
  shows "table_inv (at i x (s\<lparr>iter := t\<rparr>)) h"
proof -
  have r: "rest_inv s h" using assms(1) by (simp add: table_inv_rest)
  show ?thesis using local_of [OF r assms(2)] created [OF r, of i] assms(2,3)
    by (intro outside_inv [OF assms(1), of i x _ "fork_sema s i"]) (auto simp: at_def)
qed

lemma create_inv:
  assumes "table_inv s h" and "phil_pcs s i = NotCreated" and "i < N"
  shows "table_inv (at i Loop (s\<lparr>fork_sema := (fork_sema s)(i := (0, [])), iter := t, main_pc := m\<rparr>)) h"
proof -
  have r: "rest_inv s h" using assms(1) by (simp add: table_inv_rest)
  show ?thesis using local_of [OF r assms(2)] assms(2,3)
    by (intro outside_inv [OF assms(1), of i Loop _ "(0, [])"]) (auto simp: at_def)
qed

lemma down_fork_inv:
  assumes "table_inv s h" and "phil_pcs s i = ForkDown"
  shows "table_inv (down_fork i s) h"
proof -
  have r: "rest_inv s h" using assms(1) by (simp add: table_inv_rest)
  show ?thesis using local_of [OF r assms(2)] created [OF r, of i] assms(2)
    by (intro outside_inv [OF assms(1), of i "if fst (fork_sema s i) > 0 then Dining else ForkWait" _ "a_down i (fork_sema s i)"])
      (auto simp: at_def down_fork_def)
qed

text \<open>\<^verbatim>\<open>down(&mutex)\<close>: the thread enters, or joins the queue.\<close>

lemma down_table_inv:
  assumes "table_inv s h" and p: "phil_pcs s i = x"
    and x: "x = TakeDown \<and> go = SetHungry \<and> sleep = TakeWait \<or> x = Dining \<and> go = SetThinking \<and> sleep = PutWait"
  shows "\<exists>h. table_inv (down_table i go sleep s) h"
proof -
  have m: "mutex_inv s h" and r: "rest_inv s h" using assms(1) by (simp_all add: table_inv_rest)
  let ?s = "down_table i go sleep s" and ?h = "if h = None then Some i else h"
  have hi: "h \<noteq> Some i" using not_holder [OF m, of i] p x by auto
  have ni: "i \<notin> set (snd (mutex_sema s))" using m p x by (auto simp: mutex_inv_def)
  have sel: "state_sema ?s = state_sema s" "fork_sema ?s = fork_sema s"
    "phil_pcs ?s = (phil_pcs s)(i := if h = None then go else sleep)"
    "mutex_sema ?s = (if h = None then (0, []) else (0, snd (mutex_sema s) @ [i]))"
    using m by (cases "mutex_sema s"; auto simp: down_table_def at_def mutex_inv_def)+
  have "owes ?s ?h = owes s h" using hi x by (auto simp: owes_def sel fun_eq_iff split: option.splits)
  moreover have "local_ok i go (state_sema s i) (fork_sema s i) (owes s h i)"
    "local_ok i sleep (state_sema s i) (fork_sema s i) (owes s h i)" using local_of [OF r p] x by auto
  ultimately have "rest_inv ?s ?h" using r hi x p
    by (auto simp: rest_inv_def sel can_eat_def nobody_beside_def split: option.splits)
  moreover have "mutex_inv ?s ?h"
  proof (cases h)
    case None
    then show ?thesis using m x p by (auto simp: mutex_inv_def sel)
  next
    case (Some q)
    then show ?thesis using m x p ni hi by (auto simp: mutex_inv_def sel)
  qed
  ultimately show ?thesis by (auto simp: table_inv_rest)
qed

text \<open>\<^verbatim>\<open>up(&mutex)\<close>: the mutex is free, or the thread that has waited longest is inside.\<close>

lemma up_table_inv:
  assumes "table_inv s h" and p: "phil_pcs s i = x"
    and x: "x = TakeUp \<and> go = ForkDown \<or> x = PutUp \<and> go = Loop"
  shows "\<exists>h. table_inv (up_table (at i go s)) h"
proof -
  have m: "mutex_inv s h" and r: "rest_inv s h" using assms(1) by (simp_all add: table_inv_rest)
  have h: "h = Some i" using holder [OF m, of i] p x by auto
  have li: "local_ok i go (state_sema s i) (fork_sema s i) False"
    using local_of [OF r p] x by (auto simp: owes_def h p)
  have iN: "i < N" using created [OF r, of i] p x by auto
  have ow: "owes s h = (\<lambda>_. False)" using x by (auto simp: owes_def h p)
  let ?s = "up_table (at i go s)"
  show ?thesis
  proof (cases "snd (mutex_sema s)")
    case Nil
    have sel: "state_sema ?s = state_sema s" "fork_sema ?s = fork_sema s" "phil_pcs ?s = (phil_pcs s)(i := go)"
      "mutex_sema ?s = (1, [])" using Nil m h by (cases "mutex_sema s"; simp add: up_table_def at_def wake_def mutex_inv_def)+
    have "mutex_inv ?s None" using m x p h Nil by (auto simp: mutex_inv_def sel)
    moreover have "rest_inv ?s None" using r li iN h p x ow
      by (auto simp: rest_inv_def sel can_eat_def nobody_beside_def owes_def)
    ultimately show ?thesis by (auto simp: table_inv_rest)
  next
    case (Cons q qs)
    let ?x = "woken (phil_pcs s q)"
    have q: "phil_pcs s q = TakeWait \<or> phil_pcs s q = PutWait" using m Cons by (auto simp: mutex_inv_def)
    have qi: "q \<noteq> i" using q p x by auto
    have sel: "state_sema ?s = state_sema s" "fork_sema ?s = fork_sema s"
      "phil_pcs ?s = (phil_pcs s)(i := go, q := ?x)" "mutex_sema ?s = (0, qs)"
      using Cons m h qi by (cases "mutex_sema s"; simp add: up_table_def at_def wake_def mutex_inv_def)+
    have "set (q # qs) = {j. phil_pcs s j = TakeWait \<or> phil_pcs s j = PutWait}" "distinct (q # qs)"
      using m Cons unfolding mutex_inv_def by metis+
    then have "mutex_inv ?s (Some q)" using m q x p h qi by (auto simp: mutex_inv_def sel)
    moreover have "local_ok q ?x (state_sema s q) (fork_sema s q) False"
      using local_of [OF r, of q] q by (auto simp: ow)
    then have "rest_inv ?s (Some q)" using r li iN h p x q qi ow
      by (auto simp: rest_inv_def sel can_eat_def nobody_beside_def owes_def)
    ultimately show ?thesis by (auto simp: table_inv_rest)
  qed
qed

text \<open>Steps inside the critical section.\<close>

lemma critical_inv:
  assumes "table_inv s (Some i)" and x: "inside x"
    and s': "phil_pcs s' i = x" "mutex_sema s' = mutex_sema s"
      "\<And>j. j \<noteq> i \<Longrightarrow> phil_pcs s' j = phil_pcs s j \<or> phil_pcs s j = ForkWait \<and> phil_pcs s' j = Dining"
    and l: "\<And>j. local_ok j (phil_pcs s' j) (state_sema s' j) (fork_sema s' j) (owes s' (Some i) j)"
    and g: "\<And>r. x = SetEating r \<Longrightarrow> can_eat (target r i) s'"
    and e: "\<And>j. j < N \<Longrightarrow> state_sema s' j = EATING \<Longrightarrow> nobody_beside s' j"
    and w: "\<And>j. j < N \<Longrightarrow> state_sema s' j = HUNGRY \<Longrightarrow> nobody_beside s' j \<Longrightarrow> pending i x j"
  shows "table_inv s' (Some i)"
  unfolding table_inv_rest
proof
  have m: "mutex_inv s (Some i)" and r: "rest_inv s (Some i)" using assms(1) by (simp_all add: table_inv_rest)
  then have i: "inside (phil_pcs s i)" by (simp add: mutex_inv_def)
  have "inside (phil_pcs s' j) = inside (phil_pcs s j)" for j using s'(1) s'(3) [of j] x i by (cases "j = i") auto
  moreover have "phil_pcs s' j = y \<longleftrightarrow> phil_pcs s j = y" if "y = TakeWait \<or> y = PutWait" for j y
    using s'(1) s'(3) [of j] x i that by (cases "j = i") auto
  ultimately show "mutex_inv s' (Some i)" using m s'(2) by (simp add: mutex_inv_def)
  have "j < N" if "phil_pcs s' j \<noteq> NotCreated" for j
    using created [OF r, of j] s'(3) [of j] that inside_created [OF r i] by (cases "j = i") auto
  then show "rest_inv s' (Some i)" using l g e w s'(1) by (auto simp: rest_inv_def)
qed

lemma insideD:
  assumes "table_inv s h" and "phil_pcs s i = x" and "inside x"
  shows "h = Some i" "i < N" "rest_inv s (Some i)"
    "\<And>j. local_ok j (phil_pcs s j) (state_sema s j) (fork_sema s j) (owes s (Some i) j)"
    "\<And>j. j < N \<Longrightarrow> state_sema s j = EATING \<Longrightarrow> nobody_beside s j"
    "\<And>j. j < N \<Longrightarrow> state_sema s j = HUNGRY \<Longrightarrow> nobody_beside s j \<Longrightarrow> pending i x j"
    "\<And>j. j \<noteq> i \<Longrightarrow> \<not> inside (phil_pcs s j)"
proof -
  have m: "mutex_inv s h" and r: "rest_inv s h" using assms(1) by (simp_all add: table_inv_rest)
  show "\<And>j. j \<noteq> i \<Longrightarrow> \<not> inside (phil_pcs s j)" using m holder [OF m, of i] assms(2,3) by (simp add: mutex_inv_def)
  show h: "h = Some i" using holder [OF m, of i] assms(2,3) by auto
  show "i < N" using inside_created [OF r, of i] assms(2,3) by simp
  show "rest_inv s (Some i)" using r h by simp
  then show "\<And>j. local_ok j (phil_pcs s j) (state_sema s j) (fork_sema s j) (owes s (Some i) j)"
    "\<And>j. j < N \<Longrightarrow> state_sema s j = EATING \<Longrightarrow> nobody_beside s j"
    "\<And>j. j < N \<Longrightarrow> state_sema s j = HUNGRY \<Longrightarrow> nobody_beside s j \<Longrightarrow> pending i x j"
    using assms(2) by (auto simp: rest_inv_def)
qed

lemma set_inv:
  assumes "table_inv s h" and p: "phil_pcs s i = x"
    and x: "x = SetHungry \<and> go = Test FromTake \<and> st = HUNGRY \<or> x = SetThinking \<and> go = Test FromLeft \<and> st = THINKING"
  shows "table_inv (at i go (s\<lparr>state_sema := (state_sema s)(i := st)\<rparr>)) h" (is "table_inv ?s h")
proof -
  have "inside x" using x by auto
  note d = insideD [OF assms(1) p this]
  note nb = neighbours [OF d(2)]
  have ow: "owes s (Some i) = (\<lambda>_. False)" "owes ?s (Some i) = (\<lambda>_. False)" using x p by (auto simp: owes_def at_def)
  show ?thesis unfolding d(1)
  proof (rule critical_inv [OF assms(1) [unfolded d(1)]])
    show "local_ok j (phil_pcs ?s j) (state_sema ?s j) (fork_sema ?s j) (owes ?s (Some i) j)" for j
      using d(4) [of j] x p unfolding ow by (auto simp: at_def)
    show "nobody_beside ?s j" if "j < N" "state_sema ?s j = EATING" for j
      using d(5) [OF that(1)] that(2) x by (auto simp: at_def nobody_beside_def split: if_splits)
    show "pending i go j" if "j < N" "state_sema ?s j = HUNGRY" "nobody_beside ?s j" for j
    proof (cases "j = i")
      case True
      then show ?thesis using x that(2) by (auto simp: at_def)
    next
      case False
      have "LEFT j = i \<Longrightarrow> RIGHT i = j" "RIGHT j = i \<Longrightarrow> LEFT i = j" using neighbours [OF that(1)] by auto
      moreover have "state_sema s i = (if x = SetThinking then EATING else THINKING)" using d(4) [of i] p x by auto
      ultimately show ?thesis using d(6) [OF that(1)] that(2,3) x False
        by (auto simp: at_def nobody_beside_def split: if_splits)
    qed
  qed (use x in \<open>auto simp: at_def\<close>)
qed

lemma test_inv:
  assumes "table_inv s h" and p: "phil_pcs s i = Test r"
  shows "table_inv (at i (if can_eat (target r i) s then SetEating r else after r) s) h" (is "table_inv (at i ?x s) h")
proof -
  note d = insideD [OF assms(1) p, simplified]
  have a: "inside (after r)" "after r \<noteq> SetEating q" for q by (cases r; simp)+
  have ow: "owes s (Some i) = (\<lambda>_. False)" "owes (at i ?x s) (Some i) = (\<lambda>_. False)"
    using p by (cases r; auto simp: owes_def at_def)+
  show ?thesis unfolding d(1)
  proof (rule critical_inv [OF assms(1) [unfolded d(1)]])
    show "local_ok j (phil_pcs (at i ?x s) j) (state_sema (at i ?x s) j) (fork_sema (at i ?x s) j) (owes (at i ?x s) (Some i) j)" for j
      using d(4) [of j] p unfolding ow by (cases r) (auto simp: at_def can_eat_def)
    show "nobody_beside (at i ?x s) j" if "j < N" "state_sema (at i ?x s) j = EATING" for j
      using d(5) [OF that(1)] that(2) by (simp add: at_def nobody_beside_def)
    show "pending i ?x j" if "j < N" "state_sema (at i ?x s) j = HUNGRY" "nobody_beside (at i ?x s) j" for j
      using d(6) [OF that(1)] that(2,3) by (cases r) (auto simp: at_def nobody_beside_def can_eat_def)
  qed (use a in \<open>auto simp: at_def can_eat_def split: if_splits\<close>)
qed

lemma set_eating_inv:
  assumes "table_inv s h" and p: "phil_pcs s i = SetEating r"
  shows "table_inv (at i (UpFork r) (s\<lparr>state_sema := (state_sema s)(target r i := EATING)\<rparr>)) h" (is "table_inv ?s h")
proof -
  note d = insideD [OF assms(1) p, simplified]
  let ?t = "target r i"
  have c: "can_eat ?t s" using d(3) p by (simp add: rest_inv_def)
  have t: "?t < N" by (rule target_less [OF d(2)])
  have ti: "?t = i \<longleftrightarrow> r = FromTake" using neighbours [OF d(2)] by (cases r) auto
  have ow: "owes s (Some i) = (\<lambda>_. False)" "owes ?s (Some i) = (\<lambda>j. j = ?t)" using p by (auto simp: owes_def at_def)
  show ?thesis unfolding d(1)
  proof (rule critical_inv [OF assms(1) [unfolded d(1)]])
    show "local_ok j (phil_pcs ?s j) (state_sema ?s j) (fork_sema ?s j) (owes ?s (Some i) j)" for j
    proof (cases "j = i")
      case True
      then show ?thesis using d(4) [of i] p ti unfolding ow by (auto simp: at_def)
    next
      case False
      then show ?thesis using d(4) [of j] d(7) [of j] c unfolding ow
        by (cases "phil_pcs s j") (auto simp: at_def can_eat_def)
    qed
    show "nobody_beside ?s j" if "j < N" "state_sema ?s j = EATING" for j
      using d(5) [OF that(1)] that(2) c neighbours [OF t] neighbours [OF that(1)]
      by (auto simp: at_def nobody_beside_def can_eat_def split: if_splits)
    show "pending i (UpFork r) j" if "j < N" "state_sema ?s j = HUNGRY" "nobody_beside ?s j" for j
      using d(6) [OF that(1)] that(2,3) by (auto simp: at_def nobody_beside_def split: if_splits)
  qed (use d(2) in \<open>auto simp: at_def\<close>)
qed

text \<open>\<^verbatim>\<open>up(&s[j])\<close>: the permit is counted, or philosopher \<open>j\<close> eats.\<close>

lemma up_fork_inv:
  assumes "table_inv s h" and p: "phil_pcs s i = UpFork r"
  shows "table_inv (up_fork (target r i) (at i (after r) s)) h" (is "table_inv ?s h")
proof -
  note d = insideD [OF assms(1) p, simplified]
  let ?t = "target r i"
  have t: "?t < N" by (rule target_less [OF d(2)])
  have ti: "?t = i \<longleftrightarrow> r = FromTake" using neighbours [OF d(2)] by (cases r) auto
  have a: "inside (after r)" "after r \<noteq> SetEating q" "after r \<noteq> UpFork q" for q by (cases r; simp)+
  have ow: "owes s (Some i) = (\<lambda>j. j = ?t)" using p by (auto simp: owes_def)
  have cs: "fork_sema s ?t = (0, []) \<or> fork_sema s ?t = (0, [?t]) \<and> phil_pcs s ?t = ForkWait \<and> ?t \<noteq> i"
  proof (cases "?t = i")
    case True
    then show ?thesis using d(4) [of i] p by simp
  next
    case False
    then show ?thesis using d(4) [of ?t] d(7) [of ?t] unfolding ow by (cases "phil_pcs s ?t") auto
  qed
  define w where "w = (if fork_sema s ?t = (0, []) then phil_pcs s ?t else Dining)"
  have sel: "state_sema ?s = state_sema s" "mutex_sema ?s = mutex_sema s"
    "fork_sema ?s = (fork_sema s)(?t := (if fork_sema s ?t = (0, []) then 1 else 0, []))"
    "phil_pcs ?s = ((phil_pcs s)(?t := w))(i := after r)"
    using cs by (auto simp: up_fork_def at_def wake_def w_def fun_eq_iff)
  have ow': "owes ?s (Some i) = (\<lambda>_. False)" using a by (auto simp: owes_def sel)
  show ?thesis unfolding d(1)
  proof (rule critical_inv [OF assms(1) [unfolded d(1)] a(1)])
    show "local_ok j (phil_pcs ?s j) (state_sema ?s j) (fork_sema ?s j) (owes ?s (Some i) j)" for j
    proof (cases "j = i")
      case True
      then show ?thesis using d(4) [of i] p ti unfolding ow' sel by (cases r) auto
    next
      case False
      then show ?thesis using d(4) [of j] d(7) [of j] cs unfolding ow ow' sel
        by (cases "phil_pcs s j") (auto simp: w_def)
    qed
    show "nobody_beside ?s j" if "j < N" "state_sema ?s j = EATING" for j
      using d(5) [OF that(1)] that(2) by (simp add: nobody_beside_def sel)
    show "pending i (after r) j" if "j < N" "state_sema ?s j = HUNGRY" "nobody_beside ?s j" for j
      using d(6) [OF that(1)] that(2,3) unfolding nobody_beside_def sel by (cases r) auto
  qed (use a cs in \<open>auto simp: sel w_def\<close>)
qed

section \<open>Runs\<close>

lemma phil_step_inv:
  assumes "philosopher_using_semaphore i (phil_pcs s i) s = Some s'" and "table_inv s h"
  shows "\<exists>h. table_inv s' h"
proof (cases "phil_pcs s i")
  case Loop
  then show ?thesis using assms(1) loop_inv [OF assms(2) Loop, of "if iter s i < TIMES then TakeDown else Quit"]
    by (intro exI [of _ h]) (auto split: if_splits)
next
  case (Test r)
  then show ?thesis using assms test_inv [OF assms(2) Test] by auto
next
  case (SetEating r)
  then show ?thesis using assms set_eating_inv [OF assms(2) SetEating] by auto
next
  case (UpFork r)
  then show ?thesis using assms up_fork_inv [OF assms(2) UpFork] by auto
next
  case TakeDown
  then show ?thesis using assms down_table_inv [OF assms(2) TakeDown] by auto
next
  case Dining
  then show ?thesis using assms down_table_inv [OF assms(2) Dining] by auto
next
  case SetHungry
  then show ?thesis using assms set_inv [OF assms(2) SetHungry] by auto
next
  case SetThinking
  then show ?thesis using assms set_inv [OF assms(2) SetThinking] by auto
next
  case TakeUp
  then show ?thesis using assms up_table_inv [OF assms(2) TakeUp] by auto
next
  case PutUp
  then show ?thesis using assms up_table_inv [OF assms(2) PutUp] by auto
next
  case ForkDown
  then show ?thesis using assms down_fork_inv [OF assms(2) ForkDown] by auto
qed (use assms(1) in auto)

text \<open>Which philosophers the thread of \<^verbatim>\<open>check_sync\<close> has created, and which it has seen quit.\<close>

fun main_ok :: "main_pc \<Rightarrow> table \<Rightarrow> bool" where
  "main_ok (Create k) s \<longleftrightarrow> k \<le> N \<and> (\<forall>i. phil_pcs s i = NotCreated \<longleftrightarrow> k \<le> i)"
| "main_ok (Join k) s \<longleftrightarrow> k \<le> N \<and> (\<forall>i. phil_pcs s i = NotCreated \<longleftrightarrow> N \<le> i) \<and> (\<forall>i<k. phil_pcs s i = Quit)"
| "main_ok Finished s \<longleftrightarrow> (\<forall>i. phil_pcs s i = NotCreated \<longleftrightarrow> N \<le> i) \<and> (\<forall>i<N. phil_pcs s i = Quit)"


definition loop_ok :: "table \<Rightarrow> bool" where
  "loop_ok s \<longleftrightarrow> (\<forall>i. if phil_pcs s i = Quit then iter s i = TIMES + 1 else iter s i \<le> TIMES)"

lemma woken_ends [simp]: "woken x = Quit \<longleftrightarrow> x = Quit" "woken x = NotCreated \<longleftrightarrow> x = NotCreated"
  by (cases x; simp)+

lemma wake_ends [simp]: "wake a ps j = Quit \<longleftrightarrow> ps j = Quit" "wake a ps j = NotCreated \<longleftrightarrow> ps j = NotCreated"
  by (auto simp: wake_def split: list.splits)

lemma after_ends [simp]: "after r \<noteq> Quit" "after r \<noteq> NotCreated"
  by (cases r; simp)+

text \<open>How far a program point is from the loop test.\<close>

fun rank :: "phil_pc \<Rightarrow> nat" where
  "rank NotCreated = 101"
| "rank TakeDown = 19"
| "rank TakeWait = 18"
| "rank SetHungry = 17"
| "rank (Test r) = (case r of FromTake \<Rightarrow> 16 | FromLeft \<Rightarrow> 7 | FromRight \<Rightarrow> 4)"
| "rank (SetEating r) = (case r of FromTake \<Rightarrow> 15 | FromLeft \<Rightarrow> 6 | FromRight \<Rightarrow> 3)"
| "rank (UpFork r) = (case r of FromTake \<Rightarrow> 14 | FromLeft \<Rightarrow> 5 | FromRight \<Rightarrow> 2)"
| "rank TakeUp = 13"
| "rank ForkDown = 12"
| "rank ForkWait = 11"
| "rank Dining = 10"
| "rank PutWait = 9"
| "rank SetThinking = 8"
| "rank PutUp = 1"
| "rank Loop = 0"
| "rank Quit = 0"

lemma wake_rank: "rank (wake a ps j) \<le> rank (ps j)"
proof -
  have "rank (woken x) \<le> rank x" for x by (cases x) auto
  then show ?thesis by (auto simp: wake_def split: list.splits)
qed

text \<open>What a step of thread \<open>i\<close> does to the program points: its own moves on, and a sleeping thread may be woken.\<close>

lemma phil_step_shape:
  assumes "philosopher_using_semaphore i (phil_pcs s i) s = Some s'"
  obtains y where "phil_pcs s' = (phil_pcs s)(i := y) \<or> (\<exists>a. phil_pcs s' = wake a ((phil_pcs s)(i := y)))"
    "y \<noteq> NotCreated" "phil_pcs s i \<noteq> NotCreated" "phil_pcs s i \<noteq> Quit" "main_pc s' = main_pc s"
    "if phil_pcs s i = Loop then iter s' = (iter s)(i := iter s i + 1) \<and> y = (if iter s i < TIMES then TakeDown else Quit)
     else iter s' = iter s \<and> y \<noteq> Quit \<and> rank y < rank (phil_pcs s i)"
proof -
  have r: "rank (after r) < rank (Test r)" "rank (after r) < rank (UpFork r)" "rank (SetEating r) < rank (Test r)"
    "rank (UpFork r) < rank (SetEating r)" for r by (cases r; simp)+
  show thesis
  proof (cases "phil_pcs s i")
    case Loop
    show thesis by (rule that [of "if iter s i < TIMES then TakeDown else Quit"]) (use assms Loop in \<open>auto simp: at_def split: if_splits\<close>)
  next
    case TakeDown
    show thesis by (rule that [of "if fst (mutex_sema s) > 0 then SetHungry else TakeWait"])
      (use assms TakeDown in \<open>auto simp: at_def down_table_def\<close>)
  next
    case Dining
    show thesis by (rule that [of "if fst (mutex_sema s) > 0 then SetThinking else PutWait"])
      (use assms Dining in \<open>auto simp: at_def down_table_def\<close>)
  next
    case ForkDown
    show thesis by (rule that [of "if fst (fork_sema s i) > 0 then Dining else ForkWait"])
      (use assms ForkDown in \<open>auto simp: at_def down_fork_def\<close>)
  next
    case SetHungry
    show thesis by (rule that [of "Test FromTake"]) (use assms SetHungry in \<open>auto simp: at_def\<close>)
  next
    case SetThinking
    show thesis by (rule that [of "Test FromLeft"]) (use assms SetThinking in \<open>auto simp: at_def\<close>)
  next
    case TakeUp
    show thesis by (rule that [of ForkDown]) (use assms TakeUp in \<open>auto simp: at_def up_table_def simp del: split_paired_Ex\<close>)
  next
    case PutUp
    show thesis by (rule that [of Loop]) (use assms PutUp in \<open>auto simp: at_def up_table_def simp del: split_paired_Ex\<close>)
  next
    case (Test q)
    show thesis by (rule that [of "if can_eat (target q i) s then SetEating q else after q"])
      (use assms Test r [of q] in \<open>auto simp: at_def split: if_splits\<close>)
  next
    case (SetEating q)
    show thesis by (rule that [of "UpFork q"]) (use assms SetEating r [of q] in \<open>auto simp: at_def\<close>)
  next
    case (UpFork q)
    show thesis by (rule that [of "after q"]) (use assms UpFork r [of q] in \<open>auto simp: at_def up_fork_def simp del: split_paired_Ex\<close>)
  qed (use assms in auto)
qed

lemma phil_step_ends:
  assumes "philosopher_using_semaphore i (phil_pcs s i) s = Some s'"
  shows "main_pc s' = main_pc s" "phil_pcs s' j = NotCreated \<longleftrightarrow> phil_pcs s j = NotCreated"
    "phil_pcs s j = Quit \<Longrightarrow> phil_pcs s' j = Quit" "loop_ok s \<Longrightarrow> loop_ok s'" "phil_pcs s i \<noteq> NotCreated"
proof -
  obtain y where y: "phil_pcs s' = (phil_pcs s)(i := y) \<or> (\<exists>a. phil_pcs s' = wake a ((phil_pcs s)(i := y)))"
    "y \<noteq> NotCreated" "phil_pcs s i \<noteq> NotCreated" "phil_pcs s i \<noteq> Quit" "main_pc s' = main_pc s"
    "if phil_pcs s i = Loop then iter s' = (iter s)(i := iter s i + 1) \<and> y = (if iter s i < TIMES then TakeDown else Quit)
     else iter s' = iter s \<and> y \<noteq> Quit \<and> rank y < rank (phil_pcs s i)"
    by (rule phil_step_shape [OF assms])
  show "main_pc s' = main_pc s" "phil_pcs s i \<noteq> NotCreated" by (rule y)+
  have e: "phil_pcs s' j = x \<longleftrightarrow> (if j = i then y else phil_pcs s j) = x" if "x = NotCreated \<or> x = Quit" for j x
    using y(1) that by auto
  show "phil_pcs s' j = NotCreated \<longleftrightarrow> phil_pcs s j = NotCreated" using y(2,3) e [of NotCreated j] by auto
  show "phil_pcs s j = Quit \<Longrightarrow> phil_pcs s' j = Quit" using y(4) e [of Quit j] by auto
  show "loop_ok s'" if l: "loop_ok s"
    unfolding loop_ok_def
  proof
    fix j
    have "if phil_pcs s j = Quit then iter s j = TIMES + 1 else iter s j \<le> TIMES" using l by (simp add: loop_ok_def)
    then show "if phil_pcs s' j = Quit then iter s' j = TIMES + 1 else iter s' j \<le> TIMES"
      using y(4,6) e [of Quit j] by (cases "j = i") (auto split: if_splits)
  qed
qed

lemma phil_rank_decreases:
  assumes "philosopher_using_semaphore i (phil_pcs s i) s = Some s'" and "loop_ok s"
  shows "(TIMES + 1 - iter s' i) * 20 + rank (phil_pcs s' i) < (TIMES + 1 - iter s i) * 20 + rank (phil_pcs s i)"
    "\<And>j. j \<noteq> i \<Longrightarrow> iter s' j = iter s j \<and> rank (phil_pcs s' j) \<le> rank (phil_pcs s j)"
proof -
  obtain y where y: "phil_pcs s' = (phil_pcs s)(i := y) \<or> (\<exists>a. phil_pcs s' = wake a ((phil_pcs s)(i := y)))"
    "phil_pcs s i \<noteq> Quit"
    "if phil_pcs s i = Loop then iter s' = (iter s)(i := iter s i + 1) \<and> y = (if iter s i < TIMES then TakeDown else Quit)
     else iter s' = iter s \<and> y \<noteq> Quit \<and> rank y < rank (phil_pcs s i)"
    by (rule phil_step_shape [OF assms(1)])
  have r: "rank (phil_pcs s' j) \<le> rank (if j = i then y else phil_pcs s j)" for j
    using y(1) wake_rank [of _ "(phil_pcs s)(i := y)" j] by auto
  have "iter s i \<le> TIMES" using assms(2) y(2) by (auto simp: loop_ok_def dest: spec [of _ i])
  then show "(TIMES + 1 - iter s' i) * 20 + rank (phil_pcs s' i) < (TIMES + 1 - iter s i) * 20 + rank (phil_pcs s i)"
    using y(3) r [of i] by (auto split: if_splits)
  show "iter s' j = iter s j \<and> rank (phil_pcs s' j) \<le> rank (phil_pcs s j)" if "j \<noteq> i" for j
    using y(3) r [of j] that by (auto split: if_splits)
qed

lemma main_ok_same:
  assumes "main_ok m s" and "\<forall>j. phil_pcs s' j = NotCreated \<longleftrightarrow> phil_pcs s j = NotCreated"
    and "\<forall>j. phil_pcs s j = Quit \<longrightarrow> phil_pcs s' j = Quit"
  shows "main_ok m s'"
proof (cases m)
  case (Create k)
  then show ?thesis using assms(1) assms(2) by simp
next
  case (Join k)
  then show ?thesis using assms(1) assms(2) assms(3) by simp
next
  case Finished
  then show ?thesis using assms by simp
qed

lemma main_ok_phil:
  assumes "main_ok (main_pc s) s" and "philosopher_using_semaphore i (phil_pcs s i) s = Some s'"
  shows "main_ok (main_pc s') s'"
  unfolding phil_step_ends(1) [OF assms(2)] using phil_step_ends(2,3) [OF assms(2)] by (intro main_ok_same [OF assms(1)]) blast+

definition phils_inv :: "table \<Rightarrow> bool" where
  "phils_inv s \<longleftrightarrow> (\<exists>h. table_inv s h) \<and> main_ok (main_pc s) s \<and> loop_ok s"

lemma main_pc_inv: "table_inv (s\<lparr>main_pc := m\<rparr>) h = table_inv s h"
  by (simp add: table_inv_def mutex_inv_def owed_def can_eat_def nobody_beside_def)

lemma main_step_inv:
  assumes "check_sync_sema (main_pc s) s = Some s'" and "phils_inv s"
  shows "phils_inv s'"
proof (cases "main_pc s")
  case (Create k)
  from assms(2) obtain h where h: "table_inv s h" "main_ok (Create k) s" "loop_ok s" by (auto simp: phils_inv_def Create)
  show ?thesis
  proof (cases "k < N")
    case True
    then have k: "phil_pcs s k = NotCreated" using h(2) by simp
    have s': "s' = at k Loop (s\<lparr>fork_sema := (fork_sema s)(k := (0, [])), iter := (iter s)(k := 0), main_pc := Create (k + 1)\<rparr>)"
      using assms(1) True Create by simp
    have e: "phil_pcs s i = NotCreated \<longleftrightarrow> k \<le> i" for i using h(2) by simp
    have "(if i = k then Loop else phil_pcs s i) = NotCreated \<longleftrightarrow> k + 1 \<le> i" for i
    proof (cases "i = k")
      case False
      then have "k \<le> i \<longleftrightarrow> k + 1 \<le> i" by linarith
      then show ?thesis using e [of i] False by simp
    qed simp
    then have "\<forall>i. phil_pcs s' i = NotCreated \<longleftrightarrow> k + 1 \<le> i" by (simp add: s' at_def)
    then have "main_ok (Create (k + 1)) s'" using True by (simp only: main_ok.simps) simp
    then have "main_ok (main_pc s') s'" by (simp add: s' at_def)
    moreover have "loop_ok s'" using h(3) by (auto simp: s' at_def loop_ok_def)
    moreover have "\<exists>h. table_inv s' h" unfolding s' using create_inv [OF h(1) k True] by blast
    ultimately show ?thesis by (simp add: phils_inv_def)
  next
    case False
    then have s': "s' = s\<lparr>main_pc := Join 0\<rparr>" using assms(1) Create by simp
    have "k = N" using False h(2) by simp
    then show ?thesis using h by (auto simp: s' phils_inv_def main_pc_inv loop_ok_def)
  qed
next
  case (Join k)
  from assms(2) obtain h where h: "table_inv s h" "main_ok (Join k) s" "loop_ok s" by (auto simp: phils_inv_def Join)
  show ?thesis
  proof (cases "k < N")
    case True
    then have "s' = s\<lparr>main_pc := Join (k + 1)\<rparr>" "phil_pcs s k = Quit" using assms(1) Join by (auto split: if_splits)
    then show ?thesis using h True by (auto simp: phils_inv_def main_pc_inv loop_ok_def less_Suc_eq)
  next
    case False
    then have "s' = s\<lparr>main_pc := Finished\<rparr>" using assms(1) Join by simp
    moreover have "k = N" using False h(2) by simp
    ultimately show ?thesis using h by (auto simp: phils_inv_def main_pc_inv loop_ok_def)
  qed
qed (use assms(1) in simp)

lemma phils_reach_inv: "table_reach s \<Longrightarrow> phils_inv s"
proof (induction rule: table_reach.induct)
  case (start f)
  have "mutex_inv (check_sync_start f) None" by (simp add: mutex_inv_def check_sync_start_def)
  moreover have "rest_inv (check_sync_start f) None" by (simp add: rest_inv_def owes_def check_sync_start_def)
  ultimately have "\<exists>h. table_inv (check_sync_start f) h" by (auto simp: table_inv_rest)
  then show ?case by (simp add: phils_inv_def loop_ok_def check_sync_start_def)
next
  case (more s s')
  from more.hyps(2) show ?case
  proof cases
    case (phil i)
    then show ?thesis using more.IH phil_step_inv main_ok_phil phil_step_ends(4) unfolding phils_inv_def by blast
  next
    case main
    then show ?thesis using more.IH main_step_inv by blast
  qed
qed

text \<open>Every step brings the end nearer.\<close>

fun main_rank :: "main_pc \<Rightarrow> nat" where
  "main_rank (Create k) = 12 - k"
| "main_rank (Join k) = 6 - k"
| "main_rank Finished = 0"

definition phil_rank :: "table \<Rightarrow> nat \<Rightarrow> nat" where
  "phil_rank s i = (TIMES + 1 - iter s i) * 20 + rank (phil_pcs s i)"

definition to_go :: "table \<Rightarrow> nat" where
  "to_go s = (\<Sum>i<N. phil_rank s i) + main_rank (main_pc s)"

lemma step_decreases:
  assumes "phils_inv s" and "table_step s s'"
  shows "to_go s' < to_go s"
  using assms(2)
proof cases
  case (phil i)
  have l: "loop_ok s" using assms(1) by (simp add: phils_inv_def)
  note d = phil_rank_decreases [OF phil l] and e = phil_step_ends [OF phil]
  from assms(1) obtain h where "table_inv s h" by (auto simp: phils_inv_def)
  then have "i < N" using e(5) by (simp add: table_inv_def)
  moreover have "phil_rank s' i < phil_rank s i" using d(1) by (simp add: phil_rank_def)
  moreover have "phil_rank s' j \<le> phil_rank s j" for j
    using d(2) [of j] calculation(2) by (cases "j = i") (simp_all add: phil_rank_def)
  ultimately have "(\<Sum>j<N. phil_rank s' j) < (\<Sum>j<N. phil_rank s j)" by (intro sum_strict_mono_ex1) auto
  then show ?thesis using e(1) by (simp add: to_go_def)
next
  case main
  have ok: "main_ok (main_pc s) s" using assms(1) by (simp add: phils_inv_def)
  show ?thesis
  proof (cases "main_pc s")
    case (Create k)
    show ?thesis
    proof (cases "k < N")
      case True
      then have k: "phil_pcs s k = NotCreated" using ok Create by simp
      have "phil_rank s' j \<le> phil_rank s j" for j
        using main Create True k by (auto simp: phil_rank_def at_def)
      then have "(\<Sum>j<N. phil_rank s' j) \<le> (\<Sum>j<N. phil_rank s j)" by (rule sum_mono)
      then show ?thesis using main Create True by (auto simp: to_go_def at_def)
    qed (use main Create ok in \<open>auto simp: to_go_def phil_rank_def\<close>)
  next
    case (Join k)
    then show ?thesis using main ok by (cases "k < N") (auto simp: to_go_def phil_rank_def split: if_splits)
  qed (use main in simp)
qed

section \<open>The properties\<close>

text \<open>A schedule names the thread that makes each step, \<open>None\<close> for the one of \<^verbatim>\<open>check_sync\<close>.\<close>

fun run :: "nat option list \<Rightarrow> table \<Rightarrow> table option" where
  "run [] s = Some s"
| "run (None # ts) s = Option.bind (check_sync_sema (main_pc s) s) (run ts)"
| "run (Some i # ts) s = Option.bind (philosopher_using_semaphore i (phil_pcs s i) s) (run ts)"

lemma run_reach: "table_reach s \<Longrightarrow> run ts s = Some s' \<Longrightarrow> table_reach s'"
  by (induction ts s rule: run.induct) (auto simp: bind_eq_Some_conv dest: table_reach.more [OF _ table_step.main] table_reach.more [OF _ table_step.phil])

text \<open>C26: Two neighbours never eat at the same time: in every reachable state of every interleaving, while a
  philosopher is between its \<^verbatim>\<open>phi_take_forks_sema\<close> and its \<^verbatim>\<open>phi_put_forks_sema\<close>, its state is \<^verbatim>\<open>EATING\<close>, neither neighbour
  is there, and neither neighbour's state is \<^verbatim>\<open>EATING\<close>.\<close>

theorem philosophers_sema_safe:
  assumes "table_reach s" and "phil_pcs s i = Dining"
  shows "state_sema s i = EATING \<and> (\<forall>j\<in>{LEFT i, RIGHT i}. phil_pcs s j \<noteq> Dining \<and> state_sema s j \<noteq> EATING)"
proof -
  from phils_reach_inv [OF assms(1)] obtain h where h: "table_inv s h" by (auto simp: phils_inv_def)
  then have l: "local_at s j" for j by (simp add: table_inv_def)
  have i: "i < N" and e: "state_sema s i = EATING" using h assms(2) l [of i] by (auto simp: table_inv_def)
  then have "nobody_beside s i" using h by (simp add: table_inv_def)
  moreover have "state_sema s j = EATING" if "phil_pcs s j = Dining" for j using l [of j] that by simp
  ultimately show ?thesis using e by (auto simp: nobody_beside_def)
qed

definition two_at_table :: "nat option list" where
  "two_at_table = [None, None, Some 0, Some 0, Some 0, Some 0, Some 0, Some 0, Some 0, Some 0,
     Some 1, Some 1, Some 1, Some 1, Some 1, Some 1]"

lemma two_at_table: "\<exists>s. table_reach s \<and> phil_pcs s 0 = Dining \<and> phil_pcs s 1 = ForkWait"
proof -
  have "\<exists>s. run two_at_table (check_sync_start (\<lambda>_. (0, []))) = Some s \<and> phil_pcs s 0 = Dining \<and> phil_pcs s 1 = ForkWait"
    by (simp add: two_at_table_def check_sync_start_def at_def can_eat_def LEFT_def RIGHT_def
      down_table_def down_fork_def up_table_def up_fork_def wake_def)
  then show ?thesis using run_reach [OF table_reach.start] by blast
qed

theorem philosophers_sema_safe_witness:
  "\<exists>s. table_reach s \<and> phil_pcs s 0 = Dining \<and> phil_pcs s (RIGHT 0) = ForkWait \<and>
     state_sema s 0 = EATING \<and> (\<forall>j\<in>{LEFT 0, RIGHT 0}. phil_pcs s j \<noteq> Dining \<and> state_sema s j \<noteq> EATING)"
proof -
  obtain s where s: "table_reach s" "phil_pcs s 0 = Dining" "phil_pcs s 1 = ForkWait" using two_at_table by blast
  have "RIGHT 0 = 1" by (simp add: RIGHT_def)
  then show ?thesis using philosophers_sema_safe [OF s(1,2)] s by (intro exI [of _ s]) simp
qed

text \<open>When the mutex is free and nobody can move, nobody is hungry.\<close>

lemma all_asleep:
  assumes h: "table_inv s h" and c: "\<forall>i<N. phil_pcs s i \<noteq> NotCreated"
    and stuck: "\<forall>i. philosopher_using_semaphore i (phil_pcs s i) s = None"
  shows "\<forall>i<N. phil_pcs s i = Quit"
proof -
  have st: "phil_pcs s i \<in> {NotCreated, TakeWait, ForkWait, PutWait, Quit}" for i
    using stuck [rule_format, of i] by (cases "phil_pcs s i") auto
  have m: "mutex_inv s h" and r: "rest_inv s h" using h by (simp_all add: table_inv_rest)
  have "\<not> inside (phil_pcs s i)" for i using st [of i] by auto
  then have hN: "h = None" using m unfolding mutex_inv_def by (metis not_Some_eq)
  then have "phil_pcs s i \<noteq> TakeWait \<and> phil_pcs s i \<noteq> PutWait" for i using m by (auto simp: mutex_inv_def)
  then have st': "phil_pcs s i \<in> {ForkWait, Quit}" if "i < N" for i using st [of i] c that by auto
  have l: "local_ok i (phil_pcs s i) (state_sema s i) (fork_sema s i) False" for i
    using local_of [OF r, of i] hN by (auto simp: owes_def)
  have ne: "state_sema s i \<noteq> EATING" if "i < N" for i using st' [OF that] l [of i] by auto
  have "state_sema s i \<noteq> HUNGRY" if "i < N" for i
    using r that ne neighbours [OF that] hN by (auto simp: rest_inv_def nobody_beside_def)
  then have "phil_pcs s i = Quit" if "i < N" for i using st' [OF that] l [of i] that by auto
  then show ?thesis by blast
qed

text \<open>The semaphore test of \<^verbatim>\<open>check_sync\<close> always finishes: there is no infinite run, whatever the interleaving, no
  reachable state is a deadlock, and at the end all five philosophers have quit after \<^verbatim>\<open>TIMES\<close> rounds.\<close>

theorem philosophers_sema_finish:
  assumes reach: "table_reach s"
  shows "wf {(s', s). table_reach s \<and> table_step s s'} \<and> ((\<exists>s'. table_step s s') \<or>
     main_pc s = Finished \<and> (\<forall>i<N. phil_pcs s i = Quit \<and> iter s i = TIMES + 1 \<and> state_sema s i = THINKING))"
proof (rule conjI)
  have "{(s', s). table_reach s \<and> table_step s s'} \<subseteq> measure to_go"
    using step_decreases phils_reach_inv by (auto simp: in_measure)
  then show "wf {(s', s). table_reach s \<and> table_step s s'}" using wf_measure wf_subset by blast
  from phils_reach_inv [OF reach] obtain h where inv: "table_inv s h" "main_ok (main_pc s) s" "loop_ok s"
    by (auto simp: phils_inv_def)
  have fin: "iter s i = TIMES + 1" "state_sema s i = THINKING" if "phil_pcs s i = Quit" for i
    using inv(1,3) that by (auto simp: loop_ok_def table_inv_def dest: spec [of _ i])
  show "(\<exists>s'. table_step s s') \<or>
     main_pc s = Finished \<and> (\<forall>i<N. phil_pcs s i = Quit \<and> iter s i = TIMES + 1 \<and> state_sema s i = THINKING)"
  proof (rule disjCI)
    assume "\<not> (main_pc s = Finished \<and> (\<forall>i<N. phil_pcs s i = Quit \<and> iter s i = TIMES + 1 \<and> state_sema s i = THINKING))"
    then have nf: "main_pc s \<noteq> Finished" using inv(2) fin by auto
    show "\<exists>s'. table_step s s'"
    proof (rule ccontr)
      assume no: "\<nexists>s'. table_step s s'"
      then have stuck: "\<forall>i. philosopher_using_semaphore i (phil_pcs s i) s = None" and "check_sync_sema (main_pc s) s = None"
        using table_step.phil [of _ s] table_step.main [of s] by (metis not_Some_eq)+
      then obtain k where k: "main_pc s = Join k" "k < N" "phil_pcs s k \<noteq> Quit"
        using nf by (cases "main_pc s") (auto split: if_splits)
      then have "\<forall>i<N. phil_pcs s i \<noteq> NotCreated" using inv(2) by auto
      then show False using all_asleep [OF inv(1) _ stuck] k by blast
    qed
  qed
qed

theorem philosophers_sema_finish_witness:
  "\<exists>s. table_reach s \<and> phil_pcs s 0 = Dining \<and> phil_pcs s 1 = ForkWait \<and>
     wf {(s', s). table_reach s \<and> table_step s s'} \<and> (\<exists>s'. table_step s s')"
proof -
  obtain s where s: "table_reach s" "phil_pcs s 0 = Dining" "phil_pcs s 1 = ForkWait" using two_at_table by blast
  then show ?thesis using philosophers_sema_finish [OF s(1)] by (intro exI [of _ s]) auto
qed

end
