(* ===== verification/PhilCond.thy ===== *)
theory PhilCond
  imports Monitor PhilSema
begin

text \<open>
  The dining philosophers with a monitor, the second half of \<^verbatim>\<open>kern/sync/check_sync.c\<close>: five threads that run
  \<^verbatim>\<open>philosopher_using_condvar\<close> over the monitor of the theory \<open>Monitor\<close>, and the thread of \<^verbatim>\<open>check_sync\<close>.  A thread has a
  program point of its own and one inside the monitor; while it is in the middle of \<^verbatim>\<open>down\<close>, \<^verbatim>\<open>cond_wait\<close>, \<^verbatim>\<open>cond_signal\<close> or the
  exit protocol its next step is the monitor's.  Any thread can be preempted between any two steps.
\<close>

section \<open>State\<close>

datatype cond_pc =
    CNotCreated | CLoop | CTakeEnter | CSetHungry | CTest call | CSetEating call | CSignal call | CCheck | CTakeLeave
  | CDining | CSetThinking | CPutLeave | CQuit

record ctable =
  mtp :: monitor
  state_condvar :: "nat \<Rightarrow> phil"
  citer :: "nat \<Rightarrow> nat"
  cpcs :: "nat \<Rightarrow> cond_pc"
  cmain :: main_pc

section \<open>The operations\<close>

definition cat :: "nat \<Rightarrow> cond_pc \<Rightarrow> ctable \<Rightarrow> ctable" where
  "cat i x s = s\<lparr>cpcs := (cpcs s)(i := x)\<rparr>"

definition on_mon :: "(monitor \<Rightarrow> monitor) \<Rightarrow> ctable \<Rightarrow> ctable" where
  "on_mon f s = s\<lparr>mtp := f (mtp s)\<rparr>"

fun cafter :: "call \<Rightarrow> cond_pc" where
  "cafter FromTake = CCheck"
| "cafter FromLeft = CTest FromRight"
| "cafter FromRight = CPutLeave"

definition may_eat :: "nat \<Rightarrow> ctable \<Rightarrow> bool" where
  "may_eat j s \<longleftrightarrow> state_condvar s j = HUNGRY \<and> state_condvar s (LEFT j) \<noteq> EATING \<and> state_condvar s (RIGHT j) \<noteq> EATING"

fun phi_test_condvar :: "nat \<Rightarrow> cond_pc \<Rightarrow> ctable \<Rightarrow> ctable option" where
  "phi_test_condvar i (CTest r) s = Some (cat i (if may_eat (target r i) s then CSetEating r else cafter r) s)"
| "phi_test_condvar i (CSetEating r) s =
     Some (cat i (CSignal r) (s\<lparr>state_condvar := (state_condvar s)(target r i := EATING)\<rparr>))"
| "phi_test_condvar i (CSignal r) s = Some (cat i (cafter r) (on_mon (cond_signal_enter i (target r i)) s))"
| "phi_test_condvar i _ s = None"

fun phi_take_forks_condvar :: "nat \<Rightarrow> cond_pc \<Rightarrow> ctable \<Rightarrow> ctable option" where
  "phi_take_forks_condvar i CTakeEnter s = Some (cat i CSetHungry (on_mon (mon_enter i) s))"
| "phi_take_forks_condvar i CSetHungry s =
     Some (cat i (CTest FromTake) (s\<lparr>state_condvar := (state_condvar s)(i := HUNGRY)\<rparr>))"
| "phi_take_forks_condvar i CCheck s =
     Some (cat i CTakeLeave (if state_condvar s i = HUNGRY then on_mon (cond_wait_enter i i) s else s))"
| "phi_take_forks_condvar i CTakeLeave s = Some (cat i CDining (on_mon (mon_leave_test i) s))"
| "phi_take_forks_condvar i _ s = None"

fun phi_put_forks_condvar :: "nat \<Rightarrow> cond_pc \<Rightarrow> ctable \<Rightarrow> ctable option" where
  "phi_put_forks_condvar i CDining s = Some (cat i CSetThinking (on_mon (mon_enter i) s))"
| "phi_put_forks_condvar i CSetThinking s =
     Some (cat i (CTest FromLeft) (s\<lparr>state_condvar := (state_condvar s)(i := THINKING)\<rparr>))"
| "phi_put_forks_condvar i CPutLeave s = Some (cat i CLoop (on_mon (mon_leave_test i) s))"
| "phi_put_forks_condvar i _ s = None"

text \<open>The step of a thread that is not inside a function of the monitor.\<close>

fun own_step :: "nat \<Rightarrow> cond_pc \<Rightarrow> ctable \<Rightarrow> ctable option" where
  "own_step i CLoop s =
     Some (cat i (if citer s i < TIMES then CTakeEnter else CQuit) (s\<lparr>citer := (citer s)(i := citer s i + 1)\<rparr>))"
| "own_step i (CTest r) s = phi_test_condvar i (CTest r) s"
| "own_step i (CSetEating r) s = phi_test_condvar i (CSetEating r) s"
| "own_step i (CSignal r) s = phi_test_condvar i (CSignal r) s"
| "own_step i CDining s = phi_put_forks_condvar i CDining s"
| "own_step i CSetThinking s = phi_put_forks_condvar i CSetThinking s"
| "own_step i CPutLeave s = phi_put_forks_condvar i CPutLeave s"
| "own_step i x s = phi_take_forks_condvar i x s"

text \<open>The step of a thread inside the monitor's own code.\<close>

definition mon_run :: "nat \<Rightarrow> monitor \<Rightarrow> monitor option" where
  "mon_run i m =
     (case mon_leave i (pcs m i) m of Some m' \<Rightarrow> Some m'
      | None \<Rightarrow> (case cond_wait i (pcs m i) m of Some m' \<Rightarrow> Some m' | None \<Rightarrow> cond_signal i (pcs m i) m))"

definition philosopher_using_condvar :: "nat \<Rightarrow> ctable \<Rightarrow> ctable option" where
  "philosopher_using_condvar i s =
     (if pcs (mtp s) i = Outside \<or> pcs (mtp s) i = Inside then own_step i (cpcs s i) s
      else map_option (\<lambda>m. s\<lparr>mtp := m\<rparr>) (mon_run i (mtp s)))"

text \<open>\<^verbatim>\<open>check_sync\<close> from the monitor's initialisation on.\<close>

definition check_sync_cond_start :: "bool \<Rightarrow> ctable option" where
  "check_sync_cond_start kmalloc_ok = do {
     m \<leftarrow> monitor_init N kmalloc_ok (\<lambda>_. Outside);
     Some \<lparr>mtp = m, state_condvar = (\<lambda>_. THINKING), citer = (\<lambda>_. 0), cpcs = (\<lambda>_. CNotCreated), cmain = Create 0\<rparr>
   }"

fun check_sync_cond :: "main_pc \<Rightarrow> ctable \<Rightarrow> ctable option" where
  "check_sync_cond (Create i) s =
     (if i < N then Some (cat i CLoop (s\<lparr>state_condvar := (state_condvar s)(i := THINKING), citer := (citer s)(i := 0), cmain := Create (i + 1)\<rparr>))
      else Some (s\<lparr>cmain := Join 0\<rparr>))"
| "check_sync_cond (Join i) s =
     (if i < N then (if cpcs s i = CQuit then Some (s\<lparr>cmain := Join (i + 1)\<rparr>) else None)
      else Some (s\<lparr>cmain := Finished\<rparr>))"
| "check_sync_cond Finished s = None"

inductive ctable_step :: "ctable \<Rightarrow> ctable \<Rightarrow> bool" where
  cphil: "philosopher_using_condvar i s = Some s' \<Longrightarrow> ctable_step s s'"
| cmain: "check_sync_cond (cmain s) s = Some s' \<Longrightarrow> ctable_step s s'"

inductive ctable_reach :: "ctable \<Rightarrow> bool" where
  cstart: "check_sync_cond_start True = Some s \<Longrightarrow> ctable_reach s"
| cmore: "ctable_reach s \<Longrightarrow> ctable_step s s' \<Longrightarrow> ctable_reach s'"

section \<open>The invariant\<close>

fun signals :: "nat \<Rightarrow> pc \<Rightarrow> bool" where
  "signals j (SInc c) = (c = j)"
| "signals j (SUp c) = (c = j)"
| "signals j SDown = True"
| "signals j WaitNext = True"
| "signals j SDec = True"
| "signals j x = False"

text \<open>What the point inside the monitor and the state of philosopher \<open>i\<close> are at each of its own program points.\<close>

fun place_ok :: "nat \<Rightarrow> cond_pc \<Rightarrow> pc \<Rightarrow> phil \<Rightarrow> bool" where
  "place_ok i CLoop m st \<longleftrightarrow> m \<in> {Outside, LeaveNext, LeaveMutex} \<and> st = THINKING"
| "place_ok i CSetHungry m st \<longleftrightarrow> m \<in> {AtMutex, Inside} \<and> st = THINKING"
| "place_ok i (CTest r) m st \<longleftrightarrow>
     (m = Inside \<or> r = FromRight \<and> signals (LEFT i) m) \<and> st = (if r = FromTake then HUNGRY else THINKING)"
| "place_ok i (CSetEating r) m st \<longleftrightarrow> m = Inside \<and> st = (if r = FromTake then HUNGRY else THINKING)"
| "place_ok i (CSignal r) m st \<longleftrightarrow> m = Inside \<and> st = (if r = FromTake then EATING else THINKING)"
| "place_ok i CCheck m st \<longleftrightarrow> m = Inside \<and> st \<noteq> THINKING"
| "place_ok i CTakeLeave m st \<longleftrightarrow>
     (m = Inside \<or> m = WDec i) \<and> st = EATING \<or> m \<in> {WTest i, WUpNext i, WUpMutex i, WDown i, WaitCv i} \<and> st \<noteq> THINKING"
| "place_ok i CDining m st \<longleftrightarrow> m \<in> {Outside, LeaveNext, LeaveMutex} \<and> st = EATING"
| "place_ok i CSetThinking m st \<longleftrightarrow> m \<in> {AtMutex, Inside} \<and> st = EATING"
| "place_ok i CPutLeave m st \<longleftrightarrow> (m = Inside \<or> signals (RIGHT i) m) \<and> st = THINKING"
| "place_ok i x m st \<longleftrightarrow> m = Outside \<and> st = THINKING"

definition cond_inv :: "ctable \<Rightarrow> bool" where
  "cond_inv s \<longleftrightarrow> (\<exists>pl. mon_inv (mtp s) pl) \<and> (\<forall>i. place_ok i (cpcs s i) (pcs (mtp s) i) (state_condvar s i)) \<and>
     (\<forall>i. cpcs s i \<noteq> CNotCreated \<longrightarrow> i < N) \<and>
     (\<forall>i r. cpcs s i = CSetEating r \<longrightarrow> may_eat (target r i) s) \<and>
     (\<forall>i r. cpcs s i = CSignal r \<longrightarrow> state_condvar s (target r i) = EATING) \<and>
     (\<forall>i j. pcs (mtp s) i = SInc j \<or> pcs (mtp s) i = SUp j \<longrightarrow> state_condvar s j = EATING) \<and>
     (\<forall>j. 0 < fst (cv_sem (mtp s) j) \<longrightarrow> state_condvar s j = EATING) \<and>
     (\<forall>i<N. state_condvar s i = EATING \<longrightarrow> state_condvar s (LEFT i) \<noteq> EATING \<and> state_condvar s (RIGHT i) \<noteq> EATING)"

text \<open>The effect of the monitor's steps on the program points inside it.\<close>

definition others :: "monitor \<Rightarrow> nat \<Rightarrow> monitor \<Rightarrow> bool" where
  "others m i m' \<longleftrightarrow> (\<forall>j. j \<noteq> i \<longrightarrow> pcs m' j = pcs m j \<or> pcs m j = AtMutex \<and> pcs m' j = Inside \<or>
     pcs m j = WaitNext \<and> pcs m' j = SDec \<or> (\<exists>c. pcs m i = SUp c \<and> pcs m j = WaitCv c \<and> pcs m' j = WDec c))"

fun moves :: "monitor \<Rightarrow> pc \<Rightarrow> pc \<Rightarrow> bool" where
  "moves m LeaveNext y \<longleftrightarrow> y = Outside"
| "moves m LeaveMutex y \<longleftrightarrow> y = Outside"
| "moves m (WTest c) y \<longleftrightarrow> y = WUpNext c \<or> y = WUpMutex c"
| "moves m (WUpNext c) y \<longleftrightarrow> y = WDown c"
| "moves m (WUpMutex c) y \<longleftrightarrow> y = WDown c"
| "moves m (WDown c) y \<longleftrightarrow> (if 0 < fst (cv_sem m c) then y = WDec c else y = WaitCv c)"
| "moves m (WDec c) y \<longleftrightarrow> y = Inside"
| "moves m (SInc c) y \<longleftrightarrow> y = SUp c"
| "moves m (SUp c) y \<longleftrightarrow> y = SDown"
| "moves m SDown y \<longleftrightarrow> y = SDec \<or> y = WaitNext"
| "moves m SDec y \<longleftrightarrow> y = Inside"
| "moves m x y \<longleftrightarrow> False"

lemma wake_first_at:
  "snd a = [] \<Longrightarrow> wake_first a ps = ps" "snd a = q # qs \<Longrightarrow> wake_first a ps = ps(q := resume (ps q))"
  by (simp_all add: wake_first_def)

lemma fst_a_up: "fst (a_up a) = (if snd a = [] then fst a + 1 else fst a)"
  by (cases a rule: a_up.cases) simp_all

text \<open>A thread that wakes the head of a queue of threads at \<open>x\<close>.\<close>

lemma wake_others:
  assumes "\<And>q qs. snd a = q # qs \<Longrightarrow> pcs m q = x" and "pcs m i \<noteq> x"
    and "pcs m' = wake_first a ((pcs m)(i := y))"
    and "x = AtMutex \<or> x = WaitNext \<or> (\<exists>c. x = WaitCv c \<and> pcs m i = SUp c)"
  shows "others m i m'" "pcs m' i = y"
proof -
  have h: "pcs m q = x \<and> q \<noteq> i" if "snd a = q # qs" for q qs using assms(1) [OF that] assms(2) by auto
  have e: "pcs m' = (case snd a of [] \<Rightarrow> (pcs m)(i := y) | q # qs \<Rightarrow> (pcs m)(i := y, q := resume x))"
    using h by (cases "snd a") (auto simp: assms(3) wake_first_def)
  show "others m i m'" using assms(4) h by (cases "snd a") (auto simp: others_def e)
  show "pcs m' i = y" using h by (cases "snd a") (auto simp: e)
qed

lemma mon_run_effect:
  assumes q: "queues m" and run: "mon_run i m = Some m'"
  shows "others m i m' \<and> moves m (pcs m i) (pcs m' i) \<and>
     (\<forall>c. 0 < fst (cv_sem m' c) \<longrightarrow> 0 < fst (cv_sem m c) \<or> pcs m i = SUp c) \<and> mon_step m m'"
proof -
  note h = queue_head [OF q]
  have st: "mon_step m m'"
    using run mon_step.leave [of i m] mon_step.wait_step [of i m] mon_step.signal_step [of i m]
    by (auto simp: mon_run_def split: option.splits)
  show ?thesis
  proof (cases "pcs m i")
    case LeaveNext
    then have m': "m' = up_next (goto i Outside m)" using run by (simp add: mon_run_def)
    show ?thesis using wake_others [of "next_sem m" m WaitNext i m' Outside] h(2) LeaveNext st
      by (simp add: m' up_next_def goto_def)
  next
    case LeaveMutex
    then have m': "m' = up_mutex (goto i Outside m)" using run by (simp add: mon_run_def)
    show ?thesis using wake_others [of "mutex m" m AtMutex i m' Outside] h(1) LeaveMutex st
      by (simp add: m' up_mutex_def goto_def)
  next
    case (WUpNext c)
    then have m': "m' = up_next (goto i (WDown c) m)" using run by (simp add: mon_run_def)
    show ?thesis using wake_others [of "next_sem m" m WaitNext i m' "WDown c"] h(2) WUpNext st
      by (simp add: m' up_next_def goto_def)
  next
    case (WUpMutex c)
    then have m': "m' = up_mutex (goto i (WDown c) m)" using run by (simp add: mon_run_def)
    show ?thesis using wake_others [of "mutex m" m AtMutex i m' "WDown c"] h(1) WUpMutex st
      by (simp add: m' up_mutex_def goto_def)
  next
    case (SUp c)
    then have m': "m' = up_cv c (goto i SDown m)" using run by (simp add: mon_run_def)
    show ?thesis using wake_others [of "cv_sem m c" m "WaitCv c" i m' SDown] h(3) [of c] SUp st
      by (auto simp: m' up_cv_def goto_def)
  next
    case (WTest c)
    then show ?thesis using run st by (auto simp: mon_run_def goto_def others_def split: if_splits)
  next
    case (WDown c)
    have a: "0 < fst (a_down i a) \<Longrightarrow> 0 < fst a" for a by (cases a) (simp split: if_splits)
    have m': "m' = goto i (if fst (cv_sem m c) > 0 then WDec c else WaitCv c) (m\<lparr>cv_sem := (cv_sem m)(c := a_down i (cv_sem m c))\<rparr>)"
      using run WDown by (simp add: mon_run_def)
    then have "others m i m'" "moves m (pcs m i) (pcs m' i)" by (simp_all add: WDown goto_def others_def)
    moreover have "0 < fst (cv_sem m d)" if "0 < fst (cv_sem m' d)" for d
      using that a [of "cv_sem m c"] by (cases "d = c") (simp_all add: m' goto_def)
    ultimately show ?thesis using st by blast
  qed (use run st in \<open>auto simp: mon_run_def goto_def others_def split: if_splits\<close>)
qed

section \<open>Preservation\<close>

lemma place_moves:
  assumes "place_ok i x y st" and "moves m y z" and "0 < fst (cv_sem m i) \<Longrightarrow> st = EATING"
  shows "place_ok i x z st"
proof (cases y)
  case (WDown c)
  then show ?thesis using assms by (cases x) (auto split: if_splits)
next
  case SDown
  then show ?thesis using assms(1,2) by (cases x) auto
next
  case (WTest c)
  then show ?thesis using assms(1,2) by (cases x) auto
qed (use assms(1,2) in \<open>(cases x; simp)+\<close>)

lemma place_woken:
  "place_ok j x AtMutex st \<Longrightarrow> place_ok j x Inside st"
  "place_ok j x WaitNext st \<Longrightarrow> place_ok j x SDec st"
  "place_ok j x (WaitCv c) st \<Longrightarrow> c = j \<longrightarrow> st = EATING \<Longrightarrow> place_ok j x (WDec c) st"
  by (cases x; simp)+

lemma cond_invD:
  assumes "cond_inv s"
  shows "place_ok i (cpcs s i) (pcs (mtp s) i) (state_condvar s i)" "cpcs s i \<noteq> CNotCreated \<Longrightarrow> i < N"
    "active (pcs (mtp s) i) \<Longrightarrow> active (pcs (mtp s) j) \<Longrightarrow> i = j" "queues (mtp s)"
    "cpcs s i = CSetEating r \<Longrightarrow> may_eat (target r i) s" "cpcs s i = CSignal r \<Longrightarrow> state_condvar s (target r i) = EATING"
    "pcs (mtp s) i = SInc j \<or> pcs (mtp s) i = SUp j \<Longrightarrow> state_condvar s j = EATING"
    "0 < fst (cv_sem (mtp s) j) \<Longrightarrow> state_condvar s j = EATING"
    "i < N \<Longrightarrow> state_condvar s i = EATING \<Longrightarrow> state_condvar s (LEFT i) \<noteq> EATING \<and> state_condvar s (RIGHT i) \<noteq> EATING"
    "0 < fst (cv_sem (mtp s) j) \<Longrightarrow> \<not> active (pcs (mtp s) i)"
proof -
  from assms obtain pl where pl: "token (mtp s) pl" "queues (mtp s)" by (auto simp: cond_inv_def mon_inv_def)
  then show "active (pcs (mtp s) i) \<Longrightarrow> active (pcs (mtp s) j) \<Longrightarrow> i = j" "queues (mtp s)"
    "0 < fst (cv_sem (mtp s) j) \<Longrightarrow> \<not> active (pcs (mtp s) i)" by (auto simp: token_def split: if_splits)
qed (use assms in \<open>simp_all add: cond_inv_def, blast\<close>)

lemma mon_run_inv:
  assumes inv: "cond_inv s" and run: "mon_run i (mtp s) = Some m'"
  shows "cond_inv (s\<lparr>mtp := m'\<rparr>)"
proof -
  note d = cond_invD [OF inv]
  have e: "others (mtp s) i m'" "moves (mtp s) (pcs (mtp s) i) (pcs m' i)"
    "\<And>c. 0 < fst (cv_sem m' c) \<Longrightarrow> 0 < fst (cv_sem (mtp s) c) \<or> pcs (mtp s) i = SUp c" "mon_step (mtp s) m'"
    using mon_run_effect [OF d(4) run] by auto
  have pl: "\<exists>pl. mon_inv m' pl" using inv mon_step_inv [OF e(4)] by (auto simp: cond_inv_def)
  have p: "place_ok j (cpcs s j) (pcs m' j) (state_condvar s j)" for j
  proof (cases "j = i")
    case True
    then show ?thesis using place_moves [OF d(1) [of i] e(2)] d(8) [of i] by simp
  next
    case False
    then consider "pcs m' j = pcs (mtp s) j"
      | "pcs (mtp s) j = AtMutex \<and> pcs m' j = Inside \<or> pcs (mtp s) j = WaitNext \<and> pcs m' j = SDec \<or>
         (\<exists>c. pcs (mtp s) i = SUp c \<and> pcs (mtp s) j = WaitCv c \<and> pcs m' j = WDec c)"
      using e(1) by (auto simp: others_def)
    then show ?thesis
    proof cases
      case 1
      then show ?thesis using d(1) [of j] by simp
    next
      case 2
      then show ?thesis using d(7) [of i j] d(1) [of j] place_woken by metis
    qed
  qed
  have sg: "state_condvar s j = EATING" if "pcs m' k = SInc j \<or> pcs m' k = SUp j" for j k
  proof (cases "k = i")
    case True
    then have "pcs (mtp s) i = SInc j" using e(2) that by (cases "pcs (mtp s) i") (auto split: if_splits)
    then show ?thesis using d(7) by blast
  next
    case False
    then have "pcs m' k = pcs (mtp s) k" using e(1) that by (auto simp: others_def)
    then show ?thesis using d(7) [of k j] that by simp
  qed
  have cv: "state_condvar s j = EATING" if "0 < fst (cv_sem m' j)" for j
    using e(3) [OF that] d(7) [of i j] d(8) [of j] by blast
  show ?thesis using inv pl p sg cv by (simp add: cond_inv_def may_eat_def)
qed

text \<open>Steps of the thread's own code that change no state of a philosopher.\<close>

lemma quiet_inv:
  assumes inv: "cond_inv s" and i: "i < N" and m: "\<exists>pl. mon_inv (mtp s') pl"
    and s': "pcs (mtp s') = (pcs (mtp s))(i := y)" "cv_sem (mtp s') = cv_sem (mtp s)" "cpcs s' = (cpcs s)(i := x)"
      "state_condvar s' = state_condvar s"
    and ok: "place_ok i x y (state_condvar s i)" "\<And>r. x = CSetEating r \<Longrightarrow> may_eat (target r i) s"
      "\<And>r. x \<noteq> CSignal r" "\<And>j. y = SInc j \<Longrightarrow> state_condvar s j = EATING" "\<And>j. y \<noteq> SUp j"
  shows "cond_inv s'"
proof -
  note d = cond_invD [OF inv]
  have "place_ok j (cpcs s' j) (pcs (mtp s') j) (state_condvar s' j)" for j
    using d(1) [of j] ok(1) by (simp add: s')
  moreover have "j < N" if "cpcs s' j \<noteq> CNotCreated" for j using d(2) [of j] that i by (auto simp: s' split: if_splits)
  moreover have "may_eat (target r j) s'" if "cpcs s' j = CSetEating r" for j r
    using d(5) [of j r] that ok(2) by (auto simp: s' may_eat_def split: if_splits)
  moreover have "state_condvar s' (target r j) = EATING" if "cpcs s' j = CSignal r" for j r
    using d(6) [of j r] that ok(3) by (auto simp: s' split: if_splits)
  moreover have "state_condvar s' k = EATING" if "pcs (mtp s') j = SInc k \<or> pcs (mtp s') j = SUp k" for j k
    using d(7) [of j k] that ok(4,5) by (auto simp: s' split: if_splits)
  ultimately show ?thesis using m d(8,9) unfolding cond_inv_def s'(2,4) by blast
qed

text \<open>The assignments to the state of a philosopher, by a thread that is active in the monitor.\<close>

lemma assign_inv:
  assumes inv: "cond_inv s" and i: "pcs (mtp s) i = Inside" "cpcs s i \<noteq> CNotCreated"
    and s': "mtp s' = mtp s" "cpcs s' = (cpcs s)(i := x)"
    and ok: "\<And>j. place_ok j (cpcs s' j) (pcs (mtp s) j) (state_condvar s' j)"
      "\<And>r. x \<noteq> CSetEating r" "\<And>r. x = CSignal r \<Longrightarrow> state_condvar s' (target r i) = EATING"
      "\<And>j. j < N \<Longrightarrow> state_condvar s' j = EATING \<Longrightarrow> state_condvar s' (LEFT j) \<noteq> EATING \<and> state_condvar s' (RIGHT j) \<noteq> EATING"
  shows "cond_inv s'"
proof -
  note d = cond_invD [OF inv]
  have na: "j = i" if "active (pcs (mtp s) j)" for j using d(3) [of i j] that i by simp
  have "cpcs s j \<noteq> CSetEating r" "cpcs s j \<noteq> CSignal r" if "j \<noteq> i" for j r
    using d(1) [of j] na [of j] that by auto
  then have "may_eat (target r j) s' \<and> False" if "cpcs s' j = CSetEating r" for j r
    using that ok(2) by (auto simp: s' split: if_splits)
  moreover have "state_condvar s' (target r j) = EATING" if "cpcs s' j = CSignal r" for j r
    using that ok(3) \<open>\<And>r j. j \<noteq> i \<Longrightarrow> cpcs s j \<noteq> CSignal r\<close> by (auto simp: s' split: if_splits)
  moreover have "\<not> (pcs (mtp s) j = SInc k \<or> pcs (mtp s) j = SUp k)" for j k using na [of j] i(1) by auto
  moreover have "\<not> 0 < fst (cv_sem (mtp s) j)" for j using d(10) [of j i] i(1) by auto
  moreover have "j < N" if "cpcs s' j \<noteq> CNotCreated" for j
    using d(2) [of j] d(2) [of i] that i(2) by (auto simp: s' split: if_splits)
  moreover have "\<exists>pl. mon_inv (mtp s') pl" using inv by (simp add: cond_inv_def s')
  ultimately show ?thesis using ok(1,4) unfolding cond_inv_def s'(1) by blast
qed

lemma cset_inv:
  assumes inv: "cond_inv s" and m: "pcs (mtp s) i = Inside" and p: "cpcs s i = x"
    and x: "x = CSetHungry \<and> go = CTest FromTake \<and> st = HUNGRY \<or> x = CSetThinking \<and> go = CTest FromLeft \<and> st = THINKING"
  shows "cond_inv (cat i go (s\<lparr>state_condvar := (state_condvar s)(i := st)\<rparr>))" (is "cond_inv ?s")
proof (rule assign_inv [OF inv m])
  note d = cond_invD [OF inv]
  show "place_ok j (cpcs ?s j) (pcs (mtp s) j) (state_condvar ?s j)" for j using d(1) [of j] m x by (auto simp: cat_def)
  show "state_condvar ?s (LEFT j) \<noteq> EATING \<and> state_condvar ?s (RIGHT j) \<noteq> EATING"
    if "j < N" "state_condvar ?s j = EATING" for j
    using d(9) [OF that(1)] that(2) x by (auto simp: cat_def split: if_splits)
qed (use p x in \<open>auto simp: cat_def\<close>)

lemma place_eating:
  "place_ok j x y HUNGRY \<Longrightarrow> \<not> active y \<Longrightarrow> place_ok j x y EATING"
  by (cases x) (auto split: if_splits)

lemma ceating_inv:
  assumes inv: "cond_inv s" and m: "pcs (mtp s) i = Inside" and p: "cpcs s i = CSetEating r"
  shows "cond_inv (cat i (CSignal r) (s\<lparr>state_condvar := (state_condvar s)(target r i := EATING)\<rparr>))" (is "cond_inv ?s")
proof (rule assign_inv [OF inv m])
  note d = cond_invD [OF inv]
  let ?t = "target r i"
  have i: "i < N" using d(2) p by simp
  have t: "?t < N" by (rule target_less [OF i])
  have ti: "?t = i \<longleftrightarrow> r = FromTake" using neighbours [OF i] by (cases r) auto
  have c: "may_eat ?t s" using d(5) p by simp
  show "place_ok j (cpcs ?s j) (pcs (mtp s) j) (state_condvar ?s j)" for j
  proof (cases "j = i")
    case True
    then show ?thesis using d(1) [of i] p m ti by (auto simp: cat_def)
  next
    case False
    then have "\<not> active (pcs (mtp s) j)" using d(3) [of i j] m by auto
    then show ?thesis using place_eating [of j "cpcs s j" "pcs (mtp s) j"] d(1) [of j] c False
      by (auto simp: cat_def may_eat_def)
  qed
  show "state_condvar ?s (LEFT j) \<noteq> EATING \<and> state_condvar ?s (RIGHT j) \<noteq> EATING"
    if "j < N" "state_condvar ?s j = EATING" for j
    using d(9) [OF that(1)] that(2) c neighbours [OF t] neighbours [OF that(1)]
    by (auto simp: cat_def may_eat_def split: if_splits)
qed (use p in \<open>auto simp: cat_def\<close>)

text \<open>Only philosopher \<open>i\<close> ever waits on the condition variable \<open>i\<close>.\<close>

lemma nobody_waits:
  assumes inv: "cond_inv s" and m: "pcs (mtp s) i = Inside"
  shows "cv_count (mtp s) i = 0"
proof -
  have "\<not> waiting i (pcs (mtp s) p)" for p
  proof
    assume w: "waiting i (pcs (mtp s) p)"
    then have "p = i" using cond_invD(1) [OF inv, of p]
      by (cases "pcs (mtp s) p"; cases "cpcs s p"; auto)
    then show False using w m by simp
  qed
  then have "{p. waiting i (pcs (mtp s) p)} = {}" by blast
  then show ?thesis using inv by (auto simp: cond_inv_def mon_inv_def counts_def)
qed

lemma csignal_inv:
  assumes inv: "cond_inv s" and m: "pcs (mtp s) i = Inside" and p: "cpcs s i = CSignal r"
  shows "cond_inv (cat i (cafter r) (on_mon (cond_signal_enter i (target r i)) s))" (is "cond_inv ?s")
proof -
  note d = cond_invD [OF inv]
  let ?y = "if 0 < cv_count (mtp s) (target r i) then SInc (target r i) else Inside"
  have i: "i < N" using d(2) p by simp
  obtain pl where "mon_inv (mtp s) pl" using inv by (auto simp: cond_inv_def)
  then have pl: "\<exists>pl. mon_inv (mtp ?s) pl" using inside_inv(3) [OF _ m] by (simp add: cat_def on_mon_def)
  have t: "state_condvar s (target r i) = EATING" using d(6) p by simp
  have y: "pcs (mtp ?s) = (pcs (mtp s))(i := ?y)"
    using m by (auto simp: cat_def on_mon_def cond_signal_enter_def goto_def)
  have st: "state_condvar s i = (if r = FromTake then EATING else THINKING)" using d(1) [of i] p by simp
  have a: "cafter r \<noteq> CSignal q" "cafter r \<noteq> CSetEating q" for q by (cases r; simp)+
  show ?thesis
  proof (rule quiet_inv [OF inv i pl y])
    show "place_ok i (cafter r) ?y (state_condvar s i)"
      using st nobody_waits [OF inv m] by (cases r) (simp_all split: if_splits)
  qed (use t a in \<open>simp_all add: cat_def on_mon_def cond_signal_enter_def goto_def split: if_splits\<close>)
qed

lemma own_step_inv:
  assumes inv: "cond_inv s" and m: "pcs (mtp s) i = Outside \<or> pcs (mtp s) i = Inside"
    and run: "own_step i (cpcs s i) s = Some s'"
  shows "cond_inv s'"
proof -
  note d = cond_invD [OF inv]
  obtain pl where pl: "mon_inv (mtp s) pl" using inv by (auto simp: cond_inv_def)
  have i: "i < N" if "cpcs s i \<noteq> CNotCreated" using d(2) that by simp
  have same: "pcs (mtp s) = (pcs (mtp s))(i := pcs (mtp s) i)" by simp
  note sel = cat_def on_mon_def mon_enter_def mon_leave_test_def cond_wait_enter_def goto_def
  show ?thesis
  proof (cases "cpcs s i")
    case CLoop
    then show ?thesis using run d(1) [of i] m pl
      by (intro quiet_inv [OF inv i, of s' "pcs (mtp s) i" "if citer s i < TIMES then CTakeEnter else CQuit"])
        (auto simp: sel split: if_splits)
  next
    case (CTest r)
    then show ?thesis using run d(1) [of i] m pl
      by (intro quiet_inv [OF inv i, of s' "pcs (mtp s) i" "if may_eat (target r i) s then CSetEating r else cafter r"])
        (cases r; auto simp: sel split: if_splits)+
  next
    case (CSetEating r)
    then show ?thesis using run ceating_inv [OF inv _ CSetEating] d(1) [of i] by auto
  next
    case (CSignal r)
    then show ?thesis using run csignal_inv [OF inv _ CSignal] d(1) [of i] by auto
  next
    case CSetHungry
    then show ?thesis using run cset_inv [OF inv _ CSetHungry] d(1) [of i] m by auto
  next
    case CSetThinking
    then show ?thesis using run cset_inv [OF inv _ CSetThinking] d(1) [of i] m by auto
  next
    case CTakeEnter
    then have o: "pcs (mtp s) i = Outside" using d(1) [of i] by simp
    then show ?thesis using run d(1) [of i] enter_inv [OF pl o] CTakeEnter
      by (intro quiet_inv [OF inv i, of s' "if fst (mutex (mtp s)) > 0 then Inside else AtMutex" CSetHungry]) (auto simp: sel split: if_splits)
  next
    case CDining
    then have o: "pcs (mtp s) i = Outside" using d(1) [of i] m by auto
    then show ?thesis using run d(1) [of i] enter_inv [OF pl o] CDining
      by (intro quiet_inv [OF inv i, of s' "if fst (mutex (mtp s)) > 0 then Inside else AtMutex" CSetThinking]) (auto simp: sel split: if_splits)
  next
    case CTakeLeave
    then have o: "pcs (mtp s) i = Inside" using d(1) [of i] m by auto
    then show ?thesis using run d(1) [of i] inside_inv(1) [OF pl o] CTakeLeave
      by (intro quiet_inv [OF inv i, of s' "if next_count (mtp s) > 0 then LeaveNext else LeaveMutex" CDining]) (auto simp: sel split: if_splits)
  next
    case CPutLeave
    then have o: "pcs (mtp s) i = Inside" using d(1) [of i] m by auto
    then show ?thesis using run d(1) [of i] inside_inv(1) [OF pl o] CPutLeave
      by (intro quiet_inv [OF inv i, of s' "if next_count (mtp s) > 0 then LeaveNext else LeaveMutex" CLoop]) (auto simp: sel split: if_splits)
  next
    case CCheck
    then have o: "pcs (mtp s) i = Inside" using d(1) [of i] by simp
    have st: "state_condvar s i \<noteq> THINKING" using d(1) [of i] CCheck by simp
    then have "place_ok i CTakeLeave (if state_condvar s i = HUNGRY then WTest i else Inside) (state_condvar s i)"
      by (cases "state_condvar s i") auto
    then show ?thesis using run o pl inside_inv(2) [OF pl o, of i] CCheck
      by (intro quiet_inv [OF inv i, of s' "if state_condvar s i = HUNGRY then WTest i else Inside" CTakeLeave])
        (auto simp: sel split: if_splits)
  qed (use run in auto)
qed

section \<open>Runs\<close>

definition not_created :: "ctable \<Rightarrow> bool" where
  "not_created s \<longleftrightarrow> (\<forall>k i. cmain s = Create k \<longrightarrow> k \<le> i \<longrightarrow> cpcs s i = CNotCreated)"

lemma cphil_step:
  assumes "cond_inv s" and "philosopher_using_condvar i s = Some s'"
  shows "cond_inv s'"
  using assms own_step_inv [OF assms(1)] mon_run_inv [OF assms(1)]
  by (auto simp: philosopher_using_condvar_def split: if_splits)

lemma cafter_created [simp]: "cafter r \<noteq> CNotCreated"
  by (cases r) simp_all

lemma cphil_created:
  assumes "philosopher_using_condvar i s = Some s'"
  shows "cmain s' = cmain s" "cpcs s j = CNotCreated \<Longrightarrow> cpcs s' j = CNotCreated"
proof -
  have "cmain s' = cmain s \<and> (cpcs s j = CNotCreated \<longrightarrow> cpcs s' j = CNotCreated)" if "own_step i (cpcs s i) s = Some s'"
    using that by (cases "cpcs s i") (auto simp: cat_def on_mon_def)
  then show "cmain s' = cmain s" "cpcs s j = CNotCreated \<Longrightarrow> cpcs s' j = CNotCreated"
    using assms by (auto simp: philosopher_using_condvar_def split: if_splits)
qed

lemma cmain_inv: "cond_inv (s\<lparr>cmain := m\<rparr>) = cond_inv s"
  by (simp add: cond_inv_def may_eat_def)

lemma cmain_step:
  assumes inv: "cond_inv s" "not_created s" and run: "check_sync_cond (cmain s) s = Some s'"
  shows "cond_inv s' \<and> not_created s'"
proof (cases "cmain s")
  case (Create k)
  have nc: "cpcs s i = CNotCreated" if "k \<le> i" for i using inv(2) Create that by (simp add: not_created_def)
  show ?thesis
  proof (cases "k < N")
    case True
    then have s': "s' = cat k CLoop (s\<lparr>state_condvar := (state_condvar s)(k := THINKING), citer := (citer s)(k := 0), cmain := Create (k + 1)\<rparr>)"
      using run Create by simp
    have p: "pcs (mtp s) k = Outside" "state_condvar s k = THINKING" using cond_invD(1) [OF inv(1), of k] nc [of k] by simp_all
    have "\<exists>pl. mon_inv (mtp s') pl" using inv(1) by (simp add: s' cat_def cond_inv_def)
    then have "cond_inv s'" using p by (intro quiet_inv [OF inv(1) True, of s' Outside CLoop]) (auto simp: s' cat_def)
    moreover have "not_created s'" using nc by (auto simp: not_created_def s' cat_def)
    ultimately show ?thesis by blast
  next
    case False
    then show ?thesis using run Create inv(1) by (auto simp: cmain_inv not_created_def)
  qed
next
  case (Join k)
  then show ?thesis using run inv(1) by (auto simp: cmain_inv not_created_def split: if_splits)
qed (use run in simp)

lemma ctable_reach_inv: "ctable_reach s \<Longrightarrow> cond_inv s \<and> not_created s"
proof (induction rule: ctable_reach.induct)
  case (cstart s)
  then obtain m where m: "monitor_init N True (\<lambda>_. Outside) = Some m"
    and s: "s = \<lparr>mtp = m, state_condvar = (\<lambda>_. THINKING), citer = (\<lambda>_. 0), cpcs = (\<lambda>_. CNotCreated), cmain = Create 0\<rparr>"
    by (auto simp: check_sync_cond_start_def bind_eq_Some_conv)
  have "\<exists>pl. mon_inv m pl" using mon_reach_inv mon_reach.start [OF m] by blast
  moreover have "m = \<lparr>mutex = (1, []), next_sem = (0, []), next_count = 0, cv_sem = (\<lambda>_. (0, [])), cv_count = (\<lambda>_. 0), pcs = (\<lambda>_. Outside)\<rparr>"
    using m by (simp add: monitor_init_def)
  ultimately show ?case by (simp add: s cond_inv_def not_created_def)
next
  case (cmore s s')
  from cmore.hyps(2) show ?case
  proof cases
    case (cphil i)
    then show ?thesis using cmore.IH cphil_step [OF _ cphil] cphil_created [OF cphil] by (simp add: not_created_def)
  next
    case cmain
    then show ?thesis using cmore.IH cmain_step by blast
  qed
qed

section \<open>The property\<close>

fun crun :: "nat option list \<Rightarrow> ctable \<Rightarrow> ctable option" where
  "crun [] s = Some s"
| "crun (None # ts) s = Option.bind (check_sync_cond (cmain s) s) (crun ts)"
| "crun (Some i # ts) s = Option.bind (philosopher_using_condvar i s) (crun ts)"

lemma crun_reach: "ctable_reach s \<Longrightarrow> crun ts s = Some s' \<Longrightarrow> ctable_reach s'"
  by (induction ts s rule: crun.induct) (auto simp: bind_eq_Some_conv dest: ctable_reach.cmore [OF _ ctable_step.cmain] ctable_reach.cmore [OF _ ctable_step.cphil])

text \<open>C27: With the monitor, too, two neighbours never eat at the same time: in every reachable state of every
  interleaving, a philosopher that has returned from \<^verbatim>\<open>phi_take_forks_condvar\<close> is \<^verbatim>\<open>EATING\<close>, also when it had to sleep in
  \<^verbatim>\<open>cond_wait\<close> and does not test its state again, and neither neighbour eats.\<close>

theorem philosophers_condvar_safe:
  assumes "ctable_reach s" and "cpcs s i = CDining"
  shows "state_condvar s i = EATING \<and> (\<forall>j\<in>{LEFT i, RIGHT i}. cpcs s j \<noteq> CDining \<and> state_condvar s j \<noteq> EATING)"
proof -
  have inv: "cond_inv s" using ctable_reach_inv [OF assms(1)] by blast
  note d = cond_invD [OF inv]
  have e: "state_condvar s j = EATING" if "cpcs s j = CDining" for j using d(1) [of j] that by simp
  moreover have "state_condvar s (LEFT i) \<noteq> EATING \<and> state_condvar s (RIGHT i) \<noteq> EATING"
    using d(9) [of i] d(2) [of i] e [of i] assms(2) by simp
  ultimately show ?thesis using assms(2) by blast
qed

definition one_waits :: "nat option list" where
  "one_waits = [None, None, Some 0, Some 0, Some 0, Some 0, Some 0, Some 0, Some 0, Some 0, Some 0,
     Some 1, Some 1, Some 1, Some 1, Some 1, Some 1, Some 1, Some 1]"

lemma one_waits: "\<exists>s. ctable_reach s \<and> cpcs s 0 = CDining \<and> pcs (mtp s) 1 = WaitCv 1"
proof -
  define c where "c = the (check_sync_cond_start True)"
  have c: "check_sync_cond_start True = Some c" by (simp add: c_def check_sync_cond_start_def monitor_init_def)
  have "\<exists>s. crun one_waits c = Some s \<and> cpcs s 0 = CDining \<and> pcs (mtp s) 1 = WaitCv 1"
    by (simp add: c_def check_sync_cond_start_def monitor_init_def one_waits_def cat_def on_mon_def may_eat_def LEFT_def RIGHT_def
      philosopher_using_condvar_def mon_run_def mon_enter_def mon_leave_test_def cond_signal_enter_def cond_wait_enter_def goto_def
      up_mutex_def up_next_def wake_first_def)
  then show ?thesis using crun_reach [OF ctable_reach.cstart [OF c]] by blast
qed

theorem philosophers_condvar_safe_witness:
  "\<exists>s. ctable_reach s \<and> cpcs s 0 = CDining \<and> pcs (mtp s) (RIGHT 0) = WaitCv 1 \<and>
     state_condvar s 0 = EATING \<and> (\<forall>j\<in>{LEFT 0, RIGHT 0}. cpcs s j \<noteq> CDining \<and> state_condvar s j \<noteq> EATING)"
proof -
  obtain s where s: "ctable_reach s" "cpcs s 0 = CDining" "pcs (mtp s) 1 = WaitCv 1" using one_waits by blast
  have "RIGHT 0 = 1" by (simp add: RIGHT_def)
  then show ?thesis using philosophers_condvar_safe [OF s(1,2)] s by (intro exI [of _ s]) simp
qed

end
