(* ===== verification/Bitmap.thy ===== *)
theory Bitmap
  imports Prelude
begin

text \<open>
  The block bitmap of the simple file system, \<^verbatim>\<open>kern/fs/sfs/bitmap.c\<close>.  A set bit is a free item.
  \<^verbatim>\<open>bitmap->map\<close> is a list of 32-bit words; the results of the two \<^verbatim>\<open>kmalloc\<close> calls of \<^verbatim>\<open>bitmap_create\<close>
  are parameters.
\<close>

unbundle bit_operations_syntax

section \<open>The operations\<close>

record bitmap =
  nbits :: nat
  nwords :: nat
  words :: "32 word list"

abbreviation (input) WORD_BITS :: nat where "WORD_BITS \<equiv> 32"

definition ROUNDUP_DIV :: "nat \<Rightarrow> nat \<Rightarrow> nat" where
  "ROUNDUP_DIV a n = u32 ((a + n - 1) div n)"

definition bitmask :: "nat \<Rightarrow> 32 word" where
  "bitmask offset = push_bit offset 1"

text \<open>The loop that marks the bits behind \<^verbatim>\<open>nbits\<close> as in use; \<open>k\<close> is \<^verbatim>\<open>WORD_BITS - overbits\<close>.\<close>

fun mark_over :: "nat \<Rightarrow> 32 word \<Rightarrow> 32 word" where
  "mark_over 0 w = w"
| "mark_over (Suc k) w = mark_over k (w XOR bitmask (WORD_BITS - Suc k))"

definition bitmap_create :: "nat \<Rightarrow> bool \<Rightarrow> bool \<Rightarrow> bitmap option option" where
  "bitmap_create n ok1 ok2 = do {
     kassert (n \<noteq> 0 \<and> n + WORD_BITS > n);
     (if \<not> ok1 then Some None
      else let nw = ROUNDUP_DIV n WORD_BITS in
        (if \<not> ok2 then Some None
         else let b = \<lparr>nbits = n, nwords = nw, words = replicate nw (- 1)\<rparr> in
           (if n \<noteq> nw * WORD_BITS
            then let ix = u32_sub nw 1; overbits = u32_sub n (u32 (ix * WORD_BITS)) in do {
              kassert (n div WORD_BITS = ix);
              kassert (overbits > 0 \<and> overbits < WORD_BITS);
              Some (Some (b\<lparr>words := (words b)[ix := mark_over (WORD_BITS - overbits) (words b ! ix)]\<rparr>))
            }
            else Some (Some b))))
   }"

text \<open>The inner loop of \<^verbatim>\<open>bitmap_alloc\<close>, over the offsets from \<open>WORD_BITS - k\<close>.\<close>

fun find_bit :: "nat \<Rightarrow> 32 word \<Rightarrow> nat option" where
  "find_bit 0 w = None"
| "find_bit (Suc k) w =
     (if w AND bitmask (WORD_BITS - Suc k) \<noteq> 0 then Some (WORD_BITS - Suc k) else find_bit k w)"

text \<open>The outer loop, over the words from \<open>ix\<close>: the index to return and the changed words.\<close>

fun scan_words :: "nat \<Rightarrow> 32 word list \<Rightarrow> (nat \<times> 32 word list) option option" where
  "scan_words ix [] = Some None"
| "scan_words ix (w # ws) =
     (if w \<noteq> 0
      then (case find_bit WORD_BITS w of
              None \<Rightarrow> None
            | Some offset \<Rightarrow> Some (Some (u32 (ix * WORD_BITS + offset), (w XOR bitmask offset) # ws)))
      else do {
        r \<leftarrow> scan_words (Suc ix) ws;
        Some (case r of None \<Rightarrow> None | Some (i, vs) \<Rightarrow> Some (i, w # vs))
      })"

definition bitmap_alloc :: "bitmap \<Rightarrow> ((int \<times> nat option) \<times> bitmap) option" where
  "bitmap_alloc b = do {
     r \<leftarrow> scan_words 0 (words b);
     Some (case r of None \<Rightarrow> ((- E_NO_MEM, None), b) | Some (i, ws) \<Rightarrow> ((0, Some i), b\<lparr>words := ws\<rparr>))
   }"

definition bitmap_translate :: "bitmap \<Rightarrow> nat \<Rightarrow> (nat \<times> 32 word) option" where
  "bitmap_translate b index = do {
     kassert (index < nbits b);
     Some (index div WORD_BITS, bitmask (index mod WORD_BITS))
   }"

definition bitmap_test :: "bitmap \<Rightarrow> nat \<Rightarrow> bool option" where
  "bitmap_test b index = do {
     (ix, m) \<leftarrow> bitmap_translate b index;
     Some (words b ! ix AND m \<noteq> 0)
   }"

definition bitmap_free :: "bitmap \<Rightarrow> nat \<Rightarrow> bitmap option" where
  "bitmap_free b index = do {
     (ix, m) \<leftarrow> bitmap_translate b index;
     kassert (words b ! ix AND m = 0);
     Some (b\<lparr>words := (words b)[ix := words b ! ix OR m]\<rparr>)
   }"

definition bitmap_getdata :: "bitmap \<Rightarrow> 32 word list \<times> nat" where
  "bitmap_getdata b = (words b, 4 * nwords b)"

section \<open>The set of free items\<close>

definition free_bits :: "bitmap \<Rightarrow> nat set" where
  "free_bits b = {i. i < nwords b * WORD_BITS \<and> bit (words b ! (i div WORD_BITS)) (i mod WORD_BITS)}"

definition bitmap_ok :: "bitmap \<Rightarrow> bool" where
  "bitmap_ok b \<longleftrightarrow> length (words b) = nwords b \<and> nbits b \<le> nwords b * WORD_BITS \<and>
     nwords b * WORD_BITS < 2 ^ 32 + WORD_BITS \<and> nbits b < 2 ^ 32 \<and> (\<forall>i\<in>free_bits b. i < nbits b)"

lemma bit_mask: "offset < WORD_BITS \<Longrightarrow> bit (bitmask offset) i \<longleftrightarrow> i = offset"
  by (simp only: bitmask_def bit_push_bit_iff bit_1_iff) auto

lemma and_mask:
  assumes "offset < WORD_BITS"
  shows "w AND bitmask offset \<noteq> 0 \<longleftrightarrow> bit w offset"
proof -
  have "w AND bitmask offset = 0 \<longleftrightarrow> (\<forall>i. \<not> (bit w i \<and> i = offset))"
    using assms by (subst bit_eq_iff) (simp add: bit_and_iff bit_mask, metis bit_imp_le_length linorder_not_less)
  then show ?thesis by blast
qed

lemma xor_mask: "offset < WORD_BITS \<Longrightarrow> bit (w XOR bitmask offset) i \<longleftrightarrow> (bit w i \<noteq> (i = offset))"
  by (auto simp: bit_xor_iff bit_mask)

lemma find_bit_ok:
  assumes "k \<le> WORD_BITS"
  shows "case find_bit k w of
      None \<Rightarrow> \<forall>i. WORD_BITS - k \<le> i \<and> i < WORD_BITS \<longrightarrow> \<not> bit w i
    | Some j \<Rightarrow> WORD_BITS - k \<le> j \<and> j < WORD_BITS \<and> bit w j \<and> (\<forall>i. WORD_BITS - k \<le> i \<and> i < j \<longrightarrow> \<not> bit w i)"
  using assms
proof (induction k)
  case (Suc k)
  let ?o = "WORD_BITS - Suc k"
  have o: "?o < WORD_BITS" "WORD_BITS - k = Suc ?o" using Suc.prems by auto
  show ?case
  proof (cases "bit w ?o")
    case True
    then have "find_bit (Suc k) w = Some ?o" using and_mask [OF o(1)] by simp
    then show ?thesis using True o by auto
  next
    case False
    then have f: "find_bit (Suc k) w = find_bit k w" using and_mask [OF o(1)] by simp
    have "\<not> bit w i" if "?o \<le> i" "Suc ?o \<le> i \<longrightarrow> \<not> bit w i" for i using that False by (cases "i = ?o") auto
    then show ?thesis using Suc.IH Suc.prems unfolding f o(2)
      by (auto split: option.splits simp del: diff_Suc_Suc)
  qed
qed auto

text \<open>The set bits of a list of words that starts at word \<open>ix\<close>.\<close>

definition set_bits_from :: "nat \<Rightarrow> 32 word list \<Rightarrow> nat set" where
  "set_bits_from ix ws = {i. ix * WORD_BITS \<le> i \<and> i < (ix + length ws) * WORD_BITS \<and>
     bit (ws ! (i div WORD_BITS - ix)) (i mod WORD_BITS)}"

lemma free_bits_from: "length (words b) = nwords b \<Longrightarrow> free_bits b = set_bits_from 0 (words b)"
  by (auto simp: free_bits_def set_bits_from_def)

lemma set_bits_Nil [simp]: "set_bits_from ix [] = {}"
  by (auto simp: set_bits_from_def)

lemma set_bits_Cons:
  "set_bits_from ix (w # ws) = {i. i div WORD_BITS = ix \<and> bit w (i mod WORD_BITS)} \<union> set_bits_from (Suc ix) ws"
proof (rule set_eqI)
  fix i
  have "i div WORD_BITS = ix \<or> i div WORD_BITS \<noteq> ix" by simp
  then show "i \<in> set_bits_from ix (w # ws) \<longleftrightarrow>
      i \<in> {i. i div WORD_BITS = ix \<and> bit w (i mod WORD_BITS)} \<union> set_bits_from (Suc ix) ws"
  proof
    assume e: "i div WORD_BITS = ix"
    then have "ix * WORD_BITS \<le> i" "i < Suc ix * WORD_BITS" by (auto simp: div_nat_eqI dividend_less_div_times)
    then show ?thesis using e by (auto simp: set_bits_from_def)
  next
    assume n: "i div WORD_BITS \<noteq> ix"
    have le: "y * WORD_BITS \<le> i \<longleftrightarrow> y \<le> i div WORD_BITS" for y by (simp add: less_eq_div_iff_mult_less_eq)
    show ?thesis
    proof (cases "Suc ix \<le> i div WORD_BITS")
      case True
      then have "i div WORD_BITS - ix = Suc (i div WORD_BITS - Suc ix)" by linarith
      then show ?thesis using n True le [of ix] le [of "Suc ix"] by (simp add: set_bits_from_def)
    next
      case False
      then show ?thesis using n le [of ix] le [of "Suc ix"] by (simp add: set_bits_from_def)
    qed
  qed
qed

lemma word_zero_bits: "w = 0 \<longleftrightarrow> (\<forall>i<WORD_BITS. \<not> bit (w :: 32 word) i)"
  by (auto simp: bit_eq_iff)

lemma set_bits_ge: "i \<in> set_bits_from ix ws \<Longrightarrow> ix \<le> i div WORD_BITS"
  by (auto simp: set_bits_from_def less_eq_div_iff_mult_less_eq)

lemma scan_words_ok:
  assumes "(ix + length ws) * WORD_BITS \<le> 2 ^ 32"
  shows "\<exists>r. scan_words ix ws = Some r \<and>
     (case r of
        None \<Rightarrow> set_bits_from ix ws = {}
      | Some (i, vs) \<Rightarrow> i \<in> set_bits_from ix ws \<and> (\<forall>j\<in>set_bits_from ix ws. i \<le> j) \<and> length vs = length ws \<and>
          set_bits_from ix vs = set_bits_from ix ws - {i})"
  using assms
proof (induction ws arbitrary: ix)
  case (Cons w ws)
  show ?case
  proof (cases "w = 0")
    case True
    from Cons.IH [of "Suc ix"] Cons.prems obtain r where r: "scan_words (Suc ix) ws = Some r"
      "case r of None \<Rightarrow> set_bits_from (Suc ix) ws = {}
        | Some (i, vs) \<Rightarrow> i \<in> set_bits_from (Suc ix) ws \<and> (\<forall>j\<in>set_bits_from (Suc ix) ws. i \<le> j) \<and> length vs = length ws \<and>
          set_bits_from (Suc ix) vs = set_bits_from (Suc ix) ws - {i}" by auto
    have e: "set_bits_from ix (0 # vs) = set_bits_from (Suc ix) vs" for vs by (auto simp: set_bits_Cons)
    show ?thesis
    proof (cases r)
      case None
      then show ?thesis using r True by (simp add: e)
    next
      case (Some iv)
      obtain i vs where "iv = (i, vs)" by (cases iv)
      then show ?thesis using r True Some by (intro exI [of _ "Some (i, w # vs)"]) (simp add: e del: scan_words.simps(2), simp)
    qed
  next
    case False
    then obtain k where k: "k < WORD_BITS" "bit w k" using word_zero_bits by blast
    obtain j where f: "find_bit WORD_BITS w = Some j" and j: "j < WORD_BITS" "bit w j" "\<forall>i<j. \<not> bit w i"
      using find_bit_ok [of WORD_BITS w] k by (auto split: option.splits)
    let ?i = "ix * WORD_BITS + j"
    have "ix * WORD_BITS + WORD_BITS \<le> 2 ^ 32" using Cons.prems by simp
    then have "u32 ?i = ?i" using j(1) by (intro u32_id) linarith
    then have sc: "scan_words ix (w # ws) = Some (Some (?i, (w XOR bitmask j) # ws))" using False f by simp
    have dm: "?i div WORD_BITS = ix" "?i mod WORD_BITS = j" using j(1) by simp_all
    have mem: "?i \<in> set_bits_from ix (w # ws)" using dm j(2) by (simp add: set_bits_Cons)
    have least: "?i \<le> i" if "i \<in> set_bits_from ix (w # ws)" for i
    proof (cases "i div WORD_BITS = ix")
      case True
      then have "bit w (i mod WORD_BITS)" using that set_bits_ge [of i "Suc ix" ws] by (auto simp: set_bits_Cons)
      then have "j \<le> i mod WORD_BITS" using j(3) by (meson not_le)
      moreover have "i = ix * WORD_BITS + i mod WORD_BITS" using True by (metis div_mult_mod_eq)
      ultimately show ?thesis by linarith
    next
      case False
      then have "Suc ix \<le> i div WORD_BITS" using that set_bits_ge [of i ix "w # ws"] by linarith
      then have "Suc ix * WORD_BITS \<le> i" by (simp add: less_eq_div_iff_mult_less_eq)
      then show ?thesis using j(1) by simp
    qed
    have upd: "set_bits_from ix ((w XOR bitmask j) # ws) = set_bits_from ix (w # ws) - {?i}"
    proof (rule set_eqI)
      fix i
      have "i = ?i \<longleftrightarrow> i div WORD_BITS = ix \<and> i mod WORD_BITS = j" using dm by (metis div_mult_mod_eq)
      then show "i \<in> set_bits_from ix ((w XOR bitmask j) # ws) \<longleftrightarrow> i \<in> set_bits_from ix (w # ws) - {?i}"
        using j set_bits_ge [of i "Suc ix" ws] by (auto simp: set_bits_Cons xor_mask)
    qed
    show ?thesis using sc mem least upd by simp
  qed
qed simp

lemma bitmap_alloc_ok:
  assumes ok: "bitmap_ok b" and sz: "nwords b * WORD_BITS \<le> 2 ^ 32"
  shows "if free_bits b = {} then bitmap_alloc b = Some ((- E_NO_MEM, None), b)
     else \<exists>b'. bitmap_alloc b = Some ((0, Some (Min (free_bits b))), b') \<and> bitmap_ok b' \<and>
       nwords b' = nwords b \<and> nbits b' = nbits b \<and> free_bits b' = free_bits b - {Min (free_bits b)}"
proof -
  have len: "length (words b) = nwords b" using ok by (simp add: bitmap_ok_def)
  note fb = free_bits_from [OF len]
  have fin: "finite (free_bits b)" by (rule finite_subset [of _ "{..<nwords b * WORD_BITS}"]) (auto simp: free_bits_def)
  from scan_words_ok [of 0 "words b"] len sz obtain r where r: "scan_words 0 (words b) = Some r"
    "case r of None \<Rightarrow> free_bits b = {}
      | Some (i, vs) \<Rightarrow> i \<in> free_bits b \<and> (\<forall>j\<in>free_bits b. i \<le> j) \<and> length vs = length (words b) \<and>
          set_bits_from 0 vs = free_bits b - {i}" unfolding fb by auto
  show ?thesis
  proof (cases r)
    case None
    then show ?thesis using r by (simp add: bitmap_alloc_def)
  next
    case (Some iv)
    obtain i vs where iv: "iv = (i, vs)" by (cases iv)
    have i: "i \<in> free_bits b" "\<forall>j\<in>free_bits b. i \<le> j" "length vs = length (words b)" "set_bits_from 0 vs = free_bits b - {i}"
      using r Some iv by auto
    have mn: "Min (free_bits b) = i" using i fin by (intro Min_eqI) auto
    let ?b = "b\<lparr>words := vs\<rparr>"
    have "free_bits ?b = free_bits b - {i}" using i(3,4) len by (subst free_bits_from) simp_all
    moreover from this have "bitmap_ok ?b" using ok i(3) by (simp add: bitmap_ok_def)
    ultimately show ?thesis using i(1) mn r(1) Some iv by (auto simp: bitmap_alloc_def)
  qed
qed

lemma bitmap_index:
  assumes "bitmap_ok b" and "index < nbits b"
  shows "index div WORD_BITS < length (words b)" "index \<in> free_bits b \<longleftrightarrow> bit (words b ! (index div WORD_BITS)) (index mod WORD_BITS)"
proof -
  have "index < nwords b * WORD_BITS" using assms by (simp add: bitmap_ok_def)
  then show "index div WORD_BITS < length (words b)"
    "index \<in> free_bits b \<longleftrightarrow> bit (words b ! (index div WORD_BITS)) (index mod WORD_BITS)"
    using assms(1) by (auto simp: bitmap_ok_def free_bits_def less_mult_imp_div_less)
qed

lemma bitmap_test_ok: "bitmap_ok b \<Longrightarrow> bitmap_test b index = (if index < nbits b then Some (index \<in> free_bits b) else None)"
  using bitmap_index [of b index] and_mask [of "index mod WORD_BITS"]
  by (simp add: bitmap_test_def bitmap_translate_def)

lemma bitmap_free_ok:
  assumes ok: "bitmap_ok b"
  shows "if index < nbits b \<and> index \<notin> free_bits b
     then \<exists>b'. bitmap_free b index = Some b' \<and> bitmap_ok b' \<and> nwords b' = nwords b \<and> nbits b' = nbits b \<and>
       free_bits b' = insert index (free_bits b)
     else bitmap_free b index = None"
proof (cases "index < nbits b \<and> index \<notin> free_bits b")
  case True
  let ?ix = "index div WORD_BITS" and ?o = "index mod WORD_BITS"
  let ?b = "b\<lparr>words := (words b)[?ix := words b ! ?ix OR bitmask ?o]\<rparr>"
  note ix = bitmap_index [OF ok]
  have run: "bitmap_free b index = Some ?b"
    using True ix(2) [of index] and_mask [of ?o "words b ! ?ix"] by (simp add: bitmap_free_def bitmap_translate_def)
  have lt: "index < nwords b * WORD_BITS" using True ok by (simp add: bitmap_ok_def)
  have "free_bits ?b = insert index (free_bits b)"
  proof (rule set_eqI)
    fix i
    have "i = index \<longleftrightarrow> i div WORD_BITS = ?ix \<and> i mod WORD_BITS = ?o" by (metis div_mult_mod_eq)
    then show "i \<in> free_bits ?b \<longleftrightarrow> i \<in> insert index (free_bits b)"
      using ix(1) [of index] True lt by (cases "i div WORD_BITS = ?ix") (auto simp: free_bits_def bit_or_iff bit_mask)
  qed
  moreover from this have "bitmap_ok ?b" using ok True by (auto simp: bitmap_ok_def)
  ultimately show ?thesis using True run by auto
next
  case False
  then show ?thesis using bitmap_index [OF ok, of index] and_mask [of "index mod WORD_BITS"]
    by (auto simp: bitmap_free_def bitmap_translate_def)
qed

lemma mark_over_ok:
  "k \<le> WORD_BITS \<Longrightarrow> i < WORD_BITS \<Longrightarrow> bit (mark_over k w) i \<longleftrightarrow> (bit w i \<noteq> (WORD_BITS - k \<le> i))"
proof (induction k arbitrary: w)
  case (Suc k)
  have o: "WORD_BITS - Suc k < WORD_BITS" using Suc.prems by simp
  have "bit (mark_over (Suc k) w) i \<longleftrightarrow> ((bit w i \<noteq> (i = WORD_BITS - Suc k)) \<noteq> (WORD_BITS - k \<le> i))"
    using Suc.IH [of "w XOR bitmask (WORD_BITS - Suc k)"] Suc.prems xor_mask [OF o, of w i] by simp
  then show ?case using Suc.prems by auto
qed simp

lemma bitmap_create_ok:
  assumes n: "0 < n" "n < 2 ^ 32"
  shows "\<exists>b. bitmap_create n True True = Some (Some b) \<and> bitmap_ok b \<and> nbits b = n \<and> free_bits b = {..<n} \<and>
     nwords b * WORD_BITS \<le> 2 ^ 32"
proof -
  define nw where "nw = (n + 31) div WORD_BITS"
  have nw: "nw * WORD_BITS < n + WORD_BITS" "n \<le> nw * WORD_BITS" "0 < nw" "nw \<le> 2 ^ 27" using n by (auto simp: nw_def)
  have r: "ROUNDUP_DIV n WORD_BITS = nw" using nw(4) by (simp add: ROUNDUP_DIV_def nw_def u32_def)
  show ?thesis
  proof (cases "n = nw * WORD_BITS")
    case True
    let ?b = "\<lparr>nbits = n, nwords = nw, words = replicate nw (- 1)\<rparr>"
    have "free_bits ?b = {..<n}" using True by (auto simp: free_bits_def less_mult_imp_div_less)
    then show ?thesis using True n nw r by (auto simp: bitmap_create_def bitmap_ok_def)
  next
    case False
    define ix where "ix = nw - 1"
    have ix: "ix * WORD_BITS < n" "n < nw * WORD_BITS" "nw = Suc ix" using False nw by (auto simp: ix_def)
    have d: "n div WORD_BITS = ix" using ix by (intro div_nat_eqI) auto
    define ov where "ov = n - ix * WORD_BITS"
    have ov: "0 < ov" "ov < WORD_BITS" using ix by (auto simp: ov_def)
    have "u32 (ix * WORD_BITS) = ix * WORD_BITS" using ix n by (intro u32_id) linarith
    moreover have "u32_sub n (ix * WORD_BITS) = n - ix * WORD_BITS" using ix n by (intro u32_sub_id; linarith)
    ultimately have u2: "u32_sub n (u32 (ix * WORD_BITS)) = ov" by (simp only: ov_def)
    have "nw < 2 ^ 32" using nw(4) by simp
    then have u: "u32_sub nw 1 = ix" unfolding ix_def using nw(3) by (intro u32_sub_id; linarith)
    let ?ws = "(replicate nw (- 1))[ix := mark_over (WORD_BITS - ov) (- 1)]"
    let ?b = "\<lparr>nbits = n, nwords = nw, words = ?ws\<rparr>"
    have nt: "replicate nw (- 1 :: 32 word) ! ix = - 1" using ix(3) by (intro nth_replicate) simp
    have run: "bitmap_create n True True = Some (Some ?b)"
      using n False r u u2 d ov nt by (simp add: bitmap_create_def Let_def)
    have lt: "ix < nw" using ix(3) by simp
    have "free_bits ?b = {..<n}"
    proof (rule set_eqI)
      fix i
      have sp: "i = i div WORD_BITS * WORD_BITS + i mod WORD_BITS" by simp
      show "i \<in> free_bits ?b \<longleftrightarrow> i \<in> {..<n}"
      proof (cases "i div WORD_BITS = ix")
        case True
        have "i < WORD_BITS + i div WORD_BITS * WORD_BITS" by (rule dividend_less_div_times) simp
        then have "i < nw * WORD_BITS" using ix(3) True by simp
        moreover have "bit (?ws ! ix) (i mod WORD_BITS) \<longleftrightarrow> i mod WORD_BITS < ov"
          using mark_over_ok [of "WORD_BITS - ov" "i mod WORD_BITS" "- 1"] ov lt by auto
        moreover have "i < n \<longleftrightarrow> i mod WORD_BITS < ov" using sp unfolding True ov_def by linarith
        ultimately show ?thesis using True by (simp add: free_bits_def)
      next
        case False
        then have "i < nw * WORD_BITS \<longleftrightarrow> i div WORD_BITS < ix" using ix(3) by (auto simp: div_less_iff_less_mult)
        moreover have "i < n \<longleftrightarrow> i div WORD_BITS < ix"
        proof
          assume "i < n"
          then have "i div WORD_BITS \<le> ix" using d div_le_mono [of i n WORD_BITS] by simp
          then show "i div WORD_BITS < ix" using False by simp
        next
          assume "i div WORD_BITS < ix"
          then have "i < ix * WORD_BITS" by (simp add: div_less_iff_less_mult)
          then show "i < n" using ix(1) by simp
        qed
        ultimately show ?thesis using lt False by (auto simp: free_bits_def)
      qed
    qed
    then show ?thesis using run n nw(1,2,4) by (auto simp: bitmap_ok_def)
  qed
qed

section \<open>An allocator of numbered items\<close>

locale item_allocator =
  fixes alloc :: "'s \<Rightarrow> ((int \<times> nat option) \<times> 's) option" and release :: "'s \<Rightarrow> nat \<Rightarrow> 's option"
    and ok :: "'s \<Rightarrow> bool" and avail :: "'s \<Rightarrow> nat set"
  assumes finite_avail: "ok s \<Longrightarrow> finite (avail s)"
    and alloc_empty: "ok s \<Longrightarrow> avail s = {} \<Longrightarrow> alloc s = Some ((- E_NO_MEM, None), s)"
    and alloc_least: "ok s \<Longrightarrow> avail s \<noteq> {} \<Longrightarrow>
      \<exists>s'. alloc s = Some ((0, Some (Min (avail s))), s') \<and> ok s' \<and> avail s' = avail s - {Min (avail s)}"
    and release_law: "ok s \<Longrightarrow> alloc s = Some ((0, Some i), s') \<Longrightarrow> \<exists>s''. release s' i = Some s'' \<and> ok s'' \<and> avail s'' = avail s"
begin

fun alloc_many :: "nat \<Rightarrow> 's \<Rightarrow> (nat list \<times> 's) option" where
  "alloc_many 0 s = Some ([], s)"
| "alloc_many (Suc k) s =
     (case alloc s of
        Some ((e, Some i), s') \<Rightarrow> map_option (\<lambda>(is, t). (i # is, t)) (alloc_many k s')
      | _ \<Rightarrow> None)"

lemma alloc_many_ok:
  assumes "ok s" and "k \<le> card (avail s)"
  shows "\<exists>is s'. alloc_many k s = Some (is, s') \<and> length is = k \<and> sorted is \<and> distinct is \<and>
     set is \<subseteq> avail s \<and> ok s' \<and> avail s' = avail s - set is"
  using assms
proof (induction k arbitrary: s)
  case (Suc k)
  let ?m = "Min (avail s)"
  have ne: "avail s \<noteq> {}" using Suc.prems(2) by auto
  note fin = finite_avail [OF Suc.prems(1)]
  from alloc_least [OF Suc.prems(1) ne] obtain s1 where s1: "alloc s = Some ((0, Some ?m), s1)" "ok s1" "avail s1 = avail s - {?m}"
    by blast
  have mem: "?m \<in> avail s" using fin ne by simp
  then have "k \<le> card (avail s1)" using Suc.prems(2) s1(3) fin by simp
  from Suc.IH [OF s1(2) this] obtain "is" s2 where s2: "alloc_many k s1 = Some (is, s2)" "length is = k" "sorted is"
    "distinct is" "set is \<subseteq> avail s1" "ok s2" "avail s2 = avail s1 - set is" by blast
  have "\<forall>i\<in>set is. ?m \<le> i \<and> i \<noteq> ?m" using s2(5) s1(3) fin by auto
  then show ?case using s1 s2 mem by (intro exI [of _ "?m # is"] exI [of _ s2]) auto
qed simp

end

definition bitmap_usable :: "bitmap \<Rightarrow> bool" where
  "bitmap_usable b \<longleftrightarrow> bitmap_ok b \<and> nwords b * WORD_BITS \<le> 2 ^ 32"

interpretation bm: item_allocator bitmap_alloc bitmap_free bitmap_usable free_bits
proof
  fix b assume u: "bitmap_usable b"
  show fin: "finite (free_bits b)"
    by (rule finite_subset [of _ "{..<nwords b * WORD_BITS}"]) (auto simp: free_bits_def)
  note a = bitmap_alloc_ok [of b]
  show "free_bits b = {} \<Longrightarrow> bitmap_alloc b = Some ((- E_NO_MEM, None), b)" using a u by (simp add: bitmap_usable_def)
  show "free_bits b \<noteq> {} \<Longrightarrow> \<exists>b'. bitmap_alloc b = Some ((0, Some (Min (free_bits b))), b') \<and> bitmap_usable b' \<and>
      free_bits b' = free_bits b - {Min (free_bits b)}" using a u by (auto simp: bitmap_usable_def)
  fix i b' assume al: "bitmap_alloc b = Some ((0, Some i), b')"
  then have ne: "free_bits b \<noteq> {}" using a u by (auto simp: bitmap_usable_def)
  then have i: "i = Min (free_bits b)" "bitmap_ok b'" "nwords b' = nwords b" "nbits b' = nbits b" "free_bits b' = free_bits b - {i}"
    using a u al by (auto simp: bitmap_usable_def)
  have "i \<in> free_bits b" using i(1) ne fin by simp
  moreover from this have "i < nbits b'" using u i(4) by (auto simp: bitmap_usable_def bitmap_ok_def)
  ultimately show "\<exists>b''. bitmap_free b' i = Some b'' \<and> bitmap_usable b'' \<and> free_bits b'' = free_bits b"
    using bitmap_free_ok [OF i(2), of i] i u by (auto simp: bitmap_usable_def)
qed

section \<open>The properties\<close>

text \<open>\<^verbatim>\<open>bitmap_create\<close> succeeds for every size that a 32-bit count can express, and the new bitmap has exactly
  the items below \<^verbatim>\<open>nbits\<close> free: the unused bits of the last word are marked in use.\<close>

theorem bitmap_create_all_free:
  assumes "0 < n" and "n < 2 ^ 32"
  shows "\<exists>b. bitmap_create n True True = Some (Some b) \<and> bitmap_usable b \<and> nbits b = n \<and> free_bits b = {..<n}"
  using bitmap_create_ok [OF assms] by (auto simp: bitmap_usable_def)

theorem bitmap_create_all_free_witness:
  "\<exists>b. bitmap_create 40 True True = Some (Some b) \<and> bitmap_usable b \<and> free_bits b = {..<40}"
  using bitmap_create_all_free [of 40] by auto

text \<open>Allocation, release and test on the bitmap: \<open>k\<close> allocations return \<open>k\<close> distinct free items in ascending
  order and nothing else becomes used; a full bitmap reports \<^verbatim>\<open>-E_NO_MEM\<close>; releasing an allocated item
  makes exactly it free again; releasing a free item or one out of range panics; \<^verbatim>\<open>bitmap_test\<close> tells
  whether an item is free.\<close>

theorem bitmap_alloc_free_test:
  assumes u: "bitmap_usable b"
  shows "(\<forall>k. k \<le> card (free_bits b) \<longrightarrow>
       (\<exists>is b'. bm.alloc_many k b = Some (is, b') \<and> length is = k \<and> sorted is \<and> distinct is \<and>
          set is \<subseteq> free_bits b \<and> bitmap_usable b' \<and> free_bits b' = free_bits b - set is)) \<and>
     (free_bits b = {} \<longrightarrow> bitmap_alloc b = Some ((- E_NO_MEM, None), b)) \<and>
     (\<forall>i. bitmap_test b i = (if i < nbits b then Some (i \<in> free_bits b) else None)) \<and>
     (\<forall>i. (bitmap_free b i = None) = (nbits b \<le> i \<or> i \<in> free_bits b)) \<and>
     (\<forall>i b'. bitmap_free b i = Some b' \<longrightarrow> bitmap_usable b' \<and> free_bits b' = insert i (free_bits b))"
proof -
  have ok: "bitmap_ok b" using u by (simp add: bitmap_usable_def)
  have fr: "(bitmap_free b i = None) = (nbits b \<le> i \<or> i \<in> free_bits b)"
    "bitmap_free b i = Some b' \<Longrightarrow> bitmap_usable b' \<and> free_bits b' = insert i (free_bits b)" for i b'
    using bitmap_free_ok [OF ok, of i] u by (auto simp: bitmap_usable_def split: if_splits)
  show ?thesis using bm.alloc_many_ok [OF u] bm.alloc_empty [OF u] bitmap_test_ok [OF ok] fr by auto
qed

definition sample_bitmap :: bitmap where
  "sample_bitmap = \<lparr>nbits = 6, nwords = 1, words = [0x2C]\<rparr>"

lemma sample_bitmap_free: "free_bits sample_bitmap = {2, 3, 5}"
proof -
  have "\<forall>i\<in>set [0..<32]. bit (0x2C :: 32 word) i = (i = 2 \<or> i = 3 \<or> i = 5)" by code_simp
  then have "bit (0x2C :: 32 word) i = (i = 2 \<or> i = 3 \<or> i = 5)" if "i < 32" for i using that by auto
  then show ?thesis by (auto simp: free_bits_def sample_bitmap_def)
qed

theorem bitmap_alloc_free_test_witness:
  "\<exists>is b'. bm.alloc_many 2 sample_bitmap = Some (is, b') \<and> length is = 2 \<and> set is \<subseteq> {2, 3, 5} \<and> bitmap_test sample_bitmap 2 = Some True"
proof -
  have u: "bitmap_usable sample_bitmap"
    using sample_bitmap_free by (simp add: bitmap_usable_def bitmap_ok_def) (simp add: sample_bitmap_def)
  have c: "2 \<le> card (free_bits sample_bitmap)" "2 < nbits sample_bitmap" "2 \<in> free_bits sample_bitmap"
    using sample_bitmap_free by (simp_all add: sample_bitmap_def)
  note t = bitmap_alloc_free_test [OF u]
  from t c(1) obtain "is" b' where "bm.alloc_many 2 sample_bitmap = Some (is, b')" "length is = 2"
    "set is \<subseteq> free_bits sample_bitmap" by blast
  moreover have "bitmap_test sample_bitmap 2 = Some True" using t c(2,3) by simp
  ultimately show ?thesis unfolding sample_bitmap_free by blast
qed

end
