(* ===== verification/CString.thy ===== *)
theory CString
  imports Prelude
begin

text \<open>
  The byte and string routines of \<^verbatim>\<open>libs/string.c\<close> and \<^verbatim>\<open>kern/libs/string.c\<close> on a memory of bytes.  An address is a
  natural number: an object never wraps around the address space, C leaves such an access undefined.  \<^verbatim>\<open>char\<close> is
  unsigned on this target.  A loop that runs to a terminating zero byte is a partial function, with \<open>None\<close> for not
  returning.
\<close>

type_synonym cmem = "nat \<Rightarrow> 8 word"

section \<open>Blocks of memory\<close>

primrec memset :: "cmem \<Rightarrow> nat \<Rightarrow> 8 word \<Rightarrow> nat \<Rightarrow> cmem" where
  "memset m p c 0 = m"
| "memset m p c (Suc n) = memset (m(p := c)) (Suc p) c n"

primrec memcpy :: "cmem \<Rightarrow> nat \<Rightarrow> nat \<Rightarrow> nat \<Rightarrow> cmem" where
  "memcpy m d s 0 = m"
| "memcpy m d s (Suc n) = memcpy (m(d := m s)) (Suc d) (Suc s) n"

text \<open>The backward loop of \<^verbatim>\<open>memmove\<close>; \<open>d\<close> and \<open>s\<close> point behind the bytes still to be copied.\<close>

primrec copy_down :: "cmem \<Rightarrow> nat \<Rightarrow> nat \<Rightarrow> nat \<Rightarrow> cmem" where
  "copy_down m d s 0 = m"
| "copy_down m d s (Suc n) = copy_down (m(d - 1 := m (s - 1))) (d - 1) (s - 1) n"

definition memmove :: "cmem \<Rightarrow> nat \<Rightarrow> nat \<Rightarrow> nat \<Rightarrow> cmem" where
  "memmove m dst src n =
     (if src < dst \<and> src + n > dst then copy_down m (dst + n) (src + n) n else memcpy m dst src n)"

primrec memcmp :: "cmem \<Rightarrow> nat \<Rightarrow> nat \<Rightarrow> nat \<Rightarrow> int" where
  "memcmp m a b 0 = 0"
| "memcmp m a b (Suc n) = (if m a \<noteq> m b then uint (m a) - uint (m b) else memcmp m (Suc a) (Suc b) n)"

section \<open>Strings\<close>

partial_function (option) strlen_loop :: "cmem \<Rightarrow> nat \<Rightarrow> nat \<Rightarrow> nat option" where
  "strlen_loop m s cnt = (if m s \<noteq> 0 then strlen_loop m (Suc s) (Suc cnt) else Some cnt)"

definition strlen :: "cmem \<Rightarrow> nat \<Rightarrow> nat option" where
  "strlen m s = strlen_loop m s 0"

primrec strnlen :: "cmem \<Rightarrow> nat \<Rightarrow> nat \<Rightarrow> nat" where
  "strnlen m s 0 = 0"
| "strnlen m s (Suc n) = (if m s \<noteq> 0 then Suc (strnlen m (Suc s) n) else 0)"

partial_function (option) strcpy :: "cmem \<Rightarrow> nat \<Rightarrow> nat \<Rightarrow> cmem option" where
  "strcpy m p src = (let m' = m(p := m src) in if m src \<noteq> 0 then strcpy m' (Suc p) (Suc src) else Some m')"

primrec strncpy :: "cmem \<Rightarrow> nat \<Rightarrow> nat \<Rightarrow> nat \<Rightarrow> cmem" where
  "strncpy m p src 0 = m"
| "strncpy m p src (Suc n) =
     (let m' = m(p := m src) in strncpy m' (Suc p) (if m src \<noteq> 0 then Suc src else src) n)"

definition strcat :: "cmem \<Rightarrow> nat \<Rightarrow> nat \<Rightarrow> cmem option" where
  "strcat m dst src = do { n \<leftarrow> strlen m dst; strcpy m (dst + n) src }"

partial_function (option) strcmp :: "cmem \<Rightarrow> nat \<Rightarrow> nat \<Rightarrow> int option" where
  "strcmp m a b =
     (if m a \<noteq> 0 \<and> m a = m b then strcmp m (Suc a) (Suc b) else Some (uint (m a) - uint (m b)))"

primrec strncmp :: "cmem \<Rightarrow> nat \<Rightarrow> nat \<Rightarrow> nat \<Rightarrow> int" where
  "strncmp m a b 0 = 0"
| "strncmp m a b (Suc n) =
     (if m a \<noteq> 0 \<and> m a = m b then strncmp m (Suc a) (Suc b) n else uint (m a) - uint (m b))"

partial_function (option) strchr :: "cmem \<Rightarrow> nat \<Rightarrow> 8 word \<Rightarrow> nat option option" where
  "strchr m s c =
     (if m s \<noteq> 0 then (if m s = c then Some (Some s) else strchr m (Suc s) c) else Some None)"

partial_function (option) strfind :: "cmem \<Rightarrow> nat \<Rightarrow> 8 word \<Rightarrow> nat option" where
  "strfind m s c = (if m s \<noteq> 0 \<and> m s \<noteq> c then strfind m (Suc s) c else Some s)"

text \<open>\<^verbatim>\<open>strdup\<close> and \<^verbatim>\<open>stradd\<close> with the address \<^verbatim>\<open>kmalloc\<close> returned.\<close>

definition strdup :: "nat option \<Rightarrow> cmem \<Rightarrow> nat \<Rightarrow> (nat option \<times> cmem) option" where
  "strdup r m src = do {
     len \<leftarrow> strlen m src;
     Some (case r of
             None \<Rightarrow> (None, m)
           | Some dst \<Rightarrow> (Some dst, (memcpy m dst src len)(dst + len := 0)))
   }"

definition stradd :: "nat option \<Rightarrow> cmem \<Rightarrow> nat \<Rightarrow> nat \<Rightarrow> (nat option \<times> cmem) option" where
  "stradd r m src1 src2 = do {
     len1 \<leftarrow> strlen m src1;
     len2 \<leftarrow> strlen m src2;
     Some (case r of
             None \<Rightarrow> (None, m)
           | Some dst \<Rightarrow>
               (let m = memcpy m dst src1 len1; m = memcpy m (dst + len1) src2 len2
                in (Some dst, m(dst + len1 + len2 := 0))))
   }"

section \<open>Numbers\<close>

definition byte :: "char \<Rightarrow> 8 word" where
  "byte c = of_nat (of_char c)"

partial_function (option) skip_blanks :: "cmem \<Rightarrow> nat \<Rightarrow> nat option" where
  "skip_blanks m s = (if m s = byte (CHR '' '') \<or> m s = 9 then skip_blanks m (Suc s) else Some s)"

text \<open>The digit at an address, by the three ranges the code tests.\<close>

definition digit_at :: "8 word \<Rightarrow> int option" where
  "digit_at c =
     (if byte (CHR ''0'') \<le> c \<and> c \<le> byte (CHR ''9'') then Some (uint c - uint (byte (CHR ''0'')))
      else if byte (CHR ''a'') \<le> c \<and> c \<le> byte (CHR ''z'') then Some (uint c - uint (byte (CHR ''a'')) + 10)
      else if byte (CHR ''A'') \<le> c \<and> c \<le> byte (CHR ''Z'') then Some (uint c - uint (byte (CHR ''A'')) + 10)
      else None)"

text \<open>The digits; \<^verbatim>\<open>long\<close> is 64 bits wide and wraps, as the code remarks.\<close>

partial_function (option) strtol_digits :: "cmem \<Rightarrow> nat \<Rightarrow> int \<Rightarrow> 64 word \<Rightarrow> (64 word \<times> nat) option" where
  "strtol_digits m s b val =
     (case digit_at (m s) of
        None \<Rightarrow> Some (val, s)
      | Some dig \<Rightarrow> (if dig \<ge> b then Some (val, s) else strtol_digits m (Suc s) b (val * of_int b + of_int dig)))"

text \<open>The result and the final address, which the code stores through \<^verbatim>\<open>endptr\<close>.\<close>

definition strtol :: "cmem \<Rightarrow> nat \<Rightarrow> int \<Rightarrow> (int \<times> nat) option" where
  "strtol m s b = do {
     s \<leftarrow> skip_blanks m s;
     let (s, neg) = (if m s = byte (CHR ''+'') then (Suc s, False)
                     else if m s = byte (CHR ''-'') then (Suc s, True) else (s, False));
     let (s, b) = (if (b = 0 \<or> b = 16) \<and> m s = byte (CHR ''0'') \<and> m (Suc s) = byte (CHR ''x'') then (s + 2, 16)
                   else if b = 0 \<and> m s = byte (CHR ''0'') then (Suc s, 8)
                   else if b = 0 then (s, 10) else (s, b));
     (val, e) \<leftarrow> strtol_digits m s b 0;
     Some (sint (if neg then - val else val), e)
   }"

section \<open>What the block routines do\<close>

definition moved :: "cmem \<Rightarrow> nat \<Rightarrow> nat \<Rightarrow> nat \<Rightarrow> cmem" where
  "moved m d s n = (\<lambda>a. if d \<le> a \<and> a < d + n then m (s + (a - d)) else m a)"

lemma moved_0 [simp]: "moved m d s 0 = m"
  by (rule ext) (auto simp: moved_def)

lemma byte_order: "uint (x :: 8 word) = uint y \<longleftrightarrow> x = y" "0 < uint (x :: 8 word) \<longleftrightarrow> x \<noteq> 0"
  "uint (x :: 8 word) = 0 \<longleftrightarrow> x = 0"
  using uint_ge_0 [of x] by (auto simp: word_uint_eq_iff less_le simp del: uint_ge_0)

lemma memset_eq: "memset m p c n = (\<lambda>a. if p \<le> a \<and> a < p + n then c else m a)"
  by (induction n arbitrary: m p) (auto simp: fun_eq_iff)

text \<open>The forward loop is right when it never reads what it has written.\<close>

lemma memcpy_eq:
  assumes "d \<le> s \<or> s + n \<le> d"
  shows "memcpy m d s n = moved m d s n"
  using assms
proof (induction n arbitrary: m d s)
  case (Suc n)
  then have "memcpy m d s (Suc n) = moved (m(d := m s)) (Suc d) (Suc s) n" unfolding memcpy.simps by (intro Suc.IH) linarith
  also have "\<dots> = moved m d s (Suc n)"
  proof
    fix a
    show "moved (m(d := m s)) (Suc d) (Suc s) n a = moved m d s (Suc n) a"
      using Suc.prems by (cases "a = d") (auto simp: moved_def Suc_diff_Suc)
  qed
  finally show ?case .
qed simp

lemma copy_down_eq:
  assumes "s \<le> d"
  shows "copy_down m (d + n) (s + n) n = moved m d s n"
  using assms
proof (induction n arbitrary: m)
  case (Suc n)
  then have "copy_down m (d + Suc n) (s + Suc n) (Suc n) = moved (m(d + n := m (s + n))) d s n" by simp
  also have "\<dots> = moved m d s (Suc n)" using Suc.prems by (auto simp: moved_def fun_eq_iff)
  finally show ?case .
qed simp

lemma memcmp_zero: "memcmp m a b n = 0 \<longleftrightarrow> (\<forall>i<n. m (a + i) = m (b + i))"
proof (induction n arbitrary: a b)
  case (Suc n)
  have "(\<forall>i<Suc n. m (a + i) = m (b + i)) \<longleftrightarrow> m a = m b \<and> (\<forall>i<n. m (Suc a + i) = m (Suc b + i))"
    by (auto simp: less_Suc_eq_0_disj)
  then show ?case using Suc by (simp add: byte_order)
qed simp

section \<open>Strings in memory\<close>

text \<open>\<open>cstr m s xs\<close>: the string at \<open>s\<close> consists of the non-zero bytes \<open>xs\<close>.\<close>

fun cstr :: "cmem \<Rightarrow> nat \<Rightarrow> 8 word list \<Rightarrow> bool" where
  "cstr m s [] = (m s = 0)"
| "cstr m s (x # xs) = (m s = x \<and> x \<noteq> 0 \<and> cstr m (Suc s) xs)"

lemma cstr_cong: "(\<And>a. s \<le> a \<Longrightarrow> a \<le> s + length xs \<Longrightarrow> m' a = m a) \<Longrightarrow> cstr m' s xs = cstr m s xs"
  by (induction xs arbitrary: s) auto

lemma cstr_nth: "cstr m s xs \<Longrightarrow> i < length xs \<Longrightarrow> m (s + i) = xs ! i \<and> m (s + i) \<noteq> 0"
  by (induction xs arbitrary: s i) (force simp: nth_Cons split: nat.splits)+

lemma cstr_end: "cstr m s xs \<Longrightarrow> m (s + length xs) = 0"
  by (induction xs arbitrary: s) force+

lemma cstr_append:
  "cstr m s (xs @ ys) \<longleftrightarrow> (\<forall>i<length xs. m (s + i) = xs ! i \<and> xs ! i \<noteq> 0) \<and> cstr m (s + length xs) ys"
proof (induction xs arbitrary: s)
  case (Cons x xs)
  have "(\<forall>i<length (x # xs). m (s + i) = (x # xs) ! i \<and> (x # xs) ! i \<noteq> 0) \<longleftrightarrow>
      m s = x \<and> x \<noteq> 0 \<and> (\<forall>i<length xs. m (Suc s + i) = xs ! i \<and> xs ! i \<noteq> 0)"
    by (auto simp: less_Suc_eq_0_disj)
  then show ?case using Cons [of "Suc s"] by simp
qed simp

lemma cstr_iff: "cstr m s xs \<longleftrightarrow> (\<forall>i<length xs. m (s + i) = xs ! i \<and> xs ! i \<noteq> 0) \<and> m (s + length xs) = 0"
  using cstr_append [of m s xs "[]"] by simp

lemma strlen_ok:
  assumes "cstr m s xs"
  shows "strlen m s = Some (length xs)"
proof -
  have "strlen_loop m s n = Some (n + length xs)" for n
    using assms by (induction xs arbitrary: s n) (auto simp: strlen_loop.simps)
  then show ?thesis by (simp add: strlen_def)
qed

lemma strnlen_ok: "cstr m s xs \<Longrightarrow> strnlen m s n = min n (length xs)"
  by (induction n arbitrary: s xs; case_tac xs) auto

lemma strnlen_le: "strnlen m s n \<le> n"
  by (induction n arbitrary: s) auto

lemma strnlen_bytes: "i < strnlen m s n \<Longrightarrow> m (s + i) \<noteq> 0"
proof (induction n arbitrary: s i)
  case (Suc n)
  show ?case
  proof (cases i)
    case 0
    then show ?thesis using Suc.prems by (auto split: if_splits)
  next
    case (Suc j)
    then show ?thesis using Suc.prems Suc.IH [of j "Suc s"] by (auto split: if_splits)
  qed
qed simp

lemma strnlen_stop: "strnlen m s n < n \<Longrightarrow> m (s + strnlen m s n) = 0"
  by (induction n arbitrary: s) (force split: if_splits)+

text \<open>\<^verbatim>\<open>strcmp\<close> compares as lists of unsigned bytes.\<close>

lemma strcmp_ok:
  assumes "cstr m a xs" and "cstr m b ys"
  shows "\<exists>r. strcmp m a b = Some r \<and> (r = 0 \<longleftrightarrow> xs = ys) \<and> (r < 0 \<longleftrightarrow> (xs, ys) \<in> lexord {(x, y). x < y})"
  using assms
proof (induction xs arbitrary: a b ys)
  case Nil
  then show ?case by (cases ys) (auto simp: strcmp.simps byte_order)
next
  case (Cons x xs)
  show ?case
  proof (cases ys)
    case Nil
    then show ?thesis using Cons.prems by (auto simp: strcmp.simps byte_order)
  next
    case (Cons y ys')
    then show ?thesis using Cons.prems Cons.IH [of "Suc a" "Suc b" ys']
      by (cases "x = y") (auto simp: strcmp.simps [of m a b] word_less_def byte_order)
  qed
qed

lemma strcpy_ok:
  assumes "cstr m s xs" and "d + length xs < s \<or> s + length xs < d"
  shows "strcpy m d s = Some (moved m d s (Suc (length xs)))"
proof -
  have "strcpy m d s = Some (memcpy m d s (Suc (length xs)))"
    using assms
  proof (induction xs arbitrary: m d s)
    case Nil
    then show ?case by (simp add: strcpy.simps fun_upd_def)
  next
    case (Cons x xs)
    have "cstr (m(d := m s)) (Suc s) xs" using Cons.prems by (subst cstr_cong [of "Suc s" xs "m(d := m s)" m]) auto
    from Cons.IH [OF this, of "Suc d"] have "strcpy (m(d := m s)) (Suc d) (Suc s) = Some (memcpy (m(d := m s)) (Suc d) (Suc s) (Suc (length xs)))"
      using Cons.prems(2) by (simp only: length_Cons) linarith
    then show ?case using Cons.prems(1) by (subst strcpy.simps) (simp del: fun_upd_apply)
  qed
  then show ?thesis using assms(2) memcpy_eq [of d s "Suc (length xs)" m] by auto
qed

section \<open>The properties\<close>

lemma memmove_moved: "memmove m dst src n = moved m dst src n"
  using copy_down_eq [of src dst m n] memcpy_eq [of dst src n m] by (auto simp: memmove_def)

text \<open>C18: \<^verbatim>\<open>memmove\<close> is the simultaneous copy for every position of source and target, overlapping or not: each of the \<open>n\<close>
  target bytes gets the byte the source had before, and nothing else changes; \<^verbatim>\<open>memcpy\<close> agrees with it exactly where
  its target does not start inside the source.\<close>

theorem memmove_exact:
  "memmove m dst src n = (\<lambda>a. if dst \<le> a \<and> a < dst + n then m (src + (a - dst)) else m a) \<and>
   (dst \<le> src \<or> src + n \<le> dst \<longrightarrow> memcpy m dst src n = memmove m dst src n)"
  using memmove_moved memcpy_eq [of dst src n m] by (auto simp: moved_def)

theorem memmove_exact_witness:
  "memmove (\<lambda>a. of_nat a) 6 5 4 8 = (7 :: 8 word) \<and> memcpy (\<lambda>a. of_nat a) 5 6 4 = memmove (\<lambda>a. of_nat a :: 8 word) 5 6 4"
  using memmove_exact [of "\<lambda>a. of_nat a" 6 5 4] memmove_exact [of "\<lambda>a. of_nat a" 5 6 4] by simp

end
