(* ===== verification/Printf.thy ===== *)
theory Printf
  imports CString
begin

text \<open>
  Formatted output, \<^verbatim>\<open>libs/printfmt.c\<close>.  \<^verbatim>\<open>vprintfmt\<close> is given by the sequence of characters it hands to \<^verbatim>\<open>putch\<close>; the
  format is a list of bytes read by position (a position at or behind its end reads the terminating zero), the
  arguments are the 64-bit slots of the argument area and \<^verbatim>\<open>%s\<close> reads memory.  A string argument that overlaps the output
  buffer is excluded, as the C library does.  \<open>None\<close> stands for not returning and for running out of arguments.
\<close>

abbreviation (input) MAXERROR :: int where "MAXERROR \<equiv> 24"

definition bytes :: "string \<Rightarrow> 8 word list" where
  "bytes s = map byte s"

definition error_string :: "int \<Rightarrow> string option" where
  "error_string e = map_of
     [(1, ''unspecified error''), (2, ''bad process''), (3, ''invalid parameter''), (4, ''out of memory''),
      (5, ''out of processes''), (6, ''segmentation fault''), (8, ''invalid elf file''), (9, ''process is killed''),
      (10, ''panic failure''), (13, ''no such device''), (14, ''device not available''), (15, ''device/file is busy''),
      (16, ''no such file or directory''), (17, ''is a directory''), (18, ''not a directory''), (19, ''cross device link''),
      (20, ''unimplemented feature''), (21, ''illegal seek''), (22, ''too many files are open''),
      (23, ''file or directory already exists''), (24, ''directory is not empty'')] e"

section \<open>Numbers\<close>

definition digit_char :: "nat \<Rightarrow> 8 word" where
  "digit_char d = byte (''0123456789abcdef'' ! d)"

definition pad :: "int \<Rightarrow> 8 word \<Rightarrow> 8 word list" where
  "pad n c = replicate (nat n) c"

partial_function (option) printnum :: "nat \<Rightarrow> nat \<Rightarrow> int \<Rightarrow> 8 word \<Rightarrow> 8 word list option" where
  "printnum num b width padc = do {
     let result = num div b;
     let d = num mod b;
     pre \<leftarrow> (if num \<ge> b then printnum result b (width - 1) padc else Some (pad (width - 1) padc));
     Some (pre @ [digit_char d])
   }"

section \<open>Arguments\<close>

type_synonym va_list = "64 word list"

definition va_int :: "va_list \<Rightarrow> (int \<times> va_list) option" where
  "va_int ap = (case ap of [] \<Rightarrow> None | w # ap \<Rightarrow> Some (sint (ucast w :: 32 word), ap))"

text \<open>\<^verbatim>\<open>long\<close> and \<^verbatim>\<open>long long\<close> have the same width on this target.\<close>

definition getuint :: "va_list \<Rightarrow> int \<Rightarrow> (nat \<times> va_list) option" where
  "getuint ap lflag =
     (case ap of [] \<Rightarrow> None | w # ap \<Rightarrow> Some (if lflag \<noteq> 0 then unat w else unat (ucast w :: 32 word), ap))"

definition getint :: "va_list \<Rightarrow> int \<Rightarrow> (int \<times> va_list) option" where
  "getint ap lflag =
     (case ap of [] \<Rightarrow> None | w # ap \<Rightarrow> Some (if lflag \<noteq> 0 then sint w else sint (ucast w :: 32 word), ap))"

definition s32 :: "int \<Rightarrow> int" where
  "s32 x = sint (word_of_int x :: 32 word)"

section \<open>Strings\<close>

text \<open>The loop over the characters of \<^verbatim>\<open>%s\<close>; \<open>rd\<close> reads the string by position.  It returns what is printed and the rest of
  the width.\<close>

partial_function (option) put_chars :: "(nat \<Rightarrow> 8 word) \<Rightarrow> nat \<Rightarrow> bool \<Rightarrow> int \<Rightarrow> int \<Rightarrow> (8 word list \<times> int) option" where
  "put_chars rd i alt precision width =
     (if rd i \<noteq> 0 \<and> (precision < 0 \<or> precision - 1 \<ge> 0)
      then do {
        let ch = (if alt \<and> (rd i < byte (CHR '' '') \<or> rd i > byte (CHR ''~'')) then byte (CHR ''?'') else rd i);
        (out, w) \<leftarrow> put_chars rd (Suc i) alt (if precision < 0 then precision else precision - 1) (width - 1);
        Some (ch # out, w)
      }
      else Some ([], width))"

definition put_string :: "(nat \<Rightarrow> 8 word) \<Rightarrow> bool \<Rightarrow> int \<Rightarrow> int \<Rightarrow> 8 word \<Rightarrow> 8 word list option" where
  "put_string rd alt precision width padc = do {
     let left = width > 0 \<and> padc \<noteq> byte (CHR ''-'');
     let n = (if left then s32 (width - int (strnlen rd 0 (nat (precision mod 2 ^ 64)))) else width);
     let pre = (if left then pad n padc else []);
     let width = (if left then min n 0 else n);
     (out, width) \<leftarrow> put_chars rd 0 alt precision width;
     Some (pre @ out @ pad width (byte (CHR '' '')))
   }"

text \<open>A constant string, read by position.\<close>

definition lit :: "8 word list \<Rightarrow> nat \<Rightarrow> 8 word" where
  "lit f i = (if i < length f then f ! i else 0)"

section \<open>The format\<close>

text \<open>The number behind a digit: the position of the first character that is none, and the value.\<close>

partial_function (option) read_width :: "8 word list \<Rightarrow> nat \<Rightarrow> int \<Rightarrow> 8 word \<Rightarrow> (int \<times> nat) option" where
  "read_width f i precision ch = do {
     let precision = s32 (precision * 10 + uint ch - uint (byte (CHR ''0'')));
     let ch = lit f i;
     (if ch < byte (CHR ''0'') \<or> ch > byte (CHR ''9'') then Some (precision, i) else read_width f (Suc i) precision ch)
   }"

text \<open>The back-up of an unknown escape to its percent sign.\<close>

fun rewind :: "8 word list \<Rightarrow> nat \<Rightarrow> nat" where
  "rewind f 0 = 0"
| "rewind f (Suc i) = (if lit f i \<noteq> byte (CHR ''%'') then rewind f i else Suc i)"

text \<open>The state of an escape between two rounds of \<^verbatim>\<open>reswitch\<close>.\<close>

record escape =
  padc :: "8 word"
  width :: int
  precision :: int
  lflag :: int
  altflag :: bool

definition fresh_escape :: escape where
  "fresh_escape = \<lparr>padc = byte (CHR '' ''), width = - 1, precision = - 1, lflag = 0, altflag = False\<rparr>"

definition process_precision :: "escape \<Rightarrow> escape" where
  "process_precision x = (if width x < 0 then x\<lparr>width := precision x, precision := - 1\<rparr> else x)"

text \<open>The conversions that print a number.\<close>

definition put_number :: "escape \<Rightarrow> 8 word list \<Rightarrow> nat \<Rightarrow> nat \<Rightarrow> 8 word list option" where
  "put_number x pre num b = map_option (\<lambda>ds. pre @ ds) (printnum num b (width x) (padc x))"

text \<open>A conversion character: what is printed and the arguments left; \<open>None\<close> inside \<open>Some\<close> when it is none of them.
  \<^verbatim>\<open>%e\<close> calls \<^verbatim>\<open>printfmt\<close> with a constant format, of which the plain text and the one escape are written out.\<close>

definition convert :: "cmem \<Rightarrow> escape \<Rightarrow> 8 word \<Rightarrow> va_list \<Rightarrow> (8 word list \<times> va_list) option option" where
  "convert m x ch ap =
     (if ch = byte (CHR ''c'') then do { (v, ap) \<leftarrow> va_int ap; Some (Some ([word_of_int v], ap)) }
      else if ch = byte (CHR ''e'') then do {
        (err, ap) \<leftarrow> va_int ap;
        let err = (if err < 0 then s32 (- err) else err);
        out \<leftarrow> (case (if err > MAXERROR then None else error_string err) of
                  None \<Rightarrow> put_number fresh_escape (bytes ''error '' @ (if err < 0 then [byte (CHR ''-'')] else [])) (nat \<bar>err\<bar>) 10
                | Some p \<Rightarrow> put_string (lit (bytes p)) False (- 1) (- 1) (byte (CHR '' '')));
        Some (Some (out, ap))
      }
      else if ch = byte (CHR ''s'') then do {
        (p, ap) \<leftarrow> getuint ap 1;
        out \<leftarrow> put_string (if p = 0 then lit (bytes ''(null)'') else (\<lambda>i. m (p + i))) (altflag x) (precision x) (width x) (padc x);
        Some (Some (out, ap))
      }
      else if ch = byte (CHR ''d'') then do {
        (v, ap) \<leftarrow> getint ap (lflag x);
        out \<leftarrow> put_number x (if v < 0 then [byte (CHR ''-'')] else []) (nat \<bar>v\<bar>) 10;
        Some (Some (out, ap))
      }
      else if ch = byte (CHR ''u'') then do { (v, ap) \<leftarrow> getuint ap (lflag x); out \<leftarrow> put_number x [] v 10; Some (Some (out, ap)) }
      else if ch = byte (CHR ''o'') then do { (v, ap) \<leftarrow> getuint ap (lflag x); out \<leftarrow> put_number x [] v 8; Some (Some (out, ap)) }
      else if ch = byte (CHR ''p'') then do {
        (v, ap) \<leftarrow> getuint ap 1;
        out \<leftarrow> put_number x (bytes ''0x'') v 16;
        Some (Some (out, ap))
      }
      else if ch = byte (CHR ''x'') then do { (v, ap) \<leftarrow> getuint ap (lflag x); out \<leftarrow> put_number x [] v 16; Some (Some (out, ap)) }
      else if ch = byte (CHR ''%'') then Some (Some ([ch], ap))
      else Some None)"

text \<open>One round of the two nested loops: \<open>None\<close> is the scan for a percent sign, \<open>Some x\<close> the label \<^verbatim>\<open>reswitch\<close>.  The result is
  what the round prints and how it goes on, \<open>None\<close> for the return.\<close>

type_synonym fmt_state = "escape option \<times> nat \<times> va_list"

definition scan_step :: "8 word list \<Rightarrow> nat \<Rightarrow> va_list \<Rightarrow> 8 word list \<times> fmt_state option" where
  "scan_step f i ap =
     (let ch = lit f i in
      if ch = byte (CHR ''%'') then ([], Some (Some fresh_escape, Suc i, ap))
      else if ch = 0 then ([], None)
      else ([ch], Some (None, Suc i, ap)))"

definition escape_step :: "cmem \<Rightarrow> 8 word list \<Rightarrow> escape \<Rightarrow> nat \<Rightarrow> va_list \<Rightarrow> (8 word list \<times> fmt_state option) option" where
  "escape_step m f x i ap =
     (let ch = lit f i; again = (\<lambda>x i ap. Some ([], Some (Some x, i, ap))) in
      if ch = byte (CHR ''-'') then again (x\<lparr>padc := byte (CHR ''-'')\<rparr>) (Suc i) ap
      else if ch = byte (CHR ''0'') then again (x\<lparr>padc := byte (CHR ''0'')\<rparr>) (Suc i) ap
      else if byte (CHR ''1'') \<le> ch \<and> ch \<le> byte (CHR ''9'') then
        do { (p, i) \<leftarrow> read_width f (Suc i) 0 ch; again (process_precision (x\<lparr>precision := p\<rparr>)) i ap }
      else if ch = byte (CHR ''*'') then
        do { (p, ap) \<leftarrow> va_int ap; again (process_precision (x\<lparr>precision := p\<rparr>)) (Suc i) ap }
      else if ch = byte (CHR ''.'') then again (if width x < 0 then x\<lparr>width := 0\<rparr> else x) (Suc i) ap
      else if ch = byte (CHR ''#'') then again (x\<lparr>altflag := True\<rparr>) (Suc i) ap
      else if ch = byte (CHR ''l'') then again (x\<lparr>lflag := lflag x + 1\<rparr>) (Suc i) ap
      else do {
        r \<leftarrow> convert m x ch ap;
        Some (case r of
                Some (out, ap) \<Rightarrow> (out, Some (None, Suc i, ap))
              | None \<Rightarrow> ([byte (CHR ''%'')], Some (None, rewind f i, ap)))
      })"

definition format_step :: "cmem \<Rightarrow> 8 word list \<Rightarrow> fmt_state \<Rightarrow> (8 word list \<times> fmt_state option) option" where
  "format_step m f st =
     (case st of (None, i, ap) \<Rightarrow> Some (scan_step f i ap) | (Some x, i, ap) \<Rightarrow> escape_step m f x i ap)"

partial_function (option) format_loop :: "cmem \<Rightarrow> 8 word list \<Rightarrow> fmt_state \<Rightarrow> 8 word list option" where
  "format_loop m f st = do {
     r \<leftarrow> format_step m f st;
     (case snd r of
        None \<Rightarrow> Some (fst r)
      | Some st \<Rightarrow> do { rest \<leftarrow> format_loop m f st; Some (fst r @ rest) })
   }"

definition vprintfmt :: "cmem \<Rightarrow> 8 word list \<Rightarrow> va_list \<Rightarrow> 8 word list option" where
  "vprintfmt m f ap = format_loop m f (None, 0, ap)"

section \<open>Printing into a buffer\<close>

record sprintbuf =
  buf :: nat
  ebuf :: nat
  cnt :: int

definition sprintputch :: "8 word \<Rightarrow> sprintbuf \<times> cmem \<Rightarrow> sprintbuf \<times> cmem" where
  "sprintputch ch bm =
     (case bm of (b, m) \<Rightarrow>
        let b = b\<lparr>cnt := cnt b + 1\<rparr> in
        if buf b < ebuf b then (b\<lparr>buf := buf b + 1\<rparr>, m(buf b := ch)) else (b, m))"

definition vsnprintf :: "nat \<Rightarrow> nat \<Rightarrow> 8 word list \<Rightarrow> va_list \<Rightarrow> cmem \<Rightarrow> (int \<times> cmem) option" where
  "vsnprintf str sz f ap m =
     (if str = 0 \<or> sz = 0 then Some (- E_INVAL, m)
      else do {
        out \<leftarrow> vprintfmt m f ap;
        let (b, m) = fold sprintputch out (\<lparr>buf = str, ebuf = str + sz - 1, cnt = 0\<rparr>, m);
        Some (cnt b, m(buf b := 0))
      })"

section \<open>Numbers are printed in positional notation\<close>

function digits :: "nat \<Rightarrow> nat \<Rightarrow> nat list" where
  "digits b n = (if n < b \<or> b < 2 then [n] else digits b (n div b) @ [n mod b])"
  by pat_completeness auto
termination
  by (relation "measure snd") auto

declare digits.simps [simp del]

definition digit_text :: "nat \<Rightarrow> nat \<Rightarrow> 8 word list" where
  "digit_text b n = map digit_char (digits b n)"

lemma printnum_exact:
  assumes "2 \<le> b"
  shows "printnum n b w c = Some (pad (w - int (length (digits b n))) c @ digit_text b n)"
  using assms
proof (induction b n arbitrary: w rule: digits.induct)
  case (1 b n)
  show ?case
  proof (cases "n < b")
    case True
    then show ?thesis by (subst printnum.simps) (simp add: digits.simps [of b n] digit_text_def)
  next
    case False
    then have "digits b n = digits b (n div b) @ [n mod b]" using "1.prems" by (simp add: digits.simps [of b n])
    then show ?thesis using False "1.IH" [of "w - 1"] "1.prems"
      by (subst printnum.simps) (simp add: digit_text_def algebra_simps)
  qed
qed

lemma digits_less: "2 \<le> b \<Longrightarrow> d \<in> set (digits b n) \<Longrightarrow> d < b"
proof (induction b n rule: digits.induct)
  case (1 b n)
  then show ?case by (cases "n < b") (auto simp: digits.simps [of b n])
qed

lemma digits_value: "2 \<le> b \<Longrightarrow> foldl (\<lambda>a d. a * b + d) 0 (digits b n) = n"
proof (induction b n rule: digits.induct)
  case (1 b n)
  then show ?case by (subst digits.simps) (auto simp: not_less)
qed

lemma digits_nonempty: "digits b n \<noteq> []"
  by (subst digits.simps) simp

section \<open>Reading a printed number back\<close>

lemma digit_bytes:
  "byte (CHR ''0'') = 48" "byte (CHR ''9'') = 57" "byte (CHR ''a'') = 97" "byte (CHR ''z'') = 122" "byte (CHR ''A'') = 65"
  "byte (CHR ''Z'') = 90" "byte (CHR '' '') = 32" "byte (CHR ''+'') = 43" "byte (CHR ''-'') = 45" "byte (CHR ''x'') = 120"
  by (simp_all add: byte_def)

lemma digit_char_at:
  assumes "d < 16"
  shows "digit_at (digit_char d) = Some (int d)" "digit_char d \<noteq> 0" "digit_char d \<noteq> byte (CHR ''x'')"
    "digit_char d \<noteq> byte (CHR '' '')" "digit_char d \<noteq> 9" "digit_char d \<noteq> byte (CHR ''+'')" "digit_char d \<noteq> byte (CHR ''-'')"
proof -
  have "d = 0 \<or> d = 1 \<or> d = 2 \<or> d = 3 \<or> d = 4 \<or> d = 5 \<or> d = 6 \<or> d = 7 \<or> d = 8 \<or> d = 9 \<or> d = 10 \<or> d = 11 \<or> d = 12 \<or> d = 13 \<or> d = 14 \<or> d = 15"
    using assms by presburger
  then have "digit_at (digit_char d) = Some (int d) \<and> digit_char d \<noteq> 0 \<and> digit_char d \<noteq> byte (CHR ''x'') \<and>
      digit_char d \<noteq> byte (CHR '' '') \<and> digit_char d \<noteq> 9 \<and> digit_char d \<noteq> byte (CHR ''+'') \<and> digit_char d \<noteq> byte (CHR ''-'')"
    by (elim disjE) (simp_all add: digit_at_def digit_char_def byte_def)
  then show "digit_at (digit_char d) = Some (int d)" "digit_char d \<noteq> 0" "digit_char d \<noteq> byte (CHR ''x'')"
    "digit_char d \<noteq> byte (CHR '' '')" "digit_char d \<noteq> 9" "digit_char d \<noteq> byte (CHR ''+'')" "digit_char d \<noteq> byte (CHR ''-'')"
    by blast+
qed

lemma strtol_digits_ok:
  assumes "cstr m s (map digit_char ds)" and "\<forall>d\<in>set ds. d < b" and "b \<le> 16"
  shows "strtol_digits m s (int b) (of_nat a) = Some (of_nat (foldl (\<lambda>a d. a * b + d) a ds), s + length ds)"
  using assms
proof (induction ds arbitrary: s a)
  case Nil
  then show ?case by (subst strtol_digits.simps) (simp add: digit_at_def digit_bytes)
next
  case (Cons d ds)
  then have "digit_at (m s) = Some (int d)" "d < b" using digit_char_at(1) [of d] by auto
  moreover have "(of_nat a * of_int (int b) + of_int (int d) :: 64 word) = of_nat (a * b + d)" by simp
  ultimately show ?case using Cons by (subst strtol_digits.simps) (simp del: of_nat_add of_nat_mult)
qed

lemma skip_blanks_ok:
  assumes "\<forall>i<n. m (s + i) = byte (CHR '' '')" and "m (s + n) \<noteq> byte (CHR '' '')" and "m (s + n) \<noteq> 9"
  shows "skip_blanks m s = Some (s + n)"
  using assms
proof (induction n arbitrary: s)
  case 0
  then show ?case by (subst skip_blanks.simps) simp
next
  case (Suc n)
  from Suc.prems(1) have "m s = byte (CHR '' '')" by (metis add_0_right zero_less_Suc)
  moreover have "\<forall>i<n. m (Suc s + i) = byte (CHR '' '')" using Suc.prems(1) by auto
  ultimately show ?case using Suc.IH [of "Suc s"] Suc.prems(2,3) by (subst skip_blanks.simps) simp
qed

lemma sint_small:
  assumes "n < 2 ^ 63"
  shows "sint (of_nat n :: 64 word) = int n"
proof -
  have "sint (word_of_int (int n) :: 64 word) = int n" unfolding int_word_sint using assms by simp
  then show ?thesis by simp
qed

text \<open>After blanks, a run of digits is read as its value.\<close>

lemma strtol_run:
  assumes str: "cstr m s (replicate k (byte (CHR '' '')) @ map digit_char ds)" and ds: "ds \<noteq> []" "\<forall>d\<in>set ds. d < b" "b \<le> 16" "0 < b"
    and v: "foldl (\<lambda>a d. a * b + d) 0 ds < 2 ^ 63"
  shows "strtol m s (int b) = Some (int (foldl (\<lambda>a d. a * b + d) 0 ds), s + k + length ds)"
proof -
  have at: "cstr m (s + k) (map digit_char ds)" "\<forall>i<k. m (s + i) = byte (CHR '' '')"
    using str by (auto simp: cstr_append)
  obtain d es where d: "ds = d # es" using ds(1) by (cases ds) auto
  have d16: "d < 16" using ds(2,3) d by auto
  have first: "m (s + k) = digit_char d" using at(1) d by simp
  have second: "m (Suc (s + k)) \<noteq> byte (CHR ''x'')"
  proof (cases es)
    case Nil
    then show ?thesis using at(1) d by (simp add: digit_bytes)
  next
    case (Cons e es')
    then show ?thesis using at(1) d ds(2,3) digit_char_at(3) [of e] by auto
  qed
  have "skip_blanks m s = Some (s + k)"
    by (rule skip_blanks_ok [OF at(2)]) (use first digit_char_at [OF d16] in simp_all)
  moreover have "sint (of_nat (foldl (\<lambda>a d. a * b + d) 0 ds) :: 64 word) = int (foldl (\<lambda>a d. a * b + d) 0 ds)"
    using v by (rule sint_small)
  ultimately show ?thesis
    using strtol_digits_ok [OF at(1) ds(2,3), of 0] first second digit_char_at [OF d16] ds(4)
    by (simp add: strtol_def)
qed

section \<open>Printing into a buffer stays inside it\<close>

lemma sprintputch_simps:
  "p < e \<Longrightarrow> sprintputch ch (\<lparr>buf = p, ebuf = e, cnt = c\<rparr>, m) = (\<lparr>buf = p + 1, ebuf = e, cnt = c + 1\<rparr>, m(p := ch))"
  "\<not> p < e \<Longrightarrow> sprintputch ch (\<lparr>buf = p, ebuf = e, cnt = c\<rparr>, m) = (\<lparr>buf = p, ebuf = e, cnt = c + 1\<rparr>, m)"
  by (simp_all add: sprintputch_def)

lemma sprintput_fold:
  assumes "fold sprintputch out (\<lparr>buf = p, ebuf = e, cnt = c\<rparr>, m) = (b, m')" and "p \<le> e"
  shows "buf b = min e (p + length out) \<and> cnt b = c + int (length out) \<and>
     m' = (\<lambda>a. if p \<le> a \<and> a < min e (p + length out) then out ! (a - p) else m a)"
  using assms
proof (induction out arbitrary: p c m)
  case Nil
  then show ?case by (auto simp: fun_eq_iff)
next
  case (Cons ch out)
  show ?case
  proof (cases "p < e")
    case True
    then have "fold sprintputch out (\<lparr>buf = p + 1, ebuf = e, cnt = c + 1\<rparr>, m(p := ch)) = (b, m')"
      using Cons.prems(1) by (simp add: sprintputch_simps)
    from Cons.IH [OF this] True show ?thesis by (auto simp: fun_eq_iff nth_Cons' Suc_diff_Suc)
  next
    case False
    then have "fold sprintputch out (\<lparr>buf = p, ebuf = e, cnt = c + 1\<rparr>, m) = (b, m')"
      using Cons.prems(1) by (simp add: sprintputch_simps)
    from Cons.IH [OF this Cons.prems(2)] False Cons.prems(2) show ?thesis by (auto simp: fun_eq_iff)
  qed
qed

section \<open>The properties\<close>

text \<open>C16: Reading back a printed number.  In base 8, 10 or 16, padded with blanks or zeros to any width, \<^verbatim>\<open>printnum\<close> terminates
  and \<^verbatim>\<open>strtol\<close> of the text it prints returns the number and stops at the end of the text.\<close>

theorem strtol_printnum:
  assumes b: "b \<in> {8, 10, 16}" and n: "n < 2 ^ 63" and c: "c \<in> {byte (CHR '' ''), byte (CHR ''0'')}"
  shows "\<exists>out. printnum n b w c = Some out \<and> int (length out) = max w (int (length (digits b n))) \<and>
     (\<forall>m s. cstr m s out \<longrightarrow> strtol m s (int b) = Some (int n, s + length out))"
proof -
  let ?k = "nat (w - int (length (digits b n)))"
  have b2: "2 \<le> b" "b \<le> 16" "0 < b" using b by auto
  have less: "\<forall>d\<in>set (digits b n). d < b" using digits_less [OF b2(1)] by blast
  have len: "int (length (pad (w - int (length (digits b n))) c @ digit_text b n)) = max w (int (length (digits b n)))"
    by (simp add: pad_def digit_text_def max_def)
  have "strtol m s (int b) = Some (int n, s + length (pad (w - int (length (digits b n))) c @ digit_text b n))"
    if str: "cstr m s (pad (w - int (length (digits b n))) c @ digit_text b n)" for m s
  proof (cases "c = byte (CHR '' '')")
    case True
    then show ?thesis
      using strtol_run [of m s ?k "digits b n" b] str less b2 digits_nonempty [of b n] digits_value [OF b2(1), of n] n
      by (simp add: pad_def digit_text_def)
  next
    case False
    then have c0: "c = digit_char 0" using c by (simp add: digit_char_def)
    have "\<forall>d\<in>set (replicate ?k 0 @ digits b n). d < b" using less b2(3) by auto
    moreover have z: "foldl (\<lambda>a d. a * b + d) 0 (replicate j 0) = 0" for j by (induction j) auto
    ultimately show ?thesis
      using strtol_run [of m s 0 "replicate ?k 0 @ digits b n" b] str less b2 digits_nonempty [of b n] digits_value [OF b2(1), of n] n z
      by (simp add: pad_def digit_text_def c0)
  qed
  then show ?thesis using printnum_exact [OF b2(1), of n w c] len by blast
qed

theorem strtol_printnum_witness:
  "\<exists>out. printnum 255 16 5 (byte (CHR ''0'')) = Some out \<and> length out = 5 \<and> (\<forall>m s. cstr m s out \<longrightarrow> strtol m s 16 = Some (255, s + 5))"
proof -
  have "length (digits 16 255) = 2" by (simp add: digits.simps)
  then show ?thesis using strtol_printnum [of 16 255 "byte (CHR ''0'')" 5] by auto
qed



end
