(* ===== verification/Vmm.thy ===== *)
theory Vmm
  imports CString
begin

text \<open>
  Virtual memory areas, \<^verbatim>\<open>kern/mm/vmm.c\<close>.  An \<^verbatim>\<open>mm_struct\<close> keeps its areas in a list sorted by address; the list is given
  here in the order of its links (\<^verbatim>\<open>KList\<close> verifies \<^verbatim>\<open>list.h\<close> itself).  Addresses and sizes are 64-bit unsigned numbers, with
  the wrap-around of every addition written out by \<open>u64\<close>.  Whether \<^verbatim>\<open>kmalloc\<close> has memory is an argument.
\<close>

unbundle bit_operations_syntax

abbreviation (input) PGSIZE :: nat where "PGSIZE \<equiv> 4096"
abbreviation (input) USERBASE :: nat where "USERBASE \<equiv> 0x00200000"
abbreviation (input) USERTOP :: nat where "USERTOP \<equiv> 0x80000000"
abbreviation (input) KERNBASE :: nat where "KERNBASE \<equiv> 0xFFFFFFFFC0200000"
abbreviation (input) KERNTOP :: nat where "KERNTOP \<equiv> 0xFFFFFFFFC8000000"
abbreviation (input) VM_READ :: "32 word" where "VM_READ \<equiv> 1"
abbreviation (input) VM_WRITE :: "32 word" where "VM_WRITE \<equiv> 2"
abbreviation (input) VM_EXEC :: "32 word" where "VM_EXEC \<equiv> 4"
abbreviation (input) VM_STACK :: "32 word" where "VM_STACK \<equiv> 8"

definition ROUNDDOWN :: "nat \<Rightarrow> nat \<Rightarrow> nat" where
  "ROUNDDOWN a n = a - a mod n"

definition ROUNDUP :: "nat \<Rightarrow> nat \<Rightarrow> nat" where
  "ROUNDUP a n = ROUNDDOWN (u64 (a + n - 1)) n"

definition USER_ACCESS :: "nat \<Rightarrow> nat \<Rightarrow> bool" where
  "USER_ACCESS s e \<longleftrightarrow> USERBASE \<le> s \<and> s < e \<and> e \<le> USERTOP"

definition KERN_ACCESS :: "nat \<Rightarrow> nat \<Rightarrow> bool" where
  "KERN_ACCESS s e \<longleftrightarrow> KERNBASE \<le> s \<and> s < e \<and> e \<le> KERNTOP"

section \<open>Areas\<close>

record vma_struct =
  vm_start :: nat
  vm_end :: nat
  vm_flags :: "32 word"

record mm_struct =
  mmap_list :: "vma_struct list"
  mmap_cache :: "vma_struct option"
  map_count :: int

definition mm_create :: "bool \<Rightarrow> mm_struct option" where
  "mm_create got = (if got then Some \<lparr>mmap_list = [], mmap_cache = None, map_count = 0\<rparr> else None)"

definition vma_create :: "bool \<Rightarrow> nat \<Rightarrow> nat \<Rightarrow> 32 word \<Rightarrow> vma_struct option" where
  "vma_create got s e fl = (if got then Some \<lparr>vm_start = s, vm_end = e, vm_flags = fl\<rparr> else None)"

text \<open>The walk of \<^verbatim>\<open>find_vma\<close> over the list.\<close>

fun find_loop :: "nat \<Rightarrow> vma_struct list \<Rightarrow> vma_struct option" where
  "find_loop addr [] = None"
| "find_loop addr (v # vs) = (if vm_start v \<le> addr \<and> addr < vm_end v then Some v else find_loop addr vs)"

definition find_vma :: "mm_struct \<Rightarrow> nat \<Rightarrow> vma_struct option \<times> mm_struct" where
  "find_vma mm addr =
     (let hit = (case mmap_cache mm of Some v \<Rightarrow> vm_start v \<le> addr \<and> vm_end v > addr | None \<Rightarrow> False);
          vma = (if hit then mmap_cache mm else find_loop addr (mmap_list mm))
      in (vma, if vma \<noteq> None then mm\<lparr>mmap_cache := vma\<rparr> else mm))"

definition check_vma_overlap :: "vma_struct \<Rightarrow> vma_struct \<Rightarrow> unit option" where
  "check_vma_overlap prev nxt = do {
     kassert (vm_start prev < vm_end prev);
     kassert (vm_end prev \<le> vm_start nxt);
     kassert (vm_start nxt < vm_end nxt)
   }"

text \<open>The loop of \<^verbatim>\<open>insert_vma_struct\<close>: the areas up to \<^verbatim>\<open>le_prev\<close>, and those behind it.\<close>

fun insert_walk :: "vma_struct \<Rightarrow> vma_struct list \<Rightarrow> vma_struct list \<times> vma_struct list" where
  "insert_walk vma [] = ([], [])"
| "insert_walk vma (v # vs) =
     (if vm_start v > vm_start vma then ([], v # vs) else let (ps, ns) = insert_walk vma vs in (v # ps, ns))"

definition insert_vma_struct :: "mm_struct \<Rightarrow> vma_struct \<Rightarrow> mm_struct option" where
  "insert_vma_struct mm vma = do {
     kassert (vm_start vma < vm_end vma);
     let (ps, ns) = insert_walk vma (mmap_list mm);
     (if ps \<noteq> [] then check_vma_overlap (last ps) vma else Some ());
     (if ns \<noteq> [] then check_vma_overlap vma (hd ns) else Some ());
     Some (mm\<lparr>mmap_list := ps @ vma # ns, map_count := map_count mm + 1\<rparr>)
   }"

text \<open>\<^verbatim>\<open>mm_destroy\<close> returns the areas in the order it frees them; \<open>users\<close> is the number of users of the \<^verbatim>\<open>mm\<close>.\<close>

definition mm_destroy :: "int \<Rightarrow> mm_struct \<Rightarrow> vma_struct list option" where
  "mm_destroy users mm = do { kassert (users = 0); Some (mmap_list mm) }"

text \<open>The result and the area that \<^verbatim>\<open>vma_store\<close> gets.\<close>

definition mm_map :: "bool \<Rightarrow> mm_struct \<Rightarrow> nat \<Rightarrow> nat \<Rightarrow> 32 word \<Rightarrow> (int \<times> vma_struct option \<times> mm_struct) option" where
  "mm_map got mm addr len fl =
     (let s = ROUNDDOWN addr PGSIZE; e = ROUNDUP (u64 (addr + len)) PGSIZE in
      if \<not> USER_ACCESS s e then Some (- E_INVAL, None, mm)
      else let (v, mm) = find_vma mm s in
        if (case v of Some v \<Rightarrow> e > vm_start v | None \<Rightarrow> False) then Some (- E_INVAL, None, mm)
        else case vma_create got s e fl of
          None \<Rightarrow> Some (- E_NO_MEM, None, mm)
        | Some vma \<Rightarrow> do { mm \<leftarrow> insert_vma_struct mm vma; Some (0, Some vma, mm) })"

section \<open>User memory\<close>

lemma find_loop_hit: "find_loop a vs = Some v \<Longrightarrow> v \<in> set vs \<and> vm_start v \<le> a \<and> a < vm_end v"
  by (induction vs) (auto split: if_splits)

lemma find_vma_hit: "find_vma mm a = (Some v, mm') \<Longrightarrow> vm_start v \<le> a \<and> a < vm_end v"
  by (auto simp: find_vma_def Let_def split: option.splits if_splits dest: find_loop_hit)

text \<open>The loop of \<^verbatim>\<open>user_mem_check\<close>; it ends because the area found ends behind \<^verbatim>\<open>start\<close>.\<close>

function user_mem_loop :: "mm_struct \<Rightarrow> bool \<Rightarrow> nat \<Rightarrow> nat \<Rightarrow> bool \<times> mm_struct" where
  "user_mem_loop mm w s e =
     (if s < e then
        (case find_vma mm s of
           (None, mm) \<Rightarrow> (False, mm)
         | (Some v, mm) \<Rightarrow>
             (if s < vm_start v then (False, mm)
              else if vm_flags v AND (if w then VM_WRITE else VM_READ) = 0 then (False, mm)
              else if w \<and> vm_flags v AND VM_STACK \<noteq> 0 \<and> s < u64 (vm_start v + PGSIZE) then (False, mm)
              else user_mem_loop mm w (vm_end v) e))
      else (True, mm))"
  by pat_completeness auto
termination
  by (relation "measure (\<lambda>(mm, w, s, e). e - s)") (auto dest!: find_vma_hit [OF sym])

declare user_mem_loop.simps [simp del]

definition user_mem_check :: "mm_struct option \<Rightarrow> nat \<Rightarrow> nat \<Rightarrow> bool \<Rightarrow> bool \<times> mm_struct option" where
  "user_mem_check x addr len w =
     (case x of
        Some mm \<Rightarrow>
          (if \<not> USER_ACCESS addr (u64 (addr + len)) then (False, Some mm)
           else let (r, mm) = user_mem_loop mm w addr (u64 (addr + len)) in (r, Some mm))
      | None \<Rightarrow> (KERN_ACCESS addr (u64 (addr + len)), None))"

lemma user_mem_check_len: "user_mem_check x a n w = (True, x') \<Longrightarrow> 0 < n"
  by (rule ccontr)
     (auto simp: user_mem_check_def USER_ACCESS_def KERN_ACCESS_def u64_def split: option.splits if_splits)

definition copy_from_user :: "mm_struct option \<Rightarrow> cmem \<Rightarrow> nat \<Rightarrow> nat \<Rightarrow> nat \<Rightarrow> bool \<Rightarrow> bool \<times> cmem \<times> mm_struct option" where
  "copy_from_user x m dst src len w =
     (case user_mem_check x src len w of (r, x) \<Rightarrow> if \<not> r then (False, m, x) else (True, memcpy m dst src len, x))"

definition copy_to_user :: "mm_struct option \<Rightarrow> cmem \<Rightarrow> nat \<Rightarrow> nat \<Rightarrow> nat \<Rightarrow> bool \<times> cmem \<times> mm_struct option" where
  "copy_to_user x m dst src len =
     (case user_mem_check x dst len True of (r, x) \<Rightarrow> if \<not> r then (False, m, x) else (True, memcpy m dst src len, x))"

text \<open>The endless loop of \<^verbatim>\<open>copy_string\<close>; \<^verbatim>\<open>maxn\<close> shrinks in every round, since a check of no bytes fails.\<close>

function copy_string_loop :: "mm_struct option \<Rightarrow> cmem \<Rightarrow> nat \<Rightarrow> nat \<Rightarrow> nat \<Rightarrow> nat \<Rightarrow> bool \<times> cmem \<times> mm_struct option" where
  "copy_string_loop x m dst src maxn part =
     (let part = (if part > maxn then maxn else part) in
      case user_mem_check x src part False of
        (False, x) \<Rightarrow> (False, m, x)
      | (True, x) \<Rightarrow>
          (let alen = strnlen m src part in
           if alen < part then (True, memcpy m dst src (alen + 1), x)
           else if part = maxn then (False, m, x)
           else copy_string_loop x (memcpy m dst src part) (dst + part) (src + part) (maxn - part) PGSIZE))"
  by pat_completeness auto
termination
  by (relation "measure (\<lambda>(x, m, dst, src, maxn, part). maxn)")
     (auto dest!: user_mem_check_len [OF sym] split: if_splits)

declare copy_string_loop.simps [simp del]

definition copy_string :: "mm_struct option \<Rightarrow> cmem \<Rightarrow> nat \<Rightarrow> nat \<Rightarrow> nat \<Rightarrow> bool \<times> cmem \<times> mm_struct option" where
  "copy_string x m dst src maxn =
     copy_string_loop x m dst src maxn (u64_sub (ROUNDDOWN (u64 (src + PGSIZE)) PGSIZE) src)"

section \<open>Well-formed address spaces\<close>

definition vma_before :: "vma_struct \<Rightarrow> vma_struct \<Rightarrow> bool" where
  "vma_before v w \<longleftrightarrow> vm_end v \<le> vm_start w"

definition vma_ok :: "vma_struct \<Rightarrow> bool" where
  "vma_ok v \<longleftrightarrow> vm_start v < vm_end v \<and> vm_end v \<le> USERTOP"

definition vm_wf :: "mm_struct \<Rightarrow> bool" where
  "vm_wf mm \<longleftrightarrow> sorted_wrt vma_before (mmap_list mm) \<and> (\<forall>v\<in>set (mmap_list mm). vma_ok v) \<and>
     (\<forall>v. mmap_cache mm = Some v \<longrightarrow> v \<in> set (mmap_list mm))"

definition vma_has :: "vma_struct \<Rightarrow> nat \<Rightarrow> bool" where
  "vma_has v a \<longleftrightarrow> vm_start v \<le> a \<and> a < vm_end v"

definition vma_meets :: "vma_struct \<Rightarrow> nat \<Rightarrow> nat \<Rightarrow> bool" where
  "vma_meets v s e \<longleftrightarrow> vm_start v < e \<and> s < vm_end v"

lemmas vma_defs = vma_before_def vma_ok_def vma_has_def vma_meets_def

lemma vma_unique:
  "sorted_wrt vma_before vs \<Longrightarrow> v \<in> set vs \<Longrightarrow> w \<in> set vs \<Longrightarrow> vma_has v a \<Longrightarrow> vma_has w a \<Longrightarrow> v = w"
  by (induction vs) (auto simp: vma_defs dest: bspec)

lemma find_loop_miss: "find_loop a vs = None \<longleftrightarrow> (\<forall>v\<in>set vs. \<not> vma_has v a)"
  by (induction vs) (auto simp: vma_has_def)

lemma find_vma_exact:
  assumes "vm_wf mm" and "find_vma mm a = (r, mm')"
  shows "r = Some v \<longleftrightarrow> v \<in> set (mmap_list mm) \<and> vma_has v a" and "vm_wf mm'" "mmap_list mm' = mmap_list mm" "map_count mm' = map_count mm"
proof -
  have srt: "sorted_wrt vma_before (mmap_list mm)" using assms(1) by (simp add: vm_wf_def)
  have hit: "r = Some w \<Longrightarrow> w \<in> set (mmap_list mm) \<and> vma_has w a" for w
    using assms find_loop_hit [of a "mmap_list mm" w]
    by (auto simp: find_vma_def vm_wf_def vma_has_def Let_def split: option.splits if_splits)
  have miss: "r = None \<Longrightarrow> \<forall>v\<in>set (mmap_list mm). \<not> vma_has v a"
    using assms(2) by (auto simp: find_vma_def Let_def find_loop_miss split: option.splits if_splits)
  show "r = Some v \<longleftrightarrow> v \<in> set (mmap_list mm) \<and> vma_has v a"
    using hit miss vma_unique [OF srt] by (cases r) auto
  show "vm_wf mm'" "mmap_list mm' = mmap_list mm" "map_count mm' = map_count mm"
    using assms hit by (auto simp: find_vma_def vm_wf_def Let_def split: if_splits)
qed

lemma insert_walk_split:
  "insert_walk vma vs = (ps, ns) \<Longrightarrow>
     vs = ps @ ns \<and> (\<forall>p\<in>set ps. vm_start p \<le> vm_start vma) \<and> (ns \<noteq> [] \<longrightarrow> vm_start vma < vm_start (hd ns))"
  by (induction vs arbitrary: ps ns) (auto split: if_splits prod.splits)

text \<open>\<^verbatim>\<open>insert_vma_struct\<close> inserts exactly the areas that overlap none, and stops the kernel on the others.\<close>

lemma insert_vma_exact:
  assumes wf: "vm_wf mm" and ok: "vma_ok vma"
  shows "(\<forall>v\<in>set (mmap_list mm). \<not> vma_meets v (vm_start vma) (vm_end vma)) \<Longrightarrow>
      \<exists>mm'. insert_vma_struct mm vma = Some mm' \<and> vm_wf mm' \<and> set (mmap_list mm') = insert vma (set (mmap_list mm)) \<and>
        map_count mm' = map_count mm + 1"
    and "v \<in> set (mmap_list mm) \<Longrightarrow> vma_meets v (vm_start vma) (vm_end vma) \<Longrightarrow> insert_vma_struct mm vma = None"
proof -
  obtain ps ns where w: "insert_walk vma (mmap_list mm) = (ps, ns)" by fastforce
  note sp = insert_walk_split [OF w]
  have srt: "sorted_wrt vma_before (ps @ ns)" and all: "\<forall>v\<in>set (ps @ ns). vma_ok v"
    and ch: "\<And>v. mmap_cache mm = Some v \<Longrightarrow> v \<in> set (ps @ ns)" using wf sp by (auto simp: vm_wf_def)
  have lp: "ps \<noteq> [] \<Longrightarrow> p \<in> set ps \<Longrightarrow> vm_end p \<le> vm_end (last ps)" for p
    using srt all by (cases ps rule: rev_cases) (auto simp: sorted_wrt_append vma_defs dest!: bspec)
  have hn: "ns \<noteq> [] \<Longrightarrow> n \<in> set ns \<Longrightarrow> vm_start (hd ns) \<le> vm_start n" for n
    using srt all by (cases ns) (auto simp: sorted_wrt_append vma_defs dest!: bspec)
  define fits where "fits \<longleftrightarrow> (ps \<noteq> [] \<longrightarrow> vm_end (last ps) \<le> vm_start vma) \<and> (ns \<noteq> [] \<longrightarrow> vm_end vma \<le> vm_start (hd ns))"
  have run: "insert_vma_struct mm vma = (if fits then Some (mm\<lparr>mmap_list := ps @ vma # ns, map_count := map_count mm + 1\<rparr>) else None)"
    using w all ok by (cases ps rule: rev_cases; cases ns)
      (auto simp: insert_vma_struct_def check_vma_overlap_def fits_def vma_defs)
  have fit: "fits \<longleftrightarrow> (\<forall>v\<in>set (ps @ ns). \<not> vma_meets v (vm_start vma) (vm_end vma))"
  proof
    assume fits
    have "vm_end p \<le> vm_start vma" if "p \<in> set ps" for p
      using lp [OF _ that] that \<open>fits\<close> by (cases "ps = []") (auto simp: fits_def)
    moreover have "vm_end vma \<le> vm_start n" if "n \<in> set ns" for n
      using hn [OF _ that] that \<open>fits\<close> by (cases "ns = []") (auto simp: fits_def)
    ultimately show "\<forall>v\<in>set (ps @ ns). \<not> vma_meets v (vm_start vma) (vm_end vma)" by (fastforce simp: vma_meets_def)
  next
    assume a: "\<forall>v\<in>set (ps @ ns). \<not> vma_meets v (vm_start vma) (vm_end vma)"
    have "vm_end (last ps) \<le> vm_start vma" if "ps \<noteq> []"
    proof -
      have "last ps \<in> set ps" using that by simp
      then have "vm_start (last ps) \<le> vm_start vma" "\<not> vma_meets (last ps) (vm_start vma) (vm_end vma)" using sp a by auto
      then show ?thesis using ok by (auto simp: vma_defs)
    qed
    moreover have "vm_end vma \<le> vm_start (hd ns)" if "ns \<noteq> []"
    proof -
      have "hd ns \<in> set ns" using that by simp
      then have "\<not> vma_meets (hd ns) (vm_start vma) (vm_end vma)" "vma_ok (hd ns)" using a all by auto
      then show ?thesis using sp that by (auto simp: vma_defs)
    qed
    ultimately show fits by (simp add: fits_def)
  qed
  { assume "\<forall>v\<in>set (mmap_list mm). \<not> vma_meets v (vm_start vma) (vm_end vma)"
    then have f: fits and a: "\<forall>v\<in>set (ps @ ns). \<not> vma_meets v (vm_start vma) (vm_end vma)" using fit sp by auto
    have "vm_end p \<le> vm_start vma" if "p \<in> set ps" for p using f lp [OF _ that] that by (cases "ps = []") (auto simp: fits_def)
    moreover have "vm_end vma \<le> vm_start n" if "n \<in> set ns" for n using f hn [OF _ that] that by (cases "ns = []") (auto simp: fits_def)
    ultimately have "sorted_wrt vma_before (ps @ vma # ns)" using srt by (auto simp: sorted_wrt_append vma_before_def)
    then show "\<exists>mm'. insert_vma_struct mm vma = Some mm' \<and> vm_wf mm' \<and> set (mmap_list mm') = insert vma (set (mmap_list mm)) \<and>
        map_count mm' = map_count mm + 1"
      using f run all ch ok sp by (auto simp: vm_wf_def) }
  show "v \<in> set (mmap_list mm) \<Longrightarrow> vma_meets v (vm_start vma) (vm_end vma) \<Longrightarrow> insert_vma_struct mm vma = None"
    using run fit sp by auto
qed

text \<open>The bytes a process may read or write.\<close>

definition user_may :: "mm_struct \<Rightarrow> bool \<Rightarrow> nat \<Rightarrow> bool" where
  "user_may mm w a \<longleftrightarrow> (\<exists>v\<in>set (mmap_list mm). vma_has v a \<and> vm_flags v AND (if w then VM_WRITE else VM_READ) \<noteq> 0 \<and>
     (w \<and> vm_flags v AND VM_STACK \<noteq> 0 \<longrightarrow> vm_start v + PGSIZE \<le> a))"

lemma user_mem_loop_exact:
  assumes "vm_wf mm"
  shows "(fst (user_mem_loop mm w s e) \<longleftrightarrow> (\<forall>a. s \<le> a \<and> a < e \<longrightarrow> user_may mm w a)) \<and>
     vm_wf (snd (user_mem_loop mm w s e)) \<and> mmap_list (snd (user_mem_loop mm w s e)) = mmap_list mm"
  using assms
proof (induction mm w s e rule: user_mem_loop.induct)
  case (1 mm w s e)
  obtain r mm' where f: "find_vma mm s = (r, mm')" by fastforce
  note fx = find_vma_exact [OF "1.prems" f]
  have srt: "sorted_wrt vma_before (mmap_list mm)" using "1.prems" by (simp add: vm_wf_def)
  show ?case
  proof (cases "s < e")
    case False
    then show ?thesis using "1.prems" by (auto simp: user_mem_loop.simps)
  next
    case se: True
    show ?thesis
    proof (cases r)
      case None
      then have "\<not> user_may mm w s" using fx(1) by (auto simp: user_may_def)
      then show ?thesis using se f None fx by (subst (1 2 3) user_mem_loop.simps) auto
    next
      case (Some v)
      then have v: "v \<in> set (mmap_list mm)" "vma_has v s" using fx(1) by auto
      then have ok: "vma_ok v" using "1.prems" by (auto simp: vm_wf_def)
      then have guard: "u64 (vm_start v + PGSIZE) = vm_start v + PGSIZE" by (auto simp: vma_ok_def u64_def)
      define good where "good a \<longleftrightarrow> vm_flags v AND (if w then VM_WRITE else VM_READ) \<noteq> 0 \<and>
        (w \<and> vm_flags v AND VM_STACK \<noteq> 0 \<longrightarrow> vm_start v + PGSIZE \<le> a)" for a
      have may: "user_may mm w a \<longleftrightarrow> good a" if "s \<le> a" "a < vm_end v" for a
      proof -
        have has: "vma_has v a" using v(2) that by (simp add: vma_has_def)
        have "u = v" if "u \<in> set (mmap_list mm)" "vma_has u a" for u using vma_unique [OF srt that(1) v(1) that(2) has] .
        then show ?thesis using v(1) has unfolding user_may_def good_def by blast
      qed
      show ?thesis
      proof (cases "good s")
        case False
        then have "\<not> user_may mm w s" using may [of s] v(2) by (simp add: vma_has_def)
        then show ?thesis using se f Some fx v False guard
          by (subst (1 2 3) user_mem_loop.simps) (auto simp: good_def vma_has_def)
      next
        case True
        then have run: "user_mem_loop mm w s e = user_mem_loop mm' w (vm_end v) e"
          using se f Some v guard by (subst user_mem_loop.simps) (auto simp: good_def vma_has_def)
        have up: "user_may mm' w a = user_may mm w a" for a using fx(3) by (simp add: user_may_def)
        have "user_may mm w a" if "s \<le> a" "a < vm_end v" for a using may [OF that] True that by (auto simp: good_def)
        then have split: "(\<forall>a. s \<le> a \<and> a < e \<longrightarrow> user_may mm w a) \<longleftrightarrow> (\<forall>a. vm_end v \<le> a \<and> a < e \<longrightarrow> user_may mm w a)"
          using v(2) by (metis leI le_trans less_imp_le vma_has_def)
        have "\<not> s < vm_start v" "vm_flags v AND (if w then VM_WRITE else VM_READ) \<noteq> 0"
          "\<not> (w \<and> vm_flags v AND VM_STACK \<noteq> 0 \<and> s < u64 (vm_start v + PGSIZE))"
          using v(2) True guard by (auto simp: vma_has_def good_def)
        then show ?thesis using "1.IH" [OF se f [symmetric] Some] fx(2,3) unfolding run split up by auto
      qed
    qed
  qed
qed

section \<open>The properties\<close>

text \<open>C14: \<^verbatim>\<open>user_mem_check\<close> accepts a range exactly when it lies in user space and every byte of it is in an area that
  allows the access, the lowest page of a stack area being out of bounds for writing; it changes no area.\<close>

theorem user_mem_check_exact:
  assumes "vm_wf mm"
  shows "\<exists>r mm'. user_mem_check (Some mm) addr len w = (r, Some mm') \<and> vm_wf mm' \<and> mmap_list mm' = mmap_list mm \<and>
     (r \<longleftrightarrow> USER_ACCESS addr (u64 (addr + len)) \<and> (\<forall>a. addr \<le> a \<and> a < u64 (addr + len) \<longrightarrow> user_may mm w a))"
  using user_mem_loop_exact [OF assms, of w addr "u64 (addr + len)"] assms
  by (auto simp: user_mem_check_def split: prod.splits)

definition sample_mm :: mm_struct where
  "sample_mm = \<lparr>mmap_list = [\<lparr>vm_start = 0x800000, vm_end = 0x802000, vm_flags = 3\<rparr>, \<lparr>vm_start = 0x802000, vm_end = 0x803000, vm_flags = 1\<rparr>,
     \<lparr>vm_start = 0x7ff00000, vm_end = 0x80000000, vm_flags = 0xb\<rparr>], mmap_cache = None, map_count = 3\<rparr>"

lemma sample_mm_wf: "vm_wf sample_mm"
  by (simp add: vm_wf_def sample_mm_def vma_defs)

theorem user_mem_check_exact_witness:
  "fst (user_mem_check (Some sample_mm) 0x801ffc 8 False) \<and> \<not> fst (user_mem_check (Some sample_mm) 0x801ffc 8 True)"
proof -
  have len: "u64 (0x801ffc + 8) = 0x802004" by (simp add: u64_def)
  have "user_may sample_mm False a" if "0x801ffc \<le> a" "a < 0x802004" for a
    using that by (auto simp: user_may_def sample_mm_def vma_has_def)
  moreover have "\<not> user_may sample_mm True 0x802000" by (auto simp: user_may_def sample_mm_def vma_has_def)
  ultimately show ?thesis
    using user_mem_check_exact [OF sample_mm_wf, of "0x801ffc" "8" False] user_mem_check_exact [OF sample_mm_wf, of "0x801ffc" "8" True]
    unfolding len by (auto simp: USER_ACCESS_def)
qed

text \<open>C15: \<^verbatim>\<open>mm_map\<close> on every branch.  It rejects a range outside user space and a range whose first page is mapped, reports a
  lack of memory, and otherwise adds exactly the new area and keeps the areas sorted and disjoint; but a range that
  begins in a hole and reaches into a later area is not rejected: it stops the kernel on an assertion.\<close>

theorem mm_map_exact:
  fixes addr len :: nat
  assumes wf: "vm_wf mm"
  defines "s \<equiv> ROUNDDOWN addr PGSIZE" and "e \<equiv> ROUNDUP (u64 (addr + len)) PGSIZE"
  defines "vs \<equiv> set (mmap_list mm)"
  shows "if \<not> USER_ACCESS s e then mm_map got mm addr len fl = Some (- E_INVAL, None, mm)
     else if \<exists>v\<in>vs. vma_has v s then \<exists>mm'. mm_map got mm addr len fl = Some (- E_INVAL, None, mm') \<and> mmap_list mm' = mmap_list mm
     else if \<not> got then mm_map got mm addr len fl = Some (- E_NO_MEM, None, mm)
     else if \<exists>v\<in>vs. vma_meets v s e then mm_map got mm addr len fl = None
     else \<exists>vma mm'. mm_map got mm addr len fl = Some (0, Some vma, mm') \<and> vm_wf mm' \<and>
       vma = \<lparr>vm_start = s, vm_end = e, vm_flags = fl\<rparr> \<and> set (mmap_list mm') = insert vma vs \<and> map_count mm' = map_count mm + 1"
proof (cases "USER_ACCESS s e")
  case False
  then show ?thesis by (simp add: mm_map_def s_def e_def)
next
  case ua: True
  obtain r mm1 where f: "find_vma mm s = (r, mm1)" by fastforce
  note fx = find_vma_exact [OF wf f]
  show ?thesis
  proof (cases r)
    case (Some v)
    then have v: "v \<in> vs" "vma_has v s" using fx(1) by (auto simp: vs_def)
    then have "mm_map got mm addr len fl = Some (- E_INVAL, None, mm1)"
      using ua f Some by (auto simp: mm_map_def s_def e_def vma_has_def USER_ACCESS_def)
    then show ?thesis using ua v fx(3) by auto
  next
    case None
    then have no: "\<not> (\<exists>v\<in>vs. vma_has v s)" and same: "mm1 = mm" using fx(1) f by (auto simp: vs_def find_vma_def Let_def)
    let ?vma = "\<lparr>vm_start = s, vm_end = e, vm_flags = fl\<rparr>"
    have ok: "vma_ok ?vma" using ua by (simp add: vma_ok_def USER_ACCESS_def)
    have run: "mm_map got mm addr len fl = (if got then map_option (\<lambda>mm. (0, Some ?vma, mm)) (insert_vma_struct mm ?vma) else Some (- E_NO_MEM, None, mm))"
      using ua f None same by (auto simp: mm_map_def s_def e_def vma_create_def split: option.splits bind_splits)
    show ?thesis using ua no run insert_vma_exact [OF wf ok] by (auto simp: vs_def)
  qed
qed

theorem mm_map_exact_witness:
  "mm_map True sample_mm 0x7ff000 0x1001 1 = None \<and>
   (\<exists>vma mm'. mm_map True sample_mm 0x7ff123 0x10 1 = Some (0, Some vma, mm') \<and> vm_wf mm' \<and> vm_start vma = 0x7ff000 \<and> vm_end vma = 0x800000)"
  using mm_map_exact [OF sample_mm_wf, of "0x7ff000" "0x1001" True 1] mm_map_exact [OF sample_mm_wf, of "0x7ff123" "0x10" True 1]
  by (auto simp: sample_mm_def ROUNDDOWN_def ROUNDUP_def u64_def USER_ACCESS_def vma_defs)

end
