(* ===== verification/PageTable.thy ===== *)
theory PageTable
  imports FirstFit Vmm
begin

text \<open>
  Physical pages and page tables: \<^verbatim>\<open>kern/mm/pmm.c\<close>, \<^verbatim>\<open>kern/mm/pmm.h\<close> and \<^verbatim>\<open>kern/mm/mmu.h\<close>.  The memory manager is
  \<^verbatim>\<open>default_pmm_manager\<close>.  Physical memory is a function from page number and index to 64-bit words: a page is 512 of them,
  as a page table uses it.  A kernel pointer to a page is its physical page number, a pointer to a table entry is
  such a number and an index, a \<^verbatim>\<open>struct Page *\<close> is an index into \<^verbatim>\<open>pages\<close>, which starts at page number \<^verbatim>\<open>nbase\<close>.  A number below
  \<^verbatim>\<open>nbase\<close> has no descriptor, and a call with it has no value here.  The TLB and the interrupt flag are not
  represented.  \<open>None\<close> is a panic or a failed assertion.
\<close>

unbundle bit_operations_syntax

abbreviation (input) nbase :: nat where "nbase \<equiv> 0x80000"
abbreviation (input) NPTEENTRY :: nat where "NPTEENTRY \<equiv> 512"
abbreviation (input) PTSIZE :: nat where "PTSIZE \<equiv> 0x200000"
abbreviation (input) PDSIZE :: nat where "PDSIZE \<equiv> 0x40000000"
abbreviation (input) PTE_V :: "'a::len word" where "PTE_V \<equiv> 1"
abbreviation (input) PTE_R :: "'a::len word" where "PTE_R \<equiv> 2"
abbreviation (input) PTE_W :: "'a::len word" where "PTE_W \<equiv> 4"
abbreviation (input) PTE_X :: "'a::len word" where "PTE_X \<equiv> 8"
abbreviation (input) PTE_U :: "'a::len word" where "PTE_U \<equiv> 0x10"
abbreviation (input) PTE_USER :: "'a::len word" where "PTE_USER \<equiv> 0x1F"

section \<open>Addresses and entries\<close>

definition PDX1 :: "nat \<Rightarrow> nat" where
  "PDX1 la = la div 2 ^ 30 mod 512"

definition PDX0 :: "nat \<Rightarrow> nat" where
  "PDX0 la = la div 2 ^ 21 mod 512"

definition PTX :: "nat \<Rightarrow> nat" where
  "PTX la = la div 2 ^ 12 mod 512"

definition PGOFF :: "nat \<Rightarrow> nat" where
  "PGOFF la = la mod 2 ^ 12"

definition PPN :: "64 word \<Rightarrow> nat" where
  "PPN pa = unat (drop_bit 12 pa)"

definition PTE_ADDR :: "64 word \<Rightarrow> 64 word" where
  "PTE_ADDR pte = push_bit 2 (pte AND NOT 0x3FF)"

text \<open>The argument \<^verbatim>\<open>type\<close> is an \<^verbatim>\<open>int\<close>, which is sign-extended.\<close>

definition pte_create :: "nat \<Rightarrow> 32 word \<Rightarrow> 64 word" where
  "pte_create ppn type = push_bit 10 (word_of_nat ppn) OR PTE_V OR signed type"

definition valid :: "64 word \<Rightarrow> bool" where
  "valid pte \<longleftrightarrow> pte AND PTE_V \<noteq> 0"

definition page2ppn :: "nat \<Rightarrow> nat" where
  "page2ppn p = p + nbase"

definition page2pa :: "nat \<Rightarrow> 64 word" where
  "page2pa p = push_bit 12 (word_of_nat (page2ppn p))"

record machine =
  pm :: pmm
  mem :: "nat \<Rightarrow> nat \<Rightarrow> 64 word"
  npage :: nat

text \<open>\<^verbatim>\<open>KADDR\<close> of the address of a page.\<close>

definition KADDR :: "64 word \<Rightarrow> machine \<Rightarrow> nat option" where
  "KADDR pa s = do { kassert (PPN pa < npage s); Some (PPN pa) }"

definition pa2page :: "64 word \<Rightarrow> machine \<Rightarrow> nat option" where
  "pa2page pa s = do { kassert (PPN pa < npage s); kassert (nbase \<le> PPN pa); Some (PPN pa - nbase) }"

definition page2kva :: "nat \<Rightarrow> machine \<Rightarrow> nat option" where
  "page2kva p s = KADDR (page2pa p) s"

definition pte2page :: "64 word \<Rightarrow> machine \<Rightarrow> nat option" where
  "pte2page pte s = do { kassert (valid pte); pa2page (PTE_ADDR pte) s }"

definition pde2page :: "64 word \<Rightarrow> machine \<Rightarrow> nat option" where
  "pde2page pde s = pa2page (PTE_ADDR pde) s"

definition set_mem :: "nat \<Rightarrow> nat \<Rightarrow> 64 word \<Rightarrow> machine \<Rightarrow> machine" where
  "set_mem t i w s = s\<lparr>mem := (mem s)(t := (mem s t)(i := w))\<rparr>"

definition upd_ref :: "nat \<Rightarrow> (int \<Rightarrow> int) \<Rightarrow> machine \<Rightarrow> machine" where
  "upd_ref p f s = s\<lparr>pm := upd_page p (\<lambda>g. set_page_ref (f (ref g)) g) (pm s)\<rparr>"

definition page_ref :: "nat \<Rightarrow> machine \<Rightarrow> int" where
  "page_ref p s = ref (pages (pm s) p)"

definition page_ref_inc :: "nat \<Rightarrow> machine \<Rightarrow> machine" where
  "page_ref_inc p = upd_ref p (\<lambda>r. r + 1)"

definition page_ref_dec :: "nat \<Rightarrow> machine \<Rightarrow> machine" where
  "page_ref_dec p = upd_ref p (\<lambda>r. r - 1)"

definition alloc_pages :: "nat \<Rightarrow> machine \<Rightarrow> (nat option \<times> machine) option" where
  "alloc_pages n s = do { (r, a) \<leftarrow> default_alloc_pages n (pm s); Some (r, s\<lparr>pm := a\<rparr>) }"

definition free_pages :: "nat \<Rightarrow> nat \<Rightarrow> machine \<Rightarrow> machine option" where
  "free_pages p n s = do { a \<leftarrow> default_free_pages p n (pm s); Some (s\<lparr>pm := a\<rparr>) }"

definition nr_free_pages :: "machine \<Rightarrow> nat" where
  "nr_free_pages s = default_nr_free_pages (pm s)"

section \<open>Walking the tables\<close>

text \<open>One level of \<^verbatim>\<open>get_pte\<close>: the table the entry \<open>i\<close> of table \<open>t\<close> points to, made if it is missing and \<^verbatim>\<open>create\<close> is set.\<close>

definition table_step :: "nat \<Rightarrow> nat \<Rightarrow> bool \<Rightarrow> machine \<Rightarrow> (nat option \<times> machine) option" where
  "table_step t i create s =
     (if \<not> valid (mem s t i)
      then (if \<not> create then Some (None, s)
            else do {
              (r, s) \<leftarrow> alloc_pages 1 s;
              (case r of
                 None \<Rightarrow> Some (None, s)
               | Some page \<Rightarrow> do {
                   let s = upd_ref page (\<lambda>_. 1) s;
                   k \<leftarrow> KADDR (page2pa page) s;
                   let s = s\<lparr>mem := (mem s)(k := (\<lambda>_. 0))\<rparr>;
                   let s = set_mem t i (pte_create (page2ppn page) (PTE_U OR PTE_V)) s;
                   n \<leftarrow> KADDR (PTE_ADDR (mem s t i)) s;
                   Some (Some n, s)
                 })
            })
      else do { n \<leftarrow> KADDR (PTE_ADDR (mem s t i)) s; Some (Some n, s) })"

definition get_pte :: "nat \<Rightarrow> nat \<Rightarrow> bool \<Rightarrow> machine \<Rightarrow> ((nat \<times> nat) option \<times> machine) option" where
  "get_pte pgdir la create s = do {
     (d0, s) \<leftarrow> table_step pgdir (PDX1 la) create s;
     (case d0 of
        None \<Rightarrow> Some (None, s)
      | Some d0 \<Rightarrow> do {
          (t, s) \<leftarrow> table_step d0 (PDX0 la) create s;
          Some (map_option (\<lambda>t. (t, PTX la)) t, s)
        })
   }"

definition get_page :: "nat \<Rightarrow> nat \<Rightarrow> machine \<Rightarrow> ((nat \<times> nat) option \<times> nat option \<times> machine) option" where
  "get_page pgdir la s = do {
     (ptep, s) \<leftarrow> get_pte pgdir la False s;
     (case ptep of
        None \<Rightarrow> Some (None, None, s)
      | Some (t, i) \<Rightarrow>
          (if valid (mem s t i) then do { p \<leftarrow> pte2page (mem s t i) s; Some (ptep, Some p, s) } else Some (ptep, None, s)))
   }"

definition page_remove_pte :: "nat \<times> nat \<Rightarrow> machine \<Rightarrow> machine option" where
  "page_remove_pte ptep s =
     (case ptep of (t, i) \<Rightarrow>
        if valid (mem s t i)
        then do {
          page \<leftarrow> pte2page (mem s t i) s;
          let s = page_ref_dec page s;
          s \<leftarrow> (if page_ref page s = 0 then free_pages page 1 s else Some s);
          Some (set_mem t i 0 s)
        }
        else Some s)"

definition page_remove :: "nat \<Rightarrow> nat \<Rightarrow> machine \<Rightarrow> machine option" where
  "page_remove pgdir la s = do {
     (ptep, s) \<leftarrow> get_pte pgdir la False s;
     (case ptep of None \<Rightarrow> Some s | Some pte \<Rightarrow> page_remove_pte pte s)
   }"

definition page_insert :: "nat \<Rightarrow> nat \<Rightarrow> nat \<Rightarrow> 32 word \<Rightarrow> machine \<Rightarrow> (int \<times> machine) option" where
  "page_insert pgdir page la perm s = do {
     (ptep, s) \<leftarrow> get_pte pgdir la True s;
     (case ptep of
        None \<Rightarrow> Some (- E_NO_MEM, s)
      | Some (t, i) \<Rightarrow> do {
          let s = page_ref_inc page s;
          s \<leftarrow> (if valid (mem s t i)
                then do {
                  p \<leftarrow> pte2page (mem s t i) s;
                  (if p = page then Some (page_ref_dec page s) else page_remove_pte (t, i) s)
                }
                else Some s);
          Some (0, set_mem t i (pte_create (page2ppn page) (PTE_V OR perm)) s)
        })
   }"

text \<open>The address for the page replacement algorithm (\<^verbatim>\<open>pra_vaddr\<close>) is not used.\<close>

definition pgdir_alloc_page :: "nat \<Rightarrow> nat \<Rightarrow> 32 word \<Rightarrow> machine \<Rightarrow> (nat option \<times> machine) option" where
  "pgdir_alloc_page pgdir la perm s = do {
     (r, s) \<leftarrow> alloc_pages 1 s;
     (case r of
        None \<Rightarrow> Some (None, s)
      | Some page \<Rightarrow> do {
          (ret, s) \<leftarrow> page_insert pgdir page la perm s;
          (if ret \<noteq> 0 then do { s \<leftarrow> free_pages page 1 s; Some (None, s) }
           else do { kassert (page_ref page s = 1); Some (Some page, s) })
        })
   }"

text \<open>
  \<^verbatim>\<open>setup_pgdir\<close> and \<^verbatim>\<open>put_pgdir\<close> of \<^verbatim>\<open>kern/process/proc.c\<close>: a directory that starts as a copy of the one of the kernel, \<open>boot\<close>, with the new value
  of \<^verbatim>\<open>mm->pgdir\<close>.
\<close>

definition setup_pgdir :: "nat \<Rightarrow> machine \<Rightarrow> (int \<times> nat option \<times> machine) option" where
  "setup_pgdir boot s = do {
     (r, s) \<leftarrow> alloc_pages 1 s;
     (case r of
        None \<Rightarrow> Some (- E_NO_MEM, None, s)
      | Some page \<Rightarrow> do {
          pgdir \<leftarrow> page2kva page s;
          Some (0, Some pgdir, s\<lparr>mem := (mem s)(pgdir := mem s boot)\<rparr>)
        })
   }"

definition put_pgdir :: "nat \<Rightarrow> machine \<Rightarrow> machine option" where
  "put_pgdir pgdir s = do { p \<leftarrow> pa2page (push_bit 12 (word_of_nat pgdir)) s; free_pages p 1 s }"

section \<open>Ranges of addresses\<close>

text \<open>The bodies of the loops give the next address.\<close>

definition unmap_step :: "nat \<Rightarrow> nat \<Rightarrow> machine \<Rightarrow> (nat \<times> machine) option" where
  "unmap_step pgdir start s = do {
     (ptep, s) \<leftarrow> get_pte pgdir start False s;
     (case ptep of
        None \<Rightarrow> Some (ROUNDDOWN (u64 (start + PTSIZE)) PTSIZE, s)
      | Some (t, i) \<Rightarrow> do {
          s \<leftarrow> (if mem s t i \<noteq> 0 then page_remove_pte (t, i) s else Some s);
          Some (u64 (start + PGSIZE), s)
        })
   }"

partial_function (option) unmap_loop :: "nat \<Rightarrow> nat \<Rightarrow> nat \<Rightarrow> machine \<Rightarrow> machine option" where
  "unmap_loop pgdir start end s = do {
     (start, s) \<leftarrow> unmap_step pgdir start s;
     (if start \<noteq> 0 \<and> start < end then unmap_loop pgdir start end s else Some s)
   }"

definition unmap_range :: "nat \<Rightarrow> nat \<Rightarrow> nat \<Rightarrow> machine \<Rightarrow> machine option" where
  "unmap_range pgdir start end s = do {
     kassert (start mod PGSIZE = 0 \<and> end mod PGSIZE = 0);
     kassert (USER_ACCESS start end);
     unmap_loop pgdir start end s
   }"

definition copy_step :: "nat \<Rightarrow> nat \<Rightarrow> nat \<Rightarrow> machine \<Rightarrow> (int \<times> nat \<times> machine) option" where
  "copy_step to from start s = do {
     (ptep, s) \<leftarrow> get_pte from start False s;
     (case ptep of
        None \<Rightarrow> Some (0, ROUNDDOWN (u64 (start + PTSIZE)) PTSIZE, s)
      | Some (t, i) \<Rightarrow>
          (if valid (mem s t i)
           then do {
             (nptep, s) \<leftarrow> get_pte to start True s;
             (if nptep = None then Some (- E_NO_MEM, start, s)
              else do {
                let perm = ucast (mem s t i AND PTE_USER);
                page \<leftarrow> pte2page (mem s t i) s;
                (new, s) \<leftarrow> alloc_pages 1 s;
                npage \<leftarrow> new;
                src \<leftarrow> page2kva page s;
                dst \<leftarrow> page2kva npage s;
                let s = s\<lparr>mem := (mem s)(dst := mem s src)\<rparr>;
                (ret, s) \<leftarrow> page_insert to npage start perm s;
                kassert (ret = 0);
                Some (0, u64 (start + PGSIZE), s)
              })
           }
           else Some (0, u64 (start + PGSIZE), s)))
   }"

partial_function (option) copy_loop :: "nat \<Rightarrow> nat \<Rightarrow> nat \<Rightarrow> nat \<Rightarrow> machine \<Rightarrow> (int \<times> machine) option" where
  "copy_loop to from start end s = do {
     (ret, start, s) \<leftarrow> copy_step to from start s;
     (if ret \<noteq> 0 then Some (ret, s)
      else if start \<noteq> 0 \<and> start < end then copy_loop to from start end s else Some (0, s))
   }"

definition copy_range :: "nat \<Rightarrow> nat \<Rightarrow> nat \<Rightarrow> nat \<Rightarrow> bool \<Rightarrow> machine \<Rightarrow> (int \<times> machine) option" where
  "copy_range to from start end share s = do {
     kassert (start mod PGSIZE = 0 \<and> end mod PGSIZE = 0);
     kassert (USER_ACCESS start end);
     copy_loop to from start end s
   }"

text \<open>\<^verbatim>\<open>exit_range\<close>: the inner loop over the entries of one directory of level 0, with the flag \<^verbatim>\<open>free_pd0\<close>.\<close>

definition exit_step :: "nat \<Rightarrow> nat \<Rightarrow> machine \<Rightarrow> (bool \<times> machine) option" where
  "exit_step pd0 d0start s =
     (let pde0 = mem s pd0 (PDX0 d0start) in
      if valid pde0
      then do {
        p \<leftarrow> pde2page pde0 s;
        pt \<leftarrow> page2kva p s;
        (if \<forall>i<NPTEENTRY. \<not> valid (mem s pt i)
         then do { s \<leftarrow> free_pages p 1 s; Some (True, set_mem pd0 (PDX0 d0start) 0 s) }
         else Some (True, s))
      }
      else Some (False, s))"

partial_function (option) exit_dir_loop :: "nat \<Rightarrow> nat \<Rightarrow> nat \<Rightarrow> nat \<Rightarrow> bool \<Rightarrow> machine \<Rightarrow> (bool \<times> machine) option" where
  "exit_dir_loop pd0 d1start d0start end free_pd0 s = do {
     (present, s) \<leftarrow> exit_step pd0 d0start s;
     let free_pd0 = (free_pd0 \<and> present);
     let d0start = u64 (d0start + PTSIZE);
     (if d0start \<noteq> 0 \<and> d0start < u64 (d1start + PDSIZE) \<and> d0start < end
      then exit_dir_loop pd0 d1start d0start end free_pd0 s
      else Some (free_pd0, s))
   }"

definition exit_dir :: "nat \<Rightarrow> nat \<Rightarrow> nat \<Rightarrow> nat \<Rightarrow> machine \<Rightarrow> machine option" where
  "exit_dir pgdir d1start d0start end s =
     (let pde1 = mem s pgdir (PDX1 d1start) in
      if valid pde1
      then do {
        p \<leftarrow> pde2page pde1 s;
        pd0 \<leftarrow> page2kva p s;
        (free_pd0, s) \<leftarrow> exit_dir_loop pd0 d1start d0start end True s;
        (if free_pd0
         then do { s \<leftarrow> free_pages p 1 s; Some (set_mem pgdir (PDX1 d1start) 0 s) }
         else Some s)
      }
      else Some s)"

partial_function (option) exit_loop :: "nat \<Rightarrow> nat \<Rightarrow> nat \<Rightarrow> nat \<Rightarrow> machine \<Rightarrow> machine option" where
  "exit_loop pgdir d1start d0start end s = do {
     s \<leftarrow> exit_dir pgdir d1start d0start end s;
     let d1start = u64 (d1start + PDSIZE);
     (if d1start \<noteq> 0 \<and> d1start < end then exit_loop pgdir d1start d1start end s else Some s)
   }"

definition exit_range :: "nat \<Rightarrow> nat \<Rightarrow> nat \<Rightarrow> machine \<Rightarrow> machine option" where
  "exit_range pgdir start end s = do {
     kassert (start mod PGSIZE = 0 \<and> end mod PGSIZE = 0);
     kassert (USER_ACCESS start end);
     exit_loop pgdir (ROUNDDOWN start PDSIZE) (ROUNDDOWN start PTSIZE) end s
   }"

section \<open>Setting up\<close>

text \<open>\<^verbatim>\<open>boot_map_segment\<close>: \<open>n\<close> pages from \<open>la\<close> on.\<close>

fun boot_map_loop :: "nat \<Rightarrow> nat \<Rightarrow> nat \<Rightarrow> nat \<Rightarrow> 32 word \<Rightarrow> machine \<Rightarrow> machine option" where
  "boot_map_loop pgdir 0 la pa perm s = Some s"
| "boot_map_loop pgdir (Suc n) la pa perm s = do {
     (ptep, s) \<leftarrow> get_pte pgdir la True s;
     (t, i) \<leftarrow> ptep;
     boot_map_loop pgdir n (u64 (la + PGSIZE)) (u64 (pa + PGSIZE)) perm
       (set_mem t i (pte_create (pa div 2 ^ 12) (PTE_V OR perm)) s)
   }"

definition boot_map_segment :: "nat \<Rightarrow> nat \<Rightarrow> nat \<Rightarrow> nat \<Rightarrow> 32 word \<Rightarrow> machine \<Rightarrow> machine option" where
  "boot_map_segment pgdir la len pa perm s = do {
     kassert (PGOFF la = PGOFF pa);
     boot_map_loop pgdir (ROUNDUP (u64 (len + PGOFF la)) PGSIZE div PGSIZE) (ROUNDDOWN la PGSIZE) (ROUNDDOWN pa PGSIZE) perm s
   }"

definition boot_alloc_page :: "machine \<Rightarrow> (nat \<times> machine) option" where
  "boot_alloc_page s = do {
     (r, s) \<leftarrow> alloc_pages 1 s;
     p \<leftarrow> r;
     k \<leftarrow> page2kva p s;
     Some (k, s)
   }"

text \<open>\<^verbatim>\<open>page_init\<close> with the memory the device tree reports and the address \<^verbatim>\<open>end\<close> of the kernel image; a descriptor has
  64 bytes.\<close>

definition page_init :: "nat \<Rightarrow> nat \<Rightarrow> nat \<Rightarrow> machine \<Rightarrow> machine option" where
  "page_init mem_begin mem_size kend s = do {
     kassert (mem_size \<noteq> 0);
     let mem_end = u64 (mem_begin + mem_size);
     let maxpa = (if mem_end > KERNTOP then KERNTOP else mem_end);
     let s = s\<lparr>npage := maxpa div PGSIZE\<rparr>;
     let pages_at = ROUNDUP kend PGSIZE;
     let n = u64_sub (npage s) nbase;
     let s = s\<lparr>pm := (pm s)\<lparr>pages := (\<lambda>p. if p < n then SetPageReserved (pages (pm s) p) else pages (pm s) p)\<rparr>\<rparr>;
     let after = u64 (pages_at + 64 * n);
     kassert (KERNBASE \<le> after);
     let freemem = u64_sub after 0xFFFFFFFF40000000;
     let mem_begin = ROUNDUP freemem PGSIZE;
     let mem_end = ROUNDDOWN mem_end PGSIZE;
     (if freemem < mem_end
      then do {
        p \<leftarrow> pa2page (word_of_nat mem_begin) s;
        a \<leftarrow> default_init_memmap p (u64_sub mem_end mem_begin div PGSIZE) (pm s);
        Some (s\<lparr>pm := a\<rparr>)
      }
      else Some s)
   }"

section \<open>Entries\<close>

lemma PPN_shift:
  assumes "n < 2 ^ 52"
  shows "PPN (push_bit 12 (word_of_nat n)) = n"
proof -
  have "drop_bit 12 (push_bit 12 (word_of_nat n) :: 64 word) = word_of_nat n"
    using bit_lt [OF assms] by (intro bit_word_eqI) (auto simp: bit_simps bit_word_nat not_le [symmetric])
  then show ?thesis using assms by (simp add: PPN_def unat_of_nat)
qed

lemma valid_simps [simp]: "\<not> valid 0" "valid (pte_create n p)"
proof -
  have "valid w \<longleftrightarrow> bit w 0" for w by (simp add: valid_def and_one_eq bit_0 odd_iff_mod_2_eq_one)
  then show "\<not> valid 0" "valid (pte_create n p)" by (simp_all add: pte_create_def bit_simps)
qed

lemma PPN_page2pa: "p + nbase < 2 ^ 44 \<Longrightarrow> PPN (page2pa p) = p + nbase"
  unfolding page2pa_def page2ppn_def by (rule PPN_shift) simp

lemma PPN_pte_create:
  assumes "n < 2 ^ 44" and "unat perm < 1024"
  shows "PPN (PTE_ADDR (pte_create n perm)) = n"
proof -
  have m: "(0x3FF :: 64 word) = mask 10" by (simp add: mask_eq_exp_minus_1)
  have p: "\<not> bit perm i" if "10 \<le> i" for i using bit_unat_lt [of perm 10 i] assms(2) that by simp
  define y where "y = 1 OR (signed perm :: 64 word)"
  have y: "\<not> bit y i" if "10 \<le> i" for i
    using p [of i] p [of 31] that by (auto simp: y_def bit_simps min_def)
  have "push_bit 2 ((push_bit 10 (word_of_nat n) OR y) AND NOT (mask 10)) = (push_bit 12 (word_of_nat n) :: 64 word)"
    by (intro bit_word_eqI) (auto simp: bit_simps bit_word_nat y)
  then have "PTE_ADDR (pte_create n perm) = push_bit 12 (word_of_nat n)"
    by (simp only: PTE_ADDR_def pte_create_def y_def m or.assoc)
  then show ?thesis using assms(1) by (simp add: PPN_shift)
qed

lemma pte_bit: "i < 10 \<Longrightarrow> bit (pte_create n perm) i \<longleftrightarrow> i = 0 \<or> bit perm i"
  by (auto simp: pte_create_def bit_simps min_def)

section \<open>The tables as trees\<close>

text \<open>
  The lower half of an address space, below \<open>2 ^ 38\<close>, is the process's own: the first 256 entries of its directory and the tables behind them.
  The upper half is the kernel's: \<^verbatim>\<open>setup_pgdir\<close> gives every process the same entries there, one of them a leaf for a whole gigabyte
  (\<^verbatim>\<open>kern/init/entry.S\<close>); they are no part of the tree.  An entry above the last level points to a table when it is valid and no leaf.
\<close>

abbreviation user_la :: "nat \<Rightarrow> bool" where
  "user_la la \<equiv> PDX1 la < 256"

definition slots :: "nat list \<Rightarrow> nat" where
  "slots p = (if p = [] then 256 else 512)"

definition points :: "64 word \<Rightarrow> bool" where
  "points e \<longleftrightarrow> valid e \<and> e AND (PTE_R OR PTE_W OR PTE_X) = 0"

text \<open>The table that a path leads to; the last step comes first.\<close>

fun node :: "machine \<Rightarrow> nat \<Rightarrow> nat list \<Rightarrow> nat option" where
  "node s d [] = Some d"
| "node s d (i # p) =
     (case node s d p of
        None \<Rightarrow> None
      | Some t \<Rightarrow> (if i < slots p \<and> points (mem s t i) then Some (PPN (PTE_ADDR (mem s t i))) else None))"

definition lookup :: "machine \<Rightarrow> nat \<Rightarrow> nat \<Rightarrow> 64 word option" where
  "lookup s d la =
     (case node s d [PDX0 la, PDX1 la] of
        None \<Rightarrow> None
      | Some t \<Rightarrow> (if valid (mem s t (PTX la)) then Some (mem s t (PTX la)) else None))"

definition used :: "machine \<Rightarrow> nat list \<Rightarrow> nat \<Rightarrow> bool" where
  "used s ps n \<longleftrightarrow> nbase \<le> n \<and> n < npage s \<and> n - nbase \<notin> free_set (pm s) ps"

text \<open>
  The invariant for the page directories \<open>D\<close> of all processes: the allocator is in order, every table of a process is a page in use, no page is
  a table in two places, and above the last level no entry is a leaf.  \<open>setup_pgdir_ok\<close> below shows that a new directory, with its copy of the
  entries of the kernel, joins the others.
\<close>

definition tables_ok :: "machine \<Rightarrow> nat list \<Rightarrow> nat set \<Rightarrow> bool" where
  "tables_ok s ps D \<longleftrightarrow>
     ff_inv (pm s) ps \<and> npage s \<le> 2 ^ 44 \<and> (\<forall>p\<in>free_set (pm s) ps. p + nbase < npage s) \<and>
     (\<forall>d\<in>D. \<forall>p n. length p \<le> 2 \<longrightarrow> node s d p = Some n \<longrightarrow> used s ps n) \<and>
     (\<forall>d\<in>D. \<forall>d'\<in>D. \<forall>p q n. length p \<le> 2 \<longrightarrow> length q \<le> 2 \<longrightarrow> node s d p = Some n \<longrightarrow> node s d' q = Some n \<longrightarrow>
        d = d' \<and> p = q) \<and>
     (\<forall>d\<in>D. \<forall>p t i. length p < 2 \<longrightarrow> node s d p = Some t \<longrightarrow> i < slots p \<longrightarrow> valid (mem s t i) \<longrightarrow> points (mem s t i))"

definition data_page :: "nat set \<Rightarrow> machine \<Rightarrow> nat list \<Rightarrow> nat \<Rightarrow> bool" where
  "data_page D s ps n \<longleftrightarrow> used s ps n \<and> (\<forall>d\<in>D. \<forall>p. length p \<le> 2 \<longrightarrow> node s d p \<noteq> Some n)"

text \<open>
  What building tables and mappings leaves alone: every page in use that is not a table of a process (the tables of the kernel among them), and the
  entries of the kernel in every directory.
\<close>

definition grows :: "nat set \<Rightarrow> machine \<Rightarrow> nat list \<Rightarrow> machine \<Rightarrow> nat list \<Rightarrow> bool" where
  "grows D s ps s' ps' \<longleftrightarrow>
     tables_ok s' ps' D \<and> npage s' = npage s \<and> free_set (pm s') ps' \<subseteq> free_set (pm s) ps \<and>
     (\<forall>d\<in>D. \<forall>p n. length p \<le> 2 \<longrightarrow> node s d p = Some n \<longrightarrow> node s' d p = Some n) \<and>
     (\<forall>d\<in>D. \<forall>p n. length p \<le> 2 \<longrightarrow> node s' d p = Some n \<longrightarrow> node s d p = Some n \<or> n - nbase \<in> free_set (pm s) ps) \<and>
     (\<forall>n. data_page D s ps n \<longrightarrow> mem s' n = mem s n) \<and> (\<forall>d\<in>D. \<forall>i. 256 \<le> i \<longrightarrow> mem s' d i = mem s d i)"

lemma slots_simps [simp]: "slots [] = 256" "slots (i # p) = 512"
  by (simp_all add: slots_def)

lemma points_valid [simp]: "points e \<Longrightarrow> valid e" "\<not> points 0"
  by (simp_all add: points_def)

lemma points_iff: "points e \<longleftrightarrow> valid e \<and> \<not> bit e 1 \<and> \<not> bit e 2 \<and> \<not> bit e 3"
proof -
  have m: "(PTE_R OR PTE_W OR PTE_X :: 64 word) = push_bit 1 (mask 3)" by (simp add: mask_eq_exp_minus_1)
  have b: "bit (push_bit 1 (mask 3) :: 64 word) i \<longleftrightarrow> i = 1 \<or> i = 2 \<or> i = 3" for i
    by (simp only: bit_push_bit_iff bit_mask_iff) auto
  have *: "e AND w = 0 \<longleftrightarrow> (\<forall>i. bit w i \<longrightarrow> \<not> bit e i)" for w
  proof
    assume "e AND w = 0"
    then have "\<not> bit (e AND w) i" for i by simp
    then show "\<forall>i. bit w i \<longrightarrow> \<not> bit e i" unfolding bit_and_iff by blast
  qed (auto intro!: bit_word_eqI simp: bit_and_iff)
  have "e AND push_bit 1 (mask 3) = 0 \<longleftrightarrow> \<not> bit e 1 \<and> \<not> bit e 2 \<and> \<not> bit e 3" unfolding * b by blast
  then show ?thesis by (simp only: points_def m)
qed

lemma points_create: "points (pte_create n (PTE_U OR PTE_V))"
proof -
  have "\<not> bit (0x11 :: 32 word) 1" "\<not> bit (0x11 :: 32 word) 2" "\<not> bit (0x11 :: 32 word) 3" by code_simp+
  then show ?thesis by (simp add: points_iff pte_bit)
qed

lemma node_used: "tables_ok s ps D \<Longrightarrow> d \<in> D \<Longrightarrow> length p \<le> 2 \<Longrightarrow> node s d p = Some n \<Longrightarrow> used s ps n"
  by (simp add: tables_ok_def)

lemma node_inj:
  "tables_ok s ps D \<Longrightarrow> d \<in> D \<Longrightarrow> d' \<in> D \<Longrightarrow> length p \<le> 2 \<Longrightarrow> length q \<le> 2 \<Longrightarrow> node s d p = Some n \<Longrightarrow>
     node s d' q = Some n \<Longrightarrow> d = d' \<and> p = q"
  by (simp add: tables_ok_def)

lemma node_mem: "mem s' = mem s \<Longrightarrow> node s' d p = node s d p"
  by (induction p) (auto split: option.splits)

lemma used_mono: "used s ps n \<Longrightarrow> npage s' = npage s \<Longrightarrow> free_set (pm s') ps' \<subseteq> free_set (pm s) ps \<Longrightarrow> used s' ps' n"
  by (auto simp: used_def)

lemma grows_used: "grows D s ps s' ps' \<Longrightarrow> used s ps n \<Longrightarrow> used s' ps' n"
  by (auto simp: grows_def used_def)

lemma grows_data: "grows D s ps s' ps' \<Longrightarrow> data_page D s ps n \<Longrightarrow> data_page D s' ps' n"
  unfolding data_page_def using grows_used [of D s ps s' ps' n] unfolding grows_def used_def by blast

lemma node_points:
  "tables_ok s ps D \<Longrightarrow> d \<in> D \<Longrightarrow> length p < 2 \<Longrightarrow> node s d p = Some t \<Longrightarrow> i < slots p \<Longrightarrow> valid (mem s t i) \<longleftrightarrow> points (mem s t i)"
  unfolding tables_ok_def by (metis points_valid(1))

lemma root_node: "tables_ok s ps D \<Longrightarrow> d \<in> D \<Longrightarrow> d' \<in> D \<Longrightarrow> length p \<le> 2 \<Longrightarrow> node s d' p = Some d \<Longrightarrow> d' = d \<and> p = []"
  using node_inj [of s ps D d' d p "[]" d] by simp

lemma node_same:
  assumes "\<And>p t i. length p < 2 \<Longrightarrow> node s d p = Some t \<Longrightarrow> i < slots p \<Longrightarrow> mem s' t i = mem s t i"
  shows "length p \<le> 2 \<Longrightarrow> node s' d p = node s d p"
proof (induction p)
  case (Cons i p)
  then show ?case using assms [of p _ i] by (cases "node s d p") auto
qed simp

lemma tables_ok_same:
  assumes ok: "tables_ok s ps D"
    and same: "\<And>d p t i. d \<in> D \<Longrightarrow> length p < 2 \<Longrightarrow> node s d p = Some t \<Longrightarrow> i < slots p \<Longrightarrow> mem s' t i = mem s t i"
    and s': "ff_inv (pm s') ps'" "free_set (pm s') ps' \<subseteq> free_set (pm s) ps" "npage s' = npage s"
  shows "tables_ok s' ps' D"
proof -
  have nd: "node s' d p = node s d p" if "d \<in> D" "length p \<le> 2" for d p by (rule node_same [OF same [OF that(1)] that(2)])
  show ?thesis
    unfolding tables_ok_def
  proof (intro conjI ballI allI impI)
    show "ff_inv (pm s') ps'" "npage s' \<le> 2 ^ 44" using s' ok by (auto simp: tables_ok_def)
    show "q + nbase < npage s'" if "q \<in> free_set (pm s') ps'" for q using that s' ok by (auto simp: tables_ok_def)
    show "points (mem s' t i)" if "d \<in> D" "length p < 2" "node s' d p = Some t" "i < slots p" "valid (mem s' t i)" for d p t i
      using that nd [of d p] same [of d p t i] node_points [OF ok that(1,2), of t i] by simp
    fix e r m assume e: "e \<in> D" "length r \<le> 2" "node s' e r = Some m"
    then show "used s' ps' m" using node_used [OF ok e(1,2), of m] nd s' by (auto simp: used_def)
    fix e' r' assume e': "e' \<in> D" "length r' \<le> 2" "node s' e' r' = Some m"
    show "e = e'" "r = r'" using node_inj [OF ok e(1) e'(1) e(2) e'(2), of m] nd e e' by simp_all
  qed
qed

lemma grows_refl: "tables_ok s ps D \<Longrightarrow> grows D s ps s ps"
  by (simp add: grows_def)

lemma grows_trans:
  assumes "grows D s ps s1 ps1" and "grows D s1 ps1 s2 ps2"
  shows "grows D s ps s2 ps2"
proof -
  have "mem s2 n = mem s n" if "data_page D s ps n" for n
    using assms that grows_data [OF assms(1) that] by (simp add: grows_def)
  moreover have "node s d p = Some n \<or> n - nbase \<in> free_set (pm s) ps" if "node s2 d p = Some n" "length p \<le> 2" "d \<in> D" for d p n
    using assms that unfolding grows_def by blast
  ultimately show ?thesis using assms unfolding grows_def by auto
qed

section \<open>One page from the allocator\<close>

lemma take_block_ref: "ref (pages (take_block p n a) q) = ref (pages a q)"
  by (simp add: take_block_def Let_def)

lemma alloc_page_ok:
  assumes ok: "tables_ok s ps D"
  obtains (none) "alloc_pages 1 s = Some (None, s)" "nr_free_pages s = 0"
  | (some) p s1 ps1 where "alloc_pages 1 s = Some (Some p, s1)" "p \<in> free_set (pm s) ps" "ff_inv (pm s1) ps1"
      "free_set (pm s1) ps1 = free_set (pm s) ps - {p}" "mem s1 = mem s" "npage s1 = npage s"
      "\<And>q. page_ref q s1 = page_ref q s" "nr_free_pages s = Suc (nr_free_pages s1)"
proof -
  have inv: "ff_inv (pm s) ps" using ok by (simp add: tables_ok_def)
  from default_alloc_pages_eq [OF inv, of 1]
  have eq: "default_alloc_pages 1 (pm s) = (case find (\<lambda>p. 1 \<le> property (pages (pm s) p)) ps of
      None \<Rightarrow> Some (None, pm s) | Some p \<Rightarrow> Some (Some p, take_block p 1 (pm s)))" by simp
  show thesis
  proof (cases "find (\<lambda>p. 1 \<le> property (pages (pm s) p)) ps")
    case None
    then have "ps = []" using inv by (cases ps) (auto simp: ff_inv_def)
    then have "nr_free_pages s = 0" using inv by (simp add: ff_inv_def nr_free_pages_def default_nr_free_pages_def)
    then show thesis using none eq None by (simp add: alloc_pages_def)
  next
    case (Some p)
    with eq have r: "default_alloc_pages 1 (pm s) = Some (Some p, take_block p 1 (pm s))" by simp
    from ff.alloc_some [OF inv _ r] obtain ps1 where sub: "p \<in> free_set (pm s) ps" and
      ps1: "ff_inv (take_block p 1 (pm s)) ps1" "free_set (take_block p 1 (pm s)) ps1 = free_set (pm s) ps - {p}" by auto
    have "nr_free (pm s) = Suc (nr_free (take_block p 1 (pm s)))"
      using ff_inv_card [OF inv] ff_inv_card [OF ps1(1)] ps1(2) sub card_Suc_Diff1 [of "free_set (pm s) ps" p] ff.avail_finite [OF inv]
      by simp
    then show thesis using some [of p "s\<lparr>pm := take_block p 1 (pm s)\<rparr>" ps1] r sub ps1
      by (simp add: alloc_pages_def page_ref_def take_block_ref nr_free_pages_def default_nr_free_pages_def)
  qed
qed

section \<open>Making a table\<close>

text \<open>A new table behind the entry \<open>i\<close> of the table at the end of the path \<open>p\<close>.\<close>

lemma node_extend:
  assumes t: "node s d p = Some t" "length p < 2" "d \<in> D" and i: "i < slots p" "\<not> valid (mem s t i)" and ok: "tables_ok s ps D"
    and new: "n - nbase \<in> free_set (pm s) ps"
    and mem: "\<And>m. m \<noteq> t \<Longrightarrow> m \<noteq> n \<Longrightarrow> mem s' m = mem s m" "mem s' n = (\<lambda>_. 0)" "\<And>j. j \<noteq> i \<Longrightarrow> mem s' t j = mem s t j"
      "points (mem s' t i)" "PPN (PTE_ADDR (mem s' t i)) = n"
    and d': "d' \<in> D"
  shows "length q \<le> 2 \<Longrightarrow> node s' d' q = (if d' = d \<and> q = i # p then Some n else node s d' q)"
proof (induction q)
  case (Cons j q)
  have fresh: "m \<noteq> n" if "node s e r = Some m" "e \<in> D" "length r \<le> 2" for e r m
    using node_used [OF ok that(2,3,1)] new by (auto simp: used_def)
  show ?case
  proof (cases "d' = d \<and> q = i # p")
    case True
    moreover have "\<not> points (mem s t i)" using i(2) by auto
    ultimately show ?thesis using Cons t i(1) mem(2) by simp
  next
    case False
    with Cons have IH: "node s' d' q = node s d' q" by simp
    show ?thesis
    proof (cases "node s d' q")
      case None
      then show ?thesis using IH t by auto
    next
      case (Some m)
      have "m = t \<longleftrightarrow> d' = d \<and> q = p" using node_inj [OF ok t(3) d' _ _ t(1), of q] Some t Cons.prems by auto
      moreover have "m \<noteq> n" using fresh [OF Some d'] Cons.prems by simp
      moreover have "t \<noteq> n" using fresh [OF t(1,3)] t(2) by simp
      moreover have "\<not> points (mem s t i)" using i(2) by auto
      ultimately show ?thesis using IH Some i mem t by (cases "m = t"; cases "j = i") auto
    qed
  qed
qed simp

lemma extend_ok:
  assumes t: "node s d p = Some t" "length p < 2" "d \<in> D" and i: "i < slots p" "\<not> valid (mem s t i)" and ok: "tables_ok s ps D"
    and new: "n - nbase \<in> free_set (pm s) ps" "nbase \<le> n" and ff: "ff_inv (pm s') ps'" "free_set (pm s') ps' = free_set (pm s) ps - {n - nbase}"
    and np: "npage s' = npage s"
    and mem: "\<And>m. m \<noteq> t \<Longrightarrow> m \<noteq> n \<Longrightarrow> mem s' m = mem s m" "mem s' n = (\<lambda>_. 0)" "\<And>j. j \<noteq> i \<Longrightarrow> mem s' t j = mem s t j"
      "points (mem s' t i)" "PPN (PTE_ADDR (mem s' t i)) = n"
  shows "grows D s ps s' ps' \<and> node s' d (i # p) = Some n \<and> (\<forall>d'\<in>D. \<forall>la. lookup s' d' la = lookup s d' la)"
proof -
  have ext: "node s' d' q = (if d' = d \<and> q = i # p then Some n else node s d' q)" if "d' \<in> D" "length q \<le> 2" for d' q
    by (rule node_extend [OF t i ok new(1) _ mem(2) _ mem(4,5) that]) (use mem(1,3) in auto)
  have none: "node s d (i # p) = None" using t i by auto
  have fresh: "m \<noteq> n" if "node s e r = Some m" "e \<in> D" "length r \<le> 2" for e r m
    using node_used [OF ok that(2,3,1)] new by (auto simp: used_def)
  have usd: "used s' ps' m" if "used s ps m \<or> m = n" for m
    using that new np ff(2) ok by (auto simp: used_def tables_ok_def)
  have look: "lookup s' d' la = lookup s d' la" if d': "d' \<in> D" for d' la
  proof (cases "node s d' [PDX0 la, PDX1 la]")
    case None
    then show ?thesis using ext [OF d', of "[PDX0 la, PDX1 la]"] mem(2) by (auto simp: lookup_def simp del: node.simps)
  next
    case (Some m)
    then have "m \<noteq> t" using node_inj [OF ok t(3) d' _ _ t(1), of "[PDX0 la, PDX1 la]"] t(2) by auto
    moreover have "m \<noteq> n" using fresh [OF Some d'] by simp
    moreover have "\<not> (d' = d \<and> [PDX0 la, PDX1 la] = i # p)" using Some none by auto
    ultimately show ?thesis using ext [OF d', of "[PDX0 la, PDX1 la]"] mem(1) Some by (auto simp: lookup_def simp del: node.simps)
  qed
  have "tables_ok s' ps' D"
    unfolding tables_ok_def
  proof (intro conjI ballI allI impI)
    show "ff_inv (pm s') ps'" "npage s' \<le> 2 ^ 44" using ff np ok by (auto simp: tables_ok_def)
    show "q + nbase < npage s'" if "q \<in> free_set (pm s') ps'" for q using that ff np ok by (auto simp: tables_ok_def)
    show "points (mem s' u j)" if u: "e \<in> D" "length r < 2" "node s' e r = Some u" "j < slots r" "valid (mem s' u j)" for e r u j
    proof (cases "u = n \<or> u = t \<and> j = i")
      case True
      then show ?thesis using u(5) mem(2,4) by auto
    next
      case False
      then have "mem s' u j = mem s u j" using mem(1) [of u] mem(3) [of j] by (cases "u = t") auto
      moreover have "node s e r = Some u" using False ext [of e r] u by (auto split: if_splits)
      ultimately show ?thesis using node_points [OF ok u(1,2) _ u(4)] u(5) by simp
    qed
    fix e r m assume e: "e \<in> D" "length r \<le> 2" "node s' e r = Some m"
    then have or: "node s e r = Some m \<or> e = d \<and> r = i # p \<and> m = n" using ext [OF e(1,2)] by (auto split: if_splits)
    then show "used s' ps' m" using usd node_used [OF ok e(1,2)] by blast
    fix e' r' assume e': "e' \<in> D" "length r' \<le> 2" "node s' e' r' = Some m"
    then have "node s e' r' = Some m \<or> e' = d \<and> r' = i # p \<and> m = n" using ext [OF e'(1,2)] by (auto split: if_splits)
    with or show "e = e'" "r = r'" using fresh e(1,2) e'(1,2) node_inj [OF ok e(1) e'(1) e(2) e'(2)] by blast+
  qed
  moreover have "mem s' m = mem s m" if "data_page D s ps m" for m
    using that mem(1) [of m] t new unfolding data_page_def used_def by (metis less_imp_le_nat)
  moreover have "mem s' d' j = mem s d' j" if d': "d' \<in> D" "256 \<le> j" for d' j
  proof (cases "d' = t")
    case True
    then have "p = []" using root_node [OF ok d'(1) t(3) _ t(1) [folded True]] t(2) by simp
    then show ?thesis using mem(3) [of j] i(1) d'(2) True by simp
  next
    case False
    moreover have "d' \<noteq> n" using fresh [of d' "[]" d'] d'(1) by simp
    ultimately show ?thesis using mem(1) by simp
  qed
  ultimately show ?thesis using ext look ff(2) np t none new unfolding grows_def by (auto simp del: node.simps)
qed

lemma upd_ref_sel [simp]:
  "mem (upd_ref p f s) = mem s" "npage (upd_ref p f s) = npage s"
  "page_ref q (upd_ref p f s) = (if q = p then f (page_ref p s) else page_ref q s)"
  "nr_free_pages (upd_ref p f s) = nr_free_pages s"
  by (simp_all add: upd_ref_def page_ref_def nr_free_pages_def default_nr_free_pages_def)

lemma set_mem_sel [simp]:
  "pm (set_mem t i w s) = pm s" "npage (set_mem t i w s) = npage s" "page_ref q (set_mem t i w s) = page_ref q s"
  "mem (set_mem t i w s) = (mem s)(t := (mem s t)(i := w))" "nr_free_pages (set_mem t i w s) = nr_free_pages s"
  by (simp_all add: set_mem_def page_ref_def nr_free_pages_def)

text \<open>Reference counts are no concern of the allocator's invariant.\<close>

lemma upd_ref_ff [simp]:
  "ff_inv (pm (upd_ref p f s)) ps = ff_inv (pm s) ps" "free_set (pm (upd_ref p f s)) ps = free_set (pm s) ps"
proof -
  let ?g = "pages (pm (upd_ref p f s))"
  have g: "property (?g q) = property (pages (pm s) q)" "PageProperty (?g q) = PageProperty (pages (pm s) q)"
    "PageReserved (?g q) = PageReserved (pages (pm s) q)" for q
    by (simp_all add: upd_ref_def)
  have b: "blocks ?g ps = blocks (pages (pm s)) ps" and t: "total ?g ps = total (pages (pm s)) ps"
    by (simp_all add: blocks_def block_def total_def g)
  have a: "apart ?g = apart (pages (pm s))" by (simp add: apart_def fun_eq_iff g)
  show "free_set (pm (upd_ref p f s)) ps = free_set (pm s) ps" by (simp add: free_set_def b)
  show "ff_inv (pm (upd_ref p f s)) ps = ff_inv (pm s) ps"
    unfolding ff_inv_def b t a g heads_ok_def by (simp add: upd_ref_def)
qed

lemma KADDR_node:
  assumes "tables_ok s ps D" "d \<in> D" "length p < 2" "node s d (i # p) = Some n" "node s d p = Some t"
  shows "points (mem s t i) \<and> KADDR (PTE_ADDR (mem s t i)) s = Some n"
  using node_used [OF assms(1,2) _ assms(4)] assms(3,4,5) by (auto simp: KADDR_def used_def split: if_splits)

lemma table_step_find:
  assumes "tables_ok s ps D" "d \<in> D" "length p < 2" "node s d p = Some t" "i < slots p"
  shows "table_step t i False s = Some (node s d (i # p), s)"
    and "node s d (i # p) \<noteq> None \<Longrightarrow> table_step t i c s = Some (node s d (i # p), s)"
proof -
  have "KADDR (PTE_ADDR (mem s t i)) s = Some (PPN (PTE_ADDR (mem s t i)))" if "valid (mem s t i)"
    using KADDR_node [OF assms(1-3) _ assms(4), of i] node_points [OF assms(1-5)] assms(4,5) that by simp
  moreover note node_points [OF assms(1-5)]
  ultimately show "table_step t i False s = Some (node s d (i # p), s)"
    "node s d (i # p) \<noteq> None \<Longrightarrow> table_step t i c s = Some (node s d (i # p), s)"
    using assms(4,5) by (cases "valid (mem s t i)"; simp add: table_step_def)+
qed

lemma table_step_create:
  assumes ok: "tables_ok s ps D" and p: "d \<in> D" "length p < 2" "node s d p = Some t" and i: "i < slots p"
  obtains (none) "table_step t i True s = Some (None, s)" "nr_free_pages s = 0" "node s d (i # p) = None"
  | (some) n s1 ps1 where "table_step t i True s = Some (Some n, s1)" "grows D s ps s1 ps1" "node s1 d (i # p) = Some n"
      "\<forall>d'\<in>D. \<forall>la. lookup s1 d' la = lookup s d' la" "\<forall>q. q \<notin> free_set (pm s) ps \<longrightarrow> page_ref q s1 = page_ref q s"
      "nr_free_pages s \<le> Suc (nr_free_pages s1)"
proof (cases "node s d (i # p)")
  case (Some n)
  then show thesis using some [of n s ps] table_step_find(2) [OF ok p i, of True] grows_refl [OF ok] by simp
next
  case None
  then have inv: "\<not> valid (mem s t i)" using p i node_points [OF ok p i] by (simp split: if_splits)
  from ok show thesis
  proof (cases rule: alloc_page_ok)
    case none
    then show thesis using that(1) inv None by (simp add: table_step_def)
  next
    case (some q s1 ps1)
    let ?n = "q + nbase"
    have n: "?n < npage s" "npage s \<le> 2 ^ 44" using some(2) ok by (auto simp: tables_ok_def)
    define s2 where "s2 = set_mem t i (pte_create ?n (PTE_U OR PTE_V)) ((upd_ref q (\<lambda>_. 1) s1)\<lparr>mem := (mem s1)(?n := (\<lambda>_. 0))\<rparr>)"
    have "PPN (PTE_ADDR (pte_create ?n (PTE_U OR PTE_V))) = ?n" using n by (intro PPN_pte_create) auto
    moreover have "t \<noteq> ?n" using node_used [OF ok p(1) _ p(3)] p(2) some(2) by (auto simp: used_def)
    ultimately have "table_step t i True s = Some (Some ?n, s2)" and e: "PPN (PTE_ADDR (mem s2 t i)) = ?n" "points (mem s2 t i)"
      using inv some(1,5,6) n PPN_page2pa [of q] points_create [of ?n] by (simp_all add: table_step_def KADDR_def s2_def page2ppn_def)
    moreover have "grows D s ps s2 ps1 \<and> node s2 d (i # p) = Some ?n \<and> (\<forall>d'\<in>D. \<forall>la. lookup s2 d' la = lookup s d' la)"
      using p(3,2,1) i inv ok
    proof (rule extend_ok)
      show "ff_inv (pm s2) ps1" "free_set (pm s2) ps1 = free_set (pm s) ps - {?n - nbase}" using some by (simp_all add: s2_def)
      show "npage s2 = npage s" "mem s2 ?n = (\<lambda>_. 0)" using some \<open>t \<noteq> ?n\<close> by (simp_all add: s2_def)
      show "mem s2 m = mem s m" if "m \<noteq> t" "m \<noteq> ?n" for m using some that by (simp add: s2_def)
      show "mem s2 t j = mem s t j" if "j \<noteq> i" for j using some that \<open>t \<noteq> ?n\<close> by (simp add: s2_def)
    qed (use e some in simp_all)
    moreover have "page_ref r s2 = page_ref r s" if "r \<notin> free_set (pm s) ps" for r
      using that some(2,7) by (auto simp: s2_def page_ref_def upd_ref_def)
    moreover have "nr_free_pages s = Suc (nr_free_pages s2)" using some(8) by (simp add: s2_def nr_free_pages_def upd_ref_def default_nr_free_pages_def)
    ultimately show thesis using that(2) [of ?n s2 ps1] by (simp del: node.simps)
  qed
qed

lemma index_lt [simp]: "PDX1 la < 512" "PDX0 la < 512" "PTX la < 512"
  by (simp_all add: PDX1_def PDX0_def PTX_def)

lemma user_la: "la < 2 ^ 38 \<Longrightarrow> user_la la"
  by (simp add: PDX1_def less_mult_imp_div_less)

lemma get_pte_find:
  assumes "tables_ok s ps D" "d \<in> D" "user_la la"
  shows "get_pte d la False s = Some (map_option (\<lambda>t. (t, PTX la)) (node s d [PDX0 la, PDX1 la]), s)"
proof (cases "node s d [PDX1 la]")
  case None
  then show ?thesis using table_step_find(1) [OF assms(1,2), of "[]" d "PDX1 la"] assms(3) by (simp add: get_pte_def)
next
  case (Some t)
  then show ?thesis
    using table_step_find(1) [OF assms(1,2), of "[]" d "PDX1 la"] table_step_find(1) [OF assms(1,2), of "[PDX1 la]" t "PDX0 la"] assms(3)
    by (simp add: get_pte_def)
qed

lemma get_pte_exists:
  assumes "tables_ok s ps D" "d \<in> D" "node s d [PDX0 la, PDX1 la] = Some t"
  shows "get_pte d la c s = Some (Some (t, PTX la), s)"
proof -
  from assms(3) obtain t1 where t1: "node s d [PDX1 la] = Some t1" by (fastforce split: option.splits)
  moreover from t1 have "user_la la" by (simp split: if_splits)
  ultimately show ?thesis
    using table_step_find(2) [OF assms(1,2), of "[]" d "PDX1 la" c] table_step_find(2) [OF assms(1,2), of "[PDX1 la]" t1 "PDX0 la" c] assms(3)
    by (simp add: get_pte_def del: node.simps(2))
qed

lemma get_pte_create:
  assumes ok: "tables_ok s ps D" and d: "d \<in> D" and la: "user_la la"
  obtains (none) s1 ps1 where "get_pte d la True s = Some (None, s1)" "grows D s ps s1 ps1"
      "\<forall>d'\<in>D. \<forall>la. lookup s1 d' la = lookup s d' la" "\<forall>q. q \<notin> free_set (pm s) ps \<longrightarrow> page_ref q s1 = page_ref q s"
      "nr_free_pages s < 2" "node s d [PDX0 la, PDX1 la] = None"
  | (some) t s1 ps1 where "get_pte d la True s = Some (Some (t, PTX la), s1)" "grows D s ps s1 ps1"
      "node s1 d [PDX0 la, PDX1 la] = Some t" "\<forall>d'\<in>D. \<forall>la. lookup s1 d' la = lookup s d' la"
      "\<forall>q. q \<notin> free_set (pm s) ps \<longrightarrow> page_ref q s1 = page_ref q s" "nr_free_pages s \<le> nr_free_pages s1 + 2"
proof -
  have root: "length ([] :: nat list) < 2" "node s d [] = Some d" "PDX1 la < slots []" using la by simp_all
  from ok d root show thesis
  proof (cases rule: table_step_create)
    case none
    then show thesis using that(1) [of s ps] grows_refl [OF ok] by (simp add: get_pte_def del: node.simps(2)) (simp split: if_splits)
  next
    case (some n s1 ps1)
    have ok1: "tables_ok s1 ps1 D" using some(2) by (simp add: grows_def)
    have p: "length [PDX1 la] < 2" "PDX0 la < slots [PDX1 la]" by simp_all
    from ok1 d p(1) some(3) p(2) show thesis
    proof (cases rule: table_step_create)
      case none
      have "node s d [PDX0 la, PDX1 la] = None" using none(3) some(2) d unfolding grows_def by (metis option.exhaust option.distinct(1) length_Cons list.size(3) numeral_2_eq_2 order_refl)
      then show thesis using that(1) [of s1 ps1] some none by (simp add: get_pte_def del: node.simps)
    next
      case some2: (some t s2 ps2)
      have "q \<notin> free_set (pm s1) ps1" if "q \<notin> free_set (pm s) ps" for q using some(2) that by (auto simp: grows_def)
      then show thesis using that(2) [of t s2 ps2] some some2 grows_trans [OF some(2) some2(2)] by (simp add: get_pte_def del: node.simps)
    qed
  qed
qed

section \<open>Writing an entry\<close>

definition vpn :: "nat \<Rightarrow> nat \<times> nat \<times> nat" where
  "vpn la = (PDX1 la, PDX0 la, PTX la)"

lemma set_leaf:
  assumes ok: "tables_ok s ps D" and d: "d \<in> D" and t: "node s d [PDX0 la, PDX1 la] = Some t"
    and s': "mem s' = (mem s)(t := (mem s t)(PTX la := w))" "ff_inv (pm s') ps" "free_set (pm s') ps = free_set (pm s) ps" "npage s' = npage s"
  shows "grows D s ps s' ps"
    and "d' \<in> D \<Longrightarrow> lookup s' d' la' = (if d' = d \<and> vpn la' = vpn la then (if valid w then Some w else None) else lookup s d' la')"
proof -
  have same: "mem s' u i = mem s u i" if "d' \<in> D" "length q < 2" "node s d' q = Some u" for d' q u i
    using node_inj [OF ok d that(1) _ _ t, of q] that(2,3) s'(1) by auto
  have up: "node s' d' q = node s d' q" if "length q \<le> 2" "d' \<in> D" for d' q
    using node_same [OF same [OF that(2)]] that(1) by simp
  have "tables_ok s' ps D" by (rule tables_ok_same [OF ok same]) (simp_all add: s')
  moreover have "mem s' n = mem s n" if "data_page D s ps n" for n
    using that t d s'(1) unfolding data_page_def by (metis fun_upd_other length_Cons list.size(3) numeral_2_eq_2 order_refl)
  moreover have "mem s' d' i = mem s d' i" if "d' \<in> D" for d' i using same [of d' "[]" d' i] that by simp
  ultimately show "grows D s ps s' ps" using up s' by (auto simp: grows_def simp del: node.simps)
  show "lookup s' d' la' = (if d' = d \<and> vpn la' = vpn la then (if valid w then Some w else None) else lookup s d' la')" if "d' \<in> D"
  proof (cases "node s d' [PDX0 la', PDX1 la'] = Some t")
    case True
    then have "d' = d \<and> [PDX0 la', PDX1 la'] = [PDX0 la, PDX1 la]" using node_inj [OF ok that d _ _ True t] by simp
    then show ?thesis using up [of "[PDX0 la', PDX1 la']" d'] that True s'(1) by (auto simp: lookup_def vpn_def simp del: node.simps)
  next
    case False
    then have "\<not> (d' = d \<and> vpn la' = vpn la)" using t by (auto simp: vpn_def simp del: node.simps)
    then show ?thesis using up [of "[PDX0 la', PDX1 la']" d'] that False s'(1)
      by (auto simp: lookup_def simp del: node.simps split: option.splits)
  qed
qed

section \<open>Mapping a page\<close>

lemma lookup_some:
  "lookup s d la = Some e \<longleftrightarrow> (\<exists>t. node s d [PDX0 la, PDX1 la] = Some t \<and> mem s t (PTX la) = e \<and> valid e)"
  by (auto simp: lookup_def simp del: node.simps split: option.splits)

text \<open>The frame a lookup leads to.\<close>

definition frame :: "machine \<Rightarrow> nat \<Rightarrow> nat \<Rightarrow> nat option" where
  "frame s d la = map_option (\<lambda>e. PPN (PTE_ADDR e)) (lookup s d la)"

lemma pte2page_used: "valid e \<Longrightarrow> used s ps (PPN (PTE_ADDR e)) \<Longrightarrow> npage s' = npage s \<Longrightarrow> pte2page e s' = Some (PPN (PTE_ADDR e) - nbase)"
  by (simp add: pte2page_def pa2page_def used_def)

text \<open>The part of \<^verbatim>\<open>page_insert\<close> behind \<^verbatim>\<open>get_pte\<close>: the new count of references and the entry, whatever was there before.\<close>

lemma replace_entry:
  assumes t: "node s d [PDX0 la, PDX1 la] = Some t"
    and old: "\<forall>n. frame s d la = Some n \<longrightarrow> used s ps n \<and> (n \<noteq> p + nbase \<longrightarrow> page_ref (n - nbase) s \<noteq> 1)"
    and E: "E = mem s t (PTX la)"
  obtains s1 where
    "(let s0 = page_ref_inc p s in
      if valid E then do { q \<leftarrow> pte2page E s0; (if q = p then Some (page_ref_dec p s0) else page_remove_pte (t, PTX la) s0) }
      else Some s0) = Some s1"
    "set_mem t (PTX la) w s1 = set_mem t (PTX la) w (s\<lparr>pm := pm s1\<rparr>)" "\<And>ps. ff_inv (pm s1) ps = ff_inv (pm s) ps"
    "\<And>ps. free_set (pm s1) ps = free_set (pm s) ps" "nr_free_pages s1 = nr_free_pages s"
    "\<And>q. page_ref q s1 = page_ref q s + (if q = p then 1 else 0) - (if frame s d la = Some (q + nbase) then 1 else 0)"
proof (cases "valid E")
  case False
  then have "frame s d la = None" using t E by (simp add: frame_def lookup_def del: node.simps)
  then show thesis using False that [of "page_ref_inc p s"]
    by (simp add: page_ref_inc_def set_mem_def)
next
  case True
  let ?n = "PPN (PTE_ADDR E)"
  have fr: "frame s d la = Some ?n" using t E True by (simp add: frame_def lookup_def del: node.simps)
  with old have n: "used s ps ?n" "?n \<noteq> p + nbase \<longrightarrow> page_ref (?n - nbase) s \<noteq> 1" by auto
  have q: "pte2page E s' = Some (?n - nbase)" if "npage s' = npage s" for s' using pte2page_used [OF True n(1) that] .
  have nb: "nbase \<le> ?n" using n(1) by (simp add: used_def)
  show thesis
  proof (cases "?n - nbase = p")
    case same: True
    then show thesis using that [of "page_ref_dec p (page_ref_inc p s)"] True q fr nb
      by (auto simp: page_ref_inc_def page_ref_dec_def set_mem_def)
  next
    case False
    with nb have "?n \<noteq> p + nbase" by auto
    with n have r1: "page_ref (?n - nbase) s \<noteq> 1" by simp
    let ?s1 = "page_ref_dec (?n - nbase) (page_ref_inc p s)"
    have "page_ref q ?s1 = page_ref q s + (if q = p then 1 else 0) - (if frame s d la = Some (q + nbase) then 1 else 0)" for q
      using fr nb False by (auto simp: page_ref_inc_def page_ref_dec_def)
    then show thesis
      using that [of "set_mem t (PTX la) 0 ?s1"] True q [of "page_ref_inc p s"] E r1 False
      by (simp add: page_ref_inc_def page_ref_dec_def page_remove_pte_def Let_def)
  qed
qed

lemma page_insert_ok:
  assumes ok: "tables_ok s ps D" and d: "d \<in> D" and la: "user_la la" and p: "p + nbase < npage s" "p \<notin> free_set (pm s) ps"
    and old: "\<forall>n. frame s d la = Some n \<longrightarrow> used s ps n \<and> (n \<noteq> p + nbase \<longrightarrow> page_ref (n - nbase) s \<noteq> 1)"
  obtains (none) s' ps' where "page_insert d p la perm s = Some (- E_NO_MEM, s')" "grows D s ps s' ps'" "nr_free_pages s < 2" "node s d [PDX0 la, PDX1 la] = None"
      "\<forall>d'\<in>D. \<forall>la. lookup s' d' la = lookup s d' la" "\<forall>q. q \<notin> free_set (pm s) ps \<longrightarrow> page_ref q s' = page_ref q s"
  | (some) s' ps' where "page_insert d p la perm s = Some (0, s')" "grows D s ps s' ps'" "nr_free_pages s \<le> nr_free_pages s' + 2"
      "node s d [PDX0 la, PDX1 la] \<noteq> None \<longrightarrow> nr_free_pages s' = nr_free_pages s" "lookup s' d la = Some (pte_create (p + nbase) (PTE_V OR perm))"
      "\<forall>d'\<in>D. \<forall>la'. (d', vpn la') \<noteq> (d, vpn la) \<longrightarrow> lookup s' d' la' = lookup s d' la'"
      "\<forall>q. q \<notin> free_set (pm s) ps \<longrightarrow>
         page_ref q s' = page_ref q s + (if q = p then 1 else 0) - (if frame s d la = Some (q + nbase) then 1 else 0)"
proof (cases rule: get_pte_create [OF ok d la])
  case (1 s1 ps1)
  then show thesis using none [of s1 ps1] by (simp add: page_insert_def del: node.simps)
next
  case (2 t s1 ps1)
  note some1 = 2
  have ok1: "tables_ok s1 ps1 D" using some1(2) by (simp add: grows_def)
  have fr: "frame s1 d la = frame s d la" using some1(4) d by (simp add: frame_def)
  have old1: "\<forall>n. frame s1 d la = Some n \<longrightarrow> used s1 ps1 n \<and> (n \<noteq> p + nbase \<longrightarrow> page_ref (n - nbase) s1 \<noteq> 1)"
    using old some1(5) grows_used [OF some1(2)] unfolding fr by (auto simp: used_def)
  let ?w = "pte_create (p + nbase) (PTE_V OR perm)"
  from some1(3) old1 refl obtain s2 where s2: "(let s0 = page_ref_inc p s1 in
      if valid (mem s1 t (PTX la)) then do { q \<leftarrow> pte2page (mem s1 t (PTX la)) s0;
        (if q = p then Some (page_ref_dec p s0) else page_remove_pte (t, PTX la) s0) } else Some s0) = Some s2"
    and w: "set_mem t (PTX la) ?w s2 = set_mem t (PTX la) ?w (s1\<lparr>pm := pm s2\<rparr>)"
    and ff: "\<And>ps. ff_inv (pm s2) ps = ff_inv (pm s1) ps" "\<And>ps. free_set (pm s2) ps = free_set (pm s1) ps"
    and nr: "nr_free_pages s2 = nr_free_pages s1"
    and refs: "\<And>q. page_ref q s2 = page_ref q s1 + (if q = p then 1 else 0) - (if frame s1 d la = Some (q + nbase) then 1 else 0)"
    by (rule replace_entry [where w = ?w]) (rule that; assumption)
  let ?s' = "set_mem t (PTX la) ?w s2"
  have r: "page_insert d p la perm s = Some (0, ?s')"
    using some1(1) s2 by (auto simp: page_insert_def page_ref_inc_def page2ppn_def Let_def split: if_splits bind_splits)
  have m: "mem ?s' = (mem s1)(t := (mem s1 t)(PTX la := ?w))" "npage ?s' = npage s1" by (simp_all add: w)
  note leaf = set_leaf [OF ok1 d some1(3) m(1) _ _ m(2)]
  have leaf: "grows D s1 ps1 ?s' ps1" "lookup ?s' d' la' = (if d' = d \<and> vpn la' = vpn la then Some ?w else lookup s1 d' la')"
    if "d' \<in> D" for d' la'
    using leaf(1) leaf(2) [OF _ _ that, of la'] ff ok1 by (simp_all add: tables_ok_def)
  show thesis
  proof (rule some [OF r, of ps1])
    show "grows D s ps ?s' ps1" using grows_trans [OF some1(2) leaf(1) [OF d]] .
    show "nr_free_pages s \<le> nr_free_pages ?s' + 2" using some1(6) nr by simp
    show "node s d [PDX0 la, PDX1 la] \<noteq> None \<longrightarrow> nr_free_pages ?s' = nr_free_pages s"
      using get_pte_exists [OF ok d, of la _ True] some1(1) nr by (auto simp del: node.simps)
    show "lookup ?s' d la = Some ?w" using leaf(2) [OF d] by simp
    show "\<forall>d'\<in>D. \<forall>la'. (d', vpn la') \<noteq> (d, vpn la) \<longrightarrow> lookup ?s' d' la' = lookup s d' la'" using leaf(2) some1(4) by auto
    show "\<forall>q. q \<notin> free_set (pm s) ps \<longrightarrow> page_ref q ?s' =
        page_ref q s + (if q = p then 1 else 0) - (if frame s d la = Some (q + nbase) then 1 else 0)"
      using refs some1(5) fr by simp
  qed
qed

section \<open>Replacing the last mapping of a page\<close>

text \<open>The page \<^verbatim>\<open>page_insert\<close> gives back: the one that was mapped there, when this was its last reference.\<close>

definition last_page :: "machine \<Rightarrow> nat \<Rightarrow> nat \<Rightarrow> nat \<Rightarrow> nat set" where
  "last_page s d la p = {q. q \<noteq> p \<and> frame s d la = Some (q + nbase) \<and> page_ref q s = 1}"

text \<open>As \<^const>\<open>grows\<close>, but with the pages \<open>X\<close> free afterwards.\<close>

definition changes :: "nat set \<Rightarrow> nat set \<Rightarrow> machine \<Rightarrow> nat list \<Rightarrow> machine \<Rightarrow> nat list \<Rightarrow> bool" where
  "changes D X s ps s' ps' \<longleftrightarrow>
     tables_ok s' ps' D \<and> npage s' = npage s \<and> X \<subseteq> free_set (pm s') ps' \<and> free_set (pm s') ps' \<subseteq> free_set (pm s) ps \<union> X \<and>
     (\<forall>d\<in>D. \<forall>p n. length p \<le> 2 \<longrightarrow> node s d p = Some n \<longrightarrow> node s' d p = Some n) \<and>
     (\<forall>d\<in>D. \<forall>p n. length p \<le> 2 \<longrightarrow> node s' d p = Some n \<longrightarrow> node s d p = Some n \<or> n - nbase \<in> free_set (pm s) ps) \<and>
     (\<forall>n. data_page D s ps n \<longrightarrow> n - nbase \<notin> X \<longrightarrow> mem s' n = mem s n) \<and> (\<forall>d\<in>D. \<forall>i. 256 \<le> i \<longrightarrow> mem s' d i = mem s d i)"

lemma grows_changes: "grows D s ps s' ps' \<Longrightarrow> changes D {} s ps s' ps'"
  by (simp add: grows_def changes_def)

lemma upd_ref_tables [simp]: "tables_ok (upd_ref p f s) ps D = tables_ok s ps D"
  using node_mem [of "upd_ref p f s" s] by (simp add: tables_ok_def used_def)

lemma clear_pages_ref: "clear_pages p k a = Some b \<Longrightarrow> ref (pages b q) = (if p \<le> q \<and> q < p + k then 0 else ref (pages a q))"
  by (induction p k a arbitrary: b rule: clear_pages.induct) (auto simp: set_page_ref_def split: bind_splits if_splits)

lemma merge_prev_ref: "ref (pages (snd (merge_prev p a)) q) = ref (pages a q)"
  by (simp add: merge_prev_def Let_def ClearPageProperty_def split: pnode.split)

lemma merge_next_ref: "ref (pages (merge_next p a) q) = ref (pages a q)"
  by (simp add: merge_next_def Let_def ClearPageProperty_def split: pnode.split)

lemma insert_block_ref: "insert_block p a = Some b \<Longrightarrow> ref (pages b q) = ref (pages a q)"
  by (auto simp: insert_block_def split: if_splits bind_splits)

lemma free_pages_ref:
  assumes "default_free_pages p n a = Some b"
  shows "ref (pages b q) = (if p \<le> q \<and> q < p + n then 0 else ref (pages a q))"
proof -
  from assms obtain a1 a2 where a1: "clear_pages p n a = Some a1"
    and a2: "insert_block p ((upd_page p SetPageProperty (upd_page p (\<lambda>g. g\<lparr>property := u32 n\<rparr>) a1))\<lparr>nr_free := u32 (nr_free a1 + n)\<rparr>) = Some a2"
    and b: "b = (case merge_prev p a2 of (base, a) \<Rightarrow> merge_next base a)"
    by (auto simp: default_free_pages_def Let_def split: bind_splits prod.splits if_splits)
  have "ref (pages b q) = ref (pages a2 q)" using merge_prev_ref [of p a2 q] by (cases "merge_prev p a2") (simp add: b merge_next_ref)
  also have "\<dots> = ref (pages a1 q)" using insert_block_ref [OF a2, of q] by (simp add: SetPageProperty_def)
  finally show ?thesis using clear_pages_ref [OF a1, of q] by simp
qed

lemma free_one_ok:
  assumes ok: "tables_ok s ps D" and q: "data_page D s ps (q + nbase)" "\<not> PageReserved (pages (pm s) q)"
    and nr: "nr_free_pages s + 1 < 2 ^ 32" and tail: "ps = [] \<or> (\<exists>v\<in>set ps. q < v)"
  obtains s1 ps1 where "free_pages q 1 s = Some s1" "tables_ok s1 ps1 D" "free_set (pm s1) ps1 = insert q (free_set (pm s) ps)"
    "mem s1 = mem s" "npage s1 = npage s" "\<And>r. page_ref r s1 = (if r = q then 0 else page_ref r s)"
proof -
  have u: "q + nbase < npage s" "q \<notin> free_set (pm s) ps" using q(1) by (simp_all add: data_page_def used_def)
  have "{q ..< q + 1} \<inter> free_set (pm s) ps = {}" "\<forall>r\<in>{q ..< q + 1}. \<not> PageReserved (pages (pm s) r)"
    using u(2) q(2) by auto
  from free_keeps_inv [OF _ _ this _ tail] ok nr obtain a ps1 where
    a: "default_free_pages q 1 (pm s) = Some a" "ff_inv a ps1" "free_set a ps1 = free_set (pm s) ps \<union> {q ..< q + 1}"
    by (auto simp: tables_ok_def nr_free_pages_def default_nr_free_pages_def)
  let ?s1 = "s\<lparr>pm := a\<rparr>"
  have nd: "node ?s1 d p = node s d p" for d p by (rule node_mem) simp
  have "{q ..< q + 1} = {q}" by auto
  then have f: "free_set (pm ?s1) ps1 = insert q (free_set (pm s) ps)" using a(3) by simp
  have "used ?s1 ps1 n" if "d \<in> D" "length p \<le> 2" "node s d p = Some n" for d p n
  proof -
    have "n \<noteq> q + nbase" using q(1) that unfolding data_page_def by blast
    moreover have "nbase \<le> n" using node_used [OF ok that] by (simp add: used_def)
    ultimately have "n - nbase \<noteq> q" by auto
    then show ?thesis using node_used [OF ok that] f by (simp add: used_def)
  qed
  moreover have "\<forall>p\<in>free_set (pm ?s1) ps1. p + nbase < npage ?s1" using ok u(1) unfolding f by (simp add: tables_ok_def)
  ultimately have "tables_ok ?s1 ps1 D" using ok a(2) unfolding tables_ok_def nd by simp
  moreover have "page_ref r ?s1 = (if r = q then 0 else page_ref r s)" for r
    using free_pages_ref [OF a(1), of r] by (simp add: page_ref_def)
  ultimately show thesis using that [of ?s1 ps1] a(1) f by (simp add: free_pages_def)
qed

lemma page_insert_frees:
  assumes ok: "tables_ok s ps D" and d: "d \<in> D" and p: "p \<notin> free_set (pm s) ps" and X: "last_page s d la p = {q}"
    and q: "data_page D s ps (q + nbase)" "\<not> PageReserved (pages (pm s) q)"
    and nr: "nr_free_pages s + 1 < 2 ^ 32" and tail: "ps = [] \<or> (\<exists>v\<in>set ps. q < v)"
  obtains s' ps' where "page_insert d p la perm s = Some (0, s')" "changes D {q} s ps s' ps'"
    "lookup s' d la = Some (pte_create (p + nbase) (PTE_V OR perm))"
    "\<forall>d'\<in>D. \<forall>la'. (d', vpn la') \<noteq> (d, vpn la) \<longrightarrow> lookup s' d' la' = lookup s d' la'"
    "\<forall>r. page_ref r s' = page_ref r s + (if r = p then 1 else 0) - (if frame s d la = Some (r + nbase) then 1 else 0)"
proof -
  from X have q': "q \<noteq> p" "frame s d la = Some (q + nbase)" "page_ref q s = 1" by (auto simp: last_page_def)
  from q'(2) obtain t e where t: "node s d [PDX0 la, PDX1 la] = Some t" "mem s t (PTX la) = e" "valid e" "PPN (PTE_ADDR e) = q + nbase"
    by (auto simp: frame_def lookup_some simp del: node.simps)
  let ?s0 = "page_ref_dec q (page_ref_inc p s)"
  have s0: "tables_ok ?s0 ps D" "mem ?s0 = mem s" "npage ?s0 = npage s" "nr_free_pages ?s0 = nr_free_pages s" "page_ref q ?s0 = 0"
    "\<And>r. r \<noteq> q \<Longrightarrow> page_ref r ?s0 = page_ref r s + (if r = p then 1 else 0)"
    "free_set (pm ?s0) ps = free_set (pm s) ps" "PageReserved (pages (pm ?s0) q) = PageReserved (pages (pm s) q)"
    using ok q' by (simp_all add: page_ref_dec_def page_ref_inc_def) (simp add: upd_ref_def)
  have nd: "node ?s0 = node s" using node_mem [OF s0(2)] by (simp add: fun_eq_iff)
  have "data_page D ?s0 ps (q + nbase)" using q(1) by (simp add: data_page_def used_def nd s0(3,7))
  from free_one_ok [OF s0(1) this _ _ tail] q(2) nr s0(4,8) obtain s1 ps1 where
    s1: "free_pages q 1 ?s0 = Some s1" "tables_ok s1 ps1 D" "free_set (pm s1) ps1 = insert q (free_set (pm s) ps)"
    "mem s1 = mem s" "npage s1 = npage s" "\<And>r. page_ref r s1 = (if r = q then 0 else page_ref r ?s0)"
    unfolding s0(2,3,7) by auto
  have nd1: "node s1 = node s" using node_mem [OF s1(4)] by (simp add: fun_eq_iff)
  have lk1: "lookup s1 = lookup s" by (simp add: lookup_def fun_eq_iff nd1 s1(4))
  let ?w = "pte_create (p + nbase) (PTE_V OR perm)"
  define s' where "s' = set_mem t (PTX la) ?w (set_mem t (PTX la) 0 s1)"
  have pg: "pte2page e m = Some q" if "npage m = npage s" for m
    using t(3,4) q(1) that by (simp add: pte2page_def pa2page_def data_page_def used_def)
  have run: "page_insert d p la perm s = Some (0, s')"
    using get_pte_exists [OF ok d t(1), of True] t(2,3) q'(1) pg [of "page_ref_inc p s"] s1(1) s0(5)
    by (simp add: page_insert_def page_remove_pte_def Let_def s'_def page2ppn_def page_ref_inc_def del: node.simps)
  have t1: "node s1 d [PDX0 la, PDX1 la] = Some t" using t(1) by (simp add: nd1 del: node.simps)
  have m: "mem s' = (mem s1)(t := (mem s1 t)(PTX la := ?w))" by (simp add: s'_def)
  have ff: "ff_inv (pm s') ps1" "free_set (pm s') ps1 = free_set (pm s1) ps1" "npage s' = npage s1"
    using s1(2) by (simp_all add: s'_def tables_ok_def)
  note leaf = set_leaf [OF s1(2) d t1 m ff]
  have g: "grows D s1 ps1 s' ps1" by (rule leaf(1))
  have dt: "data_page D s1 ps1 n" if "data_page D s ps n" "n - nbase \<noteq> q" for n
    using that by (auto simp: data_page_def used_def nd1 s1(3,5))
  have c1: "node s d' r = Some n \<or> n - nbase \<in> free_set (pm s) ps" if dr: "d' \<in> D" "length r \<le> 2" "node s' d' r = Some n" for d' r n
  proof -
    have "node s d' r = Some n \<or> n - nbase \<in> insert q (free_set (pm s) ps)" using g dr unfolding grows_def nd1 s1(3) by blast
    moreover have "used s' ps1 n" using node_used [OF _ dr] g by (simp add: grows_def)
    then have "n - nbase \<noteq> q" by (auto simp: used_def ff(2) s1(3))
    ultimately show ?thesis by simp
  qed
  show thesis
  proof (rule that [OF run, of ps1])
    show "changes D {q} s ps s' ps1"
      using g dt c1 ff(2) unfolding changes_def grows_def nd1 s1(3-5) by auto
    show "lookup s' d la = Some ?w" using leaf(2) [OF d, of la] by simp
    show "\<forall>d'\<in>D. \<forall>la'. (d', vpn la') \<noteq> (d, vpn la) \<longrightarrow> lookup s' d' la' = lookup s d' la'" using leaf(2) by (auto simp: lk1)
    show "\<forall>r. page_ref r s' = page_ref r s + (if r = p then 1 else 0) - (if frame s d la = Some (r + nbase) then 1 else 0)"
      using s1(6) s0(5,6) q' by (auto simp: s'_def)
  qed
qed

section \<open>Copying an address space\<close>

lemma grows_alloc:
  assumes ok: "tables_ok s ps D" and s1: "ff_inv (pm s1) ps1" "free_set (pm s1) ps1 = free_set (pm s) ps - {p}" "npage s1 = npage s"
    and p: "p \<in> free_set (pm s) ps" and mem: "\<And>n. n \<noteq> p + nbase \<Longrightarrow> mem s1 n = mem s n"
  shows "grows D s ps s1 ps1" and "d \<in> D \<Longrightarrow> lookup s1 d la = lookup s d la" and "data_page D s1 ps1 (p + nbase)"
proof -
  have fresh: "m \<noteq> p + nbase" if "node s e r = Some m" "e \<in> D" "length r \<le> 2" for e r m
    using node_used [OF ok that(2,3,1)] p by (auto simp: used_def)
  have same: "mem s1 m = mem s m" if "e \<in> D" "length r < 2" "node s e r = Some m" for e r m
    using mem fresh [OF that(3,1)] that(2) by simp
  have nd: "node s1 e r = node s e r" if "e \<in> D" "length r \<le> 2" for e r
    by (rule node_same [OF _ that(2)]) (simp add: same [OF that(1)])
  have "tables_ok s1 ps1 D" by (rule tables_ok_same [OF ok _ s1(1) _ s1(3)]) (simp_all add: same s1)
  moreover have "mem s1 n = mem s n" if "data_page D s ps n" for n
    by (rule mem) (use that p in \<open>auto simp: data_page_def used_def\<close>)
  moreover have "mem s1 e i = mem s e i" if "e \<in> D" for e i using same [of e "[]" e] that by simp
  ultimately show "grows D s ps s1 ps1" using nd s1 by (auto simp: grows_def simp del: node.simps)
  show "lookup s1 d la = lookup s d la" if "d \<in> D"
    using nd [OF that, of "[PDX0 la, PDX1 la]"] mem fresh [OF _ that, of "[PDX0 la, PDX1 la]"]
    by (auto simp: lookup_def simp del: node.simps split: option.splits)
  have "node s1 e r \<noteq> Some (p + nbase)" if "e \<in> D" "length r \<le> 2" for e r
    using nd [OF that] fresh [of e r "p + nbase"] that by auto
  then show "data_page D s1 ps1 (p + nbase)" using s1 p ok by (simp add: data_page_def used_def tables_ok_def)
qed

text \<open>
  What \<^verbatim>\<open>copy_range\<close> promises for the addresses from \<open>a\<close> to \<open>b\<close>: where the parent has a page the child has a page of its own,
  taken from the free ones, with the same contents and permissions.
\<close>

definition copied_page :: "nat \<Rightarrow> nat \<Rightarrow> 64 word \<Rightarrow> machine \<Rightarrow> nat list \<Rightarrow> machine \<Rightarrow> bool" where
  "copied_page to la e s ps s' \<longleftrightarrow>
     (\<exists>p. p \<in> free_set (pm s) ps \<and> lookup s' to la = Some (pte_create (p + nbase) (PTE_V OR ucast (e AND PTE_USER))) \<and>
        mem s' (p + nbase) = mem s (PPN (PTE_ADDR e)))"

definition copied_range :: "nat \<Rightarrow> nat \<Rightarrow> nat \<Rightarrow> nat \<Rightarrow> machine \<Rightarrow> nat list \<Rightarrow> machine \<Rightarrow> bool" where
  "copied_range to from a b s ps s' \<longleftrightarrow>
     (\<forall>la. a \<le> la \<and> la < b \<longrightarrow>
        (lookup s from la = None \<longrightarrow> lookup s' to la = None) \<and>
        (\<forall>e. lookup s from la = Some e \<longrightarrow> copied_page to la e s ps s'))"

definition private_pages :: "nat \<Rightarrow> nat \<Rightarrow> nat \<Rightarrow> machine \<Rightarrow> bool" where
  "private_pages to a b s \<longleftrightarrow>
     (\<forall>la la'. a \<le> la \<and> la < b \<and> a \<le> la' \<and> la' < b \<and> frame s to la = frame s to la' \<longrightarrow> frame s to la = None \<or> vpn la = vpn la')"

lemma user_perm: "unat (PTE_V OR ucast (e AND PTE_USER) :: 32 word) < 1024" for e :: "64 word"
proof -
  have m: "(PTE_USER :: 64 word) = mask 5" by (simp add: mask_eq_exp_minus_1)
  have eq: "(PTE_V OR ucast (e AND PTE_USER) :: 32 word) = take_bit 5 (PTE_V OR ucast e)"
    unfolding m by (intro bit_word_eqI) (auto simp: bit_simps)
  have "unat (take_bit 5 x) < 1024" for x :: "32 word"
    using take_bit_nat_less_exp [of 5 "unat x"] by (simp only: unsigned_take_bit_eq) simp
  then show ?thesis unfolding eq .
qed

lemma lookup_vpn: "vpn la = vpn la' \<Longrightarrow> lookup s d la = lookup s d la'"
  by (simp add: vpn_def lookup_def)

lemma vpn_page:
  assumes "la < 2 ^ 39" and "la' < 2 ^ 39"
  shows "vpn la = vpn la' \<longleftrightarrow> la div 4096 = la' div 4096"
proof -
  have split: "a div 4096 = PDX1 a * 2 ^ 18 + PDX0 a * 2 ^ 9 + PTX a" if "a < 2 ^ 39" for a
  proof -
    let ?q = "a div 4096"
    have "PDX1 a = ?q div 2 ^ 18" "PDX0 a = ?q div 2 ^ 9 mod 512" "PTX a = ?q mod 512"
      using that by (simp_all add: PDX1_def PDX0_def PTX_def div_mult2_eq [symmetric] less_mult_imp_div_less)
    moreover have "?q = ?q div 2 ^ 18 * 2 ^ 18 + ?q div 2 ^ 9 mod 512 * 2 ^ 9 + ?q mod 512"
      using div_mult_mod_eq [of ?q 512] div_mult_mod_eq [of "?q div 512" 512] by (simp add: div_mult2_eq [symmetric])
    ultimately show ?thesis by simp
  qed
  have "vpn a = vpn b" if "a div 4096 = b div 4096" for a b
  proof -
    have "a div 2 ^ 30 = a div 4096 div 2 ^ 18" "a div 2 ^ 21 = a div 4096 div 2 ^ 9" for a :: nat
      by (simp_all add: div_mult2_eq [symmetric])
    then show ?thesis using that by (simp add: vpn_def PDX1_def PDX0_def PTX_def)
  qed
  moreover have "la div 4096 = la' div 4096" if "vpn la = vpn la'"
    unfolding split [OF assms(1)] split [OF assms(2)] using that by (simp add: vpn_def)
  ultimately show ?thesis by blast
qed

lemma page2kva_used: "tables_ok s ps D \<Longrightarrow> p + nbase < npage s \<Longrightarrow> page2kva p s = Some (p + nbase)"
  using PPN_page2pa [of p] by (simp add: page2kva_def KADDR_def tables_ok_def)

text \<open>A step at an address with a page.\<close>

lemma copy_step_page:
  assumes ok: "tables_ok s ps D" and D: "to \<in> D" "from \<in> D" "to \<noteq> from" and free: "3 \<le> nr_free_pages s"
    and la: "user_la start" and e: "lookup s from start = Some e" and src: "data_page D s ps (PPN (PTE_ADDR e))" and to: "lookup s to start = None"
  obtains p s' ps' where "copy_step to from start s = Some (0, u64 (start + PGSIZE), s')" "grows D s ps s' ps'"
    "nr_free_pages s \<le> nr_free_pages s' + 3" "p \<in> free_set (pm s) ps" "data_page D s' ps' (p + nbase)"
    "lookup s' to start = Some (pte_create (p + nbase) (PTE_V OR ucast (e AND PTE_USER)))"
    "mem s' (p + nbase) = mem s (PPN (PTE_ADDR e))"
    "\<forall>d\<in>D. \<forall>la. (d, vpn la) \<noteq> (to, vpn start) \<longrightarrow> lookup s' d la = lookup s d la"
proof -
  let ?n = "PPN (PTE_ADDR e)" and ?perm = "ucast (e AND PTE_USER) :: 32 word"
  obtain t where t: "node s from [PDX0 start, PDX1 start] = Some t" "mem s t (PTX start) = e" "valid e"
    using e by (auto simp: lookup_some simp del: node.simps)
  show thesis
  proof (cases rule: get_pte_create [OF ok D(1) la])
    case 1
    then show thesis using free by simp
  next
    case (2 u s1 ps1)
    have ok1: "tables_ok s1 ps1 D" and np1: "npage s1 = npage s" using 2(2) by (simp_all add: grows_def)
    have "node s1 from [PDX0 start, PDX1 start] = Some t" using 2(2) t(1) D(2) by (simp add: grows_def del: node.simps)
    moreover have "lookup s1 from start = Some e" using 2(4) D(2) e by simp
    ultimately have e1: "mem s1 t (PTX start) = e" by (auto simp: lookup_some simp del: node.simps)
    have n: "used s ps ?n" "data_page D s1 ps1 ?n" "mem s1 ?n = mem s ?n"
      using src grows_data [OF 2(2) src] 2(2) by (simp_all add: data_page_def grows_def)
    from ok1 show thesis
    proof (cases rule: alloc_page_ok)
      case none
      then show thesis using 2(6) free by simp
    next
      case (some p s2 ps2)
      let ?s3 = "s2\<lparr>mem := (mem s2)(p + nbase := mem s2 ?n)\<rparr>"
      have p: "p + nbase < npage s" "p \<in> free_set (pm s) ps" using some(2) ok1 np1 2(2) by (auto simp: tables_ok_def grows_def)
      have g: "grows D s1 ps1 ?s3 ps2" "\<And>d la. d \<in> D \<Longrightarrow> lookup ?s3 d la = lookup s1 d la" "data_page D ?s3 ps2 (p + nbase)"
        using grows_alloc [OF ok1, of ?s3 ps2 p] some(2-6) by simp_all
      have ok3: "tables_ok ?s3 ps2 D" using g(1) by (simp add: grows_def)
      have u3: "node ?s3 to [PDX0 start, PDX1 start] = Some u" using g(1) 2(3) D(1) by (simp add: grows_def del: node.simps)
      have kva: "page2kva q s2 = Some (q + nbase)" if "q + nbase < npage s" for q
        using page2kva_used [OF ok3, of q] that some(6) np1 by (simp add: page2kva_def KADDR_def)
      have old: "frame ?s3 to start = None" using g(2) 2(4) D(1) to by (simp add: frame_def)
      have pp: "p + nbase < npage ?s3" "p \<notin> free_set (pm ?s3) ps2" using p some np1 by simp_all
      from ok3 D(1) la pp show thesis
      proof (cases rule: page_insert_ok [where perm = ?perm, case_names old none some])
        case old
        then show ?case using \<open>frame ?s3 to start = None\<close> by simp
      next
        case none
        then show ?thesis using u3 by simp
      next
        case ins: (some s4 ps4)
        have pg: "pte2page e s1 = Some (?n - nbase)" using pte2page_used [OF t(3) n(1) np1] .
        have nb: "?n - nbase + nbase = ?n" "?n - nbase + nbase < npage s" using n(1) by (auto simp: used_def)
        have "copy_step to from start s = Some (0, u64 (start + PGSIZE), s4)"
          using get_pte_find [OF ok D(2) la] t 2(1) e1 pg some(1) kva [OF nb(2)] kva [OF p(1)] nb(1) ins(1)
          by (simp add: copy_step_def Let_def del: node.simps)
        moreover have "mem s4 (p + nbase) = mem s ?n" using ins(2) g(3) some(5) n(3) by (simp add: grows_def)
        moreover have "nr_free_pages ?s3 = nr_free_pages s2" by (simp add: nr_free_pages_def)
        then have "nr_free_pages s \<le> nr_free_pages s4 + 3" using 2(6) some(8) ins(4) u3 by (simp del: node.simps)
        moreover have "grows D s ps s4 ps4" using grows_trans [OF grows_trans [OF 2(2) g(1)] ins(2)] .
        ultimately show thesis using that [of s4 ps4 p] p(2) grows_data [OF ins(2) g(3)] ins(5,6) 2(4) g(2) by auto
      qed
    qed
  qed
qed

lemma next_table:
  assumes "start < 2 ^ 39"
  shows "ROUNDDOWN (u64 (start + PTSIZE)) PTSIZE = (start div PTSIZE + 1) * PTSIZE"
proof -
  have "u64 (start + PTSIZE) = start + PTSIZE" using assms by (simp add: u64_def)
  moreover have "(start + PTSIZE) - (start + PTSIZE) mod PTSIZE = (start + PTSIZE) div PTSIZE * PTSIZE"
    by (simp only: minus_mod_eq_div_mult)
  moreover have "(start + PTSIZE) div PTSIZE = start div PTSIZE + 1" by (simp only: div_add_self2 [OF zero_neq_numeral [symmetric]])
  ultimately show ?thesis by (simp only: ROUNDDOWN_def)
qed

lemma same_table:
  assumes "start \<le> la" and "la < (start div PTSIZE + 1) * PTSIZE"
  shows "[PDX0 la, PDX1 la] = [PDX0 start, PDX1 start]"
proof -
  have "la div PTSIZE = start div PTSIZE" using assms div_le_mono [OF assms(1), of PTSIZE] by (simp add: less_mult_imp_div_less le_antisym less_Suc_eq_le)
  then have "la div 2 ^ 21 = start div 2 ^ 21" by simp
  moreover have "a div 2 ^ 30 = a div 2 ^ 21 div 2 ^ 9" for a :: nat by (simp add: div_mult2_eq [symmetric])
  ultimately show ?thesis by (simp add: PDX0_def PDX1_def)
qed

lemma page_step: "a mod PGSIZE = 0 \<Longrightarrow> b mod PGSIZE = 0 \<Longrightarrow> a < b \<Longrightarrow> a + PGSIZE \<le> b" for a b :: nat
  by (auto simp: mod_eq_0_iff_dvd elim!: dvdE)

lemma same_page:
  assumes "start mod PGSIZE = 0" and "la < 2 ^ 39" and "start < 2 ^ 39"
  shows "vpn la = vpn start \<longleftrightarrow> start \<le> la \<and> la < start + PGSIZE"
proof -
  from assms(1) obtain k where "start = 4096 * k" by (auto simp: mod_eq_0_iff_dvd elim: dvdE)
  then have "la div 4096 = start div 4096 \<longleftrightarrow> start \<le> la \<and> la < start + 4096" by (simp, intro iffI; linarith)
  then show ?thesis by (simp only: vpn_page [OF assms(2,3)])
qed

text \<open>What one step, or several, of the loop achieve between \<open>a\<close> and \<open>b\<close>.\<close>

definition copy_ok :: "nat set \<Rightarrow> nat \<Rightarrow> nat \<Rightarrow> nat \<Rightarrow> nat \<Rightarrow> machine \<Rightarrow> nat list \<Rightarrow> machine \<Rightarrow> nat list \<Rightarrow> bool" where
  "copy_ok D to from a b s ps s' ps' \<longleftrightarrow>
     grows D s ps s' ps' \<and> copied_range to from a b s ps s' \<and> private_pages to a b s' \<and>
     (\<forall>la. lookup s' from la = lookup s from la) \<and>
     (\<forall>la<2 ^ 39. \<not> (a \<le> la \<and> la < b) \<longrightarrow> lookup s' to la = lookup s to la) \<and>
     (\<forall>la n. a \<le> la \<and> la < b \<and> frame s' to la = Some n \<longrightarrow> data_page D s' ps' n)"

lemma copy_ok_empty:
  assumes "tables_ok s ps D" and "\<forall>la. a \<le> la \<and> la < b \<longrightarrow> lookup s from la = None \<and> lookup s to la = None"
  shows "copy_ok D to from a b s ps s ps"
  using assms grows_refl by (auto simp: copy_ok_def copied_range_def private_pages_def frame_def)

lemma frame_of_copy:
  fixes e :: "64 word"
  assumes "tables_ok s ps D" and "p \<in> free_set (pm s) ps"
    and "lookup s' d la = Some (pte_create (p + nbase) (PTE_V OR ucast (e AND PTE_USER)))"
  shows "frame s' d la = Some (p + nbase)"
proof -
  have "p + nbase < 2 ^ 44" using assms(1,2) by (auto simp: tables_ok_def)
  from PPN_pte_create [OF this user_perm] show ?thesis using assms(3) by (simp add: frame_def)
qed

lemma copy_step_ok:
  assumes ok: "tables_ok s ps D" and D: "to \<in> D" "from \<in> D" "to \<noteq> from" and free: "3 \<le> nr_free_pages s"
    and src: "\<forall>la n. start \<le> la \<and> la < end \<and> frame s from la = Some n \<longrightarrow> data_page D s ps n"
    and al: "start mod PGSIZE = 0" "end mod PGSIZE = 0" "start < end" "end \<le> USERTOP"
    and to: "\<forall>la. start \<le> la \<and> la < end \<longrightarrow> lookup s to la = None"
  obtains nxt s' ps' where "copy_step to from start s = Some (0, nxt, s')" "start + PGSIZE \<le> nxt" "nxt mod PGSIZE = 0"
    "nr_free_pages s \<le> nr_free_pages s' + 3" "copy_ok D to from start (min nxt end) s ps s' ps'"
proof -
  have lt: "start < 2 ^ 39" "u64 (start + PGSIZE) = start + PGSIZE" using al by (simp_all add: u64_def)
  have la: "user_la start" using al by (intro user_la) simp
  have le: "start + PGSIZE \<le> end" using al page_step by simp
  note find = get_pte_find [OF ok D(2) la]
  show thesis
  proof (cases "node s from [PDX0 start, PDX1 start]")
    case None
    let ?nxt = "(start div PTSIZE + 1) * PTSIZE"
    have "copy_step to from start s = Some (0, ?nxt, s)" using find None next_table [OF lt(1)] by (simp add: copy_step_def del: node.simps)
    moreover have m: "?nxt mod PGSIZE = 0" using mod_mult_right_eq [of "start div PTSIZE + 1" PTSIZE PGSIZE] by simp
    moreover have "start + PGSIZE \<le> ?nxt" using page_step [OF al(1) m] dividend_less_div_times [of PTSIZE start] by simp
    moreover have "lookup s from la = None" if "start \<le> la" "la < ?nxt" for la
      using same_table [OF that] None by (simp add: lookup_def del: node.simps)
    then have "copy_ok D to from start (min ?nxt end) s ps s ps" using to by (intro copy_ok_empty [OF ok]) auto
    ultimately show thesis using that [of ?nxt s ps] by simp
  next
    case (Some t)
    have in_page: "vpn la = vpn start" if "start \<le> la" "la < start + PGSIZE" for la
      using same_page [OF al(1) _ lt(1), of la] that al by simp
    show thesis
    proof (cases "lookup s from start")
      case None
      then have "\<not> valid (mem s t (PTX start))" using Some by (auto simp: lookup_def simp del: node.simps split: if_splits)
      then have "copy_step to from start s = Some (0, start + PGSIZE, s)" using find Some lt by (simp add: copy_step_def del: node.simps)
      moreover have "lookup s from la = None" if "start \<le> la" "la < start + PGSIZE" for la
        using lookup_vpn [OF in_page [OF that]] None by simp
      then have "copy_ok D to from start (min (start + PGSIZE) end) s ps s ps" using to by (intro copy_ok_empty [OF ok]) auto
      ultimately show thesis using that [of "start + PGSIZE" s ps] al(1) by simp
    next
      case (Some e)
      from src Some al(3) have e: "data_page D s ps (PPN (PTE_ADDR e))" by (auto simp: frame_def)
      have none: "lookup s to start = None" using to al by simp
      from ok D free la Some e none show thesis
      proof (cases rule: copy_step_page)
        case (1 p s' ps')
        note r = 1(1) [unfolded lt(2)] 1(2,3) and p = 1(4-7) and other = 1(8)
        have new: "lookup s' to la = lookup s' to start" "lookup s from la = Some e" if "start \<le> la" "la < start + PGSIZE" for la
          using lookup_vpn [OF in_page [OF that]] Some by simp_all
        have fr: "frame s' to la = Some (p + nbase)" if "start \<le> la" "la < start + PGSIZE" for la
          using frame_of_copy [OF ok p(1,3)] new(1) [OF that] by (simp add: frame_def)
        have "copy_ok D to from start (start + PGSIZE) s ps s' ps'"
          unfolding copy_ok_def
        proof (intro conjI allI impI)
          show "grows D s ps s' ps'" using r(2) .
          show "copied_range to from start (start + PGSIZE) s ps s'" using new p by (auto simp: copied_range_def copied_page_def)
          show "private_pages to start (start + PGSIZE) s'" using in_page unfolding private_pages_def by metis
          show "lookup s' from la = lookup s from la" for la using other D by auto
          show "lookup s' to la = lookup s to la" if "la < 2 ^ 39" "\<not> (start \<le> la \<and> la < start + PGSIZE)" for la
            using other D(1) same_page [OF al(1) that(1) lt(1)] that(2) by blast
          show "data_page D s' ps' n" if "start \<le> la \<and> la < start + PGSIZE \<and> frame s' to la = Some n" for la n
            using fr [of la] that p(2) by simp
        qed
        then show thesis using that [OF r(1), of ps'] le r(3) al(1) by (simp add: min_def)
      qed
    qed
  qed
qed

lemma copied_frame:
  assumes "copied_range to from a b s ps s'" and "tables_ok s ps D" and "a \<le> la" "la < b" and "frame s' to la = Some n"
  shows "n - nbase \<in> free_set (pm s) ps \<and> nbase \<le> n"
proof (cases "lookup s from la")
  case None
  then show ?thesis using assms by (simp add: copied_range_def frame_def)
next
  case (Some e)
  then have "copied_page to la e s ps s'" using assms(1,3,4) by (simp add: copied_range_def)
  then show ?thesis using frame_of_copy [OF assms(2)] assms(5) by (fastforce simp: copied_page_def)
qed

lemma copy_ok_trans:
  assumes ok: "tables_ok s ps D" and one: "copy_ok D to from a b s ps s1 ps1" and two: "copy_ok D to from b c s1 ps1 s2 ps2"
    and abc: "a \<le> b" "b \<le> c" "c \<le> USERTOP" and src: "\<forall>la n. a \<le> la \<and> la < c \<and> frame s from la = Some n \<longrightarrow> data_page D s ps n"
  shows "copy_ok D to from a c s ps s2 ps2"
proof -
  have g: "grows D s ps s1 ps1" "grows D s1 ps1 s2 ps2" using one two by (simp_all add: copy_ok_def)
  have keep: "lookup s2 to la = lookup s1 to la" if "\<not> (b \<le> la \<and> la < c)" "la < 2 ^ 39" for la using two that by (simp add: copy_ok_def)
  have fr: "lookup s1 from la = lookup s from la" for la using one by (simp add: copy_ok_def)
  have copied: "(lookup s from la = None \<longrightarrow> lookup s2 to la = None) \<and> (\<forall>e. lookup s from la = Some e \<longrightarrow> copied_page to la e s ps s2)"
    if la: "a \<le> la" "la < c" for la
  proof (cases "la < b")
    case True
    have k: "lookup s2 to la = lookup s1 to la" using keep [of la] la True abc by simp
    have "copied_page to la e s ps s2" if "copied_page to la e s ps s1" for e
    proof -
      from that obtain p where p: "p \<in> free_set (pm s) ps" "lookup s1 to la = Some (pte_create (p + nbase) (PTE_V OR ucast (e AND PTE_USER)))"
        "mem s1 (p + nbase) = mem s (PPN (PTE_ADDR e))" by (auto simp: copied_page_def)
      have "data_page D s1 ps1 (p + nbase)" using one la True frame_of_copy [OF ok p(1,2)] unfolding copy_ok_def by blast
      then have "mem s2 (p + nbase) = mem s1 (p + nbase)" using g(2) by (simp add: grows_def)
      then show ?thesis using p k unfolding copied_page_def by auto
    qed
    then show ?thesis using one la True k by (simp add: copy_ok_def copied_range_def)
  next
    case False
    have "copied_page to la e s ps s2" if "copied_page to la e s1 ps1 s2" "lookup s from la = Some e" for e
    proof -
      have "data_page D s ps (PPN (PTE_ADDR e))" using src that(2) la by (auto simp: frame_def)
      then have "mem s1 (PPN (PTE_ADDR e)) = mem s (PPN (PTE_ADDR e))" using g(1) by (simp add: grows_def)
      then show ?thesis using that(1) g(1) unfolding copied_page_def grows_def by auto
    qed
    then show ?thesis using two la False fr by (simp add: copy_ok_def copied_range_def)
  qed
  have pages: "data_page D s2 ps2 n" if "a \<le> la" "la < c" "frame s2 to la = Some n" for la n
  proof (cases "la < b")
    case True
    then have "frame s1 to la = Some n" using keep [of la] that abc by (simp add: frame_def)
    then show ?thesis using one that True grows_data [OF g(2)] unfolding copy_ok_def by blast
  next
    case False
    then show ?thesis using two that unfolding copy_ok_def by (meson not_less)
  qed
  have apart: "vpn la = vpn la'" if "a \<le> la" "la < b" "b \<le> la'" "la' < c" "frame s2 to la = Some n" "frame s2 to la' = Some n" for la la' n
  proof -
    have "frame s1 to la = Some n" using keep [of la] that abc by (simp add: frame_def)
    then have "data_page D s1 ps1 n" using one that unfolding copy_ok_def by blast
    moreover have "n - nbase \<in> free_set (pm s1) ps1"
      using copied_frame [of to "from" b c s1 ps1 s2 D la' n] two g(1) that by (simp add: copy_ok_def grows_def)
    ultimately show ?thesis by (simp add: data_page_def used_def)
  qed
  have "private_pages to a c s2"
    unfolding private_pages_def
  proof (intro allI impI)
    fix la la' assume la: "a \<le> la \<and> la < c \<and> a \<le> la' \<and> la' < c \<and> frame s2 to la = frame s2 to la'"
    have f: "frame s2 to x = frame s1 to x" if "a \<le> x" "x < b" for x using keep [of x] that abc by (simp add: frame_def)
    have p1: "private_pages to a b s1" and p2: "private_pages to b c s2" using one two by (simp_all add: copy_ok_def)
    show "frame s2 to la = None \<or> vpn la = vpn la'"
    proof (cases "frame s2 to la")
      case (Some n)
      consider "la < b" "la' < b" | "la < b" "b \<le> la'" | "b \<le> la" "la' < b" | "b \<le> la" "b \<le> la'" by linarith
      then have "vpn la = vpn la'"
      proof cases
        case 1
        then show ?thesis using p1 la f [of la] f [of la'] Some unfolding private_pages_def by (metis option.distinct(1))
      next
        case 2
        then show ?thesis using apart [of la la' n] la Some by simp
      next
        case 3
        then show ?thesis using apart [of la' la n] la Some by simp
      next
        case 4
        then show ?thesis using p2 la Some unfolding private_pages_def by (metis option.distinct(1))
      qed
      then show ?thesis ..
    qed simp
  qed
  then show ?thesis
    using grows_trans [OF g] copied pages one two abc unfolding copy_ok_def copied_range_def [of to "from" a c] by auto
qed

lemma copy_loop_ok:
  assumes "tables_ok s ps D" "to \<in> D" "from \<in> D" "to \<noteq> from" "3 * ((end - start) div PGSIZE) \<le> nr_free_pages s"
    "\<forall>la n. start \<le> la \<and> la < end \<and> frame s from la = Some n \<longrightarrow> data_page D s ps n"
    "start mod PGSIZE = 0" "end mod PGSIZE = 0" "start < end" "end \<le> USERTOP"
    "\<forall>la. start \<le> la \<and> la < end \<longrightarrow> lookup s to la = None"
  shows "\<exists>s' ps'. copy_loop to from start end s = Some (0, s') \<and> copy_ok D to from start end s ps s' ps'"
  using assms
proof (induction "end - start" arbitrary: start s ps rule: less_induct)
  case less
  note ok = less.prems(1) and src = less.prems(6) and al = less.prems(7-10)
  have "start + PGSIZE \<le> end" using page_step [OF al(1-3)] .
  then have "1 \<le> (end - start) div PGSIZE" using div_le_mono [of PGSIZE "end - start" PGSIZE] by simp
  then have "3 \<le> nr_free_pages s" using less.prems(5) by simp
  from ok less.prems(2-4) this src al less.prems(11) obtain nxt s1 ps1 where
    step: "copy_step to from start s = Some (0, nxt, s1)" "start + PGSIZE \<le> nxt" "nxt mod PGSIZE = 0" "nr_free_pages s \<le> nr_free_pages s1 + 3"
    and one: "copy_ok D to from start (min nxt end) s ps s1 ps1"
    by (rule copy_step_ok)
  show ?case
  proof (cases "nxt < end")
    case False
    then have "min nxt end = end" by simp
    then show ?thesis using step one False by (subst copy_loop.simps) auto
  next
    case True
    then have one: "copy_ok D to from start nxt s ps s1 ps1" using one by (simp add: min_def)
    have g: "grows D s ps s1 ps1" and lk: "\<forall>la. lookup s1 from la = lookup s from la"
      "\<forall>la<2 ^ 39. \<not> (start \<le> la \<and> la < nxt) \<longrightarrow> lookup s1 to la = lookup s to la" using one by (simp_all add: copy_ok_def)
    have "\<exists>s' ps'. copy_loop to from nxt end s1 = Some (0, s') \<and> copy_ok D to from nxt end s1 ps1 s' ps'"
    proof (rule less.hyps)
      show "end - nxt < end - start" using True step(2) by simp
      show "tables_ok s1 ps1 D" using g by (simp add: grows_def)
      have "(end - nxt) div PGSIZE + 1 \<le> (end - start) div PGSIZE"
        using div_le_mono [of "end - nxt + PGSIZE" "end - start" PGSIZE] True step(2) by simp
      then show "3 * ((end - nxt) div PGSIZE) \<le> nr_free_pages s1" using step(4) less.prems(5) by simp
      show "\<forall>la n. nxt \<le> la \<and> la < end \<and> frame s1 from la = Some n \<longrightarrow> data_page D s1 ps1 n"
        using src lk(1) grows_data [OF g] step(2) by (metis add_leD1 frame_def order_trans)
      show "\<forall>la. nxt \<le> la \<and> la < end \<longrightarrow> lookup s1 to la = None"
        using lk(2) less.prems(11) step(2) al(4) by auto
    qed (use less.prems step True in auto)
    then obtain s2 ps2 where two: "copy_loop to from nxt end s1 = Some (0, s2)" "copy_ok D to from nxt end s1 ps1 s2 ps2" by blast
    have "copy_ok D to from start end s ps s2 ps2" using copy_ok_trans [OF ok one two(2) _ _ al(4) src] True step(2) by simp
    then show ?thesis using step(1,2) two(1) True by (subst copy_loop.simps) auto
  qed
qed

section \<open>A new directory\<close>

lemma empty_node: "\<forall>i<256. \<not> valid (mem s d i) \<Longrightarrow> node s d p = (if p = [] then Some d else None)"
  by (induction p) (auto simp: points_def)

lemma setup_pgdir_ok:
  assumes ok: "tables_ok s ps D" and boot: "\<forall>i<256. \<not> valid (mem s boot i)"
  obtains (none) "setup_pgdir boot s = Some (- E_NO_MEM, None, s)" "nr_free_pages s = 0"
  | (some) d s' ps' where "setup_pgdir boot s = Some (0, Some d, s')" "d \<notin> D" "d - nbase \<in> free_set (pm s) ps"
      "tables_ok s' ps' (insert d D)" "grows D s ps s' ps'" "nr_free_pages s = Suc (nr_free_pages s')" "mem s' d = mem s boot"
      "\<And>la. lookup s' d la = None" "\<And>d' la. d' \<in> D \<Longrightarrow> lookup s' d' la = lookup s d' la"
      "\<And>n. data_page D s ps n \<Longrightarrow> data_page (insert d D) s' ps' n"
  using ok
proof (cases rule: alloc_page_ok)
  case none
  then show thesis using that(1) by (simp add: setup_pgdir_def)
next
  case (some p s1 ps1)
  define d where "d = p + nbase"
  define s' where "s' = s1\<lparr>mem := (mem s1)(d := mem s1 boot)\<rparr>"
  have "p + nbase < npage s1" "npage s1 \<le> 2 ^ 44" using some(2,6) ok by (auto simp: tables_ok_def)
  then have "page2kva p s1 = Some d" using PPN_page2pa [of p] by (simp add: page2kva_def KADDR_def d_def)
  then have run: "setup_pgdir boot s = Some (0, Some d, s')" using some(1) by (simp add: setup_pgdir_def s'_def)
  have s': "ff_inv (pm s') ps1" "free_set (pm s') ps1 = free_set (pm s) ps - {p}" "npage s' = npage s" "mem s' d = mem s boot"
    "\<And>n. n \<noteq> p + nbase \<Longrightarrow> mem s' n = mem s n" using some by (simp_all add: s'_def d_def)
  note g = grows_alloc [OF ok s'(1-3) some(2) s'(5)]
  have nd: "node s' d p = (if p = [] then Some d else None)" for p using boot by (intro empty_node) (simp add: s'(4))
  have D: "d \<notin> D" using node_used [OF ok, of d "[]" d] some(2) by (auto simp: d_def used_def)
  have apart: "node s' d' q \<noteq> Some d" if "d' \<in> D" "length q \<le> 2" for d' q using g(3) that by (simp add: data_page_def d_def)
  have ok': "tables_ok s' ps1 D" using g(1) by (simp add: grows_def)
  have "used s' ps1 d" using g(3) by (simp add: data_page_def d_def)
  have "tables_ok s' ps1 (insert d D)"
    unfolding tables_ok_def
  proof (intro conjI ballI allI impI)
    show "ff_inv (pm s') ps1" "npage s' \<le> 2 ^ 44" using ok' by (simp_all add: tables_ok_def)
    show "q + nbase < npage s'" if "q \<in> free_set (pm s') ps1" for q using ok' that by (simp add: tables_ok_def)
    show "points (mem s' t i)" if "e \<in> insert d D" "length q < 2" "node s' e q = Some t" "i < slots q" "valid (mem s' t i)" for e q t i
    proof (cases "e = d")
      case True
      then show ?thesis using that boot s'(4) nd [of q] by (auto split: if_splits)
    next
      case False
      then show ?thesis using that node_points [OF ok', of e q t i] by simp
    qed
    fix e q n assume e: "e \<in> insert d D" "length q \<le> 2" "node s' e q = Some n"
    show "used s' ps1 n"
      using e node_used [OF ok', of e q n] nd [of q] \<open>used s' ps1 d\<close> by (cases "e = d") (auto split: if_splits)
    fix e' q' assume e': "e' \<in> insert d D" "length q' \<le> 2" "node s' e' q' = Some n"
    show "e = e'" "q = q'"
      using e e' nd [of q] nd [of q'] apart [of e q] apart [of e' q'] node_inj [OF ok', of e e' q q' n]
      by (cases "e = d"; cases "e' = d"; auto split: if_splits)+
  qed
  moreover have "data_page (insert d D) s' ps1 n" if n: "data_page D s ps n" for n
  proof -
    have "n \<noteq> d" using n some(2) by (auto simp: data_page_def used_def d_def)
    then show ?thesis using grows_data [OF g(1) n] nd by (simp add: data_page_def)
  qed
  moreover have "nr_free_pages s = Suc (nr_free_pages s')" using some(8) by (simp add: s'_def nr_free_pages_def)
  moreover have "lookup s' d la = None" for la by (simp add: lookup_def nd del: node.simps)
  ultimately show thesis using that(2) [OF run D] some(2) g(1,2) s'(4) by (simp add: d_def)
qed

section \<open>Properties\<close>

text \<open>A machine with two page directories, one of which maps a page at \<^verbatim>\<open>USERBASE\<close>; both have the gigapage of the kernel of
  \<^verbatim>\<open>entry.S\<close> in the last entry.\<close>

definition sample_machine :: machine where
  "sample_machine = \<lparr>pm = sample_pmm,
     mem = (\<lambda>n i. if (n = 0x80002 \<or> n = 0x80003) \<and> i = 511 then 0x200000CF else if n = 0x80003 \<and> i = 0 then pte_create 0x80004 0x11 else if n = 0x80004 \<and> i = 1 then pte_create 0x80009 0x11
       else if n = 0x80009 \<and> i = 0 then pte_create 0x80005 0x1F else 0),
     npage = 0x80010\<rparr>"

lemma sample_leaf: "\<not> points (pte_create 0x80005 0x1F)"
proof -
  have "bit (0x1F :: 32 word) 1" by code_simp
  then show ?thesis by (simp add: points_iff pte_bit)
qed

lemma sample_node:
  "node sample_machine d [] = Some d"
  "node sample_machine d [i] = (if d = 0x80003 \<and> i = 0 then Some 0x80004 else if d = 0x80004 \<and> i = 1 then Some 0x80009 else None)"
  "node sample_machine 0x80003 [j, i] = (if i = 0 \<and> j = 1 then Some 0x80009 else None)"
  "node sample_machine 0x80002 [j, i] = None"
  using points_create [of "0x80004"] points_create [of "0x80009"] sample_leaf by (auto simp: sample_machine_def PPN_pte_create)

lemma sample_path:
  assumes "d = 0x80002 \<or> d = 0x80003" and "length p \<le> 2" and "node sample_machine d p = Some n"
  shows "(d = 0x80002 \<and> p = [] \<or> d = 0x80003 \<and> (p = [] \<or> p = [0] \<or> p = [1, 0])) \<and>
     n = (if p = [] then d else if p = [0] then 0x80004 else 0x80009)"
proof -
  consider "p = []" | i where "p = [i]" | j i where "p = [j, i]"
    using assms(2) by (cases p; cases "tl p"; cases "tl (tl p)") auto
  then show ?thesis using assms(1,3) by cases (auto simp: sample_node simp del: node.simps split: if_splits)
qed

lemma sample_tables_ok: "tables_ok sample_machine [0, 6] {0x80002, 0x80003}"
proof -
  have f: "free_set (pm sample_machine) [0, 6] = {0, 1, 6, 7, 8}" "npage sample_machine = 0x80010"
    using sample_free_set by (simp_all add: sample_machine_def)
  have u: "used sample_machine [0, 6] n" if "n \<in> {0x80002, 0x80003, 0x80004, 0x80009}" for n using that by (auto simp: used_def f)
  show ?thesis
    unfolding tables_ok_def
  proof (intro conjI ballI allI impI)
    show "ff_inv (pm sample_machine) [0, 6]" using sample_pmm_inv by (simp add: sample_machine_def)
    fix d p n assume d: "d \<in> {0x80002, 0x80003}" "length p \<le> 2" "node sample_machine d p = Some n"
    from sample_path [OF _ d(2,3)] d(1) have *: "(d = 0x80002 \<and> p = [] \<or> d = 0x80003 \<and> (p = [] \<or> p = [0] \<or> p = [1, 0])) \<and>
       n = (if p = [] then d else if p = [0] then 0x80004 else 0x80009)" by simp
    then show "used sample_machine [0, 6] n" by (intro u) auto
    fix d' p' assume d': "d' \<in> {0x80002, 0x80003}" "length p' \<le> 2" "node sample_machine d' p' = Some n"
    from sample_path [OF _ d'(2,3)] d'(1) * show "d = d'" "p = p'" by (auto split: if_splits)
  next
    fix d p t i assume d: "d \<in> {0x80002, 0x80003}" "length p < 2" "node sample_machine d p = Some t" "i < slots p" "valid (mem sample_machine t i)"
    from sample_path [OF _ _ d(3)] d(1,2) have "d = 0x80002 \<and> p = [] \<and> t = d \<or> d = 0x80003 \<and> (p = [] \<and> t = d \<or> p = [0] \<and> t = 0x80004)"
      by (auto split: if_splits)
    then show "points (mem sample_machine t i)"
      using d(4,5) points_create [of "0x80004"] points_create [of "0x80009"] by (auto simp: sample_machine_def split: if_splits)
  qed (auto simp: f)
qed

lemma sample_frame: "d = 0x80002 \<or> d = 0x80003 \<Longrightarrow>
  frame sample_machine d la = (if d = 0x80003 \<and> vpn la = vpn USERBASE then Some 0x80005 else None)"
  unfolding frame_def lookup_def
  by (auto simp: sample_node vpn_def PDX1_def PDX0_def PTX_def simp del: node.simps) (auto simp: sample_machine_def PPN_pte_create)

lemma sample_lookup: "lookup sample_machine 0x80002 la = None"
  using sample_frame [of "0x80002" la] by (simp add: frame_def)

lemma sample_data: "data_page {0x80002, 0x80003} sample_machine [0, 6] 0x80005"
proof -
  have "used sample_machine [0, 6] 0x80005" using sample_free_set by (simp add: used_def sample_machine_def)
  moreover have "node sample_machine d p \<noteq> Some 0x80005" if "d \<in> {0x80002, 0x80003}" "length p \<le> 2" for d p
    using sample_path [OF _ that(2), of d "0x80005"] that(1) by auto
  ultimately show ?thesis by (simp add: data_page_def)
qed

text \<open>C20: \<^verbatim>\<open>page_insert\<close> for an address of the user half, in any number of address spaces: it returns, and either it maps the page at the address with the
  permissions and counts one reference more for it and one less for the page that was there, leaving every other address of every address
  space alone, or there was no memory for a table, it returns \<^verbatim>\<open>-E_NO_MEM\<close>, and no address and no count has changed.  The page that was there
  is free afterwards exactly when this was its last reference.  The tables stay separate, no page in use other than a table is
  written, the entries of the kernel are kept in every directory, and no other page becomes free.  (A page that loses its last reference must be one the
  allocator can take back: no table, not reserved, and not above every free page, for which see C3.)\<close>

theorem page_insert_maps:
  assumes "tables_ok s ps D" and "d \<in> D" and "la < 2 ^ 38" and "p + nbase < npage s" "p \<notin> free_set (pm s) ps"
    and "\<forall>n. frame s d la = Some n \<longrightarrow> used s ps n"
    and "\<forall>q\<in>last_page s d la p. data_page D s ps (q + nbase) \<and> \<not> PageReserved (pages (pm s) q) \<and>
      nr_free_pages s + 1 < 2 ^ 32 \<and> (ps = [] \<or> (\<exists>v\<in>set ps. q < v))"
  shows "\<exists>r s' ps'. page_insert d p la perm s = Some (r, s') \<and> changes D (last_page s d la p) s ps s' ps' \<and>
     (r = 0 \<and> lookup s' d la = Some (pte_create (p + nbase) (PTE_V OR perm)) \<and>
        (\<forall>d'\<in>D. \<forall>la'. (d', vpn la') \<noteq> (d, vpn la) \<longrightarrow> lookup s' d' la' = lookup s d' la') \<and>
        (\<forall>q. q \<notin> free_set (pm s) ps \<longrightarrow>
           page_ref q s' = page_ref q s + (if q = p then 1 else 0) - (if frame s d la = Some (q + nbase) then 1 else 0))
      \<or> r = - E_NO_MEM \<and> nr_free_pages s < 2 \<and> (\<forall>d'\<in>D. \<forall>la'. lookup s' d' la' = lookup s d' la') \<and>
        (\<forall>q. q \<notin> free_set (pm s) ps \<longrightarrow> page_ref q s' = page_ref q s))"
proof (cases "last_page s d la p = {}")
  case True
  have old: "\<forall>n. frame s d la = Some n \<longrightarrow> used s ps n \<and> (n \<noteq> p + nbase \<longrightarrow> page_ref (n - nbase) s \<noteq> 1)"
  proof (intro allI impI conjI)
    fix n assume n: "frame s d la = Some n"
    then show u: "used s ps n" using assms(6) by blast
    assume "n \<noteq> p + nbase"
    then have "n - nbase \<noteq> p" "n - nbase + nbase = n" using u by (auto simp: used_def)
    then show "page_ref (n - nbase) s \<noteq> 1" using True n unfolding last_page_def by auto
  qed
  from page_insert_ok [OF assms(1,2) user_la [OF assms(3)] assms(4,5) old, of perm] show ?thesis
    using grows_changes unfolding True by (cases; blast)
next
  case False
  then obtain q where q: "q \<in> last_page s d la p" by blast
  then have X: "last_page s d la p = {q}" by (auto simp: last_page_def)
  have "data_page D s ps (q + nbase)" "\<not> PageReserved (pages (pm s) q)" "nr_free_pages s + 1 < 2 ^ 32" "ps = [] \<or> (\<exists>v\<in>set ps. q < v)"
    using assms(7) q by blast+
  from page_insert_frees [OF assms(1,2,5) X this, of perm] show ?thesis unfolding X by metis
qed

text \<open>Two runs: into an empty directory, and over the last mapping of page 5, which becomes free.\<close>

theorem page_insert_maps_witness:
  "(\<exists>s'. page_insert 0x80002 9 0x400000 0x1F sample_machine = Some (0, s') \<and>
      lookup s' 0x80002 0x400000 = Some (pte_create 0x80009 (PTE_V OR 0x1F))) \<and>
   (\<exists>s' ps'. page_insert 0x80003 10 0x200000 0x1F (upd_ref 5 (\<lambda>_. 1) sample_machine) = Some (0, s') \<and>
      lookup s' 0x80003 0x200000 = Some (pte_create 0x8000A (PTE_V OR 0x1F)) \<and> page_ref 5 s' = 0 \<and> 5 \<in> free_set (pm s') ps')"
proof
  have nr: "nr_free_pages sample_machine = 5"
    by (simp add: sample_machine_def sample_pmm_def nr_free_pages_def default_nr_free_pages_def)
  have p: "(9 :: nat) + nbase < npage sample_machine" "9 \<notin> free_set (pm sample_machine) [0, 6]"
    "(10 :: nat) + nbase < npage sample_machine" "10 \<notin> free_set (pm sample_machine) [0, 6]"
    using sample_free_set by (simp_all add: sample_machine_def)
  have "last_page sample_machine 0x80002 0x400000 9 = {}" by (simp add: last_page_def sample_frame)
  then show "\<exists>s'. page_insert 0x80002 9 0x400000 0x1F sample_machine = Some (0, s') \<and>
      lookup s' 0x80002 0x400000 = Some (pte_create 0x80009 (PTE_V OR 0x1F))"
    using page_insert_maps [OF sample_tables_ok _ _ p(1,2), of "0x80002" "0x400000" "0x1F"] nr by (auto simp: sample_frame)
  let ?s = "upd_ref 5 (\<lambda>_. 1) sample_machine"
  have nd: "node ?s = node sample_machine" using node_mem [of ?s sample_machine] by (simp add: fun_eq_iff)
  have lk: "lookup ?s = lookup sample_machine" by (simp add: lookup_def fun_eq_iff nd)
  have fr: "frame ?s 0x80003 0x200000 = Some 0x80005" using sample_frame [of "0x80003" "0x200000"] unfolding frame_def lk by simp
  have dp: "data_page D ?s qs n = data_page D sample_machine qs n" for D qs n by (simp add: data_page_def used_def nd)
  have X: "last_page ?s 0x80003 0x200000 10 = {5}" by (auto simp: last_page_def fr)
  have u: "\<forall>n. frame ?s 0x80003 0x200000 = Some n \<longrightarrow> used ?s [0, 6] n" using sample_data by (simp add: fr data_page_def used_def)
  have "\<not> PageReserved (pages (pm ?s) 5)" by (simp add: upd_ref_def sample_machine_def sample_pmm_def)
  then have "\<forall>q\<in>last_page ?s 0x80003 0x200000 10. data_page {0x80002, 0x80003} ?s [0, 6] (q + nbase) \<and> \<not> PageReserved (pages (pm ?s) q) \<and>
      nr_free_pages ?s + 1 < 2 ^ 32 \<and> ([0, 6 :: nat] = [] \<or> (\<exists>v\<in>set [0, 6]. q < v))"
    using sample_data nr by (simp add: X dp)
  from page_insert_maps [OF _ _ _ _ _ u this, of "0x1F"] sample_tables_ok p(3,4) nr obtain s' ps' where
    "page_insert 0x80003 10 0x200000 0x1F ?s = Some (0, s')" "changes {0x80002, 0x80003} {5} ?s [0, 6] s' ps'"
    "lookup s' 0x80003 0x200000 = Some (pte_create 0x8000A (PTE_V OR 0x1F))"
    and r: "\<forall>q. q \<notin> free_set (pm ?s) [0, 6] \<longrightarrow>
      page_ref q s' = page_ref q ?s + (if q = 10 then 1 else 0) - (if frame ?s 0x80003 0x200000 = Some (q + nbase) then 1 else 0)"
    unfolding X by auto
  moreover have "5 \<notin> free_set (pm sample_machine) [0, 6]" using sample_free_set by (simp add: sample_machine_def)
  then have "page_ref 5 s' = 0" using r fr by simp
  ultimately show "\<exists>s' ps'. page_insert 0x80003 10 0x200000 0x1F ?s = Some (0, s') \<and>
      lookup s' 0x80003 0x200000 = Some (pte_create 0x8000A (PTE_V OR 0x1F)) \<and> page_ref 5 s' = 0 \<and> 5 \<in> free_set (pm s') ps'"
    by (auto simp: changes_def)
qed

text \<open>C21: \<^verbatim>\<open>copy_range\<close>, by which \<^verbatim>\<open>fork\<close> copies memory, terminates and returns 0 when there are three free pages for every page of the range and the child's
  range is still empty.  Then every address of the range that the parent has mapped is mapped by the child, with the same permissions, to a page with
  the same contents that was free before; no two pages of the range share such a page; everywhere else the child's address
  space, and everywhere the parent's, is as before, the entries of the kernel are kept in both directories, and the contents of all pages in use are kept.  (The range lies in the user half, which the
  tables of a process are for; \<open>setup_pgdir_ok\<close> provides the child's directory.)\<close>

theorem copy_range_isolates:
  assumes "tables_ok s ps D" "to \<in> D" "from \<in> D" "to \<noteq> from" and "3 * ((end - start) div PGSIZE) \<le> nr_free_pages s"
    and "\<forall>la n. start \<le> la \<and> la < end \<and> frame s from la = Some n \<longrightarrow> data_page D s ps n"
    and "start mod PGSIZE = 0" "end mod PGSIZE = 0" "USER_ACCESS start end"
    and "\<forall>la. start \<le> la \<and> la < end \<longrightarrow> lookup s to la = None"
  shows "\<exists>s' ps'. copy_range to from start end share s = Some (0, s') \<and> grows D s ps s' ps' \<and>
     copied_range to from start end s ps s' \<and> private_pages to start end s' \<and>
     (\<forall>la. lookup s' from la = lookup s from la) \<and>
     (\<forall>la<2 ^ 39. \<not> (start \<le> la \<and> la < end) \<longrightarrow> lookup s' to la = lookup s to la)"
proof -
  have "start < end" "end \<le> USERTOP" using assms(9) by (simp_all add: USER_ACCESS_def)
  from copy_loop_ok [OF assms(1-8) this assms(10)] show ?thesis using assms(7-9) by (auto simp: copy_range_def copy_ok_def)
qed

text \<open>The child's directory comes from \<^verbatim>\<open>setup_pgdir\<close>.\<close>

theorem copy_range_isolates_witness:
  "\<exists>d s s' ps. setup_pgdir 0x80002 sample_machine = Some (0, Some d, s) \<and> mem s d 511 = 0x200000CF \<and> mem s 0x80003 511 = 0x200000CF \<and>
     copy_range d 0x80003 0x200000 0x201000 False s = Some (0, s') \<and>
     copied_page d 0x200000 (pte_create 0x80005 0x1F) s ps s' \<and> mem s' d 511 = 0x200000CF"
proof -
  have nr: "nr_free_pages sample_machine = 5"
    by (simp add: sample_machine_def sample_pmm_def nr_free_pages_def default_nr_free_pages_def)
  have boot: "\<forall>i<256. \<not> valid (mem sample_machine 0x80002 i)" by (simp add: sample_machine_def)
  have k: "mem sample_machine 0x80002 511 = 0x200000CF" "mem sample_machine 0x80003 511 = 0x200000CF" by (simp_all add: sample_machine_def)
  from sample_tables_ok boot show ?thesis
  proof (cases rule: setup_pgdir_ok)
    case none
    then show ?thesis using nr by simp
  next
    case (some d s ps)
    have e: "lookup s 0x80003 0x200000 = Some (pte_create 0x80005 0x1F)"
      unfolding some(9) [OF insertI2 [OF singletonI]]
      by (simp add: lookup_some sample_node PDX0_def PDX1_def PTX_def del: node.simps) (simp add: sample_machine_def)
    have "frame s 0x80003 la = frame sample_machine 0x80003 la" for la by (simp add: frame_def some(9))
    then have src: "\<forall>la n. 0x200000 \<le> la \<and> la < 0x201000 \<and> frame s 0x80003 la = Some n \<longrightarrow> data_page (insert d {0x80002, 0x80003}) s ps n"
      using some(10) [OF sample_data] by (simp add: sample_frame)
    have "3 * ((0x201000 - 0x200000 :: nat) div PGSIZE) \<le> nr_free_pages s" using some(6) nr by simp
    from copy_range_isolates [OF some(4) _ _ _ this src, of d False] some(2,8) obtain s' ps' where
      s': "copy_range d 0x80003 0x200000 0x201000 False s = Some (0, s')" "copied_range d 0x80003 0x200000 0x201000 s ps s'"
      "grows (insert d {0x80002, 0x80003}) s ps s' ps'"
      by (auto simp: USER_ACCESS_def)
    have "mem s' d 511 = mem s d 511" using s'(3) by (simp add: grows_def)
    moreover have "mem s 0x80003 511 = mem sample_machine 0x80003 511" using some(5) by (simp add: grows_def)
    ultimately have "mem s d 511 = 0x200000CF" "mem s 0x80003 511 = 0x200000CF" "mem s' d 511 = 0x200000CF" by (simp_all add: some(7) k)
    moreover have "copied_page d 0x200000 (pte_create 0x80005 0x1F) s ps s'"
      using s'(2) [unfolded copied_range_def, rule_format, of "0x200000"] e by simp
    ultimately show ?thesis using s'(1) some(1) by blast
  qed
qed

end
