(* ===== verification/Cow.thy ===== *)
theory Cow
  imports PageTable
begin

text \<open>
  Copy on write, the extension that \<^verbatim>\<open>lab5\<close> makes to the memory manager: \<^verbatim>\<open>copy_range\<close> (\<^verbatim>\<open>lab5/kern/mm/pmm.c\<close>) lets parent and child share
  the pages read-only, and \<^verbatim>\<open>do_pgfault\<close> (\<^verbatim>\<open>lab5/kern/mm/vmm.c\<close>) gives a process a page of its own when it writes.  The page tables are
  those of \<open>PageTable\<close>, whose functions \<^verbatim>\<open>lab5\<close> has in the same form: the user half of every directory is the process's own, and every directory
  has the entry of the kernel beside it, a leaf for a whole gigabyte without \<^verbatim>\<open>PTE_U\<close> (\<^verbatim>\<open>kern/init/entry.S\<close>), which \<^verbatim>\<open>setup_pgdir\<close> copies.  The TLB
  is not represented.
\<close>

unbundle bit_operations_syntax

section \<open>The flag of a shared page\<close>

abbreviation (input) PG_cow :: nat where "PG_cow \<equiv> 2"

definition SetPageCow :: "page \<Rightarrow> page" where
  "SetPageCow p = p\<lparr>flags := set_bit PG_cow (flags p)\<rparr>"

definition ClearPageCow :: "page \<Rightarrow> page" where
  "ClearPageCow p = p\<lparr>flags := unset_bit PG_cow (flags p)\<rparr>"

definition PageCow :: "page \<Rightarrow> bool" where
  "PageCow p \<longleftrightarrow> bit (flags p) PG_cow"

definition upd_desc :: "nat \<Rightarrow> (page \<Rightarrow> page) \<Rightarrow> machine \<Rightarrow> machine" where
  "upd_desc p f s = s\<lparr>pm := upd_page p f (pm s)\<rparr>"

abbreviation page_cow :: "nat \<Rightarrow> machine \<Rightarrow> bool" where
  "page_cow p s \<equiv> PageCow (pages (pm s) p)"

section \<open>Sharing at a fork\<close>

definition cow_perm :: "64 word \<Rightarrow> 32 word" where
  "cow_perm e = ucast (e AND (PTE_U OR PTE_R OR PTE_X OR PTE_V)) AND NOT PTE_W"

text \<open>The body of the loop; it gives the next address.\<close>

definition cow_step :: "nat \<Rightarrow> nat \<Rightarrow> bool \<Rightarrow> nat \<Rightarrow> machine \<Rightarrow> (int \<times> nat \<times> machine) option" where
  "cow_step to from share start s = do {
     (ptep, s) \<leftarrow> get_pte from start False s;
     (case ptep of
        None \<Rightarrow> Some (0, ROUNDDOWN (u64 (start + PTSIZE)) PTSIZE, s)
      | Some (t, i) \<Rightarrow>
          (if valid (mem s t i)
           then do {
             (nptep, s) \<leftarrow> get_pte to start True s;
             (case nptep of
                None \<Rightarrow> Some (- E_NO_MEM, start, s)
              | Some (t', i') \<Rightarrow> do {
                  page \<leftarrow> pte2page (mem s t i) s;
                  Some (0, u64 (start + PGSIZE),
                    if \<not> share \<and> mem s t i AND PTE_W \<noteq> 0
                    then let s = upd_desc page SetPageCow (page_ref_inc page s);
                             entry = pte_create (page2ppn page) (cow_perm (mem s t i))
                         in set_mem t i entry (set_mem t' i' entry s)
                    else page_ref_inc page (set_mem t' i' (mem s t i) s))
                })
           }
           else Some (0, u64 (start + PGSIZE), s)))
   }"

partial_function (option) cow_loop :: "nat \<Rightarrow> nat \<Rightarrow> bool \<Rightarrow> nat \<Rightarrow> nat \<Rightarrow> machine \<Rightarrow> (int \<times> machine) option" where
  "cow_loop to from share start end s = do {
     (ret, start, s) \<leftarrow> cow_step to from share start s;
     (if ret \<noteq> 0 then Some (ret, s)
      else if start \<noteq> 0 \<and> start < end then cow_loop to from share start end s else Some (0, s))
   }"

definition cow_range :: "nat \<Rightarrow> nat \<Rightarrow> nat \<Rightarrow> nat \<Rightarrow> bool \<Rightarrow> machine \<Rightarrow> (int \<times> machine) option" where
  "cow_range to from start end share s = do {
     kassert (start mod PGSIZE = 0 \<and> end mod PGSIZE = 0);
     kassert (USER_ACCESS start end);
     cow_loop to from share start end s
   }"

section \<open>The page fault\<close>

text \<open>The two branches of \<^verbatim>\<open>do_pgfault\<close> behind \<^verbatim>\<open>get_pte\<close>, for an area with the flags \<open>fl\<close>.\<close>

definition fault_present :: "32 word \<Rightarrow> bool \<Rightarrow> nat \<Rightarrow> nat \<Rightarrow> machine \<Rightarrow> (int \<times> machine) option" where
  "fault_present fl is_write t i s =
     (if is_write \<and> mem s t i AND PTE_W = 0 \<and> fl AND VM_WRITE \<noteq> 0
      then do {
        page \<leftarrow> pte2page (mem s t i) s;
        (if page_cow page s
         then (if page_ref page s > 1
               then do {
                 (r, s) \<leftarrow> alloc_pages 1 s;
                 (case r of
                    None \<Rightarrow> Some (- E_NO_MEM, s)
                  | Some new_page \<Rightarrow> do {
                      src \<leftarrow> page2kva page s;
                      dst \<leftarrow> page2kva new_page s;
                      let s = s\<lparr>mem := (mem s)(dst := mem s src)\<rparr>;
                      let s = upd_desc new_page ClearPageCow (page_ref_dec page s);
                      let perm = ucast (mem s t i AND (PTE_U OR PTE_R OR PTE_X)) OR PTE_W OR PTE_V;
                      Some (0, set_mem t i (pte_create (page2ppn new_page) perm) s)
                    })
               }
               else Some (0, set_mem t i (mem s t i OR PTE_W) (upd_desc page ClearPageCow s)))
         else Some (- E_INVAL, s))
      }
      else Some (- E_INVAL, s))"

definition fault_absent :: "32 word \<Rightarrow> bool \<Rightarrow> nat \<Rightarrow> nat \<Rightarrow> machine \<Rightarrow> (int \<times> machine) option" where
  "fault_absent fl is_write t i s =
     (if fl AND VM_WRITE = 0 \<and> is_write then Some (- E_INVAL, s)
      else do {
        (r, s) \<leftarrow> alloc_pages 1 s;
        (case r of
           None \<Rightarrow> Some (- E_NO_MEM, s)
         | Some page \<Rightarrow> do {
             let perm = PTE_U OR PTE_V OR (if fl AND VM_WRITE \<noteq> 0 then PTE_W else 0) OR
               (if fl AND VM_READ \<noteq> 0 then PTE_R else 0) OR (if fl AND VM_EXEC \<noteq> 0 then PTE_X else 0);
             let s = set_mem t i (pte_create (page2ppn page) perm) s;
             k \<leftarrow> page2kva page s;
             Some (0, s\<lparr>mem := (mem s)(k := (\<lambda>_. 0))\<rparr>)
           })
      })"

definition do_pgfault :: "mm_struct \<Rightarrow> nat \<Rightarrow> 32 word \<Rightarrow> nat \<Rightarrow> machine \<Rightarrow> (int \<times> mm_struct \<times> machine) option" where
  "do_pgfault mm pgdir error_code addr s =
     (if \<not> USER_ACCESS addr (u64 (addr + 1)) then Some (- E_INVAL, mm, s)
      else case find_vma mm addr of
        (None, mm) \<Rightarrow> Some (- E_INVAL, mm, s)
      | (Some vma, mm) \<Rightarrow>
          (if addr < vm_start vma \<or> vm_end vma \<le> addr then Some (- E_INVAL, mm, s)
           else do {
             (ptep, s) \<leftarrow> get_pte pgdir addr True s;
             (case ptep of
                None \<Rightarrow> Some (- E_NO_MEM, mm, s)
              | Some (t, i) \<Rightarrow> do {
                  let is_write = (error_code AND 2 \<noteq> 0);
                  (ret, s) \<leftarrow> (if valid (mem s t i) then fault_present (vm_flags vma) is_write t i s
                    else fault_absent (vm_flags vma) is_write t i s);
                  Some (ret, mm, s)
                })
           }))"

text \<open>The cases of \<^verbatim>\<open>exception_handler\<close> (\<^verbatim>\<open>lab5/kern/trap/trap.c\<close>) for a process with an \<^verbatim>\<open>mm\<close>.\<close>

datatype fault = FetchPageFault | LoadPageFault | StorePageFault

definition page_fault :: "fault \<Rightarrow> mm_struct \<Rightarrow> nat \<Rightarrow> nat \<Rightarrow> machine \<Rightarrow> (mm_struct \<times> machine) option" where
  "page_fault cause mm pgdir tval s = do {
     (ret, mm, s) \<leftarrow> do_pgfault mm pgdir (case cause of StorePageFault \<Rightarrow> 2 | _ \<Rightarrow> 0) tval s;
     kassert (ret = 0);
     Some (mm, s)
   }"

section \<open>The memory a process sees\<close>

text \<open>
  An access of a process, to the word that holds \<open>va\<close>; \<open>None\<close> is a page fault.  There are no user mappings in the upper half, and none by large pages in
  the lower one (\<^const>\<open>tables_ok\<close>).
\<close>

definition user_frame :: "64 word \<Rightarrow> machine \<Rightarrow> nat \<Rightarrow> nat \<Rightarrow> nat option" where
  "user_frame bits s d va =
     (case lookup s d va of Some e \<Rightarrow> if e AND bits = bits then Some (PPN (PTE_ADDR e)) else None | None \<Rightarrow> None)"

definition user_load :: "machine \<Rightarrow> nat \<Rightarrow> nat \<Rightarrow> 64 word option" where
  "user_load s d va = do { n \<leftarrow> user_frame (PTE_U OR PTE_R) s d va; Some (mem s n (PGOFF va div 8)) }"

definition user_store :: "nat \<Rightarrow> nat \<Rightarrow> 64 word \<Rightarrow> machine \<Rightarrow> machine option" where
  "user_store d va w s = do { n \<leftarrow> user_frame (PTE_U OR PTE_W) s d va; Some (set_mem n (PGOFF va div 8) w s) }"

section \<open>Entries\<close>

abbreviation writable :: "64 word \<Rightarrow> bool" where
  "writable e \<equiv> bit e 2"

lemma and_bit: "e AND 4 = 0 \<longleftrightarrow> \<not> bit e 2" for e :: "64 word"
  using and_exp_eq_0_iff_not_bit [of e 2] by simp

lemma perm_small:
  assumes "\<And>i. 10 \<le> i \<Longrightarrow> \<not> bit p i"
  shows "unat (p :: 32 word) < 1024"
proof -
  have "p = take_bit 10 p" using assms by (intro bit_word_eqI) (auto simp: bit_simps intro: ccontr simp flip: not_le)
  then have "unat p = take_bit 10 (unat p)" by (metis unsigned_take_bit_eq)
  then show ?thesis using take_bit_nat_less_exp [of 10 "unat p"] by simp
qed


lemma bit_flags:
  "bit (27 :: 64 word) i \<longleftrightarrow> i \<in> {0, 1, 3, 4}" "bit (26 :: 64 word) i \<longleftrightarrow> i \<in> {1, 3, 4}"
  "bit (27 :: 32 word) i \<longleftrightarrow> i \<in> {0, 1, 3, 4}" "bit (26 :: 32 word) i \<longleftrightarrow> i \<in> {1, 3, 4}" "bit (4 :: 32 word) i \<longleftrightarrow> i = 2"
proof -
  have "\<forall>i\<in>set [0..<64]. (bit (27 :: 64 word) i \<longleftrightarrow> i = 0 \<or> i = 1 \<or> i = 3 \<or> i = 4) \<and> (bit (26 :: 64 word) i \<longleftrightarrow> i = 1 \<or> i = 3 \<or> i = 4) \<and>
      (bit (27 :: 32 word) i \<longleftrightarrow> i = 0 \<or> i = 1 \<or> i = 3 \<or> i = 4) \<and> (bit (26 :: 32 word) i \<longleftrightarrow> i = 1 \<or> i = 3 \<or> i = 4) \<and>
      (bit (4 :: 32 word) i \<longleftrightarrow> i = 2)" by code_simp
  moreover have "\<not> bit w i" if "64 \<le> i" for w :: "64 word" using that bit_imp_le_length [of w i] by auto
  moreover have "\<not> bit w i" if "64 \<le> i" for w :: "32 word" using that bit_imp_le_length [of w i] by auto
  ultimately show "bit (27 :: 64 word) i \<longleftrightarrow> i \<in> {0, 1, 3, 4}" "bit (26 :: 64 word) i \<longleftrightarrow> i \<in> {1, 3, 4}"
    "bit (27 :: 32 word) i \<longleftrightarrow> i \<in> {0, 1, 3, 4}" "bit (26 :: 32 word) i \<longleftrightarrow> i \<in> {1, 3, 4}" "bit (4 :: 32 word) i \<longleftrightarrow> i = 2"
    by (cases "i < 64"; auto)+
qed

lemma cow_perm_bits: "bit (cow_perm e) i \<longleftrightarrow> i \<in> {0, 1, 3, 4} \<and> bit e i"
proof -
  have "(PTE_U OR PTE_R OR PTE_X OR PTE_V :: 64 word) = 27" by simp
  then show ?thesis unfolding cow_perm_def by (simp only: bit_and_iff bit_not_iff bit_unsigned_iff bit_flags) auto
qed

text \<open>The entry both get for a page that was writable.\<close>

definition cow_entry :: "64 word \<Rightarrow> 64 word" where
  "cow_entry e = (if writable e then pte_create (PPN (PTE_ADDR e)) (cow_perm e) else e)"

lemma cow_entry_ok:
  assumes "PPN (PTE_ADDR e) < 2 ^ 44" "valid e"
  shows "PPN (PTE_ADDR (cow_entry e)) = PPN (PTE_ADDR e)" "valid (cow_entry e)" "\<not> writable (cow_entry e)"
    "i \<in> {1, 3, 4} \<Longrightarrow> bit (cow_entry e) i = bit e i"
proof -
  have "unat (cow_perm e) < 1024" by (rule perm_small) (auto simp: cow_perm_bits)
  from PPN_pte_create [OF assms(1) this] show "PPN (PTE_ADDR (cow_entry e)) = PPN (PTE_ADDR e)" by (simp add: cow_entry_def)
  show "valid (cow_entry e)" using assms(2) by (simp add: cow_entry_def)
  show "\<not> writable (cow_entry e)" "i \<in> {1, 3, 4} \<Longrightarrow> bit (cow_entry e) i = bit e i"
    by (auto simp: cow_entry_def pte_bit cow_perm_bits)
qed

text \<open>The flag of a shared page concerns neither the allocator nor the tables.\<close>

lemma upd_desc_sel [simp]:
  "mem (upd_desc p f s) = mem s" "npage (upd_desc p f s) = npage s" "nr_free_pages (upd_desc p f s) = nr_free_pages s"
  by (simp_all add: upd_desc_def nr_free_pages_def default_nr_free_pages_def)

lemma cow_flag_simps [simp]:
  "PageCow (SetPageCow g)" "\<not> PageCow (ClearPageCow g)" "ref (SetPageCow g) = ref g" "ref (ClearPageCow g) = ref g"
  "PageCow (SetPageProperty g) = PageCow g" "PageCow (ClearPageProperty g) = PageCow g" "PageCow (g\<lparr>property := n\<rparr>) = PageCow g"
  "PageCow (set_page_ref v g) = PageCow g"
  by (simp_all add: PageCow_def SetPageCow_def ClearPageCow_def SetPageProperty_def ClearPageProperty_def set_page_ref_def bit_simps)

definition cow_flag :: "(page \<Rightarrow> page) \<Rightarrow> bool" where
  "cow_flag f \<longleftrightarrow> f = SetPageCow \<or> f = ClearPageCow"

lemma upd_desc_ok [simp]:
  assumes "cow_flag f"
  shows "ff_inv (pm (upd_desc p f s)) ps = ff_inv (pm s) ps" "free_set (pm (upd_desc p f s)) ps = free_set (pm s) ps"
    "page_ref q (upd_desc p f s) = page_ref q s"
proof -
  let ?g = "pages (pm (upd_desc p f s))"
  have g: "property (?g q) = property (pages (pm s) q)" "PageProperty (?g q) = PageProperty (pages (pm s) q)"
    "PageReserved (?g q) = PageReserved (pages (pm s) q)" "ref (?g q) = ref (pages (pm s) q)" for q
    using assms by (auto simp: upd_desc_def cow_flag_def PageProperty_def PageReserved_def SetPageCow_def ClearPageCow_def bit_simps)
  have b: "blocks ?g ps = blocks (pages (pm s)) ps" and t: "total ?g ps = total (pages (pm s)) ps"
    by (simp_all add: blocks_def block_def total_def g)
  have a: "apart ?g = apart (pages (pm s))" by (simp add: apart_def fun_eq_iff g)
  show "free_set (pm (upd_desc p f s)) ps = free_set (pm s) ps" by (simp add: free_set_def b)
  show "ff_inv (pm (upd_desc p f s)) ps = ff_inv (pm s) ps"
    unfolding ff_inv_def b t a g heads_ok_def by (simp add: upd_desc_def)
  show "page_ref q (upd_desc p f s) = page_ref q s" by (simp add: page_ref_def g)
qed

lemma cow_flags [simp]: "cow_flag SetPageCow" "cow_flag ClearPageCow"
  by (simp_all add: cow_flag_def)

text \<open>The allocator does not touch it either.\<close>

lemma alloc_cow:
  assumes "tables_ok s ps D" and "alloc_pages 1 s = Some (r, s')"
  shows "page_cow q s' = page_cow q s"
proof -
  have inv: "ff_inv (pm s) ps" using assms(1) by (simp add: tables_ok_def)
  have "page_cow q (s\<lparr>pm := take_block p 1 (pm s)\<rparr>) = page_cow q s" for p by (simp add: take_block_pages)
  then show ?thesis using assms(2) default_alloc_pages_eq [OF inv, of 1] by (auto simp: alloc_pages_def split: option.splits)
qed

lemma ref_cow [simp]: "page_cow q (upd_ref p f s) = page_cow q s"
  by (simp add: upd_ref_def)

lemma table_step_cow:
  assumes ok: "tables_ok s ps D" and step: "table_step t i c s = Some (r, s')"
  shows "page_cow q s' = page_cow q s"
proof (cases "valid (mem s t i) \<or> \<not> c")
  case True
  then have "s' = s" using step by (auto simp: table_step_def split: if_splits bind_splits)
  then show ?thesis by simp
next
  case False
  then obtain a s1 where a: "alloc_pages 1 s = Some (a, s1)" using step by (auto simp: table_step_def split: bind_splits)
  then have "page_cow q s' = page_cow q s1"
    using step False by (cases a) (auto simp: table_step_def Let_def split: bind_splits)
  then show ?thesis using alloc_cow [OF ok a] by simp
qed

lemma get_pte_cow:
  assumes "tables_ok s ps D" "d \<in> D" "get_pte d la c s = Some (r, s')" and la: "user_la la"
  shows "page_cow q s' = page_cow q s"
proof -
  obtain r0 s1 where s1: "table_step d (PDX1 la) c s = Some (r0, s1)" using assms(3) by (auto simp: get_pte_def split: bind_splits)
  have one: "page_cow q s1 = page_cow q s" by (rule table_step_cow [OF assms(1) s1])
  have "\<exists>ps1. tables_ok s1 ps1 D"
  proof (cases c)
    case True
    have root: "length ([] :: nat list) < 2" "node s d [] = Some d" "PDX1 la < slots []" using la by simp_all
    from assms(1,2) root show ?thesis
      by (cases rule: table_step_create) (use s1 True assms(1) in \<open>auto simp: grows_def\<close>)
  next
    case False
    then have "s1 = s" using table_step_find(1) [OF assms(1,2), of "[]" d "PDX1 la"] s1 la by simp
    then show ?thesis using assms(1) by blast
  qed
  then obtain ps1 where "tables_ok s1 ps1 D" ..
  then show ?thesis using assms(3) s1 one table_step_cow [of s1 ps1 D]
    by (auto simp: get_pte_def split: bind_splits option.splits)
qed

lemma node_user: "node s d [PDX0 la, PDX1 la] = Some t \<Longrightarrow> user_la la"
  by (simp split: option.splits if_splits)

section \<open>A fork shares the pages\<close>

definition hits :: "machine \<Rightarrow> nat \<Rightarrow> nat \<Rightarrow> nat \<Rightarrow> nat \<Rightarrow> nat set" where
  "hits s d a b q = {i. a \<le> i * PGSIZE \<and> i * PGSIZE < b \<and> frame s d (i * PGSIZE) = Some (q + nbase)}"

text \<open>What the steps from \<open>a\<close> to \<open>b\<close> achieve: both sides have the entries of the parent, read-only, and each shared page counts its new users.\<close>

definition cow_ok :: "nat set \<Rightarrow> nat \<Rightarrow> nat \<Rightarrow> nat \<Rightarrow> nat \<Rightarrow> machine \<Rightarrow> nat list \<Rightarrow> machine \<Rightarrow> nat list \<Rightarrow> bool" where
  "cow_ok D to from a b s ps s' ps' \<longleftrightarrow>
     grows D s ps s' ps' \<and>
     (\<forall>la. a \<le> la \<and> la < b \<longrightarrow> lookup s' from la = map_option cow_entry (lookup s from la) \<and> lookup s' to la = map_option cow_entry (lookup s from la)) \<and>
     (\<forall>la<2 ^ 39. \<not> (a \<le> la \<and> la < b) \<longrightarrow> lookup s' from la = lookup s from la \<and> lookup s' to la = lookup s to la) \<and>
     (\<forall>d\<in>D - {to, from}. \<forall>la. lookup s' d la = lookup s d la) \<and>
     (\<forall>q. q \<notin> free_set (pm s) ps \<longrightarrow> page_ref q s' = page_ref q s + int (card (hits s from a b q))) \<and>
     (\<forall>q. page_cow q s \<longrightarrow> page_cow q s') \<and>
     (\<forall>la e. a \<le> la \<and> la < b \<and> lookup s from la = Some e \<and> writable e \<longrightarrow> page_cow (PPN (PTE_ADDR e) - nbase) s')"

lemma cow_step_page:
  assumes ok: "tables_ok s ps D" and D: "to \<in> D" "from \<in> D" "to \<noteq> from" and free: "2 \<le> nr_free_pages s"
    and e: "lookup s from start = Some e" and src: "data_page D s ps (PPN (PTE_ADDR e))"
  obtains s' ps' where "cow_step to from False start s = Some (0, u64 (start + PGSIZE), s')" "grows D s ps s' ps'"
    "nr_free_pages s \<le> nr_free_pages s' + 2" "lookup s' from start = Some (cow_entry e)" "lookup s' to start = Some (cow_entry e)"
    "\<forall>d\<in>D. \<forall>la. vpn la \<noteq> vpn start \<or> d \<notin> {to, from} \<longrightarrow> lookup s' d la = lookup s d la"
    "\<forall>q. q \<notin> free_set (pm s) ps \<longrightarrow> page_ref q s' = page_ref q s + (if q + nbase = PPN (PTE_ADDR e) then 1 else 0)"
    "\<forall>q. page_cow q s \<longrightarrow> page_cow q s'" "writable e \<longrightarrow> page_cow (PPN (PTE_ADDR e) - nbase) s'"
proof -
  let ?n = "PPN (PTE_ADDR e)"
  from e obtain t where t: "node s from [PDX0 start, PDX1 start] = Some t" "mem s t (PTX start) = e" "valid e" by (auto simp: lookup_some)
  have n: "used s ps ?n" "?n < 2 ^ 44" "nbase \<le> ?n" using src ok by (auto simp: data_page_def used_def tables_ok_def)
  note entry = cow_entry_ok [OF n(2) t(3)] and la = node_user [OF t(1)]
  show thesis
  proof (cases rule: get_pte_create [OF ok D(1) la])
    case (1 s1 ps1)
    then show thesis using free by simp
  next
    case (2 t' s1 ps1)
    have ok1: "tables_ok s1 ps1 D" using 2(2) by (simp add: grows_def)
    have t1: "node s1 from [PDX0 start, PDX1 start] = Some t" using 2(2) D(2) t(1) by (simp add: grows_def del: node.simps)
    have "lookup s1 from start = Some e" using 2(4) D(2) e by simp
    then have e1: "mem s1 t (PTX start) = e" using t1 by (auto simp: lookup_some simp del: node.simps)
    have tt: "t' \<noteq> t" using node_inj [OF ok1 D(1,2) _ _ 2(3), of "[PDX0 start, PDX1 start]"] t1 D(3) by auto
    have pg: "pte2page e s1 = Some (?n - nbase)" using pte2page_used [OF t(3) n(1)] 2(2) by (simp add: grows_def)
    have cow1: "page_cow q s1 = page_cow q s" for q by (rule get_pte_cow [OF ok D(1) 2(1) la])
    have step: "cow_step to from False start s = Some (0, u64 (start + PGSIZE), s')"
      if "s' = (if writable e then let s = upd_desc (?n - nbase) SetPageCow (page_ref_inc (?n - nbase) s1)
          in set_mem t (PTX start) (cow_entry e) (set_mem t' (PTX start) (cow_entry e) s)
        else page_ref_inc (?n - nbase) (set_mem t' (PTX start) e s1))" for s'
      using that get_pte_find [OF ok D(2) la] t 2(1) e1 pg n(3)
      by (simp add: cow_step_def and_bit cow_entry_def page2ppn_def page_ref_inc_def Let_def del: node.simps)
    have refs: "page_ref q (page_ref_inc (?n - nbase) s1) = page_ref q s + (if q + nbase = ?n then 1 else 0)" if "q \<notin> free_set (pm s) ps" for q
      using 2(5) that n(3) by (auto simp: page_ref_inc_def)
    define s2 where "s2 = (if writable e then upd_desc (?n - nbase) SetPageCow (page_ref_inc (?n - nbase) s1) else page_ref_inc (?n - nbase) s1)"
    define s3 where "s3 = set_mem t' (PTX start) (cow_entry e) s2"
    define s4 where "s4 = set_mem t (PTX start) (cow_entry e) s3"
    have s2: "mem s2 = mem s1" "npage s2 = npage s1" "ff_inv (pm s2) qs = ff_inv (pm s1) qs" "free_set (pm s2) qs = free_set (pm s1) qs"
      "page_ref q s2 = page_ref q (page_ref_inc (?n - nbase) s1)" "nr_free_pages s2 = nr_free_pages s1"
      "page_cow q s1 \<longrightarrow> page_cow q s2" "writable e \<longrightarrow> page_cow (?n - nbase) s2" for qs q
      by (simp_all add: s2_def page_ref_inc_def) (simp_all add: upd_desc_def upd_ref_def)
    have s3: "mem s3 = (mem s1)(t' := (mem s1 t')(PTX start := cow_entry e))" "npage s3 = npage s1"
      "ff_inv (pm s3) ps1" "free_set (pm s3) ps1 = free_set (pm s1) ps1"
      using ok1 s2 by (simp_all add: s3_def tables_ok_def)
    note leaf3 = set_leaf [OF ok1 D(1) 2(3) s3(1,3,4,2)]
    have ok3: "tables_ok s3 ps1 D" using leaf3(1) by (simp add: grows_def)
    have t3: "node s3 from [PDX0 start, PDX1 start] = Some t" using leaf3(1) D(2) t1 by (simp add: grows_def del: node.simps)
    have s4: "mem s4 = (mem s3)(t := (mem s3 t)(PTX start := cow_entry e))" "npage s4 = npage s3"
      "ff_inv (pm s4) ps1" "free_set (pm s4) ps1 = free_set (pm s3) ps1"
      using s3 by (simp_all add: s4_def)
    note leaf4 = set_leaf [OF ok3 D(2) t3 s4(1,3,4,2)]
    have "set_mem t (PTX start) e (set_mem t' (PTX start) e s) = set_mem t' (PTX start) e s" if "mem s t (PTX start) = e" for s
      using that tt by (simp add: set_mem_def fun_upd_idem_iff fun_eq_iff)
    then have same: "s4 = set_mem t' (PTX start) e s2" if "\<not> writable e"
      using that e1 s2(1) by (simp add: s4_def s3_def cow_entry_def)
    have "s4 = page_ref_inc (?n - nbase) (set_mem t' (PTX start) e s1)" if "\<not> writable e"
      using same [OF that] that by (simp add: s2_def page_ref_inc_def upd_ref_def set_mem_def)
    then have run: "cow_step to from False start s = Some (0, u64 (start + PGSIZE), s4)"
      by (intro step) (simp add: s4_def s3_def s2_def Let_def)
    show thesis
    proof (rule that [OF run, of ps1])
      show "grows D s ps s4 ps1" using grows_trans [OF grows_trans [OF 2(2) leaf3(1)] leaf4(1)] .
      show "nr_free_pages s \<le> nr_free_pages s4 + 2" using 2(6) s2(6) by (simp add: s4_def s3_def)
      show "lookup s4 from start = Some (cow_entry e)" using leaf4(2) [OF D(2), of start] entry(2) by simp
      show "lookup s4 to start = Some (cow_entry e)" using leaf4(2) [OF D(1), of start] leaf3(2) [OF D(1), of start] entry(2) D(3) by simp
      show "\<forall>d\<in>D. \<forall>la. vpn la \<noteq> vpn start \<or> d \<notin> {to, from} \<longrightarrow> lookup s4 d la = lookup s d la"
        using leaf4(2) leaf3(2) 2(4) by auto
      show "\<forall>q. q \<notin> free_set (pm s) ps \<longrightarrow> page_ref q s4 = page_ref q s + (if q + nbase = ?n then 1 else 0)"
        using refs s2(5) by (simp add: s4_def s3_def)
      show "\<forall>q. page_cow q s \<longrightarrow> page_cow q s4" "writable e \<longrightarrow> page_cow (?n - nbase) s4"
        using cow1 s2(7,8) by (simp_all add: s4_def s3_def)
    qed
  qed
qed

lemma hits_finite: "finite (hits s d a b q)"
proof (rule finite_subset)
  show "hits s d a b q \<subseteq> {..<b}" by (auto simp: hits_def)
qed simp

lemma hits_page:
  assumes "start mod PGSIZE = 0"
  shows "hits s d start (start + PGSIZE) q = (if frame s d start = Some (q + nbase) then {start div PGSIZE} else {})"
proof -
  obtain k where k: "start = PGSIZE * k" using assms by (auto simp: mod_eq_0_iff_dvd elim: dvdE)
  have "start \<le> i * PGSIZE \<and> i * PGSIZE < start + PGSIZE \<longleftrightarrow> i = k" for i using k by auto
  then have "hits s d start (start + PGSIZE) q = {i. i = k \<and> frame s d (i * PGSIZE) = Some (q + nbase)}" by (simp add: hits_def flip: conj_assoc)
  then show ?thesis using k by (auto simp: mult.commute)
qed

lemma hits_join:
  assumes "a \<le> b" "b \<le> c" and "\<And>la. b \<le> la \<Longrightarrow> la < c \<Longrightarrow> frame s1 d la = frame s d la"
  shows "card (hits s d a c q) = card (hits s d a b q) + card (hits s1 d b c q)"
proof -
  have "i \<in> hits s d a c q \<longleftrightarrow> i \<in> hits s d a b q \<or> i \<in> hits s1 d b c q" for i
    using assms(1,2) assms(3) [of "i * PGSIZE"] unfolding hits_def by (cases "i * PGSIZE < b") auto
  then have "hits s d a c q = hits s d a b q \<union> hits s1 d b c q" by blast
  moreover have "hits s d a b q \<inter> hits s1 d b c q = {}" by (auto simp: hits_def)
  ultimately show ?thesis using card_Un_disjoint [OF hits_finite hits_finite] by simp
qed

lemma cow_ok_empty:
  assumes "tables_ok s ps D" and "\<forall>la. a \<le> la \<and> la < b \<longrightarrow> lookup s from la = None \<and> lookup s to la = None"
  shows "cow_ok D to from a b s ps s ps"
proof -
  have "hits s from a b q = {}" for q using assms(2) by (auto simp: hits_def frame_def)
  then show ?thesis using assms grows_refl by (auto simp: cow_ok_def)
qed

lemma frame_cow:
  assumes "data_page D s ps n" "tables_ok s ps D" "frame s d la = Some n"
  shows "map_option (\<lambda>e. PPN (PTE_ADDR e)) (map_option cow_entry (lookup s d la)) = Some n"
proof -
  obtain e where e: "lookup s d la = Some e" "PPN (PTE_ADDR e) = n" using assms(3) by (auto simp: frame_def)
  have "n < 2 ^ 44" using assms(1,2) by (auto simp: data_page_def used_def tables_ok_def)
  moreover have "valid e" using e(1) by (auto simp: lookup_some simp del: node.simps)
  ultimately show ?thesis using cow_entry_ok(1) [of e] e by simp
qed

lemma cow_step_ok:
  assumes ok: "tables_ok s ps D" and D: "to \<in> D" "from \<in> D" "to \<noteq> from" and free: "2 \<le> nr_free_pages s"
    and src: "\<forall>la n. start \<le> la \<and> la < end \<and> frame s from la = Some n \<longrightarrow> data_page D s ps n"
    and al: "start mod PGSIZE = 0" "end mod PGSIZE = 0" "start < end" "end \<le> USERTOP"
    and to: "\<forall>la. start \<le> la \<and> la < end \<longrightarrow> lookup s to la = None"
  obtains nxt s' ps' where "cow_step to from False start s = Some (0, nxt, s')" "start + PGSIZE \<le> nxt" "nxt mod PGSIZE = 0"
    "nr_free_pages s \<le> nr_free_pages s' + 2" "cow_ok D to from start (min nxt end) s ps s' ps'"
proof -
  have lt: "start < 2 ^ 39" "u64 (start + PGSIZE) = start + PGSIZE" using al by (simp_all add: u64_def)
  have le: "start + PGSIZE \<le> end" using al page_step by simp
  have "start < 2 ^ 38" using al(3,4) by simp
  note find = get_pte_find [OF ok D(2) user_la [OF this]]
  show thesis
  proof (cases "node s from [PDX0 start, PDX1 start]")
    case None
    let ?nxt = "(start div PTSIZE + 1) * PTSIZE"
    have "cow_step to from False start s = Some (0, ?nxt, s)" using find None next_table [OF lt(1)] by (simp add: cow_step_def del: node.simps)
    moreover have m: "?nxt mod PGSIZE = 0" using mod_mult_right_eq [of "start div PTSIZE + 1" PTSIZE PGSIZE] by simp
    moreover have "start + PGSIZE \<le> ?nxt" using page_step [OF al(1) m] dividend_less_div_times [of PTSIZE start] by simp
    moreover have "lookup s from la = None" if "start \<le> la" "la < ?nxt" for la
      using same_table [OF that] None by (simp add: lookup_def del: node.simps)
    then have "cow_ok D to from start (min ?nxt end) s ps s ps" using to by (intro cow_ok_empty [OF ok]) auto
    ultimately show thesis using that [of ?nxt s ps] by simp
  next
    case (Some t)
    have in_page: "vpn la = vpn start" if "start \<le> la" "la < start + PGSIZE" for la
      using same_page [OF al(1) _ lt(1), of la] that al by simp
    show thesis
    proof (cases "lookup s from start")
      case None
      then have "\<not> valid (mem s t (PTX start))" using Some by (auto simp: lookup_def simp del: node.simps split: if_splits)
      then have "cow_step to from False start s = Some (0, start + PGSIZE, s)" using find Some lt by (simp add: cow_step_def del: node.simps)
      moreover have "lookup s from la = None" if "start \<le> la" "la < start + PGSIZE" for la
        using lookup_vpn [OF in_page [OF that]] None by simp
      then have "cow_ok D to from start (min (start + PGSIZE) end) s ps s ps" using to by (intro cow_ok_empty [OF ok]) auto
      ultimately show thesis using that [of "start + PGSIZE" s ps] al(1) by simp
    next
      case (Some e)
      then have fr: "frame s from start = Some (PPN (PTE_ADDR e))" by (simp add: frame_def)
      then have src: "data_page D s ps (PPN (PTE_ADDR e))" using src al by auto
      from ok D free Some src show thesis
      proof (cases rule: cow_step_page)
        case (1 s' ps')
        note r = 1(1) [unfolded lt(2)] 1(2,3)
        have here: "lookup s d la = lookup s d start" "lookup s' d la = lookup s' d start" if "start \<le> la" "la < start + PGSIZE" for d la
          using lookup_vpn [OF in_page [OF that]] by simp_all
        have there: "vpn la \<noteq> vpn start" if "la < 2 ^ 39" "\<not> (start \<le> la \<and> la < start + PGSIZE)" for la
          using same_page [OF al(1) that(1) lt(1)] that(2) by blast
        have "cow_ok D to from start (start + PGSIZE) s ps s' ps'"
          unfolding cow_ok_def
        proof (intro conjI allI impI ballI)
          show "grows D s ps s' ps'" using r(2) .
          show "lookup s' from la = map_option cow_entry (lookup s from la)" "lookup s' to la = map_option cow_entry (lookup s from la)"
            if "start \<le> la \<and> la < start + PGSIZE" for la
            using that here [of la] Some 1(4,5) by simp_all
          show "lookup s' from la = lookup s from la" "lookup s' to la = lookup s to la"
            if "la < 2 ^ 39" "\<not> (start \<le> la \<and> la < start + PGSIZE)" for la
            using there [OF that] 1(6) D by simp_all
          show "lookup s' d la = lookup s d la" if "d \<in> D - {to, from}" for d la using that 1(6) by auto
          show "page_ref q s' = page_ref q s + int (card (hits s from start (start + PGSIZE) q))" if "q \<notin> free_set (pm s) ps" for q
            using 1(7) that fr by (auto simp: hits_page [OF al(1)])
          show "page_cow q s'" if "page_cow q s" for q using 1(8) that by simp
          show "page_cow (PPN (PTE_ADDR f) - nbase) s'"
            if "start \<le> la \<and> la < start + PGSIZE \<and> lookup s from la = Some f \<and> writable f" for la f
            using that here(1) [of la] Some 1(9) by simp
        qed
        then show thesis using that [OF r(1), of ps'] le r(3) al(1) by (simp add: min_def)
      qed
    qed
  qed
qed

lemma cow_ok_frame:
  assumes "cow_ok D to from a b s ps s1 ps1" "b \<le> la" "la < 2 ^ 39"
  shows "lookup s1 from la = lookup s from la" "lookup s1 to la = lookup s to la" "frame s1 from la = frame s from la"
  using assms by (auto simp: cow_ok_def frame_def)

lemma cow_ok_trans:
  assumes one: "cow_ok D to from a b s ps s1 ps1" and two: "cow_ok D to from b c s1 ps1 s2 ps2"
    and abc: "a \<le> b" "b \<le> c" "c \<le> USERTOP"
  shows "cow_ok D to from a c s ps s2 ps2"
proof -
  have g: "grows D s ps s1 ps1" "grows D s1 ps1 s2 ps2" using one two by (simp_all add: cow_ok_def)
  have up: "lookup s1 from la = lookup s from la" "frame s1 from la = frame s from la" if "b \<le> la" "la < c" for la
    using cow_ok_frame [OF one, of la] that abc by simp_all
  have down: "lookup s2 from la = lookup s1 from la" "lookup s2 to la = lookup s1 to la" if "la < b" for la
    using two that abc by (auto simp: cow_ok_def)
  show ?thesis
    unfolding cow_ok_def
  proof (intro conjI allI impI ballI)
    show "grows D s ps s2 ps2" by (rule grows_trans [OF g])
    fix la
    show "lookup s2 from la = map_option cow_entry (lookup s from la)" "lookup s2 to la = map_option cow_entry (lookup s from la)"
      if "a \<le> la \<and> la < c"
      using that one two up [of la] down [of la] unfolding cow_ok_def by (cases "la < b"; simp)+
    show "lookup s2 from la = lookup s from la" "lookup s2 to la = lookup s to la" if "la < 2 ^ 39" "\<not> (a \<le> la \<and> la < c)"
      using that one two abc unfolding cow_ok_def by auto
    show "lookup s2 d la = lookup s d la" if "d \<in> D - {to, from}" for d using that one two by (simp add: cow_ok_def)
    show "page_cow (PPN (PTE_ADDR e) - nbase) s2" if "a \<le> la \<and> la < c \<and> lookup s from la = Some e \<and> writable e" for e
    proof (cases "la < b")
      case True
      then show ?thesis using that one two unfolding cow_ok_def by blast
    next
      case False
      then have "b \<le> la \<and> la < c \<and> lookup s1 from la = Some e \<and> writable e" using that up(1) [of la] by simp
      then show ?thesis using two unfolding cow_ok_def by blast
    qed
  next
    fix q
    show "page_cow q s2" if "page_cow q s" using that one two by (simp add: cow_ok_def)
    assume q: "q \<notin> free_set (pm s) ps"
    then have "q \<notin> free_set (pm s1) ps1" using g(1) by (auto simp: grows_def)
    then show "page_ref q s2 = page_ref q s + int (card (hits s from a c q))"
      using q one two hits_join [OF abc(1,2), of s1 "from" s q] up(2) by (simp add: cow_ok_def)
  qed
qed

lemma cow_loop_ok:
  assumes "tables_ok s ps D" "to \<in> D" "from \<in> D" "to \<noteq> from" "2 * ((end - start) div PGSIZE) \<le> nr_free_pages s"
    "\<forall>la n. start \<le> la \<and> la < end \<and> frame s from la = Some n \<longrightarrow> data_page D s ps n"
    "start mod PGSIZE = 0" "end mod PGSIZE = 0" "start < end" "end \<le> USERTOP"
    "\<forall>la. start \<le> la \<and> la < end \<longrightarrow> lookup s to la = None"
  shows "\<exists>s' ps'. cow_loop to from False start end s = Some (0, s') \<and> cow_ok D to from start end s ps s' ps'"
  using assms
proof (induction "end - start" arbitrary: start s ps rule: less_induct)
  case less
  note ok = less.prems(1) and src = less.prems(6) and al = less.prems(7-10)
  have "start + PGSIZE \<le> end" using page_step [OF al(1-3)] .
  then have "1 \<le> (end - start) div PGSIZE" using div_le_mono [of PGSIZE "end - start" PGSIZE] by simp
  then have "2 \<le> nr_free_pages s" using less.prems(5) by simp
  from ok less.prems(2-4) this src al less.prems(11) obtain nxt s1 ps1 where
    step: "cow_step to from False start s = Some (0, nxt, s1)" "start + PGSIZE \<le> nxt" "nxt mod PGSIZE = 0" "nr_free_pages s \<le> nr_free_pages s1 + 2"
    and one: "cow_ok D to from start (min nxt end) s ps s1 ps1"
    by (rule cow_step_ok)
  show ?case
  proof (cases "nxt < end")
    case False
    then have "min nxt end = end" by simp
    then show ?thesis using step one False by (subst cow_loop.simps) auto
  next
    case True
    then have one: "cow_ok D to from start nxt s ps s1 ps1" using one by (simp add: min_def)
    have g: "grows D s ps s1 ps1" using one by (simp add: cow_ok_def)
    have same: "lookup s1 to la = lookup s to la" "frame s1 from la = frame s from la" if "nxt \<le> la" "la < end" for la
      using cow_ok_frame [OF one, of la] that al(4) by simp_all
    have "\<exists>s' ps'. cow_loop to from False nxt end s1 = Some (0, s') \<and> cow_ok D to from nxt end s1 ps1 s' ps'"
    proof (rule less.hyps)
      show "end - nxt < end - start" using True step(2) by simp
      show "tables_ok s1 ps1 D" using g by (simp add: grows_def)
      have "(end - nxt) div PGSIZE + 1 \<le> (end - start) div PGSIZE"
        using div_le_mono [of "end - nxt + PGSIZE" "end - start" PGSIZE] True step(2) by simp
      then show "2 * ((end - nxt) div PGSIZE) \<le> nr_free_pages s1" using step(4) less.prems(5) by simp
      show "\<forall>la n. nxt \<le> la \<and> la < end \<and> frame s1 from la = Some n \<longrightarrow> data_page D s1 ps1 n"
        using src same(2) grows_data [OF g] step(2) by (metis add_leD1 order_trans)
      show "\<forall>la. nxt \<le> la \<and> la < end \<longrightarrow> lookup s1 to la = None" using same(1) less.prems(11) step(2) by auto
    qed (use less.prems step True in auto)
    then obtain s2 ps2 where two: "cow_loop to from False nxt end s1 = Some (0, s2)" "cow_ok D to from nxt end s1 ps1 s2 ps2" by blast
    have "cow_ok D to from start end s ps s2 ps2" using cow_ok_trans [OF one two(2) _ _ al(4)] True step(2) by simp
    then show ?thesis using step(1,2) two(1) True by (subst cow_loop.simps) auto
  qed
qed

section \<open>A write fault\<close>

definition own_perm :: "64 word \<Rightarrow> 32 word" where
  "own_perm e = ucast (e AND (PTE_U OR PTE_R OR PTE_X)) OR PTE_W OR PTE_V"

lemma own_perm_bits: "bit (own_perm e) i \<longleftrightarrow> i = 0 \<or> i = 2 \<or> i \<in> {1, 3, 4} \<and> bit e i"
proof -
  have "(PTE_U OR PTE_R OR PTE_X :: 64 word) = 26" "(PTE_V :: 32 word) = 1" by simp_all
  then show ?thesis unfolding own_perm_def
    by (simp only: bit_and_iff bit_or_iff bit_unsigned_iff bit_flags bit_1_iff) (auto simp: bit_1_iff)
qed

text \<open>The page of its own that a process gets for \<open>e\<close>, on page \<open>p\<close>.\<close>

definition own_entry :: "nat \<Rightarrow> 64 word \<Rightarrow> 64 word" where
  "own_entry p e = pte_create (p + nbase) (own_perm e)"

lemma own_entry_ok:
  assumes "p + nbase < 2 ^ 44"
  shows "PPN (PTE_ADDR (own_entry p e)) = p + nbase" "valid (own_entry p e)" "writable (own_entry p e)"
    "i \<in> {1, 3, 4} \<Longrightarrow> bit (own_entry p e) i = bit e i"
proof -
  have "unat (own_perm e) < 1024" by (rule perm_small) (auto simp: own_perm_bits)
  from PPN_pte_create [OF assms this] show "PPN (PTE_ADDR (own_entry p e)) = p + nbase" by (simp add: own_entry_def)
  show "valid (own_entry p e)" "writable (own_entry p e)" "i \<in> {1, 3, 4} \<Longrightarrow> bit (own_entry p e) i = bit e i"
    by (auto simp: own_entry_def pte_bit own_perm_bits)
qed

lemma lookup_node:
  assumes "lookup s d la = Some e"
  obtains t where "node s d [PDX0 la, PDX1 la] = Some t" "mem s t (PTX la) = e" "valid e"
  using assms by (auto simp: lookup_some simp del: node.simps)

lemma fault_copies:
  assumes ok: "tables_ok s ps D" and d: "d \<in> D" and e: "lookup s d la = Some e" "\<not> writable e" and t: "node s d [PDX0 la, PDX1 la] = Some t"
    and n: "n = PPN (PTE_ADDR e)" "data_page D s ps n" "page_cow (n - nbase) s" "1 < page_ref (n - nbase) s"
    and fl: "fl AND VM_WRITE \<noteq> 0" and free: "0 < nr_free_pages s"
  obtains p s' ps' where "fault_present fl True t (PTX la) s = Some (0, s')" "p \<in> free_set (pm s) ps" "grows D s ps s' ps'"
    "lookup s' d la = Some (own_entry p e)" "mem s' (p + nbase) = mem s n"
    "\<forall>d'\<in>D. \<forall>la'. (d', vpn la') \<noteq> (d, vpn la) \<longrightarrow> lookup s' d' la' = lookup s d' la'"
    "\<forall>q. page_ref q s' = page_ref q s - (if q + nbase = n then 1 else 0)"
  using ok
proof (cases rule: alloc_page_ok)
  case none
  then show thesis using free by simp
next
  case (some p s1 ps1)
  let ?s2 = "s1\<lparr>mem := (mem s1)(p + nbase := mem s1 n)\<rparr>"
  have us: "used s ps n" "nbase \<le> n" using n(2) by (auto simp: data_page_def used_def)
  have m: "mem s t (PTX la) = e" "valid e" using e(1) t by (auto elim!: lookup_node simp del: node.simps)
  have p: "p + nbase < npage s" "p + nbase < 2 ^ 44" using some(2) ok by (auto simp: tables_ok_def)
  have g: "grows D s ps ?s2 ps1" "\<And>d la. d \<in> D \<Longrightarrow> lookup ?s2 d la = lookup s d la" "data_page D ?s2 ps1 (p + nbase)"
    using grows_alloc [OF ok, of ?s2 ps1 p] some(2-6) by simp_all
  have ok2: "tables_ok ?s2 ps1 D" using g(1) by (simp add: grows_def)
  have t2: "node ?s2 d [PDX0 la, PDX1 la] = Some t" using g(1) d t by (simp add: grows_def del: node.simps)
  have tp: "t \<noteq> p + nbase" using node_used [OF ok d _ t] some(2) by (auto simp: used_def)
  have kva: "page2kva q s1 = Some (q + nbase)" if "q + nbase < npage s" for q
    using page2kva_used [OF ok that] some(6) by (simp add: page2kva_def KADDR_def)
  have nb: "n - nbase + nbase = n" "n < npage s" using us by (auto simp: used_def)
  let ?s' = "set_mem t (PTX la) (own_entry p e) (upd_desc p ClearPageCow (page_ref_dec (n - nbase) ?s2))"
  have run: "fault_present fl True t (PTX la) s = Some (0, ?s')"
    using m e(2) n fl some(1,5) pte2page_used [OF m(2), of s ps s] us(1) kva [of "n - nbase"] kva [OF p(1)] nb tp
    by (simp add: fault_present_def and_bit Let_def own_entry_def own_perm_def page2ppn_def page_ref_dec_def)
  have m': "mem ?s' = (mem ?s2)(t := (mem ?s2 t)(PTX la := own_entry p e))" "npage ?s' = npage ?s2"
    by (simp_all add: page_ref_dec_def)
  have ff: "ff_inv (pm ?s') ps1" "free_set (pm ?s') ps1 = free_set (pm ?s2) ps1"
    using some(3) by (simp_all add: page_ref_dec_def)
  have refs: "page_ref q ?s2 = page_ref q s" for q using some(7) by (simp add: page_ref_def)
  note leaf = set_leaf [OF ok2 d t2 m'(1) ff m'(2)]
  show thesis
  proof (rule that [OF run some(2)])
    show "grows D s ps ?s' ps1" using grows_trans [OF g(1) leaf(1)] .
    show "lookup ?s' d la = Some (own_entry p e)" using leaf(2) [OF d, of la] own_entry_ok(2) [OF p(2)] by simp
    show "mem ?s' (p + nbase) = mem s n" using tp some(5) by (simp add: page_ref_dec_def)
    show "\<forall>d'\<in>D. \<forall>la'. (d', vpn la') \<noteq> (d, vpn la) \<longrightarrow> lookup ?s' d' la' = lookup s d' la'" using leaf(2) g(2) by auto
    show "\<forall>q. page_ref q ?s' = page_ref q s - (if q + nbase = n then 1 else 0)"
      using refs nb(1) by (auto simp: page_ref_dec_def)
  qed
qed

text \<open>The last user keeps the page.\<close>

lemma writable_entry:
  assumes "valid e"
  shows "PPN (PTE_ADDR (e OR PTE_W)) = PPN (PTE_ADDR e)" "valid (e OR PTE_W)" "bit (e OR PTE_W) i \<longleftrightarrow> bit e i \<or> i = 2"
proof -
  have b: "bit (4 :: 64 word) i \<longleftrightarrow> i = 2" for i
    using bit_exp_iff [of 2 i, where ?'a = "64 word"] by auto
  have "(e OR 4) AND NOT (mask 10) = e AND NOT (mask 10)" by (intro bit_word_eqI) (simp only: bit_and_iff bit_or_iff bit_not_iff bit_mask_iff b, auto)
  then show "PPN (PTE_ADDR (e OR PTE_W)) = PPN (PTE_ADDR e)" by (simp add: PTE_ADDR_def mask_eq_exp_minus_1)
  show "bit (e OR PTE_W) i \<longleftrightarrow> bit e i \<or> i = 2" by (simp only: bit_or_iff b)
  have "valid w \<longleftrightarrow> bit w 0" for w by (simp add: valid_def and_one_eq bit_0 odd_iff_mod_2_eq_one)
  then show "valid (e OR PTE_W)" using assms by (simp only: bit_or_iff) simp
qed

lemma fault_keeps:
  assumes ok: "tables_ok s ps D" and d: "d \<in> D" and e: "lookup s d la = Some e" "\<not> writable e" and t: "node s d [PDX0 la, PDX1 la] = Some t"
    and n: "n = PPN (PTE_ADDR e)" "used s ps n" "page_cow (n - nbase) s" "\<not> 1 < page_ref (n - nbase) s" and fl: "fl AND VM_WRITE \<noteq> 0"
  obtains s' where "fault_present fl True t (PTX la) s = Some (0, s')" "grows D s ps s' ps" "lookup s' d la = Some (e OR PTE_W)"
    "\<forall>d'\<in>D. \<forall>la'. (d', vpn la') \<noteq> (d, vpn la) \<longrightarrow> lookup s' d' la' = lookup s d' la'"
proof -
  have m: "mem s t (PTX la) = e" "valid e" using e(1) t by (auto elim!: lookup_node simp del: node.simps)
  let ?s' = "set_mem t (PTX la) (e OR PTE_W) (upd_desc (n - nbase) ClearPageCow s)"
  have run: "fault_present fl True t (PTX la) s = Some (0, ?s')"
    using m e(2) n fl pte2page_used [OF m(2), of s ps s] by (simp add: fault_present_def and_bit)
  have "mem ?s' = (mem s)(t := (mem s t)(PTX la := e OR PTE_W))" "ff_inv (pm ?s') ps" "free_set (pm ?s') ps = free_set (pm s) ps" "npage ?s' = npage s"
    using ok by (simp_all add: tables_ok_def)
  note leaf = set_leaf [OF ok d t this]
  show thesis by (rule that [OF run leaf(1)]) (use leaf(2) [OF d, of la] leaf(2) writable_entry(2) [OF m(2)] in auto)
qed

text \<open>A page that is not there.\<close>

definition area_perm :: "32 word \<Rightarrow> 32 word" where
  "area_perm fl = PTE_U OR PTE_V OR (if fl AND VM_WRITE \<noteq> 0 then PTE_W else 0) OR (if fl AND VM_READ \<noteq> 0 then PTE_R else 0) OR
     (if fl AND VM_EXEC \<noteq> 0 then PTE_X else 0)"

lemma area_perm_small: "unat (area_perm fl) < 1024"
  by (simp add: area_perm_def)

lemma area_perm_bits: "bit (area_perm fl) 4" "fl AND VM_WRITE \<noteq> 0 \<Longrightarrow> bit (area_perm fl) 2" "fl AND VM_READ \<noteq> 0 \<Longrightarrow> bit (area_perm fl) 1"
proof -
  have c: "(PTE_U :: 32 word) = push_bit 4 1" "(PTE_W :: 32 word) = push_bit 2 1" "(PTE_R :: 32 word) = push_bit 1 1" by simp_all
  show "bit (area_perm fl) 4" "fl AND VM_WRITE \<noteq> 0 \<Longrightarrow> bit (area_perm fl) 2" "fl AND VM_READ \<noteq> 0 \<Longrightarrow> bit (area_perm fl) 1"
    unfolding area_perm_def c by (simp_all only: bit_or_iff bit_push_bit_iff if_True simp_thms) simp_all
qed

lemma fault_maps:
  assumes ok: "tables_ok s ps D" and d: "d \<in> D" and t: "node s d [PDX0 la, PDX1 la] = Some t" and absent: "lookup s d la = None"
    and fl: "fl AND VM_WRITE \<noteq> 0" and free: "0 < nr_free_pages s"
  obtains p s' ps' where "fault_absent fl True t (PTX la) s = Some (0, s')" "p \<in> free_set (pm s) ps" "grows D s ps s' ps'"
    "lookup s' d la = Some (pte_create (p + nbase) (area_perm fl))" "data_page D s' ps' (p + nbase)"
    "\<forall>d'\<in>D. \<forall>la'. (d', vpn la') \<noteq> (d, vpn la) \<longrightarrow> lookup s' d' la' = lookup s d' la'" "\<forall>q. page_ref q s' = page_ref q s"
    "nr_free_pages s = Suc (nr_free_pages s')"
  using ok
proof (cases rule: alloc_page_ok)
  case none
  then show thesis using free by simp
next
  case (some p s1 ps1)
  let ?s2 = "s1\<lparr>mem := (mem s1)(p + nbase := (\<lambda>_. 0))\<rparr>" and ?w = "pte_create (p + nbase) (area_perm fl)"
  have p: "p + nbase < npage s" using some(2) ok by (auto simp: tables_ok_def)
  have g: "grows D s ps ?s2 ps1" "\<And>d la. d \<in> D \<Longrightarrow> lookup ?s2 d la = lookup s d la" "data_page D ?s2 ps1 (p + nbase)"
    using grows_alloc [OF ok, of ?s2 ps1 p] some(2-6) by simp_all
  have ok2: "tables_ok ?s2 ps1 D" using g(1) by (simp add: grows_def)
  have t2: "node ?s2 d [PDX0 la, PDX1 la] = Some t" using g(1) d t by (simp add: grows_def del: node.simps)
  have tp: "t \<noteq> p + nbase" using node_used [OF ok d _ t] some(2) by (auto simp: used_def)
  have kva: "page2kva p (set_mem t i w s1) = Some (p + nbase)" for i w
    using page2kva_used [OF ok p] some(6) by (simp add: page2kva_def KADDR_def)
  let ?s' = "set_mem t (PTX la) ?w ?s2"
  have "fault_absent fl True t (PTX la) s = Some (0, ?s')"
    unfolding fault_absent_def area_perm_def [symmetric] using fl some(1) kva tp
    by (simp add: page2ppn_def Let_def) (simp add: set_mem_def fun_upd_twist)
  moreover have "mem ?s' = (mem ?s2)(t := (mem ?s2 t)(PTX la := ?w))" "ff_inv (pm ?s') ps1" "free_set (pm ?s') ps1 = free_set (pm ?s2) ps1"
    "npage ?s' = npage ?s2" using some(3) by simp_all
  note leaf = set_leaf [OF ok2 d t2 this]
  moreover have "grows D s ps ?s' ps1" using grows_trans [OF g(1) leaf(1)] .
  moreover have "data_page D ?s' ps1 (p + nbase)" using grows_data [OF leaf(1) g(3)] .
  moreover have "page_ref q ?s' = page_ref q s" for q using some(7) by (simp add: page_ref_def)
  moreover have "nr_free_pages s = Suc (nr_free_pages ?s')" using some(8) by (simp add: nr_free_pages_def)
  ultimately show thesis using that [of ?s' p ps1] some(2) leaf(2) [OF d, of la] leaf(2) g(2) by auto
qed

text \<open>The fault as the trap handler sees it, in an area that may be written.\<close>

lemma page_fault_at:
  assumes ok: "tables_ok s ps D" "d \<in> D" and t: "node s d [PDX0 va, PDX1 va] = Some t"
    and area: "find_vma mm va = (Some vma, mm')" "USERBASE \<le> va" "va < USERTOP"
    and run: "(if valid (mem s t (PTX va)) then fault_present (vm_flags vma) True t (PTX va) s
       else fault_absent (vm_flags vma) True t (PTX va) s) = Some (0, s')"
  shows "page_fault StorePageFault mm d va s = Some (mm', s')"
proof -
  have "USER_ACCESS va (u64 (va + 1))" using area by (simp add: USER_ACCESS_def u64_def)
  moreover have "\<not> (va < vm_start vma \<or> vm_end vma \<le> va)" using find_vma_hit [OF area(1)] by simp
  ultimately show ?thesis using get_pte_exists [OF ok t, of True] area(1) run
    by (simp add: page_fault_def do_pgfault_def Let_def del: node.simps)
qed

section \<open>What the processes see\<close>

lemma access_bits: "e AND (PTE_U OR PTE_R) = PTE_U OR PTE_R \<longleftrightarrow> bit e 1 \<and> bit e 4" "e AND (PTE_U OR PTE_W) = PTE_U OR PTE_W \<longleftrightarrow> bit e 2 \<and> bit e 4"
  for e :: "64 word"
proof -
  have "bit (PTE_U OR PTE_R :: 64 word) i \<longleftrightarrow> i = 1 \<or> i = 4" "bit (PTE_U OR PTE_W :: 64 word) i \<longleftrightarrow> i = 2 \<or> i = 4" for i
    using bit_exp_iff [of 1 i, where ?'a = "64 word"] bit_exp_iff [of 2 i, where ?'a = "64 word"] bit_exp_iff [of 4 i, where ?'a = "64 word"]
    by (simp_all only: bit_or_iff) auto
  moreover have "e AND m = m \<longleftrightarrow> (\<forall>i. bit m i \<longrightarrow> bit e i)" for m
  proof
    assume "e AND m = m"
    then have "bit (e AND m) i = bit m i" for i by simp
    then show "\<forall>i. bit m i \<longrightarrow> bit e i" unfolding bit_and_iff by blast
  qed (auto intro!: bit_word_eqI simp: bit_and_iff)
  ultimately show "e AND (PTE_U OR PTE_R) = PTE_U OR PTE_R \<longleftrightarrow> bit e 1 \<and> bit e 4" "e AND (PTE_U OR PTE_W) = PTE_U OR PTE_W \<longleftrightarrow> bit e 2 \<and> bit e 4"
    by (simp_all only:) auto
qed

lemma user_load_eq:
  "user_load s d va = (case lookup s d va of None \<Rightarrow> None
     | Some e \<Rightarrow> if bit e 1 \<and> bit e 4 then Some (mem s (PPN (PTE_ADDR e)) (PGOFF va div 8)) else None)"
  by (simp only: user_load_def user_frame_def access_bits) (simp split: option.splits)

lemma user_store_eq:
  "user_store d va w s = (case lookup s d va of None \<Rightarrow> None
     | Some e \<Rightarrow> if bit e 2 \<and> bit e 4 then Some (set_mem (PPN (PTE_ADDR e)) (PGOFF va div 8) w s) else None)"
  by (simp only: user_store_def user_frame_def access_bits) (simp split: option.splits)

lemma lookup_data_write:
  assumes "data_page D s ps n" "d \<in> D"
  shows "lookup (set_mem n i w s) d la = lookup s d la"
proof -
  have "node (set_mem n i w s) d p = node s d p" if "length p \<le> 2" for p
    using that
  proof (induction p)
    case (Cons j p)
    have "node s d p \<noteq> Some n" using assms Cons.prems by (simp add: data_page_def)
    then show ?case using Cons by (auto split: option.splits)
  qed simp
  then have "node (set_mem n i w s) d [PDX0 la, PDX1 la] = node s d [PDX0 la, PDX1 la]" by (simp del: node.simps)
  moreover have "node s d [PDX0 la, PDX1 la] \<noteq> Some n" using assms by (simp add: data_page_def del: node.simps)
  ultimately show ?thesis by (auto simp: lookup_def simp del: node.simps split: option.splits)
qed

section \<open>Properties\<close>

text \<open>
  C38: Fork with copy on write.  \<^verbatim>\<open>copy_range\<close> of \<^verbatim>\<open>lab5\<close> returns 0 when there are two free pages for every page of the range and the child's
  range is still empty.  Then child and parent read at every address of the range what the parent read before, neither can write there without a
  fault, every page has one reference more for each of its mappings that was shared, the pages that could be written are marked, and nothing
  changes at any other address of any process or in the entries of the kernel that the directories share.
\<close>

theorem cow_range_shares:
  assumes "tables_ok s ps D" "to \<in> D" "from \<in> D" "to \<noteq> from" and "2 * ((end - start) div PGSIZE) \<le> nr_free_pages s"
    and src: "\<forall>la n. start \<le> la \<and> la < end \<and> frame s from la = Some n \<longrightarrow> data_page D s ps n"
    and al: "start mod PGSIZE = 0" "end mod PGSIZE = 0" "USER_ACCESS start end"
    and "\<forall>la. start \<le> la \<and> la < end \<longrightarrow> lookup s to la = None"
  shows "\<exists>s' ps'. cow_range to from start end False s = Some (0, s') \<and> grows D s ps s' ps' \<and>
     (\<forall>va d w. start \<le> va \<and> va < end \<and> d \<in> {to, from} \<longrightarrow> user_load s' d va = user_load s from va \<and> user_store d va w s' = None) \<and>
     (\<forall>d\<in>D. \<forall>va<2 ^ 39. \<not> (d \<in> {to, from} \<and> start \<le> va \<and> va < end) \<longrightarrow> lookup s' d va = lookup s d va) \<and>
     (\<forall>q. q \<notin> free_set (pm s) ps \<longrightarrow> page_ref q s' = page_ref q s + int (card (hits s from start end q))) \<and>
     (\<forall>va e. start \<le> va \<and> va < end \<and> lookup s from va = Some e \<and> writable e \<longrightarrow> page_cow (PPN (PTE_ADDR e) - nbase) s')"
proof -
  have "start < end" "end \<le> USERTOP" using al(3) by (simp_all add: USER_ACCESS_def)
  from cow_loop_ok [OF assms(1-8) this assms(10)] obtain s' ps' where
    run: "cow_loop to from False start end s = Some (0, s')" and r: "cow_ok D to from start end s ps s' ps'" by blast
  have "user_load s' d va = user_load s from va \<and> user_store d va w s' = None"
    if va: "start \<le> va \<and> va < end \<and> d \<in> {to, from}" for va d w
  proof (cases "lookup s from va")
    case None
    then have "lookup s' d va = None" using va r by (auto simp: cow_ok_def)
    then show ?thesis using None by (simp add: user_load_eq user_store_eq)
  next
    case (Some e)
    have n: "data_page D s ps (PPN (PTE_ADDR e))" using src va Some by (auto simp: frame_def)
    then have lt: "PPN (PTE_ADDR e) < 2 ^ 44" using assms(1) by (auto simp: data_page_def used_def tables_ok_def)
    have v: "valid e" using Some by (rule lookup_node)
    have "lookup s' d va = Some (cow_entry e)" using va r Some by (auto simp: cow_ok_def)
    moreover have "mem s' (PPN (PTE_ADDR e)) = mem s (PPN (PTE_ADDR e))" using r n by (simp add: cow_ok_def grows_def)
    ultimately show ?thesis using Some cow_entry_ok [OF lt v] by (simp add: user_load_eq user_store_eq)
  qed
  then show ?thesis using run r al unfolding cow_ok_def by (intro exI [of _ s'] exI [of _ ps']) (auto simp: cow_range_def)
qed

text \<open>
  C39: A write to a shared page gives the writer a page of its own: when the page has other users, the handler of the store page fault returns with
  the address mapped, writable and otherwise with the same permissions, to a page that was free, with the contents the shared page had; the
  shared page loses one reference, and no other address of any process, no entry of the kernel and no page in use has changed.  The reference count of the new page is
  not set: it is whatever the free page had.
\<close>

theorem cow_fault_copies:
  assumes ok: "tables_ok s ps D" and d: "d \<in> D" and e: "lookup s d va = Some e" "\<not> writable e"
    and n: "n = PPN (PTE_ADDR e)" "data_page D s ps n" "page_cow (n - nbase) s" "1 < page_ref (n - nbase) s"
    and area: "find_vma mm va = (Some vma, mm')" "vm_flags vma AND VM_WRITE \<noteq> 0" "USERBASE \<le> va" "va < USERTOP"
    and free: "0 < nr_free_pages s"
  shows "\<exists>p s' ps'. page_fault StorePageFault mm d va s = Some (mm', s') \<and> p \<in> free_set (pm s) ps \<and> grows D s ps s' ps' \<and>
     frame s' d va = Some (p + nbase) \<and> mem s' (p + nbase) = mem s n \<and>
     (\<forall>e'. lookup s' d va = Some e' \<longrightarrow> writable e' \<and> (\<forall>i\<in>{1, 3, 4}. bit e' i = bit e i)) \<and>
     (\<forall>d'\<in>D. \<forall>la. (d', vpn la) \<noteq> (d, vpn va) \<longrightarrow> lookup s' d' la = lookup s d' la) \<and>
     (\<forall>q. page_ref q s' = page_ref q s - (if q + nbase = n then 1 else 0))"
proof -
  from e(1) obtain t where t: "node s d [PDX0 va, PDX1 va] = Some t" "mem s t (PTX va) = e" "valid e" by (rule lookup_node)
  from ok d e t(1) n area(2) free obtain p s' ps' where f: "fault_present (vm_flags vma) True t (PTX va) s = Some (0, s')"
    "p \<in> free_set (pm s) ps" "grows D s ps s' ps'" "lookup s' d va = Some (own_entry p e)" "mem s' (p + nbase) = mem s n"
    "\<forall>d'\<in>D. \<forall>la'. (d', vpn la') \<noteq> (d, vpn va) \<longrightarrow> lookup s' d' la' = lookup s d' la'"
    "\<forall>q. page_ref q s' = page_ref q s - (if q + nbase = n then 1 else 0)"
    by (rule fault_copies)
  have "p + nbase < 2 ^ 44" using f(2) ok by (auto simp: tables_ok_def)
  note own = own_entry_ok [OF this]
  have "page_fault StorePageFault mm d va s = Some (mm', s')"
    using page_fault_at [OF ok d t(1) area(1,3,4)] f(1) t(2,3) by simp
  then show ?thesis using f own by (intro exI [of _ p] exI [of _ s'] exI [of _ ps']) (auto simp: frame_def)
qed

text \<open>
  C40: A page that a fault has mapped is not protected at the next fork.  A process that touches a page that is not there gets one whose
  reference count stays 0 (free pages have the count 0); after a fork the count is 1 although two processes map the page, so the first of them
  that writes is taken for its only user and gets it writable: the child's write to that address is then read by the parent.
\<close>

theorem cow_fork_after_fault_leaks:
  assumes ok: "tables_ok s ps D" and D: "to \<in> D" "from \<in> D" "to \<noteq> from"
    and src: "\<forall>la n. start \<le> la \<and> la < end \<and> frame s from la = Some n \<longrightarrow> data_page D s ps n"
    and al: "start mod PGSIZE = 0" "end mod PGSIZE = 0" "USER_ACCESS start end" "start \<le> va" "va < end"
    and empty: "\<forall>la. start \<le> la \<and> la < end \<longrightarrow> lookup s to la = None"
    and free: "2 * ((end - start) div PGSIZE) < nr_free_pages s" "\<forall>q\<in>free_set (pm s) ps. page_ref q s = 0"
    and absent: "node s from [PDX0 va, PDX1 va] \<noteq> None" "lookup s from va = None"
    and area: "find_vma mm va = (Some vma, mm')" "find_vma mmc va = (Some vma, mmc')" "vm_flags vma AND VM_WRITE \<noteq> 0" "vm_flags vma AND VM_READ \<noteq> 0"
  shows "\<exists>s1 s2 s3 s4. page_fault StorePageFault mm from va s = Some (mm', s1) \<and> cow_range to from start end False s1 = Some (0, s2) \<and>
     page_fault StorePageFault mmc to va s2 = Some (mmc', s3) \<and> user_store to va w s3 = Some s4 \<and> user_load s4 from va = Some w"
proof -
  have u: "USERBASE \<le> va" "va < USERTOP" "start < end" "end \<le> USERTOP" using al by (auto simp: USER_ACCESS_def)
  obtain t where t: "node s from [PDX0 va, PDX1 va] = Some t" using absent(1) by blast
  then have inv: "\<not> valid (mem s t (PTX va))" using absent(2) by (auto simp: lookup_def simp del: node.simps split: if_splits)
  have pos: "0 < nr_free_pages s" using free(1) by simp
  from ok D(2) t absent(2) area(3) pos obtain p s1 ps1 where
    f: "fault_absent (vm_flags vma) True t (PTX va) s = Some (0, s1)" "p \<in> free_set (pm s) ps" "grows D s ps s1 ps1"
      "lookup s1 from va = Some (pte_create (p + nbase) (area_perm (vm_flags vma)))" "data_page D s1 ps1 (p + nbase)"
      "\<forall>d'\<in>D. \<forall>la'. (d', vpn la') \<noteq> (from, vpn va) \<longrightarrow> lookup s1 d' la' = lookup s d' la'" "\<forall>q. page_ref q s1 = page_ref q s"
      "nr_free_pages s = Suc (nr_free_pages s1)" by (rule fault_maps)
  have run1: "page_fault StorePageFault mm from va s = Some (mm', s1)"
    using page_fault_at [OF ok D(2) t area(1) u(1,2)] f(1) inv by simp
  let ?e = "pte_create (p + nbase) (area_perm (vm_flags vma))"
  have lt: "p + nbase < 2 ^ 44" using f(2) ok by (auto simp: tables_ok_def)
  have e: "PPN (PTE_ADDR ?e) = p + nbase" "valid ?e" "writable ?e" "bit ?e 1" "bit ?e 4"
    using PPN_pte_create [OF lt area_perm_small] area_perm_bits area(3,4) by (simp_all add: pte_bit)
  have ok1: "tables_ok s1 ps1 D" using f(3) by (simp add: grows_def)
  have fr: "frame s1 from la = (if vpn la = vpn va then Some (p + nbase) else frame s from la)" for la
    using f(4,6) D(2) e(1) lookup_vpn [of la va s1 "from"] by (auto simp: frame_def)
  have src1: "\<forall>la n. start \<le> la \<and> la < end \<and> frame s1 from la = Some n \<longrightarrow> data_page D s1 ps1 n"
    using src grows_data [OF f(3)] f(5) by (auto simp: fr split: if_splits)
  have empty1: "\<forall>la. start \<le> la \<and> la < end \<longrightarrow> lookup s1 to la = None" using empty f(6) D by auto
  have "2 * ((end - start) div PGSIZE) \<le> nr_free_pages s1" using free(1) f(8) by simp
  from cow_loop_ok [OF ok1 D this src1 al(1,2) u(3,4) empty1] obtain s2 ps2 where
    run2: "cow_loop to from False start end s1 = Some (0, s2)" and c: "cow_ok D to from start end s1 ps1 s2 ps2" by blast
  have ok2: "tables_ok s2 ps2 D" using c by (simp add: cow_ok_def grows_def)
  have l2: "lookup s2 d va = Some (cow_entry ?e)" if "d \<in> {to, from}" for d using c al(4,5) f(4) that by (auto simp: cow_ok_def)
  have cow: "page_cow p s2" using c al(4,5) f(4) e(1,3) unfolding cow_ok_def by fastforce
  have lt1: "PPN (PTE_ADDR ?e) < 2 ^ 44" using e(1) lt by simp
  note ce = cow_entry_ok [OF lt1 e(2)]
  have "hits s1 from start end p \<subseteq> {va div PGSIZE}"
  proof
    fix i assume i: "i \<in> hits s1 from start end p"
    then have range: "start \<le> i * PGSIZE" "i * PGSIZE < end" and h: "frame s1 from (i * PGSIZE) = Some (p + nbase)" by (auto simp: hits_def)
    have "used s ps (p + nbase)" if "frame s from (i * PGSIZE) = Some (p + nbase)" using src range that by (auto simp: data_page_def)
    then have "frame s from (i * PGSIZE) \<noteq> Some (p + nbase)" using f(2) by (auto simp: used_def)
    then have "vpn (i * PGSIZE) = vpn va" using h by (auto simp: fr split: if_splits)
    then show "i \<in> {va div PGSIZE}" using vpn_page [of "i * PGSIZE" va] range u by simp
  qed
  then have "card (hits s1 from start end p) \<le> 1" using card_mono [of "{va div PGSIZE}"] by fastforce
  moreover have "p \<notin> free_set (pm s1) ps1" using f(5) by (simp add: data_page_def used_def)
  ultimately have ref: "\<not> 1 < page_ref p s2" using c f(2,7) free(2) by (simp add: cow_ok_def)
  from l2 [of to] obtain t2 where t2: "node s2 to [PDX0 va, PDX1 va] = Some t2" "mem s2 t2 (PTX va) = cow_entry ?e" "valid (cow_entry ?e)"
    by (auto elim: lookup_node)
  have dp2: "data_page D s2 ps2 (p + nbase)" using c grows_data f(5) by (auto simp: cow_ok_def)
  have n2: "p + nbase = PPN (PTE_ADDR (cow_entry ?e))" "used s2 ps2 (p + nbase)" "page_cow (p + nbase - nbase) s2" "\<not> 1 < page_ref (p + nbase - nbase) s2"
    using ce(1) e(1) dp2 cow ref by (simp_all add: data_page_def)
  from ok2 D(1) _ ce(3) t2(1) n2 area(3) obtain s3 where k: "fault_present (vm_flags vma) True t2 (PTX va) s2 = Some (0, s3)" "grows D s2 ps2 s3 ps2"
    "lookup s3 to va = Some (cow_entry ?e OR PTE_W)" "\<forall>d'\<in>D. \<forall>la'. (d', vpn la') \<noteq> (to, vpn va) \<longrightarrow> lookup s3 d' la' = lookup s2 d' la'"
    by (rule fault_keeps) (use l2 in simp)
  have run3: "page_fault StorePageFault mmc to va s2 = Some (mmc', s3)"
    using page_fault_at [OF ok2 D(1) t2(1) area(2) u(1,2)] k(1) t2(2,3) by simp
  note we = writable_entry [OF t2(3)]
  have dp3: "data_page D s3 ps2 (p + nbase)" using grows_data [OF k(2) dp2] .
  let ?s4 = "set_mem (p + nbase) (PGOFF va div 8) w s3"
  have "user_store to va w s3 = Some ?s4" using k(3) we ce e n2(1) by (simp add: user_store_eq)
  moreover have "lookup ?s4 from va = Some (cow_entry ?e)"
    using lookup_data_write [OF dp3 D(2)] k(4) D l2 by auto
  then have "user_load ?s4 from va = Some w" using ce e n2(1) by (simp add: user_load_eq)
  ultimately show ?thesis using run1 run2 run3 al by (auto simp: cow_range_def)
qed

text \<open>Witnesses on the machine of \<open>PageTable\<close>: its process maps one writable page at \<^verbatim>\<open>USERBASE\<close>, the other none, and both directories
  have the gigapage of the kernel.\<close>

definition sample_area :: mm_struct where
  "sample_area = \<lparr>mmap_list = [\<lparr>vm_start = 0x200000, vm_end = 0x202000, vm_flags = 3\<rparr>], mmap_cache = None, map_count = 1\<rparr>"

lemma sample_find: "va \<in> {0x200000, 0x201000} \<Longrightarrow>
    find_vma sample_area va = (Some \<lparr>vm_start = 0x200000, vm_end = 0x202000, vm_flags = 3\<rparr>,
      sample_area\<lparr>mmap_cache := Some \<lparr>vm_start = 0x200000, vm_end = 0x202000, vm_flags = 3\<rparr>\<rparr>)"
  by (auto simp: find_vma_def sample_area_def Let_def)

lemma sample_src: "\<forall>la n. a \<le> la \<and> la < b \<and> frame sample_machine 0x80003 la = Some n \<longrightarrow> data_page {0x80002, 0x80003} sample_machine [0, 6] n"
  using sample_data by (simp add: sample_frame)

lemma sample_count: "nr_free_pages sample_machine = 5"
  by (simp add: sample_machine_def sample_pmm_def nr_free_pages_def default_nr_free_pages_def)

lemma sample_entry: "lookup sample_machine 0x80003 0x200000 = Some (pte_create 0x80005 0x1F)"
  by (simp add: lookup_some sample_node PDX0_def PDX1_def PTX_def del: node.simps) (simp add: sample_machine_def)

lemma sample_entry_ok: "PPN (PTE_ADDR (pte_create 0x80005 0x1F)) = 0x80005" "writable (pte_create 0x80005 0x1F)"
proof -
  show "PPN (PTE_ADDR (pte_create 0x80005 0x1F)) = 0x80005" by (rule PPN_pte_create) simp_all
  have "bit (0x1F :: 32 word) 2" by code_simp
  then show "writable (pte_create 0x80005 0x1F)" by (simp add: pte_bit)
qed

theorem cow_range_shares_witness:
  "\<exists>s'. cow_range 0x80002 0x80003 0x200000 0x202000 False sample_machine = Some (0, s') \<and>
     user_load s' 0x80002 0x200000 = user_load sample_machine 0x80003 0x200000 \<and> user_store 0x80003 0x200000 7 s' = None"
proof -
  have "2 * ((0x202000 - 0x200000 :: nat) div PGSIZE) \<le> nr_free_pages sample_machine" by (simp add: sample_count)
  from cow_range_shares [OF sample_tables_ok _ _ _ this sample_src, of "0x80002"] obtain s' where
    "cow_range 0x80002 0x80003 0x200000 0x202000 False sample_machine = Some (0, s')"
    "\<forall>va d w. 0x200000 \<le> va \<and> va < 0x202000 \<and> d \<in> {0x80002, 0x80003} \<longrightarrow>
       user_load s' d va = user_load sample_machine 0x80003 va \<and> user_store d va w s' = None"
    by (auto simp: USER_ACCESS_def sample_lookup)
  then show ?thesis by (intro exI [of _ s']) simp
qed

text \<open>A page that two processes share: the page at \<^verbatim>\<open>USERBASE\<close>, read-only, marked, with two references.\<close>

definition shared_machine :: machine where
  "shared_machine = set_mem 0x80009 0 (pte_create 0x80005 0x1B) (upd_desc 5 SetPageCow (upd_ref 5 (\<lambda>_. 2) sample_machine))"

lemma shared_machine_ok: "tables_ok shared_machine [0, 6] {0x80002, 0x80003}" "data_page {0x80002, 0x80003} shared_machine [0, 6] 0x80005"
  "lookup shared_machine 0x80003 0x200000 = Some (pte_create 0x80005 0x1B)"
proof -
  let ?s = "upd_desc 5 SetPageCow (upd_ref 5 (\<lambda>_. 2) sample_machine)"
  have t: "node sample_machine 0x80003 [PDX0 0x200000, PDX1 0x200000] = Some 0x80009" "PTX 0x200000 = 0"
    by (simp_all add: sample_node PDX0_def PDX1_def PTX_def del: node.simps)
  have m: "mem shared_machine = (mem sample_machine)(0x80009 := (mem sample_machine 0x80009)(PTX 0x200000 := pte_create 0x80005 0x1B))"
    "npage shared_machine = npage sample_machine" by (simp_all add: shared_machine_def t(2))
  have ff: "ff_inv (pm shared_machine) [0, 6]" "free_set (pm shared_machine) [0, 6] = free_set (pm sample_machine) [0, 6]"
    using sample_tables_ok by (simp_all add: shared_machine_def tables_ok_def)
  note leaf = set_leaf [OF sample_tables_ok _ t(1) m(1) ff m(2)]
  show "tables_ok shared_machine [0, 6] {0x80002, 0x80003}" using leaf(1) by (simp add: grows_def)
  show "data_page {0x80002, 0x80003} shared_machine [0, 6] 0x80005" using grows_data [OF leaf(1) sample_data] by simp
  show "lookup shared_machine 0x80003 0x200000 = Some (pte_create 0x80005 0x1B)" using leaf(2) [of "0x80003" "0x200000"] by simp
qed

theorem cow_fault_copies_witness:
  "\<exists>p s' mm'. page_fault StorePageFault sample_area 0x80003 0x200000 shared_machine = Some (mm', s') \<and>
     frame s' 0x80003 0x200000 = Some (p + nbase) \<and> mem s' (p + nbase) = mem shared_machine 0x80005 \<and> page_ref 5 s' = 1"
proof -
  have b: "\<not> bit (0x1B :: 32 word) 2" by code_simp
  have e: "\<not> writable (pte_create 0x80005 0x1B)" using b by (simp add: pte_bit)
  have n: "0x80005 = PPN (PTE_ADDR (pte_create 0x80005 0x1B))" by (rule PPN_pte_create [symmetric]) simp_all
  have r: "page_cow (0x80005 - nbase) shared_machine" "page_ref (0x80005 - nbase) shared_machine = 2"
    by (simp_all add: shared_machine_def) (simp add: upd_desc_def)
  have "0 < nr_free_pages shared_machine" using sample_count by (simp add: shared_machine_def)
  from cow_fault_copies [OF shared_machine_ok(1) _ shared_machine_ok(3) e n shared_machine_ok(2) r(1) _ sample_find _ _ _ this] r(2)
  show ?thesis by fastforce
qed

text \<open>The machine with the counts of its free pages as the allocator leaves them.\<close>

definition clean_machine :: machine where
  "clean_machine = upd_ref 1 (\<lambda>_. 0) (upd_ref 7 (\<lambda>_. 0) (upd_ref 8 (\<lambda>_. 0) sample_machine))"

lemma clean_same:
  "node clean_machine = node sample_machine" "lookup clean_machine = lookup sample_machine" "frame clean_machine = frame sample_machine"
  "free_set (pm clean_machine) ps = free_set (pm sample_machine) ps" "nr_free_pages clean_machine = nr_free_pages sample_machine"
  "data_page D clean_machine ps n = data_page D sample_machine ps n"
proof -
  have m: "mem clean_machine = mem sample_machine" by (simp add: clean_machine_def)
  show n: "node clean_machine = node sample_machine" using node_mem [OF m] by (simp add: fun_eq_iff)
  show l: "lookup clean_machine = lookup sample_machine" by (simp add: lookup_def n m fun_eq_iff del: node.simps split: option.split)
  show "frame clean_machine = frame sample_machine" by (simp add: frame_def l fun_eq_iff)
  show f: "free_set (pm clean_machine) ps = free_set (pm sample_machine) ps" for ps by (simp add: clean_machine_def)
  show "nr_free_pages clean_machine = nr_free_pages sample_machine" by (simp add: clean_machine_def)
  have "npage clean_machine = npage sample_machine" by (simp add: clean_machine_def)
  then show "data_page D clean_machine ps n = data_page D sample_machine ps n" by (simp add: data_page_def used_def f n)
qed

lemma clean_ok: "tables_ok clean_machine [0, 6] {0x80002, 0x80003}"
proof (rule tables_ok_same [OF sample_tables_ok])
  show "ff_inv (pm clean_machine) [0, 6]" using sample_tables_ok by (simp add: clean_machine_def tables_ok_def)
  show "npage clean_machine = npage sample_machine" by (simp add: clean_machine_def)
  show "mem clean_machine t i = mem sample_machine t i" for t i by (simp add: clean_machine_def)
qed (simp_all add: clean_same)

theorem cow_fork_after_fault_leaks_witness:
  "\<exists>mm mmc s1 s2 s3 s4. page_fault StorePageFault sample_area 0x80003 0x201000 clean_machine = Some (mm, s1) \<and>
     cow_range 0x80002 0x80003 0x200000 0x202000 False s1 = Some (0, s2) \<and>
     page_fault StorePageFault sample_area 0x80002 0x201000 s2 = Some (mmc, s3) \<and>
     user_store 0x80002 0x201000 7 s3 = Some s4 \<and> user_load s4 0x80003 0x201000 = Some 7"
proof -
  have absent: "node clean_machine 0x80003 [PDX0 0x201000, PDX1 0x201000] \<noteq> None" "lookup clean_machine 0x80003 0x201000 = None"
    using sample_frame [of "0x80003" "0x201000"] unfolding clean_same
    by (simp_all add: sample_node frame_def vpn_def PDX0_def PDX1_def PTX_def del: node.simps)
  have refs: "\<forall>q\<in>free_set (pm clean_machine) [0, 6]. page_ref q clean_machine = 0"
    using sample_free_set unfolding clean_same
    by (simp add: clean_machine_def page_ref_def sample_machine_def sample_pmm_def sample_head_def SetPageProperty_def upd_ref_def set_page_ref_def)
  have src: "\<forall>la n. a \<le> la \<and> la < b \<and> frame clean_machine 0x80003 la = Some n \<longrightarrow> data_page {0x80002, 0x80003} clean_machine [0, 6] n" for a b
    using sample_src unfolding clean_same by blast
  have "2 * ((0x202000 - 0x200000 :: nat) div PGSIZE) < nr_free_pages clean_machine" "(0x201000 :: nat) \<in> {0x200000, 0x201000}"
    unfolding clean_same by (simp_all add: sample_count)
  note * = this(1) and area = sample_find [OF this(2)]
  from cow_fork_after_fault_leaks [OF clean_ok _ _ _ src _ _ _ _ _ _ * refs absent area area, of "0x80002" 7]
  show ?thesis by (auto simp: USER_ACCESS_def sample_lookup clean_same)
qed

end
