(* ===== verification/Vfs.thy ===== *)
theory Vfs
  imports CString
begin

text \<open>
  The virtual file system: \<^verbatim>\<open>kern/fs/iobuf.c\<close> and \<^verbatim>\<open>kern/fs/vfs/\<close> (\<^verbatim>\<open>inode.c\<close>, \<^verbatim>\<open>vfsdev.c\<close>, \<^verbatim>\<open>vfspath.c\<close>, \<^verbatim>\<open>vfslookup.c\<close>, \<^verbatim>\<open>vfs.c\<close>,
  \<^verbatim>\<open>vfsfile.c\<close>).  The function pointers of \<^verbatim>\<open>struct inode_ops\<close> and \<^verbatim>\<open>struct fs\<close> are records of functions, as in the source;
  they act on the state \<open>vfs\<close>, whose component \<open>fsdata\<close> belongs to the file system behind them.  Path names are
  strings without their terminating zero; a zero byte written into a path shortens the string.  The locks of the
  device list, of the boot file system and of the working directory exclude other processes and are not
  represented.  \<open>None\<close> is a failed assertion.
\<close>

unbundle bit_operations_syntax

abbreviation (input) FS_MAX_DNAME_LEN :: nat where "FS_MAX_DNAME_LEN \<equiv> 31"
abbreviation (input) MAX_INODE_COUNT :: int where "MAX_INODE_COUNT \<equiv> 0x10000"
abbreviation (input) O_ACCMODE :: "32 word" where "O_ACCMODE \<equiv> 3"
abbreviation (input) O_RDONLY :: "32 word" where "O_RDONLY \<equiv> 0"
abbreviation (input) O_WRONLY :: "32 word" where "O_WRONLY \<equiv> 1"
abbreviation (input) O_RDWR :: "32 word" where "O_RDWR \<equiv> 2"
abbreviation (input) O_CREAT :: "32 word" where "O_CREAT \<equiv> 4"
abbreviation (input) O_EXCL :: "32 word" where "O_EXCL \<equiv> 8"
abbreviation (input) O_TRUNC :: "32 word" where "O_TRUNC \<equiv> 0x10"
abbreviation (input) O_APPEND :: "32 word" where "O_APPEND \<equiv> 0x20"
abbreviation (input) S_IFMT :: "32 word" where "S_IFMT \<equiv> 0x7000"
abbreviation (input) S_IFDIR :: "32 word" where "S_IFDIR \<equiv> 0x2000"

section \<open>Buffers\<close>

record iobuf =
  io_base :: nat
  io_offset :: int
  io_len :: nat
  io_resid :: nat

definition iobuf_init :: "nat \<Rightarrow> nat \<Rightarrow> int \<Rightarrow> iobuf" where
  "iobuf_init base len off = \<lparr>io_base = base, io_offset = off, io_len = len, io_resid = len\<rparr>"

definition iobuf_used :: "iobuf \<Rightarrow> nat" where
  "iobuf_used iob = io_len iob - io_resid iob"

definition iobuf_skip :: "nat \<Rightarrow> iobuf \<Rightarrow> iobuf option" where
  "iobuf_skip n iob = do {
     kassert (io_resid iob \<ge> n);
     Some (iob\<lparr>io_base := io_base iob + n, io_offset := io_offset iob + int n, io_resid := io_resid iob - n\<rparr>)
   }"

text \<open>The results are the return value, the number of bytes moved, the buffer and the memory.\<close>

definition iobuf_move :: "iobuf \<Rightarrow> nat \<Rightarrow> nat \<Rightarrow> bool \<Rightarrow> cmem \<Rightarrow> (int \<times> nat \<times> iobuf \<times> cmem) option" where
  "iobuf_move iob data len m2b m = do {
     let alen = (if io_resid iob > len then len else io_resid iob);
     let src = (if m2b then data else io_base iob);
     let dst = (if m2b then io_base iob else data);
     let m' = (if alen > 0 then memmove m dst src alen else m);
     iob \<leftarrow> (if alen > 0 then iobuf_skip alen iob else Some iob);
     Some (if len - alen = 0 then 0 else - E_NO_MEM, alen, iob, m')
   }"

definition iobuf_move_zeros :: "iobuf \<Rightarrow> nat \<Rightarrow> cmem \<Rightarrow> (int \<times> nat \<times> iobuf \<times> cmem) option" where
  "iobuf_move_zeros iob len m = do {
     let alen = (if io_resid iob > len then len else io_resid iob);
     let m' = (if alen > 0 then memset m (io_base iob) 0 alen else m);
     iob \<leftarrow> (if alen > 0 then iobuf_skip alen iob else Some iob);
     Some (if len - alen = 0 then 0 else - E_NO_MEM, alen, iob, m')
   }"

section \<open>Inodes\<close>

record inode =
  ref_count :: int
  open_count :: int
  in_fs :: "nat option"
  in_device :: bool

record stat =
  st_mode :: "32 word"
  st_nlinks :: nat
  st_blocks :: nat
  st_size :: nat

record vfs_dev =
  devname :: string
  devnode :: "nat option"
  dev_fs :: "nat option"
  mountable :: bool

record 'f vfs =
  inodes :: "nat \<Rightarrow> inode"
  kmem :: cmem
  pwd :: "nat option"
  bootfs_node :: "nat option"
  vdev_list :: "vfs_dev list"
  fsdata :: 'f

definition upd_inode :: "nat \<Rightarrow> (inode \<Rightarrow> inode) \<Rightarrow> 'f vfs \<Rightarrow> 'f vfs" where
  "upd_inode n f s = s\<lparr>inodes := (inodes s)(n := f (inodes s n))\<rparr>"

record 'f inode_ops =
  op_open :: "nat \<Rightarrow> 32 word \<Rightarrow> 'f vfs \<Rightarrow> (int \<times> 'f vfs) option"
  op_close :: "nat \<Rightarrow> 'f vfs \<Rightarrow> (int \<times> 'f vfs) option"
  op_read :: "nat \<Rightarrow> iobuf \<Rightarrow> 'f vfs \<Rightarrow> (int \<times> iobuf \<times> 'f vfs) option"
  op_write :: "nat \<Rightarrow> iobuf \<Rightarrow> 'f vfs \<Rightarrow> (int \<times> iobuf \<times> 'f vfs) option"
  op_fstat :: "nat \<Rightarrow> 'f vfs \<Rightarrow> (int \<times> stat \<times> 'f vfs) option"
  op_fsync :: "nat \<Rightarrow> 'f vfs \<Rightarrow> (int \<times> 'f vfs) option"
  op_namefile :: "nat \<Rightarrow> iobuf \<Rightarrow> 'f vfs \<Rightarrow> (int \<times> iobuf \<times> 'f vfs) option"
  op_getdirentry :: "nat \<Rightarrow> iobuf \<Rightarrow> 'f vfs \<Rightarrow> (int \<times> iobuf \<times> 'f vfs) option"
  op_reclaim :: "nat \<Rightarrow> 'f vfs \<Rightarrow> (int \<times> 'f vfs) option"
  op_gettype :: "nat \<Rightarrow> 'f vfs \<Rightarrow> (int \<times> 32 word \<times> 'f vfs) option"
  op_tryseek :: "nat \<Rightarrow> int \<Rightarrow> 'f vfs \<Rightarrow> (int \<times> 'f vfs) option"
  op_truncate :: "nat \<Rightarrow> int \<Rightarrow> 'f vfs \<Rightarrow> (int \<times> 'f vfs) option"
  op_create :: "nat \<Rightarrow> string \<Rightarrow> bool \<Rightarrow> 'f vfs \<Rightarrow> (int \<times> nat option \<times> 'f vfs) option"
  op_lookup :: "nat \<Rightarrow> string \<Rightarrow> 'f vfs \<Rightarrow> (int \<times> nat option \<times> 'f vfs) option"

record 'f fs_ops =
  fs_sync :: "nat \<Rightarrow> 'f vfs \<Rightarrow> (int \<times> 'f vfs) option"
  fs_get_root :: "nat \<Rightarrow> 'f vfs \<Rightarrow> (nat option \<times> 'f vfs) option"
  fs_unmount :: "nat \<Rightarrow> 'f vfs \<Rightarrow> (int \<times> 'f vfs) option"
  fs_cleanup :: "nat \<Rightarrow> 'f vfs \<Rightarrow> 'f vfs option"

definition inode_check :: "nat \<Rightarrow> 'f vfs \<Rightarrow> bool" where
  "inode_check n s \<longleftrightarrow>
     ref_count (inodes s n) \<ge> open_count (inodes s n) \<and> open_count (inodes s n) \<ge> 0 \<and>
     ref_count (inodes s n) < MAX_INODE_COUNT \<and> open_count (inodes s n) < MAX_INODE_COUNT"

text \<open>The macro \<^verbatim>\<open>__vop_op\<close>: an operation of an inode runs after the consistency check.\<close>

definition vop :: "nat \<Rightarrow> ('f vfs \<Rightarrow> 'r option) \<Rightarrow> 'f vfs \<Rightarrow> 'r option" where
  "vop n f s = do { kassert (inode_check n s); f s }"

definition inode_ref_inc :: "nat \<Rightarrow> 'f vfs \<Rightarrow> 'f vfs" where
  "inode_ref_inc n = upd_inode n (\<lambda>i. i\<lparr>ref_count := ref_count i + 1\<rparr>)"

definition inode_init :: "nat \<Rightarrow> nat option \<Rightarrow> 'f vfs \<Rightarrow> 'f vfs" where
  "inode_init n fs s = inode_ref_inc n (upd_inode n (\<lambda>i. i\<lparr>ref_count := 0, open_count := 0, in_fs := fs\<rparr>) s)"

definition inode_kill :: "nat \<Rightarrow> 'f vfs \<Rightarrow> 'f vfs option" where
  "inode_kill n s = do { kassert (ref_count (inodes s n) = 0); kassert (open_count (inodes s n) = 0); Some s }"

definition inode_ref_dec :: "'f inode_ops \<Rightarrow> nat \<Rightarrow> 'f vfs \<Rightarrow> (int \<times> 'f vfs) option" where
  "inode_ref_dec ops n s = do {
     kassert (ref_count (inodes s n) > 0);
     let s = upd_inode n (\<lambda>i. i\<lparr>ref_count := ref_count i - 1\<rparr>) s;
     let rc = ref_count (inodes s n);
     s \<leftarrow> (if rc = 0 then map_option snd (vop n (op_reclaim ops n) s) else Some s);
     Some (rc, s)
   }"

definition inode_open_inc :: "nat \<Rightarrow> 'f vfs \<Rightarrow> 'f vfs" where
  "inode_open_inc n = upd_inode n (\<lambda>i. i\<lparr>open_count := open_count i + 1\<rparr>)"

definition inode_open_dec :: "'f inode_ops \<Rightarrow> nat \<Rightarrow> 'f vfs \<Rightarrow> (int \<times> 'f vfs) option" where
  "inode_open_dec ops n s = do {
     kassert (open_count (inodes s n) > 0);
     let s = upd_inode n (\<lambda>i. i\<lparr>open_count := open_count i - 1\<rparr>) s;
     let oc = open_count (inodes s n);
     s \<leftarrow> (if oc = 0 then map_option snd (vop n (op_close ops n) s) else Some s);
     Some (oc, s)
   }"

section \<open>Devices\<close>

definition vfs_devlist_init :: "'f vfs \<Rightarrow> 'f vfs" where
  "vfs_devlist_init s = s\<lparr>vdev_list := []\<rparr>"

text \<open>\<^verbatim>\<open>strcmp\<close> on device names is equality (\<open>strcmp_ok\<close>).\<close>

fun root_loop :: "'f fs_ops \<Rightarrow> string \<Rightarrow> vfs_dev list \<Rightarrow> 'f vfs \<Rightarrow> (int \<times> nat option \<times> 'f vfs) option" where
  "root_loop fo name [] s = Some (- E_NO_DEV, None, s)"
| "root_loop fo name (v # vs) s =
     (if name = devname v
      then do {
        (found, s) \<leftarrow> (case dev_fs v of
                        Some fs \<Rightarrow> fs_get_root fo fs s
                      | None \<Rightarrow> (if \<not> mountable v
                                 then (case devnode v of Some n \<Rightarrow> Some (Some n, inode_ref_inc n s) | None \<Rightarrow> None)
                                 else Some (None, s)));
        Some (if found \<noteq> None then (0, found, s) else (- E_NA_DEV, None, s))
      }
      else root_loop fo name vs s)"

definition vfs_get_root :: "'f fs_ops \<Rightarrow> string \<Rightarrow> 'f vfs \<Rightarrow> (int \<times> nat option \<times> 'f vfs) option" where
  "vfs_get_root fo name s = root_loop fo name (vdev_list s) s"

definition vfs_get_devname :: "nat \<Rightarrow> 'f vfs \<Rightarrow> string option" where
  "vfs_get_devname fs s = map_option devname (find (\<lambda>v. dev_fs v = Some fs) (vdev_list s))"

definition check_devname_conflict :: "string \<Rightarrow> 'f vfs \<Rightarrow> bool" where
  "check_devname_conflict name s = (\<forall>v\<in>set (vdev_list s). devname v \<noteq> name)"

text \<open>\<open>got_name\<close> and \<open>got_dev\<close> say whether the two allocations succeed.\<close>

definition vfs_do_add :: "bool \<Rightarrow> bool \<Rightarrow> string \<Rightarrow> nat option \<Rightarrow> nat option \<Rightarrow> bool \<Rightarrow> 'f vfs \<Rightarrow> (int \<times> 'f vfs) option" where
  "vfs_do_add got_name got_dev name node fs mnt s = do {
     kassert (node = None \<and> \<not> mnt \<or> (case node of Some n \<Rightarrow> in_device (inodes s n) | None \<Rightarrow> False));
     (if length name > FS_MAX_DNAME_LEN then Some (- E_TOO_BIG, s)
      else if \<not> got_name \<or> \<not> got_dev then Some (- E_NO_MEM, s)
      else if \<not> check_devname_conflict name s then Some (- E_EXISTS, s)
      else Some (0, s\<lparr>vdev_list := \<lparr>devname = name, devnode = node, dev_fs = fs, mountable = mnt\<rparr> # vdev_list s\<rparr>))
   }"

definition vfs_add_fs :: "bool \<Rightarrow> bool \<Rightarrow> string \<Rightarrow> nat \<Rightarrow> 'f vfs \<Rightarrow> (int \<times> 'f vfs) option" where
  "vfs_add_fs g1 g2 name fs s = vfs_do_add g1 g2 name None (Some fs) False s"

definition vfs_add_dev :: "bool \<Rightarrow> bool \<Rightarrow> string \<Rightarrow> nat option \<Rightarrow> bool \<Rightarrow> 'f vfs \<Rightarrow> (int \<times> 'f vfs) option" where
  "vfs_add_dev g1 g2 name node mnt s = vfs_do_add g1 g2 name node None mnt s"

text \<open>The position of the device in the list.\<close>

fun find_mount :: "string \<Rightarrow> vfs_dev list \<Rightarrow> nat option" where
  "find_mount name [] = None"
| "find_mount name (v # vs) = (if mountable v \<and> devname v = name then Some 0 else map_option Suc (find_mount name vs))"

definition set_dev_fs :: "nat \<Rightarrow> nat option \<Rightarrow> 'f vfs \<Rightarrow> 'f vfs" where
  "set_dev_fs i fs s = s\<lparr>vdev_list := (vdev_list s)[i := (vdev_list s ! i)\<lparr>dev_fs := fs\<rparr>]\<rparr>"

definition vfs_mount :: "string \<Rightarrow> (nat \<Rightarrow> 'f vfs \<Rightarrow> (int \<times> nat option \<times> 'f vfs) option) \<Rightarrow> 'f vfs \<Rightarrow> (int \<times> 'f vfs) option" where
  "vfs_mount name mountfunc s =
     (case find_mount name (vdev_list s) of
        None \<Rightarrow> Some (- E_NO_DEV, s)
      | Some i \<Rightarrow>
          (if dev_fs (vdev_list s ! i) \<noteq> None then Some (- E_BUSY, s)
           else do {
             n \<leftarrow> devnode (vdev_list s ! i);
             kassert (in_device (inodes s n));
             (ret, fs, s) \<leftarrow> mountfunc n s;
             (if ret = 0 then do { kassert (fs \<noteq> None); Some (ret, set_dev_fs i fs s) } else Some (ret, s))
           }))"

definition vfs_unmount :: "'f fs_ops \<Rightarrow> string \<Rightarrow> 'f vfs \<Rightarrow> (int \<times> 'f vfs) option" where
  "vfs_unmount fo name s =
     (case find_mount name (vdev_list s) of
        None \<Rightarrow> Some (- E_NO_DEV, s)
      | Some i \<Rightarrow>
          (case dev_fs (vdev_list s ! i) of
             None \<Rightarrow> Some (- E_INVAL, s)
           | Some fs \<Rightarrow> do {
               (ret, s) \<leftarrow> fs_sync fo fs s;
               (if ret \<noteq> 0 then Some (ret, s)
                else do { (ret, s) \<leftarrow> fs_unmount fo fs s; Some (ret, if ret = 0 then set_dev_fs i None s else s) })
             }))"

fun unmount_loop :: "'f fs_ops \<Rightarrow> nat list \<Rightarrow> 'f vfs \<Rightarrow> 'f vfs option" where
  "unmount_loop fo [] s = Some s"
| "unmount_loop fo (i # is) s =
     (case (if mountable (vdev_list s ! i) then dev_fs (vdev_list s ! i) else None) of
        None \<Rightarrow> unmount_loop fo is s
      | Some fs \<Rightarrow> do {
          (ret, s) \<leftarrow> fs_sync fo fs s;
          (if ret \<noteq> 0 then unmount_loop fo is s
           else do { (ret, s) \<leftarrow> fs_unmount fo fs s; unmount_loop fo is (if ret \<noteq> 0 then s else set_dev_fs i None s) })
        })"

definition vfs_unmount_all :: "'f fs_ops \<Rightarrow> 'f vfs \<Rightarrow> (int \<times> 'f vfs) option" where
  "vfs_unmount_all fo s = do { s \<leftarrow> unmount_loop fo [0..<length (vdev_list s)] s; Some (0, s) }"

fun cleanup_loop :: "'f fs_ops \<Rightarrow> vfs_dev list \<Rightarrow> 'f vfs \<Rightarrow> 'f vfs option" where
  "cleanup_loop fo [] s = Some s"
| "cleanup_loop fo (v # vs) s =
     do { s \<leftarrow> (case dev_fs v of None \<Rightarrow> Some s | Some fs \<Rightarrow> fs_cleanup fo fs s); cleanup_loop fo vs s }"

definition vfs_cleanup :: "'f fs_ops \<Rightarrow> 'f vfs \<Rightarrow> 'f vfs option" where
  "vfs_cleanup fo s = cleanup_loop fo (vdev_list s) s"

section \<open>Paths\<close>

definition vfs_get_curdir :: "'f vfs \<Rightarrow> int \<times> nat option \<times> 'f vfs" where
  "vfs_get_curdir s = (case pwd s of Some n \<Rightarrow> (0, Some n, inode_ref_inc n s) | None \<Rightarrow> (- E_NOENT, None, s))"

definition vfs_get_bootfs :: "'f vfs \<Rightarrow> int \<times> nat option \<times> 'f vfs" where
  "vfs_get_bootfs s = (case bootfs_node s of Some n \<Rightarrow> (0, Some n, inode_ref_inc n s) | None \<Rightarrow> (- E_NOENT, None, s))"

definition drop_ref :: "'f inode_ops \<Rightarrow> nat option \<Rightarrow> 'f vfs \<Rightarrow> 'f vfs option" where
  "drop_ref ops x s = (case x of None \<Rightarrow> Some s | Some n \<Rightarrow> map_option snd (inode_ref_dec ops n s))"

definition vfs_set_curdir :: "'f inode_ops \<Rightarrow> nat option \<Rightarrow> 'f vfs \<Rightarrow> (int \<times> 'f vfs) option" where
  "vfs_set_curdir ops dir s =
     (if pwd s = dir then Some (0, s)
      else case dir of
        None \<Rightarrow> do { let old = pwd s; s \<leftarrow> drop_ref ops old (s\<lparr>pwd := None\<rparr>); Some (0, s) }
      | Some d \<Rightarrow> do {
          (ret, type, s) \<leftarrow> vop d (op_gettype ops d) s;
          (if ret \<noteq> 0 then Some (ret, s)
           else if type AND S_IFMT \<noteq> S_IFDIR then Some (- E_NOTDIR, s)
           else do { let old = pwd s; s \<leftarrow> drop_ref ops old ((inode_ref_inc d s)\<lparr>pwd := Some d\<rparr>); Some (0, s) })
        })"

text \<open>The loop of \<^verbatim>\<open>get_device\<close>: the positions of a colon and of a slash, whichever comes first.\<close>

fun device_scan :: "string \<Rightarrow> int \<Rightarrow> int \<times> int" where
  "device_scan [] i = (- 1, - 1)"
| "device_scan (c # cs) i = (if c = CHR '':'' then (i, - 1) else if c = CHR ''/'' then (- 1, i) else device_scan cs (i + 1))"

text \<open>The result: the return value, the path as \<^verbatim>\<open>get_device\<close> leaves it in memory, the rest of the path, and the inode to
  start from.\<close>

definition get_device :: "'f inode_ops \<Rightarrow> 'f fs_ops \<Rightarrow> string \<Rightarrow> 'f vfs \<Rightarrow> (int \<times> string \<times> string \<times> nat option \<times> 'f vfs) option" where
  "get_device ops fo path s =
     (let (colon, slash) = device_scan path 0; strip = dropWhile (\<lambda>c. c = CHR ''/'') in
      if colon < 0 \<and> slash \<noteq> 0 then (case vfs_get_curdir s of (ret, node, s) \<Rightarrow> Some (ret, path, path, node, s))
      else if colon > 0 then do {
        let dev = take (nat colon) path;
        (ret, node, s) \<leftarrow> vfs_get_root fo dev s;
        Some (ret, dev, strip (drop (nat colon + 1) path), node, s)
      }
      else if hd path = CHR ''/'' then
        (case vfs_get_bootfs s of (ret, node, s) \<Rightarrow> Some (ret, path, strip (tl path), node, s))
      else (case vfs_get_curdir s of (ret, node, s) \<Rightarrow>
        if ret \<noteq> 0 then Some (ret, path, path, None, s)
        else do {
          n \<leftarrow> node;
          fs \<leftarrow> in_fs (inodes s n);
          (root, s) \<leftarrow> fs_get_root fo fs s;
          s \<leftarrow> drop_ref ops (Some n) s;
          Some (0, path, strip (tl path), root, s)
        }))"

definition vfs_lookup :: "'f inode_ops \<Rightarrow> 'f fs_ops \<Rightarrow> string \<Rightarrow> 'f vfs \<Rightarrow> (int \<times> string \<times> nat option \<times> 'f vfs) option" where
  "vfs_lookup ops fo path s = do {
     (ret, path, sub, node, s) \<leftarrow> get_device ops fo path s;
     (if ret \<noteq> 0 then Some (ret, path, None, s)
      else do {
        n \<leftarrow> node;
        (if sub \<noteq> []
         then do { (ret, found, s) \<leftarrow> vop n (op_lookup ops n sub) s; s \<leftarrow> drop_ref ops (Some n) s; Some (ret, path, found, s) }
         else Some (0, path, Some n, s))
      })
   }"

definition vfs_lookup_parent :: "'f inode_ops \<Rightarrow> 'f fs_ops \<Rightarrow> string \<Rightarrow> 'f vfs \<Rightarrow> (int \<times> nat option \<times> string \<times> 'f vfs) option" where
  "vfs_lookup_parent ops fo path s = do {
     (ret, path, sub, node, s) \<leftarrow> get_device ops fo path s;
     Some (if ret \<noteq> 0 then (ret, None, [], s) else (0, node, sub, s))
   }"

definition vfs_chdir :: "'f inode_ops \<Rightarrow> 'f fs_ops \<Rightarrow> string \<Rightarrow> 'f vfs \<Rightarrow> (int \<times> 'f vfs) option" where
  "vfs_chdir ops fo path s = do {
     (ret, path, node, s) \<leftarrow> vfs_lookup ops fo path s;
     (if ret = 0
      then do { (ret, s) \<leftarrow> vfs_set_curdir ops node s; s \<leftarrow> drop_ref ops node s; Some (ret, s) }
      else Some (ret, s))
   }"

text \<open>The names \<^verbatim>\<open>vfs_getcwd\<close> moves into the buffer are constant strings: \<^verbatim>\<open>iobuf_move\<close> from such a string.\<close>

definition iobuf_put :: "iobuf \<Rightarrow> string \<Rightarrow> cmem \<Rightarrow> (int \<times> iobuf \<times> cmem) option" where
  "iobuf_put iob name m = do {
     let alen = min (io_resid iob) (length name);
     iob' \<leftarrow> (if alen > 0 then iobuf_skip alen iob else Some iob);
     Some (if length name - alen = 0 then 0 else - E_NO_MEM, iob',
       \<lambda>a. if io_base iob \<le> a \<and> a < io_base iob + alen then byte (name ! (a - io_base iob)) else m a)
   }"

definition vfs_getcwd :: "'f inode_ops \<Rightarrow> iobuf \<Rightarrow> 'f vfs \<Rightarrow> (int \<times> iobuf \<times> 'f vfs) option" where
  "vfs_getcwd ops iob s =
     (case vfs_get_curdir s of
        (ret, node, s) \<Rightarrow>
          (if ret \<noteq> 0 then Some (ret, iob, s)
           else do {
             n \<leftarrow> node;
             fs \<leftarrow> in_fs (inodes s n);
             name \<leftarrow> vfs_get_devname fs s;
             (ret, iob, m) \<leftarrow> iobuf_put iob name (kmem s);
             let s = s\<lparr>kmem := m\<rparr>;
             (ret, iob, s) \<leftarrow>
               (if ret \<noteq> 0 then Some (ret, iob, s)
                else do {
                  (ret, iob, m) \<leftarrow> iobuf_put iob '':'' (kmem s);
                  let s = s\<lparr>kmem := m\<rparr>;
                  (if ret \<noteq> 0 then Some (ret, iob, s) else vop n (op_namefile ops n iob) s)
                });
             s \<leftarrow> drop_ref ops (Some n) s;
             Some (ret, iob, s)
           }))"

definition change_bootfs :: "'f inode_ops \<Rightarrow> nat option \<Rightarrow> 'f vfs \<Rightarrow> 'f vfs option" where
  "change_bootfs ops node s = drop_ref ops (bootfs_node s) (s\<lparr>bootfs_node := node\<rparr>)"

definition vfs_set_bootfs :: "'f inode_ops \<Rightarrow> 'f fs_ops \<Rightarrow> string option \<Rightarrow> 'f vfs \<Rightarrow> (int \<times> 'f vfs) option" where
  "vfs_set_bootfs ops fo fsname s =
     (case fsname of
        None \<Rightarrow> do { s \<leftarrow> change_bootfs ops None s; Some (0, s) }
      | Some name \<Rightarrow>
          (if dropWhile (\<lambda>c. c \<noteq> CHR '':'') name \<noteq> '':'' then Some (- E_INVAL, s)
           else do {
             (ret, s) \<leftarrow> vfs_chdir ops fo name s;
             (if ret \<noteq> 0 then Some (ret, s)
              else case vfs_get_curdir s of (ret, node, s) \<Rightarrow>
                if ret \<noteq> 0 then Some (ret, s) else do { s \<leftarrow> change_bootfs ops node s; Some (0, s) })
           }))"

section \<open>Opening and closing\<close>

text \<open>The inode the name refers to, made if it is missing and \<^verbatim>\<open>O_CREAT\<close> is given.  \<^verbatim>\<open>vfs_lookup_parent\<close> gets the path as
  \<^verbatim>\<open>vfs_lookup\<close> has left it; the return value of \<^verbatim>\<open>vop_create\<close> is overwritten.\<close>

definition open_find :: "'f inode_ops \<Rightarrow> 'f fs_ops \<Rightarrow> string \<Rightarrow> bool \<Rightarrow> bool \<Rightarrow> 'f vfs \<Rightarrow> (int \<times> nat option \<times> 'f vfs) option" where
  "open_find ops fo path excl create s = do {
     (ret, path, node, s) \<leftarrow> vfs_lookup ops fo path s;
     (if ret \<noteq> 0 then
        (if ret = - E_NOENT \<and> create
         then do {
           (ret, dir, name, s) \<leftarrow> vfs_lookup_parent ops fo path s;
           (if ret \<noteq> 0 then Some (ret, None, s)
            else do {
              d \<leftarrow> dir;
              (ret, node, s) \<leftarrow> vop d (op_create ops d name excl) s;
              Some (0, node, s)
            })
         }
         else Some (ret, None, s))
      else if excl \<and> create then Some (- E_EXISTS, None, s)
      else Some (0, node, s))
   }"

definition vfs_close :: "'f inode_ops \<Rightarrow> nat \<Rightarrow> 'f vfs \<Rightarrow> (int \<times> 'f vfs) option" where
  "vfs_close ops n s = do {
     (_, s) \<leftarrow> inode_open_dec ops n s;
     (_, s) \<leftarrow> inode_ref_dec ops n s;
     Some (0, s)
   }"

definition vfs_open :: "'f inode_ops \<Rightarrow> 'f fs_ops \<Rightarrow> string \<Rightarrow> 32 word \<Rightarrow> 'f vfs \<Rightarrow> (int \<times> nat option \<times> 'f vfs) option" where
  "vfs_open ops fo path fl s =
     (let acc = fl AND O_ACCMODE; excl = (fl AND O_EXCL \<noteq> 0); create = (fl AND O_CREAT \<noteq> 0) in
      if acc \<noteq> O_RDONLY \<and> acc \<noteq> O_WRONLY \<and> acc \<noteq> O_RDWR then Some (- E_INVAL, None, s)
      else if fl AND O_TRUNC \<noteq> 0 \<and> acc = O_RDONLY then Some (- E_INVAL, None, s)
      else do {
        (ret, node, s) \<leftarrow> open_find ops fo path excl create s;
        (if ret \<noteq> 0 then Some (ret, None, s)
         else do {
           n \<leftarrow> node;
           (ret, s) \<leftarrow> vop n (op_open ops n fl) s;
           (if ret \<noteq> 0 then do { s \<leftarrow> drop_ref ops (Some n) s; Some (ret, None, s) }
            else do {
              let s = inode_open_inc n s;
              (if fl AND O_TRUNC \<noteq> 0 \<or> create
               then do {
                 (ret, s) \<leftarrow> vop n (op_truncate ops n 0) s;
                 (if ret \<noteq> 0 then do { (_, s) \<leftarrow> vfs_close ops n s; Some (ret, None, s) } else Some (0, Some n, s))
               }
               else Some (0, Some n, s))
            })
         })
      })"

section \<open>The properties\<close>

lemma device_scan_colon:
  "CHR '':'' \<notin> set dev \<Longrightarrow> CHR ''/'' \<notin> set dev \<Longrightarrow> device_scan (dev @ CHR '':'' # rest) i = (i + int (length dev), - 1)"
  by (induction dev arbitrary: i) auto

lemma device_scan_none:
  "CHR '':'' \<notin> set dev \<Longrightarrow> CHR ''/'' \<notin> set dev \<Longrightarrow> device_scan dev i = (- 1, - 1)"
  by (induction dev arbitrary: i) auto

text \<open>A file system without behaviour of its own, for the examples.\<close>

definition no_ops :: "unit inode_ops" where
  "no_ops = \<lparr>op_open = (\<lambda>_ _ s. Some (0, s)), op_close = (\<lambda>_ s. Some (0, s)), op_read = (\<lambda>_ b s. Some (0, b, s)),
     op_write = (\<lambda>_ b s. Some (0, b, s)), op_fstat = (\<lambda>_ s. Some (0, \<lparr>st_mode = 0, st_nlinks = 1, st_blocks = 0, st_size = 0\<rparr>, s)),
     op_fsync = (\<lambda>_ s. Some (0, s)), op_namefile = (\<lambda>_ b s. Some (0, b, s)), op_getdirentry = (\<lambda>_ b s. Some (0, b, s)),
     op_reclaim = (\<lambda>_ s. Some (0, s)), op_gettype = (\<lambda>_ s. Some (0, S_IFDIR, s)), op_tryseek = (\<lambda>_ _ s. Some (0, s)),
     op_truncate = (\<lambda>_ _ s. Some (0, s)), op_create = (\<lambda>_ _ _ s. Some (0, Some 9, inode_ref_inc 9 s)),
     op_lookup = (\<lambda>_ _ s. Some (- E_NOENT, None, s))\<rparr>"

definition no_fs :: "unit fs_ops" where
  "no_fs = \<lparr>fs_sync = (\<lambda>_ s. Some (0, s)), fs_get_root = (\<lambda>_ s. Some (Some 3, inode_ref_inc 3 s)), fs_unmount = (\<lambda>_ s. Some (0, s)),
     fs_cleanup = (\<lambda>_ s. Some s)\<rparr>"

definition small_vfs :: "unit vfs" where
  "small_vfs = \<lparr>inodes = (\<lambda>_. \<lparr>ref_count = 1, open_count = 1, in_fs = Some 0, in_device = False\<rparr>), kmem = (\<lambda>_. 0), pwd = Some 7,
     bootfs_node = None, vdev_list = [\<lparr>devname = ''disk0'', devnode = None, dev_fs = Some 0, mountable = True\<rparr>], fsdata = ()\<rparr>"

text \<open>Creating a file on a named device goes to the wrong place.  When \<^verbatim>\<open>dev:rest\<close> does not exist and is opened with
  \<^verbatim>\<open>O_CREAT\<close>, the lookup has already cut the path at the colon: the file is created in the current directory of the
  process, under the name of the device.\<close>

theorem vfs_open_creates_in_curdir:
  assumes dev: "dev \<noteq> []" "CHR '':'' \<notin> set dev" "CHR ''/'' \<notin> set dev"
    and look: "vfs_lookup ops fo (dev @ CHR '':'' # rest) s = Some (- E_NOENT, path, found, s1)" and cwd: "pwd s1 = Some c"
  shows "path = dev \<and> open_find ops fo (dev @ CHR '':'' # rest) excl True s =
     map_option (\<lambda>(ret, node, s). (0, node, s)) (vop c (op_create ops c dev excl) (inode_ref_inc c s1))"
proof -
  have "path = dev"
    using look dev device_scan_colon [OF dev(2,3), of rest 0]
    by (auto simp: vfs_lookup_def get_device_def Let_def split: bind_splits if_splits)
  moreover have "get_device ops fo dev s1 = Some (0, dev, dev, Some c, inode_ref_inc c s1)"
    using device_scan_none [OF dev(2,3), of 0] cwd by (simp add: get_device_def vfs_get_curdir_def)
  ultimately show ?thesis using look
    by (auto simp: open_find_def vfs_lookup_parent_def split: bind_splits option.splits)
qed

theorem vfs_open_creates_in_curdir_witness:
  "open_find no_ops no_fs ''disk0:new'' False True small_vfs =
     map_option (\<lambda>(ret, node, s). (0, node, s)) (vop 7 (op_create no_ops 7 ''disk0'' False) (inode_ref_inc 7 small_vfs))"
proof -
  have "vfs_lookup no_ops no_fs (''disk0'' @ CHR '':'' # ''new'') small_vfs = Some (- E_NOENT, ''disk0'', None, small_vfs)"
    by (simp add: vfs_lookup_def get_device_def vfs_get_root_def no_fs_def no_ops_def vop_def inode_check_def inode_ref_inc_def
        drop_ref_def inode_ref_dec_def upd_inode_def small_vfs_def Let_def fun_upd_def cong: if_cong)
  from vfs_open_creates_in_curdir [OF _ _ _ this, of 7 False] show ?thesis by (simp add: small_vfs_def)
qed

end
