(* ===== verification/Disk.thy ===== *)
theory Disk
  imports Vfs
begin

text \<open>
  The disk below the simple file system: the RAM disk (\<^verbatim>\<open>kern/driver/ramdisk.c\<close>), the sector interface (\<^verbatim>\<open>kern/driver/ide.c\<close>) and the block device
  \<^verbatim>\<open>disk0\<close> (\<^verbatim>\<open>kern/fs/devs/dev_disk0.c\<close>).  The image of the disk is an array of bytes of its own, the memory of the kernel another; the image is
  not reachable through other pointers.  The device is valid, as \<^verbatim>\<open>ide_init\<close> asserts.
\<close>

section \<open>Sectors\<close>

abbreviation (input) SECTSIZE :: nat where "SECTSIZE \<equiv> 512"
abbreviation (input) BLKSIZE :: nat where "BLKSIZE \<equiv> 4096"
abbreviation (input) DISK0_BUFSIZE :: nat where "DISK0_BUFSIZE \<equiv> 16384"
abbreviation (input) DISK0_BLK_NSECT :: nat where "DISK0_BLK_NSECT \<equiv> 8"
abbreviation (input) MAX_NSECS :: nat where "MAX_NSECS \<equiv> 128"
abbreviation (input) MAX_DISK_NSECS :: nat where "MAX_DISK_NSECS \<equiv> 0x10000000"

record disk0 =
  dmem :: cmem
  dimage :: cmem
  ide_size :: nat
  disk0_buffer :: nat
  d_blocks :: nat

text \<open>\<^verbatim>\<open>memcpy\<close> between the image and the memory.\<close>

definition copy_bytes :: "cmem \<Rightarrow> nat \<Rightarrow> cmem \<Rightarrow> nat \<Rightarrow> nat \<Rightarrow> cmem" where
  "copy_bytes m d m' s n = (\<lambda>a. if d \<le> a \<and> a < d + n then m' (s + (a - d)) else m a)"

definition ramdisk_read :: "nat \<Rightarrow> nat \<Rightarrow> nat \<Rightarrow> 'a disk0_scheme \<Rightarrow> int \<times> 'a disk0_scheme" where
  "ramdisk_read secno dst nsecs s =
     (let nsecs = min nsecs (u64_sub (ide_size s) secno)
      in (0, s\<lparr>dmem := copy_bytes (dmem s) dst (dimage s) (secno * SECTSIZE) (nsecs * SECTSIZE)\<rparr>))"

definition ramdisk_write :: "nat \<Rightarrow> nat \<Rightarrow> nat \<Rightarrow> 'a disk0_scheme \<Rightarrow> int \<times> 'a disk0_scheme" where
  "ramdisk_write secno src nsecs s =
     (let nsecs = min nsecs (u64_sub (ide_size s) secno)
      in (0, s\<lparr>dimage := copy_bytes (dimage s) (secno * SECTSIZE) (dmem s) src (nsecs * SECTSIZE)\<rparr>))"

definition ide_read_secs :: "nat \<Rightarrow> nat \<Rightarrow> nat \<Rightarrow> 'a disk0_scheme \<Rightarrow> (int \<times> 'a disk0_scheme) option" where
  "ide_read_secs secno dst nsecs s = do {
     kassert (nsecs \<le> MAX_NSECS);
     kassert (secno < MAX_DISK_NSECS \<and> secno + nsecs \<le> MAX_DISK_NSECS);
     Some (ramdisk_read secno dst nsecs s)
   }"

definition ide_write_secs :: "nat \<Rightarrow> nat \<Rightarrow> nat \<Rightarrow> 'a disk0_scheme \<Rightarrow> (int \<times> 'a disk0_scheme) option" where
  "ide_write_secs secno src nsecs s = do {
     kassert (nsecs \<le> MAX_NSECS);
     kassert (secno < MAX_DISK_NSECS \<and> secno + nsecs \<le> MAX_DISK_NSECS);
     Some (ramdisk_write secno src nsecs s)
   }"

section \<open>The block device\<close>

definition disk0_read_blks_nolock :: "nat \<Rightarrow> nat \<Rightarrow> 'a disk0_scheme \<Rightarrow> 'a disk0_scheme option" where
  "disk0_read_blks_nolock blkno nblks s = do {
     (ret, s) \<leftarrow> ide_read_secs (u32 (blkno * DISK0_BLK_NSECT)) (disk0_buffer s) (u32 (nblks * DISK0_BLK_NSECT)) s;
     kassert (ret = 0);
     Some s
   }"

definition disk0_write_blks_nolock :: "nat \<Rightarrow> nat \<Rightarrow> 'a disk0_scheme \<Rightarrow> 'a disk0_scheme option" where
  "disk0_write_blks_nolock blkno nblks s = do {
     (ret, s) \<leftarrow> ide_write_secs (u32 (blkno * DISK0_BLK_NSECT)) (disk0_buffer s) (u32 (nblks * DISK0_BLK_NSECT)) s;
     kassert (ret = 0);
     Some s
   }"

text \<open>One turn of the loop of \<^verbatim>\<open>disk0_io\<close>; the results are the bytes copied and the number of blocks.\<close>

definition disk0_turn :: "bool \<Rightarrow> nat \<Rightarrow> nat \<Rightarrow> iobuf \<Rightarrow> 'a disk0_scheme \<Rightarrow> (nat \<times> nat \<times> iobuf \<times> 'a disk0_scheme) option" where
  "disk0_turn write resid blkno iob s =
     (if write
      then do {
        (_, copied, iob, m) \<leftarrow> iobuf_move iob (disk0_buffer s) DISK0_BUFSIZE False (dmem s);
        let s = s\<lparr>dmem := m\<rparr>;
        kassert (copied \<noteq> 0 \<and> copied \<le> resid \<and> copied mod BLKSIZE = 0);
        let nblks = copied div BLKSIZE;
        s \<leftarrow> disk0_write_blks_nolock blkno nblks s;
        Some (copied, nblks, iob, s)
      }
      else do {
        let alen = (if DISK0_BUFSIZE > resid then resid else DISK0_BUFSIZE);
        let nblks = alen div BLKSIZE;
        s \<leftarrow> disk0_read_blks_nolock blkno nblks s;
        (_, copied, iob, m) \<leftarrow> iobuf_move iob (disk0_buffer s) alen True (dmem s);
        let s = s\<lparr>dmem := m\<rparr>;
        kassert (copied = alen \<and> copied mod BLKSIZE = 0);
        Some (copied, nblks, iob, s)
      })"

partial_function (option) disk0_loop ::
  "bool \<Rightarrow> nat \<Rightarrow> nat \<Rightarrow> iobuf \<Rightarrow> 'a disk0_scheme \<Rightarrow> (iobuf \<times> 'a disk0_scheme) option" where
  "disk0_loop write resid blkno iob s =
     (if resid = 0 then Some (iob, s)
      else do {
        (copied, nblks, iob, s) \<leftarrow> disk0_turn write resid blkno iob s;
        disk0_loop write (resid - copied) (u32 (blkno + nblks)) iob s
      })"

definition disk0_io :: "iobuf \<Rightarrow> bool \<Rightarrow> 'a disk0_scheme \<Rightarrow> (int \<times> iobuf \<times> 'a disk0_scheme) option" where
  "disk0_io iob write s =
     (let off = io_offset iob; resid = io_resid iob;
          blkno = nat (off div int BLKSIZE mod 2 ^ 32); nblks = u32 (resid div BLKSIZE)
      in if off mod int BLKSIZE \<noteq> 0 \<or> resid mod BLKSIZE \<noteq> 0 then Some (- E_INVAL, iob, s)
         else if u32 (blkno + nblks) > d_blocks s then Some (- E_INVAL, iob, s)
         else if nblks = 0 then Some (0, iob, s)
         else do { (iob, s) \<leftarrow> disk0_loop write resid blkno iob s; Some (0, iob, s) })"

section \<open>One block\<close>

text \<open>A device of fewer than \<open>2\<^sup>20\<close> blocks, whose sectors are all there.\<close>

definition dev_ok :: "'a disk0_scheme \<Rightarrow> bool" where
  "dev_ok s \<longleftrightarrow> d_blocks s < 2 ^ 20 \<and> d_blocks s * DISK0_BLK_NSECT \<le> ide_size s \<and> ide_size s < 2 ^ 32"

definition region :: "nat \<Rightarrow> nat \<Rightarrow> nat set" where
  "region a n = {a ..< a + n}"

lemma mem_region [simp]: "x \<in> region a n \<longleftrightarrow> a \<le> x \<and> x < a + n"
  by (simp add: region_def)

lemma block_secs:
  assumes "dev_ok s" and "b < d_blocks s"
  shows "u32 (b * DISK0_BLK_NSECT) = b * DISK0_BLK_NSECT" "b * DISK0_BLK_NSECT + DISK0_BLK_NSECT \<le> MAX_DISK_NSECS"
    "min DISK0_BLK_NSECT (u64_sub (ide_size s) (b * DISK0_BLK_NSECT)) = DISK0_BLK_NSECT"
proof -
  have le: "b * 8 + 8 \<le> ide_size s" "ide_size s < 2 ^ 32" "b < 2 ^ 20" using assms by (auto simp: dev_ok_def)
  then show "u32 (b * DISK0_BLK_NSECT) = b * DISK0_BLK_NSECT" "b * DISK0_BLK_NSECT + DISK0_BLK_NSECT \<le> MAX_DISK_NSECS"
    by (auto simp: u32_def)
  have "u64_sub (ide_size s) (b * 8) = ide_size s - b * 8"
  proof -
    have "b * 8 mod 2 ^ 64 = b * 8" using le by simp
    moreover have "ide_size s + (2 ^ 64 - b * 8) = (ide_size s - b * 8) + 2 ^ 64" using le by simp
    moreover have "((ide_size s - b * 8) + 2 ^ 64) mod 2 ^ 64 = ide_size s - b * 8" using le by (simp only: mod_add_self2) simp
    ultimately show ?thesis by (simp only: u64_sub_def)
  qed
  then show "min DISK0_BLK_NSECT (u64_sub (ide_size s) (b * DISK0_BLK_NSECT)) = DISK0_BLK_NSECT" using le by simp
qed

lemma disk0_read_one:
  assumes "dev_ok s" and "b < d_blocks s"
  obtains iob m where "disk0_io (iobuf_init base BLKSIZE (int (b * BLKSIZE))) False s = Some (0, iob, s\<lparr>dmem := m\<rparr>)"
    "\<And>k. k < BLKSIZE \<Longrightarrow> m (base + k) = dimage s (b * BLKSIZE + k)"
    "\<And>a. a \<notin> region base BLKSIZE \<Longrightarrow> a \<notin> region (disk0_buffer s) BLKSIZE \<Longrightarrow> m a = dmem s a"
proof -
  note sec = block_secs [OF assms]
  have b: "b < 2 ^ 20" using assms by (simp add: dev_ok_def)
  let ?m1 = "copy_bytes (dmem s) (disk0_buffer s) (dimage s) (b * 4096) 4096"
  let ?m2 = "memmove ?m1 base (disk0_buffer s) 4096"
  have "disk0_read_blks_nolock b 1 s = Some (s\<lparr>dmem := ?m1\<rparr>)"
    using sec by (simp add: disk0_read_blks_nolock_def ide_read_secs_def ramdisk_read_def Let_def u32_def mult.commute)
  then have "disk0_io (iobuf_init base BLKSIZE (int (b * BLKSIZE))) False s = Some (0, iobuf_init (base + 4096) 4096 (int (b * 4096) + 4096)\<lparr>io_resid := 0\<rparr>, s\<lparr>dmem := ?m2\<rparr>)"
    using b assms(2) by (simp add: disk0_io_def iobuf_init_def u32_def disk0_loop.simps disk0_turn_def iobuf_move_def iobuf_skip_def Let_def)
  moreover have "?m2 (base + k) = dimage s (b * BLKSIZE + k)" if "k < BLKSIZE" for k
    using that by (simp add: memmove_moved moved_def copy_bytes_def)
  moreover have "?m2 a = dmem s a" if "a \<notin> region base BLKSIZE" "a \<notin> region (disk0_buffer s) BLKSIZE" for a
    using that by (auto simp: memmove_moved moved_def copy_bytes_def)
  ultimately show thesis using that by blast
qed

lemma disk0_write_one:
  assumes "dev_ok s" and "b < d_blocks s"
  obtains iob m where "disk0_io (iobuf_init base BLKSIZE (int (b * BLKSIZE))) True s =
      Some (0, iob, s\<lparr>dmem := m, dimage := copy_bytes (dimage s) (b * BLKSIZE) (dmem s) base BLKSIZE\<rparr>)"
    "\<And>a. a \<notin> region (disk0_buffer s) BLKSIZE \<Longrightarrow> m a = dmem s a"
proof -
  note sec = block_secs [OF assms]
  have b: "b < 2 ^ 20" using assms by (simp add: dev_ok_def)
  let ?m1 = "memmove (dmem s) (disk0_buffer s) base 4096"
  let ?i = "copy_bytes (dimage s) (b * 4096) ?m1 (disk0_buffer s) 4096"
  have "disk0_write_blks_nolock b 1 (s\<lparr>dmem := ?m1\<rparr>) = Some (s\<lparr>dmem := ?m1, dimage := ?i\<rparr>)"
    using sec by (simp add: disk0_write_blks_nolock_def ide_write_secs_def ramdisk_write_def Let_def u32_def mult.commute)
  then have "disk0_io (iobuf_init base BLKSIZE (int (b * BLKSIZE))) True s = Some (0, iobuf_init (base + 4096) 4096 (int (b * 4096) + 4096)\<lparr>io_resid := 0\<rparr>, s\<lparr>dmem := ?m1, dimage := ?i\<rparr>)"
    using b assms(2) by (simp add: disk0_io_def iobuf_init_def u32_def disk0_loop.simps disk0_turn_def iobuf_move_def iobuf_skip_def Let_def)
  moreover have "?i = copy_bytes (dimage s) (b * BLKSIZE) (dmem s) base BLKSIZE"
    by (auto simp: memmove_moved moved_def copy_bytes_def fun_eq_iff)
  moreover have "?m1 a = dmem s a" if "a \<notin> region (disk0_buffer s) BLKSIZE" for a using that by (auto simp: memmove_moved moved_def)
  ultimately show thesis using that by simp
qed

end
