(* ===== verification/Sfs.thy ===== *)
theory Sfs
  imports Bitmap Disk
begin

text \<open>
  The simple file system, \<^verbatim>\<open>kern/fs/sfs/sfs_io.c\<close> and the block and file operations of \<^verbatim>\<open>kern/fs/sfs/sfs_inode.c\<close>, on the disk of \<open>Disk\<close>.  A buffer is an address
  of the kernel's memory; the variables whose address is passed down (\<^verbatim>\<open>&ino\<close>) live at \<open>scratch\<close>, the inode on its way to the disk at
  \<open>din_at\<close>, a directory entry at \<open>entry_at\<close>.  The locks exclude other processes and are not represented.  Whether \<^verbatim>\<open>kmalloc\<close> has memory is
  an argument.  \<open>None\<close> is a panic or a failed assertion.
\<close>

abbreviation (input) SFS_BLKSIZE :: nat where "SFS_BLKSIZE \<equiv> 4096"
abbreviation (input) SFS_NDIRECT :: nat where "SFS_NDIRECT \<equiv> 12"
abbreviation (input) SFS_BLK_NENTRY :: nat where "SFS_BLK_NENTRY \<equiv> 1024"
abbreviation (input) SFS_MAX_FNAME_LEN :: nat where "SFS_MAX_FNAME_LEN \<equiv> 255"
abbreviation (input) SFS_MAX_FILE_SIZE :: nat where "SFS_MAX_FILE_SIZE \<equiv> 134217728"
abbreviation (input) SFS_BLKN_SUPER :: nat where "SFS_BLKN_SUPER \<equiv> 0"
abbreviation (input) SFS_BLKN_FREEMAP :: nat where "SFS_BLKN_FREEMAP \<equiv> 2"
abbreviation (input) SFS_MAGIC :: nat where "SFS_MAGIC \<equiv> 0x2f8dbe2a"
abbreviation (input) SFS_TYPE_FILE :: nat where "SFS_TYPE_FILE \<equiv> 1"
abbreviation (input) SFS_TYPE_DIR :: nat where "SFS_TYPE_DIR \<equiv> 2"
abbreviation (input) SFS_TYPE_LINK :: nat where "SFS_TYPE_LINK \<equiv> 3"

section \<open>Data\<close>

record sfs_fs = disk0 +
  blocks :: nat
  unused_blocks :: nat
  info :: "8 word list"
  freemap :: bitmap
  freemap_at :: nat
  super_dirty :: bool
  sfs_buffer :: nat
  scratch :: nat
  din_at :: nat
  entry_at :: nat

record sfs_disk_inode =
  fsize :: nat
  ftype :: nat
  nlinks :: nat
  nblocks :: nat
  direct :: "nat list"
  indirect :: nat

record sfs_inode =
  din :: sfs_disk_inode
  sino :: nat
  dirty :: bool
  reclaim_count :: int

text \<open>Numbers in memory, least significant byte first.\<close>

definition get_u32 :: "cmem \<Rightarrow> nat \<Rightarrow> nat" where
  "get_u32 m a = unat (m a) + 2 ^ 8 * unat (m (a + 1)) + 2 ^ 16 * unat (m (a + 2)) + 2 ^ 24 * unat (m (a + 3))"

definition put_u16 :: "cmem \<Rightarrow> nat \<Rightarrow> nat \<Rightarrow> cmem" where
  "put_u16 m a v = m(a := word_of_nat v, a + 1 := word_of_nat (v div 2 ^ 8))"

definition put_u32 :: "cmem \<Rightarrow> nat \<Rightarrow> nat \<Rightarrow> cmem" where
  "put_u32 m a v = m(a := word_of_nat v, a + 1 := word_of_nat (v div 2 ^ 8), a + 2 := word_of_nat (v div 2 ^ 16), a + 3 := word_of_nat (v div 2 ^ 24))"

fun put_bytes :: "cmem \<Rightarrow> nat \<Rightarrow> 8 word list \<Rightarrow> cmem" where
  "put_bytes m a [] = m"
| "put_bytes m a (b # bs) = put_bytes (m(a := b)) (a + 1) bs"

fun put_words :: "cmem \<Rightarrow> nat \<Rightarrow> nat list \<Rightarrow> cmem" where
  "put_words m a [] = m"
| "put_words m a (w # ws) = put_words (put_u32 m a w) (a + 4) ws"

definition put_super :: "cmem \<Rightarrow> nat \<Rightarrow> sfs_fs \<Rightarrow> cmem" where
  "put_super m a s = put_bytes (put_words m a [SFS_MAGIC, blocks s, unused_blocks s]) (a + 12) (info s)"

definition put_din :: "cmem \<Rightarrow> nat \<Rightarrow> sfs_disk_inode \<Rightarrow> cmem" where
  "put_din m a d = put_words (put_u16 (put_u16 (put_u32 m a (fsize d)) (a + 4) (ftype d)) (a + 6) (nlinks d)) (a + 8)
     (nblocks d # direct d @ [indirect d])"

section \<open>Blocks of the disk\<close>

definition sfs_rwblock_nolock :: "nat \<Rightarrow> nat \<Rightarrow> bool \<Rightarrow> bool \<Rightarrow> sfs_fs \<Rightarrow> (int \<times> sfs_fs) option" where
  "sfs_rwblock_nolock buf blkno write check s = do {
     kassert ((blkno \<noteq> 0 \<or> \<not> check) \<and> blkno < blocks s);
     (ret, _, s) \<leftarrow> disk0_io (iobuf_init buf SFS_BLKSIZE (int (u32 (blkno * SFS_BLKSIZE)))) write s;
     Some (ret, s)
   }"

fun sfs_rwblock :: "nat \<Rightarrow> nat \<Rightarrow> nat \<Rightarrow> bool \<Rightarrow> sfs_fs \<Rightarrow> (int \<times> sfs_fs) option" where
  "sfs_rwblock buf blkno 0 write s = Some (0, s)"
| "sfs_rwblock buf blkno (Suc n) write s = do {
     (ret, s) \<leftarrow> sfs_rwblock_nolock buf blkno write True s;
     (if ret \<noteq> 0 then Some (ret, s) else sfs_rwblock (buf + SFS_BLKSIZE) (u32 (blkno + 1)) n write s)
   }"

definition sfs_rblock :: "nat \<Rightarrow> nat \<Rightarrow> nat \<Rightarrow> sfs_fs \<Rightarrow> (int \<times> sfs_fs) option" where
  "sfs_rblock buf blkno n s = sfs_rwblock buf blkno n False s"

definition sfs_wblock :: "nat \<Rightarrow> nat \<Rightarrow> nat \<Rightarrow> sfs_fs \<Rightarrow> (int \<times> sfs_fs) option" where
  "sfs_wblock buf blkno n s = sfs_rwblock buf blkno n True s"

definition sfs_rbuf :: "nat \<Rightarrow> nat \<Rightarrow> nat \<Rightarrow> nat \<Rightarrow> sfs_fs \<Rightarrow> (int \<times> sfs_fs) option" where
  "sfs_rbuf buf len blkno off s = do {
     kassert (off < SFS_BLKSIZE \<and> off + len \<le> SFS_BLKSIZE);
     (ret, s) \<leftarrow> sfs_rwblock_nolock (sfs_buffer s) blkno False True s;
     Some (ret, if ret = 0 then s\<lparr>dmem := memcpy (dmem s) buf (sfs_buffer s + off) len\<rparr> else s)
   }"

definition sfs_wbuf :: "nat \<Rightarrow> nat \<Rightarrow> nat \<Rightarrow> nat \<Rightarrow> sfs_fs \<Rightarrow> (int \<times> sfs_fs) option" where
  "sfs_wbuf buf len blkno off s = do {
     kassert (off < SFS_BLKSIZE \<and> off + len \<le> SFS_BLKSIZE);
     (ret, s) \<leftarrow> sfs_rwblock_nolock (sfs_buffer s) blkno False True s;
     (if ret = 0
      then sfs_rwblock_nolock (sfs_buffer s) blkno True True (s\<lparr>dmem := memcpy (dmem s) (sfs_buffer s + off) buf len\<rparr>)
      else Some (ret, s))
   }"

definition sfs_sync_super :: "sfs_fs \<Rightarrow> (int \<times> sfs_fs) option" where
  "sfs_sync_super s =
     (let m = put_super (memset (dmem s) (sfs_buffer s) 0 SFS_BLKSIZE) (sfs_buffer s) s
      in sfs_rwblock_nolock (sfs_buffer s) SFS_BLKN_SUPER True False (s\<lparr>dmem := m\<rparr>))"

definition sfs_sync_freemap :: "sfs_fs \<Rightarrow> (int \<times> sfs_fs) option" where
  "sfs_sync_freemap s =
     (let nblks = ROUNDUP_DIV (blocks s) (SFS_BLKSIZE * 8);
          m = put_words (dmem s) (freemap_at s) (map unat (fst (bitmap_getdata (freemap s))))
      in sfs_wblock (freemap_at s) SFS_BLKN_FREEMAP nblks (s\<lparr>dmem := m\<rparr>))"

fun clear_loop :: "nat \<Rightarrow> nat \<Rightarrow> int \<Rightarrow> sfs_fs \<Rightarrow> (int \<times> sfs_fs) option" where
  "clear_loop 0 blkno ret s = Some (ret, s)"
| "clear_loop (Suc n) blkno ret s = do {
     (ret, s) \<leftarrow> sfs_rwblock_nolock (sfs_buffer s) blkno True True s;
     (if ret \<noteq> 0 then Some (ret, s) else clear_loop n (u32 (blkno + 1)) ret s)
   }"

text \<open>\<^verbatim>\<open>ret\<close> is not initialised; it is never returned unset because every caller clears one block.\<close>

definition sfs_clear_block :: "nat \<Rightarrow> nat \<Rightarrow> sfs_fs \<Rightarrow> (int \<times> sfs_fs) option" where
  "sfs_clear_block blkno n s = do {
     kassert (n \<noteq> 0);
     clear_loop n blkno 0 (s\<lparr>dmem := memset (dmem s) (sfs_buffer s) 0 SFS_BLKSIZE\<rparr>)
   }"

definition sfs_block_inuse :: "nat \<Rightarrow> sfs_fs \<Rightarrow> bool option" where
  "sfs_block_inuse ino s = do {
     kassert (ino \<noteq> 0 \<and> ino < blocks s);
     t \<leftarrow> bitmap_test (freemap s) ino;
     Some (\<not> t)
   }"

definition sfs_block_alloc :: "sfs_fs \<Rightarrow> (int \<times> nat \<times> sfs_fs) option" where
  "sfs_block_alloc s = do {
     ((ret, i), b) \<leftarrow> bitmap_alloc (freemap s);
     (case i of
        None \<Rightarrow> Some (ret, 0, s\<lparr>freemap := b\<rparr>)
      | Some ino \<Rightarrow> do {
          kassert (unused_blocks s > 0);
          let s = s\<lparr>freemap := b, unused_blocks := unused_blocks s - 1, super_dirty := True\<rparr>;
          t \<leftarrow> sfs_block_inuse ino s;
          kassert t;
          (ret, s) \<leftarrow> sfs_clear_block ino 1 s;
          Some (ret, ino, s)
        })
   }"

definition sfs_block_free :: "nat \<Rightarrow> sfs_fs \<Rightarrow> sfs_fs option" where
  "sfs_block_free ino s = do {
     t \<leftarrow> sfs_block_inuse ino s;
     kassert t;
     b \<leftarrow> bitmap_free (freemap s) ino;
     Some (s\<lparr>freemap := b, unused_blocks := u32 (unused_blocks s + 1), super_dirty := True\<rparr>)
   }"

section \<open>The blocks of a file\<close>

text \<open>The error exit of \<^verbatim>\<open>sfs_bmap_get_sub_nolock\<close>: a new entry block is given back.\<close>

definition sub_cleanup :: "int \<Rightarrow> nat \<Rightarrow> nat \<Rightarrow> sfs_fs \<Rightarrow> (int \<times> nat \<times> nat \<times> sfs_fs) option" where
  "sub_cleanup ret ent entp s = do {
     s \<leftarrow> (if ent \<noteq> entp then sfs_block_free ent s else Some s);
     Some (ret, entp, 0, s)
   }"

definition sub_alloc :: "nat \<Rightarrow> nat \<Rightarrow> nat \<Rightarrow> sfs_fs \<Rightarrow> (int \<times> nat \<times> nat \<times> sfs_fs) option" where
  "sub_alloc ent entp off s = do {
     (ret, ino, s) \<leftarrow> sfs_block_alloc s;
     (if ret \<noteq> 0 then sub_cleanup ret ent entp s
      else do {
        (ret, s) \<leftarrow> sfs_wbuf (scratch s) 4 ent off (s\<lparr>dmem := put_u32 (dmem s) (scratch s) ino\<rparr>);
        (if ret \<noteq> 0 then do { s \<leftarrow> sfs_block_free ino s; sub_cleanup ret ent entp s } else Some (0, ent, ino, s))
      })
   }"

text \<open>The results: the return value, the entry block, the block, the file system.\<close>

definition sfs_bmap_get_sub_nolock :: "nat \<Rightarrow> nat \<Rightarrow> bool \<Rightarrow> sfs_fs \<Rightarrow> (int \<times> nat \<times> nat \<times> sfs_fs) option" where
  "sfs_bmap_get_sub_nolock entp index create s = do {
     kassert (index < SFS_BLK_NENTRY);
     let off = index * 4;
     (if entp \<noteq> 0
      then do {
        (ret, s) \<leftarrow> sfs_rbuf (scratch s) 4 entp off s;
        (if ret \<noteq> 0 then Some (ret, entp, 0, s)
         else let ino = get_u32 (dmem s) (scratch s) in
           if ino \<noteq> 0 \<or> \<not> create then Some (0, entp, ino, s) else sub_alloc entp entp off s)
      }
      else if \<not> create then Some (0, entp, 0, s)
      else do {
        (ret, ent, s) \<leftarrow> sfs_block_alloc s;
        (if ret \<noteq> 0 then Some (ret, entp, 0, s) else sub_alloc ent entp off s)
      })
   }"

definition set_din :: "(sfs_disk_inode \<Rightarrow> sfs_disk_inode) \<Rightarrow> sfs_inode \<Rightarrow> sfs_inode" where
  "set_din f sin = sin\<lparr>din := f (din sin)\<rparr>"

definition bmap_out :: "nat \<Rightarrow> sfs_inode \<Rightarrow> sfs_fs \<Rightarrow> (int \<times> nat \<times> sfs_inode \<times> sfs_fs) option" where
  "bmap_out ino sin s = do {
     t \<leftarrow> (if ino = 0 then Some True else sfs_block_inuse ino s);
     kassert t;
     Some (0, ino, sin, s)
   }"

definition sfs_bmap_get_nolock :: "sfs_inode \<Rightarrow> nat \<Rightarrow> bool \<Rightarrow> sfs_fs \<Rightarrow> (int \<times> nat \<times> sfs_inode \<times> sfs_fs) option" where
  "sfs_bmap_get_nolock sin index create s =
     (if index < SFS_NDIRECT
      then (if direct (din sin) ! index = 0 \<and> create
            then do {
              (ret, ino, s) \<leftarrow> sfs_block_alloc s;
              (if ret \<noteq> 0 then Some (ret, 0, sin, s)
               else bmap_out ino ((set_din (\<lambda>d. d\<lparr>direct := (direct d)[index := ino]\<rparr>) sin)\<lparr>dirty := True\<rparr>) s)
            }
            else bmap_out (direct (din sin) ! index) sin s)
      else do {
        let index = index - SFS_NDIRECT;
        kassert (index < SFS_BLK_NENTRY);
        (ret, ent, ino, s) \<leftarrow> sfs_bmap_get_sub_nolock (indirect (din sin)) index create s;
        (if ret \<noteq> 0 then Some (ret, 0, sin, s)
         else if ent \<noteq> indirect (din sin)
         then do {
           kassert (indirect (din sin) = 0);
           bmap_out ino ((set_din (\<lambda>d. d\<lparr>indirect := ent\<rparr>) sin)\<lparr>dirty := True\<rparr>) s
         }
         else bmap_out ino sin s)
      })"

definition sfs_bmap_free_sub_nolock :: "nat \<Rightarrow> nat \<Rightarrow> sfs_fs \<Rightarrow> (int \<times> sfs_fs) option" where
  "sfs_bmap_free_sub_nolock ent index s = do {
     t \<leftarrow> sfs_block_inuse ent s;
     kassert (t \<and> index < SFS_BLK_NENTRY);
     (ret, s) \<leftarrow> sfs_rbuf (scratch s) 4 ent (index * 4) s;
     (if ret \<noteq> 0 then Some (ret, s)
      else let ino = get_u32 (dmem s) (scratch s) in
        if ino \<noteq> 0
        then do {
          (ret, s) \<leftarrow> sfs_wbuf (scratch s) 4 ent (index * 4) (s\<lparr>dmem := put_u32 (dmem s) (scratch s) 0\<rparr>);
          (if ret \<noteq> 0 then Some (ret, s) else do { s \<leftarrow> sfs_block_free ino s; Some (0, s) })
        }
        else Some (0, s))
   }"

definition sfs_bmap_free_nolock :: "sfs_inode \<Rightarrow> nat \<Rightarrow> sfs_fs \<Rightarrow> (int \<times> sfs_inode \<times> sfs_fs) option" where
  "sfs_bmap_free_nolock sin index s =
     (if index < SFS_NDIRECT
      then (if direct (din sin) ! index \<noteq> 0
            then do {
              s \<leftarrow> sfs_block_free (direct (din sin) ! index) s;
              Some (0, (set_din (\<lambda>d. d\<lparr>direct := (direct d)[index := 0]\<rparr>) sin)\<lparr>dirty := True\<rparr>, s)
            }
            else Some (0, sin, s))
      else if index - SFS_NDIRECT < SFS_BLK_NENTRY \<and> indirect (din sin) \<noteq> 0
      then do {
        (ret, s) \<leftarrow> sfs_bmap_free_sub_nolock (indirect (din sin)) (index - SFS_NDIRECT) s;
        Some (ret, sin, s)
      }
      else Some (0, sin, s))"

definition sfs_bmap_load_nolock :: "sfs_inode \<Rightarrow> nat \<Rightarrow> sfs_fs \<Rightarrow> (int \<times> nat \<times> sfs_inode \<times> sfs_fs) option" where
  "sfs_bmap_load_nolock sin index s = do {
     kassert (index \<le> nblocks (din sin));
     let create = (index = nblocks (din sin));
     (ret, ino, sin, s) \<leftarrow> sfs_bmap_get_nolock sin index create s;
     (if ret \<noteq> 0 then Some (ret, 0, sin, s)
      else do {
        t \<leftarrow> sfs_block_inuse ino s;
        kassert t;
        Some (0, ino, if create then set_din (\<lambda>d. d\<lparr>nblocks := u32 (nblocks d + 1)\<rparr>) sin else sin, s)
      })
   }"

definition sfs_bmap_truncate_nolock :: "sfs_inode \<Rightarrow> sfs_fs \<Rightarrow> (int \<times> sfs_inode \<times> sfs_fs) option" where
  "sfs_bmap_truncate_nolock sin s = do {
     kassert (nblocks (din sin) \<noteq> 0);
     (ret, sin, s) \<leftarrow> sfs_bmap_free_nolock sin (nblocks (din sin) - 1) s;
     Some (if ret \<noteq> 0 then (ret, sin, s) else (0, (set_din (\<lambda>d. d\<lparr>nblocks := nblocks d - 1\<rparr>) sin)\<lparr>dirty := True\<rparr>, s))
   }"

section \<open>Directories\<close>

text \<open>A directory entry is an inode number and a name of 256 bytes, one entry in each block.\<close>

definition sfs_dirent_read_nolock :: "sfs_inode \<Rightarrow> nat \<Rightarrow> sfs_fs \<Rightarrow> (int \<times> sfs_inode \<times> sfs_fs) option" where
  "sfs_dirent_read_nolock sin slot s = do {
     kassert (ftype (din sin) = SFS_TYPE_DIR \<and> slot < nblocks (din sin));
     (ret, ino, sin, s) \<leftarrow> sfs_bmap_load_nolock sin slot s;
     (if ret \<noteq> 0 then Some (ret, sin, s)
      else do {
        t \<leftarrow> sfs_block_inuse ino s;
        kassert t;
        (ret, s) \<leftarrow> sfs_rbuf (entry_at s) 260 ino 0 s;
        Some (ret, sin, if ret \<noteq> 0 then s else s\<lparr>dmem := (dmem s)(entry_at s + 4 + SFS_MAX_FNAME_LEN := 0)\<rparr>)
      })
   }"

text \<open>The loop of \<^verbatim>\<open>sfs_dirent_search_nolock\<close> over the slots; the results are the return value, the inode number, the slot and the empty
  slot.\<close>

fun dirent_search_loop :: "nat list \<Rightarrow> nat \<Rightarrow> nat \<Rightarrow> sfs_inode \<Rightarrow> sfs_fs \<Rightarrow> (int \<times> nat \<times> nat \<times> nat \<times> sfs_inode \<times> sfs_fs) option" where
  "dirent_search_loop [] name vacant sin s = Some (- E_NOENT, 0, 0, vacant, sin, s)"
| "dirent_search_loop (i # is) name vacant sin s = do {
     (ret, sin, s) \<leftarrow> sfs_dirent_read_nolock sin i s;
     (if ret \<noteq> 0 then Some (ret, 0, 0, vacant, sin, s)
      else let ino = get_u32 (dmem s) (entry_at s) in
        if ino = 0 then dirent_search_loop is name i sin s
        else do {
          c \<leftarrow> strcmp (dmem s) name (entry_at s + 4);
          (if c = 0 then Some (0, ino, i, vacant, sin, s) else dirent_search_loop is name vacant sin s)
        })
   }"

definition sfs_dirent_search_nolock :: "bool \<Rightarrow> nat \<Rightarrow> sfs_inode \<Rightarrow> sfs_fs \<Rightarrow> (int \<times> nat \<times> nat \<times> nat \<times> sfs_inode \<times> sfs_fs) option" where
  "sfs_dirent_search_nolock got name sin s = do {
     n \<leftarrow> strlen (dmem s) name;
     kassert (n \<le> SFS_MAX_FNAME_LEN);
     (if \<not> got then Some (- E_NO_MEM, 0, 0, 0, sin, s)
      else dirent_search_loop [0..<nblocks (din sin)] name (nblocks (din sin)) sin s)
   }"

fun findino_loop :: "nat list \<Rightarrow> nat \<Rightarrow> sfs_inode \<Rightarrow> sfs_fs \<Rightarrow> (int \<times> sfs_inode \<times> sfs_fs) option" where
  "findino_loop [] ino sin s = Some (- E_NOENT, sin, s)"
| "findino_loop (i # is) ino sin s = do {
     (ret, sin, s) \<leftarrow> sfs_dirent_read_nolock sin i s;
     (if ret \<noteq> 0 then Some (ret, sin, s)
      else if get_u32 (dmem s) (entry_at s) = ino then Some (0, sin, s) else findino_loop is ino sin s)
   }"

definition sfs_dirent_findino_nolock :: "nat \<Rightarrow> sfs_inode \<Rightarrow> sfs_fs \<Rightarrow> (int \<times> sfs_inode \<times> sfs_fs) option" where
  "sfs_dirent_findino_nolock ino sin s = findino_loop [0..<nblocks (din sin)] ino sin s"

fun getdirentry_loop :: "nat list \<Rightarrow> nat \<Rightarrow> sfs_inode \<Rightarrow> sfs_fs \<Rightarrow> (int \<times> sfs_inode \<times> sfs_fs) option" where
  "getdirentry_loop [] slot sin s = Some (- E_NOENT, sin, s)"
| "getdirentry_loop (i # is) slot sin s = do {
     (ret, sin, s) \<leftarrow> sfs_dirent_read_nolock sin i s;
     (if ret \<noteq> 0 then Some (ret, sin, s)
      else if get_u32 (dmem s) (entry_at s) \<noteq> 0
      then (if slot = 0 then Some (0, sin, s) else getdirentry_loop is (slot - 1) sin s)
      else getdirentry_loop is slot sin s)
   }"

definition sfs_getdirentry_sub_nolock :: "nat \<Rightarrow> sfs_inode \<Rightarrow> sfs_fs \<Rightarrow> (int \<times> sfs_inode \<times> sfs_fs) option" where
  "sfs_getdirentry_sub_nolock slot sin s = getdirentry_loop [0..<nblocks (din sin)] slot sin s"

definition sfs_getdirentry :: "bool \<Rightarrow> iobuf \<Rightarrow> sfs_inode \<Rightarrow> sfs_fs \<Rightarrow> (int \<times> iobuf \<times> sfs_inode \<times> sfs_fs) option" where
  "sfs_getdirentry got iob sin s =
     (if \<not> got then Some (- E_NO_MEM, iob, sin, s)
      else if io_offset iob < 0 \<or> io_offset iob mod 256 \<noteq> 0 then Some (- E_INVAL, iob, sin, s)
      else let slot = u32 (nat (io_offset iob div 256)) in
        if slot > nblocks (din sin) then Some (- E_NOENT, iob, sin, s)
        else do {
          (ret, sin, s) \<leftarrow> sfs_getdirentry_sub_nolock slot sin s;
          (if ret \<noteq> 0 then Some (ret, iob, sin, s)
           else do {
             (ret, _, iob, m) \<leftarrow> iobuf_move iob (entry_at s + 4) 256 True (dmem s);
             Some (ret, iob, sin, s\<lparr>dmem := m\<rparr>)
           })
        })"

section \<open>Reading and writing files\<close>

text \<open>The value of a signed 64-bit variable (\<^verbatim>\<open>off_t\<close>) a sum is stored in.\<close>

definition s64 :: "int \<Rightarrow> int" where
  "s64 x = (x + 2 ^ 63) mod 2 ^ 64 - 2 ^ 63"

lemma s64_id: "- (2 ^ 63) \<le> x \<Longrightarrow> x < 2 ^ 63 \<Longrightarrow> s64 x = x"
  by (simp add: s64_def)

definition sfs_opendir :: "32 word \<Rightarrow> int" where
  "sfs_opendir fl = (if fl AND O_ACCMODE \<noteq> O_RDONLY then - E_ISDIR else if fl AND O_APPEND \<noteq> 0 then - E_ISDIR else 0)"

definition sfs_openfile :: "32 word \<Rightarrow> int" where
  "sfs_openfile fl = 0"

text \<open>A part of a block, or a whole one, is moved: the block is looked up and transferred.  The operations \<^verbatim>\<open>sfs_buf_op\<close> and \<^verbatim>\<open>sfs_block_op\<close>.\<close>

definition io_part :: "bool \<Rightarrow> nat \<Rightarrow> nat \<Rightarrow> nat \<Rightarrow> nat \<Rightarrow> sfs_inode \<Rightarrow> sfs_fs \<Rightarrow> (int \<times> sfs_inode \<times> sfs_fs) option" where
  "io_part write buf len blkno off sin s = do {
     (ret, ino, sin, s) \<leftarrow> sfs_bmap_load_nolock sin blkno s;
     (if ret \<noteq> 0 then Some (ret, sin, s)
      else do { (ret, s) \<leftarrow> (if write then sfs_wbuf else sfs_rbuf) buf len ino off s; Some (ret, sin, s) })
   }"

definition io_block :: "bool \<Rightarrow> nat \<Rightarrow> nat \<Rightarrow> sfs_inode \<Rightarrow> sfs_fs \<Rightarrow> (int \<times> sfs_inode \<times> sfs_fs) option" where
  "io_block write buf blkno sin s = do {
     (ret, ino, sin, s) \<leftarrow> sfs_bmap_load_nolock sin blkno s;
     (if ret \<noteq> 0 then Some (ret, sin, s)
      else do { (ret, s) \<leftarrow> (if write then sfs_wblock else sfs_rblock) buf ino 1 s; Some (ret, sin, s) })
   }"

text \<open>The loop over the whole blocks: return value, bytes so far, next buffer address and block.\<close>

fun io_blocks :: "bool \<Rightarrow> nat \<Rightarrow> nat \<Rightarrow> nat \<Rightarrow> nat \<Rightarrow> sfs_inode \<Rightarrow> sfs_fs \<Rightarrow> (int \<times> nat \<times> nat \<times> nat \<times> sfs_inode \<times> sfs_fs) option" where
  "io_blocks write 0 alen buf blkno sin s = Some (0, alen, buf, blkno, sin, s)"
| "io_blocks write (Suc n) alen buf blkno sin s = do {
     (ret, sin, s) \<leftarrow> io_block write buf blkno sin s;
     (if ret \<noteq> 0 then Some (ret, alen, buf, blkno, sin, s)
      else io_blocks write n (alen + SFS_BLKSIZE) (buf + SFS_BLKSIZE) (blkno + 1) sin s)
   }"

text \<open>The second and the third part: the whole blocks and the rest of the last one.\<close>

definition io_tail :: "bool \<Rightarrow> nat \<Rightarrow> nat \<Rightarrow> nat \<Rightarrow> nat \<Rightarrow> nat \<Rightarrow> sfs_inode \<Rightarrow> sfs_fs \<Rightarrow> (int \<times> nat \<times> sfs_inode \<times> sfs_fs) option" where
  "io_tail write nblks alen buf blkno endpos sin s = do {
     (ret, alen, buf, blkno, sin, s) \<leftarrow> io_blocks write nblks alen buf blkno sin s;
     (if ret \<noteq> 0 \<or> endpos mod SFS_BLKSIZE = 0 then Some (ret, alen, sin, s)
      else do {
        (ret, sin, s) \<leftarrow> io_part write buf (endpos mod SFS_BLKSIZE) blkno 0 sin s;
        Some (ret, if ret \<noteq> 0 then alen else alen + endpos mod SFS_BLKSIZE, sin, s)
      })
   }"

text \<open>All three parts, for positions within a file.\<close>

definition io_range :: "bool \<Rightarrow> nat \<Rightarrow> nat \<Rightarrow> nat \<Rightarrow> sfs_inode \<Rightarrow> sfs_fs \<Rightarrow> (int \<times> nat \<times> sfs_inode \<times> sfs_fs) option" where
  "io_range write buf offset endpos sin s =
     (let blkno = offset div SFS_BLKSIZE; nblks = endpos div SFS_BLKSIZE - blkno; blkoff = offset mod SFS_BLKSIZE in
      if blkoff \<noteq> 0
      then do {
        let len = (if nblks \<noteq> 0 then SFS_BLKSIZE - blkoff else endpos - offset);
        (ret, sin, s) \<leftarrow> io_part write buf len blkno blkoff sin s;
        (if ret \<noteq> 0 then Some (ret, 0, sin, s)
         else if nblks = 0 then Some (ret, len, sin, s)
         else io_tail write (nblks - 1) len (buf + len) (blkno + 1) endpos sin s)
      }
      else io_tail write nblks 0 buf blkno endpos sin s)"

definition sfs_io_nolock :: "bool \<Rightarrow> nat \<Rightarrow> int \<Rightarrow> nat \<Rightarrow> sfs_inode \<Rightarrow> sfs_fs \<Rightarrow> (int \<times> nat \<times> sfs_inode \<times> sfs_fs) option" where
  "sfs_io_nolock write buf offset alen sin s = do {
     kassert (ftype (din sin) \<noteq> SFS_TYPE_DIR);
     let endpos = s64 (offset + int alen);
     (if offset < 0 \<or> offset \<ge> int SFS_MAX_FILE_SIZE \<or> offset > endpos then Some (- E_INVAL, 0, sin, s)
      else if offset = endpos then Some (0, 0, sin, s)
      else let endpos = min endpos (int SFS_MAX_FILE_SIZE) in
        if \<not> write \<and> offset \<ge> int (fsize (din sin)) then Some (0, 0, sin, s)
        else do {
          let endpos = (if write then endpos else min endpos (int (fsize (din sin))));
          (ret, alen, sin, s) \<leftarrow> io_range write buf (nat offset) (nat endpos) sin s;
          Some (ret, alen,
            if write \<and> nat offset + alen > fsize (din sin)
            then (set_din (\<lambda>d. d\<lparr>fsize := u32 (nat offset + alen)\<rparr>) sin)\<lparr>dirty := True\<rparr> else sin, s)
        })
   }"

definition sfs_io :: "bool \<Rightarrow> iobuf \<Rightarrow> sfs_inode \<Rightarrow> sfs_fs \<Rightarrow> (int \<times> iobuf \<times> sfs_inode \<times> sfs_fs) option" where
  "sfs_io write iob sin s = do {
     (ret, alen, sin, s) \<leftarrow> sfs_io_nolock write (io_base iob) (io_offset iob) (io_resid iob) sin s;
     iob \<leftarrow> (if alen \<noteq> 0 then iobuf_skip alen iob else Some iob);
     Some (ret, iob, sin, s)
   }"

definition sfs_read :: "iobuf \<Rightarrow> sfs_inode \<Rightarrow> sfs_fs \<Rightarrow> (int \<times> iobuf \<times> sfs_inode \<times> sfs_fs) option" where
  "sfs_read iob sin s = sfs_io False iob sin s"

definition sfs_write :: "iobuf \<Rightarrow> sfs_inode \<Rightarrow> sfs_fs \<Rightarrow> (int \<times> iobuf \<times> sfs_inode \<times> sfs_fs) option" where
  "sfs_write iob sin s = sfs_io True iob sin s"

definition sfs_gettype :: "sfs_inode \<Rightarrow> (int \<times> 32 word) option" where
  "sfs_gettype sin =
     (if ftype (din sin) = SFS_TYPE_DIR then Some (0, S_IFDIR)
      else if ftype (din sin) = SFS_TYPE_FILE then Some (0, 0x1000)
      else if ftype (din sin) = SFS_TYPE_LINK then Some (0, 0x3000) else None)"

definition sfs_fstat :: "sfs_inode \<Rightarrow> (int \<times> stat) option" where
  "sfs_fstat sin = do {
     (ret, mode) \<leftarrow> sfs_gettype sin;
     Some (ret, \<lparr>st_mode = mode, st_nlinks = nlinks (din sin), st_blocks = nblocks (din sin), st_size = fsize (din sin)\<rparr>)
   }"

definition sfs_fsync :: "sfs_inode \<Rightarrow> sfs_fs \<Rightarrow> (int \<times> sfs_inode \<times> sfs_fs) option" where
  "sfs_fsync sin s =
     (if dirty sin
      then do {
        (ret, s) \<leftarrow> sfs_wbuf (din_at s) 64 (sino sin) 0 (s\<lparr>dmem := put_din (dmem s) (din_at s) (din sin)\<rparr>);
        Some (ret, sin\<lparr>dirty := (ret \<noteq> 0)\<rparr>, s)
      }
      else Some (0, sin, s))"

fun grow_loop :: "nat list \<Rightarrow> sfs_inode \<Rightarrow> sfs_fs \<Rightarrow> (int \<times> sfs_inode \<times> sfs_fs) option" where
  "grow_loop [] sin s = Some (0, sin, s)"
| "grow_loop (i # is) sin s = do {
     (ret, _, sin, s) \<leftarrow> sfs_bmap_load_nolock sin i s;
     (if ret \<noteq> 0 then Some (ret, sin, s) else grow_loop is sin s)
   }"

fun shrink_loop :: "nat \<Rightarrow> sfs_inode \<Rightarrow> sfs_fs \<Rightarrow> (int \<times> sfs_inode \<times> sfs_fs) option" where
  "shrink_loop 0 sin s = Some (0, sin, s)"
| "shrink_loop (Suc n) sin s = do {
     (ret, sin, s) \<leftarrow> sfs_bmap_truncate_nolock sin s;
     (if ret \<noteq> 0 then Some (ret, sin, s) else shrink_loop n sin s)
   }"

definition sfs_truncfile :: "int \<Rightarrow> sfs_inode \<Rightarrow> sfs_fs \<Rightarrow> (int \<times> sfs_inode \<times> sfs_fs) option" where
  "sfs_truncfile len sin s =
     (if len < 0 \<or> len > int SFS_MAX_FILE_SIZE then Some (- E_INVAL, sin, s)
      else let tblks = ROUNDUP_DIV (nat len) SFS_BLKSIZE; nblks = nblocks (din sin) in
        if fsize (din sin) = nat len then do { kassert (tblks = nblks); Some (0, sin, s) }
        else do {
          (ret, sin, s) \<leftarrow> (if nblks < tblks then grow_loop [nblks..<tblks] sin s else shrink_loop (nblks - tblks) sin s);
          (if ret \<noteq> 0 then Some (ret, sin, s)
           else do {
             kassert (nblocks (din sin) = tblks);
             Some (0, (set_din (\<lambda>d. d\<lparr>fsize := nat len\<rparr>) sin)\<lparr>dirty := True\<rparr>, s)
           })
        })"

definition sfs_tryseek :: "int \<Rightarrow> sfs_inode \<Rightarrow> sfs_fs \<Rightarrow> (int \<times> sfs_inode \<times> sfs_fs) option" where
  "sfs_tryseek p sin s =
     (if p < 0 \<or> p \<ge> int SFS_MAX_FILE_SIZE then Some (- E_INVAL, sin, s)
      else if nat p > fsize (din sin) then sfs_truncfile p sin s else Some (0, sin, s))"

end
