(* ===== verification/SfsIo.thy ===== *)
theory SfsIo
  imports Sfs
begin

text \<open>
  Reading and writing a file of the simple file system against its contents, a sequence of bytes: what \<^verbatim>\<open>sfs_io_nolock\<close> moves between the
  buffer and the blocks is exactly the range of the file it is asked for.  The loop over a first part, whole blocks and a last part is
  verified once, in the locale \<open>block_io\<close>, for both directions.
\<close>

section \<open>The contents of a file\<close>

definition in_use :: "sfs_fs \<Rightarrow> nat \<Rightarrow> bool" where
  "in_use s b \<longleftrightarrow> sfs_block_inuse b s = Some True"

definition block_of :: "sfs_inode \<Rightarrow> sfs_fs \<Rightarrow> nat \<Rightarrow> nat" where
  "block_of sin s i =
     (if i < SFS_NDIRECT then direct (din sin) ! i
      else get_u32 (dimage s) (indirect (din sin) * SFS_BLKSIZE + (i - SFS_NDIRECT) * 4))"

definition file_byte :: "sfs_inode \<Rightarrow> sfs_fs \<Rightarrow> nat \<Rightarrow> 8 word" where
  "file_byte sin s q = dimage s (block_of sin s (q div SFS_BLKSIZE) * SFS_BLKSIZE + q mod SFS_BLKSIZE)"

text \<open>The memory the file system itself works in.\<close>

definition own :: "sfs_fs \<Rightarrow> nat set" where
  "own s = region (disk0_buffer s) DISK0_BUFSIZE \<union> region (sfs_buffer s) SFS_BLKSIZE \<union> region (scratch s) 4"

definition fs_ok :: "sfs_fs \<Rightarrow> bool" where
  "fs_ok s \<longleftrightarrow> dev_ok s \<and> blocks s \<le> d_blocks s \<and> region (scratch s) 4 \<inter> region (sfs_buffer s) SFS_BLKSIZE = {}"

definition file_ok :: "sfs_inode \<Rightarrow> sfs_fs \<Rightarrow> bool" where
  "file_ok sin s \<longleftrightarrow> length (direct (din sin)) = SFS_NDIRECT \<and> nblocks (din sin) \<le> SFS_NDIRECT + SFS_BLK_NENTRY \<and>
     (\<forall>i<nblocks (din sin). in_use s (block_of sin s i)) \<and> inj_on (block_of sin s) {..<nblocks (din sin)} \<and>
     (nblocks (din sin) > SFS_NDIRECT \<longrightarrow> in_use s (indirect (din sin)) \<and> (\<forall>i<nblocks (din sin). block_of sin s i \<noteq> indirect (din sin)))"

lemma own_upd [simp]: "own (s\<lparr>dmem := m\<rparr>) = own s" "own (s\<lparr>dimage := i\<rparr>) = own s"
  by (simp_all add: own_def)

lemma in_use_upd [simp]: "in_use (s\<lparr>dmem := m\<rparr>) b = in_use s b" "in_use (s\<lparr>dimage := i\<rparr>) b = in_use s b"
  by (simp_all add: in_use_def sfs_block_inuse_def)

lemma in_use_range: "in_use s b \<Longrightarrow> b \<noteq> 0 \<and> b < blocks s"
  by (simp add: in_use_def sfs_block_inuse_def split: if_splits)

lemma fs_ok_upd [simp]: "fs_ok (s\<lparr>dmem := m\<rparr>) = fs_ok s" "fs_ok (s\<lparr>dimage := i\<rparr>) = fs_ok s"
  by (simp_all add: fs_ok_def dev_ok_def)

lemma block_of_mem [simp]: "block_of sin (s\<lparr>dmem := m\<rparr>) = block_of sin s"
  by (simp add: block_of_def fun_eq_iff)

lemma file_byte_mem [simp]: "file_byte sin (s\<lparr>dmem := m\<rparr>) = file_byte sin s"
  by (simp add: file_byte_def fun_eq_iff)

lemma file_ok_mem [simp]: "file_ok sin (s\<lparr>dmem := m\<rparr>) = file_ok sin s"
  by (simp add: file_ok_def)

section \<open>One block\<close>

lemma block_offset: "fs_ok s \<Longrightarrow> b < blocks s \<Longrightarrow> b < d_blocks s \<and> dev_ok s \<and> u32 (b * SFS_BLKSIZE) = b * SFS_BLKSIZE"
  by (auto simp: fs_ok_def dev_ok_def u32_def)

lemma rwblock_read:
  assumes "fs_ok s" "b \<noteq> 0" "b < blocks s"
  obtains m where "sfs_rwblock_nolock buf b False True s = Some (0, s\<lparr>dmem := m\<rparr>)"
    "\<And>k. k < SFS_BLKSIZE \<Longrightarrow> m (buf + k) = dimage s (b * SFS_BLKSIZE + k)"
    "\<And>a. a \<notin> region buf SFS_BLKSIZE \<Longrightarrow> a \<notin> region (disk0_buffer s) DISK0_BUFSIZE \<Longrightarrow> m a = dmem s a"
proof -
  from block_offset [OF assms(1,3)] have b: "dev_ok s" "b < d_blocks s" "u32 (b * SFS_BLKSIZE) = b * SFS_BLKSIZE" by simp_all
  show thesis
  proof (rule disk0_read_one [OF b(1,2), of buf])
    fix iob m assume m: "disk0_io (iobuf_init buf BLKSIZE (int (b * BLKSIZE))) False s = Some (0, iob, s\<lparr>dmem := m\<rparr>)"
      "\<And>k. k < BLKSIZE \<Longrightarrow> m (buf + k) = dimage s (b * BLKSIZE + k)"
      "\<And>a. a \<notin> region buf BLKSIZE \<Longrightarrow> a \<notin> region (disk0_buffer s) BLKSIZE \<Longrightarrow> m a = dmem s a"
    have "sfs_rwblock_nolock buf b False True s = Some (0, s\<lparr>dmem := m\<rparr>)"
      using m(1) assms(2,3) b(3) by (simp add: sfs_rwblock_nolock_def)
    moreover have "m a = dmem s a" if "a \<notin> region buf SFS_BLKSIZE" "a \<notin> region (disk0_buffer s) DISK0_BUFSIZE" for a
      by (rule m(3)) (use that in auto)
    ultimately show thesis using that [of m] m(2) by blast
  qed
qed

lemma rwblock_write:
  assumes "fs_ok s" "b \<noteq> 0" "b < blocks s"
  obtains m where "sfs_rwblock_nolock buf b True True s =
      Some (0, s\<lparr>dmem := m, dimage := copy_bytes (dimage s) (b * SFS_BLKSIZE) (dmem s) buf SFS_BLKSIZE\<rparr>)"
    "\<And>a. a \<notin> region (disk0_buffer s) DISK0_BUFSIZE \<Longrightarrow> m a = dmem s a"
proof -
  from block_offset [OF assms(1,3)] have b: "dev_ok s" "b < d_blocks s" "u32 (b * SFS_BLKSIZE) = b * SFS_BLKSIZE" by simp_all
  show thesis
  proof (rule disk0_write_one [OF b(1,2), of buf])
    fix iob m assume m: "disk0_io (iobuf_init buf BLKSIZE (int (b * BLKSIZE))) True s =
        Some (0, iob, s\<lparr>dmem := m, dimage := copy_bytes (dimage s) (b * BLKSIZE) (dmem s) buf BLKSIZE\<rparr>)"
      "\<And>a. a \<notin> region (disk0_buffer s) BLKSIZE \<Longrightarrow> m a = dmem s a"
    have "sfs_rwblock_nolock buf b True True s =
        Some (0, s\<lparr>dmem := m, dimage := copy_bytes (dimage s) (b * SFS_BLKSIZE) (dmem s) buf SFS_BLKSIZE\<rparr>)"
      using m(1) assms(2,3) b(3) by (simp add: sfs_rwblock_nolock_def)
    moreover have "m a = dmem s a" if "a \<notin> region (disk0_buffer s) DISK0_BUFSIZE" for a
      by (rule m(2)) (use that in auto)
    ultimately show thesis using that [of m] by blast
  qed
qed

lemma rbuf_ok:
  assumes "fs_ok s" "b \<noteq> 0" "b < blocks s" and off: "off < SFS_BLKSIZE" "off + len \<le> SFS_BLKSIZE"
    and buf: "region buf len \<inter> region (sfs_buffer s) SFS_BLKSIZE = {}"
  obtains m where "sfs_rbuf buf len b off s = Some (0, s\<lparr>dmem := m\<rparr>)"
    "\<And>k. k < len \<Longrightarrow> m (buf + k) = dimage s (b * SFS_BLKSIZE + off + k)"
    "\<And>a. a \<notin> region buf len \<Longrightarrow> a \<notin> own s \<Longrightarrow> m a = dmem s a"
proof (rule rwblock_read [OF assms(1-3), of "sfs_buffer s"])
  fix m assume m: "sfs_rwblock_nolock (sfs_buffer s) b False True s = Some (0, s\<lparr>dmem := m\<rparr>)"
    "\<And>k. k < SFS_BLKSIZE \<Longrightarrow> m (sfs_buffer s + k) = dimage s (b * SFS_BLKSIZE + k)"
    "\<And>a. a \<notin> region (sfs_buffer s) SFS_BLKSIZE \<Longrightarrow> a \<notin> region (disk0_buffer s) DISK0_BUFSIZE \<Longrightarrow> m a = dmem s a"
  have "buf \<le> sfs_buffer s + off \<or> sfs_buffer s + off + len \<le> buf"
  proof (cases "len = 0")
    case False
    have "buf \<notin> region (sfs_buffer s) SFS_BLKSIZE" "sfs_buffer s + off \<notin> region buf len" using buf False off by (auto simp: region_def)
    then show ?thesis using off by auto
  qed auto
  then have cp: "memcpy m buf (sfs_buffer s + off) len = moved m buf (sfs_buffer s + off) len" by (rule memcpy_eq)
  let ?m = "memcpy m buf (sfs_buffer s + off) len"
  show thesis
  proof (rule that [of ?m])
    show "sfs_rbuf buf len b off s = Some (0, s\<lparr>dmem := ?m\<rparr>)" using off m(1) by (simp add: sfs_rbuf_def)
    show "?m (buf + k) = dimage s (b * SFS_BLKSIZE + off + k)" if "k < len" for k
      using that off m(2) [of "off + k"] unfolding cp by (simp add: moved_def add.assoc)
    show "?m a = dmem s a" if "a \<notin> region buf len" "a \<notin> own s" for a
      using that m(3) [of a] unfolding cp by (auto simp: moved_def own_def)
  qed
qed

lemma wbuf_ok:
  assumes "fs_ok s" "b \<noteq> 0" "b < blocks s" and off: "off < SFS_BLKSIZE" "off + len \<le> SFS_BLKSIZE"
    and buf: "region buf len \<inter> own s = {}"
  obtains m where "sfs_wbuf buf len b off s = Some (0, s\<lparr>dmem := m, dimage := copy_bytes (dimage s) (b * SFS_BLKSIZE + off) (dmem s) buf len\<rparr>)"
    "\<And>a. a \<notin> own s \<Longrightarrow> m a = dmem s a"
proof (rule rwblock_read [OF assms(1-3), of "sfs_buffer s"])
  let ?B = "sfs_buffer s"
  fix m assume m: "sfs_rwblock_nolock ?B b False True s = Some (0, s\<lparr>dmem := m\<rparr>)"
    "\<And>k. k < SFS_BLKSIZE \<Longrightarrow> m (?B + k) = dimage s (b * SFS_BLKSIZE + k)"
    "\<And>a. a \<notin> region ?B SFS_BLKSIZE \<Longrightarrow> a \<notin> region (disk0_buffer s) DISK0_BUFSIZE \<Longrightarrow> m a = dmem s a"
  have out: "x \<notin> own s" if "x \<in> region buf len" for x using buf that by blast
  have "?B + off \<le> buf \<or> buf + len \<le> ?B + off"
  proof (cases "len = 0")
    case False
    have "buf \<notin> region ?B SFS_BLKSIZE" using out [of buf] False by (simp add: own_def region_def)
    moreover have "?B + off \<notin> region buf len" using out [of "?B + off"] off by (auto simp: own_def)
    ultimately show ?thesis using off by auto
  qed auto
  then have cp: "memcpy m (?B + off) buf len = moved m (?B + off) buf len" by (rule memcpy_eq)
  let ?m = "memcpy m (?B + off) buf len"
  have ok: "fs_ok (s\<lparr>dmem := ?m\<rparr>)" "b < blocks (s\<lparr>dmem := ?m\<rparr>)" using assms by simp_all
  show thesis
  proof (rule rwblock_write [OF ok(1) assms(2) ok(2), of ?B])
    fix m2 assume m2: "sfs_rwblock_nolock ?B b True True (s\<lparr>dmem := ?m\<rparr>) =
        Some (0, s\<lparr>dmem := ?m, dmem := m2, dimage := copy_bytes (dimage (s\<lparr>dmem := ?m\<rparr>)) (b * SFS_BLKSIZE) (dmem (s\<lparr>dmem := ?m\<rparr>)) ?B SFS_BLKSIZE\<rparr>)"
      "\<And>a. a \<notin> region (disk0_buffer (s\<lparr>dmem := ?m\<rparr>)) DISK0_BUFSIZE \<Longrightarrow> m2 a = dmem (s\<lparr>dmem := ?m\<rparr>) a"
    have img: "copy_bytes (dimage s) (b * SFS_BLKSIZE) ?m ?B SFS_BLKSIZE = copy_bytes (dimage s) (b * SFS_BLKSIZE + off) (dmem s) buf len"
    proof
      fix a
      consider "a < b * SFS_BLKSIZE \<or> b * SFS_BLKSIZE + SFS_BLKSIZE \<le> a"
        | k where "a = b * SFS_BLKSIZE + k" "k < SFS_BLKSIZE" "k < off \<or> off + len \<le> k"
        | k where "a = b * SFS_BLKSIZE + (off + k)" "k < len"
        by (metis add.assoc add_less_cancel_left le_add_diff_inverse not_less)
      then show "copy_bytes (dimage s) (b * SFS_BLKSIZE) ?m ?B SFS_BLKSIZE a = copy_bytes (dimage s) (b * SFS_BLKSIZE + off) (dmem s) buf len a"
      proof cases
        case 1
        then show ?thesis using off by (auto simp: copy_bytes_def)
      next
        case (2 k)
        then show ?thesis using m(2) [of k] unfolding cp by (auto simp: copy_bytes_def moved_def)
      next
        case (3 k)
        have "m (buf + k) = dmem s (buf + k)" using m(3) [of "buf + k"] out [of "buf + k"] 3 by (simp add: own_def)
        then show ?thesis using 3 off unfolding cp by (simp add: copy_bytes_def moved_def)
      qed
    qed
    show thesis
    proof (rule that [of m2])
      show "sfs_wbuf buf len b off s = Some (0, s\<lparr>dmem := m2, dimage := copy_bytes (dimage s) (b * SFS_BLKSIZE + off) (dmem s) buf len\<rparr>)"
        using off m(1) m2(1) img by (simp add: sfs_wbuf_def)
      show "m2 a = dmem s a" if "a \<notin> own s" for a
        using that m2(2) [of a] m(3) [of a] off unfolding cp by (auto simp: moved_def own_def)
    qed
  qed
qed

section \<open>Looking up a block\<close>

lemma get_u32_copy:
  assumes "\<And>k. k < 4 \<Longrightarrow> m (a + k) = m' (a' + k)"
  shows "get_u32 m a = get_u32 m' a'"
  using assms [of 0] assms [of 1] assms [of 2] assms [of 3] by (simp add: get_u32_def)

text \<open>A block the file has is found without changing anything but the buffers.\<close>

lemma bmap_load_ok:
  assumes fs: "fs_ok s" and f: "file_ok sin s" and i: "index < nblocks (din sin)"
  obtains m where "sfs_bmap_load_nolock sin index s = Some (0, block_of sin s index, sin, s\<lparr>dmem := m\<rparr>)"
    "\<And>a. a \<notin> own s \<Longrightarrow> m a = dmem s a"
proof -
  let ?b = "block_of sin s index"
  have use: "in_use s ?b" using f i by (simp add: file_ok_def)
  then have "in_use (s\<lparr>dmem := m\<rparr>) ?b" for m by simp
  then have inuse: "sfs_block_inuse ?b (s\<lparr>dmem := m\<rparr>) = Some True" for m by (simp only: in_use_def)
  have nz: "?b \<noteq> 0" using in_use_range [OF use] by simp
  show thesis
  proof (cases "index < SFS_NDIRECT")
    case True
    then have "sfs_bmap_load_nolock sin index s = Some (0, ?b, sin, s\<lparr>dmem := dmem s\<rparr>)"
      using i nz inuse [of "dmem s"] by (simp add: sfs_bmap_load_nolock_def sfs_bmap_get_nolock_def bmap_out_def block_of_def)
    then show thesis using that by blast
  next
    case False
    let ?e = "indirect (din sin)" and ?j = "index - SFS_NDIRECT"
    have e: "in_use s ?e" "?j < SFS_BLK_NENTRY" using f i False by (auto simp: file_ok_def)
    from in_use_range [OF e(1)] have er: "?e \<noteq> 0" "?e < blocks s" by simp_all
    have off: "?j * 4 < SFS_BLKSIZE" "?j * 4 + 4 \<le> SFS_BLKSIZE" using e(2) by simp_all
    have sc: "region (scratch s) 4 \<inter> region (sfs_buffer s) SFS_BLKSIZE = {}" using fs by (simp add: fs_ok_def)
    show thesis
    proof (rule rbuf_ok [OF fs er off sc])
      fix m assume m: "sfs_rbuf (scratch s) 4 ?e (?j * 4) s = Some (0, s\<lparr>dmem := m\<rparr>)"
        "\<And>k. k < 4 \<Longrightarrow> m (scratch s + k) = dimage s (?e * SFS_BLKSIZE + ?j * 4 + k)"
        "\<And>a. a \<notin> region (scratch s) 4 \<Longrightarrow> a \<notin> own s \<Longrightarrow> m a = dmem s a"
      have "get_u32 m (scratch s) = get_u32 (dimage s) (?e * SFS_BLKSIZE + ?j * 4)" by (rule get_u32_copy) (use m(2) in simp)
      then have g: "get_u32 m (scratch s) = ?b" using False by (simp add: block_of_def)
      have "sfs_bmap_load_nolock sin index s = Some (0, ?b, sin, s\<lparr>dmem := m\<rparr>)"
        using i False e(2) er(1) m(1) g nz inuse [of m]
        by (simp add: sfs_bmap_load_nolock_def sfs_bmap_get_nolock_def sfs_bmap_get_sub_nolock_def bmap_out_def)
      moreover have "m a = dmem s a" if "a \<notin> own s" for a using that m(3) [of a] by (simp add: own_def)
      ultimately show thesis using that by blast
    qed
  qed
qed

section \<open>The parts of a transfer\<close>

text \<open>
  \<open>xfer buf q n s s'\<close> says that \<open>n\<close> bytes have gone between the buffer and the file from position \<open>q\<close> on, in the direction
  of the transfer; \<open>fine\<close> is the invariant, and \<open>busy\<close> the memory the buffer must avoid.
\<close>

lemma within_block: "k * SFS_BLKSIZE + x = (a :: nat) \<Longrightarrow> a < e \<Longrightarrow> e < (k + 1) * SFS_BLKSIZE \<Longrightarrow> x + (e - a) \<le> SFS_BLKSIZE"
  by simp

lemma region_split: "region a (m + n) \<inter> B = {} \<longleftrightarrow> region a m \<inter> B = {} \<and> region (a + m) n \<inter> B = {}"
proof -
  have "region a (m + n) = region a m \<union> region (a + m) n" by (auto simp del: mem_region simp: region_def)
  then show ?thesis by auto
qed

lemma region_out: "region a n \<inter> B = {} \<Longrightarrow> k < n \<Longrightarrow> a + k \<notin> B"
  by (auto simp: disjoint_iff)

lemma next_block_start: "k * SFS_BLKSIZE + x = (a :: nat) \<Longrightarrow> x < SFS_BLKSIZE \<Longrightarrow> a + (SFS_BLKSIZE - x) = (k + 1) * SFS_BLKSIZE"
  by simp

locale block_io =
  fixes wr :: bool and sin :: sfs_inode and busy :: "nat set"
    and fine :: "sfs_fs \<Rightarrow> bool" and xfer :: "nat \<Rightarrow> nat \<Rightarrow> nat \<Rightarrow> sfs_fs \<Rightarrow> sfs_fs \<Rightarrow> bool"
  assumes part: "fine s \<Longrightarrow> blk < nblocks (din sin) \<Longrightarrow> off < SFS_BLKSIZE \<Longrightarrow> off + n \<le> SFS_BLKSIZE \<Longrightarrow> region buf n \<inter> busy = {} \<Longrightarrow>
      \<exists>s'. io_part wr buf n blk off sin s = Some (0, sin, s') \<and> fine s' \<and> xfer buf (blk * SFS_BLKSIZE + off) n s s'"
    and whole: "fine s \<Longrightarrow> blk < nblocks (din sin) \<Longrightarrow> region buf SFS_BLKSIZE \<inter> busy = {} \<Longrightarrow>
      \<exists>s'. io_block wr buf blk sin s = Some (0, sin, s') \<and> fine s' \<and> xfer buf (blk * SFS_BLKSIZE) SFS_BLKSIZE s s'"
    and at_once: "fine s \<Longrightarrow> xfer buf q 0 s s"
    and join: "fine s \<Longrightarrow> region buf (n + k) \<inter> busy = {} \<Longrightarrow> q + n + k \<le> nblocks (din sin) * SFS_BLKSIZE \<Longrightarrow>
      xfer buf q n s s1 \<Longrightarrow> xfer (buf + n) (q + n) k s1 s2 \<Longrightarrow> xfer buf q (n + k) s s2"
begin

lemma blocks_ok:
  "fine s \<Longrightarrow> blk + n \<le> nblocks (din sin) \<Longrightarrow> region buf (n * SFS_BLKSIZE) \<inter> busy = {} \<Longrightarrow>
     \<exists>s'. io_blocks wr n alen buf blk sin s = Some (0, alen + n * SFS_BLKSIZE, buf + n * SFS_BLKSIZE, blk + n, sin, s') \<and> fine s' \<and>
       xfer buf (blk * SFS_BLKSIZE) (n * SFS_BLKSIZE) s s'"
proof (induction n arbitrary: alen buf blk s)
  case 0
  then show ?case by (simp add: at_once)
next
  case (Suc n)
  have r1: "region buf SFS_BLKSIZE \<inter> busy = {}" and r2: "region (buf + SFS_BLKSIZE) (n * SFS_BLKSIZE) \<inter> busy = {}"
    using Suc.prems(3) region_split [of buf SFS_BLKSIZE "n * SFS_BLKSIZE"] by simp_all
  from whole [OF Suc.prems(1) _ r1, of blk] Suc.prems(2) obtain s1 where
    s1: "io_block wr buf blk sin s = Some (0, sin, s1)" "fine s1" "xfer buf (blk * SFS_BLKSIZE) SFS_BLKSIZE s s1" by auto
  from Suc.IH [OF s1(2) _ r2, of "blk + 1" "alen + SFS_BLKSIZE"] Suc.prems(2) obtain s2 where
    s2: "io_blocks wr n (alen + SFS_BLKSIZE) (buf + SFS_BLKSIZE) (blk + 1) sin s1 =
        Some (0, alen + SFS_BLKSIZE + n * SFS_BLKSIZE, buf + SFS_BLKSIZE + n * SFS_BLKSIZE, blk + 1 + n, sin, s2)" "fine s2"
      "xfer (buf + SFS_BLKSIZE) ((blk + 1) * SFS_BLKSIZE) (n * SFS_BLKSIZE) s1 s2" by auto
  have "xfer buf (blk * SFS_BLKSIZE) (SFS_BLKSIZE + n * SFS_BLKSIZE) s s2"
    by (rule join [OF Suc.prems(1) _ _ s1(3)]) (use Suc.prems(2,3) s2(3) in \<open>auto simp: algebra_simps\<close>)
  then show ?case using s1(1) s2(1,2) by (simp add: add.assoc)
qed

lemma tail_ok:
  assumes "fine s" "blk * SFS_BLKSIZE \<le> endpos" "endpos \<le> nblocks (din sin) * SFS_BLKSIZE"
    and r: "region buf (endpos - blk * SFS_BLKSIZE) \<inter> busy = {}"
  shows "\<exists>s'. io_tail wr (endpos div SFS_BLKSIZE - blk) alen buf blk endpos sin s = Some (0, alen + (endpos - blk * SFS_BLKSIZE), sin, s') \<and>
     fine s' \<and> xfer buf (blk * SFS_BLKSIZE) (endpos - blk * SFS_BLKSIZE) s s'"
proof -
  let ?n = "endpos div SFS_BLKSIZE - blk" and ?r = "endpos mod SFS_BLKSIZE"
  have le: "blk \<le> endpos div SFS_BLKSIZE" using assms(2) by (metis div_le_mono nonzero_mult_div_cancel_right zero_neq_numeral)
  then have d: "endpos = (blk + ?n) * SFS_BLKSIZE + ?r" by (simp add: div_mult_mod_eq [symmetric])
  then have e: "endpos - blk * SFS_BLKSIZE = ?n * SFS_BLKSIZE + ?r" by (simp add: algebra_simps)
  have nb: "blk + ?n \<le> nblocks (din sin)" using d assms(3) by simp
  have r1: "region buf (?n * SFS_BLKSIZE) \<inter> busy = {}" and r2: "region (buf + ?n * SFS_BLKSIZE) ?r \<inter> busy = {}"
    using r unfolding e region_split by simp_all
  from blocks_ok [OF assms(1) nb r1, of alen] obtain s1 where
    s1: "io_blocks wr ?n alen buf blk sin s = Some (0, alen + ?n * SFS_BLKSIZE, buf + ?n * SFS_BLKSIZE, blk + ?n, sin, s1)" "fine s1"
      "xfer buf (blk * SFS_BLKSIZE) (?n * SFS_BLKSIZE) s s1" by blast
  show ?thesis
  proof (cases "?r = 0")
    case True
    then show ?thesis using s1 unfolding e io_tail_def by simp
  next
    case False
    have "blk + ?n < nblocks (din sin)" using d assms(3) False nb by (cases "blk + ?n = nblocks (din sin)") auto
    from part [OF s1(2) this _ _ r2, of 0] obtain s2 where
      s2: "io_part wr (buf + ?n * SFS_BLKSIZE) ?r (blk + ?n) 0 sin s1 = Some (0, sin, s2)" "fine s2"
        "xfer (buf + ?n * SFS_BLKSIZE) ((blk + ?n) * SFS_BLKSIZE) ?r s1 s2" by auto
    have "xfer buf (blk * SFS_BLKSIZE) (?n * SFS_BLKSIZE + ?r) s s2"
    proof (rule join [OF assms(1) _ _ s1(3)])
      show "region buf (?n * SFS_BLKSIZE + ?r) \<inter> busy = {}" using r unfolding e .
      show "blk * SFS_BLKSIZE + ?n * SFS_BLKSIZE + ?r \<le> nblocks (din sin) * SFS_BLKSIZE" unfolding add_mult_distrib [symmetric] d [symmetric] by (rule assms(3))
      show "xfer (buf + ?n * SFS_BLKSIZE) (blk * SFS_BLKSIZE + ?n * SFS_BLKSIZE) ?r s1 s2" using s2(3) unfolding add_mult_distrib .
    qed
    then show ?thesis using s1(1) s2(1,2) False unfolding e io_tail_def by (simp add: add.assoc)
  qed
qed

lemma range_ok:
  assumes "fine s" "offset < endpos" "endpos \<le> nblocks (din sin) * SFS_BLKSIZE" "region buf (endpos - offset) \<inter> busy = {}"
  shows "\<exists>s'. io_range wr buf offset endpos sin s = Some (0, endpos - offset, sin, s') \<and> fine s' \<and> xfer buf offset (endpos - offset) s s'"
proof -
  let ?k = "offset div SFS_BLKSIZE" and ?o = "offset mod SFS_BLKSIZE"
  have d: "offset = ?k * SFS_BLKSIZE + ?o" by simp
  show ?thesis
  proof (cases "?o = 0")
    case True
    with d have "offset = ?k * SFS_BLKSIZE" by linarith
    then show ?thesis using tail_ok [OF assms(1), of ?k endpos buf 0] assms True by (simp add: io_range_def Let_def)
  next
    case False
    have kb: "?k < nblocks (din sin)" using assms(2,3) by (intro less_mult_imp_div_less) linarith
    show ?thesis
    proof (cases "endpos div SFS_BLKSIZE - ?k = 0")
      case True
      then have "endpos < (?k + 1) * SFS_BLKSIZE"
        using div_le_mono [of offset endpos SFS_BLKSIZE] assms(2) dividend_less_div_times [of SFS_BLKSIZE endpos] by simp
      then have "?o + (endpos - offset) \<le> SFS_BLKSIZE" by (intro within_block [OF d [symmetric] assms(2)])
      from part [OF assms(1) kb _ this assms(4)] show ?thesis using True False by (auto simp: io_range_def Let_def)
    next
      case more: False
      let ?l = "SFS_BLKSIZE - ?o"
      have next_block: "offset + ?l = (?k + 1) * SFS_BLKSIZE" by (rule next_block_start [OF d [symmetric]]) simp
      have le: "(?k + 1) * SFS_BLKSIZE \<le> endpos"
      proof -
        have "?k + 1 \<le> endpos div SFS_BLKSIZE" using more by simp
        then have "(?k + 1) * SFS_BLKSIZE \<le> endpos div SFS_BLKSIZE * SFS_BLKSIZE" by (rule mult_le_mono1)
        then show ?thesis by (rule order.trans) (rule div_times_less_eq_dividend)
      qed
      have n: "endpos - offset = ?l + (endpos - (?k + 1) * SFS_BLKSIZE)" using next_block le by linarith
      have r1: "region buf ?l \<inter> busy = {}" and r2: "region (buf + ?l) (endpos - (?k + 1) * SFS_BLKSIZE) \<inter> busy = {}"
        using assms(4) unfolding n region_split by simp_all
      from part [OF assms(1) kb _ _ r1, of ?o] obtain s1 where
        s1: "io_part wr buf ?l ?k ?o sin s = Some (0, sin, s1)" "fine s1" "xfer buf offset ?l s s1" using d by auto
      from tail_ok [OF s1(2) le assms(3) r2, of ?l] obtain s2 where
        s2: "io_tail wr (endpos div SFS_BLKSIZE - (?k + 1)) ?l (buf + ?l) (?k + 1) endpos sin s1 =
            Some (0, ?l + (endpos - (?k + 1) * SFS_BLKSIZE), sin, s2)" "fine s2"
          "xfer (buf + ?l) ((?k + 1) * SFS_BLKSIZE) (endpos - (?k + 1) * SFS_BLKSIZE) s1 s2" by blast
      have "xfer buf offset (?l + (endpos - (?k + 1) * SFS_BLKSIZE)) s s2"
      proof (rule join [OF assms(1) _ _ s1(3)])
        show "region buf (?l + (endpos - (?k + 1) * SFS_BLKSIZE)) \<inter> busy = {}" using assms(4) unfolding n .
        show "offset + ?l + (endpos - (?k + 1) * SFS_BLKSIZE) \<le> nblocks (din sin) * SFS_BLKSIZE" unfolding next_block using le assms(3) by linarith
        show "xfer (buf + ?l) (offset + ?l) (endpos - (?k + 1) * SFS_BLKSIZE) s1 s2" unfolding next_block by (rule s2(3))
      qed
      then show ?thesis using s1(1) s2(1,2) False more n by (simp add: io_range_def Let_def)
    qed
  qed
qed

end

section \<open>Reading\<close>

text \<open>The state of a transfer: the file system and the file are sound, the memory the file system works in is \<open>busy\<close>.\<close>

definition io_fine :: "sfs_inode \<Rightarrow> nat set \<Rightarrow> sfs_fs \<Rightarrow> bool" where
  "io_fine sin busy s \<longleftrightarrow> fs_ok s \<and> file_ok sin s \<and> own s = busy"

definition read_xfer :: "sfs_inode \<Rightarrow> nat \<Rightarrow> nat \<Rightarrow> nat \<Rightarrow> sfs_fs \<Rightarrow> sfs_fs \<Rightarrow> bool" where
  "read_xfer sin buf q n s s' \<longleftrightarrow> (\<exists>m. s' = s\<lparr>dmem := m\<rparr> \<and> (\<forall>k<n. m (buf + k) = file_byte sin s (q + k)) \<and>
     (\<forall>a. a \<notin> own s \<longrightarrow> a \<notin> region buf n \<longrightarrow> m a = dmem s a))"

lemma io_fine_mem [simp]: "io_fine sin busy (s\<lparr>dmem := m\<rparr>) = io_fine sin busy s"
  by (simp add: io_fine_def)

lemma file_byte_at:
  "k < SFS_BLKSIZE \<Longrightarrow> file_byte sin s (blk * SFS_BLKSIZE + k) = dimage s (block_of sin s blk * SFS_BLKSIZE + k)"
  by (simp add: file_byte_def)

lemma block_found:
  assumes "io_fine sin busy s" and blk: "blk < nblocks (din sin)"
  obtains m where "sfs_bmap_load_nolock sin blk s = Some (0, block_of sin s blk, sin, s\<lparr>dmem := m\<rparr>)" "\<And>a. a \<notin> own s \<Longrightarrow> m a = dmem s a"
    "fs_ok (s\<lparr>dmem := m\<rparr>)" "block_of sin s blk \<noteq> 0" "block_of sin s blk < blocks (s\<lparr>dmem := m\<rparr>)" "own (s\<lparr>dmem := m\<rparr>) = busy"
proof -
  have f: "fs_ok s" "file_ok sin s" "own s = busy" using assms(1) by (simp_all add: io_fine_def)
  from in_use_range have b: "block_of sin s blk \<noteq> 0" "block_of sin s blk < blocks s" using f(2) blk by (auto simp: file_ok_def)
  obtain m where m: "sfs_bmap_load_nolock sin blk s = Some (0, block_of sin s blk, sin, s\<lparr>dmem := m\<rparr>)" "\<And>a. a \<notin> own s \<Longrightarrow> m a = dmem s a"
    by (rule bmap_load_ok [OF f(1,2) blk]) (rule that; assumption)
  show thesis by (rule that [OF m]) (use f b in simp_all)
qed

lemma read_part:
  assumes fine: "io_fine sin busy s" and blk: "blk < nblocks (din sin)" and off: "off < SFS_BLKSIZE" "off + n \<le> SFS_BLKSIZE"
    and buf: "region buf n \<inter> busy = {}"
  shows "\<exists>s'. io_part False buf n blk off sin s = Some (0, sin, s') \<and> io_fine sin busy s' \<and> read_xfer sin buf (blk * SFS_BLKSIZE + off) n s s'"
proof -
  let ?b = "block_of sin s blk"
  obtain m where m: "sfs_bmap_load_nolock sin blk s = Some (0, ?b, sin, s\<lparr>dmem := m\<rparr>)" "\<And>a. a \<notin> own s \<Longrightarrow> m a = dmem s a"
      and ok: "fs_ok (s\<lparr>dmem := m\<rparr>)" "?b \<noteq> 0" "?b < blocks (s\<lparr>dmem := m\<rparr>)" and own: "own (s\<lparr>dmem := m\<rparr>) = busy"
    by (rule block_found [OF fine blk]) (rule that; assumption)
  have dis: "region buf n \<inter> region (sfs_buffer (s\<lparr>dmem := m\<rparr>)) SFS_BLKSIZE = {}" using buf own by (auto simp: own_def)
  obtain m2 where m2: "sfs_rbuf buf n ?b off (s\<lparr>dmem := m\<rparr>) = Some (0, s\<lparr>dmem := m, dmem := m2\<rparr>)"
      "\<And>k. k < n \<Longrightarrow> m2 (buf + k) = dimage (s\<lparr>dmem := m\<rparr>) (?b * SFS_BLKSIZE + off + k)"
      "\<And>a. a \<notin> region buf n \<Longrightarrow> a \<notin> own (s\<lparr>dmem := m\<rparr>) \<Longrightarrow> m2 a = dmem (s\<lparr>dmem := m\<rparr>) a"
    by (rule rbuf_ok [OF ok off dis]) (rule that; assumption)
  have "read_xfer sin buf (blk * SFS_BLKSIZE + off) n s (s\<lparr>dmem := m2\<rparr>)"
    unfolding read_xfer_def using m(2) m2(2,3) off file_byte_at [of "off + k" for k] by (intro exI [of _ m2]) (simp add: add.assoc)
  then show ?thesis using m(1) m2(1) fine by (simp add: io_part_def)
qed

lemma read_block:
  assumes fine: "io_fine sin busy s" and blk: "blk < nblocks (din sin)"
  shows "\<exists>s'. io_block False buf blk sin s = Some (0, sin, s') \<and> io_fine sin busy s' \<and> read_xfer sin buf (blk * SFS_BLKSIZE) SFS_BLKSIZE s s'"
proof -
  let ?b = "block_of sin s blk"
  obtain m where m: "sfs_bmap_load_nolock sin blk s = Some (0, ?b, sin, s\<lparr>dmem := m\<rparr>)" "\<And>a. a \<notin> own s \<Longrightarrow> m a = dmem s a"
      and ok: "fs_ok (s\<lparr>dmem := m\<rparr>)" "?b \<noteq> 0" "?b < blocks (s\<lparr>dmem := m\<rparr>)" and own: "own (s\<lparr>dmem := m\<rparr>) = busy"
    by (rule block_found [OF fine blk]) (rule that; assumption)
  obtain m2 where m2: "sfs_rwblock_nolock buf ?b False True (s\<lparr>dmem := m\<rparr>) = Some (0, s\<lparr>dmem := m, dmem := m2\<rparr>)"
      "\<And>k. k < SFS_BLKSIZE \<Longrightarrow> m2 (buf + k) = dimage (s\<lparr>dmem := m\<rparr>) (?b * SFS_BLKSIZE + k)"
      "\<And>a. a \<notin> region buf SFS_BLKSIZE \<Longrightarrow> a \<notin> region (disk0_buffer (s\<lparr>dmem := m\<rparr>)) DISK0_BUFSIZE \<Longrightarrow> m2 a = dmem (s\<lparr>dmem := m\<rparr>) a"
    by (rule rwblock_read [OF ok]) (rule that; assumption)
  have keep: "m2 a = dmem s a" if "a \<notin> own s" "a \<notin> region buf SFS_BLKSIZE" for a
    using m2(3) [OF that(2)] m(2) [OF that(1)] that(1) by (simp add: own_def)
  have "read_xfer sin buf (blk * SFS_BLKSIZE) SFS_BLKSIZE s (s\<lparr>dmem := m2\<rparr>)"
    unfolding read_xfer_def using m2(2) keep file_byte_at [of k sin s blk for k] by (intro exI [of _ m2]) simp
  then show ?thesis using m(1) m2(1) fine by (simp add: io_block_def sfs_rblock_def)
qed

lemma read_join:
  assumes "io_fine sin busy s" "region buf (n + k) \<inter> busy = {}" "read_xfer sin buf q n s s1" "read_xfer sin (buf + n) (q + n) k s1 s2"
  shows "read_xfer sin buf q (n + k) s s2"
proof -
  from assms(3) obtain m1 where m1: "s1 = s\<lparr>dmem := m1\<rparr>" "\<And>i. i < n \<Longrightarrow> m1 (buf + i) = file_byte sin s (q + i)"
    "\<And>a. a \<notin> own s \<Longrightarrow> a \<notin> region buf n \<Longrightarrow> m1 a = dmem s a" by (auto simp: read_xfer_def)
  from assms(4) obtain m2 where m2: "s2 = s\<lparr>dmem := m2\<rparr>" "\<And>i. i < k \<Longrightarrow> m2 (buf + n + i) = file_byte sin s (q + n + i)"
    "\<And>a. a \<notin> own s \<Longrightarrow> a \<notin> region (buf + n) k \<Longrightarrow> m2 a = m1 a" unfolding m1(1) by (auto simp: read_xfer_def)
  have out: "a \<notin> own s" if "a \<in> region buf (n + k)" for a using that assms(1,2) by (auto simp: io_fine_def)
  have "m2 (buf + i) = file_byte sin s (q + i)" if "i < n + k" for i
  proof (cases "i < n")
    case True
    then show ?thesis using m2(3) [of "buf + i"] m1(2) [of i] out [of "buf + i"] by simp
  next
    case False
    then show ?thesis using m2(2) [of "i - n"] that by simp
  qed
  moreover have "m2 a = dmem s a" if "a \<notin> own s" "a \<notin> region buf (n + k)" for a
    using m2(3) [OF that(1)] m1(3) [OF that(1)] that(2) by auto
  ultimately show ?thesis unfolding read_xfer_def m2(1) by (intro exI [of _ m2]) simp
qed

interpretation rd: block_io False sin busy "io_fine sin busy" "read_xfer sin" for sin busy
proof
  show "\<exists>s'. io_part False buf n blk off sin s = Some (0, sin, s') \<and> io_fine sin busy s' \<and> read_xfer sin buf (blk * SFS_BLKSIZE + off) n s s'"
    if "io_fine sin busy s" "blk < nblocks (din sin)" "off < SFS_BLKSIZE" "off + n \<le> SFS_BLKSIZE" "region buf n \<inter> busy = {}"
    for s blk off n buf using that by (rule read_part)
  show "\<exists>s'. io_block False buf blk sin s = Some (0, sin, s') \<and> io_fine sin busy s' \<and> read_xfer sin buf (blk * SFS_BLKSIZE) SFS_BLKSIZE s s'"
    if "io_fine sin busy s" "blk < nblocks (din sin)" "region buf SFS_BLKSIZE \<inter> busy = {}" for s blk buf using that(1,2) by (rule read_block)
  show "read_xfer sin buf q 0 s s" if "io_fine sin busy s" for s buf q by (auto simp: read_xfer_def intro!: exI [of _ "dmem s"])
  show "read_xfer sin buf q (n + k) s s2" if "io_fine sin busy s" "region buf (n + k) \<inter> busy = {}" "q + n + k \<le> nblocks (din sin) * SFS_BLKSIZE"
    "read_xfer sin buf q n s s1" "read_xfer sin (buf + n) (q + n) k s1 s2" for s buf n k q s1 s2 using that(1,2,4,5) by (rule read_join)
qed

section \<open>Writing\<close>

text \<open>
  A write changes the bytes of the file at its positions, no other byte of the file, no block that is not the file's and no memory but the
  file system's own.
\<close>

definition write_xfer :: "sfs_inode \<Rightarrow> nat \<Rightarrow> nat \<Rightarrow> nat \<Rightarrow> sfs_fs \<Rightarrow> sfs_fs \<Rightarrow> bool" where
  "write_xfer sin buf q n s s' \<longleftrightarrow> (\<exists>m i. s' = s\<lparr>dmem := m, dimage := i\<rparr>) \<and> (\<forall>a. a \<notin> own s \<longrightarrow> dmem s' a = dmem s a) \<and>
     (\<forall>k<nblocks (din sin). block_of sin s' k = block_of sin s k) \<and>
     (\<forall>p<nblocks (din sin) * SFS_BLKSIZE. file_byte sin s' p = (if q \<le> p \<and> p < q + n then dmem s (buf + (p - q)) else file_byte sin s p)) \<and>
     (\<forall>b x. (\<forall>k<nblocks (din sin). b \<noteq> block_of sin s k) \<longrightarrow> x < SFS_BLKSIZE \<longrightarrow> dimage s' (b * SFS_BLKSIZE + x) = dimage s (b * SFS_BLKSIZE + x))"

lemma copy_bytes_outside:
  "off + n \<le> SFS_BLKSIZE \<Longrightarrow> c \<noteq> b \<Longrightarrow> x < SFS_BLKSIZE \<Longrightarrow> copy_bytes i (b * SFS_BLKSIZE + off) m buf n (c * SFS_BLKSIZE + x) = i (c * SFS_BLKSIZE + x)"
  by (cases "c < b") (auto simp: copy_bytes_def)

lemma copy_bytes_cong:
  assumes "\<And>k. k < n \<Longrightarrow> m (buf + k) = m' (buf + k)"
  shows "copy_bytes i d m buf n = copy_bytes i d m' buf n"
proof
  show "copy_bytes i d m buf n a = copy_bytes i d m' buf n a" for a using assms [of "a - d"] by (cases "d \<le> a") (auto simp: copy_bytes_def)
qed

lemma store_block:
  assumes fine: "io_fine sin busy s" and blk: "blk < nblocks (din sin)" and off: "off + n \<le> SFS_BLKSIZE"
    and m: "\<And>a. a \<notin> own s \<Longrightarrow> m a = dmem s a"
    and s': "s' = s\<lparr>dmem := m, dimage := copy_bytes (dimage s) (block_of sin s blk * SFS_BLKSIZE + off) (dmem s) buf n\<rparr>"
  shows "io_fine sin busy s' \<and> write_xfer sin buf (blk * SFS_BLKSIZE + off) n s s'"
proof -
  have f: "fs_ok s" "file_ok sin s" "own s = busy" using fine by (simp_all add: io_fine_def)
  let ?b = "block_of sin s blk"
  have outside: "dimage s' (c * SFS_BLKSIZE + x) = dimage s (c * SFS_BLKSIZE + x)" if "c \<noteq> ?b" "x < SFS_BLKSIZE" for c x
    using copy_bytes_outside [OF off that] by (simp add: s')
  have blk_same: "block_of sin s' k = block_of sin s k" if k: "k < nblocks (din sin)" for k
  proof (cases "k < SFS_NDIRECT")
    case False
    have e: "indirect (din sin) \<noteq> ?b" "k - SFS_NDIRECT < SFS_BLK_NENTRY" using f(2) blk k False by (auto simp: file_ok_def)
    have "get_u32 (dimage s') (indirect (din sin) * SFS_BLKSIZE + (k - SFS_NDIRECT) * 4) = get_u32 (dimage s) (indirect (din sin) * SFS_BLKSIZE + (k - SFS_NDIRECT) * 4)"
      by (rule get_u32_copy) (use e outside [of "indirect (din sin)" "(k - SFS_NDIRECT) * 4 + j" for j] in \<open>simp add: add.assoc\<close>)
    then show ?thesis using False by (simp add: block_of_def)
  qed (simp add: block_of_def)
  have "file_ok sin s'" using f(2) blk_same unfolding file_ok_def s' by (simp add: inj_on_def)
  then have "io_fine sin busy s'" using f by (simp add: io_fine_def s')
  moreover have "file_byte sin s' p = (if blk * SFS_BLKSIZE + off \<le> p \<and> p < blk * SFS_BLKSIZE + off + n
      then dmem s (buf + (p - (blk * SFS_BLKSIZE + off))) else file_byte sin s p)" if p: "p < nblocks (din sin) * SFS_BLKSIZE" for p
  proof -
    have k: "p div SFS_BLKSIZE < nblocks (din sin)" using p by (rule less_mult_imp_div_less)
    show ?thesis
    proof (cases "p div SFS_BLKSIZE = blk")
      case True
      define r where "r = p mod SFS_BLKSIZE"
      have r: "p = blk * SFS_BLKSIZE + r" "r < SFS_BLKSIZE" using True by (auto simp: r_def)
      show ?thesis unfolding r(1) file_byte_at [OF r(2)] blk_same [OF blk] by (auto simp: s' copy_bytes_def)
    next
      case False
      then have "block_of sin s (p div SFS_BLKSIZE) \<noteq> ?b" using f(2) k blk by (auto simp: file_ok_def inj_on_def)
      then have "file_byte sin s' p = file_byte sin s p" using outside by (simp add: file_byte_def blk_same [OF k])
      moreover have other: "\<not> (blk * SFS_BLKSIZE + off \<le> p \<and> p < blk * SFS_BLKSIZE + off + n)" using False off by auto
      ultimately show ?thesis by (simp only: other if_False)
    qed
  qed
  ultimately show ?thesis unfolding write_xfer_def using m blk_same outside blk by (auto simp: s')
qed

lemma write_part:
  assumes fine: "io_fine sin busy s" and blk: "blk < nblocks (din sin)" and off: "off < SFS_BLKSIZE" "off + n \<le> SFS_BLKSIZE"
    and buf: "region buf n \<inter> busy = {}"
  shows "\<exists>s'. io_part True buf n blk off sin s = Some (0, sin, s') \<and> io_fine sin busy s' \<and> write_xfer sin buf (blk * SFS_BLKSIZE + off) n s s'"
proof -
  let ?b = "block_of sin s blk"
  obtain m where m: "sfs_bmap_load_nolock sin blk s = Some (0, ?b, sin, s\<lparr>dmem := m\<rparr>)" "\<And>a. a \<notin> own s \<Longrightarrow> m a = dmem s a"
      and ok: "fs_ok (s\<lparr>dmem := m\<rparr>)" "?b \<noteq> 0" "?b < blocks (s\<lparr>dmem := m\<rparr>)" and own: "own (s\<lparr>dmem := m\<rparr>) = busy"
    by (rule block_found [OF fine blk]) (rule that; assumption)
  have dis: "region buf n \<inter> own (s\<lparr>dmem := m\<rparr>) = {}" using buf own by simp
  obtain m2 where m2: "sfs_wbuf buf n ?b off (s\<lparr>dmem := m\<rparr>) = Some (0, s\<lparr>dmem := m,
        dmem := m2, dimage := copy_bytes (dimage (s\<lparr>dmem := m\<rparr>)) (?b * SFS_BLKSIZE + off) (dmem (s\<lparr>dmem := m\<rparr>)) buf n\<rparr>)"
      "\<And>a. a \<notin> own (s\<lparr>dmem := m\<rparr>) \<Longrightarrow> m2 a = dmem (s\<lparr>dmem := m\<rparr>) a"
    by (rule wbuf_ok [OF ok off dis]) (rule that; assumption)
  have "m (buf + k) = dmem s (buf + k)" if "k < n" for k using m(2) region_out [OF dis that] by simp
  then have "copy_bytes (dimage s) (?b * SFS_BLKSIZE + off) m buf n = copy_bytes (dimage s) (?b * SFS_BLKSIZE + off) (dmem s) buf n"
    by (rule copy_bytes_cong)
  then show ?thesis using m(1) m2(1) store_block [OF fine blk off(2), of m2, OF _ refl] m2(2) m(2) by (simp add: io_part_def)
qed

lemma write_block:
  assumes fine: "io_fine sin busy s" and blk: "blk < nblocks (din sin)" and buf: "region buf SFS_BLKSIZE \<inter> busy = {}"
  shows "\<exists>s'. io_block True buf blk sin s = Some (0, sin, s') \<and> io_fine sin busy s' \<and> write_xfer sin buf (blk * SFS_BLKSIZE) SFS_BLKSIZE s s'"
proof -
  let ?b = "block_of sin s blk"
  obtain m where m: "sfs_bmap_load_nolock sin blk s = Some (0, ?b, sin, s\<lparr>dmem := m\<rparr>)" "\<And>a. a \<notin> own s \<Longrightarrow> m a = dmem s a"
      and ok: "fs_ok (s\<lparr>dmem := m\<rparr>)" "?b \<noteq> 0" "?b < blocks (s\<lparr>dmem := m\<rparr>)" and own: "own (s\<lparr>dmem := m\<rparr>) = busy"
    by (rule block_found [OF fine blk]) (rule that; assumption)
  obtain m2 where m2: "sfs_rwblock_nolock buf ?b True True (s\<lparr>dmem := m\<rparr>) = Some (0, s\<lparr>dmem := m,
        dmem := m2, dimage := copy_bytes (dimage (s\<lparr>dmem := m\<rparr>)) (?b * SFS_BLKSIZE) (dmem (s\<lparr>dmem := m\<rparr>)) buf SFS_BLKSIZE\<rparr>)"
      "\<And>a. a \<notin> region (disk0_buffer (s\<lparr>dmem := m\<rparr>)) DISK0_BUFSIZE \<Longrightarrow> m2 a = dmem (s\<lparr>dmem := m\<rparr>) a"
    by (rule rwblock_write [OF ok]) (rule that; assumption)
  have "m (buf + k) = dmem s (buf + k)" if "k < SFS_BLKSIZE" for k using m(2) region_out [OF buf that] own by simp
  then have "copy_bytes (dimage s) (?b * SFS_BLKSIZE) m buf SFS_BLKSIZE = copy_bytes (dimage s) (?b * SFS_BLKSIZE) (dmem s) buf SFS_BLKSIZE"
    by (rule copy_bytes_cong)
  moreover have "m2 a = dmem s a" if "a \<notin> own s" for a using m2(2) [of a] m(2) [OF that] that by (simp add: own_def)
  ultimately show ?thesis using m(1) m2(1) store_block [OF fine blk, of 0 SFS_BLKSIZE m2, OF _ _ refl]
    by (simp add: io_block_def sfs_wblock_def)
qed

lemma write_join:
  assumes "io_fine sin busy s" "region buf (n + k) \<inter> busy = {}" "write_xfer sin buf q n s s1" "write_xfer sin (buf + n) (q + n) k s1 s2"
  shows "write_xfer sin buf q (n + k) s s2"
proof -
  from assms(3) obtain m1 i1 where s1: "s1 = s\<lparr>dmem := m1, dimage := i1\<rparr>" by (auto simp: write_xfer_def)
  then have own1: "own s1 = own s" by simp
  have same: "dmem s1 (buf + n + (p - (q + n))) = dmem s (buf + (p - q))" if "q + n \<le> p" "p < q + n + k" for p
  proof -
    have e: "buf + n + (p - (q + n)) = buf + (p - q)" using that by simp
    have "buf + (p - q) \<notin> own s" using region_out [OF assms(2), of "p - q"] assms(1) that by (auto simp: io_fine_def)
    then show ?thesis using assms(3) unfolding e by (simp add: write_xfer_def)
  qed
  have "file_byte sin s2 p = (if q \<le> p \<and> p < q + (n + k) then dmem s (buf + (p - q)) else file_byte sin s p)"
    if "p < nblocks (din sin) * SFS_BLKSIZE" for p
    using assms(3,4) that same [of p] unfolding write_xfer_def by auto
  then show ?thesis using assms(3,4) own1 unfolding write_xfer_def by (auto simp: s1)
qed

interpretation wt: block_io True sin busy "io_fine sin busy" "write_xfer sin" for sin busy
proof
  show "\<exists>s'. io_part True buf n blk off sin s = Some (0, sin, s') \<and> io_fine sin busy s' \<and> write_xfer sin buf (blk * SFS_BLKSIZE + off) n s s'"
    if "io_fine sin busy s" "blk < nblocks (din sin)" "off < SFS_BLKSIZE" "off + n \<le> SFS_BLKSIZE" "region buf n \<inter> busy = {}"
    for s blk off n buf using that by (rule write_part)
  show "\<exists>s'. io_block True buf blk sin s = Some (0, sin, s') \<and> io_fine sin busy s' \<and> write_xfer sin buf (blk * SFS_BLKSIZE) SFS_BLKSIZE s s'"
    if "io_fine sin busy s" "blk < nblocks (din sin)" "region buf SFS_BLKSIZE \<inter> busy = {}" for s blk buf using that by (rule write_block)
  show "write_xfer sin buf q 0 s s" if "io_fine sin busy s" for s buf q
  proof -
    have "\<exists>m i. s = s\<lparr>dmem := m, dimage := i\<rparr>" by (rule exI [of _ "dmem s"], rule exI [of _ "dimage s"]) simp
    then show ?thesis by (auto simp: write_xfer_def)
  qed
  show "write_xfer sin buf q (n + k) s s2" if "io_fine sin busy s" "region buf (n + k) \<inter> busy = {}" "q + n + k \<le> nblocks (din sin) * SFS_BLKSIZE"
    "write_xfer sin buf q n s s1" "write_xfer sin (buf + n) (q + n) k s1 s2" for s buf n k q s1 s2 using that(1,2,4,5) by (rule write_join)
qed

section \<open>Reading and writing a file\<close>

definition advanced :: "nat \<Rightarrow> iobuf \<Rightarrow> iobuf" where
  "advanced n iob = iob\<lparr>io_base := io_base iob + n, io_offset := io_offset iob + int n, io_resid := io_resid iob - n\<rparr>"

lemma skip_advanced: "n \<le> io_resid iob \<Longrightarrow> (if n \<noteq> 0 then iobuf_skip n iob else Some iob) = Some (advanced n iob)"
  by (simp add: iobuf_skip_def advanced_def)

lemma file_bound: "file_ok sin s \<Longrightarrow> nblocks (din sin) * SFS_BLKSIZE \<le> SFS_MAX_FILE_SIZE"
  by (simp add: file_ok_def)

lemma io_nolock_read:
  assumes "fs_ok s" "file_ok sin s" and ft: "ftype (din sin) \<noteq> SFS_TYPE_DIR" and size: "fsize (din sin) \<le> nblocks (din sin) * SFS_BLKSIZE"
    and q: "q < SFS_MAX_FILE_SIZE" "q + len < 2 ^ 63" and n: "n = min len (fsize (din sin) - q)" and buf: "region buf n \<inter> own s = {}"
  shows "\<exists>s'. sfs_io_nolock False buf (int q) len sin s = Some (0, n, sin, s') \<and> read_xfer sin buf q n s s'"
proof (cases "n = 0")
  have pos: "s64 (int q + int len) = int q + int len" by (rule s64_id) (use q(2) in simp_all)
  case True
  have "sfs_io_nolock False buf (int q) len sin s = Some (0, n, sin, s)"
    using ft q n True pos by (auto simp: sfs_io_nolock_def Let_def min_def split: if_splits)
  then show ?thesis using True by (auto simp: read_xfer_def intro!: exI [of _ "dmem s"])
next
  have pos: "s64 (int q + int len) = int q + int len" by (rule s64_id) (use q(2) in simp_all)
  case False
  have fine: "io_fine sin (own s) s" using assms(1,2) by (simp add: io_fine_def)
  have e: "q < q + n" "q + n \<le> nblocks (din sin) * SFS_BLKSIZE" using n False size by auto
  have "q + n \<le> SFS_MAX_FILE_SIZE" using e(2) file_bound [OF assms(2)] by (rule order.trans)
  have en: "min (min (int q + int len) (int SFS_MAX_FILE_SIZE)) (int (fsize (din sin))) = int (q + n)"
    using n False size file_bound [OF assms(2)] by auto
  have "region buf (q + n - q) \<inter> own s = {}" using buf by simp
  from rd.range_ok [OF fine e this] obtain s' where
    s': "io_range False buf q (q + n) sin s = Some (0, n, sin, s')" "read_xfer sin buf q n s s'" by auto
  have "sfs_io_nolock False buf (int q) len sin s = Some (0, n, sin, s')"
    unfolding sfs_io_nolock_def Let_def pos en nat_int using ft q False n s'(1) by (simp add: nat_int_add)
  then show ?thesis using s'(2) by blast
qed

text \<open>C23: \<open>sfs_read\<close> returns 0 and delivers exactly the bytes of the file from the offset on, as many as are asked for and the file has: the
  buffer is advanced by their number, the disk and the inode are unchanged, and no memory but the buffer's part and the file system's own is.\<close>

theorem sfs_read_exact:
  assumes "fs_ok s" "file_ok sin s" "ftype (din sin) \<noteq> SFS_TYPE_DIR" "fsize (din sin) \<le> nblocks (din sin) * SFS_BLKSIZE"
    and "io_offset iob = int q" "q < SFS_MAX_FILE_SIZE" "q + io_resid iob < 2 ^ 63" and n: "n = min (io_resid iob) (fsize (din sin) - q)"
    and "region (io_base iob) n \<inter> own s = {}"
  shows "\<exists>m. sfs_read iob sin s = Some (0, advanced n iob, sin, s\<lparr>dmem := m\<rparr>) \<and>
    (\<forall>k<n. m (io_base iob + k) = file_byte sin s (q + k)) \<and>
    (\<forall>a. a \<notin> own s \<longrightarrow> a \<notin> region (io_base iob) n \<longrightarrow> m a = dmem s a)"
proof -
  from io_nolock_read [OF assms(1-4,6,7) n assms(9)] obtain s' where
    s': "sfs_io_nolock False (io_base iob) (int q) (io_resid iob) sin s = Some (0, n, sin, s')" "read_xfer sin (io_base iob) q n s s'" by blast
  have le: "n \<le> io_resid iob" using n by simp
  have "sfs_read iob sin s = Some (0, advanced n iob, sin, s')"
    unfolding sfs_read_def sfs_io_def assms(5) s'(1) by (simp add: skip_advanced [OF le, simplified])
  then show ?thesis using s'(2) by (auto simp: read_xfer_def)
qed

lemma io_nolock_write:
  assumes "fs_ok s" "file_ok sin s" and ft: "ftype (din sin) \<noteq> SFS_TYPE_DIR"
    and n: "0 < n" "q + n \<le> nblocks (din sin) * SFS_BLKSIZE" and buf: "region buf n \<inter> own s = {}"
  shows "\<exists>s'. sfs_io_nolock True buf (int q) n sin s = Some (0, n,
      if q + n > fsize (din sin) then (set_din (\<lambda>d. d\<lparr>fsize := q + n\<rparr>) sin)\<lparr>dirty := True\<rparr> else sin, s') \<and> write_xfer sin buf q n s s'"
proof -
  have fine: "io_fine sin (own s) s" using assms(1,2) by (simp add: io_fine_def)
  have bound: "q + n \<le> SFS_MAX_FILE_SIZE" using n(2) file_bound [OF assms(2)] by (rule order.trans)
  have e: "q < q + n" "region buf (q + n - q) \<inter> own s = {}" using n buf by simp_all
  from wt.range_ok [OF fine e(1) n(2) e(2)] obtain s' where
    s': "io_range True buf q (q + n) sin s = Some (0, n, sin, s')" "write_xfer sin buf q n s s'" by auto
  have "min (int q + int n) (int SFS_MAX_FILE_SIZE) = int (q + n)" "u32 (q + n) = q + n" "s64 (int q + int n) = int q + int n" using bound by (simp_all add: u32_def s64_def)
  moreover have "nat (int q + int n) = q + n" by simp
  ultimately have "sfs_io_nolock True buf (int q) n sin s = Some (0, n,
      if q + n > fsize (din sin) then (set_din (\<lambda>d. d\<lparr>fsize := q + n\<rparr>) sin)\<lparr>dirty := True\<rparr> else sin, s')"
    using ft n(1) s'(1) bound by (simp add: sfs_io_nolock_def Let_def)
  then show ?thesis using s'(2) by blast
qed

text \<open>C24: \<open>sfs_write\<close> within the blocks a file has writes all bytes of the buffer to the positions from the offset on and changes nothing else:
  the other bytes of the file, the blocks of other files and of the file system, the memory.  The file is longer when the range ends behind
  its end, and the inode is then marked dirty.\<close>

theorem sfs_write_exact:
  assumes "fs_ok s" "file_ok sin s" "ftype (din sin) \<noteq> SFS_TYPE_DIR" "io_offset iob = int q" and n: "n = io_resid iob"
    and "0 < n" "q + n \<le> nblocks (din sin) * SFS_BLKSIZE" "region (io_base iob) n \<inter> own s = {}"
  shows "\<exists>sin' s'. sfs_write iob sin s = Some (0, advanced n iob, sin', s') \<and>
    sin' = (if q + n > fsize (din sin) then (set_din (\<lambda>d. d\<lparr>fsize := q + n\<rparr>) sin)\<lparr>dirty := True\<rparr> else sin) \<and>
    (\<forall>p<nblocks (din sin) * SFS_BLKSIZE.
       file_byte sin' s' p = (if q \<le> p \<and> p < q + n then dmem s (io_base iob + (p - q)) else file_byte sin s p)) \<and>
    (\<forall>b x. (\<forall>k<nblocks (din sin). b \<noteq> block_of sin s k) \<longrightarrow> x < SFS_BLKSIZE \<longrightarrow> dimage s' (b * SFS_BLKSIZE + x) = dimage s (b * SFS_BLKSIZE + x)) \<and>
    (\<forall>a. a \<notin> own s \<longrightarrow> dmem s' a = dmem s a) \<and> freemap s' = freemap s"
proof -
  define sin' where "sin' = (if q + n > fsize (din sin) then (set_din (\<lambda>d. d\<lparr>fsize := q + n\<rparr>) sin)\<lparr>dirty := True\<rparr> else sin)"
  from io_nolock_write [OF assms(1-3,6-8)] obtain s' where
    s': "sfs_io_nolock True (io_base iob) (int q) n sin s = Some (0, n, sin', s')" "write_xfer sin (io_base iob) q n s s'"
    unfolding sin'_def by blast
  have w: "sfs_write iob sin s = Some (0, advanced n iob, sin', s')"
    unfolding sfs_write_def sfs_io_def assms(4) n [symmetric] s'(1) using n assms(6) by (simp add: iobuf_skip_def advanced_def)
  have same: "file_byte sin' s' = file_byte sin s'" by (simp add: file_byte_def block_of_def set_din_def sin'_def fun_eq_iff)
  have "freemap s' = freemap s" using s'(2) by (auto simp: write_xfer_def)
  then show ?thesis using s'(2) w sin'_def unfolding write_xfer_def same [symmetric] by blast
qed

section \<open>Examples\<close>

text \<open>A disk of eight blocks; a file in the blocks 3 and 5, of 5000 bytes.\<close>

definition ex_fs :: sfs_fs where
  "ex_fs = \<lparr>dmem = \<lambda>a. word_of_nat (a mod 7), dimage = \<lambda>a. word_of_nat (a mod 251), ide_size = 64, disk0_buffer = 0, d_blocks = 8, blocks = 8,
     unused_blocks = 2, info = [], freemap = \<lparr>nbits = 8, nwords = 1, words = [0xc0]\<rparr>, freemap_at = 50000, super_dirty = False,
     sfs_buffer = 20000, scratch = 30000, din_at = 31000, entry_at = 32000\<rparr>"

definition ex_sin :: sfs_inode where
  "ex_sin = \<lparr>din = \<lparr>fsize = 5000, ftype = 1, nlinks = 1, nblocks = 2, direct = [3, 5, 0, 0, 0, 0, 0, 0, 0, 0, 0, 0], indirect = 0\<rparr>,
     sino = 2, dirty = False, reclaim_count = 1\<rparr>"

lemma ex_ok: "fs_ok ex_fs" "file_ok ex_sin ex_fs"
proof -
  show "fs_ok ex_fs" by (auto simp: fs_ok_def dev_ok_def ex_fs_def region_def)
  have b: "block_of ex_sin ex_fs 0 = 3" "block_of ex_sin ex_fs 1 = 5" by (simp_all add: block_of_def ex_sin_def)
  have u: "in_use ex_fs 3" "in_use ex_fs 5" by (simp_all add: in_use_def sfs_block_inuse_def bitmap_test_def bitmap_translate_def bitmask_def ex_fs_def)
  have n: "nblocks (din ex_sin) = 2" by (simp add: ex_sin_def)
  have set: "{..<2} = {0, 1 :: nat}" by auto
  have all: "(\<forall>i<2. P i) \<longleftrightarrow> P 0 \<and> P 1" for P :: "nat \<Rightarrow> bool" using less_2_cases_iff by auto
  show "file_ok ex_sin ex_fs" unfolding file_ok_def n set all b using u by (simp add: b [simplified] ex_sin_def [THEN arg_cong [where f = din]])
qed

lemma ex_own: "own ex_fs = region 0 DISK0_BUFSIZE \<union> region 20000 SFS_BLKSIZE \<union> region 30000 4"
  by (simp add: own_def ex_fs_def)

lemma ex_sin_data: "ftype (din ex_sin) = 1" "fsize (din ex_sin) = 5000" "nblocks (din ex_sin) = 2"
  by (simp_all add: ex_sin_def)

theorem sfs_read_exact_witness:
  "\<exists>m. sfs_read (iobuf_init 40000 2000 4000) ex_sin ex_fs = Some (0, advanced 1000 (iobuf_init 40000 2000 4000), ex_sin, ex_fs\<lparr>dmem := m\<rparr>) \<and>
     (\<forall>k<1000. m (40000 + k) = file_byte ex_sin ex_fs (4000 + k)) \<and>
     (\<forall>a. a \<notin> own ex_fs \<longrightarrow> a \<notin> region 40000 1000 \<longrightarrow> m a = dmem ex_fs a)"
proof -
  have r: "region (io_base (iobuf_init 40000 2000 4000)) 1000 \<inter> own ex_fs = {}" by (auto simp: ex_own iobuf_init_def)
  from sfs_read_exact [OF ex_ok, of "iobuf_init 40000 2000 4000" 4000 1000, OF _ _ _ _ _ _ r] show ?thesis
    by (simp add: ex_sin_data iobuf_init_def)
qed

theorem sfs_write_exact_witness:
  "\<exists>sin' s'. sfs_write (iobuf_init 40000 2000 4000) ex_sin ex_fs = Some (0, advanced 2000 (iobuf_init 40000 2000 4000), sin', s') \<and>
     fsize (din sin') = 6000 \<and> dirty sin' \<and> (\<forall>k<2000. file_byte sin' s' (4000 + k) = dmem ex_fs (40000 + k)) \<and>
     (\<forall>p<4000. file_byte sin' s' p = file_byte ex_sin ex_fs p)"
proof -
  have r: "region (io_base (iobuf_init 40000 2000 4000)) 2000 \<inter> own ex_fs = {}" by (auto simp: ex_own iobuf_init_def)
  from sfs_write_exact [OF ex_ok, of "iobuf_init 40000 2000 4000" 4000 2000, OF _ _ _ _ _ r] show ?thesis
    by (auto simp: ex_sin_data iobuf_init_def set_din_def)
qed

end
