(* ===== verification/FileTable.thy ===== *)
theory FileTable
  imports Vfs
begin

text \<open>
  The open files of a process, \<^verbatim>\<open>kern/fs/file.c\<close> and \<^verbatim>\<open>kern/fs/fs.c\<close>.  A \<^verbatim>\<open>struct file *\<close> is an index into the table of the
  current process.  The table has 72 entries: what is left of the page behind \<^verbatim>\<open>struct files_struct\<close> (48 bytes), divided
  by the 56 bytes of \<^verbatim>\<open>struct file\<close>, \<^verbatim>\<open>bool\<close> being 8 bytes wide here.
\<close>

unbundle bit_operations_syntax

abbreviation (input) NENTRY :: nat where "NENTRY \<equiv> 72"
abbreviation (input) NO_FD :: int where "NO_FD \<equiv> - 0x9527"
abbreviation (input) LSEEK_SET :: int where "LSEEK_SET \<equiv> 0"
abbreviation (input) LSEEK_CUR :: int where "LSEEK_CUR \<equiv> 1"
abbreviation (input) LSEEK_END :: int where "LSEEK_END \<equiv> 2"

datatype fd_status = FD_NONE | FD_INIT | FD_OPENED | FD_CLOSED

record "file" =
  status :: fd_status
  readable :: bool
  writable :: bool
  fd :: int
  pos :: int
  node :: "nat option"
  fopens :: int

record 'f procfs =
  vs :: "'f vfs"
  fds :: "file list"
  fcount :: int

definition upd_file :: "nat \<Rightarrow> (file \<Rightarrow> file) \<Rightarrow> 'f procfs \<Rightarrow> 'f procfs" where
  "upd_file i f s = s\<lparr>fds := (fds s)[i := f (fds s ! i)]\<rparr>"

definition testfd :: "int \<Rightarrow> bool" where
  "testfd x \<longleftrightarrow> 0 \<le> x \<and> x < int NENTRY"

section \<open>Table entries\<close>

definition fd_array_init :: "file list \<Rightarrow> file list" where
  "fd_array_init t = map (\<lambda>i. (t ! i)\<lparr>fopens := 0, status := FD_NONE, fd := int i\<rparr>) [0..<NENTRY]"

text \<open>\<^verbatim>\<open>get_fd_array\<close> asserts that the table is in use.\<close>

definition get_fd_array :: "'f procfs \<Rightarrow> file list option" where
  "get_fd_array s = do { kassert (fcount s > 0); Some (fds s) }"

fun find_free :: "file list \<Rightarrow> nat \<Rightarrow> nat option" where
  "find_free [] i = None"
| "find_free (f # fs) i = (if status f = FD_NONE then Some i else find_free fs (Suc i))"

definition alloc_found :: "nat \<Rightarrow> 'f procfs \<Rightarrow> (int \<times> nat option \<times> 'f procfs) option" where
  "alloc_found i s = do {
     kassert (fopens (fds s ! i) = 0);
     Some (0, Some i, upd_file i (\<lambda>f. f\<lparr>status := FD_INIT, node := None\<rparr>) s)
   }"

definition fd_array_alloc :: "int \<Rightarrow> 'f procfs \<Rightarrow> (int \<times> nat option \<times> 'f procfs) option" where
  "fd_array_alloc x s = do {
     t \<leftarrow> get_fd_array s;
     (if x = NO_FD
      then (case find_free (take NENTRY t) 0 of Some i \<Rightarrow> alloc_found i s | None \<Rightarrow> Some (- E_MAX_OPEN, None, s))
      else if testfd x
      then (if status (t ! nat x) = FD_NONE then alloc_found (nat x) s else Some (- E_BUSY, None, s))
      else Some (- E_INVAL, None, s))
   }"

definition fd_array_free :: "'f inode_ops \<Rightarrow> nat \<Rightarrow> 'f procfs \<Rightarrow> 'f procfs option" where
  "fd_array_free ops i s = do {
     let f = fds s ! i;
     kassert (status f = FD_INIT \<or> status f = FD_CLOSED);
     kassert (fopens f = 0);
     s \<leftarrow> (if status f = FD_CLOSED
           then do { n \<leftarrow> node f; (_, v) \<leftarrow> vfs_close ops n (vs s); Some (s\<lparr>vs := v\<rparr>) }
           else Some s);
     Some (upd_file i (\<lambda>f. f\<lparr>status := FD_NONE\<rparr>) s)
   }"

definition fd_array_acquire :: "nat \<Rightarrow> 'f procfs \<Rightarrow> 'f procfs option" where
  "fd_array_acquire i s = do {
     kassert (status (fds s ! i) = FD_OPENED);
     Some (upd_file i (\<lambda>f. f\<lparr>fopens := fopens f + 1\<rparr>) s)
   }"

definition fd_array_release :: "'f inode_ops \<Rightarrow> nat \<Rightarrow> 'f procfs \<Rightarrow> 'f procfs option" where
  "fd_array_release ops i s = do {
     kassert (status (fds s ! i) = FD_OPENED \<or> status (fds s ! i) = FD_CLOSED);
     kassert (fopens (fds s ! i) > 0);
     let s = upd_file i (\<lambda>f. f\<lparr>fopens := fopens f - 1\<rparr>) s;
     (if fopens (fds s ! i) = 0 then fd_array_free ops i s else Some s)
   }"

definition fd_array_open :: "nat \<Rightarrow> 'f procfs \<Rightarrow> 'f procfs option" where
  "fd_array_open i s = do {
     kassert (status (fds s ! i) = FD_INIT \<and> node (fds s ! i) \<noteq> None);
     Some (upd_file i (\<lambda>f. f\<lparr>status := FD_OPENED, fopens := fopens f + 1\<rparr>) s)
   }"

definition fd_array_close :: "'f inode_ops \<Rightarrow> nat \<Rightarrow> 'f procfs \<Rightarrow> 'f procfs option" where
  "fd_array_close ops i s = do {
     kassert (status (fds s ! i) = FD_OPENED);
     kassert (fopens (fds s ! i) > 0);
     let s = upd_file i (\<lambda>f. f\<lparr>status := FD_CLOSED, fopens := fopens f - 1\<rparr>) s;
     (if fopens (fds s ! i) = 0 then fd_array_free ops i s else Some s)
   }"

text \<open>\<open>from\<close> is an entry of this or of another table.\<close>

definition fd_array_dup :: "nat \<Rightarrow> file \<Rightarrow> 'f procfs \<Rightarrow> 'f procfs option" where
  "fd_array_dup to from s = do {
     kassert (status (fds s ! to) = FD_INIT \<and> status from = FD_OPENED);
     n \<leftarrow> node from;
     let s = s\<lparr>vs := inode_open_inc n (inode_ref_inc n (vs s))\<rparr>;
     fd_array_open to
       (upd_file to (\<lambda>f. f\<lparr>pos := pos from, readable := readable from, writable := writable from, node := Some n\<rparr>) s)
   }"

definition fd2file :: "int \<Rightarrow> 'f procfs \<Rightarrow> (int \<times> nat option) option" where
  "fd2file x s =
     (if testfd x
      then do {
        t \<leftarrow> get_fd_array s;
        Some (if status (t ! nat x) = FD_OPENED \<and> fd (t ! nat x) = x then (0, Some (nat x)) else (- E_INVAL, None))
      }
      else Some (- E_INVAL, None))"

definition file_testfd :: "int \<Rightarrow> bool \<Rightarrow> bool \<Rightarrow> 'f procfs \<Rightarrow> bool option" where
  "file_testfd x rd wr s = do {
     (ret, file) \<leftarrow> fd2file x s;
     Some (case file of
             None \<Rightarrow> False
           | Some i \<Rightarrow> \<not> (rd \<and> \<not> readable (fds s ! i)) \<and> \<not> (wr \<and> \<not> writable (fds s ! i)))
   }"

section \<open>File operations\<close>

definition file_open :: "'f inode_ops \<Rightarrow> 'f fs_ops \<Rightarrow> string \<Rightarrow> 32 word \<Rightarrow> 'f procfs \<Rightarrow> (int \<times> 'f procfs) option" where
  "file_open ops fo path fl s =
     (let acc = fl AND O_ACCMODE in
      if acc \<noteq> O_RDONLY \<and> acc \<noteq> O_WRONLY \<and> acc \<noteq> O_RDWR then Some (- E_INVAL, s)
      else do {
        (ret, file, s) \<leftarrow> fd_array_alloc NO_FD s;
        (case file of
           None \<Rightarrow> Some (ret, s)
         | Some i \<Rightarrow> do {
             (ret, node, v) \<leftarrow> vfs_open ops fo path fl (vs s);
             let s = s\<lparr>vs := v\<rparr>;
             (if ret \<noteq> 0 then do { s \<leftarrow> fd_array_free ops i s; Some (ret, s) }
              else do {
                n \<leftarrow> node;
                let s = upd_file i (\<lambda>f. f\<lparr>pos := 0\<rparr>) s;
                (ret, st, v) \<leftarrow> (if fl AND O_APPEND \<noteq> 0 then vop n (op_fstat ops n) (vs s)
                                else Some (0, \<lparr>st_mode = 0, st_nlinks = 0, st_blocks = 0, st_size = 0\<rparr>, vs s));
                let s = s\<lparr>vs := v\<rparr>;
                (if ret \<noteq> 0
                 then do {
                   (_, v) \<leftarrow> vfs_close ops n (vs s);
                   s \<leftarrow> fd_array_free ops i (s\<lparr>vs := v\<rparr>);
                   Some (ret, s)
                 }
                 else do {
                   let s = (if fl AND O_APPEND \<noteq> 0 then upd_file i (\<lambda>f. f\<lparr>pos := int (st_size st)\<rparr>) s else s);
                   s \<leftarrow> fd_array_open i
                         (upd_file i (\<lambda>f. f\<lparr>node := Some n, readable := acc \<noteq> O_WRONLY, writable := acc \<noteq> O_RDONLY\<rparr>) s);
                   Some (fd (fds s ! i), s)
                 })
              })
           })
      })"

definition file_close :: "'f inode_ops \<Rightarrow> int \<Rightarrow> 'f procfs \<Rightarrow> (int \<times> 'f procfs) option" where
  "file_close ops x s = do {
     (ret, file) \<leftarrow> fd2file x s;
     (case file of
        None \<Rightarrow> Some (ret, s)
      | Some i \<Rightarrow> do { s \<leftarrow> fd_array_close ops i s; Some (0, s) })
   }"

text \<open>The common part of \<^verbatim>\<open>file_read\<close> and \<^verbatim>\<open>file_write\<close>; the results are the return value and the bytes copied.\<close>

definition file_transfer ::
  "'f inode_ops \<Rightarrow> (nat \<Rightarrow> iobuf \<Rightarrow> 'f vfs \<Rightarrow> (int \<times> iobuf \<times> 'f vfs) option) \<Rightarrow> (file \<Rightarrow> bool) \<Rightarrow> int \<Rightarrow> nat \<Rightarrow> nat \<Rightarrow>
     'f procfs \<Rightarrow> (int \<times> nat \<times> 'f procfs) option" where
  "file_transfer ops move allowed x base len s = do {
     (ret, file) \<leftarrow> fd2file x s;
     (case file of
        None \<Rightarrow> Some (ret, 0, s)
      | Some i \<Rightarrow>
          (if \<not> allowed (fds s ! i) then Some (- E_INVAL, 0, s)
           else do {
             s \<leftarrow> fd_array_acquire i s;
             n \<leftarrow> node (fds s ! i);
             (ret, iob, v) \<leftarrow> vop n (move n (iobuf_init base len (pos (fds s ! i)))) (vs s);
             let s = s\<lparr>vs := v\<rparr>;
             let copied = iobuf_used iob;
             let s = (if status (fds s ! i) = FD_OPENED then upd_file i (\<lambda>f. f\<lparr>pos := pos f + int copied\<rparr>) s else s);
             s \<leftarrow> fd_array_release ops i s;
             Some (ret, copied, s)
           }))
   }"

definition file_read :: "'f inode_ops \<Rightarrow> int \<Rightarrow> nat \<Rightarrow> nat \<Rightarrow> 'f procfs \<Rightarrow> (int \<times> nat \<times> 'f procfs) option" where
  "file_read ops x base len s = file_transfer ops (op_read ops) readable x base len s"

definition file_write :: "'f inode_ops \<Rightarrow> int \<Rightarrow> nat \<Rightarrow> nat \<Rightarrow> 'f procfs \<Rightarrow> (int \<times> nat \<times> 'f procfs) option" where
  "file_write ops x base len s = file_transfer ops (op_write ops) writable x base len s"

definition file_seek :: "'f inode_ops \<Rightarrow> int \<Rightarrow> int \<Rightarrow> int \<Rightarrow> 'f procfs \<Rightarrow> (int \<times> 'f procfs) option" where
  "file_seek ops x p whence s = do {
     (ret, file) \<leftarrow> fd2file x s;
     (case file of
        None \<Rightarrow> Some (ret, s)
      | Some i \<Rightarrow> do {
          s \<leftarrow> fd_array_acquire i s;
          n \<leftarrow> node (fds s ! i);
          (ret, p, v) \<leftarrow>
            (if whence = LSEEK_SET then Some (0, p, vs s)
             else if whence = LSEEK_CUR then Some (0, p + pos (fds s ! i), vs s)
             else if whence = LSEEK_END
             then do { (ret, st, v) \<leftarrow> vop n (op_fstat ops n) (vs s); Some (ret, if ret = 0 then p + int (st_size st) else p, v) }
             else Some (- E_INVAL, p, vs s));
          let s = s\<lparr>vs := v\<rparr>;
          (ret, s) \<leftarrow>
            (if ret = 0
             then do {
               (ret, v) \<leftarrow> vop n (op_tryseek ops n p) (vs s);
               Some (ret, if ret = 0 then upd_file i (\<lambda>f. f\<lparr>pos := p\<rparr>) (s\<lparr>vs := v\<rparr>) else s\<lparr>vs := v\<rparr>)
             }
             else Some (ret, s));
          s \<leftarrow> fd_array_release ops i s;
          Some (ret, s)
        })
   }"

definition file_fstat :: "'f inode_ops \<Rightarrow> int \<Rightarrow> 'f procfs \<Rightarrow> (int \<times> stat option \<times> 'f procfs) option" where
  "file_fstat ops x s = do {
     (ret, file) \<leftarrow> fd2file x s;
     (case file of
        None \<Rightarrow> Some (ret, None, s)
      | Some i \<Rightarrow> do {
          s \<leftarrow> fd_array_acquire i s;
          n \<leftarrow> node (fds s ! i);
          (ret, st, v) \<leftarrow> vop n (op_fstat ops n) (vs s);
          s \<leftarrow> fd_array_release ops i (s\<lparr>vs := v\<rparr>);
          Some (ret, Some st, s)
        })
   }"

definition file_fsync :: "'f inode_ops \<Rightarrow> int \<Rightarrow> 'f procfs \<Rightarrow> (int \<times> 'f procfs) option" where
  "file_fsync ops x s = do {
     (ret, file) \<leftarrow> fd2file x s;
     (case file of
        None \<Rightarrow> Some (ret, s)
      | Some i \<Rightarrow> do {
          s \<leftarrow> fd_array_acquire i s;
          n \<leftarrow> node (fds s ! i);
          (ret, v) \<leftarrow> vop n (op_fsync ops n) (vs s);
          s \<leftarrow> fd_array_release ops i (s\<lparr>vs := v\<rparr>);
          Some (ret, s)
        })
   }"

text \<open>The directory entry is the address of its name (256 bytes) and its offset.\<close>

definition file_getdirentry :: "'f inode_ops \<Rightarrow> int \<Rightarrow> nat \<Rightarrow> int \<Rightarrow> 'f procfs \<Rightarrow> (int \<times> int \<times> 'f procfs) option" where
  "file_getdirentry ops x name off s = do {
     (ret, file) \<leftarrow> fd2file x s;
     (case file of
        None \<Rightarrow> Some (ret, off, s)
      | Some i \<Rightarrow> do {
          s \<leftarrow> fd_array_acquire i s;
          n \<leftarrow> node (fds s ! i);
          (ret, iob, v) \<leftarrow> vop n (op_getdirentry ops n (iobuf_init name 256 off)) (vs s);
          s \<leftarrow> fd_array_release ops i (s\<lparr>vs := v\<rparr>);
          Some (ret, if ret = 0 then off + int (iobuf_used iob) else off, s)
        })
   }"

definition file_dup :: "int \<Rightarrow> int \<Rightarrow> 'f procfs \<Rightarrow> (int \<times> 'f procfs) option" where
  "file_dup x1 x2 s = do {
     (ret, file1) \<leftarrow> fd2file x1 s;
     (case file1 of
        None \<Rightarrow> Some (ret, s)
      | Some i \<Rightarrow> do {
          (ret, file2, s) \<leftarrow> fd_array_alloc x2 s;
          (case file2 of
             None \<Rightarrow> Some (ret, s)
           | Some j \<Rightarrow> do { s \<leftarrow> fd_array_dup j (fds s ! i) s; Some (fd (fds s ! j), s) })
        })
   }"

section \<open>Whole tables\<close>

text \<open>\<^verbatim>\<open>files_create\<close> in memory that holds \<open>t\<close>.\<close>

definition files_create :: "bool \<Rightarrow> file list \<Rightarrow> 'f vfs \<Rightarrow> 'f procfs option" where
  "files_create got t v = (if got then Some \<lparr>vs = v\<lparr>pwd := None\<rparr>, fds = fd_array_init t, fcount = 0\<rparr> else None)"

fun close_loop :: "'f inode_ops \<Rightarrow> bool \<Rightarrow> nat list \<Rightarrow> 'f procfs \<Rightarrow> 'f procfs option" where
  "close_loop ops strict [] s = Some s"
| "close_loop ops strict (i # is) s = do {
     s \<leftarrow> (if status (fds s ! i) = FD_OPENED then fd_array_close ops i s else Some s);
     kassert (strict \<longrightarrow> status (fds s ! i) = FD_NONE);
     close_loop ops strict is s
   }"

definition files_destroy :: "'f inode_ops \<Rightarrow> 'f procfs \<Rightarrow> 'f procfs option" where
  "files_destroy ops s = do {
     kassert (fcount s = 0);
     v \<leftarrow> drop_ref ops (pwd (vs s)) (vs s);
     close_loop ops True [0..<NENTRY] (s\<lparr>vs := v\<rparr>)
   }"

definition files_closeall :: "'f inode_ops \<Rightarrow> 'f procfs \<Rightarrow> 'f procfs option" where
  "files_closeall ops s = do { kassert (fcount s > 0); close_loop ops False [2..<NENTRY] s }"

text \<open>\<open>from\<close> is the table of the parent; \<open>s\<close> has the new table \<^verbatim>\<open>to\<close>.\<close>

fun dup_loop :: "file list \<Rightarrow> nat list \<Rightarrow> 'f procfs \<Rightarrow> 'f procfs option" where
  "dup_loop from [] s = Some s"
| "dup_loop from (i # is) s = do {
     s \<leftarrow> (if status (from ! i) = FD_OPENED
           then fd_array_dup i (from ! i) (upd_file i (\<lambda>f. f\<lparr>status := FD_INIT\<rparr>) s)
           else Some s);
     dup_loop from is s
   }"

definition dup_files :: "nat option \<Rightarrow> file list \<Rightarrow> int \<Rightarrow> 'f procfs \<Rightarrow> (int \<times> 'f procfs) option" where
  "dup_files from_pwd from from_count s = do {
     kassert (fcount s = 0 \<and> from_count > 0);
     let v = (vs s)\<lparr>pwd := from_pwd\<rparr>;
     let v = (case from_pwd of None \<Rightarrow> v | Some n \<Rightarrow> inode_ref_inc n v);
     s \<leftarrow> dup_loop from [0..<NENTRY] (s\<lparr>vs := v\<rparr>);
     Some (0, s)
   }"

section \<open>Tables between two system calls\<close>

definition entry_ok :: "nat \<Rightarrow> file \<Rightarrow> bool" where
  "entry_ok i f \<longleftrightarrow> fd f = int i \<and>
     (status f = FD_NONE \<and> fopens f = 0 \<or> status f = FD_OPENED \<and> fopens f = 1 \<and> node f \<noteq> None)"

definition table_ok :: "file list \<Rightarrow> bool" where
  "table_ok t \<longleftrightarrow> length t = NENTRY \<and> (\<forall>i<NENTRY. entry_ok i (t ! i))"

lemma upd_file_sel [simp]:
  "vs (upd_file i f s) = vs s" "fcount (upd_file i f s) = fcount s" "length (fds (upd_file i f s)) = length (fds s)"
  "fds (upd_file i f s) ! j = (if j = i \<and> i < length (fds s) then f (fds s ! i) else fds s ! j)"
  by (auto simp: upd_file_def nth_list_update list_update_beyond)

lemma find_free_first:
  "i < length t \<Longrightarrow> status (t ! i) = FD_NONE \<Longrightarrow> (\<And>j. j < i \<Longrightarrow> status (t ! j) \<noteq> FD_NONE) \<Longrightarrow> find_free t k = Some (k + i)"
proof (induction t arbitrary: i k)
  case (Cons f t)
  show ?case
  proof (cases i)
    case 0
    then show ?thesis using Cons.prems by simp
  next
    case (Suc i')
    have "status f \<noteq> FD_NONE" using Cons.prems(3) [of 0] Suc by simp
    moreover have "find_free t (Suc k) = Some (Suc k + i')"
    proof (rule Cons.IH)
      show "i' < length t" "status (t ! i') = FD_NONE" using Cons.prems(1,2) Suc by simp_all
      show "status (t ! j) \<noteq> FD_NONE" if "j < i'" for j using Cons.prems(3) [of "Suc j"] that Suc by simp
    qed
    ultimately show ?thesis using Suc by simp
  qed
qed simp

lemma find_free_none: "(\<And>f. f \<in> set t \<Longrightarrow> status f \<noteq> FD_NONE) \<Longrightarrow> find_free t k = None"
  by (induction t arbitrary: k) auto

section \<open>Counting the references of a table\<close>

definition uses :: "file list \<Rightarrow> nat list \<Rightarrow> nat \<Rightarrow> int" where
  "uses t is n = (\<Sum>i\<leftarrow>is. if status (t ! i) = FD_OPENED \<and> node (t ! i) = Some n then 1 else 0)"

definition bump :: "(nat \<Rightarrow> int) \<Rightarrow> 'f vfs \<Rightarrow> 'f vfs" where
  "bump k v = v\<lparr>inodes := (\<lambda>n. (inodes v n)\<lparr>ref_count := ref_count (inodes v n) + k n, open_count := open_count (inodes v n) + k n\<rparr>)\<rparr>"

lemma uses_simps [simp]:
  "uses t [] n = 0"
  "uses t (i # is) n = (if status (t ! i) = FD_OPENED \<and> node (t ! i) = Some n then 1 else 0) + uses t is n"
  by (simp_all add: uses_def)

lemma uses_nonneg: "0 \<le> uses t is n"
  by (induction "is") auto

lemma uses_pos: "i \<in> set is \<Longrightarrow> status (t ! i) = FD_OPENED \<Longrightarrow> node (t ! i) = Some n \<Longrightarrow> 1 \<le> uses t is n"
  using uses_nonneg [of t] by (induction "is") (auto simp: add_increasing2)

lemma uses_like:
  "(\<And>i. i \<in> set is \<Longrightarrow> (status (t' ! i) = FD_OPENED) = (status (t ! i) = FD_OPENED) \<and>
      (status (t ! i) = FD_OPENED \<longrightarrow> node (t' ! i) = node (t ! i))) \<Longrightarrow> uses t' is n = uses t is n"
  by (induction "is") auto

lemma uses_cong: "(\<And>i. i \<in> set is \<Longrightarrow> t' ! i = t ! i) \<Longrightarrow> uses t' is n = uses t is n"
  by (induction "is") auto

lemma bump_0 [simp]: "bump (\<lambda>_. 0) v = v"
  by (simp add: bump_def)

lemma bump_bump: "bump k (bump l v) = bump (\<lambda>n. l n + k n) v"
  by (simp add: bump_def add.assoc)

lemma bump_one: "inode_open_inc n (inode_ref_inc n v) = bump (\<lambda>m. if m = n then 1 else 0) v"
  by (auto simp: bump_def inode_open_inc_def inode_ref_inc_def upd_inode_def fun_eq_iff)

text \<open>Closing a reference that is not the last one only counts down.\<close>

lemma vfs_close_shared:
  assumes "1 \<le> open_count (inodes v n)" and "1 \<le> ref_count (inodes v n)" and "0 \<le> k n"
  shows "vfs_close ops n (bump (\<lambda>m. (if m = n then 1 else 0) + k m) v) = Some (0, bump k v)"
proof -
  have "upd_inode n (\<lambda>i. i\<lparr>ref_count := ref_count i - 1\<rparr>) (upd_inode n (\<lambda>i. i\<lparr>open_count := open_count i - 1\<rparr>)
      (bump (\<lambda>m. (if m = n then 1 else 0) + k m) v)) = bump k v"
    by (auto simp: bump_def upd_inode_def fun_eq_iff)
  moreover have "inodes (bump (\<lambda>m. (if m = n then 1 else 0) + k m) v) n =
      (inodes v n)\<lparr>ref_count := ref_count (inodes v n) + 1 + k n, open_count := open_count (inodes v n) + 1 + k n\<rparr>"
    by (simp add: bump_def)
  moreover have "ref_count (inodes (bump k v) n) = ref_count (inodes v n) + k n" by (simp add: bump_def)
  ultimately show ?thesis using assms
    by (simp add: vfs_close_def inode_open_dec_def inode_ref_dec_def Let_def) (simp add: upd_inode_def)
qed

lemma drop_ref_shared:
  assumes "\<forall>n. p = Some n \<longrightarrow> 1 \<le> ref_count (inodes v n) + k n"
  shows "drop_ref ops p (bump k (case p of None \<Rightarrow> v | Some n \<Rightarrow> inode_ref_inc n v)) = Some (bump k v)"
proof (cases p)
  case (Some n)
  have "upd_inode n (\<lambda>i. i\<lparr>ref_count := ref_count i - 1\<rparr>) (bump k (inode_ref_inc n v)) = bump k v"
    by (auto simp: bump_def inode_ref_inc_def upd_inode_def fun_eq_iff)
  moreover have "ref_count (inodes (bump k (inode_ref_inc n v)) n) = ref_count (inodes v n) + 1 + k n"
    "ref_count (inodes (bump k v) n) = ref_count (inodes v n) + k n"
    by (simp_all add: bump_def inode_ref_inc_def upd_inode_def)
  ultimately show ?thesis using assms Some by (simp add: drop_ref_def inode_ref_dec_def)
qed (simp add: drop_ref_def)

lemma fd_array_close_one:
  assumes "i < length (fds s)" and "status (fds s ! i) = FD_OPENED" and "fopens (fds s ! i) = 1" and "node (fds s ! i) = Some n"
    and "vfs_close ops n (vs s) = Some (r, v)"
  shows "\<exists>s'. fd_array_close ops i s = Some s' \<and> vs s' = v \<and> fcount s' = fcount s \<and> length (fds s') = length (fds s) \<and>
     (\<forall>j. fds s' ! j = (if j = i then (fds s ! i)\<lparr>status := FD_NONE, fopens := 0\<rparr> else fds s ! j))"
  using assms by (auto simp: fd_array_close_def fd_array_free_def upd_file_def nth_list_update)

text \<open>The table of a child and its destruction while the parent keeps its files.\<close>

definition copied :: "file \<Rightarrow> file \<Rightarrow> file" where
  "copied from f = f\<lparr>pos := pos from, readable := readable from, writable := writable from, node := node from,
     status := FD_OPENED, fopens := fopens f + 1\<rparr>"

lemma dup_loop_ok:
  assumes "distinct is" and "\<And>i. i \<in> set is \<Longrightarrow> i < length (fds s)"
    and "\<And>i. i \<in> set is \<Longrightarrow> status (from ! i) = FD_OPENED \<Longrightarrow> node (from ! i) \<noteq> None"
  shows "\<exists>s'. dup_loop from is s = Some s' \<and> vs s' = bump (uses from is) (vs s) \<and> fcount s' = fcount s \<and>
     length (fds s') = length (fds s) \<and>
     (\<forall>j. fds s' ! j = (if j \<in> set is \<and> status (from ! j) = FD_OPENED then copied (from ! j) (fds s ! j) else fds s ! j))"
  using assms
proof (induction "is" arbitrary: s)
  case Nil
  have "uses from [] = (\<lambda>_. 0)" by (simp add: fun_eq_iff)
  then show ?case by simp
next
  case (Cons i "is")
  show ?case
  proof (cases "status (from ! i) = FD_OPENED")
    case False
    then have "uses from (i # is) = uses from is" by (simp add: fun_eq_iff)
    then show ?thesis using Cons.IH [of s] Cons.prems False by auto
  next
    case True
    then obtain n where n: "node (from ! i) = Some n" using Cons.prems(3) by auto
    have il: "i < length (fds s)" using Cons.prems(2) by simp
    obtain s1 where s1: "fd_array_dup i (from ! i) (upd_file i (\<lambda>f. f\<lparr>status := FD_INIT\<rparr>) s) = Some s1"
      "vs s1 = bump (\<lambda>m. if m = n then 1 else 0) (vs s)" "fcount s1 = fcount s" "length (fds s1) = length (fds s)"
      "\<forall>j. fds s1 ! j = (if j = i then copied (from ! i) (fds s ! i) else fds s ! j)"
      using True n il by (auto simp: fd_array_dup_def fd_array_open_def upd_file_def nth_list_update copied_def bump_one)
    have "\<exists>s'. dup_loop from is s1 = Some s' \<and> vs s' = bump (uses from is) (vs s1) \<and> fcount s' = fcount s1 \<and>
        length (fds s') = length (fds s1) \<and>
        (\<forall>j. fds s' ! j = (if j \<in> set is \<and> status (from ! j) = FD_OPENED then copied (from ! j) (fds s1 ! j) else fds s1 ! j))"
      by (rule Cons.IH) (use Cons.prems s1(4) in auto)
    then obtain s' where s': "dup_loop from is s1 = Some s'" "vs s' = bump (uses from is) (vs s1)" "fcount s' = fcount s1"
      "length (fds s') = length (fds s1)"
      "\<forall>j. fds s' ! j = (if j \<in> set is \<and> status (from ! j) = FD_OPENED then copied (from ! j) (fds s1 ! j) else fds s1 ! j)"
      by blast
    have "uses from (i # is) = (\<lambda>m. (if m = n then 1 else 0) + uses from is m)" using True n by (auto simp: fun_eq_iff)
    then have "vs s' = bump (uses from (i # is)) (vs s)" using s'(2) s1(2) by (simp add: bump_bump)
    moreover have "\<forall>j. fds s' ! j = (if j \<in> set (i # is) \<and> status (from ! j) = FD_OPENED then copied (from ! j) (fds s ! j) else fds s ! j)"
      using s1(5) s'(5) True Cons.prems(1) by auto
    ultimately show ?thesis using s1(1,3,4) s'(1,3,4) True by (intro exI [of _ s'] conjI) (simp_all del: uses_simps)
  qed
qed

lemma close_loop_ok:
  assumes "distinct is" and "\<And>i. i \<in> set is \<Longrightarrow> i < length (fds s) \<and> entry_ok i (fds s ! i)"
    and "vs s = bump (uses (fds s) is) v"
    and "\<And>i n. i \<in> set is \<Longrightarrow> status (fds s ! i) = FD_OPENED \<Longrightarrow> node (fds s ! i) = Some n \<Longrightarrow>
      1 \<le> open_count (inodes v n) \<and> 1 \<le> ref_count (inodes v n)"
  shows "\<exists>s'. close_loop ops strict is s = Some s' \<and> vs s' = v \<and> (\<forall>i\<in>set is. status (fds s' ! i) = FD_NONE) \<and>
     (\<forall>j. j \<notin> set is \<longrightarrow> fds s' ! j = fds s ! j)"
  using assms
proof (induction "is" arbitrary: s)
  case Nil
  have "uses (fds s) [] = (\<lambda>_. 0)" by (simp add: fun_eq_iff)
  then show ?case using Nil by simp
next
  case (Cons i "is")
  have il: "i < length (fds s)" "entry_ok i (fds s ! i)" using Cons.prems(2) by auto
  show ?case
  proof (cases "status (fds s ! i) = FD_OPENED")
    case False
    then have none: "status (fds s ! i) = FD_NONE" using il(2) by (auto simp: entry_ok_def)
    have "uses (fds s) (i # is) = uses (fds s) is" using False by (simp add: fun_eq_iff)
    then have "\<exists>s'. close_loop ops strict is s = Some s' \<and> vs s' = v \<and> (\<forall>i\<in>set is. status (fds s' ! i) = FD_NONE) \<and>
       (\<forall>j. j \<notin> set is \<longrightarrow> fds s' ! j = fds s ! j)"
      by (intro Cons.IH) (use Cons.prems in auto)
    then show ?thesis using none Cons.prems(1) by auto
  next
    case True
    then obtain n where n: "node (fds s ! i) = Some n" "fopens (fds s ! i) = 1" using il(2) by (auto simp: entry_ok_def)
    have "uses (fds s) (i # is) = (\<lambda>m. (if m = n then 1 else 0) + uses (fds s) is m)" using True n by (auto simp: fun_eq_iff)
    then have "vfs_close ops n (vs s) = Some (0, bump (uses (fds s) is) v)"
      using vfs_close_shared [of v n "uses (fds s) is" ops] Cons.prems(3) Cons.prems(4) [of i n] True n uses_nonneg by simp
    from fd_array_close_one [OF il(1) True n(2,1) this] obtain s1 where s1: "fd_array_close ops i s = Some s1"
      "vs s1 = bump (uses (fds s) is) v" "length (fds s1) = length (fds s)"
      "\<forall>j. fds s1 ! j = (if j = i then (fds s ! i)\<lparr>status := FD_NONE, fopens := 0\<rparr> else fds s ! j)" by blast
    have same: "fds s1 ! j = fds s ! j" if "j \<in> set is" for j using s1(4) that Cons.prems(1) by auto
    have "uses (fds s1) is = uses (fds s) is" using uses_cong [of "is" "fds s1" "fds s"] same by (simp add: fun_eq_iff)
    then have "\<exists>s'. close_loop ops strict is s1 = Some s' \<and> vs s' = v \<and> (\<forall>i\<in>set is. status (fds s' ! i) = FD_NONE) \<and>
       (\<forall>j. j \<notin> set is \<longrightarrow> fds s' ! j = fds s1 ! j)"
      by (intro Cons.IH) (use Cons.prems s1(2,3) same in auto)
    then show ?thesis using s1 True Cons.prems(1) by auto
  qed
qed

section \<open>Opening a file\<close>

lemma file_open_full:
  assumes "table_ok (fds s)" and "fcount s > 0" and "fl AND O_ACCMODE \<in> {O_RDONLY, O_WRONLY, O_RDWR}"
    and "\<forall>j<NENTRY. status (fds s ! j) \<noteq> FD_NONE"
  shows "file_open ops fo path fl s = Some (- E_MAX_OPEN, s)"
proof -
  have "find_free (take NENTRY (fds s)) 0 = None"
    by (rule find_free_none) (use assms(1,4) in \<open>auto simp: table_ok_def in_set_conv_nth\<close>)
  then show ?thesis using assms(2,3) by (auto simp: file_open_def fd_array_alloc_def get_fd_array_def)
qed

text \<open>The entry after a successful open.\<close>

definition opened :: "nat \<Rightarrow> 32 word \<Rightarrow> file \<Rightarrow> file" where
  "opened n fl f = f\<lparr>pos := 0, node := Some n, readable := fl AND O_ACCMODE \<noteq> O_WRONLY,
     writable := fl AND O_ACCMODE \<noteq> O_RDONLY, status := FD_OPENED, fopens := 1\<rparr>"

lemma file_open_free:
  assumes tb: "table_ok (fds s)" and fc: "fcount s > 0" and acc: "fl AND O_ACCMODE \<in> {O_RDONLY, O_WRONLY, O_RDWR}"
    and app: "fl AND O_APPEND = 0" and i: "i < NENTRY" "status (fds s ! i) = FD_NONE" "\<forall>j<i. status (fds s ! j) \<noteq> FD_NONE"
    and vo: "vfs_open ops fo path fl (vs s) = Some (0, Some n, v)"
  shows "file_open ops fo path fl s = Some (int i, s\<lparr>vs := v, fds := (fds s)[i := opened n fl (fds s ! i)]\<rparr>)"
proof -
  have len: "length (fds s) = NENTRY" and e: "fd (fds s ! i) = int i" "fopens (fds s ! i) = 0"
    using tb i by (auto simp: table_ok_def entry_ok_def)
  have "find_free (take NENTRY (fds s)) 0 = Some (0 + i)"
    by (rule find_free_first) (use i len in auto)
  then have al: "fd_array_alloc NO_FD s = Some (0, Some i, upd_file i (\<lambda>f. f\<lparr>status := FD_INIT, node := None\<rparr>) s)"
    using fc e by (simp add: fd_array_alloc_def get_fd_array_def alloc_found_def)
  show ?thesis using acc app al vo i(1) len e
    by (auto simp: file_open_def fd_array_open_def upd_file_def opened_def)
qed

section \<open>The properties\<close>

definition unused :: "nat \<Rightarrow> file" where
  "unused i = \<lparr>status = FD_NONE, readable = False, writable = False, fd = int i, pos = 0, node = None, fopens = 0\<rparr>"

definition new_files :: "unit procfs" where
  "new_files = \<lparr>vs = small_vfs, fds = map unused [0..<NENTRY], fcount = 0\<rparr>"

definition one_open :: "file list" where
  "one_open = (map unused [0..<NENTRY])[2 := (unused 2)\<lparr>status := FD_OPENED, node := Some 7, fopens := 1\<rparr>]"

definition some_files :: "unit procfs" where
  "some_files = new_files\<lparr>fcount := 1\<rparr>"

lemma sample_tables: "table_ok (fds new_files)" "table_ok one_open" "table_ok (fds some_files)"
  by (simp_all add: table_ok_def entry_ok_def new_files_def one_open_def some_files_def unused_def nth_list_update)



text \<open>A fork and the later exit of the child leave every inode as it was.  \<^verbatim>\<open>dup_files\<close> gives the child the same open files as
  the parent and counts each of them once more; \<^verbatim>\<open>files_destroy\<close> of the child's table gives exactly these references back
  without closing or reclaiming an inode that the parent still has open.\<close>

theorem dup_files_destroy:
  assumes old: "table_ok from" and c: "c > 0" and new: "table_ok (fds s)" "\<forall>i<NENTRY. status (fds s ! i) = FD_NONE" "fcount s = 0"
    and held: "\<forall>n. uses from [0..<NENTRY] n \<le> open_count (inodes (vs s) n)" "\<forall>n. open_count (inodes (vs s) n) \<le> ref_count (inodes (vs s) n)"
    and pw: "\<forall>n. p = Some n \<longrightarrow> 1 \<le> ref_count (inodes (vs s) n)"
  shows "\<exists>s1 s2. dup_files p from c s = Some (0, s1) \<and> table_ok (fds s1) \<and>
     (\<forall>i<NENTRY. status (from ! i) = FD_OPENED \<longrightarrow> status (fds s1 ! i) = FD_OPENED \<and> node (fds s1 ! i) = node (from ! i) \<and>
        pos (fds s1 ! i) = pos (from ! i) \<and> readable (fds s1 ! i) = readable (from ! i) \<and> writable (fds s1 ! i) = writable (from ! i)) \<and>
     (\<forall>n. open_count (inodes (vs s1) n) = open_count (inodes (vs s) n) + uses from [0..<NENTRY] n) \<and>
     files_destroy ops s1 = Some s2 \<and> inodes (vs s2) = inodes (vs s) \<and> fsdata (vs s2) = fsdata (vs s)"
proof -
  let ?all = "[0..<NENTRY]"
  define v0 where "v0 = (vs s)\<lparr>pwd := p\<rparr>"
  define v1 where "v1 = (case p of None \<Rightarrow> v0 | Some n \<Rightarrow> inode_ref_inc n v0)"
  have len: "length (fds s) = NENTRY" using new(1) by (simp add: table_ok_def)
  have "\<exists>s'. dup_loop from ?all (s\<lparr>vs := v1\<rparr>) = Some s' \<and> vs s' = bump (uses from ?all) (vs (s\<lparr>vs := v1\<rparr>)) \<and>
     fcount s' = fcount (s\<lparr>vs := v1\<rparr>) \<and> length (fds s') = length (fds (s\<lparr>vs := v1\<rparr>)) \<and>
     (\<forall>j. fds s' ! j = (if j \<in> set ?all \<and> status (from ! j) = FD_OPENED then copied (from ! j) (fds (s\<lparr>vs := v1\<rparr>) ! j) else fds (s\<lparr>vs := v1\<rparr>) ! j))"
    by (rule dup_loop_ok) (use old len in \<open>auto simp: table_ok_def entry_ok_def\<close>)
  then obtain s1 where s1: "dup_loop from ?all (s\<lparr>vs := v1\<rparr>) = Some s1" "vs s1 = bump (uses from ?all) v1" "fcount s1 = 0"
    "length (fds s1) = NENTRY"
    "\<And>j. j < NENTRY \<Longrightarrow> fds s1 ! j = (if status (from ! j) = FD_OPENED then copied (from ! j) (fds s ! j) else fds s ! j)"
    using len new(3) by auto
  have run: "dup_files p from c s = Some (0, s1)" using s1(1) [unfolded v1_def v0_def] new(3) c by (simp add: dup_files_def Let_def)
  have opn: "status (fds s1 ! j) = FD_OPENED \<longleftrightarrow> status (from ! j) = FD_OPENED"
    "status (from ! j) = FD_OPENED \<Longrightarrow> node (fds s1 ! j) = node (from ! j)" if "j < NENTRY" for j
    using s1(5) [OF that] new(2) that by (auto simp: copied_def)
  have t1: "table_ok (fds s1)"
    unfolding table_ok_def
  proof (intro conjI allI impI)
    fix i assume i: "i < NENTRY"
    then have "entry_ok i (fds s ! i)" "entry_ok i (from ! i)" "status (fds s ! i) = FD_NONE" using new old by (auto simp: table_ok_def)
    then show "entry_ok i (fds s1 ! i)" using s1(5) [OF i] by (auto simp: entry_ok_def copied_def)
  qed (rule s1(4))
  have us: "uses (fds s1) ?all = uses from ?all" using opn by (intro ext uses_like) auto
  have dr: "drop_ref ops (pwd (vs s1)) (vs s1) = Some (bump (uses from ?all) v0)"
  proof -
    have "pwd (vs s1) = p" by (simp add: s1(2) bump_def v1_def v0_def inode_ref_inc_def upd_inode_def split: option.splits)
    moreover have "\<forall>n. p = Some n \<longrightarrow> 1 \<le> ref_count (inodes v0 n) + uses from ?all n"
      using pw uses_nonneg [of "from" ?all] by (auto simp: v0_def add_increasing2)
    ultimately show ?thesis unfolding s1(2) v1_def using drop_ref_shared by simp
  qed
  have "\<exists>s'. close_loop ops True ?all (s1\<lparr>vs := bump (uses from ?all) v0\<rparr>) = Some s' \<and> vs s' = v0 \<and>
      (\<forall>i\<in>set ?all. status (fds s' ! i) = FD_NONE) \<and> (\<forall>j. j \<notin> set ?all \<longrightarrow> fds s' ! j = fds (s1\<lparr>vs := bump (uses from ?all) v0\<rparr>) ! j)"
  proof (rule close_loop_ok)
    fix i n assume a: "i \<in> set ?all" "status (fds (s1\<lparr>vs := bump (uses from ?all) v0\<rparr>) ! i) = FD_OPENED"
      "node (fds (s1\<lparr>vs := bump (uses from ?all) v0\<rparr>) ! i) = Some n"
    then have "1 \<le> uses from ?all n" using opn by (intro uses_pos) auto
    then show "1 \<le> open_count (inodes v0 n) \<and> 1 \<le> ref_count (inodes v0 n)" 
      using spec [OF held(1), of n] spec [OF held(2), of n] by (simp add: v0_def)
  qed (use t1 us in \<open>auto simp: table_ok_def\<close>)
  then obtain s2 where s2: "files_destroy ops s1 = Some s2" "vs s2 = v0" using dr s1(3) by (auto simp: files_destroy_def)
  have "open_count (inodes (vs s1) n) = open_count (inodes (vs s) n) + uses from ?all n" for n
    by (auto simp: s1(2) bump_def v1_def v0_def inode_ref_inc_def upd_inode_def split: option.splits)
  moreover have "status (fds s1 ! i) = FD_OPENED \<and> node (fds s1 ! i) = node (from ! i) \<and> pos (fds s1 ! i) = pos (from ! i) \<and>
      readable (fds s1 ! i) = readable (from ! i) \<and> writable (fds s1 ! i) = writable (from ! i)"
    if "i < NENTRY" "status (from ! i) = FD_OPENED" for i using s1(5) [OF that(1)] that(2) by (simp add: copied_def)
  ultimately show ?thesis using run t1 s2 by (intro exI [of _ s1] exI [of _ s2]) (simp add: v0_def)
qed

theorem dup_files_destroy_witness:
  "\<exists>s1 s2. dup_files (Some 7) one_open 1 new_files = Some (0, s1) \<and> open_count (inodes (vs s1) 7) = 2 \<and>
     files_destroy no_ops s1 = Some s2 \<and> inodes (vs s2) = inodes (vs new_files)"
proof -
  have at: "one_open ! j = (if j = 2 then (unused 2)\<lparr>status := FD_OPENED, node := Some 7, fopens := 1\<rparr> else unused j)" if "j < NENTRY" for j
    using that by (simp add: one_open_def nth_list_update)
  have "uses one_open [0..<NENTRY] n = (if n = 7 then 1 else 0)" for n
  proof -
    have split: "[0..<NENTRY] = [0..<2] @ 2 # [3..<NENTRY]" by (simp add: upt_rec)
    have z: "uses one_open is n = 0" if "\<forall>j\<in>set is. j < NENTRY \<and> j \<noteq> 2" for "is"
      using that by (induction "is") (auto simp: at unused_def)
    have "uses one_open [0..<2] n = 0" "uses one_open [3..<NENTRY] n = 0" by (rule z; simp)+
    then show ?thesis unfolding split by (simp add: uses_def at)
  qed
  then have u: "uses one_open [0..<NENTRY] = (\<lambda>n. if n = 7 then 1 else 0)" by blast
  have n: "\<forall>i<NENTRY. status (fds new_files ! i) = FD_NONE" "fcount new_files = 0"
    "\<And>n. inodes (vs new_files) n = \<lparr>ref_count = 1, open_count = 1, in_fs = Some 0, in_device = False\<rparr>"
    by (simp_all add: new_files_def small_vfs_def unused_def)
  have "\<forall>n. uses one_open [0..<NENTRY] n \<le> open_count (inodes (vs new_files) n)"
    "\<forall>n. open_count (inodes (vs new_files) n) \<le> ref_count (inodes (vs new_files) n)"
    "\<forall>n. Some 7 = Some n \<longrightarrow> 1 \<le> ref_count (inodes (vs new_files) n)" by (simp_all add: u n(3))
  from dup_files_destroy [OF sample_tables(2) _ sample_tables(1) n(1,2) this, of 1 no_ops] obtain s1 s2 where
    "dup_files (Some 7) one_open 1 new_files = Some (0, s1)" "\<forall>n. open_count (inodes (vs s1) n) = 1 + uses one_open [0..<NENTRY] n"
    "files_destroy no_ops s1 = Some s2" "inodes (vs s2) = inodes (vs new_files)" by (auto simp: n(3))
  then show ?thesis by (simp add: u)
qed

end
