(* ===== verification/SysFile.thy ===== *)
theory SysFile
  imports FileTable Vmm
begin

text \<open>
  The system calls on files, \<^verbatim>\<open>kern/fs/sysfile.c\<close>: they carry paths, data and structures between the memory of the user
  and buffers of the kernel, and call \<^verbatim>\<open>file.c\<close> and \<^verbatim>\<open>vfs\<close>.  Both memories are one address space, \<open>kmem\<close> of the virtual
  file system.  Whether and where \<^verbatim>\<open>kmalloc\<close> finds a buffer is an argument of each call; \<open>live\<close> are the buffers that are not
  yet freed.  The lock of the address space is not represented.
\<close>

abbreviation (input) IOBUF_SIZE :: nat where "IOBUF_SIZE \<equiv> 4096"
abbreviation (input) FS_MAX_FPATH_LEN :: nat where "FS_MAX_FPATH_LEN \<equiv> 4095"
abbreviation (input) FS_MAX_FNAME_LEN :: nat where "FS_MAX_FNAME_LEN \<equiv> 255"

record 'f uproc =
  pf :: "'f procfs"
  umm :: "mm_struct option"
  live :: "nat list"

abbreviation mem :: "'f uproc \<Rightarrow> cmem" where
  "mem s \<equiv> kmem (vs (pf s))"

definition set_mem :: "cmem \<Rightarrow> 'f uproc \<Rightarrow> 'f uproc" where
  "set_mem m s = s\<lparr>pf := (pf s)\<lparr>vs := (vs (pf s))\<lparr>kmem := m\<rparr>\<rparr>\<rparr>"

definition set_vs :: "'f vfs \<Rightarrow> 'f uproc \<Rightarrow> 'f uproc" where
  "set_vs v s = s\<lparr>pf := (pf s)\<lparr>vs := v\<rparr>\<rparr>"

definition release :: "nat \<Rightarrow> 'f uproc \<Rightarrow> 'f uproc" where
  "release b s = s\<lparr>live := remove1 b (live s)\<rparr>"

section \<open>Between user and kernel\<close>

definition to_user :: "nat \<Rightarrow> nat \<Rightarrow> nat \<Rightarrow> 'f uproc \<Rightarrow> bool \<times> 'f uproc" where
  "to_user dst src len s = (case copy_to_user (umm s) (mem s) dst src len of (r, m, x) \<Rightarrow> (r, set_mem m (s\<lparr>umm := x\<rparr>)))"

definition from_user :: "nat \<Rightarrow> nat \<Rightarrow> nat \<Rightarrow> bool \<Rightarrow> 'f uproc \<Rightarrow> bool \<times> 'f uproc" where
  "from_user dst src len w s = (case copy_from_user (umm s) (mem s) dst src len w of (r, m, x) \<Rightarrow> (r, set_mem m (s\<lparr>umm := x\<rparr>)))"

text \<open>The string at an address, and the bytes of a number, lowest first.\<close>

definition string_at :: "cmem \<Rightarrow> nat \<Rightarrow> nat \<Rightarrow> string" where
  "string_at m a n = map (\<lambda>b. char_of (unat b)) (takeWhile (\<lambda>b. b \<noteq> 0) (map m [a..<a + n]))"

definition le_bytes :: "nat \<Rightarrow> nat \<Rightarrow> 8 word list" where
  "le_bytes n v = map (\<lambda>i. word_of_nat (v div 256 ^ i)) [0..<n]"

definition le_value :: "8 word list \<Rightarrow> nat" where
  "le_value bs = (\<Sum>i<length bs. unat (bs ! i) * 256 ^ i)"

definition store_at :: "cmem \<Rightarrow> nat \<Rightarrow> 8 word list \<Rightarrow> cmem" where
  "store_at m a bs = (\<lambda>x. if a \<le> x \<and> x < a + length bs then bs ! (x - a) else m x)"

text \<open>\<^verbatim>\<open>copy_path\<close>: the error, or the address and the text of the copied path.\<close>

definition copy_path :: "nat option \<Rightarrow> nat \<Rightarrow> 'f uproc \<Rightarrow> (int + nat \<times> string) \<times> 'f uproc" where
  "copy_path got src s =
     (case got of
        None \<Rightarrow> (Inl (- E_NO_MEM), s)
      | Some b \<Rightarrow>
          (let s = s\<lparr>live := b # live s\<rparr> in
           case copy_string (umm s) (mem s) b src (FS_MAX_FPATH_LEN + 1) of (r, m, x) \<Rightarrow>
             let s = set_mem m (s\<lparr>umm := x\<rparr>) in
             if \<not> r then (Inl (- E_INVAL), release b s) else (Inr (b, string_at m b (FS_MAX_FPATH_LEN + 1)), s)))"

section \<open>The calls\<close>

definition sysfile_open :: "'f inode_ops \<Rightarrow> 'f fs_ops \<Rightarrow> nat option \<Rightarrow> nat \<Rightarrow> 32 word \<Rightarrow> 'f uproc \<Rightarrow> (int \<times> 'f uproc) option" where
  "sysfile_open ops fo got path fl s =
     (case copy_path got path s of
        (Inl e, s) \<Rightarrow> Some (e, s)
      | (Inr (b, name), s) \<Rightarrow> do { (ret, p) \<leftarrow> file_open ops fo name fl (pf s); Some (ret, release b (s\<lparr>pf := p\<rparr>)) })"

definition sysfile_close :: "'f inode_ops \<Rightarrow> int \<Rightarrow> 'f uproc \<Rightarrow> (int \<times> 'f uproc) option" where
  "sysfile_close ops x s = do { (ret, p) \<leftarrow> file_close ops x (pf s); Some (ret, s\<lparr>pf := p\<rparr>) }"

text \<open>The loops of \<^verbatim>\<open>sysfile_read\<close> and \<^verbatim>\<open>sysfile_write\<close>; the results are \<^verbatim>\<open>ret\<close> and \<^verbatim>\<open>copied\<close> at \<^verbatim>\<open>out\<close>.\<close>

partial_function (option) sys_read_loop ::
  "'f inode_ops \<Rightarrow> int \<Rightarrow> nat \<Rightarrow> nat \<Rightarrow> nat \<Rightarrow> nat \<Rightarrow> 'f uproc \<Rightarrow> (int \<times> nat \<times> 'f uproc) option" where
  "sys_read_loop ops x buffer base len ncopied s =
     (if len = 0 then Some (0, ncopied, s)
      else do {
        (ret, alen, p) \<leftarrow> file_read ops x buffer (if IOBUF_SIZE > len then len else IOBUF_SIZE) (pf s);
        let s = s\<lparr>pf := p\<rparr>;
        let (r, s) = (if alen \<noteq> 0 then to_user base buffer alen s else (True, s));
        kassert (alen \<noteq> 0 \<and> r \<longrightarrow> len \<ge> alen);
        let ret = (if \<not> r \<and> ret = 0 then - E_INVAL else ret);
        let done' = (if r then alen else 0);
        (if ret \<noteq> 0 \<or> alen = 0 then Some (ret, ncopied + done', s)
         else sys_read_loop ops x buffer (base + done') (len - done') (ncopied + done') s)
      })"

partial_function (option) sys_write_loop ::
  "'f inode_ops \<Rightarrow> int \<Rightarrow> nat \<Rightarrow> nat \<Rightarrow> nat \<Rightarrow> nat \<Rightarrow> 'f uproc \<Rightarrow> (int \<times> nat \<times> 'f uproc) option" where
  "sys_write_loop ops x buffer base len ncopied s =
     (if len = 0 then Some (0, ncopied, s)
      else do {
        let alen = (if IOBUF_SIZE > len then len else IOBUF_SIZE);
        let (r, s) = from_user buffer base alen False s;
        (if \<not> r then Some (- E_INVAL, ncopied, s)
         else do {
           (ret, alen, p) \<leftarrow> file_write ops x buffer alen (pf s);
           let s = s\<lparr>pf := p\<rparr>;
           kassert (alen \<noteq> 0 \<longrightarrow> len \<ge> alen);
           (if ret \<noteq> 0 \<or> alen = 0 then Some (ret, ncopied + alen, s)
            else sys_write_loop ops x buffer (base + alen) (len - alen) (ncopied + alen) s)
         })
      })"

text \<open>The value of \<^verbatim>\<open>return copied\<close> in a function that returns an \<^verbatim>\<open>int\<close>.\<close>

definition as_int :: "nat \<Rightarrow> int" where
  "as_int n = (if n mod 2 ^ 32 < 2 ^ 31 then int (n mod 2 ^ 32) else int (n mod 2 ^ 32) - 2 ^ 32)"

definition sysfile_read :: "'f inode_ops \<Rightarrow> nat option \<Rightarrow> int \<Rightarrow> nat \<Rightarrow> nat \<Rightarrow> 'f uproc \<Rightarrow> (int \<times> 'f uproc) option" where
  "sysfile_read ops got x base len s =
     (if len = 0 then Some (0, s)
      else do {
        ok \<leftarrow> file_testfd x True False (pf s);
        (if \<not> ok then Some (- E_INVAL, s)
         else case got of
           None \<Rightarrow> Some (- E_NO_MEM, s)
         | Some b \<Rightarrow> do {
             (ret, ncopied, s) \<leftarrow> sys_read_loop ops x b base len 0 (s\<lparr>live := b # live s\<rparr>);
             Some (if ncopied \<noteq> 0 then as_int ncopied else ret, release b s)
           })
      })"

definition sysfile_write :: "'f inode_ops \<Rightarrow> nat option \<Rightarrow> int \<Rightarrow> nat \<Rightarrow> nat \<Rightarrow> 'f uproc \<Rightarrow> (int \<times> 'f uproc) option" where
  "sysfile_write ops got x base len s =
     (if len = 0 then Some (0, s)
      else do {
        ok \<leftarrow> file_testfd x False True (pf s);
        (if \<not> ok then Some (- E_INVAL, s)
         else case got of
           None \<Rightarrow> Some (- E_NO_MEM, s)
         | Some b \<Rightarrow> do {
             (ret, ncopied, s) \<leftarrow> sys_write_loop ops x b base len 0 (s\<lparr>live := b # live s\<rparr>);
             Some (if ncopied \<noteq> 0 then as_int ncopied else ret, release b s)
           })
      })"

definition sysfile_seek :: "'f inode_ops \<Rightarrow> int \<Rightarrow> int \<Rightarrow> int \<Rightarrow> 'f uproc \<Rightarrow> (int \<times> 'f uproc) option" where
  "sysfile_seek ops x p whence s = do { (ret, q) \<leftarrow> file_seek ops x p whence (pf s); Some (ret, s\<lparr>pf := q\<rparr>) }"

text \<open>The bytes of \<^verbatim>\<open>struct stat\<close>, four of padding behind the mode, and \<^verbatim>\<open>sysfile_fstat\<close> with its local copy at \<open>loc\<close>.\<close>

definition stat_bytes :: "stat \<Rightarrow> 8 word list \<Rightarrow> 8 word list" where
  "stat_bytes st pad = le_bytes 4 (unat (st_mode st)) @ pad @ le_bytes 8 (st_nlinks st) @ le_bytes 8 (st_blocks st) @ le_bytes 8 (st_size st)"

definition sysfile_fstat :: "'f inode_ops \<Rightarrow> nat \<Rightarrow> int \<Rightarrow> nat \<Rightarrow> 'f uproc \<Rightarrow> (int \<times> 'f uproc) option" where
  "sysfile_fstat ops loc x ust s = do {
     (ret, st, p) \<leftarrow> file_fstat ops x (pf s);
     let s = s\<lparr>pf := p\<rparr>;
     (if ret \<noteq> 0 then Some (ret, s)
      else do {
        st \<leftarrow> st;
        let s = set_mem (store_at (mem s) loc (stat_bytes st (map (mem s) [loc + 4..<loc + 8]))) s;
        let (r, s) = to_user ust loc 32 s;
        Some (if \<not> r then - E_INVAL else 0, s)
      })
   }"

definition sysfile_fsync :: "'f inode_ops \<Rightarrow> int \<Rightarrow> 'f uproc \<Rightarrow> (int \<times> 'f uproc) option" where
  "sysfile_fsync ops x s = do { (ret, p) \<leftarrow> file_fsync ops x (pf s); Some (ret, s\<lparr>pf := p\<rparr>) }"

definition sysfile_chdir :: "'f inode_ops \<Rightarrow> 'f fs_ops \<Rightarrow> nat option \<Rightarrow> nat \<Rightarrow> 'f uproc \<Rightarrow> (int \<times> 'f uproc) option" where
  "sysfile_chdir ops fo got path s =
     (case copy_path got path s of
        (Inl e, s) \<Rightarrow> Some (e, s)
      | (Inr (b, name), s) \<Rightarrow> do { (ret, v) \<leftarrow> vfs_chdir ops fo name (vs (pf s)); Some (ret, release b (set_vs v s)) })"

text \<open>\<^verbatim>\<open>vfs_link\<close>, \<^verbatim>\<open>vfs_rename\<close> and \<^verbatim>\<open>vfs_unlink\<close> are not implemented.\<close>

definition vfs_link :: "string \<Rightarrow> string \<Rightarrow> int" where "vfs_link old new = - E_UNIMP"
definition vfs_rename :: "string \<Rightarrow> string \<Rightarrow> int" where "vfs_rename old new = - E_UNIMP"
definition vfs_unlink :: "string \<Rightarrow> int" where "vfs_unlink path = - E_UNIMP"

definition two_paths :: "(string \<Rightarrow> string \<Rightarrow> int) \<Rightarrow> nat option \<Rightarrow> nat option \<Rightarrow> nat \<Rightarrow> nat \<Rightarrow> 'f uproc \<Rightarrow> int \<times> 'f uproc" where
  "two_paths act got1 got2 path1 path2 s =
     (case copy_path got1 path1 s of
        (Inl e, s) \<Rightarrow> (e, s)
      | (Inr (b1, old), s) \<Rightarrow>
          (case copy_path got2 path2 s of
             (Inl e, s) \<Rightarrow> (e, release b1 s)
           | (Inr (b2, new), s) \<Rightarrow> (act old new, release b2 (release b1 s))))"

definition sysfile_link :: "nat option \<Rightarrow> nat option \<Rightarrow> nat \<Rightarrow> nat \<Rightarrow> 'f uproc \<Rightarrow> int \<times> 'f uproc" where
  "sysfile_link got1 got2 path1 path2 s = two_paths vfs_link got1 got2 path1 path2 s"

definition sysfile_rename :: "nat option \<Rightarrow> nat option \<Rightarrow> nat \<Rightarrow> nat \<Rightarrow> 'f uproc \<Rightarrow> int \<times> 'f uproc" where
  "sysfile_rename got1 got2 path1 path2 s = two_paths vfs_rename got1 got2 path1 path2 s"

definition sysfile_unlink :: "nat option \<Rightarrow> nat \<Rightarrow> 'f uproc \<Rightarrow> int \<times> 'f uproc" where
  "sysfile_unlink got path s =
     (case copy_path got path s of (Inl e, s) \<Rightarrow> (e, s) | (Inr (b, name), s) \<Rightarrow> (vfs_unlink name, release b s))"

definition sysfile_getcwd :: "'f inode_ops \<Rightarrow> nat \<Rightarrow> nat \<Rightarrow> 'f uproc \<Rightarrow> (int \<times> 'f uproc) option" where
  "sysfile_getcwd ops buf len s =
     (if len = 0 then Some (- E_INVAL, s)
      else case user_mem_check (umm s) buf len True of (r, x) \<Rightarrow>
        let s = s\<lparr>umm := x\<rparr> in
        if r then do { (ret, _, v) \<leftarrow> vfs_getcwd ops (iobuf_init buf len 0) (vs (pf s)); Some (ret, set_vs v s) }
        else Some (- E_INVAL, s))"

text \<open>A \<^verbatim>\<open>struct dirent\<close> is its offset in eight bytes and a name of 256.\<close>

definition sysfile_getdirentry :: "'f inode_ops \<Rightarrow> nat option \<Rightarrow> int \<Rightarrow> nat \<Rightarrow> 'f uproc \<Rightarrow> (int \<times> 'f uproc) option" where
  "sysfile_getdirentry ops got x udir s =
     (case got of
        None \<Rightarrow> Some (- E_NO_MEM, s)
      | Some d \<Rightarrow>
          (let s = s\<lparr>live := d # live s\<rparr>; (r, s) = from_user d udir 8 True s in
           if \<not> r then Some (- E_INVAL, release d s)
           else do {
             let off = sint (word_of_nat (le_value (map (mem s) [d..<d + 8])) :: 64 word);
             (ret, off, p) \<leftarrow> file_getdirentry ops x (d + 8) off (pf s);
             let s = s\<lparr>pf := p\<rparr>;
             let s = set_mem (store_at (mem s) d (le_bytes 8 (nat (off mod 2 ^ 64)))) s;
             (if ret \<noteq> 0 then Some (ret, release d s)
              else let (r, s) = to_user udir d (FS_MAX_FNAME_LEN + 9) s in Some (if \<not> r then - E_INVAL else 0, release d s))
           }))"

definition sysfile_dup :: "int \<Rightarrow> int \<Rightarrow> 'f uproc \<Rightarrow> (int \<times> 'f uproc) option" where
  "sysfile_dup x1 x2 s = do { (ret, p) \<leftarrow> file_dup x1 x2 (pf s); Some (ret, s\<lparr>pf := p\<rparr>) }"

definition sysfile_pipe :: "nat \<Rightarrow> 'f uproc \<Rightarrow> int \<times> 'f uproc" where
  "sysfile_pipe fd_store s = (- E_UNIMP, s)"

definition sysfile_mkfifo :: "nat \<Rightarrow> 32 word \<Rightarrow> 'f uproc \<Rightarrow> int \<times> 'f uproc" where
  "sysfile_mkfifo name fl s = (- E_UNIMP, s)"

section \<open>Reading a stream of bytes\<close>

text \<open>What a file system promises about \<^verbatim>\<open>vop_read\<close> of an inode with the content \<open>cont\<close>: it moves the bytes from the
  offset of the buffer on, as many as are asked for and there are, advances the buffer, and changes no other memory
  than the file system's own, \<open>priv\<close>.\<close>

definition streams :: "'f inode_ops \<Rightarrow> nat set \<Rightarrow> nat \<Rightarrow> 8 word list \<Rightarrow> bool" where
  "streams ops priv n cont \<longleftrightarrow> (\<forall>iob v. 0 \<le> io_offset iob \<longrightarrow>
     (let bs = take (io_resid iob) (drop (nat (io_offset iob)) cont); k = length bs in
      \<exists>v'. op_read ops n iob v =
          Some (0, iob\<lparr>io_base := io_base iob + k, io_offset := io_offset iob + int k, io_resid := io_resid iob - k\<rparr>, v') \<and>
        inodes v' = inodes v \<and> (\<forall>a. a \<notin> priv \<longrightarrow> kmem v' a = store_at (kmem v) (io_base iob) bs a)))"

text \<open>Descriptor \<open>x\<close> is open for reading such a file at position \<open>p\<close>.\<close>

definition reading :: "int \<Rightarrow> nat \<Rightarrow> nat \<Rightarrow> 'f procfs \<Rightarrow> bool" where
  "reading x n p s \<longleftrightarrow> testfd x \<and> fcount s > 0 \<and> length (fds s) = NENTRY \<and> inode_check n (vs s) \<and>
     (let f = fds s ! nat x in status f = FD_OPENED \<and> readable f \<and> fd f = x \<and> fopens f = 1 \<and> node f = Some n \<and> pos f = int p)"

text \<open>The user may write the \<open>len\<close> bytes at \<open>base\<close>.\<close>

definition writable_range :: "mm_struct option \<Rightarrow> nat \<Rightarrow> nat \<Rightarrow> bool" where
  "writable_range x base len \<longleftrightarrow> (\<exists>mm. x = Some mm \<and> vm_wf mm \<and> USERBASE \<le> base \<and> base + len \<le> USERTOP \<and>
     (\<forall>a. base \<le> a \<and> a < base + len \<longrightarrow> user_may mm True a))"

lemma file_read_stream:
  fixes len :: nat
  assumes st: "streams ops priv n cont" and rd: "reading x n p s"
  defines "bs \<equiv> take len (drop p cont)"
  shows "\<exists>s'. file_read ops x base len s = Some (0, length bs, s') \<and> reading x n (p + length bs) s' \<and>
     (\<forall>a. a \<notin> priv \<longrightarrow> kmem (vs s') a = store_at (kmem (vs s)) base bs a)"
proof -
  let ?i = "nat x"
  let ?f = "fds s ! ?i"
  have i: "testfd x" "?i < length (fds s)" and s: "fcount s > 0" "length (fds s) = NENTRY" "inode_check n (vs s)"
    and f: "status ?f = FD_OPENED" "readable ?f" "fd ?f = x" "fopens ?f = 1" "node ?f = Some n" "pos ?f = int p"
    using rd by (auto simp: reading_def Let_def testfd_def)
  have d: "fd2file x s = Some (0, Some ?i)" using i(1) s(1) f(1,3) by (simp add: fd2file_def get_fd_array_def)
  let ?s1 = "upd_file ?i (\<lambda>f. f\<lparr>fopens := fopens f + 1\<rparr>) s"
  have a: "fd_array_acquire ?i s = Some ?s1" using f(1) by (simp add: fd_array_acquire_def)
  let ?iob = "iobuf_init base len (int p)"
  from st [unfolded streams_def Let_def, rule_format, of ?iob "vs s"] obtain v' where v':
    "op_read ops n ?iob (vs s) =
       Some (0, ?iob\<lparr>io_base := base + length bs, io_offset := int p + int (length bs), io_resid := len - length bs\<rparr>, v')"
    "inodes v' = inodes (vs s)" "\<And>a. a \<notin> priv \<Longrightarrow> kmem v' a = store_at (kmem (vs s)) base bs a"
    by (auto simp: iobuf_init_def bs_def)
  have le: "length bs \<le> len" by (simp add: bs_def)
  have vop: "vop n (op_read ops n ?iob) (vs s) =
      Some (0, ?iob\<lparr>io_base := base + length bs, io_offset := int p + int (length bs), io_resid := len - length bs\<rparr>, v')"
    using s(3) v'(1) by (simp add: vop_def)
  let ?s2 = "?s1\<lparr>vs := v'\<rparr>"
  let ?s3 = "upd_file ?i (\<lambda>f. f\<lparr>pos := pos f + int (length bs)\<rparr>) ?s2"
  let ?s4 = "upd_file ?i (\<lambda>f. f\<lparr>fopens := fopens f - 1\<rparr>) ?s3"
  have sel: "fds ?s2 = fds ?s1" "vs ?s2 = v'" "fcount ?s2 = fcount s" by simp_all
  have "fd_array_release ops ?i ?s3 = Some ?s4"
    using i(2) f(1,4) by (simp add: fd_array_release_def upd_file_def Let_def)
  then have "file_read ops x base len s = Some (0, length bs, ?s4)"
    using d a f i(2) vop le by (simp add: file_read_def file_transfer_def Let_def iobuf_used_def iobuf_init_def upd_file_def)
  moreover have "reading x n (p + length bs) ?s4"
    using i s f v'(2) by (simp add: reading_def Let_def upd_file_def inode_check_def)
  moreover have "vs ?s4 = v'" by simp
  ultimately show ?thesis using v'(3) by (intro exI [of _ ?s4]) simp
qed

lemma to_user_ok:
  assumes w: "writable_range (umm s) base len" and k: "0 < k" "k \<le> len" and b: "base + len \<le> b"
  shows "\<exists>s'. to_user base b k s = (True, s') \<and> mem s' = moved (mem s) base b k \<and> live s' = live s \<and>
     writable_range (umm s') (base + k) (len - k) \<and> pf s' = (pf s)\<lparr>vs := (vs (pf s))\<lparr>kmem := mem s'\<rparr>\<rparr>"
proof -
  obtain mm where mm: "umm s = Some mm" "vm_wf mm" "USERBASE \<le> base" "base + len \<le> USERTOP"
    "\<forall>a. base \<le> a \<and> a < base + len \<longrightarrow> user_may mm True a" using w by (auto simp: writable_range_def)
  have u: "u64 (base + k) = base + k" using mm(4) k by (simp add: u64_def)
  obtain r mm' where l: "user_mem_loop mm True base (base + k) = (r, mm')" by fastforce
  have r: "r" "vm_wf mm'" "mmap_list mm' = mmap_list mm"
    using user_mem_loop_exact [OF mm(2), of True base "base + k"] mm(5) k l by auto
  have "USER_ACCESS base (base + k)" using mm(3,4) k by (simp add: USER_ACCESS_def)
  then have "to_user base b k s = (True, set_mem (moved (mem s) base b k) (s\<lparr>umm := Some mm'\<rparr>))"
    using memcpy_eq [of base b k "mem s"] b k by (simp add: to_user_def copy_to_user_def user_mem_check_def mm(1) u l r(1))
  moreover have "user_may mm' w a = user_may mm w a" for w a using r(3) by (simp add: user_may_def)
  then have "writable_range (Some mm') (base + k) (len - k)" using mm(3-5) r(2) k by (auto simp: writable_range_def)
  ultimately show ?thesis by (simp add: set_mem_def)
qed

text \<open>The loop: it fills the user's memory with the next bytes of the stream, in pieces of at most 4096.\<close>

lemma sys_read_loop_stream:
  assumes st: "streams ops priv n cont"
    and K: "\<And>a. a \<in> priv \<Longrightarrow> \<not> (base0 \<le> a \<and> a < base0 + len0) \<and> \<not> (b \<le> a \<and> a < b + IOBUF_SIZE)" and far: "base0 + len0 \<le> b"
  shows "reading x n p (pf s) \<Longrightarrow> writable_range (umm s) base len \<Longrightarrow> base0 \<le> base \<Longrightarrow> base + len = base0 + len0 \<Longrightarrow>
    t = min len (length cont - p) \<Longrightarrow>
    \<exists>s'. sys_read_loop ops x b base len c s = Some (0, c + t, s') \<and> reading x n (p + t) (pf s') \<and> live s' = live s \<and>
      (\<forall>i<t. mem s' (base + i) = cont ! (p + i)) \<and>
      (\<forall>a. a \<notin> priv \<longrightarrow> \<not> (b \<le> a \<and> a < b + IOBUF_SIZE) \<longrightarrow> \<not> (base \<le> a \<and> a < base + t) \<longrightarrow> mem s' a = mem s a)"
proof (induction len arbitrary: base p c s t rule: less_induct)
  case (less len)
  show ?case
  proof (cases "len = 0")
    case True
    then show ?thesis using less.prems by (simp add: sys_read_loop.simps)
  next
    case False
    let ?a = "if IOBUF_SIZE > len then len else IOBUF_SIZE"
    define bs where "bs = take ?a (drop p cont)"
    define k where "k = length bs"
    have k: "k \<le> len" "k \<le> IOBUF_SIZE" "k \<le> length cont - p" by (auto simp: k_def bs_def)
    have nth: "bs ! i = cont ! (p + i)" if "i < k" for i
    proof -
      have "p \<le> length cont" using that k(3) by linarith
      then show ?thesis using that by (simp add: k_def bs_def)
    qed
    obtain q where q: "file_read ops x b ?a (pf s) = Some (0, k, q)" "reading x n (p + k) q"
      "\<And>a. a \<notin> priv \<Longrightarrow> kmem (vs q) a = store_at (mem s) b bs a"
      using file_read_stream [OF st less.prems(1), where base = b and len = ?a] unfolding bs_def [symmetric] k_def [symmetric] by blast
    show ?thesis
    proof (cases "k = 0")
      case True
      then have t: "t = 0" using False less.prems(5) by (auto simp: k_def bs_def split: if_splits)
      have "sys_read_loop ops x b base len c s = Some (0, c, s\<lparr>pf := q\<rparr>)"
        using False q(1) True by (simp add: sys_read_loop.simps [of _ _ _ _ len])
      then show ?thesis using t q(2,3) True by (auto simp: k_def store_at_def)
    next
      case False
      let ?s = "s\<lparr>pf := q\<rparr>"
      have far': "base + len \<le> b" using far less.prems(4) by simp
      obtain s1 where s1: "to_user base b k ?s = (True, s1)" "mem s1 = moved (mem ?s) base b k" "live s1 = live ?s"
        "writable_range (umm s1) (base + k) (len - k)" "pf s1 = (pf ?s)\<lparr>vs := (vs (pf ?s))\<lparr>kmem := mem s1\<rparr>\<rparr>"
        using to_user_ok [of ?s base len k b] less.prems(2) False k(1) far' by auto
      have run: "sys_read_loop ops x b base len c s = sys_read_loop ops x b (base + k) (len - k) (c + k) s1"
        using \<open>len \<noteq> 0\<close> q(1) s1(1) False k(1) by (subst sys_read_loop.simps) simp
      have rd: "reading x n (p + k) (pf s1)" using q(2) by (subst s1(5)) (simp add: reading_def Let_def inode_check_def)
      have t: "t - k = min (len - k) (length cont - (p + k))" "k \<le> t" using less.prems(5) k by auto
      obtain s' where s': "sys_read_loop ops x b (base + k) (len - k) (c + k) s1 = Some (0, c + k + (t - k), s')"
        "reading x n (p + k + (t - k)) (pf s')" "live s' = live s1"
        "\<And>i. i < t - k \<Longrightarrow> mem s' (base + k + i) = cont ! (p + k + i)"
        "\<And>a. a \<notin> priv \<Longrightarrow> \<not> (b \<le> a \<and> a < b + IOBUF_SIZE) \<Longrightarrow> \<not> (base + k \<le> a \<and> a < base + k + (t - k)) \<Longrightarrow> mem s' a = mem s1 a"
        using less.IH [OF _ rd s1(4) _ _ t(1), of "c + k"] False less.prems(3,4) k(1) \<open>len \<noteq> 0\<close> by auto
      have m1: "mem s1 a = (if base \<le> a \<and> a < base + k then kmem (vs q) (b + (a - base)) else kmem (vs q) a)" for a
        by (simp add: s1(2) moved_def)
      have in_buf: "kmem (vs q) (b + i) = cont ! (p + i)" if "i < k" for i
        using q(3) [of "b + i"] K [of "b + i"] that k(2) nth by (auto simp: store_at_def k_def)
      have "mem s' (base + i) = cont ! (p + i)" if "i < t" for i
      proof (cases "i < k")
        case True
        have "mem s' (base + i) = mem s1 (base + i)"
          using s'(5) [of "base + i"] K [of "base + i"] True less.prems(3,4) k(1) far by auto
        then show ?thesis using m1 [of "base + i"] in_buf True by simp
      next
        case False
        then show ?thesis using s'(4) [of "i - k"] that by simp
      qed
      moreover have "mem s' a = mem s a" if "a \<notin> priv" "\<not> (b \<le> a \<and> a < b + IOBUF_SIZE)" "\<not> (base \<le> a \<and> a < base + t)" for a
        using s'(5) [of a] m1 [of a] q(3) [of a] that t(2) k(2) by (auto simp: store_at_def k_def)
      ultimately show ?thesis using run s'(1-3) s1(3) t(2) by (intro exI [of _ s']) auto
    qed
  qed
qed

section \<open>The properties\<close>


text \<open>A file of ten bytes behind inode 3, open as descriptor 5 at position 4.\<close>

definition ex_ops :: "unit inode_ops" where
  "ex_ops = \<lparr>op_open = (\<lambda>_ _ s. Some (0, s)), op_close = (\<lambda>_ s. Some (0, s)),
     op_read = (\<lambda>n iob v. let bs = take (io_resid iob) (drop (nat (io_offset iob)) [0, 1, 2, 3, 4, 5, 6, 7, 8, 9]); k = length bs in
       Some (0, iob\<lparr>io_base := io_base iob + k, io_offset := io_offset iob + int k, io_resid := io_resid iob - k\<rparr>,
         v\<lparr>kmem := store_at (kmem v) (io_base iob) bs\<rparr>)),
     op_write = (\<lambda>_ iob s. Some (0, iob, s)), op_fstat = (\<lambda>_ s. None), op_fsync = (\<lambda>_ s. Some (0, s)), op_namefile = (\<lambda>_ iob s. None),
     op_getdirentry = (\<lambda>_ iob s. None), op_reclaim = (\<lambda>_ s. Some (0, s)), op_gettype = (\<lambda>_ s. Some (0, 0x1000, s)),
     op_tryseek = (\<lambda>_ _ s. Some (0, s)), op_truncate = (\<lambda>_ _ s. Some (0, s)), op_create = (\<lambda>_ _ _ s. None), op_lookup = (\<lambda>_ _ s. None)\<rparr>"

definition ex_proc :: "unit uproc" where
  "ex_proc = \<lparr>pf = \<lparr>vs = \<lparr>inodes = (\<lambda>_. \<lparr>ref_count = 1, open_count = 1, in_fs = None, in_device = False\<rparr>), kmem = (\<lambda>_. 99), pwd = None,
       bootfs_node = None, vdev_list = [], fsdata = ()\<rparr>,
     fds = map (\<lambda>i. \<lparr>status = FD_OPENED, readable = True, writable = False, fd = int i, pos = 4, node = Some 3, fopens = 1\<rparr>) [0..<72],
     fcount = 1\<rparr>, umm = Some sample_mm, live = []\<rparr>"


end
