(* ===== verification/HashChain.thy ===== *)
theory HashChain
  imports KList
begin

text \<open>
  Hash tables whose buckets are rings of \<^verbatim>\<open>libs/list.h\<close>: the table of processes by pid and the table of cached inodes by block
  number are of this form.  A bucket has a head \<open>Hd h\<close>, an element \<open>p\<close> is linked by its node \<open>Lk p\<close>.
\<close>

definition chains :: "(nat \<Rightarrow> 'n) \<Rightarrow> (nat \<Rightarrow> 'n) \<Rightarrow> 'n list_entry \<Rightarrow> (nat \<Rightarrow> nat list) \<Rightarrow> (nat \<Rightarrow> nat) \<Rightarrow> bool" where
  "chains Hd Lk l t key \<longleftrightarrow> (\<forall>h. dlist l (Hd h) (map Lk (t h)) \<and> (\<forall>p\<in>set (t h). key p = h))"

definition tabled :: "(nat \<Rightarrow> nat list) \<Rightarrow> nat set" where
  "tabled t = (\<Union>h. set (t h))"

lemma chains_bucket: "chains Hd Lk l t key \<Longrightarrow> p \<in> tabled t \<Longrightarrow> p \<in> set (t (key p))"
  by (auto simp: chains_def tabled_def)

lemma tabled_insert: "tabled (t(b := p # t b)) = insert p (tabled t)"
  by (auto simp: tabled_def split: if_splits)

text \<open>Searching a bucket for the value \<open>x\<close> of a field that determines the bucket is searching the whole table.\<close>

lemma chains_find:
  assumes c: "chains Hd Lk l t (\<lambda>p. hash (field p))" and uniq: "inj_on field (tabled t)"
  shows "find (\<lambda>p. field p = x) (t (hash x)) = Some p \<longleftrightarrow> p \<in> tabled t \<and> field p = x"
    "find (\<lambda>p. field p = x) (t (hash x)) = None \<longleftrightarrow> (\<forall>p\<in>tabled t. field p \<noteq> x)"
proof -
  have mem: "p \<in> set (t (hash x)) \<and> field p = x \<longleftrightarrow> p \<in> tabled t \<and> field p = x" for p
    using chains_bucket [OF c] by (auto simp: tabled_def)
  show none: "find (\<lambda>p. field p = x) (t (hash x)) = None \<longleftrightarrow> (\<forall>p\<in>tabled t. field p \<noteq> x)"
    using mem by (auto simp: find_None_iff)
  have some: "q \<in> tabled t \<and> field q = x" if "find (\<lambda>p. field p = x) (t (hash x)) = Some q" for q
    using that mem [of q] by (auto simp: find_Some_iff)
  show "find (\<lambda>p. field p = x) (t (hash x)) = Some p \<longleftrightarrow> p \<in> tabled t \<and> field p = x"
  proof
    assume "p \<in> tabled t \<and> field p = x"
    then have "find (\<lambda>p. field p = x) (t (hash x)) \<noteq> None" "p \<in> tabled t" "field p = x" using none by auto
    then obtain q where "find (\<lambda>p. field p = x) (t (hash x)) = Some q" "p \<in> tabled t" "field p = x" by auto
    then show "find (\<lambda>p. field p = x) (t (hash x)) = Some p" using some uniq by (auto dest: inj_onD)
  qed (rule some)
qed

locale hash_chain =
  fixes Hd :: "nat \<Rightarrow> 'n" and Lk :: "nat \<Rightarrow> 'n"
  assumes head_inj: "Hd i = Hd j \<longleftrightarrow> i = j" and link_inj: "Lk p = Lk q \<longleftrightarrow> p = q" and link_head: "Lk p \<noteq> Hd i"
begin

lemma head_link: "Hd i \<noteq> Lk p"
  using link_head by metis

lemma inj_link: "inj_on Lk A"
  using link_inj by (auto intro: inj_onI)

lemma in_map_link [simp]: "Lk p \<in> Lk ` A \<longleftrightarrow> p \<in> A" "Hd i \<notin> Lk ` A" "Lk p = Hd i \<longleftrightarrow> False"
  using link_inj link_head head_link by (auto simp: image_iff)

lemma chain_distinct: "chains Hd Lk l t key \<Longrightarrow> distinct (t h)"
  by (auto simp: chains_def dest!: spec [of _ h] dlist_distinct simp: distinct_map)

lemma chain_other:
  assumes "chains Hd Lk l t key" and "h' \<noteq> h" and "p \<notin> set (t h')"
    and "\<And>m. m \<notin> set (Lk p # Hd h # map Lk (t h)) \<Longrightarrow> nxt l' m = nxt l m \<and> prv l' m = prv l m"
  shows "dlist l' (Hd h') (map Lk (t h'))"
proof -
  have dis: "q \<notin> set (t h)" if "q \<in> set (t h')" for q using that assms(1,2) unfolding chains_def by metis
  have "n \<notin> set (Lk p # Hd h # map Lk (t h))" if "n \<in> set (Hd h' # map Lk (t h'))" for n
    using that assms(2,3) dis link_inj link_head head_link head_inj by auto
  then have "dlist l' (Hd h') (map Lk (t h')) = dlist l (Hd h') (map Lk (t h'))"
    using assms(4) by (intro dlist_cong) auto
  then show ?thesis using assms(1) by (simp add: chains_def)
qed

lemma chain_add:
  assumes c: "chains Hd Lk l t key" and p: "p \<notin> tabled t"
  shows "chains Hd Lk (list_add (Hd (key p)) (Lk p) l) (t(key p := p # t (key p))) key"
proof -
  let ?l = "list_add (Hd (key p)) (Lk p) l"
  have d: "dlist l (Hd (key p)) (map Lk (t (key p)))" using c by (simp add: chains_def)
  have np: "p \<notin> set (t h')" for h' using p by (auto simp: tabled_def)
  have "dlist ?l (Hd (key p)) (map Lk (p # t (key p)))"
    using dlist_add_after_head [OF d, of "Lk p"] np link_inj link_head by (auto simp: list_add_def)
  moreover have "dlist ?l (Hd h') (map Lk (t h'))" if "h' \<noteq> key p" for h'
    by (rule chain_other [OF c that np]) (use frame_add_after_head [OF d] in \<open>auto simp: list_add_def\<close>)
  ultimately show ?thesis using c by (auto simp: chains_def)
qed

lemma chain_del:
  assumes c: "chains Hd Lk l t key" and p: "p \<in> tabled t"
  shows "chains Hd Lk (list_del (Lk p) l) (t(key p := remove1 p (t (key p)))) key"
proof -
  have d: "dlist l (Hd (key p)) (map Lk (t (key p)))" using c by (simp add: chains_def)
  have pb: "p \<in> set (t (key p))" by (rule chains_bucket [OF c p])
  have np: "p \<notin> set (t h')" if "h' \<noteq> key p" for h' using c that by (auto simp: chains_def)
  from pb obtain us vs where sp: "t (key p) = us @ p # vs" "p \<notin> set us" by (meson split_list_first)
  have "dlist (list_del (Lk p) l) (Hd (key p)) (map Lk (remove1 p (t (key p))))"
    using dlist_del [of l "Hd (key p)" "map Lk us" "Lk p" "map Lk vs"] d sp by (simp add: remove1_append)
  moreover have "dlist (list_del (Lk p) l) (Hd h') (map Lk (t h'))" if "h' \<noteq> key p" for h'
    by (rule chain_other [OF c that np [OF that]]) (use frame_del [OF d] pb in auto)
  moreover have "set (remove1 p (t (key p))) \<subseteq> set (t (key p))" by (rule set_remove1_subset)
  ultimately show ?thesis using c by (auto simp: chains_def)
qed

lemma chain_tabled_del:
  assumes c: "chains Hd Lk l t key" and p: "p \<in> tabled t"
  shows "tabled (t(key p := remove1 p (t (key p)))) = tabled t - {p}"
proof -
  have "p \<notin> set (t h)" if "h \<noteq> key p" for h using c that by (auto simp: chains_def)
  then show ?thesis using chain_distinct [OF c, of "key p"] by (auto simp: tabled_def split: if_splits)
qed

text \<open>One step of a search along a bucket: behind the elements \<open>us\<close> come the elements \<open>vs\<close>.\<close>

lemma chain_next:
  assumes "dlist l (Hd h) (map Lk (us @ vs))"
  shows "list_next (if us = [] then Hd h else Lk (List.last us)) l = (case vs of [] \<Rightarrow> Hd h | v # _ \<Rightarrow> Lk v)"
proof (cases us rule: rev_cases)
  case Nil
  then show ?thesis using assms dlist_head_neighbours(1) [of l "Hd h" "map Lk vs"]
    by (cases vs) (simp_all add: list_next_def)
next
  case (snoc ws w)
  then show ?thesis using assms dlist_neighbours(2) [of l "Hd h" "map Lk ws" "Lk w" "map Lk vs"]
    by (cases vs) (simp_all add: list_next_def)
qed

lemma chains_cong:
  assumes "chains Hd Lk l t key" and "\<And>m. (\<exists>h. m = Hd h) \<or> (\<exists>p. m = Lk p) \<Longrightarrow> nxt l' m = nxt l m \<and> prv l' m = prv l m"
    and "\<And>p. p \<in> tabled t \<Longrightarrow> key' p = key p"
  shows "chains Hd Lk l' t key'"
proof -
  have "dlist l' (Hd h) (map Lk (t h)) = dlist l (Hd h) (map Lk (t h))" for h
    using assms(2) by (intro dlist_cong) auto
  moreover have "key' p = h" if "p \<in> set (t h)" for p h
    using assms(1) assms(3) [of p] that by (auto simp: chains_def tabled_def)
  ultimately show ?thesis using assms(1) by (simp add: chains_def)
qed

end

end
