(* ===== verification/ProcTable.thy ===== *)
theory ProcTable
  imports WaitQueue HashChain
begin

text \<open>
  The process table of \<^verbatim>\<open>kern/process/proc.c\<close>: allocation of a control block, the list of all processes, the
  tree of parents and children, the pid allocator and the hash table of pids.  \<open>psys\<close> adds the static
  variables of that file to the kernel state; \<^verbatim>\<open>nr_process\<close>, \<^verbatim>\<open>last_pid\<close> and \<^verbatim>\<open>next_safe\<close> stay far below the
  bounds of \<^verbatim>\<open>int\<close>.
\<close>

unbundle bit_operations_syntax

abbreviation (input) MAX_PROCESS :: int where "MAX_PROCESS \<equiv> 4096"
abbreviation (input) MAX_PID :: int where "MAX_PID \<equiv> 8192"
abbreviation (input) HASH_SHIFT :: nat where "HASH_SHIFT \<equiv> 10"

section \<open>State\<close>

text \<open>The objects the process code gives back to the allocators, by the call that does it.\<close>

datatype resource = KStack nat | ProcBlock nat | FilesStruct nat | Mmap nat | Pgdir nat | MmStruct nat

record psys =
  kern :: kernel
  initproc :: "nat option"
  nr_process :: int
  last_pid :: int
  next_safe :: int
  mm_count :: "nat \<Rightarrow> int"
  files_count :: "nat \<Rightarrow> int"
  released :: "resource list"

definition upd_kern :: "(kernel \<Rightarrow> kernel) \<Rightarrow> psys \<Rightarrow> psys" where
  "upd_kern f s = s\<lparr>kern := f (kern s)\<rparr>"

lemma upd_kern_sel [simp]:
  "kern (upd_kern f s) = f (kern s)" "initproc (upd_kern f s) = initproc s" "nr_process (upd_kern f s) = nr_process s"
  "last_pid (upd_kern f s) = last_pid s" "next_safe (upd_kern f s) = next_safe s" "mm_count (upd_kern f s) = mm_count s"
  "files_count (upd_kern f s) = files_count s" "released (upd_kern f s) = released s"
  by (simp_all add: upd_kern_def)

abbreviation proc_at :: "psys \<Rightarrow> nat \<Rightarrow> proc_struct" where
  "proc_at s p \<equiv> procs (kern s) p"

section \<open>Control blocks and links\<close>

text \<open>\<^verbatim>\<open>alloc_proc\<close> at the address \<open>p\<close> that \<^verbatim>\<open>kmalloc\<close> returned.  The field \<^verbatim>\<open>filesp\<close> and the links \<^verbatim>\<open>list_link\<close> and
  \<^verbatim>\<open>hash_link\<close> keep what the memory held.\<close>

definition alloc_proc :: "nat option \<Rightarrow> psys \<Rightarrow> nat option \<times> psys" where
  "alloc_proc r s =
     (case r of
        None \<Rightarrow> (None, s)
      | Some p \<Rightarrow>
          (Some p, upd_kern (upd_klinks (list_init (RunLink p)) \<circ>
             upd_proc p (\<lambda>g. g\<lparr>state := PROC_UNINIT, pid := - 1, runs := 0, kstack := 0, need_resched := False,
               parent := None, mm := None, pflags := 0, wait_state := 0, cptr := None, optr := None, yptr := None,
               on_rq := False, time_slice := 0\<rparr>)) s))"

text \<open>\<^verbatim>\<open>set_links\<close>; a process without a parent is a null dereference.\<close>

definition set_links :: "nat \<Rightarrow> psys \<Rightarrow> psys option" where
  "set_links p s = do {
     let s = upd_kern (upd_klinks (list_add ProcHead (ListLink p))) s;
     let s = upd_kern (upd_proc p (\<lambda>g. g\<lparr>yptr := None\<rparr>)) s;
     q \<leftarrow> parent (proc_at s p);
     let s = upd_kern (upd_proc p (\<lambda>g. g\<lparr>optr := cptr (proc_at s q)\<rparr>)) s;
     let s = (case optr (proc_at s p) of
                None \<Rightarrow> s
              | Some c \<Rightarrow> upd_kern (upd_proc c (\<lambda>g. g\<lparr>yptr := Some p\<rparr>)) s);
     let s = upd_kern (upd_proc q (\<lambda>g. g\<lparr>cptr := Some p\<rparr>)) s;
     Some (s\<lparr>nr_process := nr_process s + 1\<rparr>)
   }"

definition remove_links :: "nat \<Rightarrow> psys \<Rightarrow> psys option" where
  "remove_links p s = do {
     let s = upd_kern (upd_klinks (list_del (ListLink p))) s;
     let s = (case optr (proc_at s p) of
                None \<Rightarrow> s
              | Some c \<Rightarrow> upd_kern (upd_proc c (\<lambda>g. g\<lparr>yptr := yptr (proc_at s p)\<rparr>)) s);
     s \<leftarrow> (case yptr (proc_at s p) of
             Some c \<Rightarrow> Some (upd_kern (upd_proc c (\<lambda>g. g\<lparr>optr := optr (proc_at s p)\<rparr>)) s)
           | None \<Rightarrow> do {
               q \<leftarrow> parent (proc_at s p);
               Some (upd_kern (upd_proc q (\<lambda>g. g\<lparr>cptr := optr (proc_at s p)\<rparr>)) s)
             });
     Some (s\<lparr>nr_process := nr_process s - 1\<rparr>)
   }"

section \<open>Process identifiers\<close>

text \<open>The scan of \<^verbatim>\<open>get_pid\<close> behind node \<open>le\<close>, with the two static variables; \<^verbatim>\<open>goto repeat\<close> restarts it at the
  head of the list.\<close>

partial_function (option) get_pid_loop :: "kernel \<Rightarrow> knode \<Rightarrow> int \<Rightarrow> int \<Rightarrow> (int \<times> int) option" where
  "get_pid_loop k le lst safe =
     (case list_next le (klinks k) of
        ProcHead \<Rightarrow> Some (lst, safe)
      | ListLink p \<Rightarrow>
          (if pid (procs k p) = lst
           then (if lst + 1 \<ge> safe
                 then get_pid_loop k ProcHead (if lst + 1 \<ge> MAX_PID then 1 else lst + 1) MAX_PID
                 else get_pid_loop k (ListLink p) (lst + 1) safe)
           else if pid (procs k p) > lst \<and> safe > pid (procs k p)
           then get_pid_loop k (ListLink p) lst (pid (procs k p))
           else get_pid_loop k (ListLink p) lst safe)
      | _ \<Rightarrow> None)"

definition get_pid :: "psys \<Rightarrow> (int \<times> psys) option" where
  "get_pid s =
     (let lst = last_pid s + 1 in
      if lst \<ge> MAX_PID
      then do { (l, n) \<leftarrow> get_pid_loop (kern s) ProcHead 1 MAX_PID; Some (l, s\<lparr>last_pid := l, next_safe := n\<rparr>) }
      else if lst \<ge> next_safe s
      then do { (l, n) \<leftarrow> get_pid_loop (kern s) ProcHead lst MAX_PID; Some (l, s\<lparr>last_pid := l, next_safe := n\<rparr>) }
      else Some (lst, s\<lparr>last_pid := lst\<rparr>))"

section \<open>The hash table\<close>

definition hash32 :: "32 word \<Rightarrow> nat \<Rightarrow> 32 word" where
  "hash32 v bits = drop_bit (32 - bits) (v * 0x9e370001)"

definition pid_hashfn :: "int \<Rightarrow> nat" where
  "pid_hashfn x = unat (hash32 (word_of_int x) HASH_SHIFT)"

definition hash_proc :: "nat \<Rightarrow> psys \<Rightarrow> psys" where
  "hash_proc p s = upd_kern (upd_klinks (list_add (HashHead (pid_hashfn (pid (proc_at s p)))) (HashLink p))) s"

definition unhash_proc :: "nat \<Rightarrow> psys \<Rightarrow> psys" where
  "unhash_proc p s = upd_kern (upd_klinks (list_del (HashLink p))) s"

partial_function (option) find_proc_loop :: "kernel \<Rightarrow> int \<Rightarrow> nat \<Rightarrow> knode \<Rightarrow> nat option option" where
  "find_proc_loop k x h le =
     (case list_next le (klinks k) of
        HashLink p \<Rightarrow> (if pid (procs k p) = x then Some (Some p) else find_proc_loop k x h (HashLink p))
      | HashHead i \<Rightarrow> (if i = h then Some None else None)
      | _ \<Rightarrow> None)"

definition find_proc :: "int \<Rightarrow> psys \<Rightarrow> nat option option" where
  "find_proc x s =
     (if 0 < x \<and> x < MAX_PID then find_proc_loop (kern s) x (pid_hashfn x) (HashHead (pid_hashfn x)) else Some None)"

section \<open>Fresh pids\<close>

definition plist :: "kernel \<Rightarrow> nat list \<Rightarrow> bool" where
  "plist k ps \<longleftrightarrow> dlist (klinks k) ProcHead (map ListLink ps)"

definition pid_used :: "kernel \<Rightarrow> nat list \<Rightarrow> int set" where
  "pid_used k ps = (\<lambda>p. pid (procs k p)) ` set ps"

text \<open>What \<^verbatim>\<open>next_safe\<close> promises: no process has a pid strictly between it and \<^verbatim>\<open>last_pid\<close>.\<close>

definition pid_inv :: "psys \<Rightarrow> nat list \<Rightarrow> bool" where
  "pid_inv s ps \<longleftrightarrow> plist (kern s) ps \<and> 1 \<le> last_pid s \<and> next_safe s \<le> MAX_PID \<and>
     (\<forall>p\<in>set ps. \<not> (last_pid s < pid (proc_at s p) \<and> pid (proc_at s p) < next_safe s))"

definition cyc :: "int \<Rightarrow> int" where
  "cyc x = (if x + 1 \<ge> MAX_PID then 1 else x + 1)"

lemma cyc_add: "1 \<le> x \<Longrightarrow> x + int n < MAX_PID \<Longrightarrow> (cyc ^^ n) x = x + int n"
  by (induction n) (auto simp: cyc_def)

lemma cyc_reaches:
  assumes "1 \<le> x" "x < MAX_PID" "1 \<le> f" "f < MAX_PID"
  shows "\<exists>n. (cyc ^^ n) x = f"
proof (cases "x \<le> f")
  case True
  then show ?thesis using cyc_add [of x "nat (f - x)"] assms by (intro exI [of _ "nat (f - x)"]) simp
next
  case False
  define n where "n = nat (MAX_PID - 1 - x)"
  have "(cyc ^^ n) x = MAX_PID - 1" using cyc_add [of x n] assms by (simp add: n_def)
  then have "(cyc ^^ (Suc n)) x = 1" by (simp add: cyc_def)
  moreover have "(cyc ^^ (nat (f - 1) + Suc n)) x = (cyc ^^ nat (f - 1)) ((cyc ^^ Suc n) x)"
    by (simp only: funpow_add o_apply)
  ultimately have "(cyc ^^ (nat (f - 1) + Suc n)) x = f" using cyc_add [of 1 "nat (f - 1)"] assms by simp
  then show ?thesis by blast
qed

lemma list_next_after:
  assumes "plist k (us @ p # vs)"
  shows "list_next (ListLink p) (klinks k) = behind ProcHead (map ListLink vs)"
  using dlist_neighbours(2) [of "klinks k" ProcHead "map ListLink us" "ListLink p" "map ListLink vs"] assms
  by (simp add: plist_def list_next_def)

text \<open>The node behind which the scan stands when it has seen \<open>us\<close>.\<close>

definition at :: "nat list \<Rightarrow> knode" where
  "at us = (if us = [] then ProcHead else ListLink (last us))"

lemma next_at:
  assumes "plist k (us @ vs)"
  shows "list_next (at us) (klinks k) = behind ProcHead (map ListLink vs)"
proof (cases us rule: rev_cases)
  case Nil
  then show ?thesis using assms dlist_head_neighbours(1) [of "klinks k" ProcHead "map ListLink vs"]
    by (simp add: at_def plist_def list_next_def)
next
  case (snoc ws w)
  then show ?thesis using list_next_after [of k ws w vs] assms by (simp add: at_def)
qed

lemma get_pid_loop_ok:
  assumes "plist k (us @ vs)" and "(cyc ^^ d) l \<notin> pid_used k (us @ vs)"
    and "1 \<le> l" "l < n" "n \<le> MAX_PID" and "\<forall>p\<in>set us. \<not> (l \<le> pid (procs k p) \<and> pid (procs k p) < n)"
  shows "\<exists>l' n'. get_pid_loop k (at us) l n = Some (l', n') \<and> 1 \<le> l' \<and> l' < n' \<and> n' \<le> MAX_PID \<and>
     (\<forall>p\<in>set (us @ vs). \<not> (l' \<le> pid (procs k p) \<and> pid (procs k p) < n'))"
  using assms
proof (induction d arbitrary: us vs l n)
  case 0
  then show ?case
  proof (induction vs arbitrary: us n)
    case Nil
    then show ?case using next_at [of k us "[]"] by (subst get_pid_loop.simps) simp
  next
    case (Cons p vs)
    have nx: "list_next (at us) (klinks k) = ListLink p" using next_at [OF Cons.prems(1)] by simp
    have ne: "pid (procs k p) \<noteq> l" using Cons.prems(2) by (auto simp: pid_used_def)
    let ?n = "if pid (procs k p) > l \<and> n > pid (procs k p) then pid (procs k p) else n"
    have run: "get_pid_loop k (at us) l n = get_pid_loop k (at (us @ [p])) l ?n"
      using nx ne by (subst get_pid_loop.simps) (simp add: at_def)
    have pl: "plist k ((us @ [p]) @ vs)" "(cyc ^^ 0) l \<notin> pid_used k ((us @ [p]) @ vs)" using Cons.prems(1,2) by simp_all
    have rg: "l < ?n" "?n \<le> MAX_PID" using Cons.prems(4,5) by (auto split: if_splits)
    have "\<forall>q\<in>set (us @ [p]). \<not> (l \<le> pid (procs k q) \<and> pid (procs k q) < ?n)"
      using Cons.prems(4,6) ne by auto
    from Cons.IH [OF pl Cons.prems(3) rg this] show ?case unfolding run by simp
  qed
next
  case (Suc d)
  note outer = Suc.IH
  have free: "(cyc ^^ d) (cyc l) \<notin> pid_used k (us @ vs)" using Suc.prems(2) by (simp add: funpow_swap1)
  from free Suc.prems(1,3-6) show ?case
  proof (induction vs arbitrary: us n)
    case Nil
    then show ?case using next_at [of k us "[]"] by (subst get_pid_loop.simps) simp
  next
    case (Cons p vs)
    have nx: "list_next (at us) (klinks k) = ListLink p" using next_at [OF Cons.prems(2)] by simp
    have pl: "plist k ((us @ [p]) @ vs)" "(cyc ^^ d) (cyc l) \<notin> pid_used k ((us @ [p]) @ vs)" using Cons.prems(1,2) by simp_all
    show ?case
    proof (cases "pid (procs k p) = l")
      case False
      let ?n = "if pid (procs k p) > l \<and> n > pid (procs k p) then pid (procs k p) else n"
      have run: "get_pid_loop k (at us) l n = get_pid_loop k (at (us @ [p])) l ?n"
        using nx False by (subst get_pid_loop.simps) (simp add: at_def)
      have rg: "l < ?n" "?n \<le> MAX_PID" using Cons.prems(4,5) by (auto split: if_splits)
      have "\<forall>q\<in>set (us @ [p]). \<not> (l \<le> pid (procs k q) \<and> pid (procs k q) < ?n)"
        using Cons.prems(4,6) False by auto
      from Cons.IH [OF pl(2,1) Cons.prems(3) rg this] show ?thesis unfolding run by simp
    next
      case True
      show ?thesis
      proof (cases "l + 1 \<ge> n")
        case True': True
        have run: "get_pid_loop k (at us) l n = get_pid_loop k (at []) (cyc l) MAX_PID"
          using nx True True' by (subst get_pid_loop.simps) (simp add: at_def cyc_def)
        have "1 \<le> cyc l" "cyc l < MAX_PID" using Cons.prems(3) by (auto simp: cyc_def)
        then show ?thesis using outer [of "[]" "us @ p # vs" "cyc l" MAX_PID] Cons.prems(1,2) unfolding run by simp
      next
        case False
        then have c: "cyc l = l + 1" using Cons.prems(5) by (simp add: cyc_def)
        have run: "get_pid_loop k (at us) l n = get_pid_loop k (at (us @ [p])) (l + 1) n"
          using nx True False by (subst get_pid_loop.simps) (simp add: at_def)
        have rg: "1 \<le> l + 1" "l + 1 < n" using Cons.prems(3) False by auto
        have "\<forall>q\<in>set (us @ [p]). \<not> (l + 1 \<le> pid (procs k q) \<and> pid (procs k q) < n)" using Cons.prems(6) True by auto
        from outer [OF pl(1) pl(2) [unfolded c] rg Cons.prems(5) this] show ?thesis unfolding run by simp
      qed
    qed
  qed
qed

lemma get_pid_ok:
  assumes inv: "pid_inv s ps" and free: "1 \<le> f" "f < MAX_PID" "f \<notin> pid_used (kern s) ps"
  shows "\<exists>r s'. get_pid s = Some (r, s') \<and> 1 \<le> r \<and> r < MAX_PID \<and> r \<notin> pid_used (kern s) ps \<and>
     pid_inv s' ps \<and> last_pid s' = r \<and> kern s' = kern s \<and> nr_process s' = nr_process s \<and> initproc s' = initproc s \<and>
     mm_count s' = mm_count s \<and> files_count s' = files_count s \<and> released s' = released s"
proof -
  have pl: "plist (kern s) ps" and l1: "1 \<le> last_pid s" using inv by (auto simp: pid_inv_def)
  have loop: "\<exists>l' n'. get_pid_loop (kern s) ProcHead l MAX_PID = Some (l', n') \<and> 1 \<le> l' \<and> l' < n' \<and> n' \<le> MAX_PID \<and>
     (\<forall>p\<in>set ps. \<not> (l' \<le> pid (proc_at s p) \<and> pid (proc_at s p) < n'))" if "1 \<le> l" "l < MAX_PID" for l
  proof -
    from cyc_reaches [OF that free(1,2)] obtain d where "(cyc ^^ d) l = f" by blast
    then show ?thesis using get_pid_loop_ok [of "kern s" "[]" ps d l MAX_PID] pl that free(3) by (simp add: at_def)
  qed
  let ?l = "last_pid s + 1"
  consider (wrap) "?l \<ge> MAX_PID" | (scan) "?l < MAX_PID" "?l \<ge> next_safe s" | (fast) "?l < MAX_PID" "?l < next_safe s"
    by linarith
  then show ?thesis
  proof cases
    case wrap
    from loop [of 1] obtain l' n' where "get_pid_loop (kern s) ProcHead 1 MAX_PID = Some (l', n')" "1 \<le> l'" "l' < n'" "n' \<le> MAX_PID"
      "\<forall>p\<in>set ps. \<not> (l' \<le> pid (proc_at s p) \<and> pid (proc_at s p) < n')" by auto
    then show ?thesis using wrap pl by (auto simp: get_pid_def pid_inv_def pid_used_def)
  next
    case scan
    from loop [of ?l] scan l1 obtain l' n' where "get_pid_loop (kern s) ProcHead ?l MAX_PID = Some (l', n')" "1 \<le> l'" "l' < n'" "n' \<le> MAX_PID"
      "\<forall>p\<in>set ps. \<not> (l' \<le> pid (proc_at s p) \<and> pid (proc_at s p) < n')" by auto
    then show ?thesis using scan pl by (auto simp: get_pid_def pid_inv_def pid_used_def)
  next
    case fast
    have "?l \<notin> pid_used (kern s) ps" using inv fast by (auto simp: pid_inv_def pid_used_def)
    moreover have "get_pid s = Some (?l, s\<lparr>last_pid := ?l\<rparr>)" using fast by (simp add: get_pid_def Let_def)
    ultimately show ?thesis using fast inv l1
      by (intro exI [of _ ?l] exI [of _ "s\<lparr>last_pid := ?l\<rparr>"]) (auto simp: pid_inv_def)
  qed
qed

section \<open>The family tree\<close>

text \<open>
  \<open>sib k y x cs\<close>: starting at \<open>x\<close> the \<^verbatim>\<open>optr\<close> links run through \<open>cs\<close>, the \<^verbatim>\<open>yptr\<close> links run back, the one
  of the first child being \<open>y\<close>.
\<close>

fun sib :: "(nat \<Rightarrow> proc_struct) \<Rightarrow> nat option \<Rightarrow> nat option \<Rightarrow> nat list \<Rightarrow> bool" where
  "sib f y x [] = (x = None)"
| "sib f y x (c # cs) = (x = Some c \<and> yptr (f c) = y \<and> sib f (Some c) (optr (f c)) cs)"

definition kids :: "kernel \<Rightarrow> nat \<Rightarrow> nat list \<Rightarrow> bool" where
  "kids k q cs \<longleftrightarrow> sib (procs k) None (cptr (procs k q)) cs \<and> distinct cs \<and> (\<forall>c\<in>set cs. parent (procs k c) = Some q)"

lemma sib_cong:
  "(\<And>c. c \<in> set cs \<Longrightarrow> yptr (g c) = yptr (f c) \<and> optr (g c) = optr (f c)) \<Longrightarrow> sib g y x cs = sib f y x cs"
  by (induction cs arbitrary: y x) auto

lemma sib_start: "sib f y x cs \<Longrightarrow> x = (case cs of [] \<Rightarrow> None | c # _ \<Rightarrow> Some c)"
  by (cases cs) auto

lemma sib_shift:
  assumes "sib f y x cs" and "distinct cs"
    and "\<And>c. c \<in> set cs \<Longrightarrow> optr (g c) = optr (f c)"
    and "\<And>c. c \<in> set (tl cs) \<Longrightarrow> yptr (g c) = yptr (f c)" and "\<And>c ds. cs = c # ds \<Longrightarrow> yptr (g c) = z"
  shows "sib g z x cs"
proof (cases cs)
  case (Cons c ds)
  have "sib g (Some c) (optr (f c)) ds = sib f (Some c) (optr (f c)) ds"
    using assms(3,4) Cons by (intro sib_cong) auto
  then show ?thesis using assms Cons by auto
qed (use assms in simp)

lemma kids_frame:
  assumes "kids k r ds" and "cptr (procs k' r) = cptr (procs k r)"
    and "\<And>c. c \<in> set ds \<Longrightarrow> yptr (procs k' c) = yptr (procs k c) \<and> optr (procs k' c) = optr (procs k c) \<and>
        parent (procs k' c) = parent (procs k c)"
  shows "kids k' r ds"
proof -
  have "sib (procs k') None (cptr (procs k r)) ds = sib (procs k) None (cptr (procs k r)) ds"
    using assms(3) by (intro sib_cong) auto
  then show ?thesis using assms by (simp add: kids_def)
qed

lemma set_links_ok:
  assumes kd: "kids (kern s) q cs" and par: "parent (proc_at s p) = Some q" and new: "p \<notin> set cs" "p \<noteq> q" "q \<notin> set cs"
  shows "\<exists>s'. set_links p s = Some s' \<and> kids (kern s') q (p # cs) \<and> nr_process s' = nr_process s + 1 \<and>
     klinks (kern s') = list_add ProcHead (ListLink p) (klinks (kern s)) \<and>
     (\<forall>r. state (proc_at s' r) = state (proc_at s r) \<and> pid (proc_at s' r) = pid (proc_at s r) \<and>
        parent (proc_at s' r) = parent (proc_at s r) \<and> on_rq (proc_at s' r) = on_rq (proc_at s r)) \<and>
     (\<exists>f. s' = (upd_kern f s)\<lparr>nr_process := nr_process s + 1\<rparr>) \<and> current (kern s') = current (kern s) \<and>
     idleproc (kern s') = idleproc (kern s) \<and> proc_num (kern s') = proc_num (kern s) \<and>
     (\<forall>r ds. r \<noteq> q \<longrightarrow> p \<notin> set ds \<longrightarrow> set ds \<inter> set cs = {} \<longrightarrow> r \<noteq> p \<longrightarrow> kids (kern s) r ds \<longrightarrow> kids (kern s') r ds)"
proof -
  have hd: "cptr (proc_at s q) = (case cs of [] \<Rightarrow> None | c # _ \<Rightarrow> Some c)"
    using kd by (auto simp: kids_def dest: sib_start)
  define g where "g = (\<lambda>r. if r = p then (proc_at s p)\<lparr>yptr := None, optr := cptr (proc_at s q)\<rparr>
      else if r = q then (proc_at s q)\<lparr>cptr := Some p\<rparr>
      else if cptr (proc_at s q) = Some r then (proc_at s r)\<lparr>yptr := Some p\<rparr> else proc_at s r)"
  define s' where "s' = (upd_kern (\<lambda>k. k\<lparr>procs := g, klinks := list_add ProcHead (ListLink p) (klinks k)\<rparr>) s)\<lparr>nr_process := nr_process s + 1\<rparr>"
  have run: "set_links p s = Some s'"
  proof (cases cs)
    case Nil
    have "(procs (kern s))(p := (proc_at s p)\<lparr>yptr := None, optr := None\<rparr>, q := (proc_at s q)\<lparr>cptr := Some p\<rparr>) = g"
      using new hd Nil by (auto simp: g_def fun_eq_iff)
    then show ?thesis using par new hd Nil
      by (simp add: set_links_def s'_def upd_kern_def upd_proc_def upd_klinks_def)
  next
    case (Cons c ds)
    then have ne: "c \<noteq> p" "c \<noteq> q" using new by auto
    then have "(procs (kern s))(p := (proc_at s p)\<lparr>yptr := None, optr := Some c\<rparr>, c := (proc_at s c)\<lparr>yptr := Some p\<rparr>,
        q := (proc_at s q)\<lparr>cptr := Some p\<rparr>) = g"
      using new hd Cons by (auto simp: g_def fun_eq_iff)
    then show ?thesis using par new hd Cons ne
      by (simp add: set_links_def s'_def upd_kern_def upd_proc_def upd_klinks_def)
  qed
  have nr: "nr_process s' = nr_process s + 1" and lk: "klinks (kern s') = list_add ProcHead (ListLink p) (klinks (kern s))"
    and pr: "procs (kern s') = g" by (simp_all add: s'_def)
  have sb: "sib (procs (kern s)) None (cptr (proc_at s q)) cs" "distinct cs" using kd by (simp_all add: kids_def)
  have "sib g (Some p) (cptr (proc_at s q)) cs"
  proof (rule sib_shift [OF sb])
    fix c
    show "c \<in> set cs \<Longrightarrow> optr (g c) = optr (proc_at s c)" using new by (auto simp: g_def)
    show "c \<in> set (tl cs) \<Longrightarrow> yptr (g c) = yptr (proc_at s c)" using new hd sb(2) by (cases cs) (auto simp: g_def)
    show "cs = c # ds \<Longrightarrow> yptr (g c) = Some p" for ds using new hd by (auto simp: g_def)
  qed
  moreover have "parent (g c) = parent (proc_at s c)" for c by (simp add: g_def)
  ultimately have "kids (kern s') q (p # cs)" using kd par new by (simp add: kids_def pr) (simp add: g_def)
  moreover have "kids (kern s') r ds" if "r \<noteq> q" "p \<notin> set ds" "set ds \<inter> set cs = {}" "r \<noteq> p" "kids (kern s) r ds" for r ds
  proof (rule kids_frame [OF that(5)])
    have "cptr (proc_at s q) \<noteq> Some c" if "c \<in> set ds" for c
      using hd that \<open>set ds \<inter> set cs = {}\<close> by (auto split: list.splits)
    then show "yptr (proc_at s' c) = yptr (proc_at s c) \<and> optr (proc_at s' c) = optr (proc_at s c) \<and>
        parent (proc_at s' c) = parent (proc_at s c)" if "c \<in> set ds" for c
      using that \<open>p \<notin> set ds\<close> by (auto simp: pr g_def)
  qed (use that in \<open>auto simp: pr g_def\<close>)
  moreover have "\<exists>f. s' = (upd_kern f s)\<lparr>nr_process := nr_process s + 1\<rparr>" unfolding s'_def by blast
  moreover have "state (g r) = state (proc_at s r) \<and> pid (g r) = pid (proc_at s r) \<and> parent (g r) = parent (proc_at s r) \<and>
      on_rq (g r) = on_rq (proc_at s r)" for r by (simp add: g_def)
  moreover have "current (kern s') = current (kern s)" "idleproc (kern s') = idleproc (kern s)" "proc_num (kern s') = proc_num (kern s)"
    by (simp_all add: s'_def)
  ultimately show ?thesis using run nr lk by (intro exI [of _ s'] conjI) (simp_all add: pr)
qed

text \<open>A stretch of siblings that ends with the pair \<open>(y', x')\<close> the next one is linked by.\<close>

fun seg :: "(nat \<Rightarrow> proc_struct) \<Rightarrow> nat option \<Rightarrow> nat option \<Rightarrow> nat list \<Rightarrow> nat option \<Rightarrow> nat option \<Rightarrow> bool" where
  "seg f y x [] y' x' = (y = y' \<and> x = x')"
| "seg f y x (c # cs) y' x' = (x = Some c \<and> yptr (f c) = y \<and> seg f (Some c) (optr (f c)) cs y' x')"

lemma sib_append: "sib f y x (us @ vs) \<longleftrightarrow> (\<exists>y' x'. seg f y x us y' x' \<and> sib f y' x' vs)"
  by (induction us arbitrary: y x) auto

lemma seg_append: "seg f y x (us @ vs) y' x' \<longleftrightarrow> (\<exists>y1 x1. seg f y x us y1 x1 \<and> seg f y1 x1 vs y' x')"
  by (induction us arbitrary: y x) auto

lemma seg_cong:
  "(\<And>c. c \<in> set cs \<Longrightarrow> yptr (g c) = yptr (f c) \<and> optr (g c) = optr (f c)) \<Longrightarrow> seg g y x cs y' x' = seg f y x cs y' x'"
  by (induction cs arbitrary: y x) auto

lemma remove_links_ok:
  assumes kd: "kids (kern s) q (us @ p # vs)" and new: "q \<notin> set (us @ p # vs)"
  shows "\<exists>s'. remove_links p s = Some s' \<and> kids (kern s') q (us @ vs) \<and> nr_process s' = nr_process s - 1 \<and>
     klinks (kern s') = list_del (ListLink p) (klinks (kern s)) \<and>
     (\<forall>r. state (proc_at s' r) = state (proc_at s r) \<and> pid (proc_at s' r) = pid (proc_at s r) \<and>
        parent (proc_at s' r) = parent (proc_at s r))"
proof -
  let ?f = "procs (kern s)"
  have dist: "distinct (us @ p # vs)" and par: "\<forall>c\<in>set (us @ p # vs). parent (?f c) = Some q"
    using kd by (simp_all add: kids_def)
  from kd obtain y' where sg: "seg ?f None (cptr (?f q)) us y' (Some p)" and yp: "yptr (?f p) = y'"
    and sv: "sib ?f (Some p) (optr (?f p)) vs" by (auto simp: kids_def sib_append)
  have op: "optr (?f p) = (case vs of [] \<Rightarrow> None | v # _ \<Rightarrow> Some v)" using sib_start [OF sv] .
  have y': "y' = (if us = [] then None else Some (last us))"
    using sg by (cases us rule: rev_cases) (auto simp: seg_append)
  define g1 where "g1 = (case optr (?f p) of None \<Rightarrow> ?f | Some c \<Rightarrow> ?f(c := (?f c)\<lparr>yptr := yptr (?f p)\<rparr>))"
  define g where "g = (case y' of Some c \<Rightarrow> g1(c := (g1 c)\<lparr>optr := optr (?f p)\<rparr>)
      | None \<Rightarrow> g1(q := (g1 q)\<lparr>cptr := optr (?f p)\<rparr>))"
  have pv: "\<And>c. optr (?f p) = Some c \<Longrightarrow> c \<noteq> p \<and> c \<noteq> q \<and> c \<notin> set us" using op dist new by (auto split: list.splits)
  have g1p: "g1 p = ?f p" using pv by (auto simp: g1_def split: option.splits)
  obtain s' where run: "remove_links p s = Some s'" and nr: "nr_process s' = nr_process s - 1"
    and lk: "klinks (kern s') = list_del (ListLink p) (klinks (kern s))" and pr: "procs (kern s') = g"
  proof -
    have gp: "yptr (g1 p) = y'" "optr (g1 p) = optr (?f p)" "parent (g1 p) = Some q" using yp g1p par by auto
    show ?thesis using that gp
      by (cases "optr (?f p)"; cases y') (auto simp: remove_links_def g_def g1_def yp)
  qed
  have sv': "sib g y' (optr (?f p)) vs"
  proof (rule sib_shift [OF sv])
    fix c
    have ny: "y' \<noteq> Some c" if "c \<in> set vs"
    proof
      assume "y' = Some c"
      then have "us \<noteq> []" "c = last us" using y' by (auto split: if_splits)
      then have "c \<in> set us" by simp
      then show False using that dist by auto
    qed
    show "c \<in> set vs \<Longrightarrow> optr (g c) = optr (?f c)" using ny new by (auto simp: g_def g1_def split: option.splits)
    have "c \<in> set (tl vs) \<Longrightarrow> optr (?f p) \<noteq> Some c" using op dist by (cases vs) auto
    then show "c \<in> set (tl vs) \<Longrightarrow> yptr (g c) = yptr (?f c)" by (auto simp: g_def g1_def split: option.splits)
    show "vs = c # ds \<Longrightarrow> yptr (g c) = y'" for ds using op yp by (auto simp: g_def g1_def split: option.splits)
  qed (use dist in auto)
  have sg': "seg g None (cptr (g q)) us y' (optr (?f p))"
  proof (cases us rule: rev_cases)
    case Nil
    then show ?thesis using y' by (simp add: g_def)
  next
    case (snoc ws w)
    then have yw: "y' = Some w" using y' by simp
    have "cptr (g q) = cptr (?f q)" using yw by (auto simp: g_def g1_def split: option.splits)
    moreover from sg snoc obtain y1 x1 where a: "seg ?f None (cptr (?f q)) ws y1 x1" "x1 = Some w" "yptr (?f w) = y1"
      by (auto simp: seg_append)
    moreover have "seg g None (cptr (?f q)) ws y1 x1 = seg ?f None (cptr (?f q)) ws y1 x1"
      using pv yw dist snoc by (intro seg_cong) (auto simp: g_def g1_def split: option.splits)
    moreover have "yptr (g w) = yptr (?f w)" "optr (g w) = optr (?f p)"
      using pv yw snoc by (auto simp: g_def g1_def split: option.splits)
    ultimately show ?thesis using snoc yw by (auto simp: seg_append)
  qed
  have same: "state (g r) = state (?f r)" "pid (g r) = pid (?f r)" "parent (g r) = parent (?f r)" for r
    by (auto simp: g_def g1_def split: option.splits)
  have "kids (kern s') q (us @ vs)" using sg' sv' dist par by (auto simp: kids_def pr sib_append same)
  then show ?thesis using run nr lk same by (intro exI [of _ s']) (simp add: pr)
qed

section \<open>Looking up a pid\<close>

text \<open>\<open>hashed k t\<close>: bucket \<open>h\<close> of the table is the ring of the processes \<open>t h\<close>, each in the bucket of its pid.\<close>

definition hashed :: "kernel \<Rightarrow> (nat \<Rightarrow> nat list) \<Rightarrow> bool" where
  "hashed k t \<longleftrightarrow> (\<forall>h. dlist (klinks k) (HashHead h) (map HashLink (t h)) \<and>
     (\<forall>p\<in>set (t h). pid_hashfn (pid (procs k p)) = h))"

interpretation pid_chain: hash_chain HashHead HashLink
  by unfold_locales simp_all

lemma hashed_chains: "hashed k t \<longleftrightarrow> chains HashHead HashLink (klinks k) t (\<lambda>p. pid_hashfn (pid (procs k p)))"
  by (simp add: hashed_def chains_def)

lemma hashed_bucket: "hashed k t \<Longrightarrow> p \<in> tabled t \<Longrightarrow> p \<in> set (t (pid_hashfn (pid (procs k p))))"
  using chains_bucket [of HashHead HashLink "klinks k" t "\<lambda>p. pid_hashfn (pid (procs k p))" p] by (simp add: hashed_chains)

lemma find_proc_loop_ok:
  assumes "dlist (klinks k) (HashHead h) (map HashLink (us @ vs))"
  shows "find_proc_loop k x h (if us = [] then HashHead h else HashLink (last us)) =
     Some (find (\<lambda>p. pid (procs k p) = x) vs)"
  using assms
proof (induction vs arbitrary: us)
  case Nil
  then show ?case using pid_chain.chain_next [OF Nil.prems] by (subst find_proc_loop.simps) simp
next
  case (Cons v vs)
  then show ?case using Cons.IH [of "us @ [v]"] pid_chain.chain_next [OF Cons.prems] by (subst find_proc_loop.simps) simp
qed

lemma find_proc_ok:
  assumes h: "hashed (kern s) t" and uniq: "\<forall>p\<in>tabled t. \<forall>q\<in>tabled t. pid (proc_at s p) = pid (proc_at s q) \<longrightarrow> p = q"
  shows "find_proc x s = Some r \<longleftrightarrow>
     (case r of Some p \<Rightarrow> 0 < x \<and> x < MAX_PID \<and> p \<in> tabled t \<and> pid (proc_at s p) = x
      | None \<Rightarrow> \<not> (0 < x \<and> x < MAX_PID \<and> (\<exists>p\<in>tabled t. pid (proc_at s p) = x)))"
proof (cases "0 < x \<and> x < MAX_PID")
  case True
  let ?b = "t (pid_hashfn x)"
  have run: "find_proc x s = Some (find (\<lambda>p. pid (proc_at s p) = x) ?b)"
    using find_proc_loop_ok [of "kern s" "pid_hashfn x" "[]" ?b x] h True by (simp add: find_proc_def hashed_def)
  have mem: "p \<in> tabled t \<and> pid (proc_at s p) = x \<longleftrightarrow> p \<in> set ?b \<and> pid (proc_at s p) = x" for p
    using hashed_bucket [OF h] by (auto simp: tabled_def)
  show ?thesis
  proof (cases "find (\<lambda>p. pid (proc_at s p) = x) ?b")
    case None
    then have "\<forall>p\<in>set ?b. pid (proc_at s p) \<noteq> x" by (simp add: find_None_iff)
    then show ?thesis using run None True mem by (cases r) auto
  next
    case (Some q)
    then have "q \<in> set ?b" "pid (proc_at s q) = x" by (auto simp: find_Some_iff)
    then have q: "q \<in> tabled t" "pid (proc_at s q) = x" using mem by blast+
    then show ?thesis using run True Some uniq by (cases r) auto
  qed
next
  case False
  then have "find_proc x s = Some None" by (auto simp: find_proc_def)
  then show ?thesis using False by (cases r) auto
qed

lemma hash_proc_ok:
  assumes h: "hashed (kern s) t" and p: "p \<notin> tabled t"
  defines "b \<equiv> pid_hashfn (pid (proc_at s p))"
  shows "hashed (kern (hash_proc p s)) (t(b := p # t b))"
  using pid_chain.chain_add [OF h [unfolded hashed_chains] p] by (simp add: hashed_chains hash_proc_def b_def)

lemma unhash_proc_ok:
  assumes h: "hashed (kern s) t" and p: "p \<in> tabled t"
  defines "b \<equiv> pid_hashfn (pid (proc_at s p))"
  shows "hashed (kern (unhash_proc p s)) (t(b := remove1 p (t b)))"
  using pid_chain.chain_del [OF h [unfolded hashed_chains] p] by (simp add: hashed_chains unhash_proc_def b_def)

lemma tabled_remove:
  assumes "hashed k t" and "p \<in> tabled t"
  shows "tabled (t(pid_hashfn (pid (procs k p)) := remove1 p (t (pid_hashfn (pid (procs k p)))))) = tabled t - {p}"
  using pid_chain.chain_tabled_del [OF assms(1) [unfolded hashed_chains] assms(2)] .

lemma get_pid_total:
  assumes inv: "pid_inv s ps" and few: "int (length ps) < MAX_PID - 1"
  shows "\<exists>r s'. get_pid s = Some (r, s') \<and> 1 \<le> r \<and> r < MAX_PID \<and> (\<forall>p\<in>set ps. pid (proc_at s p) \<noteq> r) \<and>
     pid_inv s' ps \<and> last_pid s' = r \<and> kern s' = kern s \<and> nr_process s' = nr_process s \<and> initproc s' = initproc s \<and>
     mm_count s' = mm_count s \<and> files_count s' = files_count s \<and> released s' = released s"
proof -
  have "card (pid_used (kern s) ps) \<le> length ps"
    unfolding pid_used_def by (meson card_image_le card_length finite_set le_trans)
  then have "card (pid_used (kern s) ps) < card {1 ..< MAX_PID}" using few by simp
  moreover have "finite (pid_used (kern s) ps)" by (simp add: pid_used_def)
  ultimately have "\<not> {1 ..< MAX_PID} \<subseteq> pid_used (kern s) ps" by (meson card_mono not_le)
  then obtain f where "1 \<le> f" "f < MAX_PID" "f \<notin> pid_used (kern s) ps" by (meson atLeastLessThan_iff subsetI)
  from get_pid_ok [OF inv this] obtain r s' where r: "get_pid s = Some (r, s') \<and> 1 \<le> r \<and> r < MAX_PID \<and> r \<notin> pid_used (kern s) ps \<and>
     pid_inv s' ps \<and> last_pid s' = r \<and> kern s' = kern s \<and> nr_process s' = nr_process s \<and> initproc s' = initproc s \<and>
     mm_count s' = mm_count s \<and> files_count s' = files_count s \<and> released s' = released s" by blast
  then have "\<forall>p\<in>set ps. pid (proc_at s p) \<noteq> r" unfolding pid_used_def by blast
  then show ?thesis using r by blast
qed

section \<open>An index of processes by pid\<close>

locale pid_index =
  fixes insert_proc :: "nat \<Rightarrow> 's \<Rightarrow> 's" and delete_proc :: "nat \<Rightarrow> 's \<Rightarrow> 's"
    and look :: "int \<Rightarrow> 's \<Rightarrow> nat option option" and pid_of :: "'s \<Rightarrow> nat \<Rightarrow> int" and members :: "'s \<Rightarrow> nat set \<Rightarrow> bool"
  assumes insert_law: "members s S \<Longrightarrow> p \<notin> S \<Longrightarrow> (\<forall>q\<in>S. pid_of s q \<noteq> pid_of s p) \<Longrightarrow> members (insert_proc p s) (insert p S)"
    and delete_law: "members s S \<Longrightarrow> p \<in> S \<Longrightarrow> members (delete_proc p s) (S - {p})"
    and pid_same: "pid_of (insert_proc p s) = pid_of s" "pid_of (delete_proc p s) = pid_of s"
    and look_law: "members s S \<Longrightarrow> p \<in> S \<Longrightarrow> 0 < pid_of s p \<Longrightarrow> pid_of s p < MAX_PID \<Longrightarrow> look (pid_of s p) s = Some (Some p)"
    and look_none: "members s S \<Longrightarrow> (\<forall>p\<in>S. pid_of s p \<noteq> x) \<Longrightarrow> look x s = Some None"
    and distinct_pids: "members s S \<Longrightarrow> p \<in> S \<Longrightarrow> q \<in> S \<Longrightarrow> pid_of s p = pid_of s q \<Longrightarrow> p = q"
begin

lemma look_after_insert:
  assumes "members s S" and "p \<notin> S" and "\<forall>q\<in>S. pid_of s q \<noteq> pid_of s p" and "0 < pid_of s p" "pid_of s p < MAX_PID"
  shows "look (pid_of s p) (insert_proc p s) = Some (Some p)"
  using look_law [OF insert_law [OF assms(1-3)], of p] assms(4,5) by (simp add: pid_same)

lemma look_after_delete:
  assumes "members s S" and "p \<in> S"
  shows "look (pid_of s p) (delete_proc p s) = Some None"
  using look_none [OF delete_law [OF assms], of "pid_of s p"] distinct_pids [OF assms(1) _ assms(2)]
  by (auto simp: pid_same)

lemma insert_delete:
  assumes "members s S" and "p \<notin> S" and "\<forall>q\<in>S. pid_of s q \<noteq> pid_of s p"
  shows "members (delete_proc p (insert_proc p s)) S"
  using delete_law [OF insert_law [OF assms], of p] assms(2) by simp

end

definition proc_index :: "psys \<Rightarrow> nat set \<Rightarrow> bool" where
  "proc_index s S \<longleftrightarrow> (\<exists>t. hashed (kern s) t \<and> tabled t = S \<and>
     (\<forall>p\<in>S. \<forall>q\<in>S. pid (proc_at s p) = pid (proc_at s q) \<longrightarrow> p = q))"

interpretation px: pid_index hash_proc unhash_proc find_proc "\<lambda>s p. pid (proc_at s p)" proc_index
proof
  fix s S p x
  show same: "(\<lambda>q. pid (proc_at (hash_proc p s) q)) = (\<lambda>q. pid (proc_at s q))"
    "(\<lambda>q. pid (proc_at (unhash_proc p s) q)) = (\<lambda>q. pid (proc_at s q))"
    by (simp_all add: hash_proc_def unhash_proc_def)
  assume "proc_index s S"
  then obtain t where t: "hashed (kern s) t" "tabled t = S"
    "\<forall>p\<in>S. \<forall>q\<in>S. pid (proc_at s p) = pid (proc_at s q) \<longrightarrow> p = q" by (auto simp: proc_index_def)
  { assume "p \<notin> S" "\<forall>q\<in>S. pid (proc_at s q) \<noteq> pid (proc_at s p)"
    then show "proc_index (hash_proc p s) (insert p S)"
      using hash_proc_ok [OF t(1), of p] t fun_cong [OF same(1)] unfolding proc_index_def
      by (intro exI conjI) (auto simp: tabled_insert) }
  { assume "p \<in> S"
    then show "proc_index (unhash_proc p s) (S - {p})"
      using unhash_proc_ok [OF t(1), of p] tabled_remove [OF t(1), of p] t fun_cong [OF same(2)] unfolding proc_index_def
      by (intro exI conjI) auto }
  note f = find_proc_ok [OF t(1), unfolded t(2), OF t(3)]
  show "p \<in> S \<Longrightarrow> 0 < pid (proc_at s p) \<Longrightarrow> pid (proc_at s p) < MAX_PID \<Longrightarrow> find_proc (pid (proc_at s p)) s = Some (Some p)"
    using f [of "pid (proc_at s p)" "Some p"] by simp
  show "\<forall>p\<in>S. pid (proc_at s p) \<noteq> x \<Longrightarrow> find_proc x s = Some None" using f [of x None] by auto
  show "p \<in> S \<Longrightarrow> q \<in> S \<Longrightarrow> pid (proc_at s p) = pid (proc_at s q) \<Longrightarrow> p = q" for q using t(3) by blast
qed

section \<open>The properties\<close>

text \<open>C10: \<^verbatim>\<open>get_pid\<close> terminates and returns a pid in the legal range that no process of the list has, whenever there
  are fewer processes than pids; the promise of \<^verbatim>\<open>next_safe\<close> holds again afterwards.\<close>

theorem get_pid_fresh:
  assumes "pid_inv s ps" and "int (length ps) < MAX_PID - 1"
  shows "\<exists>r s'. get_pid s = Some (r, s') \<and> 1 \<le> r \<and> r < MAX_PID \<and> (\<forall>p\<in>set ps. pid (proc_at s p) \<noteq> r) \<and>
     pid_inv s' ps \<and> kern s' = kern s"
  using get_pid_total [OF assms] by blast

definition sample_psys :: psys where
  "sample_psys = \<lparr>kern = upd_klinks (list_add ProcHead (ListLink 1)) (upd_klinks (list_init ProcHead) sample_kernel),
     initproc = Some 1, nr_process = 2, last_pid = 8192, next_safe = 8192,
     mm_count = (\<lambda>_. 1), files_count = (\<lambda>_. 1), released = []\<rparr>"

lemma sample_psys_inv: "pid_inv sample_psys [1]"
proof -
  have "dlist (list_init ProcHead (klinks sample_kernel)) ProcHead []" by (rule dlist_init)
  from dlist_add_after_head [OF this, of "ListLink 1"] show ?thesis
    by (simp add: pid_inv_def plist_def sample_psys_def list_add_def)
qed

theorem get_pid_fresh_witness:
  "\<exists>r s'. get_pid sample_psys = Some (r, s') \<and> 1 \<le> r \<and> r \<noteq> 1"
proof -
  have "pid (proc_at sample_psys 1) = 1"
    by (simp add: sample_psys_def sample_kernel_def sched_init_def RR_init_def boot_kernel_def sample_proc_def)
  then show ?thesis using get_pid_fresh [OF sample_psys_inv] by auto
qed

text \<open>The hash table is a correct index: after \<^verbatim>\<open>hash_proc\<close> the new process is found under its pid, after
  \<^verbatim>\<open>unhash_proc\<close> nothing is found under it, and every other lookup finds the process with that pid.\<close>

theorem find_proc_index:
  assumes ix: "proc_index s S" and p: "p \<notin> S" "\<forall>q\<in>S. pid (proc_at s q) \<noteq> pid (proc_at s p)"
    and rg: "\<forall>q\<in>insert p S. 0 < pid (proc_at s q) \<and> pid (proc_at s q) < MAX_PID"
  shows "find_proc (pid (proc_at s p)) (hash_proc p s) = Some (Some p) \<and>
     (\<forall>q\<in>S. find_proc (pid (proc_at s q)) (hash_proc p s) = Some (Some q)) \<and>
     (\<forall>q\<in>S. find_proc (pid (proc_at s q)) (unhash_proc q s) = Some None) \<and>
     proc_index (unhash_proc p (hash_proc p s)) S"
proof -
  have same: "pid (proc_at (hash_proc p s) q) = pid (proc_at s q)" for q by (simp add: hash_proc_def)
  have "find_proc (pid (proc_at s q)) (hash_proc p s) = Some (Some q)" if "q \<in> S" for q
    using px.look_law [OF px.insert_law [OF ix p], of q] rg that unfolding same by simp
  moreover have "find_proc (pid (proc_at s p)) (hash_proc p s) = Some (Some p)"
    using px.look_after_insert [OF ix p] rg by simp
  ultimately show ?thesis using px.look_after_delete [OF ix] px.insert_delete [OF ix p] by blast
qed

definition hash_psys :: psys where
  "hash_psys = sample_psys\<lparr>kern := (kern sample_psys)\<lparr>klinks := \<lparr>nxt = (\<lambda>n. n), prv = (\<lambda>n. n)\<rparr>\<rparr>\<rparr>"

theorem find_proc_index_witness: "find_proc 3 (hash_proc 3 hash_psys) = Some (Some 3)"
proof -
  have "proc_index hash_psys {}"
    unfolding proc_index_def by (intro exI [of _ "\<lambda>_. []"]) (simp add: hashed_def tabled_def dlist_def hash_psys_def)
  moreover have "pid (proc_at hash_psys 3) = 3"
    by (simp add: hash_psys_def sample_psys_def sample_kernel_def sched_init_def RR_init_def boot_kernel_def sample_proc_def)
  ultimately show ?thesis using find_proc_index [of hash_psys "{}" 3] by simp
qed

end
