(* ===== verification/SfsMount.thy ===== *)
theory SfsMount
  imports SfsIo SysFile ProcTable
begin

text \<open>
  The simple file system as a file system of the VFS: the cache of its inodes (\<^verbatim>\<open>kern/fs/sfs/sfs_inode.c\<close>) and mounting, synchronising
  and unmounting (\<^verbatim>\<open>kern/fs/sfs/sfs_fs.c\<close>).  The state is that of \<open>Vfs\<close> with a mounted file system in it; the operations of \<open>Sfs\<close> run on
  the memory of the VFS.  The address of an inode is also that of its \<^verbatim>\<open>struct sfs_inode\<close>.  Locks, \<^verbatim>\<open>kfree\<close> and messages leave no trace.
\<close>

unbundle bit_operations_syntax

section \<open>The state\<close>

text \<open>The rings: the list of all cached inodes, and the buckets of the hash table by block number.\<close>

datatype sfs_node = InodeList | InodeLink nat | SinHead nat | SinLink nat

record sfs_mnt =
  sfs :: sfs_fs
  sins :: "nat \<Rightarrow> sfs_inode"
  slinks :: "sfs_node list_entry"

text \<open>What the allocators return, and where the name given to \<^verbatim>\<open>sfs_lookup\<close> and the string \<^verbatim>\<open>".."\<close> are.\<close>

record sfs_env =
  g_entry :: bool
  g_din :: bool
  g_node :: "nat option"
  name_at :: nat
  dots_at :: nat

definition upd_mnt :: "(sfs_mnt \<Rightarrow> sfs_mnt) \<Rightarrow> sfs_mnt vfs \<Rightarrow> sfs_mnt vfs" where
  "upd_mnt f v = v\<lparr>fsdata := f (fsdata v)\<rparr>"

definition upd_sin :: "nat \<Rightarrow> (sfs_inode \<Rightarrow> sfs_inode) \<Rightarrow> sfs_mnt vfs \<Rightarrow> sfs_mnt vfs" where
  "upd_sin n f = upd_mnt (\<lambda>d. d\<lparr>sins := (sins d)(n := f (sins d n))\<rparr>)"

abbreviation sin_of :: "nat \<Rightarrow> sfs_mnt vfs \<Rightarrow> sfs_inode" where
  "sin_of n v \<equiv> sins (fsdata v) n"

text \<open>A function of \<open>Sfs\<close>, on the memory of the VFS; and one that works on an inode as well.\<close>

definition fs_view :: "sfs_mnt vfs \<Rightarrow> sfs_fs" where
  "fs_view v = (sfs (fsdata v))\<lparr>dmem := kmem v\<rparr>"

definition put_view :: "sfs_fs \<Rightarrow> sfs_mnt vfs \<Rightarrow> sfs_mnt vfs" where
  "put_view s v = v\<lparr>kmem := dmem s, fsdata := (fsdata v)\<lparr>sfs := s\<rparr>\<rparr>"

definition on_sfs :: "(sfs_fs \<Rightarrow> ('r \<times> sfs_fs) option) \<Rightarrow> sfs_mnt vfs \<Rightarrow> ('r \<times> sfs_mnt vfs) option" where
  "on_sfs f v = do { (r, s) \<leftarrow> f (fs_view v); Some (r, put_view s v) }"

definition on_sin :: "nat \<Rightarrow> (sfs_inode \<Rightarrow> sfs_fs \<Rightarrow> ('r \<times> sfs_inode \<times> sfs_fs) option) \<Rightarrow> sfs_mnt vfs \<Rightarrow> ('r \<times> sfs_mnt vfs) option" where
  "on_sin n f v = do { (r, sin, s) \<leftarrow> f (sin_of n v) (fs_view v); Some (r, upd_sin n (\<lambda>_. sin) (put_view s v)) }"

text \<open>\<^verbatim>\<open>vop_info(node, sfs_inode)\<close> and \<^verbatim>\<open>fsop_info(vop_fs(node), sfs)\<close> assert that the inode is one of this file system.\<close>

definition sfs_node_check :: "nat \<Rightarrow> sfs_mnt vfs \<Rightarrow> unit option" where
  "sfs_node_check n v = kassert (\<not> in_device (inodes v n) \<and> in_fs (inodes v n) \<noteq> None)"

section \<open>The inode cache\<close>

definition sin_hashfn :: "nat \<Rightarrow> nat" where
  "sin_hashfn ino = unat (hash32 (word_of_nat ino) 10)"

definition sfs_set_links :: "nat \<Rightarrow> sfs_mnt vfs \<Rightarrow> sfs_mnt vfs" where
  "sfs_set_links n v = upd_mnt (\<lambda>d. d\<lparr>slinks :=
     list_add (SinHead (sin_hashfn (sino (sins d n)))) (SinLink n) (list_add InodeList (InodeLink n) (slinks d))\<rparr>) v"

definition sfs_remove_links :: "nat \<Rightarrow> sfs_mnt vfs \<Rightarrow> sfs_mnt vfs" where
  "sfs_remove_links n = upd_mnt (\<lambda>d. d\<lparr>slinks := list_del (SinLink n) (list_del (InodeLink n) (slinks d))\<rparr>)"

text \<open>\<^verbatim>\<open>sfs_get_ops\<close>: any other type stops the kernel.\<close>

definition sfs_get_ops :: "nat \<Rightarrow> bool option" where
  "sfs_get_ops type =
     (if type = SFS_TYPE_DIR then Some True else if type = SFS_TYPE_FILE then Some False else None)"

definition sfs_create_inode :: "sfs_env \<Rightarrow> nat \<Rightarrow> sfs_disk_inode \<Rightarrow> nat \<Rightarrow> sfs_mnt vfs \<Rightarrow> (int \<times> nat option \<times> sfs_mnt vfs) option" where
  "sfs_create_inode g fs d ino v =
     (case g_node g of
        None \<Rightarrow> Some (- E_NO_MEM, None, v)
      | Some n \<Rightarrow> do {
          _ \<leftarrow> sfs_get_ops (ftype d);
          let v = inode_init n (Some fs) (upd_inode n (\<lambda>i. i\<lparr>in_device := False\<rparr>) v);
          Some (0, Some n, upd_sin n (\<lambda>_. \<lparr>din = d, sino = ino, dirty = False, reclaim_count = 1\<rparr>) v)
        })"

partial_function (option) lookup_loop :: "nat \<Rightarrow> nat \<Rightarrow> sfs_node \<Rightarrow> sfs_mnt \<Rightarrow> nat option option" where
  "lookup_loop ino h le d =
     (case list_next le (slinks d) of
        SinLink n \<Rightarrow> (if sino (sins d n) = ino then Some (Some n) else lookup_loop ino h (SinLink n) d)
      | SinHead i \<Rightarrow> (if i = h then Some None else None)
      | _ \<Rightarrow> None)"

definition lookup_sfs_nolock :: "nat \<Rightarrow> sfs_mnt vfs \<Rightarrow> (nat option \<times> sfs_mnt vfs) option" where
  "lookup_sfs_nolock ino v = do {
     r \<leftarrow> lookup_loop ino (sin_hashfn ino) (SinHead (sin_hashfn ino)) (fsdata v);
     Some (r, case r of
         None \<Rightarrow> v
       | Some n \<Rightarrow> let v = inode_ref_inc n v in
           if ref_count (inodes v n) = 1 then upd_sin n (\<lambda>i. i\<lparr>reclaim_count := reclaim_count i + 1\<rparr>) v else v)
   }"

text \<open>The inode as it lies in memory after \<^verbatim>\<open>sfs_rbuf\<close>.\<close>

definition get_u16 :: "cmem \<Rightarrow> nat \<Rightarrow> nat" where
  "get_u16 m a = unat (m a) + 2 ^ 8 * unat (m (a + 1))"

definition get_din :: "cmem \<Rightarrow> nat \<Rightarrow> sfs_disk_inode" where
  "get_din m a = \<lparr>fsize = get_u32 m a, ftype = get_u16 m (a + 4), nlinks = get_u16 m (a + 6), nblocks = get_u32 m (a + 8),
     direct = map (\<lambda>i. get_u32 m (a + 12 + 4 * i)) [0..<SFS_NDIRECT], indirect = get_u32 m (a + 60)\<rparr>"

definition sfs_load_inode :: "sfs_env \<Rightarrow> nat \<Rightarrow> nat \<Rightarrow> sfs_mnt vfs \<Rightarrow> (int \<times> nat option \<times> sfs_mnt vfs) option" where
  "sfs_load_inode g fs ino v = do {
     (r, v) \<leftarrow> lookup_sfs_nolock ino v;
     (case r of
        Some n \<Rightarrow> Some (0, Some n, v)
      | None \<Rightarrow>
          (if \<not> g_din g then Some (- E_NO_MEM, None, v)
           else do {
             t \<leftarrow> sfs_block_inuse ino (fs_view v);
             kassert t;
             (ret, v) \<leftarrow> on_sfs (\<lambda>s. sfs_rbuf (din_at s) 64 ino 0 s) v;
             (if ret \<noteq> 0 then Some (ret, None, v)
              else do {
                let d = get_din (kmem v) (din_at (sfs (fsdata v)));
                kassert (nlinks d \<noteq> 0);
                (ret, node, v) \<leftarrow> sfs_create_inode g fs d ino v;
                (case node of
                   None \<Rightarrow> Some (ret, None, v)
                 | Some n \<Rightarrow> Some (0, Some n, sfs_set_links n v))
              })
           }))
   }"

section \<open>The operations of an inode\<close>

text \<open>The tables \<^verbatim>\<open>sfs_node_dirops\<close> and \<^verbatim>\<open>sfs_node_fileops\<close>; an operation a table lacks is a null pointer, at which \<^verbatim>\<open>vop\<close> stops.
  \<open>is_dir\<close> is the choice \<^verbatim>\<open>sfs_get_ops\<close> made when the inode was created; nothing changes the type afterwards.\<close>

abbreviation is_dir :: "nat \<Rightarrow> sfs_mnt vfs \<Rightarrow> bool" where
  "is_dir n v \<equiv> ftype (din (sin_of n v)) = SFS_TYPE_DIR"

definition dir_only :: "nat \<Rightarrow> (sfs_mnt vfs \<Rightarrow> 'r option) \<Rightarrow> sfs_mnt vfs \<Rightarrow> 'r option" where
  "dir_only n f v = do { kassert (is_dir n v); sfs_node_check n v; f v }"

definition file_only :: "nat \<Rightarrow> (sfs_mnt vfs \<Rightarrow> 'r option) \<Rightarrow> sfs_mnt vfs \<Rightarrow> 'r option" where
  "file_only n f v = do { kassert (\<not> is_dir n v); sfs_node_check n v; f v }"

definition sfs_op_open :: "nat \<Rightarrow> 32 word \<Rightarrow> sfs_mnt vfs \<Rightarrow> (int \<times> sfs_mnt vfs) option" where
  "sfs_op_open n fl v = Some (if is_dir n v then sfs_opendir fl else sfs_openfile fl, v)"

definition sfs_op_fsync :: "nat \<Rightarrow> sfs_mnt vfs \<Rightarrow> (int \<times> sfs_mnt vfs) option" where
  "sfs_op_fsync n v = do { sfs_node_check n v; on_sin n sfs_fsync v }"

definition sfs_close :: "nat \<Rightarrow> sfs_mnt vfs \<Rightarrow> (int \<times> sfs_mnt vfs) option" where
  "sfs_close n v = vop n (sfs_op_fsync n) v"

definition sfs_op_io :: "bool \<Rightarrow> nat \<Rightarrow> iobuf \<Rightarrow> sfs_mnt vfs \<Rightarrow> (int \<times> iobuf \<times> sfs_mnt vfs) option" where
  "sfs_op_io write n iob = file_only n (\<lambda>v. do {
     ((ret, iob), v) \<leftarrow> on_sin n (\<lambda>sin s. do { (ret, iob, sin, s) \<leftarrow> sfs_io write iob sin s; Some ((ret, iob), sin, s) }) v;
     Some (ret, iob, v)
   })"

definition sfs_op_getdirentry :: "sfs_env \<Rightarrow> nat \<Rightarrow> iobuf \<Rightarrow> sfs_mnt vfs \<Rightarrow> (int \<times> iobuf \<times> sfs_mnt vfs) option" where
  "sfs_op_getdirentry g n iob = dir_only n (\<lambda>v. do {
     ((ret, iob), v) \<leftarrow>
       on_sin n (\<lambda>sin s. do { (ret, iob, sin, s) \<leftarrow> sfs_getdirentry (g_entry g) iob sin s; Some ((ret, iob), sin, s) }) v;
     Some (ret, iob, v)
   })"

definition sfs_op_tryseek :: "nat \<Rightarrow> int \<Rightarrow> sfs_mnt vfs \<Rightarrow> (int \<times> sfs_mnt vfs) option" where
  "sfs_op_tryseek n p = file_only n (on_sin n (\<lambda>sin s. sfs_tryseek p sin s))"

definition sfs_op_truncate :: "nat \<Rightarrow> int \<Rightarrow> sfs_mnt vfs \<Rightarrow> (int \<times> sfs_mnt vfs) option" where
  "sfs_op_truncate n len = file_only n (on_sin n (sfs_truncfile len))"

definition sfs_reclaim :: "nat \<Rightarrow> sfs_mnt vfs \<Rightarrow> (int \<times> sfs_mnt vfs) option" where
  "sfs_reclaim n v = do {
     sfs_node_check n v;
     kassert (reclaim_count (sin_of n v) > 0);
     let v = upd_sin n (\<lambda>i. i\<lparr>reclaim_count := reclaim_count i - 1\<rparr>) v;
     (if reclaim_count (sin_of n v) \<noteq> 0 \<or> ref_count (inodes v n) \<noteq> 0 then Some (- E_BUSY, v)
      else do {
        (ret, v) \<leftarrow> (if nlinks (din (sin_of n v)) = 0 then vop n (sfs_op_truncate n 0) v else Some (0, v));
        (if ret \<noteq> 0 then Some (ret, v)
         else do {
           (ret, v) \<leftarrow> (if dirty (sin_of n v) then vop n (sfs_op_fsync n) v else Some (0, v));
           (if ret \<noteq> 0 then Some (ret, v)
            else do {
              let v = sfs_remove_links n v;
              let sin = sin_of n v;
              (_, v) \<leftarrow> on_sfs (\<lambda>s.
                  (if nlinks (din sin) = 0
                   then do {
                     s \<leftarrow> sfs_block_free (sino sin) s;
                     s \<leftarrow> (if indirect (din sin) \<noteq> 0 then sfs_block_free (indirect (din sin)) s else Some s);
                     Some ((), s)
                   }
                   else Some ((), s))) v;
              v \<leftarrow> inode_kill n v;
              Some (0, v)
            })
         })
      })
   }"

text \<open>What does not look up names.\<close>

definition sfs_base_ops :: "sfs_env \<Rightarrow> sfs_mnt inode_ops" where
  "sfs_base_ops g = \<lparr>op_open = sfs_op_open, op_close = sfs_close, op_read = sfs_op_io False, op_write = sfs_op_io True,
     op_fstat = (\<lambda>n v. do { sfs_node_check n v; (ret, st) \<leftarrow> sfs_fstat (sin_of n v); Some (ret, st, v) }), op_fsync = sfs_op_fsync,
     op_namefile = (\<lambda>_ _ _. None), op_getdirentry = sfs_op_getdirentry g, op_reclaim = sfs_reclaim,
     op_gettype = (\<lambda>n v. do { sfs_node_check n v; (ret, type) \<leftarrow> sfs_gettype (sin_of n v); Some (ret, type, v) }),
     op_tryseek = sfs_op_tryseek, op_truncate = sfs_op_truncate, op_create = (\<lambda>_ _ _ _. None), op_lookup = (\<lambda>_ _ _. None)\<rparr>"

definition sfs_lookup_once :: "sfs_env \<Rightarrow> nat \<Rightarrow> nat \<Rightarrow> sfs_mnt vfs \<Rightarrow> (int \<times> nat option \<times> nat \<times> sfs_mnt vfs) option" where
  "sfs_lookup_once g n name v = do {
     fs \<leftarrow> in_fs (inodes v n);
     ((ret, ino, slot), v) \<leftarrow> on_sin n (\<lambda>sin s. do {
         (ret, ino, slot, _, sin, s) \<leftarrow> sfs_dirent_search_nolock (g_entry g) name sin s;
         Some ((ret, ino, slot), sin, s)
       }) v;
     (if ret = 0
      then do { (ret, node, v) \<leftarrow> sfs_load_inode g fs ino v; Some (ret, node, slot, v) }
      else Some (ret, None, slot, v))
   }"

text \<open>The name is in memory, at \<open>name_at\<close>, where the caller has put it.\<close>

definition sfs_lookup :: "sfs_env \<Rightarrow> nat \<Rightarrow> string \<Rightarrow> sfs_mnt vfs \<Rightarrow> (int \<times> nat option \<times> sfs_mnt vfs) option" where
  "sfs_lookup g n path v = do {
     sfs_node_check n v;
     kassert (path \<noteq> [] \<and> hd path \<noteq> CHR ''/'');
     let v = inode_ref_inc n v;
     (if \<not> is_dir n v then do { (_, v) \<leftarrow> inode_ref_dec (sfs_base_ops g) n v; Some (- E_NOTDIR, None, v) }
      else do {
        (ret, node, _, v) \<leftarrow> sfs_lookup_once g n (name_at g) (v\<lparr>kmem := store_at (kmem v) (name_at g) (map byte path @ [0])\<rparr>);
        (_, v) \<leftarrow> inode_ref_dec (sfs_base_ops g) n v;
        Some (if ret \<noteq> 0 then (ret, None, v) else (0, node, v))
      })
   }"

text \<open>The loop of \<^verbatim>\<open>sfs_namefile\<close>; \<open>ptr\<close> and \<open>resid\<close> are the place in the buffer, which is filled from its end, and what is left.\<close>

definition namefile_failed :: "sfs_env \<Rightarrow> int \<Rightarrow> nat \<Rightarrow> nat \<Rightarrow> nat \<Rightarrow> sfs_mnt vfs \<Rightarrow> (int \<times> nat \<times> nat \<times> sfs_mnt vfs) option" where
  "namefile_failed g ret n ptr resid v = do { (_, v) \<leftarrow> inode_ref_dec (sfs_base_ops g) n v; Some (ret, ptr, resid, v) }"

partial_function (option) namefile_loop :: "sfs_env \<Rightarrow> nat \<Rightarrow> nat \<Rightarrow> nat \<Rightarrow> sfs_mnt vfs \<Rightarrow> (int \<times> nat \<times> nat \<times> sfs_mnt vfs) option" where
  "namefile_loop g n ptr resid v = do {
     (ret, parent, _, v) \<leftarrow> sfs_lookup_once g n (dots_at g) v;
     (if ret \<noteq> 0 then namefile_failed g ret n ptr resid v
      else do {
        p \<leftarrow> parent;
        let ino = sino (sin_of n v);
        (_, v) \<leftarrow> inode_ref_dec (sfs_base_ops g) n v;
        (if n = p then do { (_, v) \<leftarrow> inode_ref_dec (sfs_base_ops g) n v; Some (0, ptr, resid, v) }
         else do {
           kassert (ino \<noteq> sino (sin_of p v) \<and> is_dir p v);
           (ret, v) \<leftarrow> on_sin p (sfs_dirent_findino_nolock ino) v;
           (if ret \<noteq> 0 then namefile_failed g ret p ptr resid v
            else do {
              let name = entry_at (sfs (fsdata v)) + 4;
              len \<leftarrow> strlen (kmem v) name;
              (if len + 1 > resid then namefile_failed g (- E_NO_MEM) p ptr resid v
               else let ptr = ptr - (len + 1); m = memcpy (kmem v) ptr name len in
                 namefile_loop g p ptr (resid - (len + 1)) (v\<lparr>kmem := m(ptr + len := byte CHR ''/'')\<rparr>))
            })
         })
      })
   }"

definition sfs_namefile :: "sfs_env \<Rightarrow> nat \<Rightarrow> iobuf \<Rightarrow> sfs_mnt vfs \<Rightarrow> (int \<times> iobuf \<times> sfs_mnt vfs) option" where
  "sfs_namefile g n iob = dir_only n (\<lambda>v.
     if io_resid iob \<le> 2 \<or> \<not> g_entry g then Some (- E_NO_MEM, iob, v)
     else do {
       (ret, ptr, resid, v) \<leftarrow> namefile_loop g n (io_base iob + io_resid iob) (io_resid iob - 2) (inode_ref_inc n v);
       (if ret \<noteq> 0 then Some (ret, iob, v)
        else do {
          let alen = io_resid iob - resid - 2;
          let a = io_base iob + 1;
          let m = memmove (kmem v) a ptr alen;
          iob \<leftarrow> iobuf_skip alen iob;
          Some (0, iob, v\<lparr>kmem := m(a - 1 := byte CHR ''/'', a + alen := 0)\<rparr>)
        })
     })"

definition sfs_node_ops :: "sfs_env \<Rightarrow> sfs_mnt inode_ops" where
  "sfs_node_ops g = (sfs_base_ops g)\<lparr>op_namefile := sfs_namefile g, op_lookup := (\<lambda>n path. dir_only n (sfs_lookup g n path))\<rparr>"

section \<open>Synchronising and unmounting\<close>

partial_function (option) sync_loop :: "sfs_node \<Rightarrow> sfs_mnt vfs \<Rightarrow> sfs_mnt vfs option" where
  "sync_loop le v =
     (case list_next le (slinks (fsdata v)) of
        InodeLink n \<Rightarrow> do { (_, v) \<leftarrow> vop n (sfs_op_fsync n) v; sync_loop (InodeLink n) v }
      | InodeList \<Rightarrow> Some v
      | _ \<Rightarrow> None)"

definition set_super_dirty :: "bool \<Rightarrow> sfs_mnt vfs \<Rightarrow> sfs_mnt vfs" where
  "set_super_dirty b = upd_mnt (\<lambda>d. d\<lparr>sfs := (sfs d)\<lparr>super_dirty := b\<rparr>\<rparr>)"

definition sfs_sync :: "sfs_mnt vfs \<Rightarrow> (int \<times> sfs_mnt vfs) option" where
  "sfs_sync v = do {
     v \<leftarrow> sync_loop InodeList v;
     (if super_dirty (sfs (fsdata v))
      then do {
        (ret, v) \<leftarrow> on_sfs sfs_sync_super (set_super_dirty False v);
        (if ret \<noteq> 0 then Some (ret, set_super_dirty True v)
         else do {
           (ret, v) \<leftarrow> on_sfs sfs_sync_freemap v;
           (if ret \<noteq> 0 then Some (ret, set_super_dirty True v) else Some (0, v))
         })
      }
      else Some (0, v))
   }"

definition sfs_get_root :: "sfs_env \<Rightarrow> nat \<Rightarrow> sfs_mnt vfs \<Rightarrow> (nat option \<times> sfs_mnt vfs) option" where
  "sfs_get_root g fs v = do {
     (ret, node, v) \<leftarrow> sfs_load_inode g fs 1 v;
     kassert (ret = 0);
     Some (node, v)
   }"

definition sfs_unmount :: "sfs_mnt vfs \<Rightarrow> (int \<times> sfs_mnt vfs) option" where
  "sfs_unmount v =
     (if \<not> list_empty InodeList (slinks (fsdata v)) then Some (- E_BUSY, v)
      else do { kassert (\<not> super_dirty (sfs (fsdata v))); Some (0, v) })"

text \<open>\<open>k\<close> attempts are left.\<close>

fun cleanup_tries :: "nat \<Rightarrow> sfs_mnt vfs \<Rightarrow> sfs_mnt vfs option" where
  "cleanup_tries 0 v = Some v"
| "cleanup_tries (Suc k) v = do { (ret, v) \<leftarrow> sfs_sync v; (if ret = 0 then Some v else cleanup_tries k v) }"

definition sfs_cleanup :: "sfs_mnt vfs \<Rightarrow> sfs_mnt vfs option" where
  "sfs_cleanup v = cleanup_tries 32 v"

section \<open>Mounting\<close>

text \<open>What the allocations of a mount return: the address of the \<^verbatim>\<open>struct fs\<close>, the buffer, the hash table, the data of the bitmap.\<close>

record mount_env =
  m_fs :: "nat option"
  m_buffer :: "nat option"
  m_hash :: bool
  m_map1 :: bool
  m_map2 :: "nat option"

abbreviation (input) SFS_BLKBITS :: nat where "SFS_BLKBITS \<equiv> 32768"
abbreviation (input) SFS_MAX_INFO_LEN :: nat where "SFS_MAX_INFO_LEN \<equiv> 31"

definition sfs_freemap_bits :: "nat \<Rightarrow> nat" where
  "sfs_freemap_bits n = u32 (ROUNDUP n SFS_BLKBITS)"

definition sfs_freemap_blocks :: "nat \<Rightarrow> nat" where
  "sfs_freemap_blocks n = ROUNDUP_DIV n SFS_BLKBITS"

definition sfs_init_read :: "nat \<Rightarrow> nat \<Rightarrow> 'a disk0_scheme \<Rightarrow> (int \<times> 'a disk0_scheme) option" where
  "sfs_init_read blkno buf s = do {
     (ret, _, s) \<leftarrow> disk0_io (iobuf_init buf SFS_BLKSIZE (int (u32 (blkno * SFS_BLKSIZE)))) False s;
     Some (ret, s)
   }"

text \<open>The loop of \<^verbatim>\<open>sfs_init_freemap\<close>: \<open>n\<close> blocks from \<open>blkno\<close> to the address \<open>data\<close>.\<close>

fun init_freemap_loop :: "nat \<Rightarrow> nat \<Rightarrow> nat \<Rightarrow> 'a disk0_scheme \<Rightarrow> (int \<times> 'a disk0_scheme) option" where
  "init_freemap_loop 0 blkno data s = Some (0, s)"
| "init_freemap_loop (Suc n) blkno data s = do {
     (ret, s) \<leftarrow> sfs_init_read blkno data s;
     (if ret \<noteq> 0 then Some (ret, s) else init_freemap_loop n (u32 (blkno + 1)) (data + SFS_BLKSIZE) s)
   }"

text \<open>The words of the bitmap are those at its data; they are in memory only while they are read.\<close>

definition words_at :: "cmem \<Rightarrow> nat \<Rightarrow> nat \<Rightarrow> 32 word list" where
  "words_at m a n = map (\<lambda>i. word_of_nat (get_u32 m (a + 4 * i))) [0..<n]"

definition sfs_init_freemap :: "bitmap \<Rightarrow> nat \<Rightarrow> nat \<Rightarrow> nat \<Rightarrow> 'a disk0_scheme \<Rightarrow> (int \<times> bitmap \<times> 'a disk0_scheme) option" where
  "sfs_init_freemap b data blkno n s = do {
     kassert (snd (bitmap_getdata b) = u32 (n * SFS_BLKSIZE));
     (ret, s) \<leftarrow> init_freemap_loop n blkno data s;
     Some (ret, b\<lparr>words := words_at (dmem s) data (nwords b)\<rparr>, s)
   }"

fun count_free :: "nat list \<Rightarrow> bitmap \<Rightarrow> nat \<Rightarrow> nat option" where
  "count_free [] b c = Some c"
| "count_free (i # is) b c = do { t \<leftarrow> bitmap_test b i; count_free is b (if t then u32 (c + 1) else c) }"

text \<open>The part of \<^verbatim>\<open>sfs_do_mount\<close> behind the check of the superblock, which is in the buffer at \<open>buf\<close>: the freemap, and the file system.\<close>

definition mount_freemap :: "mount_env \<Rightarrow> nat \<Rightarrow> sfs_fs \<Rightarrow> (int \<times> sfs_fs) option" where
  "mount_freemap e buf s = do {
     let n = get_u32 (dmem s) (buf + 4);
     let s1 = s\<lparr>blocks := n, unused_blocks := get_u32 (dmem s) (buf + 8),
       info := map (\<lambda>i. dmem s (buf + 12 + i)) [0..<SFS_MAX_INFO_LEN] @ [0], sfs_buffer := buf,
       dmem := (dmem s)(buf + 12 + SFS_MAX_INFO_LEN := 0)\<rparr>;
     let s = s\<lparr>dmem := dmem s1\<rparr>;
     (if \<not> m_hash e then Some (- E_NO_MEM, s)
      else do {
        got \<leftarrow> bitmap_create (sfs_freemap_bits n) (m_map1 e) (m_map2 e \<noteq> None);
        (case (got, m_map2 e) of
           (Some b, Some data) \<Rightarrow> do {
             (ret, b, s2) \<leftarrow> sfs_init_freemap b data SFS_BLKN_FREEMAP (sfs_freemap_blocks n) s1;
             (if ret \<noteq> 0 then Some (ret, s\<lparr>dmem := dmem s2\<rparr>)
              else do {
                c \<leftarrow> count_free [0..<sfs_freemap_bits n] b 0;
                kassert (c = unused_blocks s2);
                Some (0, s2\<lparr>freemap := b, freemap_at := data, super_dirty := False\<rparr>)
              })
           }
         | _ \<Rightarrow> Some (- E_NO_MEM, s))
      })
   }"

definition mount_super :: "mount_env \<Rightarrow> nat \<Rightarrow> sfs_fs \<Rightarrow> (int \<times> sfs_fs) option" where
  "mount_super e buf s = do {
     (ret, s) \<leftarrow> sfs_init_read SFS_BLKN_SUPER buf s;
     (if ret \<noteq> 0 then Some (ret, s)
      else if get_u32 (dmem s) buf \<noteq> SFS_MAGIC then Some (- E_INVAL, s)
      else if get_u32 (dmem s) (buf + 4) > d_blocks s then Some (- E_INVAL, s)
      else mount_freemap e buf s)
   }"

text \<open>\<open>blocksize\<close> is the block size of the device.  The list of inodes and the buckets of the hash table start empty.\<close>

definition sfs_do_mount :: "mount_env \<Rightarrow> nat \<Rightarrow> sfs_mnt vfs \<Rightarrow> (int \<times> nat option \<times> sfs_mnt vfs) option" where
  "sfs_do_mount e blocksize v =
     (if blocksize \<noteq> SFS_BLKSIZE then Some (- E_NA_DEV, None, v)
      else case (m_fs e, m_buffer e) of
        (Some fs, Some buf) \<Rightarrow> do {
          (ret, v) \<leftarrow> on_sfs (mount_super e buf) v;
          (if ret \<noteq> 0 then Some (ret, None, v)
           else Some (0, Some fs, upd_mnt (\<lambda>d. d\<lparr>slinks := \<lparr>nxt = (\<lambda>n. n), prv = (\<lambda>n. n)\<rparr>\<rparr>) v))
        }
      | _ \<Rightarrow> Some (- E_NO_MEM, None, v))"

definition sfs_fs_ops :: "sfs_env \<Rightarrow> sfs_mnt fs_ops" where
  "sfs_fs_ops g = \<lparr>fs_sync = (\<lambda>_. sfs_sync), fs_get_root = sfs_get_root g, fs_unmount = (\<lambda>_. sfs_unmount), fs_cleanup = (\<lambda>_. sfs_cleanup)\<rparr>"

section \<open>The cache holds each inode once\<close>

interpretation sin_chain: hash_chain SinHead SinLink
  by unfold_locales simp_all

definition sin_chains :: "sfs_mnt \<Rightarrow> (nat \<Rightarrow> nat list) \<Rightarrow> bool" where
  "sin_chains d t \<longleftrightarrow> chains SinHead SinLink (slinks d) t (\<lambda>n. sin_hashfn (sino (sins d n)))"

definition cache_inv :: "sfs_mnt \<Rightarrow> nat list \<Rightarrow> bool" where
  "cache_inv d ns \<longleftrightarrow> dlist (slinks d) InodeList (map InodeLink ns) \<and>
     (\<exists>t. sin_chains d t \<and> tabled t = set ns) \<and> inj_on (\<lambda>n. sino (sins d n)) (set ns)"

lemma upd_sel [simp]:
  "inodes (upd_mnt f v) = inodes v" "kmem (upd_mnt f v) = kmem v" "fsdata (upd_mnt f v) = f (fsdata v)"
  "inodes (upd_sin n g v) = inodes v" "kmem (upd_sin n g v) = kmem v" "sins (fsdata (upd_sin n g v)) = (sins (fsdata v))(n := g (sin_of n v))"
  "slinks (fsdata (upd_sin n g v)) = slinks (fsdata v)" "sfs (fsdata (upd_sin n g v)) = sfs (fsdata v)"
  by (simp_all add: upd_mnt_def upd_sin_def)

lemma lookup_loop_ok:
  assumes "dlist (slinks d) (SinHead h) (map SinLink (us @ ws))"
  shows "lookup_loop ino h (if us = [] then SinHead h else SinLink (last us)) d = Some (find (\<lambda>n. sino (sins d n) = ino) ws)"
  using assms
proof (induction ws arbitrary: us)
  case Nil
  then show ?case using sin_chain.chain_next [OF Nil.prems] by (subst lookup_loop.simps) simp
next
  case (Cons v ws)
  then show ?case using Cons.IH [of "us @ [v]"] sin_chain.chain_next [OF Cons.prems] by (subst lookup_loop.simps) simp
qed

lemma lookup_loop_cached:
  assumes "cache_inv d ns"
  shows "n \<in> set ns \<Longrightarrow> lookup_loop (sino (sins d n)) (sin_hashfn (sino (sins d n))) (SinHead (sin_hashfn (sino (sins d n)))) d = Some (Some n)"
    "\<forall>n\<in>set ns. sino (sins d n) \<noteq> ino \<Longrightarrow> lookup_loop ino (sin_hashfn ino) (SinHead (sin_hashfn ino)) d = Some None"
proof -
  from assms obtain t where t: "sin_chains d t" "tabled t = set ns" "inj_on (\<lambda>n. sino (sins d n)) (tabled t)"
    by (auto simp: cache_inv_def)
  have run: "lookup_loop x (sin_hashfn x) (SinHead (sin_hashfn x)) d = Some (find (\<lambda>n. sino (sins d n) = x) (t (sin_hashfn x)))" for x
    using lookup_loop_ok [of d "sin_hashfn x" "[]" "t (sin_hashfn x)" x] t(1) by (simp add: sin_chains_def chains_def)
  note found = chains_find [OF t(1) [unfolded sin_chains_def] t(3)]
  show "lookup_loop (sino (sins d n)) (sin_hashfn (sino (sins d n))) (SinHead (sin_hashfn (sino (sins d n)))) d = Some (Some n)" if "n \<in> set ns"
    using found(1) [of "sino (sins d n)" n] that t(2) run [of "sino (sins d n)"] by simp
  show "lookup_loop ino (sin_hashfn ino) (SinHead (sin_hashfn ino)) d = Some None" if "\<forall>n\<in>set ns. sino (sins d n) \<noteq> ino"
    using found(2) [of ino] that t(2) run [of ino] by simp
qed

lemma cache_inv_cong:
  assumes "cache_inv d ns" and "slinks d' = slinks d" and "\<And>n. n \<in> set ns \<Longrightarrow> sino (sins d' n) = sino (sins d n)"
  shows "cache_inv d' ns"
proof -
  from assms(1) obtain t where t: "sin_chains d t" "tabled t = set ns" by (auto simp: cache_inv_def)
  have "sin_chains d' t" unfolding sin_chains_def
    by (rule sin_chain.chains_cong [OF t(1) [unfolded sin_chains_def]]) (use assms(2,3) t(2) in auto)
  moreover have "inj_on (\<lambda>n. sino (sins d' n)) (set ns) = inj_on (\<lambda>n. sino (sins d n)) (set ns)"
    by (rule inj_on_cong) (simp add: assms(3))
  ultimately show ?thesis using assms(1,2) t(2) by (auto simp: cache_inv_def)
qed

lemma set_links_inv:
  assumes inv: "cache_inv (fsdata v) ns" and n: "n \<notin> set ns" "\<forall>m\<in>set ns. sino (sin_of m v) \<noteq> sino (sin_of n v)"
  shows "cache_inv (fsdata (sfs_set_links n v)) (n # ns)"
proof -
  let ?d = "fsdata v" and ?key = "\<lambda>n. sin_hashfn (sino (sin_of n v))"
  let ?l1 = "list_add InodeList (InodeLink n) (slinks ?d)"
  let ?l2 = "list_add (SinHead (?key n)) (SinLink n) ?l1"
  from inv obtain t where t: "chains SinHead SinLink (slinks ?d) t ?key" "tabled t = set ns"
    and r: "dlist (slinks ?d) InodeList (map InodeLink ns)" "inj_on (\<lambda>n. sino (sin_of n v)) (set ns)"
    by (auto simp: cache_inv_def sin_chains_def)
  have r1: "dlist ?l1 InodeList (map InodeLink (n # ns))"
    using dlist_add_after_head [OF r(1), of "InodeLink n"] n(1) by (auto simp: list_add_def)
  have c1: "chains SinHead SinLink ?l1 t ?key"
    by (rule sin_chain.chains_cong [OF t(1)]) (use frame_add_after_head [OF r(1), of _ "InodeLink n"] in \<open>auto simp: list_add_def\<close>)
  have p: "n \<notin> tabled t" using n(1) t(2) by simp
  have c2: "chains SinHead SinLink ?l2 (t(?key n := n # t (?key n))) ?key" by (rule sin_chain.chain_add [OF c1 p])
  have b: "dlist ?l1 (SinHead (?key n)) (map SinLink (t (?key n)))" using c1 by (simp add: chains_def)
  have "dlist ?l2 InodeList (map InodeLink (n # ns)) = dlist ?l1 InodeList (map InodeLink (n # ns))"
    by (rule dlist_cong) (use frame_add_after_head [OF b, of _ "SinLink n"] in \<open>auto simp: list_add_def\<close>)
  then have "dlist ?l2 InodeList (map InodeLink (n # ns))" using r1 by simp
  moreover have "inj_on (\<lambda>n. sino (sin_of n v)) (set (n # ns))" using r(2) n by auto
  moreover have "tabled (t(?key n := n # t (?key n))) = set (n # ns)" by (simp add: tabled_insert t(2))
  ultimately show ?thesis using c2 by (auto simp: cache_inv_def sin_chains_def sfs_set_links_def)
qed

lemma remove_links_inv:
  assumes inv: "cache_inv (fsdata v) ns" and n: "n \<in> set ns"
  shows "cache_inv (fsdata (sfs_remove_links n v)) (remove1 n ns)"
proof -
  let ?d = "fsdata v" and ?key = "\<lambda>n. sin_hashfn (sino (sin_of n v))"
  let ?l1 = "list_del (InodeLink n) (slinks ?d)"
  let ?l2 = "list_del (SinLink n) ?l1"
  from inv obtain t where t: "chains SinHead SinLink (slinks ?d) t ?key" "tabled t = set ns"
    and r: "dlist (slinks ?d) InodeList (map InodeLink ns)" "inj_on (\<lambda>n. sino (sin_of n v)) (set ns)"
    by (auto simp: cache_inv_def sin_chains_def)
  have dis: "distinct ns" using dlist_distinct [OF r(1)] by (simp add: distinct_map)
  from n obtain us ws where ns: "ns = us @ n # ws" "n \<notin> set us" by (meson split_list_first)
  have rem: "remove1 n ns = us @ ws" using ns by (simp add: remove1_append)
  have mem: "InodeLink n \<in> set (map InodeLink ns)" using n by simp
  have r1: "dlist ?l1 InodeList (map InodeLink (remove1 n ns))"
    unfolding rem using dlist_del [of "slinks ?d" InodeList "map InodeLink us" "InodeLink n" "map InodeLink ws"] r(1) ns(1) by simp
  have c1: "chains SinHead SinLink ?l1 t ?key"
  proof (rule sin_chain.chains_cong [OF t(1)])
    fix m assume "(\<exists>h. m = SinHead h) \<or> (\<exists>p. m = SinLink p)"
    then have "m \<notin> set (InodeList # map InodeLink ns)" by auto
    then show "nxt ?l1 m = nxt (slinks ?d) m \<and> prv ?l1 m = prv (slinks ?d) m" by (rule frame_del [OF r(1) mem])
  qed simp
  have p: "n \<in> tabled t" using n t(2) by simp
  have c2: "chains SinHead SinLink ?l2 (t(?key n := remove1 n (t (?key n)))) ?key" by (rule sin_chain.chain_del [OF c1 p])
  have b: "dlist ?l1 (SinHead (?key n)) (map SinLink (t (?key n)))" "n \<in> set (t (?key n))"
    using c1 [unfolded chains_def] chains_bucket [OF c1 p] by blast+
  have "dlist ?l2 InodeList (map InodeLink (remove1 n ns)) = dlist ?l1 InodeList (map InodeLink (remove1 n ns))"
  proof (rule dlist_cong)
    fix m assume "m \<in> set (InodeList # map InodeLink (remove1 n ns))"
    then have "m \<notin> set (SinHead (?key n) # map SinLink (t (?key n)))" by auto
    moreover have "SinLink n \<in> set (map SinLink (t (?key n)))" using b(2) by simp
    ultimately show "nxt ?l2 m = nxt ?l1 m \<and> prv ?l2 m = prv ?l1 m" by (rule frame_del [OF b(1), rotated])
  qed
  then have "dlist ?l2 InodeList (map InodeLink (remove1 n ns))" using r1 by simp
  moreover have "inj_on (\<lambda>n. sino (sin_of n v)) (set (remove1 n ns))"
    by (rule inj_on_subset [OF r(2)]) (rule set_remove1_subset)
  moreover have "tabled (t(?key n := remove1 n (t (?key n)))) = set (remove1 n ns)"
    using sin_chain.chain_tabled_del [OF c1 p] t(2) dis by simp
  ultimately show ?thesis using c2 by (auto simp: cache_inv_def sin_chains_def sfs_remove_links_def)
qed

section \<open>Loading an inode\<close>

lemma get_u32_cong:
  assumes "\<And>k. k < 4 \<Longrightarrow> m (a + k) = m' (b + k)"
  shows "get_u32 m a = get_u32 m' b"
  using assms [of 0] assms [of 1] assms [of 2] assms [of 3] by (simp add: get_u32_def)

lemma get_din_cong:
  assumes same: "\<And>k. k < 64 \<Longrightarrow> m (a + k) = m' (b + k)"
  shows "get_din m a = get_din m' b"
proof -
  have w: "get_u32 m (a + j) = get_u32 m' (b + j)" if "j + 4 \<le> 64" for j
  proof (rule get_u32_cong)
    fix k :: nat assume "k < 4"
    then show "m (a + j + k) = m' (b + j + k)" using same [of "j + k"] that by (simp add: add.assoc)
  qed
  have h: "get_u16 m (a + j) = get_u16 m' (b + j)" if "j + 2 \<le> 64" for j
    using same [of j] same [of "j + 1"] that by (simp add: get_u16_def add.assoc)
  have "get_u32 m (a + 12 + 4 * i) = get_u32 m' (b + 12 + 4 * i)" if "i < 12" for i
    using w [of "12 + 4 * i"] that by (simp add: add.assoc)
  then show ?thesis using w [of 0] w [of 8] w [of 60] h [of 4] h [of 6] by (simp add: get_din_def)
qed

text \<open>The inode on the disk, in the block of its number.\<close>

definition disk_din :: "nat \<Rightarrow> 'a disk0_scheme \<Rightarrow> sfs_disk_inode" where
  "disk_din ino s = get_din (dimage s) (ino * SFS_BLKSIZE)"

definition din_fine :: "sfs_fs \<Rightarrow> bool" where
  "din_fine s \<longleftrightarrow> fs_ok s \<and> region (din_at s) 64 \<inter> own s = {}"

lemma put_view_sel [simp]:
  "fs_view (put_view s v) = s" "inodes (put_view s v) = inodes v" "kmem (put_view s v) = dmem s"
  "sins (fsdata (put_view s v)) = sins (fsdata v)" "slinks (fsdata (put_view s v)) = slinks (fsdata v)" "sfs (fsdata (put_view s v)) = s"
  by (simp_all add: put_view_def fs_view_def)

lemma load_reads:
  assumes fine: "din_fine (fs_view v)" and use: "in_use (fs_view v) ino"
  obtains m where "on_sfs (\<lambda>s. sfs_rbuf (din_at s) 64 ino 0 s) v = Some (0, put_view ((fs_view v)\<lparr>dmem := m\<rparr>) v)"
    "get_din m (din_at (fs_view v)) = disk_din ino (fs_view v)"
    "\<And>a. a \<notin> region (din_at (fs_view v)) 64 \<Longrightarrow> a \<notin> own (fs_view v) \<Longrightarrow> m a = kmem v a"
proof -
  have b: "ino \<noteq> 0" "ino < blocks (fs_view v)" using in_use_range [OF use] by auto
  have f: "fs_ok (fs_view v)" "region (din_at (fs_view v)) 64 \<inter> region (sfs_buffer (fs_view v)) SFS_BLKSIZE = {}"
    using fine by (auto simp: din_fine_def own_def)
  show thesis
  proof (rule rbuf_ok [OF f(1) b, of 0 64 "din_at (fs_view v)"])
    fix m assume m: "sfs_rbuf (din_at (fs_view v)) 64 ino 0 (fs_view v) = Some (0, (fs_view v)\<lparr>dmem := m\<rparr>)"
      "\<And>k. k < 64 \<Longrightarrow> m (din_at (fs_view v) + k) = dimage (fs_view v) (ino * SFS_BLKSIZE + 0 + k)"
      "\<And>a. a \<notin> region (din_at (fs_view v)) 64 \<Longrightarrow> a \<notin> own (fs_view v) \<Longrightarrow> m a = dmem (fs_view v) a"
    have "get_din m (din_at (fs_view v)) = disk_din ino (fs_view v)" unfolding disk_din_def
      by (rule get_din_cong) (use m(2) in simp)
    then show thesis using that [of m] m(1,3) by (simp add: on_sfs_def) (simp add: fs_view_def)
  qed (use f in simp_all)
qed

lemma upd_inode_sel [simp]:
  "fsdata (upd_inode n f v) = fsdata v" "kmem (upd_inode n f v) = kmem v" "inodes (upd_inode n f v) = (inodes v)(n := f (inodes v n))"
  by (simp_all add: upd_inode_def)

lemma inode_ref_inc_sel [simp]:
  "fsdata (inode_ref_inc n v) = fsdata v" "kmem (inode_ref_inc n v) = kmem v" "fs_view (inode_ref_inc n v) = fs_view v"
  "inodes (inode_ref_inc n v) = (inodes v)(n := (inodes v n)\<lparr>ref_count := ref_count (inodes v n) + 1\<rparr>)"
  by (simp_all add: inode_ref_inc_def upd_inode_def fs_view_def)

lemma fs_view_sel [simp]:
  "fs_view (upd_sin n f v) = fs_view v" "fs_view (sfs_set_links n v) = fs_view v" "fs_view (sfs_remove_links n v) = fs_view v"
  "fs_view (upd_inode n h v) = fs_view v" "kmem (sfs_set_links n v) = kmem v" "inodes (sfs_set_links n v) = inodes v"
  "sins (fsdata (sfs_set_links n v)) = sins (fsdata v)"
  by (simp_all add: fs_view_def upd_sin_def sfs_set_links_def sfs_remove_links_def upd_inode_def upd_mnt_def)

lemma fs_view_kmem [simp]: "dmem (fs_view v) = kmem v"
  by (simp add: fs_view_def)

lemma cache_distinct: "cache_inv d ns \<Longrightarrow> distinct ns"
  by (auto simp: cache_inv_def distinct_map dest!: dlist_distinct)

lemma load_hit:
  assumes inv: "cache_inv (fsdata v) ns" and m: "m \<in> set ns" "sino (sin_of m v) = ino"
  shows "\<exists>v'. sfs_load_inode g fs ino v = Some (0, Some m, v') \<and> cache_inv (fsdata v') ns \<and> fs_view v' = fs_view v \<and>
     inodes v' = (inodes v)(m := (inodes v m)\<lparr>ref_count := ref_count (inodes v m) + 1\<rparr>) \<and>
     sins (fsdata v') = (sins (fsdata v))(m := (sin_of m v)\<lparr>reclaim_count :=
       reclaim_count (sin_of m v) + (if ref_count (inodes v m) = 0 then 1 else 0)\<rparr>)"
proof -
  define v' where "v' = (if ref_count (inodes v m) = 0
    then upd_sin m (\<lambda>i. i\<lparr>reclaim_count := reclaim_count i + 1\<rparr>) (inode_ref_inc m v) else inode_ref_inc m v)"
  have "lookup_loop ino (sin_hashfn ino) (SinHead (sin_hashfn ino)) (fsdata v) = Some (Some m)"
    using lookup_loop_cached(1) [OF inv m(1)] m(2) by simp
  then have "sfs_load_inode g fs ino v = Some (0, Some m, v')"
    by (simp add: sfs_load_inode_def lookup_sfs_nolock_def Let_def v'_def)
  moreover have "cache_inv (fsdata v') ns"
    by (rule cache_inv_cong [OF inv]) (simp_all add: v'_def)
  moreover have "(sins (fsdata v))(m := sin_of m v) = sins (fsdata v)" by simp
  ultimately show ?thesis by (intro exI [of _ v']) (simp add: v'_def)
qed

lemma load_miss:
  assumes inv: "cache_inv (fsdata v) ns" and miss: "\<forall>k\<in>set ns. sino (sin_of k v) \<noteq> ino"
    and fine: "din_fine (fs_view v)" and use: "in_use (fs_view v) ino" and got: "g_din g" "g_node g = Some n" "n \<notin> set ns"
    and disk: "nlinks (disk_din ino (fs_view v)) \<noteq> 0" "ftype (disk_din ino (fs_view v)) \<in> {SFS_TYPE_DIR, SFS_TYPE_FILE}"
  shows "\<exists>v' m. sfs_load_inode g fs ino v = Some (0, Some n, v') \<and> cache_inv (fsdata v') (n # ns) \<and> fs_view v' = (fs_view v)\<lparr>dmem := m\<rparr> \<and>
     inodes v' = (inodes v)(n := \<lparr>ref_count = 1, open_count = 0, in_fs = Some fs, in_device = False\<rparr>) \<and>
     sins (fsdata v') = (sins (fsdata v))(n := \<lparr>din = disk_din ino (fs_view v), sino = ino, dirty = False, reclaim_count = 1\<rparr>) \<and>
     (\<forall>a. a \<notin> region (din_at (fs_view v)) 64 \<longrightarrow> a \<notin> own (fs_view v) \<longrightarrow> m a = kmem v a)"
proof -
  obtain m where m: "on_sfs (\<lambda>s. sfs_rbuf (din_at s) 64 ino 0 s) v = Some (0, put_view ((fs_view v)\<lparr>dmem := m\<rparr>) v)"
    "get_din m (din_at (fs_view v)) = disk_din ino (fs_view v)"
    "\<And>a. a \<notin> region (din_at (fs_view v)) 64 \<Longrightarrow> a \<notin> own (fs_view v) \<Longrightarrow> m a = kmem v a"
    using load_reads [OF fine use] by blast
  let ?d = "disk_din ino (fs_view v)"
  define v1 where "v1 = put_view ((fs_view v)\<lparr>dmem := m\<rparr>) v"
  define v2 where "v2 = upd_sin n (\<lambda>_. \<lparr>din = ?d, sino = ino, dirty = False, reclaim_count = 1\<rparr>)
    (inode_init n (Some fs) (upd_inode n (\<lambda>i. i\<lparr>in_device := False\<rparr>) v1))"
  have v1: "fs_view v1 = (fs_view v)\<lparr>dmem := m\<rparr>" "inodes v1 = inodes v" "sins (fsdata v1) = sins (fsdata v)"
    "slinks (fsdata v1) = slinks (fsdata v)" "kmem v1 = m" "din_at (sfs (fsdata v1)) = din_at (fs_view v)"
    by (simp_all add: v1_def)
  have v2: "fs_view v2 = (fs_view v)\<lparr>dmem := m\<rparr>" "slinks (fsdata v2) = slinks (fsdata v)"
    "sins (fsdata v2) = (sins (fsdata v))(n := \<lparr>din = ?d, sino = ino, dirty = False, reclaim_count = 1\<rparr>)"
    "inodes v2 = (inodes v)(n := \<lparr>ref_count = 1, open_count = 0, in_fs = Some fs, in_device = False\<rparr>)"
    using v1 by (simp_all add: v2_def inode_init_def) (cases "inodes v n", simp)
  have "sfs_block_inuse ino (fs_view v) = Some True" using use by (simp add: in_use_def)
  moreover have "sfs_create_inode g fs ?d ino v1 = Some (0, Some n, v2)"
    using got(2) disk(2) by (auto simp: sfs_create_inode_def sfs_get_ops_def v2_def)
  ultimately have "sfs_load_inode g fs ino v = Some (0, Some n, sfs_set_links n v2)"
    using lookup_loop_cached(2) [OF inv miss] got(1) m(1,2) disk(1) v1(5,6)
    by (simp add: sfs_load_inode_def lookup_sfs_nolock_def v1_def [symmetric])
  moreover have "cache_inv (fsdata v2) ns"
    by (rule cache_inv_cong [OF inv v2(2)]) (use got(3) in \<open>auto simp: v2(3)\<close>)
  then have "cache_inv (fsdata (sfs_set_links n v2)) (n # ns)"
    by (rule set_links_inv) (use got(3) miss in \<open>auto simp: v2(3)\<close>)
  ultimately show ?thesis using m(3) v2 by (intro exI [of _ "sfs_set_links n v2"] exI [of _ m]) simp
qed

section \<open>Writing an inode back\<close>

lemma get_put_u32:
  assumes "v < 2 ^ 32"
  shows "get_u32 (put_u32 m a v) a = v"
proof -
  have "v div 16777216 mod 256 = v div 16777216" using assms by (simp add: less_mult_imp_div_less)
  moreover have "v div 256 div 256 = v div 65536" "v div 65536 div 256 = v div 16777216" by (simp_all add: div_mult2_eq [symmetric])
  moreover have "get_u32 (put_u32 m a v) a =
      v mod 256 + 256 * (v div 256 mod 256) + 65536 * (v div 65536 mod 256) + 16777216 * (v div 16777216 mod 256)"
    by (simp add: get_u32_def put_u32_def unat_of_nat)
  ultimately show ?thesis
    using mod_mult_div_eq [of v 256] mod_mult_div_eq [of "v div 256" 256] mod_mult_div_eq [of "v div 65536" 256] by linarith
qed

lemma get_put_u16:
  assumes "v < 2 ^ 16"
  shows "get_u16 (put_u16 m a v) a = v"
proof -
  have "v div 256 mod 256 = v div 256" using assms by (simp add: less_mult_imp_div_less)
  moreover have "get_u16 (put_u16 m a v) a = v mod 256 + 256 * (v div 256 mod 256)"
    by (simp add: get_u16_def put_u16_def unat_of_nat)
  ultimately show ?thesis using mod_mult_div_eq [of v 256] by linarith
qed

lemma put_outside:
  "x < a \<or> a + 4 \<le> x \<Longrightarrow> put_u32 m a v x = m x" "x < a \<or> a + 2 \<le> x \<Longrightarrow> put_u16 m a v x = m x"
  by (auto simp: put_u32_def put_u16_def)

lemma put_words_before: "x < a \<Longrightarrow> put_words m a ws x = m x"
  by (induction ws arbitrary: m a) (simp_all add: put_outside)

lemma put_words_after: "a + 4 * length ws \<le> x \<Longrightarrow> put_words m a ws x = m x"
  by (induction ws arbitrary: m a) (simp_all add: put_outside)

lemma get_put_words:
  assumes "i < length ws" and "\<forall>w\<in>set ws. w < 2 ^ 32"
  shows "get_u32 (put_words m a ws) (a + 4 * i) = ws ! i"
  using assms
proof (induction ws arbitrary: m a i)
  case (Cons w ws)
  show ?case
  proof (cases i)
    case 0
    have "get_u32 (put_words (put_u32 m a w) (a + 4) ws) a = get_u32 (put_u32 m a w) a"
      by (rule get_u32_cong) (simp add: put_words_before)
    then show ?thesis using 0 Cons.prems by (simp add: get_put_u32)
  next
    case (Suc j)
    then show ?thesis using Cons.IH [of j "put_u32 m a w" "a + 4"] Cons.prems by (simp add: algebra_simps)
  qed
qed simp

definition din_fits :: "sfs_disk_inode \<Rightarrow> bool" where
  "din_fits d \<longleftrightarrow> fsize d < 2 ^ 32 \<and> ftype d < 2 ^ 16 \<and> nlinks d < 2 ^ 16 \<and> nblocks d < 2 ^ 32 \<and>
     length (direct d) = SFS_NDIRECT \<and> (\<forall>b\<in>set (direct d). b < 2 ^ 32) \<and> indirect d < 2 ^ 32"

lemma get_put_din:
  assumes "din_fits d"
  shows "get_din (put_din m a d) a = d"
proof -
  let ?x = "put_u32 m a (fsize d)"
  let ?y = "put_u16 ?x (a + 4) (ftype d)"
  let ?z = "put_u16 ?y (a + 6) (nlinks d)"
  let ?ws = "nblocks d # direct d @ [indirect d]"
  let ?m = "put_words ?z (a + 8) ?ws"
  have ws: "length ?ws = 14" "\<forall>w\<in>set ?ws. w < 2 ^ 32" using assms by (auto simp: din_fits_def)
  have w: "get_u32 ?m (a + 8 + 4 * i) = ?ws ! i" if "i < 14" for i
    by (rule get_put_words) (use ws that in auto)
  have "get_u32 ?m a = get_u32 ?x a" by (rule get_u32_cong) (simp add: put_words_before put_outside)
  also have "\<dots> = fsize d" using assms by (simp add: get_put_u32 din_fits_def)
  finally have "get_u32 ?m a = fsize d" .
  moreover have "get_u16 ?m (a + 4) = get_u16 ?y (a + 4)" "get_u16 ?m (a + 6) = get_u16 ?z (a + 6)"
    by (simp_all add: get_u16_def put_words_before put_outside)
  moreover have "map (\<lambda>i. get_u32 ?m (a + 12 + 4 * i)) [0..<12] = direct d"
  proof (rule nth_equalityI)
    fix i assume "i < length (map (\<lambda>i. get_u32 ?m (a + 12 + 4 * i)) [0..<12])"
    then show "map (\<lambda>i. get_u32 ?m (a + 12 + 4 * i)) [0..<12] ! i = direct d ! i"
      using w [of "Suc i"] assms by (simp add: din_fits_def nth_append algebra_simps)
  qed (use assms in \<open>simp add: din_fits_def\<close>)
  moreover have "get_u32 ?m (a + 60) = indirect d" using w [of 13] assms by (simp add: din_fits_def nth_append algebra_simps)
  ultimately show ?thesis using w [of 0] assms unfolding get_din_def put_din_def
    by (intro sfs_disk_inode.equality) (simp_all add: din_fits_def get_put_u32 get_put_u16 del: put_words.simps)
qed

lemma put_din_outside: "length (direct d) = SFS_NDIRECT \<Longrightarrow> x \<notin> region a 64 \<Longrightarrow> put_din m a d x = m x"
  unfolding put_din_def by (auto simp: put_words_before put_words_after put_outside simp del: put_words.simps)

lemma fsync_writes:
  assumes fine: "din_fine s" and use: "in_use s (sino sin)" and d: "dirty sin" "din_fits (din sin)"
  shows "\<exists>m i. sfs_fsync sin s = Some (0, sin\<lparr>dirty := False\<rparr>, s\<lparr>dmem := m, dimage := i\<rparr>) \<and>
     get_din i (sino sin * SFS_BLKSIZE) = din sin \<and> (\<forall>a. a \<notin> region (sino sin * SFS_BLKSIZE) 64 \<longrightarrow> i a = dimage s a) \<and>
     (\<forall>a. a \<notin> region (din_at s) 64 \<longrightarrow> a \<notin> own s \<longrightarrow> m a = dmem s a)"
proof -
  let ?p = "put_din (dmem s) (din_at s) (din sin)" and ?b = "sino sin"
  let ?s = "s\<lparr>dmem := ?p\<rparr>"
  let ?i = "copy_bytes (dimage s) (?b * SFS_BLKSIZE) ?p (din_at s) 64"
  have b: "?b \<noteq> 0" "?b < blocks ?s" using in_use_range [OF use] by auto
  have f: "fs_ok ?s" "region (din_at s) 64 \<inter> own ?s = {}" using fine by (simp_all add: din_fine_def)
  obtain m where m: "sfs_wbuf (din_at s) 64 ?b 0 ?s = Some (0, ?s\<lparr>dmem := m, dimage := copy_bytes (dimage ?s) (?b * SFS_BLKSIZE + 0) (dmem ?s) (din_at s) 64\<rparr>)"
    "\<And>a. a \<notin> own ?s \<Longrightarrow> m a = dmem ?s a"
    using wbuf_ok [OF f(1) b, of 0 64 "din_at s"] f(2) by auto
  have "sfs_fsync sin s = Some (0, sin\<lparr>dirty := False\<rparr>, s\<lparr>dmem := m, dimage := ?i\<rparr>)"
    using m(1) d(1) by (simp add: sfs_fsync_def)
  moreover have "get_din ?i (?b * SFS_BLKSIZE) = get_din ?p (din_at s)"
    by (rule get_din_cong) (simp add: copy_bytes_def)
  then have "get_din ?i (?b * SFS_BLKSIZE) = din sin" by (simp add: get_put_din [OF d(2)])
  moreover have "?i a = dimage s a" if "a \<notin> region (?b * SFS_BLKSIZE) 64" for a using that by (auto simp: copy_bytes_def)
  moreover have "m a = dmem s a" if "a \<notin> region (din_at s) 64" "a \<notin> own s" for a
    using m(2) [of a] that d(2) put_din_outside [of "din sin" a "din_at s" "dmem s"] by (simp add: din_fits_def)
  ultimately show ?thesis by blast
qed

text \<open>Reclaiming an inode nobody refers to any more: it is written back if it has to be, and leaves the cache.\<close>

definition idle_inode :: "nat \<Rightarrow> sfs_mnt vfs \<Rightarrow> bool" where
  "idle_inode n v \<longleftrightarrow> ref_count (inodes v n) = 0 \<and> open_count (inodes v n) = 0 \<and> \<not> in_device (inodes v n) \<and> in_fs (inodes v n) \<noteq> None \<and>
     reclaim_count (sin_of n v) = 1"

lemma reclaim_writes:
  assumes inv: "cache_inv (fsdata v) ns" and n: "n \<in> set ns" and idle: "idle_inode n v"
    and fine: "din_fine (fs_view v)" and use: "in_use (fs_view v) (sino (sin_of n v))"
    and d: "nlinks (din (sin_of n v)) \<noteq> 0" "din_fits (din (sin_of n v))"
    and clean: "\<not> dirty (sin_of n v) \<Longrightarrow> disk_din (sino (sin_of n v)) (fs_view v) = din (sin_of n v)"
  shows "\<exists>v' m i. sfs_reclaim n v = Some (0, v') \<and> cache_inv (fsdata v') (remove1 n ns) \<and> inodes v' = inodes v \<and>
     fs_view v' = (fs_view v)\<lparr>dmem := m, dimage := i\<rparr> \<and> get_din i (sino (sin_of n v) * SFS_BLKSIZE) = din (sin_of n v) \<and>
     (\<forall>k. k \<noteq> n \<longrightarrow> sin_of k v' = sin_of k v) \<and> (\<forall>a. a \<notin> region (sino (sin_of n v) * SFS_BLKSIZE) 64 \<longrightarrow> i a = dimage (fs_view v) a)"
proof -
  let ?v1 = "upd_sin n (\<lambda>i. i\<lparr>reclaim_count := reclaim_count i - 1\<rparr>) v"
  let ?sin = "sin_of n ?v1"
  have sin: "din ?sin = din (sin_of n v)" "sino ?sin = sino (sin_of n v)" "dirty ?sin = dirty (sin_of n v)" by simp_all
  have chk: "sfs_node_check n v = Some ()" "sfs_node_check n ?v1 = Some ()" "inode_check n ?v1"
    using idle by (simp_all add: idle_inode_def sfs_node_check_def inode_check_def)
  have use1: "in_use (fs_view ?v1) (sino ?sin)" and fine1: "din_fine (fs_view ?v1)" using use fine by simp_all
  obtain v2 m i where flushed: "(if dirty ?sin then vop n (sfs_op_fsync n) ?v1 else Some (0, ?v1)) = Some (0, v2)"
    and v2: "fs_view v2 = (fs_view v)\<lparr>dmem := m, dimage := i\<rparr>" "inodes v2 = inodes v" "slinks (fsdata v2) = slinks (fsdata v)"
      "din (sin_of n v2) = din (sin_of n v)" "sino (sin_of n v2) = sino (sin_of n v)" "\<forall>k. k \<noteq> n \<longrightarrow> sin_of k v2 = sin_of k v"
    and i: "get_din i (sino (sin_of n v) * SFS_BLKSIZE) = din (sin_of n v)"
      "\<forall>a. a \<notin> region (sino (sin_of n v) * SFS_BLKSIZE) 64 \<longrightarrow> i a = dimage (fs_view v) a"
  proof (cases "dirty ?sin")
    case True
    have fits: "din_fits (din ?sin)" using d(2) by simp
    from fsync_writes [OF fine1 use1 True fits] obtain m i where m:
      "sfs_fsync ?sin (fs_view ?v1) = Some (0, ?sin\<lparr>dirty := False\<rparr>, (fs_view v)\<lparr>dmem := m, dimage := i\<rparr>)"
      "get_din i (sino ?sin * SFS_BLKSIZE) = din ?sin" "\<forall>a. a \<notin> region (sino ?sin * SFS_BLKSIZE) 64 \<longrightarrow> i a = dimage (fs_view ?v1) a"
      by auto
    show ?thesis
      by (rule that [of "upd_sin n (\<lambda>_. ?sin\<lparr>dirty := False\<rparr>) (put_view ((fs_view v)\<lparr>dmem := m, dimage := i\<rparr>) ?v1)" i m])
         (use m chk True in \<open>simp_all add: vop_def sfs_op_fsync_def on_sin_def\<close>)
  next
    case False
    then show ?thesis using clean by (intro that [of ?v1 "dimage (fs_view v)" "dmem (fs_view v)"]) (simp_all add: disk_din_def)
  qed
  let ?w = "sfs_remove_links n v2"
  define v' where "v' = put_view (fs_view ?w) ?w"
  have w: "inodes ?w = inodes v2" "fs_view ?w = fs_view v2" "sins (fsdata ?w) = sins (fsdata v2)"
    by (simp_all, simp_all add: sfs_remove_links_def)
  have "sino (sin_of k v2) = sino (sin_of k v)" for k using v2(5,6) by (cases "k = n") simp_all
  then have "cache_inv (fsdata v2) ns" by (intro cache_inv_cong [OF inv v2(3)]) simp
  then have "cache_inv (fsdata ?w) (remove1 n ns)" by (rule remove_links_inv [OF _ n])
  then have "cache_inv (fsdata v') (remove1 n ns)" by (rule cache_inv_cong) (simp_all add: v'_def)
  moreover have "sfs_reclaim n v = Some (0, v')"
  proof -
    have "on_sfs (\<lambda>s. Some ((), s)) ?w = Some ((), v')" by (simp add: on_sfs_def v'_def)
    moreover have "inode_kill n v' = Some v'" using idle by (simp add: inode_kill_def idle_inode_def v'_def w v2(2))
    moreover have "nlinks (din (sin_of n ?w)) \<noteq> 0" using d(1) by (simp add: w v2(4))
    moreover have "ref_count (inodes ?v1 n) = 0" "reclaim_count ?sin = 0" "nlinks (din ?sin) \<noteq> 0" using idle d(1) by (simp_all add: idle_inode_def)
    ultimately show ?thesis unfolding sfs_reclaim_def Let_def
      using chk(1) idle flushed by (simp add: idle_inode_def)
  qed
  ultimately show ?thesis using i v2(1,2,6) w by (intro exI [of _ v'] exI [of _ m] exI [of _ i]) (simp add: v'_def)
qed

section \<open>The superblock and the freemap on the disk\<close>

lemma copy_bytes_join:
  "copy_bytes (copy_bytes i d m a n) (d + n) m' (a + n) k = copy_bytes i d m a (n + k)" if "\<And>x. x \<in> region (a + n) k \<Longrightarrow> m' x = m x"
proof
  fix x show "copy_bytes (copy_bytes i d m a n) (d + n) m' (a + n) k x = copy_bytes i d m a (n + k) x"
  proof (cases "d + n \<le> x \<and> x < d + n + k")
    case True
    then have "a + (x - d) \<in> region (a + n) k" "a + n + (x - (d + n)) = a + (x - d)" by auto
    then have "m' (a + (x - d)) = m (a + (x - d))" "a + n + (x - (d + n)) = a + (x - d)" by (simp_all only: that)
    then show ?thesis using True by (simp add: copy_bytes_def)
  qed (auto simp: copy_bytes_def)
qed

lemma wblock_ok:
  assumes "fs_ok s" and "blkno \<noteq> 0" and "blkno + n \<le> blocks s" and "region buf (n * SFS_BLKSIZE) \<inter> region (disk0_buffer s) DISK0_BUFSIZE = {}"
  shows "\<exists>m. sfs_rwblock buf blkno n True s =
      Some (0, s\<lparr>dmem := m, dimage := copy_bytes (dimage s) (blkno * SFS_BLKSIZE) (dmem s) buf (n * SFS_BLKSIZE)\<rparr>) \<and>
    (\<forall>a. a \<notin> region (disk0_buffer s) DISK0_BUFSIZE \<longrightarrow> m a = dmem s a)"
  using assms
proof (induction n arbitrary: buf blkno s)
  case 0
  have "copy_bytes (dimage s) (blkno * SFS_BLKSIZE) (dmem s) buf 0 = dimage s" by (rule ext) (auto simp: copy_bytes_def)
  then show ?case by (intro exI [of _ "dmem s"]) simp
next
  case (Suc n)
  have lt: "blkno < blocks s" using Suc.prems(3) by simp
  obtain m where m: "sfs_rwblock_nolock buf blkno True True s =
      Some (0, s\<lparr>dmem := m, dimage := copy_bytes (dimage s) (blkno * SFS_BLKSIZE) (dmem s) buf SFS_BLKSIZE\<rparr>)"
    "\<And>a. a \<notin> region (disk0_buffer s) DISK0_BUFSIZE \<Longrightarrow> m a = dmem s a"
    using rwblock_write [OF Suc.prems(1,2) lt] by blast
  let ?s = "s\<lparr>dmem := m, dimage := copy_bytes (dimage s) (blkno * SFS_BLKSIZE) (dmem s) buf SFS_BLKSIZE\<rparr>"
  have u: "u32 (blkno + 1) = blkno + 1" using Suc.prems(1,3) by (simp add: fs_ok_def dev_ok_def u32_def)
  have dis: "x \<notin> region (disk0_buffer s) DISK0_BUFSIZE" if "x \<in> region buf (Suc n * SFS_BLKSIZE)" for x using Suc.prems(4) that by blast
  have "fs_ok ?s" "blkno + 1 + n \<le> blocks ?s" using Suc.prems(1,3) by simp_all
  moreover have "region (buf + SFS_BLKSIZE) (n * SFS_BLKSIZE) \<inter> region (disk0_buffer ?s) DISK0_BUFSIZE = {}"
    using dis by fastforce
  ultimately obtain m' where m': "sfs_rwblock (buf + SFS_BLKSIZE) (blkno + 1) n True ?s = Some (0, ?s\<lparr>dmem := m', dimage :=
        copy_bytes (dimage ?s) ((blkno + 1) * SFS_BLKSIZE) (dmem ?s) (buf + SFS_BLKSIZE) (n * SFS_BLKSIZE)\<rparr>)"
    "\<forall>a. a \<notin> region (disk0_buffer ?s) DISK0_BUFSIZE \<longrightarrow> m' a = dmem ?s a"
    using Suc.IH [of ?s "blkno + 1" "buf + SFS_BLKSIZE"] by auto
  have join: "copy_bytes (copy_bytes (dimage s) (blkno * SFS_BLKSIZE) (dmem s) buf SFS_BLKSIZE) (blkno * SFS_BLKSIZE + SFS_BLKSIZE) m
      (buf + SFS_BLKSIZE) (n * SFS_BLKSIZE) = copy_bytes (dimage s) (blkno * SFS_BLKSIZE) (dmem s) buf (SFS_BLKSIZE + n * SFS_BLKSIZE)"
    by (rule copy_bytes_join, rule m(2), rule dis) auto
  then have "copy_bytes (copy_bytes (dimage s) (blkno * SFS_BLKSIZE) (dmem s) buf SFS_BLKSIZE) (SFS_BLKSIZE + blkno * SFS_BLKSIZE) m
      (buf + SFS_BLKSIZE) (n * SFS_BLKSIZE) = copy_bytes (dimage s) (blkno * SFS_BLKSIZE) (dmem s) buf (SFS_BLKSIZE + n * SFS_BLKSIZE)"
    by (simp only: add.commute)
  then show ?case using m(1) m' m(2) u by (intro exI [of _ m']) simp
qed

lemma init_freemap_ok:
  assumes "dev_ok s" and "blkno + n \<le> d_blocks s" and "region data (n * SFS_BLKSIZE) \<inter> region (disk0_buffer s) DISK0_BUFSIZE = {}"
  shows "\<exists>m. init_freemap_loop n blkno data s = Some (0, s\<lparr>dmem := m\<rparr>) \<and>
    (\<forall>k<n * SFS_BLKSIZE. m (data + k) = dimage s (blkno * SFS_BLKSIZE + k)) \<and>
    (\<forall>a. a \<notin> region data (n * SFS_BLKSIZE) \<longrightarrow> a \<notin> region (disk0_buffer s) DISK0_BUFSIZE \<longrightarrow> m a = dmem s a)"
  using assms
proof (induction n arbitrary: data blkno s)
  case 0
  then show ?case by (intro exI [of _ "dmem s"]) simp
next
  case (Suc n)
  have lt: "blkno < d_blocks s" using Suc.prems(2) by simp
  have u: "u32 (blkno * SFS_BLKSIZE) = blkno * SFS_BLKSIZE" "u32 (blkno + 1) = blkno + 1"
    using Suc.prems(1) lt by (simp_all add: dev_ok_def u32_def)
  obtain iob m where m: "disk0_io (iobuf_init data BLKSIZE (int (blkno * BLKSIZE))) False s = Some (0, iob, s\<lparr>dmem := m\<rparr>)"
    "\<And>k. k < BLKSIZE \<Longrightarrow> m (data + k) = dimage s (blkno * BLKSIZE + k)"
    "\<And>a. a \<notin> region data BLKSIZE \<Longrightarrow> a \<notin> region (disk0_buffer s) BLKSIZE \<Longrightarrow> m a = dmem s a"
    using disk0_read_one [OF Suc.prems(1) lt] by blast
  have dis: "x \<notin> region (disk0_buffer s) DISK0_BUFSIZE" if "x \<in> region data (Suc n * SFS_BLKSIZE)" for x using Suc.prems(3) that by blast
  let ?s = "s\<lparr>dmem := m\<rparr>"
  have "dev_ok ?s" "blkno + 1 + n \<le> d_blocks ?s" using Suc.prems(1,2) by (simp_all add: dev_ok_def)
  moreover have "region (data + SFS_BLKSIZE) (n * SFS_BLKSIZE) \<inter> region (disk0_buffer ?s) DISK0_BUFSIZE = {}" using dis by fastforce
  ultimately obtain m' where m': "init_freemap_loop n (blkno + 1) (data + SFS_BLKSIZE) ?s = Some (0, ?s\<lparr>dmem := m'\<rparr>)"
    "\<forall>k<n * SFS_BLKSIZE. m' (data + SFS_BLKSIZE + k) = dimage s ((blkno + 1) * SFS_BLKSIZE + k)"
    "\<forall>a. a \<notin> region (data + SFS_BLKSIZE) (n * SFS_BLKSIZE) \<longrightarrow> a \<notin> region (disk0_buffer s) DISK0_BUFSIZE \<longrightarrow> m' a = m a"
    using Suc.IH [of ?s "blkno + 1" "data + SFS_BLKSIZE"] by auto
  have "init_freemap_loop (Suc n) blkno data s = Some (0, s\<lparr>dmem := m'\<rparr>)" using m(1) m'(1) u by (simp add: sfs_init_read_def)
  moreover have "m' (data + k) = dimage s (blkno * SFS_BLKSIZE + k)" if "k < Suc n * SFS_BLKSIZE" for k
  proof (cases "k < SFS_BLKSIZE")
    case True
    have "m' (data + k) = m (data + k)" by (rule m'(3) [rule_format]) (use True dis [of "data + k"] in auto)
    then show ?thesis using m(2) True by simp
  next
    case False
    then have "m' (data + SFS_BLKSIZE + (k - SFS_BLKSIZE)) = dimage s ((blkno + 1) * SFS_BLKSIZE + (k - SFS_BLKSIZE))"
      using that by (intro m'(2) [rule_format]) simp
    then show ?thesis using False by (simp add: algebra_simps)
  qed
  moreover have "m' a = dmem s a" if "a \<notin> region data (Suc n * SFS_BLKSIZE)" "a \<notin> region (disk0_buffer s) DISK0_BUFSIZE" for a
    using that m'(3) [rule_format, of a] m(3) [of a] by auto
  ultimately show ?case by blast
qed

lemma put_bytes_eq: "put_bytes m a bs x = (if a \<le> x \<and> x < a + length bs then bs ! (x - a) else m x)"
proof (induction bs arbitrary: m a)
  case (Cons b bs)
  have "put_bytes m a (b # bs) x = (if a + 1 \<le> x \<and> x < a + 1 + length bs then bs ! (x - (a + 1)) else (m(a := b)) x)"
    unfolding put_bytes.simps by (rule Cons.IH)
  moreover have "x - a = Suc (x - (a + 1))" if "a + 1 \<le> x" using that by linarith
  ultimately show ?case by (cases "x = a") auto
qed auto

text \<open>A freemap that covers its blocks in whole blocks, and a superblock that counts its free bits.\<close>

definition map_blocks :: "sfs_fs \<Rightarrow> nat" where
  "map_blocks s = sfs_freemap_blocks (blocks s)"

definition map_fits :: "sfs_fs \<Rightarrow> bool" where
  "map_fits s \<longleftrightarrow> 0 < blocks s \<and> SFS_BLKN_FREEMAP + map_blocks s \<le> blocks s \<and> bitmap_ok (freemap s) \<and>
     nbits (freemap s) = map_blocks s * SFS_BLKBITS \<and> nwords (freemap s) = map_blocks s * 1024 \<and>
     unused_blocks s = card (free_bits (freemap s)) \<and> length (info s) = SFS_MAX_INFO_LEN + 1 \<and> info s ! SFS_MAX_INFO_LEN = 0"

lemma map_blocks_le:
  assumes "fs_ok s" and "0 < blocks s"
  shows "map_blocks s = (blocks s + 32767) div SFS_BLKBITS" "0 < map_blocks s" "map_blocks s \<le> 32" "sfs_freemap_bits (blocks s) = map_blocks s * SFS_BLKBITS"
    "blocks s < 2 ^ 20"
proof -
  show lt: "blocks s < 2 ^ 20" using assms(1) by (simp add: fs_ok_def dev_ok_def)
  have d: "(blocks s + 32767) div SFS_BLKBITS \<le> 32" "0 < (blocks s + 32767) div SFS_BLKBITS" using lt assms(2) by simp_all
  show e: "map_blocks s = (blocks s + 32767) div SFS_BLKBITS" using d(1) by (simp add: map_blocks_def sfs_freemap_blocks_def ROUNDUP_DIV_def u32_def)
  show "0 < map_blocks s" "map_blocks s \<le> 32" unfolding e using d by simp_all
  have "u64 (blocks s + 32767) = blocks s + 32767" using lt by (simp add: u64_def)
  then have "ROUNDUP (blocks s) SFS_BLKBITS = map_blocks s * SFS_BLKBITS"
    unfolding ROUNDUP_def ROUNDDOWN_def e by (simp add: minus_mod_eq_div_mult add.commute)
  then show "sfs_freemap_bits (blocks s) = map_blocks s * SFS_BLKBITS" using d(1) e by (simp add: sfs_freemap_bits_def u32_def)
qed

text \<open>What a synchronised disk holds: the superblock in block 0, the words of the freemap from block 2 on.\<close>

definition disk_synced :: "cmem \<Rightarrow> sfs_fs \<Rightarrow> bool" where
  "disk_synced i s \<longleftrightarrow> get_u32 i 0 = SFS_MAGIC \<and> get_u32 i 4 = blocks s \<and> get_u32 i 8 = unused_blocks s \<and>
     (\<forall>k<SFS_MAX_INFO_LEN + 1. i (12 + k) = info s ! k) \<and>
     (\<forall>j<nwords (freemap s). get_u32 i (SFS_BLKN_FREEMAP * SFS_BLKSIZE + 4 * j) = unat (words (freemap s) ! j))"

lemma unused_small:
  assumes "fs_ok s" and "map_fits s"
  shows "unused_blocks s < 2 ^ 32"
proof -
  have "free_bits (freemap s) \<subseteq> {..<map_blocks s * SFS_BLKBITS}" using assms(2) by (auto simp: map_fits_def bitmap_ok_def)
  then have "card (free_bits (freemap s)) \<le> map_blocks s * SFS_BLKBITS" by (metis card_lessThan card_mono finite_lessThan)
  then show ?thesis using map_blocks_le(3) [OF assms(1)] assms(2) by (simp add: map_fits_def)
qed

lemma put_super_get:
  assumes "blocks s < 2 ^ 32" "unused_blocks s < 2 ^ 32"
  shows "get_u32 (put_super m a s) a = SFS_MAGIC" "get_u32 (put_super m a s) (a + 4) = blocks s"
    "get_u32 (put_super m a s) (a + 8) = unused_blocks s" "k < length (info s) \<Longrightarrow> put_super m a s (a + 12 + k) = info s ! k"
proof -
  let ?ws = "[SFS_MAGIC, blocks s, unused_blocks s]"
  have w: "get_u32 (put_super m a s) (a + 4 * j) = ?ws ! j" if "j < 3" for j
  proof -
    have "get_u32 (put_super m a s) (a + 4 * j) = get_u32 (put_words m a ?ws) (a + 4 * j)"
      by (rule get_u32_cong) (use that in \<open>simp add: put_super_def put_bytes_eq del: put_words.simps\<close>)
    also have "\<dots> = ?ws ! j" by (rule get_put_words) (use that assms in auto)
    finally show ?thesis .
  qed
  show "get_u32 (put_super m a s) a = SFS_MAGIC" "get_u32 (put_super m a s) (a + 4) = blocks s"
    "get_u32 (put_super m a s) (a + 8) = unused_blocks s" using w [of 0] w [of 1] w [of 2] by simp_all
  show "put_super m a s (a + 12 + k) = info s ! k" if "k < length (info s)"
    using that by (simp add: put_super_def put_bytes_eq del: put_words.simps)
qed

lemma sync_super_ok:
  assumes "fs_ok s" and "0 < blocks s"
  shows "\<exists>m. sfs_sync_super s = Some (0, s\<lparr>dmem := m, dimage := copy_bytes (dimage s) 0
      (put_super (memset (dmem s) (sfs_buffer s) 0 SFS_BLKSIZE) (sfs_buffer s) s) (sfs_buffer s) SFS_BLKSIZE\<rparr>)"
proof -
  let ?s = "s\<lparr>dmem := put_super (memset (dmem s) (sfs_buffer s) 0 SFS_BLKSIZE) (sfs_buffer s) s\<rparr>"
  have d: "dev_ok ?s" "0 < d_blocks ?s" using assms by (auto simp: fs_ok_def dev_ok_def)
  obtain iob m where "disk0_io (iobuf_init (sfs_buffer s) BLKSIZE (int (0 * BLKSIZE))) True ?s =
      Some (0, iob, ?s\<lparr>dmem := m, dimage := copy_bytes (dimage ?s) (0 * BLKSIZE) (dmem ?s) (sfs_buffer s) BLKSIZE\<rparr>)"
    using disk0_write_one [OF d, of "sfs_buffer s"] by blast
  then show ?thesis using assms(2) by (intro exI [of _ m]) (simp add: sfs_sync_super_def sfs_rwblock_nolock_def u32_def Let_def)
qed

abbreviation map_region :: "nat \<Rightarrow> sfs_fs \<Rightarrow> nat set" where
  "map_region a s \<equiv> region a (map_blocks s * SFS_BLKSIZE)"

lemma sync_freemap_ok:
  assumes "fs_ok s" and "map_fits s" and "map_region (freemap_at s) s \<inter> region (disk0_buffer s) DISK0_BUFSIZE = {}"
  shows "\<exists>m. sfs_sync_freemap s = Some (0, s\<lparr>dmem := m, dimage := copy_bytes (dimage s) (SFS_BLKN_FREEMAP * SFS_BLKSIZE)
      (put_words (dmem s) (freemap_at s) (map unat (words (freemap s)))) (freemap_at s) (map_blocks s * SFS_BLKSIZE)\<rparr>)"
proof -
  let ?s = "s\<lparr>dmem := put_words (dmem s) (freemap_at s) (map unat (words (freemap s)))\<rparr>"
  have "fs_ok ?s" "SFS_BLKN_FREEMAP + map_blocks s \<le> blocks ?s" "(SFS_BLKN_FREEMAP :: nat) \<noteq> 0"
    using assms(1,2) by (simp_all add: map_fits_def)
  from wblock_ok [OF this(1,3,2), of "freemap_at s"] assms(3) show ?thesis
    by (auto simp: sfs_sync_freemap_def sfs_wblock_def bitmap_getdata_def map_blocks_def sfs_freemap_blocks_def Let_def)
qed

lemma synced_image:
  fixes i m :: cmem
  assumes "fs_ok s" and "map_fits s"
  defines "i1 \<equiv> copy_bytes i 0 (put_super m (sfs_buffer s) s) (sfs_buffer s) SFS_BLKSIZE"
  shows "disk_synced (copy_bytes i1 (SFS_BLKN_FREEMAP * SFS_BLKSIZE) (put_words m' a (map unat (words (freemap s)))) a (map_blocks s * SFS_BLKSIZE)) s"
    (is "disk_synced ?i s")
proof -
  have fits: "length (info s) = 32" "length (words (freemap s)) = map_blocks s * 1024" "nwords (freemap s) = map_blocks s * 1024"
    using assms(2) by (simp_all add: map_fits_def bitmap_ok_def)
  have lt: "blocks s < 2 ^ 32" "unused_blocks s < 2 ^ 32"
    using assms(1) unused_small [OF assms(1,2)] by (simp_all add: fs_ok_def dev_ok_def)
  let ?b = "sfs_buffer s"
  have low: "?i x = put_super m ?b s (?b + x)" if "x < SFS_BLKSIZE" for x using that by (simp add: i1_def copy_bytes_def)
  have word: "get_u32 ?i x = get_u32 (put_super m ?b s) (?b + x)" if "x + 4 \<le> SFS_BLKSIZE" for x
  proof (rule get_u32_cong)
    fix k :: nat assume "k < 4"
    then show "?i (x + k) = put_super m ?b s (?b + x + k)" using low [of "x + k"] that by (simp add: add.assoc)
  qed
  have map: "get_u32 ?i (SFS_BLKN_FREEMAP * SFS_BLKSIZE + 4 * j) = unat (words (freemap s) ! j)" if "j < nwords (freemap s)" for j
  proof -
    have "get_u32 ?i (SFS_BLKN_FREEMAP * SFS_BLKSIZE + 4 * j) = get_u32 (put_words m' a (map unat (words (freemap s)))) (a + 4 * j)"
      by (rule get_u32_cong) (use that fits in \<open>simp add: copy_bytes_def add.assoc\<close>)
    also have "\<dots> = map unat (words (freemap s)) ! j"
      by (rule get_put_words) (use that fits unsigned_less [where ?'b = 32] in auto)
    finally show ?thesis using that fits by simp
  qed
  show ?thesis unfolding disk_synced_def
    using word [of 0] word [of 4] word [of 8] low put_super_get [OF lt] fits(1) map by (simp add: add.assoc)
qed

text \<open>Reading it back.\<close>

lemma count_free_ok:
  assumes "bitmap_ok b"
  shows "\<forall>i\<in>set is. i < nbits b \<Longrightarrow> distinct is \<Longrightarrow> c + length is < 2 ^ 32 \<Longrightarrow> count_free is b c = Some (c + card (set is \<inter> free_bits b))"
proof (induction "is" arbitrary: c)
  case (Cons i js)
  have t: "bitmap_test b i = Some (i \<in> free_bits b)" using bitmap_test_ok [OF assms, of i] Cons.prems(1) by simp
  show ?case
  proof (cases "i \<in> free_bits b")
    case True
    have "set (i # js) \<inter> free_bits b = insert i (set js \<inter> free_bits b)" using True by auto
    then have "card (set (i # js) \<inter> free_bits b) = Suc (card (set js \<inter> free_bits b))" using Cons.prems(2) by simp
    moreover have "u32 (c + 1) = c + 1" using Cons.prems(3) by (simp add: u32_def)
    ultimately show ?thesis using Cons.IH [of "c + 1"] Cons.prems t True by simp
  next
    case False
    then have "set (i # js) \<inter> free_bits b = set js \<inter> free_bits b" by auto
    then show ?thesis using Cons.IH [of c] Cons.prems t False by simp
  qed
qed simp

lemma words_at_read:
  assumes "\<forall>k<4 * n. m (a + k) = i (b + k)" and "\<forall>j<n. get_u32 i (b + 4 * j) = unat (ws ! j)" and "length ws = n"
  shows "words_at m a n = ws"
proof (rule nth_equalityI)
  fix j assume "j < length (words_at m a n)"
  then have j: "j < n" by (simp add: words_at_def)
  have "get_u32 m (a + 4 * j) = get_u32 i (b + 4 * j)" by (rule get_u32_cong) (use assms(1) j in \<open>simp add: add.assoc\<close>)
  then show "words_at m a n ! j = ws ! j" using assms(2) j by (simp add: words_at_def)
qed (use assms(3) in \<open>simp add: words_at_def\<close>)

text \<open>A device that holds the blocks, and the allocations of a successful mount.\<close>

definition mountable :: "mount_env \<Rightarrow> nat \<Rightarrow> nat \<Rightarrow> sfs_fs \<Rightarrow> sfs_fs \<Rightarrow> bool" where
  "mountable e buf data s s' \<longleftrightarrow> m_buffer e = Some buf \<and> m_hash e \<and> m_map1 e \<and> m_map2 e = Some data \<and> dev_ok s' \<and> blocks s \<le> d_blocks s' \<and>
     map_region data s \<inter> region (disk0_buffer s') DISK0_BUFSIZE = {}"

lemma mount_reads:
  assumes ok: "fs_ok s" "map_fits s" and disk: "disk_synced (dimage s') s" and e: "mountable e buf data s s'"
  shows "\<exists>m. mount_super e buf s' = Some (0, s'\<lparr>dmem := m, blocks := blocks s, unused_blocks := unused_blocks s, info := info s,
     freemap := freemap s, freemap_at := data, super_dirty := False, sfs_buffer := buf\<rparr>)"
proof -
  note mb = map_blocks_le [OF ok(1)]
  have fits: "0 < blocks s" "SFS_BLKN_FREEMAP + map_blocks s \<le> blocks s" "bitmap_ok (freemap s)" "length (info s) = 32" "info s ! 31 = 0"
    "nwords (freemap s) = map_blocks s * 1024" "nbits (freemap s) = map_blocks s * 32768" "unused_blocks s = card (free_bits (freemap s))"
    "length (words (freemap s)) = map_blocks s * 1024"
    using ok(2) by (simp_all add: map_fits_def) (simp_all add: bitmap_ok_def)
  have dev: "dev_ok s'" "0 < d_blocks s'" using e fits(1) by (auto simp: mountable_def)
  obtain iob m where m: "disk0_io (iobuf_init buf BLKSIZE (int (0 * BLKSIZE))) False s' = Some (0, iob, s'\<lparr>dmem := m\<rparr>)"
    "\<And>k. k < BLKSIZE \<Longrightarrow> m (buf + k) = dimage s' (0 * BLKSIZE + k)"
    using disk0_read_one [OF dev, of buf] by metis
  have rd: "sfs_init_read SFS_BLKN_SUPER buf s' = Some (0, s'\<lparr>dmem := m\<rparr>)" using m(1) by (simp add: sfs_init_read_def u32_def)
  have word: "get_u32 m (buf + x) = get_u32 (dimage s') x" if "x + 4 \<le> BLKSIZE" for x
    by (rule get_u32_cong) (use that m(2) in \<open>simp add: add.assoc\<close>)
  have sup: "get_u32 m buf = SFS_MAGIC" "get_u32 m (buf + 4) = blocks s" "get_u32 m (buf + 8) = unused_blocks s"
    using word [of 0] word [of 4] word [of 8] disk by (simp_all add: disk_synced_def)
  have "map (\<lambda>i. m (buf + 12 + i)) [0..<31] @ [0] = info s"
  proof (rule nth_equalityI)
    fix i assume "i < length (map (\<lambda>i. m (buf + 12 + i)) [0..<31] @ [0])"
    then have i: "i < 32" by simp
    show "(map (\<lambda>i. m (buf + 12 + i)) [0..<31] @ [0]) ! i = info s ! i"
    proof (cases "i < 31")
      case True
      then show ?thesis using m(2) [of "12 + i"] disk by (simp add: nth_append disk_synced_def add.assoc)
    next
      case False
      then have "i = 31" using i by simp
      then show ?thesis using fits(5) by (simp add: nth_append)
    qed
  qed (simp add: fits(4))
  note inf = this
  let ?m = "m(buf + 12 + SFS_MAX_INFO_LEN := 0)"
  let ?s1 = "s'\<lparr>blocks := blocks s, unused_blocks := unused_blocks s, info := info s, sfs_buffer := buf, dmem := ?m\<rparr>"
  have "dev_ok ?s1" "SFS_BLKN_FREEMAP + map_blocks s \<le> d_blocks ?s1" "map_region data s \<inter> region (disk0_buffer ?s1) DISK0_BUFSIZE = {}"
    using e fits(2) by (simp_all add: mountable_def dev_ok_def)
  from init_freemap_ok [OF this] obtain m2 where m2: "init_freemap_loop (map_blocks s) SFS_BLKN_FREEMAP data ?s1 = Some (0, ?s1\<lparr>dmem := m2\<rparr>)"
    "\<forall>k<map_blocks s * SFS_BLKSIZE. m2 (data + k) = dimage s' (SFS_BLKN_FREEMAP * SFS_BLKSIZE + k)" by auto
  have ws: "words_at m2 data (map_blocks s * 1024) = words (freemap s)"
    by (rule words_at_read [where i = "dimage s'" and b = "SFS_BLKN_FREEMAP * SFS_BLKSIZE"])
       (use m2(2) disk fits(6,9) in \<open>simp_all add: disk_synced_def\<close>)
  let ?b0 = "\<lparr>nbits = map_blocks s * 32768, nwords = map_blocks s * 1024, words = replicate (map_blocks s * 1024) (- 1)\<rparr>"
  have "ROUNDUP_DIV (map_blocks s * 32768) WORD_BITS = map_blocks s * 1024"
    using mb(3) fits(1) by (simp add: ROUNDUP_DIV_def u32_def)
  then have cr: "bitmap_create (sfs_freemap_bits (blocks s)) True True = Some (Some ?b0)"
    using mb(2,4) fits(1) by (simp add: bitmap_create_def Let_def)
  have b: "?b0\<lparr>words := words (freemap s)\<rparr> = freemap s" using fits(6,7) by simp
  have "\<forall>i\<in>set [0..<sfs_freemap_bits (blocks s)]. i < nbits (freemap s)" "0 + length [0..<sfs_freemap_bits (blocks s)] < 2 ^ 32"
    using mb(3,4) fits(1,7) by simp_all
  from count_free_ok [OF fits(3) this(1) _ this(2)] have
    "count_free [0..<sfs_freemap_bits (blocks s)] (freemap s) 0 = Some (card ({..<nbits (freemap s)} \<inter> free_bits (freemap s)))"
    using mb(4) fits(1,7) by (simp add: atLeast0LessThan)
  moreover have "{..<nbits (freemap s)} \<inter> free_bits (freemap s) = free_bits (freemap s)" using fits(3) by (auto simp: bitmap_ok_def)
  ultimately have cnt: "count_free [0..<sfs_freemap_bits (blocks s)] (freemap s) 0 = Some (unused_blocks s)" using fits(8) by simp
  have init: "sfs_init_freemap ?b0 data SFS_BLKN_FREEMAP (sfs_freemap_blocks (blocks s)) ?s1 = Some (0, freemap s, ?s1\<lparr>dmem := m2\<rparr>)"
    using m2(1) ws b mb(3) fits(1) by (simp add: sfs_init_freemap_def bitmap_getdata_def map_blocks_def [symmetric] u32_def)
  have "mount_freemap e buf (s'\<lparr>dmem := m\<rparr>) = Some (0, s'\<lparr>dmem := m2, blocks := blocks s, unused_blocks := unused_blocks s, info := info s,
     freemap := freemap s, freemap_at := data, super_dirty := False, sfs_buffer := buf\<rparr>)"
    using e cr init cnt sup inf by (simp add: mount_freemap_def mountable_def Let_def)
  then show ?thesis using rd sup e by (intro exI [of _ m2]) (simp add: mount_super_def mountable_def)
qed

section \<open>The properties\<close>

text \<open>
  C35: \<^verbatim>\<open>sfs_load_inode\<close> keeps one inode in memory for each inode of the disk: for a number that is cached it returns the inode the cache
  holds, with one more reference, and for any other number a new inode with what the disk has in that block; the
  list and the hash table are again consistent, with no number twice, and the disk is untouched.
\<close>

theorem sfs_load_inode_once:
  assumes inv: "cache_inv (fsdata v) ns" and fine: "din_fine (fs_view v)" and use: "in_use (fs_view v) ino"
    and got: "g_din g" "g_node g = Some n" "n \<notin> set ns"
    and disk: "nlinks (disk_din ino (fs_view v)) \<noteq> 0" "ftype (disk_din ino (fs_view v)) \<in> {SFS_TYPE_DIR, SFS_TYPE_FILE}"
  shows "\<exists>m v'. sfs_load_inode g fs ino v = Some (0, Some m, v') \<and> sino (sin_of m v') = ino \<and> dimage (fs_view v') = dimage (fs_view v) \<and>
     (if m \<in> set ns
      then cache_inv (fsdata v') ns \<and> sino (sin_of m v) = ino \<and> din (sin_of m v') = din (sin_of m v) \<and> kmem v' = kmem v \<and>
        ref_count (inodes v' m) = ref_count (inodes v m) + 1
      else cache_inv (fsdata v') (n # ns) \<and> m = n \<and> din (sin_of m v') = disk_din ino (fs_view v) \<and> ref_count (inodes v' m) = 1 \<and>
        (\<forall>k\<in>set ns. sino (sin_of k v) \<noteq> ino) \<and> (\<forall>a. a \<notin> region (din_at (fs_view v)) 64 \<longrightarrow> a \<notin> own (fs_view v) \<longrightarrow> kmem v' a = kmem v a))"
proof (cases "\<exists>m\<in>set ns. sino (sin_of m v) = ino")
  case True
  then obtain m where m: "m \<in> set ns" "sino (sin_of m v) = ino" by blast
  from load_hit [OF inv m, of g fs] obtain v' where v': "sfs_load_inode g fs ino v = Some (0, Some m, v')"
    "cache_inv (fsdata v') ns" "fs_view v' = fs_view v"
    "inodes v' = (inodes v)(m := (inodes v m)\<lparr>ref_count := ref_count (inodes v m) + 1\<rparr>)" "din (sin_of m v') = din (sin_of m v)" "sino (sin_of m v') = ino"
    using m(2) by auto
  moreover have "kmem v' = kmem v" using arg_cong [OF v'(3), of dmem] by simp
  ultimately show ?thesis using m by (intro exI [of _ m] exI [of _ v']) simp
next
  case False
  then have miss: "\<forall>k\<in>set ns. sino (sin_of k v) \<noteq> ino" by blast
  from load_miss [OF inv this fine use got disk, of fs] obtain v' m where v': "sfs_load_inode g fs ino v = Some (0, Some n, v')"
    "cache_inv (fsdata v') (n # ns)" "fs_view v' = (fs_view v)\<lparr>dmem := m\<rparr>" "ref_count (inodes v' n) = 1"
    "sin_of n v' = \<lparr>din = disk_din ino (fs_view v), sino = ino, dirty = False, reclaim_count = 1\<rparr>"
    "\<forall>a. a \<notin> region (din_at (fs_view v)) 64 \<longrightarrow> a \<notin> own (fs_view v) \<longrightarrow> m a = kmem v a" by auto
  moreover have "kmem v' = m" using arg_cong [OF v'(3), of dmem] by simp
  ultimately show ?thesis using got(3) miss by (intro exI [of _ n] exI [of _ v']) simp
qed

text \<open>The disk of \<open>ex_fs\<close> with an inode in block 4, and an empty cache.\<close>

definition ex_mnt :: "sfs_mnt vfs" where
  "ex_mnt = \<lparr>inodes = (\<lambda>_. \<lparr>ref_count = 0, open_count = 0, in_fs = Some 1, in_device = False\<rparr>), kmem = dmem ex_fs, pwd = None,
     bootfs_node = None, vdev_list = [], fsdata = \<lparr>sfs = ex_fs\<lparr>dimage := put_din (dimage ex_fs) 16384 (din ex_sin)\<rparr>,
       sins = (\<lambda>_. ex_sin\<lparr>sino := 4, dirty := True\<rparr>), slinks = \<lparr>nxt = (\<lambda>n. n), prv = (\<lambda>n. n)\<rparr>\<rparr>\<rparr>"

definition ex_sfs_env :: sfs_env where
  "ex_sfs_env = \<lparr>g_entry = True, g_din = True, g_node = Some 7, name_at = 60000, dots_at = 60300\<rparr>"

lemma ex_din: "din_fits (din ex_sin)" "nlinks (din ex_sin) = 1" "ftype (din ex_sin) = 1"
  by (simp_all add: din_fits_def ex_sin_def)

lemma ex_mnt_ok: "cache_inv (fsdata ex_mnt) []" "din_fine (fs_view ex_mnt)" "in_use (fs_view ex_mnt) 4"
  "disk_din 4 (fs_view ex_mnt) = din ex_sin"
proof -
  have "chains SinHead SinLink (slinks (fsdata ex_mnt)) (\<lambda>_. []) (\<lambda>n. sin_hashfn (sino (sin_of n ex_mnt)))"
    by (simp add: chains_def dlist_def ex_mnt_def)
  then show "cache_inv (fsdata ex_mnt) []"
    unfolding cache_inv_def sin_chains_def by (intro conjI exI [of _ "\<lambda>_. []"]) (simp_all add: dlist_def tabled_def, simp add: ex_mnt_def)
  have view: "fs_view ex_mnt = ex_fs\<lparr>dimage := put_din (dimage ex_fs) 16384 (din ex_sin)\<rparr>" by (simp add: fs_view_def ex_mnt_def)
  have "region 31000 64 \<inter> own ex_fs = {}" "din_at ex_fs = 31000" by (auto simp: ex_own) (simp add: ex_fs_def)
  then show "din_fine (fs_view ex_mnt)" using ex_ok(1) by (simp add: din_fine_def view)
  have "in_use ex_fs 4"
    by (simp add: in_use_def sfs_block_inuse_def bitmap_test_def bitmap_translate_def bitmask_def ex_fs_def)
  then show "in_use (fs_view ex_mnt) 4" by (simp add: view)
  show "disk_din 4 (fs_view ex_mnt) = din ex_sin" by (simp add: disk_din_def view get_put_din [OF ex_din(1)])
qed

theorem sfs_load_inode_once_witness:
  "\<exists>v'. sfs_load_inode ex_sfs_env 1 4 ex_mnt = Some (0, Some 7, v') \<and> cache_inv (fsdata v') [7] \<and> din (sin_of 7 v') = din ex_sin"
  using sfs_load_inode_once [OF ex_mnt_ok(1-3), of ex_sfs_env 7 1] by (auto simp: ex_sfs_env_def ex_mnt_ok(4) ex_din)

text \<open>
  C36: An inode survives its eviction: when the last reference goes, \<^verbatim>\<open>sfs_reclaim\<close> writes a changed inode back and takes it out of the
  cache, and loading its number afterwards brings the same inode back, field by field, whatever address it gets.
\<close>

theorem sfs_reclaim_load:
  assumes inv: "cache_inv (fsdata v) ns" and n: "n \<in> set ns" and idle: "idle_inode n v"
    and fine: "din_fine (fs_view v)" and use: "in_use (fs_view v) (sino (sin_of n v))"
    and d: "nlinks (din (sin_of n v)) \<noteq> 0" "din_fits (din (sin_of n v))" "ftype (din (sin_of n v)) \<in> {SFS_TYPE_DIR, SFS_TYPE_FILE}"
    and clean: "\<not> dirty (sin_of n v) \<longrightarrow> disk_din (sino (sin_of n v)) (fs_view v) = din (sin_of n v)"
    and got: "g_din g" "g_node g = Some k" "k \<notin> set ns - {n}"
  shows "\<exists>v1 v2. sfs_reclaim n v = Some (0, v1) \<and> cache_inv (fsdata v1) (remove1 n ns) \<and>
     sfs_load_inode g fs (sino (sin_of n v)) v1 = Some (0, Some k, v2) \<and> cache_inv (fsdata v2) (k # remove1 n ns) \<and>
     din (sin_of k v2) = din (sin_of n v) \<and> sino (sin_of k v2) = sino (sin_of n v) \<and> \<not> dirty (sin_of k v2)"
proof -
  from reclaim_writes [OF inv n idle fine use d(1,2)] clean obtain v1 m i where
    v1: "sfs_reclaim n v = Some (0, v1)" "cache_inv (fsdata v1) (remove1 n ns)" "fs_view v1 = (fs_view v)\<lparr>dmem := m, dimage := i\<rparr>"
      "get_din i (sino (sin_of n v) * SFS_BLKSIZE) = din (sin_of n v)" "\<forall>k. k \<noteq> n \<longrightarrow> sin_of k v1 = sin_of k v" by blast
  have disk: "disk_din (sino (sin_of n v)) (fs_view v1) = din (sin_of n v)" by (simp add: disk_din_def v1(3,4))
  have ns: "set (remove1 n ns) = set ns - {n}" using cache_distinct [OF inv] by simp
  have inj: "inj_on (\<lambda>n. sino (sin_of n v)) (set ns)" using inv by (simp add: cache_inv_def)
  have miss: "\<forall>j\<in>set (remove1 n ns). sino (sin_of j v1) \<noteq> sino (sin_of n v)"
    using v1(5) inj n unfolding ns by (auto dest: inj_onD)
  have fine1: "din_fine (fs_view v1)" "in_use (fs_view v1) (sino (sin_of n v))"
    using fine use by (simp_all add: v1(3) din_fine_def)
  have got1: "k \<notin> set (remove1 n ns)" using got(3) ns by simp
  from load_miss [OF v1(2) miss fine1 got(1,2) got1, of fs] d(1,3) obtain v2 where
    "sfs_load_inode g fs (sino (sin_of n v)) v1 = Some (0, Some k, v2)" "cache_inv (fsdata v2) (k # remove1 n ns)"
    "sin_of k v2 = \<lparr>din = din (sin_of n v), sino = sino (sin_of n v), dirty = False, reclaim_count = 1\<rparr>"
    unfolding disk by auto
  then show ?thesis using v1(1,2) by (intro exI [of _ v1] exI [of _ v2]) simp
qed

theorem sfs_reclaim_load_witness:
  "\<exists>v1 v2. sfs_reclaim 5 (sfs_set_links 5 ex_mnt) = Some (0, v1) \<and> cache_inv (fsdata v1) [] \<and>
     sfs_load_inode ex_sfs_env 1 4 v1 = Some (0, Some 7, v2) \<and> cache_inv (fsdata v2) [7] \<and> din (sin_of 7 v2) = din ex_sin"
proof -
  let ?v = "sfs_set_links 5 ex_mnt"
  have inv: "cache_inv (fsdata ?v) [5]" using set_links_inv [OF ex_mnt_ok(1), of 5] by simp
  have sin: "sin_of 5 ex_mnt = ex_sin\<lparr>sino := 4, dirty := True\<rparr>" by (simp add: ex_mnt_def)
  have idle: "idle_inode 5 ?v" by (simp add: idle_inode_def sin) (simp add: ex_mnt_def ex_sin_def)
  show ?thesis
    using sfs_reclaim_load [OF inv _ idle, of ex_sfs_env 7 1] ex_mnt_ok(2,3) ex_din by (auto simp: sin ex_sfs_env_def)
qed

text \<open>
  C37: What \<^verbatim>\<open>sfs_sync\<close> leaves on the disk is what \<^verbatim>\<open>sfs_do_mount\<close> finds there: when no inode is cached, a synchronisation of a changed file
  system succeeds, \<^verbatim>\<open>sfs_unmount\<close> then lets it go, and mounting that disk again, from any state of the memory, restores the number of
  blocks, the count of unused ones, the description and every bit of the freemap; the new file system is clean and its cache empty.
\<close>

theorem mount_after_sync:
  assumes v: "cache_inv (fsdata v) []" "super_dirty (sfs (fsdata v))" "fs_ok (fs_view v)" "map_fits (fs_view v)"
      "map_region (freemap_at (fs_view v)) (fs_view v) \<inter> region (disk0_buffer (fs_view v)) DISK0_BUFSIZE = {}"
    and e: "m_fs e = Some fs" "mountable e buf data (fs_view v) (fs_view w)"
  shows "\<exists>v1. sfs_sync v = Some (0, v1) \<and> sfs_unmount v1 = Some (0, v1) \<and>
     (dimage (fs_view w) = dimage (fs_view v1) \<longrightarrow>
       (\<exists>w'. sfs_do_mount e SFS_BLKSIZE w = Some (0, Some fs, w') \<and> blocks (fs_view w') = blocks (fs_view v) \<and>
          unused_blocks (fs_view w') = unused_blocks (fs_view v) \<and> info (fs_view w') = info (fs_view v) \<and>
          freemap (fs_view w') = freemap (fs_view v) \<and> \<not> super_dirty (fs_view w') \<and> dimage (fs_view w') = dimage (fs_view w) \<and>
          cache_inv (fsdata w') []))"
proof -
  let ?s = "(fs_view v)\<lparr>super_dirty := False\<rparr>"
  have s: "fs_ok ?s" "map_fits ?s" "map_blocks ?s = map_blocks (fs_view v)" "0 < blocks ?s"
    using v(3,4) by (simp_all add: fs_ok_def dev_ok_def map_fits_def map_blocks_def)
  obtain m1 where m1: "sfs_sync_super ?s = Some (0, ?s\<lparr>dmem := m1, dimage := copy_bytes (dimage ?s) 0
      (put_super (memset (dmem ?s) (sfs_buffer ?s) 0 SFS_BLKSIZE) (sfs_buffer ?s) ?s) (sfs_buffer ?s) SFS_BLKSIZE\<rparr>)" (is "_ = Some (0, ?s1)")
    using sync_super_ok [OF s(1,4)] by blast
  have s1: "fs_ok ?s1" "map_fits ?s1" "map_region (freemap_at ?s1) ?s1 \<inter> region (disk0_buffer ?s1) DISK0_BUFSIZE = {}"
    using s v(5) by (simp_all add: map_fits_def map_blocks_def)
  from sync_freemap_ok [OF this] obtain m2 where m2: "sfs_sync_freemap ?s1 = Some (0, ?s1\<lparr>dmem := m2, dimage :=
      copy_bytes (dimage ?s1) (SFS_BLKN_FREEMAP * SFS_BLKSIZE) (put_words (dmem ?s1) (freemap_at ?s1) (map unat (words (freemap ?s1))))
        (freemap_at ?s1) (map_blocks ?s1 * SFS_BLKSIZE)\<rparr>)" (is "_ = Some (0, ?s2)") by blast
  have empty_list: "list_next InodeList (slinks (fsdata v)) = InodeList" using v(1) by (simp add: cache_inv_def dlist_def list_next_def)
  let ?v0 = "set_super_dirty False v" and ?v1 = "put_view ?s2 (put_view ?s1 (set_super_dirty False v))"
  have view: "fs_view ?v0 = ?s" by (simp add: fs_view_def set_super_dirty_def)
  have sync: "sfs_sync v = Some (0, ?v1)"
    using v(2) empty_list m1 m2 view by (simp add: sfs_sync_def sync_loop.simps on_sfs_def)
  have links: "slinks (fsdata ?v1) = slinks (fsdata v)" by (simp add: set_super_dirty_def)
  have un: "sfs_unmount ?v1 = Some (0, ?v1)"
    unfolding sfs_unmount_def links using empty_list by (simp add: list_empty_def list_next_def)
  show ?thesis
  proof (rule exI [of _ ?v1], intro conjI impI sync un)
    assume same: "dimage (fs_view w) = dimage (fs_view ?v1)"
    have "disk_synced (dimage (fs_view w)) (fs_view v)"
      using synced_image [OF v(3,4)] unfolding same by (simp add: put_super_def disk_synced_def map_blocks_def)
    from mount_reads [OF v(3,4) this e(2)] obtain m where m: "mount_super e buf (fs_view w) = Some (0, (fs_view w)\<lparr>dmem := m,
      blocks := blocks (fs_view v), unused_blocks := unused_blocks (fs_view v), info := info (fs_view v),
      freemap := freemap (fs_view v), freemap_at := data, super_dirty := False, sfs_buffer := buf\<rparr>)" (is "_ = Some (0, ?t)") by blast
    let ?w = "upd_mnt (\<lambda>d. d\<lparr>slinks := \<lparr>nxt = (\<lambda>n. n), prv = (\<lambda>n. n)\<rparr>\<rparr>) (put_view ?t w)"
    have "sfs_do_mount e SFS_BLKSIZE w = Some (0, Some fs, ?w)" using m e by (simp add: sfs_do_mount_def mountable_def on_sfs_def)
    moreover have "fs_view ?w = ?t" by (simp add: fs_view_def upd_mnt_def put_view_def)
    moreover have "cache_inv (fsdata ?w) []"
    proof -
      have "sin_chains (fsdata ?w) (\<lambda>_. [])" by (simp add: sin_chains_def chains_def dlist_def)
      then show ?thesis unfolding cache_inv_def by (intro conjI exI [of _ "\<lambda>_. []"]) (simp_all add: dlist_def tabled_def)
    qed
    ultimately show "\<exists>w'. sfs_do_mount e SFS_BLKSIZE w = Some (0, Some fs, w') \<and> blocks (fs_view w') = blocks (fs_view v) \<and>
          unused_blocks (fs_view w') = unused_blocks (fs_view v) \<and> info (fs_view w') = info (fs_view v) \<and>
          freemap (fs_view w') = freemap (fs_view v) \<and> \<not> super_dirty (fs_view w') \<and> dimage (fs_view w') = dimage (fs_view w) \<and>
          cache_inv (fsdata w') []" by (intro exI [of _ ?w]) simp
  qed
qed

text \<open>The example with the freemap of a real disk, changed since it was written.\<close>

definition ex_old :: "sfs_mnt vfs" where
  "ex_old = upd_mnt (\<lambda>d. d\<lparr>sfs := (sfs d)\<lparr>super_dirty := True, info := replicate 32 0,
     freemap := \<lparr>nbits = 32768, nwords = 1024, words = 0xc0 # replicate 1023 0\<rparr>\<rparr>\<rparr>) ex_mnt"

definition ex_mount_env :: mount_env where
  "ex_mount_env = \<lparr>m_fs = Some 3, m_buffer = Some 20000, m_hash = True, m_map1 = True, m_map2 = Some 60000\<rparr>"

lemma ex_old_free: "free_bits (freemap (fs_view ex_old)) = {6, 7}"
proof -
  have bits: "bit (0xc0 :: 32 word) i \<longleftrightarrow> i = 6 \<or> i = 7" if "i < 32" for i
  proof -
    have "\<forall>i\<in>set [0..<32]. bit (0xc0 :: 32 word) i \<longleftrightarrow> i = 6 \<or> i = 7" by code_simp
    then show ?thesis using that by simp
  qed
  have "(i < 32768 \<and> bit ((0xc0 # replicate 1023 (0 :: 32 word)) ! (i div 32)) (i mod 32)) \<longleftrightarrow> i = 6 \<or> i = 7" for i
  proof (cases "i < 32")
    case False
    then have "i div 32 \<noteq> 0" by auto
    then show ?thesis using False by (auto simp: nth_Cons')
  qed (use bits in auto)
  then show ?thesis by (auto simp: free_bits_def fs_view_def ex_old_def)
qed

lemma ex_old_ok: "cache_inv (fsdata ex_old) []" "super_dirty (sfs (fsdata ex_old))" "fs_ok (fs_view ex_old)" "map_fits (fs_view ex_old)"
  "map_blocks (fs_view ex_old) = 1"
proof -
  show "cache_inv (fsdata ex_old) []" by (rule cache_inv_cong [OF ex_mnt_ok(1)]) (simp_all add: ex_old_def)
  show "super_dirty (sfs (fsdata ex_old))" by (simp add: ex_old_def)
  show "fs_ok (fs_view ex_old)" by (auto simp: fs_ok_def dev_ok_def fs_view_def ex_old_def ex_mnt_def ex_fs_def)
  show one: "map_blocks (fs_view ex_old) = 1"
    by (simp add: map_blocks_def sfs_freemap_blocks_def ROUNDUP_DIV_def u32_def fs_view_def ex_old_def ex_mnt_def ex_fs_def)
  have "bitmap_ok (freemap (fs_view ex_old))" unfolding bitmap_ok_def ex_old_free by (simp add: fs_view_def ex_old_def)
  then show "map_fits (fs_view ex_old)" unfolding map_fits_def one ex_old_free
    by (simp add: fs_view_def ex_old_def ex_mnt_def ex_fs_def)
qed

theorem mount_after_sync_witness:
  "\<exists>v1. sfs_sync ex_old = Some (0, v1) \<and> sfs_unmount v1 = Some (0, v1) \<and>
     (let w = upd_mnt (\<lambda>d. d\<lparr>sfs := ex_fs\<lparr>dimage := dimage (fs_view v1)\<rparr>\<rparr>) ex_mnt in
      \<exists>w'. sfs_do_mount ex_mount_env SFS_BLKSIZE w = Some (0, Some 3, w') \<and> freemap (fs_view w') = freemap (fs_view ex_old))"
proof -
  let ?w = "\<lambda>i. upd_mnt (\<lambda>d. d\<lparr>sfs := ex_fs\<lparr>dimage := i\<rparr>\<rparr>) ex_mnt"
  have at: "freemap_at (fs_view ex_old) = 50000" "disk0_buffer (fs_view ex_old) = 0" "blocks (fs_view ex_old) = 8"
    by (simp_all add: fs_view_def ex_old_def ex_mnt_def ex_fs_def)
  have can: "mountable ex_mount_env 20000 60000 (fs_view ex_old) (fs_view (?w i))" for i
    unfolding mountable_def ex_old_ok(5) at by (auto simp: dev_ok_def fs_view_def ex_mount_env_def) (auto simp: ex_fs_def)
  have dis: "map_region (freemap_at (fs_view ex_old)) (fs_view ex_old) \<inter> region (disk0_buffer (fs_view ex_old)) DISK0_BUFSIZE = {}"
    unfolding ex_old_ok(5) at by auto
  have "m_fs ex_mount_env = Some 3" by (simp add: ex_mount_env_def)
  note again = mount_after_sync [OF ex_old_ok(1-4) dis this can]
  obtain v1 where v1: "sfs_sync ex_old = Some (0, v1)" "sfs_unmount v1 = Some (0, v1)"
    using again [of "\<lambda>_. 0"] by blast
  have "dimage (fs_view (?w (dimage (fs_view v1)))) = dimage (fs_view v1)" by (simp add: fs_view_def)
  then have "\<exists>w'. sfs_do_mount ex_mount_env SFS_BLKSIZE (?w (dimage (fs_view v1))) = Some (0, Some 3, w') \<and>
      freemap (fs_view w') = freemap (fs_view ex_old)"
    using again [of "dimage (fs_view v1)"] v1 by auto
  then show ?thesis using v1 by (auto simp: Let_def)
qed

end
