(* ===== verification/Ring.thy ===== *)
theory Ring
  imports Main
begin

text \<open>
  The ring a set of addresses forms when each points to the next higher one and the highest to the lowest: the shape of a free list that is
  searched from any of its elements on.
\<close>

definition csucc :: "nat set \<Rightarrow> nat \<Rightarrow> nat" where
  "csucc B a = (if \<exists>x\<in>B. a < x then Min {x \<in> B. a < x} else Min B)"

lemma csucc_eq:
  assumes "finite B" "B \<noteq> {}"
  shows "csucc B a = c \<longleftrightarrow> c \<in> B \<and> ((a < c \<and> (\<forall>x\<in>B. a < x \<longrightarrow> c \<le> x)) \<or> ((\<forall>x\<in>B. x \<le> a) \<and> (\<forall>x\<in>B. c \<le> x)))"
proof (cases "\<exists>x\<in>B. a < x")
  case True
  then have "Min {x \<in> B. a < x} = c \<longleftrightarrow> c \<in> {x \<in> B. a < x} \<and> (\<forall>x\<in>{x \<in> B. a < x}. c \<le> x)"
    using assms by (intro Min_eq_iff) auto
  then show ?thesis using True by (auto simp: csucc_def)
next
  case False
  then show ?thesis using Min_eq_iff [OF assms, of c] by (auto simp: csucc_def not_less)
qed

lemma csucc_in: "finite B \<Longrightarrow> B \<noteq> {} \<Longrightarrow> csucc B a \<in> B"
  using csucc_eq [of B a "csucc B a"] by blast

text \<open>Induction along the ring up to the element \<open>f\<close>.\<close>

definition ahead :: "nat set \<Rightarrow> nat \<Rightarrow> nat \<Rightarrow> nat set" where
  "ahead B f a = {x \<in> B. if a \<le> f then a \<le> x \<and> x < f else a \<le> x \<or> x < f}"

lemma ahead_step:
  assumes "finite B" "f \<in> B" "a \<in> B" "a \<noteq> f"
  shows "ahead B f a = insert a (ahead B f (csucc B a))" "a \<notin> ahead B f (csucc B a)"
proof -
  let ?c = "csucc B a"
  have c: "?c \<in> B" "(a < ?c \<and> (\<forall>x\<in>B. a < x \<longrightarrow> ?c \<le> x)) \<or> ((\<forall>x\<in>B. x \<le> a) \<and> (\<forall>x\<in>B. ?c \<le> x))"
    using csucc_eq [of B a ?c] assms by auto
  from c(2) show "ahead B f a = insert a (ahead B f ?c)"
  proof
    assume u: "a < ?c \<and> (\<forall>x\<in>B. a < x \<longrightarrow> ?c \<le> x)"
    show ?thesis
    proof (rule set_eqI)
      show "x \<in> ahead B f a \<longleftrightarrow> x \<in> insert a (ahead B f ?c)" for x
        using conjunct1 [OF u] bspec [OF conjunct2 [OF u], of x] bspec [OF conjunct2 [OF u], of f] assms(2-4) c(1)
        by (cases "x \<in> B") (auto simp: ahead_def)
    qed
  next
    assume w: "(\<forall>x\<in>B. x \<le> a) \<and> (\<forall>x\<in>B. ?c \<le> x)"
    then have "f < a" "?c \<le> f" using assms(2,4) by (auto simp: order_less_le)
    then show ?thesis using w assms(3) by (auto simp: ahead_def)
  qed
  from c(2) show "a \<notin> ahead B f ?c"
  proof
    assume "a < ?c \<and> (\<forall>x\<in>B. a < x \<longrightarrow> ?c \<le> x)"
    then show ?thesis using assms(2,4) by (auto simp: ahead_def not_less order_less_le)
  next
    assume "(\<forall>x\<in>B. x \<le> a) \<and> (\<forall>x\<in>B. ?c \<le> x)"
    then show ?thesis using assms(2) by (auto simp: ahead_def)
  qed
qed

lemma ring_induct [consumes 3, case_names step]:
  assumes "finite B" "f \<in> B" "a \<in> B"
    and step: "\<And>a. a \<in> B \<Longrightarrow> (a \<noteq> f \<Longrightarrow> P (csucc B a)) \<Longrightarrow> P a"
  shows "P a"
  using assms(3)
proof (induction "card (ahead B f a)" arbitrary: a rule: less_induct)
  case less
  show ?case
  proof (rule step [OF less.prems])
    assume "a \<noteq> f"
    note st = ahead_step [OF assms(1,2) less.prems this]
    have "finite (ahead B f (csucc B a))" using assms(1) by (simp add: ahead_def)
    then have "card (ahead B f (csucc B a)) < card (ahead B f a)" using st by simp
    moreover have "csucc B a \<in> B" using csucc_in assms(1,2) by blast
    ultimately show "P (csucc B a)" by (rule less.hyps)
  qed
qed

lemma ahead_all:
  assumes "finite B" "f \<in> B"
  shows "insert f (ahead B f (csucc B f)) = B"
proof -
  let ?c = "csucc B f"
  have "?c \<in> B" "(f < ?c \<and> (\<forall>x\<in>B. f < x \<longrightarrow> ?c \<le> x)) \<or> ((\<forall>x\<in>B. x \<le> f) \<and> (\<forall>x\<in>B. ?c \<le> x))"
    using csucc_eq [of B f ?c] assms by auto
  then show ?thesis using assms(2) by (auto simp: ahead_def order_less_le)
qed

text \<open>Entering and leaving the ring.\<close>

lemma csucc_insert:
  assumes "finite B" "a \<in> B" "b \<notin> B"
  shows "csucc (insert b B) a = (if (a < b \<and> b < csucc B a) \<or> (csucc B a \<le> a \<and> (a < b \<or> b < csucc B a)) then b else csucc B a)"
proof -
  let ?c = "csucc B a"
  have c: "?c \<in> B" "(a < ?c \<and> (\<forall>x\<in>B. a < x \<longrightarrow> ?c \<le> x)) \<or> ((\<forall>x\<in>B. x \<le> a) \<and> (\<forall>x\<in>B. ?c \<le> x))"
    using csucc_eq [of B a ?c] assms by auto
  have ne: "b \<noteq> a" "b \<noteq> ?c" using assms c(1) by auto
  show ?thesis
  proof (cases "(a < b \<and> b < ?c) \<or> (?c \<le> a \<and> (a < b \<or> b < ?c))")
    case True
    then have "csucc (insert b B) a = b" using c ne assms by (subst csucc_eq) auto
    then show ?thesis using True by simp
  next
    case False
    then have "csucc (insert b B) a = ?c" using c ne assms by (subst csucc_eq) auto
    then show ?thesis unfolding if_not_P [OF False] .
  qed
qed

lemma csucc_insert_new:
  assumes "finite B" "a \<in> B" "b \<notin> B" "csucc (insert b B) a = b"
  shows "csucc (insert b B) b = csucc B a"
proof -
  let ?c = "csucc B a"
  have c: "?c \<in> B" "(a < ?c \<and> (\<forall>x\<in>B. a < x \<longrightarrow> ?c \<le> x)) \<or> ((\<forall>x\<in>B. x \<le> a) \<and> (\<forall>x\<in>B. ?c \<le> x))"
    using csucc_eq [of B a ?c] assms by auto
  have b: "(a < b \<and> b < ?c) \<or> (?c \<le> a \<and> (a < b \<or> b < ?c))"
  proof (rule ccontr)
    assume n: "\<not> ?thesis"
    have "b = ?c" using csucc_insert [OF assms(1-3)] unfolding if_not_P [OF n] assms(4) .
    then show False using c(1) assms(3) by simp
  qed
  show ?thesis using b c assms(1,2) by (subst csucc_eq) auto
qed

lemma csucc_insert_other:
  assumes "finite B" "a \<in> B" "b \<notin> B" "csucc (insert b B) a = b" "x \<in> B" "x \<noteq> a"
  shows "csucc (insert b B) x = csucc B x"
proof (rule ccontr)
  assume "csucc (insert b B) x \<noteq> csucc B x"
  then have x: "(x < b \<and> b < csucc B x) \<or> (csucc B x \<le> x \<and> (x < b \<or> b < csucc B x))"
    using csucc_insert [OF assms(1,5,3)] by presburger
  have a: "(a < b \<and> b < csucc B a) \<or> (csucc B a \<le> a \<and> (a < b \<or> b < csucc B a))"
    using csucc_insert [OF assms(1,2,3)] assms(4) csucc_in [OF assms(1), of a] assms(2,3) by (metis empty_iff)
  have ca: "(a < csucc B a \<and> (\<forall>x\<in>B. a < x \<longrightarrow> csucc B a \<le> x)) \<or> ((\<forall>x\<in>B. x \<le> a) \<and> (\<forall>x\<in>B. csucc B a \<le> x))"
    using csucc_eq [of B a "csucc B a"] assms by auto
  have cx: "(x < csucc B x \<and> (\<forall>y\<in>B. x < y \<longrightarrow> csucc B x \<le> y)) \<or> ((\<forall>y\<in>B. y \<le> x) \<and> (\<forall>y\<in>B. csucc B x \<le> y))"
    using csucc_eq [of B x "csucc B x"] assms by auto
  have "csucc B a \<in> B" "csucc B x \<in> B" using csucc_in assms by blast+
  then show False using x a ca cx assms(2,5,6) by (smt (verit) linorder_neqE_nat not_less order_less_trans order.trans)
qed

lemma csucc_stop:
  assumes "finite B" "a \<in> B" "b \<notin> B"
  shows "csucc (insert b B) a = b \<longleftrightarrow> (a < b \<and> b < csucc B a) \<or> (csucc B a \<le> a \<and> (a < b \<or> b < csucc B a))"
  using csucc_insert [OF assms] csucc_in [OF assms(1), of a] assms(2,3) by (metis empty_iff)

text \<open>The place of a new element is on the way to every element of the ring.\<close>

lemma gap_exists:
  assumes "finite B" "B \<noteq> {}" "b \<notin> B"
  obtains a where "a \<in> B" "csucc (insert b B) a = b"
proof (cases "\<exists>x\<in>B. x < b")
  case True
  let ?a = "Max {x \<in> B. x < b}"
  have fin: "finite {x \<in> B. x < b}" "{x \<in> B. x < b} \<noteq> {}" using True assms(1) by auto
  note a = Max_in [OF fin] Max_ge [OF fin(1)]
  have "csucc (insert b B) ?a = b" using a assms by (subst csucc_eq) (fastforce simp: not_less)+
  then show ?thesis using that a(1) by blast
next
  case False
  have a: "Max B \<in> B" "\<And>x. x \<in> B \<Longrightarrow> x \<le> Max B" using assms by auto
  then have "csucc (insert b B) (Max B) = b" using False assms by (subst csucc_eq) (auto simp: not_less)
  then show ?thesis using that a(1) by blast
qed

lemma csucc_remove:
  assumes "finite B" "a \<in> B" "c \<in> B" "a \<noteq> c"
  shows "csucc (B - {c}) a = (if csucc B a = c then csucc B c else csucc B a)"
proof -
  let ?B = "B - {c}"
  have fin: "finite ?B" "a \<in> ?B" "c \<notin> ?B" "insert c ?B = B" using assms by auto
  show ?thesis
  proof (cases "csucc B a = c")
    case True
    then show ?thesis using csucc_insert_new [OF fin(1-3)] fin(4) by simp
  next
    case False
    then show ?thesis using csucc_insert [OF fin(1-3)] fin(4) by (auto split: if_splits)
  qed
qed

lemma csucc_inj:
  assumes "finite B" "a \<in> B" "c \<in> B" "csucc B a = csucc B c"
  shows "a = c"
proof -
  let ?n = "csucc B a"
  have a: "(a < ?n \<and> (\<forall>x\<in>B. a < x \<longrightarrow> ?n \<le> x)) \<or> ((\<forall>x\<in>B. x \<le> a) \<and> (\<forall>x\<in>B. ?n \<le> x))"
    using csucc_eq [of B a ?n] assms by auto
  have c: "(c < ?n \<and> (\<forall>x\<in>B. c < x \<longrightarrow> ?n \<le> x)) \<or> ((\<forall>x\<in>B. x \<le> c) \<and> (\<forall>x\<in>B. ?n \<le> x))"
    using csucc_eq [of B c ?n] assms by auto
  show ?thesis using bspec [of B _ a] bspec [of B _ c] a c assms(2,3) by (meson antisym not_le order_less_le_trans)
qed

section \<open>Rings of blocks\<close>

text \<open>A block reaches from its address \<open>a\<close> to \<open>e a\<close>; \<open>nx\<close> are the links.\<close>

definition ring :: "(nat \<Rightarrow> nat) \<Rightarrow> (nat \<Rightarrow> nat) \<Rightarrow> nat set \<Rightarrow> bool" where
  "ring nx e B \<longleftrightarrow> finite B \<and> (\<forall>a\<in>B. nx a = csucc B a \<and> a < e a) \<and> (\<forall>a\<in>B. \<forall>b\<in>B. a < b \<longrightarrow> e a \<le> b)"

definition bytes :: "(nat \<Rightarrow> nat) \<Rightarrow> nat set \<Rightarrow> nat set" where
  "bytes e B = (\<Union>a\<in>B. {a ..< e a})"

lemma ring_cong:
  "(\<And>a. a \<in> B \<Longrightarrow> nx a = nx' a) \<Longrightarrow> (\<And>a. a \<in> B \<Longrightarrow> e a = e' a) \<Longrightarrow> ring nx e B = ring nx' e' B"
  by (auto simp: ring_def)

lemma bytes_cong: "(\<And>a. a \<in> B \<Longrightarrow> e a = e' a) \<Longrightarrow> bytes e B = bytes e' B"
  by (auto simp: bytes_def)

lemma bytes_insert: "bytes e (insert a B) = {a ..< e a} \<union> bytes e B"
  by (simp add: bytes_def)

lemma ring_finite: "ring nx e B \<Longrightarrow> finite B"
  by (simp add: ring_def)

lemma ring_succ: "ring nx e B \<Longrightarrow> a \<in> B \<Longrightarrow> nx a = csucc B a"
  by (simp add: ring_def)

lemma ring_next_in: "ring nx e B \<Longrightarrow> a \<in> B \<Longrightarrow> nx a \<in> B"
  using csucc_in [of B a] by (auto simp: ring_def)

lemma ring_insert:
  assumes r: "ring nx e B" and c: "cur \<in> B" "b \<notin> B" "csucc (insert b B) cur = b" and b: "b < e b"
    and apart: "\<And>a. a \<in> B \<Longrightarrow> e a \<le> b \<or> e b \<le> a"
  shows "ring (nx(b := nx cur, cur := b)) e (insert b B)" "bytes e (insert b B) = bytes e B \<union> {b ..< e b}"
proof -
  have fin: "finite B" using r by (simp add: ring_def)
  have nb: "b \<noteq> cur" using c by auto
  have ends: "a < e a" if "a \<in> B" for a using r that by (simp add: ring_def)
  have nxt: "(nx(b := nx cur, cur := b)) a = csucc (insert b B) a" if "a \<in> insert b B" for a
  proof -
    consider "a = b" | "a = cur" | "a \<in> B" "a \<noteq> cur" "a \<noteq> b" using \<open>a \<in> insert b B\<close> by blast
    then show ?thesis
    proof cases
      case 1
      then show ?thesis using csucc_insert_new [OF fin c] ring_succ [OF r c(1)] nb by simp
    next
      case 2
      then show ?thesis using c(3) by simp
    next
      case 3
      then show ?thesis using csucc_insert_other [OF fin c 3(1,2)] ring_succ [OF r 3(1)] by simp
    qed
  qed
  have "e x \<le> y" if "x \<in> insert b B" "y \<in> insert b B" "x < y" for x y
    using that r apart [of x] apart [of y] ends b unfolding ring_def by fastforce
  then show "ring (nx(b := nx cur, cur := b)) e (insert b B)" unfolding ring_def using fin nxt ends b by (auto simp: less_imp_le)
  show "bytes e (insert b B) = bytes e B \<union> {b ..< e b}" by (auto simp: bytes_def)
qed

lemma ring_remove:
  assumes r: "ring nx e B" and p: "prev \<in> B" "prev \<noteq> cur" "nx prev = cur"
  shows "ring (nx(prev := nx cur)) e (B - {cur})" "bytes e (B - {cur}) = bytes e B - {cur ..< e cur}"
proof -
  have fin: "finite B" using r by (simp add: ring_def)
  have cur: "cur \<in> B" using ring_next_in [OF r p(1)] p(3) by simp
  have "(nx(prev := nx cur)) a = csucc (B - {cur}) a" if "a \<in> B - {cur}" for a
  proof (cases "a = prev")
    case True
    then show ?thesis using csucc_remove [OF fin p(1) cur p(2)] ring_succ [OF r] p cur by simp
  next
    case False
    have "csucc B a \<noteq> cur" using csucc_inj [OF fin, of a prev] False that p ring_succ [OF r p(1)] by auto
    then show ?thesis using csucc_remove [OF fin _ cur, of a] ring_succ [OF r, of a] False that by simp
  qed
  then show "ring (nx(prev := nx cur)) e (B - {cur})" using r by (auto simp: ring_def)
  have "x \<notin> {cur ..< e cur}" if "a \<in> B - {cur}" "x \<in> {a ..< e a}" for a x
    using r cur that unfolding ring_def by (cases "a < cur") fastforce+
  then show "bytes e (B - {cur}) = bytes e B - {cur ..< e cur}" by (auto simp: bytes_def)
qed

lemma ring_merge:
  assumes r: "ring nx e B" and a: "a \<in> B" "c \<in> B" "e a = c"
  shows "nx a = c" "ring (nx(a := nx c)) (e(a := e c)) (B - {c})" "bytes (e(a := e c)) (B - {c}) = bytes e B"
proof -
  have fin: "finite B" and less: "a < c" using r a by (auto simp: ring_def)
  have "csucc B a = c" using r a less fin by (subst csucc_eq) (auto simp: ring_def)
  then show na: "nx a = c" using ring_succ [OF r a(1)] by simp
  have r2: "ring (nx(a := nx c)) e (B - {c})" and b2: "bytes e (B - {c}) = bytes e B - {c ..< e c}"
    using ring_remove [OF r a(1) _ na] less by auto
  have c: "c < e c" "\<And>x. x \<in> B \<Longrightarrow> c < x \<Longrightarrow> e c \<le> x" using r a(2) by (auto simp: ring_def)
  have far: "e c \<le> x" if "x \<in> B - {c}" "a < x" for x
    using r a that c(2) [of x] unfolding ring_def by fastforce
  show "ring (nx(a := nx c)) (e(a := e c)) (B - {c})" unfolding ring_def
  proof (intro conjI ballI impI)
    show "finite (B - {c})" using fin by simp
    show "(nx(a := nx c)) x = csucc (B - {c}) x" "x < (e(a := e c)) x" if "x \<in> B - {c}" for x
      using r2 that less c(1) by (auto simp: ring_def)
    show "(e(a := e c)) x \<le> y" if "x \<in> B - {c}" "y \<in> B - {c}" "x < y" for x y
      using r2 that far [of y] by (auto simp: ring_def)
  qed
  have "bytes e B = bytes e (B - {c}) \<union> {c ..< e c}" using a(2) by (auto simp: bytes_def)
  moreover have "bytes (e(a := e c)) (B - {c}) = bytes e (B - {c}) \<union> {c ..< e c}"
  proof -
    have i: "B - {c} = insert a (B - {a, c})" using a less by auto
    have j: "{a ..< e c} = {a ..< c} \<union> {c ..< e c}" using less c(1) by auto
    have "bytes (e(a := e c)) (B - {a, c}) = bytes e (B - {a, c})" by (rule bytes_cong) simp
    then show ?thesis unfolding i bytes_insert using a(3) j by auto
  qed
  ultimately show "bytes (e(a := e c)) (B - {c}) = bytes e B" by simp
qed

text \<open>The front part of the block \<open>cur\<close> is cut off at \<open>r\<close>.\<close>

lemma ring_shorten:
  assumes g: "ring nx e B" and p: "prev \<in> B" "prev \<noteq> cur" "nx prev = cur" and r: "cur < r" "r < e cur"
  shows "ring (nx(prev := r, r := nx cur)) (e(r := e cur)) (insert r (B - {cur}))"
    "bytes (e(r := e cur)) (insert r (B - {cur})) = bytes e B - {cur ..< r}" "r \<notin> B"
proof -
  note rem = ring_remove [OF g p]
  have fin: "finite B" using g by (simp add: ring_def)
  have cur: "cur \<in> B" using ring_next_in [OF g p(1)] p(3) by simp
  have far: "x < cur \<and> e x \<le> cur \<or> e cur \<le> x" if "x \<in> B" "x \<noteq> cur" for x
    using g cur that unfolding ring_def by (metis linorder_neqE_nat)
  show nr: "r \<notin> B" using far [of r] r by auto
  have pn: "prev < cur \<and> (\<forall>x\<in>B. prev < x \<longrightarrow> cur \<le> x) \<or> (\<forall>x\<in>B. x \<le> prev) \<and> (\<forall>x\<in>B. cur \<le> x)"
    using csucc_eq [of B prev cur] ring_succ [OF g p(1)] p fin by auto
  have gap: "csucc (insert r (B - {cur})) prev = r"
  proof (subst csucc_eq)
    show "r \<in> insert r (B - {cur}) \<and> (prev < r \<and> (\<forall>x\<in>insert r (B - {cur}). prev < x \<longrightarrow> r \<le> x) \<or>
        (\<forall>x\<in>insert r (B - {cur}). x \<le> prev) \<and> (\<forall>x\<in>insert r (B - {cur}). r \<le> x))"
      using pn far p(1,2) r by (smt (verit) Diff_iff insert_iff not_less order.strict_trans1 order_less_imp_le order_less_le)
  qed (use fin in auto)
  have rem2: "ring (nx(prev := nx cur)) (e(r := e cur)) (B - {cur})"
    using rem(1) nr by (subst ring_cong [where nx' = "nx(prev := nx cur)" and e' = e]) auto
  have ap: "(e(r := e cur)) a \<le> r \<or> (e(r := e cur)) r \<le> a" if "a \<in> B - {cur}" for a using far [of a] that r nr by fastforce
  have ins: "ring ((nx(prev := nx cur))(r := (nx(prev := nx cur)) prev, prev := r)) (e(r := e cur)) (insert r (B - {cur}))"
      "bytes (e(r := e cur)) (insert r (B - {cur})) = bytes (e(r := e cur)) (B - {cur}) \<union> {r ..< (e(r := e cur)) r}"
    by (rule ring_insert [OF rem2 _ _ gap _ ap]; use p nr r in simp)+
  have "prev \<noteq> r" using nr p(1) by auto
  then show "ring (nx(prev := r, r := nx cur)) (e(r := e cur)) (insert r (B - {cur}))" using ins(1) by (simp add: fun_upd_twist)
  have "bytes (e(r := e cur)) (B - {cur}) = bytes e (B - {cur})" by (rule bytes_cong) (use nr in auto)
  then have "bytes (e(r := e cur)) (insert r (B - {cur})) = (bytes e B - {cur ..< e cur}) \<union> {r ..< e cur}" using ins(2) rem(2) by simp
  moreover have "{cur ..< e cur} \<subseteq> bytes e B" using cur by (auto simp: bytes_def)
  ultimately show "bytes (e(r := e cur)) (insert r (B - {cur})) = bytes e B - {cur ..< r}" using r by auto
qed

section \<open>Entering a block and joining it with its neighbours\<close>

text \<open>
  The block \<open>b\<close> is entered behind \<open>cur\<close>; it is joined with the next block when it reaches to it, and with \<open>cur\<close> when that reaches to \<open>b\<close>.
\<close>

definition joined_end :: "(nat \<Rightarrow> nat) \<Rightarrow> (nat \<Rightarrow> nat) \<Rightarrow> nat \<Rightarrow> nat \<Rightarrow> nat" where
  "joined_end nx e b cur = (if e b = nx cur then e (nx cur) else e b)"

definition joined_next :: "(nat \<Rightarrow> nat) \<Rightarrow> (nat \<Rightarrow> nat) \<Rightarrow> nat \<Rightarrow> nat \<Rightarrow> nat" where
  "joined_next nx e b cur = (if e b = nx cur then nx (nx cur) else nx cur)"

definition link_end :: "(nat \<Rightarrow> nat) \<Rightarrow> (nat \<Rightarrow> nat) \<Rightarrow> nat \<Rightarrow> nat \<Rightarrow> nat \<Rightarrow> nat" where
  "link_end nx e b cur = e(b := joined_end nx e b cur, cur := if e cur = b then joined_end nx e b cur else e cur)"

definition link_next :: "(nat \<Rightarrow> nat) \<Rightarrow> (nat \<Rightarrow> nat) \<Rightarrow> nat \<Rightarrow> nat \<Rightarrow> nat \<Rightarrow> nat" where
  "link_next nx e b cur = nx(b := joined_next nx e b cur, cur := if e cur = b then joined_next nx e b cur else b)"

definition link_set :: "(nat \<Rightarrow> nat) \<Rightarrow> (nat \<Rightarrow> nat) \<Rightarrow> nat set \<Rightarrow> nat \<Rightarrow> nat \<Rightarrow> nat set" where
  "link_set nx e B b cur = insert b B - (if e b = nx cur then {nx cur} else {}) - (if e cur = b then {b} else {})"

lemma gap_around:
  assumes r: "ring nx e B" and c: "cur \<in> B" "b \<notin> B" "csucc (insert b B) cur = b" "cur < b" and x: "x \<in> B"
  shows "x < b \<Longrightarrow> x \<le> cur" "b < x \<Longrightarrow> b < nx cur \<and> nx cur \<le> x"
proof -
  have fin: "finite B" and ne: "B \<noteq> {}" using r c by (auto dest: ring_finite)
  have below: "y \<le> cur" if "y \<in> B" "y < b" for y using c(3,4) csucc_eq [of "insert b B" cur b] fin that by auto
  then show "x < b \<Longrightarrow> x \<le> cur" using x by blast
  assume b: "b < x"
  have n: "nx cur \<in> B" "(cur < nx cur \<and> (\<forall>x\<in>B. cur < x \<longrightarrow> nx cur \<le> x)) \<or> (\<forall>x\<in>B. x \<le> cur)"
    using csucc_eq [OF fin ne, of cur "nx cur"] ring_succ [OF r c(1)] by auto
  moreover have "\<not> x \<le> cur" using b c(4) by simp
  ultimately have "cur < nx cur" "nx cur \<le> x" using x b c(4) by auto
  then show "b < nx cur \<and> nx cur \<le> x" using below [OF n(1)] n(1) c(2) by (metis leD linorder_neqE_nat)
qed

lemma link_ring:
  assumes r: "ring nx e B" and c: "cur \<in> B" "b \<notin> B" "csucc (insert b B) cur = b" "cur < b" and b: "b < e b"
    and apart: "\<And>a. a \<in> B \<Longrightarrow> e a \<le> b \<or> e b \<le> a"
  shows "ring (link_next nx e b cur) (link_end nx e b cur) (link_set nx e B b cur)"
    "bytes (link_end nx e b cur) (link_set nx e B b cur) = bytes e B \<union> {b ..< e b}"
proof -
  let ?nn = "nx cur" and ?nb = "joined_next nx e b cur" and ?eb = "joined_end nx e b cur"
  define B2 where "B2 = insert b B - (if e b = ?nn then {?nn} else {})"
  note ins = ring_insert [OF r c(1-3) b apart]
  have bn: "b \<noteq> ?nn" "b \<noteq> cur" "?nn \<in> B" using ring_next_in [OF r c(1)] c by auto
  have two: "ring (nx(cur := b, b := ?nb)) (e(b := ?eb)) B2" "bytes (e(b := ?eb)) B2 = bytes e B \<union> {b ..< e b}"
  proof (atomize (full), cases "e b = ?nn")
    case True
    then have "?nn \<noteq> cur" using c(4) b by auto
    with ring_merge [OF ins(1), of b ?nn] True ins(2) bn
    show "ring (nx(cur := b, b := ?nb)) (e(b := ?eb)) B2 \<and> bytes (e(b := ?eb)) B2 = bytes e B \<union> {b ..< e b}"
      by (simp add: joined_next_def joined_end_def B2_def fun_upd_twist)
  next
    case False
    then show "ring (nx(cur := b, b := ?nb)) (e(b := ?eb)) B2 \<and> bytes (e(b := ?eb)) B2 = bytes e B \<union> {b ..< e b}"
      using ins bn by (simp add: joined_next_def joined_end_def B2_def fun_upd_twist)
  qed
  have cB2: "cur \<in> B2" "b \<in> B2" using c b bn by (auto simp: B2_def)
  show "ring (link_next nx e b cur) (link_end nx e b cur) (link_set nx e B b cur)"
    "bytes (link_end nx e b cur) (link_set nx e B b cur) = bytes e B \<union> {b ..< e b}"
  proof (atomize (full), cases "e cur = b")
    case True
    with ring_merge [OF two(1), of cur b] cB2 two(2) bn
    show "ring (link_next nx e b cur) (link_end nx e b cur) (link_set nx e B b cur) \<and>
        bytes (link_end nx e b cur) (link_set nx e B b cur) = bytes e B \<union> {b ..< e b}"
      by (simp add: link_next_def link_end_def link_set_def B2_def fun_upd_twist)
  next
    case False
    have "(e(b := ?eb))(cur := e cur) = e(b := ?eb)" using bn by auto
    with False show "ring (link_next nx e b cur) (link_end nx e b cur) (link_set nx e B b cur) \<and>
        bytes (link_end nx e b cur) (link_set nx e B b cur) = bytes e B \<union> {b ..< e b}"
      using two bn by (simp add: link_next_def link_end_def link_set_def B2_def fun_upd_twist)
  qed
qed

text \<open>When no two blocks touched before, none do afterwards.\<close>

lemma link_apart:
  assumes r: "ring nx e B" and c: "cur \<in> B" "b \<notin> B" "csucc (insert b B) cur = b" "cur < b" and b: "b < e b"
    and apart: "\<And>a. a \<in> B \<Longrightarrow> e a \<le> b \<or> e b \<le> a" and sep: "\<And>x y. x \<in> B \<Longrightarrow> y \<in> B \<Longrightarrow> x < y \<Longrightarrow> e x < y"
    and xy: "x \<in> link_set nx e B b cur" "y \<in> link_set nx e B b cur" "x < y"
  shows "link_end nx e b cur x < y"
proof -
  note around = gap_around [OF r c]
  have in_B: "x \<in> insert b B" "y \<in> insert b B" and bn: "nx cur \<in> B" using xy ring_next_in [OF r c(1)] by (auto simp: link_set_def split: if_splits)
  have big: "joined_end nx e b cur < y" if "b < y"
  proof -
    have y: "y \<in> B" "b < nx cur" "nx cur \<le> y" using that in_B(2) around(2) [of y] by auto
    show ?thesis
    proof (cases "e b = nx cur")
      case True
      then have "y \<noteq> nx cur" using xy(2) by (auto simp: link_set_def split: if_splits)
      then show ?thesis using sep [OF bn y(1)] y(3) True by (simp add: joined_end_def)
    next
      case False
      have "nx cur < e (nx cur)" using r bn by (simp add: ring_def)
      then show ?thesis using False apart [OF bn] y(2,3) by (simp add: joined_end_def)
    qed
  qed
  consider "x = cur" | "x = b" "x \<noteq> cur" | "x \<in> B" "x \<noteq> cur" "x \<noteq> b" using in_B(1) by blast
  then show ?thesis
  proof cases
    case 1
    show ?thesis
    proof (cases "e cur = b")
      case True
      then have "y \<noteq> b" using xy(2) by (auto simp: link_set_def)
      then have "b < y" using around(1) [of y] in_B(2) xy(3) 1 by (cases "y < b") auto
      then show ?thesis using big 1 True by (simp add: link_end_def)
    next
      case False
      then show ?thesis using 1 sep [OF c(1), of y] apart [OF c(1)] in_B(2) xy(3) b c(4) by (cases "y = b") (auto simp: link_end_def)
    qed
  next
    case 2
    then show ?thesis using big xy(3) by (simp add: link_end_def)
  next
    case 3
    have "e x < y"
    proof (cases "y = b")
      case True
      then have "x < cur" using around(1) [OF 3(1)] 3 xy(3) by auto
      then show ?thesis using sep [OF 3(1) c(1)] c(4) True by simp
    qed (use sep [OF 3(1)] in_B(2) xy(3) in auto)
    then show ?thesis using 3 by (simp add: link_end_def)
  qed
qed

end
