(* ===== verification/Kmalloc.thy ===== *)
theory Kmalloc
  imports PageTable Ring
begin

text \<open>
  The kernel heap, \<^verbatim>\<open>kern/mm/kmalloc.c\<close>: the SLOB allocator, a ring of free blocks in ascending order of addresses, and above it
  \<^verbatim>\<open>kmalloc\<close> and \<^verbatim>\<open>kfree\<close>.  An address is the kernel address less the constant offset of the linear mapping, so that page \<open>k\<close> starts at
  \<open>k * 4096\<close>; a block is known by its address, 0 is \<^verbatim>\<open>NULL\<close>.  The headers of the blocks (\<^verbatim>\<open>slob_t\<close>) and the descriptors of the big blocks
  (\<^verbatim>\<open>bigblock_t\<close>) are kept in stores of their own: a descriptor lies in a block that is not free and whose header is written before
  it is read again.  The interrupt flag is not represented.  \<open>None\<close> is a failed assertion or a search that does not end.
\<close>

section \<open>Data\<close>

record slob_block =
  units :: int
  bnext :: nat

record bigblock =
  border :: nat
  bpages :: nat
  bbnext :: nat

record kheap = machine +
  cells :: "nat \<Rightarrow> slob_block"
  bigs :: "nat \<Rightarrow> bigblock"
  slobfree :: nat
  bigblocks :: nat

abbreviation (input) SLOB_UNIT :: nat where "SLOB_UNIT \<equiv> 16"
abbreviation (input) PAGE_SIZE :: nat where "PAGE_SIZE \<equiv> 4096"

definition SLOB_UNITS :: "nat \<Rightarrow> nat" where
  "SLOB_UNITS sz = (sz + SLOB_UNIT - 1) div SLOB_UNIT"

definition ALIGN :: "nat \<Rightarrow> nat \<Rightarrow> nat" where
  "ALIGN addr sz = unat ((word_of_nat (addr + sz - 1) :: 64 word) AND NOT (word_of_nat (sz - 1)))"

definition upd_cell :: "nat \<Rightarrow> (slob_block \<Rightarrow> slob_block) \<Rightarrow> kheap \<Rightarrow> kheap" where
  "upd_cell a f s = s\<lparr>cells := (cells s)(a := f (cells s a))\<rparr>"

definition upd_big :: "nat \<Rightarrow> (bigblock \<Rightarrow> bigblock) \<Rightarrow> kheap \<Rightarrow> kheap" where
  "upd_big a f s = s\<lparr>bigs := (bigs s)(a := f (bigs s a))\<rparr>"

text \<open>The address of \<^verbatim>\<open>p + n\<close> for a pointer to a block and a number of units.\<close>

definition unit_at :: "nat \<Rightarrow> int \<Rightarrow> nat" where
  "unit_at p n = nat (int p + int SLOB_UNIT * n)"

section \<open>Pages\<close>

text \<open>The page allocator works on the machine below the heap.\<close>

definition on_machine :: "machine \<Rightarrow> kheap \<Rightarrow> kheap" where
  "on_machine m s = s\<lparr>pm := pm m, mem := mem m, npage := npage m\<rparr>"

definition slob_get_free_pages :: "nat \<Rightarrow> kheap \<Rightarrow> (nat \<times> kheap) option" where
  "slob_get_free_pages order s = do {
     (r, m) \<leftarrow> alloc_pages (2 ^ order) (machine.truncate s);
     (case r of
        None \<Rightarrow> Some (0, on_machine m s)
      | Some page \<Rightarrow> do { k \<leftarrow> page2kva page m; Some (k * PAGE_SIZE, on_machine m s) })
   }"

definition slob_free_pages :: "nat \<Rightarrow> nat \<Rightarrow> kheap \<Rightarrow> kheap option" where
  "slob_free_pages kva order s = do {
     p \<leftarrow> pa2page (word_of_nat kva) (machine.truncate s);
     m \<leftarrow> free_pages p (2 ^ order) (machine.truncate s);
     Some (on_machine m s)
   }"

section \<open>The blocks\<close>

text \<open>The search for the place of a block: the loop of \<^verbatim>\<open>slob_free\<close>.\<close>

partial_function (option) free_point :: "nat \<Rightarrow> nat \<Rightarrow> kheap \<Rightarrow> nat option" where
  "free_point b cur s =
     (let nn = bnext (cells s cur) in
      if b > cur \<and> b < nn then Some cur
      else if cur \<ge> nn \<and> (b > cur \<or> b < nn) then Some cur
      else free_point b nn s)"

definition slob_link :: "nat \<Rightarrow> nat \<Rightarrow> kheap \<Rightarrow> kheap" where
  "slob_link b cur s =
     (let nn = bnext (cells s cur);
          s = (if unit_at b (units (cells s b)) = nn
               then upd_cell b (\<lambda>c. \<lparr>units = units c + units (cells s nn), bnext = bnext (cells s nn)\<rparr>) s
               else upd_cell b (\<lambda>c. c\<lparr>bnext := nn\<rparr>) s);
          s = (if unit_at cur (units (cells s cur)) = b
               then upd_cell cur (\<lambda>c. \<lparr>units = units c + units (cells s b), bnext = bnext (cells s b)\<rparr>) s
               else upd_cell cur (\<lambda>c. c\<lparr>bnext := b\<rparr>) s)
      in s\<lparr>slobfree := cur\<rparr>)"

definition slob_free :: "nat \<Rightarrow> nat \<Rightarrow> kheap \<Rightarrow> kheap option" where
  "slob_free b sz s =
     (if b = 0 then Some s
      else do {
        let s = (if sz \<noteq> 0 then upd_cell b (\<lambda>c. c\<lparr>units := int (SLOB_UNITS sz)\<rparr>) s else s);
        cur \<leftarrow> free_point b (slobfree s) s;
        Some (slob_link b cur s)
      })"

text \<open>Room is found: the head is split off when the block must be aligned, then the block is unlinked or its front part cut off.\<close>

definition slob_take :: "nat \<Rightarrow> nat \<Rightarrow> int \<Rightarrow> kheap \<Rightarrow> kheap" where
  "slob_take prev cur n s =
     (if units (cells s cur) = n
      then (upd_cell prev (\<lambda>c. c\<lparr>bnext := bnext (cells s cur)\<rparr>) s)\<lparr>slobfree := prev\<rparr>
      else let r = unit_at cur n;
               s = upd_cell prev (\<lambda>c. c\<lparr>bnext := r\<rparr>) s;
               s = upd_cell r (\<lambda>c. c\<lparr>units := units (cells s cur) - n\<rparr>) s;
               s = upd_cell r (\<lambda>c. c\<lparr>bnext := bnext (cells s cur)\<rparr>) s;
               s = upd_cell cur (\<lambda>c. c\<lparr>units := n\<rparr>) s
           in s\<lparr>slobfree := prev\<rparr>)"

definition slob_cut :: "nat \<Rightarrow> nat \<Rightarrow> nat \<Rightarrow> int \<Rightarrow> int \<Rightarrow> kheap \<Rightarrow> nat \<times> kheap" where
  "slob_cut prev cur aligned delta n s =
     (if delta \<noteq> 0
      then let s = upd_cell aligned (\<lambda>c. c\<lparr>units := units (cells s cur) - delta\<rparr>) s;
               s = upd_cell aligned (\<lambda>c. c\<lparr>bnext := bnext (cells s cur)\<rparr>) s;
               s = upd_cell cur (\<lambda>c. \<lparr>units = delta, bnext = aligned\<rparr>) s
           in (aligned, slob_take cur aligned n s)
      else (cur, slob_take prev cur n s))"

text \<open>The loop of \<^verbatim>\<open>slob_alloc\<close>.\<close>

partial_function (option) slob_search :: "nat \<Rightarrow> int \<Rightarrow> nat \<Rightarrow> nat \<Rightarrow> nat \<Rightarrow> kheap \<Rightarrow> (nat \<times> kheap) option" where
  "slob_search sz n align prev cur s =
     (let aligned = (if align \<noteq> 0 then ALIGN cur align else 0);
          delta = (if align \<noteq> 0 then (int aligned - int cur) div int SLOB_UNIT else 0) in
      if units (cells s cur) \<ge> n + delta then Some (slob_cut prev cur aligned delta n s)
      else if cur = slobfree s
      then (if sz = PAGE_SIZE then Some (0, s)
            else do {
              (page, s) \<leftarrow> slob_get_free_pages 0 s;
              (if page = 0 then Some (0, s)
               else do {
                 s \<leftarrow> slob_free page PAGE_SIZE s;
                 slob_search sz n align (slobfree s) (bnext (cells s (slobfree s))) s
               })
            })
      else slob_search sz n align cur (bnext (cells s cur)) s)"

definition slob_alloc :: "nat \<Rightarrow> nat \<Rightarrow> kheap \<Rightarrow> (nat \<times> kheap) option" where
  "slob_alloc sz align s = do {
     kassert (sz + SLOB_UNIT < PAGE_SIZE);
     slob_search sz (int (SLOB_UNITS sz)) align (slobfree s) (bnext (cells s (slobfree s))) s
   }"

section \<open>kmalloc and kfree\<close>

text \<open>The parameter of \<^verbatim>\<open>find_order\<close> is an \<^verbatim>\<open>int\<close>.\<close>

definition s32 :: "nat \<Rightarrow> int" where
  "s32 x = (int x + 2 ^ 31) mod 2 ^ 32 - 2 ^ 31"

function find_order :: "int \<Rightarrow> nat" where
  "find_order sz = (if sz > 4096 then 1 + find_order (sz div 2) else 0)"
  by auto

termination
  by (relation "measure nat") auto

declare find_order.simps [simp del]

definition kmalloc :: "nat \<Rightarrow> kheap \<Rightarrow> (nat \<times> kheap) option" where
  "kmalloc sz s =
     (if sz < PAGE_SIZE - SLOB_UNIT
      then do { (m, s) \<leftarrow> slob_alloc (sz + SLOB_UNIT) 0 s; Some (if m \<noteq> 0 then m + SLOB_UNIT else 0, s) }
      else do {
        (bb, s) \<leftarrow> slob_alloc 24 0 s;
        (if bb = 0 then Some (0, s)
         else do {
           let order = find_order (s32 sz);
           let s = upd_big bb (\<lambda>b. b\<lparr>border := order\<rparr>) s;
           (pg, s) \<leftarrow> slob_get_free_pages order s;
           let s = upd_big bb (\<lambda>b. b\<lparr>bpages := pg\<rparr>) s;
           (if pg \<noteq> 0
            then Some (pg, (upd_big bb (\<lambda>b. b\<lparr>bbnext := bigblocks s\<rparr>) s)\<lparr>bigblocks := bb\<rparr>)
            else do { s \<leftarrow> slob_free bb 24 s; Some (0, s) })
         })
      })"

text \<open>The walk over the big blocks; \<open>lst\<close> is the descriptor whose link leads to \<open>bb\<close>, 0 for the head.\<close>

partial_function (option) big_search :: "nat \<Rightarrow> nat \<Rightarrow> nat \<Rightarrow> kheap \<Rightarrow> (nat \<times> nat) option option" where
  "big_search blk lst bb s =
     (if bb = 0 then Some None
      else if bpages (bigs s bb) = blk then Some (Some (lst, bb))
      else big_search blk bb (bbnext (bigs s bb)) s)"

definition kfree :: "nat \<Rightarrow> kheap \<Rightarrow> kheap option" where
  "kfree blk s =
     (if blk = 0 then Some s
      else do {
        found \<leftarrow> (if blk mod PAGE_SIZE = 0 then big_search blk 0 (bigblocks s) s else Some None);
        (case found of
           Some (lst, bb) \<Rightarrow> do {
             let nn = bbnext (bigs s bb);
             let s = (if lst = 0 then s\<lparr>bigblocks := nn\<rparr> else upd_big lst (\<lambda>b. b\<lparr>bbnext := nn\<rparr>) s);
             s \<leftarrow> slob_free_pages blk (border (bigs s bb)) s;
             slob_free bb 24 s
           }
         | None \<Rightarrow> slob_free (blk - SLOB_UNIT) 0 s)
      })"

definition ksize :: "nat \<Rightarrow> kheap \<Rightarrow> nat option" where
  "ksize blk s =
     (if blk = 0 then Some 0
      else do {
        found \<leftarrow> (if blk mod PAGE_SIZE = 0 then big_search blk 0 (bigblocks s) s else Some None);
        (case found of
           Some (_, bb) \<Rightarrow> Some (u32 (PAGE_SIZE * 2 ^ border (bigs s bb)))
         | None \<Rightarrow> Some (u32 (nat (units (cells s (blk - SLOB_UNIT)) * int SLOB_UNIT))))
      })"

section \<open>The ring of free blocks\<close>

definition bend :: "kheap \<Rightarrow> nat \<Rightarrow> nat" where
  "bend s a = unit_at a (units (cells s a))"

definition free_bytes :: "kheap \<Rightarrow> nat set \<Rightarrow> nat set" where
  "free_bytes s B = bytes (bend s) B"

text \<open>
  The invariant: the free blocks \<open>B\<close> form a ring in the order of addresses, no two touch, the search pointer is one of them, and the static
  block \<^verbatim>\<open>arena\<close> of one unit is the lowest and stays free.
\<close>

definition heap_ok :: "nat \<Rightarrow> kheap \<Rightarrow> nat set \<Rightarrow> bool" where
  "heap_ok arena s B \<longleftrightarrow> ring (\<lambda>a. bnext (cells s a)) (bend s) B \<and> slobfree s \<in> B \<and> (\<forall>a\<in>B. \<forall>b\<in>B. a < b \<longrightarrow> bend s a < b) \<and>
     arena \<in> B \<and> units (cells s arena) = 1 \<and> 0 < arena \<and> (\<forall>a\<in>B. arena \<le> a)"

lemma unit_at_simps [simp]: "unit_at a 0 = a" "a < unit_at a n \<longleftrightarrow> 0 < n"
  by (auto simp: unit_at_def)

lemma unit_at_add: "0 \<le> m \<Longrightarrow> unit_at (unit_at a m) n = unit_at a (m + n)"
  by (simp add: unit_at_def algebra_simps)

lemma heap_next: "heap_ok arena s B \<Longrightarrow> a \<in> B \<Longrightarrow> bnext (cells s a) = csucc B a"
  unfolding heap_ok_def by (blast dest: ring_succ)

lemma heap_finite: "heap_ok arena s B \<Longrightarrow> finite B"
  by (auto simp: heap_ok_def dest: ring_finite)

lemma heap_cong:
  assumes "\<And>a. a \<in> B \<Longrightarrow> cells s' a = cells s a" "slobfree s' = slobfree s"
  shows "heap_ok arena s' B = heap_ok arena s B" "free_bytes s' B = free_bytes s B"
proof -
  have e: "bend s' a = bend s a" if "a \<in> B" for a using assms(1) [OF that] by (simp add: bend_def)
  have "ring (\<lambda>a. bnext (cells s' a)) (bend s') B = ring (\<lambda>a. bnext (cells s a)) (bend s) B"
    by (rule ring_cong) (use assms(1) e in simp_all)
  then show "heap_ok arena s' B = heap_ok arena s B" using assms e unfolding heap_ok_def by auto
  show "free_bytes s' B = free_bytes s B" unfolding free_bytes_def by (rule bytes_cong) (rule e)
qed

lemma free_point_ok:
  assumes h: "heap_ok arena s B" and b: "b \<notin> B"
  obtains cur where "cur \<in> B" "free_point b (slobfree s) s = Some cur" "csucc (insert b B) cur = b"
proof -
  have fin: "finite B" and f: "slobfree s \<in> B" using h by (auto simp: heap_finite heap_ok_def)
  then obtain g where g: "g \<in> B" "csucc (insert b B) g = b" using gap_exists [OF fin _ b] by blast
  have "free_point b a s = Some g" if "a \<in> B" for a
    using fin g(1) that
  proof (induction a rule: ring_induct)
    case (step a)
    note stop = csucc_stop [OF fin step.hyps b] csucc_insert_other [OF fin g(1) b g(2) step.hyps] heap_next [OF h step.hyps]
    show ?case
    proof (cases "a = g")
      case True
      then show ?thesis using stop g(2) by (subst free_point.simps) (auto simp: Let_def)
    next
      case False
      have "csucc (insert b B) a \<noteq> b" using stop(2) [OF False] csucc_in [OF fin, of a] g(1) b by (metis empty_iff)
      then show ?thesis using stop(1,3) step.IH [OF False] by (subst free_point.simps) (auto simp: Let_def)
    qed
  qed
  then show thesis using that g f by blast
qed

lemma slob_link_cells:
  assumes "cur \<noteq> b" "bnext (cells s cur) \<noteq> b" "bend s b = bnext (cells s cur) \<longrightarrow> bnext (cells s cur) \<noteq> cur"
  defines "nn \<equiv> bnext (cells s cur)"
  defines "ub \<equiv> units (cells s b) + (if bend s b = nn then units (cells s nn) else 0)"
  defines "nb \<equiv> (if bend s b = nn then bnext (cells s nn) else nn)"
  shows "cells (slob_link b cur s) = (cells s)
     (b := \<lparr>units = ub, bnext = nb\<rparr>,
      cur := (if bend s cur = b then \<lparr>units = units (cells s cur) + ub, bnext = nb\<rparr> else \<lparr>units = units (cells s cur), bnext = b\<rparr>))"
    "slobfree (slob_link b cur s) = cur"
  using assms(1-3) by (auto simp: slob_link_def upd_cell_def Let_def bend_def ub_def nb_def nn_def fun_eq_iff)

lemma slob_link_frame: "machine.truncate (slob_link b cur s) = machine.truncate s" "bigs (slob_link b cur s) = bigs s" "bigblocks (slob_link b cur s) = bigblocks s"
  by (simp_all add: slob_link_def upd_cell_def Let_def machine.defs)

lemma slob_link_ok:
  assumes h: "heap_ok arena s B" and c: "cur \<in> B" "b \<notin> B" "csucc (insert b B) cur = b" and u: "1 \<le> units (cells s b)"
    and apart: "\<And>a. a \<in> B \<Longrightarrow> bend s a \<le> b \<or> bend s b \<le> a" and ar: "bend s arena < b"
  defines "s' \<equiv> slob_link b cur s"
  obtains B' where "heap_ok arena s' B'" "free_bytes s' B' = free_bytes s B \<union> {b ..< bend s b}" "B' \<subseteq> insert b B"
    "\<exists>a\<in>B'. units (cells s b) \<le> units (cells s' a)" "\<And>a. a \<notin> insert b B \<Longrightarrow> cells s' a = cells s a"
proof -
  let ?nx = "\<lambda>a. bnext (cells s a)" and ?e = "bend s"
  let ?B = "link_set ?nx ?e B b cur" and ?nn = "?nx cur"
  have r: "ring ?nx ?e B" and sep: "\<And>a b. a \<in> B \<Longrightarrow> b \<in> B \<Longrightarrow> a < b \<Longrightarrow> ?e a < b"
    and arena: "arena \<in> B" "units (cells s arena) = 1" "0 < arena" "\<And>a. a \<in> B \<Longrightarrow> arena \<le> a"
    using h by (simp_all add: heap_ok_def)
  have ends: "0 < units (cells s a)" if "a \<in> B" for a using r that by (auto simp: ring_def bend_def)
  have "arena < ?e arena" using r arena(1) by (simp add: ring_def)
  then have ab: "arena < b" using ar by simp
  have cb: "cur < b" using c(3) csucc_eq [of "insert b B" cur b] ring_finite [OF r] arena(1) ab by auto
  have b: "b < ?e b" using u by (simp add: bend_def)
  have bn: "b \<noteq> ?nn" "b \<noteq> cur" "?nn \<in> B" using ring_next_in [OF r c(1)] c by auto
  have M: "?e b = ?nn \<longrightarrow> ?nn \<noteq> cur" using b cb by auto
  note link = link_ring [OF r c cb b apart] link_apart [OF r c cb b apart sep]
  note cells' = slob_link_cells [of cur b s, folded s'_def, OF bn(2) [symmetric] bn(1) [symmetric] M]
  have sum: "unit_at b (units (cells s b) + units (cells s ?nn)) = ?e ?nn" if "?e b = ?nn"
    using that unit_at_add [of "units (cells s b)" b] u by (simp add: bend_def)
  have sum2: "unit_at cur (units (cells s cur) + n) = unit_at b n" if "?e cur = b" for n
    using that unit_at_add [of "units (cells s cur)" cur n] ends [OF c(1)] by (simp add: bend_def)
  have nx': "bnext (cells s' a) = link_next ?nx ?e b cur a" for a
    using bn by (auto simp: cells' link_next_def joined_next_def)
  have e': "bend s' a = link_end ?nx ?e b cur a" for a
    using bn sum sum2 by (auto simp: cells' link_end_def joined_end_def bend_def)
  have aB: "arena \<in> ?B" using arena(1) ab b by (auto simp: link_set_def)
  have la: "units (cells s' arena) = 1" using ar arena(2) ab by (cases "arena = cur") (auto simp: cells')
  show thesis
  proof (rule that [of ?B])
    have "slobfree s' \<in> ?B" using c bn M by (auto simp: cells' link_set_def)
    moreover have "ring (\<lambda>a. bnext (cells s' a)) (bend s') ?B" using link(1) by (simp add: nx' e' cong: ring_cong)
    moreover have "arena \<le> a" if "a \<in> ?B" for a using that arena(4) ab by (auto simp: link_set_def split: if_splits)
    ultimately show "heap_ok arena s' ?B" using link(3) la aB arena(3) unfolding heap_ok_def by (simp add: e')
    show "free_bytes s' ?B = free_bytes s B \<union> {b ..< ?e b}" using link(2) by (simp add: free_bytes_def e' cong: bytes_cong)
    show "?B \<subseteq> insert b B" by (auto simp: link_set_def)
    have "cur \<in> ?B" "?e cur \<noteq> b \<Longrightarrow> b \<in> ?B" using c bn M by (auto simp: link_set_def)
    then show "\<exists>a\<in>?B. units (cells s b) \<le> units (cells s' a)"
      using ends [OF c(1)] ends [OF bn(3)] bn by (cases "?e cur = b") (auto simp: cells' intro: bexI [of _ cur] bexI [of _ b])
    show "cells s' a = cells s a" if "a \<notin> insert b B" for a using that c(1) by (auto simp: cells')
  qed
qed

lemma unit_end: "0 \<le> n \<Longrightarrow> unit_at a n = a + SLOB_UNIT * nat n"
  by (simp add: unit_at_def nat_add_distrib nat_mult_distrib)

lemma free_blocks_apart:
  assumes "heap_ok arena s B" and d: "{b ..< c} \<inter> free_bytes s B = {}" "b < c" and a: "a \<in> B"
  shows "bend s a \<le> b \<or> c \<le> a"
proof (rule ccontr)
  assume n: "\<not> ?thesis"
  have "a < bend s a" using assms(1) a by (simp add: heap_ok_def ring_def)
  then have x: "max a b \<in> {b ..< c}" "max a b \<in> {a ..< bend s a}" using n d(2) by auto
  then have "max a b \<in> free_bytes s B" unfolding free_bytes_def bytes_def using a by blast
  then show False using d(1) x(1) by blast
qed

lemma slob_free_ok:
  assumes h: "heap_ok arena s B" and b: "bend s arena < b" "{b ..< unit_at b n} \<inter> free_bytes s B = {}" "1 \<le> n"
    and n: "n = (if sz \<noteq> 0 then int (SLOB_UNITS sz) else units (cells s b))"
  obtains s' B' where "slob_free b sz s = Some s'" "heap_ok arena s' B'" "free_bytes s' B' = free_bytes s B \<union> {b ..< unit_at b n}"
    "\<exists>a\<in>B'. n \<le> units (cells s' a)" "\<And>a. a \<notin> insert b B \<Longrightarrow> cells s' a = cells s a"
    "machine.truncate s' = machine.truncate s" "bigs s' = bigs s" "bigblocks s' = bigblocks s"
proof -
  define s1 where "s1 = (if sz \<noteq> 0 then upd_cell b (\<lambda>c. c\<lparr>units := int (SLOB_UNITS sz)\<rparr>) s else s)"
  have lt: "b < unit_at b n" using b(3) by simp
  note apart = free_blocks_apart [OF h b(2) lt]
  have nB: "b \<notin> B"
  proof
    assume "b \<in> B"
    then have "b < bend s b" using h by (simp add: heap_ok_def ring_def)
    then show False using apart [OF \<open>b \<in> B\<close>] lt by auto
  qed
  have s1: "cells s1 a = cells s a" if "a \<noteq> b" for a using that by (simp add: s1_def upd_cell_def)
  have u1: "units (cells s1 b) = n" by (simp add: s1_def upd_cell_def n)
  have fields: "slobfree s1 = slobfree s" "machine.truncate s1 = machine.truncate s" "bigs s1 = bigs s" "bigblocks s1 = bigblocks s"
    by (simp_all add: s1_def upd_cell_def machine.defs)
  have same: "cells s1 a = cells s a" if "a \<in> B" for a using s1 that nB by metis
  have h1: "heap_ok arena s1 B" "free_bytes s1 B = free_bytes s B"
    using heap_cong [OF same fields(1)] h by simp_all
  have e1: "bend s1 a = bend s a" if "a \<in> B" for a by (simp add: bend_def same [OF that])
  have eb: "bend s1 b = unit_at b n" by (simp add: bend_def u1)
  obtain cur where cur: "cur \<in> B" "free_point b (slobfree s1) s1 = Some cur" "csucc (insert b B) cur = b"
    by (rule free_point_ok [OF h1(1) nB]) (rule that; assumption)
  have run: "slob_free b sz s = Some (slob_link b cur s1)"
    using cur(2) b(1) unfolding slob_free_def s1_def by (simp add: Let_def)
  have apart1: "bend s1 a \<le> b \<or> bend s1 b \<le> a" if "a \<in> B" for a using apart [OF that] e1 [OF that] eb by simp
  have ar: "bend s1 arena < b" using e1 [of arena] h b(1) by (simp add: heap_ok_def)
  obtain B' where B': "heap_ok arena (slob_link b cur s1) B'" "free_bytes (slob_link b cur s1) B' = free_bytes s1 B \<union> {b ..< bend s1 b}"
      "\<exists>a\<in>B'. units (cells s1 b) \<le> units (cells (slob_link b cur s1) a)" "\<And>a. a \<notin> insert b B \<Longrightarrow> cells (slob_link b cur s1) a = cells s1 a"
    by (rule slob_link_ok [OF h1(1) cur(1) nB cur(3) _ apart1 ar]) (use b(3) u1 that in auto)
  show thesis
    by (rule that [OF run B'(1)]) (use B'(2-4) h1(2) eb u1 s1 fields slob_link_frame in auto)
qed

section \<open>Taking a block\<close>

lemma slob_take_ok:
  assumes h: "heap_ok arena s B" and p: "p \<in> B" "csucc B p = c" and n: "2 \<le> n" "n \<le> units (cells s c)"
  defines "s' \<equiv> slob_take p c n s"
  obtains B' where "heap_ok arena s' B'" "free_bytes s' B' = free_bytes s B - {c ..< unit_at c n}" "{c ..< unit_at c n} \<subseteq> free_bytes s B"
    "units (cells s' c) = n" "0 < c" "bend s' arena < c" "\<And>a. a \<notin> free_bytes s B \<Longrightarrow> cells s' a = cells s a"
proof -
  let ?nx = "\<lambda>a. bnext (cells s a)" and ?e = "bend s"
  have r: "ring ?nx ?e B" and sep: "\<And>a b. a \<in> B \<Longrightarrow> b \<in> B \<Longrightarrow> a < b \<Longrightarrow> ?e a < b"
    and arena: "arena \<in> B" "units (cells s arena) = 1" "0 < arena" "\<And>a. a \<in> B \<Longrightarrow> arena \<le> a"
    using h by (simp_all add: heap_ok_def)
  have fin: "finite B" using r by (rule ring_finite)
  have c: "c \<in> B" "?nx p = c" using csucc_in [OF fin, of p] p ring_succ [OF r p(1)] by auto
  have ca: "c \<noteq> arena" using n arena(2) by auto
  have pc: "p \<noteq> c"
  proof
    assume "p = c"
    then have "(\<forall>x\<in>B. x \<le> c) \<and> (\<forall>x\<in>B. c \<le> x)" using csucc_eq [OF fin, of c c] p by auto
    then have "arena = c" using arena(1) by (simp add: antisym)
    then show False using ca by simp
  qed
  have ac: "arena < c" "?e arena < c" using arena(4) [OF c(1)] ca sep [OF arena(1) c(1)] by auto
  have inside: "{c ..< ?e c} \<subseteq> free_bytes s B" using c(1) by (auto simp: free_bytes_def bytes_def)
  have sub: "{c ..< unit_at c n} \<subseteq> free_bytes s B"
    by (rule order.trans [OF _ inside]) (use n in \<open>auto simp: bend_def unit_at_def\<close>)
  have hd: "B \<subseteq> free_bytes s B" using r by (auto simp: free_bytes_def bytes_def ring_def)
  show thesis
  proof (cases "units (cells s c) = n")
    case True
    have cells': "cells s' = (cells s)(p := (cells s p)\<lparr>bnext := ?nx c\<rparr>)" "slobfree s' = p"
      using True by (simp_all add: s'_def slob_take_def upd_cell_def)
    have e': "bend s' = ?e" by (auto simp: bend_def cells')
    have nx': "(\<lambda>a. bnext (cells s' a)) = ?nx(p := ?nx c)" by (auto simp: cells')
    note rem = ring_remove [OF r p(1) pc c(2)]
    have "heap_ok arena s' (B - {c})"
      using rem(1) sep arena ca p(1) pc unfolding heap_ok_def nx' e' by (auto simp: cells')
    moreover have "free_bytes s' (B - {c}) = free_bytes s B - {c ..< unit_at c n}"
      using rem(2) True by (simp add: free_bytes_def e' bend_def)
    moreover have "units (cells s' c) = n" "bend s' arena < c" using True pc ac by (simp_all add: cells' e')
    moreover have "cells s' a = cells s a" if "a \<notin> free_bytes s B" for a using that hd p(1) by (auto simp: cells')
    ultimately show thesis using that [of "B - {c}"] sub ac arena(3) by simp
  next
    case False
    define x where "x = unit_at c n"
    have x: "c < x" "x < ?e c" using n False by (auto simp: x_def bend_def unit_at_def)
    note cut = ring_shorten [OF r p(1) pc c(2) x]
    have px: "p \<noteq> x" "x \<noteq> c" using cut(3) p(1) c(1) by auto
    have cells': "cells s' = (cells s)(p := (cells s p)\<lparr>bnext := x\<rparr>, x := \<lparr>units = units (cells s c) - n, bnext = ?nx c\<rparr>,
        c := (cells s c)\<lparr>units := n\<rparr>)" "slobfree s' = p"
      using False px pc by (auto simp: s'_def slob_take_def upd_cell_def Let_def x_def fun_eq_iff)
    let ?B = "insert x (B - {c})"
    have "unit_at x (units (cells s c) - n) = ?e c" using unit_at_add [of n c] n by (simp add: x_def bend_def)
    then have e': "bend s' a = (?e(x := ?e c)) a" if "a \<in> ?B" for a using that px pc by (auto simp: bend_def cells')
    have nx': "bnext (cells s' a) = (?nx(p := x, x := ?nx c)) a" if "a \<in> ?B" for a using that px pc by (auto simp: cells')
    have "ring (\<lambda>a. bnext (cells s' a)) (bend s') ?B"
      using cut(1) ring_cong [of ?B "\<lambda>a. bnext (cells s' a)" "?nx(p := x, x := ?nx c)" "bend s'" "?e(x := ?e c)", OF nx' e'] by blast
    moreover have "bend s' y < z" if "y \<in> ?B" "z \<in> ?B" "y < z" for y z
    proof -
      have far: "?e a < c \<or> ?e c < a" if "a \<in> B" "a \<noteq> c" for a using sep [of a c] sep [of c a] that c(1) by (metis linorder_neqE_nat)
      have gt: "a < ?e a" if "a \<in> B" for a using r that by (simp add: ring_def)
      show ?thesis using that e' [OF that(1)] far [of y] far [of z] sep [of y z] x gt [of y] gt [of z] by (auto split: if_splits)
    qed
    moreover have "arena \<le> a" if "a \<in> ?B" for a using that arena(4) ac(1) x(1) by auto
    ultimately have "heap_ok arena s' ?B" using arena ca p(1) pc px cut(3) unfolding heap_ok_def by (auto simp: cells')
    moreover have "free_bytes s' ?B = free_bytes s B - {c ..< unit_at c n}"
      using cut(2) bytes_cong [of ?B "bend s'" "?e(x := ?e c)"] e' by (simp add: free_bytes_def x_def)
    moreover have "units (cells s' c) = n" "bend s' arena < c" using px pc ac e' [of arena] arena(1) ca cut(3) by (auto simp: cells')
    moreover have "cells s' a = cells s a" if "a \<notin> free_bytes s B" for a
    proof -
      have "x \<in> free_bytes s B" using inside x by auto
      then show ?thesis using that hd p(1) c(1) by (auto simp: cells')
    qed
    ultimately show thesis using that [of ?B] sub ac arena(3) by simp
  qed
qed

lemma slob_take_frame:
  "machine.truncate (slob_take p c n s) = machine.truncate s" "bigs (slob_take p c n s) = bigs s" "bigblocks (slob_take p c n s) = bigblocks s"
  by (simp_all add: slob_take_def upd_cell_def Let_def machine.defs)

section \<open>The search\<close>

text \<open>What happens when the search has come round without success.\<close>

definition slob_grow :: "nat \<Rightarrow> int \<Rightarrow> kheap \<Rightarrow> (nat \<times> kheap) option" where
  "slob_grow sz n s =
     (if sz = PAGE_SIZE then Some (0, s)
      else do {
        (page, s) \<leftarrow> slob_get_free_pages 0 s;
        (if page = 0 then Some (0, s)
         else do {
           s \<leftarrow> slob_free page PAGE_SIZE s;
           slob_search sz n 0 (slobfree s) (bnext (cells s (slobfree s))) s
         })
      })"

lemma slob_search_simps:
  "slob_search sz n 0 p c s =
     (if n \<le> units (cells s c) then Some (c, slob_take p c n s)
      else if c = slobfree s then slob_grow sz n s else slob_search sz n 0 c (bnext (cells s c)) s)"
  by (subst slob_search.simps) (simp add: slob_grow_def slob_cut_def Let_def)

lemma slob_search_round:
  assumes h: "heap_ok arena s B" and p: "p \<in> B" and c: "csucc B p = c" and start: "slob_search sz n 0 p0 c0 s = slob_search sz n 0 p c s"
  shows "(\<exists>p c. p \<in> B \<and> csucc B p = c \<and> n \<le> units (cells s c) \<and> slob_search sz n 0 p0 c0 s = Some (c, slob_take p c n s)) \<or>
    (\<forall>x\<in>insert (slobfree s) (ahead B (slobfree s) c). units (cells s x) < n) \<and> slob_search sz n 0 p0 c0 s = slob_grow sz n s"
proof -
  have fin: "finite B" and f: "slobfree s \<in> B" using h by (auto simp: heap_finite heap_ok_def)
  have "c \<in> B" using csucc_in [OF fin, of p] c p by auto
  with fin f show ?thesis using start p c
  proof (induction c arbitrary: p rule: ring_induct)
    case (step c)
    show ?case
    proof (cases "n \<le> units (cells s c)")
      case True
      then show ?thesis using step.prems by (subst (asm) slob_search_simps) auto
    next
      case False
      show ?thesis
      proof (cases "c = slobfree s")
        case True
        have "ahead B (slobfree s) c = {}" using True by (auto simp: ahead_def)
        then show ?thesis using step.prems True False by (subst (asm) slob_search_simps) auto
      next
        case other: False
        have "slob_search sz n 0 p0 c0 s = slob_search sz n 0 c (csucc B c) s"
          using step.prems(1) False other heap_next [OF h step.hyps] by (subst (asm) slob_search_simps) simp
        from step.IH [OF other this step.hyps refl] show ?thesis using ahead_step(1) [OF fin f step.hyps other] False by auto
      qed
    qed
  qed
qed

text \<open>One round finds a block that is large enough, if there is one.\<close>

lemma slob_search_all:
  assumes h: "heap_ok arena s B" and n: "2 \<le> n"
  shows "(\<exists>p c. p \<in> B \<and> csucc B p = c \<and> n \<le> units (cells s c) \<and>
      slob_search sz n 0 (slobfree s) (bnext (cells s (slobfree s))) s = Some (c, slob_take p c n s)) \<or>
    (\<forall>x\<in>B. units (cells s x) < n) \<and> slob_search sz n 0 (slobfree s) (bnext (cells s (slobfree s))) s = slob_grow sz n s"
proof -
  have fin: "finite B" and f: "slobfree s \<in> B" using h by (auto simp: heap_finite heap_ok_def)
  show ?thesis using slob_search_round [OF h f refl refl, where sz = sz and n = n]
    unfolding ahead_all [OF fin f] heap_next [OF h f] by blast
qed

section \<open>Pages for the heap\<close>

definition page_bytes :: "nat \<Rightarrow> nat set" where
  "page_bytes k = {k * PAGE_SIZE ..< k * PAGE_SIZE + PAGE_SIZE}"

text \<open>The page allocator is in order; the pages it has lie above \<^verbatim>\<open>arena\<close> and are not part of the heap.\<close>

definition supplied :: "nat \<Rightarrow> kheap \<Rightarrow> nat list \<Rightarrow> nat set \<Rightarrow> bool" where
  "supplied arena s ps F \<longleftrightarrow> tables_ok (machine.truncate s) ps {} \<and>
     (\<forall>p\<in>free_set (pm s) ps. arena + SLOB_UNIT < (p + nbase) * PAGE_SIZE \<and> page_bytes (p + nbase) \<inter> F = {})"

lemma truncate_sel [simp]: "pm (machine.truncate s) = pm s" "npage (machine.truncate s) = npage s" "mem (machine.truncate s) = mem s"
  by (simp_all add: machine.defs)

lemma truncate_on_machine [simp]: "machine.truncate (on_machine m s) = m"
  by (simp add: machine.defs on_machine_def)

lemma on_machine_sel [simp]: "cells (on_machine m s) = cells s" "bigs (on_machine m s) = bigs s" "slobfree (on_machine m s) = slobfree s"
    "bigblocks (on_machine m s) = bigblocks s" "pm (on_machine m s) = pm m" "on_machine (machine.truncate s) s = s"
  by (simp_all add: on_machine_def machine.defs)

lemma upd_big_pm: "pm (upd_big a f s) = pm s" "machine.truncate (upd_big a f s) = machine.truncate s"
  by (simp_all add: upd_big_def machine.defs)

lemma page2kva_ok: "p + nbase < npage m \<Longrightarrow> npage m \<le> 2 ^ 44 \<Longrightarrow> page2kva p m = Some (p + nbase)"
  using PPN_page2pa [of p] by (simp add: page2kva_def KADDR_def)

text \<open>Reading the flags of the pages and their number: the allocator changes neither.\<close>

definition same_pages :: "kheap \<Rightarrow> kheap \<Rightarrow> bool" where
  "same_pages s s' \<longleftrightarrow> npage s' = npage s \<and> (\<forall>q. PageReserved (pages (pm s') q) \<longrightarrow> PageReserved (pages (pm s) q))"

lemma same_pages_refl [simp]: "same_pages s s"
  by (simp add: same_pages_def)

lemma same_pages_trans: "same_pages s s1 \<Longrightarrow> same_pages s1 s2 \<Longrightarrow> same_pages s s2"
  by (simp add: same_pages_def)

lemma same_pages_truncate: "machine.truncate s' = machine.truncate s \<Longrightarrow> same_pages s s'"
  using truncate_sel [of s] truncate_sel [of s'] by (simp add: same_pages_def)

lemma take_block_reserved: "PageReserved (pages (take_block p n a) q) = PageReserved (pages a q)"
  by (simp add: take_block_def Let_def SetPageProperty_def ClearPageProperty_def PageReserved_def bit_simps)

lemma get_pages_ok:
  assumes "supplied arena s ps F"
  obtains (none) "slob_get_free_pages order s = Some (0, s)" "order = 0 \<Longrightarrow> nr_free_pages (machine.truncate s) = 0"
  | (some) p m ps' where "slob_get_free_pages order s = Some ((p + nbase) * PAGE_SIZE, on_machine m s)" "{p ..< p + 2 ^ order} \<subseteq> free_set (pm s) ps"
      "free_set (pm m) ps' = free_set (pm s) ps - {p ..< p + 2 ^ order}" "tables_ok m ps' {}" "same_pages s (on_machine m s)"
proof -
  have ok: "ff_inv (pm s) ps" "npage s \<le> 2 ^ 44" "\<And>p. p \<in> free_set (pm s) ps \<Longrightarrow> p + nbase < npage s"
    using assms by (auto simp: supplied_def tables_ok_def)
  have pos: "0 < (2 :: nat) ^ order" by simp
  from default_alloc_pages_eq [OF ok(1) pos] have eq: "default_alloc_pages (2 ^ order) (pm s) =
      (case find (\<lambda>p. 2 ^ order \<le> property (pages (pm s) p)) ps of None \<Rightarrow> Some (None, pm s) | Some p \<Rightarrow> Some (Some p, take_block p (2 ^ order) (pm s)))" .
  show thesis
  proof (cases "find (\<lambda>p. 2 ^ order \<le> property (pages (pm s) p)) ps")
    case None
    have "alloc_pages (2 ^ order) (machine.truncate s) = Some (None, machine.truncate s)" using eq None by (simp add: alloc_pages_def)
    moreover have "nr_free_pages (machine.truncate s) = 0" if "order = 0"
    proof -
      have "ps = []" using None ok(1) that by (cases ps) (auto simp: ff_inv_def)
      then show ?thesis using ok(1) by (simp add: ff_inv_def nr_free_pages_def default_nr_free_pages_def)
    qed
    ultimately show thesis using none by (simp add: slob_get_free_pages_def)
  next
    case (Some p)
    define a where "a = take_block p (2 ^ order) (pm s)"
    let ?m = "(machine.truncate s)\<lparr>pm := a\<rparr>"
    have d: "default_alloc_pages (2 ^ order) (pm s) = Some (Some p, a)" using eq Some by (simp add: a_def)
    from ff.alloc_some [OF ok(1) pos d] obtain ps' where t: "{p ..< p + 2 ^ order} \<subseteq> free_set (pm s) ps" "ff_inv a ps'"
      "free_set a ps' = free_set (pm s) ps - {p ..< p + 2 ^ order}" by auto
    have "p \<in> {p ..< p + 2 ^ order}" by simp
    then have "p \<in> free_set (pm s) ps" using t(1) by blast
    then have "p + nbase < npage ?m" "npage ?m \<le> 2 ^ 44" using ok(2,3) by simp_all
    then have "slob_get_free_pages order s = Some ((p + nbase) * PAGE_SIZE, on_machine ?m s)"
      using d page2kva_ok [of p ?m] by (simp add: slob_get_free_pages_def alloc_pages_def)
    moreover have "tables_ok ?m ps' {}" using ok(2,3) t(2,3) by (auto simp: tables_ok_def)
    moreover have "same_pages s (on_machine ?m s)" by (simp add: same_pages_def on_machine_def a_def take_block_reserved)
    ultimately show thesis using t some [of p ?m ps'] by simp
  qed
qed

lemma get_page_ok:
  assumes "supplied arena s ps F"
  obtains (none) "slob_get_free_pages 0 s = Some (0, s)" "nr_free_pages (machine.truncate s) = 0"
  | (some) p m ps' where "slob_get_free_pages 0 s = Some ((p + nbase) * PAGE_SIZE, on_machine m s)" "p \<in> free_set (pm s) ps"
      "free_set (pm m) ps' = free_set (pm s) ps - {p}" "tables_ok m ps' {}" "same_pages s (on_machine m s)"
proof (cases rule: get_pages_ok [OF assms, of 0])
  case 1
  then show thesis using none by simp
next
  case (2 p m ps')
  have "{p ..< p + 2 ^ 0} = {p}" by auto
  then show thesis using some [of p m ps'] 2 by simp
qed

section \<open>Allocating a block\<close>

text \<open>
  The memory the allocator works with: the free blocks, with a page more when one has been taken from the page allocator.
\<close>

definition grown :: "kheap \<Rightarrow> nat list \<Rightarrow> nat set \<Rightarrow> kheap \<Rightarrow> nat list \<Rightarrow> nat set \<Rightarrow> bool" where
  "grown s ps F s' ps' F' \<longleftrightarrow> same_pages s s' \<and> (F' = F \<and> free_set (pm s') ps' = free_set (pm s) ps \<or>
     (\<exists>p\<in>free_set (pm s) ps. F' = F \<union> page_bytes (p + nbase) \<and> free_set (pm s') ps' = free_set (pm s) ps - {p}))"

definition block_taken :: "nat \<Rightarrow> kheap \<Rightarrow> nat set \<Rightarrow> int \<Rightarrow> nat \<Rightarrow> kheap \<Rightarrow> nat list \<Rightarrow> nat set \<Rightarrow> bool" where
  "block_taken arena s F n c s' ps' B' \<longleftrightarrow> heap_ok arena s' B' \<and> supplied arena s' ps' F \<and>
     {c ..< unit_at c n} \<subseteq> F \<and> free_bytes s' B' = F - {c ..< unit_at c n} \<and> (\<forall>a. a \<notin> F \<longrightarrow> cells s' a = cells s a) \<and>
     units (cells s' c) = n \<and> 0 < c \<and> bend s' arena < c \<and> bigs s' = bigs s \<and> bigblocks s' = bigblocks s"

lemma grown_take: "grown s ps F (slob_take p c n s) ps F"
  using truncate_sel(1) same_pages_truncate slob_take_frame(1) [of p c n s] unfolding grown_def by metis

lemma take_from_heap:
  assumes h: "heap_ok arena s B" and sup: "supplied arena s ps (free_bytes s B)" and p: "p \<in> B" "csucc B p = c" and n: "2 \<le> n" "n \<le> units (cells s c)"
  shows "\<exists>B'. block_taken arena s (free_bytes s B) n c (slob_take p c n s) ps B'"
proof (rule slob_take_ok [OF h p n])
  fix B' assume t: "heap_ok arena (slob_take p c n s) B'" "free_bytes (slob_take p c n s) B' = free_bytes s B - {c ..< unit_at c n}"
    "{c ..< unit_at c n} \<subseteq> free_bytes s B" "units (cells (slob_take p c n s) c) = n" "0 < c" "bend (slob_take p c n s) arena < c"
    "\<And>a. a \<notin> free_bytes s B \<Longrightarrow> cells (slob_take p c n s) a = cells s a"
  have "pm (slob_take p c n s) = pm s" using truncate_sel(1) slob_take_frame(1) by metis
  then have "supplied arena (slob_take p c n s) ps (free_bytes s B)" using sup by (simp add: supplied_def slob_take_frame)
  then show ?thesis using t slob_take_frame unfolding block_taken_def by blast
qed

lemma units_page: "int (SLOB_UNITS PAGE_SIZE) = 256" "unit_at b 256 = b + PAGE_SIZE"
  by (simp_all add: SLOB_UNITS_def unit_at_def)

lemma slob_grow_ok:
  assumes h: "heap_ok arena s B" and sup: "supplied arena s ps (free_bytes s B)" and n: "2 \<le> n" "n \<le> 256" and sz: "sz \<noteq> PAGE_SIZE"
  shows "nr_free_pages (machine.truncate s) = 0 \<and> slob_grow sz n s = Some (0, s) \<or>
    (\<exists>c s' ps' B' F. slob_grow sz n s = Some (c, s') \<and> grown s ps (free_bytes s B) s' ps' F \<and> block_taken arena s F n c s' ps' B')"
  using sup
proof (cases rule: get_page_ok)
  case none
  then show ?thesis using sz by (simp add: slob_grow_def)
next
  case (some p m ps')
  let ?b = "(p + nbase) * PAGE_SIZE" and ?s1 = "on_machine m s"
  have p: "arena + SLOB_UNIT < ?b" "page_bytes (p + nbase) \<inter> free_bytes s B = {}" using sup some(2) by (auto simp: supplied_def)
  have pb: "page_bytes (p + nbase) = {?b ..< unit_at ?b 256}" by (simp add: page_bytes_def units_page)
  have h1: "heap_ok arena ?s1 B" "free_bytes ?s1 B = free_bytes s B" using heap_cong [of B ?s1 s] h by simp_all
  have ar: "bend ?s1 arena < ?b" using h p(1) by (simp add: heap_ok_def bend_def unit_at_def)
  have d: "{?b ..< unit_at ?b 256} \<inter> free_bytes ?s1 B = {}" using p(2) by (simp only: pb h1(2))
  have u: "(256 :: int) = (if PAGE_SIZE \<noteq> 0 then int (SLOB_UNITS PAGE_SIZE) else units (cells ?s1 ?b))" by (simp add: units_page(1))
  have one: "(1 :: int) \<le> 256" by simp
  obtain s2 B2 where f0: "slob_free ?b PAGE_SIZE ?s1 = Some s2" "heap_ok arena s2 B2"
      "free_bytes s2 B2 = free_bytes ?s1 B \<union> {?b ..< unit_at ?b 256}" "\<exists>a\<in>B2. 256 \<le> units (cells s2 a)"
      "\<And>a. a \<notin> insert ?b B \<Longrightarrow> cells s2 a = cells ?s1 a" "machine.truncate s2 = machine.truncate ?s1" "bigs s2 = bigs ?s1" "bigblocks s2 = bigblocks ?s1"
    by (rule slob_free_ok [OF h1(1) ar d one u]) (rule that; assumption)
  note f = f0(1,2) f0(3) [folded pb, unfolded h1(2)] f0(4) f0(5-8) [simplified]
  have pm2: "pm s2 = pm m" using truncate_sel(1) f(6) by metis
  have sup2: "supplied arena s2 ps' (free_bytes s2 B2)"
  proof -
    have other: "page_bytes (q + nbase) \<inter> page_bytes (p + nbase) = {}" if "q \<noteq> p" for q
      using that by (cases "q < p") (auto simp: page_bytes_def)
    show ?thesis unfolding supplied_def f(3,6) pm2
    proof (intro conjI ballI)
      show "tables_ok m ps' {}" by (rule some(4))
      fix q assume "q \<in> free_set (pm m) ps'"
      then have q: "q \<in> free_set (pm s) ps" "q \<noteq> p" using some(3) by auto
      then show "arena + SLOB_UNIT < (q + nbase) * PAGE_SIZE" using sup by (simp add: supplied_def)
      have "page_bytes (q + nbase) \<inter> free_bytes s B = {}" using sup q(1) by (simp add: supplied_def)
      then show "page_bytes (q + nbase) \<inter> (free_bytes s B \<union> page_bytes (p + nbase)) = {}" using other [OF q(2)] by blast
    qed
  qed
  have gr: "slob_grow sz n s = slob_search sz n 0 (slobfree s2) (bnext (cells s2 (slobfree s2))) s2"
    using sz some(1) f(1) p(1) by (simp add: slob_grow_def)
  from slob_search_all [OF f(2) n(1), of sz] obtain q c where q: "q \<in> B2" "csucc B2 q = c" "n \<le> units (cells s2 c)"
      "slob_search sz n 0 (slobfree s2) (bnext (cells s2 (slobfree s2))) s2 = Some (c, slob_take q c n s2)"
    using f(4) n(2) by (meson not_le order.trans)
  from take_from_heap [OF f(2) sup2 q(1,2) n(1) q(3)] obtain B' where
    t: "block_taken arena s2 (free_bytes s2 B2) n c (slob_take q c n s2) ps' B'" by blast
  have "B \<subseteq> free_bytes s B" using h by (auto simp: heap_ok_def ring_def free_bytes_def bytes_def)
  moreover have "?b \<in> page_bytes (p + nbase)" by (simp add: page_bytes_def)
  ultimately have hdB: "insert ?b B \<subseteq> free_bytes s2 B2" unfolding f(3) by blast
  have out: "cells s2 a = cells s a" if "a \<notin> free_bytes s2 B2" for a 
    using f0(5) [OF contra_subsetD [OF hdB that]] by simp
  have "block_taken arena s (free_bytes s2 B2) n c (slob_take q c n s2) ps' B'"
    using t f(7,8) out by (simp add: block_taken_def)
  moreover have "machine.truncate (slob_take q c n s2) = machine.truncate ?s1" using slob_take_frame(1) f0(6) by metis
  then have "same_pages s (slob_take q c n s2)" "pm (slob_take q c n s2) = pm m"
    using same_pages_trans [OF some(5) same_pages_truncate] truncate_sel(1) by (blast, metis on_machine_sel(5))
  then have "grown s ps (free_bytes s B) (slob_take q c n s2) ps' (free_bytes s2 B2)"
    unfolding grown_def using some(2,3) f(3) by auto
  ultimately show ?thesis using gr q(4) by auto
qed

lemma slob_alloc_ok:
  assumes h: "heap_ok arena s B" and sup: "supplied arena s ps (free_bytes s B)" and sz: "SLOB_UNIT < sz" "sz + SLOB_UNIT < PAGE_SIZE"
  defines "n \<equiv> int (SLOB_UNITS sz)"
  shows "nr_free_pages (machine.truncate s) = 0 \<and> (\<forall>x\<in>B. units (cells s x) < n) \<and> slob_alloc sz 0 s = Some (0, s) \<or>
    (\<exists>c s' ps' B' F. slob_alloc sz 0 s = Some (c, s') \<and> grown s ps (free_bytes s B) s' ps' F \<and> block_taken arena s F n c s' ps' B')"
proof -
  have n: "2 \<le> n" "n \<le> 256" using sz by (simp_all add: n_def SLOB_UNITS_def)
  have eq: "slob_alloc sz 0 s = slob_search sz n 0 (slobfree s) (bnext (cells s (slobfree s))) s" using sz by (simp add: slob_alloc_def n_def)
  from slob_search_all [OF h n(1), of sz] show ?thesis
  proof
    assume "\<exists>p c. p \<in> B \<and> csucc B p = c \<and> n \<le> units (cells s c) \<and>
      slob_search sz n 0 (slobfree s) (bnext (cells s (slobfree s))) s = Some (c, slob_take p c n s)"
    then show ?thesis using take_from_heap [OF h sup _ _ n(1)] grown_take unfolding eq by blast
  next
    assume "(\<forall>x\<in>B. units (cells s x) < n) \<and> slob_search sz n 0 (slobfree s) (bnext (cells s (slobfree s))) s = slob_grow sz n s"
    then show ?thesis using slob_grow_ok [OF h sup n, of sz] sz unfolding eq by auto
  qed
qed

section \<open>kmalloc and kfree\<close>

text \<open>The list of the big blocks.\<close>

fun big_path :: "kheap \<Rightarrow> nat \<Rightarrow> nat list \<Rightarrow> bool" where
  "big_path s a [] \<longleftrightarrow> a = 0"
| "big_path s a (b # bs) \<longleftrightarrow> a = b \<and> b \<noteq> 0 \<and> big_path s (bbnext (bigs s b)) bs"

lemma big_path_bigs: "bigs s' = bigs s \<Longrightarrow> big_path s' a bs = big_path s a bs"
  by (induction bs arbitrary: a) simp_all

lemma big_search_none:
  "big_path s a bs \<Longrightarrow> \<forall>b\<in>set bs. bpages (bigs s b) \<noteq> blk \<Longrightarrow> big_search blk lst a s = Some None"
  by (induction bs arbitrary: a lst) (simp_all add: big_search.simps)

lemma kmalloc_small:
  assumes h: "heap_ok arena s B" and sup: "supplied arena s ps (free_bytes s B)" and size: "0 < sz" "sz < 4064"
  defines "n \<equiv> int (SLOB_UNITS (sz + SLOB_UNIT))"
  shows "nr_free_pages (machine.truncate s) = 0 \<and> (\<forall>x\<in>B. units (cells s x) < n) \<and> kmalloc sz s = Some (0, s) \<or>
    (\<exists>c s' ps' B' F. kmalloc sz s = Some (c + SLOB_UNIT, s') \<and> grown s ps (free_bytes s B) s' ps' F \<and> block_taken arena s F n c s' ps' B')"
proof -
  have "SLOB_UNIT < sz + SLOB_UNIT" "sz + SLOB_UNIT + SLOB_UNIT < PAGE_SIZE" using size by simp_all
  from slob_alloc_ok [OF h sup this] show ?thesis
  proof (elim disjE exE conjE)
    fix c s' ps' B' F
    assume a: "slob_alloc (sz + SLOB_UNIT) 0 s = Some (c, s')" "grown s ps (free_bytes s B) s' ps' F"
      "block_taken arena s F (int (SLOB_UNITS (sz + SLOB_UNIT))) c s' ps' B'"
    then have "kmalloc sz s = Some (c + SLOB_UNIT, s')" using size by (simp add: kmalloc_def block_taken_def)
    then show ?thesis using a(2,3) unfolding n_def by blast
  qed (use size in \<open>simp add: kmalloc_def n_def\<close>)
qed

text \<open>\<^verbatim>\<open>kmalloc\<close> of up to 4063 bytes returns, and either it returns \<^verbatim>\<open>NULL\<close>, the heap unchanged, because no free block is large enough and the
  kernel has no free page, or an address with as many bytes behind it that were all free before, or lie in one page newly taken from the page
  allocator.  The block with its header of 16 bytes is the only memory that is no longer free; the ring of free blocks stays sorted and
  fully merged, and no header outside the free memory changes.\<close>

theorem kmalloc_exact:
  assumes "heap_ok arena s B" "supplied arena s ps (free_bytes s B)" "0 < sz" "sz < 4064"
  shows "nr_free_pages (machine.truncate s) = 0 \<and> (\<forall>x\<in>B. units (cells s x) < int (SLOB_UNITS (sz + SLOB_UNIT))) \<and> kmalloc sz s = Some (0, s) \<or>
    (\<exists>r s' ps' B' F. kmalloc sz s = Some (r, s') \<and> grown s ps (free_bytes s B) s' ps' F \<and> heap_ok arena s' B' \<and> supplied arena s' ps' F \<and>
       SLOB_UNIT < r \<and> {r - SLOB_UNIT ..< r + sz} \<subseteq> F \<and>
       free_bytes s' B' = F - {r - SLOB_UNIT ..< r - SLOB_UNIT + SLOB_UNIT * SLOB_UNITS (sz + SLOB_UNIT)} \<and>
       (\<forall>a. a \<notin> F \<longrightarrow> cells s' a = cells s a))"
  using kmalloc_small [OF assms]
proof (elim disjE exE conjE)
  fix c s' ps' B' F
  assume a: "kmalloc sz s = Some (c + SLOB_UNIT, s')" "grown s ps (free_bytes s B) s' ps' F"
    and t: "block_taken arena s F (int (SLOB_UNITS (sz + SLOB_UNIT))) c s' ps' B'"
  have e: "unit_at c (int (SLOB_UNITS (sz + SLOB_UNIT))) = c + SLOB_UNIT * SLOB_UNITS (sz + SLOB_UNIT)" by (simp add: unit_end)
  have "sz + SLOB_UNIT \<le> SLOB_UNIT * SLOB_UNITS (sz + SLOB_UNIT)" by (simp add: SLOB_UNITS_def)
  then have "{c ..< c + SLOB_UNIT + sz} \<subseteq> F" using t by (auto simp: block_taken_def e)
  then show ?thesis using a t unfolding block_taken_def e by (intro disjI2 exI [of _ "c + SLOB_UNIT"] exI [of _ s'] exI [of _ ps'] exI [of _ B'] exI [of _ F]) simp
qed simp

section \<open>Big blocks\<close>

lemma find_order_le: "find_order x \<le> k \<longleftrightarrow> x < 4097 * 2 ^ k"
proof (induction x arbitrary: k rule: find_order.induct)
  case (1 x)
  show ?case
  proof (cases "4096 < x")
    case True
    then show ?thesis
    proof (cases k)
      case (Suc j)
      have "x div 2 < m \<longleftrightarrow> x < 2 * m" for m :: int by presburger
      from this [of "4097 * 2 ^ j"] have "x div 2 < 4097 * 2 ^ j \<longleftrightarrow> x < 4097 * 2 ^ k" using Suc by simp
      then show ?thesis using "1.IH" [OF True, of j] True Suc by (subst find_order.simps) simp
    qed (subst find_order.simps, simp)
  next
    case False
    have "(4097 :: int) \<le> 4097 * 2 ^ k" by simp
    with False have "x < 4097 * 2 ^ k" by linarith
    then show ?thesis using False by (subst find_order.simps) simp
  qed
qed

lemma slob_get_free_pages_take:
  assumes "supplied arena s ps F" and g: "slob_get_free_pages order s = Some (pg, s')" "pg \<noteq> 0"
  shows "\<exists>p ps'. pg = (p + nbase) * PAGE_SIZE \<and> {p ..< p + 2 ^ order} \<subseteq> free_set (pm s) ps \<and> ff_inv (pm s') ps' \<and>
    free_set (pm s') ps' = free_set (pm s) ps - {p ..< p + 2 ^ order} \<and> cells s' = cells s"
proof -
  have ok: "ff_inv (pm s) ps" "npage s \<le> 2 ^ 44" "\<And>p. p \<in> free_set (pm s) ps \<Longrightarrow> p + nbase < npage s"
    using assms(1) by (auto simp: supplied_def tables_ok_def)
  from g obtain r m where a: "alloc_pages (2 ^ order) (machine.truncate s) = Some (r, m)"
    by (auto simp: slob_get_free_pages_def bind_eq_Some_conv)
  with g obtain p where p: "r = Some p" by (cases r) (auto simp: slob_get_free_pages_def)
  from a p obtain m' where d: "default_alloc_pages (2 ^ order) (pm s) = Some (Some p, m')" "m = (machine.truncate s)\<lparr>pm := m'\<rparr>"
    by (auto simp: alloc_pages_def bind_eq_Some_conv)
  have pos: "0 < (2 :: nat) ^ order" by simp
  from ff.alloc_some [OF ok(1) pos d(1)] obtain ps' where t: "{p ..< p + 2 ^ order} \<subseteq> free_set (pm s) ps" "ff_inv m' ps'"
    "free_set m' ps' = free_set (pm s) ps - {p ..< p + 2 ^ order}" by auto
  have "p \<in> {p ..< p + 2 ^ order}" by simp
  then have "p \<in> free_set (pm s) ps" using t(1) by blast
  then have "p + nbase < npage m" using ok(3) d(2) by simp
  then have "page2kva p m = Some (p + nbase)" using ok(2) d(2) page2kva_ok by simp
  then have "pg = (p + nbase) * PAGE_SIZE" "s' = on_machine m s" using g(1) a p by (simp_all add: slob_get_free_pages_def)
  then show ?thesis using t d(2) by auto
qed

section \<open>What is allocated\<close>

definition blk :: "kheap \<Rightarrow> nat \<Rightarrow> nat set" where
  "blk s c = {c ..< unit_at c (units (cells s c))}"

definition page_span :: "kheap \<Rightarrow> nat \<Rightarrow> nat set" where
  "page_span s b = {bpages (bigs s b) div PAGE_SIZE - nbase ..< bpages (bigs s b) div PAGE_SIZE - nbase + 2 ^ border (bigs s b)}"

text \<open>
  The whole heap: beside the free blocks \<open>B\<close> there are the blocks \<open>L\<close> in use, some of them descriptors of big blocks, which the list \<open>bs\<close> links.
  All these blocks and the pages of the big blocks are apart from each other and from the free memory.
\<close>

definition small_ok :: "nat \<Rightarrow> kheap \<Rightarrow> nat list \<Rightarrow> nat set \<Rightarrow> nat set \<Rightarrow> bool" where
  "small_ok arena s ps B L \<longleftrightarrow>
     (\<forall>c\<in>L. bend s arena < c \<and> 2 \<le> units (cells s c) \<and> blk s c \<inter> free_bytes s B = {} \<and>
        (\<forall>p\<in>free_set (pm s) ps. page_bytes (p + nbase) \<inter> blk s c = {})) \<and>
     (\<forall>c\<in>L. \<forall>d\<in>L. c \<noteq> d \<longrightarrow> blk s c \<inter> blk s d = {})"

definition page_own :: "nat \<Rightarrow> kheap \<Rightarrow> nat list \<Rightarrow> nat set \<Rightarrow> nat set \<Rightarrow> nat \<Rightarrow> bool" where
  "page_own arena s ps B L p \<longleftrightarrow> p \<notin> free_set (pm s) ps \<and> p + nbase < npage s \<and> \<not> PageReserved (pages (pm s) p) \<and>
     arena + SLOB_UNIT < (p + nbase) * PAGE_SIZE \<and> page_bytes (p + nbase) \<inter> free_bytes s B = {} \<and> (\<forall>c\<in>L. page_bytes (p + nbase) \<inter> blk s c = {})"

definition bigs_ok :: "nat \<Rightarrow> kheap \<Rightarrow> nat list \<Rightarrow> nat set \<Rightarrow> nat set \<Rightarrow> nat list \<Rightarrow> bool" where
  "bigs_ok arena s ps B L bs \<longleftrightarrow> big_path s (bigblocks s) bs \<and> distinct bs \<and> set bs \<subseteq> L \<and>
     (\<forall>b\<in>set bs. units (cells s b) = 2 \<and> bpages (bigs s b) mod PAGE_SIZE = 0 \<and> nbase * PAGE_SIZE \<le> bpages (bigs s b) \<and>
        (\<forall>p\<in>page_span s b. page_own arena s ps B L p)) \<and>
     (\<forall>b\<in>set bs. \<forall>c\<in>set bs. b \<noteq> c \<longrightarrow> page_span s b \<inter> page_span s c = {})"

definition heap_inv :: "nat \<Rightarrow> kheap \<Rightarrow> nat list \<Rightarrow> nat set \<Rightarrow> nat set \<Rightarrow> nat list \<Rightarrow> bool" where
  "heap_inv arena s ps B L bs \<longleftrightarrow> heap_ok arena s B \<and> supplied arena s ps (free_bytes s B) \<and> small_ok arena s ps B L \<and> bigs_ok arena s ps B L bs"

text \<open>The pointers a client holds, the memory behind each of them, and all the memory that is free, in the heap or in the page allocator.\<close>

definition live :: "kheap \<Rightarrow> nat set \<Rightarrow> nat list \<Rightarrow> nat set" where
  "live s L bs = (\<lambda>c. c + SLOB_UNIT) ` (L - set bs) \<union> (\<lambda>b. bpages (bigs s b)) ` set bs"

definition owned :: "kheap \<Rightarrow> nat list \<Rightarrow> nat \<Rightarrow> nat set" where
  "owned s bs r =
     (case find (\<lambda>b. bpages (bigs s b) = r) bs of
        None \<Rightarrow> blk s (r - SLOB_UNIT)
      | Some b \<Rightarrow> blk s b \<union> (\<Union>p\<in>page_span s b. page_bytes (p + nbase)))"

definition free_mem :: "kheap \<Rightarrow> nat list \<Rightarrow> nat set \<Rightarrow> nat set" where
  "free_mem s ps B = free_bytes s B \<union> (\<Union>p\<in>free_set (pm s) ps. page_bytes (p + nbase))"

text \<open>Pages can be given back unless they lie above every free page (C3) or there are too many of them.\<close>

definition freeable :: "kheap \<Rightarrow> nat list \<Rightarrow> nat list \<Rightarrow> nat \<Rightarrow> bool" where
  "freeable s ps bs r \<longleftrightarrow> (\<forall>b\<in>set bs. bpages (bigs s b) = r \<longrightarrow>
     nr_free (pm s) + 2 ^ border (bigs s b) < 2 ^ 32 \<and> (ps = [] \<or> (\<exists>v\<in>set ps. r div PAGE_SIZE - nbase < v)))"

lemma blk_cong: "cells s' c = cells s c \<Longrightarrow> blk s' c = blk s c"
  by (simp add: blk_def)

lemma page_span_cong: "bigs s' b = bigs s b \<Longrightarrow> page_span s' b = page_span s b"
  by (simp add: page_span_def)

lemma blk_head: "2 \<le> units (cells s c) \<Longrightarrow> c \<in> blk s c" "2 \<le> units (cells s c) \<Longrightarrow> c + SLOB_UNIT \<in> blk s c"
  by (simp_all add: blk_def unit_at_def)

lemma page_apart: "p \<noteq> q \<Longrightarrow> page_bytes (p + nbase) \<inter> page_bytes (q + nbase) = {}"
  by (cases "p < q") (auto simp: page_bytes_def)

lemma page_first: "r mod PAGE_SIZE = 0 \<Longrightarrow> nbase * PAGE_SIZE \<le> r \<Longrightarrow> r \<in> page_bytes (r div PAGE_SIZE - nbase + nbase)"
  by (auto simp: page_bytes_def)

lemma arena_end: "heap_ok arena s B \<Longrightarrow> bend s arena = arena + SLOB_UNIT"
  by (simp add: heap_ok_def bend_def unit_at_def)

lemma big_page:
  assumes "bigs_ok arena s ps B L bs" "b \<in> set bs"
  shows "page_own arena s ps B L (bpages (bigs s b) div PAGE_SIZE - nbase)"
    and "bpages (bigs s b) \<in> page_bytes (bpages (bigs s b) div PAGE_SIZE - nbase + nbase)"
proof -
  have "bpages (bigs s b) div PAGE_SIZE - nbase \<in> page_span s b" by (simp add: page_span_def)
  then show "page_own arena s ps B L (bpages (bigs s b) div PAGE_SIZE - nbase)" using assms by (simp add: bigs_ok_def)
  show "bpages (bigs s b) \<in> page_bytes (bpages (bigs s b) div PAGE_SIZE - nbase + nbase)"
    using assms by (intro page_first) (simp_all add: bigs_ok_def)
qed

lemma live_unlike:
  assumes "bigs_ok arena s ps B L bs" "b \<in> set bs"
  shows "x \<in> free_bytes s B \<Longrightarrow> bpages (bigs s b) \<noteq> x" "c \<in> L \<Longrightarrow> x \<in> blk s c \<Longrightarrow> bpages (bigs s b) \<noteq> x"
    "p \<in> free_set (pm s) ps \<Longrightarrow> x \<in> page_bytes (p + nbase) \<Longrightarrow> bpages (bigs s b) \<noteq> x"
    "c \<in> set bs \<Longrightarrow> bpages (bigs s b) = bpages (bigs s c) \<Longrightarrow> b = c"
proof -
  let ?q = "bpages (bigs s b) div PAGE_SIZE - nbase"
  note o = big_page [OF assms]
  show "bpages (bigs s b) \<noteq> x" if "x \<in> free_bytes s B" using o that by (auto simp: page_own_def)
  show "bpages (bigs s b) \<noteq> x" if "c \<in> L" "x \<in> blk s c" using o that unfolding page_own_def by blast
  show "bpages (bigs s b) \<noteq> x" if "p \<in> free_set (pm s) ps" "x \<in> page_bytes (p + nbase)"
    using o that page_apart [of p ?q] unfolding page_own_def by blast
  show "b = c" if "c \<in> set bs" "bpages (bigs s b) = bpages (bigs s c)"
  proof (rule ccontr)
    assume "b \<noteq> c"
    then have "page_span s b \<inter> page_span s c = {}" using assms that(1) by (simp add: bigs_ok_def)
    moreover have "?q \<in> page_span s b" "?q \<in> page_span s c" using that(2) by (simp_all add: page_span_def)
    ultimately show False by blast
  qed
qed

lemma small_okD:
  assumes "small_ok arena s ps B L" "c \<in> L"
  shows "bend s arena < c" "2 \<le> units (cells s c)" "blk s c \<inter> free_bytes s B = {}" "c \<in> blk s c" "c + SLOB_UNIT \<in> blk s c"
    "p \<in> free_set (pm s) ps \<Longrightarrow> page_bytes (p + nbase) \<inter> blk s c = {}" "d \<in> L \<Longrightarrow> c \<noteq> d \<Longrightarrow> blk s c \<inter> blk s d = {}"
proof -
  show u: "2 \<le> units (cells s c)" using assms by (simp add: small_ok_def)
  show "c \<in> blk s c" "c + SLOB_UNIT \<in> blk s c" using blk_head [OF u] by simp_all
qed (use assms in \<open>simp_all add: small_ok_def\<close>)

text \<open>Only the store of the descriptors changes.\<close>

lemma parts_cong:
  assumes "cells s' = cells s" "slobfree s' = slobfree s" "machine.truncate s' = machine.truncate s"
  shows "heap_ok arena s' B = heap_ok arena s B" "free_bytes s' B = free_bytes s B" "supplied arena s' ps F = supplied arena s ps F"
    "small_ok arena s' ps B L = small_ok arena s ps B L" "page_own arena s' ps B L p = page_own arena s ps B L p" "blk s' c = blk s c"
    "pm s' = pm s" "free_mem s' ps B = free_mem s ps B"
proof -
  show *: "heap_ok arena s' B = heap_ok arena s B" "free_bytes s' B = free_bytes s B" using heap_cong [of B s' s] assms by simp_all
  show p: "pm s' = pm s" using truncate_sel(1) assms(3) by metis
  have n: "npage s' = npage s" using truncate_sel(2) assms(3) by metis
  have b: "blk s' = blk s" "bend s' = bend s" using assms(1) by (simp_all add: blk_def bend_def fun_eq_iff)
  then show "blk s' c = blk s c" by simp
  show "supplied arena s' ps F = supplied arena s ps F" using assms p by (simp add: supplied_def)
  show "small_ok arena s' ps B L = small_ok arena s ps B L" using assms p * b by (simp add: small_ok_def)
  show "page_own arena s' ps B L p = page_own arena s ps B L p" using p n * b by (simp add: page_own_def)
  show "free_mem s' ps B = free_mem s ps B" using p * by (simp add: free_mem_def)
qed

lemma big_path_cong: "\<forall>b\<in>set bs. bigs s' b = bigs s b \<Longrightarrow> big_path s' a bs = big_path s a bs"
  by (induction bs arbitrary: a) simp_all

lemma bigs_ok_cong:
  assumes "cells s' = cells s" "slobfree s' = slobfree s" "machine.truncate s' = machine.truncate s" "bigblocks s' = bigblocks s"
    "\<forall>b\<in>set bs. bigs s' b = bigs s b"
  shows "bigs_ok arena s' ps B L bs = bigs_ok arena s ps B L bs"
proof -
  have "page_span s' b = page_span s b" if "b \<in> set bs" for b using assms(5) that by (simp add: page_span_def)
  then show ?thesis unfolding bigs_ok_def using assms(1,4,5) big_path_cong [OF assms(5)] by (simp add: parts_cong(5) [OF assms(1-3)])
qed

text \<open>After a block has been taken for \<open>c\<close>, the rest of the heap is as before.\<close>

lemma taken_inv:
  assumes inv: "heap_inv arena s ps B L bs" and g: "grown s ps (free_bytes s B) s' ps' F" and t: "block_taken arena s F n c s' ps' B'" and n: "2 \<le> n"
  shows "heap_ok arena s' B'" "supplied arena s' ps' (free_bytes s' B')" "small_ok arena s' ps' B' (insert c L)" "bigs_ok arena s' ps' B' (insert c L) bs"
    "c \<notin> L" "blk s' c = {c ..< unit_at c n}" "free_mem s' ps' B' = free_mem s ps B - blk s' c" "blk s' c \<subseteq> free_mem s ps B"
    "\<And>b. b \<in> set bs \<Longrightarrow> bpages (bigs s' b) \<noteq> c + SLOB_UNIT" "bigs s' = bigs s" "free_set (pm s') ps' \<subseteq> free_set (pm s) ps"
proof -
  have I: "heap_ok arena s B" "supplied arena s ps (free_bytes s B)" "small_ok arena s ps B L" "bigs_ok arena s ps B L bs"
    using inv by (simp_all add: heap_inv_def)
  show T: "heap_ok arena s' B'" "bigs s' = bigs s" using t by (simp_all add: block_taken_def)
  have T': "supplied arena s' ps' F" "{c ..< unit_at c n} \<subseteq> F" "free_bytes s' B' = F - {c ..< unit_at c n}" "\<And>a. a \<notin> F \<Longrightarrow> cells s' a = cells s a"
    "units (cells s' c) = n" "bend s' arena < c" "bigblocks s' = bigblocks s" using t by (simp_all add: block_taken_def)
  show bc: "blk s' c = {c ..< unit_at c n}" by (simp add: blk_def T'(5))
  have fs: "free_set (pm s') ps' \<subseteq> free_set (pm s) ps" and sp: "same_pages s s'" using g by (auto simp: grown_def)
  show "free_set (pm s') ps' \<subseteq> free_set (pm s) ps" by (rule fs)
  have FL: "blk s d \<inter> F = {}" if "d \<in> L" for d using g I(3) that unfolding grown_def small_ok_def by auto
  have FP: "page_bytes (p + nbase) \<inter> F = {}" if "page_own arena s ps B L p" for p
  proof -
    have "page_bytes (p + nbase) \<inter> page_bytes (q + nbase) = {}" if "q \<in> free_set (pm s) ps" for q
      using that \<open>page_own arena s ps B L p\<close> by (intro page_apart) (auto simp: page_own_def)
    then show ?thesis using g that unfolding grown_def page_own_def by (auto simp: Int_Un_distrib)
  qed
  have same: "cells s' d = cells s d" if "d \<in> L" for d
    using T'(4) FL [OF that] small_okD(4) [OF I(3) that] by blast
  have bl: "blk s' d = blk s d" if "d \<in> L" for d by (rule blk_cong [OF same [OF that]])
  have ar: "bend s' arena = bend s arena" using arena_end [OF I(1)] arena_end [OF T(1)] by simp
  have cF: "c \<in> F" "c + SLOB_UNIT \<in> F" using T'(2) bc blk_head [of s' c] T'(5) n by auto
  show cL: "c \<notin> L"
  proof
    assume c: "c \<in> L"
    then have "c \<in> blk s c" using blk_head(1) I(3) by (simp add: small_ok_def)
    then show False using FL [OF c] cF(1) by blast
  qed
  have sub: "free_bytes s' B' \<subseteq> F" "blk s' c \<subseteq> F" using T'(2,3) bc by auto
  show "supplied arena s' ps' (free_bytes s' B')" using T'(1) sub(1) unfolding supplied_def by blast
  show "small_ok arena s' ps' B' (insert c L)"
    unfolding small_ok_def
  proof (intro conjI ballI impI)
    fix d assume d: "d \<in> insert c L"
    show "bend s' arena < d" using d T'(6) ar I(3) by (auto simp: small_ok_def)
    show "2 \<le> units (cells s' d)" using d T'(5) n same I(3) by (auto simp: small_ok_def)
    show "blk s' d \<inter> free_bytes s' B' = {}"
    proof (cases "d = c")
      case True
      then show ?thesis using bc T'(3) by auto
    next
      case False
      then show ?thesis using FL [of d] bl [of d] d sub(1) by blast
    qed
    show "page_bytes (p + nbase) \<inter> blk s' d = {}" if "p \<in> free_set (pm s') ps'" for p
    proof (cases "d = c")
      case True
      then show ?thesis using T'(1) sub(2) that unfolding supplied_def by blast
    next
      case False
      then have "d \<in> L" "p \<in> free_set (pm s) ps" using d that fs by auto
      then show ?thesis using small_okD(6) [OF I(3)] bl by simp
    qed
    show "blk s' d \<inter> blk s' e = {}" if e: "e \<in> insert c L" "d \<noteq> e" for e
    proof -
      have other: "blk s' c \<inter> blk s' x = {}" if "x \<in> L" for x using FL [OF that] bl [OF that] sub(2) by blast
      consider "d = c" "e \<in> L" | "e = c" "d \<in> L" | "d \<in> L" "e \<in> L" using d e by blast
      then show ?thesis using other bl small_okD(7) [OF I(3)] e(2) by cases (simp_all add: Int_commute)
    qed
  qed
  have own: "page_own arena s' ps' B' (insert c L) p" if "page_own arena s ps B L p" for p
    using FP [OF that] that fs sp sub bl unfolding page_own_def same_pages_def by auto
  have span: "page_span s' b = page_span s b" for b by (simp add: page_span_def T(2))
  show "bigs_ok arena s' ps' B' (insert c L) bs"
    using I(4) own same unfolding bigs_ok_def span T'(7) big_path_bigs [OF T(2)] by (auto simp: T(2))
  show "bpages (bigs s' b) \<noteq> c + SLOB_UNIT" if "b \<in> set bs" for b
    using FP [OF big_page(1) [OF I(4) that]] big_page(2) [OF I(4) that] cF(2) by (auto simp: T(2))
  let ?P = "\<Union>p\<in>free_set (pm s') ps'. page_bytes (p + nbase)"
  have m: "free_mem s ps B = F \<union> ?P" using g by (auto simp: grown_def free_mem_def)
  have "page_bytes (p + nbase) \<inter> blk s' c = {}" if "p \<in> free_set (pm s') ps'" for p
    using T'(1) sub(2) that unfolding supplied_def by blast
  then have d: "?P \<inter> blk s' c = {}" by blast
  show "blk s' c \<subseteq> free_mem s ps B" using sub(2) m by blast
  have "free_mem s' ps' B' = (F - blk s' c) \<union> ?P" by (simp add: free_mem_def T'(3) bc)
  also have "\<dots> = (F \<union> ?P) - blk s' c" using d by blast
  finally show "free_mem s' ps' B' = free_mem s ps B - blk s' c" by (simp add: m)
qed

text \<open>Putting a block back.\<close>

lemma release_ok:
  assumes H: "heap_ok arena s B" "supplied arena s ps (free_bytes s B)" "small_ok arena s ps B (insert c L)" "bigs_ok arena s ps B (insert c L) bs"
    and c: "c \<notin> L" "c \<notin> set bs" and sz: "sz \<noteq> 0 \<Longrightarrow> units (cells s c) = int (SLOB_UNITS sz)"
  obtains s' B' where "slob_free c sz s = Some s'" "heap_inv arena s' ps B' L bs" "free_mem s' ps B' = free_mem s ps B \<union> blk s c"
    "bigs s' = bigs s" "machine.truncate s' = machine.truncate s"
proof -
  have c': "bend s arena < c" "2 \<le> units (cells s c)" "{c ..< unit_at c (units (cells s c))} \<inter> free_bytes s B = {}" "1 \<le> units (cells s c)"
    "\<And>p. p \<in> free_set (pm s) ps \<Longrightarrow> page_bytes (p + nbase) \<inter> blk s c = {}" "\<And>d. d \<in> L \<Longrightarrow> blk s c \<inter> blk s d = {}"
    using small_okD [OF H(3) insertI1] c(1) unfolding blk_def by (simp_all, blast)
  have n: "units (cells s c) = (if sz \<noteq> 0 then int (SLOB_UNITS sz) else units (cells s c))" using sz by simp
  obtain s' B' where f: "slob_free c sz s = Some s'" "heap_ok arena s' B'" "free_bytes s' B' = free_bytes s B \<union> {c ..< unit_at c (units (cells s c))}"
      "\<And>a. a \<notin> insert c B \<Longrightarrow> cells s' a = cells s a" "machine.truncate s' = machine.truncate s" "bigs s' = bigs s" "bigblocks s' = bigblocks s"
    by (rule slob_free_ok [OF H(1) c'(1,3,4) n]) (rule that; assumption)
  note fb = f(3) [folded blk_def]
  have p: "pm s' = pm s" "npage s' = npage s" using truncate_sel f(5) by metis+
  have B: "B \<subseteq> free_bytes s B" using H(1) by (auto simp: heap_ok_def ring_def free_bytes_def bytes_def)
  have same: "cells s' d = cells s d" if "d \<in> L" for d
  proof (rule f(4))
    note small_okD(3,4) [OF H(3) insertI2 [OF that]]
    then show "d \<notin> insert c B" using that c(1) B by blast
  qed
  have bl: "blk s' d = blk s d" if "d \<in> L" for d by (rule blk_cong [OF same [OF that]])
  have ar: "bend s' arena = bend s arena" using arena_end [OF H(1)] arena_end [OF f(2)] by simp
  have "supplied arena s' ps (free_bytes s' B')" using H(2) c'(5) unfolding supplied_def p f(5) fb by blast
  moreover have "small_ok arena s' ps B' L"
    using H(3) c'(6) bl same unfolding small_ok_def p(1) ar fb by auto
  moreover have "bigs_ok arena s' ps B' L bs"
  proof -
    have sub: "set bs \<subseteq> L" using H(4) c(2) by (auto simp: bigs_ok_def)
    have own: "page_own arena s' ps B' L q" if "page_own arena s ps B (insert c L) q" for q
      using that bl unfolding page_own_def p fb by auto
    have span: "page_span s' b = page_span s b" for b by (simp add: page_span_def f(6))
    show ?thesis using H(4) sub own same unfolding bigs_ok_def span f(7) big_path_bigs [OF f(6)] by (auto simp: f(6))
  qed
  moreover have "free_mem s' ps B' = free_mem s ps B \<union> blk s c" by (auto simp: free_mem_def p fb)
  ultimately show thesis using that [OF f(1)] f(2,5,6) by (simp add: heap_inv_def)
qed

text \<open>The pages of a big block are taken, and its descriptor \<open>c\<close> enters the list.\<close>

lemma pages_taken_ok:
  assumes H: "heap_ok arena s B" "supplied arena s ps (free_bytes s B)" "small_ok arena s ps B (insert c L)" "bigs_ok arena s ps B (insert c L) bs"
    and c: "c \<notin> set bs" "c \<noteq> 0" "units (cells s c) = 2" and span: "{p ..< p + 2 ^ k} \<subseteq> free_set (pm s) ps"
    and s': "cells s' = cells s" "slobfree s' = slobfree s" "same_pages s s'" "tables_ok (machine.truncate s') ps' {}"
      "free_set (pm s') ps' = free_set (pm s) ps - {p ..< p + 2 ^ k}"
      "\<And>b. b \<noteq> c \<Longrightarrow> bigs s' b = bigs s b" "bigs s' c = \<lparr>border = k, bpages = (p + nbase) * PAGE_SIZE, bbnext = bigblocks s\<rparr>" "bigblocks s' = c"
  shows "heap_inv arena s' ps' B (insert c L) (c # bs)" and "page_span s' c = {p ..< p + 2 ^ k}"
    "free_mem s' ps' B = free_mem s ps B - (\<Union>q\<in>page_span s' c. page_bytes (q + nbase))"
proof -
  have h: "heap_ok arena s' B" "free_bytes s' B = free_bytes s B" using heap_cong [of B s' s] s'(1,2) H(1) by simp_all
  have b: "blk s' = blk s" "bend s' = bend s" using s'(1) by (simp_all add: blk_def bend_def fun_eq_iff)
  have fs: "free_set (pm s') ps' \<subseteq> free_set (pm s) ps" using s'(5) by simp
  show sc: "page_span s' c = {p ..< p + 2 ^ k}" by (simp add: page_span_def s'(7))
  have sb: "page_span s' x = page_span s x" if "x \<in> set bs" for x using c(1) that by (intro page_span_cong s'(6)) auto
  have "supplied arena s' ps' (free_bytes s' B)" using H(2) s'(4) fs unfolding supplied_def h(2) by blast
  moreover have "small_ok arena s' ps' B (insert c L)" using H(3) fs unfolding small_ok_def b h(2) s'(1) by blast
  moreover have "bigs_ok arena s' ps' B (insert c L) (c # bs)"
  proof -
    have own: "page_own arena s' ps' B (insert c L) q" if "page_own arena s ps B (insert c L) q" for q
      using that fs s'(3) unfolding page_own_def same_pages_def b h(2) by auto
    have new: "page_own arena s' ps' B (insert c L) q" if q: "q \<in> {p ..< p + 2 ^ k}" for q
    proof -
      have f: "q \<in> free_set (pm s) ps" using q span by blast
      have "ff_inv (pm s) ps" "q + nbase < npage s" using H(2) f by (simp_all add: supplied_def tables_ok_def)
      then have "q + nbase < npage s'" "\<not> PageReserved (pages (pm s') q)" using f s'(3) by (auto simp: ff_inv_def free_set_def same_pages_def)
      moreover have "arena + SLOB_UNIT < (q + nbase) * PAGE_SIZE" "page_bytes (q + nbase) \<inter> free_bytes s B = {}" using H(2) f by (simp_all add: supplied_def)
      ultimately show ?thesis using q s'(5) small_okD(6) [OF H(3) _ f] unfolding page_own_def b h(2) by blast
    qed
    have d: "page_span s c' \<inter> {p ..< p + 2 ^ k} = {}" if "c' \<in> set bs" for c'
      using H(4) that span by (fastforce simp: bigs_ok_def page_own_def)
    have "\<forall>b\<in>set bs. bigs s' b = bigs s b" using c(1) s'(6) by metis
    then have "big_path s' (bigblocks s) bs" using H(4) big_path_cong [of bs s' s] by (simp add: bigs_ok_def)
    then have 1: "big_path s' (bigblocks s') (c # bs)" using c(2) s'(7,8) by simp
    have 2: "units (cells s' b) = 2 \<and> bpages (bigs s' b) mod PAGE_SIZE = 0 \<and> nbase * PAGE_SIZE \<le> bpages (bigs s' b) \<and>
        (\<forall>q\<in>page_span s' b. page_own arena s' ps' B (insert c L) q)" if "b \<in> set (c # bs)" for b
    proof (cases "b = c")
      case True
      then show ?thesis using c(3) s'(1,7) sc new by simp
    next
      case False
      then have "b \<in> set bs" using that by simp
      then show ?thesis using H(4) own s'(1) s'(6) [OF False] sb by (simp add: bigs_ok_def)
    qed
    have 3: "page_span s' x \<inter> page_span s' y = {}" if xy: "x \<in> set (c # bs)" "y \<in> set (c # bs)" "x \<noteq> y" for x y
    proof -
      consider "x = c" "y \<in> set bs" | "y = c" "x \<in> set bs" | "x \<in> set bs" "y \<in> set bs" using xy by auto
      then show ?thesis using d sb sc H(4) xy(3) by cases (auto simp: bigs_ok_def Int_commute)
    qed
    show ?thesis using 1 2 3 H(4) c(1) unfolding bigs_ok_def by auto
  qed
  ultimately show "heap_inv arena s' ps' B (insert c L) (c # bs)" using h(1) by (simp add: heap_inv_def)
  let ?P = "\<lambda>X. \<Union>q\<in>X. page_bytes (q + nbase)"
  have ap: "page_bytes (q + nbase) \<inter> page_bytes (q' + nbase) = {}" if "q \<in> {p ..< p + 2 ^ k}" "q' \<in> free_set (pm s) ps - {p ..< p + 2 ^ k}" for q q'
    by (rule page_apart) (use that in auto)
  have "?P {p ..< p + 2 ^ k} \<inter> free_bytes s B = {}" using H(2) span unfolding supplied_def by blast
  moreover have "?P {p ..< p + 2 ^ k} \<inter> ?P (free_set (pm s) ps - {p ..< p + 2 ^ k}) = {}" using ap by blast
  moreover have "?P (free_set (pm s) ps) = ?P {p ..< p + 2 ^ k} \<union> ?P (free_set (pm s) ps - {p ..< p + 2 ^ k})" using span by blast
  moreover have "A \<union> D = A \<union> (C \<union> D) - C" if "C \<inter> A = {}" "C \<inter> D = {}" for A C D :: "nat set" using that by blast
  ultimately show "free_mem s' ps' B = free_mem s ps B - ?P (page_span s' c)" by (simp only: free_mem_def h(2) s'(5) sc)
qed

text \<open>The list of the big blocks: finding a block, and taking it out.\<close>

lemma big_path_nonzero: "big_path s a bs \<Longrightarrow> b \<in> set bs \<Longrightarrow> b \<noteq> 0"
  by (induction bs arbitrary: a) auto

lemma big_search_found:
  "big_path s a (us @ b # vs) \<Longrightarrow> \<forall>u\<in>set us. bpages (bigs s u) \<noteq> r \<Longrightarrow> bpages (bigs s b) = r \<Longrightarrow>
     big_search r lst a s = Some (Some (if us = [] then lst else last us, b))"
  by (induction us arbitrary: a lst) (simp_all add: big_search.simps)

definition big_unlink :: "nat \<Rightarrow> nat \<Rightarrow> kheap \<Rightarrow> kheap" where
  "big_unlink lst bb s =
     (if lst = 0 then s\<lparr>bigblocks := bbnext (bigs s bb)\<rparr> else upd_big lst (\<lambda>b. b\<lparr>bbnext := bbnext (bigs s bb)\<rparr>) s)"

lemma big_path_unlink:
  assumes "big_path s a (us @ b # vs)" "distinct (us @ b # vs)" "us \<noteq> []"
  shows "big_path (upd_big (last us) (\<lambda>x. x\<lparr>bbnext := bbnext (bigs s b)\<rparr>) s) a (us @ vs)"
  using assms
proof (induction us arbitrary: a)
  case (Cons u us)
  show ?case
  proof (cases "us = []")
    case True
    have "big_path (upd_big u (\<lambda>x. x\<lparr>bbnext := bbnext (bigs s b)\<rparr>) s) (bbnext (bigs s b)) vs = big_path s (bbnext (bigs s b)) vs"
      using Cons.prems(2) by (intro big_path_cong) (auto simp: upd_big_def)
    then show ?thesis using Cons.prems(1) True by (auto simp: upd_big_def)
  next
    case False
    then have "last us \<noteq> u" using Cons.prems(2) by auto
    then show ?thesis using Cons False by (auto simp: upd_big_def)
  qed
qed simp

lemma big_unlink_ok:
  assumes p: "big_path s (bigblocks s) (us @ b # vs)" "distinct (us @ b # vs)"
  defines "s' \<equiv> big_unlink (if us = [] then 0 else last us) b s"
  shows "big_path s' (bigblocks s') (us @ vs)" "cells s' = cells s" "slobfree s' = slobfree s" "machine.truncate s' = machine.truncate s"
    "border (bigs s' x) = border (bigs s x)" "bpages (bigs s' x) = bpages (bigs s x)"
proof -
  show "cells s' = cells s" "slobfree s' = slobfree s" "machine.truncate s' = machine.truncate s"
    "border (bigs s' x) = border (bigs s x)" "bpages (bigs s' x) = bpages (bigs s x)"
    by (simp_all add: s'_def big_unlink_def upd_big_def machine.defs)
  show "big_path s' (bigblocks s') (us @ vs)"
  proof (cases "us = []")
    case True
    have "big_path (s\<lparr>bigblocks := bbnext (bigs s b)\<rparr>) (bbnext (bigs s b)) vs = big_path s (bbnext (bigs s b)) vs" by (intro big_path_bigs) simp
    then show ?thesis using p(1) True by (simp add: s'_def big_unlink_def)
  next
    case False
    then have "last us \<noteq> 0" using big_path_nonzero [OF p(1), of "last us"] by simp
    then show ?thesis using big_path_unlink [OF p False] False by (simp add: s'_def big_unlink_def) (simp add: upd_big_def)
  qed
qed

text \<open>Giving back the pages of a big block.\<close>

lemma PPN_kva: "n < 2 ^ 52 \<Longrightarrow> PPN (word_of_nat (n * PAGE_SIZE)) = n"
proof -
  have "(word_of_nat (n * PAGE_SIZE) :: 64 word) = push_bit 12 (word_of_nat n)" by (simp add: push_bit_eq_mult)
  then show "n < 2 ^ 52 \<Longrightarrow> PPN (word_of_nat (n * PAGE_SIZE)) = n" using PPN_shift by simp
qed

lemma clear_pages_reserved: "clear_pages p k a = Some b \<Longrightarrow> PageReserved (pages b q) \<Longrightarrow> PageReserved (pages a q)"
proof (induction p k a arbitrary: b rule: clear_pages.induct)
  case (2 p k a)
  then have "kassert (\<not> PageReserved (pages a p) \<and> \<not> PageProperty (pages a p)) = Some ()"
    "clear_pages (Suc p) k (upd_page p (\<lambda>g. set_page_ref 0 (g\<lparr>flags := 0\<rparr>)) a) = Some b" by (auto split: bind_splits if_splits)
  from "2.IH" [OF this "2.prems"(2)] show ?case by (auto simp: set_page_ref_def PageReserved_def split: if_splits)
qed auto

lemma free_pages_reserved:
  assumes "default_free_pages p n a = Some b" "PageReserved (pages b q)"
  shows "PageReserved (pages a q)"
proof -
  note res = PageReserved_def SetPageProperty_def ClearPageProperty_def
  from assms(1) obtain a1 a2 where a1: "clear_pages p n a = Some a1"
    and a2: "insert_block p ((upd_page p SetPageProperty (upd_page p (\<lambda>g. g\<lparr>property := u32 n\<rparr>) a1))\<lparr>nr_free := u32 (nr_free a1 + n)\<rparr>) = Some a2"
    and b: "b = (case merge_prev p a2 of (base, a) \<Rightarrow> merge_next base a)"
    by (auto simp: default_free_pages_def Let_def split: bind_splits prod.splits if_splits)
  have next_res: "PageReserved (pages (merge_next p a) q) = PageReserved (pages a q)" for p a
    by (simp add: merge_next_def Let_def res bit_simps split: pnode.split)
  have prev_res: "PageReserved (pages (snd (merge_prev p a)) q) = PageReserved (pages a q)" for p a
    by (simp add: merge_prev_def Let_def res bit_simps split: pnode.split)
  have "PageReserved (pages a2 q)" using assms(2) prev_res [of p a2] by (cases "merge_prev p a2") (simp add: b next_res)
  moreover have "pages a2 = pages (upd_page p SetPageProperty (upd_page p (\<lambda>g. g\<lparr>property := u32 n\<rparr>) a1))"
    using a2 by (auto simp: insert_block_def split: if_splits bind_splits)
  ultimately have "PageReserved (pages a1 q)" by (simp add: res bit_simps split: if_splits)
  then show ?thesis using clear_pages_reserved [OF a1] by blast
qed

lemma pages_freed_ok:
  assumes inv: "heap_ok arena s B" "supplied arena s ps (free_bytes s B)" "small_ok arena s ps B L" "bigs_ok arena s ps B L (us @ b # vs)"
    and fr: "nr_free (pm s) + 2 ^ border (bigs s b) < 2 ^ 32" "ps = [] \<or> (\<exists>v\<in>set ps. bpages (bigs s b) div PAGE_SIZE - nbase < v)"
  defines "s1 \<equiv> big_unlink (if us = [] then 0 else last us) b s"
  obtains m ps' where "slob_free_pages (bpages (bigs s b)) (border (bigs s b)) s1 = Some (on_machine m s1)"
    "heap_ok arena (on_machine m s1) B" "supplied arena (on_machine m s1) ps' (free_bytes (on_machine m s1) B)"
    "small_ok arena (on_machine m s1) ps' B L" "bigs_ok arena (on_machine m s1) ps' B L (us @ vs)"
    "free_mem (on_machine m s1) ps' B = free_mem s ps B \<union> (\<Union>p\<in>page_span s b. page_bytes (p + nbase))"
proof -
  let ?r = "bpages (bigs s b)" and ?k = "border (bigs s b)"
  let ?q = "?r div PAGE_SIZE - nbase"
  have B: "big_path s (bigblocks s) (us @ b # vs)" "distinct (us @ b # vs)" "nbase * PAGE_SIZE \<le> ?r" "?r mod PAGE_SIZE = 0"
    "\<And>p. p \<in> page_span s b \<Longrightarrow> page_own arena s ps B L p" using inv(4) by (simp_all add: bigs_ok_def)
  note ul = big_unlink_ok [OF B(1,2), folded s1_def]
  have pm1: "pm s1 = pm s" "npage s1 = npage s" using truncate_sel ul(4) by metis+
  have sp: "page_span s b = {?q ..< ?q + 2 ^ ?k}" by (simp add: page_span_def)
  have "?q \<in> page_span s b" by (simp add: sp)
  then have own: "page_own arena s ps B L ?q" by (rule B(5))
  have r: "?r = (?q + nbase) * PAGE_SIZE" using B(3,4) by (auto elim!: dvdE simp: mod_eq_0_iff_dvd)
  have ok: "ff_inv (pm s) ps" "npage s \<le> 2 ^ 44" using inv(2) by (simp_all add: supplied_def tables_ok_def)
  have np: "?q + nbase < npage s" using own by (simp add: page_own_def)
  then have "PPN (word_of_nat ?r) = ?q + nbase" using ok(2) by (subst r) (rule PPN_kva, simp)
  then have pp: "pa2page (word_of_nat ?r) (machine.truncate s1) = Some ?q" using np by (simp add: pa2page_def pm1)
  have dis: "{?q ..< ?q + 2 ^ ?k} \<inter> free_set (pm s) ps = {}" "\<forall>p\<in>{?q ..< ?q + 2 ^ ?k}. \<not> PageReserved (pages (pm s) p)"
    using B(5) unfolding sp page_own_def by blast+
  have pos: "0 < (2 :: nat) ^ ?k" by simp
  from free_keeps_inv [OF ok(1) pos dis fr] obtain a ps' where a: "default_free_pages ?q (2 ^ ?k) (pm s) = Some a" "ff_inv a ps'"
    "free_set a ps' = free_set (pm s) ps \<union> page_span s b" unfolding sp by blast
  let ?m = "(machine.truncate s1)\<lparr>pm := a\<rparr>"
  let ?s2 = "on_machine ?m s1"
  have run: "slob_free_pages ?r ?k s1 = Some ?s2" using pp a(1) by (simp add: slob_free_pages_def free_pages_def pm1)
  have res: "\<not> PageReserved (pages a p)" if "\<not> PageReserved (pages (pm s) p)" for p using free_pages_reserved [OF a(1)] that by blast
  have c: "cells ?s2 = cells s" "slobfree ?s2 = slobfree s" "npage ?s2 = npage s" "pm ?s2 = a" "machine.truncate ?s2 = ?m"
    using ul(2,3) pm1 by (simp_all add: on_machine_def machine.defs)
  have h: "heap_ok arena ?s2 B" "free_bytes ?s2 B = free_bytes s B" using heap_cong [of B ?s2 s] c(1,2) inv(1) by simp_all
  have bb: "blk ?s2 = blk s" "bend ?s2 = bend s" using c(1) by (simp_all add: blk_def bend_def fun_eq_iff)
  have f: "free_set (pm ?s2) ps' = free_set (pm s) ps \<union> page_span s b" using a(3) c(4) by simp
  have "tables_ok ?m ps' {}" using inv(2) a(2,3) ok(2) B(5) pm1 by (auto simp: supplied_def tables_ok_def page_own_def)
  then have sup: "supplied arena ?s2 ps' (free_bytes ?s2 B)" using inv(2) B(5) unfolding supplied_def f h(2) c(5) by (auto simp: page_own_def)
  have sm: "small_ok arena ?s2 ps' B L" using inv(3) B(5) unfolding small_ok_def f h(2) bb c(1) page_own_def by blast
  have span: "page_span ?s2 x = page_span s x" for x using ul(5,6) by (simp add: page_span_def)
  have own': "page_own arena ?s2 ps' B L p" if "page_own arena s ps B L p" "p \<notin> page_span s b" for p
    using that res a(3) by (simp add: page_own_def h(2) bb c(3,4))
  have "bigs_ok arena ?s2 ps' B L (us @ vs)"
  proof -
    have pth: "big_path ?s2 (bigblocks ?s2) (us @ vs)" using ul(1) by (simp add: big_path_bigs [of ?s2 s1])
    have sub: "set (us @ vs) \<subseteq> set (us @ b # vs)" "b \<notin> set (us @ vs)" using B(2) by auto
    have "page_span s x \<inter> page_span s b = {}" if "x \<in> set (us @ vs)" for x
      using inv(4) that sub unfolding bigs_ok_def by (metis in_set_conv_decomp subsetD)
    then have "page_own arena ?s2 ps' B L p" if "x \<in> set (us @ vs)" "p \<in> page_span s x" for x p
      using own' [of p] inv(4) that sub(1) unfolding bigs_ok_def by blast
    then show ?thesis using pth inv(4) sub B(2) ul(6) unfolding bigs_ok_def span c(1) by auto
  qed
  then show thesis using that [OF run, of ps'] h(1) sup sm f by (simp add: free_mem_def h(2) Un_assoc)
qed

lemma find_unique:
  assumes "x \<in> set xs" "P x" and "\<And>y. y \<in> set xs \<Longrightarrow> P y \<Longrightarrow> y = x"
  shows "find P xs = Some x"
proof (cases "find P xs")
  case None
  then show ?thesis using assms(1,2) by (simp add: find_None_iff)
next
  case (Some y)
  then have "y \<in> set xs" "P y" by (auto simp: find_Some_iff)
  then show ?thesis using assms(3) Some by simp
qed

text \<open>\<^verbatim>\<open>kfree\<close> of a pointer that is in use, whatever was allocated after it.\<close>

lemma kfree_live:
  assumes inv: "heap_inv arena s ps B L bs" and r: "r \<in> live s L bs" and fr: "freeable s ps bs r"
  shows "\<exists>s' ps' B' L' bs'. kfree r s = Some s' \<and> heap_inv arena s' ps' B' L' bs' \<and> live s' L' bs' = live s L bs - {r} \<and>
     free_mem s' ps' B' = free_mem s ps B \<union> owned s bs r"
proof -
  have I: "heap_ok arena s B" "supplied arena s ps (free_bytes s B)" "small_ok arena s ps B L" "bigs_ok arena s ps B L bs"
    using inv by (simp_all add: heap_inv_def)
  have bs: "big_path s (bigblocks s) bs" "distinct bs" "set bs \<subseteq> L" using I(4) by (simp_all add: bigs_ok_def)
  have head: "bpages (bigs s b) \<noteq> c + SLOB_UNIT" if "b \<in> set bs" "c \<in> L" for b c
    using live_unlike(2) [OF I(4) that small_okD(5) [OF I(3) that(2)]] .
  show ?thesis
  proof (cases "r \<in> (\<lambda>b. bpages (bigs s b)) ` set bs")
    case False
    then obtain c where c: "c \<in> L" "c \<notin> set bs" "r = c + SLOB_UNIT" using r by (auto simp: live_def)
    have nb: "\<forall>b\<in>set bs. bpages (bigs s b) \<noteq> r" using False by auto
    have L: "insert c (L - {c}) = L" using c(1) by auto
    have kf: "kfree r s = slob_free c 0 s" using big_search_none [OF bs(1) nb] c(3) by (simp add: kfree_def)
    obtain s' B' where s': "slob_free c 0 s = Some s'" "heap_inv arena s' ps B' (L - {c}) bs" "free_mem s' ps B' = free_mem s ps B \<union> blk s c"
      "bigs s' = bigs s" by (rule release_ok [of arena s B ps c "L - {c}" bs 0]) (use I L c(2) in auto)
    have "(\<lambda>c. c + SLOB_UNIT) ` (L - {c} - set bs) = (\<lambda>c. c + SLOB_UNIT) ` (L - set bs) - {r}" using c by auto
    then have "live s' (L - {c}) bs = live s L bs - {r}" unfolding live_def s'(4) using False by blast
    moreover have "find (\<lambda>b. bpages (bigs s b) = r) bs = None" using nb by (simp add: find_None_iff)
    then have "owned s bs r = blk s c" using c(3) by (simp add: owned_def)
    ultimately show ?thesis using kf s'(1-3) by auto
  next
    case True
    then obtain b where b: "b \<in> set bs" "r = bpages (bigs s b)" by auto
    then obtain us vs where bv: "bs = us @ b # vs" by (meson split_list)
    have uniq: "y = b" if "y \<in> set bs" "bpages (bigs s y) = r" for y using live_unlike(4) [OF I(4) that(1) b(1)] that(2) b(2) by simp
    have us: "\<forall>u\<in>set us. bpages (bigs s u) \<noteq> r"
    proof
      fix u assume "u \<in> set us"
      then show "bpages (bigs s u) \<noteq> r" using uniq [of u] bs(2) by (auto simp: bv)
    qed
    have al: "r mod PAGE_SIZE = 0" "r \<noteq> 0" "units (cells s b) = 2" using I(4) b by (auto simp: bigs_ok_def)
    have F: "nr_free (pm s) + 2 ^ border (bigs s b) < 2 ^ 32" "ps = [] \<or> (\<exists>v\<in>set ps. bpages (bigs s b) div PAGE_SIZE - nbase < v)"
      using fr b by (auto simp: freeable_def)
    let ?lst = "if us = [] then 0 else last us"
    let ?s1 = "big_unlink ?lst b s"
    obtain m ps' where m: "slob_free_pages (bpages (bigs s b)) (border (bigs s b)) ?s1 = Some (on_machine m ?s1)"
      "heap_ok arena (on_machine m ?s1) B" "supplied arena (on_machine m ?s1) ps' (free_bytes (on_machine m ?s1) B)"
      "small_ok arena (on_machine m ?s1) ps' B L" "bigs_ok arena (on_machine m ?s1) ps' B L (us @ vs)"
      "free_mem (on_machine m ?s1) ps' B = free_mem s ps B \<union> (\<Union>p\<in>page_span s b. page_bytes (p + nbase))"
      by (rule pages_freed_ok [OF I(1-3) I(4) [unfolded bv] F]) (rule that; assumption)
    note ul = big_unlink_ok [OF bs(1,2) [unfolded bv]]
    let ?s2 = "on_machine m ?s1"
    have L: "insert b (L - {b}) = L" "b \<notin> set (us @ vs)" "set bs = insert b (set (us @ vs))" using b bs(2,3) by (auto simp: bv)
    have u: "units (cells ?s2 b) = int (SLOB_UNITS 24)" using ul(2) al(3) by (simp add: SLOB_UNITS_def)
    obtain s' B' where s': "slob_free b 24 ?s2 = Some s'" "heap_inv arena s' ps' B' (L - {b}) (us @ vs)"
      "free_mem s' ps' B' = free_mem ?s2 ps' B \<union> blk ?s2 b" "bigs s' = bigs ?s2"
      by (rule release_ok [of arena ?s2 B ps' b "L - {b}" "us @ vs" 24]) (use m(2-5) L(1,2) u in \<open>auto simp: insert_absorb\<close>)
    have "kfree r s = do { s \<leftarrow> slob_free_pages r (border (bigs ?s1 b)) ?s1; slob_free b 24 s }"
      using al(1,2) big_search_found [OF bs(1) [unfolded bv] us b(2) [symmetric], of 0] by (simp add: kfree_def big_unlink_def Let_def)
    then have kf: "kfree r s = Some s'" using m(1) s'(1) ul(5) b(2) by simp
    have lv: "live s' (L - {b}) (us @ vs) = live s L bs - {r}"
    proof -
      have bp: "bpages (bigs s' x) = bpages (bigs s x)" for x using ul(6) by (simp add: s'(4))
      have "(\<lambda>x. bpages (bigs s x)) ` set (us @ vs) = (\<lambda>x. bpages (bigs s x)) ` set bs - {r}"
        using uniq L(2,3) b(2) by auto
      moreover have "r \<notin> (\<lambda>c. c + SLOB_UNIT) ` (L - set bs)" using head [OF b(1)] b(2) by auto
      moreover have "L - {b} - set (us @ vs) = L - set bs" using L(3) by auto
      ultimately show ?thesis unfolding live_def bp by auto
    qed
    have "find (\<lambda>x. bpages (bigs s x) = r) bs = Some b"
      by (rule find_unique [where P = "\<lambda>x. bpages (bigs s x) = r", OF b(1) b(2) [symmetric] uniq])
    then have "owned s bs r = blk s b \<union> (\<Union>p\<in>page_span s b. page_bytes (p + nbase))" by (simp add: owned_def)
    moreover have "blk ?s2 b = blk s b" using ul(2) by (simp add: blk_def)
    ultimately have "free_mem s' ps' B' = free_mem s ps B \<union> owned s bs r" by (simp add: s'(3) m(6) Un_ac)
    then show ?thesis using kf s'(2) lv by blast
  qed
qed

lemma live_nonzero:
  assumes "heap_inv arena s ps B L bs"
  shows "0 \<notin> live s L bs"
  using assms by (auto simp: heap_inv_def live_def bigs_ok_def)

text \<open>\<^verbatim>\<open>kmalloc\<close> of any size, small or big.\<close>

lemma kmalloc_inv:
  assumes inv: "heap_inv arena s ps B L bs" and sz: "0 < sz" "sz < 4064 \<or> 4080 \<le> sz"
  shows "\<exists>r s' ps' B' L' bs'. kmalloc sz s = Some (r, s') \<and> heap_inv arena s' ps' B' L' bs' \<and>
     (r = 0 \<and> live s' L' bs' = live s L bs \<and> free_mem s' ps' B' = free_mem s ps B \<or>
      r \<noteq> 0 \<and> r \<notin> live s L bs \<and> live s' L' bs' = insert r (live s L bs) \<and> owned s' bs' r \<subseteq> free_mem s ps B \<and>
        free_mem s' ps' B' = free_mem s ps B - owned s' bs' r \<and> (sz < 4064 \<longrightarrow> {r ..< r + sz} \<subseteq> owned s' bs' r))"
proof -
  have I: "heap_ok arena s B" "supplied arena s ps (free_bytes s B)" "small_ok arena s ps B L" "bigs_ok arena s ps B L bs"
    using inv by (simp_all add: heap_inv_def)
  have bsL: "set bs \<subseteq> L" using I(4) by (simp add: bigs_ok_def)
  show ?thesis
  proof (cases "sz < 4064")
    case True
    let ?n = "int (SLOB_UNITS (sz + SLOB_UNIT))"
    have n: "2 \<le> ?n" "unit_at c ?n \<ge> c + SLOB_UNIT + sz" for c using sz(1) by (simp_all add: SLOB_UNITS_def unit_end)
    from kmalloc_small [OF I(1,2) sz(1) True] show ?thesis
    proof (elim disjE exE conjE)
      assume "kmalloc sz s = Some (0, s)"
      then show ?thesis using inv by blast
    next
      fix c s' ps' B' F assume a: "kmalloc sz s = Some (c + SLOB_UNIT, s')" "grown s ps (free_bytes s B) s' ps' F" "block_taken arena s F ?n c s' ps' B'"
      note t = taken_inv [OF inv a(2,3) n(1)]
      let ?r = "c + SLOB_UNIT"
      have "find (\<lambda>b. bpages (bigs s' b) = ?r) bs = None" using t(9) by (auto simp: find_None_iff)
      then have o: "owned s' bs ?r = blk s' c" by (simp add: owned_def)
      have "c \<notin> set bs" using bsL t(5) by blast
      then have "live s' (insert c L) bs = insert ?r (live s L bs)" by (auto simp: live_def t(10))
      moreover have "?r \<notin> (\<lambda>b. bpages (bigs s b)) ` set bs" using t(9) unfolding t(10) by (metis imageE)
      then have "?r \<notin> live s L bs" using t(5) by (auto simp: live_def)
      moreover have "{?r ..< ?r + sz} \<subseteq> blk s' c" using n(2) [of c] by (auto simp: t(6))
      moreover have "heap_inv arena s' ps' B' (insert c L) bs" using t(1-4) by (simp add: heap_inv_def)
      ultimately show ?thesis using a(1) t(7,8) o
        by (intro exI [of _ ?r] exI [of _ s'] exI [of _ ps'] exI [of _ B'] exI [of _ "insert c L"] exI [of _ bs]) simp
    qed
  next
    case False
    then have big: "\<not> sz < PAGE_SIZE - SLOB_UNIT" using sz(2) by auto
    have small: "SLOB_UNIT < 24" "24 + SLOB_UNIT < PAGE_SIZE" "(2 :: int) \<le> int (SLOB_UNITS 24)" by (simp_all add: SLOB_UNITS_def)
    from slob_alloc_ok [OF I(1,2) small(1,2)] show ?thesis
    proof (elim disjE exE conjE)
      assume "slob_alloc 24 0 s = Some (0, s)"
      then have "kmalloc sz s = Some (0, s)" using big by (simp add: kmalloc_def)
      then show ?thesis using inv by blast
    next
      fix c s1 ps1 B1 F assume a: "slob_alloc 24 0 s = Some (c, s1)" "grown s ps (free_bytes s B) s1 ps1 F" "block_taken arena s F (int (SLOB_UNITS 24)) c s1 ps1 B1"
      note t = taken_inv [OF inv a(2,3) small(3)]
      have c: "c \<noteq> 0" "units (cells s1 c) = 2" "bigblocks s1 = bigblocks s" using a(3) by (simp_all add: block_taken_def SLOB_UNITS_def)
      have cb: "c \<notin> set bs" using bsL t(5) by blast
      let ?k = "find_order (s32 sz)"
      define s2 where "s2 = upd_big c (\<lambda>b. b\<lparr>border := ?k\<rparr>) s1"
      have s2: "cells s2 = cells s1" "slobfree s2 = slobfree s1" "machine.truncate s2 = machine.truncate s1" "bigblocks s2 = bigblocks s1"
        "\<forall>b\<in>set bs. bigs s2 b = bigs s1 b" using cb by (auto simp: s2_def upd_big_def machine.defs)
      have pm2: "pm s2 = pm s1" "npage s2 = npage s1" using truncate_sel s2(3) by metis+
      have H: "heap_ok arena s2 B1" "supplied arena s2 ps1 (free_bytes s2 B1)" "small_ok arena s2 ps1 B1 (insert c L)" "bigs_ok arena s2 ps1 B1 (insert c L) bs"
        using t(1-4) parts_cong [OF s2(1-3)] bigs_ok_cong [OF s2] by simp_all
      have run: "kmalloc sz s = do {
          (pg, s) \<leftarrow> slob_get_free_pages ?k s2;
          let s = upd_big c (\<lambda>b. b\<lparr>bpages := pg\<rparr>) s;
          (if pg \<noteq> 0 then Some (pg, (upd_big c (\<lambda>b. b\<lparr>bbnext := bigblocks s\<rparr>) s)\<lparr>bigblocks := c\<rparr>)
           else do { s \<leftarrow> slob_free c 24 s; Some (0, s) }) }"
        using big a(1) c(1) by (simp add: kmalloc_def s2_def Let_def)
      show ?thesis
      proof (cases rule: get_pages_ok [OF H(2), of ?k])
        case 1
        define s3 where "s3 = upd_big c (\<lambda>b. b\<lparr>bpages := 0\<rparr>) s2"
        have s3: "cells s3 = cells s2" "slobfree s3 = slobfree s2" "machine.truncate s3 = machine.truncate s2" "bigblocks s3 = bigblocks s2"
          "\<forall>b\<in>set bs. bigs s3 b = bigs s2 b" using cb by (auto simp: s3_def upd_big_def machine.defs)
        have H3: "heap_ok arena s3 B1" "supplied arena s3 ps1 (free_bytes s3 B1)" "small_ok arena s3 ps1 B1 (insert c L)" "bigs_ok arena s3 ps1 B1 (insert c L) bs"
          using H parts_cong [OF s3(1-3)] bigs_ok_cong [OF s3] by simp_all
        have u: "units (cells s3 c) = int (SLOB_UNITS 24)" using c(2) s2(1) s3(1) by (simp add: SLOB_UNITS_def)
        obtain s' B' where s': "slob_free c 24 s3 = Some s'" "heap_inv arena s' ps1 B' L bs" "free_mem s' ps1 B' = free_mem s3 ps1 B1 \<union> blk s3 c"
          "bigs s' = bigs s3" by (rule release_ok [OF H3 t(5) cb u]) (rule that; assumption)
        have "kmalloc sz s = Some (0, s')" using run 1(1) s'(1) by (simp add: s3_def)
        moreover have "live s' L bs = live s L bs" using s2(5) s3(5) by (auto simp: live_def s'(4) t(10))
        moreover have "free_mem s' ps1 B' = free_mem s ps B"
          using t(7,8) parts_cong(6,8) [OF s2(1-3)] parts_cong(6,8) [OF s3(1-3)] s'(3) by auto
        ultimately show ?thesis using s'(2) by blast
      next
        case (2 p m ps')
        let ?pg = "(p + nbase) * PAGE_SIZE"
        define s' where "s' = (upd_big c (\<lambda>b. b\<lparr>bbnext := bigblocks s2\<rparr>) (upd_big c (\<lambda>b. b\<lparr>bpages := ?pg\<rparr>) (on_machine m s2)))\<lparr>bigblocks := c\<rparr>"
        have km: "kmalloc sz s = Some (?pg, s')" using run 2(1) by (simp add: s'_def Let_def) (simp add: upd_big_def)
        have tr: "machine.truncate s' = m" by (cases m) (simp add: s'_def upd_big_def machine.defs on_machine_def)
        have f: "cells s' = cells s2" "slobfree s' = slobfree s2" "same_pages s2 s'" "tables_ok (machine.truncate s') ps' {}"
          "free_set (pm s') ps' = free_set (pm s2) ps1 - {p ..< p + 2 ^ ?k}" "\<And>b. b \<noteq> c \<Longrightarrow> bigs s' b = bigs s2 b"
          "bigs s' c = \<lparr>border = ?k, bpages = ?pg, bbnext = bigblocks s2\<rparr>" "bigblocks s' = c"
          using 2(3-5) unfolding tr by (simp_all add: s'_def upd_big_def same_pages_def on_machine_def) (simp_all add: s2_def upd_big_def)
        have u: "units (cells s2 c) = 2" using c(2) s2(1) by simp
        note P = pages_taken_ok [OF H cb c(1) u 2(2) f]
        have bl: "blk s' c = blk s1 c" using f(1) s2(1) by (simp add: blk_def)
        have "owned s' (c # bs) ?pg = blk s' c \<union> (\<Union>q\<in>page_span s' c. page_bytes (q + nbase))" by (simp add: owned_def f(7))
        moreover have "free_mem s' ps' B1 = free_mem s1 ps1 B1 - (\<Union>q\<in>page_span s' c. page_bytes (q + nbase))"
          using P(3) parts_cong(8) [OF s2(1-3)] by simp
        moreover have "page_bytes (q + nbase) \<subseteq> free_mem s ps B" if "q \<in> page_span s' c" for q
        proof -
          have "q \<in> free_set (pm s1) ps1" using that 2(2) P(2) pm2(1) by auto
          then show ?thesis using t(11) by (auto simp: free_mem_def)
        qed
        ultimately have mem: "free_mem s' ps' B1 = free_mem s ps B - owned s' (c # bs) ?pg" "owned s' (c # bs) ?pg \<subseteq> free_mem s ps B"
          using t(7,8) bl by (simp_all add: Diff_eq Int_assoc) blast
        have bp: "bpages (bigs s' b) = bpages (bigs s b)" if "b \<in> set bs" for b
        proof -
          have "b \<noteq> c" using that cb by blast
          then show ?thesis using that f(6) [of b] s2(5) t(10) by simp
        qed
        have "live s' (insert c L) (c # bs) = insert ?pg (live s L bs)"
        proof -
          have "insert c L - set (c # bs) = L - set bs" using t(5) by auto
          then show ?thesis using bp f(7) by (auto simp: live_def)
        qed
        moreover have "?pg \<notin> live s L bs"
        proof -
          have "p \<in> {p ..< p + 2 ^ ?k}" by simp
          then have f: "p \<in> free_set (pm s) ps" using 2(2) t(11) unfolding pm2(1) by blast
          have i: "?pg \<in> page_bytes (p + nbase)" by (simp add: page_bytes_def)
          have "?pg \<noteq> c' + SLOB_UNIT" if "c' \<in> L" for c'
            using small_okD(5) [OF I(3) that] small_okD(6) [OF I(3) that f] i by (metis IntI empty_iff)
          moreover have "?pg \<noteq> bpages (bigs s b)" if "b \<in> set bs" for b using live_unlike(3) [OF I(4) that f i] by metis
          ultimately show ?thesis unfolding live_def by blast
        qed
        ultimately show ?thesis using km P(1) mem False
          by (intro exI [of _ ?pg] exI [of _ s'] exI [of _ ps'] exI [of _ B1] exI [of _ "insert c L"] exI [of _ "c # bs"]) simp
      qed
    qed
  qed
qed

text \<open>C25: \<^verbatim>\<open>kmalloc\<close> and \<^verbatim>\<open>kfree\<close> in any state of the heap, for every size but those on which the assertion of \<^verbatim>\<open>slob_alloc\<close> fails.
  \<^verbatim>\<open>kmalloc\<close> returns \<^verbatim>\<open>NULL\<close> with the free memory and the pointers in use as before, or a new pointer, and what it owns, for a big block its
  pages and its descriptor, was free and is all that is no longer free; for a small size it has room behind it.  Afterwards \<^verbatim>\<open>kfree\<close> takes back any pointer in use, the
  new one as well as an older one: exactly what that pointer owns is free again, the other pointers stay, and the invariant holds: the ring of free blocks is sorted and
  merged, the list of the big blocks has lost this one, and the pages are back in the page allocator.  So the free memory after \<^verbatim>\<open>kfree\<close> of the new pointer is what it
  was.  (Pages that lie above every free page cannot be given back, see C3.)\<close>

theorem kmalloc_kfree:
  assumes "heap_inv arena s ps B L bs" and "0 < sz" "sz < 4064 \<or> 4080 \<le> sz"
  shows "\<exists>r s1 ps1 B1 L1 bs1. kmalloc sz s = Some (r, s1) \<and> heap_inv arena s1 ps1 B1 L1 bs1 \<and>
     (r = 0 \<and> live s1 L1 bs1 = live s L bs \<and> free_mem s1 ps1 B1 = free_mem s ps B \<or>
      r \<noteq> 0 \<and> r \<notin> live s L bs \<and> live s1 L1 bs1 = insert r (live s L bs) \<and> owned s1 bs1 r \<subseteq> free_mem s ps B \<and>
        free_mem s1 ps1 B1 = free_mem s ps B - owned s1 bs1 r \<and> (sz < 4064 \<longrightarrow> {r ..< r + sz} \<subseteq> owned s1 bs1 r)) \<and>
     (\<forall>r'\<in>live s1 L1 bs1. freeable s1 ps1 bs1 r' \<longrightarrow>
        (\<exists>s2 ps2 B2 L2 bs2. kfree r' s1 = Some s2 \<and> heap_inv arena s2 ps2 B2 L2 bs2 \<and> live s2 L2 bs2 = live s1 L1 bs1 - {r'} \<and>
           free_mem s2 ps2 B2 = free_mem s1 ps1 B1 \<union> owned s1 bs1 r' \<and> (r' = r \<longrightarrow> free_mem s2 ps2 B2 = free_mem s ps B)))"
proof -
  from kmalloc_inv [OF assms] obtain r s1 ps1 B1 L1 bs1 where k: "kmalloc sz s = Some (r, s1)" "heap_inv arena s1 ps1 B1 L1 bs1"
    and c: "r = 0 \<and> live s1 L1 bs1 = live s L bs \<and> free_mem s1 ps1 B1 = free_mem s ps B \<or>
      r \<noteq> 0 \<and> r \<notin> live s L bs \<and> live s1 L1 bs1 = insert r (live s L bs) \<and> owned s1 bs1 r \<subseteq> free_mem s ps B \<and>
        free_mem s1 ps1 B1 = free_mem s ps B - owned s1 bs1 r \<and> (sz < 4064 \<longrightarrow> {r ..< r + sz} \<subseteq> owned s1 bs1 r)" by blast
  have "0 \<notin> live s1 L1 bs1" using live_nonzero [OF k(2)] .
  then have whole: "free_mem s1 ps1 B1 \<union> owned s1 bs1 r' = free_mem s ps B" if "r' \<in> live s1 L1 bs1" "r' = r" for r' using c that by auto
  have free: "\<exists>s2 ps2 B2 L2 bs2. kfree r' s1 = Some s2 \<and> heap_inv arena s2 ps2 B2 L2 bs2 \<and> live s2 L2 bs2 = live s1 L1 bs1 - {r'} \<and>
      free_mem s2 ps2 B2 = free_mem s1 ps1 B1 \<union> owned s1 bs1 r' \<and> (r' = r \<longrightarrow> free_mem s2 ps2 B2 = free_mem s ps B)"
    if "r' \<in> live s1 L1 bs1" "freeable s1 ps1 bs1 r'" for r'
    using kfree_live [OF k(2) that] whole [OF that(1)] by metis
  show ?thesis
    by (rule exI [of _ r], rule exI [of _ s1], rule exI [of _ ps1], rule exI [of _ B1], rule exI [of _ L1], rule exI [of _ bs1],
        intro conjI ballI impI, rule k(1), rule k(2), rule c, rule free)
qed

text \<open>A big block may be too small.  For a size between \<open>2^k\<close> pages and \<open>2^k * 4097\<close> bytes \<^verbatim>\<open>kmalloc\<close> takes \<open>2^k\<close> pages from the page allocator and
  returns them, fewer bytes than it was asked for: \<^verbatim>\<open>find_order\<close> rounds down when it halves the size.\<close>

theorem kmalloc_big_too_small:
  assumes "heap_ok arena s B" "supplied arena s ps (free_bytes s B)" and sz: "2 ^ k * PAGE_SIZE < sz" "sz < 2 ^ k * 4097" "0 < k" "sz < 2 ^ 31"
    and r: "kmalloc sz s = Some (r, s')" "r \<noteq> 0"
  shows "\<exists>p s1 ps1 ps' F. r = (p + nbase) * PAGE_SIZE \<and> (p + 2 ^ k + nbase) * PAGE_SIZE < r + sz \<and>
    grown s ps (free_bytes s B) s1 ps1 F \<and> {p ..< p + 2 ^ k} \<subseteq> free_set (pm s1) ps1 \<and>
    free_set (pm s') ps' = free_set (pm s1) ps1 - {p ..< p + 2 ^ k}"
proof -
  have "2 ^ 1 * PAGE_SIZE \<le> 2 ^ k * PAGE_SIZE" using sz(3) by (intro mult_le_mono1 power_increasing) auto
  then have big: "\<not> sz < PAGE_SIZE - SLOB_UNIT" using sz(1) by simp
  have order: "find_order (s32 sz) = k"
  proof -
    have s: "s32 sz = int sz" using sz(4) by (simp add: s32_def)
    obtain j where j: "k = Suc j" using sz(3) by (cases k) auto
    have "int sz < int (2 ^ k * 4097)" "int (2 ^ k * PAGE_SIZE) < int sz" using sz(1,2) by (simp_all only: of_nat_less_iff)
    then have "find_order (int sz) \<le> k" "\<not> find_order (int sz) \<le> j" unfolding find_order_le j by simp_all
    then show ?thesis by (simp add: s j)
  qed
  have small: "SLOB_UNIT < 24" "24 + SLOB_UNIT < PAGE_SIZE" by simp_all
  from slob_alloc_ok [OF assms(1,2) small] r big obtain c s1 ps1 B1 F where
    c: "slob_alloc 24 0 s = Some (c, s1)" "grown s ps (free_bytes s B) s1 ps1 F" "block_taken arena s F (int (SLOB_UNITS 24)) c s1 ps1 B1"
    by (auto simp: kmalloc_def)
  define s2 where "s2 = upd_big c (\<lambda>b. b\<lparr>border := k\<rparr>) s1"
  have m2: "machine.truncate s2 = machine.truncate s1" "pm s2 = pm s1" by (simp_all add: s2_def upd_big_def machine.defs)
  have sup2: "supplied arena s2 ps1 F" using c(3) m2 by (simp add: block_taken_def supplied_def)
  have c0: "c \<noteq> 0" using c(3) by (simp add: block_taken_def)
  obtain pg s3 where g: "slob_get_free_pages k s2 = Some (pg, s3)"
    using r big c(1) c0 by (auto simp: kmalloc_def order Let_def s2_def [symmetric] bind_eq_Some_conv split: if_splits)
  have pg: "r = pg" "pg \<noteq> 0" "pm s' = pm s3"
    using r big c(1) c0 g by (auto simp: kmalloc_def order Let_def s2_def [symmetric] upd_big_pm bind_eq_Some_conv split: if_splits)
  from slob_get_free_pages_take [OF sup2 g pg(2)] m2(2) obtain p ps' where p: "pg = (p + nbase) * PAGE_SIZE" "{p ..< p + 2 ^ k} \<subseteq> free_set (pm s1) ps1"
    "free_set (pm s3) ps' = free_set (pm s1) ps1 - {p ..< p + 2 ^ k}" by auto
  have "(p + 2 ^ k + nbase) * PAGE_SIZE < r + sz" using sz(1) pg(1) p(1) by (simp add: algebra_simps)
  then show ?thesis using p pg(1,3) c(2) by metis
qed

section \<open>Examples\<close>

text \<open>A fresh heap on the sample machine.\<close>

definition ex_heap :: kheap where
  "ex_heap = machine.extend sample_machine \<lparr>cells = (\<lambda>a. \<lparr>units = 1, bnext = 64\<rparr>), bigs = (\<lambda>a. \<lparr>border = 0, bpages = 0, bbnext = 0\<rparr>),
     slobfree = 64, bigblocks = 0\<rparr>"

lemma ex_heap_sel: "machine.truncate ex_heap = sample_machine" "pm ex_heap = sample_pmm"
    "cells ex_heap = (\<lambda>a. \<lparr>units = 1, bnext = 64\<rparr>)" "slobfree ex_heap = 64" "bigblocks ex_heap = 0"
  by (simp_all add: ex_heap_def machine.defs sample_machine_def)

lemma ex_heap_ok: "heap_ok 64 ex_heap {64}"
  by (auto simp: heap_ok_def ring_def csucc_def ex_heap_sel bend_def unit_at_def)

lemma ex_supplied: "supplied 64 ex_heap [0, 6] (free_bytes ex_heap {64})"
proof -
  have fb: "free_bytes ex_heap {64} = {64 ..< 80}" by (simp add: free_bytes_def bytes_def ex_heap_sel bend_def unit_at_def)
  have above: "80 < (p + nbase) * PAGE_SIZE" for p by (simp add: add_mult_distrib)
  show ?thesis unfolding supplied_def ex_heap_sel fb
  proof (intro conjI ballI)
    show "tables_ok sample_machine [0, 6] {}" using sample_tables_ok unfolding tables_ok_def by blast
    fix p
    show "64 + SLOB_UNIT < (p + nbase) * PAGE_SIZE" using above [of p] by simp
    have "x \<notin> {64 ..< 80}" if "x \<in> page_bytes (p + nbase)" for x using that above [of p] by (simp add: page_bytes_def)
    then show "page_bytes (p + nbase) \<inter> {64 ..< 80} = {}" by blast
  qed
qed

lemma ex_nr_free: "nr_free_pages sample_machine = 5"
  by (simp add: nr_free_pages_def default_nr_free_pages_def sample_machine_def sample_pmm_def)

theorem kmalloc_exact_witness:
  "\<exists>r s' ps' B' F. kmalloc 100 ex_heap = Some (r, s') \<and> grown ex_heap [0, 6] (free_bytes ex_heap {64}) s' ps' F \<and> SLOB_UNIT < r \<and>
     {r - SLOB_UNIT ..< r + 100} \<subseteq> F \<and> free_bytes s' B' = F - {r - SLOB_UNIT ..< r - SLOB_UNIT + 128}"
proof -
  have u: "SLOB_UNITS (100 + SLOB_UNIT) = 8" by (simp add: SLOB_UNITS_def)
  show ?thesis using kmalloc_exact [OF ex_heap_ok ex_supplied, of 100] ex_nr_free unfolding u by (simp add: ex_heap_sel) blast
qed

text \<open>A heap that has a block of ten units.\<close>

definition ex_heap2 :: kheap where
  "ex_heap2 = ex_heap\<lparr>cells := (\<lambda>a. if a = 64 then \<lparr>units = 1, bnext = 1024\<rparr> else \<lparr>units = 10, bnext = 64\<rparr>)\<rparr>"

lemma ex_heap2_sel: "machine.truncate ex_heap2 = sample_machine" "pm ex_heap2 = sample_pmm" "slobfree ex_heap2 = 64" "bigblocks ex_heap2 = 0"
    "cells ex_heap2 = (\<lambda>a. if a = 64 then \<lparr>units = 1, bnext = 1024\<rparr> else \<lparr>units = 10, bnext = 64\<rparr>)"
  by (simp_all add: ex_heap2_def ex_heap_def machine.defs sample_machine_def)

lemma csucc_pair: "csucc {64, 1024} 64 = 1024" "csucc {64, 1024} 1024 = 64"
  by (subst csucc_eq; simp)+

lemma ex_heap2_ok: "heap_ok 64 ex_heap2 {64, 1024}"
  by (auto simp: heap_ok_def ring_def ex_heap2_sel bend_def unit_at_def csucc_pair)

lemma ex_supplied2: "supplied 64 ex_heap2 [0, 6] (free_bytes ex_heap2 {64, 1024})"
proof -
  have fb: "free_bytes ex_heap2 {64, 1024} \<subseteq> {64 ..< 2000}" by (auto simp: free_bytes_def bytes_def ex_heap2_sel bend_def unit_at_def)
  have above: "2000 < (p + nbase) * PAGE_SIZE" for p by (simp add: add_mult_distrib)
  show ?thesis unfolding supplied_def ex_heap2_sel
  proof (intro conjI ballI)
    show "tables_ok sample_machine [0, 6] {}" using sample_tables_ok unfolding tables_ok_def by blast
    fix p
    show "64 + SLOB_UNIT < (p + nbase) * PAGE_SIZE" using above [of p] by simp
    have "x \<notin> {64 ..< 2000}" if "x \<in> page_bytes (p + nbase)" for x using that above [of p] by (simp add: page_bytes_def)
    then show "page_bytes (p + nbase) \<inter> free_bytes ex_heap2 {64, 1024} = {}" using fb by blast
  qed
qed

lemma ex_kmalloc_big:
  "\<exists>s'. kmalloc 8193 ex_heap2 = Some (0x80000000, s') \<and> pm s' = take_block 0 2 sample_pmm \<and>
     bigs s' (bigblocks s') = \<lparr>border = 1, bpages = 0x80000000, bbnext = 0\<rparr>"
proof -
  let ?t = "slob_take 64 1024 2 ex_heap2"
  have a: "slob_alloc 24 0 ex_heap2 = Some (1024, ?t)" by (simp add: slob_alloc_def SLOB_UNITS_def slob_search_simps ex_heap2_sel)
  have o: "find_order (s32 8193) = 1" by (simp add: s32_def find_order.simps)
  have tr: "machine.truncate (upd_big c f ?t) = sample_machine" for c f by (simp only: upd_big_pm slob_take_frame ex_heap2_sel)
  have d: "default_alloc_pages 2 sample_pmm = Some (Some 0, take_block 0 2 sample_pmm)"
    using default_alloc_pages_eq [OF sample_pmm_inv, of 2] by (simp add: sample_pmm_def sample_head_def)
  have k: "page2kva 0 (sample_machine\<lparr>pm := x\<rparr>) = Some nbase" for x using page2kva_ok [of 0 "sample_machine\<lparr>pm := x\<rparr>"] by (simp add: sample_machine_def)
  have g: "slob_get_free_pages 1 (upd_big c f ?t) = Some (0x80000000, on_machine (sample_machine\<lparr>pm := take_block 0 2 sample_pmm\<rparr>) (upd_big c f ?t))" for c f
    using d k by (simp add: slob_get_free_pages_def alloc_pages_def tr) (simp add: sample_machine_def)
  have b: "bigblocks ?t = 0" by (simp add: slob_take_frame ex_heap2_sel)
  show ?thesis unfolding kmalloc_def a o Let_def using g by (simp add: upd_big_def b)
qed

lemma ex_inv: "heap_inv 64 ex_heap [0, 6] {64} {} []" "heap_inv 64 ex_heap2 [0, 6] {64, 1024} {} []"
  using ex_heap_ok ex_supplied ex_heap2_ok ex_supplied2 by (simp_all add: heap_inv_def small_ok_def bigs_ok_def ex_heap_sel ex_heap2_sel)

text \<open>A small block, and a big one of two pages.\<close>

lemma ex_freeable:
  assumes "heap_inv arena s ps B L bs" and "pm s = take_block 0 2 sample_pmm" "bigs s (bigblocks s) = \<lparr>border = 1, bpages = 0x80000000, bbnext = 0\<rparr>"
  shows "freeable s ps bs 0x80000000"
proof -
  have ff: "ff_inv (pm s) ps" and p: "big_path s (bigblocks s) bs" using assms(1) by (simp_all add: heap_inv_def supplied_def tables_ok_def bigs_ok_def)
  have nr: "nr_free (pm s) = 3" by (simp add: assms(2) take_block_def sample_pmm_def Let_def u32_sub_def)
  have "\<not> PageProperty (pages (pm s) 0)" by (simp add: assms(2) take_block_def Let_def ClearPageProperty_def PageProperty_def bit_simps)
  then have "0 \<notin> set ps" "ps \<noteq> []" using ff nr by (auto simp: ff_inv_def heads_ok_def)
  then have "\<exists>v\<in>set ps. 0 < v" by (cases ps) auto
  moreover have "\<forall>b\<in>set bs. b = bigblocks s" using p assms(3) by (cases bs; cases "tl bs") auto
  ultimately show ?thesis using assms(3) nr by (auto simp: freeable_def)
qed

theorem kmalloc_kfree_witness:
  "(\<exists>r s1 s2 ps B. kmalloc 100 ex_heap = Some (r, s1) \<and> r \<noteq> 0 \<and> kfree r s1 = Some s2 \<and> free_mem s2 ps B = free_mem ex_heap [0, 6] {64}) \<and>
   (\<exists>s1 s2 ps B. kmalloc 8193 ex_heap2 = Some (0x80000000, s1) \<and> kfree 0x80000000 s1 = Some s2 \<and>
      free_mem s2 ps B = free_mem ex_heap2 [0, 6] {64, 1024})"
proof -
  have round: "\<exists>s2 ps2 B2. kfree r s1 = Some s2 \<and> free_mem s2 ps2 B2 = free_mem s ps B"
    if inv: "heap_inv arena s ps B L bs" and sz: "0 < sz" "sz < 4064 \<or> 4080 \<le> sz" and r: "kmalloc sz s = Some (r, s1)" "r \<noteq> 0"
      and fr: "\<And>ps1 B1 L1 bs1. heap_inv arena s1 ps1 B1 L1 bs1 \<Longrightarrow> freeable s1 ps1 bs1 r" for arena s ps B L bs sz r s1
    using kmalloc_kfree [OF inv sz]
  proof (elim exE conjE)
    fix r' s1' ps1 B1 L1 bs1
    assume a: "kmalloc sz s = Some (r', s1')" "heap_inv arena s1' ps1 B1 L1 bs1"
      and alt: "r' = 0 \<and> live s1' L1 bs1 = live s L bs \<and> free_mem s1' ps1 B1 = free_mem s ps B \<or>
        r' \<noteq> 0 \<and> r' \<notin> live s L bs \<and> live s1' L1 bs1 = insert r' (live s L bs) \<and> owned s1' bs1 r' \<subseteq> free_mem s ps B \<and>
          free_mem s1' ps1 B1 = free_mem s ps B - owned s1' bs1 r' \<and> (sz < 4064 \<longrightarrow> {r' ..< r' + sz} \<subseteq> owned s1' bs1 r')"
      and all: "\<forall>r''\<in>live s1' L1 bs1. freeable s1' ps1 bs1 r'' \<longrightarrow>
        (\<exists>s2 ps2 B2 L2 bs2. kfree r'' s1' = Some s2 \<and> heap_inv arena s2 ps2 B2 L2 bs2 \<and> live s2 L2 bs2 = live s1' L1 bs1 - {r''} \<and>
           free_mem s2 ps2 B2 = free_mem s1' ps1 B1 \<union> owned s1' bs1 r'' \<and> (r'' = r' \<longrightarrow> free_mem s2 ps2 B2 = free_mem s ps B))"
    have eq: "r' = r" "s1' = s1" using a(1) r(1) by simp_all
    have "r \<in> live s1 L1 bs1" using alt r(2) unfolding eq by blast
    from bspec [OF all [unfolded eq] this] fr [OF a(2) [unfolded eq]] show ?thesis by blast
  qed
  have sz: "(0 :: nat) < 100" "(100 :: nat) < 4064" "(100 :: nat) < 4064 \<or> 4080 \<le> (100 :: nat)" "(0 :: nat) < 8193" "(8193 :: nat) < 4064 \<or> 4080 \<le> (8193 :: nat)"
    by simp_all
  from kmalloc_small [OF ex_heap_ok ex_supplied sz(1,2)] ex_nr_free obtain r s1 where r: "kmalloc 100 ex_heap = Some (r, s1)" "r \<noteq> 0" "bigblocks s1 = 0"
    by (auto simp: ex_heap_sel block_taken_def)
  have f: "freeable s1 ps1 bs1 r" if "heap_inv 64 s1 ps1 B1 L1 bs1" for ps1 B1 L1 bs1
    using that r(3) by (cases bs1) (auto simp: heap_inv_def bigs_ok_def freeable_def)
  have one: "\<exists>s2 ps2 B2. kfree r s1 = Some s2 \<and> free_mem s2 ps2 B2 = free_mem ex_heap [0, 6] {64}"
    by (rule round [OF ex_inv(1) sz(1,3) r(1,2)]) (rule f)
  obtain s' where s': "kmalloc 8193 ex_heap2 = Some (0x80000000, s')" "pm s' = take_block 0 2 sample_pmm"
    "bigs s' (bigblocks s') = \<lparr>border = 1, bpages = 0x80000000, bbnext = 0\<rparr>" using ex_kmalloc_big by blast
  have two: "\<exists>s2 ps2 B2. kfree 0x80000000 s' = Some s2 \<and> free_mem s2 ps2 B2 = free_mem ex_heap2 [0, 6] {64, 1024}"
    by (rule round [OF ex_inv(2) sz(4,5) s'(1)]) (simp, erule ex_freeable [OF _ s'(2,3)])
  show ?thesis using one two r(1,2) s'(1) by blast
qed

theorem kmalloc_big_too_small_witness:
  "\<exists>s' p s1 ps1 ps' F. kmalloc 8193 ex_heap2 = Some (0x80000000, s') \<and> 0x80000000 = (p + nbase) * PAGE_SIZE \<and>
     (p + 2 + nbase) * PAGE_SIZE < 0x80000000 + 8193 \<and> grown ex_heap2 [0, 6] (free_bytes ex_heap2 {64, 1024}) s1 ps1 F \<and>
     {p ..< p + 2} \<subseteq> free_set (pm s1) ps1 \<and> free_set (pm s') ps' = free_set (pm s1) ps1 - {p ..< p + 2}"
proof -
  obtain s' where r: "kmalloc 8193 ex_heap2 = Some (0x80000000, s')" using ex_kmalloc_big by blast
  have n: "(2 :: nat) ^ 1 * PAGE_SIZE < 8193" "(8193 :: nat) < 2 ^ 1 * 4097" "(0 :: nat) < 1" "(8193 :: nat) < 2 ^ 31" "(0x80000000 :: nat) \<noteq> 0" by simp_all
  from kmalloc_big_too_small [OF ex_heap2_ok ex_supplied2 n(1-4) r n(5)] r show ?thesis unfolding power_one_right by blast
qed

end
