(* ===== verification/ProcLife.thy ===== *)
theory ProcLife
  imports ProcTable
begin

text \<open>
  The life of a process in \<^verbatim>\<open>kern/process/proc.c\<close>: \<^verbatim>\<open>do_fork\<close> with \<^verbatim>\<open>copy_mm\<close> and \<^verbatim>\<open>copy_files\<close>, \<^verbatim>\<open>do_exit\<close>,
  \<^verbatim>\<open>do_wait\<close>, \<^verbatim>\<open>do_kill\<close>, \<^verbatim>\<open>do_yield\<close> and \<^verbatim>\<open>do_sleep\<close>.  What the allocators and the copying of memory and file
  tables return is a parameter (\<open>fork_env\<close>); the trap frame and the register context that \<^verbatim>\<open>copy_thread\<close>
  builds are machine state.  A function that calls \<^verbatim>\<open>schedule\<close> is cut there, as \<^verbatim>\<open>__down\<close> is.
\<close>

unbundle bit_operations_syntax

abbreviation (input) CLONE_VM :: "32 word" where "CLONE_VM \<equiv> 0x100"
abbreviation (input) CLONE_FS :: "32 word" where "CLONE_FS \<equiv> 0x800"
abbreviation (input) PF_EXITING :: "32 word" where "PF_EXITING \<equiv> 1"

section \<open>Creating a process\<close>

record fork_env =
  e_proc :: "nat option"
  e_kstack :: "nat option"
  e_mm :: "nat option"
  e_pgdir :: bool
  e_dup_mmap :: int
  e_files :: "nat option"
  e_dup_files :: int

definition release :: "resource list \<Rightarrow> psys \<Rightarrow> psys" where
  "release rs s = s\<lparr>released := released s @ rs\<rparr>"

lemma release_sel [simp]:
  "kern (release rs s) = kern s" "initproc (release rs s) = initproc s" "nr_process (release rs s) = nr_process s"
  "last_pid (release rs s) = last_pid s" "next_safe (release rs s) = next_safe s" "mm_count (release rs s) = mm_count s"
  "files_count (release rs s) = files_count s" "released (release rs s) = released s @ rs"
  by (simp_all add: release_def)

definition setup_kstack :: "nat option \<Rightarrow> nat \<Rightarrow> psys \<Rightarrow> int \<times> psys" where
  "setup_kstack r p s =
     (case r of Some st \<Rightarrow> (0, upd_kern (upd_proc p (\<lambda>g. g\<lparr>kstack := st\<rparr>)) s) | None \<Rightarrow> (- E_NO_MEM, s))"

definition put_kstack :: "nat \<Rightarrow> psys \<Rightarrow> psys" where
  "put_kstack p s = release [KStack (kstack (proc_at s p))] s"

definition mm_count_inc :: "nat \<Rightarrow> psys \<Rightarrow> psys" where
  "mm_count_inc m s = s\<lparr>mm_count := (mm_count s)(m := mm_count s m + 1)\<rparr>"

definition mm_count_dec :: "nat \<Rightarrow> psys \<Rightarrow> psys" where
  "mm_count_dec m s = s\<lparr>mm_count := (mm_count s)(m := mm_count s m - 1)\<rparr>"

definition copy_mm :: "32 word \<Rightarrow> nat \<Rightarrow> fork_env \<Rightarrow> psys \<Rightarrow> int \<times> psys" where
  "copy_mm flags p e s =
     (let good = (\<lambda>m s. (0, upd_kern (upd_proc p (\<lambda>g. g\<lparr>mm := Some m\<rparr>)) (mm_count_inc m s))) in
      case mm (proc_at s (current (kern s))) of
        None \<Rightarrow> (0, s)
      | Some oldmm \<Rightarrow>
          (if flags AND CLONE_VM \<noteq> 0 then good oldmm s
           else (case e_mm e of
                   None \<Rightarrow> (- E_NO_MEM, s)
                 | Some m \<Rightarrow>
                     (let s = s\<lparr>mm_count := (mm_count s)(m := 0)\<rparr> in
                      if \<not> e_pgdir e then (- E_NO_MEM, release [MmStruct m] s)
                      else if e_dup_mmap e \<noteq> 0 then (e_dup_mmap e, release [Mmap m, Pgdir m, MmStruct m] s)
                      else good m s))))"

definition files_count_inc :: "nat \<Rightarrow> psys \<Rightarrow> psys" where
  "files_count_inc f s = s\<lparr>files_count := (files_count s)(f := files_count s f + 1)\<rparr>"

definition files_count_dec :: "nat \<Rightarrow> psys \<Rightarrow> psys" where
  "files_count_dec f s = s\<lparr>files_count := (files_count s)(f := files_count s f - 1)\<rparr>"

definition copy_files :: "32 word \<Rightarrow> nat \<Rightarrow> fork_env \<Rightarrow> psys \<Rightarrow> (int \<times> psys) option" where
  "copy_files flags p e s =
     (let good = (\<lambda>f s. (0, upd_kern (upd_proc p (\<lambda>g. g\<lparr>filesp := Some f\<rparr>)) (files_count_inc f s))) in
      case filesp (proc_at s (current (kern s))) of
        None \<Rightarrow> None
      | Some old \<Rightarrow>
          Some (if flags AND CLONE_FS \<noteq> 0 then good old s
           else (case e_files e of
                   None \<Rightarrow> (- E_NO_MEM, s)
                 | Some f \<Rightarrow>
                     (let s = s\<lparr>files_count := (files_count s)(f := 0)\<rparr> in
                      if e_dup_files e \<noteq> 0 then (e_dup_files e, release [FilesStruct f] s)
                      else good f s))))"

definition put_files :: "nat \<Rightarrow> psys \<Rightarrow> psys" where
  "put_files p s =
     (case filesp (proc_at s p) of
        None \<Rightarrow> s
      | Some f \<Rightarrow> (let s = files_count_dec f s in if files_count s f = 0 then release [FilesStruct f] s else s))"

definition fork_cleanup_proc :: "nat \<Rightarrow> psys \<Rightarrow> psys" where
  "fork_cleanup_proc p s = release [ProcBlock p] s"

definition fork_cleanup_kstack :: "nat \<Rightarrow> psys \<Rightarrow> psys" where
  "fork_cleanup_kstack p s = fork_cleanup_proc p (put_kstack p s)"

definition fork_cleanup_fs :: "nat \<Rightarrow> psys \<Rightarrow> psys" where
  "fork_cleanup_fs p s = fork_cleanup_kstack p (put_files p s)"

text \<open>Steps 5 to 7 of \<^verbatim>\<open>do_fork\<close>: the child gets its pid and its links and is woken.\<close>

definition fork_publish :: "nat \<Rightarrow> psys \<Rightarrow> (int \<times> psys) option" where
  "fork_publish p s = do {
     (x, s) \<leftarrow> get_pid s;
     let s = upd_kern (upd_proc p (\<lambda>g. g\<lparr>pid := x\<rparr>)) s;
     let s = hash_proc p s;
     s \<leftarrow> set_links p s;
     k \<leftarrow> wakeup_proc p (kern s);
     let s = s\<lparr>kern := k\<rparr>;
     Some (pid (proc_at s p), s)
   }"

definition do_fork :: "32 word \<Rightarrow> fork_env \<Rightarrow> psys \<Rightarrow> (int \<times> psys) option" where
  "do_fork flags e s =
     (if nr_process s \<ge> MAX_PROCESS then Some (- E_NO_FREE_PROC, s)
      else case alloc_proc (e_proc e) s of
        (None, s) \<Rightarrow> Some (- E_NO_MEM, s)
      | (Some p, s) \<Rightarrow> do {
          let s = upd_kern (upd_proc p (\<lambda>g. g\<lparr>parent := Some (current (kern s))\<rparr>)) s;
          kassert (wait_state (proc_at s (current (kern s))) = 0);
          let (r, s) = setup_kstack (e_kstack e) p s;
          if r \<noteq> 0 then Some (- E_NO_MEM, fork_cleanup_proc p s)
          else let (r, s) = copy_mm flags p e s in
            if r \<noteq> 0 then Some (- E_NO_MEM, fork_cleanup_kstack p s)
            else do {
              (r, s) \<leftarrow> copy_files flags p e s;
              if r \<noteq> 0 then Some (- E_NO_MEM, fork_cleanup_fs p s)
              else fork_publish p s
            }
        })"

section \<open>Ending a process\<close>

text \<open>The part of \<^verbatim>\<open>do_exit\<close> that gives up the memory and the files.\<close>

definition exit_release :: "psys \<Rightarrow> psys" where
  "exit_release s =
     (let c = current (kern s) in
      case mm (proc_at s c) of
        None \<Rightarrow> s
      | Some m \<Rightarrow>
          (let s = mm_count_dec m s;
               s = (if mm_count s m = 0 then release [Mmap m, Pgdir m, MmStruct m] s else s);
               s = upd_kern (upd_proc c (\<lambda>g. g\<lparr>mm := None\<rparr>)) s
           in put_files c s))"

text \<open>The loop that gives the children of \<open>c\<close> to \<open>i\<close>, the initial process.\<close>

definition adopt :: "nat \<Rightarrow> nat \<Rightarrow> nat \<Rightarrow> kernel \<Rightarrow> kernel option" where
  "adopt c i p k = do {
     let k = upd_proc c (\<lambda>g. g\<lparr>cptr := optr (procs k p)\<rparr>) k;
     let k = upd_proc p (\<lambda>g. g\<lparr>yptr := None\<rparr>) k;
     let k = upd_proc p (\<lambda>g. g\<lparr>optr := cptr (procs k i)\<rparr>) k;
     let k = (case optr (procs k p) of None \<Rightarrow> k | Some d \<Rightarrow> upd_proc d (\<lambda>g. g\<lparr>yptr := Some p\<rparr>) k);
     let k = upd_proc p (\<lambda>g. g\<lparr>parent := Some i\<rparr>) k;
     let k = upd_proc i (\<lambda>g. g\<lparr>cptr := Some p\<rparr>) k;
     (if state (procs k p) = PROC_ZOMBIE \<and> wait_state (procs k i) = WT_CHILD then wakeup_proc i k else Some k)
   }"

partial_function (option) adopt_all :: "nat \<Rightarrow> nat \<Rightarrow> kernel \<Rightarrow> kernel option" where
  "adopt_all c i k =
     (case cptr (procs k c) of
        None \<Rightarrow> Some k
      | Some p \<Rightarrow> Option.bind (adopt c i p k) (adopt_all c i))"

definition do_exit :: "int \<Rightarrow> psys \<Rightarrow> psys option" where
  "do_exit code s = do {
     let c = current (kern s);
     kassert (c \<noteq> idleproc (kern s));
     kassert (Some c \<noteq> initproc s);
     let s = exit_release s;
     let s = upd_kern (upd_proc c (\<lambda>g. g\<lparr>state := PROC_ZOMBIE\<rparr>)) s;
     let s = upd_kern (upd_proc c (\<lambda>g. g\<lparr>exit_code := code\<rparr>)) s;
     q \<leftarrow> parent (proc_at s c);
     k \<leftarrow> (if wait_state (proc_at s q) = WT_CHILD then wakeup_proc q (kern s) else Some (kern s));
     i \<leftarrow> initproc s;
     k \<leftarrow> adopt_all c i k;
     k \<leftarrow> schedule k;
     Some (s\<lparr>kern := k\<rparr>)
   }"

section \<open>Waiting, killing, yielding, sleeping\<close>

datatype wait_outcome = WaitDone int "int option" | WaitSleeps

text \<open>The walk over the children: whether there is one, and the first zombie.\<close>

partial_function (option) child_scan :: "kernel \<Rightarrow> nat option \<Rightarrow> bool \<Rightarrow> (bool \<times> nat option) option" where
  "child_scan k x haskid =
     (case x of
        None \<Rightarrow> Some (haskid, None)
      | Some p \<Rightarrow> (if state (procs k p) = PROC_ZOMBIE then Some (True, Some p) else child_scan k (optr (procs k p)) True))"

definition wait_scan :: "int \<Rightarrow> psys \<Rightarrow> (bool \<times> nat option) option" where
  "wait_scan x s =
     (let c = current (kern s) in
      if x \<noteq> 0
      then do {
        r \<leftarrow> find_proc x s;
        Some (case r of
                Some p \<Rightarrow> (if parent (proc_at s p) = Some c
                           then (True, if state (proc_at s p) = PROC_ZOMBIE then Some p else None)
                           else (False, None))
              | None \<Rightarrow> (False, None))
      }
      else child_scan (kern s) (cptr (proc_at s c)) False)"

text \<open>The label \<^verbatim>\<open>found\<close> of \<^verbatim>\<open>do_wait\<close>.\<close>

definition reap :: "nat \<Rightarrow> bool \<Rightarrow> psys \<Rightarrow> (wait_outcome \<times> psys) option" where
  "reap p store s = do {
     kassert (p \<noteq> idleproc (kern s) \<and> Some p \<noteq> initproc s);
     let code = (if store then Some (exit_code (proc_at s p)) else None);
     let s = unhash_proc p s;
     s \<leftarrow> remove_links p s;
     let s = put_kstack p s;
     Some (WaitDone 0 code, release [ProcBlock p] s)
   }"

text \<open>\<^verbatim>\<open>do_wait\<close> up to its return or to the call of \<^verbatim>\<open>schedule\<close>; \<open>check\<close> is the answer of \<^verbatim>\<open>user_mem_check\<close>.\<close>

definition do_wait :: "int \<Rightarrow> bool \<Rightarrow> bool \<Rightarrow> psys \<Rightarrow> (wait_outcome \<times> psys) option" where
  "do_wait x store check s =
     (if store \<and> \<not> check then Some (WaitDone (- E_INVAL) None, s)
      else do {
        (haskid, found) \<leftarrow> wait_scan x s;
        (case found of
           Some p \<Rightarrow> reap p store s
         | None \<Rightarrow>
             (if haskid
              then let c = current (kern s);
                       s = upd_kern (upd_proc c (\<lambda>g. g\<lparr>state := PROC_SLEEPING\<rparr>)) s;
                       s = upd_kern (upd_proc c (\<lambda>g. g\<lparr>wait_state := WT_CHILD\<rparr>)) s
                   in do { k \<leftarrow> schedule (kern s); Some (WaitSleeps, s\<lparr>kern := k\<rparr>) }
              else Some (WaitDone (- E_BAD_PROC) None, s)))
      })"

text \<open>The continuation after \<^verbatim>\<open>schedule\<close>: exit when killed, otherwise look again.\<close>

definition do_wait_resume :: "int \<Rightarrow> bool \<Rightarrow> psys \<Rightarrow> (wait_outcome \<times> psys) option" where
  "do_wait_resume x store s =
     (if pflags (proc_at s (current (kern s))) AND PF_EXITING \<noteq> 0
      then do { s \<leftarrow> do_exit (- E_KILLED) s; Some (WaitSleeps, s) }
      else do_wait x store True s)"

definition do_kill :: "int \<Rightarrow> psys \<Rightarrow> (int \<times> psys) option" where
  "do_kill x s = do {
     r \<leftarrow> find_proc x s;
     (case r of
        None \<Rightarrow> Some (- E_INVAL, s)
      | Some p \<Rightarrow>
          (if pflags (proc_at s p) AND PF_EXITING = 0
           then let s = upd_kern (upd_proc p (\<lambda>g. g\<lparr>pflags := pflags g OR PF_EXITING\<rparr>)) s in
             (if wait_state (proc_at s p) AND WT_INTERRUPTED \<noteq> 0
              then do { k \<leftarrow> wakeup_proc p (kern s); Some (0, s\<lparr>kern := k\<rparr>) }
              else Some (0, s))
           else Some (- E_KILLED, s)))
   }"

definition do_yield :: "psys \<Rightarrow> int \<times> psys" where
  "do_yield s = (0, upd_kern (upd_proc (current (kern s)) (\<lambda>g. g\<lparr>need_resched := True\<rparr>)) s)"

text \<open>\<^verbatim>\<open>do_sleep\<close> with the timer at address \<open>t\<close> of the caller's stack, up to \<^verbatim>\<open>schedule\<close>, and after it.\<close>

definition do_sleep_begin :: "nat \<Rightarrow> nat \<Rightarrow> psys \<Rightarrow> (bool \<times> psys) option" where
  "do_sleep_begin t time s =
     (if time = 0 then Some (False, s)
      else let c = current (kern s);
               s = upd_kern (timer_init t (Some c) time) s;
               s = upd_kern (upd_proc c (\<lambda>g. g\<lparr>state := PROC_SLEEPING\<rparr>)) s;
               s = upd_kern (upd_proc c (\<lambda>g. g\<lparr>wait_state := WT_TIMER\<rparr>)) s
           in do { k \<leftarrow> add_timer t (kern s); k \<leftarrow> schedule k; Some (True, s\<lparr>kern := k\<rparr>) })"

definition do_sleep_end :: "nat \<Rightarrow> psys \<Rightarrow> int \<times> psys" where
  "do_sleep_end t s = (0, upd_kern (del_timer t) s)"

section \<open>What waking and switching leave alone\<close>

definition kin :: "proc_struct \<Rightarrow> (nat option \<times> nat option \<times> nat option \<times> nat option) \<times> int \<times> int \<times> nat option \<times> nat option \<times> nat" where
  "kin g = ((parent g, cptr g, yptr g, optr g), pid g, exit_code g, mm g, filesp g, kstack g)"

lemma kin_refill [simp]: "kin (refill m g) = kin g"
  by (simp add: kin_def refill_def)

lemma kin_upd [simp]:
  "kin (g\<lparr>state := a\<rparr>) = kin g" "kin (g\<lparr>wait_state := b\<rparr>) = kin g" "kin (g\<lparr>on_rq := c\<rparr>) = kin g"
  "kin (g\<lparr>need_resched := d\<rparr>) = kin g" "kin (g\<lparr>runs := e\<rparr>) = kin g" "kin (g\<lparr>pflags := f\<rparr>) = kin g"
  by (simp_all add: kin_def)

lemma kinD:
  assumes "kin g = kin h"
  shows "parent g = parent h" "cptr g = cptr h" "yptr g = yptr h" "optr g = optr h" "pid g = pid h"
    "exit_code g = exit_code h" "mm g = mm h" "filesp g = filesp h" "kstack g = kstack h"
  using assms by (simp_all add: kin_def)

lemma RR_enqueue_kin: "RR_enqueue p k = Some k' \<Longrightarrow> kin (procs k' r) = kin (procs k r)"
  by (auto simp: RR_enqueue_def Let_def split: bind_splits if_splits)

lemma wakeup_kin: "wakeup_proc p k = Some k' \<Longrightarrow> kin (procs k' r) = kin (procs k r)"
  by (auto simp: wakeup_proc_cases woken_def split: if_splits dest!: RR_enqueue_kin [of p _ k' r])

lemma schedule_kin:
  assumes "schedule k = Some k'"
  shows "kin (procs k' r) = kin (procs k r)"
proof -
  define k1 where "k1 = upd_proc (current k) (\<lambda>g. g\<lparr>need_resched := False\<rparr>) k"
  from assms obtain k2 k3 where
    k2: "(if state (procs k1 (current k1)) = PROC_RUNNABLE then sched_class_enqueue (current k1) k1 else Some k1) = Some k2"
    and k3: "(case sched_class_pick_next k2 of Some p \<Rightarrow> sched_class_dequeue p k2 | None \<Rightarrow> Some k2) = Some k3"
    and k': "\<And>r. kin (procs k' r) = kin (procs k3 r)"
    by (auto simp: schedule_def Let_def k1_def [symmetric] proc_run_def split: bind_splits if_splits)
  have "kin (procs k2 r) = kin (procs k1 r)"
    using k2 by (auto simp: sched_class_enqueue_def split: if_splits dest: RR_enqueue_kin)
  moreover have "procs k3 = procs k2"
    using k3 by (auto simp: sched_class_dequeue_def RR_dequeue_def split: option.splits bind_splits if_splits)
  ultimately show ?thesis using k' by (simp add: k1_def)
qed

lemma sib_kin: "(\<And>r. kin (g r) = kin (f r)) \<Longrightarrow> sib g y x cs = sib f y x cs"
  by (intro sib_cong) (auto dest: kinD)

lemma kids_kin: "kids k q cs \<Longrightarrow> (\<And>r. kin (procs k' r) = kin (procs k r)) \<Longrightarrow> kids k' q cs"
  by (erule kids_frame) (auto dest: kinD)

text \<open>The scheduler's invariant reads only a few fields.\<close>

lemma sched_inv_same:
  assumes "sched_inv k ps" and "klinks k' = klinks k" "current k' = current k" "idleproc k' = idleproc k"
    "proc_num k' = proc_num k"
    and "\<And>p. p \<in> set ps \<Longrightarrow> state (procs k' p) = state (procs k p) \<and> on_rq (procs k' p) = on_rq (procs k p)"
  shows "sched_inv k' ps"
  using assms by (auto simp: sched_inv_def rq_inv_def)

section \<open>Adoption\<close>

lemma adopt_links:
  assumes sb: "sib (procs k) y (cptr (procs k c)) (p # cs)" and dist: "distinct (p # cs)" and kd: "kids k i ds"
    and dj: "set (p # cs) \<inter> set ds = {}" "c \<notin> set (p # cs)" "i \<notin> set (p # cs) \<union> set ds" "c \<noteq> i"
  defines "g \<equiv> \<lambda>r. if r = c then (procs k c)\<lparr>cptr := optr (procs k p), yptr := (if cptr (procs k i) = Some c then Some p else yptr (procs k c))\<rparr>
      else if r = p then (procs k p)\<lparr>yptr := None, optr := cptr (procs k i), parent := Some i\<rparr>
      else if r = i then (procs k i)\<lparr>cptr := Some p\<rparr>
      else if cptr (procs k i) = Some r then (procs k r)\<lparr>yptr := Some p\<rparr> else procs k r"
  shows "sib g (Some p) (cptr (g c)) cs" "kids (k\<lparr>procs := g\<rparr>) i (p # ds)"
    "adopt c i p k = (if state (procs k p) = PROC_ZOMBIE \<and> wait_state (procs k i) = WT_CHILD
       then wakeup_proc i (k\<lparr>procs := g\<rparr>) else Some (k\<lparr>procs := g\<rparr>))"
proof -
  have hd: "cptr (procs k i) = (case ds of [] \<Rightarrow> None | d # _ \<Rightarrow> Some d)" using kd by (auto simp: kids_def dest: sib_start)
  have ne: "c \<noteq> p" "p \<noteq> i" "cptr (procs k i) \<noteq> Some p" "cptr (procs k i) \<noteq> Some i"
    using dj hd by (auto split: list.splits)
  have "sib (procs k) (Some p) (optr (procs k p)) cs" using sb by simp
  moreover have "yptr (g r) = yptr (procs k r) \<and> optr (g r) = optr (procs k r)" if "r \<in> set cs" for r
    using that dist dj hd by (auto simp: g_def split: list.splits)
  then have "sib g (Some p) (optr (procs k p)) cs = sib (procs k) (Some p) (optr (procs k p)) cs" by (intro sib_cong) auto
  ultimately show "sib g (Some p) (cptr (g c)) cs" by (simp add: g_def)
  have sd: "sib (procs k) None (cptr (procs k i)) ds" "distinct ds" using kd by (simp_all add: kids_def)
  have "sib g (Some p) (cptr (procs k i)) ds"
  proof (rule sib_shift [OF sd])
    fix r
    show "r \<in> set ds \<Longrightarrow> optr (g r) = optr (procs k r)" using dj by (auto simp: g_def)
    show "r \<in> set (tl ds) \<Longrightarrow> yptr (g r) = yptr (procs k r)" using dj hd sd(2) by (cases ds) (auto simp: g_def)
    show "ds = r # es \<Longrightarrow> yptr (g r) = Some p" for es using dj hd by (auto simp: g_def)
  qed
  moreover have "parent (g r) = Some i" if "r \<in> set ds" for r using that kd dj by (auto simp: g_def kids_def)
  moreover have "p \<notin> set ds" using dj by auto
  moreover have "cptr (g i) = Some p" "yptr (g p) = None" "optr (g p) = cptr (procs k i)" "parent (g p) = Some i"
    using ne dj(4) by (auto simp: g_def)
  ultimately show "kids (k\<lparr>procs := g\<rparr>) i (p # ds)" using sd(2) by (simp add: kids_def)
  have "procs (let k = upd_proc c (\<lambda>g. g\<lparr>cptr := optr (procs k p)\<rparr>) k;
      k = upd_proc p (\<lambda>g. g\<lparr>yptr := None\<rparr>) k;
      k = upd_proc p (\<lambda>g. g\<lparr>optr := cptr (procs k i)\<rparr>) k;
      k = (case optr (procs k p) of None \<Rightarrow> k | Some d \<Rightarrow> upd_proc d (\<lambda>g. g\<lparr>yptr := Some p\<rparr>) k);
      k = upd_proc p (\<lambda>g. g\<lparr>parent := Some i\<rparr>) k in upd_proc i (\<lambda>g. g\<lparr>cptr := Some p\<rparr>) k) = g"
    using ne dj(4) by (cases "cptr (procs k i)") (auto simp: g_def fun_eq_iff)
  then show "adopt c i p k = (if state (procs k p) = PROC_ZOMBIE \<and> wait_state (procs k i) = WT_CHILD
       then wakeup_proc i (k\<lparr>procs := g\<rparr>) else Some (k\<lparr>procs := g\<rparr>))"
    using ne dj(4) by (cases "cptr (procs k i)") (auto simp: adopt_def upd_proc_def Let_def)
qed

lemma wakeup_sleeper:
  assumes inv: "sched_inv k ps" and sl: "state (procs k p) = PROC_SLEEPING" and sz: "length ps + 2 < 2 ^ 32"
  shows "\<exists>k'. wakeup_proc p k = Some k' \<and> state (procs k' p) = PROC_RUNNABLE \<and> wait_state (procs k' p) = 0 \<and>
     (\<forall>q. q \<noteq> p \<longrightarrow> procs k' q = procs k q) \<and> sched_inv k' (ps @ joins k p) \<and> current k' = current k \<and> idleproc k' = idleproc k"
proof -
  have z: "state (procs k p) \<noteq> PROC_ZOMBIE" using sl by simp
  from wakeup_proc_ok [OF inv z sz] obtain k' where k': "wakeup_proc p k = Some k'" "current k' = current k"
    "idleproc k' = idleproc k" "state (procs k' p) = PROC_RUNNABLE" "\<forall>q. q \<noteq> p \<longrightarrow> procs k' q = procs k q"
    "sched_inv k' (if state (procs k p) = PROC_RUNNABLE \<or> p = current k \<or> p = idleproc k then ps else ps @ [p])" by blast
  have "wait_state (procs k' p) = 0"
    using k'(1) sl by (auto simp: wakeup_proc_cases woken_def RR_enqueue_def Let_def split: if_splits bind_splits)
  moreover have "sched_inv k' (ps @ joins k p)" using k'(6) sl by (auto simp: joins_def split: if_splits)
  ultimately show ?thesis using k' by blast
qed

text \<open>One round: the initial process is woken only when it sleeps in \<^verbatim>\<open>do_wait\<close>.\<close>

definition init_waits :: "kernel \<Rightarrow> nat \<Rightarrow> bool" where
  "init_waits k i \<longleftrightarrow> wait_state (procs k i) = WT_CHILD"

definition init_ok :: "kernel \<Rightarrow> nat \<Rightarrow> nat list \<Rightarrow> bool" where
  "init_ok k i ps \<longleftrightarrow> state (procs k i) \<noteq> PROC_ZOMBIE \<and>
     (init_waits k i \<longrightarrow> state (procs k i) = PROC_SLEEPING \<and> length ps + 2 < 2 ^ 32)"

lemma adopt_ok:
  assumes sb: "sib (procs k) y (cptr (procs k c)) (p # cs)" "distinct (p # cs)" "kids k i ds"
    "set (p # cs) \<inter> set ds = {}" "c \<notin> set (p # cs)" "i \<notin> set (p # cs) \<union> set ds" "c \<noteq> i"
    and s: "sched_inv k ps" and io: "init_ok k i ps"
  shows "\<exists>k' rs. adopt c i p k = Some k' \<and> sib (procs k') (Some p) (cptr (procs k' c)) cs \<and> kids k' i (p # ds) \<and>
     sched_inv k' (ps @ rs) \<and> init_ok k' i (ps @ rs) \<and> length rs \<le> 1 \<and> (rs \<noteq> [] \<longrightarrow> init_waits k i \<and> \<not> init_waits k' i) \<and>
     (init_waits k' i \<longrightarrow> init_waits k i) \<and>
     current k' = current k \<and> idleproc k' = idleproc k \<and> (\<forall>r. r \<noteq> i \<longrightarrow> state (procs k' r) = state (procs k r)) \<and>
     (state (procs k i) = PROC_RUNNABLE \<longrightarrow> state (procs k' i) = PROC_RUNNABLE) \<and>
     (\<forall>r. exit_code (procs k' r) = exit_code (procs k r))"
proof -
  define g where "g = (\<lambda>r. if r = c then (procs k c)\<lparr>cptr := optr (procs k p), yptr := (if cptr (procs k i) = Some c then Some p else yptr (procs k c))\<rparr>
      else if r = p then (procs k p)\<lparr>yptr := None, optr := cptr (procs k i), parent := Some i\<rparr>
      else if r = i then (procs k i)\<lparr>cptr := Some p\<rparr>
      else if cptr (procs k i) = Some r then (procs k r)\<lparr>yptr := Some p\<rparr> else procs k r)"
  let ?k = "k\<lparr>procs := g\<rparr>"
  note al = adopt_links [OF sb, folded g_def]
  have same: "state (g r) = state (procs k r)" "on_rq (g r) = on_rq (procs k r)" "wait_state (g r) = wait_state (procs k r)"
    "exit_code (g r) = exit_code (procs k r)" for r by (simp_all add: g_def)
  have gc: "cptr (g c) = optr (procs k p)" by (simp add: g_def)
  have s1: "sched_inv ?k ps" using s by (rule sched_inv_same) (simp_all add: same)
  show ?thesis
  proof (cases "state (procs k p) = PROC_ZOMBIE \<and> init_waits k i")
    case False
    then have run: "adopt c i p k = Some ?k" using al(3) by (auto simp: init_waits_def)
    have "init_ok ?k i ps" "init_waits ?k i = init_waits k i" using io by (simp_all add: init_ok_def init_waits_def same)
    then show ?thesis using run al(1,2) s1
      by (intro exI [of _ ?k] exI [of _ "[]"]) (simp add: same gc)
  next
    case True
    then have "state (procs ?k i) = PROC_SLEEPING" "length ps + 2 < 2 ^ 32" using io by (simp_all add: init_ok_def same)
    from wakeup_sleeper [OF s1 this] obtain k' where k': "wakeup_proc i ?k = Some k'" "state (procs k' i) = PROC_RUNNABLE"
      "wait_state (procs k' i) = 0" "\<forall>q. q \<noteq> i \<longrightarrow> procs k' q = g q" "sched_inv k' (ps @ joins ?k i)"
      "current k' = current k" "idleproc k' = idleproc k" by auto
    have run: "adopt c i p k = Some k'" using al(3) True k'(1) by (simp add: init_waits_def)
    have kn: "kin (procs k' r) = kin (g r)" for r using wakeup_kin [OF k'(1), of r] by simp
    have "sib (procs k') (Some p) (cptr (procs k' c)) cs"
      using al(1) sib_kin [of "procs k'" g, OF kn] kinD(2) [OF kn] by (simp add: gc)
    moreover have "kids k' i (p # ds)" by (rule kids_kin [OF al(2)]) (simp add: kn)
    moreover have "\<not> init_waits k' i" "init_ok k' i (ps @ joins ?k i)"
      using k'(2,3) by (simp_all add: init_waits_def init_ok_def)
    moreover have "\<forall>r. exit_code (procs k' r) = exit_code (procs k r)" using kinD(6) [OF kn] same by simp
    ultimately show ?thesis using run k' True joins_bound(2) [of ?k i] same
      by (intro exI [of _ k'] exI [of _ "joins ?k i"]) simp
  qed
qed

text \<open>The loop ends after one round per child, with the children in reverse order before those \<open>i\<close> had.\<close>

lemma adopt_all_ok:
  assumes "sib (procs k) y (cptr (procs k c)) cs" and "distinct cs" and "kids k i ds"
    and "set cs \<inter> set ds = {}" "c \<notin> set cs" "i \<notin> set cs \<union> set ds" "c \<noteq> i"
    and "sched_inv k ps" and "init_ok k i ps"
  shows "\<exists>k' rs. adopt_all c i k = Some k' \<and> kids k' i (rev cs @ ds) \<and> cptr (procs k' c) = None \<and> sched_inv k' (ps @ rs) \<and>
     length rs \<le> 1 \<and> (rs \<noteq> [] \<longrightarrow> init_waits k i) \<and> current k' = current k \<and> idleproc k' = idleproc k \<and>
     (\<forall>r. r \<noteq> i \<longrightarrow> state (procs k' r) = state (procs k r)) \<and>
     (state (procs k i) = PROC_RUNNABLE \<longrightarrow> state (procs k' i) = PROC_RUNNABLE) \<and>
     (\<forall>r. exit_code (procs k' r) = exit_code (procs k r))"
  using assms
proof (induction cs arbitrary: k y ds ps)
  case Nil
  then have "cptr (procs k c) = None" by simp
  moreover from this have "adopt_all c i k = Some k" by (subst adopt_all.simps) simp
  ultimately show ?case using Nil by (intro exI [of _ k] exI [of _ "[]"]) simp
next
  case (Cons p cs)
  from adopt_ok [OF Cons.prems] obtain k1 rs1 where k1: "adopt c i p k = Some k1"
    "sib (procs k1) (Some p) (cptr (procs k1 c)) cs" "kids k1 i (p # ds)" "sched_inv k1 (ps @ rs1)" "init_ok k1 i (ps @ rs1)"
    "length rs1 \<le> 1" "rs1 \<noteq> [] \<longrightarrow> init_waits k i \<and> \<not> init_waits k1 i" "init_waits k1 i \<longrightarrow> init_waits k i"
    "current k1 = current k" "idleproc k1 = idleproc k" "\<forall>r. r \<noteq> i \<longrightarrow> state (procs k1 r) = state (procs k r)"
    "state (procs k i) = PROC_RUNNABLE \<longrightarrow> state (procs k1 i) = PROC_RUNNABLE"
    "\<forall>r. exit_code (procs k1 r) = exit_code (procs k r)" by blast
  have dj: "distinct cs" "set cs \<inter> set (p # ds) = {}" "c \<notin> set cs" "i \<notin> set cs \<union> set (p # ds)" using Cons.prems by auto
  from Cons.IH [OF k1(2) dj(1) k1(3) dj(2-4) Cons.prems(7) k1(4,5)] obtain k2 rs2 where k2:
    "adopt_all c i k1 = Some k2" "kids k2 i (rev cs @ p # ds)" "cptr (procs k2 c) = None" "sched_inv k2 ((ps @ rs1) @ rs2)"
    "length rs2 \<le> 1" "rs2 \<noteq> [] \<longrightarrow> init_waits k1 i" "current k2 = current k1" "idleproc k2 = idleproc k1"
    "\<forall>r. r \<noteq> i \<longrightarrow> state (procs k2 r) = state (procs k1 r)"
    "state (procs k1 i) = PROC_RUNNABLE \<longrightarrow> state (procs k2 i) = PROC_RUNNABLE"
    "\<forall>r. exit_code (procs k2 r) = exit_code (procs k1 r)" by blast
  have "adopt_all c i k = Some k2"
    using Cons.prems(1) k1(1) k2(1) by (subst adopt_all.simps) simp
  moreover have "length (rs1 @ rs2) \<le> 1" "rs1 @ rs2 \<noteq> [] \<longrightarrow> init_waits k i"
    using k1(6-8) k2(5,6) by (cases rs1; cases rs2; auto)+
  ultimately show ?case using k1(9-) k2 by (intro exI [of _ k2] exI [of _ "rs1 @ rs2"]) simp
qed

section \<open>Exit\<close>

lemma exit_release_kern:
  "kern (exit_release s) = (if mm (proc_at s (current (kern s))) = None then kern s
     else upd_proc (current (kern s)) (\<lambda>g. g\<lparr>mm := None\<rparr>) (kern s))" "initproc (exit_release s) = initproc s"
  by (auto simp: exit_release_def put_files_def Let_def mm_count_dec_def files_count_dec_def upd_kern_def release_def
      split: option.splits)

text \<open>The state in which the exiting process is about to hand over its children.\<close>

definition zombie :: "int \<Rightarrow> psys \<Rightarrow> kernel" where
  "zombie code s = upd_proc (current (kern s)) (\<lambda>g. g\<lparr>state := PROC_ZOMBIE, exit_code := code\<rparr>) (kern (exit_release s))"

lemma zombie_sel:
  "klinks (zombie code s) = klinks (kern s)" "current (zombie code s) = current (kern s)" "idleproc (zombie code s) = idleproc (kern s)"
  "proc_num (zombie code s) = proc_num (kern s)" "r \<noteq> current (kern s) \<Longrightarrow> procs (zombie code s) r = proc_at s r"
  "state (procs (zombie code s) (current (kern s))) = PROC_ZOMBIE"
  "exit_code (procs (zombie code s) (current (kern s))) = code"
  "parent (procs (zombie code s) r) = parent (proc_at s r)" "cptr (procs (zombie code s) r) = cptr (proc_at s r)"
  "yptr (procs (zombie code s) r) = yptr (proc_at s r)" "optr (procs (zombie code s) r) = optr (proc_at s r)"
  by (auto simp: zombie_def exit_release_kern)

lemma do_exit_eq:
  assumes "current (kern s) \<noteq> idleproc (kern s)" and "initproc s = Some i" "i \<noteq> current (kern s)"
    and "parent (proc_at s (current (kern s))) = Some q"
  shows "do_exit code s = do {
     k \<leftarrow> (if wait_state (procs (zombie code s) q) = WT_CHILD then wakeup_proc q (zombie code s) else Some (zombie code s));
     k \<leftarrow> adopt_all (current (kern s)) i k;
     k \<leftarrow> schedule k;
     Some ((upd_kern (\<lambda>_. k) (exit_release s)))
   }"
proof -
  have z: "zombie code s = upd_proc (current (kern s)) (\<lambda>g. g\<lparr>exit_code := code\<rparr>)
      (upd_proc (current (kern s)) (\<lambda>g. g\<lparr>state := PROC_ZOMBIE\<rparr>) (kern (exit_release s)))"
    by (simp add: zombie_def upd_proc_def)
  have e: "upd_kern (upd_proc (current (kern s)) (\<lambda>g. g\<lparr>exit_code := code\<rparr>))
      (upd_kern (upd_proc (current (kern s)) (\<lambda>g. g\<lparr>state := PROC_ZOMBIE\<rparr>)) (exit_release s)) =
      (exit_release s)\<lparr>kern := zombie code s\<rparr>" by (simp add: upd_kern_def z)
  have "parent (procs (zombie code s) (current (kern s))) = Some q" using assms(4) by (simp add: zombie_sel)
  then show ?thesis
    using assms(1-3) exit_release_kern(2) [of s] unfolding do_exit_def Let_def e
    by (simp add: upd_kern_def)
qed

text \<open>Waking the parent that sleeps in \<^verbatim>\<open>do_wait\<close>, and nobody else.\<close>

lemma wake_parent:
  assumes s: "sched_inv k ps" and w: "wait_state (procs k q) = WT_CHILD \<longrightarrow> state (procs k q) = PROC_SLEEPING \<and> length ps + 2 < 2 ^ 32"
  shows "\<exists>k' rs. (if wait_state (procs k q) = WT_CHILD then wakeup_proc q k else Some k) = Some k' \<and> sched_inv k' (ps @ rs) \<and>
     length rs \<le> 1 \<and> current k' = current k \<and> idleproc k' = idleproc k \<and> (\<forall>r. r \<noteq> q \<longrightarrow> procs k' r = procs k r) \<and>
     (\<forall>r. kin (procs k' r) = kin (procs k r)) \<and> \<not> init_waits k' q \<and>
     (if wait_state (procs k q) = WT_CHILD then state (procs k' q) = PROC_RUNNABLE else procs k' q = procs k q)"
proof (cases "wait_state (procs k q) = WT_CHILD")
  case True
  with w have sl: "state (procs k q) = PROC_SLEEPING" "length ps + 2 < 2 ^ 32" by auto
  from wakeup_sleeper [OF s sl] obtain k' where k': "wakeup_proc q k = Some k'" "state (procs k' q) = PROC_RUNNABLE"
    "wait_state (procs k' q) = 0" "\<forall>r. r \<noteq> q \<longrightarrow> procs k' r = procs k r" "sched_inv k' (ps @ joins k q)"
    "current k' = current k" "idleproc k' = idleproc k" by blast
  then show ?thesis using True joins_bound(2) [of k q] wakeup_kin [OF k'(1)]
    by (intro exI [of _ k'] exI [of _ "joins k q"]) (simp add: init_waits_def)
next
  case False
  then show ?thesis using s by (intro exI [of _ k] exI [of _ "[]"]) (simp add: init_waits_def)
qed

section \<open>Publishing a new process\<close>

fun hash_node :: "knode \<Rightarrow> bool" where
  "hash_node (HashHead _) = True"
| "hash_node (HashLink _) = True"
| "hash_node _ = False"

fun list_node :: "knode \<Rightarrow> bool" where
  "list_node ProcHead = True"
| "list_node (ListLink _) = True"
| "list_node _ = False"

lemma hash_proc_frame:
  assumes "proc_index s S"
  shows "same_links (\<lambda>n. \<not> hash_node n) (kern s) (kern (hash_proc p s))"
proof -
  from assms obtain t where t: "hashed (kern s) t" by (auto simp: proc_index_def)
  let ?b = "pid_hashfn (pid (proc_at s p))"
  have d: "dlist (klinks (kern s)) (HashHead ?b) (map HashLink (t ?b))" using t by (simp add: hashed_def)
  have "m \<notin> set (HashLink p # HashHead ?b # map HashLink (t ?b))" if "\<not> hash_node m" for m using that by auto
  then show ?thesis using frame_add_after_head [OF d, of _ "HashLink p"] by (simp add: same_links_def hash_proc_def list_add_def)
qed

lemma same_links_weaken: "same_links P k k' \<Longrightarrow> (\<And>n. Q n \<Longrightarrow> P n) \<Longrightarrow> same_links Q k k'"
  by (simp add: same_links_def)

lemma plist_same: "plist k ls \<Longrightarrow> same_links list_node k k' \<Longrightarrow> plist k' ls"
  unfolding plist_def by (erule dlist_same_links) auto

lemma plist_add:
  assumes "plist k ls" and "p \<notin> set ls" and "klinks k' = list_add ProcHead (ListLink p) (klinks k)"
  shows "plist k' (p # ls)" "same_links (\<lambda>n. \<not> list_node n) k k'"
proof -
  have d: "dlist (klinks k) ProcHead (map ListLink ls)" using assms(1) by (simp add: plist_def)
  show "plist k' (p # ls)" using dlist_add_after_head [OF d, of "ListLink p"] assms(2,3) by (auto simp: plist_def list_add_def)
  have "m \<notin> set (ListLink p # ProcHead # map ListLink ls)" if "\<not> list_node m" for m using that by auto
  then show "same_links (\<lambda>n. \<not> list_node n) k k'"
    using frame_add_after_head [OF d, of _ "ListLink p"] assms(3) by (simp add: same_links_def list_add_def)
qed

lemma hashed_same: "hashed k t \<Longrightarrow> same_links hash_node k k' \<Longrightarrow> (\<And>p. p \<in> tabled t \<Longrightarrow> pid (procs k' p) = pid (procs k p)) \<Longrightarrow> hashed k' t"
proof -
  assume a: "hashed k t" "same_links hash_node k k'" "\<And>p. p \<in> tabled t \<Longrightarrow> pid (procs k' p) = pid (procs k p)"
  have "dlist (klinks k') (HashHead h) (map HashLink (t h))" for h
    by (rule dlist_same_links [OF _ a(2)]) (use a(1) in \<open>auto simp: hashed_def\<close>)
  moreover have "pid_hashfn (pid (procs k' p)) = h" if "p \<in> set (t h)" for p h
  proof -
    have "p \<in> tabled t" using that by (auto simp: tabled_def)
    from a(3) [OF this] show ?thesis using a(1) that by (simp add: hashed_def)
  qed
  ultimately show "hashed k' t" by (simp add: hashed_def)
qed

lemma proc_index_same:
  assumes "proc_index s S" and "same_links hash_node (kern s) (kern s')" and "\<And>p. p \<in> S \<Longrightarrow> pid (proc_at s' p) = pid (proc_at s p)"
  shows "proc_index s' S"
proof -
  from assms(1) obtain t where t: "hashed (kern s) t" "tabled t = S"
    "\<forall>p\<in>S. \<forall>q\<in>S. pid (proc_at s p) = pid (proc_at s q) \<longrightarrow> p = q" by (auto simp: proc_index_def)
  then show ?thesis using hashed_same [OF t(1) assms(2)] assms(3) unfolding proc_index_def by (intro exI [of _ t]) auto
qed

lemma sched_inv_links:
  assumes "sched_inv k ps" and "same_links run_node k k'" and "procs k' = procs k" "current k' = current k"
    "idleproc k' = idleproc k" "proc_num k' = proc_num k"
  shows "sched_inv k' ps"
proof -
  have r: "rq_inv k ps" using assms(1) by (simp add: sched_inv_def)
  show ?thesis using rq_inv_same [OF r assms(2,3,6,5)] assms(1,4) by (simp add: sched_inv_def)
qed

text \<open>\<open>ptable s ls ps\<close>: the list of all processes, the hash table and the run queue are consistent.\<close>

definition ptable :: "psys \<Rightarrow> nat list \<Rightarrow> nat list \<Rightarrow> bool" where
  "ptable s ls ps \<longleftrightarrow> pid_inv s ls \<and> proc_index s (set ls) \<and> sched_inv (kern s) ps"

lemma fork_publish_ok:
  assumes tb: "ptable s ls ps" and few: "int (length ls) < MAX_PID - 1" and kd: "kids (kern s) q cs"
    and p: "p \<notin> set ls" "p \<notin> set cs" "p \<noteq> q" "q \<notin> set cs" "parent (proc_at s p) = Some q"
      "p \<noteq> current (kern s)" "p \<noteq> idleproc (kern s)" "state (proc_at s p) = PROC_UNINIT"
    and sz: "length ps + 2 < 2 ^ 32"
  shows "\<exists>x s'. fork_publish p s = Some (x, s') \<and> 1 \<le> x \<and> x < MAX_PID \<and> (\<forall>r\<in>set ls. pid (proc_at s r) \<noteq> x) \<and>
     pid (proc_at s' p) = x \<and> find_proc x s' = Some (Some p) \<and> state (proc_at s' p) = PROC_RUNNABLE \<and>
     kids (kern s') q (p # cs) \<and> ptable s' (p # ls) (ps @ [p]) \<and> nr_process s' = nr_process s + 1 \<and>
     released s' = released s \<and> current (kern s') = current (kern s)"
proof -
  have pv: "pid_inv s ls" "proc_index s (set ls)" "sched_inv (kern s) ps" using tb by (simp_all add: ptable_def)
  from get_pid_total [OF pv(1) few] obtain x s1 where s1: "get_pid s = Some (x, s1)" "1 \<le> x" "x < MAX_PID"
    "\<forall>r\<in>set ls. pid (proc_at s r) \<noteq> x" "pid_inv s1 ls" "kern s1 = kern s" "last_pid s1 = x" "nr_process s1 = nr_process s" "released s1 = released s"
    by blast
  define s2 where "s2 = upd_kern (upd_proc p (\<lambda>g. g\<lparr>pid := x\<rparr>)) s1"
  have k2: "klinks (kern s2) = klinks (kern s)" "current (kern s2) = current (kern s)" "idleproc (kern s2) = idleproc (kern s)"
    "proc_num (kern s2) = proc_num (kern s)" "procs (kern s2) = (procs (kern s))(p := (proc_at s p)\<lparr>pid := x\<rparr>)"
    using s1(6) by (simp_all add: s2_def)
  have i2: "proc_index s2 (set ls)" by (rule proc_index_same [OF pv(2)]) (use p(1) in \<open>auto simp: same_links_def k2\<close>)
  have c2: "sched_inv (kern s2) ps" by (rule sched_inv_same [OF pv(3)]) (simp_all add: k2)
  have kd2: "kids (kern s2) q cs" by (rule kids_frame [OF kd]) (simp_all add: k2)
  have np: "\<forall>r\<in>set ls. pid (proc_at s2 r) \<noteq> pid (proc_at s2 p)" using s1(4) p(1) by (auto simp: k2)
  define s3 where "s3 = hash_proc p s2"
  have f3: "same_links (\<lambda>n. \<not> hash_node n) (kern s2) (kern s3)" unfolding s3_def by (rule hash_proc_frame [OF i2])
  have i3: "proc_index s3 (insert p (set ls))" unfolding s3_def by (rule px.insert_law [OF i2 p(1) np])
  have k3: "procs (kern s3) = procs (kern s2)" "current (kern s3) = current (kern s2)" "idleproc (kern s3) = idleproc (kern s2)"
    "proc_num (kern s3) = proc_num (kern s2)" by (simp_all add: s3_def hash_proc_def)
  have c3: "sched_inv (kern s3) ps"
    by (rule sched_inv_links [OF c2 same_links_weaken [OF f3]]) (auto simp: k3 elim: run_node.elims)
  have kd3: "kids (kern s3) q cs" by (rule kids_frame [OF kd2]) (simp_all add: k3)
  have l2: "plist (kern s2) ls" using pv(1) by (simp add: pid_inv_def plist_def k2)
  have l3: "plist (kern s3) ls" by (rule plist_same [OF l2 same_links_weaken [OF f3]]) (auto elim: list_node.elims)
  have par3: "parent (proc_at s3 p) = Some q" "state (proc_at s3 p) = PROC_UNINIT" using p(5,8) by (simp_all add: k3 k2)
  from set_links_ok [OF kd3 par3(1) p(2-4)] obtain s4 f where s4: "set_links p s3 = Some s4" "kids (kern s4) q (p # cs)"
    "klinks (kern s4) = list_add ProcHead (ListLink p) (klinks (kern s3))"
    "\<forall>r. state (proc_at s4 r) = state (proc_at s3 r) \<and> pid (proc_at s4 r) = pid (proc_at s3 r) \<and>
        parent (proc_at s4 r) = parent (proc_at s3 r) \<and> on_rq (proc_at s4 r) = on_rq (proc_at s3 r)"
    "s4 = (upd_kern f s3)\<lparr>nr_process := nr_process s3 + 1\<rparr>" "current (kern s4) = current (kern s3)"
    "idleproc (kern s4) = idleproc (kern s3)" "proc_num (kern s4) = proc_num (kern s3)" by blast
  have p4: "pid (proc_at s4 r) = (if r = p then x else pid (proc_at s r))" for r using s4(4) by (simp add: k3 k2)
  note pl = plist_add [OF l3 p(1) s4(3)]
  have c3': "sched_inv (kern s3\<lparr>procs := procs (kern s4)\<rparr>) ps" by (rule sched_inv_same [OF c3]) (use s4(4) in simp_all)
  have c4: "sched_inv (kern s4) ps"
    by (rule sched_inv_links [OF c3']) (use pl(2) s4(6-8) in \<open>auto simp: same_links_def elim: run_node.elims list_node.elims\<close>)
  have i4: "proc_index s4 (insert p (set ls))"
    by (rule proc_index_same [OF i3 same_links_weaken [OF pl(2)]]) (use s4(4) in \<open>auto elim: hash_node.elims\<close>)
  have z4: "state (procs (kern s4) p) \<noteq> PROC_ZOMBIE" "state (procs (kern s4) p) = PROC_UNINIT" using s4(4) par3 by simp_all
  from wakeup_proc_ok [OF c4 z4(1) sz] obtain k5 where k5: "wakeup_proc p (kern s4) = Some k5" "current k5 = current (kern s4)"
    "state (procs k5 p) = PROC_RUNNABLE" "sched_inv k5 (ps @ [p])"
    using z4(2) p(6,7) s4(6,7) k3 k2 by auto
  note fr = wakeup_same_links [OF c4 k5(1) sz] and kn = wakeup_kin [OF k5(1)]
  define s5 where "s5 = s4\<lparr>kern := k5\<rparr>"
  have p5: "pid (proc_at s5 r) = (if r = p then x else pid (proc_at s r))" for r using kinD(5) [OF kn] p4 by (simp add: s5_def)
  have l5: "plist k5 (p # ls)"
    by (rule plist_same [OF pl(1) same_links_weaken [OF conjunct1 [OF fr]]]) (auto elim: list_node.elims)
  have "same_links hash_node (kern s4) k5"
    by (rule same_links_weaken [OF conjunct1 [OF fr]]) (auto elim: hash_node.elims)
  then have i5: "proc_index s5 (insert p (set ls))"
    by (intro proc_index_same [OF i4]) (use kinD(5) [OF kn] in \<open>simp_all add: s5_def\<close>)
  have st5: "last_pid s5 = x" "next_safe s5 = next_safe s1" "nr_process s5 = nr_process s + 1" "released s5 = released s"
    using s1 by (simp_all add: s5_def s4(5) s3_def s2_def hash_proc_def)
  have "pid_inv s5 (p # ls)" using s1(5,6,7) l5 st5 s1(2) p5 p(1) by (auto simp: pid_inv_def) (auto simp: s5_def)
  moreover have "find_proc x s5 = Some (Some p)" using px.look_law [OF i5, of p] p5 s1(2,3) by simp
  moreover have "kids (kern s5) q (p # cs)" using kids_kin [OF s4(2) kn] by (simp add: s5_def)
  moreover have "fork_publish p s = Some (x, s5)"
    using s1(1) s4(1) k5(1) p5 [of p] by (simp add: fork_publish_def s2_def s3_def s5_def)
  ultimately show ?thesis using s1(2-4) p5 i5 k5(2-4) st5 s4(6) k3 k2
    by (intro exI [of _ x] exI [of _ s5]) (simp add: ptable_def s5_def)
qed

text \<open>The state in which \<^verbatim>\<open>do_fork\<close> publishes the child: only the control block \<open>g\<close> of the child and the counters differ.\<close>

definition prepared :: "psys \<Rightarrow> nat \<Rightarrow> proc_struct \<Rightarrow> psys \<Rightarrow> bool" where
  "prepared s p g s' \<longleftrightarrow> (\<exists>k. kern s' = k\<lparr>klinks := list_init (RunLink p) (klinks (kern s)), procs := (procs (kern s))(p := g)\<rparr> \<and>
        k = kern s) \<and> initproc s' = initproc s \<and> nr_process s' = nr_process s \<and> last_pid s' = last_pid s \<and>
     next_safe s' = next_safe s \<and> released s' = released s"

lemma prepared_ptable:
  assumes tb: "ptable s ls ps" and p: "p \<notin> set ls" "p \<notin> set ps" and pr: "prepared s p g s'"
  shows "ptable s' ls ps"
proof -
  have k: "klinks (kern s') = list_init (RunLink p) (klinks (kern s))" "procs (kern s') = (procs (kern s))(p := g)"
    "current (kern s') = current (kern s)" "idleproc (kern s') = idleproc (kern s)" "proc_num (kern s') = proc_num (kern s)"
    "last_pid s' = last_pid s" "next_safe s' = next_safe s" using pr by (auto simp: prepared_def)
  have fr: "same_links (\<lambda>n. n \<noteq> RunLink p) (kern s) (kern s')" by (simp add: same_links_def k list_init_def)
  have "pid_inv s' ls"
  proof -
    have "plist (kern s) ls" using tb by (simp add: ptable_def pid_inv_def)
    moreover have "same_links list_node (kern s) (kern s')" by (rule same_links_weaken [OF fr]) auto
    ultimately have "plist (kern s') ls" by (rule plist_same)
    moreover have "\<forall>q\<in>set ls. proc_at s' q = proc_at s q" using p(1) by (auto simp: k)
    ultimately show ?thesis using tb by (auto simp: ptable_def pid_inv_def k(6,7))
  qed
  moreover have "proc_index s' (set ls)"
  proof -
    have "proc_index s (set ls)" using tb by (simp add: ptable_def)
    moreover have "same_links hash_node (kern s) (kern s')" by (rule same_links_weaken [OF fr]) auto
    ultimately show ?thesis by (rule proc_index_same) (use p(1) in \<open>auto simp: k\<close>)
  qed
  moreover have "sched_inv (kern s') ps"
  proof -
    have s: "rq_inv (kern s) ps" "current (kern s) \<notin> set ps" "length ps + 1 < 2 ^ 32" using tb by (auto simp: ptable_def sched_inv_def)
    have "dlist (klinks (kern s')) RunHead (map RunLink ps)" unfolding k
      using s(1) p(2) by (intro dlist_list_init_other) (auto simp: rq_inv_def)
    moreover have "list_empty (RunLink q) (klinks (kern s'))" if "q \<notin> set ps" for q
      using s(1) that by (auto simp: k rq_inv_def list_empty_def list_init_def)
    ultimately show ?thesis using s p(2) by (auto simp: sched_inv_def rq_inv_def k)
  qed
  ultimately show ?thesis by (simp add: ptable_def)
qed

definition mm_copies :: "32 word \<Rightarrow> fork_env \<Rightarrow> psys \<Rightarrow> bool" where
  "mm_copies flags e s \<longleftrightarrow> mm (proc_at s (current (kern s))) = None \<or> flags AND CLONE_VM \<noteq> 0 \<or>
     e_mm e \<noteq> None \<and> e_pgdir e \<and> e_dup_mmap e = 0"

definition files_copy :: "32 word \<Rightarrow> fork_env \<Rightarrow> psys \<Rightarrow> bool" where
  "files_copy flags e s \<longleftrightarrow> filesp (proc_at s (current (kern s))) \<noteq> None \<and>
     (flags AND CLONE_FS \<noteq> 0 \<or> e_files e \<noteq> None \<and> e_dup_files e = 0)"

text \<open>Both copies only fill in one field of the child and count a reference.\<close>

lemma prepared_set:
  assumes "prepared s p g s1" and "kern s2 = upd_proc p h (kern s1)" and "initproc s2 = initproc s1" "nr_process s2 = nr_process s1"
    "last_pid s2 = last_pid s1" "next_safe s2 = next_safe s1" "released s2 = released s1"
  shows "prepared s p (h g) s2"
  using assms by (auto simp: prepared_def upd_proc_def)

lemma copy_mm_good:
  assumes pr: "prepared s p g s1" and ok: "mm_copies flags e s1"
  shows "\<exists>s2 m. copy_mm flags p e s1 = (0, s2) \<and> prepared s p (g\<lparr>mm := m\<rparr>) s2"
proof (cases "mm (proc_at s1 (current (kern s1)))")
  case None
  moreover have "g\<lparr>mm := mm g\<rparr> = g" by simp
  ultimately show ?thesis using pr by (intro exI [of _ s1] exI [of _ "mm g"]) (simp add: copy_mm_def)
next
  case (Some old)
  let ?s2 = "snd (copy_mm flags p e s1)"
  obtain m where "fst (copy_mm flags p e s1) = 0" "kern ?s2 = upd_proc p (\<lambda>g. g\<lparr>mm := Some m\<rparr>) (kern s1)"
    "initproc ?s2 = initproc s1" "nr_process ?s2 = nr_process s1"
    "last_pid ?s2 = last_pid s1" "next_safe ?s2 = next_safe s1" "released ?s2 = released s1"
  proof (cases "flags AND CLONE_VM \<noteq> 0")
    case True
    then show ?thesis using that [of old] Some by (simp add: copy_mm_def mm_count_inc_def)
  next
    case False
    then obtain m where "e_mm e = Some m" "e_pgdir e" "e_dup_mmap e = 0" using ok Some by (auto simp: mm_copies_def)
    then show ?thesis using that [of m] Some False by (simp add: copy_mm_def mm_count_inc_def Let_def)
  qed
  then show ?thesis using prepared_set [OF pr, of ?s2 "\<lambda>g. g\<lparr>mm := Some m\<rparr>"]
    by (intro exI [of _ ?s2] exI [of _ "Some m"]) (simp add: prod_eq_iff)
qed

lemma copy_files_good:
  assumes pr: "prepared s p g s1" and ok: "files_copy flags e s1"
  shows "\<exists>s2 f. copy_files flags p e s1 = Some (0, s2) \<and> prepared s p (g\<lparr>filesp := f\<rparr>) s2"
proof -
  obtain old where old: "filesp (proc_at s1 (current (kern s1))) = Some old" using ok by (auto simp: files_copy_def)
  let ?r = "the (copy_files flags p e s1)"
  obtain f where r: "copy_files flags p e s1 = Some ?r" "fst ?r = 0" and "kern (snd ?r) = upd_proc p (\<lambda>g. g\<lparr>filesp := Some f\<rparr>) (kern s1)"
    "initproc (snd ?r) = initproc s1" "nr_process (snd ?r) = nr_process s1"
    "last_pid (snd ?r) = last_pid s1" "next_safe (snd ?r) = next_safe s1" "released (snd ?r) = released s1"
  proof (cases "flags AND CLONE_FS \<noteq> 0")
    case True
    then show ?thesis using that [of old] old by (simp add: copy_files_def files_count_inc_def)
  next
    case False
    then obtain f where "e_files e = Some f" "e_dup_files e = 0" using ok by (auto simp: files_copy_def)
    then show ?thesis using that [of f] old False by (simp add: copy_files_def files_count_inc_def Let_def)
  qed
  then have "prepared s p (g\<lparr>filesp := Some f\<rparr>) (snd ?r)" using prepared_set [OF pr, of "snd ?r" "\<lambda>g. g\<lparr>filesp := Some f\<rparr>"] by simp
  moreover have "copy_files flags p e s1 = Some (0, snd ?r)" using r by (metis prod.collapse)
  ultimately show ?thesis by blast
qed

lemma alloc_prepared:
  fixes c :: nat
  assumes "alloc_proc (Some p) s = (Some p, s0)"
  defines "s1 \<equiv> upd_kern (upd_proc p (\<lambda>g. g\<lparr>parent := Some c\<rparr>)) s0"
  shows "\<exists>g. prepared s p g s1 \<and> state g = PROC_UNINIT \<and> parent g = Some c"
proof -
  let ?g = "(proc_at s p)\<lparr>state := PROC_UNINIT, pid := - 1, runs := 0, kstack := 0, need_resched := False,
               mm := None, pflags := 0, wait_state := 0, cptr := None, optr := None, yptr := None,
               on_rq := False, time_slice := 0, parent := Some c\<rparr>"
  have "prepared s p ?g s1"
    using assms(1) by (auto simp: s1_def prepared_def alloc_proc_def upd_kern_def upd_klinks_def upd_proc_def)
  then show ?thesis by (intro exI [of _ ?g]) simp
qed

section \<open>A fork that fails\<close>

definition aborted :: "psys \<Rightarrow> nat \<Rightarrow> proc_struct \<Rightarrow> resource list \<Rightarrow> psys \<Rightarrow> bool" where
  "aborted s p g rs s' \<longleftrightarrow> prepared s p g (s'\<lparr>released := released s\<rparr>) \<and> released s' = released s @ rs"

lemma prepared_aborted: "prepared s p g s' \<Longrightarrow> aborted s p g [] s'"
  by (auto simp: aborted_def prepared_def)

lemma aborted_release: "aborted s p g rs s1 \<Longrightarrow> aborted s p g (rs @ qs) (release qs s1)"
  by (auto simp: aborted_def prepared_def)

lemma aborted_count: "aborted s p g rs s1 \<Longrightarrow> aborted s p g rs (s1\<lparr>mm_count := f\<rparr>)"
  "aborted s p g rs s1 \<Longrightarrow> aborted s p g rs (s1\<lparr>files_count := h\<rparr>)"
  by (auto simp: aborted_def prepared_def)

lemma aborted_ptable:
  assumes "ptable s ls ps" and "p \<notin> set ls" "p \<notin> set ps" and "aborted s p g rs s'"
  shows "ptable s' ls ps"
proof -
  have "ptable (s'\<lparr>released := released s\<rparr>) ls ps"
    using prepared_ptable [OF assms(1-3)] assms(4) unfolding aborted_def by blast
  then show ?thesis by (simp add: ptable_def pid_inv_def proc_index_def)
qed

lemma copy_mm_bad:
  assumes "prepared s p g s1" and "\<not> mm_copies flags e s1"
  shows "fst (copy_mm flags p e s1) \<noteq> 0 \<and> (\<exists>rs. aborted s p g rs (snd (copy_mm flags p e s1)))"
proof -
  note a = prepared_aborted [OF assms(1)]
  have "\<exists>rs. aborted s p g rs (release qs (s1\<lparr>mm_count := f\<rparr>))" for qs f
    using aborted_release [OF aborted_count(1) [OF a]] by blast
  with a assms(2) show ?thesis by (cases "e_mm e"; cases "e_pgdir e") (auto simp: mm_copies_def copy_mm_def Let_def)
qed

lemma copy_files_bad:
  assumes "prepared s p g s1" and "\<not> files_copy flags e s1" and "filesp (proc_at s1 (current (kern s1))) \<noteq> None"
  shows "\<exists>r s2 rs. copy_files flags p e s1 = Some (r, s2) \<and> r \<noteq> 0 \<and> aborted s p g rs s2"
proof -
  note a = prepared_aborted [OF assms(1)]
  have "\<exists>rs. aborted s p g rs (release qs (s1\<lparr>files_count := f\<rparr>))" for qs f
    using aborted_release [OF aborted_count(2) [OF a]] by blast
  with a assms(2,3) show ?thesis by (cases "e_files e") (auto simp: files_copy_def copy_files_def Let_def)
qed

lemma put_files_aborted: "aborted s p g rs s1 \<Longrightarrow> \<exists>qs. aborted s p g (rs @ qs) (put_files p s1)"
  using aborted_count(2) [of s p g rs s1] aborted_release [OF aborted_count(2) [of s p g rs s1]]
  by (auto simp: put_files_def files_count_dec_def Let_def split: option.splits intro: exI [of _ "[]"])

lemma aborted_cleanup:
  "aborted s p g rs s1 \<Longrightarrow> aborted s p g (rs @ [ProcBlock p]) (fork_cleanup_proc p s1)"
  "aborted s p g rs s1 \<Longrightarrow> aborted s p g (rs @ [KStack (kstack (proc_at s1 p)), ProcBlock p]) (fork_cleanup_kstack p s1)"
  using aborted_release [of s p g rs s1 "[ProcBlock p]"]
    aborted_release [OF aborted_release [of s p g rs s1 "[KStack (kstack (proc_at s1 p))]"], of "[ProcBlock p]"]
  by (simp_all add: fork_cleanup_proc_def fork_cleanup_kstack_def put_kstack_def)

section \<open>Reaping\<close>

lemma unhash_proc_frame:
  assumes "proc_index s S" and "p \<in> S"
  shows "same_links (\<lambda>n. \<not> hash_node n) (kern s) (kern (unhash_proc p s))"
proof -
  from assms obtain t where t: "hashed (kern s) t" "p \<in> tabled t" by (auto simp: proc_index_def)
  let ?b = "pid_hashfn (pid (proc_at s p))"
  have d: "dlist (klinks (kern s)) (HashHead ?b) (map HashLink (t ?b))" using t by (simp add: hashed_def)
  have "HashLink p \<in> set (map HashLink (t ?b))" using hashed_bucket [OF t] by simp
  moreover have "m \<notin> set (HashHead ?b # map HashLink (t ?b))" if "\<not> hash_node m" for m using that by auto
  ultimately show ?thesis using frame_del [OF d, of "HashLink p"] by (auto simp: same_links_def unhash_proc_def)
qed

lemma plist_del:
  assumes "plist k ls" and "p \<in> set ls" and "klinks k' = list_del (ListLink p) (klinks k)"
  shows "plist k' (remove1 p ls)" "same_links (\<lambda>n. \<not> list_node n) k k'"
proof -
  have d: "dlist (klinks k) ProcHead (map ListLink ls)" using assms(1) by (simp add: plist_def)
  from assms(2) obtain us vs where sp: "ls = us @ p # vs" "p \<notin> set us" by (meson split_list_first)
  show "plist k' (remove1 p ls)"
    using dlist_del [of "klinks k" ProcHead "map ListLink us" "ListLink p" "map ListLink vs"] d sp assms(3)
    by (simp add: plist_def remove1_append)
  have "m \<notin> set (ProcHead # map ListLink ls)" if "\<not> list_node m" for m using that by auto
  then show "same_links (\<lambda>n. \<not> list_node n) k k'"
    using frame_del [OF d, of "ListLink p"] assms(2,3) by (auto simp: same_links_def)
qed

lemma remove_links_sel:
  assumes "remove_links p s = Some s'"
  shows "current (kern s') = current (kern s)" "idleproc (kern s') = idleproc (kern s)" "proc_num (kern s') = proc_num (kern s)"
    "initproc s' = initproc s" "last_pid s' = last_pid s" "next_safe s' = next_safe s" "released s' = released s"
    "on_rq (proc_at s' r) = on_rq (proc_at s r)" "kstack (proc_at s' r) = kstack (proc_at s r)"
  using assms by (auto simp: remove_links_def Let_def split: option.splits bind_splits if_splits)

lemma reap_ok:
  assumes tb: "ptable s ls ps" and kd: "kids (kern s) c (us @ z # vs)" "c \<notin> set (us @ z # vs)"
    and z: "z \<in> set ls" "z \<noteq> idleproc (kern s)" "Some z \<noteq> initproc s"
  shows "\<exists>s'. reap z store s = Some (WaitDone 0 (if store then Some (exit_code (proc_at s z)) else None), s') \<and>
     kids (kern s') c (us @ vs) \<and> ptable s' (remove1 z ls) ps \<and> nr_process s' = nr_process s - 1 \<and>
     find_proc (pid (proc_at s z)) s' = Some None \<and> released s' = released s @ [KStack (kstack (proc_at s z)), ProcBlock z] \<and>
     current (kern s') = current (kern s)"
proof -
  have pv: "pid_inv s ls" "proc_index s (set ls)" "sched_inv (kern s) ps" using tb by (simp_all add: ptable_def)
  have dl: "distinct ls" using pv(1) by (auto simp: pid_inv_def plist_def distinct_map dest: dlist_distinct)
  define s1 where "s1 = unhash_proc z s"
  have k1: "procs (kern s1) = procs (kern s)" "current (kern s1) = current (kern s)" "idleproc (kern s1) = idleproc (kern s)"
    "proc_num (kern s1) = proc_num (kern s)" "initproc s1 = initproc s" "last_pid s1 = last_pid s" "next_safe s1 = next_safe s"
    "released s1 = released s" "nr_process s1 = nr_process s" by (simp_all add: s1_def unhash_proc_def)
  have f1: "same_links (\<lambda>n. \<not> hash_node n) (kern s) (kern s1)" unfolding s1_def by (rule unhash_proc_frame [OF pv(2) z(1)])
  have i1: "proc_index s1 (set ls - {z})" unfolding s1_def by (rule px.delete_law [OF pv(2) z(1)])
  have c1: "sched_inv (kern s1) ps"
    by (rule sched_inv_links [OF pv(3) same_links_weaken [OF f1]]) (auto simp: k1 elim: run_node.elims)
  have l1: "plist (kern s1) ls"
    by (rule plist_same [OF _ same_links_weaken [OF f1]]) (use pv(1) in \<open>auto simp: pid_inv_def elim: list_node.elims\<close>)
  have kd1: "kids (kern s1) c (us @ z # vs)" by (rule kids_frame [OF kd(1)]) (simp_all add: k1)
  from remove_links_ok [OF kd1 kd(2)] obtain s2 where s2: "remove_links z s1 = Some s2" "kids (kern s2) c (us @ vs)"
    "nr_process s2 = nr_process s1 - 1" "klinks (kern s2) = list_del (ListLink z) (klinks (kern s1))"
    "\<forall>r. state (proc_at s2 r) = state (proc_at s1 r) \<and> pid (proc_at s2 r) = pid (proc_at s1 r) \<and>
        parent (proc_at s2 r) = parent (proc_at s1 r)" by blast
  note k2 = remove_links_sel [OF s2(1)] and pl = plist_del [OF l1 z(1) s2(4)]
  have "sched_inv (kern s1\<lparr>procs := procs (kern s2)\<rparr>) ps" by (rule sched_inv_same [OF c1]) (use s2(5) k2(8) in simp_all)
  then have c2: "sched_inv (kern s2) ps"
    by (rule sched_inv_links) (use pl(2) k2(1-3) in \<open>auto simp: same_links_def elim: run_node.elims list_node.elims\<close>)
  have i2: "proc_index s2 (set ls - {z})"
    by (rule proc_index_same [OF i1 same_links_weaken [OF pl(2)]]) (use s2(5) in \<open>auto elim: hash_node.elims\<close>)
  have u: "pid (proc_at s r) \<noteq> pid (proc_at s z)" if "r \<in> set ls - {z}" for r
    using px.distinct_pids [OF pv(2) _ z(1), of r] that by auto
  have n2: "find_proc (pid (proc_at s z)) s2 = Some None" by (rule px.look_none [OF i2]) (use u s2(5) in \<open>auto simp: k1\<close>)
  define s3 where "s3 = release [ProcBlock z] (put_kstack z s2)"
  have k3: "kern s3 = kern s2" by (simp add: s3_def put_kstack_def)
  have "ptable s3 (remove1 z ls) ps"
    using pv(1) pl(1) c2 i2 s2(5) k2 dl
    by (auto simp: ptable_def pid_inv_def k3 k1 s3_def put_kstack_def set_remove1_eq proc_index_def)
  moreover have "reap z store s = Some (WaitDone 0 (if store then Some (exit_code (proc_at s z)) else None), s3)"
    using z(2,3) s2(1) by (simp add: reap_def s1_def [symmetric] s3_def)
  moreover have "find_proc (pid (proc_at s z)) s3 = Some None" using n2 by (auto simp: find_proc_def k3)
  ultimately show ?thesis using s2 k1 k2 by (intro exI [of _ s3]) (simp add: k3 s3_def put_kstack_def)
qed

lemma child_scan_ok:
  assumes "sib (procs k) y x (us @ z # vs)" and "\<forall>u\<in>set us. state (procs k u) \<noteq> PROC_ZOMBIE" and "state (procs k z) = PROC_ZOMBIE"
  shows "child_scan k x h = Some (True, Some z)"
  using assms
proof (induction us arbitrary: y x h)
  case Nil
  then show ?case by (subst child_scan.simps) simp
next
  case (Cons u us)
  then show ?case by (subst child_scan.simps) auto
qed

section \<open>The properties\<close>

text \<open>C11: \<^verbatim>\<open>do_exit\<close>: the process becomes a zombie with its exit code, every child it had is a child of the initial
  process afterwards and none is lost, a parent that waits for a child is runnable, and the processor goes
  to another process: the zombie is neither current nor in the run queue.\<close>

theorem do_exit_hands_over:
  assumes s: "sched_inv (kern s) ps" and c: "c = current (kern s)" "c \<noteq> idleproc (kern s)" "c \<noteq> i"
    and ip: "initproc s = Some i" and q: "parent (proc_at s c) = Some q" "q \<noteq> c"
    and tree: "kids (kern s) c cs" "kids (kern s) i ds" "set cs \<inter> set ds = {}" "c \<notin> set cs" "i \<notin> set cs \<union> set ds"
    and st: "state (proc_at s i) \<noteq> PROC_ZOMBIE"
      "\<forall>r\<in>{q, i}. wait_state (proc_at s r) = WT_CHILD \<longrightarrow> state (proc_at s r) = PROC_SLEEPING"
    and sz: "length ps + 3 < 2 ^ 32"
  shows "\<exists>s' ps'. do_exit code s = Some s' \<and> state (proc_at s' c) = PROC_ZOMBIE \<and> exit_code (proc_at s' c) = code \<and>
     kids (kern s') i (rev cs @ ds) \<and> cptr (proc_at s' c) = None \<and>
     sched_inv (kern s') ps' \<and> current (kern s') \<noteq> c \<and> c \<notin> set ps' \<and>
     (wait_state (proc_at s q) = WT_CHILD \<longrightarrow> state (proc_at s' q) = PROC_RUNNABLE)"
proof -
  let ?z = "zombie code s"
  have cps: "c \<notin> set ps" using s c(1) by (simp add: sched_inv_def)
  have z: "sched_inv ?z ps"
  proof (rule sched_inv_same [OF s])
    fix p assume "p \<in> set ps"
    then have "p \<noteq> current (kern s)" using cps c(1) by auto
    then show "state (procs ?z p) = state (proc_at s p) \<and> on_rq (procs ?z p) = on_rq (proc_at s p)" by (simp add: zombie_sel)
  qed (simp_all add: zombie_sel)
  have zq: "procs ?z q = proc_at s q" "procs ?z i = proc_at s i" using q(2) c by (simp_all add: zombie_sel)
  have "wait_state (procs ?z q) = WT_CHILD \<longrightarrow> state (procs ?z q) = PROC_SLEEPING \<and> length ps + 2 < 2 ^ 32"
    using st(2) sz zq by simp
  from wake_parent [OF z this] obtain k1 rs1 where k1:
    "(if wait_state (procs ?z q) = WT_CHILD then wakeup_proc q ?z else Some ?z) = Some k1" "sched_inv k1 (ps @ rs1)"
    "length rs1 \<le> 1" "current k1 = current ?z" "idleproc k1 = idleproc ?z" "\<forall>r. r \<noteq> q \<longrightarrow> procs k1 r = procs ?z r"
    "\<forall>r. kin (procs k1 r) = kin (procs ?z r)" "\<not> init_waits k1 q"
    "if wait_state (procs ?z q) = WT_CHILD then state (procs k1 q) = PROC_RUNNABLE else procs k1 q = procs ?z q" by blast
  have kz: "kids ?z r es" if "kids (kern s) r es" for r es
    by (rule kids_frame [OF that]) (simp_all add: zombie_sel)
  have kd: "kids k1 c cs" "kids k1 i ds" using k1(7) by (blast intro: kids_kin [OF kz] tree)+
  then have sb: "sib (procs k1) None (cptr (procs k1 c)) cs" "distinct cs" by (simp_all add: kids_def)
  have io: "init_ok k1 i (ps @ rs1)"
  proof (cases "q = i")
    case True
    then show ?thesis using k1(8,9) st(1) zq by (auto simp: init_ok_def split: if_splits)
  next
    case False
    then have "procs k1 i = proc_at s i" using k1(6) zq by simp
    then show ?thesis using st sz k1(3) by (simp add: init_ok_def init_waits_def)
  qed
  from adopt_all_ok [OF sb kd(2) tree(3-5) c(3) k1(2) io] obtain k2 rs2 where k2: "adopt_all c i k1 = Some k2"
    "kids k2 i (rev cs @ ds)" "cptr (procs k2 c) = None" "sched_inv k2 ((ps @ rs1) @ rs2)" "current k2 = current k1"
    "idleproc k2 = idleproc k1" "\<forall>r. r \<noteq> i \<longrightarrow> state (procs k2 r) = state (procs k1 r)"
    "state (procs k1 i) = PROC_RUNNABLE \<longrightarrow> state (procs k2 i) = PROC_RUNNABLE"
    "\<forall>r. exit_code (procs k2 r) = exit_code (procs k1 r)" by blast
  from schedule_ok [OF k2(4)] obtain k3 where k3: "schedule k2 = Some k3"
    "current k3 = (case requeued k2 ((ps @ rs1) @ rs2) of [] \<Rightarrow> idleproc k2 | p # _ \<Rightarrow> p)"
    "sched_inv k3 (tl (requeued k2 ((ps @ rs1) @ rs2)))" "\<forall>p. state (procs k3 p) = state (procs k2 p)" by blast
  have cz: "procs k1 c = procs ?z c" "state (procs ?z c) = PROC_ZOMBIE" "exit_code (procs ?z c) = code"
    using k1(6) q(2) c(1) by (simp_all add: zombie_sel)
  have sc: "state (procs k3 c) = PROC_ZOMBIE" using k3(4) k2(7) c(3) cz by simp
  define Q where "Q = (ps @ rs1) @ rs2"
  have rq: "requeued k2 Q = Q" using k2(5,7) k1(4) c cz by (simp add: requeued_def zombie_sel)
  have "c \<notin> set Q" using k2(4,5) k1(4) c(1) by (simp add: sched_inv_def zombie_sel Q_def)
  then have cur: "current k3 \<noteq> c" "c \<notin> set (tl (requeued k2 Q))"
    using k3(2) k2(6) k1(5) c(2) unfolding Q_def [symmetric] rq by (cases Q; simp add: zombie_sel)+
  note kn = schedule_kin [OF k3(1)]
  have "kids k3 i (rev cs @ ds)" using kids_kin [OF k2(2) kn] .
  moreover have "cptr (procs k3 c) = None" "exit_code (procs k3 c) = code"
    using k2(3,9) kinD [OF kn] cz by simp_all
  moreover have "do_exit code s = Some (upd_kern (\<lambda>_. k3) (exit_release s))"
    using do_exit_eq [of s i q code] c ip q(1) k1(1) k2(1) k3(1) by simp
  moreover have "wait_state (proc_at s q) = WT_CHILD \<longrightarrow> state (procs k3 q) = PROC_RUNNABLE"
    using k1(9) k2(7,8) k3(4) zq by (cases "q = i") auto
  ultimately show ?thesis using sc cur k3(3) [folded Q_def]
    by (intro exI [of _ "upd_kern (\<lambda>_. k3) (exit_release s)"] exI [of _ "tl (requeued k2 Q)"]) simp
qed

text \<open>Process 1 runs, is a child of the initial process 2 and has the child 4.\<close>

definition exit_psys :: psys where
  "exit_psys = sample_psys\<lparr>initproc := Some 2, kern := upd_proc 1 (\<lambda>g. g\<lparr>parent := Some 2, cptr := Some 4\<rparr>)
     (upd_proc 2 (\<lambda>g. g\<lparr>cptr := Some 1\<rparr>) (upd_proc 4 (\<lambda>g. g\<lparr>parent := Some 1\<rparr>) sample_kernel))\<rparr>"

lemma sample_kernel_kin:
  "parent (procs sample_kernel p) = None" "cptr (procs sample_kernel p) = None" "yptr (procs sample_kernel p) = None"
  "optr (procs sample_kernel p) = None" "mm (procs sample_kernel p) = None"
  by (simp_all add: sample_kernel_def sched_init_def RR_init_def boot_kernel_def sample_proc_def refill_def)

lemma exit_psys_inv: "sched_inv (kern exit_psys) [2, 3]" "kids (kern exit_psys) 1 [4]" "kids (kern exit_psys) 2 [1]"
proof -
  show "sched_inv (kern exit_psys) [2, 3]"
    by (rule sched_inv_same [OF sample_kernel_inv(1)]) (auto simp: exit_psys_def)
  show "kids (kern exit_psys) 1 [4]" "kids (kern exit_psys) 2 [1]"
    by (simp_all add: kids_def exit_psys_def sample_kernel_kin)
qed

theorem do_exit_hands_over_witness:
  "\<exists>s'. do_exit 7 exit_psys = Some s' \<and> state (proc_at s' 1) = PROC_ZOMBIE \<and> exit_code (proc_at s' 1) = 7 \<and>
     kids (kern s') 2 [4, 1] \<and> current (kern s') \<noteq> 1"
proof -
  have e: "current (kern exit_psys) = 1" "idleproc (kern exit_psys) = 0" "initproc exit_psys = Some 2"
    "parent (proc_at exit_psys 1) = Some 2" "state (proc_at exit_psys 2) = PROC_RUNNABLE" "wait_state (proc_at exit_psys 2) = 0"
    by (simp_all add: exit_psys_def)
  show ?thesis
    using do_exit_hands_over [OF exit_psys_inv(1) _ _ _ e(3) e(4) _ exit_psys_inv(2,3), of 7] e by auto
qed

text \<open>The child keeps the kernel stack it was given.\<close>

lemma wakeup_kstack: "wakeup_proc p k = Some k' \<Longrightarrow> kstack (procs k' r) = kstack (procs k r)"
  by (auto simp: wakeup_proc_cases RR_enqueue_def woken_def refill_def Let_def split: if_splits bind_splits)

lemma set_links_kstack: "set_links p s = Some s' \<Longrightarrow> kstack (proc_at s' r) = kstack (proc_at s r)"
  by (auto simp: set_links_def Let_def split: option.splits bind_splits if_splits)

lemma fork_publish_kstack:
  assumes "pid_inv s ls" and "int (length ls) < MAX_PID - 1" and "fork_publish p s = Some (x, s')"
  shows "kstack (proc_at s' r) = kstack (proc_at s r)"
proof -
  from get_pid_total [OF assms(1,2)] obtain y s1 where "get_pid s = Some (y, s1)" "kern s1 = kern s" by blast
  then show ?thesis using assms(3)
    by (auto simp: fork_publish_def hash_proc_def dest!: wakeup_kstack [where r = r] set_links_kstack [where r = r] split: bind_splits)
qed

lemma do_fork_ok:
  assumes tb: "ptable s ls ps" and nr: "nr_process s < MAX_PROCESS" and few: "int (length ls) < MAX_PID - 1"
    and c: "c = current (kern s)" "kids (kern s) c cs" "c \<notin> set cs" "wait_state (proc_at s c) = 0"
    and p: "e_proc e = Some p" "p \<notin> set ls" "p \<notin> set ps" "p \<notin> set cs" "p \<noteq> c" "p \<noteq> idleproc (kern s)"
    and ok: "e_kstack e = Some st" "mm_copies flags e s" "files_copy flags e s"
    and sz: "length ps + 2 < 2 ^ 32"
  shows "\<exists>x s'. do_fork flags e s = Some (x, s') \<and> 1 \<le> x \<and> x < MAX_PID \<and> (\<forall>r\<in>set ls. pid (proc_at s r) \<noteq> x) \<and>
     pid (proc_at s' p) = x \<and> find_proc x s' = Some (Some p) \<and> state (proc_at s' p) = PROC_RUNNABLE \<and>
     kids (kern s') c (p # cs) \<and> ptable s' (p # ls) (ps @ [p]) \<and> nr_process s' = nr_process s + 1 \<and>
     released s' = released s \<and> current (kern s') = c \<and> kstack (proc_at s' p) = st"
proof -
  obtain s0 where s0: "alloc_proc (Some p) s = (Some p, s0)" by (simp add: alloc_proc_def)
  define s1 where "s1 = upd_kern (upd_proc p (\<lambda>g. g\<lparr>parent := Some c\<rparr>)) s0"
  from alloc_prepared [OF s0, of c] obtain g1 where g1: "prepared s p g1 s1" "state g1 = PROC_UNINIT" "parent g1 = Some c"
    by (auto simp: s1_def)
  define s2 where "s2 = upd_kern (upd_proc p (\<lambda>g. g\<lparr>kstack := st\<rparr>)) s1"
  have g2: "prepared s p (g1\<lparr>kstack := st\<rparr>) s2" by (rule prepared_set [OF g1(1)]) (simp_all add: s2_def)
  have same: "current (kern t) = c" "proc_at t c = proc_at s c" if "prepared s p g t" for t g
    using that c(1) p(5) by (auto simp: prepared_def)
  have "mm_copies flags e s2" using ok(2) same [OF g2] c(1) by (simp add: mm_copies_def)
  from copy_mm_good [OF g2 this] obtain s3 m where s3: "copy_mm flags p e s2 = (0, s3)" "prepared s p (g1\<lparr>kstack := st, mm := m\<rparr>) s3"
    by auto
  have "files_copy flags e s3" using ok(3) same [OF s3(2)] c(1) by (simp add: files_copy_def)
  from copy_files_good [OF s3(2) this] obtain s4 f where s4: "copy_files flags p e s3 = Some (0, s4)"
    "prepared s p (g1\<lparr>kstack := st, mm := m, filesp := f\<rparr>) s4" by auto
  have cur0: "current (kern s0) = c" "wait_state (proc_at s0 c) = 0"
    using s0 c(1,4) p(5) by (auto simp: alloc_proc_def)
  have "do_fork flags e s = fork_publish p s4"
    using nr p(1,5) s0 cur0 ok(1) s3(1) s4(1)
    by (simp add: do_fork_def setup_kstack_def s1_def [symmetric] s2_def [symmetric])
  moreover have t4: "ptable s4 ls ps" by (rule prepared_ptable [OF tb p(2,3) s4(2)])
  moreover have k4: "kids (kern s4) c cs"
    by (rule kids_frame [OF c(2)]) (use s4(2) p(4,5) in \<open>auto simp: prepared_def\<close>)
  moreover have "parent (proc_at s4 p) = Some c" "state (proc_at s4 p) = PROC_UNINIT" "idleproc (kern s4) = idleproc (kern s)"
    using s4(2) g1(2,3) by (auto simp: prepared_def)
  moreover have "pid (proc_at s4 r) = pid (proc_at s r)" if "r \<in> set ls" for r using s4(2) p(2) that by (auto simp: prepared_def)
  moreover have "kstack (proc_at s' p) = st" if "fork_publish p s4 = Some (x, s')" for x s'
    using fork_publish_kstack [OF _ few that] t4 s4(2) by (simp add: ptable_def prepared_def)
  ultimately show ?thesis
    using fork_publish_ok [OF t4 few k4 p(2,4,5) c(3)] same [OF s4(2)] p(5,6) sz s4(2) by (auto simp: prepared_def)
qed

text \<open>C12: A successful \<^verbatim>\<open>do_fork\<close>: the child has a fresh pid, which is returned; it is found under it, is the youngest
  child of the caller and is runnable at the tail of the run queue; the process list, the hash table and
  the run queue stay consistent, and nothing is released.\<close>

theorem do_fork_creates_child:
  assumes tb: "ptable s ls ps" and nr: "nr_process s < MAX_PROCESS" and few: "int (length ls) < MAX_PID - 1"
    and c: "c = current (kern s)" "kids (kern s) c cs" "c \<notin> set cs" "wait_state (proc_at s c) = 0"
    and p: "e_proc e = Some p" "p \<notin> set ls" "p \<notin> set ps" "p \<notin> set cs" "p \<noteq> c" "p \<noteq> idleproc (kern s)"
    and ok: "e_kstack e = Some st" "mm_copies flags e s" "files_copy flags e s"
    and sz: "length ps + 2 < 2 ^ 32"
  shows "\<exists>x s'. do_fork flags e s = Some (x, s') \<and> 1 \<le> x \<and> x < MAX_PID \<and> (\<forall>r\<in>set ls. pid (proc_at s r) \<noteq> x) \<and>
     pid (proc_at s' p) = x \<and> find_proc x s' = Some (Some p) \<and> state (proc_at s' p) = PROC_RUNNABLE \<and>
     kids (kern s') c (p # cs) \<and> ptable s' (p # ls) (ps @ [p]) \<and> nr_process s' = nr_process s + 1 \<and>
     released s' = released s \<and> current (kern s') = c"
  using do_fork_ok [OF assms] by blast

definition fork_psys :: psys where
  "fork_psys = hash_psys\<lparr>kern := upd_proc 1 (\<lambda>g. g\<lparr>filesp := Some 0\<rparr>)
     ((kern hash_psys)\<lparr>proc_num := 0, procs := (\<lambda>p. (proc_at hash_psys p)\<lparr>on_rq := False\<rparr>)\<rparr>)\<rparr>"

definition fork_resources :: fork_env where
  "fork_resources = \<lparr>e_proc = Some 9, e_kstack = Some 70, e_mm = Some 71, e_pgdir = True, e_dup_mmap = 0,
     e_files = Some 72, e_dup_files = 0\<rparr>"

lemma fork_psys_simps:
  "klinks (kern fork_psys) = \<lparr>nxt = (\<lambda>n. n), prv = (\<lambda>n. n)\<rparr>" "current (kern fork_psys) = 1" "idleproc (kern fork_psys) = 0"
  "proc_num (kern fork_psys) = 0" "nr_process fork_psys = 2" "last_pid fork_psys = 8192" "next_safe fork_psys = 8192"
  "cptr (proc_at fork_psys 1) = None" "wait_state (proc_at fork_psys 1) = 0" "filesp (proc_at fork_psys 1) = Some 0"
  "mm (proc_at fork_psys 1) = None" "on_rq (proc_at fork_psys p) = False"
  by (simp_all add: fork_psys_def hash_psys_def sample_psys_def sample_kernel_def sched_init_def RR_init_def
      boot_kernel_def sample_proc_def refill_def)

lemma fork_psys_ptable: "ptable fork_psys [] []"
proof -
  have "proc_index fork_psys {}"
    unfolding proc_index_def by (intro exI [of _ "\<lambda>_. []"]) (simp add: hashed_def tabled_def dlist_def fork_psys_simps)
  then show ?thesis
    by (simp add: ptable_def pid_inv_def plist_def dlist_def sched_inv_def rq_inv_def list_empty_def fork_psys_simps)
qed

theorem do_fork_creates_child_witness:
  "\<exists>x s'. do_fork 0 fork_resources fork_psys = Some (x, s') \<and> 1 \<le> x \<and> find_proc x s' = Some (Some 9) \<and>
     kids (kern s') 1 [9] \<and> state (proc_at s' 9) = PROC_RUNNABLE"
proof -
  have "kids (kern fork_psys) 1 []" by (simp add: kids_def fork_psys_simps del: One_nat_def)
  moreover have "e_proc fork_resources = Some 9" "e_kstack fork_resources = Some 70" "mm_copies 0 fork_resources fork_psys"
    "files_copy 0 fork_resources fork_psys"
    by (simp_all add: fork_resources_def mm_copies_def files_copy_def fork_psys_simps del: One_nat_def)
  ultimately show ?thesis
    using do_fork_creates_child [OF fork_psys_ptable, of 1 "[]" fork_resources 9 70 0] by (auto simp: fork_psys_simps simp del: One_nat_def)
qed

text \<open>A \<^verbatim>\<open>do_fork\<close> that fails, for want of a stack, of memory or of a copy of the files, returns the error, releases
  the control block it had taken, and leaves the process list, the hash table, the run queue and the children of the
  caller as they were.\<close>

theorem do_fork_fails_clean:
  assumes tb: "ptable s ls ps" and nr: "nr_process s < MAX_PROCESS"
    and c: "c = current (kern s)" "kids (kern s) c cs" "wait_state (proc_at s c) = 0" "filesp (proc_at s c) \<noteq> None"
    and p: "e_proc e = Some p" "p \<notin> set ls" "p \<notin> set ps" "p \<notin> set cs" "p \<noteq> c"
    and bad: "e_kstack e = None \<or> \<not> mm_copies flags e s \<or> \<not> files_copy flags e s"
  shows "\<exists>s'. do_fork flags e s = Some (- E_NO_MEM, s') \<and> ptable s' ls ps \<and> kids (kern s') c cs \<and>
     nr_process s' = nr_process s \<and> (\<exists>rs. released s' = released s @ rs @ [ProcBlock p])"
proof -
  obtain s0 where s0: "alloc_proc (Some p) s = (Some p, s0)" by (simp add: alloc_proc_def)
  define s1 where "s1 = upd_kern (upd_proc p (\<lambda>g. g\<lparr>parent := Some c\<rparr>)) s0"
  from alloc_prepared [OF s0, of c] obtain g1 where g1: "prepared s p g1 s1" by (auto simp: s1_def)
  have cur0: "current (kern s0) = c" "wait_state (proc_at s0 c) = 0" using s0 c(1,3) p(5) by (auto simp: alloc_proc_def)
  have same: "current (kern t) = c" "proc_at t c = proc_at s c" if "prepared s p g t" for t g
    using that c(1) p(5) by (auto simp: prepared_def)
  have fin: ?thesis if "aborted s p g (rs @ [ProcBlock p]) s'" "do_fork flags e s = Some (- E_NO_MEM, s')" for g rs s'
  proof -
    have "kids (kern s') c cs" by (rule kids_frame [OF c(2)]) (use that(1) p(4,5) in \<open>auto simp: aborted_def prepared_def\<close>)
    then show ?thesis using aborted_ptable [OF tb p(2,3) that(1)] that by (auto simp: aborted_def prepared_def)
  qed
  show ?thesis
  proof (cases "e_kstack e")
    case None
    show ?thesis
      by (rule fin [OF aborted_cleanup(1) [OF prepared_aborted [OF g1]]])
         (use None nr p(1,5) s0 cur0 in \<open>simp add: do_fork_def setup_kstack_def s1_def\<close>)
  next
    case (Some st)
    define s2 where "s2 = upd_kern (upd_proc p (\<lambda>g. g\<lparr>kstack := st\<rparr>)) s1"
    have g2: "prepared s p (g1\<lparr>kstack := st\<rparr>) s2" by (rule prepared_set [OF g1]) (simp_all add: s2_def)
    have mmc: "mm_copies flags e s2 = mm_copies flags e s" using same [OF g2] c(1) by (simp add: mm_copies_def)
    have run: "do_fork flags e s = (let (r, s3) = copy_mm flags p e s2 in
        if r \<noteq> 0 then Some (- E_NO_MEM, fork_cleanup_kstack p s3)
        else do { (r, s4) \<leftarrow> copy_files flags p e s3; if r \<noteq> 0 then Some (- E_NO_MEM, fork_cleanup_fs p s4) else fork_publish p s4 })"
      using Some nr p(1,5) s0 cur0 by (simp add: do_fork_def setup_kstack_def s1_def s2_def)
    show ?thesis
    proof (cases "mm_copies flags e s")
      case False
      then obtain rs where rs: "fst (copy_mm flags p e s2) \<noteq> 0" "aborted s p (g1\<lparr>kstack := st\<rparr>) rs (snd (copy_mm flags p e s2))"
        using copy_mm_bad [OF g2] mmc by blast
      show ?thesis
        using fin [of _ "rs @ [KStack (kstack (proc_at (snd (copy_mm flags p e s2)) p))]"] aborted_cleanup(2) [OF rs(2)] rs(1) run
        by (simp add: split_beta)
    next
      case True
      from copy_mm_good [OF g2 iffD2 [OF mmc True]]
      obtain s3 m where s3: "copy_mm flags p e s2 = (0, s3)" "prepared s p (g1\<lparr>kstack := st, mm := m\<rparr>) s3" by auto
      have "\<not> files_copy flags e s3" "filesp (proc_at s3 (current (kern s3))) \<noteq> None"
        using bad True Some same [OF s3(2)] c(1,4) by (auto simp: files_copy_def)
      from copy_files_bad [OF s3(2) this] obtain r s4 rs where s4: "copy_files flags p e s3 = Some (r, s4)" "r \<noteq> 0"
        "aborted s p (g1\<lparr>kstack := st, mm := m\<rparr>) rs s4" by blast
      from put_files_aborted [OF s4(3)] obtain qs where "aborted s p (g1\<lparr>kstack := st, mm := m\<rparr>) (rs @ qs) (put_files p s4)" by blast
      from fin [of _ "(rs @ qs) @ [KStack (kstack (proc_at (put_files p s4) p))]"] aborted_cleanup(2) [OF this]
      show ?thesis using run s3(1) s4(1,2) by (simp add: fork_cleanup_fs_def)
    qed
  qed
qed

theorem do_fork_fails_clean_witness:
  "\<exists>s'. do_fork 0 (fork_resources\<lparr>e_files := None\<rparr>) fork_psys = Some (- E_NO_MEM, s') \<and> ptable s' [] [] \<and>
     nr_process s' = 2 \<and> ProcBlock 9 \<in> set (released s')"
proof -
  have "kids (kern fork_psys) 1 []" by (simp add: kids_def fork_psys_simps del: One_nat_def)
  moreover have "e_proc (fork_resources\<lparr>e_files := None\<rparr>) = Some 9" "\<not> files_copy 0 (fork_resources\<lparr>e_files := None\<rparr>) fork_psys"
    by (simp_all add: fork_resources_def files_copy_def)
  ultimately show ?thesis
    using do_fork_fails_clean [OF fork_psys_ptable, of 1 "[]" "fork_resources\<lparr>e_files := None\<rparr>" 9 0]
    by (auto simp: fork_psys_simps simp del: One_nat_def)
qed

text \<open>When the copy of the files fails after the memory has been copied, the new memory descriptor keeps its
  reference and neither it nor its mappings and page directory are released: the error path frees the stack and the
  control block only.\<close>

theorem do_fork_leaks_memory:
  assumes nr: "nr_process s < MAX_PROCESS" and c: "c = current (kern s)" "wait_state (proc_at s c) = 0"
    and mem: "mm (proc_at s c) = Some old" "flags AND CLONE_VM = 0" "e_mm e = Some m" "e_pgdir e" "e_dup_mmap e = 0"
    and files: "filesp (proc_at s c) = Some f" "flags AND CLONE_FS = 0" "e_files e = None"
    and p: "e_proc e = Some p" "p \<noteq> c" "e_kstack e = Some st"
  shows "\<exists>s' rs. do_fork flags e s = Some (- E_NO_MEM, s') \<and> mm_count s' m = 1 \<and> released s' = released s @ rs \<and>
     Mmap m \<notin> set rs \<and> Pgdir m \<notin> set rs \<and> MmStruct m \<notin> set rs"
proof -
  obtain s4 where run: "do_fork flags e s = Some (- E_NO_MEM, fork_cleanup_fs p s4)" and s4: "mm_count s4 m = 1" "released s4 = released s"
    using assms
    by (simp add: do_fork_def alloc_proc_def setup_kstack_def copy_mm_def copy_files_def mm_count_inc_def Let_def)
  have "mm_count (fork_cleanup_fs p s4) m = 1" "\<exists>rs. released (fork_cleanup_fs p s4) = released s @ rs \<and>
     Mmap m \<notin> set rs \<and> Pgdir m \<notin> set rs \<and> MmStruct m \<notin> set rs"
    using s4 by (auto simp: fork_cleanup_fs_def fork_cleanup_kstack_def fork_cleanup_proc_def put_kstack_def put_files_def
        files_count_dec_def Let_def split: option.splits)
  then show ?thesis using run by blast
qed

theorem do_fork_leaks_memory_witness:
  "\<exists>s'. do_fork 0 (fork_resources\<lparr>e_files := None\<rparr>) (upd_kern (upd_proc 1 (\<lambda>g. g\<lparr>mm := Some 3\<rparr>)) fork_psys) =
     Some (- E_NO_MEM, s') \<and> mm_count s' 71 = 1"
proof -
  let ?s = "upd_kern (upd_proc 1 (\<lambda>g. g\<lparr>mm := Some 3\<rparr>)) fork_psys" and ?e = "fork_resources\<lparr>e_files := None\<rparr>"
  have "nr_process ?s < MAX_PROCESS" "current (kern ?s) = 1" "wait_state (proc_at ?s 1) = 0" "mm (proc_at ?s 1) = Some 3"
    "filesp (proc_at ?s 1) = Some 0"
    using fork_psys_simps by simp_all
  moreover have "e_mm ?e = Some 71" "e_pgdir ?e" "e_dup_mmap ?e = 0" "e_files ?e = None" "e_proc ?e = Some 9" "e_kstack ?e = Some 70"
    by (simp_all add: fork_resources_def)
  ultimately show ?thesis using do_fork_leaks_memory [of ?s 1 3 0 ?e 71 0 9 70] by fastforce
qed

text \<open>C13: \<^verbatim>\<open>do_wait\<close> for any child: the youngest zombie child is reaped.  Its exit code is stored when asked for, its stack
  and control block are released once, its pid names no process any more, and it leaves the list of processes and the
  children of the caller; the tables stay consistent and the caller keeps running.\<close>

theorem do_wait_reaps:
  assumes tb: "ptable s ls ps" and c: "c = current (kern s)" and kd: "kids (kern s) c (us @ z # vs)" "c \<notin> set (us @ z # vs)"
    and z: "state (proc_at s z) = PROC_ZOMBIE" "\<forall>u\<in>set us. state (proc_at s u) \<noteq> PROC_ZOMBIE"
    and ok: "z \<in> set ls" "z \<noteq> idleproc (kern s)" "Some z \<noteq> initproc s" and chk: "store \<longrightarrow> check"
  shows "\<exists>s'. do_wait 0 store check s = Some (WaitDone 0 (if store then Some (exit_code (proc_at s z)) else None), s') \<and>
     kids (kern s') c (us @ vs) \<and> ptable s' (remove1 z ls) ps \<and> nr_process s' = nr_process s - 1 \<and>
     find_proc (pid (proc_at s z)) s' = Some None \<and> released s' = released s @ [KStack (kstack (proc_at s z)), ProcBlock z] \<and>
     current (kern s') = c"
proof -
  have "child_scan (kern s) (cptr (proc_at s c)) False = Some (True, Some z)"
    using child_scan_ok [of "kern s"] kd(1) z by (auto simp: kids_def)
  then have "do_wait 0 store check s = reap z store s" using chk by (auto simp: do_wait_def wait_scan_def c)
  then show ?thesis using reap_ok [OF tb kd ok, of store] c by simp
qed

definition zombie_psys :: psys where
  "zombie_psys = upd_kern (\<lambda>k. upd_proc 5 (\<lambda>g. g\<lparr>state := PROC_ZOMBIE, parent := Some 1, exit_code := 42\<rparr>)
       (upd_proc 1 (\<lambda>g. g\<lparr>cptr := Some 5\<rparr>) k)) fork_psys"

definition wait_psys :: psys where
  "wait_psys = upd_kern (upd_klinks (list_add ProcHead (ListLink 5))) (hash_proc 5 zombie_psys)"

lemma zombie_psys_ptable: "ptable zombie_psys [] []"
proof -
  have f: "pid_inv fork_psys []" "proc_index fork_psys {}" "sched_inv (kern fork_psys) []"
    using fork_psys_ptable by (simp_all add: ptable_def)
  have "proc_index zombie_psys {}" by (rule proc_index_same [OF f(2)]) (simp_all add: same_links_def zombie_psys_def)
  then show ?thesis using f(1,3) by (simp add: ptable_def zombie_psys_def pid_inv_def plist_def sched_inv_def rq_inv_def)
qed

lemma wait_psys_simps:
  "procs (kern wait_psys) = procs (kern zombie_psys)" "current (kern wait_psys) = 1" "idleproc (kern wait_psys) = 0"
  "initproc wait_psys = Some 1" "last_pid wait_psys = 8192" "next_safe wait_psys = 8192" "released wait_psys = []"
  "pid (proc_at zombie_psys 5) = 5" "state (proc_at zombie_psys 5) = PROC_ZOMBIE" "exit_code (proc_at zombie_psys 5) = 42"
  "kstack (proc_at zombie_psys 5) = 0"
  by (simp_all add: wait_psys_def hash_proc_def zombie_psys_def fork_psys_def hash_psys_def sample_psys_def sample_kernel_def
      sched_init_def RR_init_def boot_kernel_def sample_proc_def refill_def)

lemma wait_psys_ptable: "ptable wait_psys [5] []"
proof -
  have z: "plist (kern zombie_psys) []" "proc_index zombie_psys {}" "sched_inv (kern zombie_psys) []"
    using zombie_psys_ptable by (simp_all add: ptable_def pid_inv_def)
  let ?h = "hash_proc 5 zombie_psys"
  have f: "same_links (\<lambda>n. \<not> hash_node n) (kern zombie_psys) (kern ?h)" by (rule hash_proc_frame [OF z(2)])
  have l: "plist (kern ?h) []" by (rule plist_same [OF z(1) same_links_weaken [OF f]]) (auto elim: list_node.elims)
  have i: "proc_index ?h {5}" using px.insert_law [OF z(2), of 5] by simp
  have c: "sched_inv (kern ?h) []"
    by (rule sched_inv_links [OF z(3) same_links_weaken [OF f]]) (auto simp: hash_proc_def elim: run_node.elims)
  note pl = plist_add [OF l, of 5 "kern wait_psys"]
  have fr: "same_links (\<lambda>n. \<not> list_node n) (kern ?h) (kern wait_psys)" "plist (kern wait_psys) [5]"
    using pl by (simp_all add: wait_psys_def)
  have "proc_index wait_psys {5}"
    by (rule proc_index_same [OF i same_links_weaken [OF fr(1)]]) (auto simp: wait_psys_def elim: hash_node.elims)
  moreover have "sched_inv (kern wait_psys) []"
    by (rule sched_inv_links [OF c same_links_weaken [OF fr(1)]]) (auto simp: wait_psys_def elim: run_node.elims)
  ultimately show ?thesis using fr(2) by (simp add: ptable_def pid_inv_def wait_psys_simps)
qed

theorem do_wait_reaps_witness:
  "\<exists>s'. do_wait 0 True True wait_psys = Some (WaitDone 0 (Some 42), s') \<and> kids (kern s') 1 [] \<and> ptable s' [] [] \<and>
     find_proc 5 s' = Some None \<and> released s' = [KStack 0, ProcBlock 5]"
proof -
  have "kids (kern wait_psys) 1 ([] @ 5 # [])"
    using fork_psys_simps
    by (simp add: kids_def wait_psys_simps del: One_nat_def)
       (simp add: zombie_psys_def fork_psys_def hash_psys_def sample_psys_def sample_kernel_kin)
  from do_wait_reaps [OF wait_psys_ptable _ this, of True True] show ?thesis
    by (auto simp: wait_psys_simps)
qed

end
