(* ===== verification/Device.thy ===== *)
theory Device
  imports WaitQueue Vfs
begin

text \<open>
  The device layer of the virtual file system (\<^verbatim>\<open>kern/fs/devs/dev.c\<close>) and the two character devices: the keyboard
  buffer \<^verbatim>\<open>stdin\<close> (\<^verbatim>\<open>dev_stdin.c\<close>), a ring of 4096 characters between the interrupt handler and the readers, and the
  console \<^verbatim>\<open>stdout\<close> (\<^verbatim>\<open>dev_stdout.c\<close>).  A read of the keyboard gives the processor away when the ring is empty, so it is
  a first part up to \<^verbatim>\<open>schedule\<close> and a part that runs when the process is scheduled again.
\<close>

unbundle bit_operations_syntax

section \<open>Devices behind inodes\<close>

text \<open>A \<^verbatim>\<open>struct device\<close>; its functions act on the state \<open>'f vfs\<close>.  \<^verbatim>\<open>vop_info\<close> finds the device of an inode.\<close>

record 'f device =
  dv_blocks :: nat
  dv_blocksize :: nat
  dop_open :: "32 word \<Rightarrow> 'f vfs \<Rightarrow> (int \<times> 'f vfs) option"
  dop_close :: "'f vfs \<Rightarrow> (int \<times> 'f vfs) option"
  dop_io :: "iobuf \<Rightarrow> bool \<Rightarrow> 'f vfs \<Rightarrow> (int \<times> iobuf \<times> 'f vfs) option"
  dop_ioctl :: "int \<Rightarrow> 'f vfs \<Rightarrow> (int \<times> 'f vfs) option"

abbreviation (input) S_IFCHR :: "32 word" where "S_IFCHR \<equiv> 0x4000"
abbreviation (input) S_IFBLK :: "32 word" where "S_IFBLK \<equiv> 0x5000"

definition vop_info :: "(nat \<Rightarrow> 'f device) \<Rightarrow> nat \<Rightarrow> 'f vfs \<Rightarrow> 'f device option" where
  "vop_info dev n s = do { kassert (in_device (inodes s n)); Some (dev n) }"

definition dev_open :: "(nat \<Rightarrow> 'f device) \<Rightarrow> nat \<Rightarrow> 32 word \<Rightarrow> 'f vfs \<Rightarrow> (int \<times> 'f vfs) option" where
  "dev_open dev n fl s =
     (if fl AND (O_CREAT OR O_TRUNC OR O_EXCL OR O_APPEND) \<noteq> 0 then Some (- E_INVAL, s)
      else do { d \<leftarrow> vop_info dev n s; dop_open d fl s })"

definition dev_close :: "(nat \<Rightarrow> 'f device) \<Rightarrow> nat \<Rightarrow> 'f vfs \<Rightarrow> (int \<times> 'f vfs) option" where
  "dev_close dev n s = do { d \<leftarrow> vop_info dev n s; dop_close d s }"

definition dev_read :: "(nat \<Rightarrow> 'f device) \<Rightarrow> nat \<Rightarrow> iobuf \<Rightarrow> 'f vfs \<Rightarrow> (int \<times> iobuf \<times> 'f vfs) option" where
  "dev_read dev n iob s = do { d \<leftarrow> vop_info dev n s; dop_io d iob False s }"

definition dev_write :: "(nat \<Rightarrow> 'f device) \<Rightarrow> nat \<Rightarrow> iobuf \<Rightarrow> 'f vfs \<Rightarrow> (int \<times> iobuf \<times> 'f vfs) option" where
  "dev_write dev n iob s = do { d \<leftarrow> vop_info dev n s; dop_io d iob True s }"

definition dev_ioctl :: "(nat \<Rightarrow> 'f device) \<Rightarrow> nat \<Rightarrow> int \<Rightarrow> 'f vfs \<Rightarrow> (int \<times> 'f vfs) option" where
  "dev_ioctl dev n op s = do { d \<leftarrow> vop_info dev n s; dop_ioctl d op s }"

definition dev_gettype :: "(nat \<Rightarrow> 'f device) \<Rightarrow> nat \<Rightarrow> 'f vfs \<Rightarrow> (int \<times> 32 word \<times> 'f vfs) option" where
  "dev_gettype dev n s = do {
     d \<leftarrow> vop_info dev n s;
     Some (0, if dv_blocks d > 0 then S_IFBLK else S_IFCHR, s)
   }"

definition dev_fstat :: "(nat \<Rightarrow> 'f device) \<Rightarrow> nat \<Rightarrow> 'f vfs \<Rightarrow> (int \<times> stat \<times> 'f vfs) option" where
  "dev_fstat dev n s = do {
     (ret, mode, s) \<leftarrow> vop n (dev_gettype dev n) s;
     (if ret \<noteq> 0 then Some (ret, \<lparr>st_mode = mode, st_nlinks = 0, st_blocks = 0, st_size = 0\<rparr>, s)
      else do {
        d \<leftarrow> vop_info dev n s;
        Some (0, \<lparr>st_mode = mode, st_nlinks = 1, st_blocks = dv_blocks d,
                  st_size = u64 (dv_blocks d * dv_blocksize d)\<rparr>, s)
      })
   }"

definition dev_tryseek :: "(nat \<Rightarrow> 'f device) \<Rightarrow> nat \<Rightarrow> int \<Rightarrow> 'f vfs \<Rightarrow> (int \<times> 'f vfs) option" where
  "dev_tryseek dev n p s = do {
     d \<leftarrow> vop_info dev n s;
     Some (if dv_blocks d > 0 \<and> nat (p mod 2 ^ 64) mod dv_blocksize d = 0 \<and> p \<ge> 0 \<and> nat p < u64 (dv_blocks d * dv_blocksize d)
           then 0 else - E_INVAL, s)
   }"

definition dev_lookup :: "nat \<Rightarrow> string \<Rightarrow> 'f vfs \<Rightarrow> (int \<times> nat option \<times> 'f vfs) option" where
  "dev_lookup n path s = Some (if path \<noteq> [] then (- E_NOENT, None, s) else (0, Some n, inode_ref_inc n s))"

text \<open>\<^verbatim>\<open>dev_node_ops\<close>: the operations that the table leaves out are null pointers, whose call stops the kernel.\<close>

definition dev_node_ops :: "(nat \<Rightarrow> 'f device) \<Rightarrow> 'f inode_ops" where
  "dev_node_ops dev = \<lparr>op_open = dev_open dev, op_close = dev_close dev, op_read = dev_read dev, op_write = dev_write dev,
     op_fstat = dev_fstat dev, op_fsync = (\<lambda>_ _. None), op_namefile = (\<lambda>_ _ _. None), op_getdirentry = (\<lambda>_ _ _. None),
     op_reclaim = (\<lambda>_ _. None), op_gettype = dev_gettype dev, op_tryseek = dev_tryseek dev, op_truncate = (\<lambda>_ _ _. None),
     op_create = (\<lambda>_ _ _ _. None), op_lookup = dev_lookup\<rparr>"

section \<open>The console\<close>

text \<open>\<open>out\<close> is what \<^verbatim>\<open>cputchar\<close> has printed.\<close>

definition stdout_open :: "32 word \<Rightarrow> 'f vfs \<Rightarrow> (int \<times> 'f vfs) option" where
  "stdout_open fl s = Some (if fl \<noteq> O_WRONLY then - E_INVAL else 0, s)"

definition stdout_close :: "'f vfs \<Rightarrow> (int \<times> 'f vfs) option" where
  "stdout_close s = Some (0, s)"

fun stdout_loop :: "nat \<Rightarrow> nat \<Rightarrow> cmem \<Rightarrow> 8 word list \<Rightarrow> 8 word list" where
  "stdout_loop data 0 m out = out"
| "stdout_loop data (Suc n) m out = stdout_loop (data + 1) n m (out @ [m data])"

definition stdout_io :: "iobuf \<Rightarrow> bool \<Rightarrow> (8 word list) vfs \<Rightarrow> (int \<times> iobuf \<times> (8 word list) vfs) option" where
  "stdout_io iob w s =
     (if w then Some (0, iob\<lparr>io_resid := 0\<rparr>, s\<lparr>fsdata := stdout_loop (io_base iob) (io_resid iob) (kmem s) (fsdata s)\<rparr>)
      else Some (- E_INVAL, iob, s))"

definition stdout_ioctl :: "int \<Rightarrow> 'f vfs \<Rightarrow> (int \<times> 'f vfs) option" where
  "stdout_ioctl op s = Some (- E_INVAL, s)"

definition stdout_device_init :: "(8 word list) device" where
  "stdout_device_init = \<lparr>dv_blocks = 0, dv_blocksize = 1, dop_open = stdout_open, dop_close = stdout_close,
     dop_io = stdout_io, dop_ioctl = stdout_ioctl\<rparr>"

section \<open>The keyboard buffer\<close>

abbreviation (input) STDIN_BUFSIZE :: nat where "STDIN_BUFSIZE \<equiv> 4096"

text \<open>\<open>wq\<close> is the address of the wait queue; \<open>umem\<close> is the memory of the readers.\<close>

record stdin =
  kern :: kernel
  umem :: cmem
  stdin_buffer :: "nat \<Rightarrow> 8 word"
  p_rpos :: nat
  p_wpos :: nat

definition dev_stdin_write :: "nat \<Rightarrow> 8 word \<Rightarrow> stdin \<Rightarrow> stdin option" where
  "dev_stdin_write wq c s =
     (if c \<noteq> 0
      then do {
        let s = s\<lparr>stdin_buffer := (stdin_buffer s)(p_wpos s mod STDIN_BUFSIZE := c)\<rparr>;
        let s = (if p_wpos s - p_rpos s < STDIN_BUFSIZE then s\<lparr>p_wpos := p_wpos s + 1\<rparr> else s);
        k \<leftarrow> (if \<not> wait_queue_empty wq (kern s) then wakeup_queue wq WT_KBD True (kern s) else Some (kern s));
        Some (s\<lparr>kern := k\<rparr>)
      }
      else Some s)"

text \<open>A read ends with its return value, or the process sleeps after \<open>ret\<close> characters with \<open>n\<close> to go.  \<open>w\<close> is the address
  of the \<^verbatim>\<open>wait_t\<close> on its stack.\<close>

datatype read_result = Ended nat | Sleeps nat nat

fun stdin_loop :: "nat \<Rightarrow> nat \<Rightarrow> nat \<Rightarrow> nat \<Rightarrow> nat \<Rightarrow> stdin \<Rightarrow> (read_result \<times> stdin) option" where
  "stdin_loop wq w buf ret 0 s = Some (Ended ret, s)"
| "stdin_loop wq w buf ret (Suc n) s =
     (if p_rpos s < p_wpos s
      then stdin_loop wq w (buf + 1) (ret + 1) n
        (s\<lparr>umem := (umem s)(buf := stdin_buffer s (p_rpos s mod STDIN_BUFSIZE)), p_rpos := p_rpos s + 1\<rparr>)
      else do {
        k \<leftarrow> wait_current_set wq w WT_KBD (kern s);
        k \<leftarrow> schedule k;
        Some (Sleeps ret (Suc n), s\<lparr>kern := k\<rparr>)
      })"

definition dev_stdin_read :: "nat \<Rightarrow> nat \<Rightarrow> nat \<Rightarrow> nat \<Rightarrow> stdin \<Rightarrow> (read_result \<times> stdin) option" where
  "dev_stdin_read wq w buf len s = stdin_loop wq w buf 0 len s"

text \<open>After \<^verbatim>\<open>schedule\<close> returned to a reader that sleeps with \<open>ret\<close> characters read and \<open>n\<close> to go.\<close>

definition dev_stdin_resume :: "nat \<Rightarrow> nat \<Rightarrow> nat \<Rightarrow> nat \<Rightarrow> nat \<Rightarrow> stdin \<Rightarrow> (read_result \<times> stdin) option" where
  "dev_stdin_resume wq w buf ret n s = do {
     k \<leftarrow> wait_current_del wq w (kern s);
     let s = s\<lparr>kern := k\<rparr>;
     (if wakeup_flags (waits k w) = WT_KBD then stdin_loop wq w (buf + ret) ret n s else Some (Ended ret, s))
   }"

definition stdin_open :: "32 word \<Rightarrow> stdin \<Rightarrow> int \<times> stdin" where
  "stdin_open fl s = (if fl \<noteq> O_RDONLY then - E_INVAL else 0, s)"

definition stdin_close :: "stdin \<Rightarrow> int \<times> stdin" where
  "stdin_close s = (0, s)"

text \<open>\<^verbatim>\<open>stdin_io\<close> around the end of a read: a read that ends with \<open>ret\<close> characters; writing is refused at once.\<close>

definition stdin_io :: "iobuf \<Rightarrow> bool \<Rightarrow> nat \<Rightarrow> int \<times> iobuf" where
  "stdin_io iob w ret =
     (if \<not> w then (int ret, if ret > 0 then iob\<lparr>io_resid := io_resid iob - ret\<rparr> else iob) else (- E_INVAL, iob))"

definition stdin_ioctl :: "int \<Rightarrow> stdin \<Rightarrow> int \<times> stdin" where
  "stdin_ioctl op s = (- E_INVAL, s)"

definition stdin_device_init :: "nat \<Rightarrow> stdin \<Rightarrow> stdin" where
  "stdin_device_init wq s = s\<lparr>p_rpos := 0, p_wpos := 0, kern := wait_queue_init wq (kern s)\<rparr>"

section \<open>The buffer as a queue\<close>

definition stdin_ok :: "stdin \<Rightarrow> bool" where
  "stdin_ok s \<longleftrightarrow> p_rpos s \<le> p_wpos s \<and> p_wpos s \<le> p_rpos s + STDIN_BUFSIZE"

definition unread :: "stdin \<Rightarrow> 8 word list" where
  "unread s = map (\<lambda>i. stdin_buffer s (i mod STDIN_BUFSIZE)) [p_rpos s..<p_wpos s]"

lemma unread_length [simp]: "length (unread s) = p_wpos s - p_rpos s"
  by (simp add: unread_def)

lemma slots_differ:
  assumes "i < w" and "w - i < (n::nat)"
  shows "i mod n \<noteq> w mod n"
proof
  assume "i mod n = w mod n"
  then have "n dvd w - i" using assms(1) by (metis less_imp_le mod_eq_dvd_iff_nat)
  then show False using assms by (auto dest: dvd_imp_le)
qed

text \<open>What storing a character does to the unread ones: into a full ring it goes into the place of the oldest one.\<close>

definition push_key :: "8 word \<Rightarrow> 8 word list \<Rightarrow> 8 word list" where
  "push_key c q = (if length q < STDIN_BUFSIZE then q @ [c] else c # tl q)"

lemma store_unread:
  fixes c :: "8 word"
  assumes "stdin_ok s"
  defines "s1 \<equiv> s\<lparr>stdin_buffer := (stdin_buffer s)(p_wpos s mod STDIN_BUFSIZE := c)\<rparr>"
  defines "s2 \<equiv> if p_wpos s - p_rpos s < STDIN_BUFSIZE then s1\<lparr>p_wpos := p_wpos s + 1\<rparr> else s1"
  shows "unread s2 = push_key c (unread s)" "stdin_ok s2"
proof -
  let ?r = "p_rpos s" and ?w = "p_wpos s"
  have le: "?r \<le> ?w" "?w \<le> ?r + 4096" using assms(1) by (simp_all add: stdin_ok_def)
  show "stdin_ok s2" using le by (auto simp: s2_def s1_def stdin_ok_def)
  have keep: "stdin_buffer s1 (i mod 4096) = stdin_buffer s (i mod 4096)" if "i < ?w" "?w - i < 4096" for i
    using slots_differ [OF that] by (simp add: s1_def)
  show "unread s2 = push_key c (unread s)"
  proof (cases "?w - ?r < 4096")
    case True
    have "map (\<lambda>i. stdin_buffer s1 (i mod 4096)) [?r..<?w] = map (\<lambda>i. stdin_buffer s (i mod 4096)) [?r..<?w]"
      using True by (intro map_cong refl keep) auto
    then show ?thesis using True le by (simp add: s2_def s1_def unread_def push_key_def)
  next
    case False
    then have w: "?w = ?r + 4096" using le by simp
    then have "?r < ?w" by linarith
    then have u: "[?r..<?w] = ?r # [Suc ?r..<?w]" by (rule upt_conv_Cons)
    have "map (\<lambda>i. stdin_buffer s1 (i mod 4096)) [Suc ?r..<?w] = map (\<lambda>i. stdin_buffer s (i mod 4096)) [Suc ?r..<?w]"
    proof (rule map_cong [OF refl])
      fix i assume "i \<in> set [Suc ?r..<?w]"
      then have "Suc ?r \<le> i" "i < ?w" by simp_all
      then have "i < ?w" "?w - i < 4096" using w by linarith+
      then show "stdin_buffer s1 (i mod 4096) = stdin_buffer s (i mod 4096)" by (rule keep)
    qed
    moreover have "stdin_buffer s1 (?r mod 4096) = c" by (simp add: s1_def w)
    moreover have "s2 = s1" using False by (simp add: s2_def)
    ultimately show ?thesis using False by (simp add: s1_def unread_def push_key_def u)
  qed
qed

text \<open>The loop of a read copies what there is, and then goes to sleep if that was not enough.\<close>

definition keys_copied :: "nat \<Rightarrow> nat \<Rightarrow> stdin \<Rightarrow> stdin" where
  "keys_copied buf n s = s\<lparr>umem := (\<lambda>a. if buf \<le> a \<and> a < buf + n then unread s ! (a - buf) else umem s a), p_rpos := p_rpos s + n\<rparr>"

lemma keys_copied_0 [simp]: "keys_copied buf 0 s = s"
proof -
  have "(\<lambda>a. if buf \<le> a \<and> a < buf then unread s ! (a - buf) else umem s a) = umem s" by (rule ext) auto
  then show ?thesis by (simp add: keys_copied_def)
qed

lemma unread_Cons:
  assumes "p_rpos s < p_wpos s"
  shows "unread s = stdin_buffer s (p_rpos s mod STDIN_BUFSIZE) # unread (s\<lparr>umem := m, p_rpos := p_rpos s + 1\<rparr>)"
  using assms by (simp add: unread_def upt_conv_Cons)

lemma keys_copied_Suc:
  assumes "p_rpos s < p_wpos s"
  shows "keys_copied (buf + 1) n (s\<lparr>umem := (umem s)(buf := stdin_buffer s (p_rpos s mod STDIN_BUFSIZE)), p_rpos := p_rpos s + 1\<rparr>) =
    keys_copied buf (Suc n) s"
proof -
  note u = unread_Cons [OF assms]
  show ?thesis by (auto simp: keys_copied_def fun_eq_iff u [of "(umem s)(buf := stdin_buffer s (p_rpos s mod 4096))"] nth_Cons')
qed

lemma stdin_loop_enough:
  "n \<le> length (unread s) \<Longrightarrow> stdin_loop wq w buf ret n s = Some (Ended (ret + n), keys_copied buf n s)"
proof (induction n arbitrary: buf ret s)
  case 0
  then show ?case by simp
next
  case (Suc n)
  then have lt: "p_rpos s < p_wpos s" by simp
  show ?case using Suc.IH [of "s\<lparr>umem := (umem s)(buf := stdin_buffer s (p_rpos s mod STDIN_BUFSIZE)), p_rpos := p_rpos s + 1\<rparr>" "buf + 1" "ret + 1"]
      Suc.prems lt keys_copied_Suc [OF lt, of buf n] by simp
qed

lemma stdin_loop_short:
  "length (unread s) < n \<Longrightarrow> p_rpos s \<le> p_wpos s \<Longrightarrow> stdin_loop wq w buf ret n s = do {
     k \<leftarrow> wait_current_set wq w WT_KBD (kern s);
     k \<leftarrow> schedule k;
     Some (Sleeps (ret + length (unread s)) (n - length (unread s)), keys_copied buf (length (unread s)) s\<lparr>kern := k\<rparr>)
   }"
proof (induction n arbitrary: buf ret s)
  case 0
  then show ?case by simp
next
  case (Suc n)
  show ?case
  proof (cases "p_rpos s < p_wpos s")
    case True
    let ?s = "s\<lparr>umem := (umem s)(buf := stdin_buffer s (p_rpos s mod STDIN_BUFSIZE)), p_rpos := p_rpos s + 1\<rparr>"
    have l: "length (unread s) = Suc (length (unread ?s))" using True by simp
    show ?thesis using Suc.IH [of ?s "buf + 1" "ret + 1"] Suc.prems True keys_copied_Suc [OF True, of buf "length (unread ?s)"]
      unfolding l by (simp del: unread_length)
  next
    case False
    then have "unread s = []" using Suc.prems by (simp add: unread_def)
    then show ?thesis using False by simp
  qed
qed

lemma unread_keys_copied:
  assumes "n \<le> length (unread s)"
  shows "unread (keys_copied buf n s) = drop n (unread s)"
proof -
  have "drop n [p_rpos s..<p_wpos s] = [p_rpos s + n..<p_wpos s]" by simp
  then show ?thesis by (simp add: unread_def keys_copied_def drop_map)
qed

section \<open>The properties\<close>

text \<open>The interrupt handler's \<^verbatim>\<open>dev_stdin_write\<close> always returns, appends the character to the unread ones while there is
  room, and wakes every process that waits for the keyboard.  Into a full ring the character is not dropped: it
  replaces the oldest unread character, so it is read before the 4095 that were typed earlier.\<close>

theorem stdin_write_exact:
  assumes ok: "stdin_ok s" and c: "c \<noteq> 0" and s: "sched_inv (kern s) ps" and q: "wq_inv (kern s) wq ws"
    and z: "\<forall>v\<in>set ws. state (procs (kern s) (waiter (kern s) v)) \<noteq> PROC_ZOMBIE"
    and sz: "length ps + length ws + 2 < 2 ^ 32"
  shows "\<exists>s' rs. dev_stdin_write wq c s = Some s' \<and> stdin_ok s' \<and> umem s' = umem s \<and>
     unread s' = (if length (unread s) < STDIN_BUFSIZE then unread s @ [c] else c # tl (unread s)) \<and>
     sched_inv (kern s') (ps @ rs) \<and> wq_inv (kern s') wq [] \<and>
     (\<forall>p\<in>waiter (kern s) ` set ws. state (procs (kern s') p) = PROC_RUNNABLE)"
proof -
  define s1 where "s1 = s\<lparr>stdin_buffer := (stdin_buffer s)(p_wpos s mod STDIN_BUFSIZE := c)\<rparr>"
  define s2 where "s2 = (if p_wpos s - p_rpos s < STDIN_BUFSIZE then s1\<lparr>p_wpos := p_wpos s + 1\<rparr> else s1)"
  have u: "unread s2 = push_key c (unread s)" "stdin_ok s2"
    unfolding s2_def s1_def by (rule store_unread [OF ok])+
  have k: "kern s2 = kern s" "umem s2 = umem s" by (simp_all add: s2_def s1_def)
  have "\<exists>k' rs. (if \<not> wait_queue_empty wq (kern s) then wakeup_queue wq WT_KBD True (kern s) else Some (kern s)) = Some k' \<and>
      sched_inv k' (ps @ rs) \<and> wq_inv k' wq [] \<and> (\<forall>p\<in>waiter (kern s) ` set ws. state (procs k' p) = PROC_RUNNABLE)"
  proof (cases ws)
    case Nil
    then show ?thesis using wait_queue_empty_ok [OF q] s q by (intro exI [of _ "kern s"] exI [of _ "[]"]) simp
  next
    case (Cons w vs)
    have "wait_queue_first wq (kern s) = Some w" using wait_queue_first_ok [OF q] Cons by simp
    then show ?thesis using wakeup_all_del_ok [OF s, of wq w vs WT_KBD] wait_queue_empty_ok [OF q] q z sz Cons
      by (auto simp: wakeup_queue_def)
  qed
  then obtain k' rs where k': "(if \<not> wait_queue_empty wq (kern s) then wakeup_queue wq WT_KBD True (kern s) else Some (kern s)) = Some k'"
    "sched_inv k' (ps @ rs)" "wq_inv k' wq []" "\<forall>p\<in>waiter (kern s) ` set ws. state (procs k' p) = PROC_RUNNABLE" by blast
  have "dev_stdin_write wq c s = Option.bind
      (if \<not> wait_queue_empty wq (kern s2) then wakeup_queue wq WT_KBD True (kern s2) else Some (kern s2)) (\<lambda>k. Some (s2\<lparr>kern := k\<rparr>))"
    using c by (simp add: dev_stdin_write_def s2_def s1_def Let_def)
  then have "dev_stdin_write wq c s = Some (s2\<lparr>kern := k'\<rparr>)" unfolding k(1) k'(1) by simp
  moreover have "unread (s2\<lparr>kern := k'\<rparr>) = unread s2" "stdin_ok (s2\<lparr>kern := k'\<rparr>)" using u(2) by (simp_all add: unread_def stdin_ok_def)
  ultimately show ?thesis using u(1) k(2) k'(2-4)
    by (intro exI [of _ "s2\<lparr>kern := k'\<rparr>"] exI [of _ rs]) (simp add: push_key_def)
qed

definition ex_stdin :: stdin where
  "ex_stdin = \<lparr>kern = waiting_kernel, umem = (\<lambda>_. 0), stdin_buffer = (\<lambda>i. if i = 0 then 65 else 66), p_rpos = 0, p_wpos = 4096\<rparr>"

theorem stdin_write_exact_witness:
  "\<exists>s'. dev_stdin_write 9 67 ex_stdin = Some s' \<and> unread s' = 67 # replicate 4095 66 \<and>
     state (procs (kern s') 4) = PROC_RUNNABLE \<and> wq_inv (kern s') 9 []"
proof -
  note w = waiting_kernel_inv
  have "unread ex_stdin = map (\<lambda>i. if i = 0 then 65 else 66) [0..<4096]"
    unfolding unread_def by (rule map_cong) (simp_all add: ex_stdin_def)
  also have "\<dots> = 65 # map (\<lambda>i. if i = 0 then 65 else 66) [1..<4096]" by (subst upt_conv_Cons) simp_all
  also have "map (\<lambda>i. if i = 0 then 65 else 66) [1..<4096] = map (\<lambda>_. 66 :: 8 word) [1..<4096::nat]"
    by (rule map_cong) auto
  finally have u: "unread ex_stdin = 65 # replicate 4095 66" by (simp only: map_replicate_const length_upt) simp
  have z: "\<forall>v\<in>set [0, 1]. state (procs (kern ex_stdin) (waiter (kern ex_stdin) v)) \<noteq> PROC_ZOMBIE"
    using w(3-5) by (simp add: ex_stdin_def)
  have k: "kern ex_stdin = waiting_kernel" by (simp add: ex_stdin_def)
  have "stdin_ok ex_stdin" by (simp add: stdin_ok_def ex_stdin_def)
  then obtain s' where "dev_stdin_write 9 67 ex_stdin = Some s'"
    "unread s' = (if length (unread ex_stdin) < 4096 then unread ex_stdin @ [67] else 67 # tl (unread ex_stdin))"
    "wq_inv (kern s') 9 []" "\<forall>p\<in>waiter (kern ex_stdin) ` set [0, 1]. state (procs (kern s') p) = PROC_RUNNABLE"
    using stdin_write_exact [OF _ _ _ _ z, of 67 "[2, 3]" 9] w(1,2) unfolding k by auto
  then show ?thesis using w(3) unfolding u k by (intro exI [of _ s']) simp
qed

text \<open>\<^verbatim>\<open>dev_stdin_read\<close> takes the oldest unread characters in the order of the ring.  When there are enough it returns
  their number; when there are fewer it has delivered those and the process sleeps in the keyboard's wait queue.\<close>

theorem stdin_read_exact:
  fixes len :: nat
  assumes ok: "stdin_ok s" and s: "sched_inv (kern s) ps" and q: "wq_inv (kern s) wq ws" and w: "w \<notin> set ws"
  defines "n \<equiv> min len (length (unread s))"
  shows "\<exists>r s'. dev_stdin_read wq w buf len s = Some (r, s') \<and> r = (if n = len then Ended len else Sleeps n (len - n)) \<and>
     map (\<lambda>i. umem s' (buf + i)) [0..<n] = take n (unread s) \<and> unread s' = drop n (unread s) \<and> stdin_ok s' \<and>
     (if n = len then kern s' = kern s
      else sched_inv (kern s') (tl ps) \<and> wq_inv (kern s') wq (ws @ [w]) \<and>
        state (procs (kern s') (current (kern s))) = PROC_SLEEPING \<and> wait_state (procs (kern s') (current (kern s))) = WT_KBD)"
proof -
  have le: "n \<le> length (unread s)" by (simp add: n_def)
  have m: "map (\<lambda>i. umem (keys_copied buf n s) (buf + i)) [0..<n] = take n (unread s)"
    using le by (intro nth_equalityI) (simp_all add: keys_copied_def)
  have ok': "stdin_ok (keys_copied buf n s)" using ok le by (auto simp: stdin_ok_def keys_copied_def)
  note u = unread_keys_copied [OF le, of buf]
  show ?thesis
  proof (cases "n = len")
    case True
    then have "dev_stdin_read wq w buf len s = Some (Ended len, keys_copied buf n s)"
      using stdin_loop_enough [of len s wq w buf 0] le by (simp add: dev_stdin_read_def)
    then show ?thesis using True m u ok' by (intro exI) (auto simp: keys_copied_def)
  next
    case False
    then have n: "n = length (unread s)" "length (unread s) < len" by (auto simp: n_def min_def split: if_splits)
    obtain k1 k' where k: "wait_current_set wq w WT_KBD (kern s) = Some k1" "schedule k1 = Some k'"
      "sched_inv k' (tl ps)" "wq_inv k' wq (ws @ [w])"
      and st: "\<And>p. state (procs k' p) = (if p = current (kern s) then PROC_SLEEPING else state (procs (kern s) p))"
        "\<And>p. wait_state (procs k' p) = (if p = current (kern s) then WT_KBD else wait_state (procs (kern s) p))"
      by (rule sleep_ok [OF s q w, where f = WT_KBD]) (rule that; assumption)
    let ?s = "keys_copied buf n s\<lparr>kern := k'\<rparr>"
    have "dev_stdin_read wq w buf len s = Some (Sleeps n (len - n), ?s)"
      using stdin_loop_short [OF n(2)] ok k(1,2) n(1) by (simp add: dev_stdin_read_def stdin_ok_def)
    moreover have "unread ?s = unread (keys_copied buf n s)" "stdin_ok ?s" using ok' by (simp_all add: unread_def stdin_ok_def)
    ultimately show ?thesis using False m u k(3,4) st by (intro exI) (auto simp: keys_copied_def)
  qed
qed

definition ex_keys :: stdin where
  "ex_keys = ex_stdin\<lparr>p_rpos := 4095, p_wpos := 4097, stdin_buffer := (\<lambda>i. if i = 0 then 66 else 65)\<rparr>"

theorem stdin_read_exact_witness:
  "\<exists>s'. dev_stdin_read 9 7 100 5 ex_keys = Some (Sleeps 2 3, s') \<and> umem s' 100 = 65 \<and> umem s' 101 = 66 \<and>
     state (procs (kern s') 1) = PROC_SLEEPING \<and> wq_inv (kern s') 9 [0, 1, 7]"
proof -
  note w = waiting_kernel_inv
  have u: "unread ex_keys = [65, 66]" by (simp add: unread_def ex_keys_def upt_conv_Cons)
  have k: "kern ex_keys = waiting_kernel" by (simp add: ex_keys_def ex_stdin_def)
  have "stdin_ok ex_keys" by (simp add: stdin_ok_def ex_keys_def)
  from stdin_read_exact [OF this, of "[2, 3]" 9 "[0, 1]" 7 100 5] w(1,2,7) show ?thesis
    by (auto simp: u k upt_conv_Cons)
qed

end
