(* ===== verification/SkewHeap.thy ===== *)
theory SkewHeap
  imports Prelude "HOL-Library.Tree" "HOL-Library.Tree_Multiset"
begin

text \<open>
  The skew heaps of \<^verbatim>\<open>libs/skew_heap.h\<close>: nodes with pointers to parent and children in a store, and the operations that relink them.
  They are related to binary trees (\<open>repr\<close>), on which the same operations are functions; order and contents are
  proved there.
\<close>

section \<open>The operations\<close>

record skew_heap_entry =
  parent :: "nat option"
  left :: "nat option"
  right :: "nat option"

type_synonym heap = "nat \<Rightarrow> skew_heap_entry"

definition skew_heap_init :: "nat \<Rightarrow> heap \<Rightarrow> heap" where
  "skew_heap_init a h = h(a := \<lparr>parent = None, left = None, right = None\<rparr>)"

definition set_parent :: "nat option \<Rightarrow> nat option \<Rightarrow> heap \<Rightarrow> heap" where
  "set_parent l p h = (case l of None \<Rightarrow> h | Some x \<Rightarrow> h(x := (h x)\<lparr>parent := p\<rparr>))"

definition relink :: "nat \<Rightarrow> nat option \<Rightarrow> nat option \<Rightarrow> heap \<Rightarrow> heap" where
  "relink a l r h = set_parent l (Some a) (h(a := (h a)\<lparr>left := l, right := r\<rparr>))"

partial_function (option) skew_heap_merge ::
  "(nat \<Rightarrow> nat \<Rightarrow> int) \<Rightarrow> nat option \<Rightarrow> nat option \<Rightarrow> heap \<Rightarrow> (nat option \<times> heap) option" where
  "skew_heap_merge cmp a b h =
     (case a of
        None \<Rightarrow> Some (b, h)
      | Some x \<Rightarrow>
          (case b of
             None \<Rightarrow> Some (a, h)
           | Some y \<Rightarrow>
               (if cmp x y = - 1
                then do {
                  let r = left (h x);
                  (l, h) \<leftarrow> skew_heap_merge cmp (right (h x)) b h;
                  Some (a, relink x l r h)
                }
                else do {
                  let r = left (h y);
                  (l, h) \<leftarrow> skew_heap_merge cmp a (right (h y)) h;
                  Some (b, relink y l r h)
                })))"

definition skew_heap_insert :: "(nat \<Rightarrow> nat \<Rightarrow> int) \<Rightarrow> nat option \<Rightarrow> nat \<Rightarrow> heap \<Rightarrow> (nat option \<times> heap) option" where
  "skew_heap_insert cmp a b h = skew_heap_merge cmp a (Some b) (skew_heap_init b h)"

definition skew_heap_remove :: "(nat \<Rightarrow> nat \<Rightarrow> int) \<Rightarrow> nat option \<Rightarrow> nat \<Rightarrow> heap \<Rightarrow> (nat option \<times> heap) option" where
  "skew_heap_remove cmp a b h = do {
     let p = parent (h b);
     (rep, h) \<leftarrow> skew_heap_merge cmp (left (h b)) (right (h b)) h;
     let h = set_parent rep p h;
     Some (case p of
             None \<Rightarrow> (rep, h)
           | Some q \<Rightarrow> (a, h(q := (if left (h q) = Some b then (h q)\<lparr>left := rep\<rparr> else (h q)\<lparr>right := rep\<rparr>))))
   }"

section \<open>On trees\<close>

function smerge :: "('a \<Rightarrow> 'a \<Rightarrow> int) \<Rightarrow> 'a tree \<Rightarrow> 'a tree \<Rightarrow> 'a tree" where
  "smerge c Leaf t = t"
| "smerge c (Node l a r) Leaf = Node l a r"
| "smerge c (Node l1 a r1) (Node l2 b r2) =
     (if c a b = - 1 then Node (smerge c r1 (Node l2 b r2)) a l1 else Node (smerge c (Node l1 a r1) r2) b l2)"
  by pat_completeness auto
termination by (relation "measure (\<lambda>(c, s, t). size s + size t)") auto

fun sremove :: "('a \<Rightarrow> 'a \<Rightarrow> int) \<Rightarrow> 'a \<Rightarrow> 'a tree \<Rightarrow> 'a tree" where
  "sremove c b Leaf = Leaf"
| "sremove c b (Node l a r) = (if a = b then smerge c l r else Node (sremove c b l) a (sremove c b r))"

lemma smerge_Leaf [simp]: "smerge c t Leaf = t"
  by (cases t) auto

lemma mset_smerge [simp]: "mset_tree (smerge c s t) = mset_tree s + mset_tree t"
  by (induction c s t rule: smerge.induct) (auto simp: ac_simps)

lemma set_smerge [simp]: "set_tree (smerge c s t) = set_tree s \<union> set_tree t"
  by (metis mset_smerge set_mset_tree set_mset_union)

definition tree_distinct :: "'a tree \<Rightarrow> bool" where
  "tree_distinct t \<longleftrightarrow> distinct (inorder t)"

lemma tree_distinct_simps [simp]:
  "tree_distinct Leaf"
  "tree_distinct (Node l a r) \<longleftrightarrow> tree_distinct l \<and> tree_distinct r \<and> a \<notin> set_tree l \<and> a \<notin> set_tree r \<and> set_tree l \<inter> set_tree r = {}"
  by (auto simp: tree_distinct_def)

lemma tree_distinct_smerge:
  "tree_distinct s \<Longrightarrow> tree_distinct t \<Longrightarrow> set_tree s \<inter> set_tree t = {} \<Longrightarrow> tree_distinct (smerge c s t)"
  by (induction c s t rule: smerge.induct) auto

lemma sremove_notin: "b \<notin> set_tree t \<Longrightarrow> sremove c b t = t"
  by (induction t) auto

lemma set_sremove: "tree_distinct t \<Longrightarrow> set_tree (sremove c b t) = set_tree t - {b}"
  by (induction t) auto

lemma tree_distinct_sremove: "tree_distinct t \<Longrightarrow> tree_distinct (sremove c b t)"
  by (induction t) (auto simp: tree_distinct_smerge set_sremove)

text \<open>Heap order, for a ranking of the elements that the comparison reflects.\<close>

fun heap_ord :: "('a \<Rightarrow> 'b::linorder) \<Rightarrow> 'a tree \<Rightarrow> bool" where
  "heap_ord f Leaf \<longleftrightarrow> True"
| "heap_ord f (Node l a r) \<longleftrightarrow> heap_ord f l \<and> heap_ord f r \<and> (\<forall>x\<in>set_tree l \<union> set_tree r. f a \<le> f x)"

lemma heap_ord_smerge:
  "\<forall>x\<in>S. \<forall>y\<in>S. c x y = - 1 \<longleftrightarrow> f x < f y \<Longrightarrow> set_tree s \<union> set_tree t \<subseteq> S \<Longrightarrow> heap_ord f s \<Longrightarrow> heap_ord f t \<Longrightarrow>
     heap_ord f (smerge c s t)"
proof (induction c s t rule: smerge.induct)
  case (3 c l1 a r1 l2 b r2)
  note IH = "3.IH" and prem = "3.prems"
  have ab: "c a b = - 1 \<longleftrightarrow> f a < f b" using prem(1,2) by simp
  have up: "\<forall>x\<in>insert a (set_tree l1 \<union> set_tree r1). f a \<le> f x" "\<forall>x\<in>insert b (set_tree l2 \<union> set_tree r2). f b \<le> f x"
    using prem(3,4) by auto
  show ?case
  proof (cases "c a b = - 1")
    case True
    have "heap_ord f (smerge c r1 (Node l2 b r2))" using prem by (intro IH(1) [OF True]) auto
    moreover have "f a \<le> f x" if "x \<in> insert b (set_tree l2 \<union> set_tree r2)" for x
      using True ab up(2) that by (meson less_imp_le order.trans)
    ultimately show ?thesis using True prem(3) by auto
  next
    case False
    have "heap_ord f (smerge c (Node l1 a r1) r2)" using prem by (intro IH(2) [OF False]) auto
    moreover have "f b \<le> f x" if "x \<in> insert a (set_tree l1 \<union> set_tree r1)" for x
      using False ab up(1) that by (meson not_less order.trans)
    ultimately show ?thesis using False prem(4) by auto
  qed
qed auto

lemma heap_ord_sremove:
  assumes "\<forall>x\<in>S. \<forall>y\<in>S. c x y = - 1 \<longleftrightarrow> f x < f y"
  shows "tree_distinct t \<Longrightarrow> set_tree t - {b} \<subseteq> S \<Longrightarrow> b \<notin> S \<Longrightarrow> heap_ord f t \<Longrightarrow> heap_ord f (sremove c b t)"
proof (induction t)
  case (Node l a r)
  show ?case
  proof (cases "a = b")
    case True
    then show ?thesis using Node heap_ord_smerge [OF assms, of l r] by auto
  next
    case False
    then show ?thesis using Node by (auto simp: set_sremove)
  qed
qed simp

section \<open>The store and the trees\<close>

fun repr :: "heap \<Rightarrow> nat option \<Rightarrow> nat option \<Rightarrow> nat tree \<Rightarrow> bool" where
  "repr h pr p Leaf \<longleftrightarrow> p = None"
| "repr h pr p (Node l a r) \<longleftrightarrow>
     p = Some a \<and> parent (h a) = pr \<and> repr h (Some a) (left (h a)) l \<and> repr h (Some a) (right (h a)) r"

lemma repr_cong: "(\<And>x. x \<in> set_tree t \<Longrightarrow> h' x = h x) \<Longrightarrow> repr h' pr p t = repr h pr p t"
  by (induction t arbitrary: pr p) auto

lemma repr_None [simp]: "repr h pr None t \<longleftrightarrow> t = Leaf"
  by (cases t) auto

lemma repr_Some: "repr h pr (Some a) t \<longleftrightarrow>
  (\<exists>l r. t = Node l a r \<and> parent (h a) = pr \<and> repr h (Some a) (left (h a)) l \<and> repr h (Some a) (right (h a)) r)"
  by (cases t) auto

lemma repr_set_parent:
  assumes "repr h pr p t" and "tree_distinct t"
  shows "repr (set_parent p pr' h) pr' p t"
proof (cases t)
  case (Node l a r)
  then have h: "set_parent p pr' h = h(a := (h a)\<lparr>parent := pr'\<rparr>)" using assms by (simp add: set_parent_def)
  have "repr (h(a := x)) (Some a) q l = repr h (Some a) q l" "repr (h(a := x)) (Some a) q r = repr h (Some a) q r" for x q
    using assms(2) Node by (auto intro!: repr_cong)
  then show ?thesis using assms Node unfolding h by simp
qed (use assms in \<open>simp add: set_parent_def\<close>)

text \<open>The new links of the winner of a comparison.\<close>

lemma repr_relink:
  assumes l: "repr h pl l tL" "tree_distinct tL" and r: "repr h (Some a) r tR" and a: "parent (h a) = pr" "a \<notin> set_tree tL" "a \<notin> set_tree tR"
    and d: "set_tree tL \<inter> set_tree tR = {}"
  shows "repr (relink a l r h) pr (Some a) (Node tL a tR)"
    and "x \<noteq> a \<Longrightarrow> x \<notin> set_tree tL \<Longrightarrow> relink a l r h x = h x"
proof -
  let ?h = "h(a := (h a)\<lparr>left := l, right := r\<rparr>)"
  have root: "q \<in> set_tree tL" if "l = Some q" for q using l(1) that by (auto simp: repr_Some)
  have other: "relink a l r h x = ?h x" if "x \<notin> set_tree tL" for x
    using root that by (auto simp: relink_def set_parent_def split: option.splits)
  have "repr ?h pl l tL" using l(1) a(2) by (subst repr_cong [of tL _ h]) auto
  from repr_set_parent [OF this l(2)] have "repr (relink a l r h) (Some a) l tL" by (simp add: relink_def)
  moreover have "relink a l r h x = h x" if "x \<in> set_tree tR" for x
  proof -
    have "x \<notin> set_tree tL" using that d by blast
    then show ?thesis using other [of x] that a(3) by auto
  qed
  then have "repr (relink a l r h) (Some a) r tR" using r by (subst repr_cong [of tR _ h]) auto
  ultimately show "repr (relink a l r h) pr (Some a) (Node tL a tR)" using a other [of a] by simp
  show "x \<noteq> a \<Longrightarrow> x \<notin> set_tree tL \<Longrightarrow> relink a l r h x = h x" using other [of x] by simp
qed

lemma merge_repr:
  assumes "repr h pa a s" "repr h pb b t" "tree_distinct s" "tree_distinct t" "set_tree s \<inter> set_tree t = {}"
  shows "\<exists>p pr h'. skew_heap_merge c a b h = Some (p, h') \<and> repr h' pr p (smerge c s t) \<and> (pr = pa \<or> pr = pb) \<and>
     (\<forall>x. x \<notin> set_tree s \<union> set_tree t \<longrightarrow> h' x = h x)"
  using assms
proof (induction c s t arbitrary: a b pa pb rule: smerge.induct)
  case (1 c t)
  then show ?case by (auto simp: skew_heap_merge.simps)
next
  case (2 c l x r)
  then show ?case by (subst skew_heap_merge.simps) (auto simp: repr_Some)
next
  case (3 c l1 x r1 l2 y r2)
  then have ab: "a = Some x" "b = Some y" by simp_all
  show ?case
  proof (cases "c x y = - 1")
    case True
    have "\<exists>p pr h'. skew_heap_merge c (right (h x)) b h = Some (p, h') \<and> repr h' pr p (smerge c r1 (Node l2 y r2)) \<and>
       (pr = Some x \<or> pr = pb) \<and> (\<forall>z. z \<notin> set_tree r1 \<union> set_tree (Node l2 y r2) \<longrightarrow> h' z = h z)"
      using "3.prems" by (intro "3.IH"(1) [OF True]) auto
    then obtain l pr h1 where m: "skew_heap_merge c (right (h x)) b h = Some (l, h1)" "repr h1 pr l (smerge c r1 (Node l2 y r2))"
      "\<forall>z. z \<notin> set_tree r1 \<union> set_tree (Node l2 y r2) \<longrightarrow> h1 z = h z" by blast
    have x: "h1 x = h x" using m(3) "3.prems" by auto
    have "h1 z = h z" if "z \<in> set_tree l1" for z using m(3) "3.prems" that by auto
    then have "repr h1 (Some x) (left (h x)) l1" using "3.prems"(1) by (subst repr_cong [of l1 _ h]) auto
    note rel = repr_relink [OF m(2) _ this, of pa]
    have "repr (relink x l (left (h x)) h1) pa (Some x) (Node (smerge c r1 (Node l2 y r2)) x l1)"
      by (rule rel(1)) (use "3.prems" x in \<open>auto intro!: tree_distinct_smerge\<close>)
    moreover have "relink x l (left (h x)) h1 z = h1 z" if "z \<noteq> x" "z \<notin> set_tree (smerge c r1 (Node l2 y r2))" for z
      by (rule rel(2)) (use "3.prems" x that in \<open>auto intro!: tree_distinct_smerge\<close>)
    ultimately show ?thesis using ab True m by (subst skew_heap_merge.simps) (auto simp: Let_def)
  next
    case False
    have "\<exists>p pr h'. skew_heap_merge c a (right (h y)) h = Some (p, h') \<and> repr h' pr p (smerge c (Node l1 x r1) r2) \<and>
       (pr = pa \<or> pr = Some y) \<and> (\<forall>z. z \<notin> set_tree (Node l1 x r1) \<union> set_tree r2 \<longrightarrow> h' z = h z)"
      using "3.prems" by (intro "3.IH"(2) [OF False]) auto
    then obtain l pr h1 where m: "skew_heap_merge c a (right (h y)) h = Some (l, h1)" "repr h1 pr l (smerge c (Node l1 x r1) r2)"
      "\<forall>z. z \<notin> set_tree (Node l1 x r1) \<union> set_tree r2 \<longrightarrow> h1 z = h z" by blast
    have y: "h1 y = h y" using m(3) "3.prems" by auto
    have "h1 z = h z" if "z \<in> set_tree l2" for z using m(3) "3.prems" that by auto
    then have "repr h1 (Some y) (left (h y)) l2" using "3.prems"(2) by (subst repr_cong [of l2 _ h]) auto
    note rel = repr_relink [OF m(2) _ this, of pb]
    have "repr (relink y l (left (h y)) h1) pb (Some y) (Node (smerge c (Node l1 x r1) r2) y l2)"
      by (rule rel(1)) (use "3.prems" y in \<open>auto intro!: tree_distinct_smerge\<close>)
    moreover have "relink y l (left (h y)) h1 z = h1 z" if "z \<noteq> y" "z \<notin> set_tree (smerge c (Node l1 x r1) r2)" for z
      by (rule rel(2)) (use "3.prems" y that in \<open>auto intro!: tree_distinct_smerge\<close>)
    ultimately show ?thesis using ab False m by (subst skew_heap_merge.simps) (auto simp: Let_def)
  qed
qed

section \<open>Insertion and removal\<close>

lemma insert_repr:
  assumes "repr h None a t" "tree_distinct t" "b \<notin> set_tree t"
  obtains p h' where "skew_heap_insert c a b h = Some (p, h')" "repr h' None p (smerge c t (Node Leaf b Leaf))"
    "\<forall>x. x \<notin> insert b (set_tree t) \<longrightarrow> h' x = h x"
proof -
  let ?h = "skew_heap_init b h"
  have "repr ?h None a t" using assms by (subst repr_cong [of t _ h]) (auto simp: skew_heap_init_def)
  moreover have "repr ?h None (Some b) (Node Leaf b Leaf)" by (simp add: skew_heap_init_def)
  ultimately obtain p pr h' where "skew_heap_merge c a (Some b) ?h = Some (p, h')" "repr h' None p (smerge c t (Node Leaf b Leaf))"
    "\<forall>x. x \<notin> set_tree t \<union> set_tree (Node Leaf b Leaf) \<longrightarrow> h' x = ?h x"
    using merge_repr [of ?h None a t None "Some b" "Node Leaf b Leaf" c] assms by auto
  then show thesis using that [of p h'] by (simp add: skew_heap_insert_def skew_heap_init_def)
qed

text \<open>Removal of a node anywhere in the tree: the pointer in its parent is redirected.\<close>

definition redirect :: "nat \<Rightarrow> nat \<Rightarrow> nat option \<Rightarrow> heap \<Rightarrow> heap" where
  "redirect q b rep h = h(q := (if left (h q) = Some b then (h q)\<lparr>left := rep\<rparr> else (h q)\<lparr>right := rep\<rparr>))"

lemma subtree_set: "Node l b r \<in> subtrees t \<Longrightarrow> insert b (set_tree l \<union> set_tree r) \<subseteq> set_tree t"
  by (induction t) auto

lemma subtree_repr:
  "Node l b r \<in> subtrees t \<Longrightarrow> repr h pr a t \<Longrightarrow> repr h (parent (h b)) (Some b) (Node l b r)"
  by (induction t arbitrary: pr a) auto

lemma subtree_distinct: "Node l b r \<in> subtrees t \<Longrightarrow> tree_distinct t \<Longrightarrow> tree_distinct (Node l b r)"
  by (induction t) auto

lemma redirect_repr:
  assumes "repr h pr a t" "tree_distinct t" "Node l b r \<in> subtrees t" "repr h2 (parent (h b)) rep (smerge c l r)"
    "\<forall>x. x \<notin> set_tree l \<union> set_tree r \<longrightarrow> h2 x = h x"
  shows "t = Node l b r \<and> a = Some b \<and> parent (h b) = pr \<or>
     a \<noteq> Some b \<and> (\<exists>q\<in>set_tree t. parent (h b) = Some q \<and> repr (redirect q b rep h2) pr a (sremove c b t))"
  using assms
proof (induction t arbitrary: pr a)
  case (Node tL x tR)
  note prem = Node.prems
  have ax: "a = Some x" and px: "parent (h x) = pr" and L: "repr h (Some x) (left (h x)) tL" and R: "repr h (Some x) (right (h x)) tR"
    using prem(1) by auto
  from prem(3) consider "Node l b r = Node tL x tR" | "Node l b r \<in> subtrees tL" | "Node l b r \<in> subtrees tR" by auto
  then show ?case
  proof cases
    case 1
    then show ?thesis using ax px by simp
  next
    case 2
    note sub = subtree_set [OF 2]
    then have b: "x \<noteq> b" "b \<notin> set_tree tR" "x \<notin> set_tree l \<union> set_tree r" using prem(2) by auto
    then have hx: "h2 x = h x" using prem(5) by simp
    have hR: "h2 z = h z" if "z \<in> set_tree tR" for z using prem(2,5) sub that by auto
    have tR: "repr h' (Some x) (right (h x)) tR" if "\<And>z. z \<in> set_tree tR \<Longrightarrow> h' z = h2 z" for h'
      using R that hR by (subst repr_cong [of tR _ h]) auto
    from Node.IH(1) [OF L _ 2 prem(4,5)] prem(2) consider
      "tL = Node l b r" "left (h x) = Some b" "parent (h b) = Some x"
      | q where "left (h x) \<noteq> Some b" "q \<in> set_tree tL" "parent (h b) = Some q" "repr (redirect q b rep h2) (Some x) (left (h x)) (sremove c b tL)"
      by auto
    then show ?thesis
    proof cases
      case 1
      have "repr (redirect x b rep h2) (Some x) rep (smerge c l r)"
        using prem(4) 1(3) b(3) by (subst repr_cong [of _ _ h2]) (auto simp: redirect_def)
      moreover have "repr (redirect x b rep h2) (Some x) (right (h x)) tR" by (rule tR) (use prem(2) in \<open>auto simp: redirect_def\<close>)
      ultimately show ?thesis using 1 ax b px hx by (auto simp: sremove_notin) (simp add: redirect_def)+
    next
      case (2 q)
      have qx: "q \<noteq> x" "q \<notin> set_tree tR" using 2(2) prem(2) by auto
      then have "repr (redirect q b rep h2) (Some x) (right (h x)) tR" by (intro tR) (auto simp: redirect_def)
      moreover have "redirect q b rep h2 x = h x" using qx hx by (simp add: redirect_def)
      ultimately show ?thesis using 2 ax b px by (auto simp: sremove_notin)
    qed
  next
    case 3
    note sub = subtree_set [OF 3]
    then have b: "x \<noteq> b" "b \<notin> set_tree tL" "x \<notin> set_tree l \<union> set_tree r" using prem(2) by auto
    then have hx: "h2 x = h x" using prem(5) by simp
    have hL: "h2 z = h z" if "z \<in> set_tree tL" for z using prem(2,5) sub that by auto
    have tL: "repr h' (Some x) (left (h x)) tL" if "\<And>z. z \<in> set_tree tL \<Longrightarrow> h' z = h2 z" for h'
      using L that hL by (subst repr_cong [of tL _ h]) auto
    have nl: "left (h x) \<noteq> Some b" using L b(2) by (auto simp: repr_Some)
    from Node.IH(2) [OF R _ 3 prem(4,5)] prem(2) consider
      "tR = Node l b r" "right (h x) = Some b" "parent (h b) = Some x"
      | q where "right (h x) \<noteq> Some b" "q \<in> set_tree tR" "parent (h b) = Some q" "repr (redirect q b rep h2) (Some x) (right (h x)) (sremove c b tR)"
      by auto
    then show ?thesis
    proof cases
      case 1
      have "repr (redirect x b rep h2) (Some x) rep (smerge c l r)"
        using prem(4) 1(3) b(3) by (subst repr_cong [of _ _ h2]) (auto simp: redirect_def)
      moreover have "repr (redirect x b rep h2) (Some x) (left (h x)) tL" by (rule tL) (use prem(2) in \<open>auto simp: redirect_def\<close>)
      ultimately show ?thesis using 1 ax b px hx nl by (auto simp: sremove_notin) (simp add: redirect_def)+
    next
      case (2 q)
      have qx: "q \<noteq> x" "q \<notin> set_tree tL" using 2(2) prem(2) by auto
      then have "repr (redirect q b rep h2) (Some x) (left (h x)) tL" by (intro tL) (auto simp: redirect_def)
      moreover have "redirect q b rep h2 x = h x" using qx hx by (simp add: redirect_def)
      ultimately show ?thesis using 2 ax b px by (auto simp: sremove_notin)
    qed
  qed
qed simp

lemma remove_repr:
  assumes h: "repr h None a t" "tree_distinct t" and b: "b \<in> set_tree t"
  obtains p h' where "skew_heap_remove c a b h = Some (p, h')" "repr h' None p (sremove c b t)"
proof -
  from set_treeE [OF b] obtain l r where sub: "Node l b r \<in> subtrees t" by blast
  have ch: "repr h (Some b) (left (h b)) l" "repr h (Some b) (right (h b)) r" using subtree_repr [OF sub h(1)] by simp_all
  have d: "tree_distinct l" "tree_distinct r" "set_tree l \<inter> set_tree r = {}" using subtree_distinct [OF sub h(2)] by simp_all
  from merge_repr [OF ch d, of c] obtain rep h1 where
    m: "skew_heap_merge c (left (h b)) (right (h b)) h = Some (rep, h1)" "repr h1 (Some b) rep (smerge c l r)"
      "\<forall>x. x \<notin> set_tree l \<union> set_tree r \<longrightarrow> h1 x = h x" by auto
  let ?h2 = "set_parent rep (parent (h b)) h1"
  have h2: "repr ?h2 (parent (h b)) rep (smerge c l r)" using repr_set_parent [OF m(2)] d by (simp add: tree_distinct_smerge)
  have "q \<in> set_tree l \<union> set_tree r" if "rep = Some q" for q
  proof -
    have "q \<in> set_tree (smerge c l r)" using m(2) that by (auto simp: repr_Some simp del: set_smerge)
    then show ?thesis by simp
  qed
  then have "\<forall>x. x \<notin> set_tree l \<union> set_tree r \<longrightarrow> ?h2 x = h x" using m(3) by (auto simp: set_parent_def split: option.splits)
  from redirect_repr [OF h sub h2 this] show thesis
  proof (elim disjE conjE bexE)
    assume "t = Node l b r" "parent (h b) = None"
    then show thesis using that m(1) h2 by (simp add: skew_heap_remove_def)
  next
    fix q assume "parent (h b) = Some q" "repr (redirect q b rep ?h2) None a (sremove c b t)"
    then show thesis using that [of a "redirect q b rep ?h2"] m(1) by (simp add: skew_heap_remove_def redirect_def Let_def)
  qed
qed

section \<open>The pool of ready processes as an interface\<close>

text \<open>
  A pool holds a set of elements in an order given by a ranking; the operations call a comparison that must reflect this
  order on the elements they meet.  The root is a least element.
\<close>

definition reflects :: "(nat \<Rightarrow> nat \<Rightarrow> int) \<Rightarrow> (nat \<Rightarrow> int) \<Rightarrow> nat set \<Rightarrow> bool" where
  "reflects c f S \<longleftrightarrow> (\<forall>x\<in>S. \<forall>y\<in>S. c x y = - 1 \<longleftrightarrow> f x < f y)"

locale run_pool =
  fixes holds :: "'s \<Rightarrow> nat set \<Rightarrow> (nat \<Rightarrow> int) \<Rightarrow> bool"
    and top_of :: "'s \<Rightarrow> nat option"
    and enter :: "(nat \<Rightarrow> nat \<Rightarrow> int) \<Rightarrow> nat \<Rightarrow> 's \<Rightarrow> 's option"
    and leave :: "(nat \<Rightarrow> nat \<Rightarrow> int) \<Rightarrow> nat \<Rightarrow> 's \<Rightarrow> 's option"
  assumes top_empty: "holds s S f \<Longrightarrow> top_of s = None \<longleftrightarrow> S = {}"
    and top_least: "holds s S f \<Longrightarrow> top_of s = Some a \<Longrightarrow> a \<in> S \<and> (\<forall>x\<in>S. f a \<le> f x)"
    and enter_holds: "holds s S f \<Longrightarrow> b \<notin> S \<Longrightarrow> reflects c f (insert b S) \<Longrightarrow> \<exists>s'. enter c b s = Some s' \<and> holds s' (insert b S) f"
    and leave_holds: "holds s S f \<Longrightarrow> b \<in> S \<Longrightarrow> reflects c f (S - {b}) \<Longrightarrow> \<exists>s'. leave c b s = Some s' \<and> holds s' (S - {b}) f"
    and rerank: "holds s S f \<Longrightarrow> \<forall>x\<in>S. \<forall>y\<in>S. f x \<le> f y \<longrightarrow> g x \<le> g y \<Longrightarrow> holds s S g"
begin

text \<open>The least element leaves, and comes back under a new rank.\<close>

lemma serve_least:
  assumes "holds s S f" and "S \<noteq> {}" and g: "\<And>x y. x \<in> S - {a} \<Longrightarrow> y \<in> S - {a} \<Longrightarrow> f x \<le> f y \<Longrightarrow> g x \<le> g y"
    and c: "reflects c f (S - {a})" "reflects c g S" and a: "top_of s = Some a"
  obtains s1 s2 where "leave c a s = Some s1" "holds s1 (S - {a}) g" "enter c a s1 = Some s2" "holds s2 S g"
proof -
  have aS: "a \<in> S" using top_least [OF assms(1) a] by simp
  from leave_holds [OF assms(1) aS c(1)] obtain s1 where s1: "leave c a s = Some s1" "holds s1 (S - {a}) f" by blast
  have h1: "holds s1 (S - {a}) g" using rerank [OF s1(2)] g by blast
  have "insert a (S - {a}) = S" using aS by blast
  with enter_holds [OF h1, of a c] c(2) obtain s2 where "enter c a s1 = Some s2" "holds s2 S g" by auto
  then show thesis using that s1(1) h1 by blast
qed

end

definition pool_holds :: "nat option \<times> heap \<Rightarrow> nat set \<Rightarrow> (nat \<Rightarrow> int) \<Rightarrow> bool" where
  "pool_holds s S f \<longleftrightarrow> (\<exists>t. repr (snd s) None (fst s) t \<and> tree_distinct t \<and> set_tree t = S \<and> heap_ord f t)"

definition pool_enter :: "(nat \<Rightarrow> nat \<Rightarrow> int) \<Rightarrow> nat \<Rightarrow> nat option \<times> heap \<Rightarrow> (nat option \<times> heap) option" where
  "pool_enter c b s = skew_heap_insert c (fst s) b (snd s)"

definition pool_leave :: "(nat \<Rightarrow> nat \<Rightarrow> int) \<Rightarrow> nat \<Rightarrow> nat option \<times> heap \<Rightarrow> (nat option \<times> heap) option" where
  "pool_leave c b s = skew_heap_remove c (fst s) b (snd s)"

lemma heap_ord_mono: "heap_ord f t \<Longrightarrow> \<forall>x\<in>set_tree t. \<forall>y\<in>set_tree t. f x \<le> f y \<longrightarrow> g x \<le> g y \<Longrightarrow> heap_ord g t"
  by (induction t) auto

interpretation skew: run_pool pool_holds fst pool_enter pool_leave
proof
  fix s S f assume h: "pool_holds s S f"
  then obtain t where t: "repr (snd s) None (fst s) t" "tree_distinct t" "set_tree t = S" "heap_ord f t" by (auto simp: pool_holds_def)
  show "fst s = None \<longleftrightarrow> S = {}" using t(1,3) by (cases t) auto
  show "a \<in> S \<and> (\<forall>x\<in>S. f a \<le> f x)" if "fst s = Some a" for a using t that by (cases t) auto
  show "\<exists>s'. pool_enter c b s = Some s' \<and> pool_holds s' (insert b S) f" if "b \<notin> S" "reflects c f (insert b S)" for b c
  proof -
    have bt: "b \<notin> set_tree t" using t(3) that(1) by simp
    obtain p h' where r: "skew_heap_insert c (fst s) b (snd s) = Some (p, h')" "repr h' None p (smerge c t (Node Leaf b Leaf))"
      using insert_repr [OF t(1,2) bt, of c] by metis
    have "heap_ord f (smerge c t (Node Leaf b Leaf))"
      using that(2) t unfolding reflects_def by (intro heap_ord_smerge [of "insert b S"]) auto
    then show ?thesis using r t that(1) unfolding pool_enter_def pool_holds_def
      by (auto intro!: exI [of _ "smerge c t (Node Leaf b Leaf)"] tree_distinct_smerge)
  qed
  show "\<exists>s'. pool_leave c b s = Some s' \<and> pool_holds s' (S - {b}) f" if "b \<in> S" "reflects c f (S - {b})" for b c
  proof -
    have bt: "b \<in> set_tree t" using t(3) that(1) by simp
    obtain p h' where r: "skew_heap_remove c (fst s) b (snd s) = Some (p, h')" "repr h' None p (sremove c b t)"
      using remove_repr [OF t(1,2) bt, of c] by metis
    have "heap_ord f (sremove c b t)" using heap_ord_sremove [of "S - {b}" c f t b] that(2) t by (auto simp: reflects_def)
    then show ?thesis using r t unfolding pool_leave_def pool_holds_def
      by (auto intro!: exI [of _ "sremove c b t"] simp: tree_distinct_sremove set_sremove)
  qed
  show "pool_holds s S g" if "\<forall>x\<in>S. \<forall>y\<in>S. f x \<le> f y \<longrightarrow> g x \<le> g y" for g
    using t that heap_ord_mono [of f t g] unfolding pool_holds_def by auto
qed

end
