(* ===== verification/Stride.thy ===== *)
theory Stride
  imports SkewHeap
begin

text \<open>
  The stride scheduling class, \<^verbatim>\<open>kern/schedule/default_sched_stride.c\<close>, with \<^verbatim>\<open>lab6_set_priority\<close> of \<^verbatim>\<open>kern/process/proc.c\<close>.  A process is a number, its
  entry of the run pool has the same number.  Strides and priorities are 32-bit words and wrap around.  \<^verbatim>\<open>None\<close> is a failed
  assertion, a division by zero or a loop in the pool.
\<close>

section \<open>The scheduling class\<close>

abbreviation (input) BIG_STRIDE :: "32 word" where "BIG_STRIDE \<equiv> 0x40000000"

record stride_proc =
  lab6_stride :: "32 word"
  lab6_priority :: "32 word"
  slice :: int
  resched :: bool
  queued :: bool

record stride_rq =
  procs :: "nat \<Rightarrow> stride_proc"
  lab6_run_pool :: "nat option"
  entries :: heap
  proc_num :: nat
  max_time_slice :: int

definition upd_stride_proc :: "nat \<Rightarrow> (stride_proc \<Rightarrow> stride_proc) \<Rightarrow> stride_rq \<Rightarrow> stride_rq" where
  "upd_stride_proc p f rq = rq\<lparr>procs := (procs rq)(p := f (procs rq p))\<rparr>"

definition proc_stride_comp_f :: "(nat \<Rightarrow> stride_proc) \<Rightarrow> nat \<Rightarrow> nat \<Rightarrow> int" where
  "proc_stride_comp_f ps a b =
     (let c = sint (lab6_stride (ps a) - lab6_stride (ps b)) in if c > 0 then 1 else if c = 0 then 0 else - 1)"

definition stride_init :: "stride_rq \<Rightarrow> stride_rq" where
  "stride_init rq = rq\<lparr>lab6_run_pool := None, proc_num := 0\<rparr>"

definition stride_enqueue :: "nat \<Rightarrow> stride_rq \<Rightarrow> stride_rq option" where
  "stride_enqueue p rq = do {
     (pool, h) \<leftarrow> skew_heap_insert (proc_stride_comp_f (procs rq)) (lab6_run_pool rq) p (entries rq);
     let rq = rq\<lparr>lab6_run_pool := pool, entries := h\<rparr>;
     let rq = (if slice (procs rq p) = 0 \<or> slice (procs rq p) > max_time_slice rq
               then upd_stride_proc p (\<lambda>q. q\<lparr>slice := max_time_slice rq\<rparr>) rq else rq);
     let rq = upd_stride_proc p (\<lambda>q. q\<lparr>queued := True\<rparr>) rq;
     Some (rq\<lparr>proc_num := u32 (proc_num rq + 1)\<rparr>)
   }"

definition stride_dequeue :: "nat \<Rightarrow> stride_rq \<Rightarrow> stride_rq option" where
  "stride_dequeue p rq = do {
     kassert (queued (procs rq p) \<and> proc_num rq > 0);
     (pool, h) \<leftarrow> skew_heap_remove (proc_stride_comp_f (procs rq)) (lab6_run_pool rq) p (entries rq);
     let rq = rq\<lparr>lab6_run_pool := pool, entries := h\<rparr>;
     Some (rq\<lparr>proc_num := proc_num rq - 1\<rparr>)
   }"

definition stride_pick_next :: "stride_rq \<Rightarrow> (nat option \<times> stride_rq) option" where
  "stride_pick_next rq =
     (case lab6_run_pool rq of
        None \<Rightarrow> Some (None, rq)
      | Some p \<Rightarrow> do {
          kassert (lab6_priority (procs rq p) \<noteq> 0);
          Some (Some p, upd_stride_proc p (\<lambda>q. q\<lparr>lab6_stride := lab6_stride q + BIG_STRIDE div lab6_priority q\<rparr>) rq)
        })"

definition stride_proc_tick :: "nat \<Rightarrow> stride_rq \<Rightarrow> stride_rq" where
  "stride_proc_tick p rq =
     (let rq = (if slice (procs rq p) > 0 then upd_stride_proc p (\<lambda>q. q\<lparr>slice := slice q - 1\<rparr>) rq else rq)
      in if slice (procs rq p) = 0 then upd_stride_proc p (\<lambda>q. q\<lparr>resched := True\<rparr>) rq else rq)"

definition lab6_set_priority :: "nat \<Rightarrow> 32 word \<Rightarrow> stride_rq \<Rightarrow> stride_rq" where
  "lab6_set_priority current priority rq =
     upd_stride_proc current (\<lambda>q. q\<lparr>lab6_priority := (if priority = 0 then 1 else priority)\<rparr>) rq"

section \<open>Strides in a window\<close>

text \<open>How far a stride is ahead of a base; the comparison is right as long as no stride is ahead by more than \<^verbatim>\<open>BIG_STRIDE\<close>.\<close>

definition ahead :: "(nat \<Rightarrow> stride_proc) \<Rightarrow> 32 word \<Rightarrow> nat \<Rightarrow> int" where
  "ahead ps m x = uint (lab6_stride (ps x) - m)"

lemma sint_diff:
  fixes a b :: "32 word"
  assumes "uint a \<le> 2 ^ 30" and "uint b \<le> 2 ^ 30"
  shows "sint (a - b) = uint a - uint b"
proof -
  have eq: "a - b = word_of_int (uint a - uint b)" by simp
  have k: "sint (word_of_int k :: 32 word) = k" if "- 2147483648 \<le> k" "k < 2147483648" for k
    using that by (simp add: signed_take_bit_int_eq_self sint_sbintrunc')
  have "0 \<le> uint a" "0 \<le> uint b" by simp_all
  with assms [simplified] have "- 2147483648 \<le> uint a - uint b" "uint a - uint b < 2147483648" by linarith+
  from k [OF this] show ?thesis by (subst eq)
qed

lemma comp_reflects:
  assumes "\<forall>x\<in>S. ahead ps m x \<le> 2 ^ 30"
  shows "reflects (proc_stride_comp_f ps) (ahead ps m) S"
  unfolding reflects_def
proof (intro ballI)
  fix x y assume xy: "x \<in> S" "y \<in> S"
  have "lab6_stride (ps x) - lab6_stride (ps y) = (lab6_stride (ps x) - m) - (lab6_stride (ps y) - m)" by simp
  then have "sint (lab6_stride (ps x) - lab6_stride (ps y)) = ahead ps m x - ahead ps m y"
    using sint_diff assms xy by (simp only: ahead_def)
  then show "proc_stride_comp_f ps x y = - 1 \<longleftrightarrow> ahead ps m x < ahead ps m y" by (simp add: proc_stride_comp_f_def Let_def)
qed

lemma ahead_rebase: "ahead ps m p \<le> ahead ps m x \<Longrightarrow> ahead ps (lab6_stride (ps p)) x = ahead ps m x - ahead ps m p"
proof -
  assume "ahead ps m p \<le> ahead ps m x"
  moreover have "lab6_stride (ps x) - lab6_stride (ps p) = (lab6_stride (ps x) - m) - (lab6_stride (ps p) - m)" by simp
  ultimately show ?thesis unfolding ahead_def by (simp only: uint_sub_if') simp
qed

definition stride_inv :: "stride_rq \<Rightarrow> nat set \<Rightarrow> 32 word \<Rightarrow> bool" where
  "stride_inv rq S m \<longleftrightarrow>
     pool_holds (lab6_run_pool rq, entries rq) S (ahead (procs rq) m) \<and> finite S \<and> proc_num rq = card S \<and> card S < 2 ^ 32 \<and>
     (\<forall>x\<in>S. ahead (procs rq) m x \<le> 2 ^ 30 \<and> queued (procs rq x))"

section \<open>Serving a process\<close>

lemma enqueue_pool:
  assumes "pool_enter (proc_stride_comp_f (procs rq)) p (lab6_run_pool rq, entries rq) = Some (pool, h)"
  obtains rq' where "stride_enqueue p rq = Some rq'" "lab6_run_pool rq' = pool" "entries rq' = h" "proc_num rq' = u32 (proc_num rq + 1)"
    "\<And>x. lab6_stride (procs rq' x) = lab6_stride (procs rq x)" "\<And>x. queued (procs rq' x) \<longleftrightarrow> x = p \<or> queued (procs rq x)"
  using assms that by (auto simp: pool_enter_def stride_enqueue_def upd_stride_proc_def Let_def split: if_splits)

lemma dequeue_pool:
  assumes "pool_leave (proc_stride_comp_f (procs rq)) p (lab6_run_pool rq, entries rq) = Some (pool, h)"
    and "queued (procs rq p)" "proc_num rq > 0"
  shows "stride_dequeue p rq = Some (rq\<lparr>lab6_run_pool := pool, entries := h, proc_num := proc_num rq - 1\<rparr>)"
  using assms by (simp add: pool_leave_def stride_dequeue_def Let_def)

lemma step_size: "p \<noteq> 0 \<Longrightarrow> uint (BIG_STRIDE div p) \<le> 2 ^ 30" for p :: "32 word"
proof -
  have "unat (BIG_STRIDE div p) \<le> unat BIG_STRIDE" by (simp only: unat_div_distrib div_le_dividend)
  then have "int (unat (BIG_STRIDE div p)) \<le> int (unat BIG_STRIDE)" by (simp only: of_nat_le_iff)
  then show ?thesis by simp
qed

text \<open>C22: one round of stride scheduling.  When no stride of the pool is more than \<^verbatim>\<open>BIG_STRIDE\<close> ahead of the base, \<^verbatim>\<open>stride_pick_next\<close> returns a
  process that is least ahead, whatever wrap-around the strides have been through; removing it and entering it again later keeps the
  pool a heap of exactly the same processes, and no stride is then more than \<^verbatim>\<open>BIG_STRIDE\<close> ahead of the old stride of
  the process served.\<close>

theorem stride_round:
  assumes inv: "stride_inv rq S m" and ne: "S \<noteq> {}" and prio: "\<forall>x\<in>S. lab6_priority (procs rq x) \<noteq> 0"
  shows "\<exists>p rq1 rq2 rq3. stride_pick_next rq = Some (Some p, rq1) \<and> p \<in> S \<and>
     (\<forall>x\<in>S. ahead (procs rq) m p \<le> ahead (procs rq) m x) \<and>
     stride_dequeue p rq1 = Some rq2 \<and> stride_inv rq2 (S - {p}) (lab6_stride (procs rq p)) \<and>
     stride_enqueue p rq2 = Some rq3 \<and> stride_inv rq3 S (lab6_stride (procs rq p)) \<and>
     lab6_stride (procs rq3 p) = lab6_stride (procs rq p) + BIG_STRIDE div lab6_priority (procs rq p)"
proof -
  let ?s = "(lab6_run_pool rq, entries rq)" and ?f = "ahead (procs rq) m"
  have holds: "pool_holds ?s S ?f" and win: "\<forall>x\<in>S. ?f x \<le> 2 ^ 30" using inv by (simp_all add: stride_inv_def)
  obtain p where p: "lab6_run_pool rq = Some p" using skew.top_empty [OF holds] ne by auto
  have pS: "p \<in> S" and least: "\<forall>x\<in>S. ?f p \<le> ?f x" using skew.top_least [OF holds, of p] p by simp_all
  define m' where "m' = lab6_stride (procs rq p)"
  define rq1 where "rq1 = upd_stride_proc p (\<lambda>q. q\<lparr>lab6_stride := lab6_stride q + BIG_STRIDE div lab6_priority q\<rparr>) rq"
  let ?g = "ahead (procs rq1) m'" and ?c = "proc_stride_comp_f (procs rq1)"
  have g: "?g x = ?f x - ?f p" if "x \<in> S - {p}" for x
    using ahead_rebase [of "procs rq" m p x] least that by (simp add: rq1_def m'_def upd_stride_proc_def ahead_def)
  have gp: "?g p \<le> 2 ^ 30" using step_size prio pS by (simp add: rq1_def m'_def upd_stride_proc_def ahead_def)
  have fp: "0 \<le> ?f p" by (simp add: ahead_def)
  have win': "\<forall>x\<in>S. ?g x \<le> 2 ^ 30"
  proof
    fix x assume "x \<in> S"
    then show "?g x \<le> 2 ^ 30" using g [of x] gp win fp by (cases "x = p") auto
  qed
  have "reflects ?c (ahead (procs rq1) m) (S - {p})"
    using win by (intro comp_reflects) (simp add: rq1_def upd_stride_proc_def ahead_def)
  then have c1: "reflects ?c ?f (S - {p})" by (simp add: reflects_def rq1_def upd_stride_proc_def ahead_def)
  have mono: "?g x \<le> ?g y" if "x \<in> S - {p}" "y \<in> S - {p}" "?f x \<le> ?f y" for x y using g that by simp
  obtain s1 s2 where s: "pool_leave ?c p ?s = Some s1" "pool_holds s1 (S - {p}) ?g" "pool_enter ?c p s1 = Some s2" "pool_holds s2 S ?g"
    by (rule skew.serve_least [OF holds ne mono c1 comp_reflects [OF win']]) (use p in auto)
  have rq1: "lab6_run_pool rq1 = lab6_run_pool rq" "entries rq1 = entries rq" "proc_num rq1 = proc_num rq"
    "\<And>x. queued (procs rq1 x) = queued (procs rq x)" by (auto simp: rq1_def upd_stride_proc_def)
  define rq2 where "rq2 = rq1\<lparr>lab6_run_pool := fst s1, entries := snd s1, proc_num := proc_num rq1 - 1\<rparr>"
  have card: "0 < card S" "card (S - {p}) = card S - 1" using inv pS by (auto simp: stride_inv_def card_gt_0_iff)
  have pick: "stride_pick_next rq = Some (Some p, rq1)" using p prio pS by (simp add: stride_pick_next_def rq1_def)
  have deq: "stride_dequeue p rq1 = Some rq2"
    using dequeue_pool [of rq1 p "fst s1" "snd s1"] s(1) rq1 inv pS card by (simp add: rq2_def stride_inv_def)
  have inv2: "stride_inv rq2 (S - {p}) m'"
    using s(2) inv rq1 card win' by (simp add: stride_inv_def rq2_def less_imp_diff_less)
  have "pool_enter (proc_stride_comp_f (procs rq2)) p (lab6_run_pool rq2, entries rq2) = Some (fst s2, snd s2)" using s(3) by (simp add: rq2_def)
  then obtain rq3 where rq3: "stride_enqueue p rq2 = Some rq3" "lab6_run_pool rq3 = fst s2" "entries rq3 = snd s2"
    "proc_num rq3 = u32 (proc_num rq2 + 1)" "\<And>x. lab6_stride (procs rq3 x) = lab6_stride (procs rq2 x)"
    "\<And>x. queued (procs rq3 x) \<longleftrightarrow> x = p \<or> queued (procs rq2 x)" by (rule enqueue_pool) (rule that; assumption)
  have "ahead (procs rq3) m' = ?g" by (simp add: fun_eq_iff ahead_def rq3(5) rq2_def)
  then have inv3: "stride_inv rq3 S m'"
    using s(4) rq3 inv rq1 card win' by (simp add: stride_inv_def rq2_def u32_def)
  have "lab6_stride (procs rq3 p) = lab6_stride (procs rq p) + BIG_STRIDE div lab6_priority (procs rq p)"
    by (simp add: rq3(5) rq2_def rq1_def upd_stride_proc_def)
  then show ?thesis using pick pS least deq inv2 rq3(1) inv3 unfolding m'_def by blast
qed

text \<open>Two processes, the strides of which have just passed the wrap-around.\<close>

definition small_rq :: stride_rq where
  "small_rq = \<lparr>procs = (\<lambda>p. \<lparr>lab6_stride = (if p = 1 then 0xFFFFFFF0 else 0x10), lab6_priority = 4, slice = 0, resched = False, queued = True\<rparr>),
     lab6_run_pool = Some 1,
     entries = (\<lambda>p. if p = 1 then \<lparr>parent = None, left = Some 2, right = None\<rparr> else \<lparr>parent = Some 1, left = None, right = None\<rparr>),
     proc_num = 2, max_time_slice = 5\<rparr>"

lemma small_rq_inv: "stride_inv small_rq {1, 2} 0xFFFFFFF0"
proof -
  have "pool_holds (Some 1, entries small_rq) {1, 2} (ahead (procs small_rq) 0xFFFFFFF0)"
    unfolding pool_holds_def by (rule exI [of _ "Node (Node Leaf 2 Leaf) 1 Leaf"]) (simp add: small_rq_def ahead_def)
  then show ?thesis by (simp add: stride_inv_def) (simp add: small_rq_def ahead_def)
qed

theorem stride_round_witness:
  "\<exists>rq1 rq2 rq3. stride_pick_next small_rq = Some (Some 1, rq1) \<and> stride_dequeue 1 rq1 = Some rq2 \<and> stride_enqueue 1 rq2 = Some rq3 \<and>
     lab6_stride (procs rq3 1) = 0x0FFFFFF0"
proof -
  have prio: "\<forall>x\<in>{1, 2}. lab6_priority (procs small_rq x) \<noteq> 0" by (simp add: small_rq_def)
  from stride_round [OF small_rq_inv _ prio] obtain p rq1 rq2 rq3 where
    r: "stride_pick_next small_rq = Some (Some p, rq1)" "stride_dequeue p rq1 = Some rq2" "stride_enqueue p rq2 = Some rq3"
      "lab6_stride (procs rq3 p) = lab6_stride (procs small_rq p) + BIG_STRIDE div lab6_priority (procs small_rq p)" by auto
  have "p = 1" using r(1) by (simp add: stride_pick_next_def small_rq_def)
  then show ?thesis using r by (simp add: small_rq_def)
qed

end
