(* ===== verification/Trap.thy ===== *)
theory Trap
  imports ProcLife SysFile Device Stride
begin

text \<open>
  Traps and system calls: \<^verbatim>\<open>kern/trap/trap.c\<close> and \<^verbatim>\<open>kern/syscall/syscall.c\<close>, with the stubs of \<^verbatim>\<open>user/libs/syscall.c\<close>
  that fill the registers.  The state joins the processes, the file calls of the running process, the keyboard buffer and
  the trap frames.  A call that gives the processor away ends with \<open>Blocked\<close> at the switch; its continuation is that of
  the function it called.  The printed messages and the timer of the machine are not represented; the character the console has is an
  argument, and so is \<^verbatim>\<open>do_execve\<close>, of which only the part that sets the trap frame is modelled here.
\<close>

unbundle bit_operations_syntax

section \<open>The state\<close>

text \<open>A trap frame: register \<open>i\<close> of \<^verbatim>\<open>struct pushregs\<close>, and the control registers; \<^verbatim>\<open>tval\<close> is only printed.\<close>

record trapframe =
  gpr :: "nat \<Rightarrow> 64 word"
  status :: "64 word"
  epc :: "64 word"
  cause :: "64 word"

abbreviation (input) SP :: nat where "SP \<equiv> 2"
abbreviation (input) A0 :: nat where "A0 \<equiv> 10"
abbreviation (input) A1 :: nat where "A1 \<equiv> 11"
abbreviation (input) SSTATUS_SPIE :: "64 word" where "SSTATUS_SPIE \<equiv> 0x20"
abbreviation (input) SSTATUS_SPP :: "64 word" where "SSTATUS_SPP \<equiv> 0x100"

record 'f system =
  prc :: psys
  usr :: "'f uproc"
  stride :: stride_rq
  kbd_buffer :: "nat \<Rightarrow> 8 word"
  kbd_rpos :: nat
  kbd_wpos :: nat
  frames :: "nat \<Rightarrow> trapframe"
  ptf :: "nat \<Rightarrow> nat"
  ticks :: "64 word"
  console :: "int list"

definition upd_frame :: "nat \<Rightarrow> (trapframe \<Rightarrow> trapframe) \<Rightarrow> 'f system \<Rightarrow> 'f system" where
  "upd_frame t f s = s\<lparr>frames := (frames s)(t := f (frames s t))\<rparr>"

abbreviation running :: "'f system \<Rightarrow> nat" where
  "running s \<equiv> current (ProcTable.kern (prc s))"

abbreviation kernel_of :: "'f system \<Rightarrow> kernel" where
  "kernel_of s \<equiv> ProcTable.kern (prc s)"

definition set_kernel :: "kernel \<Rightarrow> 'f system \<Rightarrow> 'f system" where
  "set_kernel k s = s\<lparr>prc := upd_kern (\<lambda>_. k) (prc s)\<rparr>"

lemma set_kernel_sel [simp]:
  "kernel_of (set_kernel k s) = k" "frames (set_kernel k s) = frames s" "ptf (set_kernel k s) = ptf s"
  "ticks (set_kernel k s) = ticks s"
  by (simp_all add: set_kernel_def)

lemma upd_frame_sel [simp]:
  "frames (upd_frame t f s) = (frames s)(t := f (frames s t))" "prc (upd_frame t f s) = prc s"
  "ptf (upd_frame t f s) = ptf s" "ticks (upd_frame t f s) = ticks s"
  by (simp_all add: upd_frame_def)

text \<open>How a call ends: with a value, never, or at a switch to another process.\<close>

datatype outcome = Returned int | Gone | Blocked

text \<open>What the calls get from elsewhere: file systems, the answers of the allocators, addresses of local variables.\<close>

record 'f env =
  e_ops :: "'f inode_ops"
  e_fsops :: "'f fs_ops"
  e_fork :: fork_env
  e_buf :: "nat option"
  e_local :: nat
  e_timer :: nat
  e_kbd :: nat
  e_getc :: "8 word"
  e_execve :: "nat \<Rightarrow> int \<Rightarrow> nat \<Rightarrow> 'f system \<Rightarrow> (outcome \<times> 'f system) option"

section \<open>System calls\<close>

text \<open>A call with the arguments the wrapper of \<^verbatim>\<open>syscall.c\<close> passes on, converted to their types.\<close>

datatype call =
    SysExit int | SysFork | SysWait int nat | SysExec nat int nat | SysYield | SysSleep "32 word" | SysKill int
  | SysGettime | SysGetpid | SysPutc int | SysPgdir | SysOpen nat "32 word" | SysClose int | SysRead int nat nat
  | SysWrite int nat nat | SysSeek int int int | SysFstat int nat | SysFsync int | SysGetcwd nat nat
  | SysGetdirentry int nat | SysDup int int | SysSetPriority "64 word"

text \<open>The conversion \<^verbatim>\<open>(int)\<close> of a 64-bit argument.\<close>

definition as32 :: "64 word \<Rightarrow> int" where
  "as32 w = sint (ucast w :: 32 word)"

definition sys_exit :: "64 word list \<Rightarrow> call" where "sys_exit arg = SysExit (as32 (arg ! 0))"
definition sys_fork :: "64 word list \<Rightarrow> call" where "sys_fork arg = SysFork"
definition sys_wait :: "64 word list \<Rightarrow> call" where "sys_wait arg = SysWait (as32 (arg ! 0)) (unat (arg ! 1))"
definition sys_exec :: "64 word list \<Rightarrow> call" where
  "sys_exec arg = SysExec (unat (arg ! 0)) (as32 (arg ! 1)) (unat (arg ! 2))"
definition sys_yield :: "64 word list \<Rightarrow> call" where "sys_yield arg = SysYield"
definition sys_kill :: "64 word list \<Rightarrow> call" where "sys_kill arg = SysKill (as32 (arg ! 0))"
definition sys_getpid :: "64 word list \<Rightarrow> call" where "sys_getpid arg = SysGetpid"
definition sys_putc :: "64 word list \<Rightarrow> call" where "sys_putc arg = SysPutc (as32 (arg ! 0))"
definition sys_pgdir :: "64 word list \<Rightarrow> call" where "sys_pgdir arg = SysPgdir"
definition sys_gettime :: "64 word list \<Rightarrow> call" where "sys_gettime arg = SysGettime"
definition sys_lab6_set_priority :: "64 word list \<Rightarrow> call" where "sys_lab6_set_priority arg = SysSetPriority (arg ! 0)"
definition sys_sleep :: "64 word list \<Rightarrow> call" where "sys_sleep arg = SysSleep (ucast (arg ! 0))"
definition sys_open :: "64 word list \<Rightarrow> call" where "sys_open arg = SysOpen (unat (arg ! 0)) (ucast (arg ! 1))"
definition sys_close :: "64 word list \<Rightarrow> call" where "sys_close arg = SysClose (as32 (arg ! 0))"
definition sys_read :: "64 word list \<Rightarrow> call" where
  "sys_read arg = SysRead (as32 (arg ! 0)) (unat (arg ! 1)) (unat (arg ! 2))"
definition sys_write :: "64 word list \<Rightarrow> call" where
  "sys_write arg = SysWrite (as32 (arg ! 0)) (unat (arg ! 1)) (unat (arg ! 2))"
definition sys_seek :: "64 word list \<Rightarrow> call" where
  "sys_seek arg = SysSeek (as32 (arg ! 0)) (sint (arg ! 1)) (as32 (arg ! 2))"
definition sys_fstat :: "64 word list \<Rightarrow> call" where "sys_fstat arg = SysFstat (as32 (arg ! 0)) (unat (arg ! 1))"
definition sys_fsync :: "64 word list \<Rightarrow> call" where "sys_fsync arg = SysFsync (as32 (arg ! 0))"
definition sys_getcwd :: "64 word list \<Rightarrow> call" where "sys_getcwd arg = SysGetcwd (unat (arg ! 0)) (unat (arg ! 1))"
definition sys_getdirentry :: "64 word list \<Rightarrow> call" where
  "sys_getdirentry arg = SysGetdirentry (as32 (arg ! 0)) (unat (arg ! 1))"
definition sys_dup :: "64 word list \<Rightarrow> call" where "sys_dup arg = SysDup (as32 (arg ! 0)) (as32 (arg ! 1))"

text \<open>The table; it has 256 entries.\<close>

definition syscalls :: "int \<Rightarrow> (64 word list \<Rightarrow> call) option" where
  "syscalls = map_of
     [(1, sys_exit), (2, sys_fork), (3, sys_wait), (4, sys_exec), (10, sys_yield), (11, sys_sleep), (12, sys_kill),
      (17, sys_gettime), (18, sys_getpid), (30, sys_putc), (31, sys_pgdir), (100, sys_open), (101, sys_close),
      (102, sys_read), (103, sys_write), (104, sys_seek), (110, sys_fstat), (111, sys_fsync), (121, sys_getcwd),
      (128, sys_getdirentry), (130, sys_dup), (255, sys_lab6_set_priority)]"

abbreviation (input) NUM_SYSCALLS :: int where "NUM_SYSCALLS \<equiv> 256"

text \<open>A call that works on the files of the process, and \<^verbatim>\<open>sys_wait\<close> with the exit code it stores.\<close>

definition file_call :: "('f uproc \<Rightarrow> (int \<times> 'f uproc) option) \<Rightarrow> 'f system \<Rightarrow> (outcome \<times> 'f system) option" where
  "file_call f s = do { (r, u) \<leftarrow> f (usr s); Some (Returned r, s\<lparr>usr := u\<rparr>) }"

definition wait_call :: "int \<Rightarrow> nat \<Rightarrow> 'f system \<Rightarrow> (outcome \<times> 'f system) option" where
  "wait_call x store s =
     (let (ok, m) = (if store \<noteq> 0 then user_mem_check (umm (usr s)) store 4 True else (True, umm (usr s)));
          s = s\<lparr>usr := (usr s)\<lparr>umm := m\<rparr>\<rparr>
      in do {
        (r, q) \<leftarrow> do_wait x (store \<noteq> 0) ok (prc s);
        let s = s\<lparr>prc := q\<rparr>;
        Some (case r of
            WaitSleeps \<Rightarrow> (Blocked, s)
          | WaitDone v None \<Rightarrow> (Returned v, s)
          | WaitDone v (Some code) \<Rightarrow>
              (Returned v, s\<lparr>usr := set_mem (store_at (SysFile.mem (usr s)) store (le_bytes 4 (nat (code mod 2 ^ 32)))) (usr s)\<rparr>))
      })"

text \<open>
  The frame of a new process, at the end of its kernel stack: \<^verbatim>\<open>do_fork\<close> calls \<^verbatim>\<open>copy_thread\<close> once nothing can fail any more, before
  it makes the child known; the two touch nothing in common, so here the frame is made after \<open>do_fork\<close>, of which it is
  left out.  A frame takes 36 registers.
\<close>

abbreviation (input) KSTACKSIZE :: nat where "KSTACKSIZE \<equiv> 8192"

definition copy_thread :: "nat \<Rightarrow> 64 word \<Rightarrow> trapframe \<Rightarrow> 'f system \<Rightarrow> 'f system" where
  "copy_thread p esp tf s =
     (let a = kstack (Sched.procs (kernel_of s) p) + KSTACKSIZE - 36 * 8
      in s\<lparr>ptf := (ptf s)(p := a),
           frames := (frames s)(a := tf\<lparr>gpr := (gpr tf)(A0 := 0, SP := if esp = 0 then word_of_nat a else esp)\<rparr>)\<rparr>)"

definition fork_call :: "fork_env \<Rightarrow> 'f system \<Rightarrow> (outcome \<times> 'f system) option" where
  "fork_call e s = do {
     let tf = frames s (ptf s (running s));
     (r, q) \<leftarrow> do_fork 0 e (prc s);
     let s = s\<lparr>prc := q\<rparr>;
     Some (Returned r, case e_proc e of Some p \<Rightarrow> (if r > 0 then copy_thread p (gpr tf SP) tf s else s) | None \<Rightarrow> s)
   }"

text \<open>What the wrappers call.\<close>

fun perform :: "'f env \<Rightarrow> call \<Rightarrow> 'f system \<Rightarrow> (outcome \<times> 'f system) option" where
  "perform e (SysExit code) s = do { q \<leftarrow> do_exit code (prc s); Some (Gone, s\<lparr>prc := q\<rparr>) }"
| "perform e SysFork s = fork_call (e_fork e) s"
| "perform e (SysWait x store) s = wait_call x store s"
| "perform e (SysExec name argc argv) s = e_execve e name argc argv s"
| "perform e SysYield s = (let (r, q) = do_yield (prc s) in Some (Returned r, s\<lparr>prc := q\<rparr>))"
| "perform e (SysSleep time) s = do {
     (slept, q) \<leftarrow> do_sleep_begin (e_timer e) (unat time) (prc s);
     Some (if slept then Blocked else Returned 0, s\<lparr>prc := q\<rparr>)
   }"
| "perform e (SysKill x) s = do { (r, q) \<leftarrow> do_kill x (prc s); Some (Returned r, s\<lparr>prc := q\<rparr>) }"
| "perform e SysGettime s = Some (Returned (sint ((ucast (ticks s) :: 32 word) * 10)), s)"
| "perform e SysGetpid s = Some (Returned (pid (kernel.procs (kernel_of s) (running s))), s)"
| "perform e (SysPutc c) s = Some (Returned 0, s\<lparr>console := console s @ [c]\<rparr>)"
| "perform e SysPgdir s = Some (Returned 0, s)"
| "perform e (SysOpen path fl) s = file_call (sysfile_open (e_ops e) (e_fsops e) (e_buf e) path fl) s"
| "perform e (SysClose x) s = file_call (sysfile_close (e_ops e) x) s"
| "perform e (SysRead x base len) s = file_call (sysfile_read (e_ops e) (e_buf e) x base len) s"
| "perform e (SysWrite x base len) s = file_call (sysfile_write (e_ops e) (e_buf e) x base len) s"
| "perform e (SysSeek x p whence) s = file_call (sysfile_seek (e_ops e) x p whence) s"
| "perform e (SysFstat x st) s = file_call (sysfile_fstat (e_ops e) (e_local e) x st) s"
| "perform e (SysFsync x) s = file_call (sysfile_fsync (e_ops e) x) s"
| "perform e (SysGetcwd buf len) s = file_call (sysfile_getcwd (e_ops e) buf len) s"
| "perform e (SysGetdirentry x d) s = file_call (sysfile_getdirentry (e_ops e) (e_buf e) x d) s"
| "perform e (SysDup x y) s = file_call (sysfile_dup x y) s"
| "perform e (SysSetPriority p) s =
     Some (Returned 0, s\<lparr>stride := lab6_set_priority (running s) (ucast p) (stride s)\<rparr>)"

definition syscall :: "'f env \<Rightarrow> 'f system \<Rightarrow> (outcome \<times> 'f system) option" where
  "syscall e s =
     (let t = ptf s (running s); g = gpr (frames s t); num = as32 (g A0)
      in if 0 \<le> num \<and> num < NUM_SYSCALLS
         then (case syscalls num of
                 None \<Rightarrow> None
               | Some f \<Rightarrow> do {
                   (r, s) \<leftarrow> perform e (f (map g [A1, 12, 13, 14, 15])) s;
                   Some (r, case r of
                       Returned v \<Rightarrow> upd_frame t (\<lambda>f. f\<lparr>gpr := (gpr f)(A0 := word_of_int v)\<rparr>) s
                     | _ \<Rightarrow> s)
                 })
         else None)"

section \<open>The stubs of the user library\<close>

text \<open>
  The number and the arguments each stub passes, and the registers at the \<^verbatim>\<open>ecall\<close>: \<^verbatim>\<open>lw\<close> loads the lower half of each
  value, sign-extended; an argument a stub does not pass is whatever \<^verbatim>\<open>va_arg\<close> finds, \<open>junk\<close>.
\<close>

fun user_stub :: "call \<Rightarrow> int \<times> 64 word list" where
  "user_stub (SysExit code) = (1, [word_of_int code])"
| "user_stub SysFork = (2, [])"
| "user_stub (SysWait x store) = (3, [word_of_int x, word_of_nat store])"
| "user_stub SysYield = (10, [])"
| "user_stub (SysKill x) = (12, [word_of_int x])"
| "user_stub SysGetpid = (18, [])"
| "user_stub (SysPutc c) = (30, [word_of_int c])"
| "user_stub SysPgdir = (31, [])"
| "user_stub (SysSetPriority p) = (255, [p])"
| "user_stub (SysSleep time) = (11, [ucast time])"
| "user_stub SysGettime = (17, [])"
| "user_stub (SysExec name argc argv) = (4, [word_of_nat name, word_of_int argc, word_of_nat argv])"
| "user_stub (SysOpen path fl) = (100, [word_of_nat path, ucast fl])"
| "user_stub (SysClose x) = (101, [word_of_int x])"
| "user_stub (SysRead x base len) = (102, [word_of_int x, word_of_nat base, word_of_nat len])"
| "user_stub (SysWrite x base len) = (103, [word_of_int x, word_of_nat base, word_of_nat len])"
| "user_stub (SysSeek x p whence) = (104, [word_of_int x, word_of_int p, word_of_int whence])"
| "user_stub (SysFstat x st) = (110, [word_of_int x, word_of_nat st])"
| "user_stub (SysFsync x) = (111, [word_of_int x])"
| "user_stub (SysGetcwd buf len) = (121, [word_of_nat buf, word_of_nat len])"
| "user_stub (SysGetdirentry x d) = (128, [word_of_int x, word_of_nat d])"
| "user_stub (SysDup x y) = (130, [word_of_int x, word_of_int y])"

definition lw :: "64 word \<Rightarrow> 64 word" where
  "lw w = scast (ucast w :: 32 word)"

definition user_syscall :: "(nat \<Rightarrow> 64 word) \<Rightarrow> int \<times> 64 word list \<Rightarrow> trapframe \<Rightarrow> trapframe" where
  "user_syscall junk n f =
     (case n of (num, args) \<Rightarrow>
        f\<lparr>gpr := (\<lambda>r. if r = A0 then lw (word_of_int num)
                      else if A1 \<le> r \<and> r \<le> 15 then lw (if r - A1 < length args then args ! (r - A1) else junk (r - A1))
                      else gpr f r)\<rparr>)"

section \<open>Traps\<close>

text \<open>A keyboard character goes to the buffer of \<^verbatim>\<open>dev_stdin.c\<close> on the kernel of the system.\<close>

definition key_pressed :: "nat \<Rightarrow> 8 word \<Rightarrow> 'f system \<Rightarrow> 'f system option" where
  "key_pressed wq c s = do {
     d \<leftarrow> dev_stdin_write wq c \<lparr>kern = kernel_of s, umem = SysFile.mem (usr s), stdin_buffer = kbd_buffer s,
                               p_rpos = kbd_rpos s, p_wpos = kbd_wpos s\<rparr>;
     Some ((set_kernel (Device.kern d) s)\<lparr>kbd_buffer := stdin_buffer d, kbd_rpos := p_rpos d, kbd_wpos := p_wpos d\<rparr>)
   }"

text \<open>The cause without its interrupt bit: it is shifted left and, as an unsigned number, right again.\<close>

definition irq_of :: "64 word \<Rightarrow> int" where
  "irq_of c = sint (drop_bit 1 (push_bit 1 c))"

definition interrupt_handler :: "'f env \<Rightarrow> nat \<Rightarrow> 'f system \<Rightarrow> 'f system option" where
  "interrupt_handler e t s =
     (if irq_of (cause (frames s t)) = 5
      then do {
        let s = s\<lparr>ticks := ticks s + 1\<rparr>;
        k \<leftarrow> run_timer_list (kernel_of s);
        key_pressed (e_kbd e) (e_getc e) (set_kernel k s)
      }
      else Some s)"

definition exception_handler :: "'f env \<Rightarrow> nat \<Rightarrow> 'f system \<Rightarrow> (outcome \<times> 'f system) option" where
  "exception_handler e t s =
     (let c = cause (frames s t) in
      if c = 6 then None
      else if c = 8 \<or> c = 9 then syscall e (upd_frame t (\<lambda>f. f\<lparr>epc := epc f + 4\<rparr>) s)
      else Some (Returned 0, s))"

definition trap_dispatch :: "'f env \<Rightarrow> nat \<Rightarrow> 'f system \<Rightarrow> (outcome \<times> 'f system) option" where
  "trap_dispatch e t s =
     (if sint (cause (frames s t)) < 0
      then do { s \<leftarrow> interrupt_handler e t s; Some (Returned 0, s) }
      else exception_handler e t s)"

definition trap_in_kernel :: "trapframe \<Rightarrow> bool" where
  "trap_in_kernel f \<longleftrightarrow> status f AND SSTATUS_SPP \<noteq> 0"

text \<open>\<^verbatim>\<open>trap\<close> once there is a current process; before, it is \<^verbatim>\<open>trap_dispatch\<close> alone.\<close>

definition trap :: "'f env \<Rightarrow> nat \<Rightarrow> 'f system \<Rightarrow> (outcome \<times> 'f system) option" where
  "trap e t s =
     (let c = running s; otf = ptf s c; s = s\<lparr>ptf := (ptf s)(c := t)\<rparr>; in_kernel = trap_in_kernel (frames s t)
      in do {
        (r, s) \<leftarrow> trap_dispatch e t s;
        (case r of
           Returned v \<Rightarrow>
             (let s = s\<lparr>ptf := (ptf s)(c := otf)\<rparr>
              in if in_kernel then Some (r, s)
                 else if pflags (kernel.procs (kernel_of s) c) AND PF_EXITING \<noteq> 0
                 then do { q \<leftarrow> do_exit (- E_KILLED) (prc s); Some (Gone, s\<lparr>prc := q\<rparr>) }
                 else if need_resched (kernel.procs (kernel_of s) c)
                 then do { k \<leftarrow> schedule (kernel_of s); Some (Blocked, set_kernel k s) }
                 else Some (r, s))
         | _ \<Rightarrow> Some (r, s))
      })"

text \<open>The registers \<^verbatim>\<open>load_icode\<close> leaves in the trap frame of the process for the program it has loaded.\<close>

definition load_icode_frame :: "int \<Rightarrow> nat \<Rightarrow> 64 word \<Rightarrow> trapframe \<Rightarrow> trapframe" where
  "load_icode_frame argc stacktop entry f =
     \<lparr>gpr = (\<lambda>_. 0)(SP := word_of_nat stacktop, A0 := word_of_int argc, A1 := word_of_nat stacktop),
      status = (status f OR SSTATUS_SPIE) AND NOT SSTATUS_SPP, epc = entry, cause = 0\<rparr>"


section \<open>From the user's registers to the call\<close>

text \<open>What the stubs can pass through \<^verbatim>\<open>lw\<close>: numbers of 32 bits and addresses and lengths below \<open>2 ^ 31\<close>.\<close>

definition int32 :: "int \<Rightarrow> bool" where
  "int32 v \<longleftrightarrow> - (2 ^ 31) \<le> v \<and> v < 2 ^ 31"

definition low :: "nat \<Rightarrow> bool" where
  "low a \<longleftrightarrow> a < 2 ^ 31"

fun call_fits :: "call \<Rightarrow> bool" where
  "call_fits (SysExit code) = int32 code"
| "call_fits (SysWait x store) = (int32 x \<and> low store)"
| "call_fits (SysExec name argc argv) = (low name \<and> int32 argc \<and> low argv)"
| "call_fits (SysKill x) = int32 x"
| "call_fits (SysPutc c) = int32 c"
| "call_fits (SysOpen path fl) = low path"
| "call_fits (SysClose x) = int32 x"
| "call_fits (SysRead x base len) = (int32 x \<and> low base \<and> low len)"
| "call_fits (SysWrite x base len) = (int32 x \<and> low base \<and> low len)"
| "call_fits (SysSeek x p whence) = (int32 x \<and> int32 p \<and> int32 whence)"
| "call_fits (SysFstat x st) = (int32 x \<and> low st)"
| "call_fits (SysFsync x) = int32 x"
| "call_fits (SysGetcwd buf len) = (low buf \<and> low len)"
| "call_fits (SysGetdirentry x d) = (int32 x \<and> low d)"
| "call_fits (SysDup x y) = (int32 x \<and> int32 y)"
| "call_fits (SysSetPriority p) = low (unat p)"
| "call_fits c = True"

lemma low_half: "ucast (word_of_int v :: 64 word) = (word_of_int v :: 32 word)"
  by transfer (simp add: take_bit_take_bit)

lemma sint_low_half: "int32 v \<Longrightarrow> sint (word_of_int v :: 32 word) = v"
  by (simp add: sint_sbintrunc' int32_def signed_take_bit_int_eq_self)

lemma lw_int: "int32 v \<Longrightarrow> lw (word_of_int v) = word_of_int v"
  by (simp add: lw_def low_half scast_eq sint_low_half)

lemma lw_nat: "low a \<Longrightarrow> lw (word_of_nat a) = word_of_nat a"
  using lw_int [of "int a"] by (simp add: low_def int32_def)

lemma as32_int: "int32 v \<Longrightarrow> as32 (word_of_int v) = v"
  by (simp add: as32_def low_half sint_low_half)

lemma sint_int32: "int32 v \<Longrightarrow> sint (word_of_int v :: 64 word) = v"
  by (simp add: sint_sbintrunc' int32_def signed_take_bit_int_eq_self)

lemma unat_low: "low a \<Longrightarrow> unat (word_of_nat a :: 64 word) = a"
  by (simp add: low_def unat_of_nat)

lemma lw_ucast: "ucast (lw (ucast w)) = w" for w :: "32 word"
proof -
  have "ucast (ucast w :: 64 word) = w" by transfer (simp add: take_bit_take_bit)
  moreover have "ucast (scast w :: 64 word) = w" by transfer (simp add: take_bit_signed_take_bit)
  ultimately show ?thesis by (simp add: lw_def)
qed

lemma lw_low: "low (unat w) \<Longrightarrow> lw w = w"
  using lw_nat [of "unat w"] by simp

lemmas passed = lw_int lw_nat as32_int sint_int32 unat_low lw_ucast lw_low

lemma first_args: "[0..<5] = [0::nat, 1, 2, 3, 4]"
  by (simp add: upt_rec)

lemma stub_number: "int32 (fst (user_stub c)) \<and> 0 \<le> fst (user_stub c) \<and> fst (user_stub c) < NUM_SYSCALLS"
  by (cases c) (simp_all add: int32_def)

text \<open>The wrapper the table has for the number of a stub finds the arguments the stub was given.\<close>

lemma stub_decodes:
  assumes "call_fits c" and "n = user_stub c"
    and "arg = map (\<lambda>i. lw (if i < length (snd n) then snd n ! i else junk i)) [0..<5]"
  shows "\<exists>f. syscalls (fst n) = Some f \<and> f arg = c"
  using assms
  by (cases c)
     (simp_all add: syscalls_def upt_rec passed sys_exit_def sys_fork_def sys_wait_def sys_exec_def sys_yield_def
      sys_kill_def sys_getpid_def sys_putc_def sys_pgdir_def sys_gettime_def sys_lab6_set_priority_def sys_sleep_def
      sys_open_def sys_close_def sys_read_def sys_write_def sys_seek_def sys_fstat_def sys_fsync_def sys_getcwd_def
      sys_getdirentry_def sys_dup_def)

lemma syscall_performs:
  assumes "call_fits c" and "frames s (ptf s (running s)) = user_syscall junk (user_stub c) f"
  shows "syscall e s = do {
     (r, s') \<leftarrow> perform e c s;
     Some (r, case r of
         Returned v \<Rightarrow> upd_frame (ptf s (running s)) (\<lambda>f. f\<lparr>gpr := (gpr f)(A0 := word_of_int v)\<rparr>) s'
       | _ \<Rightarrow> s')
   }"
proof -
  let ?g = "gpr (frames s (ptf s (running s)))" and ?n = "user_stub c"
  have g0: "?g A0 = lw (word_of_int (fst ?n))"
    unfolding assms(2) by (simp add: user_syscall_def split_beta)
  have n: "as32 (?g A0) = fst ?n"
    using stub_number [of c] unfolding g0 by (simp add: passed)
  have "?g (A1 + i) = lw (if i < length (snd ?n) then snd ?n ! i else junk i)" if "i < 5" for i
    unfolding assms(2) using that by (simp add: user_syscall_def split_beta)
  from this [of 0] this [of 1] this [of 2] this [of 3] this [of 4]
  have "map ?g [A1, 12, 13, 14, 15] = map (\<lambda>i. lw (if i < length (snd ?n) then snd ?n ! i else junk i)) [0..<5]"
    unfolding first_args by (simp del: length_greater_0_conv)
  from stub_decodes [OF assms(1) refl this]
  obtain g where g: "syscalls (fst ?n) = Some g" "g (map ?g [A1, 12, 13, 14, 15]) = c" by blast
  show ?thesis
    unfolding syscall_def Let_def n using stub_number [of c] g by simp
qed

section \<open>A clock tick in user mode\<close>

text \<open>Nothing is due for \<open>c\<close> itself: a runnable process has no timer.\<close>

definition ticking :: "kernel \<Rightarrow> nat list \<Rightarrow> nat list \<Rightarrow> bool" where
  "ticking k ps ts \<longleftrightarrow> sched_inv k ps \<and> timers_inv k ts \<and> (\<forall>d\<in>set (due k ts). 0 < d) \<and>
     (\<forall>u\<in>set ts. wakeable k (the (tproc (timers k u))) \<and> the (tproc (timers k u)) \<noteq> current k) \<and>
     length ps + length ts + 2 < 2 ^ 32 \<and> current k \<noteq> idleproc k \<and> state (Sched.procs k (current k)) = PROC_RUNNABLE"

text \<open>The sleeping processes whose timers run out with this tick, in the order of the timers.\<close>

definition sleepers_due :: "kernel \<Rightarrow> nat list \<Rightarrow> nat list" where
  "sleepers_due k ts = filter (asleep k)
     (firsts (map (\<lambda>t. the (tproc (timers k t))) (take (length (takeWhile (\<lambda>d. d = 1) (due k ts))) ts)))"

lemma ticking_run_timer_list:
  assumes "ticking k ps ts"
  shows "\<exists>k'. run_timer_list k = Some k' \<and> sched_inv k' (ps @ sleepers_due k ts) \<and>
     current k' = current k \<and> idleproc k' = idleproc k \<and>
     Sched.procs k' (current k) = tick_slice (Sched.procs k (current k))"
proof -
  let ?c = "current k" and ?now = "map (\<lambda>t. the (tproc (timers k t))) (take (length (takeWhile (\<lambda>d. d = 1) (due k ts))) ts)"
  have c: "?c \<notin> set ?now" using assms by (auto simp: ticking_def dest: in_set_takeD)
  have tick: "Sched.procs (sched_class_proc_tick ?c k) ?c = tick_slice (Sched.procs k ?c)"
    using assms by (simp add: ticking_def sched_class_proc_tick_def RR_proc_tick_def)
  have "sched_inv k ps" "timers_inv k ts" "\<forall>d\<in>set (due k ts). 0 < d"
    "\<forall>u\<in>set ts. wakeable k (the (tproc (timers k u)))" "length ps + length ts + 2 < 2 ^ 32"
    using assms by (simp_all add: ticking_def)
  from run_timer_list_ok [OF this] obtain k' qs where "run_timer_list k = Some k'" "sched_inv k' (ps @ qs)"
    "qs = filter (asleep k) (firsts ?now)" "current k' = ?c" "idleproc k' = idleproc k"
    "?c \<notin> set ?now \<longrightarrow> Sched.procs k' ?c = Sched.procs (sched_class_proc_tick ?c k) ?c" by blast
  then show ?thesis using c by (intro exI [of _ k']) (simp add: sleepers_due_def tick)
qed

lemma timer_cause: "irq_of 0x8000000000000005 = 5" "sint (0x8000000000000005 :: 64 word) < 0"
  by (simp_all add: irq_of_def)

lemma tick_slice_sel [simp]:
  "pflags (tick_slice g) = pflags g" "state (tick_slice g) = state g"
  "0 < time_slice g \<Longrightarrow> time_slice (tick_slice g) = time_slice g - 1"
  "0 \<le> time_slice g \<Longrightarrow> need_resched (tick_slice g) \<longleftrightarrow> need_resched g \<or> time_slice g \<le> 1"
  by (auto simp: tick_slice_def Let_def)

section \<open>The properties\<close>

text \<open>
  C32: A system call arrives as it was made: for every call of the user library whose numbers fit 32 bits and whose addresses
  and lengths lie below \<open>2 ^ 31\<close>, the registers the stub fills make \<^verbatim>\<open>syscall\<close> perform exactly this call with exactly its
  arguments, whatever the stub left in the other registers, and the value of the call comes back in \<^verbatim>\<open>a0\<close>.
\<close>

theorem syscall_roundtrip:
  assumes "call_fits c" and "frames s (ptf s (running s)) = user_syscall junk (user_stub c) f"
  shows "syscall e s = do {
     (r, s') \<leftarrow> perform e c s;
     Some (r, case r of
         Returned v \<Rightarrow> upd_frame (ptf s (running s)) (\<lambda>f. f\<lparr>gpr := (gpr f)(A0 := word_of_int v)\<rparr>) s'
       | _ \<Rightarrow> s')
   }"
  by (rule syscall_performs [OF assms])

text \<open>The process of \<open>ex_proc\<close> runs as process 1; \<open>f\<close> is its trap frame.\<close>

definition ex_system :: "kernel \<Rightarrow> trapframe \<Rightarrow> unit system" where
  "ex_system k f = \<lparr>prc = upd_kern (\<lambda>_. k) sample_psys, usr = ex_proc, stride = small_rq, kbd_buffer = (\<lambda>_. 0), kbd_rpos = 0, kbd_wpos = 0,
     frames = (\<lambda>_. f), ptf = (\<lambda>_. 0), ticks = 41, console = []\<rparr>"

definition ex_frame :: "64 word \<Rightarrow> trapframe" where
  "ex_frame c = \<lparr>gpr = (\<lambda>_. 7), status = SSTATUS_SPIE, epc = 0x800020, cause = c\<rparr>"

definition ex_fsops :: "unit fs_ops" where
  "ex_fsops = \<lparr>fs_sync = (\<lambda>_ v. Some (0, v)), fs_get_root = (\<lambda>_ v. Some (None, v)), fs_unmount = (\<lambda>_ v. Some (0, v)),
     fs_cleanup = (\<lambda>_ v. Some v)\<rparr>"

definition ex_env :: "unit env" where
  "ex_env = \<lparr>e_ops = ex_ops, e_fsops = ex_fsops, e_fork = fork_resources, e_buf = None, e_local = 0, e_timer = 9, e_kbd = 9, e_getc = 0,
     e_execve = (\<lambda>name argc argv s. Some (Returned 0, upd_frame 0 (load_icode_frame argc 0x7FFFFFE0 0x800020) s))\<rparr>"

lemma sample_kernel_pflags [simp]: "pflags (Sched.procs sample_kernel p) = 0"
  by (simp add: sample_kernel_def sched_init_def RR_init_def boot_kernel_def sample_proc_def refill_def)

lemma ex_system_sel [simp]:
  "kernel_of (ex_system k f) = k" "frames (ex_system k f) t = f" "ptf (ex_system k f) p = 0" "usr (ex_system k f) = ex_proc"
  by (simp_all add: ex_system_def upd_kern_def)

theorem syscall_roundtrip_witness:
  "\<exists>s'. syscall ex_env (ex_system sample_kernel (user_syscall (\<lambda>_. 0xFFFFFFFF12345678) (user_stub (SysSeek 5 (- 3) 1)) (ex_frame 8))) =
     Some (Returned 0, s') \<and> pos (fds (pf (usr s')) ! 5) = 1 \<and> gpr (frames s' 0) A0 = 0"
proof -
  let ?s = "ex_system sample_kernel (user_syscall (\<lambda>_. 0xFFFFFFFF12345678) (user_stub (SysSeek 5 (- 3) 1)) (ex_frame 8))"
  have fits: "call_fits (SysSeek 5 (- 3) 1)" by (simp add: int32_def)
  have "\<exists>q. file_seek ex_ops 5 (- 3) 1 (pf ex_proc) = Some (0, q) \<and> pos (fds q ! 5) = 1"
    by (simp add: file_seek_def ex_proc_def ex_ops_def fd2file_def get_fd_array_def fd_array_acquire_def fd_array_release_def
      vop_def inode_check_def upd_file_def testfd_def Let_def)
  then show ?thesis
    using syscall_roundtrip [OF fits, of ?s "\<lambda>_. 0xFFFFFFFF12345678" "ex_frame 8" ex_env]
    by (auto simp: file_call_def sysfile_seek_def ex_env_def upd_frame_def)
qed

text \<open>
  C33: A timer interrupt in user mode while no key is pressed (the handler also polls the console), from the interrupt to the next
  process: the clock advances, exactly the sleepers whose time has come join the run queue, in the order of their timers and behind those that wait there,
  and the running process keeps the processor with one tick less of its slice; when that was the last
  tick the process goes to the back of the queue and the head of the queue runs, in the invariant of the scheduler again.
\<close>

theorem tick_preempts:
  assumes tick: "ticking (kernel_of s) ps ts" and user: "\<not> trap_in_kernel (frames s t)"
    and cause: "cause (frames s t) = 0x8000000000000005" and key: "e_getc e = 0"
    and alive: "pflags (Sched.procs (kernel_of s) (running s)) AND PF_EXITING = 0"
    and slice: "0 \<le> time_slice (Sched.procs (kernel_of s) (running s))"
  defines "g \<equiv> Sched.procs (kernel_of s) (running s)" and "qs \<equiv> sleepers_due (kernel_of s) ts"
  shows "\<exists>r s'. trap e t s = Some (r, s') \<and> ticks s' = ticks s + 1 \<and>
     frames s' = frames s \<and>
     (if 1 < time_slice g \<and> \<not> need_resched g
      then r = Returned 0 \<and> running s' = running s \<and> sched_inv (kernel_of s') (ps @ qs) \<and>
        time_slice (Sched.procs (kernel_of s') (running s)) = time_slice g - 1
      else r = Blocked \<and> running s' = hd (ps @ qs @ [running s]) \<and> sched_inv (kernel_of s') (tl (ps @ qs @ [running s])))"
proof -
  from ticking_run_timer_list [OF tick] obtain k' where k': "run_timer_list (kernel_of s) = Some k'" "sched_inv k' (ps @ qs)"
    "current k' = running s" "idleproc k' = idleproc (kernel_of s)"
    "Sched.procs k' (running s) = tick_slice g" unfolding g_def qs_def by blast
  define s1 where "s1 = set_kernel k' (s\<lparr>ticks := ticks s + 1\<rparr>)"
  have "trap_dispatch e t (s\<lparr>ptf := (ptf s)(running s := t)\<rparr>) = Some (Returned 0, s1\<lparr>ptf := (ptf s)(running s := t)\<rparr>)"
    using k'(1) cause key timer_cause
    by (simp add: trap_dispatch_def interrupt_handler_def key_pressed_def dev_stdin_write_def s1_def set_kernel_def)
  then have dispatched: "trap e t s =
      (if 1 < time_slice g \<and> \<not> need_resched g then Some (Returned 0, s1)
       else do { k \<leftarrow> schedule k'; Some (Blocked, set_kernel k s1) })"
    using user alive slice k'(5) by (auto simp: trap_def Let_def s1_def set_kernel_def upd_kern_def g_def)
  show ?thesis
  proof (cases "1 < time_slice g \<and> \<not> need_resched g")
    case True
    then show ?thesis using dispatched k' slice
      by (intro exI [of _ "Returned 0"] exI [of _ s1]) (simp add: s1_def)
  next
    case False
    have rq: "requeued k' (ps @ qs) = ps @ qs @ [running s]"
      using tick k'(3-5) by (simp add: requeued_def ticking_def g_def)
    obtain q rs where q: "ps @ qs @ [running s] = q # rs" by (metis append_is_Nil_conv neq_Nil_conv)
    from schedule_ok [OF k'(2)] obtain k2 where "schedule k' = Some k2" "current k2 = q" "sched_inv k2 rs"
      unfolding rq q by auto
    then show ?thesis using False dispatched
      by (intro exI [of _ Blocked] exI [of _ "set_kernel k2 s1"]) (auto simp: s1_def q)
  qed
qed

theorem tick_preempts_witness:
  "\<exists>s'. trap ex_env 0 (ex_system (upd_proc 1 (\<lambda>g. g\<lparr>time_slice := 1\<rparr>) timed_kernel) (ex_frame 0x8000000000000005)) = Some (Blocked, s') \<and>
     running s' = 2 \<and> ticks s' = 42 \<and> sched_inv (kernel_of s') [3, 4, 1]"
proof -
  let ?k = "upd_proc 1 (\<lambda>g. g\<lparr>time_slice := 1\<rparr>) timed_kernel"
  let ?s = "ex_system ?k (ex_frame 0x8000000000000005)"
  have inv: "sched_inv ?k [2, 3]" "timers_inv ?k [7]"
    using timed_kernel_inv by (auto simp: sched_inv_def timers_inv_def rq_inv_def)
  have f: "due ?k [7] = [1]" "the (tproc (timers ?k 7)) = 4" "wakeable ?k 4" "current ?k = 1" "idleproc ?k = 0"
    "state (Sched.procs ?k 1) = PROC_RUNNABLE" "pflags (Sched.procs ?k 1) = 0"
    "time_slice (Sched.procs ?k 1) = 1" "asleep ?k 4"
    by (simp_all add: due_def timed_kernel_def sample_timer_def wakeable_def asleep_def)
  then have t: "ticking (kernel_of ?s) [2, 3] [7]" using inv by (simp add: ticking_def)
  have q: "sleepers_due (kernel_of ?s) [7] = [4]" using f by (simp add: sleepers_due_def)
  from tick_preempts [OF t, of 0 ex_env] f obtain s' where "trap ex_env 0 ?s = Some (Blocked, s')" "running s' = 2" "ticks s' = ticks ?s + 1"
    "sched_inv (kernel_of s') [3, 4, 1]"
    unfolding q by (auto simp: ex_frame_def trap_in_kernel_def ex_env_def timed_kernel_def)
  then show ?thesis by (intro exI [of _ s']) (simp add: ex_system_def)
qed

text \<open>
  C34: \<^verbatim>\<open>fork\<close> returns twice: the parent goes on with the pid of the child in \<^verbatim>\<open>a0\<close> and every other register as it was, and the child,
  runnable and found under this pid, has the trap frame of the call with 0 in \<^verbatim>\<open>a0\<close>: it goes on at the same place, on the same
  stack addresses, with all the other registers equal.
\<close>

theorem fork_returns_twice:
  assumes call: "frames s (ptf s (running s)) = user_syscall junk (user_stub SysFork) f" and sp: "gpr f SP \<noteq> 0"
    and tb: "ptable (prc s) ls ps" and nr: "nr_process (prc s) < MAX_PROCESS" and few: "int (length ls) < MAX_PID - 1"
    and c: "kids (kernel_of s) (running s) cs" "running s \<notin> set cs" "wait_state (Sched.procs (kernel_of s) (running s)) = 0"
    and p: "e_proc (e_fork e) = Some p" "p \<notin> set ls" "p \<notin> set ps" "p \<notin> set cs" "p \<noteq> running s" "p \<noteq> idleproc (kernel_of s)"
    and ok: "e_kstack (e_fork e) = Some st" "mm_copies 0 (e_fork e) (prc s)" "files_copy 0 (e_fork e) (prc s)"
    and sz: "length ps + 2 < 2 ^ 32" and apart: "ptf s (running s) \<noteq> st + KSTACKSIZE - 36 * 8"
  shows "\<exists>x s'. syscall e s = Some (Returned x, s') \<and> 1 \<le> x \<and> x < MAX_PID \<and> running s' = running s \<and>
     frames s' (ptf s (running s)) = (frames s (ptf s (running s)))\<lparr>gpr := (gpr (frames s (ptf s (running s))))(A0 := word_of_int x)\<rparr> \<and>
     find_proc x (prc s') = Some (Some p) \<and> state (Sched.procs (kernel_of s') p) = PROC_RUNNABLE \<and>
     frames s' (ptf s' p) = (frames s (ptf s (running s)))\<lparr>gpr := (gpr (frames s (ptf s (running s))))(A0 := 0)\<rparr>"
proof -
  let ?c = "running s" and ?tf = "frames s (ptf s (running s))"
  from do_fork_ok [OF tb nr few refl c p ok sz] obtain x q where q: "do_fork 0 (e_fork e) (prc s) = Some (x, q)" "1 \<le> x" "x < MAX_PID"
    "find_proc x q = Some (Some p)" "state (proc_at q p) = PROC_RUNNABLE" "current (ProcTable.kern q) = ?c" "kstack (proc_at q p) = st"
    by blast
  have "gpr ?tf SP = gpr f SP" using call by (simp add: user_syscall_def)
  then have same: "(gpr ?tf)(A0 := 0, SP := gpr ?tf SP) = (gpr ?tf)(A0 := 0)" "gpr ?tf SP \<noteq> 0" using sp by auto
  have "perform e SysFork s = Some (Returned x, copy_thread p (gpr ?tf SP) ?tf (s\<lparr>prc := q\<rparr>))"
    using q(1,2) p(1) by (simp add: fork_call_def Let_def)
  then show ?thesis
    unfolding syscall_performs [of SysFork, OF _ call, simplified] using q same apart
    by (simp add: copy_thread_def Let_def)
qed

theorem fork_returns_twice_witness:
  "\<exists>x s'. syscall ex_env ((ex_system sample_kernel (user_syscall (\<lambda>_. 1) (user_stub SysFork) (ex_frame 8)))\<lparr>prc := fork_psys\<rparr>) =
     Some (Returned x, s') \<and> 1 \<le> x \<and> gpr (frames s' 0) A0 = word_of_int x \<and> gpr (frames s' (ptf s' 9)) A0 = 0 \<and>
     epc (frames s' (ptf s' 9)) = 0x800020 \<and> find_proc x (prc s') = Some (Some 9)"
proof -
  let ?s = "(ex_system sample_kernel (user_syscall (\<lambda>_. 1) (user_stub SysFork) (ex_frame 8)))\<lparr>prc := fork_psys\<rparr>"
  have "kids (kernel_of ?s) 1 []" by (simp add: kids_def fork_psys_simps del: One_nat_def)
  moreover have "e_proc (e_fork ex_env) = Some 9" "e_kstack (e_fork ex_env) = Some 70" "mm_copies 0 (e_fork ex_env) (prc ?s)"
    "files_copy 0 (e_fork ex_env) (prc ?s)"
    by (simp_all add: ex_env_def fork_resources_def mm_copies_def files_copy_def fork_psys_simps del: One_nat_def)
  ultimately obtain x s' where "syscall ex_env ?s = Some (Returned x, s')" "1 \<le> x" "find_proc x (prc s') = Some (Some 9)"
    "frames s' 0 = (frames ?s 0)\<lparr>gpr := (gpr (frames ?s 0))(A0 := word_of_int x)\<rparr>"
    "frames s' (ptf s' 9) = (frames ?s 0)\<lparr>gpr := (gpr (frames ?s 0))(A0 := 0)\<rparr>"
    using fork_returns_twice [of ?s "\<lambda>_. 1" "ex_frame 8" "[]" "[]" "[]" ex_env 9 70] fork_psys_ptable
    by (auto simp: fork_psys_simps ex_frame_def simp del: One_nat_def)
  then show ?thesis by (intro exI [of _ x] exI [of _ s']) (simp add: user_syscall_def ex_frame_def)
qed

text \<open>A page fault in user mode is only reported: the handler leaves every part of the state as it was, the program counter
  included, so the process meets the same fault at the same instruction when it goes on; it is neither mended nor killed.
\<close>

theorem fault_repeats:
  assumes "cause (frames s t) \<in> {12, 13, 15}"
    and "pflags (Sched.procs (kernel_of s) (running s)) AND PF_EXITING = 0"
    and "\<not> need_resched (Sched.procs (kernel_of s) (running s))"
  shows "trap e t s = Some (Returned 0, s)"
proof -
  have "\<not> sint (cause (frames s t)) < 0" "cause (frames s t) \<notin> {6, 8, 9}" using assms(1) by auto
  then show ?thesis using assms(2,3) by (simp add: trap_def trap_dispatch_def exception_handler_def Let_def)
qed

theorem fault_repeats_witness:
  "trap ex_env 0 (ex_system sample_kernel (ex_frame 13)) = Some (Returned 0, ex_system sample_kernel (ex_frame 13))"
  by (rule fault_repeats) (simp_all add: ex_frame_def)

text \<open>A program that a user process starts does not get its \<^verbatim>\<open>argc\<close>: \<^verbatim>\<open>load_icode\<close> puts it into \<^verbatim>\<open>a0\<close> of the new trap frame,
  and then \<^verbatim>\<open>syscall\<close> stores the return value of \<^verbatim>\<open>sys_exec\<close>, 0, in the same register.  The argument vector in \<^verbatim>\<open>a1\<close>, the stack
  and the entry point survive.
\<close>

theorem exec_loses_argc:
  assumes "call_fits (SysExec name argc argv)"
    and "frames s (ptf s (running s)) = user_syscall junk (user_stub (SysExec name argc argv)) f"
    and "e_execve e name argc argv s = Some (Returned 0, s')"
    and "frames s' (ptf s (running s)) = load_icode_frame argc stacktop entry f'"
  shows "\<exists>s''. syscall e s = Some (Returned 0, s'') \<and> gpr (frames s'' (ptf s (running s))) A0 = 0 \<and>
     gpr (frames s'' (ptf s (running s))) A1 = word_of_nat stacktop \<and> gpr (frames s'' (ptf s (running s))) SP = word_of_nat stacktop \<and>
     epc (frames s'' (ptf s (running s))) = entry"
  unfolding syscall_performs [OF assms(1,2)] using assms(3,4) by (simp add: load_icode_frame_def)

theorem exec_loses_argc_witness:
  "\<exists>s'. syscall ex_env (ex_system sample_kernel (user_syscall (\<lambda>_. 0) (user_stub (SysExec 0x800100 3 0x800200)) (ex_frame 8))) =
     Some (Returned 0, s') \<and> gpr (frames s' 0) A0 = 0 \<and> gpr (frames s' 0) A1 = 0x7FFFFFE0"
proof -
  let ?f = "user_syscall (\<lambda>_. 0) (user_stub (SysExec 0x800100 3 0x800200)) (ex_frame 8)"
  let ?s = "ex_system sample_kernel ?f" and ?g = "load_icode_frame 3 0x7FFFFFE0 0x800020"
  have "e_execve ex_env 0x800100 3 0x800200 ?s = Some (Returned 0, upd_frame 0 ?g ?s)" by (simp add: ex_env_def)
  moreover have "frames (upd_frame 0 ?g ?s) 0 = ?g ?f" by simp
  ultimately show ?thesis
    using exec_loses_argc [of "0x800100" 3 "0x800200" ?s "\<lambda>_. 0" "ex_frame 8" ex_env "upd_frame 0 ?g ?s" "0x7FFFFFE0" "0x800020" ?f]
    by (auto simp: low_def int32_def)
qed

end
