(* ===== verification/Spec2Isabelle.thy ===== *)
theory Spec2Isabelle
  imports BestFit Buddy PhilCond Bitmap Printf Cow SfsMount Kmalloc Trap
begin

text \<open>
  A verification library for the ucore teaching kernel of this repository, in its last stage, \<^verbatim>\<open>lab8\<close>: physical memory, page tables, processes,
  scheduling, synchronisation and the file system, as far as they are C code with a logic of their own.

  \<^bold>\<open>Conventions.\<close>  A C structure is a record, a C function a HOL function that takes and returns the state it works on.  \<open>None\<close> is a run that does
  not return: a failed \<^verbatim>\<open>assert\<close>, a \<^verbatim>\<open>panic\<close> or a loop without end.  Unsigned variables that are counted with are naturals with the
  wrap-around written out; values worked on bitwise are words.  A loop over a structure that may be cyclic is a \<open>partial_function\<close>, so that
  ``it returns'' is a proved statement.  Locks and disabled interrupts exclude other threads and leave no trace in the models; where blocking
  itself is the subject (\<open>WaitQueue\<close>, \<open>Semaphore\<close>, \<open>Monitor\<close>) a function is cut at the calls of \<^verbatim>\<open>schedule\<close>.

  \<^bold>\<open>Theories.\<close>  Paths are below \<^verbatim>\<open>src/lab8\<close> unless another lab is named.
  \<^item> \<open>Prelude\<close>: assertions, unsigned arithmetic, error numbers.
  \<^item> \<open>KList\<close> (\<^verbatim>\<open>libs/list.h\<close>): circular doubly linked lists on a store of pointers, related to HOL lists.  \<open>HashChain\<close>: tables of such lists with
    one bucket for each hash value; \<open>ProcTable\<close> and \<open>SfsMount\<close> use it.
  \<^item> \<open>PhysPages\<close>, \<open>FirstFit\<close> (\<^verbatim>\<open>kern/mm/memlayout.h\<close>, \<^verbatim>\<open>default_pmm.c\<close>): page descriptors and the first-fit allocator; the free list is sorted,
    disjoint and merged, no page is handed out twice, and the branch of \<^verbatim>\<open>default_free_pages\<close> that breaks this.
  \<^item> \<open>BestFit\<close> (\<^verbatim>\<open>lab2/Best-Fit/kern/mm/best_fit_pmm.c\<close>), \<open>Buddy\<close> (\<^verbatim>\<open>lab2/Buddy System/kern/mm/default_pmm.c\<close>): the two other page allocators, against the
    same contract: the smallest block that fits, and splitting and merging by orders with the double allocation that merging can cause.
  \<^item> \<open>PageTable\<close> (\<^verbatim>\<open>kern/mm/pmm.c\<close>, \<^verbatim>\<open>pmm.h\<close>, \<^verbatim>\<open>mmu.h\<close>): three-level page tables; mapping a page changes one address, and copying a range isolates
    parent and child.  \<open>Cow\<close> (\<^verbatim>\<open>lab5/kern/mm/pmm.c\<close>, \<^verbatim>\<open>vmm.c\<close>, \<^verbatim>\<open>lab5/kern/trap/trap.c\<close>): sharing pages at a fork and the page fault that copies them,
    with the reference count it forgets.
  \<^item> \<open>Vmm\<close> (\<^verbatim>\<open>kern/mm/vmm.c\<close>): the areas of an address space and the check of user pointers.
  \<^item> \<open>Ring\<close>, \<open>Kmalloc\<close> (\<^verbatim>\<open>kern/mm/kmalloc.c\<close>): the heap of the kernel on a ring of free blocks; blocks never overlap, and a block that is freed is joined.
  \<^item> \<open>Sched\<close> (\<^verbatim>\<open>kern/schedule/sched.c\<close>, \<^verbatim>\<open>default_sched.c\<close>): run queue, round robin, timers.  \<open>SkewHeap\<close>, \<open>Stride\<close> (\<^verbatim>\<open>libs/skew_heap.h\<close>,
    \<^verbatim>\<open>default_sched_stride.c\<close>): the pool of the stride scheduler.
  \<^item> \<open>WaitQueue\<close>, \<open>Semaphore\<close>, \<open>Monitor\<close> (\<^verbatim>\<open>kern/sync\<close>): sleeping and waking, semaphores against an abstract one, and monitors as a transition system of
    threads.  \<open>PhilSema\<close>, \<open>PhilCond\<close> (\<^verbatim>\<open>check_sync.c\<close>): the dining philosophers on both.
  \<^item> \<open>ProcTable\<close>, \<open>ProcLife\<close> (\<^verbatim>\<open>kern/process/proc.c\<close>): the process tables and the life cycle from \<^verbatim>\<open>do_fork\<close> over \<^verbatim>\<open>do_exit\<close> to \<^verbatim>\<open>do_wait\<close>.
  \<^item> \<open>Trap\<close> (\<^verbatim>\<open>kern/trap/trap.c\<close>, \<^verbatim>\<open>kern/syscall/syscall.c\<close>, \<^verbatim>\<open>user/libs/syscall.c\<close>): from the cause of a trap to the call or the clock and back; what a user
    stub passes is what the kernel performs.
  \<^item> \<open>CString\<close>, \<open>Printf\<close> (\<^verbatim>\<open>libs/string.c\<close>, \<^verbatim>\<open>printfmt.c\<close>): strings in memory, numbers printed and read, bounded output.
  \<^item> \<open>Bitmap\<close>, \<open>Disk\<close>, \<open>Sfs\<close>, \<open>SfsIo\<close>, \<open>SfsMount\<close> (\<^verbatim>\<open>kern/fs/sfs\<close>, \<^verbatim>\<open>kern/driver/ide.c\<close>, \<^verbatim>\<open>ramdisk.c\<close>, \<^verbatim>\<open>kern/fs/devs/dev_disk0.c\<close>): from sectors to the
    contents of files, the cache of inodes, and what a synchronised disk gives back when it is mounted.
  \<^item> \<open>Vfs\<close>, \<open>FileTable\<close>, \<open>Device\<close>, \<open>SysFile\<close> (\<^verbatim>\<open>kern/fs/vfs\<close>, \<^verbatim>\<open>iobuf.c\<close>, \<^verbatim>\<open>file.c\<close>, \<^verbatim>\<open>fs.c\<close>, \<^verbatim>\<open>kern/fs/devs\<close>, \<^verbatim>\<open>sysfile.c\<close>): inodes, names, open files, the
    keyboard and console, and the calls that carry data between the user and them.

  \<^bold>\<open>Interfaces.\<close>  A contract between components is a locale, interpreted on the models: the page allocators, the list and hash table laws, the queue
  the schedulers share, the pool of the stride scheduler, the two directions of a file transfer (\<open>block_io\<close>).

  \<^bold>\<open>Bounds and fuel.\<close>  Word sizes are those of the C types.  A disk has fewer than \<open>2\<^sup>20\<close> blocks, so that byte offsets fit 32 bits; user addresses lie below
  \<^verbatim>\<open>USERTOP\<close>.  No definition is cut off by fuel: loops are structural recursions, functions with a measure, or partial functions whose return is part of the
  theorem.

  \<^bold>\<open>Not modelled.\<close>  Assembler, device registers, firmware tables and boot code have no logic in C.  The kernel debugger, the prompt and printing are input and
  output.  \<^verbatim>\<open>load_icode\<close> and \<^verbatim>\<open>do_execve\<close> run over one byte memory in which pages, tables and kernel buffers alias; the models keep these apart, so
  only the trap frame such a call leaves is modelled.  \<^verbatim>\<open>dup_mmap\<close> and \<^verbatim>\<open>exit_mmap\<close> only loop over areas with operations that are modelled.  The SLUB allocator
  of \<^verbatim>\<open>lab2\<close> is a host program on \<^verbatim>\<open>malloc\<close>.  The other files of the earlier labs are stages of the same kernel.  Self tests, user programs and build
  tools are not part of the kernel.
\<close>

end
